(* ===== verification/PB_Prelude.thy ===== *)
theory PB_Prelude
  imports Main "HOL-Library.Word" "HOL-Library.Monad_Syntax"
begin

text \<open>
  Shared vocabulary of the development: the machine integers of the C code, the shape of a C
  function's result (out value, state, undefined behaviour), the loop combinator every C loop is
  written with and its proof rule, and little-endian conversions between words and bytes.
\<close>

unbundle bit_operations_syntax

named_theorems c_simps \<open>evaluation of the result combinators\<close>
named_theorems c_splits \<open>inversion of the result combinators\<close>

section \<open>Machine integers\<close>

type_synonym u8 = "8 word"
type_synonym u16 = "16 word"
type_synonym u32 = "32 word"
type_synonym u64 = "64 word"

text \<open>Addresses are integers; the null pointer is 0 and objects live at positive addresses.\<close>

type_synonym addr = int

section \<open>Results of C functions\<close>

text \<open>
  A C function of the library returns a truth value, writes an out parameter when it succeeds and
  changes a state (a stream, or a stream and the memory) in either case.  \<open>None\<close> as a whole is
  undefined behaviour (an access outside every object, a free of something that is no block) or a
  run that does not end; \<open>Some (None, s)\<close> is \<open>return false\<close> in state \<open>s\<close>, and
  \<open>Some (Some v, s)\<close> is \<open>return true\<close> with out value \<open>v\<close>.
\<close>

type_synonym ('v, 's) cres = "('v option \<times> 's) option"

definition c_ret :: "'v \<Rightarrow> 's \<Rightarrow> ('v, 's) cres" where
  "c_ret v s = Some (Some v, s)"

definition c_true :: "'s \<Rightarrow> (unit, 's) cres" where
  "c_true s = Some (Some (), s)"

definition c_false :: "'s \<Rightarrow> ('v, 's) cres" where
  "c_false s = Some (None, s)"

text \<open>\<open>c_bind m k\<close> is the idiom \<open>if (!m) return false; k\<close>.\<close>

definition c_bind :: "('v, 's) cres \<Rightarrow> ('v \<Rightarrow> 's \<Rightarrow> ('w, 's) cres) \<Rightarrow> ('w, 's) cres" where
  "c_bind m k = (case m of None \<Rightarrow> None | Some (r, s) \<Rightarrow>
     (case r of None \<Rightarrow> Some (None, s) | Some v \<Rightarrow> k v s))"

lemma c_bind_simps [c_simps, simp]:
  "c_bind None k = None"
  "c_bind (Some (None, s)) k = Some (None, s)"
  "c_bind (Some (Some v, s)) k = k v s"
  "c_bind (c_ret v s) k = k v s"
  "c_bind (c_true s) k' = k' () s"
  "c_bind (c_false s) k = c_false s"
  by (simp_all add: c_bind_def c_ret_def c_true_def c_false_def)

lemma c_bind_eq_Some:
  "c_bind m k = Some r \<longleftrightarrow>
     (\<exists>s. m = Some (None, s) \<and> r = (None, s)) \<or> (\<exists>v s. m = Some (Some v, s) \<and> k v s = Some r)"
  by (auto simp: c_bind_def split: option.splits)

lemma c_bind_eq_ok:
  "c_bind m k = Some (Some v, s') \<longleftrightarrow>
     (\<exists>u s. m = Some (Some u, s) \<and> k u s = Some (Some v, s'))"
  by (auto simp: c_bind_def split: option.splits)

lemma c_ret_eq [c_splits, simp]:
  "c_ret v s = Some r \<longleftrightarrow> r = (Some v, s)"
  "c_true s' = Some r' \<longleftrightarrow> r' = (Some (), s')"
  "c_false s = Some r \<longleftrightarrow> r = (None, s)"
  by (auto simp: c_ret_def c_true_def c_false_def)

lemma c_ret_defined [simp]:
  "c_ret v s \<noteq> None" "c_true s' \<noteq> None" "c_false s'' \<noteq> None"
  by (simp_all add: c_ret_def c_true_def c_false_def)

section \<open>Loops\<close>

text \<open>
  One iteration of a C loop either leaves the loop with a result (\<open>Inl\<close>: a \<open>return\<close> inside the
  body, a \<open>break\<close>, or the guard that failed) or goes round with a new state (\<open>Inr\<close>).  A loop that
  never leaves has no result, \<open>None\<close>; so no claim about a loop's result is empty unless it says so.
\<close>

partial_function (option) c_loop :: "('s \<Rightarrow> ('r + 's) option) \<Rightarrow> 's \<Rightarrow> 'r option" where
  "c_loop body s = (case body s of None \<Rightarrow> None
     | Some x \<Rightarrow> (case x of Inl r \<Rightarrow> Some r | Inr s' \<Rightarrow> c_loop body s'))"

declare c_loop.simps [code]

lemma c_loop_unfold:
  "body s = Some (Inl r) \<Longrightarrow> c_loop body s = Some r"
  "body s = Some (Inr s') \<Longrightarrow> c_loop body s = c_loop body s'"
  "body s = None \<Longrightarrow> c_loop body s = None"
  by (simp_all add: c_loop.simps)

text \<open>Total correctness: an invariant, a decreasing measure, and the loop returns.\<close>

lemma c_loop_rule:
  fixes m :: "'s \<Rightarrow> nat"
  assumes inv: "I s"
    and step: "\<And>s. I s \<Longrightarrow> \<exists>x. body s = Some x \<and>
      (case x of Inl r \<Rightarrow> Q r | Inr s' \<Rightarrow> I s' \<and> m s' < m s)"
  shows "\<exists>r. c_loop body s = Some r \<and> Q r"
  using inv
proof (induction "m s" arbitrary: s rule: less_induct)
  case less
  from step [OF less.prems] obtain x where x: "body s = Some x"
    and c: "case x of Inl r \<Rightarrow> Q r | Inr s' \<Rightarrow> I s' \<and> m s' < m s" by blast
  show ?case
  proof (cases x)
    case (Inl r)
    with x c show ?thesis by (simp add: c_loop_unfold)
  next
    case (Inr s')
    with c have "I s'" "m s' < m s" by simp_all
    then have "\<exists>r. c_loop body s' = Some r \<and> Q r" using less.hyps by blast
    with x Inr show ?thesis by (simp add: c_loop_unfold)
  qed
qed

text \<open>Partial correctness: what holds whenever the loop returns.\<close>

lemma c_loop_partial:
  assumes ret: "c_loop body s = Some r" and inv: "I s"
    and step: "\<And>s s'. I s \<Longrightarrow> body s = Some (Inr s') \<Longrightarrow> I s'"
    and out: "\<And>s r. I s \<Longrightarrow> body s = Some (Inl r) \<Longrightarrow> Q r"
  shows "Q r"
proof -
  have "(\<forall>s. I s \<longrightarrow> body = b \<longrightarrow> s = t \<longrightarrow> Q r)" if "c_loop b t = Some r" for b t
    using that
  proof (rule c_loop.raw_induct [where P = "\<lambda>b t r. \<forall>s. I s \<longrightarrow> body = b \<longrightarrow> s = t \<longrightarrow> Q r", rotated])
    fix f b t r
    assume IH: "\<And>b t r. f b t = Some r \<Longrightarrow> \<forall>s. I s \<longrightarrow> body = b \<longrightarrow> s = t \<longrightarrow> Q r"
      and eq: "(case b t of None \<Rightarrow> None
        | Some x \<Rightarrow> (case x of Inl r \<Rightarrow> Some r | Inr s' \<Rightarrow> f b s')) = Some r"
    show "\<forall>s. I s \<longrightarrow> body = b \<longrightarrow> s = t \<longrightarrow> Q r"
      using eq IH step out by (fastforce split: option.splits sum.splits)
  qed
  with ret inv show ?thesis by blast
qed

section \<open>Bytes and words\<close>

text \<open>The low \<open>n\<close> bytes of a word, least significant first, and back.\<close>

fun bytes_le :: "nat \<Rightarrow> 'a::len word \<Rightarrow> u8 list" where
  "bytes_le 0 w = []"
| "bytes_le (Suc n) w = ucast w # bytes_le n (drop_bit 8 w)"

fun word_le :: "u8 list \<Rightarrow> 'a::len word" where
  "word_le [] = 0"
| "word_le (b # bs) = ucast b OR push_bit 8 (word_le bs)"

lemma length_bytes_le [simp]: "length (bytes_le n w) = n"
  by (induction n arbitrary: w) auto

lemma word_le_bytes_le: "word_le (bytes_le n w) = take_bit (8 * n) w"
proof (induction n arbitrary: w)
  case 0
  then show ?case by simp
next
  case (Suc n)
  show ?case
    by (rule bit_word_eqI)
      (auto simp: Suc bit_simps)
qed

lemma word_le_bytes_le_id [simp]:
  fixes w :: "'a::len word"
  assumes "LENGTH('a) \<le> 8 * n"
  shows "word_le (bytes_le n w) = w"
  using assms by (simp add: word_le_bytes_le take_bit_word_eq_self)

section \<open>Widening\<close>

lemma unat_ucast_32_64 [simp]: "unat (ucast (w :: u32) :: u64) = unat w"
proof -
  have "unat w < 2 ^ 32" by (rule less_le_trans [OF unsigned_less]) simp
  then show ?thesis by (simp add: unsigned_ucast_eq take_bit_nat_eq_self)
qed

lemma uint_ucast_32_64 [simp]: "uint (ucast (w :: u32) :: u64) = uint w"
  unfolding uint_nat unat_ucast_32_64 ..

lemma unat_u32_less: "unat (w :: u32) < 2 ^ 32"
  by (rule less_le_trans [OF unsigned_less]) simp

lemma unat_u64_less: "unat (w :: u64) < 2 ^ 64"
  by (rule less_le_trans [OF unsigned_less]) simp

lemma unat_of_nat_32: "n < 2 ^ 32 \<Longrightarrow> unat (word_of_nat n :: u32) = n"
  by (simp add: unsigned_of_nat take_bit_nat_eq_self)

lemma unat_of_nat_64: "n < 2 ^ 64 \<Longrightarrow> unat (word_of_nat n :: u64) = n"
  by (simp add: unsigned_of_nat take_bit_nat_eq_self)

section \<open>Bits as digits\<close>

lemma or_push_bit:
  assumes "v < 2 ^ n"
  shows "word_of_nat v OR push_bit n (word_of_nat m) = (word_of_nat (v + 2 ^ n * m) :: 'a::len word)"
proof -
  have "int v OR push_bit n (int m) = int v + push_bit n (int m)"
  proof -
    have "take_bit n (int v) = int v"
      using assms by (simp add: take_bit_int_eq_self)
    then show ?thesis
      using concat_bit_eq [of n "int v" "int m"] concat_bit_def [of n "int v" "int m"] by simp
  qed
  then have "word_of_int (int v OR push_bit n (int m)) =
      (word_of_int (int v + push_bit n (int m)) :: 'a word)" by simp
  then show ?thesis
    by (simp add: of_int_or_eq push_bit_of_nat [symmetric] push_bit_eq_mult ac_simps)
qed

end
