(* ===== verification/Varint_Format.thy ===== *)
theory Varint_Format
  imports PB_Prelude
begin

text \<open>
  Base-128 varints and little-endian words as formats, shared by the protocol buffer library and
  the storage engine: the bytes of a number, the number of some bytes, the varint at the head of a
  byte list, and the word lemmas the loops over seven-bit groups rest on.
\<close>

section \<open>The format\<close>

fun varint_bytes :: "nat \<Rightarrow> u8 list" where
  "varint_bytes n =
     (if n < 128 then [word_of_nat n] else word_of_nat (n mod 128 + 128) # varint_bytes (n div 128))"

declare varint_bytes.simps [simp del]

fun varint_value :: "u8 list \<Rightarrow> nat" where
  "varint_value [] = 0"
| "varint_value (b # bs) = unat b mod 128 + 128 * varint_value bs"

text \<open>The varint at the head of some bytes, when there is a complete one.\<close>

fun varint_prefix :: "u8 list \<Rightarrow> u8 list option" where
  "varint_prefix [] = None"
| "varint_prefix (b # bs) =
     (if unat b < 128 then Some [b] else map_option ((#) b) (varint_prefix bs))"

lemma varint_prefix_append: "varint_prefix xs = Some p \<Longrightarrow> varint_prefix (xs @ ys) = Some p"
  by (induction xs arbitrary: p) (auto split: if_splits)

lemma varint_prefix_split: "varint_prefix xs = Some p \<Longrightarrow> \<exists>ys. xs = p @ ys \<and> p \<noteq> []"
  by (induction xs arbitrary: p) (fastforce split: if_splits)+

lemma varint_prefix_length: "varint_prefix xs = Some p \<Longrightarrow> length p \<le> length xs \<and> 0 < length p"
  using varint_prefix_split by fastforce

lemma unat_u8_less [simp]: "unat (b :: u8) < 256"
  using unsigned_less [of b] by simp

lemma unat_u8_of_nat: "n < 256 \<Longrightarrow> unat (word_of_nat n :: u8) = n"
  by (simp add: unsigned_of_nat take_bit_nat_eq_self)

lemma unat_more_byte [simp]: "unat (word_of_nat (n mod 128) + 128 :: u8) = n mod 128 + 128"
  using unat_u8_of_nat [of "n mod 128 + 128"] by simp

lemma varint_prefix_bytes [simp]: "varint_prefix (varint_bytes n @ ys) = Some (varint_bytes n)"
proof (induction n rule: varint_bytes.induct)
  case (1 n)
  then show ?case
    using varint_bytes.simps [of n] by (auto simp: unat_u8_of_nat)
qed

lemma varint_value_bytes [simp]: "varint_value (varint_bytes n) = n"
proof (induction n rule: varint_bytes.induct)
  case (1 n)
  then show ?case
    by (subst varint_bytes.simps) (auto simp: unat_u8_of_nat)
qed

lemma varint_bytes_ne [simp]: "varint_bytes n \<noteq> []"
  by (subst varint_bytes.simps) simp

lemma varint_bytes_length: "n < 128 ^ Suc k \<Longrightarrow> length (varint_bytes n) \<le> Suc k"
proof (induction k arbitrary: n)
  case 0
  then show ?case by (subst varint_bytes.simps) simp
next
  case (Suc k)
  then have "n div 128 < 128 ^ Suc k" by (simp add: div_less_iff_less_mult mult.commute)
  from Suc.IH [OF this] show ?case by (subst varint_bytes.simps) simp
qed

lemma varint_bytes_length_ge: "128 ^ k \<le> n \<Longrightarrow> k < length (varint_bytes n)"
proof (induction k arbitrary: n)
  case (Suc k)
  have "128 ^ k * 128 \<le> n" using Suc.prems by simp
  then have d: "128 ^ k \<le> n div 128" by (simp add: less_eq_div_iff_mult_less_eq)
  have "(1::nat) \<le> 128 ^ k" by simp
  with \<open>128 ^ k * 128 \<le> n\<close> have "\<not> n < 128" by linarith
  with Suc.IH [OF d] show ?case by (subst varint_bytes.simps) simp
qed simp

lemma varint_length_u64: "length (varint_bytes (unat (v :: u64))) \<le> 10"
proof (rule order_trans [OF varint_bytes_length [of _ 9]])
  show "unat v < 128 ^ Suc 9" by (rule less_le_trans [OF unsigned_less]) simp
qed simp

lemma varint_length_u32: "length (varint_bytes (unat (v :: u32))) \<le> 5"
proof (rule order_trans [OF varint_bytes_length [of _ 4]])
  show "unat v < 128 ^ Suc 4" by (rule less_le_trans [OF unsigned_less]) simp
qed simp

section \<open>Seven-bit groups of words\<close>

lemma low7: "unat (v AND 0x7F :: 'a::len word) = unat v mod 128"
  if "8 \<le> LENGTH('a)"
proof -
  have "v AND 0x7F = take_bit 7 v" by (simp only: take_bit_eq_mask mask_eq_exp_minus_1) simp
  then have "unat (v AND 0x7F) = take_bit 7 (unat v)" by (simp only: unsigned_take_bit_eq)
  then show ?thesis by (simp add: take_bit_eq_mod)
qed

lemma u8_low7: "unat (b AND 0x7F :: u8) = unat b mod 128"
  by (rule low7) simp

lemma u8_high: "b AND 0x80 = 0 \<longleftrightarrow> unat (b :: u8) < 128"
proof -
  have "b AND 0x80 = 0 \<longleftrightarrow> \<not> bit b 7"
    using and_exp_eq_0_iff_not_bit [of b 7] by simp
  also have "\<dots> \<longleftrightarrow> unat b < 128"
  proof -
    have "bit b 7 \<longleftrightarrow> odd (unat b div 128)"
      using bit_unsigned_iff [where 'a = nat, of b 7] by (simp add: bit_iff_odd)
    moreover have "unat b div 128 < 2" using unat_u8_less [of b] by linarith
    ultimately show ?thesis by (cases "unat b div 128") auto
  qed
  finally show ?thesis .
qed

lemma or80: "unat (b :: u8) < 128 \<Longrightarrow> b OR 0x80 = b + 0x80"
  using word_plus_and_or [of b "0x80"] iffD2 [OF u8_high [of b]] by (metis add.left_neutral)

lemma or80_and7F: "unat (b :: u8) < 128 \<Longrightarrow> (b OR 0x80) AND 0x7F = b"
  using u8_low7 [of b] by (simp add: bit.conj_disj_distrib2 word_unat_eq_iff)

lemma unat_drop_bit: "unat (drop_bit n w) = unat w div 2 ^ n" for w :: "'a::len word"
proof (cases "n \<le> LENGTH('a)")
  case True
  then show ?thesis
    by (simp only: unsigned_drop_bit_eq unsigned_take_bit_eq [symmetric] take_bit_word_eq_self)
      (simp only: drop_bit_eq_div)
next
  case False
  then have "unat w < 2 ^ n" by (intro less_le_trans [OF unsigned_less]) simp
  moreover have "drop_bit n w = 0" using False by (intro bit_word_eqI) (simp add: bit_simps)
  ultimately show ?thesis by simp
qed

lemma unat_drop7: "unat (drop_bit 7 w) = unat w div 128" for w :: "'a::len word"
  unfolding unat_drop_bit by simp

lemma last_varint_bytes: "unat (last (varint_bytes n)) < 128"
proof (induction n rule: varint_bytes.induct)
  case (1 n)
  then show ?case using varint_bytes.simps [of n] by (auto simp: unat_u8_of_nat)
qed

lemma low7_of_nat: "ucast (b AND 0x7F :: u8) = (word_of_nat (unat b mod 128) :: 'a::len word)"
  using of_nat_unat [of "b AND 0x7F", where 'a = "'a word", symmetric] by (simp add: u8_low7)

section \<open>Bytes of words\<close>

lemma ucast_and_FF [simp]: "(ucast (w AND 0xFF) :: u8) = ucast (w :: 'a::len word)"
proof -
  have "w AND 0xFF = take_bit 8 w" by (simp only: take_bit_eq_mask mask_eq_exp_minus_1) simp
  then show ?thesis by (auto intro!: bit_word_eqI simp: bit_simps)
qed

lemma bytes_le_numeral [simp]:
  "bytes_le (numeral k) w = ucast w # bytes_le (pred_numeral k) (drop_bit 8 w)"
  by (simp only: numeral_eq_Suc bytes_le.simps)

lemma bit_word_le:
  "bit (word_le bs :: 'a::len word) n \<longleftrightarrow> n < LENGTH('a) \<and> n div 8 < length bs \<and> bit (bs ! (n div 8)) (n mod 8)"
proof (induction bs arbitrary: n)
  case (Cons b bs)
  show ?case
  proof (cases "n < 8")
    case True
    then show ?thesis by (auto simp: bit_simps)
  next
    case False
    then have "\<not> bit b n" by (auto dest: bit_imp_le_length)
    moreover have "n div 8 = Suc ((n - 8) div 8)" "n mod 8 = (n - 8) mod 8"
      using False by (simp_all add: div_if [of n] mod_if [of n])
    ultimately show ?thesis using False by (auto simp: bit_simps Cons)
  qed
qed simp

lemma bit_u8: "bit (b :: u8) n \<Longrightarrow> n < 8"
  using bit_imp_le_length [of b n] by simp

lemma bytes_le_word_le:
  "8 * length bs \<le> LENGTH('a) \<Longrightarrow> bytes_le (length bs) (word_le bs :: 'a::len word) = bs"
proof (induction bs)
  case (Cons b bs)
  have b: "ucast (ucast b OR push_bit 8 (word_le bs) :: 'a word) = b"
    using Cons.prems by (auto intro!: bit_word_eqI simp: bit_simps)
  have "drop_bit 8 (ucast b OR push_bit 8 (word_le bs) :: 'a word) =
      take_bit (LENGTH('a) - 8) (word_le bs)"
    by (auto intro!: bit_word_eqI simp: bit_simps less_diff_conv add.commute dest: bit_u8)
  also have "\<dots> = word_le bs"
    using Cons.prems by (auto intro!: bit_word_eqI simp: bit_simps bit_word_le)
  finally show ?case using Cons b by simp
qed simp

end
