(* ===== verification/PB_Memory.thy ===== *)
theory PB_Memory
  imports PB_Prelude
begin

text \<open>
  The memory the C code works on: a partial map from addresses to bytes (the mapped bytes are the
  objects that exist), the blocks \<open>realloc\<close> has given out and the stack of local variables whose
  address is taken.  An access to a byte that is not mapped is undefined behaviour and has no result.
\<close>

section \<open>Byte access\<close>

type_synonym memory = "addr \<Rightarrow> u8 option"

fun load_bytes :: "memory \<Rightarrow> addr \<Rightarrow> nat \<Rightarrow> u8 list option" where
  "load_bytes M a 0 = Some []"
| "load_bytes M a (Suc n) = (case M a of None \<Rightarrow> None
     | Some b \<Rightarrow> map_option ((#) b) (load_bytes M (a + 1) n))"

fun store_bytes :: "memory \<Rightarrow> addr \<Rightarrow> u8 list \<Rightarrow> memory option" where
  "store_bytes M a [] = Some M"
| "store_bytes M a (b # bs) = (if M a = None then None else store_bytes (M(a \<mapsto> b)) (a + 1) bs)"

definition mapped :: "memory \<Rightarrow> addr \<Rightarrow> nat \<Rightarrow> bool" where
  "mapped M a n \<longleftrightarrow> (\<forall>x. a \<le> x \<and> x < a + int n \<longrightarrow> M x \<noteq> None)"

definition put_bytes :: "memory \<Rightarrow> addr \<Rightarrow> u8 list \<Rightarrow> memory" where
  "put_bytes M a bs = (\<lambda>x. if a \<le> x \<and> x < a + int (length bs) then Some (bs ! nat (x - a)) else M x)"

lemma mapped_0 [simp]: "mapped M a 0"
  by (auto simp: mapped_def)

lemma mapped_Suc: "mapped M a (Suc n) \<longleftrightarrow> M a \<noteq> None \<and> mapped M (a + 1) n"
proof -
  have "a \<le> x \<and> x < a + int (Suc n) \<longleftrightarrow> x = a \<or> (a + 1 \<le> x \<and> x < a + 1 + int n)" for x
    by auto
  then show ?thesis by (auto simp: mapped_def)
qed

lemma mapped_sub: "mapped M a n \<Longrightarrow> a \<le> b \<Longrightarrow> b + int k \<le> a + int n \<Longrightarrow> mapped M b k"
  by (auto simp: mapped_def)

lemma load_bytes_defined: "mapped M a n \<Longrightarrow> \<exists>bs. load_bytes M a n = Some bs \<and> length bs = n"
proof (induction n arbitrary: a)
  case (Suc n)
  then obtain b bs where "M a = Some b" "load_bytes M (a + 1) n = Some bs" "length bs = n"
    by (fastforce simp: mapped_Suc)
  then show ?case by simp
qed simp

lemma load_bytes_length: "load_bytes M a n = Some bs \<Longrightarrow> length bs = n"
  by (induction n arbitrary: a bs) (auto split: option.splits)

lemma load_bytes_mapped: "load_bytes M a n = Some bs \<Longrightarrow> mapped M a n"
  by (induction n arbitrary: a bs) (auto simp: mapped_Suc split: option.splits)

lemma load_bytes_nth: "load_bytes M a n = Some bs \<Longrightarrow> i < n \<Longrightarrow> M (a + int i) = Some (bs ! i)"
proof (induction n arbitrary: a bs i)
  case (Suc n)
  from Suc.prems obtain b bs' where b: "M a = Some b" "load_bytes M (a + 1) n = Some bs'" "bs = b # bs'"
    by (auto split: option.splits)
  show ?case
  proof (cases i)
    case (Suc j)
    with Suc.IH [OF b(2), of j] Suc.prems b(3) show ?thesis by (simp add: ac_simps)
  qed (use b in simp)
qed simp

lemma load_bytes_cong:
  "(\<And>x. a \<le> x \<Longrightarrow> x < a + int n \<Longrightarrow> M x = M' x) \<Longrightarrow> load_bytes M a n = load_bytes M' a n"
proof (induction n arbitrary: a)
  case (Suc n)
  have "load_bytes M (a + 1) n = load_bytes M' (a + 1) n"
    by (rule Suc.IH) (simp add: Suc.prems)
  with Suc.prems [of a] show ?case by (simp split: option.split)
qed simp

lemma load_bytes_append:
  "load_bytes M a (m + n) =
     Option.bind (load_bytes M a m) (\<lambda>xs. map_option ((@) xs) (load_bytes M (a + int m) n))"
proof (induction m arbitrary: a)
  case 0
  show ?case by (cases "load_bytes M a n") simp_all
next
  case (Suc m)
  show ?case
    by (cases "M a"; cases "load_bytes M (a + 1) m"; cases "load_bytes M (a + 1 + int m) n")
      (auto simp: Suc add.assoc)
qed

lemma put_bytes_Nil [simp]: "put_bytes M a [] = M"
  by (rule ext) (auto simp: put_bytes_def)

lemma put_bytes_Cons: "put_bytes M a (b # bs) = put_bytes (M(a \<mapsto> b)) (a + 1) bs"
proof
  fix x
  have "nat (x - a) = Suc (nat (x - (a + 1)))" if "a + 1 \<le> x" using that by simp
  then show "put_bytes M a (b # bs) x = put_bytes (M(a \<mapsto> b)) (a + 1) bs x"
    by (auto simp: put_bytes_def)
qed

lemma store_bytes_put: "mapped M a (length bs) \<Longrightarrow> store_bytes M a bs = Some (put_bytes M a bs)"
proof (induction bs arbitrary: M a)
  case (Cons b bs)
  then have "mapped (M(a \<mapsto> b)) (a + 1) (length bs)"
    by (auto simp: mapped_Suc mapped_def)
  with Cons show ?case by (simp add: mapped_Suc put_bytes_Cons)
qed simp

lemma store_bytes_mapped: "store_bytes M a bs = Some M' \<Longrightarrow> mapped M a (length bs)"
proof (induction bs arbitrary: M a)
  case (Cons b bs)
  then have "M a \<noteq> None" and s: "store_bytes (M(a \<mapsto> b)) (a + 1) bs = Some M'"
    by (auto split: if_splits)
  moreover from Cons.IH [OF s] have "mapped M (a + 1) (length bs)"
    by (auto simp: mapped_def split: if_splits)
  ultimately show ?case by (simp add: mapped_Suc)
qed simp

lemma store_bytes_eq:
  "store_bytes M a bs = (if mapped M a (length bs) then Some (put_bytes M a bs) else None)"
  using store_bytes_put store_bytes_mapped by (cases "store_bytes M a bs") fastforce+

lemma mapped_put [simp]: "mapped M a (length bs) \<Longrightarrow> mapped (put_bytes M a bs) b n \<longleftrightarrow> mapped M b n"
  by (auto simp: mapped_def put_bytes_def)

lemma dom_put: "mapped M a (length bs) \<Longrightarrow> dom (put_bytes M a bs) = dom M"
  by (auto simp: mapped_def put_bytes_def dom_def)

lemma load_put_same [simp]: "load_bytes (put_bytes M a bs) a (length bs) = Some bs"
proof (induction bs arbitrary: M a)
  case (Cons b bs)
  have "put_bytes (M(a \<mapsto> b)) (a + 1) bs a = Some b" by (simp add: put_bytes_def)
  then show ?case by (simp add: put_bytes_Cons Cons)
qed simp

lemma load_put_same_n: "length bs = n \<Longrightarrow> load_bytes (put_bytes M a bs) a n = Some bs"
  by (metis load_put_same)

lemma load_put_other:
  "b + int n \<le> a \<or> a + int (length bs) \<le> b \<Longrightarrow> load_bytes (put_bytes M a bs) b n = load_bytes M b n"
  by (rule load_bytes_cong) (auto simp: put_bytes_def)

section \<open>Typed access\<close>

text \<open>
  \<open>bool\<close> is one byte, \<open>pb_size_t\<close> is 32 bits (the pods define \<open>PB_FIELD_32BIT\<close>), pointers are 64
  bits; integers are little-endian, as on every platform the pods are built for.
\<close>

definition load_word :: "memory \<Rightarrow> addr \<Rightarrow> nat \<Rightarrow> 'a::len word option" where
  "load_word M a n = map_option word_le (load_bytes M a n)"

definition load_u32 :: "memory \<Rightarrow> addr \<Rightarrow> u32 option" where
  "load_u32 M a = load_word M a 4"

definition load_ptr :: "memory \<Rightarrow> addr \<Rightarrow> addr option" where
  "load_ptr M a = map_option uint (load_word M a 8 :: u64 option)"

definition ptr_bytes :: "addr \<Rightarrow> u8 list" where
  "ptr_bytes p = bytes_le 8 (word_of_int p :: u64)"

lemma length_ptr_bytes [simp]: "length (ptr_bytes p) = 8"
  by (simp add: ptr_bytes_def)

lemma load_word_defined: "mapped M a n \<Longrightarrow> \<exists>w. load_word M a n = Some w"
  using load_bytes_defined [of M a n] by (auto simp: load_word_def)

lemma load_u32_defined: "mapped M a 4 \<Longrightarrow> \<exists>w. load_u32 M a = Some w"
  unfolding load_u32_def by (rule load_word_defined)

lemma load_ptr_defined: "mapped M a 8 \<Longrightarrow> \<exists>p. load_ptr M a = Some p \<and> 0 \<le> p \<and> p < 2 ^ 64"
  using load_word_defined [of M a 8] uint_lt2p [where 'a = 64] by (force simp: load_ptr_def)

lemma load_u32_put [simp]: "load_u32 (put_bytes M a (bytes_le 4 w)) a = Some w"
  using load_put_same [of M a "bytes_le 4 w"] by (simp add: load_u32_def load_word_def)

lemma load_ptr_put [simp]: "0 \<le> p \<Longrightarrow> p < 2 ^ 64 \<Longrightarrow> load_ptr (put_bytes M a (ptr_bytes p)) a = Some p"
  using load_put_same [of M a "ptr_bytes p"]
  by (simp add: load_ptr_def load_word_def ptr_bytes_def uint_word_of_int)

lemma load_word_other:
  "b + int n \<le> a \<or> a + int (length bs) \<le> b \<Longrightarrow> load_word (put_bytes M a bs) b n = load_word M b n"
  by (simp add: load_word_def load_put_other)

section \<open>The allocator and the stack\<close>

text \<open>
  \<open>realloc\<close> and \<open>free\<close> of the C library.  Which address \<open>realloc\<close> returns, and whether it fails, is
  not determined by the program: the field \<open>answers\<close> holds the addresses the allocator will propose,
  one per call.  A proposal that is not a fresh range of addresses (the old block may be reused) is a
  failed call, so every behaviour the standard allows is some list of answers, and none of them
  overlaps another object.  Fresh bytes hold whatever \<open>junk\<close> says.
\<close>

record machine =
  mem :: memory
  blocks :: "addr \<Rightarrow> nat option"
  answers :: "addr list"
  junk :: "addr \<Rightarrow> u8"
  sp :: addr

definition range_free :: "memory \<Rightarrow> addr \<Rightarrow> nat \<Rightarrow> bool" where
  "range_free M a n \<longleftrightarrow> list_all (\<lambda>i. M (a + int i) = None) [0..<n]"

definition unmap :: "memory \<Rightarrow> addr \<Rightarrow> nat \<Rightarrow> memory" where
  "unmap M a n = (\<lambda>x. if a \<le> x \<and> x < a + int n then None else M x)"

definition map_range :: "memory \<Rightarrow> addr \<Rightarrow> nat \<Rightarrow> (addr \<Rightarrow> u8) \<Rightarrow> memory" where
  "map_range M a n f = (\<lambda>x. if a \<le> x \<and> x < a + int n then Some (f x) else M x)"

definition pb_realloc :: "addr \<Rightarrow> nat \<Rightarrow> machine \<Rightarrow> (addr \<times> machine) option" where
  "pb_realloc p n \<mu> =
     (if p \<noteq> 0 \<and> blocks \<mu> p = None then None
      else let old = (if p = 0 then 0 else the (blocks \<mu> p));
               M = unmap (mem \<mu>) p old;
               a = (case answers \<mu> of [] \<Rightarrow> 0 | x # _ \<Rightarrow> x);
               \<mu>' = \<mu>\<lparr>answers := tl (answers \<mu>)\<rparr>
           in if a \<le> 0 \<or> 2 ^ 64 < a + int n \<or> \<not> range_free M a n then Some (0, \<mu>')
              else Some (a, \<mu>'\<lparr>
                mem := map_range M a n (\<lambda>x. if x - a < int old
                  then (case mem \<mu> (p + (x - a)) of Some b \<Rightarrow> b | None \<Rightarrow> junk \<mu> x) else junk \<mu> x),
                blocks := (blocks \<mu>)(p := None, a := Some n)\<rparr>))"

definition pb_free :: "addr \<Rightarrow> machine \<Rightarrow> machine option" where
  "pb_free p \<mu> =
     (if p = 0 then Some \<mu>
      else case blocks \<mu> p of None \<Rightarrow> None
        | Some n \<Rightarrow> Some (\<mu>\<lparr>mem := unmap (mem \<mu>) p n, blocks := (blocks \<mu>)(p := None)\<rparr>))"

text \<open>
  A local variable whose address is taken lives on a stack that grows downwards from address 0, so
  it is disjoint from the objects and blocks, whose addresses are positive.
\<close>

definition push_local :: "u8 list \<Rightarrow> machine \<Rightarrow> addr \<times> machine" where
  "push_local bs \<mu> = (let a = sp \<mu> - int (length bs) in
     (a, \<mu>\<lparr>mem := put_bytes (mem \<mu>) a bs, sp := a\<rparr>))"

definition pop_local :: "nat \<Rightarrow> machine \<Rightarrow> machine" where
  "pop_local n \<mu> = \<mu>\<lparr>mem := unmap (mem \<mu>) (sp \<mu>) n, sp := sp \<mu> + int n\<rparr>"

definition m_store :: "addr \<Rightarrow> u8 list \<Rightarrow> machine \<Rightarrow> machine option" where
  "m_store a bs \<mu> = map_option (\<lambda>M. \<mu>\<lparr>mem := M\<rparr>) (store_bytes (mem \<mu>) a bs)"

definition m_store_ptr :: "addr \<Rightarrow> addr \<Rightarrow> machine \<Rightarrow> machine option" where
  "m_store_ptr a p = m_store a (ptr_bytes p)"

definition m_memset :: "addr \<Rightarrow> u8 \<Rightarrow> nat \<Rightarrow> machine \<Rightarrow> machine option" where
  "m_memset a b n = m_store a (replicate n b)"

lemma m_store_eq:
  "m_store a bs \<mu> =
     (if mapped (mem \<mu>) a (length bs) then Some (\<mu>\<lparr>mem := put_bytes (mem \<mu>) a bs\<rparr>) else None)"
  by (simp add: m_store_def store_bytes_eq)

lemma m_store_defined:
  "mapped (mem \<mu>) a (length bs) \<Longrightarrow> m_store a bs \<mu> = Some (\<mu>\<lparr>mem := put_bytes (mem \<mu>) a bs\<rparr>)"
  by (simp add: m_store_eq)

lemma range_free_iff: "range_free M a n \<longleftrightarrow> (\<forall>x. a \<le> x \<and> x < a + int n \<longrightarrow> M x = None)"
proof
  assume r: "range_free M a n"
  show "\<forall>x. a \<le> x \<and> x < a + int n \<longrightarrow> M x = None"
  proof (intro allI impI)
    fix x assume x: "a \<le> x \<and> x < a + int n"
    then have "nat (x - a) \<in> set [0..<n]" by auto
    with r have "M (a + int (nat (x - a))) = None" unfolding range_free_def list_all_iff by blast
    with x show "M x = None" by simp
  qed
qed (auto simp: range_free_def list_all_iff)

end
