(* ===== verification/PB_Types.thy ===== *)
theory PB_Types
  imports PB_Memory
begin

text \<open>
  The declarations of \<open>pb.h\<close>: field types, wire types, the field descriptor \<open>pb_field_t\<close> and the
  macros that fill descriptors in from the layout of the C structure.  The build configuration is
  that of the pods' xcconfig files: \<open>PB_FIELD_32BIT\<close>, \<open>PB_NO_PACKED_STRUCTS\<close>, \<open>PB_ENABLE_MALLOC\<close>,
  64-bit integers and error messages enabled.
\<close>

section \<open>Field types\<close>

definition PB_MAX_REQUIRED_FIELDS :: nat where "PB_MAX_REQUIRED_FIELDS = 64"

definition PB_LTYPE_BOOL :: u8 where "PB_LTYPE_BOOL = 0x00"
definition PB_LTYPE_VARINT :: u8 where "PB_LTYPE_VARINT = 0x01"
definition PB_LTYPE_UVARINT :: u8 where "PB_LTYPE_UVARINT = 0x02"
definition PB_LTYPE_SVARINT :: u8 where "PB_LTYPE_SVARINT = 0x03"
definition PB_LTYPE_FIXED32 :: u8 where "PB_LTYPE_FIXED32 = 0x04"
definition PB_LTYPE_FIXED64 :: u8 where "PB_LTYPE_FIXED64 = 0x05"
definition PB_LTYPE_LAST_PACKABLE :: u8 where "PB_LTYPE_LAST_PACKABLE = 0x05"
definition PB_LTYPE_BYTES :: u8 where "PB_LTYPE_BYTES = 0x06"
definition PB_LTYPE_STRING :: u8 where "PB_LTYPE_STRING = 0x07"
definition PB_LTYPE_SUBMESSAGE :: u8 where "PB_LTYPE_SUBMESSAGE = 0x08"
definition PB_LTYPE_EXTENSION :: u8 where "PB_LTYPE_EXTENSION = 0x09"
definition PB_LTYPE_FIXED_LENGTH_BYTES :: u8 where "PB_LTYPE_FIXED_LENGTH_BYTES = 0x0A"
definition PB_LTYPES_COUNT :: u8 where "PB_LTYPES_COUNT = 0x0B"
definition PB_LTYPE_MASK :: u8 where "PB_LTYPE_MASK = 0x0F"

definition PB_HTYPE_REQUIRED :: u8 where "PB_HTYPE_REQUIRED = 0x00"
definition PB_HTYPE_OPTIONAL :: u8 where "PB_HTYPE_OPTIONAL = 0x10"
definition PB_HTYPE_REPEATED :: u8 where "PB_HTYPE_REPEATED = 0x20"
definition PB_HTYPE_ONEOF :: u8 where "PB_HTYPE_ONEOF = 0x30"
definition PB_HTYPE_MASK :: u8 where "PB_HTYPE_MASK = 0x30"

definition PB_ATYPE_STATIC :: u8 where "PB_ATYPE_STATIC = 0x00"
definition PB_ATYPE_POINTER :: u8 where "PB_ATYPE_POINTER = 0x80"
definition PB_ATYPE_CALLBACK :: u8 where "PB_ATYPE_CALLBACK = 0x40"
definition PB_ATYPE_MASK :: u8 where "PB_ATYPE_MASK = 0xC0"

lemmas pb_consts [simp] = PB_MAX_REQUIRED_FIELDS_def
  PB_LTYPE_BOOL_def PB_LTYPE_VARINT_def PB_LTYPE_UVARINT_def PB_LTYPE_SVARINT_def
  PB_LTYPE_FIXED32_def PB_LTYPE_FIXED64_def PB_LTYPE_LAST_PACKABLE_def PB_LTYPE_BYTES_def
  PB_LTYPE_STRING_def PB_LTYPE_SUBMESSAGE_def PB_LTYPE_EXTENSION_def
  PB_LTYPE_FIXED_LENGTH_BYTES_def PB_LTYPES_COUNT_def PB_LTYPE_MASK_def
  PB_HTYPE_REQUIRED_def PB_HTYPE_OPTIONAL_def PB_HTYPE_REPEATED_def PB_HTYPE_ONEOF_def
  PB_HTYPE_MASK_def PB_ATYPE_STATIC_def PB_ATYPE_POINTER_def PB_ATYPE_CALLBACK_def
  PB_ATYPE_MASK_def

definition PB_ATYPE :: "u8 \<Rightarrow> u8" where "PB_ATYPE x = x AND PB_ATYPE_MASK"
definition PB_HTYPE :: "u8 \<Rightarrow> u8" where "PB_HTYPE x = x AND PB_HTYPE_MASK"
definition PB_LTYPE :: "u8 \<Rightarrow> u8" where "PB_LTYPE x = x AND PB_LTYPE_MASK"

lemma PB_type_parts:
  "PB_ATYPE (a OR h OR l) = a" "PB_HTYPE (a OR h OR l) = h" "PB_LTYPE (a OR h OR l) = l"
  if "a AND 0xC0 = a" "h AND 0x30 = h" "l AND 0x0F = l"
proof -
  have a: "a AND 0x30 = 0" "a AND 0x0F = 0"
    by (subst that(1) [symmetric], simp add: and.assoc)+
  have h: "h AND 0xC0 = 0" "h AND 0x0F = 0"
    by (subst that(2) [symmetric], simp add: and.assoc)+
  have l: "l AND 0xC0 = 0" "l AND 0x30 = 0"
    by (subst that(3) [symmetric], simp add: and.assoc)+
  show "PB_ATYPE (a OR h OR l) = a" "PB_HTYPE (a OR h OR l) = h" "PB_LTYPE (a OR h OR l) = l"
    by (simp_all add: PB_ATYPE_def PB_HTYPE_def PB_LTYPE_def bit.conj_disj_distrib2 that a h l)
qed

definition PB_SIZE_MAX :: u32 where "PB_SIZE_MAX = - 1"

section \<open>Wire types\<close>

text \<open>
  \<open>pb_wire_type_t\<close>; the decoder casts three bits of a tag to it, so values outside the
  enumeration occur and the type is the integer itself.
\<close>

type_synonym pb_wire_type_t = u32

definition PB_WT_VARINT :: pb_wire_type_t where "PB_WT_VARINT = 0"
definition PB_WT_64BIT :: pb_wire_type_t where "PB_WT_64BIT = 1"
definition PB_WT_STRING :: pb_wire_type_t where "PB_WT_STRING = 2"
definition PB_WT_32BIT :: pb_wire_type_t where "PB_WT_32BIT = 5"

lemmas pb_wt_consts [simp] = PB_WT_VARINT_def PB_WT_64BIT_def PB_WT_STRING_def PB_WT_32BIT_def

section \<open>Field descriptors\<close>

text \<open>
  \<open>struct pb_field_s\<close>.  The member \<open>ptr\<close> is null, the descriptor array of a submessage, or a
  default value (the bytes at that address).  \<open>size_offset\<close> is signed.  The array of a message is a
  list that ends with \<open>PB_LAST_FIELD\<close>; a read past the end of the list is that terminator too.
\<close>

datatype pb_field =
  PbField (f_tag: u32) (f_type: u8) (f_data_offset: u32) (f_size_offset: "32 word")
    (f_data_size: u32) (f_array_size: u32) (f_ptr: pb_ptr)
and pb_ptr = NullPtr | FieldsPtr "pb_field list" | DataPtr "u8 list"

definition PB_LAST_FIELD :: pb_field where
  "PB_LAST_FIELD = PbField 0 0 0 0 0 0 NullPtr"

definition field_at :: "pb_field list \<Rightarrow> nat \<Rightarrow> pb_field" where
  "field_at fs i = (if i < length fs then fs ! i else PB_LAST_FIELD)"

lemma field_at_tag: "f_tag (field_at fs i) \<noteq> 0 \<Longrightarrow> i < length fs"
  by (auto simp: field_at_def PB_LAST_FIELD_def split: if_splits)

abbreviation f_atype :: "pb_field \<Rightarrow> u8" where "f_atype f \<equiv> PB_ATYPE (f_type f)"
abbreviation f_htype :: "pb_field \<Rightarrow> u8" where "f_htype f \<equiv> PB_HTYPE (f_type f)"
abbreviation f_ltype :: "pb_field \<Rightarrow> u8" where "f_ltype f \<equiv> PB_LTYPE (f_type f)"

text \<open>\<open>PB_BYTES_ARRAY_T_ALLOCSIZE\<close>: the bytes follow a 32-bit \<open>size\<close>.\<close>

definition BYTES_OFFSET :: int where "BYTES_OFFSET = 4"

definition PB_BYTES_ARRAY_T_ALLOCSIZE :: "u64 \<Rightarrow> u64" where
  "PB_BYTES_ARRAY_T_ALLOCSIZE n = n + word_of_int BYTES_OFFSET"

text \<open>
  \<open>struct pb_extension_type_s\<close> is constant data: handlers of the user (0 for null) and, for the
  default handler, the descriptor of the extension field.  \<open>struct pb_extension_s\<close> is an object in
  memory; its members are at these offsets.
\<close>

record pb_extension_type_t =
  et_decode :: nat
  et_encode :: nat
  et_arg :: pb_field

definition EXT_TYPE :: int where "EXT_TYPE = 0"
definition EXT_DEST :: int where "EXT_DEST = 8"
definition EXT_NEXT :: int where "EXT_NEXT = 16"
definition EXT_FOUND :: int where "EXT_FOUND = 24"

text \<open>\<open>struct pb_callback_s\<close>: the function, then its argument.\<close>

definition CB_FUNCS :: int where "CB_FUNCS = 0"
definition CB_ARG :: int where "CB_ARG = 8"

section \<open>C structure layout\<close>

text \<open>
  Sizes, alignments and member offsets under the LP64 rules: a scalar is aligned to its size, a
  structure to its most aligned member, and padded to a multiple of that.  \<open>CInt n\<close> is any scalar of
  \<open>n\<close> bytes (\<open>bool\<close>, integers, enumerations); a pointer knows what it points to.
\<close>

datatype ctype =
  CInt nat
| CPtr ctype
| CArray ctype nat
| CStruct "(string \<times> ctype) list"
| CUnion "(string \<times> ctype) list"

definition align_up :: "nat \<Rightarrow> nat \<Rightarrow> nat" where
  "align_up n a = (n + a - 1) div a * a"

fun c_align :: "ctype \<Rightarrow> nat" where
  "c_align (CInt n) = n"
| "c_align (CPtr t) = 8"
| "c_align (CArray t n) = c_align t"
| "c_align (CStruct ms) = fold max (map (\<lambda>m. c_align (snd m)) ms) 1"
| "c_align (CUnion ms) = fold max (map (\<lambda>m. c_align (snd m)) ms) 1"

fun c_size :: "ctype \<Rightarrow> nat" where
  "c_size (CInt n) = n"
| "c_size (CPtr t) = 8"
| "c_size (CArray t n) = c_size t * n"
| "c_size (CStruct ms) =
     align_up (fold (\<lambda>m e. align_up e (c_align (snd m)) + c_size (snd m)) ms 0) (c_align (CStruct ms))"
| "c_size (CUnion ms) =
     align_up (fold (\<lambda>m e. max e (c_size (snd m))) ms 0) (c_align (CUnion ms))"

fun c_member :: "nat \<Rightarrow> (string \<times> ctype) list \<Rightarrow> string \<Rightarrow> nat \<times> ctype" where
  "c_member e [] x = (0, CInt 0)"
| "c_member e ((y, t) # ms) x =
     (let off = align_up e (c_align t) in if x = y then (off, t) else c_member (off + c_size t) ms x)"

text \<open>Offset and type of a member, named by its path (\<open>u.m\<close> inside a union).\<close>

fun c_path :: "ctype \<Rightarrow> string list \<Rightarrow> nat \<times> ctype" where
  "c_path t [] = (0, t)"
| "c_path (CStruct ms) (x # xs) =
     (let (off, t) = c_member 0 ms x; (off', t') = c_path t xs in (off + off', t'))"
| "c_path (CUnion ms) (x # xs) =
     (case map_of ms x of None \<Rightarrow> (0, CInt 0) | Some t \<Rightarrow> c_path t xs)"
| "c_path t (x # xs) = (0, CInt 0)"

definition offsetof :: "ctype \<Rightarrow> string list \<Rightarrow> int" where
  "offsetof st m = int (fst (c_path st m))"

text \<open>\<open>pb_membersize(st, m)\<close> and \<open>pb_membersize(st, m[0])\<close>, \<open>pb_arraysize\<close>, \<open>pb_delta\<close>.\<close>

definition pb_membersize :: "ctype \<Rightarrow> string list \<Rightarrow> int" where
  "pb_membersize st m = int (c_size (snd (c_path st m)))"

definition pb_membersize0 :: "ctype \<Rightarrow> string list \<Rightarrow> int" where
  "pb_membersize0 st m = (case snd (c_path st m) of CPtr t \<Rightarrow> int (c_size t)
     | CArray t n \<Rightarrow> int (c_size t) | _ \<Rightarrow> 0)"

definition pb_arraysize :: "ctype \<Rightarrow> string list \<Rightarrow> int" where
  "pb_arraysize st m = pb_membersize st m div pb_membersize0 st m"

definition pb_delta :: "ctype \<Rightarrow> string list \<Rightarrow> string list \<Rightarrow> int" where
  "pb_delta st m1 m2 = offsetof st m1 - offsetof st m2"

section \<open>Descriptor macros\<close>

definition PB_DATAOFFSET_FIRST :: "ctype \<Rightarrow> string list \<Rightarrow> string list \<Rightarrow> int" where
  "PB_DATAOFFSET_FIRST st m1 m2 = offsetof st m1"

definition PB_DATAOFFSET_OTHER :: "ctype \<Rightarrow> string list \<Rightarrow> string list \<Rightarrow> int" where
  "PB_DATAOFFSET_OTHER st m1 m2 = offsetof st m1 - offsetof st m2 - pb_membersize st m2"

definition PB_DATAOFFSET_UNION :: "ctype \<Rightarrow> string list \<Rightarrow> string list \<Rightarrow> int" where
  "PB_DATAOFFSET_UNION st m1 m2 = uint PB_SIZE_MAX"

definition PB_DATAOFFSET_CHOOSE :: "ctype \<Rightarrow> string list \<Rightarrow> string list \<Rightarrow> int" where
  "PB_DATAOFFSET_CHOOSE st m1 m2 =
     (if offsetof st m1 = offsetof st m2 then PB_DATAOFFSET_FIRST st m1 m2
      else PB_DATAOFFSET_OTHER st m1 m2)"

text \<open>Token pasting (\<open>has_ ## m\<close>, \<open>m ## _count\<close>) on the last name of a path.\<close>

definition paste :: "string \<Rightarrow> string list \<Rightarrow> string \<Rightarrow> string list" where
  "paste pre m suf = butlast m @ [pre @ last m @ suf]"

definition mk_field ::
  "u32 \<Rightarrow> u8 \<Rightarrow> int \<Rightarrow> int \<Rightarrow> int \<Rightarrow> int \<Rightarrow> pb_ptr \<Rightarrow> pb_field" where
  "mk_field tag ty fd so ds as p =
     PbField tag ty (word_of_int fd) (word_of_int so) (word_of_int ds) (word_of_int as) p"

definition PB_REQUIRED_STATIC where
  "PB_REQUIRED_STATIC tag st m fd ltype p =
     mk_field tag (PB_ATYPE_STATIC OR PB_HTYPE_REQUIRED OR ltype) fd 0 (pb_membersize st m) 0 p"

definition PB_OPTIONAL_STATIC where
  "PB_OPTIONAL_STATIC tag st m fd ltype p =
     mk_field tag (PB_ATYPE_STATIC OR PB_HTYPE_OPTIONAL OR ltype) fd
       (pb_delta st (paste ''has_'' m []) m) (pb_membersize st m) 0 p"

definition PB_SINGULAR_STATIC where
  "PB_SINGULAR_STATIC tag st m fd ltype p =
     mk_field tag (PB_ATYPE_STATIC OR PB_HTYPE_OPTIONAL OR ltype) fd 0 (pb_membersize st m) 0 p"

definition PB_REPEATED_STATIC where
  "PB_REPEATED_STATIC tag st m fd ltype p =
     mk_field tag (PB_ATYPE_STATIC OR PB_HTYPE_REPEATED OR ltype) fd
       (pb_delta st (paste [] m ''_count'') m) (pb_membersize0 st m) (pb_arraysize st m) p"

definition PB_REQUIRED_POINTER where
  "PB_REQUIRED_POINTER tag st m fd ltype p =
     mk_field tag (PB_ATYPE_POINTER OR PB_HTYPE_REQUIRED OR ltype) fd 0 (pb_membersize0 st m) 0 p"

definition PB_OPTIONAL_POINTER where
  "PB_OPTIONAL_POINTER tag st m fd ltype p =
     mk_field tag (PB_ATYPE_POINTER OR PB_HTYPE_OPTIONAL OR ltype) fd 0 (pb_membersize0 st m) 0 p"

definition PB_SINGULAR_POINTER where
  "PB_SINGULAR_POINTER tag st m fd ltype p =
     mk_field tag (PB_ATYPE_POINTER OR PB_HTYPE_OPTIONAL OR ltype) fd 0 (pb_membersize0 st m) 0 p"

definition PB_REPEATED_POINTER where
  "PB_REPEATED_POINTER tag st m fd ltype p =
     mk_field tag (PB_ATYPE_POINTER OR PB_HTYPE_REPEATED OR ltype) fd
       (pb_delta st (paste [] m ''_count'') m) (pb_membersize0 st m) 0 p"

definition PB_REQUIRED_CALLBACK where
  "PB_REQUIRED_CALLBACK tag st m fd ltype p =
     mk_field tag (PB_ATYPE_CALLBACK OR PB_HTYPE_REQUIRED OR ltype) fd 0 (pb_membersize st m) 0 p"

definition PB_OPTIONAL_CALLBACK where
  "PB_OPTIONAL_CALLBACK tag st m fd ltype p =
     mk_field tag (PB_ATYPE_CALLBACK OR PB_HTYPE_OPTIONAL OR ltype) fd 0 (pb_membersize st m) 0 p"

definition PB_SINGULAR_CALLBACK where
  "PB_SINGULAR_CALLBACK tag st m fd ltype p =
     mk_field tag (PB_ATYPE_CALLBACK OR PB_HTYPE_OPTIONAL OR ltype) fd 0 (pb_membersize st m) 0 p"

definition PB_REPEATED_CALLBACK where
  "PB_REPEATED_CALLBACK tag st m fd ltype p =
     mk_field tag (PB_ATYPE_CALLBACK OR PB_HTYPE_REPEATED OR ltype) fd 0 (pb_membersize st m) 0 p"

definition PB_OPTEXT_STATIC where
  "PB_OPTEXT_STATIC tag st m fd ltype p =
     mk_field tag (PB_ATYPE_STATIC OR PB_HTYPE_REQUIRED OR ltype) 0 0 (pb_membersize st m) 0 p"

definition PB_OPTEXT_POINTER where
  "PB_OPTEXT_POINTER tag st m fd ltype p = PB_OPTIONAL_POINTER tag st m fd ltype p"

definition PB_OPTEXT_CALLBACK where
  "PB_OPTEXT_CALLBACK tag st m fd ltype p = PB_OPTIONAL_CALLBACK tag st m fd ltype p"

datatype pb_proto_type =
  BOOL | BYTES | DOUBLE | ENUM | UENUM | FIXED32 | FIXED64 | FLOAT | INT32 | INT64 | MESSAGE
| SFIXED32 | SFIXED64 | SINT32 | SINT64 | STRING | UINT32 | UINT64 | EXTENSION | FIXED_LENGTH_BYTES

fun PB_LTYPE_MAP :: "pb_proto_type \<Rightarrow> u8" where
  "PB_LTYPE_MAP BOOL = PB_LTYPE_BOOL"
| "PB_LTYPE_MAP BYTES = PB_LTYPE_BYTES"
| "PB_LTYPE_MAP DOUBLE = PB_LTYPE_FIXED64"
| "PB_LTYPE_MAP ENUM = PB_LTYPE_VARINT"
| "PB_LTYPE_MAP UENUM = PB_LTYPE_UVARINT"
| "PB_LTYPE_MAP FIXED32 = PB_LTYPE_FIXED32"
| "PB_LTYPE_MAP FIXED64 = PB_LTYPE_FIXED64"
| "PB_LTYPE_MAP FLOAT = PB_LTYPE_FIXED32"
| "PB_LTYPE_MAP INT32 = PB_LTYPE_VARINT"
| "PB_LTYPE_MAP INT64 = PB_LTYPE_VARINT"
| "PB_LTYPE_MAP MESSAGE = PB_LTYPE_SUBMESSAGE"
| "PB_LTYPE_MAP SFIXED32 = PB_LTYPE_FIXED32"
| "PB_LTYPE_MAP SFIXED64 = PB_LTYPE_FIXED64"
| "PB_LTYPE_MAP SINT32 = PB_LTYPE_SVARINT"
| "PB_LTYPE_MAP SINT64 = PB_LTYPE_SVARINT"
| "PB_LTYPE_MAP STRING = PB_LTYPE_STRING"
| "PB_LTYPE_MAP UINT32 = PB_LTYPE_UVARINT"
| "PB_LTYPE_MAP UINT64 = PB_LTYPE_UVARINT"
| "PB_LTYPE_MAP EXTENSION = PB_LTYPE_EXTENSION"
| "PB_LTYPE_MAP FIXED_LENGTH_BYTES = PB_LTYPE_FIXED_LENGTH_BYTES"

datatype pb_rules = REQUIRED | OPTIONAL | SINGULAR | REPEATED | OPTEXT
datatype pb_allocation = STATIC | POINTER | CALLBACK
datatype pb_placement = FIRST | OTHER | UNION

text \<open>The pasted names \<open>PB_ ## rules ## _ ## allocation\<close> and \<open>PB_DATAOFFSET_ ## placement\<close>.\<close>

fun PB_DATAOFFSET :: "pb_placement \<Rightarrow> ctype \<Rightarrow> string list \<Rightarrow> string list \<Rightarrow> int" where
  "PB_DATAOFFSET FIRST = PB_DATAOFFSET_FIRST"
| "PB_DATAOFFSET OTHER = PB_DATAOFFSET_OTHER"
| "PB_DATAOFFSET UNION = PB_DATAOFFSET_UNION"

fun PB_RULES_ALLOCATION :: "pb_rules \<Rightarrow> pb_allocation \<Rightarrow>
    u32 \<Rightarrow> ctype \<Rightarrow> string list \<Rightarrow> int \<Rightarrow> u8 \<Rightarrow> pb_ptr \<Rightarrow> pb_field" where
  "PB_RULES_ALLOCATION REQUIRED STATIC = PB_REQUIRED_STATIC"
| "PB_RULES_ALLOCATION OPTIONAL STATIC = PB_OPTIONAL_STATIC"
| "PB_RULES_ALLOCATION SINGULAR STATIC = PB_SINGULAR_STATIC"
| "PB_RULES_ALLOCATION REPEATED STATIC = PB_REPEATED_STATIC"
| "PB_RULES_ALLOCATION OPTEXT STATIC = PB_OPTEXT_STATIC"
| "PB_RULES_ALLOCATION REQUIRED POINTER = PB_REQUIRED_POINTER"
| "PB_RULES_ALLOCATION OPTIONAL POINTER = PB_OPTIONAL_POINTER"
| "PB_RULES_ALLOCATION SINGULAR POINTER = PB_SINGULAR_POINTER"
| "PB_RULES_ALLOCATION REPEATED POINTER = PB_REPEATED_POINTER"
| "PB_RULES_ALLOCATION OPTEXT POINTER = PB_OPTEXT_POINTER"
| "PB_RULES_ALLOCATION REQUIRED CALLBACK = PB_REQUIRED_CALLBACK"
| "PB_RULES_ALLOCATION OPTIONAL CALLBACK = PB_OPTIONAL_CALLBACK"
| "PB_RULES_ALLOCATION SINGULAR CALLBACK = PB_SINGULAR_CALLBACK"
| "PB_RULES_ALLOCATION REPEATED CALLBACK = PB_REPEATED_CALLBACK"
| "PB_RULES_ALLOCATION OPTEXT CALLBACK = PB_OPTEXT_CALLBACK"

definition PB_FIELD :: "u32 \<Rightarrow> pb_proto_type \<Rightarrow> pb_rules \<Rightarrow> pb_allocation \<Rightarrow> pb_placement \<Rightarrow>
    ctype \<Rightarrow> string \<Rightarrow> string \<Rightarrow> pb_ptr \<Rightarrow> pb_field" where
  "PB_FIELD tag ty rules allocation placement message field prevfield p =
     PB_RULES_ALLOCATION rules allocation tag message [field]
       (PB_DATAOFFSET placement message [field] [prevfield]) (PB_LTYPE_MAP ty) p"

definition PB_REPEATED_FIXED_COUNT :: "u32 \<Rightarrow> pb_proto_type \<Rightarrow> pb_placement \<Rightarrow>
    ctype \<Rightarrow> string \<Rightarrow> string \<Rightarrow> pb_ptr \<Rightarrow> pb_field" where
  "PB_REPEATED_FIXED_COUNT tag ty placement message field prevfield p =
     mk_field tag (PB_ATYPE_STATIC OR PB_HTYPE_REPEATED OR PB_LTYPE_MAP ty)
       (PB_DATAOFFSET placement message [field] [prevfield]) 0
       (pb_membersize0 message [field]) (pb_arraysize message [field]) p"

definition PB_ONEOF_STATIC where
  "PB_ONEOF_STATIC u tag st m fd ltype p =
     mk_field tag (PB_ATYPE_STATIC OR PB_HTYPE_ONEOF OR ltype) fd
       (pb_delta st [''which_'' @ u] [u, m]) (pb_membersize st [u, m]) 0 p"

definition PB_ONEOF_POINTER where
  "PB_ONEOF_POINTER u tag st m fd ltype p =
     mk_field tag (PB_ATYPE_POINTER OR PB_HTYPE_ONEOF OR ltype) fd
       (pb_delta st [''which_'' @ u] [u, m]) (pb_membersize0 st [u, m]) 0 p"

definition PB_ONEOF_FIELD where
  "PB_ONEOF_FIELD u tag ty allocation placement message field prevfield p =
     (if allocation = POINTER then PB_ONEOF_POINTER else PB_ONEOF_STATIC) u tag message field
       (PB_DATAOFFSET placement message [u, field] prevfield) (PB_LTYPE_MAP ty) p"

definition PB_ANONYMOUS_ONEOF_STATIC where
  "PB_ANONYMOUS_ONEOF_STATIC u tag st m fd ltype p =
     mk_field tag (PB_ATYPE_STATIC OR PB_HTYPE_ONEOF OR ltype) fd
       (pb_delta st [''which_'' @ u] m) (pb_membersize st m) 0 p"

definition PB_ANONYMOUS_ONEOF_POINTER where
  "PB_ANONYMOUS_ONEOF_POINTER u tag st m fd ltype p =
     mk_field tag (PB_ATYPE_POINTER OR PB_HTYPE_ONEOF OR ltype) fd
       (pb_delta st [''which_'' @ u] m) (pb_membersize0 st m) 0 p"

definition PB_ANONYMOUS_ONEOF_FIELD where
  "PB_ANONYMOUS_ONEOF_FIELD u tag ty allocation placement message field prevfield p =
     (if allocation = POINTER then PB_ANONYMOUS_ONEOF_POINTER else PB_ANONYMOUS_ONEOF_STATIC)
       u tag message field
       (PB_DATAOFFSET placement message field prevfield) (PB_LTYPE_MAP ty) p"

lemmas pb_macros = PB_FIELD_def PB_REPEATED_FIXED_COUNT_def PB_ONEOF_FIELD_def
  PB_ANONYMOUS_ONEOF_FIELD_def PB_REQUIRED_STATIC_def PB_OPTIONAL_STATIC_def PB_SINGULAR_STATIC_def
  PB_REPEATED_STATIC_def PB_REQUIRED_POINTER_def PB_OPTIONAL_POINTER_def PB_SINGULAR_POINTER_def
  PB_REPEATED_POINTER_def PB_REQUIRED_CALLBACK_def PB_OPTIONAL_CALLBACK_def
  PB_SINGULAR_CALLBACK_def PB_REPEATED_CALLBACK_def PB_OPTEXT_STATIC_def PB_OPTEXT_POINTER_def
  PB_OPTEXT_CALLBACK_def PB_ONEOF_STATIC_def PB_ONEOF_POINTER_def PB_ANONYMOUS_ONEOF_STATIC_def
  PB_ANONYMOUS_ONEOF_POINTER_def mk_field_def paste_def
  PB_DATAOFFSET_FIRST_def PB_DATAOFFSET_OTHER_def PB_DATAOFFSET_UNION_def
  pb_delta_def pb_membersize_def pb_membersize0_def pb_arraysize_def offsetof_def align_up_def

end
