(* ===== verification/PB_Iter.thy ===== *)
theory PB_Iter
  imports PB_Types
begin

text \<open>
  \<open>pb_common.c\<close>: the iterator that walks a descriptor array and keeps the addresses of the current
  field and of its count or has-flag.  The theory ends with what the iterator promises its clients:
  where every field is, in which order the fields come, and that a search ends.
\<close>

record pb_field_iter_t =
  it_start :: "pb_field list"
  it_pos :: nat
  required_field_index :: nat
  dest_struct :: addr
  pData :: addr
  pSize :: addr

abbreviation it_field :: "pb_field_iter_t \<Rightarrow> pb_field" where
  "it_field it \<equiv> field_at (it_start it) (it_pos it)"

definition pb_field_iter_begin :: "pb_field list \<Rightarrow> addr \<Rightarrow> bool \<times> pb_field_iter_t" where
  "pb_field_iter_begin fs dest =
     (let pos = field_at fs 0; pd = dest + uint (f_data_offset pos) in
      (f_tag pos \<noteq> 0,
       \<lparr>it_start = fs, it_pos = 0, required_field_index = 0, dest_struct = dest,
        pData = pd, pSize = pd + sint (f_size_offset pos)\<rparr>))"

text \<open>
  \<open>prev_size\<close> is a \<open>size_t\<close>; the product of two 32-bit numbers does not wrap in it.
\<close>

definition prev_size :: "pb_field \<Rightarrow> int" where
  "prev_size f =
     (if f_atype f = PB_ATYPE_STATIC \<and> f_htype f = PB_HTYPE_REPEATED
      then uint (f_data_size f) * uint (f_array_size f)
      else if f_atype f = PB_ATYPE_POINTER then 8
      else uint (f_data_size f))"

definition inside_union :: "pb_field \<Rightarrow> pb_field \<Rightarrow> bool" where
  "inside_union prev pos \<longleftrightarrow> f_htype prev = PB_HTYPE_ONEOF \<and> f_htype pos = PB_HTYPE_ONEOF
     \<and> f_data_offset pos = PB_SIZE_MAX"

definition pb_field_iter_next :: "pb_field_iter_t \<Rightarrow> bool \<times> pb_field_iter_t" where
  "pb_field_iter_next it =
     (let prev_field = it_field it in
      if f_tag prev_field = 0 then (False, it)
      else let it = it\<lparr>it_pos := Suc (it_pos it)\<rparr>; pos = it_field it in
        if f_tag pos = 0
        then (False, snd (pb_field_iter_begin (it_start it) (dest_struct it)))
        else if inside_union prev_field pos then (True, it)
        else let it = (if f_htype prev_field = PB_HTYPE_REQUIRED
                       then it\<lparr>required_field_index := Suc (required_field_index it)\<rparr> else it);
                 pd = pData it + prev_size prev_field + uint (f_data_offset pos)
             in (True, it\<lparr>pData := pd, pSize := pd + sint (f_size_offset pos)\<rparr>))"

definition find_step :: "nat \<Rightarrow> u32 \<Rightarrow> pb_field_iter_t \<Rightarrow>
    ((bool \<times> pb_field_iter_t) + pb_field_iter_t) option" where
  "find_step start tag it =
     (if f_tag (it_field it) = tag \<and> f_ltype (it_field it) \<noteq> PB_LTYPE_EXTENSION
      then Some (Inl (True, it))
      else let it' = snd (pb_field_iter_next it) in
        if it_pos it' \<noteq> start then Some (Inr it') else Some (Inl (False, it')))"

definition pb_field_iter_find :: "pb_field_iter_t \<Rightarrow> u32 \<Rightarrow> (bool \<times> pb_field_iter_t) option" where
  "pb_field_iter_find it tag = c_loop (find_step (it_pos it) tag) it"

text \<open>The loop \<open>do { f } while (pb_field_iter_next(&iter))\<close>; a failing \<open>f\<close> leaves it.\<close>

definition iter_step :: "(pb_field_iter_t \<Rightarrow> 's \<Rightarrow> ('v, 's) cres) \<Rightarrow> pb_field_iter_t \<times> 's \<Rightarrow>
    ((unit option \<times> 's) + (pb_field_iter_t \<times> 's)) option" where
  "iter_step f x = (case f (fst x) (snd x) of None \<Rightarrow> None
     | Some (r, s) \<Rightarrow> (case r of None \<Rightarrow> Some (Inl (None, s))
       | Some _ \<Rightarrow> (let (more, it') = pb_field_iter_next (fst x)
                    in if more then Some (Inr (it', s)) else Some (Inl (Some (), s)))))"

definition iter_loop :: "(pb_field_iter_t \<Rightarrow> 's \<Rightarrow> ('v, 's) cres) \<Rightarrow> pb_field_iter_t \<Rightarrow> 's \<Rightarrow>
    (unit, 's) cres" where
  "iter_loop f it s = c_loop (iter_step f) (it, s)"

section \<open>What the iterator computes\<close>

text \<open>The fields of a message are those before the terminator.\<close>

definition n_fields :: "pb_field list \<Rightarrow> nat" where
  "n_fields fs = length (takeWhile (\<lambda>f. f_tag f \<noteq> 0) fs)"

lemma n_fields_le: "n_fields fs \<le> length fs"
  by (simp add: n_fields_def length_takeWhile_le)

lemma field_at_lt: "i < n_fields fs \<Longrightarrow> field_at fs i = fs ! i"
  using n_fields_le [of fs] by (simp add: field_at_def)

lemma n_fields_tag: "i < n_fields fs \<Longrightarrow> f_tag (field_at fs i) \<noteq> 0"
proof -
  assume i: "i < n_fields fs"
  then have "takeWhile (\<lambda>f. f_tag f \<noteq> 0) fs ! i \<in> set (takeWhile (\<lambda>f. f_tag f \<noteq> 0) fs)"
    by (simp add: n_fields_def)
  then have "f_tag (takeWhile (\<lambda>f. f_tag f \<noteq> 0) fs ! i) \<noteq> 0" by (rule set_takeWhileD [THEN conjunct2])
  with i show ?thesis by (simp add: field_at_lt takeWhile_nth n_fields_def)
qed

lemma n_fields_end: "f_tag (field_at fs (n_fields fs)) = 0"
proof (cases "n_fields fs < length fs")
  case True
  then have "\<not> f_tag (fs ! n_fields fs) \<noteq> 0"
    unfolding n_fields_def by (rule nth_length_takeWhile)
  with True show ?thesis by (simp add: field_at_def)
next
  case False
  then show ?thesis by (simp add: field_at_def PB_LAST_FIELD_def)
qed

lemma n_fields_0: "f_tag (field_at fs 0) \<noteq> 0 \<longleftrightarrow> 0 < n_fields fs"
  using n_fields_tag [of 0 fs] n_fields_end [of fs] by (cases "n_fields fs") auto

text \<open>
  The addresses of field \<open>i\<close> and of its count, relative to the structure: each field starts
  \<open>data_offset\<close> after the end of the previous one, except inside a union.
\<close>

fun field_ptrs :: "pb_field list \<Rightarrow> nat \<Rightarrow> int \<times> int" where
  "field_ptrs fs 0 =
     (let d = uint (f_data_offset (field_at fs 0)) in (d, d + sint (f_size_offset (field_at fs 0))))"
| "field_ptrs fs (Suc i) =
     (let (d, s) = field_ptrs fs i; f = field_at fs (Suc i) in
      if inside_union (field_at fs i) f then (d, s)
      else let d' = d + prev_size (field_at fs i) + uint (f_data_offset f)
           in (d', d' + sint (f_size_offset f)))"

definition required_before :: "pb_field list \<Rightarrow> nat \<Rightarrow> nat" where
  "required_before fs i = length (filter (\<lambda>j. f_htype (field_at fs j) = PB_HTYPE_REQUIRED) [0..<i])"

definition iter_at :: "pb_field list \<Rightarrow> addr \<Rightarrow> nat \<Rightarrow> pb_field_iter_t" where
  "iter_at fs base i =
     \<lparr>it_start = fs, it_pos = i, required_field_index = required_before fs i, dest_struct = base,
      pData = base + fst (field_ptrs fs i), pSize = base + snd (field_ptrs fs i)\<rparr>"

lemma iter_at_sel [simp]:
  "it_start (iter_at fs base i) = fs" "it_pos (iter_at fs base i) = i"
  "dest_struct (iter_at fs base i) = base"
  "pData (iter_at fs base i) = base + fst (field_ptrs fs i)"
  "pSize (iter_at fs base i) = base + snd (field_ptrs fs i)"
  "required_field_index (iter_at fs base i) = required_before fs i"
  by (simp_all add: iter_at_def)

lemma iter_at_inj: "iter_at fs base i = iter_at fs base j \<longleftrightarrow> i = j"
  by (metis iter_at_sel(2))

lemma required_before_0 [simp]: "required_before fs 0 = 0"
  by (simp add: required_before_def)

lemma required_before_Suc: "required_before fs (Suc i) =
    required_before fs i + (if f_htype (field_at fs i) = PB_HTYPE_REQUIRED then 1 else 0)"
  by (simp add: required_before_def)

lemma iter_begin_at: "pb_field_iter_begin fs base = (0 < n_fields fs, iter_at fs base 0)"
  using n_fields_0 [of fs] by (simp add: pb_field_iter_begin_def iter_at_def Let_def)

lemma inside_union_not_required:
  "inside_union f g \<Longrightarrow> f_htype f \<noteq> PB_HTYPE_REQUIRED"
  by (simp add: inside_union_def)

lemma iter_next_at:
  assumes "i < n_fields fs"
  shows "pb_field_iter_next (iter_at fs base i) =
     (if Suc i < n_fields fs then (True, iter_at fs base (Suc i)) else (False, iter_at fs base 0))"
proof (cases "Suc i < n_fields fs")
  case True
  then have t: "f_tag (field_at fs (Suc i)) \<noteq> 0" by (rule n_fields_tag)
  obtain d s where ds: "field_ptrs fs i = (d, s)" by (cases "field_ptrs fs i")
  show ?thesis
    using True t assms n_fields_tag [OF assms] inside_union_not_required [of "field_at fs i"]
    by (auto simp: pb_field_iter_next_def iter_at_def Let_def ds required_before_Suc)
next
  case False
  with assms have "Suc i = n_fields fs" by simp
  with n_fields_end [of fs] have "f_tag (field_at fs (Suc i)) = 0" by simp
  with False n_fields_tag [OF assms] show ?thesis
    by (simp add: pb_field_iter_next_def Let_def iter_begin_at)
qed

lemma iter_next_mod:
  assumes "i < n_fields fs"
  shows "snd (pb_field_iter_next (iter_at fs base i)) = iter_at fs base (Suc i mod n_fields fs)"
proof (cases "Suc i < n_fields fs")
  case False
  with assms have "Suc i = n_fields fs" by simp
  with assms show ?thesis by (simp add: iter_next_at)
qed (simp add: iter_next_at assms)

lemma iter_next_empty: "n_fields fs = 0 \<Longrightarrow> pb_field_iter_next (iter_at fs base 0) = (False, iter_at fs base 0)"
  using n_fields_0 [of fs] by (simp add: pb_field_iter_next_def)

text \<open>A loop over the fields is a walk over the list of their positions.\<close>

fun each_field :: "(pb_field_iter_t \<Rightarrow> 's \<Rightarrow> ('v, 's) cres) \<Rightarrow> pb_field list \<Rightarrow> addr \<Rightarrow> nat list \<Rightarrow>
    's \<Rightarrow> (unit, 's) cres" where
  "each_field f fs base [] s = c_true s"
| "each_field f fs base (i # is) s =
     c_bind (f (iter_at fs base i) s) (\<lambda>_ s. each_field f fs base is s)"

lemma iter_loop_each:
  "i < n_fields fs \<Longrightarrow> iter_loop f (iter_at fs base i) s = each_field f fs base [i..<n_fields fs] s"
proof (induction "n_fields fs - i" arbitrary: i s)
  case (Suc k)
  note step = iter_next_at [OF Suc.prems, of base]
  have unf: "iter_loop f (iter_at fs base i) s =
      (case iter_step f (iter_at fs base i, s) of None \<Rightarrow> None
       | Some x \<Rightarrow> (case x of Inl r \<Rightarrow> Some r | Inr (it', s') \<Rightarrow> iter_loop f it' s'))"
    unfolding iter_loop_def by (subst c_loop.simps) (simp split: option.split sum.split prod.split)
  have upt: "[i..<n_fields fs] = i # [Suc i..<n_fields fs]"
    using Suc.prems by (rule upt_conv_Cons)
  show ?case
  proof (cases "f (iter_at fs base i) s")
    case None
    then show ?thesis unfolding unf upt by (simp add: iter_step_def)
  next
    case (Some rs)
    obtain r s' where rs: "rs = (r, s')" by (cases rs)
    show ?thesis
    proof (cases r)
      case None
      with Some rs show ?thesis unfolding unf upt by (simp add: iter_step_def)
    next
      case (Some v)
      show ?thesis
      proof (cases "Suc i < n_fields fs")
        case True
        moreover have "k = n_fields fs - Suc i" using Suc.hyps(2) by simp
        ultimately have "iter_loop f (iter_at fs base (Suc i)) s' =
            each_field f fs base [Suc i..<n_fields fs] s'"
          using Suc.hyps(1) by blast
        with \<open>f (iter_at fs base i) s = Some rs\<close> rs Some True step show ?thesis
          unfolding unf upt by (simp add: iter_step_def)
      next
        case False
        with \<open>f (iter_at fs base i) s = Some rs\<close> rs Some step show ?thesis
          unfolding unf upt by (simp add: iter_step_def c_true_def)
      qed
    qed
  qed
qed simp

text \<open>
  The search order from position \<open>i\<close>: to the end, then from the start up to \<open>i\<close>.
\<close>

definition search_order :: "pb_field list \<Rightarrow> nat \<Rightarrow> nat list" where
  "search_order fs i = [i..<n_fields fs] @ [0..<i]"

definition tag_matches :: "pb_field list \<Rightarrow> u32 \<Rightarrow> nat \<Rightarrow> bool" where
  "tag_matches fs tag j \<longleftrightarrow> f_tag (field_at fs j) = tag \<and> f_ltype (field_at fs j) \<noteq> PB_LTYPE_EXTENSION"

lemma find_step_at:
  assumes "j < n_fields fs"
  shows "find_step start tag (iter_at fs base j) =
     (if tag_matches fs tag j then Some (Inl (True, iter_at fs base j))
      else if Suc j mod n_fields fs \<noteq> start
        then Some (Inr (iter_at fs base (Suc j mod n_fields fs)))
        else Some (Inl (False, iter_at fs base start)))"
  by (auto simp: find_step_def Let_def tag_matches_def iter_next_mod [OF assms])

lemma find_loop_at:
  assumes "js \<noteq> []" "\<forall>j\<in>set js. j < n_fields fs" "start < n_fields fs"
    and "\<forall>k. Suc k < length js \<longrightarrow> js ! Suc k \<noteq> start \<and> js ! Suc k = Suc (js ! k) mod n_fields fs"
    and "Suc (last js) mod n_fields fs = start"
  shows "c_loop (find_step start tag) (iter_at fs base (hd js)) =
     Some (case find (tag_matches fs tag) js of Some j \<Rightarrow> (True, iter_at fs base j)
           | None \<Rightarrow> (False, iter_at fs base start))"
  using assms(1,2,4,5)
proof (induction js rule: list_nonempty_induct)
  case (single j)
  then show ?case
    using find_step_at [of j fs start tag base]
    by (cases "tag_matches fs tag j") (simp_all add: c_loop_unfold)
next
  case (cons j js)
  then obtain k ks where js: "js = k # ks" by (cases js) auto
  have k: "k \<noteq> start" "k = Suc j mod n_fields fs" "j < n_fields fs"
    using cons.prems(1,2) js by (auto dest: spec [of _ 0])
  have "\<forall>k. Suc k < length js \<longrightarrow> js ! Suc k \<noteq> start \<and> js ! Suc k = Suc (js ! k) mod n_fields fs"
  proof (intro allI impI)
    fix k assume "Suc k < length js"
    then show "js ! Suc k \<noteq> start \<and> js ! Suc k = Suc (js ! k) mod n_fields fs"
      using cons.prems(2) [rule_format, of "Suc k"] by simp
  qed
  moreover have "Suc (last js) mod n_fields fs = start" "\<forall>j\<in>set js. j < n_fields fs"
    using cons.prems(1,3) js by auto
  ultimately have "c_loop (find_step start tag) (iter_at fs base (hd js)) =
     Some (case find (tag_matches fs tag) js of Some j \<Rightarrow> (True, iter_at fs base j)
           | None \<Rightarrow> (False, iter_at fs base start))"
    by (intro cons.IH)
  moreover have "hd js = Suc j mod n_fields fs" using js k by simp
  ultimately show ?case
    using find_step_at [of j fs start tag base] k
    by (cases "tag_matches fs tag j") (simp_all add: c_loop_unfold)
qed

lemma iter_find_at:
  assumes "i < n_fields fs"
  shows "pb_field_iter_find (iter_at fs base i) tag =
     Some (case find (tag_matches fs tag) (search_order fs i) of Some j \<Rightarrow> (True, iter_at fs base j)
           | None \<Rightarrow> (False, iter_at fs base i))"
proof -
  let ?n = "n_fields fs" and ?js = "search_order fs i"
  have nth: "?js ! k = (i + k) mod ?n" if "k < ?n" for k
  proof (cases "k < ?n - i")
    case True
    with assms show ?thesis by (simp add: search_order_def nth_append)
  next
    case False
    with assms that have "(i + k) mod ?n = i + k - ?n" by (subst mod_if) auto
    with False assms that show ?thesis by (simp add: search_order_def nth_append)
  qed
  have len: "length ?js = ?n" using assms by (simp add: search_order_def)
  have "?js \<noteq> []" using assms by (simp add: search_order_def)
  moreover have "hd ?js = i" using assms by (simp add: search_order_def upt_conv_Cons)
  moreover have "\<forall>j\<in>set ?js. j < ?n" using assms by (auto simp: search_order_def)
  moreover have "\<forall>k. Suc k < length ?js \<longrightarrow> ?js ! Suc k \<noteq> i \<and> ?js ! Suc k = Suc (?js ! k) mod ?n"
  proof (intro allI impI)
    fix k assume k: "Suc k < length ?js"
    then have "Suc k < ?n" by (simp add: len)
    then have "?js ! Suc k = (i + Suc k) mod ?n" "?js ! k = (i + k) mod ?n" by (simp_all add: nth)
    moreover have "(i + Suc k) mod ?n \<noteq> i"
      using \<open>Suc k < ?n\<close> assms by (simp add: mod_if) arith
    ultimately show "?js ! Suc k \<noteq> i \<and> ?js ! Suc k = Suc (?js ! k) mod ?n"
      by (simp add: mod_Suc_eq)
  qed
  moreover have "Suc (last ?js) mod ?n = i"
    using assms by (cases i) (auto simp: search_order_def last_append)
  ultimately show ?thesis
    unfolding pb_field_iter_find_def using find_loop_at [of ?js fs i tag base] assms
    by (metis iter_at_sel(2))
qed

lemma iter_find_empty:
  assumes "n_fields fs = 0"
  shows "pb_field_iter_find (iter_at fs base 0) tag =
     Some (if tag_matches fs tag 0 then (True, iter_at fs base 0) else (False, iter_at fs base 0))"
  unfolding pb_field_iter_find_def
  by (subst c_loop.simps) (simp add: find_step_def iter_next_empty [OF assms] tag_matches_def)

end
