(* ===== verification/PB_Istream.thy ===== *)
theory PB_Istream
  imports PB_Iter
begin

text \<open>
  The input side of \<open>pb_decode.c\<close> that knows nothing of messages: \<open>pb_istream_t\<close>, reading, varints,
  tags, skipping and length-limited substreams.
\<close>

section \<open>Streams and user code\<close>

text \<open>
  \<open>callback\<close> is either the library's own \<open>buf_read\<close> or some function of the user.  The \<open>state\<close> of a
  buffer stream points into a byte array; it is modelled by the bytes from that pointer to the end of
  the array, so that a read past the end of the array is an access with no result.
\<close>

datatype i_callback_t = BufRead | UserRead nat

record pb_istream_t =
  i_callback :: i_callback_t
  i_state :: "u8 list"
  bytes_left :: u64
  i_errmsg :: "string option"

text \<open>
  Code that is not part of the library: stream callbacks, field callbacks and extension handlers,
  and the constant extension types, each looked up by the pointer the library holds.  They are parameters
  of the model.  A callback may change the stream it is given; a field or extension handler may also
  change memory.
\<close>

type_synonym dstate = "pb_istream_t \<times> machine"

record dec_user =
  u_read :: "nat \<Rightarrow> u64 \<Rightarrow> pb_istream_t \<Rightarrow> (u8 list, pb_istream_t) cres"
  u_decode :: "addr \<Rightarrow> pb_field \<Rightarrow> addr \<Rightarrow> dstate \<Rightarrow> (unit, dstate) cres"
  u_ext_decode :: "nat \<Rightarrow> addr \<Rightarrow> u32 \<Rightarrow> pb_wire_type_t \<Rightarrow> dstate \<Rightarrow> (unit, dstate) cres"
  ext_type :: "addr \<Rightarrow> pb_extension_type_t option"

text \<open>\<open>PB_RETURN_ERROR\<close>: the first message set stays.\<close>

definition set_ierror :: "string \<Rightarrow> pb_istream_t \<Rightarrow> pb_istream_t" where
  "set_ierror msg s = s\<lparr>i_errmsg := (case i_errmsg s of None \<Rightarrow> Some msg | Some m \<Rightarrow> Some m)\<rparr>"

definition ret_ierror :: "string \<Rightarrow> pb_istream_t \<Rightarrow> ('v, pb_istream_t) cres" where
  "ret_ierror msg s = c_false (set_ierror msg s)"

section \<open>Reading\<close>

definition buf_read :: "u64 \<Rightarrow> pb_istream_t \<Rightarrow> (u8 list, pb_istream_t) cres" where
  "buf_read count s =
     (if length (i_state s) < unat count then None
      else c_ret (take (unat count) (i_state s)) (s\<lparr>i_state := drop (unat count) (i_state s)\<rparr>))"

text \<open>\<open>stream->callback(stream, buf, count)\<close>; a callback that succeeds fills \<open>count\<close> bytes.\<close>

definition call_read :: "dec_user \<Rightarrow> u64 \<Rightarrow> pb_istream_t \<Rightarrow> (u8 list, pb_istream_t) cres" where
  "call_read E count s = (case i_callback s of BufRead \<Rightarrow> buf_read count s
     | UserRead k \<Rightarrow> c_bind (u_read E k count s) (\<lambda>bs s.
         if length bs = unat count then c_ret bs s else None))"

definition read_checked :: "dec_user \<Rightarrow> u64 \<Rightarrow> pb_istream_t \<Rightarrow> (u8 list, pb_istream_t) cres" where
  "read_checked E count s =
     (if bytes_left s < count then ret_ierror ''end-of-stream'' s
      else case call_read E count s of None \<Rightarrow> None
        | Some (r, s) \<Rightarrow> (case r of None \<Rightarrow> ret_ierror ''io error'' s
            | Some bs \<Rightarrow> c_ret bs (s\<lparr>bytes_left := bytes_left s - count\<rparr>)))"

definition skip_step :: "dec_user \<Rightarrow> u64 \<times> pb_istream_t \<Rightarrow>
    ((u8 list option \<times> pb_istream_t) + (u64 \<times> pb_istream_t)) option" where
  "skip_step E x = (case x of (count, s) \<Rightarrow>
     if 16 < count
     then (case read_checked E 16 s of None \<Rightarrow> None
       | Some (r, s) \<Rightarrow> (case r of None \<Rightarrow> Some (Inl (None, s)) | Some _ \<Rightarrow> Some (Inr (count - 16, s))))
     else if count = 0 then Some (Inl (Some [], s))
     else (case read_checked E count s of None \<Rightarrow> None
       | Some (r, s) \<Rightarrow> Some (Inl (map_option (\<lambda>_. []) r, s))))"

text \<open>
  \<open>pb_read\<close>; the flag says whether \<open>buf\<close> is not null.  The bytes read are the out value (none when
  \<open>buf\<close> is null): the caller stores them.  A null \<open>buf\<close> on a user's stream is skipped in chunks of
  16 bytes through a local buffer.
\<close>

definition pb_read :: "dec_user \<Rightarrow> bool \<Rightarrow> u64 \<Rightarrow> pb_istream_t \<Rightarrow> (u8 list, pb_istream_t) cres" where
  "pb_read E buf count s =
     (if count = 0 then c_ret [] s
      else if \<not> buf \<and> i_callback s \<noteq> BufRead then c_loop (skip_step E) (count, s)
      else c_bind (read_checked E count s) (\<lambda>bs s. c_ret (if buf then bs else []) s))"

definition pb_readbyte :: "dec_user \<Rightarrow> pb_istream_t \<Rightarrow> (u8, pb_istream_t) cres" where
  "pb_readbyte E s =
     (if bytes_left s = 0 then ret_ierror ''end-of-stream'' s
      else case call_read E 1 s of None \<Rightarrow> None
        | Some (r, s) \<Rightarrow> (case r of None \<Rightarrow> ret_ierror ''io error'' s
            | Some bs \<Rightarrow> c_ret (hd bs) (s\<lparr>bytes_left := bytes_left s - 1\<rparr>)))"

definition pb_istream_from_buffer :: "u8 list \<Rightarrow> u64 \<Rightarrow> pb_istream_t" where
  "pb_istream_from_buffer buf bufsize =
     \<lparr>i_callback = BufRead, i_state = buf, bytes_left = bufsize, i_errmsg = None\<rparr>"

section \<open>Varints\<close>

text \<open>
  \<open>bitpos\<close> is a \<open>uint_fast8_t\<close>, which is 8 bits wide on the platforms of the pods: in the 32-bit
  decoder, which has no bound on the number of bytes, it wraps.
\<close>

definition varint32_step :: "dec_user \<Rightarrow> u8 \<times> u32 \<times> pb_istream_t \<Rightarrow>
    ((u32 option \<times> pb_istream_t) + (u8 \<times> u32 \<times> pb_istream_t)) option" where
  "varint32_step E x = (case x of (bitpos, result, s) \<Rightarrow>
     (case pb_readbyte E s of None \<Rightarrow> None
      | Some (r, s) \<Rightarrow> (case r of None \<Rightarrow> Some (Inl (None, s))
        | Some byte \<Rightarrow>
          let sign_extension = (if bitpos < 63 then 0xFF else 0x01 :: u8) in
          if 32 \<le> bitpos \<and> byte AND 0x7F \<noteq> 0x00 \<and>
             (drop_bit 31 result = 0 \<or> byte \<noteq> sign_extension)
          then Some (Inl (None, set_ierror ''varint overflow'' s))
          else
            let result = (if 32 \<le> bitpos then result
                  else result OR push_bit (unat bitpos) (ucast (byte AND 0x7F)));
                bitpos = bitpos + 7
            in if byte AND 0x80 \<noteq> 0 then Some (Inr (bitpos, result, s))
               else if bitpos = 35 \<and> byte AND 0x70 \<noteq> 0
                 then Some (Inl (None, set_ierror ''varint overflow'' s))
                 else Some (Inl (Some result, s)))))"

text \<open>The middle component of the result is \<open>*eof\<close>, false unless it is set here.\<close>

definition pb_decode_varint32_eof :: "dec_user \<Rightarrow> pb_istream_t \<Rightarrow>
    (u32 option \<times> bool \<times> pb_istream_t) option" where
  "pb_decode_varint32_eof E s =
     (case pb_readbyte E s of None \<Rightarrow> None
      | Some (r, s) \<Rightarrow> (case r of None \<Rightarrow> Some (None, bytes_left s = 0, s)
        | Some byte \<Rightarrow>
          if byte AND 0x80 = 0 then Some (Some (ucast byte), False, s)
          else map_option (\<lambda>(v, s). (v, False, s))
                 (c_loop (varint32_step E) (7, ucast (byte AND 0x7F), s))))"

definition pb_decode_varint32 :: "dec_user \<Rightarrow> pb_istream_t \<Rightarrow> (u32, pb_istream_t) cres" where
  "pb_decode_varint32 E s = map_option (\<lambda>(v, eof, s). (v, s)) (pb_decode_varint32_eof E s)"

definition varint_step :: "dec_user \<Rightarrow> u8 \<times> u64 \<times> pb_istream_t \<Rightarrow>
    ((u64 option \<times> pb_istream_t) + (u8 \<times> u64 \<times> pb_istream_t)) option" where
  "varint_step E x = (case x of (bitpos, result, s) \<Rightarrow>
     if 64 \<le> bitpos then Some (Inl (None, set_ierror ''varint overflow'' s))
     else (case pb_readbyte E s of None \<Rightarrow> None
       | Some (r, s) \<Rightarrow> (case r of None \<Rightarrow> Some (Inl (None, s))
         | Some byte \<Rightarrow>
           let result = result OR push_bit (unat bitpos) (ucast (byte AND 0x7F));
               bitpos = bitpos + 7
           in if byte AND 0x80 \<noteq> 0 then Some (Inr (bitpos, result, s))
              else Some (Inl (Some result, s)))))"

definition pb_decode_varint :: "dec_user \<Rightarrow> pb_istream_t \<Rightarrow> (u64, pb_istream_t) cres" where
  "pb_decode_varint E s = c_loop (varint_step E) (0, 0, s)"

definition pb_decode_svarint :: "dec_user \<Rightarrow> pb_istream_t \<Rightarrow> (u64, pb_istream_t) cres" where
  "pb_decode_svarint E s = c_bind (pb_decode_varint E s) (\<lambda>value s.
     c_ret (if value AND 1 \<noteq> 0 then NOT (drop_bit 1 value) else drop_bit 1 value) s)"

section \<open>Skipping\<close>

definition skip_varint_step :: "dec_user \<Rightarrow> pb_istream_t \<Rightarrow>
    ((unit option \<times> pb_istream_t) + pb_istream_t) option" where
  "skip_varint_step E s = (case pb_read E True 1 s of None \<Rightarrow> None
     | Some (r, s) \<Rightarrow> (case r of None \<Rightarrow> Some (Inl (None, s))
       | Some bs \<Rightarrow> if hd bs AND 0x80 \<noteq> 0 then Some (Inr s) else Some (Inl (Some (), s))))"

definition pb_skip_varint :: "dec_user \<Rightarrow> pb_istream_t \<Rightarrow> (unit, pb_istream_t) cres" where
  "pb_skip_varint E s = c_loop (skip_varint_step E) s"

text \<open>A skipped read discards its (empty) out value.\<close>

definition pb_skip :: "dec_user \<Rightarrow> u64 \<Rightarrow> pb_istream_t \<Rightarrow> (unit, pb_istream_t) cres" where
  "pb_skip E count s = c_bind (pb_read E False count s) (\<lambda>_ s. c_true s)"

definition pb_skip_string :: "dec_user \<Rightarrow> pb_istream_t \<Rightarrow> (unit, pb_istream_t) cres" where
  "pb_skip_string E s = c_bind (pb_decode_varint32 E s) (\<lambda>length s. pb_skip E (ucast length) s)"

text \<open>\<open>pb_decode_tag\<close>: wire type and tag when it returns true, and \<open>*eof\<close>.\<close>

definition pb_decode_tag :: "dec_user \<Rightarrow> pb_istream_t \<Rightarrow>
    ((pb_wire_type_t \<times> u32) option \<times> bool \<times> pb_istream_t) option" where
  "pb_decode_tag E s = (case pb_decode_varint32_eof E s of None \<Rightarrow> None
     | Some (r, eof, s) \<Rightarrow> (case r of None \<Rightarrow> Some (None, eof, s)
       | Some temp \<Rightarrow> if temp = 0 then Some (None, True, s)
           else Some (Some (temp AND 7, drop_bit 3 temp), False, s)))"

definition pb_skip_field :: "dec_user \<Rightarrow> pb_wire_type_t \<Rightarrow> pb_istream_t \<Rightarrow> (unit, pb_istream_t) cres" where
  "pb_skip_field E wire_type s =
     (if wire_type = PB_WT_VARINT then pb_skip_varint E s
      else if wire_type = PB_WT_64BIT then pb_skip E 8 s
      else if wire_type = PB_WT_STRING then pb_skip_string E s
      else if wire_type = PB_WT_32BIT then pb_skip E 4 s
      else ret_ierror ''invalid wire_type'' s)"

text \<open>\<open>read_raw_value\<close>: the bytes written to \<open>buf\<close>, whose number is \<open>*size\<close> on return.\<close>

definition raw_varint_step :: "dec_user \<Rightarrow> nat \<Rightarrow> u8 list \<times> pb_istream_t \<Rightarrow>
    ((u8 list option \<times> pb_istream_t) + (u8 list \<times> pb_istream_t)) option" where
  "raw_varint_step E max_size x = (case x of (buf, s) \<Rightarrow>
     if max_size < Suc (length buf) then Some (Inl (None, s))
     else (case pb_read E True 1 s of None \<Rightarrow> None
       | Some (r, s) \<Rightarrow> (case r of None \<Rightarrow> Some (Inl (None, s))
         | Some bs \<Rightarrow> if hd bs AND 0x80 \<noteq> 0 then Some (Inr (buf @ bs, s))
                      else Some (Inl (Some (buf @ bs), s)))))"

definition read_raw_value :: "dec_user \<Rightarrow> pb_wire_type_t \<Rightarrow> nat \<Rightarrow> pb_istream_t \<Rightarrow>
    (u8 list, pb_istream_t) cres" where
  "read_raw_value E wire_type max_size s =
     (if wire_type = PB_WT_VARINT then c_loop (raw_varint_step E max_size) ([], s)
      else if wire_type = PB_WT_64BIT then pb_read E True 8 s
      else if wire_type = PB_WT_32BIT then pb_read E True 4 s
      else ret_ierror ''invalid wire_type'' s)"

section \<open>Substreams\<close>

definition pb_make_string_substream :: "dec_user \<Rightarrow> pb_istream_t \<Rightarrow> (pb_istream_t, pb_istream_t) cres" where
  "pb_make_string_substream E s = c_bind (pb_decode_varint32 E s) (\<lambda>size s.
     if bytes_left s < ucast size then ret_ierror ''parent stream too short'' s
     else c_ret (s\<lparr>bytes_left := ucast size\<rparr>) (s\<lparr>bytes_left := bytes_left s - ucast size\<rparr>))"

definition pb_close_string_substream :: "dec_user \<Rightarrow> pb_istream_t \<Rightarrow> pb_istream_t \<Rightarrow>
    (unit, pb_istream_t) cres" where
  "pb_close_string_substream E substream s =
     (if bytes_left substream \<noteq> 0
      then (case pb_skip E (bytes_left substream) substream of None \<Rightarrow> None
        | Some (r, sub) \<Rightarrow> (case r of None \<Rightarrow> c_false s
            | Some _ \<Rightarrow> c_true (s\<lparr>i_state := i_state sub, i_errmsg := i_errmsg sub\<rparr>)))
      else c_true (s\<lparr>i_state := i_state substream, i_errmsg := i_errmsg substream\<rparr>))"

end
