(* ===== verification/PB_Source.thy ===== *)
theory PB_Source
  imports PB_Istream
begin

text \<open>
  The interface of an input stream, as the decoders use it, and what the stream-level functions of
  \<open>pb_decode.c\<close> do over any stream that keeps it.  Buffer streams keep it, and so does a user's
  stream whose callback serves bytes from its state.
\<close>

section \<open>The interface\<close>

text \<open>
  \<open>avail s\<close> are the bytes the stream will still deliver and \<open>adv n s\<close> the stream after \<open>n\<close> of them.
  The provider promises that a call of the stream's callback for at most the available bytes returns
  them, and that \<open>bytes_left\<close> counts them.
\<close>

locale byte_source =
  fixes E :: dec_user
    and good :: "pb_istream_t \<Rightarrow> bool"
    and avail :: "pb_istream_t \<Rightarrow> u8 list"
    and adv :: "nat \<Rightarrow> pb_istream_t \<Rightarrow> pb_istream_t"
  assumes adv_0: "good s \<Longrightarrow> adv 0 s = s"
    and adv_adv: "good s \<Longrightarrow> m + n \<le> length (avail s) \<Longrightarrow> adv n (adv m s) = adv (m + n) s"
    and adv_good: "good s \<Longrightarrow> n \<le> length (avail s) \<Longrightarrow> good (adv n s)"
    and adv_avail: "good s \<Longrightarrow> n \<le> length (avail s) \<Longrightarrow> avail (adv n s) = drop n (avail s)"
    and left: "good s \<Longrightarrow> unat (bytes_left s) = length (avail s)"
    and msg_good: "good s \<Longrightarrow> good (s\<lparr>i_errmsg := e\<rparr>)"
    and msg_avail: "avail (s\<lparr>i_errmsg := e\<rparr>) = avail s"
    and msg_adv: "adv n (s\<lparr>i_errmsg := e\<rparr>) = (adv n s)\<lparr>i_errmsg := e\<rparr>"
    and call: "good s \<Longrightarrow> count \<noteq> 0 \<Longrightarrow> unat count \<le> length (avail s) \<Longrightarrow>
      \<exists>s'. call_read E count s = Some (Some (take (unat count) (avail s)), s') \<and>
           s'\<lparr>bytes_left := bytes_left s' - count\<rparr> = adv (unat count) s"
begin

lemma err_good: "good s \<Longrightarrow> good (set_ierror msg s)"
  by (simp add: set_ierror_def msg_good)

lemma err_avail: "avail (set_ierror msg s) = avail s"
  by (simp add: set_ierror_def msg_avail)

lemma left_0: "good s \<Longrightarrow> bytes_left s = 0 \<longleftrightarrow> avail s = []"
  using left [of s] by (auto simp: unat_eq_0)

lemma left_less: "good s \<Longrightarrow> bytes_left s < n \<longleftrightarrow> length (avail s) < unat n"
  by (simp add: word_less_nat_alt left)

lemma read_checked_ok:
  assumes "good s" "n \<noteq> 0" "unat n \<le> length (avail s)"
  shows "read_checked E n s = Some (Some (take (unat n) (avail s)), adv (unat n) s)"
  using call [OF assms] assms by (auto simp: read_checked_def left_less c_ret_def)

lemma read_checked_short:
  "good s \<Longrightarrow> length (avail s) < unat n \<Longrightarrow> read_checked E n s = ret_ierror ''end-of-stream'' s"
  by (simp add: read_checked_def left_less)

lemma readbyte_ok:
  assumes "good s" "avail s = b # bs"
  shows "pb_readbyte E s = Some (Some b, adv 1 s)"
proof -
  have "unat (1 :: u64) \<le> length (avail s)" using assms(2) by simp
  from call [OF assms(1) _ this] show ?thesis
    using assms by (auto simp: pb_readbyte_def left_0 c_ret_def)
qed

lemma readbyte_end:
  "good s \<Longrightarrow> avail s = [] \<Longrightarrow> pb_readbyte E s = ret_ierror ''end-of-stream'' s"
  by (simp add: pb_readbyte_def left_0)

lemma skip_loop:
  assumes "good s" "unat n \<le> length (avail s)"
  shows "c_loop (skip_step E) (n, s) = Some (Some [], adv (unat n) s)"
  using assms
proof (induction "unat n" arbitrary: n s rule: less_induct)
  case less
  show ?case
  proof (cases "16 < n")
    case True
    then have n: "16 < unat n" by (simp add: word_less_nat_alt)
    have m: "unat (n - 16) = unat n - 16" using True by (simp add: unat_sub less_imp_le)
    have "skip_step E (n, s) = Some (Inr (n - 16, adv 16 s))"
      using True n less.prems read_checked_ok [of s 16] by (simp add: skip_step_def)
    moreover have "c_loop (skip_step E) (n - 16, adv 16 s) = Some (Some [], adv (unat (n - 16)) (adv 16 s))"
      using less.prems n m by (intro less.hyps) (simp_all add: adv_good adv_avail)
    ultimately show ?thesis
      using less.prems n m by (simp add: c_loop_unfold adv_adv)
  next
    case False
    then have "skip_step E (n, s) = Some (Inl (Some [], adv (unat n) s))"
      using less.prems read_checked_ok [of s n] by (auto simp: skip_step_def adv_0)
    then show ?thesis by (rule c_loop_unfold)
  qed
qed

lemma read_ok:
  assumes "good s" "unat n \<le> length (avail s)"
  shows "pb_read E buf n s =
    Some (Some (if buf then take (unat n) (avail s) else []), adv (unat n) s)"
  using assms skip_loop [OF assms] read_checked_ok [OF assms(1) _ assms(2)]
  by (auto simp: pb_read_def adv_0 c_ret_def)

lemma skip_ok:
  "good s \<Longrightarrow> unat n \<le> length (avail s) \<Longrightarrow> pb_skip E n s = Some (Some (), adv (unat n) s)"
  by (simp add: pb_skip_def read_ok c_true_def)

lemma read_buf_short:
  assumes "good s" "length (avail s) < unat n"
  shows "pb_read E True n s = ret_ierror ''end-of-stream'' s"
  using assms read_checked_short [OF assms] by (auto simp: pb_read_def ret_ierror_def)

end

section \<open>Streams that only move forward\<close>

text \<open>
  \<open>moved good avail adv s s'\<close>: both streams are in good order and \<open>s'\<close> is \<open>s\<close> after some of its bytes
  have been delivered, with any error message.
\<close>

definition moved :: "(pb_istream_t \<Rightarrow> bool) \<Rightarrow> (pb_istream_t \<Rightarrow> u8 list) \<Rightarrow>
    (nat \<Rightarrow> pb_istream_t \<Rightarrow> pb_istream_t) \<Rightarrow> pb_istream_t \<Rightarrow> pb_istream_t \<Rightarrow> bool" where
  "moved good avail adv s s' \<longleftrightarrow> good s \<and> good s' \<and>
     (\<exists>n \<le> length (avail s). \<exists>e. s' = (adv n s)\<lparr>i_errmsg := e\<rparr>)"

context byte_source
begin

abbreviation fwd :: "pb_istream_t \<Rightarrow> pb_istream_t \<Rightarrow> bool" where
  "fwd \<equiv> moved good avail adv"

lemma moved_good: "fwd s t \<Longrightarrow> good t"
  by (simp add: moved_def)

lemma moved_drop: "fwd s t \<Longrightarrow> \<exists>n \<le> length (avail s). avail t = drop n (avail s)"
  by (auto simp: moved_def msg_avail adv_avail)

lemma moved_length: "fwd s t \<Longrightarrow> length (avail t) \<le> length (avail s)"
  using moved_drop by fastforce

lemma moved_adv: "good s \<Longrightarrow> n \<le> length (avail s) \<Longrightarrow> fwd s (adv n s)"
  unfolding moved_def
  by (metis adv_good pb_istream_t.surjective pb_istream_t.update_convs(4))

lemma moved_refl: "good s \<Longrightarrow> fwd s s"
  using moved_adv [of s 0] by (simp add: adv_0)

lemma moved_msg: "fwd s t \<Longrightarrow> fwd s (t\<lparr>i_errmsg := e\<rparr>)"
  unfolding moved_def using msg_good by fastforce

lemma moved_err: "fwd s t \<Longrightarrow> fwd s (set_ierror msg t)"
  unfolding set_ierror_def by (rule moved_msg)

lemma moved_trans:
  assumes "fwd s t" "fwd t u"
  shows "fwd s u"
proof -
  obtain m e where m: "m \<le> length (avail s)" "t = (adv m s)\<lparr>i_errmsg := e\<rparr>" "good s"
    using assms(1) unfolding moved_def by blast
  obtain n e' where n: "n \<le> length (avail t)" "u = (adv n t)\<lparr>i_errmsg := e'\<rparr>" "good u"
    using assms(2) unfolding moved_def by blast
  from m n have "m + n \<le> length (avail s)" by (simp add: msg_avail adv_avail)
  moreover from this m n have "u = (adv (m + n) s)\<lparr>i_errmsg := e'\<rparr>"
    by (simp add: msg_adv adv_adv)
  ultimately show ?thesis using m n unfolding moved_def by blast
qed

end

section \<open>Streams that can be limited\<close>

text \<open>
  What a length-limited substream relies on: a copy of the stream with a smaller \<open>bytes_left\<close> delivers
  the first of its bytes and advances in step with it, and advancing changes nothing but the state and
  \<open>bytes_left\<close>.
\<close>

locale limited_source = byte_source +
  assumes limit_good: "good s \<Longrightarrow> n \<le> bytes_left s \<Longrightarrow> good (s\<lparr>bytes_left := n\<rparr>)"
    and limit_avail: "good s \<Longrightarrow> n \<le> bytes_left s \<Longrightarrow>
      avail (s\<lparr>bytes_left := n\<rparr>) = take (unat n) (avail s)"
    and limit_adv: "good s \<Longrightarrow> n \<le> bytes_left s \<Longrightarrow> k \<le> unat n \<Longrightarrow>
      adv k (s\<lparr>bytes_left := n\<rparr>) = (adv k s)\<lparr>bytes_left := n - word_of_nat k\<rparr>"
    and adv_parts: "good s \<Longrightarrow> k \<le> length (avail s) \<Longrightarrow>
      adv k s = s\<lparr>i_state := i_state (adv k s), bytes_left := bytes_left s - word_of_nat k\<rparr>"
begin

lemma adv_left: "good s \<Longrightarrow> k \<le> length (avail s) \<Longrightarrow> bytes_left (adv k s) = bytes_left s - word_of_nat k"
  by (subst adv_parts) simp_all

lemma left_ge: "good s \<Longrightarrow> n \<le> bytes_left s \<longleftrightarrow> unat n \<le> length (avail s)"
  by (simp add: word_le_nat_alt left)

text \<open>Once the bytes of the copy are all delivered, the parent with its state goes on behind them.\<close>

lemma resume:
  assumes "good s" "n \<le> bytes_left s"
  shows "s\<lparr>bytes_left := bytes_left s - n, i_state := i_state (adv (unat n) (s\<lparr>bytes_left := n\<rparr>))\<rparr> =
    adv (unat n) s"
proof -
  have "s\<lparr>bytes_left := bytes_left s - n, i_state := i_state (adv (unat n) (s\<lparr>bytes_left := n\<rparr>))\<rparr> =
      s\<lparr>i_state := i_state (adv (unat n) s), bytes_left := bytes_left s - n\<rparr>"
    using assms by (simp add: limit_adv)
  also have "\<dots> = adv (unat n) s"
    using adv_parts [OF assms(1), of "unat n"] assms by (simp add: left_ge)
  finally show ?thesis .
qed

end

section \<open>Buffer streams\<close>

definition buf_ok :: "pb_istream_t \<Rightarrow> bool" where
  "buf_ok s \<longleftrightarrow> i_callback s = BufRead \<and> unat (bytes_left s) \<le> length (i_state s)"

definition buf_avail :: "pb_istream_t \<Rightarrow> u8 list" where
  "buf_avail s = take (unat (bytes_left s)) (i_state s)"

definition buf_adv :: "nat \<Rightarrow> pb_istream_t \<Rightarrow> pb_istream_t" where
  "buf_adv n s = s\<lparr>i_state := drop n (i_state s), bytes_left := bytes_left s - word_of_nat n\<rparr>"

lemma unat_bytes_left_adv:
  "n \<le> unat (b :: u64) \<Longrightarrow> unat (b - word_of_nat n) = unat b - n"
  by (metis le_unat_uoi unat_sub word_le_nat_alt)

lemma length_buf_avail: "buf_ok s \<Longrightarrow> length (buf_avail s) = unat (bytes_left s)"
  by (simp add: buf_ok_def buf_avail_def)

interpretation buf: byte_source E buf_ok buf_avail buf_adv for E
proof unfold_locales
  fix s :: pb_istream_t and m n :: nat
  assume "buf_ok s" "m + n \<le> length (buf_avail s)"
  then show "buf_adv n (buf_adv m s) = buf_adv (m + n) s"
    by (simp add: buf_adv_def add.commute)
next
  fix s :: pb_istream_t and n :: u64
  assume s: "buf_ok s" "n \<noteq> 0" "unat n \<le> length (buf_avail s)"
  then have "unat n \<le> length (i_state s)" by (simp add: buf_ok_def buf_avail_def)
  with s show "\<exists>s'. call_read E n s = Some (Some (take (unat n) (buf_avail s)), s') \<and>
      s'\<lparr>bytes_left := bytes_left s' - n\<rparr> = buf_adv (unat n) s"
    by (simp add: call_read_def buf_ok_def buf_read_def buf_avail_def buf_adv_def c_ret_def)
next
  fix s :: pb_istream_t and n :: nat
  assume s: "buf_ok s" "n \<le> length (buf_avail s)"
  then have n: "unat (bytes_left s - word_of_nat n) = unat (bytes_left s) - n"
    by (simp add: length_buf_avail unat_bytes_left_adv)
  from s n show "buf_ok (buf_adv n s)" by (auto simp: buf_ok_def buf_adv_def)
  from s n show "buf_avail (buf_adv n s) = drop n (buf_avail s)"
    by (simp add: buf_avail_def buf_adv_def drop_take)
qed (auto simp: buf_ok_def buf_avail_def buf_adv_def set_ierror_def)

interpretation buf: limited_source E buf_ok buf_avail buf_adv for E
  by unfold_locales
    (auto simp: buf_ok_def buf_avail_def buf_adv_def word_le_nat_alt unat_sub of_nat_unat)

lemma from_buffer_ok:
  "unat n \<le> length bs \<Longrightarrow> buf_ok (pb_istream_from_buffer bs n)"
  "buf_avail (pb_istream_from_buffer bs n) = take (unat n) bs"
  by (simp_all add: buf_ok_def buf_avail_def pb_istream_from_buffer_def)

end
