(* ===== verification/PB_Ostream.thy ===== *)
theory PB_Ostream
  imports PB_Iter
begin

text \<open>
  The output side of \<open>pb_encode.c\<close> that knows nothing of messages: \<open>pb_ostream_t\<close>, writing, varints,
  fixed-width values and tags.
\<close>

section \<open>Streams and user code\<close>

text \<open>
  A null \<open>callback\<close> makes a sizing stream, which only counts.  The \<open>state\<close> of a buffer stream points
  into a byte array; it is modelled by the bytes written before the pointer and the room after it.
\<close>

datatype o_callback_t = Sizing | BufWrite | UserWrite nat

record pb_ostream_t =
  o_callback :: o_callback_t
  o_written :: "u8 list"
  o_room :: nat
  max_size :: u64
  bytes_written :: u64
  o_errmsg :: "string option"

record enc_user =
  u_write :: "nat \<Rightarrow> u8 list \<Rightarrow> pb_ostream_t \<Rightarrow> (unit, pb_ostream_t) cres"
  u_encode :: "addr \<Rightarrow> pb_field \<Rightarrow> addr \<Rightarrow> memory \<Rightarrow> pb_ostream_t \<Rightarrow> (unit, pb_ostream_t) cres"
  u_ext_encode :: "nat \<Rightarrow> addr \<Rightarrow> memory \<Rightarrow> pb_ostream_t \<Rightarrow> (unit, pb_ostream_t) cres"
  e_ext_type :: "addr \<Rightarrow> pb_extension_type_t option"

definition set_oerror :: "string \<Rightarrow> pb_ostream_t \<Rightarrow> pb_ostream_t" where
  "set_oerror msg s = s\<lparr>o_errmsg := (case o_errmsg s of None \<Rightarrow> Some msg | Some m \<Rightarrow> Some m)\<rparr>"

definition ret_oerror :: "string \<Rightarrow> pb_ostream_t \<Rightarrow> ('v, pb_ostream_t) cres" where
  "ret_oerror msg s = c_false (set_oerror msg s)"

definition PB_OSTREAM_SIZING :: pb_ostream_t where
  "PB_OSTREAM_SIZING = \<lparr>o_callback = Sizing, o_written = [], o_room = 0, max_size = 0,
     bytes_written = 0, o_errmsg = None\<rparr>"

definition pb_ostream_from_buffer :: "nat \<Rightarrow> u64 \<Rightarrow> pb_ostream_t" where
  "pb_ostream_from_buffer room bufsize = \<lparr>o_callback = BufWrite, o_written = [], o_room = room,
     max_size = bufsize, bytes_written = 0, o_errmsg = None\<rparr>"

section \<open>Writing\<close>

definition buf_write :: "u8 list \<Rightarrow> pb_ostream_t \<Rightarrow> (unit, pb_ostream_t) cres" where
  "buf_write bs s =
     (if o_room s < length bs then None
      else c_true (s\<lparr>o_written := o_written s @ bs, o_room := o_room s - length bs\<rparr>))"

definition call_write :: "enc_user \<Rightarrow> u8 list \<Rightarrow> pb_ostream_t \<Rightarrow> (unit, pb_ostream_t) cres" where
  "call_write E bs s = (case o_callback s of Sizing \<Rightarrow> None | BufWrite \<Rightarrow> buf_write bs s
     | UserWrite k \<Rightarrow> u_write E k bs s)"

text \<open>
  \<open>pb_write(stream, buf, count)\<close>.  \<open>buf\<close> stands for the \<open>count\<close> bytes at the pointer; \<open>None\<close> is a null
  or unreadable pointer, which a sizing stream never looks at.
\<close>

definition pb_write :: "enc_user \<Rightarrow> u8 list option \<Rightarrow> u64 \<Rightarrow> pb_ostream_t \<Rightarrow> (unit, pb_ostream_t) cres" where
  "pb_write E buf count s =
     (if 0 < count \<and> o_callback s \<noteq> Sizing
      then if bytes_written s + count < bytes_written s \<or> max_size s < bytes_written s + count
        then ret_oerror ''stream full'' s
        else (case buf of None \<Rightarrow> None
          | Some bs \<Rightarrow> if length bs < unat count then None
            else (case call_write E (take (unat count) bs) s of None \<Rightarrow> None
              | Some (r, s) \<Rightarrow> (case r of None \<Rightarrow> ret_oerror ''io error'' s
                  | Some _ \<Rightarrow> c_true (s\<lparr>bytes_written := bytes_written s + count\<rparr>))))
      else c_true (s\<lparr>bytes_written := bytes_written s + count\<rparr>))"

section \<open>Varints, fixed-width values, tags\<close>

text \<open>
  \<open>buffer\<close> has room for 10 bytes; a store past it is undefined behaviour.  The loop state is the
  filled part of the buffer and the value left.
\<close>

definition varint_enc_step :: "u8 list \<times> u64 \<Rightarrow> (u8 list + (u8 list \<times> u64)) option" where
  "varint_enc_step x = (case x of (buffer, value) \<Rightarrow>
     if value = 0 then Some (Inl buffer)
     else if 10 \<le> length buffer then None
     else Some (Inr (buffer @ [ucast (value AND 0x7F) OR 0x80], drop_bit 7 value)))"

definition pb_encode_varint :: "enc_user \<Rightarrow> u64 \<Rightarrow> pb_ostream_t \<Rightarrow> (unit, pb_ostream_t) cres" where
  "pb_encode_varint E value s =
     (if value \<le> 0x7F then pb_write E (Some [ucast value]) 1 s
      else (case c_loop varint_enc_step ([], value) of None \<Rightarrow> None
        | Some buffer \<Rightarrow> pb_write E (Some (butlast buffer @ [last buffer AND 0x7F]))
            (word_of_nat (length buffer)) s))"

text \<open>The argument of \<open>pb_encode_svarint\<close> is the two's complement of a signed value.\<close>

definition pb_encode_svarint :: "enc_user \<Rightarrow> u64 \<Rightarrow> pb_ostream_t \<Rightarrow> (unit, pb_ostream_t) cres" where
  "pb_encode_svarint E value s =
     (let zigzagged = (if sint value < 0 then NOT (push_bit 1 value) else push_bit 1 value)
      in pb_encode_varint E zigzagged s)"

definition fixed32_bytes :: "u32 \<Rightarrow> u8 list" where
  "fixed32_bytes val = [ucast (val AND 0xFF), ucast (drop_bit 8 val AND 0xFF),
     ucast (drop_bit 16 val AND 0xFF), ucast (drop_bit 24 val AND 0xFF)]"

definition fixed64_bytes :: "u64 \<Rightarrow> u8 list" where
  "fixed64_bytes val = [ucast (val AND 0xFF), ucast (drop_bit 8 val AND 0xFF),
     ucast (drop_bit 16 val AND 0xFF), ucast (drop_bit 24 val AND 0xFF),
     ucast (drop_bit 32 val AND 0xFF), ucast (drop_bit 40 val AND 0xFF),
     ucast (drop_bit 48 val AND 0xFF), ucast (drop_bit 56 val AND 0xFF)]"

definition pb_encode_fixed32 :: "enc_user \<Rightarrow> memory \<Rightarrow> addr \<Rightarrow> pb_ostream_t \<Rightarrow> (unit, pb_ostream_t) cres" where
  "pb_encode_fixed32 E M value s = (case load_word M value 4 of None \<Rightarrow> None
     | Some val \<Rightarrow> pb_write E (Some (fixed32_bytes val)) 4 s)"

definition pb_encode_fixed64 :: "enc_user \<Rightarrow> memory \<Rightarrow> addr \<Rightarrow> pb_ostream_t \<Rightarrow> (unit, pb_ostream_t) cres" where
  "pb_encode_fixed64 E M value s = (case load_word M value 8 of None \<Rightarrow> None
     | Some val \<Rightarrow> pb_write E (Some (fixed64_bytes val)) 8 s)"

definition pb_encode_tag :: "enc_user \<Rightarrow> pb_wire_type_t \<Rightarrow> u32 \<Rightarrow> pb_ostream_t \<Rightarrow> (unit, pb_ostream_t) cres" where
  "pb_encode_tag E wiretype field_number s =
     pb_encode_varint E (push_bit 3 (ucast field_number) OR ucast wiretype) s"

text \<open>The \<open>switch\<close> of \<open>pb_encode_tag_for_field\<close>.\<close>

definition wire_type_of :: "u8 \<Rightarrow> pb_wire_type_t option" where
  "wire_type_of ltype =
     (if ltype \<in> {PB_LTYPE_BOOL, PB_LTYPE_VARINT, PB_LTYPE_UVARINT, PB_LTYPE_SVARINT} then Some PB_WT_VARINT
      else if ltype = PB_LTYPE_FIXED32 then Some PB_WT_32BIT
      else if ltype = PB_LTYPE_FIXED64 then Some PB_WT_64BIT
      else if ltype \<in> {PB_LTYPE_BYTES, PB_LTYPE_STRING, PB_LTYPE_SUBMESSAGE, PB_LTYPE_FIXED_LENGTH_BYTES}
        then Some PB_WT_STRING
      else None)"

definition pb_encode_tag_for_field :: "enc_user \<Rightarrow> pb_field \<Rightarrow> pb_ostream_t \<Rightarrow> (unit, pb_ostream_t) cres" where
  "pb_encode_tag_for_field E field s = (case wire_type_of (f_ltype field) of
     None \<Rightarrow> ret_oerror ''invalid field type'' s
   | Some wiretype \<Rightarrow> pb_encode_tag E wiretype (f_tag field) s)"

definition pb_encode_string :: "enc_user \<Rightarrow> u8 list option \<Rightarrow> u64 \<Rightarrow> pb_ostream_t \<Rightarrow> (unit, pb_ostream_t) cres" where
  "pb_encode_string E buffer n s =
     c_bind (pb_encode_varint E n s) (\<lambda>_ s. pb_write E buffer n s)"

end
