(* ===== verification/PB_Defaults.thy ===== *)
theory PB_Defaults
  imports PB_Istream
begin

text \<open>
  The parts of \<open>pb_decode.c\<close> that work on a message in memory and not on a stream: default values
  and the release of allocated fields.  Both recurse into submessages and extensions; the first
  argument of the recursive functions bounds that depth.
\<close>

section \<open>Extensions as fields\<close>

definition iter_from_extension :: "dec_user \<Rightarrow> addr \<Rightarrow> machine \<Rightarrow> pb_field_iter_t option" where
  "iter_from_extension E extension \<mu> =
     (case Option.bind (load_ptr (mem \<mu>) (extension + EXT_TYPE)) (ext_type E) of None \<Rightarrow> None
      | Some et \<Rightarrow>
        (case load_ptr (mem \<mu>) (extension + EXT_DEST) of None \<Rightarrow> None
         | Some dest \<Rightarrow>
           let field = et_arg et;
               it = snd (pb_field_iter_begin [field] dest);
               it = it\<lparr>pData := dest, pSize := extension + EXT_FOUND\<rparr>
           in Some (if f_atype field = PB_ATYPE_POINTER
                    then it\<lparr>pData := extension + EXT_DEST\<rparr> else it)))"

section \<open>Default values\<close>

definition ext_default_step :: "dec_user \<Rightarrow> (pb_field_iter_t \<Rightarrow> machine \<Rightarrow> machine option) \<Rightarrow>
    addr \<times> machine \<Rightarrow> (machine + (addr \<times> machine)) option" where
  "ext_default_step E set_field x = (case x of (ext, \<mu>) \<Rightarrow>
     if ext = 0 then Some (Inl \<mu>)
     else do {
       \<mu> \<leftarrow> m_store (ext + EXT_FOUND) [0] \<mu>;
       ext_iter \<leftarrow> iter_from_extension E ext \<mu>;
       \<mu> \<leftarrow> set_field ext_iter \<mu>;
       next \<leftarrow> load_ptr (mem \<mu>) (ext + EXT_NEXT);
       Some (Inr (next, \<mu>))
     })"

definition message_defaults_with :: "(pb_field_iter_t \<Rightarrow> machine \<Rightarrow> machine option) \<Rightarrow>
    pb_field list \<Rightarrow> addr \<Rightarrow> machine \<Rightarrow> machine option" where
  "message_defaults_with set_field fs dest \<mu> =
     (let (nonempty, it) = pb_field_iter_begin fs dest in
      if nonempty
      then map_option snd (iter_loop (\<lambda>it \<mu>. map_option (\<lambda>\<mu>. (Some (), \<mu>)) (set_field it \<mu>)) it \<mu>)
      else Some \<mu>)"

definition init_data :: "(pb_field_iter_t \<Rightarrow> machine \<Rightarrow> machine option) \<Rightarrow>
    pb_field_iter_t \<Rightarrow> machine \<Rightarrow> machine option" where
  "init_data set_field it \<mu> =
     (let f = it_field it in
      if f_ltype f = PB_LTYPE_SUBMESSAGE
      then (case f_ptr f of FieldsPtr fs \<Rightarrow> message_defaults_with set_field fs (pData it) \<mu>
            | _ \<Rightarrow> None)
      else (case f_ptr f of
          DataPtr bs \<Rightarrow> if length bs < unat (f_data_size f) then None
            else m_store (pData it) (take (unat (f_data_size f)) bs) \<mu>
        | NullPtr \<Rightarrow> m_memset (pData it) 0 (unat (f_data_size f)) \<mu>
        | FieldsPtr _ \<Rightarrow> None))"

definition field_default_with :: "dec_user \<Rightarrow> (pb_field_iter_t \<Rightarrow> machine \<Rightarrow> machine option) \<Rightarrow>
    pb_field_iter_t \<Rightarrow> machine \<Rightarrow> machine option" where
  "field_default_with E set_field it \<mu> =
     (let f = it_field it in
      if f_ltype f = PB_LTYPE_EXTENSION
      then Option.bind (load_ptr (mem \<mu>) (pData it)) (\<lambda>ext. c_loop (ext_default_step E set_field) (ext, \<mu>))
      else if f_atype f = PB_ATYPE_STATIC
      then if f_htype f = PB_HTYPE_OPTIONAL \<and> pSize it \<noteq> pData it
           then Option.bind (m_store (pSize it) [0] \<mu>) (init_data set_field it)
           else if f_htype f = PB_HTYPE_REPEATED \<or> f_htype f = PB_HTYPE_ONEOF
           then m_store (pSize it) (bytes_le 4 (0 :: u32)) \<mu>
           else init_data set_field it \<mu>
      else if f_atype f = PB_ATYPE_POINTER
      then do {
        \<mu> \<leftarrow> m_store_ptr (pData it) 0 \<mu>;
        if f_htype f = PB_HTYPE_REPEATED \<or> f_htype f = PB_HTYPE_ONEOF
        then m_store (pSize it) (bytes_le 4 (0 :: u32)) \<mu>
        else Some \<mu>
      }
      else \<comment> \<open>\<open>PB_ATYPE_CALLBACK\<close>: the callback is the caller's\<close> Some \<mu>)"

primrec pb_field_set_to_default :: "nat \<Rightarrow> dec_user \<Rightarrow> pb_field_iter_t \<Rightarrow> machine \<Rightarrow> machine option" where
  "pb_field_set_to_default 0 = (\<lambda>E it \<mu>. None)"
| "pb_field_set_to_default (Suc n) = (\<lambda>E. field_default_with E (pb_field_set_to_default n E))"

definition pb_message_set_to_defaults :: "nat \<Rightarrow> dec_user \<Rightarrow> pb_field list \<Rightarrow> addr \<Rightarrow> machine \<Rightarrow> machine option" where
  "pb_message_set_to_defaults n E = message_defaults_with (pb_field_set_to_default n E)"

section \<open>Release\<close>

definition ext_release_step :: "dec_user \<Rightarrow> (pb_field_iter_t \<Rightarrow> machine \<Rightarrow> machine option) \<Rightarrow>
    addr \<times> machine \<Rightarrow> (machine + (addr \<times> machine)) option" where
  "ext_release_step E release x = (case x of (ext, \<mu>) \<Rightarrow>
     if ext = 0 then Some (Inl \<mu>)
     else do {
       ext_iter \<leftarrow> iter_from_extension E ext \<mu>;
       \<mu> \<leftarrow> release ext_iter \<mu>;
       next \<leftarrow> load_ptr (mem \<mu>) (ext + EXT_NEXT);
       Some (Inr (next, \<mu>))
     })"

definition message_release_with :: "(pb_field_iter_t \<Rightarrow> machine \<Rightarrow> machine option) \<Rightarrow>
    pb_field list \<Rightarrow> addr \<Rightarrow> machine \<Rightarrow> machine option" where
  "message_release_with release fs dest \<mu> =
     (if dest = 0 then Some \<mu>
      else let (nonempty, it) = pb_field_iter_begin fs dest in
      if nonempty
      then map_option snd (iter_loop (\<lambda>it \<mu>. map_option (\<lambda>\<mu>. (Some (), \<mu>)) (release it \<mu>)) it \<mu>)
      else Some \<mu>)"

text \<open>The loops \<open>while (count--)\<close> over submessages and over repeated strings.\<close>

fun release_items :: "(addr \<Rightarrow> machine \<Rightarrow> machine option) \<Rightarrow> nat \<Rightarrow> int \<Rightarrow> addr \<Rightarrow> machine \<Rightarrow> machine option" where
  "release_items release 0 d pItem \<mu> = Some \<mu>"
| "release_items release (Suc n) d pItem \<mu> =
     Option.bind (release pItem \<mu>) (release_items release n d (pItem + d))"

definition release_entry :: "addr \<Rightarrow> machine \<Rightarrow> machine option" where
  "release_entry pItem \<mu> = do {
     p \<leftarrow> load_ptr (mem \<mu>) pItem;
     \<mu> \<leftarrow> pb_free p \<mu>;
     m_store_ptr pItem 0 \<mu>
   }"

definition release_submessages :: "(pb_field_iter_t \<Rightarrow> machine \<Rightarrow> machine option) \<Rightarrow>
    pb_field_iter_t \<Rightarrow> machine \<Rightarrow> machine option" where
  "release_submessages release it \<mu> =
     (let f = it_field it in do {
       pItem \<leftarrow> (if f_atype f = PB_ATYPE_POINTER then load_ptr (mem \<mu>) (pData it) else Some (pData it));
       count \<leftarrow> (if f_htype f = PB_HTYPE_REPEATED
         then map_option (\<lambda>count. if f_atype f = PB_ATYPE_STATIC \<and> f_array_size f < count
                                  then f_array_size f else count)
           (if f_atype f = PB_ATYPE_STATIC \<and> pSize it = pData it then Some (f_array_size f)
            else load_u32 (mem \<mu>) (pSize it))
         else Some 1);
       if pItem \<noteq> 0
       then (case f_ptr f of
           FieldsPtr fs \<Rightarrow> release_items (message_release_with release fs) (unat count)
             (uint (f_data_size f)) pItem \<mu>
         | _ \<Rightarrow> None)
       else Some \<mu>
     })"

definition release_pointer :: "pb_field_iter_t \<Rightarrow> machine \<Rightarrow> machine option" where
  "release_pointer it \<mu> =
     (let f = it_field it in do {
       \<mu> \<leftarrow> (if f_htype f = PB_HTYPE_REPEATED \<and>
               (f_ltype f = PB_LTYPE_STRING \<or> f_ltype f = PB_LTYPE_BYTES)
             then do {
               pItem \<leftarrow> load_ptr (mem \<mu>) (pData it);
               count \<leftarrow> load_u32 (mem \<mu>) (pSize it);
               release_items release_entry (unat count) 8 pItem \<mu>
             }
             else Some \<mu>);
       \<mu> \<leftarrow> (if f_htype f = PB_HTYPE_REPEATED then m_store (pSize it) (bytes_le 4 (0 :: u32)) \<mu>
             else Some \<mu>);
       p \<leftarrow> load_ptr (mem \<mu>) (pData it);
       \<mu> \<leftarrow> pb_free p \<mu>;
       m_store_ptr (pData it) 0 \<mu>
     })"

definition release_field_with :: "dec_user \<Rightarrow> (pb_field_iter_t \<Rightarrow> machine \<Rightarrow> machine option) \<Rightarrow>
    pb_field_iter_t \<Rightarrow> machine \<Rightarrow> machine option" where
  "release_field_with E release it \<mu> =
     (let f = it_field it in do {
       current \<leftarrow> (if f_htype f = PB_HTYPE_ONEOF
                   then map_option (\<lambda>which. which = f_tag f) (load_u32 (mem \<mu>) (pSize it))
                   else Some True);
       if \<not> current then Some \<mu>
       else do {
         \<mu> \<leftarrow> (if f_ltype f = PB_LTYPE_EXTENSION
               then Option.bind (load_ptr (mem \<mu>) (pData it))
                      (\<lambda>ext. c_loop (ext_release_step E release) (ext, \<mu>))
               else if f_ltype f = PB_LTYPE_SUBMESSAGE \<and> f_atype f \<noteq> PB_ATYPE_CALLBACK
               then release_submessages release it \<mu>
               else Some \<mu>);
         if f_atype f = PB_ATYPE_POINTER then release_pointer it \<mu> else Some \<mu>
       }
     })"

primrec pb_release_single_field :: "nat \<Rightarrow> dec_user \<Rightarrow> pb_field_iter_t \<Rightarrow> machine \<Rightarrow> machine option" where
  "pb_release_single_field 0 = (\<lambda>E it \<mu>. None)"
| "pb_release_single_field (Suc n) = (\<lambda>E. release_field_with E (pb_release_single_field n E))"

definition pb_release :: "nat \<Rightarrow> dec_user \<Rightarrow> pb_field list \<Rightarrow> addr \<Rightarrow> machine \<Rightarrow> machine option" where
  "pb_release n E = message_release_with (pb_release_single_field n E)"

end
