(* ===== verification/PB_Decode.thy ===== *)
theory PB_Decode
  imports PB_Defaults
begin

text \<open>
  \<open>pb_decode.c\<close> from single fields to messages.  A decoder state is the stream and the machine.  As in
  the encoder, the functions that call each other in a cycle take the message operations as a
  parameter, and \<open>pb_decode_noinit\<close> ties the knot with a bound on the depth of nested messages.  The
  main loop itself needs no bound: it is a loop that returns or not.
\<close>

type_synonym pb_decoder_t = "pb_field \<Rightarrow> addr \<Rightarrow> dstate \<Rightarrow> (unit, dstate) cres"
type_synonym msg_decoder_t = "pb_field list \<Rightarrow> addr \<Rightarrow> dstate \<Rightarrow> (unit, dstate) cres"

section \<open>Acting on one half of the state\<close>

definition on_stream :: "(pb_istream_t \<Rightarrow> ('v, pb_istream_t) cres) \<Rightarrow> dstate \<Rightarrow> ('v, dstate) cres" where
  "on_stream f \<sigma> = map_option (\<lambda>(r, s). (r, (s, snd \<sigma>))) (f (fst \<sigma>))"

definition on_machine :: "(machine \<Rightarrow> machine option) \<Rightarrow> dstate \<Rightarrow> (unit, dstate) cres" where
  "on_machine f \<sigma> = map_option (\<lambda>\<mu>. (Some (), (fst \<sigma>, \<mu>))) (f (snd \<sigma>))"

definition ret_derror :: "string \<Rightarrow> dstate \<Rightarrow> ('v, dstate) cres" where
  "ret_derror msg \<sigma> = c_false (set_ierror msg (fst \<sigma>), snd \<sigma>)"

text \<open>\<open>pb_read(stream, p, n)\<close> into memory.\<close>

definition read_to :: "dec_user \<Rightarrow> addr \<Rightarrow> u64 \<Rightarrow> dstate \<Rightarrow> (unit, dstate) cres" where
  "read_to E p n \<sigma> = c_bind (on_stream (pb_read E True n) \<sigma>) (\<lambda>bs \<sigma>. on_machine (m_store p bs) \<sigma>)"

section \<open>Scalar decoders\<close>

definition pb_dec_bool :: "dec_user \<Rightarrow> pb_decoder_t" where
  "pb_dec_bool E field dest \<sigma> = c_bind (on_stream (pb_decode_varint32 E) \<sigma>) (\<lambda>value \<sigma>.
     on_machine (m_store dest [if value \<noteq> 0 then 1 else 0]) \<sigma>)"

definition pb_decode_bool :: "dec_user \<Rightarrow> addr \<Rightarrow> dstate \<Rightarrow> (unit, dstate) cres" where
  "pb_decode_bool E dest \<sigma> = pb_dec_bool E PB_LAST_FIELD dest \<sigma>"

text \<open>
  The assignment \<open>clamped = *(T*)dest = (T)v\<close>: what is stored at \<open>dest\<close> and the value read back, for
  signed and unsigned \<open>T\<close> of \<open>data_size\<close> bytes; \<open>None\<close> for another size.
\<close>

definition clamp_signed :: "u32 \<Rightarrow> u64 \<Rightarrow> (u8 list \<times> u64) option" where
  "clamp_signed data_size v =
     (if data_size = 8 then Some (bytes_le 8 v, v)
      else if data_size = 4 then Some (bytes_le 4 v, scast (ucast v :: u32))
      else if data_size = 2 then Some (bytes_le 2 v, scast (ucast v :: u16))
      else if data_size = 1 then Some (bytes_le 1 v, scast (ucast v :: u8))
      else None)"

definition clamp_unsigned :: "u32 \<Rightarrow> u64 \<Rightarrow> (u8 list \<times> u64) option" where
  "clamp_unsigned data_size v =
     (if data_size = 8 then Some (bytes_le 8 v, v)
      else if data_size = 4 then Some (bytes_le 4 v, ucast (ucast v :: u32))
      else if data_size = 2 then Some (bytes_le 2 v, ucast (ucast v :: u16))
      else if data_size = 1 then Some (bytes_le 1 v, ucast (ucast v :: u8))
      else None)"

definition store_clamped :: "(u8 list \<times> u64) option \<Rightarrow> u64 \<Rightarrow> addr \<Rightarrow> dstate \<Rightarrow> (unit, dstate) cres" where
  "store_clamped c v dest \<sigma> = (case c of None \<Rightarrow> ret_derror ''invalid data_size'' \<sigma>
     | Some (bs, clamped) \<Rightarrow> c_bind (on_machine (m_store dest bs) \<sigma>) (\<lambda>_ \<sigma>.
         if clamped \<noteq> v then ret_derror ''integer too large'' \<sigma> else c_true \<sigma>))"

definition pb_dec_varint :: "dec_user \<Rightarrow> pb_decoder_t" where
  "pb_dec_varint E field dest \<sigma> = c_bind (on_stream (pb_decode_varint E) \<sigma>) (\<lambda>value \<sigma>.
     let svalue = (if f_data_size field = 8 then value else scast (ucast value :: u32))
     in store_clamped (clamp_signed (f_data_size field) svalue) svalue dest \<sigma>)"

definition pb_dec_uvarint :: "dec_user \<Rightarrow> pb_decoder_t" where
  "pb_dec_uvarint E field dest \<sigma> = c_bind (on_stream (pb_decode_varint E) \<sigma>) (\<lambda>value \<sigma>.
     store_clamped (clamp_unsigned (f_data_size field) value) value dest \<sigma>)"

definition pb_dec_svarint :: "dec_user \<Rightarrow> pb_decoder_t" where
  "pb_dec_svarint E field dest \<sigma> = c_bind (on_stream (pb_decode_svarint E) \<sigma>) (\<lambda>value \<sigma>.
     store_clamped (clamp_signed (f_data_size field) value) value dest \<sigma>)"

definition fixed32_value :: "u8 list \<Rightarrow> u32" where
  "fixed32_value bytes = ucast (bytes ! 0) OR push_bit 8 (ucast (bytes ! 1)) OR
     push_bit 16 (ucast (bytes ! 2)) OR push_bit 24 (ucast (bytes ! 3))"

definition fixed64_value :: "u8 list \<Rightarrow> u64" where
  "fixed64_value bytes = ucast (bytes ! 0) OR push_bit 8 (ucast (bytes ! 1)) OR
     push_bit 16 (ucast (bytes ! 2)) OR push_bit 24 (ucast (bytes ! 3)) OR
     push_bit 32 (ucast (bytes ! 4)) OR push_bit 40 (ucast (bytes ! 5)) OR
     push_bit 48 (ucast (bytes ! 6)) OR push_bit 56 (ucast (bytes ! 7))"

definition pb_decode_fixed32 :: "dec_user \<Rightarrow> addr \<Rightarrow> dstate \<Rightarrow> (unit, dstate) cres" where
  "pb_decode_fixed32 E dest \<sigma> = c_bind (on_stream (pb_read E True 4) \<sigma>) (\<lambda>bytes \<sigma>.
     on_machine (m_store dest (bytes_le 4 (fixed32_value bytes))) \<sigma>)"

definition pb_decode_fixed64 :: "dec_user \<Rightarrow> addr \<Rightarrow> dstate \<Rightarrow> (unit, dstate) cres" where
  "pb_decode_fixed64 E dest \<sigma> = c_bind (on_stream (pb_read E True 8) \<sigma>) (\<lambda>bytes \<sigma>.
     on_machine (m_store dest (bytes_le 8 (fixed64_value bytes))) \<sigma>)"

definition pb_dec_fixed32 :: "dec_user \<Rightarrow> pb_decoder_t" where
  "pb_dec_fixed32 E field dest \<sigma> = pb_decode_fixed32 E dest \<sigma>"

definition pb_dec_fixed64 :: "dec_user \<Rightarrow> pb_decoder_t" where
  "pb_dec_fixed64 E field dest \<sigma> = pb_decode_fixed64 E dest \<sigma>"

section \<open>Allocation\<close>

definition allocate_field :: "addr \<Rightarrow> u64 \<Rightarrow> u64 \<Rightarrow> dstate \<Rightarrow> (unit, dstate) cres" where
  "allocate_field pdata data_size array_size \<sigma> =
     (case load_ptr (mem (snd \<sigma>)) pdata of None \<Rightarrow> None
      | Some ptr \<Rightarrow>
        if data_size = 0 \<or> array_size = 0 then ret_derror ''invalid size'' \<sigma>
        else if (2 ^ 32 \<le> data_size \<or> 2 ^ 32 \<le> array_size) \<and> (- 1) div array_size < data_size
        then ret_derror ''size too large'' \<sigma>
        else (case pb_realloc ptr (unat (array_size * data_size)) (snd \<sigma>) of None \<Rightarrow> None
          | Some (ptr, \<mu>) \<Rightarrow>
            if ptr = 0 then ret_derror ''realloc failed'' (fst \<sigma>, \<mu>)
            else on_machine (m_store_ptr pdata ptr) (fst \<sigma>, \<mu>)))"

section \<open>Byte string decoders\<close>

definition pb_dec_bytes :: "dec_user \<Rightarrow> pb_decoder_t" where
  "pb_dec_bytes E field dest \<sigma> = c_bind (on_stream (pb_decode_varint32 E) \<sigma>) (\<lambda>n \<sigma>.
     if PB_SIZE_MAX < n then ret_derror ''bytes overflow'' \<sigma>
     else let alloc_size = PB_BYTES_ARRAY_T_ALLOCSIZE (ucast n) in
     if alloc_size < ucast n then ret_derror ''size too large'' \<sigma>
     else c_bind
       (if f_atype field = PB_ATYPE_POINTER
        then c_bind (allocate_field dest alloc_size 1 \<sigma>) (\<lambda>_ \<sigma>.
          (case load_ptr (mem (snd \<sigma>)) dest of None \<Rightarrow> None | Some p \<Rightarrow> c_ret p \<sigma>))
        else if ucast (f_data_size field) < alloc_size then ret_derror ''bytes overflow'' \<sigma>
        else c_ret dest \<sigma>)
       (\<lambda>bdest \<sigma>. c_bind (on_machine (m_store bdest (bytes_le 4 n)) \<sigma>)
         (\<lambda>_ \<sigma>. read_to E (bdest + BYTES_OFFSET) (ucast n) \<sigma>)))"

text \<open>
  \<open>alloc_size = size + 1\<close> is computed in 32 bits; so \<open>alloc_size < size\<close> catches the wrap.  The
  terminator is stored whether or not the read succeeded.
\<close>

definition pb_dec_string :: "dec_user \<Rightarrow> pb_decoder_t" where
  "pb_dec_string E field dest \<sigma> = c_bind (on_stream (pb_decode_varint32 E) \<sigma>) (\<lambda>n \<sigma>.
     let alloc_size = ucast (n + 1) :: u64 in
     if alloc_size < ucast n then ret_derror ''size too large'' \<sigma>
     else c_bind
       (if f_atype field = PB_ATYPE_POINTER
        then c_bind (allocate_field dest alloc_size 1 \<sigma>) (\<lambda>_ \<sigma>.
          (case load_ptr (mem (snd \<sigma>)) dest of None \<Rightarrow> None | Some p \<Rightarrow> c_ret p \<sigma>))
        else if ucast (f_data_size field) < alloc_size then ret_derror ''string overflow'' \<sigma>
        else c_ret dest \<sigma>)
       (\<lambda>dest \<sigma>. case read_to E dest (ucast n) \<sigma> of None \<Rightarrow> None
         | Some (status, \<sigma>) \<Rightarrow>
           (case m_store (dest + uint n) [0] (snd \<sigma>) of None \<Rightarrow> None
            | Some \<mu> \<Rightarrow> Some (status, (fst \<sigma>, \<mu>)))))"

definition pb_dec_fixed_length_bytes :: "dec_user \<Rightarrow> pb_decoder_t" where
  "pb_dec_fixed_length_bytes E field dest \<sigma> = c_bind (on_stream (pb_decode_varint32 E) \<sigma>) (\<lambda>n \<sigma>.
     if PB_SIZE_MAX < n then ret_derror ''bytes overflow'' \<sigma>
     else if n = 0 then on_machine (m_memset dest 0 (unat (f_data_size field))) \<sigma>
     else if n \<noteq> f_data_size field then ret_derror ''incorrect fixed length bytes size'' \<sigma>
     else read_to E dest (ucast (f_data_size field)) \<sigma>)"

section \<open>Submessages\<close>

text \<open>The operations on whole messages that the field decoders call.\<close>

record msg_ops =
  op_noinit :: msg_decoder_t
  op_defaults :: "pb_field list \<Rightarrow> addr \<Rightarrow> machine \<Rightarrow> machine option"
  op_release :: "pb_field list \<Rightarrow> addr \<Rightarrow> machine \<Rightarrow> machine option"
  op_release_field :: "pb_field_iter_t \<Rightarrow> machine \<Rightarrow> machine option"

definition pb_decode_with :: "msg_ops \<Rightarrow> msg_decoder_t" where
  "pb_decode_with R fs dest \<sigma> =
     c_bind (on_machine (op_defaults R fs dest) \<sigma>) (\<lambda>_ \<sigma>.
       case op_noinit R fs dest \<sigma> of None \<Rightarrow> None
       | Some (status, \<sigma>) \<Rightarrow>
         if status = None
         then c_bind (on_machine (op_release R fs dest) \<sigma>) (\<lambda>_ \<sigma>. c_false \<sigma>)
         else Some (status, \<sigma>))"

text \<open>
  Running a decoder on a substream: opened on the stream, closed after the decoder, whose status is
  the result; a failure to close is a failure.
\<close>

definition close_with :: "dec_user \<Rightarrow> pb_istream_t \<Rightarrow> 'v option \<times> dstate \<Rightarrow> ('v, dstate) cres" where
  "close_with E s x = (case x of (status, (sub, \<mu>)) \<Rightarrow>
     (case pb_close_string_substream E sub s of None \<Rightarrow> None
      | Some (r, s) \<Rightarrow> Some (if r = None then None else status, (s, \<mu>))))"

definition pb_dec_submessage :: "dec_user \<Rightarrow> msg_ops \<Rightarrow> pb_decoder_t" where
  "pb_dec_submessage E R field dest \<sigma> =
     c_bind (on_stream (pb_make_string_substream E) \<sigma>) (\<lambda>sub \<sigma>.
       case f_ptr field of NullPtr \<Rightarrow> ret_derror ''invalid field descriptor'' \<sigma>
       | DataPtr _ \<Rightarrow> None
       | FieldsPtr fs \<Rightarrow>
         Option.bind
           ((if f_htype field = PB_HTYPE_REPEATED then pb_decode_with R else op_noinit R)
              fs dest (sub, snd \<sigma>))
           (close_with E (fst \<sigma>)))"

definition PB_DECODERS :: "dec_user \<Rightarrow> msg_ops \<Rightarrow> u8 \<Rightarrow> pb_decoder_t" where
  "PB_DECODERS E R ltype =
     (if ltype = PB_LTYPE_BOOL then pb_dec_bool E
      else if ltype = PB_LTYPE_VARINT then pb_dec_varint E
      else if ltype = PB_LTYPE_UVARINT then pb_dec_uvarint E
      else if ltype = PB_LTYPE_SVARINT then pb_dec_svarint E
      else if ltype = PB_LTYPE_FIXED32 then pb_dec_fixed32 E
      else if ltype = PB_LTYPE_FIXED64 then pb_dec_fixed64 E
      else if ltype = PB_LTYPE_BYTES then pb_dec_bytes E
      else if ltype = PB_LTYPE_STRING then pb_dec_string E
      else if ltype = PB_LTYPE_SUBMESSAGE then pb_dec_submessage E R
      else if ltype = PB_LTYPE_FIXED_LENGTH_BYTES then pb_dec_fixed_length_bytes E
      else (\<lambda>field dest \<sigma>. None))"

end
