(* ===== verification/PB_Varint.thy ===== *)
theory PB_Varint
  imports Varint_Format PB_Source PB_Ostream PB_Decode
begin

text \<open>
  Varints as a format: base 128, least significant group first, the high bit of a byte set when
  another follows.  The encoder emits this format and the decoders invert it, over every stream that
  keeps the interface of \<open>PB_Source\<close>.
\<close>

section \<open>The encoder emits the format\<close>

text \<open>What the loop of \<open>pb_encode_varint\<close> leaves: the format with the last byte marked too.\<close>

definition mark_last :: "u8 list \<Rightarrow> u8 list" where
  "mark_last bs = butlast bs @ [last bs OR 0x80]"

lemma varint_step_byte: "ucast (w AND 0x7F) = (word_of_nat (unat w mod 128) :: u8)"
  for w :: u64
proof -
  have "unat (w AND 0x7F) = unat w mod 128" by (rule low7) simp
  moreover have "ucast (w AND 0x7F) = (word_of_nat (unat (w AND 0x7F)) :: u8)"
    by (rule of_nat_unat [symmetric])
  ultimately show ?thesis by simp
qed

lemma varint_enc_loop:
  "w \<noteq> 0 \<Longrightarrow> length buffer + length (varint_bytes (unat w)) \<le> 10 \<Longrightarrow>
   c_loop varint_enc_step (buffer, w) = Some (buffer @ mark_last (varint_bytes (unat w)))"
proof (induction "unat w" arbitrary: w buffer rule: less_induct)
  case less
  let ?v = "unat w" and ?b = "word_of_nat (unat w mod 128) OR 0x80 :: u8"
  have pos: "0 < ?v" using less.prems(1) by (simp add: unat_gt_0)
  have len: "length buffer < 10"
    using less.prems(2) by (cases "varint_bytes ?v") auto
  then have step: "varint_enc_step (buffer, w) = Some (Inr (buffer @ [?b], drop_bit 7 w))"
    using less.prems(1) by (simp add: varint_enc_step_def varint_step_byte)
  show ?case
  proof (cases "?v < 128")
    case True
    then have "drop_bit 7 w = 0" by (simp add: word_unat_eq_iff unat_drop7)
    then have "c_loop varint_enc_step (buffer @ [?b], drop_bit 7 w) = Some (buffer @ [?b])"
      by (simp add: c_loop_unfold varint_enc_step_def)
    with step True show ?thesis
      by (subst varint_bytes.simps) (simp add: c_loop_unfold mark_last_def)
  next
    case False
    have vb: "varint_bytes ?v = (word_of_nat (?v mod 128) + 128) # varint_bytes (?v div 128)"
      using False by (subst varint_bytes.simps) simp
    have "c_loop varint_enc_step (buffer @ [?b], drop_bit 7 w) =
        Some ((buffer @ [?b]) @ mark_last (varint_bytes (unat (drop_bit 7 w))))"
      using False less.prems vb pos
      by (intro less.hyps) (simp_all add: unat_drop7 word_unat_eq_iff)
    with step vb show ?thesis
      by (simp add: c_loop_unfold mark_last_def unat_drop7 or80 unat_u8_of_nat)
  qed
qed

text \<open>The filled buffer, with the mark taken off its last byte, is the format.\<close>

lemma unmark_last:
  "butlast (mark_last (varint_bytes n)) @ [last (mark_last (varint_bytes n)) AND 0x7F] = varint_bytes n"
  using or80_and7F [OF last_varint_bytes] by (simp add: mark_last_def)

lemma length_mark_last [simp]: "length (mark_last (varint_bytes n)) = length (varint_bytes n)"
  by (cases "varint_bytes n" rule: rev_cases) (simp_all add: mark_last_def)

lemma encode_varint_eq:
  "pb_encode_varint E v s =
     pb_write E (Some (varint_bytes (unat v))) (word_of_nat (length (varint_bytes (unat v)))) s"
proof (cases "v \<le> 0x7F")
  case True
  then have "unat v < 128" by (simp add: word_le_nat_alt)
  then have "varint_bytes (unat v) = [ucast v]"
    by (subst varint_bytes.simps) (simp add: of_nat_unat)
  with True show ?thesis by (simp add: pb_encode_varint_def)
next
  case False
  then have "v \<noteq> 0" by auto
  with False show ?thesis
    using varint_length_u64 [of v]
    by (simp add: pb_encode_varint_def varint_enc_loop unmark_last)
qed

section \<open>The decoder inverts the format\<close>

context byte_source
begin

lemma varint_loop:
  assumes "good s" "v < 2 ^ (7 * k)" "k \<le> 10"
  shows "c_loop (varint_step E) (word_of_nat (7 * k), word_of_nat v, s) =
    (case varint_prefix (take (10 - k) (avail s)) of
       Some p \<Rightarrow> Some (Some (word_of_nat (v + 2 ^ (7 * k) * varint_value p)), adv (length p) s)
     | None \<Rightarrow> if length (avail s) < 10 - k
         then Some (None, set_ierror ''end-of-stream'' (adv (length (avail s)) s))
         else Some (None, set_ierror ''varint overflow'' (adv (10 - k) s)))"
  using assms
proof (induction "10 - k" arbitrary: k v s)
  case 0
  then have k: "k = 10" by simp
  have "varint_step E (70, word_of_nat v, s) = Some (Inl (None, set_ierror ''varint overflow'' s))"
    by (simp add: varint_step_def)
  with 0 k show ?case by (simp add: c_loop_unfold adv_0)
next
  case (Suc n)
  then have k: "k < 10" and n: "n = 10 - Suc k" by auto
  have small: "unat (word_of_nat (7 * k) :: u8) = 7 * k"
    using k by (intro unat_u8_of_nat) simp
  have lt: "\<not> (64 :: u8) \<le> word_of_nat (7 * k)"
    using k small by (simp add: word_le_nat_alt)
  show ?case
  proof (cases "avail s")
    case Nil
    then have "varint_step E (word_of_nat (7 * k), word_of_nat v, s) =
        Some (Inl (None, set_ierror ''end-of-stream'' s))"
      using lt readbyte_end [OF Suc.prems(1)] by (simp add: varint_step_def ret_ierror_def c_false_def)
    with Nil Suc.prems(1) k show ?thesis by (simp add: c_loop_unfold adv_0)
  next
    case (Cons b bs)
    let ?v = "v + 2 ^ (7 * k) * (unat b mod 128)"
    have upd: "word_of_nat v OR push_bit (7 * k) (ucast (b AND 0x7F)) = (word_of_nat ?v :: u64)"
      using Suc.prems(2) by (simp only: low7_of_nat or_push_bit)
    have g: "good (adv 1 s)" "avail (adv 1 s) = bs"
      using Suc.prems(1) Cons by (simp_all add: adv_good adv_avail)
    have step: "varint_step E (word_of_nat (7 * k), word_of_nat v, s) =
        (if unat b < 128 then Some (Inl (Some (word_of_nat ?v), adv 1 s))
         else Some (Inr (word_of_nat (7 * Suc k), word_of_nat ?v, adv 1 s)))"
      (is "varint_step E (?bp, ?r, s) = _")
    proof -
      have upd': "?r OR push_bit (unat ?bp) (ucast (b AND 0x7F)) = word_of_nat ?v"
        by (simp only: small upd)
      have nxt: "?bp + 7 = word_of_nat (7 * Suc k)" by simp
      show ?thesis
        unfolding varint_step_def prod.case if_not_P [OF lt] readbyte_ok [OF Suc.prems(1) Cons]
          option.case Let_def upd' nxt
        by (simp only: u8_high simp_thms split: if_split) blast
    qed
    show ?thesis
    proof (cases "unat b < 128")
      case True
      with step Cons n Suc.hyps(2) show ?thesis
        by (cases "10 - k") (simp_all add: c_loop_unfold)
    next
      case False
      have "unat b mod 128 < 128" by simp
      then have "v + 2 ^ (7 * k) * (unat b mod 128) < 2 ^ (7 * k) + 2 ^ (7 * k) * 127"
        using Suc.prems(2) by (intro add_less_le_mono mult_le_mono) linarith+
      then have v: "?v < 2 ^ (7 * Suc k)" by (simp add: power_add)
      have [simp]: "adv m (adv (Suc 0) s) = adv (Suc m) s" if "m \<le> length bs" for m
        using adv_adv [OF Suc.prems(1), of 1 m] that Cons by simp
      have pl: "length p \<le> length bs" if "varint_prefix (take n bs) = Some p" for p
        using varint_prefix_length [OF that] by simp
      have tk: "take (10 - k) (b # bs) = b # take n bs" using Suc.hyps(2) by (metis take_Suc_Cons)
      have alg: "?v + 2 ^ (7 * Suc k) * x = v + 2 ^ (7 * k) * (unat b mod 128 + 128 * x)" for x
        by (simp add: power_add algebra_simps)
      note IH = Suc.hyps(1) [OF n g(1) v, unfolded g(2) n [symmetric]]
      have "c_loop (varint_step E) (word_of_nat (7 * k), word_of_nat v, s) =
          c_loop (varint_step E) (word_of_nat (7 * Suc k), word_of_nat ?v, adv 1 s)"
        using step False by (simp add: c_loop_unfold)
      also note IH
      finally show ?thesis
        using False k Suc.hyps(2) pl n
        by (simp only: Cons tk alg)
          (auto split: option.splits simp: alg)
    qed
  qed
qed

text \<open>The whole behaviour of the 64-bit decoder.\<close>

lemma decode_varint_eq:
  assumes "good s"
  shows "pb_decode_varint E s =
    (case varint_prefix (take 10 (avail s)) of
       Some p \<Rightarrow> Some (Some (word_of_nat (varint_value p)), adv (length p) s)
     | None \<Rightarrow> if length (avail s) < 10
         then Some (None, set_ierror ''end-of-stream'' (adv (length (avail s)) s))
         else Some (None, set_ierror ''varint overflow'' (adv 10 s)))"
  using varint_loop [of s 0 0] assms by (auto simp: pb_decode_varint_def split: option.splits)

lemma decode_varint_of_bytes:
  assumes "good s" "avail s = varint_bytes (unat v) @ rest"
  shows "pb_decode_varint E s = Some (Some v, adv (length (varint_bytes (unat v))) s)"
proof -
  have "take 10 (avail s) = varint_bytes (unat v) @ take (10 - length (varint_bytes (unat v))) rest"
    using assms(2) varint_length_u64 [of v] by simp
  then have "varint_prefix (take 10 (avail s)) = Some (varint_bytes (unat v))" by simp
  then show ?thesis by (simp add: decode_varint_eq [OF assms(1)])
qed

lemma varint32_loop:
  assumes "good s" "0 < k" "k + length p \<le> 5" "v < 2 ^ (7 * k)"
    and "varint_prefix (avail s) = Some p" "v + 2 ^ (7 * k) * varint_value p < 2 ^ 32"
  shows "c_loop (varint32_step E) (word_of_nat (7 * k), word_of_nat v, s) =
    Some (Some (word_of_nat (v + 2 ^ (7 * k) * varint_value p)), adv (length p) s)"
  using assms
proof (induction p arbitrary: k v s)
  case Nil
  then show ?case using varint_prefix_length by fastforce
next
  case (Cons b p)
  obtain bs where bs: "avail s = b # bs"
    using varint_prefix_split [OF Cons.prems(5)] by auto
  have k: "k \<le> 4" using Cons.prems(3) by simp
  let ?v = "v + 2 ^ (7 * k) * (unat b mod 128)" and ?bp = "word_of_nat (7 * k) :: u8"
  have small: "unat ?bp = 7 * k" using k by (intro unat_u8_of_nat) simp
  have lt: "(32 :: u8) \<le> ?bp \<longleftrightarrow> False" using k small by (simp add: word_le_nat_alt)
  have upd: "word_of_nat v OR push_bit (unat ?bp) (ucast (b AND 0x7F)) = (word_of_nat ?v :: u32)"
    using Cons.prems(4) by (simp only: low7_of_nat or_push_bit small)
  have nxt: "?bp + 7 = word_of_nat (7 * Suc k)" by simp
  have step: "varint32_step E (?bp, word_of_nat v, s) =
      (if b AND 0x80 \<noteq> 0 then Some (Inr (word_of_nat (7 * Suc k), word_of_nat ?v, adv 1 s))
       else if word_of_nat (7 * Suc k) = (35 :: u8) \<and> b AND 0x70 \<noteq> 0
         then Some (Inl (None, set_ierror ''varint overflow'' (adv 1 s)))
         else Some (Inl (Some (word_of_nat ?v), adv 1 s)))"
    unfolding varint32_step_def prod.case readbyte_ok [OF Cons.prems(1) bs]
      option.case Let_def lt upd nxt
    by (simp only: simp_thms if_False if_True)
  have g: "good (adv 1 s)" "avail (adv 1 s) = bs"
    using Cons.prems(1) bs by (simp_all add: adv_good adv_avail)
  show ?case
  proof (cases "unat b < 128")
    case True
    then have p: "p = []" using Cons.prems(5) bs by auto
    have "b AND 0x70 = 0" if "word_of_nat (7 * Suc k) = (35 :: u8)"
    proof -
      have "7 * Suc k = 35"
        using arg_cong [OF that, of unat] k
        by (subst (asm) unat_u8_of_nat) simp_all
      then have "unat b < 16" using Cons.prems(6) True p by simp
      then have "take_bit 4 (unat b) = unat b" by (simp add: take_bit_nat_eq_self)
      then have "take_bit 4 b = b" by (simp only: word_unat_eq_iff unsigned_take_bit_eq)
      then have "b AND 0x0F = b" by (simp only: take_bit_eq_mask mask_eq_exp_minus_1) simp
      then have "b AND 0x70 = b AND (0x0F AND 0x70)" by (metis and.assoc)
      then show ?thesis by simp
    qed
    with step True p u8_high [of b] show ?thesis by (simp add: c_loop_unfold)
  next
    case False
    then have p: "varint_prefix bs = Some p" using Cons.prems(5) bs by auto
    have "unat b mod 128 < 128" by simp
    then have "v + 2 ^ (7 * k) * (unat b mod 128) < 2 ^ (7 * k) + 2 ^ (7 * k) * 127"
      using Cons.prems(4) by (intro add_less_le_mono mult_le_mono) linarith+
    then have v: "?v < 2 ^ (7 * Suc k)" by (simp add: power_add)
    have alg: "?v + 2 ^ (7 * Suc k) * varint_value p = v + 2 ^ (7 * k) * varint_value (b # p)"
      by (simp add: power_add algebra_simps)
    have "c_loop (varint32_step E) (word_of_nat (7 * Suc k), word_of_nat ?v, adv 1 s) =
        Some (Some (word_of_nat (v + 2 ^ (7 * k) * varint_value (b # p))), adv (length p) (adv 1 s))"
    proof -
      have len: "Suc k + length p \<le> 5" using Cons.prems(3) by simp
      show ?thesis
        unfolding alg [symmetric]
        by (rule Cons.IH [OF g(1) zero_less_Suc len v]) (simp_all only: g(2) p alg Cons.prems(6))
    qed
    moreover have "adv (length p) (adv 1 s) = adv (length (b # p)) s"
      using adv_adv [OF Cons.prems(1), of 1 "length p"] varint_prefix_length [OF p] bs by simp
    moreover have "b AND 0x80 \<noteq> 0" using False by (simp add: u8_high)
    ultimately show ?thesis using step by (simp only: c_loop_unfold(2) if_True simp_thms)
  qed
qed

lemma decode_varint32_ok:
  assumes "good s" "varint_prefix (avail s) = Some p" "length p \<le> 5" "varint_value p < 2 ^ 32"
  shows "pb_decode_varint32 E s = Some (Some (word_of_nat (varint_value p)), adv (length p) s)"
proof -
  obtain b bs where bs: "avail s = b # bs" using varint_prefix_split [OF assms(2)] by (cases "avail s") auto
  note rd = readbyte_ok [OF assms(1) bs]
  show ?thesis
  proof (cases "unat b < 128")
    case True
    with assms(2) bs have "p = [b]" by simp
    with True rd show ?thesis
      by (simp add: pb_decode_varint32_def pb_decode_varint32_eof_def u8_high of_nat_unat)
  next
    case False
    then obtain q where q: "varint_prefix bs = Some q" "p = b # q" using assms(2) bs by auto
    have g: "good (adv 1 s)" "avail (adv 1 s) = bs"
      using assms(1) bs by (simp_all add: adv_good adv_avail)
    have "c_loop (varint32_step E) (word_of_nat (7 * 1), word_of_nat (unat b mod 128), adv 1 s) =
        Some (Some (word_of_nat (unat b mod 128 + 2 ^ (7 * 1) * varint_value q)), adv (length q) (adv 1 s))"
      by (rule varint32_loop [OF g(1)]) (use assms q g in simp_all)
    moreover have "adv (length q) (adv 1 s) = adv (length p) s"
      using adv_adv [OF assms(1), of 1 "length q"] varint_prefix_length [OF q(1)] q(2) bs by simp
    ultimately show ?thesis
      using False rd q(2)
      by (simp add: pb_decode_varint32_def pb_decode_varint32_eof_def u8_high low7_of_nat)
  qed
qed

lemma decode_varint32_of_bytes:
  assumes "good s" "avail s = varint_bytes (unat (v :: u32)) @ rest"
  shows "pb_decode_varint32 E s = Some (Some v, adv (length (varint_bytes (unat v))) s)"
proof -
  have "unat v < 2 ^ 32" by (rule less_le_trans [OF unsigned_less]) simp
  then show ?thesis
    using decode_varint32_ok [OF assms(1), of "varint_bytes (unat v)"] assms(2) varint_length_u32 [of v]
    by simp
qed

text \<open>Whatever the bytes are, the 32-bit decoder returns and only moves forward.\<close>

lemma readbyte_cases:
  assumes "good s"
  obtains b where "pb_readbyte E s = Some (Some b, adv 1 s)" "avail s \<noteq> []"
  | "pb_readbyte E s = Some (None, set_ierror ''end-of-stream'' s)" "avail s = []"
  using readbyte_ok [OF assms] readbyte_end [OF assms]
  by (cases "avail s") (auto simp: ret_ierror_def c_false_def)

lemma varint32_loop_defined:
  assumes "good s"
  shows "\<exists>x. c_loop (varint32_step E) (bp, v, s) = Some x \<and> fwd s (snd x) \<and>
    (fst x \<noteq> None \<longrightarrow> length (avail (snd x)) < length (avail s))"
proof (rule c_loop_rule [where I = "\<lambda>(bp, v, t). fwd s t"
      and m = "\<lambda>(bp, v, t). length (avail t)"])
  fix x :: "u8 \<times> u32 \<times> pb_istream_t"
  assume "case x of (bp, v, t) \<Rightarrow> fwd s t"
  then obtain bp v t where x: "x = (bp, v, t)" and t: "fwd s t" by (cases x) auto
  from moved_good [OF t]
  show "\<exists>y. varint32_step E x = Some y \<and>
      (case y of Inl r \<Rightarrow> fwd s (snd r) \<and>
          (fst r \<noteq> None \<longrightarrow> length (avail (snd r)) < length (avail s))
       | Inr x' \<Rightarrow> (case x' of (bp, v, t) \<Rightarrow> fwd s t) \<and>
          (case x' of (bp, v, t) \<Rightarrow> length (avail t)) < (case x of (bp, v, t) \<Rightarrow> length (avail t)))"
  proof (cases rule: readbyte_cases)
    case (1 b)
    have m: "fwd t (adv 1 t)"
      using 1 moved_good [OF t] by (intro moved_adv) (auto simp: Suc_le_eq)
    have "length (avail (adv 1 t)) < length (avail t)" "length (avail t) \<le> length (avail s)"
      using 1 moved_good [OF t] moved_length [OF t] by (auto simp: adv_avail Suc_le_eq)
    with 1 moved_trans [OF t m] show ?thesis
      by (auto simp: x varint32_step_def Let_def moved_err)
  next
    case 2
    then show ?thesis by (simp add: x varint32_step_def moved_err t)
  qed
qed (use moved_refl [OF assms] in simp)

lemma varint32_eof_defined:
  assumes "good s"
  shows "\<exists>r e s'. pb_decode_varint32_eof E s = Some (r, e, s') \<and> fwd s s' \<and>
    (r \<noteq> None \<longrightarrow> length (avail s') < length (avail s))"
  using assms
proof (cases rule: readbyte_cases)
  case (1 b)
  have m: "fwd s (adv 1 s)"
    using 1 assms by (intro moved_adv) (auto simp: Suc_le_eq)
  have less: "length (avail (adv 1 s)) < length (avail s)"
    using 1 assms by (auto simp: adv_avail Suc_le_eq)
  obtain x where x: "c_loop (varint32_step E) (7, ucast (b AND 0x7F), adv 1 s) = Some x"
    and mx: "fwd (adv 1 s) (snd x)"
    using varint32_loop_defined [OF moved_good [OF m]] by blast
  have "length (avail (snd x)) < length (avail s)" using moved_length [OF mx] less by simp
  with 1 x less m moved_trans [OF m mx] show ?thesis
    by (cases x) (simp add: pb_decode_varint32_eof_def ex_bool_eq)
next
  case 2
  then show ?thesis
    by (simp add: pb_decode_varint32_eof_def moved_err moved_refl assms)
qed

lemma varint32_defined:
  assumes "good s"
  shows "\<exists>r s'. pb_decode_varint32 E s = Some (r, s') \<and> fwd s s' \<and>
    (r \<noteq> None \<longrightarrow> length (avail s') < length (avail s))"
  using varint32_eof_defined [OF assms] by (fastforce simp: pb_decode_varint32_def)

text \<open>The first read at the end of the bytes is an end of file and no error.\<close>

lemma varint32_eof_at_end:
  "good s \<Longrightarrow> avail s = [] \<Longrightarrow>
   pb_decode_varint32_eof E s = Some (None, True, set_ierror ''end-of-stream'' s)"
  using readbyte_end [of s] left_0 [of s] left_0 [of "set_ierror ''end-of-stream'' s"]
  by (simp add: pb_decode_varint32_eof_def ret_ierror_def c_false_def err_good err_avail)

lemma decode_tag_defined:
  assumes "good s"
  shows "\<exists>r e s'. pb_decode_tag E s = Some (r, e, s') \<and> fwd s s' \<and>
    (r \<noteq> None \<longrightarrow> length (avail s') < length (avail s))"
proof -
  obtain r e s' where "pb_decode_varint32_eof E s = Some (r, e, s')" "fwd s s'"
    "r \<noteq> None \<longrightarrow> length (avail s') < length (avail s)"
    using varint32_eof_defined [OF assms] by blast
  then show ?thesis
    by (cases r) (auto simp: pb_decode_tag_def ex_bool_eq)
qed

end

section \<open>Zigzag\<close>

definition zigzag :: "u64 \<Rightarrow> u64" where
  "zigzag v = (if sint v < 0 then NOT (push_bit 1 v) else push_bit 1 v)"

definition unzigzag :: "u64 \<Rightarrow> u64" where
  "unzigzag v = (if v AND 1 \<noteq> 0 then NOT (drop_bit 1 v) else drop_bit 1 v)"

lemma sint_neg_bit: "sint (v :: u64) < 0 \<longleftrightarrow> bit v 63"
  using bit_last_iff [of v] by simp

lemma bit_double_u64: "bit (v * 2 :: u64) n \<longleftrightarrow> n \<noteq> 0 \<and> n < 64 \<and> bit v (n - 1)"
  by (auto simp: mult.commute [of v] bit_double_iff)

lemma unzigzag_zigzag [simp]: "unzigzag (zigzag v) = v"
proof -
  have odd: "w AND 1 \<noteq> 0 \<longleftrightarrow> bit w 0" for w :: u64
    using and_exp_eq_0_iff_not_bit [of w 0] by simp
  have last: "n = 63" if "n < 64" "\<not> n < 63" for n :: nat using that by linarith
  show ?thesis
    unfolding zigzag_def unzigzag_def odd sint_neg_bit
    by (rule bit_word_eqI, cases "bit v 63")
      (auto simp: bit_simps bit_double_u64 dest: last)
qed

lemma encode_svarint_eq: "pb_encode_svarint E v s = pb_encode_varint E (zigzag v) s"
  by (simp add: pb_encode_svarint_def zigzag_def)

lemma decode_svarint_eq:
  "pb_decode_svarint E s = c_bind (pb_decode_varint E s) (\<lambda>v s. c_ret (unzigzag v) s)"
  by (simp add: pb_decode_svarint_def unzigzag_def)

section \<open>Fixed-width values\<close>

lemma fixed32_bytes_eq: "fixed32_bytes v = bytes_le 4 v"
  by (simp add: fixed32_bytes_def)

lemma fixed64_bytes_eq: "fixed64_bytes v = bytes_le 8 v"
  by (simp add: fixed64_bytes_def)

lemma fixed32_value_eq: "length bs = 4 \<Longrightarrow> fixed32_value bs = word_le bs"
proof -
  assume "length bs = 4"
  then obtain a b c d where "bs = [a, b, c, d]" by (auto simp: eval_nat_numeral length_Suc_conv)
  then show ?thesis by (simp add: fixed32_value_def push_bit_or)
qed

lemma fixed64_value_eq: "length bs = 8 \<Longrightarrow> fixed64_value bs = word_le bs"
proof -
  assume "length bs = 8"
  then obtain a b c d e f g h where "bs = [a, b, c, d, e, f, g, h]"
    by (auto simp: eval_nat_numeral length_Suc_conv)
  then show ?thesis by (simp add: fixed64_value_def push_bit_or)
qed

lemma fixed32_value_bytes [simp]: "fixed32_value (fixed32_bytes v) = v"
  by (subst fixed32_value_eq) (simp_all only: fixed32_bytes_eq length_bytes_le, rule word_le_bytes_le_id, simp)

lemma fixed64_value_bytes [simp]: "fixed64_value (fixed64_bytes v) = v"
  by (subst fixed64_value_eq) (simp_all only: fixed64_bytes_eq length_bytes_le, rule word_le_bytes_le_id, simp)

end
