(* ===== verification/PB_Sink.thy ===== *)
theory PB_Sink
  imports PB_Varint
begin

text \<open>
  The interface of an output stream, as the encoders use it.  A sink takes a sequence of bytes; when
  they do not all fit, it takes some of the writes and reports an error.  Sizing streams and buffer
  streams keep the interface.
\<close>

section \<open>The interface\<close>

text \<open>
  \<open>fits n s\<close>: \<open>n\<close> more bytes fit.  \<open>put bs s\<close>: the stream after these bytes.  The provider promises
  that one write puts its bytes exactly when they fit, and changes nothing but the message otherwise.
\<close>

locale byte_sink =
  fixes E :: enc_user
    and good :: "pb_ostream_t \<Rightarrow> bool"
    and fits :: "nat \<Rightarrow> pb_ostream_t \<Rightarrow> bool"
    and put :: "u8 list \<Rightarrow> pb_ostream_t \<Rightarrow> pb_ostream_t"
  assumes put_Nil: "good s \<Longrightarrow> put [] s = s"
    and put_put: "good s \<Longrightarrow> fits (length xs) s \<Longrightarrow> put ys (put xs s) = put (xs @ ys) s"
    and put_good: "good s \<Longrightarrow> fits (length xs) s \<Longrightarrow> good (put xs s)"
    and put_fits: "good s \<Longrightarrow> fits (length xs) s \<Longrightarrow> fits n (put xs s) \<longleftrightarrow> fits (length xs + n) s"
    and put_errmsg: "put xs (s\<lparr>o_errmsg := e\<rparr>) = (put xs s)\<lparr>o_errmsg := e\<rparr>"
    and fits_mono: "good s \<Longrightarrow> fits n s \<Longrightarrow> m \<le> n \<Longrightarrow> fits m s"
    and fits_0: "good s \<Longrightarrow> fits 0 s"
    and wr: "good s \<Longrightarrow> length bs = unat c \<Longrightarrow> fits (unat c) s \<Longrightarrow>
      pb_write E (Some bs) c s = Some (Some (), put bs s)"
    and wr_full: "good s \<Longrightarrow> length bs = unat c \<Longrightarrow> \<not> fits (unat c) s \<Longrightarrow>
      pb_write E (Some bs) c s = ret_oerror ''stream full'' s"

text \<open>
  \<open>emits f bs ok\<close>: on any sink in good order \<open>f\<close> returns; it has put a prefix of \<open>bs\<close> that fits, and it
  returns true exactly when \<open>ok\<close> and all of \<open>bs\<close> fits, and then it has put all of \<open>bs\<close>.
\<close>

definition emits_on :: "(pb_ostream_t \<Rightarrow> bool) \<Rightarrow> (nat \<Rightarrow> pb_ostream_t \<Rightarrow> bool) \<Rightarrow>
    (u8 list \<Rightarrow> pb_ostream_t \<Rightarrow> pb_ostream_t) \<Rightarrow>
    (pb_ostream_t \<Rightarrow> (unit, pb_ostream_t) cres) \<Rightarrow> u8 list \<Rightarrow> bool \<Rightarrow> bool" where
  "emits_on good fits put f bs ok \<longleftrightarrow> (\<forall>s. good s \<longrightarrow>
     (\<exists>s'. f s = Some (if ok \<and> fits (length bs) s then Some () else None, s') \<and>
        (if ok \<and> fits (length bs) s then s' = put bs s
         else \<exists>k m. k \<le> length bs \<and> fits k s \<and> s' = (put (take k bs) s)\<lparr>o_errmsg := m\<rparr>)))"

context byte_sink
begin

abbreviation emits :: "(pb_ostream_t \<Rightarrow> (unit, pb_ostream_t) cres) \<Rightarrow> u8 list \<Rightarrow> bool \<Rightarrow> bool" where
  "emits \<equiv> emits_on good fits put"

lemma emits_ok:
  "emits f bs ok \<Longrightarrow> ok \<Longrightarrow> good s \<Longrightarrow> fits (length bs) s \<Longrightarrow> f s = Some (Some (), put bs s)"
  unfolding emits_on_def by fastforce

lemma emits_no:
  assumes "emits f bs ok" "good s" "\<not> (ok \<and> fits (length bs) s)"
  obtains k m where "k \<le> length bs" "fits k s" "f s = Some (None, (put (take k bs) s)\<lparr>o_errmsg := m\<rparr>)"
proof -
  from assms(1,2) obtain s' where "f s = Some (if ok \<and> fits (length bs) s then Some () else None, s')"
    "if ok \<and> fits (length bs) s then s' = put bs s
     else \<exists>k m. k \<le> length bs \<and> fits k s \<and> s' = (put (take k bs) s)\<lparr>o_errmsg := m\<rparr>"
    unfolding emits_on_def by blast
  then show ?thesis using that unfolding if_not_P [OF assms(3)] by blast
qed

lemma emitsI:
  assumes "\<And>s. good s \<Longrightarrow> ok \<Longrightarrow> fits (length bs) s \<Longrightarrow> f s = Some (Some (), put bs s)"
    and "\<And>s. good s \<Longrightarrow> \<not> (ok \<and> fits (length bs) s) \<Longrightarrow>
      \<exists>k m. k \<le> length bs \<and> fits k s \<and> f s = Some (None, (put (take k bs) s)\<lparr>o_errmsg := m\<rparr>)"
  shows "emits f bs ok"
  using assms unfolding emits_on_def by fastforce

lemma emits_fail: "emits (ret_oerror msg) [] False"
  by (rule emitsI)
    (auto simp: ret_oerror_def c_false_def set_oerror_def put_Nil fits_0 intro!: exI)

lemma emits_true: "emits c_true [] True"
  by (rule emitsI) (auto simp: c_true_def put_Nil fits_0)

lemma emits_write: "length bs = unat n \<Longrightarrow> emits (pb_write E (Some bs) n) bs True"
  by (rule emitsI)
    (auto simp: wr wr_full ret_oerror_def c_false_def set_oerror_def put_Nil fits_0 intro!: exI [of _ 0])

lemma emits_bind:
  assumes f: "emits f bs ok" and g: "ok \<Longrightarrow> emits g cs ok'"
  shows "emits (\<lambda>s. c_bind (f s) (\<lambda>_ s. g s))
    (bs @ (if ok then cs else [])) (ok \<and> ok')"
proof (cases ok)
  case False
  show ?thesis
  proof (rule emitsI)
    fix s assume s: "good s"
    then obtain k m where "k \<le> length bs" "fits k s" "f s = Some (None, (put (take k bs) s)\<lparr>o_errmsg := m\<rparr>)"
      using emits_no [OF f s] False by blast
    with False show "\<exists>k m. k \<le> length (bs @ (if ok then cs else [])) \<and> fits k s \<and>
        c_bind (f s) (\<lambda>_ s. g s) =
          Some (None, (put (take k (bs @ (if ok then cs else []))) s)\<lparr>o_errmsg := m\<rparr>)"
      by (intro exI [of _ k] exI [of _ m]) simp
  qed (use False in simp)
next
  case True
  show ?thesis
  proof (rule emitsI)
    fix s assume s: "good s" "ok \<and> ok'" "fits (length (bs @ (if ok then cs else []))) s"
    then have fb: "fits (length bs) s" by (auto intro: fits_mono)
    then have "fits (length cs) (put bs s)" using s True by (simp add: put_fits)
    then show "c_bind (f s) (\<lambda>_ s. g s) = Some (Some (), put (bs @ (if ok then cs else [])) s)"
      using emits_ok [OF f True s(1) fb] emits_ok [OF g, of "put bs s"] s fb True
      by (simp add: put_good put_put)
  next
    fix s assume s: "good s" "\<not> ((ok \<and> ok') \<and> fits (length (bs @ (if ok then cs else []))) s)"
    show "\<exists>k m. k \<le> length (bs @ (if ok then cs else [])) \<and> fits k s \<and>
        c_bind (f s) (\<lambda>_ s. g s) =
          Some (None, (put (take k (bs @ (if ok then cs else []))) s)\<lparr>o_errmsg := m\<rparr>)"
    proof (cases "fits (length bs) s")
      case fb: True
      then have "good (put bs s)" "\<not> (ok' \<and> fits (length cs) (put bs s))"
        using s True by (auto simp: put_fits put_good)
      then obtain k m where k: "k \<le> length cs" "fits k (put bs s)"
        "g (put bs s) = Some (None, (put (take k cs) (put bs s))\<lparr>o_errmsg := m\<rparr>)"
        using emits_no [OF g [OF True]] by blast
      then show ?thesis
        using emits_ok [OF f True s(1) fb] s(1) fb True
        by (intro exI [of _ "length bs + k"] exI [of _ m]) (simp add: put_put put_fits)
    next
      case False
      then obtain k m where "k \<le> length bs" "fits k s" "f s = Some (None, (put (take k bs) s)\<lparr>o_errmsg := m\<rparr>)"
        using emits_no [OF f s(1)] by blast
      with True show ?thesis by (intro exI [of _ k] exI [of _ m]) simp
    qed
  qed
qed

lemma emits_varint: "emits (pb_encode_varint E v) (varint_bytes (unat v)) True"
proof -
  have "unat (word_of_nat (length (varint_bytes (unat v))) :: u64) = length (varint_bytes (unat v))"
    using varint_length_u64 [of v] by (intro unat_of_nat_64) simp
  then show ?thesis using emits_write unfolding encode_varint_eq [abs_def] by simp
qed

end

section \<open>Sizing streams\<close>

definition sz_ok :: "pb_ostream_t \<Rightarrow> bool" where
  "sz_ok s \<longleftrightarrow> o_callback s = Sizing"

definition sz_fits :: "nat \<Rightarrow> pb_ostream_t \<Rightarrow> bool" where
  "sz_fits n s \<longleftrightarrow> True"

definition sz_put :: "u8 list \<Rightarrow> pb_ostream_t \<Rightarrow> pb_ostream_t" where
  "sz_put bs s = s\<lparr>bytes_written := bytes_written s + word_of_nat (length bs)\<rparr>"

interpretation sz: byte_sink E sz_ok sz_fits sz_put for E
  by unfold_locales
    (auto simp: sz_ok_def sz_fits_def sz_put_def pb_write_def c_true_def add.assoc of_nat_unat)

section \<open>Buffer streams\<close>

text \<open>
  A buffer stream in good order has not passed its limit, its limit is within the array it writes
  to, it is at most half of the address space, as every object of C is, and no error has been
  reported on it.
\<close>

definition bf_ok :: "pb_ostream_t \<Rightarrow> bool" where
  "bf_ok s \<longleftrightarrow> o_callback s = BufWrite \<and> unat (bytes_written s) \<le> unat (max_size s) \<and>
     unat (max_size s) \<le> unat (bytes_written s) + o_room s \<and> unat (max_size s) \<le> 2 ^ 63 \<and>
     o_errmsg s = None"

definition bf_fits :: "nat \<Rightarrow> pb_ostream_t \<Rightarrow> bool" where
  "bf_fits n s \<longleftrightarrow> unat (bytes_written s) + n \<le> unat (max_size s)"

definition bf_put :: "u8 list \<Rightarrow> pb_ostream_t \<Rightarrow> pb_ostream_t" where
  "bf_put bs s = s\<lparr>o_written := o_written s @ bs, o_room := o_room s - length bs,
     bytes_written := bytes_written s + word_of_nat (length bs)\<rparr>"

lemma unat_add_fits:
  "unat (a :: u64) + n \<le> unat (b :: u64) \<Longrightarrow> unat (a + word_of_nat n) = unat a + n"
  using unat_u64_less [of b]
  by (subst unat_plus_if_size) (auto simp: unat_of_nat_64 word_size)

lemma bf_written_put: "bf_fits (length bs) s \<Longrightarrow>
    unat (bytes_written (bf_put bs s)) = unat (bytes_written s) + length bs"
  by (simp add: bf_fits_def bf_put_def unat_add_fits)

lemma bf_write_check:
  assumes "bf_ok s"
  shows "(bytes_written s + c < bytes_written s \<or> max_size s < bytes_written s + c) \<longleftrightarrow>
    \<not> bf_fits (unat c) s"
proof (cases "unat (bytes_written s) + unat c < 2 ^ 64")
  case True
  then have "unat (bytes_written s + c) = unat (bytes_written s) + unat c"
    by (subst unat_plus_if_size) (simp add: word_size)
  then show ?thesis by (auto simp: word_less_nat_alt bf_fits_def)
next
  case False
  then have "unat (bytes_written s + c) = unat (bytes_written s) + unat c - 2 ^ 64"
    by (subst unat_plus_if_size) (simp add: word_size)
  then have "bytes_written s + c < bytes_written s"
    using False unat_u64_less [of c] unat_u64_less [of "bytes_written s"]
    by (simp add: word_less_nat_alt)
  moreover have "\<not> bf_fits (unat c) s"
    using False unat_u64_less [of "max_size s"] by (simp add: bf_fits_def)
  ultimately show ?thesis by simp
qed

interpretation bf: byte_sink E bf_ok bf_fits bf_put for E
proof unfold_locales
  fix s :: pb_ostream_t and xs :: "u8 list" and n :: nat
  assume s: "bf_ok s" "bf_fits (length xs) s"
  note w = bf_written_put [OF s(2)]
  from s w show "bf_ok (bf_put xs s)"
    by (auto simp: bf_ok_def bf_fits_def) (auto simp: bf_put_def)
  from s w show "bf_fits n (bf_put xs s) = bf_fits (length xs + n) s"
    by (simp add: bf_fits_def add.assoc) (simp add: bf_put_def)
next
  fix s :: pb_ostream_t and bs :: "u8 list" and c :: u64
  assume s: "bf_ok s" "length bs = unat c" "bf_fits (unat c) s"
  then have "unat c \<le> o_room s" by (auto simp: bf_ok_def bf_fits_def)
  with s bf_write_check [OF s(1), of c] show "pb_write E (Some bs) c s = Some (Some (), bf_put bs s)"
    by (cases "c = 0"; cases s)
      (auto simp: pb_write_def call_write_def buf_write_def bf_ok_def bf_put_def c_true_def
        of_nat_unat word_gt_0)
next
  fix s :: pb_ostream_t and bs :: "u8 list" and c :: u64
  assume s: "bf_ok s" "length bs = unat c" "\<not> bf_fits (unat c) s"
  then have "0 < c" by (auto simp: bf_ok_def bf_fits_def word_gt_0)
  with s bf_write_check [OF s(1), of c] show "pb_write E (Some bs) c s = ret_oerror ''stream full'' s"
    by (auto simp: pb_write_def bf_ok_def)
qed (auto simp: bf_ok_def bf_fits_def bf_put_def add.assoc)

lemma from_buffer_sink:
  "unat n \<le> room \<Longrightarrow> unat n \<le> 2 ^ 63 \<Longrightarrow> bf_ok (pb_ostream_from_buffer room n)"
  "bf_fits k (pb_ostream_from_buffer room n) \<longleftrightarrow> k \<le> unat n"
  by (simp_all add: bf_ok_def bf_fits_def pb_ostream_from_buffer_def)

lemma sizing_sink: "sz_ok PB_OSTREAM_SIZING"
  by (simp add: sz_ok_def PB_OSTREAM_SIZING_def)

end
