(* ===== verification/PB_Encode.thy ===== *)
theory PB_Encode
  imports PB_Ostream
begin

text \<open>
  \<open>pb_encode.c\<close> from single fields to messages.  The C functions call each other in a cycle (a message
  encodes its fields, a submessage field encodes a message), so each is a definition with the
  message encoder as a parameter, and \<open>pb_encode\<close> ties the knot; its first argument bounds the depth
  of nested messages.  The encoder only reads the memory \<open>M\<close> that holds the message.
\<close>

type_synonym pb_encoder_t = "pb_field \<Rightarrow> addr \<Rightarrow> pb_ostream_t \<Rightarrow> (unit, pb_ostream_t) cres"
type_synonym msg_encoder_t = "pb_field list \<Rightarrow> addr \<Rightarrow> pb_ostream_t \<Rightarrow> (unit, pb_ostream_t) cres"

section \<open>Field encoders\<close>

definition safe_read_bool :: "memory \<Rightarrow> addr \<Rightarrow> bool option" where
  "safe_read_bool M p = map_option (\<lambda>b. b \<noteq> 0) (M p)"

definition pb_enc_bool :: "enc_user \<Rightarrow> memory \<Rightarrow> pb_encoder_t" where
  "pb_enc_bool E M field src s = (case safe_read_bool M src of None \<Rightarrow> None
     | Some b \<Rightarrow> pb_encode_varint E (if b then 1 else 0) s)"

text \<open>The integer at \<open>src\<close>, sign- or zero-extended from \<open>data_size\<close> bytes; \<open>Inl ()\<close> for another size.\<close>

definition read_signed :: "memory \<Rightarrow> addr \<Rightarrow> u32 \<Rightarrow> (unit + u64) option" where
  "read_signed M src data_size =
     (if data_size = 1 then map_option (\<lambda>w :: u8. Inr (scast w)) (load_word M src 1)
      else if data_size = 2 then map_option (\<lambda>w :: u16. Inr (scast w)) (load_word M src 2)
      else if data_size = 4 then map_option (\<lambda>w :: u32. Inr (scast w)) (load_word M src 4)
      else if data_size = 8 then map_option (\<lambda>w :: u64. Inr w) (load_word M src 8)
      else Some (Inl ()))"

definition read_unsigned :: "memory \<Rightarrow> addr \<Rightarrow> u32 \<Rightarrow> (unit + u64) option" where
  "read_unsigned M src data_size =
     (if data_size = 1 then map_option (\<lambda>w :: u8. Inr (ucast w)) (load_word M src 1)
      else if data_size = 2 then map_option (\<lambda>w :: u16. Inr (ucast w)) (load_word M src 2)
      else if data_size = 4 then map_option (\<lambda>w :: u32. Inr (ucast w)) (load_word M src 4)
      else if data_size = 8 then map_option (\<lambda>w :: u64. Inr w) (load_word M src 8)
      else Some (Inl ()))"

definition pb_enc_varint :: "enc_user \<Rightarrow> memory \<Rightarrow> pb_encoder_t" where
  "pb_enc_varint E M field src s = (case read_signed M src (f_data_size field) of None \<Rightarrow> None
     | Some (Inl _) \<Rightarrow> ret_oerror ''invalid data_size'' s
     | Some (Inr value) \<Rightarrow> pb_encode_varint E value s)"

definition pb_enc_uvarint :: "enc_user \<Rightarrow> memory \<Rightarrow> pb_encoder_t" where
  "pb_enc_uvarint E M field src s = (case read_unsigned M src (f_data_size field) of None \<Rightarrow> None
     | Some (Inl _) \<Rightarrow> ret_oerror ''invalid data_size'' s
     | Some (Inr value) \<Rightarrow> pb_encode_varint E value s)"

definition pb_enc_svarint :: "enc_user \<Rightarrow> memory \<Rightarrow> pb_encoder_t" where
  "pb_enc_svarint E M field src s = (case read_signed M src (f_data_size field) of None \<Rightarrow> None
     | Some (Inl _) \<Rightarrow> ret_oerror ''invalid data_size'' s
     | Some (Inr value) \<Rightarrow> pb_encode_svarint E value s)"

definition pb_enc_fixed64 :: "enc_user \<Rightarrow> memory \<Rightarrow> pb_encoder_t" where
  "pb_enc_fixed64 E M field src s = pb_encode_fixed64 E M src s"

definition pb_enc_fixed32 :: "enc_user \<Rightarrow> memory \<Rightarrow> pb_encoder_t" where
  "pb_enc_fixed32 E M field src s = pb_encode_fixed32 E M src s"

definition pb_enc_bytes :: "enc_user \<Rightarrow> memory \<Rightarrow> pb_encoder_t" where
  "pb_enc_bytes E M field src s =
     (if src = 0 then pb_encode_string E None 0 s
      else case load_u32 M src of None \<Rightarrow> None
        | Some n \<Rightarrow>
          let allocsize = PB_BYTES_ARRAY_T_ALLOCSIZE (ucast n) in
          if allocsize < ucast n \<or>
             (f_atype field = PB_ATYPE_STATIC \<and> ucast (f_data_size field) < allocsize)
          then ret_oerror ''bytes size exceeded'' s
          else pb_encode_string E (load_bytes M (src + BYTES_OFFSET) (unat n)) (ucast n) s)"

text \<open>The loop that stands in for \<open>strnlen\<close>.\<close>

definition strnlen_step :: "memory \<Rightarrow> addr \<Rightarrow> nat \<Rightarrow> nat \<Rightarrow> (nat + nat) option" where
  "strnlen_step M src limit n =
     (if n < limit
      then (case M (src + int n) of None \<Rightarrow> None
        | Some c \<Rightarrow> if c \<noteq> 0 then Some (Inr (Suc n)) else Some (Inl n))
      else Some (Inl n))"

definition pb_enc_string :: "enc_user \<Rightarrow> memory \<Rightarrow> pb_encoder_t" where
  "pb_enc_string E M field src s =
     (let limit = (if f_atype field = PB_ATYPE_POINTER then 2 ^ 64 - 1
                      else unat (f_data_size field))
      in case (if src = 0 then Some 0 else c_loop (strnlen_step M src limit) 0) of None \<Rightarrow> None
         | Some n \<Rightarrow> pb_encode_string E (load_bytes M src n) (word_of_nat n) s)"

definition pb_enc_fixed_length_bytes :: "enc_user \<Rightarrow> memory \<Rightarrow> pb_encoder_t" where
  "pb_enc_fixed_length_bytes E M field src s =
     pb_encode_string E (load_bytes M src (unat (f_data_size field))) (ucast (f_data_size field)) s"

text \<open>
  A submessage is encoded twice, first into a sizing stream, then into a substream of the size found.
\<close>

definition pb_encode_submessage :: "enc_user \<Rightarrow> msg_encoder_t \<Rightarrow> msg_encoder_t" where
  "pb_encode_submessage E enc fs src_struct s =
     (case enc fs src_struct PB_OSTREAM_SIZING of None \<Rightarrow> None
      | Some (None, sub) \<Rightarrow> c_false (s\<lparr>o_errmsg := o_errmsg sub\<rparr>)
      | Some (Some _, sub) \<Rightarrow>
        let n = bytes_written sub in
        c_bind (pb_encode_varint E n s) (\<lambda>_ s.
          if o_callback s = Sizing then pb_write E None n s
          else if max_size s < bytes_written s + n then ret_oerror ''stream full'' s
          else (case enc fs src_struct (s\<lparr>max_size := n, bytes_written := 0, o_errmsg := None\<rparr>) of
              None \<Rightarrow> None
            | Some (status, sub) \<Rightarrow>
              let s = s\<lparr>bytes_written := bytes_written s + bytes_written sub,
                        o_written := o_written sub, o_room := o_room sub, o_errmsg := o_errmsg sub\<rparr>
              in if bytes_written sub \<noteq> n then ret_oerror ''submsg size changed'' s
                 else Some (status, s))))"

definition pb_enc_submessage :: "enc_user \<Rightarrow> msg_encoder_t \<Rightarrow> pb_encoder_t" where
  "pb_enc_submessage E enc field src s = (case f_ptr field of
     NullPtr \<Rightarrow> ret_oerror ''invalid field descriptor'' s
   | FieldsPtr fs \<Rightarrow> pb_encode_submessage E enc fs src s
   | DataPtr _ \<Rightarrow> None)"

text \<open>The table \<open>PB_ENCODERS\<close>; the entry for extensions is null and there is none beyond 10.\<close>

definition PB_ENCODERS :: "enc_user \<Rightarrow> memory \<Rightarrow> msg_encoder_t \<Rightarrow> u8 \<Rightarrow> pb_encoder_t" where
  "PB_ENCODERS E M enc ltype =
     (if ltype = PB_LTYPE_BOOL then pb_enc_bool E M
      else if ltype = PB_LTYPE_VARINT then pb_enc_varint E M
      else if ltype = PB_LTYPE_UVARINT then pb_enc_uvarint E M
      else if ltype = PB_LTYPE_SVARINT then pb_enc_svarint E M
      else if ltype = PB_LTYPE_FIXED32 then pb_enc_fixed32 E M
      else if ltype = PB_LTYPE_FIXED64 then pb_enc_fixed64 E M
      else if ltype = PB_LTYPE_BYTES then pb_enc_bytes E M
      else if ltype = PB_LTYPE_STRING then pb_enc_string E M
      else if ltype = PB_LTYPE_SUBMESSAGE then pb_enc_submessage E enc
      else if ltype = PB_LTYPE_FIXED_LENGTH_BYTES then pb_enc_fixed_length_bytes E M
      else (\<lambda>field src s. None))"

section \<open>Arrays\<close>

text \<open>The loop \<open>for (i = 0; i < count; i++) { f(p); p += data_size; }\<close>.\<close>

fun array_loop :: "(addr \<Rightarrow> 's \<Rightarrow> (unit, 's) cres) \<Rightarrow> nat \<Rightarrow> int \<Rightarrow> addr \<Rightarrow> 's \<Rightarrow> (unit, 's) cres" where
  "array_loop f 0 d p s = c_true s"
| "array_loop f (Suc n) d p s = c_bind (f p s) (\<lambda>_ s. array_loop f n d (p + d) s)"

text \<open>The size of the packed data: known for fixed-width types, else found with a sizing stream.\<close>

definition packed_size :: "pb_field \<Rightarrow> addr \<Rightarrow> nat \<Rightarrow> pb_encoder_t \<Rightarrow> pb_ostream_t \<Rightarrow> (u64, pb_ostream_t) cres" where
  "packed_size field p count func s =
     (if f_ltype field = PB_LTYPE_FIXED32 then c_ret (4 * word_of_nat count) s
      else if f_ltype field = PB_LTYPE_FIXED64 then c_ret (8 * word_of_nat count) s
      else (case array_loop (func field) count (uint (f_data_size field)) p PB_OSTREAM_SIZING of
          None \<Rightarrow> None
        | Some (None, _) \<Rightarrow> c_false s
        | Some (Some _, sizestream) \<Rightarrow> c_ret (bytes_written sizestream) s))"

definition encode_array :: "enc_user \<Rightarrow> memory \<Rightarrow> pb_field \<Rightarrow> addr \<Rightarrow> nat \<Rightarrow> pb_encoder_t \<Rightarrow>
    pb_ostream_t \<Rightarrow> (unit, pb_ostream_t) cres" where
  "encode_array E M field p count func s =
     (if count = 0 then c_true s
      else if f_atype field \<noteq> PB_ATYPE_POINTER \<and> unat (f_array_size field) < count
      then ret_oerror ''array max size exceeded'' s
      else if f_ltype field \<le> PB_LTYPE_LAST_PACKABLE
      then c_bind (pb_encode_tag E PB_WT_STRING (f_tag field) s) (\<lambda>_ s.
           c_bind (packed_size field p count func s) (\<lambda>n s.
           c_bind (pb_encode_varint E n s) (\<lambda>_ s.
             if o_callback s = Sizing then pb_write E None n s
             else array_loop (func field) count (uint (f_data_size field)) p s)))
      else array_loop (\<lambda>p s. c_bind (pb_encode_tag_for_field E field s) (\<lambda>_ s.
             if f_atype field = PB_ATYPE_POINTER \<and>
                (f_ltype field = PB_LTYPE_STRING \<or> f_ltype field = PB_LTYPE_BYTES)
             then (case load_ptr M p of None \<Rightarrow> None | Some q \<Rightarrow> func field q s)
             else func field p s))
           count (uint (f_data_size field)) p s)"

section \<open>The proto3 zero check\<close>

fun all_zero :: "memory \<Rightarrow> addr \<Rightarrow> nat \<Rightarrow> bool option" where
  "all_zero M p 0 = Some True"
| "all_zero M p (Suc n) = (case M p of None \<Rightarrow> None
     | Some b \<Rightarrow> if b \<noteq> 0 then Some False else all_zero M (p + 1) n)"

text \<open>
  The part of \<open>pb_check_proto3_default_value\<close> that decides by the field rule; \<open>None\<close> falls through to
  the checks on the value.
\<close>

definition check_by_rule :: "memory \<Rightarrow> pb_field \<Rightarrow> addr \<Rightarrow> bool option option" where
  "check_by_rule M field p =
     (let ps = p + sint (f_size_offset field) in
      if f_htype field = PB_HTYPE_REQUIRED then Some (Some False)
      else if f_htype field = PB_HTYPE_REPEATED
      then if f_size_offset field \<noteq> 0 then Some (map_option (\<lambda>n. n = 0) (load_u32 M ps))
           else if f_atype field = PB_ATYPE_STATIC then Some (Some False)
           else None
      else if f_htype field = PB_HTYPE_ONEOF then Some (map_option (\<lambda>n. n = 0) (load_u32 M ps))
      else if f_htype field = PB_HTYPE_OPTIONAL \<and> f_size_offset field \<noteq> 0
      then Some (map_option Not (safe_read_bool M ps))
      else None)"

definition check_default_with :: "(pb_field \<Rightarrow> addr \<Rightarrow> bool option) \<Rightarrow> memory \<Rightarrow> pb_field \<Rightarrow> addr \<Rightarrow> bool option" where
  "check_default_with chk M field p =
     (case check_by_rule M field p of Some r \<Rightarrow> r
      | None \<Rightarrow>
        if f_atype field = PB_ATYPE_STATIC \<and> f_ltype field = PB_LTYPE_BYTES
        then map_option (\<lambda>n. n = 0) (load_u32 M p)
        else if f_atype field = PB_ATYPE_STATIC \<and> f_ltype field = PB_LTYPE_STRING
        then map_option (\<lambda>c. c = 0) (M p)
        else if f_atype field = PB_ATYPE_STATIC \<and> f_ltype field = PB_LTYPE_FIXED_LENGTH_BYTES
        then Some (f_data_size field = 0)
        else if f_atype field = PB_ATYPE_STATIC \<and> f_ltype field = PB_LTYPE_SUBMESSAGE
        then (case f_ptr field of
            FieldsPtr fs \<Rightarrow>
              let (nonempty, it) = pb_field_iter_begin fs p in
              if nonempty
              then map_option (\<lambda>(r, s). r \<noteq> None)
                (iter_loop (\<lambda>it s. case chk (it_field it) (pData it) of None \<Rightarrow> None
                   | Some b \<Rightarrow> if b then c_true s else c_false s) it ())
              else Some True
          | _ \<Rightarrow> None)
        else if f_atype field = PB_ATYPE_POINTER \<and> PB_LTYPE_LAST_PACKABLE < f_ltype field
        then map_option (\<lambda>q. q = 0) (load_ptr M p)
        else all_zero M p (unat (f_data_size field)))"

primrec pb_check_proto3_default_value :: "nat \<Rightarrow> memory \<Rightarrow> pb_field \<Rightarrow> addr \<Rightarrow> bool option" where
  "pb_check_proto3_default_value 0 = (\<lambda>M field p. None)"
| "pb_check_proto3_default_value (Suc n) =
     (\<lambda>M. check_default_with (pb_check_proto3_default_value n M) M)"

section \<open>Fields\<close>

text \<open>
  Where \<open>pSize\<close> points: to the local \<open>implicit_has\<close>, whose value is given, or into the message.
\<close>

definition implicit_has :: "(pb_field \<Rightarrow> addr \<Rightarrow> bool option) \<Rightarrow> pb_field \<Rightarrow> addr \<Rightarrow> bool option" where
  "implicit_has chk field p =
     (if f_size_offset field \<noteq> 0 then Some False
      else if f_htype field = PB_HTYPE_OPTIONAL then map_option Not (chk field p)
      else Some True)"

definition encode_basic_field :: "enc_user \<Rightarrow> memory \<Rightarrow> (pb_field \<Rightarrow> addr \<Rightarrow> bool option) \<Rightarrow>
    msg_encoder_t \<Rightarrow> pb_encoder_t" where
  "encode_basic_field E M chk enc field p s =
     (let func = PB_ENCODERS E M enc (f_ltype field);
          ps = p + sint (f_size_offset field)
      in case implicit_has chk field p of None \<Rightarrow> None
      | Some has \<Rightarrow>
        (case (if f_atype field = PB_ATYPE_POINTER
               then map_option (\<lambda>q. (q, q \<noteq> 0)) (load_ptr M p) else Some (p, has)) of None \<Rightarrow> None
         | Some (p, has) \<Rightarrow>
           if f_htype field = PB_HTYPE_REQUIRED
           then if p = 0 then ret_oerror ''missing required field'' s
                else c_bind (pb_encode_tag_for_field E field s) (\<lambda>_ s. func field p s)
           else if f_htype field = PB_HTYPE_OPTIONAL
           then (case (if f_size_offset field \<noteq> 0 then safe_read_bool M ps else Some has) of
               None \<Rightarrow> None
             | Some present \<Rightarrow>
               if present then c_bind (pb_encode_tag_for_field E field s) (\<lambda>_ s. func field p s)
               else c_true s)
           else if f_htype field = PB_HTYPE_REPEATED
           then (case (if f_size_offset field \<noteq> 0 then load_u32 M ps
                       else Some (f_array_size field)) of None \<Rightarrow> None
             | Some count \<Rightarrow> encode_array E M field p (unat count) func s)
           else \<comment> \<open>\<open>PB_HTYPE_ONEOF\<close>; without a \<open>which_\<close> member the read is out of bounds\<close>
             (if f_size_offset field = 0 then None
              else case load_u32 M ps of None \<Rightarrow> None
              | Some which \<Rightarrow>
                if which = f_tag field
                then c_bind (pb_encode_tag_for_field E field s) (\<lambda>_ s. func field p s)
                else c_true s)))"

definition encode_callback_field :: "enc_user \<Rightarrow> memory \<Rightarrow> pb_encoder_t" where
  "encode_callback_field E M field p s = (case load_ptr M (p + CB_FUNCS) of None \<Rightarrow> None
     | Some fn \<Rightarrow>
       if fn \<noteq> 0
       then (case u_encode E fn field (p + CB_ARG) M s of None \<Rightarrow> None
         | Some (None, s) \<Rightarrow> ret_oerror ''callback error'' s
         | Some (Some _, s) \<Rightarrow> c_true s)
       else c_true s)"

definition encode_field :: "enc_user \<Rightarrow> memory \<Rightarrow> (pb_field \<Rightarrow> addr \<Rightarrow> bool option) \<Rightarrow>
    msg_encoder_t \<Rightarrow> pb_encoder_t" where
  "encode_field E M chk enc field p s =
     (if f_atype field = PB_ATYPE_STATIC \<or> f_atype field = PB_ATYPE_POINTER
      then encode_basic_field E M chk enc field p s
      else if f_atype field = PB_ATYPE_CALLBACK then encode_callback_field E M field p s
      else ret_oerror ''invalid field type'' s)"

definition default_extension_encoder :: "enc_user \<Rightarrow> memory \<Rightarrow> (pb_field \<Rightarrow> addr \<Rightarrow> bool option) \<Rightarrow>
    msg_encoder_t \<Rightarrow> addr \<Rightarrow> pb_ostream_t \<Rightarrow> (unit, pb_ostream_t) cres" where
  "default_extension_encoder E M chk enc extension s =
     (case Option.bind (load_ptr M (extension + EXT_TYPE)) (e_ext_type E) of None \<Rightarrow> None
      | Some et \<Rightarrow>
        let field = et_arg et in
        if f_atype field = PB_ATYPE_POINTER
        then encode_field E M chk enc field (extension + EXT_DEST) s
        else (case load_ptr M (extension + EXT_DEST) of None \<Rightarrow> None
          | Some dest \<Rightarrow> encode_field E M chk enc field dest s))"

definition ext_encode_step :: "enc_user \<Rightarrow> memory \<Rightarrow> (pb_field \<Rightarrow> addr \<Rightarrow> bool option) \<Rightarrow>
    msg_encoder_t \<Rightarrow> addr \<times> pb_ostream_t \<Rightarrow>
    ((unit option \<times> pb_ostream_t) + (addr \<times> pb_ostream_t)) option" where
  "ext_encode_step E M chk enc x = (case x of (extension, s) \<Rightarrow>
     if extension = 0 then Some (Inl (Some (), s))
     else (case Option.bind (load_ptr M (extension + EXT_TYPE)) (e_ext_type E) of None \<Rightarrow> None
       | Some et \<Rightarrow>
         (case (if et_encode et \<noteq> 0 then u_ext_encode E (et_encode et) extension M s
                else default_extension_encoder E M chk enc extension s) of None \<Rightarrow> None
          | Some (None, s) \<Rightarrow> Some (Inl (None, s))
          | Some (Some _, s) \<Rightarrow>
            (case load_ptr M (extension + EXT_NEXT) of None \<Rightarrow> None
             | Some next \<Rightarrow> Some (Inr (next, s))))))"

definition encode_extension_field :: "enc_user \<Rightarrow> memory \<Rightarrow> (pb_field \<Rightarrow> addr \<Rightarrow> bool option) \<Rightarrow>
    msg_encoder_t \<Rightarrow> pb_encoder_t" where
  "encode_extension_field E M chk enc field p s = (case load_ptr M p of None \<Rightarrow> None
     | Some extension \<Rightarrow> c_loop (ext_encode_step E M chk enc) (extension, s))"

section \<open>Messages\<close>

definition pb_encode_with :: "enc_user \<Rightarrow> memory \<Rightarrow> (pb_field \<Rightarrow> addr \<Rightarrow> bool option) \<Rightarrow>
    msg_encoder_t \<Rightarrow> msg_encoder_t" where
  "pb_encode_with E M chk enc fs src_struct s =
     (let (nonempty, it) = pb_field_iter_begin fs src_struct in
      if nonempty
      then iter_loop (\<lambda>it s.
          if f_ltype (it_field it) = PB_LTYPE_EXTENSION
          then encode_extension_field E M chk enc (it_field it) (pData it) s
          else encode_field E M chk enc (it_field it) (pData it) s) it s
      else c_true s)"

primrec pb_encode :: "nat \<Rightarrow> enc_user \<Rightarrow> memory \<Rightarrow> msg_encoder_t" where
  "pb_encode 0 = (\<lambda>E M fs src s. None)"
| "pb_encode (Suc n) =
     (\<lambda>E M. pb_encode_with E M (pb_check_proto3_default_value n M) (pb_encode n E M))"

definition pb_encode_delimited :: "nat \<Rightarrow> enc_user \<Rightarrow> memory \<Rightarrow> msg_encoder_t" where
  "pb_encode_delimited n E M fs src_struct s = pb_encode_submessage E (pb_encode n E M) fs src_struct s"

definition pb_encode_nullterminated :: "nat \<Rightarrow> enc_user \<Rightarrow> memory \<Rightarrow> msg_encoder_t" where
  "pb_encode_nullterminated n E M fs src_struct s =
     c_bind (pb_encode n E M fs src_struct s) (\<lambda>_ s. pb_write E (Some [0]) 1 s)"

definition pb_get_encoded_size :: "nat \<Rightarrow> enc_user \<Rightarrow> memory \<Rightarrow> pb_field list \<Rightarrow> addr \<Rightarrow> u64 option option" where
  "pb_get_encoded_size n E M fs src_struct =
     map_option (\<lambda>(r, s). map_option (\<lambda>_. bytes_written s) r)
       (pb_encode n E M fs src_struct PB_OSTREAM_SIZING)"

end
