(* ===== verification/PB_Wire.thy ===== *)
theory PB_Wire
  imports PB_Sink PB_Encode
begin

text \<open>
  The bytes a message stands for, as a function of the memory that holds it and of nothing else, and
  the proof that the encoder of \<open>pb_encode.c\<close> emits these bytes on sizing and on buffer streams.
  Fields whose encoding is up to user code (callbacks, extensions) have no specified bytes.
\<close>

section \<open>Specified output\<close>

text \<open>
  \<open>Some (bs, ok)\<close>: the bytes, and whether the encoding succeeds after them; \<open>None\<close>: unspecified.
\<close>

type_synonym wire = "(u8 list \<times> bool) option"

definition w_out :: "u8 list \<Rightarrow> wire" where
  "w_out bs = Some (bs, True)"

definition w_fail :: wire where
  "w_fail = Some ([], False)"

definition w_then :: "wire \<Rightarrow> wire \<Rightarrow> wire" where
  "w_then a b = (case a of None \<Rightarrow> None
     | Some (bs, ok) \<Rightarrow> if ok then map_option (\<lambda>(cs, ok'). (bs @ cs, ok')) b else Some (bs, False))"

definition w_string :: "u8 list option \<Rightarrow> wire" where
  "w_string b = (case b of None \<Rightarrow> None | Some bs \<Rightarrow> w_out (varint_bytes (length bs) @ bs))"

text \<open>A length and the bytes it announces; nothing is written when these have no encoding.\<close>

definition w_delimited :: "wire \<Rightarrow> wire" where
  "w_delimited w = (case w of None \<Rightarrow> None
     | Some (bs, ok) \<Rightarrow> if \<not> ok then w_fail
         else if 2 ^ 63 \<le> int (length bs) then None else w_out (varint_bytes (length bs) @ bs))"

section \<open>Values\<close>

definition wire_int :: "(u64 \<Rightarrow> u64) \<Rightarrow> (unit + u64) option \<Rightarrow> wire" where
  "wire_int f v = (case v of None \<Rightarrow> None | Some (Inl _) \<Rightarrow> w_fail
     | Some (Inr v) \<Rightarrow> w_out (varint_bytes (unat (f v))))"

text \<open>The characters up to a terminator or a limit.\<close>

fun c_string :: "memory \<Rightarrow> addr \<Rightarrow> nat \<Rightarrow> u8 list option" where
  "c_string M p 0 = Some []"
| "c_string M p (Suc n) = (case M p of None \<Rightarrow> None
     | Some c \<Rightarrow> if c = 0 then Some [] else map_option ((#) c) (c_string M (p + 1) n))"

definition wire_bytes :: "memory \<Rightarrow> pb_field \<Rightarrow> addr \<Rightarrow> wire" where
  "wire_bytes M field p =
     (if p = 0 then w_string (Some [])
      else case load_u32 M p of None \<Rightarrow> None
      | Some n \<Rightarrow> if f_atype field = PB_ATYPE_STATIC \<and> unat (f_data_size field) < unat n + 4 then w_fail
                 else w_string (load_bytes M (p + BYTES_OFFSET) (unat n)))"

definition wire_value :: "memory \<Rightarrow> (pb_field list \<Rightarrow> addr \<Rightarrow> wire) \<Rightarrow> pb_field \<Rightarrow> addr \<Rightarrow> wire" where
  "wire_value M sub field p =
     (let t = f_ltype field in
      if t = PB_LTYPE_BOOL then map_option (\<lambda>b. ([if b \<noteq> 0 then 1 else 0], True)) (M p)
      else if t = PB_LTYPE_VARINT then wire_int id (read_signed M p (f_data_size field))
      else if t = PB_LTYPE_UVARINT then wire_int id (read_unsigned M p (f_data_size field))
      else if t = PB_LTYPE_SVARINT then wire_int zigzag (read_signed M p (f_data_size field))
      else if t = PB_LTYPE_FIXED32 then map_option (\<lambda>bs. (bs, True)) (load_bytes M p 4)
      else if t = PB_LTYPE_FIXED64 then map_option (\<lambda>bs. (bs, True)) (load_bytes M p 8)
      else if t = PB_LTYPE_BYTES then wire_bytes M field p
      else if t = PB_LTYPE_STRING then
        w_string (if p = 0 then Some [] else
          c_string M p (if f_atype field = PB_ATYPE_POINTER then 2 ^ 64 - 1 else unat (f_data_size field)))
      else if t = PB_LTYPE_SUBMESSAGE then
        (case f_ptr field of NullPtr \<Rightarrow> w_fail | FieldsPtr fs \<Rightarrow> w_delimited (sub fs p) | DataPtr _ \<Rightarrow> None)
      else if t = PB_LTYPE_FIXED_LENGTH_BYTES then w_string (load_bytes M p (unat (f_data_size field)))
      else None)"

section \<open>Fields and messages\<close>

definition wire_key :: "pb_wire_type_t \<Rightarrow> u32 \<Rightarrow> u8 list" where
  "wire_key wt tag = varint_bytes (8 * unat tag + unat wt)"

definition wire_field_key :: "pb_field \<Rightarrow> wire" where
  "wire_field_key field = (case wire_type_of (f_ltype field) of None \<Rightarrow> w_fail
     | Some wt \<Rightarrow> w_out (wire_key wt (f_tag field)))"

fun wire_items :: "(addr \<Rightarrow> wire) \<Rightarrow> nat \<Rightarrow> int \<Rightarrow> addr \<Rightarrow> wire" where
  "wire_items w 0 d p = w_out []"
| "wire_items w (Suc n) d p = w_then (w p) (wire_items w n d (p + d))"

definition wire_array :: "memory \<Rightarrow> (pb_field \<Rightarrow> addr \<Rightarrow> wire) \<Rightarrow> pb_field \<Rightarrow> addr \<Rightarrow> nat \<Rightarrow> wire" where
  "wire_array M v field p count =
     (let d = uint (f_data_size field) in
      if count = 0 then w_out []
      else if f_atype field \<noteq> PB_ATYPE_POINTER \<and> unat (f_array_size field) < count then w_fail
      else if f_ltype field \<le> PB_LTYPE_LAST_PACKABLE
      then w_then (w_out (wire_key PB_WT_STRING (f_tag field))) (w_delimited (wire_items (v field) count d p))
      else wire_items (\<lambda>p. w_then (wire_field_key field)
             (if f_atype field = PB_ATYPE_POINTER \<and>
                 (f_ltype field = PB_LTYPE_STRING \<or> f_ltype field = PB_LTYPE_BYTES)
              then Option.bind (load_ptr M p) (v field) else v field p)) count d p)"

definition wire_basic :: "memory \<Rightarrow> (pb_field \<Rightarrow> addr \<Rightarrow> bool option) \<Rightarrow> (pb_field \<Rightarrow> addr \<Rightarrow> wire) \<Rightarrow>
    pb_field \<Rightarrow> addr \<Rightarrow> wire" where
  "wire_basic M chk v field p = do {
     has \<leftarrow> implicit_has chk field p;
     q \<leftarrow> (if f_atype field = PB_ATYPE_POINTER then load_ptr M p else Some p);
     let has = (if f_atype field = PB_ATYPE_POINTER then q \<noteq> 0 else has);
     let ps = p + sint (f_size_offset field);
     let item = w_then (wire_field_key field) (v field q);
     if f_htype field = PB_HTYPE_REQUIRED then (if q = 0 then w_fail else item)
     else if f_htype field = PB_HTYPE_OPTIONAL then do {
       present \<leftarrow> (if f_size_offset field \<noteq> 0 then safe_read_bool M ps else Some has);
       if present then item else w_out []
     }
     else if f_htype field = PB_HTYPE_REPEATED then do {
       count \<leftarrow> (if f_size_offset field \<noteq> 0 then load_u32 M ps else Some (f_array_size field));
       wire_array M v field q (unat count)
     }
     else if f_size_offset field = 0 then None
     else do {
       which \<leftarrow> load_u32 M ps;
       if which = f_tag field then item else w_out []
     }
   }"

definition wire_field :: "memory \<Rightarrow> (pb_field \<Rightarrow> addr \<Rightarrow> bool option) \<Rightarrow> (pb_field \<Rightarrow> addr \<Rightarrow> wire) \<Rightarrow>
    pb_field \<Rightarrow> addr \<Rightarrow> wire" where
  "wire_field M chk v field p =
     (if f_ltype field = PB_LTYPE_EXTENSION
      then do { ext \<leftarrow> load_ptr M p; if ext = 0 then w_out [] else None }
      else if f_atype field = PB_ATYPE_STATIC \<or> f_atype field = PB_ATYPE_POINTER
      then wire_basic M chk v field p
      else if f_atype field = PB_ATYPE_CALLBACK
      then do { fn \<leftarrow> load_ptr M (p + CB_FUNCS); if fn = 0 then w_out [] else None }
      else w_fail)"

fun wire_fields :: "(pb_field \<Rightarrow> addr \<Rightarrow> wire) \<Rightarrow> pb_field list \<Rightarrow> addr \<Rightarrow> nat list \<Rightarrow> wire" where
  "wire_fields w fs base [] = w_out []"
| "wire_fields w fs base (i # is) =
     w_then (w (field_at fs i) (base + fst (field_ptrs fs i))) (wire_fields w fs base is)"

primrec wire_message :: "nat \<Rightarrow> memory \<Rightarrow> pb_field list \<Rightarrow> addr \<Rightarrow> wire" where
  "wire_message 0 = (\<lambda>M fs base. None)"
| "wire_message (Suc n) = (\<lambda>M fs base.
     wire_fields (wire_field M (pb_check_proto3_default_value n M) (wire_value M (wire_message n M)))
       fs base [0..<n_fields fs])"

section \<open>Implementing specified output\<close>

definition implements :: "(pb_ostream_t \<Rightarrow> (unit, pb_ostream_t) cres) \<Rightarrow> wire \<Rightarrow> bool" where
  "implements f w \<longleftrightarrow> (\<forall>bs ok. w = Some (bs, ok) \<longrightarrow>
     emits_on sz_ok sz_fits sz_put f bs ok \<and> emits_on bf_ok bf_fits bf_put f bs ok)"

lemma implementsD:
  "implements f w \<Longrightarrow> w = Some (bs, ok) \<Longrightarrow>
   emits_on sz_ok sz_fits sz_put f bs ok \<and> emits_on bf_ok bf_fits bf_put f bs ok"
  by (simp only: implements_def)

lemma implements_None [simp, intro]: "implements f None"
  by (simp add: implements_def)

lemma implements_fail [simp, intro]: "implements (ret_oerror msg) w_fail"
  by (simp add: implements_def w_fail_def sz.emits_fail bf.emits_fail)

lemma implements_true [simp, intro]: "implements c_true (w_out [])"
  by (simp add: implements_def w_out_def sz.emits_true bf.emits_true)

lemma implements_out: "length bs = unat n \<Longrightarrow> implements (pb_write E (Some bs) n) (w_out bs)"
  by (simp add: implements_def w_out_def sz.emits_write bf.emits_write)

lemma implements_varint [simp, intro]: "implements (pb_encode_varint E v) (w_out (varint_bytes (unat v)))"
  by (simp add: implements_def w_out_def sz.emits_varint bf.emits_varint)

lemma implements_bind:
  assumes "implements f a" "implements g b"
  shows "implements (\<lambda>s. c_bind (f s) (\<lambda>_ s. g s)) (w_then a b)"
  unfolding implements_def
proof (intro allI impI)
  fix bs ok assume w: "w_then a b = Some (bs, ok)"
  then obtain xs ok1 where a: "a = Some (xs, ok1)" by (auto simp: w_then_def split: option.splits)
  show "emits_on sz_ok sz_fits sz_put (\<lambda>s. c_bind (f s) (\<lambda>_ s. g s)) bs ok \<and>
        emits_on bf_ok bf_fits bf_put (\<lambda>s. c_bind (f s) (\<lambda>_ s. g s)) bs ok"
  proof (cases ok1)
    case True
    then obtain ys ok2 where b: "b = Some (ys, ok2)" "bs = xs @ ys" "ok = ok2"
      using w a by (auto simp: w_then_def)
    have "sz.emits f xs True" "bf.emits f xs True" "sz.emits g ys ok2" "bf.emits g ys ok2"
      using assms a b(1) True unfolding implements_def by auto
    then show ?thesis
      using sz.emits_bind [of f xs True g ys ok2] bf.emits_bind [of f xs True g ys ok2] b by simp
  next
    case False
    with w a have "bs = xs" "\<not> ok" by (auto simp: w_then_def)
    have "sz.emits f xs False" "bf.emits f xs False"
      using assms(1) a False unfolding implements_def by auto
    with \<open>bs = xs\<close> \<open>\<not> ok\<close> show ?thesis
      using sz.emits_bind [of f xs False g "[]" False] bf.emits_bind [of f xs False g "[]" False]
      by simp
  qed
qed

lemma implements_bind_eq:
  "h = (\<lambda>s. c_bind (f s) (\<lambda>_ s. g s)) \<Longrightarrow> implements f a \<Longrightarrow> implements g b \<Longrightarrow>
   implements h (w_then a b)"
  by (simp add: implements_bind)

lemma w_then_out: "w_then (w_out xs) (w_out ys) = w_out (xs @ ys)"
  by (simp add: w_then_def w_out_def)

lemma implements_string:
  assumes "\<And>bs. b = Some bs \<Longrightarrow> length bs = unat n"
  shows "implements (pb_encode_string E b n) (w_string b)"
proof (cases b)
  case (Some bs)
  then have "w_string b = w_then (w_out (varint_bytes (unat n))) (w_out bs)"
    using assms by (simp add: w_string_def w_then_out)
  then show ?thesis
    using implements_bind [OF implements_varint implements_out [of bs n E], of E n] assms Some
    by (simp add: pb_encode_string_def [abs_def])
qed (simp add: w_string_def)

section \<open>The value encoders\<close>

lemma implements_fixed32:
  "implements (pb_encode_fixed32 E M p) (map_option (\<lambda>bs. (bs, True)) (load_bytes M p 4))"
proof (cases "load_bytes M p 4")
  case (Some bs)
  have n: "length bs = 4" using load_bytes_length [OF Some] .
  then have "fixed32_bytes (word_le bs) = bs"
    using bytes_le_word_le [of bs, where 'a = 32] by (simp only: fixed32_bytes_eq) simp
  with Some implements_out [of bs 4 E] n show ?thesis
    by (simp add: pb_encode_fixed32_def [abs_def] load_word_def w_out_def)
qed simp

lemma implements_fixed64:
  "implements (pb_encode_fixed64 E M p) (map_option (\<lambda>bs. (bs, True)) (load_bytes M p 8))"
proof (cases "load_bytes M p 8")
  case (Some bs)
  have n: "length bs = 8" using load_bytes_length [OF Some] .
  then have "fixed64_bytes (word_le bs) = bs"
    using bytes_le_word_le [of bs, where 'a = 64] by (simp only: fixed64_bytes_eq) simp
  with Some implements_out [of bs 8 E] n show ?thesis
    by (simp add: pb_encode_fixed64_def [abs_def] load_word_def w_out_def)
qed simp

lemma implements_int:
  "implements (\<lambda>s. case v of None \<Rightarrow> None | Some (Inl _) \<Rightarrow> ret_oerror msg s
     | Some (Inr v) \<Rightarrow> pb_encode_varint E (f v) s) (wire_int f v)"
  by (cases v) (auto simp: wire_int_def split: sum.split)

lemma implements_bool:
  "implements (pb_enc_bool E M field p) (map_option (\<lambda>b. ([if b \<noteq> 0 then 1 else 0], True)) (M p))"
proof (cases "M p")
  case (Some b)
  have "varint_bytes 0 = [0]" "varint_bytes (Suc 0) = [1]" by (simp_all add: varint_bytes.simps)
  with Some implements_varint [of E "if b \<noteq> 0 then 1 else 0"] show ?thesis
    by (auto simp: pb_enc_bool_def [abs_def] safe_read_bool_def w_out_def split: if_splits)
qed simp

lemma write_0: "pb_write E b 0 = pb_write E (Some []) 0"
  by (rule ext) (simp add: pb_write_def)

lemma implements_string_0: "implements (pb_encode_string E b 0) (w_string (Some []))"
  using implements_string [of "Some []" 0 E]
  by (simp add: pb_encode_string_def [abs_def] write_0 [of E b])

lemma allocsize: "unat (PB_BYTES_ARRAY_T_ALLOCSIZE (ucast (n :: u32))) = unat n + 4"
proof -
  have "unat (ucast n + 4 :: u64) = unat (ucast n :: u64) + unat (4 :: u64)"
    by (rule unat_plus_simple [THEN iffD1])
      (use unat_u32_less [of n] in \<open>simp add: word_le_nat_alt unat_plus_if_size word_size\<close>)
  then show ?thesis by (simp add: PB_BYTES_ARRAY_T_ALLOCSIZE_def BYTES_OFFSET_def)
qed

lemma implements_bytes: "implements (pb_enc_bytes E M field p) (wire_bytes M field p)"
proof (cases "p = 0 \<or> load_u32 M p = None")
  case True
  then show ?thesis
    using implements_string_0 [of E None]
    by (cases "p = 0") (simp_all add: pb_enc_bytes_def [abs_def] wire_bytes_def)
next
  case False
  then obtain n where n: "load_u32 M p = Some n" and p: "(p = 0) = False" by auto
  have check: "(PB_BYTES_ARRAY_T_ALLOCSIZE (ucast n) < ucast n \<or>
      f_atype field = PB_ATYPE_STATIC \<and> ucast (f_data_size field) < PB_BYTES_ARRAY_T_ALLOCSIZE (ucast n))
    \<longleftrightarrow> f_atype field = PB_ATYPE_STATIC \<and> unat (f_data_size field) < unat n + 4"
    by (simp add: word_less_nat_alt allocsize)
  have "implements (pb_encode_string E (load_bytes M (p + BYTES_OFFSET) (unat n)) (ucast n))
      (w_string (load_bytes M (p + BYTES_OFFSET) (unat n)))"
    by (rule implements_string) (simp add: load_bytes_length)
  then show ?thesis
    unfolding pb_enc_bytes_def [abs_def] wire_bytes_def n option.case Let_def check p
    by (cases "f_atype field = PB_ATYPE_STATIC \<and> unat (f_data_size field) < unat n + 4")
      (simp_all only: if_True if_False simp_thms implements_fail)
qed

lemma strnlen_loop:
  "n \<le> limit \<Longrightarrow> c_loop (strnlen_step M p limit) n =
     map_option (\<lambda>bs. n + length bs) (c_string M (p + int n) (limit - n))"
proof (induction "limit - n" arbitrary: n)
  case 0
  then show ?case by (simp add: c_loop_unfold strnlen_step_def)
next
  case (Suc k)
  then have l: "limit - n = Suc (limit - Suc n)" "k = limit - Suc n" "n < limit" by simp_all
  show ?case
  proof (cases "M (p + int n)")
    case None
    with l show ?thesis by (simp add: c_loop_unfold strnlen_step_def)
  next
    case (Some c)
    show ?thesis
    proof (cases "c = 0")
      case False
      have "c_loop (strnlen_step M p limit) (Suc n) =
          map_option (\<lambda>bs. Suc n + length bs) (c_string M (p + int (Suc n)) (limit - Suc n))"
        using l by (intro Suc.hyps) simp_all
      with Some False l show ?thesis
        by (simp add: c_loop_unfold strnlen_step_def option.map_comp comp_def ac_simps)
    qed (use Some l in \<open>simp add: c_loop_unfold strnlen_step_def\<close>)
  qed
qed

lemma c_string_load: "c_string M p n = Some bs \<Longrightarrow> load_bytes M p (length bs) = Some bs \<and> length bs \<le> n"
  by (induction n arbitrary: p bs) (fastforce split: option.splits if_splits)+

lemma implements_c_string:
  "limit < 2 ^ 64 \<Longrightarrow>
   implements (\<lambda>s. case c_loop (strnlen_step M p limit) 0 of None \<Rightarrow> None
     | Some n \<Rightarrow> pb_encode_string E (load_bytes M p n) (word_of_nat n) s)
   (w_string (c_string M p limit))"
proof (cases "c_string M p limit")
  case (Some bs)
  assume "limit < 2 ^ 64"
  with c_string_load [OF Some] have "unat (word_of_nat (length bs) :: u64) = length bs"
    by (intro unat_of_nat_64) simp
  then show ?thesis
    using strnlen_loop [of 0 limit M p] Some c_string_load [OF Some]
      implements_string [of "Some bs" "word_of_nat (length bs)" E] by simp
qed (simp add: w_string_def)

lemma implements_fixed_length:
  "implements (pb_enc_fixed_length_bytes E M field p) (w_string (load_bytes M p (unat (f_data_size field))))"
  unfolding pb_enc_fixed_length_bytes_def [abs_def]
  by (rule implements_string) (simp add: load_bytes_length)

lemma implements_string_field:
  "implements (pb_enc_string E M field p)
    (w_string (if p = 0 then Some [] else
       c_string M p (if f_atype field = PB_ATYPE_POINTER then 2 ^ 64 - 1 else unat (f_data_size field))))"
proof (cases "p = 0")
  case True
  then show ?thesis using implements_string_0 [of E "Some []"] by (simp add: pb_enc_string_def [abs_def])
next
  case False
  let ?limit = "if f_atype field = PB_ATYPE_POINTER then 2 ^ 64 - 1 else unat (f_data_size field) :: nat"
  have "?limit < 2 ^ 64" using unat_u32_less [of "f_data_size field"] by simp
  from implements_c_string [OF this, of E M p] False show ?thesis
    by (simp only: pb_enc_string_def [abs_def] Let_def if_False)
qed

section \<open>Submessages\<close>

text \<open>
  A submessage is sized first; so the second pass, into a substream of exactly that size, always fits,
  and the check for a changed size never fires.
\<close>

lemma implements_abort: "implements (\<lambda>s. c_false (s\<lparr>o_errmsg := m\<rparr>)) w_fail"
  unfolding implements_def w_fail_def
  by (auto intro!: sz.emitsI bf.emitsI
    simp: c_false_def sz.put_Nil bf.put_Nil sz.fits_0 bf.fits_0 intro!: exI [of _ m])

lemma implements_false: "implements c_false w_fail"
proof -
  have "sz.emits c_false [] False"
  proof (rule sz.emitsI)
    fix s assume "sz_ok s"
    then show "\<exists>k m. k \<le> length [] \<and> sz_fits k s \<and>
        c_false s = Some (None, (sz_put (take k []) s)\<lparr>o_errmsg := m\<rparr>)"
      by (intro exI [of _ 0] exI [of _ "o_errmsg s"]) (simp add: sz.put_Nil sz.fits_0 c_false_def)
  qed simp
  moreover have "bf.emits c_false [] False"
  proof (rule bf.emitsI)
    fix s assume "bf_ok s"
    then show "\<exists>k m. k \<le> length [] \<and> bf_fits k s \<and>
        c_false s = Some (None, (bf_put (take k []) s)\<lparr>o_errmsg := m\<rparr>)"
      by (intro exI [of _ 0] exI [of _ "o_errmsg s"]) (simp add: bf.put_Nil bf.fits_0 c_false_def)
  qed simp
  ultimately show ?thesis by (simp add: implements_def w_fail_def)
qed

lemma bf_substream:
  assumes s: "bf_ok s" and n: "n < 2 ^ 63"
  shows "max_size s < bytes_written s + word_of_nat n \<longleftrightarrow> \<not> bf_fits n s"
    and "bf_fits n s \<Longrightarrow> bf_ok (s\<lparr>max_size := word_of_nat n, bytes_written := 0, o_errmsg := None\<rparr>)"
    and "bf_fits n (s\<lparr>max_size := word_of_nat n, bytes_written := 0, o_errmsg := None\<rparr>)"
proof -
  have u: "unat (word_of_nat n :: u64) = n" using n by (intro unat_of_nat_64) simp
  have "unat (bytes_written s) + n < 2 ^ 64" using s n by (simp add: bf_ok_def)
  then have "unat (bytes_written s + word_of_nat n) = unat (bytes_written s) + n"
    by (subst unat_plus_if_size) (simp add: u word_size)
  then show "max_size s < bytes_written s + word_of_nat n \<longleftrightarrow> \<not> bf_fits n s"
    by (simp add: word_less_nat_alt bf_fits_def not_le)
  show "bf_fits n s \<Longrightarrow> bf_ok (s\<lparr>max_size := word_of_nat n, bytes_written := 0, o_errmsg := None\<rparr>)"
    using s n u by (simp add: bf_ok_def bf_fits_def)
  show "bf_fits n (s\<lparr>max_size := word_of_nat n, bytes_written := 0, o_errmsg := None\<rparr>)"
    by (simp add: bf_fits_def u)
qed

lemma implements_submessage:
  assumes enc: "implements (enc fs p) w"
  shows "implements (pb_encode_submessage E enc fs p) (w_delimited w)"
proof (cases w)
  case None
  then show ?thesis by (simp add: w_delimited_def)
next
  case (Some x)
  obtain bs ok where w: "w = Some (bs, ok)" using Some by (cases x) simp
  have sz: "sz.emits (enc fs p) bs ok" and bf: "bf.emits (enc fs p) bs ok"
    using enc w unfolding implements_def by blast+
  consider "\<not> ok" | "ok" "2 ^ 63 \<le> length bs" | "ok" "length bs < 2 ^ 63" by linarith
  then show ?thesis
  proof cases
    case 1
    then obtain k m where "enc fs p PB_OSTREAM_SIZING =
        Some (None, (sz_put (take k bs) PB_OSTREAM_SIZING)\<lparr>o_errmsg := m\<rparr>)"
      using sz.emits_no [OF sz sizing_sink] by blast
    with 1 w show ?thesis
      using implements_abort [of m] by (simp add: pb_encode_submessage_def [abs_def] w_delimited_def)
  next
    case 2
    then have "2 ^ 63 \<le> int (length bs)" by simp
    with 2 w show ?thesis by (simp add: w_delimited_def)
  next
    case 3
    let ?n = "word_of_nat (length bs) :: u64"
    have u: "unat ?n = length bs" using 3 by (intro unat_of_nat_64) simp
    let ?g = "\<lambda>s. if o_callback s = Sizing then pb_write E None ?n s
        else if max_size s < bytes_written s + ?n then ret_oerror ''stream full'' s
        else (case enc fs p (s\<lparr>max_size := ?n, bytes_written := 0, o_errmsg := None\<rparr>) of
            None \<Rightarrow> None
          | Some (status, sub) \<Rightarrow>
            let s = s\<lparr>bytes_written := bytes_written s + bytes_written sub,
                      o_written := o_written sub, o_room := o_room sub, o_errmsg := o_errmsg sub\<rparr>
            in if bytes_written sub \<noteq> ?n then ret_oerror ''submsg size changed'' s
               else Some (status, s))"
    obtain x where x: "enc fs p PB_OSTREAM_SIZING = Some (Some (), x)" "bytes_written x = ?n"
      using 3 sz.emits_ok [OF sz _ sizing_sink]
      by (simp add: sz_fits_def sz_put_def PB_OSTREAM_SIZING_def)
    have eq: "pb_encode_submessage E enc fs p =
        (\<lambda>s. c_bind (pb_encode_varint E ?n s) (\<lambda>_ s. ?g s))"
      unfolding pb_encode_submessage_def [abs_def] x Let_def option.case prod.case ..
    have "sz.emits ?g bs True"
      by (rule sz.emitsI) (auto simp: sz_ok_def sz_fits_def sz_put_def pb_write_def c_true_def)
    moreover have "bf.emits ?g bs True"
    proof (rule bf.emitsI)
      fix s assume s: "bf_ok s" "bf_fits (length bs) s"
      note sub = bf_substream [OF s(1) 3(2)]
      have "enc fs p (s\<lparr>max_size := ?n, bytes_written := 0, o_errmsg := None\<rparr>) =
          Some (Some (), bf_put bs (s\<lparr>max_size := ?n, bytes_written := 0, o_errmsg := None\<rparr>))"
        using bf.emits_ok [OF bf 3(1) sub(2) [OF s(2)] sub(3)] .
      with s sub(1) show "?g s = Some (Some (), bf_put bs s)"
        by (auto simp: bf_ok_def bf_put_def Let_def)
    next
      fix s assume s: "bf_ok s" "\<not> (True \<and> bf_fits (length bs) s)"
      with bf_substream(1) [OF s(1) 3(2)] show "\<exists>k m. k \<le> length bs \<and> bf_fits k s \<and>
          ?g s = Some (None, (bf_put (take k bs) s)\<lparr>o_errmsg := m\<rparr>)"
        by (auto simp: bf_ok_def ret_oerror_def c_false_def set_oerror_def bf.put_Nil bf.fits_0
          intro!: exI [of _ 0])
    qed
    ultimately have "implements ?g (w_out bs)" by (simp add: implements_def w_out_def)
    from implements_bind [OF implements_varint this, of E ?n] 3 w eq u show ?thesis
      by (simp add: w_delimited_def w_then_out)
  qed
qed

section \<open>Keys and arrays\<close>

lemma wire_types_small: "wire_type_of t = Some wt \<Longrightarrow> unat wt < 8"
  by (auto simp: wire_type_of_def split: if_splits)

lemma unat_key:
  assumes "unat wt < 8"
  shows "unat (push_bit 3 (ucast (tag :: u32)) OR ucast (wt :: u32) :: u64) = 8 * unat tag + unat wt"
proof -
  have "word_of_nat (unat wt) OR push_bit 3 (word_of_nat (unat tag)) =
      (word_of_nat (unat wt + 2 ^ 3 * unat tag) :: u64)"
    by (rule or_push_bit) (use assms in simp)
  then have "push_bit 3 (ucast tag) OR ucast wt = (word_of_nat (unat wt + 8 * unat tag) :: u64)"
    by (simp add: of_nat_unat or.commute)
  moreover have "unat wt + 8 * unat tag < 2 ^ 64" using assms unat_u32_less [of tag] by simp
  ultimately show ?thesis by (simp add: unat_of_nat_64 del: of_nat_add of_nat_mult)
qed

lemma implements_tag:
  "unat wt < 8 \<Longrightarrow> implements (pb_encode_tag E wt tag) (w_out (wire_key wt tag))"
  using implements_varint [of E "push_bit 3 (ucast tag) OR ucast wt"]
  by (simp add: pb_encode_tag_def [abs_def] wire_key_def unat_key)

lemma implements_key: "implements (pb_encode_tag_for_field E field) (wire_field_key field)"
  using implements_tag [OF wire_types_small]
  by (auto simp: pb_encode_tag_for_field_def [abs_def] wire_field_key_def split: option.split)

lemma implements_encoder:
  assumes "\<And>fs p. implements (enc fs p) (sub fs p)"
  shows "implements (PB_ENCODERS E M enc (f_ltype field) field p) (wire_value M sub field p)"
proof -
  have sv: "implements (pb_enc_svarint E M field p) (wire_int zigzag (read_signed M p (f_data_size field)))"
    unfolding pb_enc_svarint_def [abs_def] encode_svarint_eq by (rule implements_int)
  have v: "implements (pb_enc_varint E M field p) (wire_int id (read_signed M p (f_data_size field)))"
    using implements_int [where f = id] unfolding pb_enc_varint_def [abs_def] id_apply by blast
  have uv: "implements (pb_enc_uvarint E M field p) (wire_int id (read_unsigned M p (f_data_size field)))"
    using implements_int [where f = id] unfolding pb_enc_uvarint_def [abs_def] id_apply by blast
  have sm: "implements (pb_enc_submessage E enc field p) (case f_ptr field of NullPtr \<Rightarrow> w_fail
      | FieldsPtr fs \<Rightarrow> w_delimited (sub fs p) | DataPtr _ \<Rightarrow> None)"
    using implements_submessage [OF assms]
    by (cases "f_ptr field") (auto simp: pb_enc_submessage_def [abs_def])
  show ?thesis
    using sv v uv sm implements_bool implements_fixed32 implements_fixed64 implements_bytes
      implements_string_field implements_fixed_length
    by (simp add: PB_ENCODERS_def wire_value_def Let_def pb_enc_fixed32_def [abs_def]
        pb_enc_fixed64_def [abs_def])
qed

lemma implements_items:
  "(\<And>p. implements (f p) (w p)) \<Longrightarrow> implements (array_loop f n d p) (wire_items w n d p)"
proof (induction n arbitrary: p)
  case (Suc n)
  have "array_loop f (Suc n) d p = (\<lambda>s. c_bind (f p s) (\<lambda>_ s. array_loop f n d (p + d) s))"
    by (rule ext) simp
  with Suc show ?case by (simp add: implements_bind del: array_loop.simps)
next
  case 0
  have "array_loop f 0 d p = c_true" by (rule ext) simp
  then show ?case by simp
qed

lemma items_fixed_length:
  "wire_items (\<lambda>p. map_option (\<lambda>bs. (bs, True)) (load_bytes M p k)) n d p = Some (bs, ok) \<Longrightarrow>
   ok \<and> length bs = k * n"
proof (induction n arbitrary: p bs ok)
  case 0
  then show ?case by (simp add: w_out_def)
next
  case (Suc n)
  then show ?case
    by (cases "load_bytes M p k") (fastforce simp: w_then_def load_bytes_length)+
qed

lemma implements_delimited_data:
  assumes data: "implements data w"
    and size: "\<And>bs s. w = Some (bs, True) \<Longrightarrow> length bs < 2 ^ 63 \<Longrightarrow>
      psize s = c_ret (word_of_nat (length bs)) s"
    and fail: "\<And>bs s. w = Some (bs, False) \<Longrightarrow> psize s = c_false s"
  shows "implements (\<lambda>s. c_bind (psize s) (\<lambda>n s. c_bind (pb_encode_varint E n s) (\<lambda>_ s.
      if o_callback s = Sizing then pb_write E None n s else data s))) (w_delimited w)"
proof (cases w)
  case None
  then show ?thesis by (simp add: w_delimited_def)
next
  case (Some x)
  obtain bs ok where w: "w = Some (bs, ok)" using Some by (cases x) simp
  have bf: "bf.emits data bs ok" using data w unfolding implements_def by blast
  consider "\<not> ok" | "ok" "2 ^ 63 \<le> length bs" | "ok" "length bs < 2 ^ 63" by linarith
  then show ?thesis
  proof cases
    case 1
    with w fail have "psize = c_false" by (auto intro!: ext)
    then show ?thesis using 1 w implements_false by (simp add: w_delimited_def)
  next
    case 2
    then have "2 ^ 63 \<le> int (length bs)" by simp
    with 2 w show ?thesis by (simp add: w_delimited_def)
  next
    case 3
    let ?n = "word_of_nat (length bs) :: u64"
    let ?g = "\<lambda>s. if o_callback s = Sizing then pb_write E None ?n s else data s"
    have u: "unat ?n = length bs" using 3 by (intro unat_of_nat_64) simp
    have "sz.emits ?g bs True"
      by (rule sz.emitsI) (auto simp: sz_ok_def sz_fits_def sz_put_def pb_write_def c_true_def)
    moreover have "bf.emits ?g bs True"
      using bf 3 unfolding emits_on_def by (auto simp: bf_ok_def)
    ultimately have "implements ?g (w_out bs)" by (simp add: implements_def w_out_def)
    from implements_bind [OF implements_varint this, of E ?n] 3 w u size show ?thesis
      by (simp add: w_delimited_def w_then_out)
  qed
qed

lemma implements_array:
  assumes v: "\<And>p. implements (func field p) (v field p)"
    and key: "f_ltype field = PB_LTYPE_FIXED32 \<Longrightarrow> v field = (\<lambda>p. map_option (\<lambda>bs. (bs, True)) (load_bytes M p 4))"
      "f_ltype field = PB_LTYPE_FIXED64 \<Longrightarrow> v field = (\<lambda>p. map_option (\<lambda>bs. (bs, True)) (load_bytes M p 8))"
  shows "implements (encode_array E M field p count func) (wire_array M v field p count)"
proof -
  let ?d = "uint (f_data_size field)" and ?n = count
  let ?w = "wire_items (v field) count ?d p"
  have data: "implements (array_loop (func field) count ?d p) ?w"
    using v by (rule implements_items)
  have "implements (\<lambda>s. c_bind (packed_size field p count func s) (\<lambda>n s.
      c_bind (pb_encode_varint E n s) (\<lambda>_ s. if o_callback s = Sizing then pb_write E None n s
        else array_loop (func field) count ?d p s))) (w_delimited ?w)"
  proof (rule implements_delimited_data [OF data])
    fix bs s assume w: "?w = Some (bs, True)" and len: "length bs < 2 ^ 63"
    have "sz.emits (array_loop (func field) count ?d p) bs True"
      using data w unfolding implements_def by blast
    from sz.emits_ok [OF this _ sizing_sink]
    have "array_loop (func field) count ?d p PB_OSTREAM_SIZING = Some (Some (), sz_put bs PB_OSTREAM_SIZING)"
      by (simp add: sz_fits_def)
    then show "packed_size field p count func s = c_ret (word_of_nat (length bs)) s"
      using items_fixed_length [of M 4 count ?d p bs True] items_fixed_length [of M 8 count ?d p bs True]
        w key
      by (auto simp: packed_size_def sz_put_def PB_OSTREAM_SIZING_def)
  next
    fix bs s assume w: "?w = Some (bs, False)"
    have "sz.emits (array_loop (func field) count ?d p) bs False"
      using data w unfolding implements_def by blast
    then obtain x where "array_loop (func field) count ?d p PB_OSTREAM_SIZING = Some (None, x)"
      using sz.emits_no [OF _ sizing_sink] by blast
    then show "packed_size field p count func s = c_false s"
      using items_fixed_length [of M 4 count ?d p bs False] items_fixed_length [of M 8 count ?d p bs False]
        w key
      by (auto simp: packed_size_def)
  qed
  from implements_bind [OF implements_tag this, of PB_WT_STRING E "f_tag field"]
  have packed: "implements (\<lambda>s. c_bind (pb_encode_tag E PB_WT_STRING (f_tag field) s) (\<lambda>_ s.
      c_bind (packed_size field p count func s) (\<lambda>n s. c_bind (pb_encode_varint E n s) (\<lambda>_ s.
        if o_callback s = Sizing then pb_write E None n s else array_loop (func field) count ?d p s))))
      (w_then (w_out (wire_key PB_WT_STRING (f_tag field))) (w_delimited ?w))" by simp
  have item: "implements (\<lambda>s. if f_atype field = PB_ATYPE_POINTER \<and>
        (f_ltype field = PB_LTYPE_STRING \<or> f_ltype field = PB_LTYPE_BYTES)
      then (case load_ptr M p of None \<Rightarrow> None | Some q \<Rightarrow> func field q s) else func field p s)
    (if f_atype field = PB_ATYPE_POINTER \<and> (f_ltype field = PB_LTYPE_STRING \<or> f_ltype field = PB_LTYPE_BYTES)
     then Option.bind (load_ptr M p) (v field) else v field p)" for p
    using v
    by (cases "f_atype field = PB_ATYPE_POINTER \<and> (f_ltype field = PB_LTYPE_STRING \<or> f_ltype field = PB_LTYPE_BYTES)";
        cases "load_ptr M p")
      (simp_all only: if_True if_False option.case Option.bind.simps, simp_all)
  have items: "implements (array_loop (\<lambda>p s. c_bind (pb_encode_tag_for_field E field s) (\<lambda>_ s.
      if f_atype field = PB_ATYPE_POINTER \<and>
        (f_ltype field = PB_LTYPE_STRING \<or> f_ltype field = PB_LTYPE_BYTES)
      then (case load_ptr M p of None \<Rightarrow> None | Some q \<Rightarrow> func field q s) else func field p s))
      count ?d p)
    (wire_items (\<lambda>p. w_then (wire_field_key field)
       (if f_atype field = PB_ATYPE_POINTER \<and> (f_ltype field = PB_LTYPE_STRING \<or> f_ltype field = PB_LTYPE_BYTES)
        then Option.bind (load_ptr M p) (v field) else v field p)) count ?d p)"
    by (rule implements_items) (rule implements_bind [OF implements_key item])
  show ?thesis
    unfolding encode_array_def [abs_def] wire_array_def Let_def
    using packed items by (auto intro: implements_fail)
qed

section \<open>Fields and messages\<close>

lemma implements_case:
  assumes "\<And>x. opt = Some x \<Longrightarrow> implements (f x) (w x)"
  shows "implements (\<lambda>s. case opt of None \<Rightarrow> None | Some x \<Rightarrow> f x s) (Option.bind opt w)"
  using assms by (cases opt) auto

lemma implements_if:
  "(P \<Longrightarrow> implements f v) \<Longrightarrow> (\<not> P \<Longrightarrow> implements g w) \<Longrightarrow>
   implements (\<lambda>s. if P then f s else g s) (if P then v else w)"
  by simp

lemma implements_basic:
  assumes "\<And>fs p. implements (enc fs p) (sub fs p)"
  shows "implements (encode_basic_field E M chk enc field p)
    (wire_basic M chk (wire_value M sub) field p)"
proof (cases "implicit_has chk field p")
  case None
  then show ?thesis by (simp add: wire_basic_def)
next
  case (Some has)
  let ?func = "PB_ENCODERS E M enc (f_ltype field)" and ?v = "wire_value M sub"
  let ?ps = "p + sint (f_size_offset field)"
  have v: "implements (?func field q) (?v field q)" for q
    using implements_encoder [OF assms] .
  have item: "implements (\<lambda>s. c_bind (pb_encode_tag_for_field E field s) (\<lambda>_ s. ?func field q s))
      (w_then (wire_field_key field) (?v field q))" for q
    using implements_bind [OF implements_key v] .
  have arr: "implements (encode_array E M field q n ?func) (wire_array M ?v field q n)" for q n
    by (rule implements_array [of ?func field ?v, OF v])
      (simp_all add: wire_value_def [abs_def] Let_def)
  have core: "implements (\<lambda>s.
      if f_htype field = PB_HTYPE_REQUIRED
      then if q = 0 then ret_oerror ''missing required field'' s
           else c_bind (pb_encode_tag_for_field E field s) (\<lambda>_ s. ?func field q s)
      else if f_htype field = PB_HTYPE_OPTIONAL
      then (case (if f_size_offset field \<noteq> 0 then safe_read_bool M ?ps else Some has) of
          None \<Rightarrow> None
        | Some present \<Rightarrow>
          if present then c_bind (pb_encode_tag_for_field E field s) (\<lambda>_ s. ?func field q s)
          else c_true s)
      else if f_htype field = PB_HTYPE_REPEATED
      then (case (if f_size_offset field \<noteq> 0 then load_u32 M ?ps
                  else Some (f_array_size field)) of None \<Rightarrow> None
        | Some count \<Rightarrow> encode_array E M field q (unat count) ?func s)
      else (if f_size_offset field = 0 then None
         else case load_u32 M ?ps of None \<Rightarrow> None
         | Some which \<Rightarrow>
           if which = f_tag field
           then c_bind (pb_encode_tag_for_field E field s) (\<lambda>_ s. ?func field q s)
           else c_true s))
    (if f_htype field = PB_HTYPE_REQUIRED
     then (if q = 0 then w_fail else w_then (wire_field_key field) (?v field q))
     else if f_htype field = PB_HTYPE_OPTIONAL
     then Option.bind (if f_size_offset field \<noteq> 0 then safe_read_bool M ?ps else Some has)
       (\<lambda>present. if present then w_then (wire_field_key field) (?v field q) else w_out [])
     else if f_htype field = PB_HTYPE_REPEATED
     then Option.bind (if f_size_offset field \<noteq> 0 then load_u32 M ?ps else Some (f_array_size field))
       (\<lambda>count. wire_array M ?v field q (unat count))
     else if f_size_offset field = 0 then None
     else Option.bind (load_u32 M ?ps)
       (\<lambda>which. if which = f_tag field then w_then (wire_field_key field) (?v field q) else w_out []))"
    for q has
    by (intro implements_if implements_case implements_fail implements_true implements_None item arr)
  show ?thesis
  proof (cases "f_atype field = PB_ATYPE_POINTER")
    case True
    show ?thesis
    proof (cases "load_ptr M p")
      case None
      with True \<open>implicit_has chk field p = Some has\<close> show ?thesis by (simp add: wire_basic_def)
    next
      case (Some q)
      from core [of q "q \<noteq> 0"] show ?thesis
        unfolding encode_basic_field_def [abs_def] wire_basic_def Let_def
          \<open>implicit_has chk field p = Some has\<close> Some if_P [OF True]
          option.case option.map prod.case Option.bind.simps .
    qed
  next
    case False
    from core [of p has] show ?thesis
      unfolding encode_basic_field_def [abs_def] wire_basic_def Let_def Some if_not_P [OF False]
        option.case option.map prod.case Option.bind.simps .
  qed
qed

lemma implements_field:
  assumes "\<And>fs p. implements (enc fs p) (sub fs p)"
  shows "implements (\<lambda>s. if f_ltype field = PB_LTYPE_EXTENSION
      then encode_extension_field E M chk enc field p s else encode_field E M chk enc field p s)
    (wire_field M chk (wire_value M sub) field p)"
proof -
  have ext: "implements (encode_extension_field E M chk enc field p)
      (Option.bind (load_ptr M p) (\<lambda>ext. if ext = 0 then w_out [] else None))"
    unfolding encode_extension_field_def [abs_def]
  proof (rule implements_case)
    fix ext
    have "c_loop (ext_encode_step E M chk enc) (0, s) = c_true s" for s
      by (simp add: c_loop_unfold ext_encode_step_def c_true_def)
    then show "implements (\<lambda>s. c_loop (ext_encode_step E M chk enc) (ext, s))
        (if ext = 0 then w_out [] else None)"
      by (simp add: implements_true)
  qed
  have cb: "implements (encode_callback_field E M field p)
      (Option.bind (load_ptr M (p + CB_FUNCS)) (\<lambda>fn. if fn = 0 then w_out [] else None))"
    unfolding encode_callback_field_def [abs_def]
    by (rule implements_case) (auto intro: implements_true)
  show ?thesis
    unfolding wire_field_def encode_field_def [abs_def]
    by (intro implements_if ext cb implements_basic [OF assms] implements_fail)
qed

lemma implements_each_field:
  assumes "\<And>i. implements (f (iter_at fs base i)) (w (field_at fs i) (base + fst (field_ptrs fs i)))"
  shows "implements (each_field f fs base is) (wire_fields w fs base is)"
proof (induction "is")
  case Nil
  have "each_field f fs base [] = c_true" by (rule ext) simp
  then show ?case by simp
next
  case (Cons i "is")
  have "each_field f fs base (i # is) =
      (\<lambda>s. c_bind (f (iter_at fs base i) s) (\<lambda>_ s. each_field f fs base is s))"
    by (rule ext) simp
  then show ?case using implements_bind [OF assms Cons.IH] by simp
qed

lemma implements_message:
  assumes "\<And>fs p. implements (enc fs p) (sub fs p)"
  shows "implements (pb_encode_with E M chk enc fs base)
    (wire_fields (wire_field M chk (wire_value M sub)) fs base [0..<n_fields fs])"
proof (cases "0 < n_fields fs")
  case False
  then have "pb_encode_with E M chk enc fs base = c_true"
    by (auto simp: pb_encode_with_def iter_begin_at)
  with False show ?thesis by simp
next
  case True
  let ?f = "\<lambda>it s. if f_ltype (it_field it) = PB_LTYPE_EXTENSION
     then encode_extension_field E M chk enc (it_field it) (pData it) s
     else encode_field E M chk enc (it_field it) (pData it) s"
  have "pb_encode_with E M chk enc fs base = each_field ?f fs base [0..<n_fields fs]"
    using True by (intro ext) (simp add: pb_encode_with_def iter_begin_at iter_loop_each)
  moreover have "implements (?f (iter_at fs base i))
      (wire_field M chk (wire_value M sub) (field_at fs i) (base + fst (field_ptrs fs i)))" for i
    unfolding iter_at_sel by (rule implements_field [of enc sub, OF assms])
  ultimately show ?thesis by (simp add: implements_each_field)
qed

lemma implements_encode: "implements (pb_encode n E M fs base) (wire_message n M fs base)"
proof (induction n arbitrary: fs base)
  case (Suc n)
  show ?case using implements_message [OF Suc.IH] by simp
qed simp

end
