(* ===== verification/PB_Encode_Props.thy ===== *)
theory PB_Encode_Props
  imports PB_Wire
begin

text \<open>
  What the encoder promises: the bytes of a message, on every kind of stream the library provides.
\<close>

section \<open>A message to try the properties on\<close>

text \<open>
  A required \<open>int32\<close> (tag 1), an optional submessage with a \<open>sint32\<close> (tag 2) and a packed array of
  at most three \<open>bool\<close>s (tag 3), with the memory that holds one.
\<close>

definition demo_inner :: "pb_field list" where
  "demo_inner = [PbField 1 0x03 0 0 4 0 NullPtr, PB_LAST_FIELD]"

definition demo_fields :: "pb_field list" where
  "demo_fields = [PbField 1 0x01 0 0 4 0 NullPtr,
     PbField 2 0x18 4 (- 4) 4 0 (FieldsPtr demo_inner),
     PbField 3 0x20 4 (- 4) 1 3 NullPtr, PB_LAST_FIELD]"

definition demo_memory :: memory where
  "demo_memory = put_bytes (\<lambda>_. None) 0x1000
     [0x96, 0, 0, 0,  1, 0, 0, 0,  0xFE, 0xFF, 0xFF, 0xFF,  2, 0, 0, 0,  1, 0, 1]"

definition demo_bytes :: "u8 list" where
  "demo_bytes = [0x08, 0x96, 0x01,  0x12, 0x02, 0x08, 0x03,  0x1A, 0x02, 0x01, 0x00]"

text \<open>User code that must not be called.\<close>

definition no_user :: enc_user where
  "no_user = \<lparr>u_write = \<lambda>_ _ _. None, u_encode = \<lambda>_ _ _ _ _. None,
     u_ext_encode = \<lambda>_ _ _ _. None, e_ext_type = \<lambda>_. None\<rparr>"

lemma demo_wire: "wire_message 2 demo_memory demo_fields 0x1000 = Some (demo_bytes, True)"
  by code_simp

section \<open>Encoding a message\<close>

lemma encode_emits:
  assumes "wire_message n M fs p = Some (bs, ok)"
  shows "sz.emits (pb_encode n E M fs p) bs ok" "bf.emits (pb_encode n E M fs p) bs ok"
  using implementsD [OF implements_encode assms] by blast+

lemma buffer_bytes:
  "o_written (bf_put bs (pb_ostream_from_buffer room n)) = bs"
  "length bs \<le> unat n \<Longrightarrow> bytes_written (bf_put bs (pb_ostream_from_buffer room n)) = word_of_nat (length bs)"
  by (simp_all add: bf_put_def pb_ostream_from_buffer_def)

lemma length_fits_64: "length bs \<le> unat (n :: u64) \<Longrightarrow> unat (word_of_nat (length bs) :: u64) = length bs"
  using unat_u64_less [of n] by (intro unat_of_nat_64) linarith

text \<open>
  C5: A message whose bytes fit into the buffer is encoded: \<open>pb_encode\<close> returns true, the buffer holds
  exactly the bytes the message stands for, and \<open>bytes_written\<close> is their number.
\<close>

theorem encode_to_buffer:
  assumes "wire_message n M fs p = Some (bs, True)"
    and "length bs \<le> unat bufsize" "unat bufsize \<le> room" "unat bufsize \<le> 2 ^ 63"
  shows "\<exists>t. pb_encode n E M fs p (pb_ostream_from_buffer room bufsize) = Some (Some (), t) \<and>
    o_written t = bs \<and> unat (bytes_written t) = length bs"
  using bf.emits_ok [OF encode_emits(2) [OF assms(1)] _ from_buffer_sink(1) [OF assms(3,4)]] assms
  by (simp add: from_buffer_sink(2) buffer_bytes length_fits_64)

theorem encode_to_buffer_witness:
  "\<exists>t. pb_encode 2 no_user demo_memory demo_fields 0x1000 (pb_ostream_from_buffer 16 16) = Some (Some (), t) \<and>
    o_written t = demo_bytes \<and> unat (bytes_written t) = length demo_bytes"
  by (rule encode_to_buffer [OF demo_wire]) (simp_all add: demo_bytes_def)

text \<open>
  C14: A message that does not fit is refused: \<open>pb_encode\<close> returns false, the bytes written are a proper
  prefix of the message, and not one of them lies beyond the size given for the buffer.
\<close>

theorem encode_overflow:
  assumes "wire_message n M fs p = Some (bs, ok)"
    and "unat bufsize < length bs" "unat bufsize \<le> room" "unat bufsize \<le> 2 ^ 63"
  shows "\<exists>t k. pb_encode n E M fs p (pb_ostream_from_buffer room bufsize) = Some (None, t) \<and>
    o_written t = take k bs \<and> k \<le> unat bufsize"
proof -
  have "\<not> (ok \<and> bf_fits (length bs) (pb_ostream_from_buffer room bufsize))"
    using assms by (simp add: from_buffer_sink(2))
  from bf.emits_no [OF encode_emits(2) [OF assms(1)] from_buffer_sink(1) [OF assms(3,4)] this]
  obtain k m where "bf_fits k (pb_ostream_from_buffer room bufsize)"
    "pb_encode n E M fs p (pb_ostream_from_buffer room bufsize) =
     Some (None, (bf_put (take k bs) (pb_ostream_from_buffer room bufsize))\<lparr>o_errmsg := m\<rparr>)"
    by blast
  then show ?thesis by (auto simp: from_buffer_sink(2) buffer_bytes)
qed

theorem encode_overflow_witness:
  "\<exists>t k. pb_encode 2 no_user demo_memory demo_fields 0x1000 (pb_ostream_from_buffer 8 8) = Some (None, t) \<and>
    o_written t = take k demo_bytes \<and> k \<le> unat (8 :: u64)"
  by (rule encode_overflow [OF demo_wire]) (simp_all add: demo_bytes_def)

text \<open>
  C15: \<open>pb_get_encoded_size\<close> is the number of bytes the message stands for, and the error status of the
  encoder; so a buffer of this size is enough.
\<close>

theorem encoded_size:
  assumes "wire_message n M fs p = Some (bs, ok)"
  shows "pb_get_encoded_size n E M fs p = Some (if ok then Some (word_of_nat (length bs)) else None)"
proof (cases ok)
  case True
  then show ?thesis
    using sz.emits_ok [OF encode_emits(1) [OF assms] _ sizing_sink]
    by (simp add: pb_get_encoded_size_def sz_fits_def sz_put_def PB_OSTREAM_SIZING_def)
next
  case False
  then obtain x where "pb_encode n E M fs p PB_OSTREAM_SIZING = Some (None, x)"
    using sz.emits_no [OF encode_emits(1) [OF assms] sizing_sink] by blast
  with False show ?thesis by (simp add: pb_get_encoded_size_def)
qed

theorem encoded_size_witness:
  "pb_get_encoded_size 2 no_user demo_memory demo_fields 0x1000 = Some (Some 11)"
  using encoded_size [OF demo_wire] by (simp add: demo_bytes_def)

text \<open>
  \<open>pb_encode_delimited\<close> writes the length of the message as a varint and then the message, and
  \<open>pb_encode_nullterminated\<close> writes the message and one zero byte, when the buffer has room.
\<close>

theorem encode_framed:
  assumes "wire_message n M fs p = Some (bs, True)" "length bs < 2 ^ 63"
    and "length bs + 10 \<le> unat bufsize" "unat bufsize \<le> room" "unat bufsize \<le> 2 ^ 63"
  shows "(\<exists>t. pb_encode_delimited n E M fs p (pb_ostream_from_buffer room bufsize) = Some (Some (), t) \<and>
      o_written t = varint_bytes (length bs) @ bs) \<and>
    (\<exists>t. pb_encode_nullterminated n E M fs p (pb_ostream_from_buffer room bufsize) = Some (Some (), t) \<and>
      o_written t = bs @ [0])"
proof -
  have len: "length (varint_bytes (length bs)) \<le> 10"
    using varint_length_u64 [of "word_of_nat (length bs)"] unat_of_nat_64 [of "length bs"] assms(2) by simp
  note s = from_buffer_sink(1) [OF assms(4,5)]
  have "implements (pb_encode_delimited n E M fs p) (w_delimited (wire_message n M fs p))"
    unfolding pb_encode_delimited_def [abs_def] by (rule implements_submessage) (rule implements_encode)
  moreover have "w_delimited (wire_message n M fs p) = Some (varint_bytes (length bs) @ bs, True)"
    using assms(1,2) by (simp add: w_delimited_def w_out_def)
  ultimately have d: "bf.emits (pb_encode_delimited n E M fs p) (varint_bytes (length bs) @ bs) True"
    using implementsD by blast
  have "implements (pb_encode_nullterminated n E M fs p) (w_then (wire_message n M fs p) (w_out [0]))"
    unfolding pb_encode_nullterminated_def [abs_def]
    by (rule implements_bind [OF implements_encode implements_out]) simp
  moreover have "w_then (wire_message n M fs p) (w_out [0]) = Some (bs @ [0], True)"
    using assms(1) by (simp add: w_then_def w_out_def)
  ultimately have z: "bf.emits (pb_encode_nullterminated n E M fs p) (bs @ [0]) True"
    using implementsD by blast
  show ?thesis
    using bf.emits_ok [OF d _ s] bf.emits_ok [OF z _ s] len assms(3)
    by (simp add: from_buffer_sink(2) buffer_bytes)
qed

theorem encode_framed_witness:
  "(\<exists>t. pb_encode_delimited 2 no_user demo_memory demo_fields 0x1000
      (pb_ostream_from_buffer 32 32) = Some (Some (), t) \<and>
    o_written t = varint_bytes (length demo_bytes) @ demo_bytes) \<and>
   (\<exists>t. pb_encode_nullterminated 2 no_user demo_memory demo_fields 0x1000
      (pb_ostream_from_buffer 32 32) = Some (Some (), t) \<and> o_written t = demo_bytes @ [0])"
  by (rule encode_framed [OF demo_wire]) (simp_all add: demo_bytes_def)

end
