(* ===== verification/PB_Skip.thy ===== *)
theory PB_Skip
  imports PB_Varint
begin

text \<open>
  Skipping a field value and cutting a length-limited substream out of a stream, over every stream
  that keeps the interface of \<open>PB_Source\<close>: what is consumed, and that every run returns.
\<close>

section \<open>The extent of a field value\<close>

text \<open>
  The number of bytes the value of a field with this wire type takes at the head of some bytes.
\<close>

definition payload_length :: "pb_wire_type_t \<Rightarrow> u8 list \<Rightarrow> nat option" where
  "payload_length wt xs =
     (if wt = PB_WT_VARINT then map_option length (varint_prefix xs)
      else if wt = PB_WT_64BIT then if 8 \<le> length xs then Some 8 else None
      else if wt = PB_WT_STRING then
        (case varint_prefix xs of None \<Rightarrow> None
         | Some p \<Rightarrow> if length p \<le> 5 \<and> varint_value p < 2 ^ 32 \<and> length p + varint_value p \<le> length xs
             then Some (length p + varint_value p) else None)
      else if wt = PB_WT_32BIT then if 4 \<le> length xs then Some 4 else None
      else None)"

context byte_source
begin

lemma read_cases:
  assumes "good s"
  obtains "pb_read E True n s = Some (Some (take (unat n) (avail s)), adv (unat n) s)"
      "unat n \<le> length (avail s)"
  | "pb_read E True n s = Some (None, set_ierror ''end-of-stream'' s)" "length (avail s) < unat n"
  using read_ok [OF assms, of n True] read_buf_short [OF assms, of n]
  by (cases "unat n \<le> length (avail s)") (auto simp: ret_ierror_def c_false_def)

lemma skip_loop_short:
  assumes "good s" "length (avail s) < unat n"
  shows "\<exists>s'. c_loop (skip_step E) (n, s) = Some (None, s') \<and> fwd s s'"
  using assms
proof (induction "unat n" arbitrary: n s rule: less_induct)
  case less
  show ?case
  proof (cases "16 < n")
    case True
    then have n: "16 < unat n" by (simp add: word_less_nat_alt)
    have m: "unat (n - 16) = unat n - 16" using True by (simp add: unat_sub less_imp_le)
    show ?thesis
    proof (cases "16 \<le> length (avail s)")
      case True
      then have st: "skip_step E (n, s) = Some (Inr (n - 16, adv 16 s))"
        using \<open>16 < n\<close> less.prems read_checked_ok [of s 16] by (simp add: skip_step_def)
      have g: "good (adv 16 s)" "avail (adv 16 s) = drop 16 (avail s)"
        using True less.prems by (simp_all add: adv_good adv_avail)
      have "\<exists>s'. c_loop (skip_step E) (n - 16, adv 16 s) = Some (None, s') \<and> fwd (adv 16 s) s'"
        using less.prems n m g True by (intro less.hyps) simp_all
      with st moved_adv [OF less.prems(1) True] show ?thesis
        by (auto simp: c_loop_unfold intro: moved_trans)
    next
      case False
      then show ?thesis
        using \<open>16 < n\<close> less.prems read_checked_short [of s 16] moved_err [OF moved_refl [of s]]
        by (auto simp: c_loop_unfold skip_step_def ret_ierror_def c_false_def)
    qed
  next
    case False
    with less.prems have "n \<noteq> 0" by auto
    with False show ?thesis
      using less.prems read_checked_short [of s n] moved_err [OF moved_refl [of s]]
      by (auto simp: c_loop_unfold skip_step_def ret_ierror_def c_false_def)
  qed
qed

lemma skip_short:
  assumes "good s" "length (avail s) < unat n"
  shows "\<exists>s'. pb_skip E n s = Some (None, s') \<and> fwd s s'"
proof -
  have "n \<noteq> 0" using assms by auto
  then show ?thesis
    using skip_loop_short [OF assms] read_checked_short [OF assms] moved_err [OF moved_refl [OF assms(1)]]
    by (auto simp: pb_skip_def pb_read_def ret_ierror_def c_false_def)
qed

lemma skip_defined:
  assumes "good s"
  shows "\<exists>r s'. pb_skip E n s = Some (r, s') \<and> fwd s s'"
  using skip_ok [OF assms] skip_short [OF assms] moved_adv [OF assms]
  by (cases "unat n \<le> length (avail s)") (blast, metis not_le)

lemma skip_varint_ok:
  assumes "good s" "varint_prefix (avail s) = Some p"
  shows "pb_skip_varint E s = Some (Some (), adv (length p) s)"
  using assms unfolding pb_skip_varint_def
proof (induction p arbitrary: s)
  case Nil
  then show ?case using varint_prefix_length by fastforce
next
  case (Cons b p)
  obtain bs where bs: "avail s = b # bs"
    using varint_prefix_split [OF Cons.prems(2)] by auto
  have rd: "pb_read E True 1 s = Some (Some [b], adv 1 s)"
    using read_ok [OF Cons.prems(1), of 1 True] bs by simp
  have g: "good (adv 1 s)" "avail (adv 1 s) = bs"
    using Cons.prems(1) bs by (simp_all add: adv_good adv_avail)
  show ?case
  proof (cases "unat b < 128")
    case True
    with Cons.prems(2) bs rd show ?thesis
      by (simp add: c_loop_unfold skip_varint_step_def u8_high)
  next
    case False
    then have p: "varint_prefix bs = Some p" using Cons.prems(2) bs by auto
    from False rd have "skip_varint_step E s = Some (Inr (adv 1 s))"
      by (simp add: skip_varint_step_def u8_high)
    with Cons.IH [OF g(1)] g(2) p adv_adv [OF Cons.prems(1), of 1 "length p"]
      varint_prefix_length [OF p] bs
    show ?thesis by (simp add: c_loop_unfold)
  qed
qed

lemma skip_varint_defined:
  assumes "good s"
  shows "\<exists>r s'. pb_skip_varint E s = Some (r, s') \<and> fwd s s'"
proof -
  have "\<exists>x. c_loop (skip_varint_step E) s = Some x \<and> fwd s (snd x)"
  proof (rule c_loop_rule [where I = "fwd s" and m = "\<lambda>t. length (avail t)"])
    fix t assume t: "fwd s t"
    from moved_good [OF t]
    show "\<exists>x. skip_varint_step E t = Some x \<and> (case x of Inl r \<Rightarrow> fwd s (snd r)
        | Inr t' \<Rightarrow> fwd s t' \<and> length (avail t') < length (avail t))"
    proof (cases rule: read_cases [where n = 1])
      case 1
      then have m: "fwd t (adv 1 t)" and
        less: "length (avail (adv 1 t)) < length (avail t)"
        using moved_adv [OF moved_good [OF t], of 1] moved_good [OF t] by (auto simp: adv_avail)
      with 1 moved_trans [OF t m] show ?thesis by (simp add: skip_varint_step_def)
    next
      case 2
      then show ?thesis by (simp add: skip_varint_step_def moved_err t)
    qed
  qed (rule moved_refl [OF assms])
  then show ?thesis by (auto simp: pb_skip_varint_def)
qed

lemma skip_string_defined:
  assumes "good s"
  shows "\<exists>r s'. pb_skip_string E s = Some (r, s') \<and> fwd s s'"
proof -
  obtain r s' where v: "pb_decode_varint32 E s = Some (r, s')" "fwd s s'"
    using varint32_defined [OF assms] by blast
  then show ?thesis
    using skip_defined [OF moved_good [OF v(2)]] moved_trans [OF v(2)]
    by (cases r) (force simp: pb_skip_string_def)+
qed

lemma skip_field_defined:
  assumes "good s"
  shows "\<exists>r s'. pb_skip_field E wt s = Some (r, s') \<and> fwd s s'"
  using skip_varint_defined [OF assms] skip_defined [OF assms] skip_string_defined [OF assms]
    moved_err [OF moved_refl [OF assms]]
  unfolding pb_skip_field_def by (auto simp: ret_ierror_def c_false_def)

lemma skip_field_ok:
  assumes "good s" "payload_length wt (avail s) = Some k"
  shows "pb_skip_field E wt s = Some (Some (), adv k s)"
proof (cases "wt = PB_WT_STRING")
  case True
  then obtain p where p: "varint_prefix (avail s) = Some p" "length p \<le> 5" "varint_value p < 2 ^ 32"
    "length p + varint_value p \<le> length (avail s)" "k = length p + varint_value p"
    using assms(2) by (auto simp: payload_length_def split: option.splits if_splits)
  have n: "unat (ucast (word_of_nat (varint_value p) :: u32) :: u64) = varint_value p"
    using p(3) unat_of_nat_32 [of "varint_value p"] by (simp only: unat_ucast_32_64)
  have g: "good (adv (length p) s)" "avail (adv (length p) s) = drop (length p) (avail s)"
    using p assms(1) by (simp_all add: adv_good adv_avail)
  have "pb_skip E (ucast (word_of_nat (varint_value p) :: u32)) (adv (length p) s) =
      Some (Some (), adv (varint_value p) (adv (length p) s))"
    using skip_ok [OF g(1), of "ucast (word_of_nat (varint_value p) :: u32)"] g(2) p(4) n by simp
  with decode_varint32_ok [OF assms(1) p(1-3)] p True adv_adv [OF assms(1), of "length p" "varint_value p"]
  show ?thesis by (simp add: pb_skip_field_def pb_skip_string_def)
next
  case False
  then show ?thesis
    using assms skip_ok [OF assms(1)] skip_varint_ok [OF assms(1)]
    by (auto simp: payload_length_def pb_skip_field_def split: if_splits)
qed

end

section \<open>Substreams\<close>

text \<open>
  \<open>reopened par sub par'\<close>: the parent after a substream \<open>sub\<close> of it has been closed.
\<close>

definition reopened :: "pb_istream_t \<Rightarrow> pb_istream_t \<Rightarrow> pb_istream_t" where
  "reopened par sub = par\<lparr>i_state := i_state sub, i_errmsg := i_errmsg sub\<rparr>"

context limited_source
begin

lemma make_substream_cases:
  assumes "good s"
  shows "(\<exists>s'. pb_make_string_substream E s = Some (None, s') \<and> fwd s s') \<or>
    (\<exists>t n. fwd s t \<and> length (avail t) < length (avail s) \<and> n \<le> bytes_left t \<and>
      pb_make_string_substream E s =
        Some (Some (t\<lparr>bytes_left := n\<rparr>), t\<lparr>bytes_left := bytes_left t - n\<rparr>))"
proof -
  obtain r t where v: "pb_decode_varint32 E s = Some (r, t)" "fwd s t"
    "r \<noteq> None \<longrightarrow> length (avail t) < length (avail s)"
    using varint32_defined [OF assms] by blast
  show ?thesis
  proof (cases r)
    case None
    with v show ?thesis by (auto simp: pb_make_string_substream_def)
  next
    case (Some n)
    show ?thesis
    proof (cases "bytes_left t < ucast n")
      case True
      with v Some show ?thesis
        using moved_err [OF v(2)]
        by (simp add: pb_make_string_substream_def ret_ierror_def c_false_def)
    next
      case False
      then have "(bytes_left t < ucast n) = False" "ucast n \<le> bytes_left t" by simp_all
      with v Some show ?thesis
        by (intro disjI2 exI [of _ t] exI [of _ "ucast n"])
          (simp add: pb_make_string_substream_def c_ret_def)
    qed
  qed
qed

lemma parent_good: "good s \<Longrightarrow> n \<le> bytes_left s \<Longrightarrow> good (s\<lparr>bytes_left := bytes_left s - n\<rparr>)"
  by (intro limit_good) (simp_all add: word_le_nat_alt unat_sub)

lemma reopened_adv:
  assumes "good s" "n \<le> bytes_left s" "sub = (adv (unat n) (s\<lparr>bytes_left := n\<rparr>))\<lparr>i_errmsg := e\<rparr>"
  shows "reopened (s\<lparr>bytes_left := bytes_left s - n\<rparr>) sub = (adv (unat n) s)\<lparr>i_errmsg := e\<rparr>"
proof -
  have "reopened (s\<lparr>bytes_left := bytes_left s - n\<rparr>) sub =
      (s\<lparr>bytes_left := bytes_left s - n, i_state := i_state (adv (unat n) (s\<lparr>bytes_left := n\<rparr>))\<rparr>)
        \<lparr>i_errmsg := e\<rparr>"
    by (simp add: reopened_def assms(3))
  also have "\<dots> = (adv (unat n) s)\<lparr>i_errmsg := e\<rparr>"
    by (simp only: resume [OF assms(1,2)])
  finally show ?thesis .
qed

text \<open>Closing: the substream is drained and the parent goes on behind it.\<close>

lemma close_substream_at:
  assumes s: "good s" "n \<le> bytes_left s"
    and k: "k \<le> unat n" "sub = (adv k (s\<lparr>bytes_left := n\<rparr>))\<lparr>i_errmsg := e\<rparr>"
  shows "pb_close_string_substream E sub (s\<lparr>bytes_left := bytes_left s - n\<rparr>) =
    Some (Some (), (adv (unat n) s)\<lparr>i_errmsg := e\<rparr>)"
proof -
  let ?s0 = "s\<lparr>bytes_left := n\<rparr>"
  have len: "length (avail ?s0) = unat n"
    using s left [OF s(1)] by (simp add: limit_avail word_le_nat_alt)
  have k3: "good ?s0" using s by (rule limit_good)
  have k4: "good sub" unfolding k(2) by (rule msg_good, rule adv_good [OF k3]) (simp add: len k(1))
  have bl: "unat (bytes_left sub) = unat n - k"
    using left [OF k4] k k3 len by (simp add: msg_avail adv_avail)
  have eq: "(adv (unat n - k) (adv k ?s0)) = adv (unat n) ?s0"
    using k len adv_adv [OF k3, of k "unat n - k"] by simp
  show ?thesis
  proof (cases "bytes_left sub = 0")
    case True
    then have "k = unat n" using bl k by simp
    with k(2) have sb: "sub = (adv (unat n) ?s0)\<lparr>i_errmsg := e\<rparr>" by simp
    have "pb_close_string_substream E sub (s\<lparr>bytes_left := bytes_left s - n\<rparr>) =
        Some (Some (), reopened (s\<lparr>bytes_left := bytes_left s - n\<rparr>) sub)"
      using True by (simp add: pb_close_string_substream_def reopened_def c_true_def)
    with reopened_adv [OF s sb] show ?thesis by auto
  next
    case False
    have "unat (bytes_left sub) \<le> length (avail sub)" using left [OF k4] by simp
    then have "pb_skip E (bytes_left sub) sub = Some (Some (), adv (unat n - k) sub)"
      using skip_ok [OF k4] bl by simp
    moreover have sb: "adv (unat n - k) sub = (adv (unat n) ?s0)\<lparr>i_errmsg := e\<rparr>"
      using k(2) eq by (simp add: msg_adv)
    ultimately have "pb_close_string_substream E sub (s\<lparr>bytes_left := bytes_left s - n\<rparr>) =
        Some (Some (), reopened (s\<lparr>bytes_left := bytes_left s - n\<rparr>) ((adv (unat n) ?s0)\<lparr>i_errmsg := e\<rparr>))"
      using False by (simp add: pb_close_string_substream_def reopened_def c_true_def)
    with reopened_adv [OF s refl] show ?thesis by auto
  qed
qed

lemma close_substream:
  assumes s: "good s" "n \<le> bytes_left s" and sub: "fwd (s\<lparr>bytes_left := n\<rparr>) sub"
  shows "\<exists>e. pb_close_string_substream E sub (s\<lparr>bytes_left := bytes_left s - n\<rparr>) =
    Some (Some (), (adv (unat n) s)\<lparr>i_errmsg := e\<rparr>)"
proof -
  have "length (avail (s\<lparr>bytes_left := n\<rparr>)) = unat n"
    using s left [OF s(1)] by (simp add: limit_avail word_le_nat_alt)
  then obtain k e where "k \<le> unat n" "sub = (adv k (s\<lparr>bytes_left := n\<rparr>))\<lparr>i_errmsg := e\<rparr>"
    using sub unfolding moved_def by auto
  from close_substream_at [OF s this] show ?thesis by blast
qed

lemma close_defined:
  assumes "good sub" "good par"
  shows "\<exists>r s'. pb_close_string_substream E sub par = Some (r, s')"
  using skip_defined [OF assms(1), of "bytes_left sub"]
  by (auto simp: pb_close_string_substream_def c_true_def c_false_def split: option.splits)

end

end
