(* ===== verification/PB_Codec_Props.thy ===== *)
theory PB_Codec_Props
  imports PB_Skip PB_Wire
begin

text \<open>
  Round trips of the scalar encodings through buffer streams, what the decoders do with every input,
  and what skipping and substreams consume.
\<close>

section \<open>Buffers that hold encoded data\<close>

text \<open>User code that must not be called.\<close>

definition no_reader :: dec_user where
  "no_reader = \<lparr>u_read = \<lambda>_ _ _. None, u_decode = \<lambda>_ _ _ _. None,
     u_ext_decode = \<lambda>_ _ _ _ _. None, ext_type = \<lambda>_. None\<rparr>"

definition no_writer :: enc_user where
  "no_writer = \<lparr>u_write = \<lambda>_ _ _. None, u_encode = \<lambda>_ _ _ _ _. None,
     u_ext_encode = \<lambda>_ _ _ _. None, e_ext_type = \<lambda>_. None\<rparr>"

definition holding :: "u8 list \<Rightarrow> pb_istream_t" where
  "holding bs = pb_istream_from_buffer bs (word_of_nat (length bs))"

lemma holding_ok: "length bs < 2 ^ 64 \<Longrightarrow> buf_ok (holding bs) \<and> buf_avail (holding bs) = bs"
  using from_buffer_ok [where n = "word_of_nat (length bs)" and bs = bs] unat_of_nat_64 [of "length bs"]
  by (simp add: holding_def)

lemma holding_adv:
  "length (xs @ ys) < 2 ^ 64 \<Longrightarrow> buf_adv (length xs) (holding (xs @ ys)) = holding ys"
  by (simp add: holding_def buf_adv_def pb_istream_from_buffer_def)

lemma implements_buffer:
  assumes "implements f (w_out bs)" "length bs \<le> unat bufsize" "unat bufsize \<le> room" "unat bufsize \<le> 2 ^ 63"
  shows "f (pb_ostream_from_buffer room bufsize) =
    Some (Some (), bf_put bs (pb_ostream_from_buffer room bufsize))"
  using bf.emits_ok [OF conjunct2 [OF implementsD [OF assms(1)]] _ from_buffer_sink(1) [OF assms(3,4)]]
    assms(2)
  by (simp add: w_out_def from_buffer_sink(2))

lemma written_buffer: "o_written (bf_put bs (pb_ostream_from_buffer room n)) = bs"
  by (simp add: bf_put_def pb_ostream_from_buffer_def)

section \<open>Varints\<close>

text \<open>
  C16: The decoder of 64-bit varints, on any buffer: it returns the value of the varint at the head, read
  modulo 2 ^ 64, and consumes exactly its bytes; it reports the end of the stream when every byte
  left announces another and there are fewer than ten, and an overflow after ten such bytes.
\<close>

theorem decode_varint_behaviour:
  assumes "buf_ok s"
  shows "pb_decode_varint E s =
    (case varint_prefix (take 10 (buf_avail s)) of
       Some p \<Rightarrow> Some (Some (word_of_nat (varint_value p)), buf_adv (length p) s)
     | None \<Rightarrow> if length (buf_avail s) < 10
         then Some (None, set_ierror ''end-of-stream'' (buf_adv (length (buf_avail s)) s))
         else Some (None, set_ierror ''varint overflow'' (buf_adv 10 s)))"
  by (rule buf.decode_varint_eq [OF assms])

theorem decode_varint_behaviour_witness:
  "pb_decode_varint no_reader (holding [0x96, 0x01, 0x2A]) = Some (Some 150, holding [0x2A]) \<and>
   pb_decode_varint no_reader (holding [0x96]) =
     Some (None, set_ierror ''end-of-stream'' (holding []))"
  using decode_varint_behaviour [OF conjunct1 [OF holding_ok], of "[0x96, 0x01, 0x2A]" no_reader]
    decode_varint_behaviour [OF conjunct1 [OF holding_ok], of "[0x96]" no_reader]
    holding_adv [of "[0x96, 0x01]" "[0x2A]"] holding_adv [of "[0x96]" "[]"]
    holding_ok [of "[0x96, 0x01, 0x2A]"] holding_ok [of "[0x96]"]
  by simp

text \<open>
  C17: Every 64-bit value survives the round trip through a buffer: the encoder writes between one and ten
  bytes, and the decoder reads the value back from them and stops right after them.
\<close>

theorem varint_roundtrip:
  assumes "10 \<le> unat bufsize" "unat bufsize \<le> room" "unat bufsize \<le> 2 ^ 63" "length rest < 2 ^ 63"
  shows "\<exists>t. pb_encode_varint E v (pb_ostream_from_buffer room bufsize) = Some (Some (), t) \<and>
    1 \<le> length (o_written t) \<and> length (o_written t) \<le> 10 \<and>
    pb_decode_varint D (holding (o_written t @ rest)) = Some (Some v, holding rest)"
proof -
  let ?bs = "varint_bytes (unat v)"
  have len: "length ?bs \<le> 10" by (rule varint_length_u64)
  have "1 \<le> length ?bs" by (cases ?bs) simp_all
  moreover have "length (?bs @ rest) < 2 ^ 64" using len assms(4) by simp
  ultimately show ?thesis
    using implements_buffer [OF implements_varint, of v bufsize room E] assms len
      buf.decode_varint_of_bytes [of "holding (?bs @ rest)" v rest D] holding_ok [of "?bs @ rest"]
    by (simp add: written_buffer holding_adv)
qed

theorem varint_roundtrip_witness:
  "\<exists>t. pb_encode_varint no_writer 0xFFFFFFFFFFFFFFFF (pb_ostream_from_buffer 10 10) = Some (Some (), t) \<and>
    1 \<le> length (o_written t) \<and> length (o_written t) \<le> 10 \<and>
    pb_decode_varint no_reader (holding (o_written t @ [])) = Some (Some 0xFFFFFFFFFFFFFFFF, holding [])"
  by (rule varint_roundtrip) simp_all

text \<open>
  The 32-bit decoder reads back what the encoder writes for a 32-bit value.
\<close>

theorem varint32_roundtrip:
  assumes "10 \<le> unat bufsize" "unat bufsize \<le> room" "unat bufsize \<le> 2 ^ 63" "length rest < 2 ^ 63"
  shows "\<exists>t. pb_encode_varint E (ucast (v :: u32)) (pb_ostream_from_buffer room bufsize) = Some (Some (), t) \<and>
    pb_decode_varint32 D (holding (o_written t @ rest)) = Some (Some v, holding rest)"
proof -
  let ?bs = "varint_bytes (unat v)"
  have len: "length ?bs \<le> 5" by (rule varint_length_u32)
  then have "length (?bs @ rest) < 2 ^ 64" using assms(4) by simp
  then show ?thesis
    using implements_buffer [OF implements_varint, of "ucast v" bufsize room E] assms len
      buf.decode_varint32_of_bytes [of "holding (?bs @ rest)" v rest D] holding_ok [of "?bs @ rest"]
    by (simp add: written_buffer holding_adv)
qed

theorem varint32_roundtrip_witness:
  "\<exists>t. pb_encode_varint no_writer (ucast (0xFFFFFFFF :: u32)) (pb_ostream_from_buffer 10 10) = Some (Some (), t) \<and>
    pb_decode_varint32 no_reader (holding (o_written t @ [7])) = Some (Some 0xFFFFFFFF, holding [7])"
  by (rule varint32_roundtrip) simp_all

text \<open>
  C18: Signed values survive the zigzag encoding, the least one included.
\<close>

theorem svarint_roundtrip:
  assumes "10 \<le> unat bufsize" "unat bufsize \<le> room" "unat bufsize \<le> 2 ^ 63" "length rest < 2 ^ 63"
  shows "\<exists>t. pb_encode_svarint E v (pb_ostream_from_buffer room bufsize) = Some (Some (), t) \<and>
    pb_decode_svarint D (holding (o_written t @ rest)) = Some (Some v, holding rest)"
proof -
  let ?bs = "varint_bytes (unat (zigzag v))"
  have len: "length ?bs \<le> 10" by (rule varint_length_u64)
  then have "length (?bs @ rest) < 2 ^ 64" using assms(4) by simp
  then show ?thesis
    using implements_buffer [OF implements_varint, of "zigzag v" bufsize room E] assms len
      buf.decode_varint_of_bytes [of "holding (?bs @ rest)" "zigzag v" rest D] holding_ok [of "?bs @ rest"]
    by (simp add: written_buffer holding_adv encode_svarint_eq decode_svarint_eq c_ret_def)
qed

theorem svarint_roundtrip_witness:
  "\<exists>t. pb_encode_svarint no_writer 0x8000000000000000 (pb_ostream_from_buffer 10 10) = Some (Some (), t) \<and>
    pb_decode_svarint no_reader (holding (o_written t @ [])) = Some (Some 0x8000000000000000, holding [])"
  by (rule svarint_roundtrip) simp_all

section \<open>Fixed-width values\<close>

lemma read_holding:
  "length (bs @ rest) < 2 ^ 64 \<Longrightarrow> unat n = length bs \<Longrightarrow>
   pb_read E True n (holding (bs @ rest)) = Some (Some bs, holding rest)"
  using buf.read_ok [of "holding (bs @ rest)" n E True] holding_ok [of "bs @ rest"]
    holding_adv [of bs rest] by simp

text \<open>
  A fixed-width value read from memory and written to a buffer is stored back with the same bytes:
  4 bytes on the wire for a 32-bit value, 8 for a 64-bit one.
\<close>

theorem fixed_roundtrip:
  assumes "load_bytes M p 4 = Some bs" "load_bytes M q 8 = Some cs"
    and "mapped (mem \<mu>) dest 8" "8 \<le> unat bufsize" "unat bufsize \<le> room" "unat bufsize \<le> 2 ^ 63"
    and "length rest < 2 ^ 63"
  shows "\<exists>t u. pb_encode_fixed32 E M p (pb_ostream_from_buffer room bufsize) = Some (Some (), t) \<and>
    pb_encode_fixed64 E M q (pb_ostream_from_buffer room bufsize) = Some (Some (), u) \<and>
    length (o_written t) = 4 \<and> length (o_written u) = 8 \<and>
    pb_decode_fixed32 D dest (holding (o_written t @ rest), \<mu>) =
      Some (Some (), (holding rest, \<mu>\<lparr>mem := put_bytes (mem \<mu>) dest bs\<rparr>)) \<and>
    pb_decode_fixed64 D dest (holding (o_written u @ rest), \<mu>) =
      Some (Some (), (holding rest, \<mu>\<lparr>mem := put_bytes (mem \<mu>) dest cs\<rparr>))"
proof -
  have len: "length bs = 4" "length cs = 8" using assms(1,2) by (simp_all add: load_bytes_length)
  have out: "implements (pb_encode_fixed32 E M p) (w_out bs)" "implements (pb_encode_fixed64 E M q) (w_out cs)"
    using implements_fixed32 [of E M p] implements_fixed64 [of E M q] assms(1,2) by (simp_all add: w_out_def)
  have v: "bytes_le 4 (fixed32_value bs) = bs" "bytes_le 8 (fixed64_value cs) = cs"
    using bytes_le_word_le [of bs, where 'a = 32] bytes_le_word_le [of cs, where 'a = 64] len
    by (simp_all only: fixed32_value_eq fixed64_value_eq) simp_all
  have "length (bs @ rest) < 2 ^ 64" "length (cs @ rest) < 2 ^ 64" using len assms(7) by simp_all
  then have "pb_read D True 4 (holding (bs @ rest)) = Some (Some bs, holding rest)"
    "pb_read D True 8 (holding (cs @ rest)) = Some (Some cs, holding rest)"
    using len by (simp_all add: read_holding)
  moreover have "mapped (mem \<mu>) dest 4" using mapped_sub [OF assms(3), of dest 4] by simp
  ultimately show ?thesis
    using implements_buffer [OF out(1)] implements_buffer [OF out(2)] assms(3-6) len
    by (simp add: written_buffer pb_decode_fixed32_def pb_decode_fixed64_def on_stream_def
        on_machine_def m_store_defined v del: bytes_le_numeral)
qed

definition demo_cell :: "machine" where
  "demo_cell = \<lparr>mem = put_bytes (\<lambda>_. None) 0x40 [1, 2, 3, 4, 5, 6, 7, 8], blocks = (\<lambda>_. None),
     answers = [], junk = (\<lambda>_. 0), sp = 0\<rparr>"

theorem fixed_roundtrip_witness:
  "\<exists>t u. pb_encode_fixed32 no_writer (mem demo_cell) 0x40 (pb_ostream_from_buffer 8 8) = Some (Some (), t) \<and>
    pb_encode_fixed64 no_writer (mem demo_cell) 0x40 (pb_ostream_from_buffer 8 8) = Some (Some (), u) \<and>
    length (o_written t) = 4 \<and> length (o_written u) = 8 \<and>
    pb_decode_fixed32 no_reader 0x40 (holding (o_written t @ []), demo_cell) =
      Some (Some (), (holding [], demo_cell\<lparr>mem := put_bytes (mem demo_cell) 0x40 [1, 2, 3, 4]\<rparr>)) \<and>
    pb_decode_fixed64 no_reader 0x40 (holding (o_written u @ []), demo_cell) =
      Some (Some (), (holding [],
        demo_cell\<lparr>mem := put_bytes (mem demo_cell) 0x40 [1, 2, 3, 4, 5, 6, 7, 8]\<rparr>))"
proof (rule fixed_roundtrip)
  show "load_bytes (mem demo_cell) 0x40 4 = Some [1, 2, 3, 4]" by code_simp
  show m: "load_bytes (mem demo_cell) 0x40 8 = Some [1, 2, 3, 4, 5, 6, 7, 8]" by code_simp
  show "mapped (mem demo_cell) 0x40 8" by (rule load_bytes_mapped [OF m])
qed simp_all

section \<open>Tags and skipping\<close>

text \<open>
  A tag is read back as it was written: wire type and field number, when they fit the 32 bits the
  decoder has and are not both zero, which is the end mark.
\<close>

theorem tag_roundtrip:
  assumes "unat wt < 8" "unat tag < 2 ^ 29" "tag \<noteq> 0 \<or> wt \<noteq> 0"
    and "10 \<le> unat bufsize" "unat bufsize \<le> room" "unat bufsize \<le> 2 ^ 63" "length rest < 2 ^ 63"
  shows "\<exists>t. pb_encode_tag E wt tag (pb_ostream_from_buffer room bufsize) = Some (Some (), t) \<and>
    pb_decode_tag D (holding (o_written t @ rest)) = Some (Some (wt, tag), False, holding rest)"
proof -
  let ?n = "8 * unat tag + unat wt"
  let ?w = "word_of_nat ?n :: u32" and ?bs = "varint_bytes ?n"
  have n: "?n < 2 ^ 32" using assms(1,2) by simp
  then have u: "unat ?w = ?n" by (rule unat_of_nat_32)
  have len: "length ?bs \<le> 5" using varint_length_u32 [of ?w] unfolding u .
  have "?w \<noteq> 0" using u assms(3) by (metis add_is_0 mult_is_0 numeral_eq_Suc nat.distinct(1) unat_0 unat_eq_0)
  moreover have "?w AND 7 = wt"
  proof -
    have "unat (?w AND 7) = unat ?w mod 8"
    proof -
      have "?w AND 7 = take_bit 3 ?w" by (simp only: take_bit_eq_mask mask_eq_exp_minus_1) simp
      then have "unat (?w AND 7) = take_bit 3 (unat ?w)" by (simp only: unsigned_take_bit_eq)
      then show ?thesis by (simp add: take_bit_eq_mod)
    qed
    then show ?thesis using u assms(1) by (simp add: word_unat_eq_iff)
  qed
  moreover have "drop_bit 3 ?w = tag"
  proof -
    have "unat (drop_bit 3 ?w) = unat ?w div 8"
      by (simp only: unsigned_drop_bit_eq unsigned_take_bit_eq [symmetric] take_bit_word_eq_self)
        (simp add: drop_bit_eq_div)
    then show ?thesis using u assms(1) by (simp add: word_unat_eq_iff)
  qed
  moreover have "\<exists>e. pb_decode_varint32_eof D (holding (?bs @ rest)) = Some (Some ?w, e, holding rest)"
  proof -
    have lr: "length (?bs @ rest) < 2 ^ 64" using len assms(7) by simp
    have "pb_decode_varint32 D (holding (?bs @ rest)) = Some (Some ?w, holding rest)"
      using buf.decode_varint32_of_bytes [of "holding (?bs @ rest)" ?w rest D] holding_ok [OF lr]
        holding_adv [OF lr] by (simp only: u)
    then show ?thesis by (auto simp: pb_decode_varint32_def)
  qed
  ultimately have "pb_decode_tag D (holding (?bs @ rest)) = Some (Some (wt, tag), False, holding rest)"
    by (auto simp: pb_decode_tag_def)
  then show ?thesis
    using implements_buffer [OF implements_tag [OF assms(1)], of tag bufsize room E] len assms(4-6)
    by (simp add: wire_key_def written_buffer)
qed

theorem tag_roundtrip_witness:
  "\<exists>t. pb_encode_tag no_writer PB_WT_STRING 1000 (pb_ostream_from_buffer 16 16) = Some (Some (), t) \<and>
    pb_decode_tag no_reader (holding (o_written t @ [])) = Some (Some (PB_WT_STRING, 1000), False, holding [])"
  by (rule tag_roundtrip) simp_all

lemma payload_varint: "payload_length PB_WT_VARINT (varint_bytes n @ rest) = Some (length (varint_bytes n))"
  by (simp add: payload_length_def)

lemma payload_string:
  "length bs < 2 ^ 32 \<Longrightarrow>
   payload_length PB_WT_STRING (varint_bytes (length bs) @ bs @ rest) =
     Some (length (varint_bytes (length bs) @ bs))"
  using varint_length_u32 [of "word_of_nat (length bs)"] unat_of_nat_32 [of "length bs"]
  by (simp add: payload_length_def)

lemma w_string_Some: "w_string b = Some (bs, True) \<Longrightarrow> \<exists>xs. bs = varint_bytes (length xs) @ xs"
  by (auto simp: w_string_def w_out_def split: option.splits)

lemma w_delimited_Some: "w_delimited w = Some (bs, True) \<Longrightarrow> \<exists>xs. bs = varint_bytes (length xs) @ xs"
  by (auto simp: w_delimited_def w_out_def w_fail_def split: option.splits if_splits)

lemma wire_int_Some: "wire_int f v = Some (bs, True) \<Longrightarrow> \<exists>n. bs = varint_bytes n"
  by (auto simp: wire_int_def w_out_def w_fail_def split: option.splits sum.splits)

lemma payload_of_value:
  assumes v: "wire_value M sub field p = Some (bs, True)"
    and t: "wire_type_of (f_ltype field) = Some wt" and len: "length bs < 2 ^ 32"
  shows "payload_length wt (bs @ rest) = Some (length bs)"
proof -
  have str: "payload_length PB_WT_STRING (bs @ rest) = Some (length bs)"
    if "\<exists>xs. bs = varint_bytes (length xs) @ xs"
    using that payload_string len by fastforce
  have vint: "payload_length PB_WT_VARINT (bs @ rest) = Some (length bs)" if "\<exists>n. bs = varint_bytes n"
    using that payload_varint by fastforce
  have bool: "\<exists>n. [0] = varint_bytes n" "\<exists>n. [1] = varint_bytes n"
    using varint_bytes.simps [of 0] varint_bytes.simps [of 1] by (simp_all, metis+)
  have bytes: "\<exists>xs. bs = varint_bytes (length xs) @ xs" if "wire_bytes M field p = Some (bs, True)"
    using that by (auto simp: wire_bytes_def w_fail_def dest!: w_string_Some split: if_splits option.splits)
  have msg: "\<exists>xs. bs = varint_bytes (length xs) @ xs"
    if "(case f_ptr field of NullPtr \<Rightarrow> w_fail | FieldsPtr fs \<Rightarrow> w_delimited (sub fs p) | DataPtr _ \<Rightarrow> None) =
        Some (bs, True)"
    using that w_delimited_Some by (auto simp: w_fail_def split: pb_ptr.splits)
  have "wt = PB_WT_VARINT \<and> (\<exists>n. bs = varint_bytes n) \<or> wt = PB_WT_STRING \<and> (\<exists>xs. bs = varint_bytes (length xs) @ xs) \<or>
      wt = PB_WT_32BIT \<and> length bs = 4 \<or> wt = PB_WT_64BIT \<and> length bs = 8"
    using v t bool bytes msg wire_int_Some w_string_Some load_bytes_length [of M p]
    by (simp add: wire_value_def wire_type_of_def Let_def split: if_splits)
      (metis | blast)+
  then show ?thesis using str vint by (auto simp: payload_length_def)
qed

text \<open>
  A value that the encoder wrote is skipped exactly by a decoder that does not know its field, for
  every field type: the stream is left at the first byte behind the value.
\<close>

theorem skip_written_field:
  assumes "wire_value M sub field p = Some (bs, True)" "wire_type_of (f_ltype field) = Some wt"
    and "length bs < 2 ^ 32" "length rest < 2 ^ 63"
  shows "pb_skip_field D wt (holding (bs @ rest)) = Some (Some (), holding rest)"
proof -
  have len: "length (bs @ rest) < 2 ^ 64" using assms(3,4) by simp
  then show ?thesis
    using buf.skip_field_ok [of "holding (bs @ rest)" wt "length bs" D] holding_ok [OF len]
      payload_of_value [OF assms(1-3)] holding_adv [OF len] by simp
qed

theorem skip_written_field_witness:
  "pb_skip_field no_reader PB_WT_64BIT (holding ([1, 2, 3, 4, 5, 6, 7, 8] @ [0x2A])) = Some (Some (), holding [0x2A])"
proof (rule skip_written_field)
  show "wire_value (mem demo_cell) (\<lambda>_ _. None) (PbField 1 0x05 0 0 8 0 NullPtr) 0x40 =
      Some ([1, 2, 3, 4, 5, 6, 7, 8], True)" by code_simp
  show "wire_type_of (f_ltype (PbField 1 0x05 0 0 8 0 NullPtr)) = Some PB_WT_64BIT" by code_simp
qed simp_all

section \<open>Substreams\<close>

text \<open>
  C19: A length-delimited region is decoded in a substream of exactly its length: the substream holds the
  region and nothing else, and wherever in the region its reader stops, closing it leaves the parent at
  the first byte behind the region.
\<close>

theorem substream_region:
  assumes "length body < 2 ^ 32" "length rest < 2 ^ 63" "k \<le> length body"
  shows "\<exists>sub par. pb_make_string_substream E (holding (varint_bytes (length body) @ body @ rest)) = Some (Some sub, par) \<and>
    buf_avail sub = body \<and>
    pb_close_string_substream E (buf_adv k sub) par = Some (Some (), holding rest)"
proof -
  let ?s = "holding (body @ rest)" and ?n = "word_of_nat (length body) :: u32"
  have u: "unat ?n = length body" using assms(1) by (rule unat_of_nat_32)
  have len: "length (varint_bytes (length body) @ body @ rest) < 2 ^ 64" "length (body @ rest) < 2 ^ 64"
    using assms varint_length_u32 [of ?n] u by simp_all
  note s = holding_ok [OF len(2)]
  have dec: "pb_decode_varint32 E (holding (varint_bytes (length body) @ body @ rest)) = Some (Some ?n, ?s)"
    using buf.decode_varint32_of_bytes [of "holding (varint_bytes (length body) @ body @ rest)" ?n "body @ rest" E]
      holding_ok [OF len(1)] holding_adv [OF len(1)] by (simp only: u)
  have le: "ucast ?n \<le> bytes_left ?s"
    using buf.left [of ?s] s by (simp only: word_le_nat_alt unat_ucast_32_64 u) simp
  let ?sub = "?s\<lparr>bytes_left := ucast ?n\<rparr>" and ?par = "?s\<lparr>bytes_left := bytes_left ?s - ucast ?n\<rparr>"
  have mk: "pb_make_string_substream E (holding (varint_bytes (length body) @ body @ rest)) = Some (Some ?sub, ?par)"
    using dec le by (simp add: pb_make_string_substream_def c_ret_def leD)
  have sub: "buf_avail ?sub = body"
    using buf.limit_avail [OF conjunct1 [OF s] le] s by (simp only: unat_ucast_32_64 u) simp
  have "buf_adv k ?sub = (buf_adv k ?sub)\<lparr>i_errmsg := None\<rparr>"
    by (simp add: buf_adv_def holding_def pb_istream_from_buffer_def)
  from buf.close_substream_at [OF conjunct1 [OF s] le _ this] assms(3)
  have "pb_close_string_substream E (buf_adv k ?sub) ?par =
      Some (Some (), (buf_adv (length body) ?s)\<lparr>i_errmsg := None\<rparr>)"
    by (simp only: unat_ucast_32_64 u)
  moreover have "(buf_adv (length body) ?s)\<lparr>i_errmsg := None\<rparr> = holding rest"
    using holding_adv [OF len(2)] by (simp add: holding_def pb_istream_from_buffer_def)
  ultimately show ?thesis using mk sub by metis
qed

theorem substream_region_witness:
  "\<exists>sub par. pb_make_string_substream no_reader (holding (varint_bytes (length [1, 2, 3 :: u8]) @ [1, 2, 3] @ [9])) =
      Some (Some sub, par) \<and> buf_avail sub = [1, 2, 3] \<and>
    pb_close_string_substream no_reader (buf_adv 1 sub) par = Some (Some (), holding [9])"
  by (rule substream_region) simp_all

section \<open>Where the 32-bit decoder accepts more than it should\<close>

text \<open>
  A varint of more than five bytes whose fifth byte carries bits 32 to 34 is accepted and these bits
  are dropped: what the 64-bit decoder reads as 0x700000000, the 32-bit decoder reads as 0.  The overflow check of the fifth byte is made
  only when it is the last one.
\<close>

theorem varint32_drops_bits:
  "pb_decode_varint32 no_reader (holding [0x80, 0x80, 0x80, 0x80, 0xF0, 0x00]) = Some (Some 0, holding []) \<and>
   pb_decode_varint no_reader (holding [0x80, 0x80, 0x80, 0x80, 0xF0, 0x00]) = Some (Some 0x700000000, holding [])"
  by code_simp

end
