(* ===== verification/PB_Message.thy ===== *)
theory PB_Message
  imports PB_Decode
begin

text \<open>
  The second half of \<open>pb_decode.c\<close>: decoding a field by its allocation and repetition rule, extensions,
  and the main loop over the fields of a message with its checks for required fields.
\<close>

section \<open>Static fields\<close>

text \<open>The packed-array loop; the stream is the substream, \<open>*size\<close> is in memory.\<close>

definition packed_step :: "pb_field \<Rightarrow> pb_decoder_t \<Rightarrow> addr \<Rightarrow> addr \<Rightarrow> dstate \<Rightarrow>
    ((bool \<times> dstate) + dstate) option" where
  "packed_step field func pdata psize \<sigma> =
     (if bytes_left (fst \<sigma>) = 0 then Some (Inl (True, \<sigma>))
      else case load_u32 (mem (snd \<sigma>)) psize of None \<Rightarrow> None
      | Some n \<Rightarrow>
        if n < f_array_size field
        then (case func field (pdata + uint (f_data_size field * n)) \<sigma> of None \<Rightarrow> None
          | Some (None, \<sigma>) \<Rightarrow> Some (Inl (False, \<sigma>))
          | Some (Some _, \<sigma>) \<Rightarrow>
            (case load_u32 (mem (snd \<sigma>)) psize of None \<Rightarrow> None
             | Some n \<Rightarrow> map_option (\<lambda>\<mu>. Inr (fst \<sigma>, \<mu>))
                 (m_store psize (bytes_le 4 (n + 1)) (snd \<sigma>))))
        else Some (Inl (True, \<sigma>)))"

definition decode_packed_static :: "dec_user \<Rightarrow> pb_field \<Rightarrow> pb_decoder_t \<Rightarrow> addr \<Rightarrow> addr \<Rightarrow>
    dstate \<Rightarrow> (unit, dstate) cres" where
  "decode_packed_static E field func pdata psize \<sigma> =
     c_bind (on_stream (pb_make_string_substream E) \<sigma>) (\<lambda>sub \<sigma>.
       case c_loop (packed_step field func pdata psize) (sub, snd \<sigma>) of None \<Rightarrow> None
       | Some (status, (sub, \<mu>)) \<Rightarrow>
         if bytes_left sub \<noteq> 0 then ret_derror ''array overflow'' (fst \<sigma>, \<mu>)
         else close_with E (fst \<sigma>) (if status then Some () else None, (sub, \<mu>)))"

definition decode_static_field :: "dec_user \<Rightarrow> msg_ops \<Rightarrow> pb_wire_type_t \<Rightarrow> pb_field_iter_t \<Rightarrow>
    dstate \<Rightarrow> (unit, dstate) cres" where
  "decode_static_field E R wire_type it \<sigma> =
     (let field = it_field it; func = PB_DECODERS E R (f_ltype field) in
      if f_htype field = PB_HTYPE_REQUIRED then func field (pData it) \<sigma>
      else if f_htype field = PB_HTYPE_OPTIONAL
      then c_bind (if pSize it \<noteq> pData it then on_machine (m_store (pSize it) [1]) \<sigma> else c_true \<sigma>)
             (\<lambda>_ \<sigma>. func field (pData it) \<sigma>)
      else if f_htype field = PB_HTYPE_REPEATED
      then if wire_type = PB_WT_STRING \<and> f_ltype field \<le> PB_LTYPE_LAST_PACKABLE
           then decode_packed_static E field func (pData it) (pSize it) \<sigma>
           else (case load_u32 (mem (snd \<sigma>)) (pSize it) of None \<Rightarrow> None
             | Some n \<Rightarrow>
               c_bind (on_machine (m_store (pSize it) (bytes_le 4 (n + 1))) \<sigma>) (\<lambda>_ \<sigma>.
                 if f_array_size field \<le> n then ret_derror ''array overflow'' \<sigma>
                 else func field (pData it + uint (f_data_size field * n)) \<sigma>))
      else \<comment> \<open>\<open>PB_HTYPE_ONEOF\<close>, the only other value of the two bits\<close>
        c_bind (on_machine (m_store (pSize it) (bytes_le 4 (f_tag field))) \<sigma>) (\<lambda>_ \<sigma>.
        c_bind (if f_ltype field = PB_LTYPE_SUBMESSAGE
                then c_bind (on_machine (m_memset (pData it) 0 (unat (f_data_size field))) \<sigma>) (\<lambda>_ \<sigma>.
                  (case f_ptr field of
                     FieldsPtr fs \<Rightarrow> on_machine (op_defaults R fs (pData it)) \<sigma>
                   | _ \<Rightarrow> None))
                else c_true \<sigma>)
          (\<lambda>_ \<sigma>. func field (pData it) \<sigma>)))"

section \<open>Pointer fields\<close>

definition initialize_pointer_field :: "msg_ops \<Rightarrow> addr \<Rightarrow> pb_field \<Rightarrow> machine \<Rightarrow> machine option" where
  "initialize_pointer_field R pItem field \<mu> =
     (if f_ltype field = PB_LTYPE_STRING \<or> f_ltype field = PB_LTYPE_BYTES
      then m_store_ptr pItem 0 \<mu>
      else if f_ltype field = PB_LTYPE_SUBMESSAGE
      then Option.bind (m_memset pItem 0 (unat (f_data_size field)) \<mu>) (\<lambda>\<mu>.
        (case f_ptr field of FieldsPtr fs \<Rightarrow> op_defaults R fs pItem \<mu> | _ \<Rightarrow> None))
      else Some \<mu>)"

text \<open>
  One round of the packed loop of \<open>decode_pointer_field\<close>.  The loop state has \<open>allocated_size\<close>; a
  full count sets the message of the outer stream, which is the first component of the exit.
\<close>

definition packed_ptr_step :: "msg_ops \<Rightarrow> pb_field \<Rightarrow> pb_decoder_t \<Rightarrow> addr \<Rightarrow> addr \<Rightarrow> u64 \<times> dstate \<Rightarrow>
    ((string option \<times> bool \<times> dstate) + (u64 \<times> dstate)) option" where
  "packed_ptr_step R field func pdata psize x = (case x of (allocated, \<sigma>) \<Rightarrow>
     if bytes_left (fst \<sigma>) = 0 then Some (Inl (None, True, \<sigma>))
     else (case load_u32 (mem (snd \<sigma>)) psize of None \<Rightarrow> None
       | Some n \<Rightarrow>
         if n = PB_SIZE_MAX then Some (Inl (Some ''too many array entries'', False, \<sigma>))
         else
           let grow = allocated < ucast n + 1;
               remain = (bytes_left (fst \<sigma>) - 1) div ucast (f_data_size field) + 1;
               allocated' = (if grow
                 then if remain < ucast PB_SIZE_MAX - allocated then allocated + remain else allocated + 1
                 else allocated)
           in if grow \<and> f_data_size field = 0 then None
           else (case (if grow then allocate_field pdata (ucast (f_data_size field)) allocated' \<sigma>
                       else c_true \<sigma>) of None \<Rightarrow> None
             | Some (None, \<sigma>) \<Rightarrow> Some (Inl (None, False, \<sigma>))
             | Some (Some _, \<sigma>) \<Rightarrow>
               (case load_ptr (mem (snd \<sigma>)) pdata of None \<Rightarrow> None
                | Some arr \<Rightarrow>
                  let pItem = arr + uint (f_data_size field * n) in
                  (case c_bind (on_machine (initialize_pointer_field R pItem field) \<sigma>)
                               (\<lambda>_ \<sigma>. func field pItem \<sigma>) of None \<Rightarrow> None
                   | Some (None, \<sigma>) \<Rightarrow> Some (Inl (None, False, \<sigma>))
                   | Some (Some _, \<sigma>) \<Rightarrow>
                     (case load_u32 (mem (snd \<sigma>)) psize of None \<Rightarrow> None
                      | Some n \<Rightarrow> map_option (\<lambda>\<mu>. Inr (allocated', (fst \<sigma>, \<mu>)))
                          (m_store psize (bytes_le 4 (n + 1)) (snd \<sigma>))))))))"

definition decode_packed_pointer :: "dec_user \<Rightarrow> msg_ops \<Rightarrow> pb_field \<Rightarrow> pb_decoder_t \<Rightarrow> addr \<Rightarrow> addr \<Rightarrow>
    dstate \<Rightarrow> (unit, dstate) cres" where
  "decode_packed_pointer E R field func pdata psize \<sigma> =
     (case load_u32 (mem (snd \<sigma>)) psize of None \<Rightarrow> None
      | Some n \<Rightarrow>
        c_bind (on_stream (pb_make_string_substream E) \<sigma>) (\<lambda>sub \<sigma>.
          case c_loop (packed_ptr_step R field func pdata psize) (ucast n, (sub, snd \<sigma>)) of None \<Rightarrow> None
          | Some (msg, status, (sub, \<mu>)) \<Rightarrow>
            let s = (case msg of None \<Rightarrow> fst \<sigma> | Some m \<Rightarrow> (fst \<sigma>)\<lparr>i_errmsg := Some m\<rparr>)
            in close_with E s (if status then Some () else None, (sub, \<mu>))))"

definition decode_pointer_field :: "dec_user \<Rightarrow> msg_ops \<Rightarrow> pb_wire_type_t \<Rightarrow> pb_field_iter_t \<Rightarrow>
    dstate \<Rightarrow> (unit, dstate) cres" where
  "decode_pointer_field E R wire_type it \<sigma> =
     (let field = it_field it; func = PB_DECODERS E R (f_ltype field) in
      if f_htype field = PB_HTYPE_REPEATED
      then if wire_type = PB_WT_STRING \<and> f_ltype field \<le> PB_LTYPE_LAST_PACKABLE
           then decode_packed_pointer E R field func (pData it) (pSize it) \<sigma>
           else (case load_u32 (mem (snd \<sigma>)) (pSize it) of None \<Rightarrow> None
             | Some n \<Rightarrow>
               if n = PB_SIZE_MAX then ret_derror ''too many array entries'' \<sigma>
               else c_bind (allocate_field (pData it) (ucast (f_data_size field)) (ucast (n + 1)) \<sigma>) (\<lambda>_ \<sigma>.
                 (case load_ptr (mem (snd \<sigma>)) (pData it) of None \<Rightarrow> None
                  | Some arr \<Rightarrow>
                    let pItem = arr + uint (f_data_size field * n) in
                    c_bind (on_machine (m_store (pSize it) (bytes_le 4 (n + 1))) \<sigma>) (\<lambda>_ \<sigma>.
                    c_bind (on_machine (initialize_pointer_field R pItem field) \<sigma>) (\<lambda>_ \<sigma>.
                      func field pItem \<sigma>)))))
      else \<comment> \<open>required, optional, oneof\<close>
        (case load_ptr (mem (snd \<sigma>)) (pData it) of None \<Rightarrow> None
         | Some old \<Rightarrow>
           c_bind (if f_ltype field = PB_LTYPE_SUBMESSAGE \<and> old \<noteq> 0
                   then on_machine (op_release_field R it) \<sigma> else c_true \<sigma>) (\<lambda>_ \<sigma>.
           c_bind (if f_htype field = PB_HTYPE_ONEOF
                   then on_machine (m_store (pSize it) (bytes_le 4 (f_tag field))) \<sigma> else c_true \<sigma>) (\<lambda>_ \<sigma>.
             if f_ltype field = PB_LTYPE_STRING \<or> f_ltype field = PB_LTYPE_BYTES
             then func field (pData it) \<sigma>
             else c_bind (allocate_field (pData it) (ucast (f_data_size field)) 1 \<sigma>) (\<lambda>_ \<sigma>.
               (case load_ptr (mem (snd \<sigma>)) (pData it) of None \<Rightarrow> None
                | Some p \<Rightarrow>
                  c_bind (on_machine (initialize_pointer_field R p field) \<sigma>) (\<lambda>_ \<sigma>.
                    func field p \<sigma>)))))))"

section \<open>Callback fields\<close>

definition callback_step :: "dec_user \<Rightarrow> addr \<Rightarrow> pb_field \<Rightarrow> addr \<Rightarrow> dstate \<Rightarrow>
    ((bool \<times> dstate) + dstate) option" where
  "callback_step E fn field arg \<sigma> = (case u_decode E fn field arg \<sigma> of None \<Rightarrow> None
     | Some (None, \<sigma>) \<Rightarrow> Some (Inl (False, \<sigma>))
     | Some (Some _, \<sigma>) \<Rightarrow> Some (if bytes_left (fst \<sigma>) \<noteq> 0 then Inr \<sigma> else Inl (True, \<sigma>)))"

definition decode_callback_field :: "dec_user \<Rightarrow> pb_wire_type_t \<Rightarrow> pb_field_iter_t \<Rightarrow>
    dstate \<Rightarrow> (unit, dstate) cres" where
  "decode_callback_field E wire_type it \<sigma> =
     (if pData it = 0 then on_stream (pb_skip_field E wire_type) \<sigma>
      else case load_ptr (mem (snd \<sigma>)) (pData it + CB_FUNCS) of None \<Rightarrow> None
      | Some fn \<Rightarrow>
        let arg = pData it + CB_ARG in
        if fn = 0 then on_stream (pb_skip_field E wire_type) \<sigma>
        else if wire_type = PB_WT_STRING
        then c_bind (on_stream (pb_make_string_substream E) \<sigma>) (\<lambda>sub \<sigma>.
          case c_loop (callback_step E fn (it_field it) arg) (sub, snd \<sigma>) of None \<Rightarrow> None
          | Some (status, (sub, \<mu>)) \<Rightarrow>
            if \<not> status then ret_derror ''callback failed'' (fst \<sigma>, \<mu>)
            else close_with E (fst \<sigma>) (Some (), (sub, \<mu>)))
        else c_bind (on_stream (read_raw_value E wire_type 10) \<sigma>) (\<lambda>buffer \<sigma>.
          map_option (\<lambda>(r, (sub, \<mu>)). (r, (fst \<sigma>, \<mu>)))
            (u_decode E fn (it_field it) arg
               (pb_istream_from_buffer buffer (word_of_nat (length buffer)), snd \<sigma>))))"

section \<open>Fields\<close>

definition pb_release_union_field :: "msg_ops \<Rightarrow> pb_field_iter_t \<Rightarrow> dstate \<Rightarrow> (pb_field_iter_t, dstate) cres" where
  "pb_release_union_field R it \<sigma> =
     (case load_u32 (mem (snd \<sigma>)) (pSize it) of None \<Rightarrow> None
      | Some old_tag \<Rightarrow>
        let new_tag = f_tag (it_field it) in
        if old_tag = 0 then c_ret it \<sigma>
        else if old_tag = new_tag then c_ret it \<sigma>
        else (case pb_field_iter_find it old_tag of None \<Rightarrow> None
          | Some (found, it) \<Rightarrow>
            if \<not> found then ret_derror ''invalid union tag'' \<sigma>
            else c_bind (on_machine (op_release_field R it) \<sigma>) (\<lambda>_ \<sigma>.
              (case pb_field_iter_find it new_tag of None \<Rightarrow> None
               | Some (found, it) \<Rightarrow>
                 if \<not> found then ret_derror ''iterator error'' \<sigma> else c_ret it \<sigma>))))"

text \<open>The out value is the iterator, which the release of an old union member moves and restores.\<close>

definition decode_field :: "dec_user \<Rightarrow> msg_ops \<Rightarrow> pb_wire_type_t \<Rightarrow> pb_field_iter_t \<Rightarrow>
    dstate \<Rightarrow> (pb_field_iter_t, dstate) cres" where
  "decode_field E R wire_type it \<sigma> =
     c_bind (if f_htype (it_field it) = PB_HTYPE_ONEOF then pb_release_union_field R it \<sigma> else c_ret it \<sigma>)
       (\<lambda>it \<sigma>. c_bind
          (if f_atype (it_field it) = PB_ATYPE_STATIC then decode_static_field E R wire_type it \<sigma>
           else if f_atype (it_field it) = PB_ATYPE_POINTER then decode_pointer_field E R wire_type it \<sigma>
           else if f_atype (it_field it) = PB_ATYPE_CALLBACK then decode_callback_field E wire_type it \<sigma>
           else ret_derror ''invalid field type'' \<sigma>)
          (\<lambda>_ \<sigma>. c_ret it \<sigma>))"

section \<open>Extensions\<close>

definition default_extension_decoder :: "dec_user \<Rightarrow> msg_ops \<Rightarrow> addr \<Rightarrow> u32 \<Rightarrow> pb_wire_type_t \<Rightarrow>
    dstate \<Rightarrow> (unit, dstate) cres" where
  "default_extension_decoder E R extension tag wire_type \<sigma> =
     (case Option.bind (load_ptr (mem (snd \<sigma>)) (extension + EXT_TYPE)) (ext_type E) of None \<Rightarrow> None
      | Some et \<Rightarrow>
        if f_tag (et_arg et) \<noteq> tag then c_true \<sigma>
        else (case iter_from_extension E extension (snd \<sigma>) of None \<Rightarrow> None
          | Some it \<Rightarrow>
            c_bind (on_machine (m_store (extension + EXT_FOUND) [1]) \<sigma>) (\<lambda>_ \<sigma>.
            c_bind (decode_field E R wire_type it \<sigma>) (\<lambda>_ \<sigma>. c_true \<sigma>))))"

definition ext_decode_step :: "dec_user \<Rightarrow> msg_ops \<Rightarrow> u64 \<Rightarrow> u32 \<Rightarrow> pb_wire_type_t \<Rightarrow> addr \<times> dstate \<Rightarrow>
    ((unit option \<times> dstate) + (addr \<times> dstate)) option" where
  "ext_decode_step E R pos tag wire_type x = (case x of (extension, \<sigma>) \<Rightarrow>
     if extension = 0 \<or> pos \<noteq> bytes_left (fst \<sigma>) then Some (Inl (Some (), \<sigma>))
     else (case Option.bind (load_ptr (mem (snd \<sigma>)) (extension + EXT_TYPE)) (ext_type E) of None \<Rightarrow> None
       | Some et \<Rightarrow>
         (case (if et_decode et \<noteq> 0 then u_ext_decode E (et_decode et) extension tag wire_type \<sigma>
                else default_extension_decoder E R extension tag wire_type \<sigma>) of None \<Rightarrow> None
          | Some (None, \<sigma>) \<Rightarrow> Some (Inl (None, \<sigma>))
          | Some (Some _, \<sigma>) \<Rightarrow> map_option (\<lambda>next. Inr (next, \<sigma>))
              (load_ptr (mem (snd \<sigma>)) (extension + EXT_NEXT)))))"

definition decode_extension :: "dec_user \<Rightarrow> msg_ops \<Rightarrow> u32 \<Rightarrow> pb_wire_type_t \<Rightarrow> pb_field_iter_t \<Rightarrow>
    dstate \<Rightarrow> (unit, dstate) cres" where
  "decode_extension E R tag wire_type it \<sigma> =
     (case load_ptr (mem (snd \<sigma>)) (pData it) of None \<Rightarrow> None
      | Some extension \<Rightarrow>
        c_loop (ext_decode_step E R (bytes_left (fst \<sigma>)) tag wire_type) (extension, \<sigma>))"

definition find_ext_step :: "nat \<Rightarrow> pb_field_iter_t \<Rightarrow> ((bool \<times> pb_field_iter_t) + pb_field_iter_t) option" where
  "find_ext_step start it =
     (if f_ltype (it_field it) = PB_LTYPE_EXTENSION then Some (Inl (True, it))
      else let it' = snd (pb_field_iter_next it) in
        if it_pos it' \<noteq> start then Some (Inr it') else Some (Inl (False, it')))"

definition find_extension_field :: "pb_field_iter_t \<Rightarrow> (bool \<times> pb_field_iter_t) option" where
  "find_extension_field it = c_loop (find_ext_step (it_pos it)) it"

section \<open>Messages\<close>

text \<open>
  The local variables of \<open>pb_decode_noinit\<close>.  \<open>fixed_count_size\<close>, whose address goes into the iterator,
  is in memory at the stack address passed as \<open>fc\<close>.
\<close>

record dec_locals =
  l_iter :: pb_field_iter_t
  l_seen :: "u32 list"
  l_ext_start :: u32
  l_fixed :: "nat option"

text \<open>A tag no field has: extensions, else skip.  \<open>Inl\<close> is \<open>return false\<close>, \<open>Inr\<close> is \<open>continue\<close>.\<close>

definition unknown_field :: "dec_user \<Rightarrow> msg_ops \<Rightarrow> u32 \<Rightarrow> pb_wire_type_t \<Rightarrow> dec_locals \<Rightarrow> dstate \<Rightarrow>
    (dec_locals, dstate) cres" where
  "unknown_field E R tag wire_type l \<sigma> =
     (case (if l_ext_start l \<le> tag then find_extension_field (l_iter l) else Some (False, l_iter l)) of
        None \<Rightarrow> None
      | Some (found, it) \<Rightarrow>
        let l = (if l_ext_start l \<le> tag
                 then l\<lparr>l_iter := it, l_ext_start := (if found then f_tag (it_field it) else - 1)\<rparr>
                 else l);
            ext = (l_ext_start l \<le> tag)
        in c_bind (if ext then decode_extension E R tag wire_type it \<sigma> else c_true \<sigma>) (\<lambda>_ \<sigma>'.
             if ext \<and> bytes_left (fst \<sigma>) \<noteq> bytes_left (fst \<sigma>') then c_ret l \<sigma>'
             else c_bind (on_stream (pb_skip_field E wire_type) \<sigma>') (\<lambda>_ \<sigma>. c_ret l \<sigma>)))"

text \<open>A repeated field of fixed count has no counter in the structure; it uses \<open>fixed_count_size\<close>.\<close>

definition fixed_count_setup :: "addr \<Rightarrow> dec_locals \<Rightarrow> dstate \<Rightarrow> (dec_locals, dstate) cres" where
  "fixed_count_setup fc l \<sigma> =
     (let it = l_iter l in
      if f_htype (it_field it) = PB_HTYPE_REPEATED \<and> pSize it = pData it
      then c_bind
        (if l_fixed l \<noteq> Some (it_pos it)
         then c_bind (case l_fixed l of None \<Rightarrow> c_true \<sigma>
               | Some i \<Rightarrow> (case load_u32 (mem (snd \<sigma>)) fc of None \<Rightarrow> None
                   | Some n \<Rightarrow> if n \<noteq> f_array_size (field_at (it_start it) i)
                       then ret_derror ''wrong size for fixed count field'' \<sigma> else c_true \<sigma>))
               (\<lambda>_ \<sigma>. c_bind (on_machine (m_store fc (bytes_le 4 (0 :: u32))) \<sigma>) (\<lambda>_ \<sigma>.
                  c_ret (l\<lparr>l_fixed := Some (it_pos it)\<rparr>) \<sigma>))
         else c_ret l \<sigma>)
        (\<lambda>l \<sigma>. c_ret (l\<lparr>l_iter := it\<lparr>pSize := fc\<rparr>\<rparr>) \<sigma>)
      else c_ret l \<sigma>)"

definition mark_seen :: "pb_field_iter_t \<Rightarrow> u32 list \<Rightarrow> u32 list" where
  "mark_seen it seen =
     (if f_htype (it_field it) = PB_HTYPE_REQUIRED \<and> required_field_index it < PB_MAX_REQUIRED_FIELDS
      then let i = required_field_index it
           in seen[i div 32 := seen ! (i div 32) OR push_bit (i mod 32) 1]
      else seen)"

definition known_field :: "dec_user \<Rightarrow> msg_ops \<Rightarrow> addr \<Rightarrow> pb_wire_type_t \<Rightarrow> dec_locals \<Rightarrow> dstate \<Rightarrow>
    (dec_locals, dstate) cres" where
  "known_field E R fc wire_type l \<sigma> =
     c_bind (fixed_count_setup fc l \<sigma>) (\<lambda>l \<sigma>.
       let l = l\<lparr>l_seen := mark_seen (l_iter l) (l_seen l)\<rparr>
       in c_bind (decode_field E R wire_type (l_iter l) \<sigma>) (\<lambda>it \<sigma>. c_ret (l\<lparr>l_iter := it\<rparr>) \<sigma>))"

definition noinit_step :: "dec_user \<Rightarrow> msg_ops \<Rightarrow> addr \<Rightarrow> dec_locals \<times> dstate \<Rightarrow>
    ((dec_locals option \<times> dstate) + (dec_locals \<times> dstate)) option" where
  "noinit_step E R fc x = (case x of (l, (s, \<mu>)) \<Rightarrow>
     if bytes_left s = 0 then Some (Inl (Some l, (s, \<mu>)))
     else (case pb_decode_tag E s of None \<Rightarrow> None
       | Some (None, eof, s) \<Rightarrow> Some (Inl (if eof then Some l else None, (s, \<mu>)))
       | Some (Some (wire_type, tag), _, s) \<Rightarrow>
         (case pb_field_iter_find (l_iter l) tag of None \<Rightarrow> None
          | Some (found, it) \<Rightarrow>
            (case (if found then known_field E R fc wire_type (l\<lparr>l_iter := it\<rparr>) (s, \<mu>)
                   else unknown_field E R tag wire_type (l\<lparr>l_iter := it\<rparr>) (s, \<mu>)) of None \<Rightarrow> None
             | Some (None, \<sigma>) \<Rightarrow> Some (Inl (None, \<sigma>))
             | Some (Some l, \<sigma>) \<Rightarrow> Some (Inr (l, \<sigma>))))))"

text \<open>The number of required fields, found by stepping to the end of the descriptor array.\<close>

definition req_count_step :: "pb_field_iter_t \<Rightarrow> ((nat \<times> u8 \<times> pb_field_iter_t) + pb_field_iter_t) option" where
  "req_count_step it = (case pb_field_iter_next it of (go, it') \<Rightarrow>
     Some (if go then Inr it' else Inl (required_field_index it, f_type (it_field it), it')))"

definition req_field_count :: "pb_field_iter_t \<Rightarrow> nat option" where
  "req_field_count it = map_option (\<lambda>(n, last_type, it).
     min PB_MAX_REQUIRED_FIELDS
       (if PB_HTYPE last_type = PB_HTYPE_REQUIRED \<and> f_tag (it_field it) \<noteq> 0 then Suc n else n))
     (c_loop req_count_step it)"

definition all_required_seen :: "nat \<Rightarrow> u32 list \<Rightarrow> bool" where
  "all_required_seen n seen \<longleftrightarrow>
     n = 0 \<or>
     list_all (\<lambda>i. seen ! i = - 1) [0..<n div 32] \<and>
     (n mod 32 \<noteq> 0 \<longrightarrow> seen ! (n div 32) = drop_bit (32 - n mod 32) (- 1))"

definition finish_message :: "addr \<Rightarrow> dec_locals \<Rightarrow> dstate \<Rightarrow> (unit, dstate) cres" where
  "finish_message fc l \<sigma> =
     c_bind (case l_fixed l of None \<Rightarrow> c_true \<sigma>
       | Some i \<Rightarrow> (case load_u32 (mem (snd \<sigma>)) fc of None \<Rightarrow> None
           | Some n \<Rightarrow> if n \<noteq> f_array_size (field_at (it_start (l_iter l)) i)
               then ret_derror ''wrong size for fixed count field'' \<sigma> else c_true \<sigma>))
     (\<lambda>_ \<sigma>. case req_field_count (l_iter l) of None \<Rightarrow> None
       | Some n \<Rightarrow> if all_required_seen n (l_seen l) then c_true \<sigma>
           else ret_derror ''missing required field'' \<sigma>)"

definition pb_decode_noinit_with :: "dec_user \<Rightarrow> msg_ops \<Rightarrow> msg_decoder_t" where
  "pb_decode_noinit_with E R fs dest \<sigma> =
     (let (fc, \<mu>) = push_local (bytes_le 4 (0 :: u32)) (snd \<sigma>);
          it = snd (pb_field_iter_begin fs dest);
          l = \<lparr>l_iter = it, l_seen = [0, 0], l_ext_start = 0, l_fixed = None\<rparr>
      in map_option (\<lambda>(r, \<sigma>). (r, (fst \<sigma>, pop_local 4 (snd \<sigma>))))
        (case c_loop (noinit_step E R fc) (l, (fst \<sigma>, \<mu>)) of None \<Rightarrow> None
         | Some (None, \<sigma>) \<Rightarrow> c_false \<sigma>
         | Some (Some l, \<sigma>) \<Rightarrow> finish_message fc l \<sigma>))"

definition msg_ops_at :: "nat \<Rightarrow> dec_user \<Rightarrow> msg_decoder_t \<Rightarrow> msg_ops" where
  "msg_ops_at n E noinit =
     \<lparr>op_noinit = noinit, op_defaults = pb_message_set_to_defaults n E,
      op_release = pb_release n E, op_release_field = pb_release_single_field n E\<rparr>"

primrec pb_decode_noinit :: "nat \<Rightarrow> dec_user \<Rightarrow> msg_decoder_t" where
  "pb_decode_noinit 0 = (\<lambda>E fs dest \<sigma>. None)"
| "pb_decode_noinit (Suc n) =
     (\<lambda>E. pb_decode_noinit_with E (msg_ops_at n E (pb_decode_noinit n E)))"

definition pb_decode :: "nat \<Rightarrow> dec_user \<Rightarrow> msg_decoder_t" where
  "pb_decode n E = pb_decode_with (msg_ops_at n E (pb_decode_noinit n E))"

definition decode_delimited_with :: "dec_user \<Rightarrow> msg_decoder_t \<Rightarrow> msg_decoder_t" where
  "decode_delimited_with E dec fs dest \<sigma> =
     c_bind (on_stream (pb_make_string_substream E) \<sigma>) (\<lambda>sub \<sigma>.
       Option.bind (dec fs dest (sub, snd \<sigma>)) (close_with E (fst \<sigma>)))"

definition pb_decode_delimited_noinit :: "nat \<Rightarrow> dec_user \<Rightarrow> msg_decoder_t" where
  "pb_decode_delimited_noinit n E = decode_delimited_with E (pb_decode_noinit n E)"

definition pb_decode_delimited :: "nat \<Rightarrow> dec_user \<Rightarrow> msg_decoder_t" where
  "pb_decode_delimited n E = decode_delimited_with E (pb_decode n E)"

definition pb_decode_nullterminated :: "nat \<Rightarrow> dec_user \<Rightarrow> msg_decoder_t" where
  "pb_decode_nullterminated n E = pb_decode n E"

end
