(* ===== verification/PB_Frame.thy ===== *)
theory PB_Frame
  imports PB_Message
begin

text \<open>
  Which bytes an operation may touch.  The theory states when a message descriptor describes only
  static fields that lie inside the message structure, and shows that setting defaults and releasing
  such a message stay inside the structure.
\<close>

section \<open>Changes inside a set of addresses\<close>

definition span :: "addr \<Rightarrow> int \<Rightarrow> addr set" where
  "span a n = {a..<a + n}"

lemma span_sub: "span a n \<subseteq> A \<Longrightarrow> a \<le> b \<Longrightarrow> b + m \<le> a + n \<Longrightarrow> span b m \<subseteq> A"
  by (auto simp: span_def)

lemma span_mapped: "span a (int n) \<subseteq> dom M \<longleftrightarrow> mapped M a n"
  by (auto simp: span_def mapped_def dom_def)

definition writes :: "addr set \<Rightarrow> machine \<Rightarrow> machine \<Rightarrow> bool" where
  "writes A \<mu> \<mu>' \<longleftrightarrow> (\<exists>M. \<mu>' = \<mu>\<lparr>mem := M\<rparr> \<and> dom M = dom (mem \<mu>) \<and> (\<forall>x. x \<notin> A \<longrightarrow> M x = mem \<mu> x))"

lemma writes_refl [simp, intro]: "writes A \<mu> \<mu>"
  unfolding writes_def by (intro exI [of _ "mem \<mu>"]) simp

lemma writes_trans:
  assumes "writes A \<mu> \<mu>'" "writes A \<mu>' \<mu>''"
  shows "writes A \<mu> \<mu>''"
proof -
  obtain M where M: "\<mu>' = \<mu>\<lparr>mem := M\<rparr>" "dom M = dom (mem \<mu>)" "\<forall>x. x \<notin> A \<longrightarrow> M x = mem \<mu> x"
    using assms(1) unfolding writes_def by blast
  obtain N where "\<mu>'' = \<mu>'\<lparr>mem := N\<rparr>" "dom N = dom (mem \<mu>')" "\<forall>x. x \<notin> A \<longrightarrow> N x = mem \<mu>' x"
    using assms(2) unfolding writes_def by blast
  with M show ?thesis unfolding writes_def by (intro exI [of _ N]) simp
qed

lemma writes_mono: "writes A \<mu> \<mu>' \<Longrightarrow> A \<subseteq> B \<Longrightarrow> writes B \<mu> \<mu>'"
  unfolding writes_def by blast

lemma writes_dom: "writes A \<mu> \<mu>' \<Longrightarrow> dom (mem \<mu>') = dom (mem \<mu>)"
  unfolding writes_def by (elim exE conjE) simp

lemma writes_sp: "writes A \<mu> \<mu>' \<Longrightarrow> sp \<mu>' = sp \<mu>"
  unfolding writes_def by auto

lemma writes_same: "writes A \<mu> \<mu>' \<Longrightarrow> x \<notin> A \<Longrightarrow> mem \<mu>' x = mem \<mu> x"
  unfolding writes_def by auto

lemma store_writes:
  assumes "span a (int (length bs)) \<subseteq> A" "A \<subseteq> dom (mem \<mu>)"
  shows "\<exists>\<mu>'. m_store a bs \<mu> = Some \<mu>' \<and> writes A \<mu> \<mu>'"
proof -
  have m: "mapped (mem \<mu>) a (length bs)" using assms by (auto simp: span_mapped [symmetric])
  moreover have "writes A \<mu> (\<mu>\<lparr>mem := put_bytes (mem \<mu>) a bs\<rparr>)"
    unfolding writes_def using dom_put [OF m] assms(1)
    by (intro exI [of _ "put_bytes (mem \<mu>) a bs"]) (auto simp: put_bytes_def span_def)
  ultimately show ?thesis by (simp add: m_store_eq)
qed

text \<open>A machine operation that always has a result and stays inside \<open>A\<close>.\<close>

definition safe_op :: "addr set \<Rightarrow> (machine \<Rightarrow> machine option) \<Rightarrow> bool" where
  "safe_op A f \<longleftrightarrow> (\<forall>\<mu>. A \<subseteq> dom (mem \<mu>) \<longrightarrow> (\<exists>\<mu>'. f \<mu> = Some \<mu>' \<and> writes A \<mu> \<mu>'))"

lemma safe_opD: "safe_op A f \<Longrightarrow> A \<subseteq> dom (mem \<mu>) \<Longrightarrow> \<exists>\<mu>'. f \<mu> = Some \<mu>' \<and> writes A \<mu> \<mu>'"
  by (simp add: safe_op_def)

lemma safe_op_store: "span a (int (length bs)) \<subseteq> A \<Longrightarrow> safe_op A (m_store a bs)"
  by (simp add: safe_op_def store_writes)

lemma safe_op_memset: "span a (int n) \<subseteq> A \<Longrightarrow> safe_op A (m_memset a b n)"
  unfolding m_memset_def by (rule safe_op_store) simp

lemma safe_op_Some [simp, intro]: "safe_op A Some"
  by (auto simp: safe_op_def)

lemma safe_op_mono: "safe_op A f \<Longrightarrow> A \<subseteq> B \<Longrightarrow> safe_op B f"
  unfolding safe_op_def by (meson order_trans writes_mono)

lemma safe_op_bind:
  assumes "safe_op A f" "safe_op A g"
  shows "safe_op A (\<lambda>\<mu>. Option.bind (f \<mu>) g)"
  unfolding safe_op_def
proof (intro allI impI)
  fix \<mu> :: machine assume a: "A \<subseteq> dom (mem \<mu>)"
  obtain \<mu>1 where 1: "f \<mu> = Some \<mu>1" "writes A \<mu> \<mu>1" using safe_opD [OF assms(1) a] by blast
  moreover obtain \<mu>2 where "g \<mu>1 = Some \<mu>2" "writes A \<mu>1 \<mu>2"
    using safe_opD [OF assms(2)] a writes_dom [OF 1(2)] by blast
  ultimately show "\<exists>\<mu>'. Option.bind (f \<mu>) g = Some \<mu>' \<and> writes A \<mu> \<mu>'" using writes_trans by auto
qed

text \<open>A machine operation that only looks at \<open>A\<close>.\<close>

definition keeps :: "addr set \<Rightarrow> (machine \<Rightarrow> machine option) \<Rightarrow> bool" where
  "keeps A f \<longleftrightarrow> (\<forall>\<mu>. A \<subseteq> dom (mem \<mu>) \<longrightarrow> f \<mu> = Some \<mu>)"

lemma keeps_safe: "keeps A f \<Longrightarrow> safe_op A f"
  by (simp add: keeps_def safe_op_def)

lemma keeps_mono: "keeps A f \<Longrightarrow> A \<subseteq> B \<Longrightarrow> keeps B f"
  unfolding keeps_def by blast

lemma load_u32_in: "span a 4 \<subseteq> A \<Longrightarrow> A \<subseteq> dom (mem \<mu>) \<Longrightarrow> \<exists>w. load_u32 (mem \<mu>) a = Some w"
  using span_mapped [of a 4 "mem \<mu>"] by (intro load_u32_defined) auto

section \<open>Static messages\<close>

text \<open>
  The bytes a field decoder may write: a \<open>bool\<close> and the fixed-width types have their own size whatever
  the descriptor says, and the terminator of a descriptor is a \<open>bool\<close>.
\<close>

definition item_size :: "pb_field \<Rightarrow> int" where
  "item_size f = max (uint (f_data_size f))
     (if f_ltype f = PB_LTYPE_BOOL then 1 else if f_ltype f = PB_LTYPE_FIXED32 then 4
      else if f_ltype f = PB_LTYPE_FIXED64 then 8 else 0)"

definition field_extent :: "pb_field \<Rightarrow> int" where
  "field_extent f = (if f_htype f = PB_HTYPE_REPEATED then uint (f_data_size f) * uint (f_array_size f)
     else item_size f)"

text \<open>
  The parts of the check that do not depend on addresses; \<open>sub\<close> checks the descriptor of a submessage
  against its size.
\<close>

definition static_type :: "(pb_field list \<Rightarrow> int \<Rightarrow> bool) \<Rightarrow> pb_field \<Rightarrow> bool" where
  "static_type sub f \<longleftrightarrow>
     f_atype f = PB_ATYPE_STATIC \<and> f_ltype f < PB_LTYPES_COUNT \<and> f_ltype f \<noteq> PB_LTYPE_EXTENSION \<and>
     (f_htype f = PB_HTYPE_REPEATED \<longrightarrow> item_size f = uint (f_data_size f)) \<and>
     (case f_ptr f of
        NullPtr \<Rightarrow> f_ltype f \<noteq> PB_LTYPE_SUBMESSAGE
      | DataPtr bs \<Rightarrow> f_ltype f \<noteq> PB_LTYPE_SUBMESSAGE \<and> unat (f_data_size f) \<le> length bs
      | FieldsPtr fs \<Rightarrow> f_ltype f = PB_LTYPE_SUBMESSAGE \<and> sub fs (uint (f_data_size f)))"

definition static_field :: "(pb_field list \<Rightarrow> int \<Rightarrow> bool) \<Rightarrow> int \<Rightarrow> int \<times> int \<Rightarrow> pb_field \<Rightarrow> bool" where
  "static_field sub sz p f \<longleftrightarrow> (case p of (d, s) \<Rightarrow>
     static_type sub f \<and> 0 \<le> d \<and> d + field_extent f \<le> sz \<and>
     (f_htype f = PB_HTYPE_OPTIONAL \<and> s \<noteq> d \<longrightarrow> 0 \<le> s \<and> s + 1 \<le> sz) \<and>
     (f_htype f = PB_HTYPE_REPEATED \<or> f_htype f = PB_HTYPE_ONEOF \<longrightarrow> 0 \<le> s \<and> s + 4 \<le> sz))"

definition static_layout :: "(pb_field list \<Rightarrow> int \<Rightarrow> bool) \<Rightarrow> pb_field list \<Rightarrow> int \<Rightarrow> bool" where
  "static_layout sub fs sz \<longleftrightarrow>
     (if n_fields fs = 0
      then static_field sub sz (field_ptrs fs 0) (field_at fs 0) \<and> f_htype (field_at fs 0) \<noteq> PB_HTYPE_REPEATED
      else list_all (\<lambda>i. static_field sub sz (field_ptrs fs i) (field_at fs i)) [0..<n_fields fs])"

text \<open>
  \<open>static_msg d fs sz\<close>: the descriptor \<open>fs\<close> has static fields only, nested at most \<open>d\<close> deep, and they
  lie in a structure of \<open>sz\<close> bytes.  A message with no fields has its terminator checked: the iterator
  rests on it.
\<close>

primrec static_msg :: "nat \<Rightarrow> pb_field list \<Rightarrow> int \<Rightarrow> bool" where
  "static_msg 0 = (\<lambda>fs sz. False)"
| "static_msg (Suc d) = static_layout (static_msg d)"

text \<open>The same over addresses: an iterator whose field lies in \<open>A\<close>.\<close>

definition placed :: "(pb_field list \<Rightarrow> int \<Rightarrow> bool) \<Rightarrow> addr set \<Rightarrow> pb_field_iter_t \<Rightarrow> bool" where
  "placed sub A it \<longleftrightarrow> (let f = it_field it in
     static_type sub f \<and> span (pData it) (field_extent f) \<subseteq> A \<and>
     (f_htype f = PB_HTYPE_OPTIONAL \<and> pSize it \<noteq> pData it \<longrightarrow> span (pSize it) 1 \<subseteq> A) \<and>
     (f_htype f = PB_HTYPE_REPEATED \<or> f_htype f = PB_HTYPE_ONEOF \<longrightarrow> span (pSize it) 4 \<subseteq> A))"

definition at_field :: "pb_field list \<Rightarrow> nat \<Rightarrow> bool" where
  "at_field fs i \<longleftrightarrow> i < n_fields fs \<or> i = 0"

lemma static_placed:
  assumes "static_msg (Suc d) fs sz" "at_field fs i" "span base sz \<subseteq> A"
  shows "placed (static_msg d) A (iter_at fs base i)"
proof -
  have "static_field (static_msg d) sz (field_ptrs fs i) (field_at fs i)"
    using assms(1,2) by (auto simp: static_layout_def at_field_def list_all_iff split: if_splits)
  then show ?thesis
    using span_sub [OF assms(3)]
    by (cases "field_ptrs fs i") (simp add: static_field_def placed_def Let_def)
qed

lemma placed_mono: "placed sub A it \<Longrightarrow> A \<subseteq> B \<Longrightarrow> placed sub B it"
  unfolding placed_def Let_def by blast

lemma placedD:
  assumes "placed sub A it" "f = it_field it"
  shows "static_type sub f" "span (pData it) (field_extent f) \<subseteq> A"
    "f_htype f = PB_HTYPE_OPTIONAL \<Longrightarrow> pSize it \<noteq> pData it \<Longrightarrow> span (pSize it) 1 \<subseteq> A"
    "f_htype f = PB_HTYPE_REPEATED \<Longrightarrow> span (pSize it) 4 \<subseteq> A"
    "f_htype f = PB_HTYPE_ONEOF \<Longrightarrow> span (pSize it) 4 \<subseteq> A"
  using assms by (simp_all add: placed_def Let_def)


lemma item_size_ge: "uint (f_data_size f) \<le> item_size f" "0 \<le> item_size f"
  by (simp_all add: item_size_def le_max_iff_disj)

lemma static_ltype: "static_type sub f \<Longrightarrow> f_ltype f \<noteq> PB_LTYPE_EXTENSION" "static_type sub f \<Longrightarrow> f_atype f = PB_ATYPE_STATIC"
  by (simp_all add: static_type_def)

section \<open>Setting defaults\<close>

lemma each_safe:
  assumes "\<forall>i\<in>set is. safe_op A (f (iter_at fs base i))" "A \<subseteq> dom (mem \<mu>)"
  shows "\<exists>\<mu>'. each_field (\<lambda>it \<mu>. map_option (\<lambda>\<mu>. (Some (), \<mu>)) (f it \<mu>)) fs base is \<mu> = Some (Some (), \<mu>') \<and>
    writes A \<mu> \<mu>'"
  using assms
proof (induction "is" arbitrary: \<mu>)
  case (Cons i "is")
  obtain \<mu>1 where 1: "f (iter_at fs base i) \<mu> = Some \<mu>1" "writes A \<mu> \<mu>1"
    using Cons.prems safe_opD by fastforce
  then obtain \<mu>2 where "each_field (\<lambda>it \<mu>. map_option (\<lambda>\<mu>. (Some (), \<mu>)) (f it \<mu>)) fs base is \<mu>1 = Some (Some (), \<mu>2)"
    "writes A \<mu>1 \<mu>2"
    using Cons.IH [of \<mu>1] Cons.prems writes_dom by auto
  with 1 show ?case using writes_trans by auto
qed (simp add: c_true_def)

lemma message_defaults_safe:
  assumes "\<And>i. i < n_fields fs \<Longrightarrow> safe_op A (f (iter_at fs base i))"
  shows "safe_op A (message_defaults_with f fs base)"
  unfolding safe_op_def
proof (intro allI impI)
  fix \<mu> :: machine assume "A \<subseteq> dom (mem \<mu>)"
  then show "\<exists>\<mu>'. message_defaults_with f fs base \<mu> = Some \<mu>' \<and> writes A \<mu> \<mu>'"
    using each_safe [of "[0..<n_fields fs]" A f fs base \<mu>] assms
    by (cases "0 < n_fields fs") (auto simp: message_defaults_with_def iter_begin_at iter_loop_each)
qed

lemma init_data_safe:
  assumes p: "placed sub A it" and h: "f_htype (it_field it) \<noteq> PB_HTYPE_REPEATED"
    and sub: "\<And>fs. sub fs (uint (f_data_size (it_field it))) \<Longrightarrow>
      span (pData it) (uint (f_data_size (it_field it))) \<subseteq> A \<Longrightarrow> safe_op A (message_defaults_with f fs (pData it))"
  shows "safe_op A (init_data f it)"
proof -
  let ?f = "it_field it"
  note t = placedD(1) [OF p refl, unfolded static_type_def]
  have sp: "span (pData it) (uint (f_data_size ?f)) \<subseteq> A"
    using placedD(2) [OF p refl] h item_size_ge [of ?f]
    by (intro order_trans [OF _ placedD(2) [OF p refl]] span_sub [OF order_refl]) (simp_all add: field_extent_def)
  have eq: "init_data f it = (case f_ptr ?f of FieldsPtr fs \<Rightarrow> message_defaults_with f fs (pData it)
      | DataPtr bs \<Rightarrow> m_store (pData it) (take (unat (f_data_size ?f)) bs)
      | NullPtr \<Rightarrow> m_memset (pData it) 0 (unat (f_data_size ?f)))"
    using t by (intro ext) (auto simp: init_data_def Let_def split: pb_ptr.splits)
  show ?thesis
  proof (cases "f_ptr ?f")
    case NullPtr
    then show ?thesis using sp unfolding eq by (simp add: safe_op_memset)
  next
    case (FieldsPtr fs)
    then show ?thesis using sub sp t unfolding eq by simp
  next
    case (DataPtr bs)
    then have "length (take (unat (f_data_size ?f)) bs) = unat (f_data_size ?f)" using t by simp
    with DataPtr sp show ?thesis unfolding eq by (simp add: safe_op_store)
  qed
qed

lemma field_default_safe:
  "placed (static_msg d) A it \<Longrightarrow> d < n \<Longrightarrow> safe_op A (pb_field_set_to_default n E it)"
proof (induction n arbitrary: d A it)
  case (Suc n)
  let ?f = "it_field it" and ?set = "pb_field_set_to_default n E"
  note p = placedD [OF Suc.prems(1) refl]
  have msg: "safe_op A (message_defaults_with ?set fs base)"
    if "static_msg d fs sz" "span base sz \<subseteq> A" for fs sz base
  proof (rule message_defaults_safe)
    fix i assume "i < n_fields fs"
    obtain d' where d: "d = Suc d'" using \<open>static_msg d fs sz\<close> by (cases d) auto
    have "placed (static_msg d') A (iter_at fs base i)"
      using that \<open>i < n_fields fs\<close> unfolding d by (intro static_placed) (auto simp: at_field_def)
    then show "safe_op A (?set (iter_at fs base i))" using Suc.prems(2) d by (intro Suc.IH) auto
  qed
  have init: "f_htype ?f \<noteq> PB_HTYPE_REPEATED \<Longrightarrow> safe_op A (init_data ?set it)"
    by (rule init_data_safe [OF Suc.prems(1)]) (auto intro: msg)
  have count: "safe_op A (m_store (pSize it) (bytes_le 4 (0 :: u32)))"
    if "f_htype ?f = PB_HTYPE_REPEATED \<or> f_htype ?f = PB_HTYPE_ONEOF"
    using that p(4,5) by (intro safe_op_store) auto
  have has: "safe_op A (\<lambda>\<mu>. Option.bind (m_store (pSize it) [0] \<mu>) (init_data ?set it))"
    if "f_htype ?f = PB_HTYPE_OPTIONAL" "pSize it \<noteq> pData it"
    using that p(3) init by (intro safe_op_bind safe_op_store) auto
  note st = static_ltype [OF p(1)]
  have "field_default_with E ?set it = (if f_htype ?f = PB_HTYPE_OPTIONAL \<and> pSize it \<noteq> pData it
      then (\<lambda>\<mu>. Option.bind (m_store (pSize it) [0] \<mu>) (init_data ?set it))
      else if f_htype ?f = PB_HTYPE_REPEATED \<or> f_htype ?f = PB_HTYPE_ONEOF
      then m_store (pSize it) (bytes_le 4 (0 :: u32)) else init_data ?set it)"
    using st by (intro ext) (simp add: field_default_with_def Let_def)
  then show ?case using init count has by auto
qed simp

lemma defaults_safe:
  assumes "static_msg d fs sz" "d \<le> n" "span base sz \<subseteq> A"
  shows "safe_op A (pb_message_set_to_defaults n E fs base)"
  unfolding pb_message_set_to_defaults_def
proof (rule message_defaults_safe)
  fix i assume i: "i < n_fields fs"
  obtain d' where d: "d = Suc d'" using assms(1) by (cases d) auto
  have "placed (static_msg d') A (iter_at fs base i)"
    using assms i unfolding d by (intro static_placed) (auto simp: at_field_def)
  then show "safe_op A (pb_field_set_to_default n E (iter_at fs base i))"
    using assms(2) d by (intro field_default_safe) auto
qed

section \<open>Release\<close>

lemma release_items_keeps:
  "(\<And>k. k < n \<Longrightarrow> keeps A (rel (p + int k * d))) \<Longrightarrow> keeps A (release_items rel n d p)"
proof (induction n arbitrary: p)
  case (Suc n)
  have "keeps A (rel p)" using Suc.prems [of 0] by simp
  moreover have "keeps A (release_items rel n d (p + d))"
  proof (rule Suc.IH)
    fix k assume "k < n"
    then show "keeps A (rel (p + d + int k * d))" using Suc.prems [of "Suc k"] by (simp add: algebra_simps)
  qed
  ultimately show ?case by (simp add: keeps_def)
qed (simp add: keeps_def)

lemma each_keeps:
  assumes "\<forall>i\<in>set is. keeps A (f (iter_at fs base i))" "A \<subseteq> dom (mem \<mu>)"
  shows "each_field (\<lambda>it \<mu>. map_option (\<lambda>\<mu>. (Some (), \<mu>)) (f it \<mu>)) fs base is \<mu> = Some (Some (), \<mu>)"
  using assms by (induction "is") (auto simp: c_true_def keeps_def)

lemma message_release_keeps:
  assumes "\<And>i. i < n_fields fs \<Longrightarrow> keeps A (f (iter_at fs base i))"
  shows "keeps A (message_release_with f fs base)"
  unfolding keeps_def
proof (intro allI impI)
  fix \<mu> :: machine assume "A \<subseteq> dom (mem \<mu>)"
  then show "message_release_with f fs base \<mu> = Some \<mu>"
    using each_keeps [of "[0..<n_fields fs]" A f fs base \<mu>] assms
    by (cases "0 < n_fields fs") (auto simp: message_release_with_def iter_begin_at iter_loop_each)
qed

text \<open>The number of submessages looked at is at most the number there is room for.\<close>

lemma release_submessages_keeps:
  assumes p: "placed sub A it" and l: "f_ltype (it_field it) = PB_LTYPE_SUBMESSAGE"
    and sub: "\<And>fs a. sub fs (uint (f_data_size (it_field it))) \<Longrightarrow>
      span a (uint (f_data_size (it_field it))) \<subseteq> A \<Longrightarrow> keeps A (message_release_with rel fs a)"
  shows "keeps A (release_submessages rel it)"
  unfolding keeps_def
proof (intro allI impI)
  fix \<mu> :: machine assume A: "A \<subseteq> dom (mem \<mu>)"
  let ?f = "it_field it" let ?d = "uint (f_data_size ?f)"
  note q = placedD [OF p refl] and t = placedD(1) [OF p refl, unfolded static_type_def]
  obtain fs where fs: "f_ptr ?f = FieldsPtr fs" "sub fs ?d" using t l by (auto split: pb_ptr.splits)
  define M where "M = (if f_htype ?f = PB_HTYPE_REPEATED then unat (f_array_size ?f) else 1)"
  have room: "span (pData it + int k * ?d) ?d \<subseteq> A" if "k < M" for k
  proof (rule order_trans [OF span_sub [OF order_refl] q(2)])
    have "int k * ?d + ?d = (int k + 1) * ?d" by (simp add: algebra_simps)
    also have "\<dots> \<le> int M * ?d" using that by (intro mult_right_mono) simp_all
    also have "int M * ?d \<le> field_extent ?f"
      using item_size_ge [of ?f] by (simp add: M_def field_extent_def mult.commute)
    finally show "pData it + int k * ?d + ?d \<le> pData it + field_extent ?f" by simp
  qed simp
  define cnt where "cnt = (if f_htype ?f = PB_HTYPE_REPEATED
      then map_option (\<lambda>count. if f_atype ?f = PB_ATYPE_STATIC \<and> f_array_size ?f < count then f_array_size ?f else count)
        (if f_atype ?f = PB_ATYPE_STATIC \<and> pSize it = pData it then Some (f_array_size ?f) else load_u32 (mem \<mu>) (pSize it))
      else Some 1)"
  have "\<exists>c. cnt = Some c \<and> unat c \<le> M"
  proof (cases "f_htype ?f = PB_HTYPE_REPEATED")
    case True
    obtain w where w: "load_u32 (mem \<mu>) (pSize it) = Some w" using load_u32_in [OF q(4) A] True by blast
    show ?thesis
      using True w t
      by (cases "pSize it = pData it"; cases "f_array_size ?f < w")
        (auto simp: cnt_def M_def word_less_nat_alt)
  qed (simp add: cnt_def M_def)
  then obtain c where c: "cnt = Some c" "unat c \<le> M" by blast
  have "keeps A (release_items (message_release_with rel fs) (unat c) ?d (pData it))"
    using room c(2) fs(2) by (intro release_items_keeps sub) auto
  then have "release_items (message_release_with rel fs) (unat c) ?d (pData it) \<mu> = Some \<mu>"
    using A by (simp add: keeps_def)
  then show "release_submessages rel it \<mu> = Some \<mu>"
    unfolding release_submessages_def Let_def cnt_def [symmetric] using c(1) t fs by simp
qed

lemma release_field_keeps:
  "placed (static_msg d) A it \<Longrightarrow> d < n \<Longrightarrow> keeps A (pb_release_single_field n E it)"
proof (induction n arbitrary: d A it)
  case (Suc n)
  let ?f = "it_field it" and ?rel = "pb_release_single_field n E"
  note p = placedD [OF Suc.prems(1) refl]
  have "keeps A (message_release_with ?rel fs base)"
    if "static_msg d fs sz" "span base sz \<subseteq> A" for fs sz base
  proof (rule message_release_keeps)
    fix i assume "i < n_fields fs"
    obtain d' where d: "d = Suc d'" using \<open>static_msg d fs sz\<close> by (cases d) auto
    have "placed (static_msg d') A (iter_at fs base i)"
      using that \<open>i < n_fields fs\<close> unfolding d by (intro static_placed) (auto simp: at_field_def)
    then show "keeps A (?rel (iter_at fs base i))" using Suc.prems(2) d by (intro Suc.IH) auto
  qed
  then have "f_ltype ?f = PB_LTYPE_SUBMESSAGE \<Longrightarrow> keeps A (release_submessages ?rel it)"
    using release_submessages_keeps [OF Suc.prems(1)] by blast
  then show ?case
    using load_u32_in [OF p(5)] static_ltype [OF p(1)]
    unfolding keeps_def by (fastforce simp: release_field_with_def Let_def)
qed simp

lemma release_keeps:
  assumes "static_msg d fs sz" "d \<le> n" "span base sz \<subseteq> A"
  shows "keeps A (pb_release n E fs base)"
  unfolding pb_release_def
proof (rule message_release_keeps)
  fix i assume i: "i < n_fields fs"
  obtain d' where d: "d = Suc d'" using assms(1) by (cases d) auto
  have "placed (static_msg d') A (iter_at fs base i)"
    using assms i unfolding d by (intro static_placed) (auto simp: at_field_def)
  then show "keeps A (pb_release_single_field n E (iter_at fs base i))"
    using assms(2) d by (intro release_field_keeps) auto
qed

end
