(* ===== verification/PB_Safe.thy ===== *)
theory PB_Safe
  imports PB_Frame PB_Skip
begin

text \<open>
  Decoding a static message never leaves the message structure and always returns, whatever the bytes
  of the stream are.  The theory first follows the iterator through the main loop, then says what a
  safe decoder is, and shows it of every decoder from the scalars up to \<open>pb_decode\<close>.
\<close>

section \<open>The iterator in the main loop\<close>

text \<open>
  Loops whose bodies agree on an invariant of the first agree.
\<close>

lemma c_loop_agree:
  assumes ret: "c_loop f s = Some r" and inv: "I s"
    and eq: "\<And>s. I s \<Longrightarrow> g s = f s"
    and step: "\<And>s s'. I s \<Longrightarrow> f s = Some (Inr s') \<Longrightarrow> I s'"
  shows "c_loop g s = Some r"
proof -
  have "c_loop g s = Some r"
  proof (rule c_loop_partial [where I = "\<lambda>t. I t \<and> c_loop g t = c_loop g s" and Q = "\<lambda>r. c_loop g s = Some r", OF ret])
    fix t t' assume t: "I t \<and> c_loop g t = c_loop g s" "f t = Some (Inr t')"
    then have "g t = Some (Inr t')" using eq by simp
    then have "c_loop g t = c_loop g t'" by (rule c_loop_unfold)
    with t step show "I t' \<and> c_loop g t' = c_loop g s" by auto
  next
    fix t r assume t: "I t \<and> c_loop g t = c_loop g s" "f t = Some (Inl r)"
    then have "g t = Some (Inl r)" using eq by simp
    then have "c_loop g t = Some r" by (rule c_loop_unfold)
    with t show "c_loop g s = Some r" by simp
  qed (use inv in simp)
  then show ?thesis .
qed

definition no_extensions :: "pb_field list \<Rightarrow> bool" where
  "no_extensions fs \<longleftrightarrow> (\<forall>i. at_field fs i \<longrightarrow> f_ltype (field_at fs i) \<noteq> PB_LTYPE_EXTENSION)"

lemma find_miss:
  assumes "i < n_fields fs"
  shows "c_loop (find_step i 0) (iter_at fs base i) = Some (False, iter_at fs base i)"
proof -
  have "find (tag_matches fs 0) (search_order fs i) = None"
    using n_fields_tag [of _ fs] assms by (auto simp: find_None_iff tag_matches_def search_order_def)
  then show ?thesis using iter_find_at [OF assms, of base 0] by (simp add: pb_field_iter_find_def)
qed

lemma find_extension_miss:
  assumes "no_extensions fs" "at_field fs i"
  shows "find_extension_field (iter_at fs base i) = Some (False, iter_at fs base i)"
proof (cases "i < n_fields fs")
  case True
  have "c_loop (find_ext_step i) (iter_at fs base i) = Some (False, iter_at fs base i)"
  proof (rule c_loop_agree [where I = "\<lambda>it. \<exists>j<n_fields fs. it = iter_at fs base j", OF find_miss [OF True]])
    fix it assume "\<exists>j<n_fields fs. it = iter_at fs base j"
    then show "find_ext_step i it = find_step i 0 it"
      using assms(1) n_fields_tag [of _ fs] by (auto simp: find_ext_step_def find_step_def no_extensions_def at_field_def Let_def)
  next
    fix it it' assume "\<exists>j<n_fields fs. it = iter_at fs base j" and st: "find_step i 0 it = Some (Inr it')"
    then obtain j where j: "j < n_fields fs" "it = iter_at fs base j" by blast
    have "Suc j mod n_fields fs < n_fields fs" using j(1) by simp
    with st find_step_at [OF j(1), of i 0 base] j(2) show "\<exists>j<n_fields fs. it' = iter_at fs base j"
      by (auto split: if_splits)
  qed (use True in blast)
  then show ?thesis by (simp add: find_extension_field_def)
next
  case False
  with assms(2) have e: "i = 0" "n_fields fs = 0" by (auto simp: at_field_def)
  have "f_ltype (field_at fs 0) \<noteq> PB_LTYPE_EXTENSION" using assms(1) by (simp add: no_extensions_def at_field_def)
  then show ?thesis
    using e iter_next_empty [OF e(2), of base]
    by (simp add: find_extension_field_def c_loop.simps find_ext_step_def)
qed

text \<open>
  The main loop may leave \<open>pSize\<close> pointing to its own counter; the next step of the iterator repairs it.
\<close>

lemma next_ignores_size:
  "f_htype (it_field it) \<noteq> PB_HTYPE_ONEOF \<Longrightarrow> f_tag (it_field it) \<noteq> 0 \<Longrightarrow>
   pb_field_iter_next (it\<lparr>pSize := p\<rparr>) = pb_field_iter_next it"
  by (auto simp: pb_field_iter_next_def Let_def inside_union_def)

definition loop_iter :: "pb_field list \<Rightarrow> addr \<Rightarrow> addr \<Rightarrow> pb_field_iter_t \<Rightarrow> bool" where
  "loop_iter fs base fc it \<longleftrightarrow> (\<exists>i. at_field fs i \<and> it = iter_at fs base i) \<or>
     (\<exists>i<n_fields fs. f_htype (field_at fs i) = PB_HTYPE_REPEATED \<and> it = (iter_at fs base i)\<lparr>pSize := fc\<rparr>)"

lemma loop_iter_find:
  assumes "loop_iter fs base fc it"
  shows "\<exists>found it'. pb_field_iter_find it tag = Some (found, it') \<and> loop_iter fs base fc it' \<and>
    (found \<longrightarrow> f_tag (it_field it') = tag)"
proof -
  have at: "\<exists>found it'. pb_field_iter_find (iter_at fs base i) tag = Some (found, it') \<and> loop_iter fs base fc it' \<and>
      (found \<longrightarrow> f_tag (it_field it') = tag)" if "at_field fs i" for i
  proof (cases "i < n_fields fs")
    case True
    show ?thesis
    proof (cases "find (tag_matches fs tag) (search_order fs i)")
      case None
      then show ?thesis using that iter_find_at [OF True, of base tag] by (auto simp: loop_iter_def)
    next
      case (Some j)
      then have "tag_matches fs tag j" "j \<in> set (search_order fs i)" by (auto simp: find_Some_iff)
      moreover from this True have "j < n_fields fs" by (auto simp: search_order_def)
      ultimately show ?thesis
        using Some iter_find_at [OF True, of base tag] by (auto simp: loop_iter_def at_field_def tag_matches_def)
    qed
  next
    case False
    with that have "i = 0" "n_fields fs = 0" by (auto simp: at_field_def)
    then show ?thesis
      using iter_find_empty [of fs base tag] that by (auto simp: loop_iter_def tag_matches_def)
  qed
  show ?thesis
  proof (cases "\<exists>i. at_field fs i \<and> it = iter_at fs base i")
    case True
    with at show ?thesis by blast
  next
    case False
    with assms obtain i where i: "i < n_fields fs" "f_htype (field_at fs i) = PB_HTYPE_REPEATED"
      "it = (iter_at fs base i)\<lparr>pSize := fc\<rparr>" by (auto simp: loop_iter_def)
    show ?thesis
    proof (cases "tag_matches fs tag i")
      case True
      then show ?thesis using assms i by (auto simp: pb_field_iter_find_def find_step_def c_loop_unfold tag_matches_def)
    next
      case False
      have "pb_field_iter_next it = pb_field_iter_next (iter_at fs base i)"
        using i n_fields_tag [OF i(1)] next_ignores_size [of "iter_at fs base i" fc] by simp
      then have "find_step i tag it = find_step i tag (iter_at fs base i)"
        using False i(3) by (simp add: find_step_def tag_matches_def Let_def)
      then have "pb_field_iter_find it tag = pb_field_iter_find (iter_at fs base i) tag"
        using i(3) by (simp add: pb_field_iter_find_def c_loop.simps [of "find_step i tag"])
      with at [of i] i(1) show ?thesis by (auto simp: at_field_def)
    qed
  qed
qed

lemma loop_iter_extension:
  assumes "no_extensions fs" "loop_iter fs base fc it"
  shows "\<exists>it'. find_extension_field it = Some (False, it') \<and> loop_iter fs base fc it'"
proof (cases "\<exists>i. at_field fs i \<and> it = iter_at fs base i")
  case True
  then show ?thesis using find_extension_miss [OF assms(1)] assms(2) by blast
next
  case False
  with assms obtain i where i: "i < n_fields fs" "f_htype (field_at fs i) = PB_HTYPE_REPEATED"
    "it = (iter_at fs base i)\<lparr>pSize := fc\<rparr>" by (auto simp: loop_iter_def)
  have at: "at_field fs i" using i by (simp add: at_field_def)
  have "pb_field_iter_next it = pb_field_iter_next (iter_at fs base i)"
    using i n_fields_tag [OF i(1)] next_ignores_size [of "iter_at fs base i" fc] by simp
  then have "find_ext_step i it = find_ext_step i (iter_at fs base i)"
    using assms(1) at i(3) by (simp add: find_ext_step_def no_extensions_def Let_def)
  then have "find_extension_field it = find_extension_field (iter_at fs base i)"
    using i(3) by (simp add: find_extension_field_def c_loop.simps [of "find_ext_step i"])
  with find_extension_miss [OF assms(1) at] at show ?thesis by (auto simp: loop_iter_def)
qed

lemma static_no_extensions: "static_msg d fs sz \<Longrightarrow> no_extensions fs"
  unfolding no_extensions_def
proof (intro allI impI)
  fix i assume s: "static_msg d fs sz" "at_field fs i"
  then obtain d' where "d = Suc d'" by (cases d) auto
  with static_placed [of d' fs sz i 0 "span 0 sz"] s
  have "placed (static_msg d') (span 0 sz) (iter_at fs 0 i)" by simp
  from static_ltype(1) [OF placedD(1) [OF this refl]] show "f_ltype (field_at fs i) \<noteq> PB_LTYPE_EXTENSION" by simp
qed

section \<open>Streams after a failure\<close>

text \<open>
  A decoder that fails may leave its stream with fewer bytes to read than it delivered; what remains is
  still a stream in good order.
\<close>

definition lagged :: "(pb_istream_t \<Rightarrow> bool) \<Rightarrow> (pb_istream_t \<Rightarrow> u8 list) \<Rightarrow>
    (nat \<Rightarrow> pb_istream_t \<Rightarrow> pb_istream_t) \<Rightarrow> pb_istream_t \<Rightarrow> pb_istream_t \<Rightarrow> bool" where
  "lagged good avail adv s s' \<longleftrightarrow> good s \<and>
     (\<exists>j \<le> length (avail s). \<exists>b \<le> bytes_left (adv j s). \<exists>e. s' = (adv j s)\<lparr>bytes_left := b, i_errmsg := e\<rparr>)"

context limited_source
begin

abbreviation lag :: "pb_istream_t \<Rightarrow> pb_istream_t \<Rightarrow> bool" where
  "lag \<equiv> lagged good avail adv"

lemma lag_good: "lag s t \<Longrightarrow> good t"
  unfolding lagged_def
  by (elim conjE exE) (simp add: msg_good [OF limit_good [OF adv_good], simplified])

lemma fwd_lag: "fwd s t \<Longrightarrow> lag s t"
  unfolding moved_def lagged_def
  by (elim conjE exE, intro conjI exI) (assumption | rule order_refl | simp)+

lemma lag_msg: "lag s t \<Longrightarrow> lag s (t\<lparr>i_errmsg := e\<rparr>)"
  unfolding lagged_def by (elim conjE exE) (force intro!: exI)

lemma lag_err: "lag s t \<Longrightarrow> lag s (set_ierror msg t)"
  unfolding set_ierror_def by (rule lag_msg)

lemma lag_trans:
  assumes "lag s t" "lag t u"
  shows "lag s u"
proof -
  obtain j b e where t: "j \<le> length (avail s)" "b \<le> bytes_left (adv j s)"
    "t = (adv j s)\<lparr>bytes_left := b, i_errmsg := e\<rparr>" "good s"
    using assms(1) unfolding lagged_def by blast
  obtain i c f where u: "i \<le> length (avail t)" "c \<le> bytes_left (adv i t)"
    "u = (adv i t)\<lparr>bytes_left := c, i_errmsg := f\<rparr>" "good t"
    using assms(2) unfolding lagged_def by blast
  have a: "good (adv j s)" using t by (simp add: adv_good)
  have ib: "i \<le> unat b" using left [OF u(4)] u(1) t(3) by simp
  have ba: "unat b \<le> length (avail (adv j s))" using t(2) left_ge [OF a] by simp
  have "adv i t = (adv i ((adv j s)\<lparr>bytes_left := b\<rparr>))\<lparr>i_errmsg := e\<rparr>"
    unfolding t(3) by (rule msg_adv)
  also have "\<dots> = (adv (j + i) s)\<lparr>bytes_left := b - word_of_nat i, i_errmsg := e\<rparr>"
    using limit_adv [OF a t(2) ib] adv_adv [OF t(4), of j i] t ib ba by (simp add: adv_avail)
  finally have it: "adv i t = (adv (j + i) s)\<lparr>bytes_left := b - word_of_nat i, i_errmsg := e\<rparr>" .
  have ji: "j + i \<le> length (avail s)" using t ib ba by (simp add: adv_avail)
  have "unat (b - word_of_nat i) = unat b - i" using ib by (rule unat_bytes_left_adv)
  moreover have "unat (bytes_left (adv (j + i) s)) = length (avail s) - (j + i)"
    using left [OF adv_good [OF t(4) ji]] ji t(4) by (simp add: adv_avail)
  ultimately have "c \<le> bytes_left (adv (j + i) s)"
    using u(2) it ba t by (simp add: word_le_nat_alt adv_avail)
  with ji it u(3) t(4) show ?thesis
    unfolding lagged_def by (intro conjI exI [of _ "j + i"] exI [of _ c] exI [of _ f]) simp_all
qed

text \<open>A substream, however it ends, can be closed, and leaves the parent in good order.\<close>

lemma close_lag:
  assumes s: "good s" "n \<le> bytes_left s" and sub: "lag (s\<lparr>bytes_left := n\<rparr>) sub"
  shows "\<exists>s'. pb_close_string_substream E sub (s\<lparr>bytes_left := bytes_left s - n\<rparr>) = Some (Some (), s') \<and> lag s s'"
proof -
  let ?s0 = "s\<lparr>bytes_left := n\<rparr>" and ?par = "s\<lparr>bytes_left := bytes_left s - n\<rparr>"
  have len: "length (avail ?s0) = unat n" "unat n \<le> length (avail s)"
    using s left_ge [OF s(1)] by (simp_all add: limit_avail)
  obtain j b e where j: "j \<le> length (avail ?s0)" "b \<le> bytes_left (adv j ?s0)"
    "sub = (adv j ?s0)\<lparr>bytes_left := b, i_errmsg := e\<rparr>"
    using sub unfolding lagged_def by blast
  have gs: "good sub" "good ?s0" "good (adv j ?s0)"
    using lag_good [OF sub] limit_good [OF s] j(1) adv_good by auto
  have jb: "j + unat b \<le> unat n"
    using left_ge [OF gs(3), of b] j(1,2) len(1) gs(2) by (simp add: adv_avail)
  have reopen: "lag s (?par\<lparr>i_state := i_state (adv k s), i_errmsg := e\<rparr>)" if k: "k \<le> unat n" for k
  proof -
    have "?par\<lparr>i_state := i_state (adv k s), i_errmsg := e\<rparr> =
        (adv k s)\<lparr>bytes_left := bytes_left s - n, i_errmsg := e\<rparr>"
      using k len by (subst (2) adv_parts [OF s(1)]) simp_all
    moreover have "bytes_left s - n \<le> bytes_left (adv k s)"
    proof -
      have "unat (bytes_left (adv k s)) = length (avail s) - k"
        using k len left [OF adv_good [OF s(1)], of k] s(1) by (simp add: adv_avail)
      then show ?thesis using k s left [OF s(1)] by (simp add: word_le_nat_alt unat_sub)
    qed
    ultimately show ?thesis using k len s(1) unfolding lagged_def by (intro conjI exI [of _ k]) auto
  qed
  have st: "i_state (adv k ?s0) = i_state (adv k s)" if "k \<le> unat n" for k
    using limit_adv [OF s that] by simp
  show ?thesis
  proof (cases "b = 0")
    case True
    then show ?thesis
      using reopen [of j] st [of j] jb j(3) by (simp add: pb_close_string_substream_def c_true_def)
  next
    case False
    have "unat b \<le> length (avail sub)" using left [OF gs(1)] j(3) by simp
    then have "pb_skip E b sub = Some (Some (), adv (unat b) sub)" by (rule skip_ok [OF gs(1)])
    moreover have "adv (unat b) sub = (adv (unat b) ((adv j ?s0)\<lparr>bytes_left := b\<rparr>))\<lparr>i_errmsg := e\<rparr>"
      unfolding j(3) by (rule msg_adv)
    moreover have "adv (unat b) ((adv j ?s0)\<lparr>bytes_left := b\<rparr>) = (adv (j + unat b) ?s0)\<lparr>bytes_left := 0\<rparr>"
      using limit_adv [OF gs(3) j(2), of "unat b"] adv_adv [OF gs(2), of j "unat b"] jb len by simp
    ultimately show ?thesis
      using False reopen [of "j + unat b"] st [of "j + unat b"] jb j(3)
      by (simp add: pb_close_string_substream_def c_true_def)
  qed
qed

end

section \<open>Safe decoders\<close>

definition clear_stack :: "machine \<Rightarrow> bool" where
  "clear_stack \<mu> \<longleftrightarrow> (\<forall>x < sp \<mu>. mem \<mu> x = None)"

lemma writes_clear: "writes A \<mu> \<mu>' \<Longrightarrow> clear_stack \<mu> \<Longrightarrow> clear_stack \<mu>'"
  using writes_dom [of A \<mu> \<mu>'] writes_sp [of A \<mu> \<mu>'] by (metis clear_stack_def domIff)

text \<open>
  \<open>safe_dec k A P d\<close>: on every stream in good order and every machine where \<open>A\<close> is mapped, \<open>d\<close> has a
  result and writes inside \<open>A\<close>; when it succeeds, its value is a \<open>P\<close> and the stream has moved forward by
  at least \<open>k\<close> bytes.
\<close>

definition safe_dec :: "(pb_istream_t \<Rightarrow> bool) \<Rightarrow> (pb_istream_t \<Rightarrow> u8 list) \<Rightarrow>
    (nat \<Rightarrow> pb_istream_t \<Rightarrow> pb_istream_t) \<Rightarrow> nat \<Rightarrow> addr set \<Rightarrow> ('v \<Rightarrow> bool) \<Rightarrow>
    (dstate \<Rightarrow> ('v, dstate) cres) \<Rightarrow> bool" where
  "safe_dec good avail adv k A P d \<longleftrightarrow>
     (\<forall>s \<mu>. good s \<longrightarrow> A \<subseteq> dom (mem \<mu>) \<longrightarrow> clear_stack \<mu> \<longrightarrow>
        (\<exists>r s' \<mu>'. d (s, \<mu>) = Some (r, (s', \<mu>')) \<and> lagged good avail adv s s' \<and> writes A \<mu> \<mu>' \<and>
           (\<forall>v. r = Some v \<longrightarrow> P v \<and> moved good avail adv s s' \<and> length (avail s') + k \<le> length (avail s))))"

context limited_source
begin

abbreviation safe :: "nat \<Rightarrow> addr set \<Rightarrow> ('v \<Rightarrow> bool) \<Rightarrow> (dstate \<Rightarrow> ('v, dstate) cres) \<Rightarrow> bool" where
  "safe \<equiv> safe_dec good avail adv"

lemma safeI:
  "(\<And>s \<mu>. good s \<Longrightarrow> A \<subseteq> dom (mem \<mu>) \<Longrightarrow> clear_stack \<mu> \<Longrightarrow>
     \<exists>r s' \<mu>'. d (s, \<mu>) = Some (r, (s', \<mu>')) \<and> lag s s' \<and> writes A \<mu> \<mu>' \<and>
       (\<forall>v. r = Some v \<longrightarrow> P v \<and> fwd s s' \<and> length (avail s') + k \<le> length (avail s))) \<Longrightarrow> safe k A P d"
  by (simp add: safe_dec_def)

lemma safeE:
  assumes "safe k A P d" "good s" "A \<subseteq> dom (mem \<mu>)" "clear_stack \<mu>"
  obtains s' \<mu>' where "d (s, \<mu>) = Some (None, (s', \<mu>'))" "lag s s'" "writes A \<mu> \<mu>'"
  | v s' \<mu>' where "d (s, \<mu>) = Some (Some v, (s', \<mu>'))" "P v" "fwd s s'" "writes A \<mu> \<mu>'"
      "length (avail s') + k \<le> length (avail s)"
proof -
  obtain r s' \<mu>' where r: "d (s, \<mu>) = Some (r, (s', \<mu>'))" "lag s s'" "writes A \<mu> \<mu>'"
    "\<forall>v. r = Some v \<longrightarrow> P v \<and> fwd s s' \<and> length (avail s') + k \<le> length (avail s)"
    using assms unfolding safe_dec_def by blast
  show thesis by (cases r) (use r that in auto)
qed

lemma safe_weaken:
  "safe k A P d \<Longrightarrow> j \<le> k \<Longrightarrow> (\<And>v. P v \<Longrightarrow> Q v) \<Longrightarrow> safe j A Q d"
  unfolding safe_dec_def by (meson add_left_mono order_trans)

lemma safe_region: "safe k A P d \<Longrightarrow> A \<subseteq> B \<Longrightarrow> safe k B P d"
  unfolding safe_dec_def by (meson order_trans writes_mono)

lemma safe_ret: "P v \<Longrightarrow> safe 0 A P (c_ret v)"
  by (rule safeI) (simp add: c_ret_def fwd_lag moved_refl)

lemma safe_true: "P () \<Longrightarrow> safe 0 A P c_true"
  by (rule safeI) (simp add: c_true_def fwd_lag moved_refl)

lemma safe_error: "safe k A P (ret_derror msg)"
  by (rule safeI) (simp add: ret_derror_def c_false_def fwd_lag moved_refl moved_err)

lemma safe_bind:
  assumes m: "safe j A P m" and f: "\<And>v. P v \<Longrightarrow> safe k A Q (f v)" and n: "n \<le> j + k"
  shows "safe n A Q (\<lambda>\<sigma>. c_bind (m \<sigma>) f)"
proof (rule safeI)
  fix s and \<mu> :: machine assume s: "good s" "A \<subseteq> dom (mem \<mu>)" "clear_stack \<mu>"
  from m s show "\<exists>r s' \<mu>'. c_bind (m (s, \<mu>)) f = Some (r, (s', \<mu>')) \<and> lag s s' \<and> writes A \<mu> \<mu>' \<and>
      (\<forall>v. r = Some v \<longrightarrow> Q v \<and> fwd s s' \<and> length (avail s') + n \<le> length (avail s))"
  proof (cases rule: safeE)
    case (2 v s' \<mu>')
    have s': "good s'" "A \<subseteq> dom (mem \<mu>')" "clear_stack \<mu>'"
      using s 2 moved_good writes_dom [OF 2(4)] writes_clear [OF 2(4)] by auto
    from f [OF 2(2)] s' show ?thesis
    proof (cases rule: safeE)
      case (1 t \<nu>)
      then show ?thesis using 2 lag_trans [OF fwd_lag [OF 2(3)]] writes_trans [OF 2(4)] by auto
    next
      case (2 w t \<nu>)
      note step = \<open>m (s, \<mu>) = Some (Some v, (s', \<mu>'))\<close> \<open>fwd s s'\<close> \<open>writes A \<mu> \<mu>'\<close>
      have "fwd s t" using step(2) 2(3) by (rule moved_trans)
      moreover have "length (avail t) + n \<le> length (avail s)"
        using n 2(5) \<open>length (avail s') + j \<le> length (avail s)\<close> by linarith
      ultimately show ?thesis
        using 2 step writes_trans [OF step(3) 2(4)] by (auto simp: fwd_lag)
    qed
  qed auto
qed

lemma safe_if:
  "(c \<Longrightarrow> safe k A P f) \<Longrightarrow> (\<not> c \<Longrightarrow> safe k A P g) \<Longrightarrow> safe k A P (\<lambda>\<sigma>. if c then f \<sigma> else g \<sigma>)"
  by (cases c) simp_all

lemma safe_machine:
  assumes "safe_op A f"
  shows "safe 0 A (\<lambda>_. True) (on_machine f)"
proof (rule safeI)
  fix s and \<mu> :: machine assume "good s" "A \<subseteq> dom (mem \<mu>)"
  then show "\<exists>r s' \<mu>'. on_machine f (s, \<mu>) = Some (r, (s', \<mu>')) \<and> lag s s' \<and> writes A \<mu> \<mu>' \<and>
      (\<forall>v. r = Some v \<longrightarrow> True \<and> fwd s s' \<and> length (avail s') + 0 \<le> length (avail s))"
    using safe_opD [OF assms, of \<mu>] by (auto simp: on_machine_def fwd_lag moved_refl)
qed

lemma safe_stream:
  assumes "\<And>s. good s \<Longrightarrow> \<exists>r s'. f s = Some (r, s') \<and> fwd s s' \<and>
    (\<forall>v. r = Some v \<longrightarrow> P v \<and> length (avail s') + k \<le> length (avail s))"
  shows "safe k A P (on_stream f)"
proof (rule safeI)
  fix s and \<mu> :: machine assume "good s"
  from assms [OF this] show "\<exists>r s' \<mu>'. on_stream f (s, \<mu>) = Some (r, (s', \<mu>')) \<and> lag s s' \<and> writes A \<mu> \<mu>' \<and>
      (\<forall>v. r = Some v \<longrightarrow> P v \<and> fwd s s' \<and> length (avail s') + k \<le> length (avail s))"
    by (auto simp: on_stream_def fwd_lag)
qed

lemma safe_load:
  assumes "span a 4 \<subseteq> A" "\<And>n. safe k A P (f n)"
  shows "safe k A P (\<lambda>\<sigma>. case load_u32 (mem (snd \<sigma>)) a of None \<Rightarrow> None | Some n \<Rightarrow> f n \<sigma>)"
proof (rule safeI)
  fix s and \<mu> :: machine assume s: "good s" "A \<subseteq> dom (mem \<mu>)" "clear_stack \<mu>"
  obtain n where n: "load_u32 (mem \<mu>) a = Some n" using load_u32_in [OF assms(1) s(2)] by blast
  from assms(2) [of n] s show "\<exists>r s' \<mu>'. (case load_u32 (mem (snd (s, \<mu>))) a of None \<Rightarrow> None | Some n \<Rightarrow> f n (s, \<mu>)) =
      Some (r, (s', \<mu>')) \<and> lag s s' \<and> writes A \<mu> \<mu>' \<and>
      (\<forall>v. r = Some v \<longrightarrow> P v \<and> fwd s s' \<and> length (avail s') + k \<le> length (avail s))"
    unfolding safe_dec_def using n by simp
qed

lemmas safe_store = safe_machine [OF safe_op_store] and safe_memset = safe_machine [OF safe_op_memset]

end

section \<open>Scalar and string fields\<close>

lemma clamp_length:
  "clamp_signed n v = Some (bs, c) \<Longrightarrow> length bs = unat n"
  "clamp_unsigned n v = Some (bs, c) \<Longrightarrow> length bs = unat n"
  by (auto simp: clamp_signed_def clamp_unsigned_def split: if_splits)

context limited_source
begin

lemma varint_defined:
  assumes "good s"
  shows "\<exists>r s'. pb_decode_varint E s = Some (r, s') \<and> fwd s s' \<and>
    (\<forall>v. r = Some v \<longrightarrow> True \<and> length (avail s') + 1 \<le> length (avail s))"
proof (cases "varint_prefix (take 10 (avail s))")
  case None
  then show ?thesis
    using assms moved_err [OF moved_adv [OF assms]] by (auto simp: decode_varint_eq)
next
  case (Some p)
  with varint_prefix_length [OF Some] moved_adv [OF assms, of "length p"] assms show ?thesis
    by (cases p) (auto simp: decode_varint_eq adv_avail)
qed

lemma safe_varint: "safe 1 A (\<lambda>_. True) (on_stream (pb_decode_varint E))"
  by (rule safe_stream) (rule varint_defined)

lemma safe_varint32: "safe 1 A (\<lambda>_. True) (on_stream (pb_decode_varint32 E))"
  by (rule safe_stream) (use varint32_defined in fastforce)

lemma safe_svarint: "safe 1 A (\<lambda>_. True) (on_stream (pb_decode_svarint E))"
proof (rule safe_stream)
  fix s assume "good s"
  then obtain r s' where "pb_decode_varint E s = Some (r, s')" "fwd s s'"
    "\<forall>v. r = Some v \<longrightarrow> True \<and> length (avail s') + 1 \<le> length (avail s)"
    using varint_defined by blast
  then show "\<exists>r s'. pb_decode_svarint E s = Some (r, s') \<and> fwd s s' \<and>
      (\<forall>v. r = Some v \<longrightarrow> True \<and> length (avail s') + 1 \<le> length (avail s))"
    by (cases r) (auto simp: decode_svarint_eq c_ret_def)
qed

lemma safe_read: "safe (unat n) A (\<lambda>bs. length bs = unat n) (on_stream (pb_read E True n))"
proof (rule safe_stream)
  fix s assume "good s"
  then show "\<exists>r s'. pb_read E True n s = Some (r, s') \<and> fwd s s' \<and>
      (\<forall>v. r = Some v \<longrightarrow> length v = unat n \<and> length (avail s') + unat n \<le> length (avail s))"
  proof (cases rule: read_cases [where n = n])
    case 1
    with \<open>good s\<close> moved_adv show ?thesis by (auto simp: adv_avail)
  next
    case 2
    with \<open>good s\<close> show ?thesis by (simp add: moved_err moved_refl)
  qed
qed

lemma safe_read_to: "span p (uint n) \<subseteq> A \<Longrightarrow> safe (unat n) A (\<lambda>_. True) (read_to E p n)"
  unfolding read_to_def [abs_def]
  by (rule safe_bind [OF safe_read, where k = 0]) (rule safe_store, simp_all)

lemma safe_clamped:
  assumes "\<And>bs x. c = Some (bs, x) \<Longrightarrow> span dest (int (length bs)) \<subseteq> A"
  shows "safe 0 A (\<lambda>_. True) (store_clamped c v dest)"
proof (cases c)
  case None
  then show ?thesis unfolding store_clamped_def [abs_def] by (simp add: safe_error)
next
  case (Some bx)
  obtain bs x where "bx = (bs, x)" by (cases bx)
  with Some assms show ?thesis
    unfolding store_clamped_def [abs_def]
    by (simp only: option.case prod.case) (rule safe_bind [OF safe_store safe_if], auto intro: safe_error safe_true)
qed

lemma safe_dec_bool: "span dest 1 \<subseteq> A \<Longrightarrow> safe 1 A (\<lambda>_. True) (pb_dec_bool E field dest)"
  unfolding pb_dec_bool_def [abs_def]
  by (rule safe_bind [OF safe_varint32, where k = 0]) (rule safe_store, simp_all)

lemma safe_dec_varint:
  assumes "span dest (uint (f_data_size field)) \<subseteq> A"
  shows "safe 1 A (\<lambda>_. True) (pb_dec_varint E field dest)" "safe 1 A (\<lambda>_. True) (pb_dec_uvarint E field dest)"
    "safe 1 A (\<lambda>_. True) (pb_dec_svarint E field dest)"
  unfolding pb_dec_varint_def [abs_def] pb_dec_uvarint_def [abs_def] pb_dec_svarint_def [abs_def] Let_def
  using assms
  by (auto intro!: safe_bind [OF safe_varint, where k = 0] safe_bind [OF safe_svarint, where k = 0] safe_clamped
      dest!: clamp_length)

lemma safe_dec_fixed32: "span dest 4 \<subseteq> A \<Longrightarrow> safe 1 A (\<lambda>_. True) (pb_dec_fixed32 E field dest)"
  unfolding pb_dec_fixed32_def [abs_def] pb_decode_fixed32_def [abs_def]
  by (rule safe_bind [OF safe_read safe_store]) (simp_all del: bytes_le_numeral)

lemma safe_dec_fixed64: "span dest 8 \<subseteq> A \<Longrightarrow> safe 1 A (\<lambda>_. True) (pb_dec_fixed64 E field dest)"
  unfolding pb_dec_fixed64_def [abs_def] pb_decode_fixed64_def [abs_def]
  by (rule safe_bind [OF safe_read safe_store]) (simp_all del: bytes_le_numeral)

lemma safe_dec_fixed_bytes:
  assumes "span dest (uint (f_data_size field)) \<subseteq> A"
  shows "safe 1 A (\<lambda>_. True) (pb_dec_fixed_length_bytes E field dest)"
  unfolding pb_dec_fixed_length_bytes_def [abs_def]
proof (rule safe_bind [OF safe_varint32, where k = 0])
  fix n :: u32
  have rd: "safe 0 A (\<lambda>_. True) (read_to E dest (ucast (f_data_size field)))"
    by (rule safe_weaken [OF safe_read_to]) (simp_all add: assms)
  have ms: "safe 0 A (\<lambda>_. True) (on_machine (m_memset dest 0 (unat (f_data_size field))))"
    by (rule safe_memset) (simp add: assms)
  show "safe 0 A (\<lambda>_. True) (\<lambda>\<sigma>. if PB_SIZE_MAX < n then ret_derror ''bytes overflow'' \<sigma>
     else if n = 0 then on_machine (m_memset dest 0 (unat (f_data_size field))) \<sigma>
     else if n \<noteq> f_data_size field then ret_derror ''incorrect fixed length bytes size'' \<sigma>
     else read_to E dest (ucast (f_data_size field)) \<sigma>)"
    by (rule safe_if [OF safe_error safe_if [OF ms safe_if [OF safe_error rd]]])
qed simp

lemma safe_finally:
  assumes m: "safe k A P m" and f: "safe_op A f"
  shows "safe k A P (\<lambda>\<sigma>. case m \<sigma> of None \<Rightarrow> None
    | Some (status, \<sigma>) \<Rightarrow> (case f (snd \<sigma>) of None \<Rightarrow> None | Some \<mu> \<Rightarrow> Some (status, (fst \<sigma>, \<mu>))))"
proof (rule safeI)
  fix s and \<mu> :: machine assume s: "good s" "A \<subseteq> dom (mem \<mu>)" "clear_stack \<mu>"
  obtain r s' \<mu>' where r: "m (s, \<mu>) = Some (r, (s', \<mu>'))" "lag s s'" "writes A \<mu> \<mu>'"
    "\<forall>v. r = Some v \<longrightarrow> P v \<and> fwd s s' \<and> length (avail s') + k \<le> length (avail s)"
    using m s unfolding safe_dec_def by blast
  moreover obtain \<mu>'' where "f \<mu>' = Some \<mu>''" "writes A \<mu>' \<mu>''"
    using safe_opD [OF f] s(2) writes_dom [OF r(3)] by blast
  ultimately show "\<exists>r s' \<mu>'. (case m (s, \<mu>) of None \<Rightarrow> None
      | Some (status, \<sigma>) \<Rightarrow> (case f (snd \<sigma>) of None \<Rightarrow> None | Some \<mu> \<Rightarrow> Some (status, (fst \<sigma>, \<mu>)))) =
      Some (r, (s', \<mu>')) \<and> lag s s' \<and> writes A \<mu> \<mu>' \<and>
      (\<forall>v. r = Some v \<longrightarrow> P v \<and> fwd s s' \<and> length (avail s') + k \<le> length (avail s))"
    using writes_trans by auto
qed

end

lemma alloc_bytes: "uint (PB_BYTES_ARRAY_T_ALLOCSIZE (ucast (n :: u32))) = uint n + 4"
proof -
  have "unat (ucast n + 4 :: u64) = unat (ucast n :: u64) + unat (4 :: u64)"
    using unat_u32_less [of n] by (intro unat_add_lem [THEN iffD1]) simp
  then show ?thesis unfolding uint_nat by (simp add: PB_BYTES_ARRAY_T_ALLOCSIZE_def BYTES_OFFSET_def)
qed

lemma alloc_string:
  assumes "\<not> (ucast (n + 1) :: u64) < ucast (n :: u32)"
  shows "uint (n + 1) = uint n + 1"
proof -
  have "unat n \<le> unat (n + 1)" using assms by (simp add: word_less_nat_alt)
  moreover have "unat (n + 1) = (unat n + 1) mod 4294967296" by (simp add: unat_word_ariths)
  moreover have "unat n \<noteq> 4294967295" using calculation by auto
  ultimately have "unat (n + 1) = unat n + 1" using unat_u32_less [of n] by simp
  then show ?thesis unfolding uint_nat by simp
qed

context limited_source
begin

lemma safe_dec_bytes:
  assumes "span dest (uint (f_data_size field)) \<subseteq> A" "f_atype field = PB_ATYPE_STATIC"
  shows "safe 1 A (\<lambda>_. True) (pb_dec_bytes E field dest)"
  unfolding pb_dec_bytes_def [abs_def] Let_def
proof (rule safe_bind [OF safe_varint32 safe_if [OF safe_error safe_if [OF safe_error]]])
  fix n :: u32
  let ?a = "PB_BYTES_ARRAY_T_ALLOCSIZE (ucast n)"
  show "safe 0 A (\<lambda>_. True) (\<lambda>\<sigma>. c_bind
       (if f_atype field = PB_ATYPE_POINTER
        then c_bind (allocate_field dest ?a 1 \<sigma>) (\<lambda>_ \<sigma>.
          (case load_ptr (mem (snd \<sigma>)) dest of None \<Rightarrow> None | Some p \<Rightarrow> c_ret p \<sigma>))
        else if ucast (f_data_size field) < ?a then ret_derror ''bytes overflow'' \<sigma>
        else c_ret dest \<sigma>)
       (\<lambda>bdest \<sigma>. c_bind (on_machine (m_store bdest (bytes_le 4 n)) \<sigma>)
         (\<lambda>_ \<sigma>. read_to E (bdest + BYTES_OFFSET) (ucast n) \<sigma>)))"
  proof (rule safe_bind [where P = "\<lambda>v. v = dest \<and> uint n + 4 \<le> uint (f_data_size field)" and j = 0 and k = 0])
    show "safe 0 A (\<lambda>v. v = dest \<and> uint n + 4 \<le> uint (f_data_size field)) (\<lambda>\<sigma>.
       if f_atype field = PB_ATYPE_POINTER
        then c_bind (allocate_field dest ?a 1 \<sigma>) (\<lambda>_ \<sigma>.
          (case load_ptr (mem (snd \<sigma>)) dest of None \<Rightarrow> None | Some p \<Rightarrow> c_ret p \<sigma>))
        else if ucast (f_data_size field) < ?a then ret_derror ''bytes overflow'' \<sigma>
        else c_ret dest \<sigma>)"
    proof (rule safe_if [OF _ safe_if [OF safe_error safe_ret]])
      assume "\<not> ucast (f_data_size field) < ?a"
      then show "dest = dest \<and> uint n + 4 \<le> uint (f_data_size field)"
        using alloc_bytes [of n] by (simp add: word_less_def)
    qed (use assms(2) in simp)
  next
    fix v assume v: "v = dest \<and> uint n + 4 \<le> uint (f_data_size field)"
    then have "4 \<le> uint (f_data_size field)" using uint_ge_0 [of n] by linarith
    then have s4: "span dest 4 \<subseteq> A" by (intro span_sub [OF assms(1)]) simp_all
    have "safe 0 A (\<lambda>_. True) (on_machine (m_store v (bytes_le 4 n)))"
      by (rule safe_store) (use v s4 in \<open>simp del: bytes_le_numeral\<close>)
    moreover have "safe 0 A (\<lambda>_. True) (read_to E (v + BYTES_OFFSET) (ucast n))"
      by (rule safe_weaken [OF safe_read_to]) (use v span_sub [OF assms(1), of "dest + 4" "uint n"] in \<open>simp_all add: BYTES_OFFSET_def\<close>)
    ultimately show "safe 0 A (\<lambda>_. True) (\<lambda>\<sigma>. c_bind (on_machine (m_store v (bytes_le 4 n)) \<sigma>)
         (\<lambda>_ \<sigma>. read_to E (v + BYTES_OFFSET) (ucast n) \<sigma>))"
      by (rule safe_bind) simp
  qed simp
qed simp

lemma safe_dec_string:
  assumes "span dest (uint (f_data_size field)) \<subseteq> A" "f_atype field = PB_ATYPE_STATIC"
  shows "safe 1 A (\<lambda>_. True) (pb_dec_string E field dest)"
  unfolding pb_dec_string_def [abs_def] Let_def
proof (rule safe_bind [OF safe_varint32 safe_if [OF safe_error]])
  fix n :: u32
  let ?a = "ucast (n + 1) :: u64"
  assume na: "\<not> ?a < ucast n"
  show "safe 0 A (\<lambda>_. True) (\<lambda>\<sigma>. c_bind
       (if f_atype field = PB_ATYPE_POINTER
        then c_bind (allocate_field dest ?a 1 \<sigma>) (\<lambda>_ \<sigma>.
          (case load_ptr (mem (snd \<sigma>)) dest of None \<Rightarrow> None | Some p \<Rightarrow> c_ret p \<sigma>))
        else if ucast (f_data_size field) < ?a then ret_derror ''string overflow'' \<sigma>
        else c_ret dest \<sigma>)
       (\<lambda>dest \<sigma>. case read_to E dest (ucast n) \<sigma> of None \<Rightarrow> None
         | Some (status, \<sigma>) \<Rightarrow>
           (case m_store (dest + uint n) [0] (snd \<sigma>) of None \<Rightarrow> None
            | Some \<mu> \<Rightarrow> Some (status, (fst \<sigma>, \<mu>)))))"
  proof (rule safe_bind [where P = "\<lambda>v. v = dest \<and> uint n + 1 \<le> uint (f_data_size field)" and j = 0 and k = 0])
    show "safe 0 A (\<lambda>v. v = dest \<and> uint n + 1 \<le> uint (f_data_size field)) (\<lambda>\<sigma>.
       if f_atype field = PB_ATYPE_POINTER
        then c_bind (allocate_field dest ?a 1 \<sigma>) (\<lambda>_ \<sigma>.
          (case load_ptr (mem (snd \<sigma>)) dest of None \<Rightarrow> None | Some p \<Rightarrow> c_ret p \<sigma>))
        else if ucast (f_data_size field) < ?a then ret_derror ''string overflow'' \<sigma>
        else c_ret dest \<sigma>)"
    proof (rule safe_if [OF _ safe_if [OF safe_error safe_ret]])
      assume "\<not> ucast (f_data_size field) < ?a"
      then show "dest = dest \<and> uint n + 1 \<le> uint (f_data_size field)"
        using alloc_string [OF na] by (simp add: word_less_def)
    qed (use assms(2) in simp)
  next
    fix v assume v: "v = dest \<and> uint n + 1 \<le> uint (f_data_size field)"
    show "safe 0 A (\<lambda>_. True) (\<lambda>\<sigma>. case read_to E v (ucast n) \<sigma> of None \<Rightarrow> None
         | Some (status, \<sigma>) \<Rightarrow>
           (case m_store (v + uint n) [0] (snd \<sigma>) of None \<Rightarrow> None
            | Some \<mu> \<Rightarrow> Some (status, (fst \<sigma>, \<mu>))))"
      by (rule safe_finally [OF safe_weaken [OF safe_read_to] safe_op_store])
        (use v span_sub [OF assms(1) order_refl, of "uint n"] span_sub [OF assms(1), of "dest + uint n" 1] in simp_all)
  qed simp
qed simp

end

section \<open>Fields\<close>

text \<open>What a decoder of messages must do for the descriptors that \<open>sub\<close> accepts.\<close>

context limited_source
begin

definition safe_msg :: "(pb_field list \<Rightarrow> int \<Rightarrow> bool) \<Rightarrow> msg_decoder_t \<Rightarrow> bool" where
  "safe_msg sub dec \<longleftrightarrow> (\<forall>fs sz dest A. sub fs sz \<longrightarrow> span dest sz \<subseteq> A \<longrightarrow> safe 0 A (\<lambda>_. True) (dec fs dest))"

definition safe_ops :: "(pb_field list \<Rightarrow> int \<Rightarrow> bool) \<Rightarrow> msg_ops \<Rightarrow> bool" where
  "safe_ops sub R \<longleftrightarrow> safe_msg sub (op_noinit R) \<and>
     (\<forall>A it. placed sub A it \<longrightarrow> keeps A (op_release_field R it)) \<and>
     (\<forall>fs sz dest A. sub fs sz \<longrightarrow> span dest sz \<subseteq> A \<longrightarrow>
        safe_op A (op_defaults R fs dest) \<and> safe_op A (op_release R fs dest))"

lemma safe_msgD: "safe_msg sub dec \<Longrightarrow> sub fs sz \<Longrightarrow> span dest sz \<subseteq> A \<Longrightarrow> safe 0 A (\<lambda>_. True) (dec fs dest)"
  by (simp add: safe_msg_def)

lemma safe_opsD:
  assumes "safe_ops sub R" "sub fs sz" "span dest sz \<subseteq> A"
  shows "safe 0 A (\<lambda>_. True) (op_noinit R fs dest)" "safe_op A (op_defaults R fs dest)" "safe_op A (op_release R fs dest)"
  using assms by (auto simp: safe_ops_def safe_msg_def)

lemma safe_decode_with:
  assumes "safe_ops sub R" "sub fs sz" "span dest sz \<subseteq> A"
  shows "safe 0 A (\<lambda>_. True) (pb_decode_with R fs dest)"
proof -
  note ops = safe_opsD [OF assms]
  have body: "safe 0 A (\<lambda>_. True) (\<lambda>\<sigma>. case op_noinit R fs dest \<sigma> of None \<Rightarrow> None
       | Some (status, \<sigma>) \<Rightarrow> if status = None
         then c_bind (on_machine (op_release R fs dest) \<sigma>) (\<lambda>_ \<sigma>. c_false \<sigma>) else Some (status, \<sigma>))"
  proof (rule safeI)
    fix s and \<mu> :: machine assume s: "good s" "A \<subseteq> dom (mem \<mu>)" "clear_stack \<mu>"
    from ops(1) s show "\<exists>r s' \<mu>'. (case op_noinit R fs dest (s, \<mu>) of None \<Rightarrow> None
       | Some (status, \<sigma>) \<Rightarrow> if status = None
         then c_bind (on_machine (op_release R fs dest) \<sigma>) (\<lambda>_ \<sigma>. c_false \<sigma>) else Some (status, \<sigma>)) = Some (r, (s', \<mu>')) \<and>
       lag s s' \<and> writes A \<mu> \<mu>' \<and> (\<forall>v. r = Some v \<longrightarrow> True \<and> fwd s s' \<and> length (avail s') + 0 \<le> length (avail s))"
    proof (cases rule: safeE)
      case (1 s' \<mu>')
      then obtain \<mu>'' where "op_release R fs dest \<mu>' = Some \<mu>''" "writes A \<mu>' \<mu>''"
        using safe_opD [OF ops(3)] s(2) writes_dom by blast
      with 1 show ?thesis using writes_trans by (auto simp: on_machine_def c_false_def)
    next
      case (2 v s' \<mu>')
      then show ?thesis by (auto simp: fwd_lag)
    qed
  qed
  show ?thesis
    unfolding pb_decode_with_def [abs_def] by (rule safe_bind [OF safe_machine [OF ops(2)] body]) simp
qed

text \<open>Decoding in a substream.\<close>

lemma safe_substream:
  assumes "safe k A P d"
  shows "safe 1 A P (\<lambda>\<sigma>. c_bind (on_stream (pb_make_string_substream E) \<sigma>)
     (\<lambda>sub \<sigma>. Option.bind (d (sub, snd \<sigma>)) (close_with E (fst \<sigma>))))"
proof (rule safeI)
  fix s and \<mu> :: machine assume s: "good s" "A \<subseteq> dom (mem \<mu>)" "clear_stack \<mu>"
  show "\<exists>r s' \<mu>'. c_bind (on_stream (pb_make_string_substream E) (s, \<mu>))
      (\<lambda>sub \<sigma>. Option.bind (d (sub, snd \<sigma>)) (close_with E (fst \<sigma>))) = Some (r, (s', \<mu>')) \<and> lag s s' \<and> writes A \<mu> \<mu>' \<and>
      (\<forall>v. r = Some v \<longrightarrow> P v \<and> fwd s s' \<and> length (avail s') + 1 \<le> length (avail s))"
    using make_substream_cases [OF s(1)]
  proof (elim disjE exE conjE)
    fix s' assume "pb_make_string_substream E s = Some (None, s')" "fwd s s'"
    then show ?thesis by (auto simp: on_stream_def fwd_lag)
  next
    fix t n assume t: "fwd s t" "length (avail t) < length (avail s)" "n \<le> bytes_left t"
      "pb_make_string_substream E s = Some (Some (t\<lparr>bytes_left := n\<rparr>), t\<lparr>bytes_left := bytes_left t - n\<rparr>)"
    note gt = moved_good [OF t(1)]
    from assms limit_good [OF gt t(3)] s(2,3) show ?thesis
    proof (cases rule: safeE)
      case (1 sub \<mu>')
      then show ?thesis
        using close_lag [OF gt t(3)] t lag_trans [OF fwd_lag [OF t(1)]]
        by (fastforce simp: on_stream_def close_with_def)
    next
      case (2 v sub \<mu>')
      obtain e where "pb_close_string_substream E sub (t\<lparr>bytes_left := bytes_left t - n\<rparr>) =
          Some (Some (), (adv (unat n) t)\<lparr>i_errmsg := e\<rparr>)"
        using close_substream [OF gt t(3) 2(3)] by blast
      moreover have "fwd t ((adv (unat n) t)\<lparr>i_errmsg := e\<rparr>)"
        using t(3) left_ge [OF gt] by (intro moved_msg moved_adv gt) simp
      ultimately show ?thesis
        using 2 t moved_trans [OF t(1)] fwd_lag moved_length
        by (fastforce simp: on_stream_def close_with_def)
    qed
  qed
qed

end

lemma ltype_cases:
  assumes "x < PB_LTYPES_COUNT"
  shows "x = PB_LTYPE_BOOL \<or> x = PB_LTYPE_VARINT \<or> x = PB_LTYPE_UVARINT \<or> x = PB_LTYPE_SVARINT \<or>
    x = PB_LTYPE_FIXED32 \<or> x = PB_LTYPE_FIXED64 \<or> x = PB_LTYPE_BYTES \<or> x = PB_LTYPE_STRING \<or>
    x = PB_LTYPE_SUBMESSAGE \<or> x = PB_LTYPE_EXTENSION \<or> x = PB_LTYPE_FIXED_LENGTH_BYTES"
proof -
  have "unat x < 11" using assms by (simp add: word_less_nat_alt)
  then have "unat x \<in> {0, 1, 2, 3, 4, 5, 6, 7, 8, 9, 10}" by (simp only: insert_iff empty_iff) arith
  moreover have "x = word_of_nat (unat x)" by simp
  ultimately show ?thesis by (elim insertE emptyE) simp_all
qed

lemma htype_cases:
  "PB_HTYPE x = PB_HTYPE_REQUIRED \<or> PB_HTYPE x = PB_HTYPE_OPTIONAL \<or> PB_HTYPE x = PB_HTYPE_REPEATED \<or> PB_HTYPE x = PB_HTYPE_ONEOF"
proof -
  have "x AND push_bit 4 (mask 2) = push_bit 4 (take_bit 2 (drop_bit 4 x))"
    by (rule bit_word_eqI) (auto simp: bit_simps)
  moreover have "push_bit 4 (mask 2) = (0x30 :: u8)" by (simp add: mask_eq_exp_minus_1)
  moreover have "unat (take_bit 2 (drop_bit 4 x)) < 4"
    by (simp only: unsigned_take_bit_eq) (simp add: take_bit_eq_mod)
  then have "unat (take_bit 2 (drop_bit 4 x)) \<in> {0, 1, 2, 3}" by (simp only: insert_iff empty_iff) arith
  then have "word_of_nat (unat (take_bit 2 (drop_bit 4 x))) \<in> {0, 1, 2, 3 :: u8}" by (elim insertE emptyE) simp_all
  then have "take_bit 2 (drop_bit 4 x) \<in> {0, 1, 2, 3}" by simp
  ultimately show ?thesis by (auto simp: PB_HTYPE_def)
qed

text \<open>The item address is computed in 32 bits; a product that wraps stays inside the array.\<close>

lemma item_bound:
  assumes "n < m"
  shows "0 \<le> uint (d * n :: u32)" "uint (d * n) + uint d \<le> uint d * uint m"
proof -
  have "uint (d * n) \<le> uint d * uint n"
    unfolding uint_word_ariths by (rule zmod_le_nonneg_dividend) simp
  moreover have "uint n + 1 \<le> uint m" using assms by (simp add: word_less_def)
  then have "uint d * (uint n + 1) \<le> uint d * uint m" by (rule mult_left_mono) simp
  ultimately show "uint (d * n) + uint d \<le> uint d * uint m" by (simp add: distrib_left)
qed simp

context limited_source
begin

lemma safe_dec_submessage:
  assumes "f_ptr field = FieldsPtr fs" "safe_ops sub R" "sub fs (uint (f_data_size field))"
    and "span dest (uint (f_data_size field)) \<subseteq> A"
  shows "safe 1 A (\<lambda>_. True) (pb_dec_submessage E R field dest)"
proof -
  have "safe 0 A (\<lambda>_. True) ((if f_htype field = PB_HTYPE_REPEATED then pb_decode_with R else op_noinit R) fs dest)"
    using safe_decode_with [OF assms(2-4)] safe_opsD(1) [OF assms(2-4)] by auto
  from safe_substream [OF this] show ?thesis
    unfolding pb_dec_submessage_def [abs_def] by (simp add: assms(1))
qed

lemma safe_decoder:
  assumes t: "static_type sub f" and R: "safe_ops sub R" and sp: "span dest (item_size f) \<subseteq> A"
  shows "safe 1 A (\<lambda>_. True) (PB_DECODERS E R (f_ltype f) f dest)"
proof -
  have data: "span dest (uint (f_data_size f)) \<subseteq> A"
    using item_size_ge [of f] by (intro span_sub [OF sp]) simp_all
  note t' = t [unfolded static_type_def]
  have own: "f_ltype f = PB_LTYPE_BOOL \<Longrightarrow> span dest 1 \<subseteq> A" "f_ltype f = PB_LTYPE_FIXED32 \<Longrightarrow> span dest 4 \<subseteq> A"
    "f_ltype f = PB_LTYPE_FIXED64 \<Longrightarrow> span dest 8 \<subseteq> A"
    by (rule span_sub [OF sp order_refl], simp add: item_size_def)+
  have msg: "f_ltype f = PB_LTYPE_SUBMESSAGE \<Longrightarrow> safe 1 A (\<lambda>_. True) (pb_dec_submessage E R f dest)"
    using t' safe_dec_submessage [OF _ R _ data] by (auto split: pb_ptr.splits)
  have "f_ltype f < PB_LTYPES_COUNT" "f_ltype f \<noteq> PB_LTYPE_EXTENSION" "f_atype f = PB_ATYPE_STATIC" using t' by simp_all
  with ltype_cases [OF this(1)] msg safe_dec_varint [OF data] safe_dec_bytes [OF data] safe_dec_string [OF data]
    safe_dec_fixed_bytes [OF data] safe_dec_bool [OF own(1)] safe_dec_fixed32 [OF own(2)] safe_dec_fixed64 [OF own(3)]
  show ?thesis by (elim disjE) (simp_all add: PB_DECODERS_def)
qed

text \<open>The packed loop.\<close>

lemma packed_loop:
  assumes item: "\<And>n. n < f_array_size f \<Longrightarrow> safe 1 A (\<lambda>_. True) (func f (pdata + uint (f_data_size f * n)))"
    and ps: "span psize 4 \<subseteq> A" and s: "good s" "A \<subseteq> dom (mem \<mu>)" "clear_stack \<mu>"
  shows "\<exists>status s' \<mu>'. c_loop (packed_step f func pdata psize) (s, \<mu>) = Some (status, (s', \<mu>')) \<and>
    lag s s' \<and> writes A \<mu> \<mu>' \<and> (status \<longrightarrow> fwd s s')"
proof -
  have "\<exists>r. c_loop (packed_step f func pdata psize) (s, \<mu>) = Some r \<and>
      (case r of (status, (s', \<mu>')) \<Rightarrow> lag s s' \<and> writes A \<mu> \<mu>' \<and> (status \<longrightarrow> fwd s s'))"
  proof (rule c_loop_rule [where I = "\<lambda>(t, \<nu>). fwd s t \<and> writes A \<mu> \<nu>" and m = "\<lambda>(t, \<nu>). length (avail t)"])
    fix \<sigma> :: dstate assume "case \<sigma> of (t, \<nu>) \<Rightarrow> fwd s t \<and> writes A \<mu> \<nu>"
    then obtain t \<nu> where \<sigma>: "\<sigma> = (t, \<nu>)" "fwd s t" "writes A \<mu> \<nu>" by (cases \<sigma>) auto
    have t: "good t" "A \<subseteq> dom (mem \<nu>)" "clear_stack \<nu>"
      using \<sigma> s moved_good writes_dom writes_clear by auto
    obtain n where n: "load_u32 (mem \<nu>) psize = Some n" using load_u32_in [OF ps t(2)] by blast
    show "\<exists>x. packed_step f func pdata psize \<sigma> = Some x \<and>
      (case x of Inl r \<Rightarrow> (case r of (status, (s', \<mu>')) \<Rightarrow> lag s s' \<and> writes A \<mu> \<mu>' \<and> (status \<longrightarrow> fwd s s'))
       | Inr \<sigma>' \<Rightarrow> (case \<sigma>' of (t, \<nu>) \<Rightarrow> fwd s t \<and> writes A \<mu> \<nu>) \<and>
           (case \<sigma>' of (t, \<nu>) \<Rightarrow> length (avail t)) < (case \<sigma> of (t, \<nu>) \<Rightarrow> length (avail t)))"
    proof (cases "bytes_left t = 0 \<or> \<not> n < f_array_size f")
      case True
      then show ?thesis using \<sigma> n fwd_lag by (auto simp: packed_step_def)
    next
      case False
      then have "n < f_array_size f" by simp
      from item [OF this] t show ?thesis
      proof (cases rule: safeE)
        case (1 t' \<nu>')
        then show ?thesis
          using False n \<sigma> lag_trans [OF fwd_lag [OF \<sigma>(2)]] writes_trans [OF \<sigma>(3)]
          by (auto simp: packed_step_def)
      next
        case (2 v t' \<nu>')
        obtain n' where "load_u32 (mem \<nu>') psize = Some n'"
          using load_u32_in [OF ps] t(2) writes_dom [OF 2(4)] by blast
        moreover obtain \<nu>'' where "m_store psize (bytes_le 4 (n' + 1)) \<nu>' = Some \<nu>''" "writes A \<nu>' \<nu>''"
          using store_writes [of psize "bytes_le 4 (n' + 1)" A \<nu>'] ps t(2) writes_dom [OF 2(4)] by fastforce
        ultimately show ?thesis
          using False n \<sigma> 2 moved_trans [OF \<sigma>(2)] writes_trans [OF \<sigma>(3)] writes_trans [OF 2(4)]
          by (fastforce simp: packed_step_def simp del: bytes_le_numeral)
      qed
    qed
  qed (use s moved_refl in auto)
  then show ?thesis by auto
qed

lemma lag_parent:
  assumes "good t" "n \<le> bytes_left t"
  shows "lag t (t\<lparr>bytes_left := bytes_left t - n\<rparr>)"
proof -
  have "bytes_left t - n \<le> bytes_left t" using assms(2) by (rule word_sub_le)
  with assms(1) show ?thesis
    unfolding lagged_def by (intro conjI exI [of _ 0] exI [of _ "bytes_left t - n"] exI [of _ "i_errmsg t"]) (simp_all add: adv_0)
qed

lemma safe_packed:
  assumes item: "\<And>n. n < f_array_size f \<Longrightarrow> safe 1 A (\<lambda>_. True) (func f (pdata + uint (f_data_size f * n)))"
    and ps: "span psize 4 \<subseteq> A"
  shows "safe 0 A (\<lambda>_. True) (decode_packed_static E f func pdata psize)"
proof (rule safeI)
  fix s and \<mu> :: machine assume s: "good s" "A \<subseteq> dom (mem \<mu>)" "clear_stack \<mu>"
  show "\<exists>r s' \<mu>'. decode_packed_static E f func pdata psize (s, \<mu>) = Some (r, (s', \<mu>')) \<and> lag s s' \<and> writes A \<mu> \<mu>' \<and>
      (\<forall>v. r = Some v \<longrightarrow> True \<and> fwd s s' \<and> length (avail s') + 0 \<le> length (avail s))"
    using make_substream_cases [OF s(1)]
  proof (elim disjE exE conjE)
    fix s' assume "pb_make_string_substream E s = Some (None, s')" "fwd s s'"
    then show ?thesis by (auto simp: decode_packed_static_def on_stream_def fwd_lag)
  next
    fix t n assume t: "fwd s t" "n \<le> bytes_left t"
      "pb_make_string_substream E s = Some (Some (t\<lparr>bytes_left := n\<rparr>), t\<lparr>bytes_left := bytes_left t - n\<rparr>)"
    note gt = moved_good [OF t(1)]
    let ?par = "t\<lparr>bytes_left := bytes_left t - n\<rparr>"
    obtain status sub \<mu>' where l: "c_loop (packed_step f func pdata psize) (t\<lparr>bytes_left := n\<rparr>, \<mu>) = Some (status, (sub, \<mu>'))"
      "lag (t\<lparr>bytes_left := n\<rparr>) sub" "writes A \<mu> \<mu>'" "status \<longrightarrow> fwd (t\<lparr>bytes_left := n\<rparr>) sub"
      using packed_loop [where f = f and func = func and pdata = pdata, OF item ps limit_good [OF gt t(2)] s(2,3)] by blast
    show ?thesis
    proof (cases "bytes_left sub = 0")
      case False
      have "lag s (set_ierror ''array overflow'' ?par)"
        using lag_trans [OF fwd_lag [OF t(1)] lag_err [OF lag_parent [OF gt t(2)]]] .
      with False l t(3) show ?thesis
        by (auto simp: decode_packed_static_def on_stream_def ret_derror_def c_false_def)
    next
      case True
      show ?thesis
      proof (cases status)
        case True
        obtain e where "pb_close_string_substream E sub ?par = Some (Some (), (adv (unat n) t)\<lparr>i_errmsg := e\<rparr>)"
          using close_substream [OF gt t(2)] l(4) True by blast
        moreover have "fwd s ((adv (unat n) t)\<lparr>i_errmsg := e\<rparr>)"
          using t(2) left_ge [OF gt] by (intro moved_trans [OF t(1)] moved_msg moved_adv gt) simp
        ultimately show ?thesis
          using True \<open>bytes_left sub = 0\<close> l t(3) fwd_lag moved_length
          by (fastforce simp: decode_packed_static_def on_stream_def close_with_def)
      next
        case False
        obtain s' where "pb_close_string_substream E sub ?par = Some (Some (), s')" "lag t s'"
          using close_lag [OF gt t(2) l(2)] by blast
        with False \<open>bytes_left sub = 0\<close> l t(3) lag_trans [OF fwd_lag [OF t(1)]] show ?thesis
          by (auto simp: decode_packed_static_def on_stream_def close_with_def)
      qed
    qed
  qed
qed

lemma safe_static_field:
  assumes p: "placed sub A it" and R: "safe_ops sub R"
  shows "safe 0 A (\<lambda>_. True) (decode_static_field E R wt it)"
proof -
  let ?f = "it_field it" let ?func = "PB_DECODERS E R (f_ltype ?f)" let ?d = "uint (f_data_size ?f)"
  note q = placedD [OF p refl]
  note t = q(1) [unfolded static_type_def]
  have one: "f_htype ?f \<noteq> PB_HTYPE_REPEATED \<Longrightarrow> safe 0 A (\<lambda>_. True) (?func ?f (pData it))"
    using q(2) by (intro safe_weaken [OF safe_decoder [OF q(1) R]]) (simp_all add: field_extent_def)
  have item: "safe 1 A (\<lambda>_. True) (?func ?f (pData it + uint (f_data_size ?f * n)))"
    if "f_htype ?f = PB_HTYPE_REPEATED" "n < f_array_size ?f" for n
  proof (rule safe_decoder [OF q(1) R])
    have "span (pData it + uint (f_data_size ?f * n)) ?d \<subseteq> A"
      using item_bound [OF that(2), of "f_data_size ?f"] that(1) q(2)
      by (intro order_trans [OF span_sub [OF order_refl] q(2)]) (simp_all add: field_extent_def)
    then show "span (pData it + uint (f_data_size ?f * n)) (item_size ?f) \<subseteq> A" using t that(1) by simp
  qed
  have store: "safe 0 A (\<lambda>_. True) (on_machine (m_store (pSize it) (bytes_le 4 (n :: u32))))"
    if "f_htype ?f = PB_HTYPE_REPEATED \<or> f_htype ?f = PB_HTYPE_ONEOF" for n
    by (rule safe_store) (use that q(4,5) in \<open>auto simp del: bytes_le_numeral\<close>)
  have has: "safe 0 A (\<lambda>_. True) (\<lambda>\<sigma>. if pSize it \<noteq> pData it then on_machine (m_store (pSize it) [1]) \<sigma> else c_true \<sigma>)"
    if "f_htype ?f = PB_HTYPE_OPTIONAL"
    by (rule safe_if [OF safe_store safe_true]) (use that q(3) in auto)
  have clear: "safe 0 A (\<lambda>_. True) (\<lambda>\<sigma>. if f_ltype ?f = PB_LTYPE_SUBMESSAGE
      then c_bind (on_machine (m_memset (pData it) 0 (unat (f_data_size ?f))) \<sigma>) (\<lambda>_ \<sigma>.
        (case f_ptr ?f of FieldsPtr fs \<Rightarrow> on_machine (op_defaults R fs (pData it)) \<sigma> | _ \<Rightarrow> None))
      else c_true \<sigma>)"
    if h: "f_htype ?f \<noteq> PB_HTYPE_REPEATED"
  proof (rule safe_if [OF _ safe_true])
    assume "f_ltype ?f = PB_LTYPE_SUBMESSAGE"
    then obtain fs where fs: "f_ptr ?f = FieldsPtr fs" "sub fs ?d" using t by (auto split: pb_ptr.splits)
    have sp: "span (pData it) ?d \<subseteq> A"
      using h item_size_ge [of ?f] by (intro order_trans [OF span_sub [OF order_refl] q(2)]) (simp_all add: field_extent_def)
    have "safe 0 A (\<lambda>_. True) (on_machine (m_memset (pData it) 0 (unat (f_data_size ?f))))"
      by (rule safe_memset) (simp add: sp)
    from safe_bind [OF this safe_machine [OF safe_opsD(2) [OF R fs(2) sp]], of 0]
    show "safe 0 A (\<lambda>_. True) (\<lambda>\<sigma>. c_bind (on_machine (m_memset (pData it) 0 (unat (f_data_size ?f))) \<sigma>) (\<lambda>_ \<sigma>.
        (case f_ptr ?f of FieldsPtr fs \<Rightarrow> on_machine (op_defaults R fs (pData it)) \<sigma> | _ \<Rightarrow> None)))"
      by (simp add: fs(1))
  qed simp
  show ?thesis
    unfolding decode_static_field_def [abs_def] Let_def
  proof (intro safe_if)
    assume "f_htype ?f = PB_HTYPE_REQUIRED" then show "safe 0 A (\<lambda>_. True) (?func ?f (pData it))" using one by simp
  next
    assume "f_htype ?f = PB_HTYPE_OPTIONAL"
    then show "safe 0 A (\<lambda>_. True) (\<lambda>\<sigma>. c_bind (if pSize it \<noteq> pData it then on_machine (m_store (pSize it) [1]) \<sigma> else c_true \<sigma>)
        (\<lambda>_ \<sigma>. ?func ?f (pData it) \<sigma>))"
      using safe_bind [OF has one, of 0] by simp
  next
    assume h: "f_htype ?f = PB_HTYPE_REPEATED"
    show "safe 0 A (\<lambda>_. True) (decode_packed_static E ?f ?func (pData it) (pSize it))"
      by (rule safe_packed) (use item [OF h] q(4) [OF h] in simp_all)
    show "safe 0 A (\<lambda>_. True) (\<lambda>\<sigma>. case load_u32 (mem (snd \<sigma>)) (pSize it) of None \<Rightarrow> None
      | Some n \<Rightarrow> c_bind (on_machine (m_store (pSize it) (bytes_le 4 (n + 1))) \<sigma>) (\<lambda>_ \<sigma>.
          if f_array_size ?f \<le> n then ret_derror ''array overflow'' \<sigma>
          else ?func ?f (pData it + uint (f_data_size ?f * n)) \<sigma>))"
    proof (rule safe_load [OF q(4) [OF h]])
      fix n
      have "safe 0 A (\<lambda>_. True) (\<lambda>\<sigma>. if f_array_size ?f \<le> n then ret_derror ''array overflow'' \<sigma>
          else ?func ?f (pData it + uint (f_data_size ?f * n)) \<sigma>)"
        by (rule safe_if [OF safe_error safe_weaken [OF item [OF h]]]) simp_all
      from safe_bind [OF store [of "n + 1"] this, of 0] h
      show "safe 0 A (\<lambda>_. True) (\<lambda>\<sigma>. c_bind (on_machine (m_store (pSize it) (bytes_le 4 (n + 1))) \<sigma>) (\<lambda>_ \<sigma>.
          if f_array_size ?f \<le> n then ret_derror ''array overflow'' \<sigma>
          else ?func ?f (pData it + uint (f_data_size ?f * n)) \<sigma>))" by simp
    qed
  next
    assume h: "f_htype ?f \<noteq> PB_HTYPE_REQUIRED" "f_htype ?f \<noteq> PB_HTYPE_OPTIONAL" "f_htype ?f \<noteq> PB_HTYPE_REPEATED"
    have "f_htype ?f = PB_HTYPE_ONEOF" using htype_cases [of "f_type ?f"] h by auto
    with safe_bind [OF store [of "f_tag ?f"] safe_bind [OF clear one, of 0], of 0] h(3)
    show "safe 0 A (\<lambda>_. True) (\<lambda>\<sigma>. c_bind (on_machine (m_store (pSize it) (bytes_le 4 (f_tag ?f))) \<sigma>) (\<lambda>_ \<sigma>.
        c_bind (if f_ltype ?f = PB_LTYPE_SUBMESSAGE
                then c_bind (on_machine (m_memset (pData it) 0 (unat (f_data_size ?f))) \<sigma>) (\<lambda>_ \<sigma>.
                  (case f_ptr ?f of FieldsPtr fs \<Rightarrow> on_machine (op_defaults R fs (pData it)) \<sigma> | _ \<Rightarrow> None))
                else c_true \<sigma>)
          (\<lambda>_ \<sigma>. ?func ?f (pData it) \<sigma>)))"
      by simp
  qed
qed

end

section \<open>The main loop\<close>

lemma loop_iter_placed:
  assumes st: "static_msg (Suc d) fs sz" and A: "span base sz \<subseteq> A" "span fc 4 \<subseteq> A" and it: "loop_iter fs base fc it"
  shows "placed (static_msg d) A it"
proof (cases "\<exists>i. at_field fs i \<and> it = iter_at fs base i")
  case True
  then show ?thesis using static_placed [OF st _ A(1)] by blast
next
  case False
  with it obtain i where i: "i < n_fields fs" "f_htype (field_at fs i) = PB_HTYPE_REPEATED"
    "it = (iter_at fs base i)\<lparr>pSize := fc\<rparr>" by (auto simp: loop_iter_def)
  have "placed (static_msg d) A (iter_at fs base i)"
    using i(1) by (intro static_placed [OF st _ A(1)]) (simp add: at_field_def)
  with i A(2) show ?thesis by (simp add: placed_def Let_def)
qed

lemma loop_iter_fixed:
  assumes "static_msg d fs sz" "loop_iter fs base fc it" "f_htype (it_field it) = PB_HTYPE_REPEATED"
  shows "loop_iter fs base fc (it\<lparr>pSize := fc\<rparr>)"
proof -
  have "n_fields fs = 0 \<Longrightarrow> f_htype (field_at fs 0) \<noteq> PB_HTYPE_REPEATED"
    using assms(1) by (cases d) (auto simp: static_layout_def)
  with assms(2,3) show ?thesis by (fastforce simp: loop_iter_def at_field_def)
qed

lemma loop_iter_start: "loop_iter fs base fc it \<Longrightarrow> it_start it = fs"
  by (auto simp: loop_iter_def)

text \<open>Counting the required fields ends.\<close>

lemma req_field_count_defined:
  assumes "loop_iter fs base fc it"
  shows "\<exists>n. req_field_count it = Some n"
proof -
  have next1: "pb_field_iter_next it = (go, it') \<Longrightarrow> go \<Longrightarrow> loop_iter fs base fc it' \<and> n_fields fs - it_pos it' < n_fields fs - it_pos it"
    if it: "loop_iter fs base fc it" for it go it'
  proof -
    assume n: "pb_field_iter_next it = (go, it')" go
    obtain i where i: "at_field fs i" "pb_field_iter_next it = pb_field_iter_next (iter_at fs base i)" "it_pos it = i"
      using it n_fields_tag [of _ fs] next_ignores_size [of "iter_at fs base _" fc]
      unfolding loop_iter_def at_field_def by fastforce
    have "i < n_fields fs"
      using i n iter_next_empty [of fs base] by (cases "n_fields fs = 0") (auto simp: at_field_def)
    with i n iter_next_at [of i fs base] show ?thesis by (auto simp: loop_iter_def at_field_def split: if_splits)
  qed
  have "\<exists>r. c_loop req_count_step it = Some r \<and> True"
  proof (rule c_loop_rule [where I = "loop_iter fs base fc" and m = "\<lambda>it. n_fields fs - it_pos it"])
    fix it assume "loop_iter fs base fc it"
    with next1 [of it] show "\<exists>x. req_count_step it = Some x \<and>
        (case x of Inl r \<Rightarrow> True | Inr s' \<Rightarrow> loop_iter fs base fc s' \<and> n_fields fs - it_pos s' < n_fields fs - it_pos it)"
      by (cases "pb_field_iter_next it") (auto simp: req_count_step_def)
  qed (rule assms)
  then show ?thesis by (auto simp: req_field_count_def split: prod.splits)
qed

lemma tag_not_max: "drop_bit 3 w \<noteq> (- 1 :: u32)"
proof
  assume "drop_bit 3 w = (- 1 :: u32)"
  then have "bit (drop_bit 3 w) 31 = bit (- 1 :: u32) 31" by simp
  then show False by (auto simp: bit_simps dest: bit_imp_le_length)
qed

context limited_source
begin

lemma safe_union:
  assumes st: "static_msg (Suc d) fs sz" and A: "span base sz \<subseteq> A" "span fc 4 \<subseteq> A" and it: "loop_iter fs base fc it"
    and R: "safe_ops (static_msg d) R" and h: "f_htype (it_field it) = PB_HTYPE_ONEOF"
  shows "safe 0 A (loop_iter fs base fc) (pb_release_union_field R it)"
  unfolding pb_release_union_field_def [abs_def] Let_def
proof (rule safe_load)
  show "span (pSize it) 4 \<subseteq> A" by (rule placedD(5) [OF loop_iter_placed [OF st A it] refl h])
next
  fix old
  obtain b1 it1 where 1: "pb_field_iter_find it old = Some (b1, it1)" "loop_iter fs base fc it1"
    using loop_iter_find [OF it, of old] by blast
  obtain b2 it2 where 2: "pb_field_iter_find it1 (f_tag (it_field it)) = Some (b2, it2)" "loop_iter fs base fc it2"
    using loop_iter_find [OF 1(2), of "f_tag (it_field it)"] by blast
  have "keeps A (op_release_field R it1)"
    using R loop_iter_placed [OF st A 1(2)] by (simp add: safe_ops_def)
  then have rel: "safe 0 A (\<lambda>_. True) (on_machine (op_release_field R it1))"
    by (intro safe_machine keeps_safe)
  have fin: "safe 0 A (loop_iter fs base fc) (\<lambda>\<sigma>. if \<not> b2 then ret_derror ''iterator error'' \<sigma> else c_ret it2 \<sigma>)"
    by (intro safe_if safe_error safe_ret 2(2))
  show "safe 0 A (loop_iter fs base fc) (\<lambda>\<sigma>. if old = 0 then c_ret it \<sigma>
      else if old = f_tag (it_field it) then c_ret it \<sigma>
      else (case pb_field_iter_find it old of None \<Rightarrow> None
        | Some (found, it') \<Rightarrow> if \<not> found then ret_derror ''invalid union tag'' \<sigma>
          else c_bind (on_machine (op_release_field R it') \<sigma>) (\<lambda>_ \<sigma>.
            (case pb_field_iter_find it' (f_tag (it_field it)) of None \<Rightarrow> None
             | Some (found, it) \<Rightarrow> if \<not> found then ret_derror ''iterator error'' \<sigma> else c_ret it \<sigma>))))"
    unfolding 1(1) option.case prod.case 2(1)
    by (intro safe_if safe_ret safe_error safe_bind [OF rel fin] it) simp_all
qed

lemma safe_field:
  assumes st: "static_msg (Suc d) fs sz" and A: "span base sz \<subseteq> A" "span fc 4 \<subseteq> A" and it: "loop_iter fs base fc it"
    and R: "safe_ops (static_msg d) R"
  shows "safe 0 A (loop_iter fs base fc) (decode_field E R wt it)"
  unfolding decode_field_def [abs_def]
proof (rule safe_bind [where P = "loop_iter fs base fc" and j = 0 and k = 0])
  show "safe 0 A (loop_iter fs base fc)
      (\<lambda>\<sigma>. if f_htype (it_field it) = PB_HTYPE_ONEOF then pb_release_union_field R it \<sigma> else c_ret it \<sigma>)"
    by (intro safe_if safe_union [OF st A it R] safe_ret it)
next
  fix it' assume it': "loop_iter fs base fc it'"
  note p = loop_iter_placed [OF st A it']
  have "f_atype (it_field it') = PB_ATYPE_STATIC" by (rule static_ltype(2) [OF placedD(1) [OF p refl]])
  then show "safe 0 A (loop_iter fs base fc) (\<lambda>\<sigma>. c_bind
          (if f_atype (it_field it') = PB_ATYPE_STATIC then decode_static_field E R wt it' \<sigma>
           else if f_atype (it_field it') = PB_ATYPE_POINTER then decode_pointer_field E R wt it' \<sigma>
           else if f_atype (it_field it') = PB_ATYPE_CALLBACK then decode_callback_field E wt it' \<sigma>
           else ret_derror ''invalid field type'' \<sigma>)
          (\<lambda>_ \<sigma>. c_ret it' \<sigma>))"
    using safe_bind [OF safe_static_field [OF p R] safe_ret [where P = "loop_iter fs base fc", OF it'], of 0]
    by simp
qed simp

lemma safe_known:
  assumes st: "static_msg (Suc d) fs sz" and A: "span base sz \<subseteq> A" "span fc 4 \<subseteq> A"
    and l: "loop_iter fs base fc (l_iter l)" and R: "safe_ops (static_msg d) R"
  shows "safe 0 A (\<lambda>l. loop_iter fs base fc (l_iter l)) (known_field E R fc wt l)"
proof -
  let ?L = "\<lambda>l. loop_iter fs base fc (l_iter l)"
  let ?it = "l_iter l"
  have check: "safe 0 A (\<lambda>_. True) (\<lambda>\<sigma>. case l_fixed l of None \<Rightarrow> c_true \<sigma>
       | Some i \<Rightarrow> (case load_u32 (mem (snd \<sigma>)) fc of None \<Rightarrow> None
           | Some n \<Rightarrow> if n \<noteq> f_array_size (field_at (it_start ?it) i)
               then ret_derror ''wrong size for fixed count field'' \<sigma> else c_true \<sigma>))"
    by (cases "l_fixed l") (simp_all add: safe_true safe_load [OF A(2)] safe_if safe_error)
  have st0: "safe 0 A (\<lambda>_. True) (on_machine (m_store fc (bytes_le 4 (0 :: u32))))"
    by (rule safe_store) (use A(2) in \<open>simp del: bytes_le_numeral\<close>)
  have prep: "safe 0 A ?L (fixed_count_setup fc l)"
    unfolding fixed_count_setup_def [abs_def] Let_def
  proof (rule safe_if)
    assume h: "f_htype (it_field ?it) = PB_HTYPE_REPEATED \<and> pSize ?it = pData ?it"
    show "safe 0 A ?L (\<lambda>\<sigma>. c_bind
        (if l_fixed l \<noteq> Some (it_pos ?it)
         then c_bind (case l_fixed l of None \<Rightarrow> c_true \<sigma>
               | Some i \<Rightarrow> (case load_u32 (mem (snd \<sigma>)) fc of None \<Rightarrow> None
                   | Some n \<Rightarrow> if n \<noteq> f_array_size (field_at (it_start ?it) i)
                       then ret_derror ''wrong size for fixed count field'' \<sigma> else c_true \<sigma>))
               (\<lambda>_ \<sigma>. c_bind (on_machine (m_store fc (bytes_le 4 (0 :: u32))) \<sigma>) (\<lambda>_ \<sigma>.
                  c_ret (l\<lparr>l_fixed := Some (it_pos ?it)\<rparr>) \<sigma>))
         else c_ret l \<sigma>)
        (\<lambda>l \<sigma>. c_ret (l\<lparr>l_iter := ?it\<lparr>pSize := fc\<rparr>\<rparr>) \<sigma>))"
    proof (rule safe_bind [where P = "\<lambda>_. True" and j = 0 and k = 0])
      show "safe 0 A (\<lambda>_. True) (\<lambda>\<sigma>. if l_fixed l \<noteq> Some (it_pos ?it)
         then c_bind (case l_fixed l of None \<Rightarrow> c_true \<sigma>
               | Some i \<Rightarrow> (case load_u32 (mem (snd \<sigma>)) fc of None \<Rightarrow> None
                   | Some n \<Rightarrow> if n \<noteq> f_array_size (field_at (it_start ?it) i)
                       then ret_derror ''wrong size for fixed count field'' \<sigma> else c_true \<sigma>))
               (\<lambda>_ \<sigma>. c_bind (on_machine (m_store fc (bytes_le 4 (0 :: u32))) \<sigma>) (\<lambda>_ \<sigma>.
                  c_ret (l\<lparr>l_fixed := Some (it_pos ?it)\<rparr>) \<sigma>))
         else c_ret l \<sigma>)"
        by (rule safe_if [OF safe_bind [OF check safe_bind [OF st0 safe_ret [where P = "\<lambda>_. True"]]] safe_ret]) simp_all
    next
      fix v :: dec_locals
      show "safe 0 A ?L (c_ret (v\<lparr>l_iter := ?it\<lparr>pSize := fc\<rparr>\<rparr>))"
        by (rule safe_ret) (use loop_iter_fixed [OF st l] h in simp)
    qed simp
  qed (rule safe_ret, rule l)
  show ?thesis
    unfolding known_field_def [abs_def] Let_def
  proof (rule safe_bind [OF prep])
    fix l' assume l': "?L l'"
    have f: "safe 0 A (loop_iter fs base fc) (decode_field E R wt (l_iter (l'\<lparr>l_seen := mark_seen (l_iter l') (l_seen l')\<rparr>)))"
      using l' by (intro safe_field [OF st A _ R]) simp
    show "safe 0 A ?L (\<lambda>\<sigma>. c_bind (decode_field E R wt (l_iter (l'\<lparr>l_seen := mark_seen (l_iter l') (l_seen l')\<rparr>)) \<sigma>)
        (\<lambda>it \<sigma>. c_ret (l'\<lparr>l_seen := mark_seen (l_iter l') (l_seen l'), l_iter := it\<rparr>) \<sigma>))"
      by (rule safe_bind [OF f safe_ret]) simp_all
  qed simp
qed

lemma safe_unknown:
  assumes ne: "no_extensions fs" and l: "loop_iter fs base fc (l_iter l)" and tag: "tag \<noteq> - 1"
  shows "safe 0 A (\<lambda>l. loop_iter fs base fc (l_iter l)) (unknown_field E R tag wt l)"
proof -
  have skip: "safe 0 A (\<lambda>_. True) (on_stream (pb_skip_field E wt))"
    by (rule safe_stream) (use skip_field_defined [of _ wt] moved_length in fastforce)
  obtain it' where it': "find_extension_field (l_iter l) = Some (False, it')" "loop_iter fs base fc it'"
    using loop_iter_extension [OF ne l] by blast
  have "\<not> (- 1 :: u32) \<le> tag" using tag antisym [OF word_n1_ge] by blast
  then have "unknown_field E R tag wt l = (\<lambda>\<sigma>. c_bind (on_stream (pb_skip_field E wt) \<sigma>)
      (\<lambda>_ \<sigma>. c_ret (if l_ext_start l \<le> tag then l\<lparr>l_iter := it', l_ext_start := - 1\<rparr> else l) \<sigma>))"
    using it'(1) by (intro ext) (auto simp: unknown_field_def Let_def)
  then show ?thesis
    by (simp only:) (rule safe_bind [OF skip safe_ret], use l it'(2) in auto)
qed

lemma decode_tag_safe:
  assumes "good s"
  shows "\<exists>e s'. pb_decode_tag E s = Some (None, e, s') \<and> fwd s s' \<or>
    (\<exists>wt tag. pb_decode_tag E s = Some (Some (wt, tag), e, s') \<and> fwd s s' \<and> tag \<noteq> - 1 \<and>
       length (avail s') < length (avail s))"
proof -
  obtain r e s' where r: "pb_decode_tag E s = Some (r, e, s')" "fwd s s'"
    "r \<noteq> None \<longrightarrow> length (avail s') < length (avail s)"
    using decode_tag_defined [OF assms] by blast
  show ?thesis
  proof (cases r)
    case (Some wt_tag)
    then obtain wt tag where "r = Some (wt, tag)" by (cases wt_tag) auto
    moreover from r(1) this have "\<exists>w. tag = drop_bit 3 w"
      by (auto simp: pb_decode_tag_def split: option.splits if_splits)
    ultimately show ?thesis using r tag_not_max by auto
  qed (use r in blast)
qed

lemma noinit_loop_safe:
  assumes st: "static_msg (Suc d) fs sz" and A: "span base sz \<subseteq> A" "span fc 4 \<subseteq> A"
    and R: "safe_ops (static_msg d) R" and l: "loop_iter fs base fc (l_iter l)"
    and s: "good s" "A \<subseteq> dom (mem \<mu>)" "clear_stack \<mu>"
  shows "\<exists>r s' \<mu>'. c_loop (noinit_step E R fc) (l, (s, \<mu>)) = Some (r, (s', \<mu>')) \<and> lag s s' \<and> writes A \<mu> \<mu>' \<and>
    (\<forall>l'. r = Some l' \<longrightarrow> loop_iter fs base fc (l_iter l') \<and> fwd s s')"
proof -
  define I where "I x = (case x of (l', (t, \<nu>)) \<Rightarrow> loop_iter fs base fc (l_iter l') \<and> fwd s t \<and> writes A \<mu> \<nu>)"
    for x :: "dec_locals \<times> dstate"
  define Q where "Q x = (case x of (r, (s', \<mu>')) \<Rightarrow> lag s s' \<and> writes A \<mu> \<mu>' \<and>
    (\<forall>l'. r = Some l' \<longrightarrow> loop_iter fs base fc (l_iter l') \<and> fwd s s'))" for x :: "dec_locals option \<times> dstate"
  have ne: "no_extensions fs" by (rule static_no_extensions [OF st])
  have "\<exists>r. c_loop (noinit_step E R fc) (l, (s, \<mu>)) = Some r \<and> Q r"
  proof (rule c_loop_rule [where I = I and m = "\<lambda>(l, (t, \<nu>)). length (avail t)"])
    fix x assume "I x"
    then obtain l' t \<nu> where x: "x = (l', (t, \<nu>))" "loop_iter fs base fc (l_iter l')" "fwd s t" "writes A \<mu> \<nu>"
      by (cases x) (auto simp: I_def)
    have t: "good t" "A \<subseteq> dom (mem \<nu>)" "clear_stack \<nu>"
      using x s moved_good writes_dom writes_clear by auto
    show "\<exists>y. noinit_step E R fc x = Some y \<and> (case y of Inl r \<Rightarrow> Q r
        | Inr x' \<Rightarrow> I x' \<and> (case x' of (l, (t, \<nu>)) \<Rightarrow> length (avail t)) < (case x of (l, (t, \<nu>)) \<Rightarrow> length (avail t)))"
    proof (cases "bytes_left t = 0")
      case True
      then show ?thesis using x fwd_lag by (simp add: noinit_step_def Q_def)
    next
      case False
      consider e t' where "pb_decode_tag E t = Some (None, e, t')" "fwd t t'"
        | e t' wt tag where "pb_decode_tag E t = Some (Some (wt, tag), e, t')" "fwd t t'" "tag \<noteq> - 1"
            "length (avail t') < length (avail t)"
        using decode_tag_safe [OF t(1)] by blast
      then show ?thesis
      proof cases
        case 1
        then show ?thesis
          using False x moved_trans [OF x(3)] fwd_lag by (simp add: noinit_step_def Q_def)
      next
        case 2
        obtain found it' where f: "pb_field_iter_find (l_iter l') tag = Some (found, it')" "loop_iter fs base fc it'"
          using loop_iter_find [OF x(2), of tag] by blast
        define body where "body = (if found then known_field E R fc wt (l'\<lparr>l_iter := it'\<rparr>)
            else unknown_field E R tag wt (l'\<lparr>l_iter := it'\<rparr>))"
        have safe: "safe 0 A (\<lambda>l. loop_iter fs base fc (l_iter l)) body"
          using safe_known [OF st A _ R, of "l'\<lparr>l_iter := it'\<rparr>"] safe_unknown [OF ne _ 2(3), of base fc "l'\<lparr>l_iter := it'\<rparr>"] f(2)
          by (simp add: body_def)
        have step: "noinit_step E R fc x = (case body (t', \<nu>) of None \<Rightarrow> None
             | Some (None, \<sigma>) \<Rightarrow> Some (Inl (None, \<sigma>)) | Some (Some l, \<sigma>) \<Rightarrow> Some (Inr (l, \<sigma>)))"
          using False 2 f(1) x(1) by (simp add: noinit_step_def body_def if_distrib [where f = "\<lambda>f. f _"] cong: if_cong)
        have t': "good t'" "fwd s t'" using 2 moved_good moved_trans [OF x(3)] by auto
        from safe t'(1) t(2,3) show ?thesis
        proof (cases rule: safeE)
          case (1 u \<nu>')
          then show ?thesis
            using step lag_trans [OF fwd_lag [OF t'(2)]] writes_trans [OF x(4)] by (simp add: Q_def)
        next
          case (2 v u \<nu>')
          then show ?thesis
            using step \<open>length (avail t') < length (avail t)\<close> moved_trans [OF t'(2)] writes_trans [OF x(4)] x(1)
            by (simp add: I_def)
        qed
      qed
    qed
  qed (use l s moved_refl in \<open>simp add: I_def\<close>)
  then show ?thesis by (auto simp: Q_def)
qed

lemma finish_safe:
  assumes A: "span fc 4 \<subseteq> A" and l: "loop_iter fs base fc (l_iter l)"
  shows "safe 0 A (\<lambda>_. True) (finish_message fc l)"
proof -
  obtain n where n: "req_field_count (l_iter l) = Some n" using req_field_count_defined [OF l] by blast
  have check: "safe 0 A (\<lambda>_. True) (\<lambda>\<sigma>. case l_fixed l of None \<Rightarrow> c_true \<sigma>
       | Some i \<Rightarrow> (case load_u32 (mem (snd \<sigma>)) fc of None \<Rightarrow> None
           | Some n \<Rightarrow> if n \<noteq> f_array_size (field_at (it_start (l_iter l)) i)
               then ret_derror ''wrong size for fixed count field'' \<sigma> else c_true \<sigma>))"
    by (cases "l_fixed l") (simp_all add: safe_true safe_load [OF A] safe_if safe_error)
  have req: "safe 0 A (\<lambda>_. True) (\<lambda>\<sigma>. if all_required_seen n (l_seen l) then c_true \<sigma>
           else ret_derror ''missing required field'' \<sigma>)"
    by (rule safe_if [OF safe_true safe_error]) simp
  show ?thesis
    unfolding finish_message_def [abs_def] n option.case by (rule safe_bind [OF check req]) simp
qed

lemma noinit_safe:
  assumes st: "static_msg (Suc d) fs sz" and A: "span base sz \<subseteq> A" and R: "safe_ops (static_msg d) R"
  shows "safe 0 A (\<lambda>_. True) (pb_decode_noinit_with E R fs base)"
proof (rule safeI)
  fix s and \<mu> :: machine assume s: "good s" "A \<subseteq> dom (mem \<mu>)" "clear_stack \<mu>"
  let ?fc = "sp \<mu> - 4" let ?B = "A \<union> span ?fc 4"
  define \<mu>1 where "\<mu>1 = \<mu>\<lparr>mem := put_bytes (mem \<mu>) ?fc (bytes_le 4 (0 :: u32)), sp := ?fc\<rparr>"
  define l where "l = \<lparr>l_iter = iter_at fs base 0, l_seen = [0, 0], l_ext_start = 0, l_fixed = None\<rparr>"
  have dom1: "dom (mem \<mu>1) = dom (mem \<mu>) \<union> span ?fc 4"
    by (auto simp: \<mu>1_def put_bytes_def span_def dom_def simp del: bytes_le_numeral)
  have s1: "?B \<subseteq> dom (mem \<mu>1)" "clear_stack \<mu>1"
    using s dom1 by (auto simp: \<mu>1_def clear_stack_def put_bytes_def simp del: bytes_le_numeral)
  have l: "loop_iter fs base ?fc (l_iter l)" by (auto simp: l_def loop_iter_def at_field_def)
  have B: "span base sz \<subseteq> ?B" "span ?fc 4 \<subseteq> ?B" using A by auto
  have free: "x \<in> span ?fc 4 \<Longrightarrow> mem \<mu> x = None" for x using s(3) by (auto simp: clear_stack_def span_def)
  have pop: "writes A \<mu> (pop_local 4 \<nu>)" if w: "writes ?B \<mu>1 \<nu>" for \<nu>
  proof -
    obtain M where M: "\<nu> = \<mu>1\<lparr>mem := M\<rparr>" "dom M = dom (mem \<mu>1)" "\<forall>x. x \<notin> ?B \<longrightarrow> M x = mem \<mu>1 x"
      using w unfolding writes_def by blast
    have u: "unmap M ?fc 4 x = (if x \<in> span ?fc 4 then None else M x)" for x by (simp add: unmap_def span_def)
    have "pop_local 4 \<nu> = \<mu>\<lparr>mem := unmap M ?fc 4\<rparr>" by (simp add: M(1) pop_local_def \<mu>1_def)
    moreover have "dom (unmap M ?fc 4) = dom (mem \<mu>)"
    proof -
      have "x \<in> dom (unmap M ?fc 4) \<longleftrightarrow> x \<in> dom (mem \<mu>)" for x
        using M(2) dom1 free [of x] u [of x] by (cases "x \<in> span ?fc 4") (auto simp: domIff)
      then show ?thesis by blast
    qed
    moreover have "unmap M ?fc 4 x = mem \<mu> x" if "x \<notin> A" for x
    proof (cases "x \<in> span ?fc 4")
      case False
      with that M(3) have "M x = mem \<mu>1 x" by blast
      moreover have "mem \<mu>1 x = mem \<mu> x" using False by (auto simp: \<mu>1_def put_bytes_def span_def simp del: bytes_le_numeral)
    ultimately show ?thesis using False u by simp
    qed (simp add: u free)
    ultimately show ?thesis unfolding writes_def by blast
  qed
  obtain r s' \<mu>' where lp: "c_loop (noinit_step E R ?fc) (l, (s, \<mu>1)) = Some (r, (s', \<mu>'))" "lag s s'"
    "writes ?B \<mu>1 \<mu>'" "\<forall>l'. r = Some l' \<longrightarrow> loop_iter fs base ?fc (l_iter l') \<and> fwd s s'"
    using noinit_loop_safe [OF st B R l s(1) s1] by blast
  have eq: "pb_decode_noinit_with E R fs base (s, \<mu>) =
      map_option (\<lambda>(r, \<sigma>). (r, (fst \<sigma>, pop_local 4 (snd \<sigma>))))
        (case c_loop (noinit_step E R ?fc) (l, (s, \<mu>1)) of None \<Rightarrow> None
         | Some (None, \<sigma>) \<Rightarrow> c_false \<sigma> | Some (Some l, \<sigma>) \<Rightarrow> finish_message ?fc l \<sigma>)"
    by (simp add: pb_decode_noinit_with_def push_local_def Let_def iter_begin_at l_def \<mu>1_def del: bytes_le_numeral)
  show "\<exists>r s' \<mu>'. pb_decode_noinit_with E R fs base (s, \<mu>) = Some (r, (s', \<mu>')) \<and> lag s s' \<and> writes A \<mu> \<mu>' \<and>
      (\<forall>v. r = Some v \<longrightarrow> True \<and> fwd s s' \<and> length (avail s') + 0 \<le> length (avail s))"
  proof (cases r)
    case None
    then show ?thesis unfolding eq lp(1) using lp(2) pop [OF lp(3)] by (simp add: c_false_def)
  next
    case (Some l')
    then have l': "loop_iter fs base ?fc (l_iter l')" "fwd s s'" using lp(4) by auto
    have s2: "good s'" "?B \<subseteq> dom (mem \<mu>')" "clear_stack \<mu>'"
      using moved_good [OF l'(2)] s1 writes_dom [OF lp(3)] writes_clear [OF lp(3)] by auto
    from finish_safe [OF B(2) l'(1)] s2 show ?thesis
    proof (cases rule: safeE)
      case (1 t \<nu>)
      then show ?thesis unfolding eq lp(1) using Some lag_trans [OF fwd_lag [OF l'(2)]] pop [OF writes_trans [OF lp(3)]] by simp
    next
      case (2 v t \<nu>)
      then show ?thesis
        unfolding eq lp(1) using Some moved_trans [OF l'(2)] pop [OF writes_trans [OF lp(3)]] fwd_lag moved_length
        by fastforce
    qed
  qed
qed

lemma ops_safe:
  assumes "d < n" "safe_msg (static_msg d) (pb_decode_noinit n E)"
  shows "safe_ops (static_msg d) (msg_ops_at n E (pb_decode_noinit n E))"
  unfolding safe_ops_def
proof (intro conjI allI impI)
  fix A it assume "placed (static_msg d) A it"
  then show "keeps A (op_release_field (msg_ops_at n E (pb_decode_noinit n E)) it)"
    using assms(1) by (simp add: msg_ops_at_def release_field_keeps)
next
  fix fs sz dest A assume s: "static_msg d fs sz" "span dest sz \<subseteq> A"
  have "d \<le> n" using assms(1) by simp
  then show "safe_op A (op_defaults (msg_ops_at n E (pb_decode_noinit n E)) fs dest)"
    "safe_op A (op_release (msg_ops_at n E (pb_decode_noinit n E)) fs dest)"
    using defaults_safe [OF s(1) _ s(2), of n E] keeps_safe [OF release_keeps [OF s(1) _ s(2), of n E]]
    by (simp_all add: msg_ops_at_def)
qed (use assms(2) in \<open>simp add: msg_ops_at_def\<close>)

lemma decode_noinit_safe: "d < n \<Longrightarrow> safe_msg (static_msg d) (pb_decode_noinit n E)"
proof (induction n arbitrary: d)
  case (Suc n)
  show ?case
    unfolding safe_msg_def
  proof (intro allI impI)
    fix fs sz dest A assume s: "static_msg d fs sz" "span dest sz \<subseteq> A"
    obtain d' where d: "d = Suc d'" using s(1) by (cases d) auto
    with Suc have "safe_ops (static_msg d') (msg_ops_at n E (pb_decode_noinit n E))" by (intro ops_safe Suc.IH) auto
    with noinit_safe [OF s(1) [unfolded d] s(2)] show "safe 0 A (\<lambda>_. True) (pb_decode_noinit (Suc n) E fs dest)" by simp
  qed
qed simp

lemma decode_safe:
  assumes "static_msg d fs sz" "d < n" "span dest sz \<subseteq> A"
  shows "safe 0 A (\<lambda>_. True) (pb_decode n E fs dest)"
  unfolding pb_decode_def
  by (rule safe_decode_with [OF ops_safe [OF assms(2) decode_noinit_safe [OF assms(2)]] assms(1,3)])

end

end
