(* ===== verification/CCT_Proto.thy ===== *)
theory CCT_Proto
  imports PB_Types
begin

text \<open>
  The generated messages of the data transport library, \<open>cct.nanopb.h\<close> and \<open>cct.nanopb.c\<close>: the
  enumerations, the C structures as layouts, the default values and the descriptor arrays.  A
  descriptor array refers to those of its submessages, so they come first here.
\<close>

text \<open>\<open>pb_bytes_array_t\<close>, to which the bytes fields point.\<close>

definition pb_bytes_array_t :: ctype where
  "pb_bytes_array_t = CStruct [(''size'', CInt 4), (''bytes'', CArray (CInt 1) 1)]"

section \<open>Enumerations\<close>

datatype gdt_cct_NetworkConnectionInfo_NetworkType =
  NetworkConnectionInfo_NetworkType_NONE
| NetworkConnectionInfo_NetworkType_MOBILE
| NetworkConnectionInfo_NetworkType_WIFI
| NetworkConnectionInfo_NetworkType_MOBILE_MMS
| NetworkConnectionInfo_NetworkType_MOBILE_SUPL
| NetworkConnectionInfo_NetworkType_MOBILE_DUN
| NetworkConnectionInfo_NetworkType_MOBILE_HIPRI
| NetworkConnectionInfo_NetworkType_WIMAX
| NetworkConnectionInfo_NetworkType_BLUETOOTH
| NetworkConnectionInfo_NetworkType_DUMMY
| NetworkConnectionInfo_NetworkType_ETHERNET
| NetworkConnectionInfo_NetworkType_MOBILE_FOTA
| NetworkConnectionInfo_NetworkType_MOBILE_IMS
| NetworkConnectionInfo_NetworkType_MOBILE_CBS
| NetworkConnectionInfo_NetworkType_WIFI_P2P
| NetworkConnectionInfo_NetworkType_MOBILE_IA
| NetworkConnectionInfo_NetworkType_MOBILE_EMERGENCY
| NetworkConnectionInfo_NetworkType_PROXY
| NetworkConnectionInfo_NetworkType_VPN

fun NetworkConnectionInfo_NetworkType_value :: "gdt_cct_NetworkConnectionInfo_NetworkType \<Rightarrow> int" where
  "NetworkConnectionInfo_NetworkType_value NetworkConnectionInfo_NetworkType_NONE = - 1"
| "NetworkConnectionInfo_NetworkType_value NetworkConnectionInfo_NetworkType_MOBILE = 0"
| "NetworkConnectionInfo_NetworkType_value NetworkConnectionInfo_NetworkType_WIFI = 1"
| "NetworkConnectionInfo_NetworkType_value NetworkConnectionInfo_NetworkType_MOBILE_MMS = 2"
| "NetworkConnectionInfo_NetworkType_value NetworkConnectionInfo_NetworkType_MOBILE_SUPL = 3"
| "NetworkConnectionInfo_NetworkType_value NetworkConnectionInfo_NetworkType_MOBILE_DUN = 4"
| "NetworkConnectionInfo_NetworkType_value NetworkConnectionInfo_NetworkType_MOBILE_HIPRI = 5"
| "NetworkConnectionInfo_NetworkType_value NetworkConnectionInfo_NetworkType_WIMAX = 6"
| "NetworkConnectionInfo_NetworkType_value NetworkConnectionInfo_NetworkType_BLUETOOTH = 7"
| "NetworkConnectionInfo_NetworkType_value NetworkConnectionInfo_NetworkType_DUMMY = 8"
| "NetworkConnectionInfo_NetworkType_value NetworkConnectionInfo_NetworkType_ETHERNET = 9"
| "NetworkConnectionInfo_NetworkType_value NetworkConnectionInfo_NetworkType_MOBILE_FOTA = 10"
| "NetworkConnectionInfo_NetworkType_value NetworkConnectionInfo_NetworkType_MOBILE_IMS = 11"
| "NetworkConnectionInfo_NetworkType_value NetworkConnectionInfo_NetworkType_MOBILE_CBS = 12"
| "NetworkConnectionInfo_NetworkType_value NetworkConnectionInfo_NetworkType_WIFI_P2P = 13"
| "NetworkConnectionInfo_NetworkType_value NetworkConnectionInfo_NetworkType_MOBILE_IA = 14"
| "NetworkConnectionInfo_NetworkType_value NetworkConnectionInfo_NetworkType_MOBILE_EMERGENCY = 15"
| "NetworkConnectionInfo_NetworkType_value NetworkConnectionInfo_NetworkType_PROXY = 16"
| "NetworkConnectionInfo_NetworkType_value NetworkConnectionInfo_NetworkType_VPN = 17"

datatype gdt_cct_NetworkConnectionInfo_MobileSubtype =
  NetworkConnectionInfo_MobileSubtype_UNKNOWN_MOBILE_SUBTYPE
| NetworkConnectionInfo_MobileSubtype_GPRS
| NetworkConnectionInfo_MobileSubtype_EDGE
| NetworkConnectionInfo_MobileSubtype_UMTS
| NetworkConnectionInfo_MobileSubtype_CDMA
| NetworkConnectionInfo_MobileSubtype_EVDO_0
| NetworkConnectionInfo_MobileSubtype_EVDO_A
| NetworkConnectionInfo_MobileSubtype_RTT
| NetworkConnectionInfo_MobileSubtype_HSDPA
| NetworkConnectionInfo_MobileSubtype_HSUPA
| NetworkConnectionInfo_MobileSubtype_HSPA
| NetworkConnectionInfo_MobileSubtype_IDEN
| NetworkConnectionInfo_MobileSubtype_EVDO_B
| NetworkConnectionInfo_MobileSubtype_LTE
| NetworkConnectionInfo_MobileSubtype_EHRPD
| NetworkConnectionInfo_MobileSubtype_HSPAP
| NetworkConnectionInfo_MobileSubtype_GSM
| NetworkConnectionInfo_MobileSubtype_TD_SCDMA
| NetworkConnectionInfo_MobileSubtype_IWLAN
| NetworkConnectionInfo_MobileSubtype_LTE_CA
| NetworkConnectionInfo_MobileSubtype_COMBINED

fun NetworkConnectionInfo_MobileSubtype_value :: "gdt_cct_NetworkConnectionInfo_MobileSubtype \<Rightarrow> int" where
  "NetworkConnectionInfo_MobileSubtype_value NetworkConnectionInfo_MobileSubtype_UNKNOWN_MOBILE_SUBTYPE = 0"
| "NetworkConnectionInfo_MobileSubtype_value NetworkConnectionInfo_MobileSubtype_GPRS = 1"
| "NetworkConnectionInfo_MobileSubtype_value NetworkConnectionInfo_MobileSubtype_EDGE = 2"
| "NetworkConnectionInfo_MobileSubtype_value NetworkConnectionInfo_MobileSubtype_UMTS = 3"
| "NetworkConnectionInfo_MobileSubtype_value NetworkConnectionInfo_MobileSubtype_CDMA = 4"
| "NetworkConnectionInfo_MobileSubtype_value NetworkConnectionInfo_MobileSubtype_EVDO_0 = 5"
| "NetworkConnectionInfo_MobileSubtype_value NetworkConnectionInfo_MobileSubtype_EVDO_A = 6"
| "NetworkConnectionInfo_MobileSubtype_value NetworkConnectionInfo_MobileSubtype_RTT = 7"
| "NetworkConnectionInfo_MobileSubtype_value NetworkConnectionInfo_MobileSubtype_HSDPA = 8"
| "NetworkConnectionInfo_MobileSubtype_value NetworkConnectionInfo_MobileSubtype_HSUPA = 9"
| "NetworkConnectionInfo_MobileSubtype_value NetworkConnectionInfo_MobileSubtype_HSPA = 10"
| "NetworkConnectionInfo_MobileSubtype_value NetworkConnectionInfo_MobileSubtype_IDEN = 11"
| "NetworkConnectionInfo_MobileSubtype_value NetworkConnectionInfo_MobileSubtype_EVDO_B = 12"
| "NetworkConnectionInfo_MobileSubtype_value NetworkConnectionInfo_MobileSubtype_LTE = 13"
| "NetworkConnectionInfo_MobileSubtype_value NetworkConnectionInfo_MobileSubtype_EHRPD = 14"
| "NetworkConnectionInfo_MobileSubtype_value NetworkConnectionInfo_MobileSubtype_HSPAP = 15"
| "NetworkConnectionInfo_MobileSubtype_value NetworkConnectionInfo_MobileSubtype_GSM = 16"
| "NetworkConnectionInfo_MobileSubtype_value NetworkConnectionInfo_MobileSubtype_TD_SCDMA = 17"
| "NetworkConnectionInfo_MobileSubtype_value NetworkConnectionInfo_MobileSubtype_IWLAN = 18"
| "NetworkConnectionInfo_MobileSubtype_value NetworkConnectionInfo_MobileSubtype_LTE_CA = 19"
| "NetworkConnectionInfo_MobileSubtype_value NetworkConnectionInfo_MobileSubtype_COMBINED = 100"

datatype gdt_cct_ClientInfo_ClientType =
  ClientInfo_ClientType_CLIENT_UNKNOWN
| ClientInfo_ClientType_IOS_FIREBASE

fun ClientInfo_ClientType_value :: "gdt_cct_ClientInfo_ClientType \<Rightarrow> int" where
  "ClientInfo_ClientType_value ClientInfo_ClientType_CLIENT_UNKNOWN = 0"
| "ClientInfo_ClientType_value ClientInfo_ClientType_IOS_FIREBASE = 15"

datatype gdt_cct_QosTierConfiguration_QosTier =
  QosTierConfiguration_QosTier_DEFAULT
| QosTierConfiguration_QosTier_UNMETERED_ONLY
| QosTierConfiguration_QosTier_UNMETERED_OR_DAILY
| QosTierConfiguration_QosTier_FAST_IF_RADIO_AWAKE
| QosTierConfiguration_QosTier_NEVER

fun QosTierConfiguration_QosTier_value :: "gdt_cct_QosTierConfiguration_QosTier \<Rightarrow> int" where
  "QosTierConfiguration_QosTier_value QosTierConfiguration_QosTier_DEFAULT = 0"
| "QosTierConfiguration_QosTier_value QosTierConfiguration_QosTier_UNMETERED_ONLY = 1"
| "QosTierConfiguration_QosTier_value QosTierConfiguration_QosTier_UNMETERED_OR_DAILY = 2"
| "QosTierConfiguration_QosTier_value QosTierConfiguration_QosTier_FAST_IF_RADIO_AWAKE = 3"
| "QosTierConfiguration_QosTier_value QosTierConfiguration_QosTier_NEVER = 4"

section \<open>Structures\<close>

definition gdt_cct_IosClientInfo :: ctype where
  "gdt_cct_IosClientInfo = CStruct [
     (''os_major_version'', CPtr pb_bytes_array_t),
     (''os_full_version'', CPtr pb_bytes_array_t),
     (''application_build'', CPtr pb_bytes_array_t),
     (''country'', CPtr pb_bytes_array_t),
     (''model'', CPtr pb_bytes_array_t),
     (''language_code'', CPtr pb_bytes_array_t),
     (''application_bundle_id'', CPtr pb_bytes_array_t)]"

definition gdt_cct_ClientInfo :: ctype where
  "gdt_cct_ClientInfo = CStruct [
     (''has_client_type'', CInt 1),
     (''client_type'', CInt 4),
     (''has_ios_client_info'', CInt 1),
     (''ios_client_info'', gdt_cct_IosClientInfo)]"

definition gdt_cct_NetworkConnectionInfo :: ctype where
  "gdt_cct_NetworkConnectionInfo = CStruct [
     (''has_network_type'', CInt 1),
     (''network_type'', CInt 4),
     (''has_mobile_subtype'', CInt 1),
     (''mobile_subtype'', CInt 4)]"

definition gdt_cct_LogEvent :: ctype where
  "gdt_cct_LogEvent = CStruct [
     (''has_event_time_ms'', CInt 1),
     (''event_time_ms'', CInt 8),
     (''source_extension'', CPtr pb_bytes_array_t),
     (''has_event_code'', CInt 1),
     (''event_code'', CInt 4),
     (''has_timezone_offset_seconds'', CInt 1),
     (''timezone_offset_seconds'', CInt 8),
     (''has_event_uptime_ms'', CInt 1),
     (''event_uptime_ms'', CInt 8),
     (''has_network_connection_info'', CInt 1),
     (''network_connection_info'', gdt_cct_NetworkConnectionInfo)]"

definition gdt_cct_LogRequest :: ctype where
  "gdt_cct_LogRequest = CStruct [
     (''has_client_info'', CInt 1),
     (''client_info'', gdt_cct_ClientInfo),
     (''has_log_source'', CInt 1),
     (''log_source'', CInt 4),
     (''log_event_count'', CInt 4),
     (''log_event'', CPtr gdt_cct_LogEvent),
     (''has_request_time_ms'', CInt 1),
     (''request_time_ms'', CInt 8),
     (''has_request_uptime_ms'', CInt 1),
     (''request_uptime_ms'', CInt 8),
     (''has_qos_tier'', CInt 1),
     (''qos_tier'', CInt 4)]"

definition gdt_cct_BatchedLogRequest :: ctype where
  "gdt_cct_BatchedLogRequest = CStruct [
     (''log_request_count'', CInt 4),
     (''log_request'', CPtr gdt_cct_LogRequest)]"

definition gdt_cct_QosTierConfiguration :: ctype where
  "gdt_cct_QosTierConfiguration = CStruct [
     (''has_qos_tier'', CInt 1),
     (''qos_tier'', CInt 4),
     (''has_log_source'', CInt 1),
     (''log_source'', CInt 4)]"

definition gdt_cct_QosTiersOverride :: ctype where
  "gdt_cct_QosTiersOverride = CStruct [
     (''qos_tier_configuration_count'', CInt 4),
     (''qos_tier_configuration'', CPtr gdt_cct_QosTierConfiguration),
     (''has_qos_tier_fingerprint'', CInt 1),
     (''qos_tier_fingerprint'', CInt 8)]"

definition gdt_cct_LogResponse :: ctype where
  "gdt_cct_LogResponse = CStruct [
     (''has_next_request_wait_millis'', CInt 1),
     (''next_request_wait_millis'', CInt 8),
     (''has_qos_tier'', CInt 1),
     (''qos_tier'', gdt_cct_QosTiersOverride)]"

section \<open>Default values and descriptors\<close>

definition gdt_cct_NetworkConnectionInfo_network_type_default :: "u8 list" where
  "gdt_cct_NetworkConnectionInfo_network_type_default = bytes_le 4 (word_of_int (NetworkConnectionInfo_NetworkType_value NetworkConnectionInfo_NetworkType_NONE) :: u32)"

definition gdt_cct_NetworkConnectionInfo_mobile_subtype_default :: "u8 list" where
  "gdt_cct_NetworkConnectionInfo_mobile_subtype_default = bytes_le 4 (word_of_int (NetworkConnectionInfo_MobileSubtype_value NetworkConnectionInfo_MobileSubtype_UNKNOWN_MOBILE_SUBTYPE) :: u32)"

definition gdt_cct_LogRequest_qos_tier_default :: "u8 list" where
  "gdt_cct_LogRequest_qos_tier_default = bytes_le 4 (word_of_int (QosTierConfiguration_QosTier_value QosTierConfiguration_QosTier_DEFAULT) :: u32)"

definition gdt_cct_QosTierConfiguration_log_source_default :: "u8 list" where
  "gdt_cct_QosTierConfiguration_log_source_default = bytes_le 4 (word_of_int (0) :: u32)"

definition gdt_cct_NetworkConnectionInfo_fields :: "pb_field list" where
  "gdt_cct_NetworkConnectionInfo_fields = [
     PB_FIELD 1 ENUM OPTIONAL STATIC FIRST gdt_cct_NetworkConnectionInfo ''network_type'' ''network_type'' (DataPtr gdt_cct_NetworkConnectionInfo_network_type_default),
     PB_FIELD 2 UENUM OPTIONAL STATIC OTHER gdt_cct_NetworkConnectionInfo ''mobile_subtype'' ''network_type'' (DataPtr gdt_cct_NetworkConnectionInfo_mobile_subtype_default),
     PB_LAST_FIELD]"

definition gdt_cct_LogEvent_fields :: "pb_field list" where
  "gdt_cct_LogEvent_fields = [
     PB_FIELD 1 INT64 OPTIONAL STATIC FIRST gdt_cct_LogEvent ''event_time_ms'' ''event_time_ms'' NullPtr,
     PB_FIELD 6 BYTES OPTIONAL POINTER OTHER gdt_cct_LogEvent ''source_extension'' ''event_time_ms'' NullPtr,
     PB_FIELD 11 INT32 OPTIONAL STATIC OTHER gdt_cct_LogEvent ''event_code'' ''source_extension'' NullPtr,
     PB_FIELD 15 SINT64 OPTIONAL STATIC OTHER gdt_cct_LogEvent ''timezone_offset_seconds'' ''event_code'' NullPtr,
     PB_FIELD 17 INT64 OPTIONAL STATIC OTHER gdt_cct_LogEvent ''event_uptime_ms'' ''timezone_offset_seconds'' NullPtr,
     PB_FIELD 23 MESSAGE OPTIONAL STATIC OTHER gdt_cct_LogEvent ''network_connection_info'' ''event_uptime_ms'' (FieldsPtr gdt_cct_NetworkConnectionInfo_fields),
     PB_LAST_FIELD]"

definition gdt_cct_IosClientInfo_fields :: "pb_field list" where
  "gdt_cct_IosClientInfo_fields = [
     PB_FIELD 3 BYTES OPTIONAL POINTER FIRST gdt_cct_IosClientInfo ''os_major_version'' ''os_major_version'' NullPtr,
     PB_FIELD 4 BYTES OPTIONAL POINTER OTHER gdt_cct_IosClientInfo ''os_full_version'' ''os_major_version'' NullPtr,
     PB_FIELD 5 BYTES OPTIONAL POINTER OTHER gdt_cct_IosClientInfo ''application_build'' ''os_full_version'' NullPtr,
     PB_FIELD 6 BYTES OPTIONAL POINTER OTHER gdt_cct_IosClientInfo ''country'' ''application_build'' NullPtr,
     PB_FIELD 7 BYTES OPTIONAL POINTER OTHER gdt_cct_IosClientInfo ''model'' ''country'' NullPtr,
     PB_FIELD 8 BYTES OPTIONAL POINTER OTHER gdt_cct_IosClientInfo ''language_code'' ''model'' NullPtr,
     PB_FIELD 11 BYTES OPTIONAL POINTER OTHER gdt_cct_IosClientInfo ''application_bundle_id'' ''language_code'' NullPtr,
     PB_LAST_FIELD]"

definition gdt_cct_ClientInfo_fields :: "pb_field list" where
  "gdt_cct_ClientInfo_fields = [
     PB_FIELD 1 UENUM OPTIONAL STATIC FIRST gdt_cct_ClientInfo ''client_type'' ''client_type'' NullPtr,
     PB_FIELD 4 MESSAGE OPTIONAL STATIC OTHER gdt_cct_ClientInfo ''ios_client_info'' ''client_type'' (FieldsPtr gdt_cct_IosClientInfo_fields),
     PB_LAST_FIELD]"

definition gdt_cct_LogRequest_fields :: "pb_field list" where
  "gdt_cct_LogRequest_fields = [
     PB_FIELD 1 MESSAGE OPTIONAL STATIC FIRST gdt_cct_LogRequest ''client_info'' ''client_info'' (FieldsPtr gdt_cct_ClientInfo_fields),
     PB_FIELD 2 INT32 OPTIONAL STATIC OTHER gdt_cct_LogRequest ''log_source'' ''client_info'' NullPtr,
     PB_FIELD 3 MESSAGE REPEATED POINTER OTHER gdt_cct_LogRequest ''log_event'' ''log_source'' (FieldsPtr gdt_cct_LogEvent_fields),
     PB_FIELD 4 INT64 OPTIONAL STATIC OTHER gdt_cct_LogRequest ''request_time_ms'' ''log_event'' NullPtr,
     PB_FIELD 8 INT64 OPTIONAL STATIC OTHER gdt_cct_LogRequest ''request_uptime_ms'' ''request_time_ms'' NullPtr,
     PB_FIELD 9 UENUM OPTIONAL STATIC OTHER gdt_cct_LogRequest ''qos_tier'' ''request_uptime_ms'' (DataPtr gdt_cct_LogRequest_qos_tier_default),
     PB_LAST_FIELD]"

definition gdt_cct_BatchedLogRequest_fields :: "pb_field list" where
  "gdt_cct_BatchedLogRequest_fields = [
     PB_FIELD 1 MESSAGE REPEATED POINTER FIRST gdt_cct_BatchedLogRequest ''log_request'' ''log_request'' (FieldsPtr gdt_cct_LogRequest_fields),
     PB_LAST_FIELD]"

definition gdt_cct_QosTierConfiguration_fields :: "pb_field list" where
  "gdt_cct_QosTierConfiguration_fields = [
     PB_FIELD 2 UENUM OPTIONAL STATIC FIRST gdt_cct_QosTierConfiguration ''qos_tier'' ''qos_tier'' NullPtr,
     PB_FIELD 3 INT32 OPTIONAL STATIC OTHER gdt_cct_QosTierConfiguration ''log_source'' ''qos_tier'' (DataPtr gdt_cct_QosTierConfiguration_log_source_default),
     PB_LAST_FIELD]"

definition gdt_cct_QosTiersOverride_fields :: "pb_field list" where
  "gdt_cct_QosTiersOverride_fields = [
     PB_FIELD 1 MESSAGE REPEATED POINTER FIRST gdt_cct_QosTiersOverride ''qos_tier_configuration'' ''qos_tier_configuration'' (FieldsPtr gdt_cct_QosTierConfiguration_fields),
     PB_FIELD 2 INT64 OPTIONAL STATIC OTHER gdt_cct_QosTiersOverride ''qos_tier_fingerprint'' ''qos_tier_configuration'' NullPtr,
     PB_LAST_FIELD]"

definition gdt_cct_LogResponse_fields :: "pb_field list" where
  "gdt_cct_LogResponse_fields = [
     PB_FIELD 1 INT64 OPTIONAL STATIC FIRST gdt_cct_LogResponse ''next_request_wait_millis'' ''next_request_wait_millis'' NullPtr,
     PB_FIELD 3 MESSAGE OPTIONAL STATIC OTHER gdt_cct_LogResponse ''qos_tier'' ''next_request_wait_millis'' (FieldsPtr gdt_cct_QosTiersOverride_fields),
     PB_LAST_FIELD]"

lemmas cct_structs = pb_bytes_array_t_def gdt_cct_IosClientInfo_def gdt_cct_ClientInfo_def gdt_cct_NetworkConnectionInfo_def gdt_cct_LogEvent_def gdt_cct_LogRequest_def gdt_cct_BatchedLogRequest_def gdt_cct_QosTierConfiguration_def gdt_cct_QosTiersOverride_def gdt_cct_LogResponse_def

lemmas cct_fields = gdt_cct_NetworkConnectionInfo_fields_def gdt_cct_LogEvent_fields_def gdt_cct_IosClientInfo_fields_def gdt_cct_ClientInfo_fields_def gdt_cct_LogRequest_fields_def gdt_cct_BatchedLogRequest_fields_def gdt_cct_QosTierConfiguration_fields_def gdt_cct_QosTiersOverride_fields_def gdt_cct_LogResponse_fields_def

end
