(* ===== verification/PB_Safe_Props.thy ===== *)
theory PB_Safe_Props
  imports PB_Safe PB_Codec_Props CCT_Proto
begin

text \<open>
  Memory safety of decoding, over buffer streams: the properties of \<open>PB_Safe\<close> on concrete streams, with
  a generated message of the transport protocol as an instance.
\<close>

section \<open>Decoding any input\<close>

text \<open>
  C1: \<open>pb_decode\<close> on any bytes, for a descriptor of static fields that lie in a structure of \<open>sz\<close> bytes and
  are nested at most \<open>d\<close> deep: it returns, reads and writes no byte that is not mapped, changes
  no byte outside the structure, frees and allocates nothing, and when it returns true it has consumed
  a prefix of the bytes.  No function of the user is called.
\<close>

theorem decode_memory_safe:
  assumes "static_msg d fs sz" "d < n" "length bs < 2 ^ 64"
    and "span dest sz \<subseteq> dom (mem \<mu>)" "clear_stack \<mu>"
  shows "\<exists>r s' \<mu>'. pb_decode n E fs dest (holding bs, \<mu>) = Some (r, (s', \<mu>')) \<and>
    dom (mem \<mu>') = dom (mem \<mu>) \<and> blocks \<mu>' = blocks \<mu> \<and> sp \<mu>' = sp \<mu> \<and>
    (\<forall>x. x \<notin> span dest sz \<longrightarrow> mem \<mu>' x = mem \<mu> x) \<and>
    (r = None \<or> (\<exists>k. buf_avail s' = drop k bs))"
proof -
  have ok: "buf_ok (holding bs)" "buf_avail (holding bs) = bs" using holding_ok [OF assms(3)] by auto
  obtain r s' \<mu>' where r: "pb_decode n E fs dest (holding bs, \<mu>) = Some (r, (s', \<mu>'))"
    "writes (span dest sz) \<mu> \<mu>'" "\<forall>v. r = Some v \<longrightarrow> True \<and> moved buf_ok buf_avail buf_adv (holding bs) s' \<and>
       length (buf_avail s') + 0 \<le> length (buf_avail (holding bs))"
    using buf.decode_safe [OF assms(1,2) order_refl, where E = E and dest = dest] ok(1) assms(4,5)
    unfolding safe_dec_def by blast
  have "r = None \<or> (\<exists>k. buf_avail s' = drop k bs)"
    using r(3) buf.moved_drop [of "holding bs" s'] ok(2) by (cases r) auto
  then show ?thesis using r(1,2) unfolding writes_def by fastforce
qed

text \<open>The connection information of a log event, at its place in memory, decoded from bytes with a wrong wire type.\<close>

definition info_machine :: machine where
  "info_machine = \<lparr>mem = put_bytes (\<lambda>_. None) 0x1000 (replicate 16 7), blocks = \<lambda>_. None, answers = [],
     junk = \<lambda>_. 0, sp = 0\<rparr>"

lemma info_static: "static_msg 1 gdt_cct_NetworkConnectionInfo_fields 16"
  by code_simp

theorem decode_memory_safe_witness:
  "\<exists>r s' \<mu>'. pb_decode 2 no_reader gdt_cct_NetworkConnectionInfo_fields 0x1000
      (holding [0x08, 0x01, 0x12, 0x7F, 0x00], info_machine) = Some (r, (s', \<mu>')) \<and>
    dom (mem \<mu>') = dom (mem info_machine) \<and> blocks \<mu>' = blocks info_machine \<and> sp \<mu>' = sp info_machine \<and>
    (\<forall>x. x \<notin> span 0x1000 16 \<longrightarrow> mem \<mu>' x = mem info_machine x) \<and>
    (r = None \<or> (\<exists>k. buf_avail s' = drop k [0x08, 0x01, 0x12, 0x7F, 0x00]))"
  by (rule decode_memory_safe [OF info_static])
    (auto simp: info_machine_def span_def clear_stack_def put_bytes_def)

end
