(* ===== verification/FirebaseCore_Proto.thy ===== *)
theory FirebaseCore_Proto
  imports CCT_Proto
begin

text \<open>
  The generated message of the diagnostics library, \<open>firebasecore.nanopb.h\<close> and
  \<open>firebasecore.nanopb.c\<close>: enumerations, structure layout and descriptor array.
\<close>

section \<open>Enumerations\<close>

datatype logs_proto_mobilesdk_ios_ICoreConfiguration_ConfigurationType =
  ICoreConfiguration_ConfigurationType_UNKNOWN_CONFIGURATION_TYPE
| ICoreConfiguration_ConfigurationType_CORE
| ICoreConfiguration_ConfigurationType_SDK

fun ICoreConfiguration_ConfigurationType_value :: "logs_proto_mobilesdk_ios_ICoreConfiguration_ConfigurationType \<Rightarrow> int" where
  "ICoreConfiguration_ConfigurationType_value ICoreConfiguration_ConfigurationType_UNKNOWN_CONFIGURATION_TYPE = 0"
| "ICoreConfiguration_ConfigurationType_value ICoreConfiguration_ConfigurationType_CORE = 1"
| "ICoreConfiguration_ConfigurationType_value ICoreConfiguration_ConfigurationType_SDK = 2"

datatype logs_proto_mobilesdk_ios_ICoreConfiguration_BuildType =
  ICoreConfiguration_BuildType_UNKNOWN_BUILD_TYPE
| ICoreConfiguration_BuildType_INTERNAL
| ICoreConfiguration_BuildType_EAP
| ICoreConfiguration_BuildType_PROD

fun ICoreConfiguration_BuildType_value :: "logs_proto_mobilesdk_ios_ICoreConfiguration_BuildType \<Rightarrow> int" where
  "ICoreConfiguration_BuildType_value ICoreConfiguration_BuildType_UNKNOWN_BUILD_TYPE = 0"
| "ICoreConfiguration_BuildType_value ICoreConfiguration_BuildType_INTERNAL = 1"
| "ICoreConfiguration_BuildType_value ICoreConfiguration_BuildType_EAP = 2"
| "ICoreConfiguration_BuildType_value ICoreConfiguration_BuildType_PROD = 3"

datatype logs_proto_mobilesdk_ios_ICoreConfiguration_ServiceType =
  ICoreConfiguration_ServiceType_UNKNOWN_SDK_SERVICE
| ICoreConfiguration_ServiceType_ICORE
| ICoreConfiguration_ServiceType_ADMOB
| ICoreConfiguration_ServiceType_APP_INVITE
| ICoreConfiguration_ServiceType_SIGN_IN
| ICoreConfiguration_ServiceType_GCM
| ICoreConfiguration_ServiceType_MAPS
| ICoreConfiguration_ServiceType_SCION
| ICoreConfiguration_ServiceType_ANALYTICS
| ICoreConfiguration_ServiceType_APP_INDEXING
| ICoreConfiguration_ServiceType_CONFIG
| ICoreConfiguration_ServiceType_DURABLE_DEEP_LINKS
| ICoreConfiguration_ServiceType_CRASH
| ICoreConfiguration_ServiceType_AUTH
| ICoreConfiguration_ServiceType_DATABASE
| ICoreConfiguration_ServiceType_STORAGE
| ICoreConfiguration_ServiceType_MESSAGING
| ICoreConfiguration_ServiceType_MEASUREMENT
| ICoreConfiguration_ServiceType_REMOTE_CONFIG
| ICoreConfiguration_ServiceType_DYNAMIC_LINKS
| ICoreConfiguration_ServiceType_INVITES
| ICoreConfiguration_ServiceType_AUTH_UI
| ICoreConfiguration_ServiceType_FIRESTORE
| ICoreConfiguration_ServiceType_PERFORMANCE
| ICoreConfiguration_ServiceType_ML_VISION_ON_DEVICE_FACE
| ICoreConfiguration_ServiceType_ML_VISION_ON_DEVICE_BARCODE
| ICoreConfiguration_ServiceType_ML_VISION_ON_DEVICE_TEXT
| ICoreConfiguration_ServiceType_ML_VISION_ON_DEVICE_LABEL
| ICoreConfiguration_ServiceType_ML_MODEL_INTERPRETER
| ICoreConfiguration_ServiceType_IN_APP_MESSAGING
| ICoreConfiguration_ServiceType_FUNCTIONS
| ICoreConfiguration_ServiceType_ML_NATURAL_LANGUAGE
| ICoreConfiguration_ServiceType_ML_VISION_ON_DEVICE_AUTOML
| ICoreConfiguration_ServiceType_ML_VISION_ON_DEVICE_OBJECT_DETECTION

fun ICoreConfiguration_ServiceType_value :: "logs_proto_mobilesdk_ios_ICoreConfiguration_ServiceType \<Rightarrow> int" where
  "ICoreConfiguration_ServiceType_value ICoreConfiguration_ServiceType_UNKNOWN_SDK_SERVICE = 0"
| "ICoreConfiguration_ServiceType_value ICoreConfiguration_ServiceType_ICORE = 1"
| "ICoreConfiguration_ServiceType_value ICoreConfiguration_ServiceType_ADMOB = 2"
| "ICoreConfiguration_ServiceType_value ICoreConfiguration_ServiceType_APP_INVITE = 3"
| "ICoreConfiguration_ServiceType_value ICoreConfiguration_ServiceType_SIGN_IN = 5"
| "ICoreConfiguration_ServiceType_value ICoreConfiguration_ServiceType_GCM = 6"
| "ICoreConfiguration_ServiceType_value ICoreConfiguration_ServiceType_MAPS = 7"
| "ICoreConfiguration_ServiceType_value ICoreConfiguration_ServiceType_SCION = 8"
| "ICoreConfiguration_ServiceType_value ICoreConfiguration_ServiceType_ANALYTICS = 9"
| "ICoreConfiguration_ServiceType_value ICoreConfiguration_ServiceType_APP_INDEXING = 10"
| "ICoreConfiguration_ServiceType_value ICoreConfiguration_ServiceType_CONFIG = 11"
| "ICoreConfiguration_ServiceType_value ICoreConfiguration_ServiceType_DURABLE_DEEP_LINKS = 12"
| "ICoreConfiguration_ServiceType_value ICoreConfiguration_ServiceType_CRASH = 13"
| "ICoreConfiguration_ServiceType_value ICoreConfiguration_ServiceType_AUTH = 14"
| "ICoreConfiguration_ServiceType_value ICoreConfiguration_ServiceType_DATABASE = 15"
| "ICoreConfiguration_ServiceType_value ICoreConfiguration_ServiceType_STORAGE = 16"
| "ICoreConfiguration_ServiceType_value ICoreConfiguration_ServiceType_MESSAGING = 17"
| "ICoreConfiguration_ServiceType_value ICoreConfiguration_ServiceType_MEASUREMENT = 18"
| "ICoreConfiguration_ServiceType_value ICoreConfiguration_ServiceType_REMOTE_CONFIG = 19"
| "ICoreConfiguration_ServiceType_value ICoreConfiguration_ServiceType_DYNAMIC_LINKS = 20"
| "ICoreConfiguration_ServiceType_value ICoreConfiguration_ServiceType_INVITES = 21"
| "ICoreConfiguration_ServiceType_value ICoreConfiguration_ServiceType_AUTH_UI = 22"
| "ICoreConfiguration_ServiceType_value ICoreConfiguration_ServiceType_FIRESTORE = 23"
| "ICoreConfiguration_ServiceType_value ICoreConfiguration_ServiceType_PERFORMANCE = 24"
| "ICoreConfiguration_ServiceType_value ICoreConfiguration_ServiceType_ML_VISION_ON_DEVICE_FACE = 26"
| "ICoreConfiguration_ServiceType_value ICoreConfiguration_ServiceType_ML_VISION_ON_DEVICE_BARCODE = 27"
| "ICoreConfiguration_ServiceType_value ICoreConfiguration_ServiceType_ML_VISION_ON_DEVICE_TEXT = 28"
| "ICoreConfiguration_ServiceType_value ICoreConfiguration_ServiceType_ML_VISION_ON_DEVICE_LABEL = 29"
| "ICoreConfiguration_ServiceType_value ICoreConfiguration_ServiceType_ML_MODEL_INTERPRETER = 30"
| "ICoreConfiguration_ServiceType_value ICoreConfiguration_ServiceType_IN_APP_MESSAGING = 31"
| "ICoreConfiguration_ServiceType_value ICoreConfiguration_ServiceType_FUNCTIONS = 32"
| "ICoreConfiguration_ServiceType_value ICoreConfiguration_ServiceType_ML_NATURAL_LANGUAGE = 33"
| "ICoreConfiguration_ServiceType_value ICoreConfiguration_ServiceType_ML_VISION_ON_DEVICE_AUTOML = 34"
| "ICoreConfiguration_ServiceType_value ICoreConfiguration_ServiceType_ML_VISION_ON_DEVICE_OBJECT_DETECTION = 35"

datatype logs_proto_mobilesdk_ios_ICoreConfiguration_PodName =
  ICoreConfiguration_PodName_UNKNOWN_POD_NAME
| ICoreConfiguration_PodName_GOOGLE
| ICoreConfiguration_PodName_FIREBASE

fun ICoreConfiguration_PodName_value :: "logs_proto_mobilesdk_ios_ICoreConfiguration_PodName \<Rightarrow> int" where
  "ICoreConfiguration_PodName_value ICoreConfiguration_PodName_UNKNOWN_POD_NAME = 0"
| "ICoreConfiguration_PodName_value ICoreConfiguration_PodName_GOOGLE = 1"
| "ICoreConfiguration_PodName_value ICoreConfiguration_PodName_FIREBASE = 2"

datatype logs_proto_mobilesdk_ios_ICoreConfiguration_DeploymentType =
  ICoreConfiguration_DeploymentType_UNKNOWN
| ICoreConfiguration_DeploymentType_COCOAPODS
| ICoreConfiguration_DeploymentType_ZIP_FILE
| ICoreConfiguration_DeploymentType_CARTHAGE
| ICoreConfiguration_DeploymentType_SPM

fun ICoreConfiguration_DeploymentType_value :: "logs_proto_mobilesdk_ios_ICoreConfiguration_DeploymentType \<Rightarrow> int" where
  "ICoreConfiguration_DeploymentType_value ICoreConfiguration_DeploymentType_UNKNOWN = 0"
| "ICoreConfiguration_DeploymentType_value ICoreConfiguration_DeploymentType_COCOAPODS = 1"
| "ICoreConfiguration_DeploymentType_value ICoreConfiguration_DeploymentType_ZIP_FILE = 2"
| "ICoreConfiguration_DeploymentType_value ICoreConfiguration_DeploymentType_CARTHAGE = 3"
| "ICoreConfiguration_DeploymentType_value ICoreConfiguration_DeploymentType_SPM = 4"

section \<open>Structures\<close>

definition logs_proto_mobilesdk_ios_ICoreConfiguration :: ctype where
  "logs_proto_mobilesdk_ios_ICoreConfiguration = CStruct [
     (''has_configuration_type'', CInt 1),
     (''configuration_type'', CInt 4),
     (''sdk_service_installed_count'', CInt 4),
     (''sdk_service_installed'', CPtr (CInt 4)),
     (''device_model'', CPtr pb_bytes_array_t),
     (''app_id'', CPtr pb_bytes_array_t),
     (''bundle_id'', CPtr pb_bytes_array_t),
     (''has_pod_name'', CInt 1),
     (''pod_name'', CInt 4),
     (''icore_version'', CPtr pb_bytes_array_t),
     (''sdk_version'', CPtr pb_bytes_array_t),
     (''has_sdk_name'', CInt 1),
     (''sdk_name'', CInt 4),
     (''has_app_count'', CInt 1),
     (''app_count'', CInt 4),
     (''os_version'', CPtr pb_bytes_array_t),
     (''min_supported_ios_version'', CPtr pb_bytes_array_t),
     (''has_use_default_app'', CInt 1),
     (''use_default_app'', CInt 1),
     (''has_deployed_in_app_store'', CInt 1),
     (''deployed_in_app_store'', CInt 1),
     (''has_dynamic_framework_count'', CInt 1),
     (''dynamic_framework_count'', CInt 4),
     (''apple_framework_version'', CPtr pb_bytes_array_t),
     (''has_using_zip_file'', CInt 1),
     (''using_zip_file'', CInt 1),
     (''has_deployment_type'', CInt 1),
     (''deployment_type'', CInt 4),
     (''platform_info'', CPtr pb_bytes_array_t),
     (''has_swizzling_enabled'', CInt 1),
     (''swizzling_enabled'', CInt 1),
     (''has_using_gdt'', CInt 1),
     (''using_gdt'', CInt 1)]"

section \<open>Default values and descriptors\<close>

definition logs_proto_mobilesdk_ios_ICoreConfiguration_fields :: "pb_field list" where
  "logs_proto_mobilesdk_ios_ICoreConfiguration_fields = [
     PB_FIELD 1 UENUM OPTIONAL STATIC FIRST logs_proto_mobilesdk_ios_ICoreConfiguration ''configuration_type'' ''configuration_type'' NullPtr,
     PB_FIELD 7 UENUM REPEATED POINTER OTHER logs_proto_mobilesdk_ios_ICoreConfiguration ''sdk_service_installed'' ''configuration_type'' NullPtr,
     PB_FIELD 9 BYTES OPTIONAL POINTER OTHER logs_proto_mobilesdk_ios_ICoreConfiguration ''device_model'' ''sdk_service_installed'' NullPtr,
     PB_FIELD 10 BYTES OPTIONAL POINTER OTHER logs_proto_mobilesdk_ios_ICoreConfiguration ''app_id'' ''device_model'' NullPtr,
     PB_FIELD 12 BYTES OPTIONAL POINTER OTHER logs_proto_mobilesdk_ios_ICoreConfiguration ''bundle_id'' ''app_id'' NullPtr,
     PB_FIELD 16 UENUM OPTIONAL STATIC OTHER logs_proto_mobilesdk_ios_ICoreConfiguration ''pod_name'' ''bundle_id'' NullPtr,
     PB_FIELD 18 BYTES OPTIONAL POINTER OTHER logs_proto_mobilesdk_ios_ICoreConfiguration ''icore_version'' ''pod_name'' NullPtr,
     PB_FIELD 19 BYTES OPTIONAL POINTER OTHER logs_proto_mobilesdk_ios_ICoreConfiguration ''sdk_version'' ''icore_version'' NullPtr,
     PB_FIELD 20 UENUM OPTIONAL STATIC OTHER logs_proto_mobilesdk_ios_ICoreConfiguration ''sdk_name'' ''sdk_version'' NullPtr,
     PB_FIELD 21 INT32 OPTIONAL STATIC OTHER logs_proto_mobilesdk_ios_ICoreConfiguration ''app_count'' ''sdk_name'' NullPtr,
     PB_FIELD 22 BYTES OPTIONAL POINTER OTHER logs_proto_mobilesdk_ios_ICoreConfiguration ''os_version'' ''app_count'' NullPtr,
     PB_FIELD 24 BYTES OPTIONAL POINTER OTHER logs_proto_mobilesdk_ios_ICoreConfiguration ''min_supported_ios_version'' ''os_version'' NullPtr,
     PB_FIELD 25 BOOL OPTIONAL STATIC OTHER logs_proto_mobilesdk_ios_ICoreConfiguration ''use_default_app'' ''min_supported_ios_version'' NullPtr,
     PB_FIELD 26 BOOL OPTIONAL STATIC OTHER logs_proto_mobilesdk_ios_ICoreConfiguration ''deployed_in_app_store'' ''use_default_app'' NullPtr,
     PB_FIELD 27 INT32 OPTIONAL STATIC OTHER logs_proto_mobilesdk_ios_ICoreConfiguration ''dynamic_framework_count'' ''deployed_in_app_store'' NullPtr,
     PB_FIELD 28 BYTES OPTIONAL POINTER OTHER logs_proto_mobilesdk_ios_ICoreConfiguration ''apple_framework_version'' ''dynamic_framework_count'' NullPtr,
     PB_FIELD 29 BOOL OPTIONAL STATIC OTHER logs_proto_mobilesdk_ios_ICoreConfiguration ''using_zip_file'' ''apple_framework_version'' NullPtr,
     PB_FIELD 30 UENUM OPTIONAL STATIC OTHER logs_proto_mobilesdk_ios_ICoreConfiguration ''deployment_type'' ''using_zip_file'' NullPtr,
     PB_FIELD 31 BYTES OPTIONAL POINTER OTHER logs_proto_mobilesdk_ios_ICoreConfiguration ''platform_info'' ''deployment_type'' NullPtr,
     PB_FIELD 33 BOOL OPTIONAL STATIC OTHER logs_proto_mobilesdk_ios_ICoreConfiguration ''swizzling_enabled'' ''platform_info'' NullPtr,
     PB_FIELD 36 BOOL OPTIONAL STATIC OTHER logs_proto_mobilesdk_ios_ICoreConfiguration ''using_gdt'' ''swizzling_enabled'' NullPtr,
     PB_LAST_FIELD]"

end
