(* ===== verification/FBase64.thy ===== *)
theory FBase64
  imports PB_Prelude
begin

text \<open>
  The base64 functions of the web socket library (\<open>fbase64.c\<close>): \<open>f_b64_ntop\<close>, which encodes a byte
  string, and \<open>f_b64_pton\<close>, which decodes a string.  A buffer is the list of its bytes; a pointer into
  the source is the list of the bytes from there on.  A read behind the source or a store behind the
  target has no result.  Indices into a buffer are natural numbers: no buffer is longer than the range of
  \<open>size_t\<close>, and without a target \<open>tarindex\<close> wraps around only on texts of more than four gigabytes.
\<close>

section \<open>Tables and character tests\<close>

definition Base64 :: "u8 list" where
  "Base64 = map of_char ''ABCDEFGHIJKLMNOPQRSTUVWXYZabcdefghijklmnopqrstuvwxyz0123456789+/''"

definition Pad64 :: u8 where
  "Pad64 = of_char CHR ''=''"

text \<open>\<open>isspace\<close> in the C locale; a negative \<open>char\<close>, here a byte of 128 and more, is no space.\<close>

definition isspace :: "u8 \<Rightarrow> bool" where
  "isspace ch \<longleftrightarrow> ch = 32 \<or> 9 \<le> ch \<and> ch \<le> 13"

text \<open>\<open>strchr(Base64, ch) - Base64\<close>, for \<open>ch\<close> other than the terminator.\<close>

definition b64_index :: "u8 \<Rightarrow> nat option" where
  "b64_index ch = map_option fst (find (\<lambda>(i, c). c = ch) (enumerate 0 Base64))"

text \<open>\<open>target[i] = b\<close>.\<close>

definition put_at :: "u8 list \<Rightarrow> nat \<Rightarrow> u8 \<Rightarrow> u8 list option" where
  "put_at t i b = (if i < length t then Some (t[i := b]) else None)"

text \<open>The conversion of a \<open>size_t\<close> or \<open>u_int\<close> to the result type \<open>int\<close>.\<close>

definition to_int :: "nat \<Rightarrow> int" where
  "to_int n = sint (word_of_nat n :: u32)"

section \<open>Encoding\<close>

definition out0 :: "u8 \<Rightarrow> u8" where
  "out0 a = drop_bit 2 a"

definition out1 :: "u8 \<Rightarrow> u8 \<Rightarrow> u8" where
  "out1 a b = push_bit 4 (a AND 0x03) + drop_bit 4 b"

definition out2 :: "u8 \<Rightarrow> u8 \<Rightarrow> u8" where
  "out2 b c = push_bit 2 (b AND 0x0f) + drop_bit 6 c"

definition out3 :: "u8 \<Rightarrow> u8" where
  "out3 c = c AND 0x3f"

definition digit :: "u8 \<Rightarrow> u8" where
  "digit v = Base64 ! unat v"

text \<open>Four stores at \<open>target[datalength++]\<close>.\<close>

definition put4 :: "u8 list \<Rightarrow> nat \<Rightarrow> u8 \<Rightarrow> u8 \<Rightarrow> u8 \<Rightarrow> u8 \<Rightarrow> u8 list option" where
  "put4 t i a b c d = do {
     t \<leftarrow> put_at t i a; t \<leftarrow> put_at t (i + 1) b; t \<leftarrow> put_at t (i + 2) c; put_at t (i + 3) d
   }"

text \<open>
  The state is the source, \<open>srclength\<close>, \<open>datalength\<close> and the target; the loop is left by \<open>return (-1)\<close>
  (\<open>Inl\<close>) or with that state (\<open>Inr\<close>).
\<close>

definition ntop_step :: "nat \<Rightarrow> u8 list \<times> nat \<times> nat \<times> u8 list \<Rightarrow>
    (((int \<times> u8 list) + (u8 list \<times> nat \<times> nat \<times> u8 list)) + (u8 list \<times> nat \<times> nat \<times> u8 list)) option" where
  "ntop_step targsize x = (case x of (src, srclength, datalength, target) \<Rightarrow>
     if 2 < srclength
     then (case src of
         a # b # c # src \<Rightarrow>
           if targsize < datalength + 4 then Some (Inl (Inl (-1, target)))
           else map_option (\<lambda>target. Inr (src, srclength - 3, datalength + 4, target))
             (put4 target datalength (digit (out0 a)) (digit (out1 a b)) (digit (out2 b c)) (digit (out3 c)))
       | _ \<Rightarrow> None)
     else Some (Inl (Inr (src, srclength, datalength, target))))"

text \<open>The last group, of one or two bytes; bytes that are not there are zero.\<close>

definition ntop_padding :: "nat \<Rightarrow> u8 list \<times> nat \<times> nat \<times> u8 list \<Rightarrow> ((int \<times> u8 list) + (nat \<times> u8 list)) option" where
  "ntop_padding targsize x = (case x of (src, srclength, datalength, target) \<Rightarrow>
     if srclength \<noteq> 0
     then if length src < srclength then None
       else let a = src ! 0; b = (if srclength = 1 then 0 else src ! 1) in
       if targsize < datalength + 4 then Some (Inl (-1, target))
       else map_option (\<lambda>target. Inr (datalength + 4, target))
         (put4 target datalength (digit (out0 a)) (digit (out1 a b))
           (if srclength = 1 then Pad64 else digit (out2 b 0)) Pad64)
     else Some (Inr (datalength, target)))"

definition f_b64_ntop :: "u8 list \<Rightarrow> nat \<Rightarrow> u8 list \<Rightarrow> nat \<Rightarrow> (int \<times> u8 list) option" where
  "f_b64_ntop src srclength target targsize =
     (case c_loop (ntop_step targsize) (src, srclength, 0, target) of None \<Rightarrow> None
      | Some (Inl r) \<Rightarrow> Some r
      | Some (Inr x) \<Rightarrow>
        (case ntop_padding targsize x of None \<Rightarrow> None
         | Some (Inl r) \<Rightarrow> Some r
         | Some (Inr (datalength, target)) \<Rightarrow>
           if targsize \<le> datalength then Some (-1, target)
           else map_option (\<lambda>target. (to_int datalength, target)) (put_at target datalength 0)))"

section \<open>Decoding\<close>

text \<open>
  The state is the source, \<open>state\<close>, \<open>tarindex\<close> and the target, \<open>None\<close> for a null pointer.  The loop is left
  by \<open>return (-1)\<close> (\<open>Inl\<close>) or with the character \<open>ch\<close> that ended it (\<open>Inr\<close>).
\<close>

type_synonym pton_state = "u8 list \<times> nat \<times> nat \<times> u8 list option"

text \<open>The stores of one \<open>case\<close>: \<open>Inl ()\<close> is \<open>return (-1)\<close>.\<close>

definition or_at :: "u8 list \<Rightarrow> nat \<Rightarrow> u8 \<Rightarrow> u8 list option" where
  "or_at t i b = (if i < length t then Some (t[i := t ! i OR b]) else None)"

definition pton_store :: "nat \<Rightarrow> nat \<Rightarrow> u8 \<Rightarrow> nat \<Rightarrow> u8 list \<Rightarrow> (unit + u8 list) option" where
  "pton_store targsize state v tarindex t =
     (if state = 0 then
        if targsize \<le> tarindex then Some (Inl ()) else map_option Inr (put_at t tarindex (push_bit 2 v))
      else if state = 1 then
        if targsize \<le> tarindex + 1 then Some (Inl ())
        else map_option Inr (do { t \<leftarrow> or_at t tarindex (drop_bit 4 v);
                                  put_at t (tarindex + 1) (push_bit 4 (v AND 0x0f)) })
      else if state = 2 then
        if targsize \<le> tarindex + 1 then Some (Inl ())
        else map_option Inr (do { t \<leftarrow> or_at t tarindex (drop_bit 2 v);
                                  put_at t (tarindex + 1) (push_bit 6 (v AND 0x03)) })
      else if targsize \<le> tarindex then Some (Inl ()) else map_option Inr (or_at t tarindex v))"

definition pton_step :: "nat \<Rightarrow> pton_state \<Rightarrow>
    (((int \<times> u8 list option) + (u8 \<times> pton_state)) + pton_state) option" where
  "pton_step targsize x = (case x of (src, state, tarindex, target) \<Rightarrow>
     (case src of [] \<Rightarrow> None
      | ch # src \<Rightarrow>
        if ch = 0 then Some (Inl (Inr (ch, src, state, tarindex, target)))
        else if isspace ch then Some (Inr (src, state, tarindex, target))
        else if ch = Pad64 then Some (Inl (Inr (ch, src, state, tarindex, target)))
        else (case b64_index ch of None \<Rightarrow> Some (Inl (Inl (-1, target)))
          | Some v \<Rightarrow>
            let tarindex' = (if state = 0 then tarindex else tarindex + 1); state' = (state + 1) mod 4 in
            (case target of None \<Rightarrow> Some (Inr (src, state', tarindex', None))
             | Some t \<Rightarrow> (case pton_store targsize state (word_of_nat v) tarindex t of None \<Rightarrow> None
                 | Some (Inl _) \<Rightarrow> Some (Inl (Inl (-1, target)))
                 | Some (Inr t) \<Rightarrow> Some (Inr (src, state', tarindex', Some t)))))))"

text \<open>The two loops \<open>for (; ch != '\0'; ch = *src++)\<close> behind a padding character.\<close>

fun skip_spaces :: "u8 \<Rightarrow> u8 list \<Rightarrow> (u8 \<times> u8 list) option" where
  "skip_spaces ch src = (if ch = 0 \<or> \<not> isspace ch then Some (ch, src)
     else case src of [] \<Rightarrow> None | c # src \<Rightarrow> skip_spaces c src)"

fun only_spaces :: "u8 \<Rightarrow> u8 list \<Rightarrow> bool option" where
  "only_spaces ch src = (if ch = 0 then Some True else if \<not> isspace ch then Some False
     else case src of [] \<Rightarrow> None | c # src \<Rightarrow> only_spaces c src)"

declare skip_spaces.simps [simp del] only_spaces.simps [simp del]

text \<open>The check behind the padding: \<open>Some True\<close> to go on, \<open>Some False\<close> for \<open>return (-1)\<close>.\<close>

definition pad_ok :: "u8 list \<Rightarrow> nat \<Rightarrow> nat \<Rightarrow> u8 list option \<Rightarrow> bool option" where
  "pad_ok src state tarindex target =
     (case src of [] \<Rightarrow> None
      | ch # src \<Rightarrow>
        if state = 0 \<or> state = 1 then Some False
        else (case (if state = 2
                 then (case skip_spaces ch src of None \<Rightarrow> None
                   | Some (ch, src) \<Rightarrow> if ch \<noteq> Pad64 then Some None
                       else (case src of [] \<Rightarrow> None | ch # src \<Rightarrow> Some (Some (ch, src))))
                 else Some (Some (ch, src))) of None \<Rightarrow> None
          | Some None \<Rightarrow> Some False
          | Some (Some (ch, src)) \<Rightarrow>
            (case only_spaces ch src of None \<Rightarrow> None
             | Some spaces \<Rightarrow> if \<not> spaces then Some False
                 else (case target of None \<Rightarrow> Some True
                   | Some t \<Rightarrow> if length t \<le> tarindex then None else Some (t ! tarindex = 0)))))"

definition f_b64_pton :: "u8 list \<Rightarrow> u8 list option \<Rightarrow> nat \<Rightarrow> (int \<times> u8 list option) option" where
  "f_b64_pton src target targsize =
     (case c_loop (pton_step targsize) (src, 0, 0, target) of None \<Rightarrow> None
      | Some (Inl r) \<Rightarrow> Some r
      | Some (Inr (ch, src, state, tarindex, target)) \<Rightarrow>
        if ch = Pad64
        then (case pad_ok src state tarindex target of None \<Rightarrow> None
          | Some ok \<Rightarrow> Some (if ok then to_int tarindex else -1, target))
        else Some (if state \<noteq> 0 then -1 else to_int tarindex, target))"

section \<open>The format\<close>

text \<open>Base64 with padding, as a function of the bytes.\<close>

fun b64 :: "u8 list \<Rightarrow> u8 list" where
  "b64 [] = []"
| "b64 [a] = [digit (out0 a), digit (out1 a 0), Pad64, Pad64]"
| "b64 [a, b] = [digit (out0 a), digit (out1 a b), digit (out2 b 0), Pad64]"
| "b64 (a # b # c # bs) = digit (out0 a) # digit (out1 a b) # digit (out2 b c) # digit (out3 c) # b64 bs"

lemma length_b64: "length (b64 bs) = 4 * ((length bs + 2) div 3)"
proof (induction bs rule: b64.induct)
  case (4 a b c bs)
  have "(length (a # b # c # bs) + 2) div 3 = (length bs + 2) div 3 + 1" by simp
  with 4 show ?case by simp
qed auto

lemma drop4: "drop (Suc (Suc (Suc (Suc 0)))) t = drop 4 t"
  by (simp add: eval_nat_numeral)

lemma four: "n + 4 = Suc (Suc (Suc (Suc n)))"
  by simp

lemma put4_append:
  "4 \<le> length t \<Longrightarrow> put4 (xs @ t) (length xs) a b c d = Some (xs @ [a, b, c, d] @ drop 4 t)"
  by (auto simp: put4_def put_at_def list_update_append eval_nat_numeral Suc_le_length_iff)

text \<open>All groups, the padded one included.\<close>

definition ntop_groups :: "nat \<Rightarrow> u8 list \<times> nat \<times> nat \<times> u8 list \<Rightarrow> ((int \<times> u8 list) + (nat \<times> u8 list)) option" where
  "ntop_groups targsize x = (case c_loop (ntop_step targsize) x of None \<Rightarrow> None
     | Some (Inl r) \<Rightarrow> Some (Inl r) | Some (Inr y) \<Rightarrow> ntop_padding targsize y)"

lemma ntop_eq_groups:
  "f_b64_ntop src n target targsize = (case ntop_groups targsize (src, n, 0, target) of None \<Rightarrow> None
     | Some (Inl r) \<Rightarrow> Some r
     | Some (Inr (datalength, target)) \<Rightarrow>
         if targsize \<le> datalength then Some (-1, target)
         else map_option (\<lambda>target. (to_int datalength, target)) (put_at target datalength 0))"
  by (simp add: f_b64_ntop_def ntop_groups_def split: option.split sum.split)

lemma ntop_groups_unfold:
  "ntop_groups targsize (src, n, k, t) =
     (if 2 < n
      then (case src of a # b # c # src \<Rightarrow>
          if targsize < k + 4 then Some (Inl (-1, t))
          else (case put4 t k (digit (out0 a)) (digit (out1 a b)) (digit (out2 b c)) (digit (out3 c)) of
              None \<Rightarrow> None | Some t \<Rightarrow> ntop_groups targsize (src, n - 3, k + 4, t))
        | _ \<Rightarrow> None)
      else ntop_padding targsize (src, n, k, t))"
  unfolding ntop_groups_def
  by (subst c_loop.simps) (auto simp: ntop_step_def split: list.split option.split)

lemma ntop_groups_ok:
  "length out + length (b64 bs) \<le> targsize \<Longrightarrow> targsize \<le> length out + length t \<Longrightarrow>
   ntop_groups targsize (bs @ more, length bs, length out, out @ t) =
     Some (Inr (length out + length (b64 bs), out @ b64 bs @ drop (length (b64 bs)) t))"
proof (induction bs arbitrary: out t rule: b64.induct)
  case (4 a b c bs)
  let ?g = "[digit (out0 a), digit (out1 a b), digit (out2 b c), digit (out3 c)]"
  have "ntop_groups targsize (bs @ more, length bs, length (out @ ?g), (out @ ?g) @ drop 4 t) =
      Some (Inr (length (out @ ?g) + length (b64 bs), (out @ ?g) @ b64 bs @ drop (length (b64 bs)) (drop 4 t)))"
    using "4.prems" by (intro "4.IH") auto
  with "4.prems" put4_append [of t out] show ?case
    by (subst ntop_groups_unfold) (simp add: four)
qed (subst ntop_groups_unfold, simp add: ntop_padding_def put4_append Let_def drop4)+

lemma drop_group: "length out + 4 \<le> n \<Longrightarrow> drop n ((out @ [a, b, c, d]) @ drop 4 t) = drop n (out @ t)"
proof -
  assume "length out + 4 \<le> n"
  then obtain m where "n = length out + 4 + m" using le_Suc_ex by blast
  then show ?thesis by (simp add: four add.commute [of 4])
qed

lemma ntop_groups_full:
  "targsize < length out + length (b64 bs) \<Longrightarrow> targsize \<le> length out + length t \<Longrightarrow> length out \<le> targsize \<Longrightarrow>
   \<exists>t'. ntop_groups targsize (bs @ more, length bs, length out, out @ t) = Some (Inl (-1, t')) \<and>
     length t' = length out + length t \<and> drop targsize t' = drop targsize (out @ t)"
proof (induction bs arbitrary: out t rule: b64.induct)
  case (4 a b c bs)
  let ?g = "[digit (out0 a), digit (out1 a b), digit (out2 b c), digit (out3 c)]"
  show ?case
  proof (cases "targsize < length out + 4")
    case True
    then show ?thesis by (subst ntop_groups_unfold) simp
  next
    case False
    have "\<exists>t'. ntop_groups targsize (bs @ more, length bs, length (out @ ?g), (out @ ?g) @ drop 4 t) = Some (Inl (-1, t')) \<and>
        length t' = length (out @ ?g) + length (drop 4 t) \<and> drop targsize t' = drop targsize ((out @ ?g) @ drop 4 t)"
      using "4.prems" False by (intro "4.IH") auto
    then obtain t' where "ntop_groups targsize (bs @ more, length bs, length (out @ ?g), (out @ ?g) @ drop 4 t) =
        Some (Inl (-1, t'))" "length t' = length out + length t" "drop targsize t' = drop targsize (out @ t)"
      using "4.prems" False unfolding drop_group [OF leI [OF False]] by auto
    with "4.prems" False put4_append [of t out] show ?thesis
      by (subst ntop_groups_unfold) (simp add: four)
  qed
qed (auto simp: ntop_groups_unfold ntop_padding_def Let_def)

section \<open>Decoding digits\<close>

text \<open>Facts about the 64 digits, each by evaluation.\<close>

lemma Base64_eq:
  "Base64 = map word_of_nat ([65..<91] @ [97..<123] @ [48..<58] @ [43, 47])"
  by code_simp

lemma Base64_chars:
  "length Base64 = 64" "list_all (\<lambda>c. c \<noteq> 0 \<and> \<not> isspace c \<and> c \<noteq> Pad64) Base64"
  by code_simp+

lemma distinct_Base64: "distinct Base64"
  unfolding Base64_eq
proof (subst distinct_map, intro conjI)
  show "inj_on (word_of_nat :: nat \<Rightarrow> u8) (set ([65..<91] @ [97..<123] @ [48..<58] @ [43, 47]))"
  proof (rule inj_onI)
    fix x y assume xy: "x \<in> set ([65..<91] @ [97..<123] @ [48..<58] @ [43, 47])"
      "y \<in> set ([65..<91] @ [97..<123] @ [48..<58] @ [43, 47])" "(word_of_nat x :: u8) = word_of_nat y"
    have "list_all (\<lambda>x. x < 256) ([65..<91] @ [97..<123] @ [48..<58] @ [43, 47 :: nat])" by code_simp
    then have "x < 256" "y < 256" using xy(1,2) unfolding list_all_iff by blast+
    then show "x = y" using arg_cong [OF xy(3), of unat] by (simp only: unsigned_of_nat) (simp add: take_bit_nat_eq_self)
  qed
qed auto

lemma find_enumerate:
  "distinct xs \<Longrightarrow> v < length xs \<Longrightarrow> find (\<lambda>(i, c). c = xs ! v) (enumerate n xs) = Some (n + v, xs ! v)"
proof (induction xs arbitrary: v n)
  case (Cons x xs)
  show ?case
  proof (cases v)
    case (Suc w)
    with Cons.prems have "xs ! w \<noteq> x" by auto
    with Suc Cons show ?thesis by simp
  qed simp
qed simp

lemma digit_props:
  assumes "v < 64"
  shows "b64_index (Base64 ! v) = Some v" "Base64 ! v \<noteq> 0" "\<not> isspace (Base64 ! v)" "Base64 ! v \<noteq> Pad64"
proof -
  show "b64_index (Base64 ! v) = Some v"
    using find_enumerate [OF distinct_Base64, of v 0] Base64_chars(1) assms by (simp add: b64_index_def)
  have "Base64 ! v \<in> set Base64" using Base64_chars(1) assms by simp
  with Base64_chars(2) show "Base64 ! v \<noteq> 0" "\<not> isspace (Base64 ! v)" "Base64 ! v \<noteq> Pad64"
    unfolding list_all_iff by blast+
qed

lemma pton_digit:
  assumes "unat v < 64"
  shows "pton_step targsize (digit v # src, state, k, Some t) =
    (case pton_store targsize state v k t of None \<Rightarrow> None
     | Some (Inl _) \<Rightarrow> Some (Inl (Inl (-1, Some t)))
     | Some (Inr t) \<Rightarrow> Some (Inr (src, (state + 1) mod 4, if state = 0 then k else k + 1, Some t)))"
  using digit_props [OF assms]
  by (simp add: pton_step_def digit_def Let_def of_nat_unat split: option.split sum.split)

text \<open>The digits of a group in terms of its bytes.\<close>

lemma unat_u8_256: "unat (a :: u8) < 256"
  by (rule less_le_trans [OF unsigned_less]) simp

lemma unat_and_mask: "unat (a AND mask n :: u8) = unat a mod 2 ^ n"
  by (simp only: take_bit_eq_mask [symmetric] unsigned_take_bit_eq) (rule take_bit_eq_mod)

lemma unat_drop: "unat (drop_bit n a :: u8) = unat a div 2 ^ n"
  by (simp only: unsigned_drop_bit_eq unsigned_take_bit_eq [symmetric] take_bit_word_eq_self order_refl)
    (rule drop_bit_eq_div)

lemma unat_push: "unat a * 2 ^ n < 256 \<Longrightarrow> unat (push_bit n a :: u8) = unat a * 2 ^ n"
proof -
  assume a: "unat a * 2 ^ n < 256"
  have "push_bit n a = word_of_nat (unat a * 2 ^ n)"
    by (simp add: push_bit_eq_mult)
  with a show ?thesis by (simp only: unsigned_of_nat) (simp add: take_bit_nat_eq_self)
qed

lemma u8_masks: "(0x03 :: u8) = mask 2" "(0x0f :: u8) = mask 4" "(0x3f :: u8) = mask 6"
  by (simp_all add: mask_eq_exp_minus_1)

lemma unat_sum: "unat a + unat b < 256 \<Longrightarrow> unat (a + b :: u8) = unat a + unat b"
  by (subst unat_plus_if_size) (simp add: word_size)

lemma unat_out:
  "unat (out0 a) = unat a div 4"
  "unat (out1 a b) = unat a mod 4 * 16 + unat b div 16"
  "unat (out2 b c) = unat b mod 16 * 4 + unat c div 64"
  "unat (out3 c) = unat c mod 64"
proof -
  note u = unat_u8_256 [of a] unat_u8_256 [of b] unat_u8_256 [of c]
  show "unat (out0 a) = unat a div 4" by (simp only: out0_def unat_drop) simp
  show "unat (out3 c) = unat c mod 64" by (simp only: out3_def u8_masks unat_and_mask) simp
  have x: "unat (push_bit 4 (a AND mask 2)) = unat a mod 4 * 16"
    by (subst unat_push) (simp_all only: unat_and_mask, simp_all)
  have "unat a mod 4 * 16 \<le> 3 * 16" "unat b div 16 < 16" using u by (simp_all add: less_mult_imp_div_less)
  then show "unat (out1 a b) = unat a mod 4 * 16 + unat b div 16"
    unfolding out1_def u8_masks by (subst unat_sum) (simp_all only: x unat_drop, simp_all)
  have y: "unat (push_bit 2 (b AND mask 4)) = unat b mod 16 * 4"
    by (subst unat_push) (simp_all only: unat_and_mask, simp_all)
  have "unat b mod 16 * 4 \<le> 15 * 4" "unat c div 64 < 4" using u by (simp_all add: less_mult_imp_div_less)
  then show "unat (out2 b c) = unat b mod 16 * 4 + unat c div 64"
    unfolding out2_def u8_masks by (subst unat_sum) (simp_all only: y unat_drop, simp_all)
qed

lemma out_less: "unat (out0 a) < 64" "unat (out1 a b) < 64" "unat (out2 b c) < 64" "unat (out3 c) < 64"
proof -
  note u = unat_u8_256 [of a] unat_u8_256 [of b] unat_u8_256 [of c]
  show "unat (out0 a) < 64" "unat (out3 c) < 64"
    using u unfolding unat_out by (simp_all add: less_mult_imp_div_less)
  have "unat a mod 4 \<le> 3" "unat b div 16 < 16" "unat b mod 16 \<le> 15" "unat c div 64 < 4"
    using u by (simp_all add: less_mult_imp_div_less)
  then show "unat (out1 a b) < 64" "unat (out2 b c) < 64"
    unfolding unat_out by linarith+
qed

text \<open>The stores of the decoder put the bytes together again.\<close>

lemma join:
  "unat lo < 2 ^ n \<Longrightarrow> unat lo + 2 ^ n * unat hi = unat x \<Longrightarrow> push_bit n hi OR lo = (x :: u8)"
  using or_push_bit [of "unat lo" n "unat hi", where 'a = 8]
  by (simp only: of_nat_unat ucast_id or.commute)

lemma join_bytes:
  "push_bit 2 (out0 a) OR drop_bit 4 (out1 a b) = a"
  "push_bit 4 (out1 a b AND 0x0f) OR drop_bit 2 (out2 b c) = b"
  "push_bit 6 (out2 b c AND 0x03) OR out3 c = c"
proof -
  note u = unat_u8_256 [of a] unat_u8_256 [of b] unat_u8_256 [of c]
  have d: "unat b div 16 < 16" "unat c div 64 < 4" using u by (simp_all add: less_mult_imp_div_less)
  show "push_bit 2 (out0 a) OR drop_bit 4 (out1 a b) = a"
    using d by (intro join) (simp_all only: unat_drop unat_out, simp_all)
  show "push_bit 4 (out1 a b AND 0x0f) OR drop_bit 2 (out2 b c) = b"
    using d by (intro join) (simp_all only: u8_masks unat_and_mask unat_drop unat_out, simp_all)
  show "push_bit 6 (out2 b c AND 0x03) OR out3 c = c"
    using d by (intro join) (simp_all only: u8_masks unat_and_mask unat_out, simp_all)
qed

section \<open>The decoder inverts the format\<close>

text \<open>The decoder from a state of its loop.\<close>

definition pton_from :: "nat \<Rightarrow> pton_state \<Rightarrow> (int \<times> u8 list option) option" where
  "pton_from targsize x =
     (case c_loop (pton_step targsize) x of None \<Rightarrow> None
      | Some (Inl r) \<Rightarrow> Some r
      | Some (Inr (ch, src, state, tarindex, target)) \<Rightarrow>
        if ch = Pad64
        then (case pad_ok src state tarindex target of None \<Rightarrow> None
          | Some ok \<Rightarrow> Some (if ok then to_int tarindex else -1, target))
        else Some (if state \<noteq> 0 then -1 else to_int tarindex, target))"

lemma pton_eq_from: "f_b64_pton src target targsize = pton_from targsize (src, 0, 0, target)"
  by (simp add: f_b64_pton_def pton_from_def)

lemma pton_from_step:
  "pton_step targsize x = Some (Inr y) \<Longrightarrow> pton_from targsize x = pton_from targsize y"
  by (simp add: pton_from_def c_loop_unfold)

lemma pton_digit_step:
  assumes "unat v < 64" "pton_store targsize state v k t = Some (Inr t')"
  shows "pton_from targsize (digit v # src, state, k, Some t) =
    pton_from targsize (src, (state + 1) mod 4, if state = 0 then k else k + 1, Some t')"
  by (rule pton_from_step) (simp add: pton_digit [OF assms(1)] assms(2))

text \<open>The bits of a digit that belong to the next byte, shifted to its upper end.\<close>

definition rest1 :: "u8 \<Rightarrow> u8" where
  "rest1 v = push_bit 4 (v AND 0x0f)"

definition rest2 :: "u8 \<Rightarrow> u8" where
  "rest2 v = push_bit 6 (v AND 0x03)"

lemma pton_store_ok:
  assumes "targsize \<le> length t"
  shows "k < targsize \<Longrightarrow> pton_store targsize 0 v k t = Some (Inr (t[k := push_bit 2 v]))"
    "k + 1 < targsize \<Longrightarrow> pton_store targsize 1 v k t = Some (Inr (t[k := t ! k OR drop_bit 4 v, k + 1 := rest1 v]))"
    "k + 1 < targsize \<Longrightarrow> pton_store targsize 2 v k t = Some (Inr (t[k := t ! k OR drop_bit 2 v, k + 1 := rest2 v]))"
    "k < targsize \<Longrightarrow> pton_store targsize 3 v k t = Some (Inr (t[k := t ! k OR v]))"
  using assms by (simp_all add: pton_store_def put_at_def or_at_def rest1_def rest2_def)

text \<open>The four digits of a group.\<close>

lemma pton_state:
  assumes "targsize \<le> length t"
  shows "k < targsize \<Longrightarrow> pton_from targsize (digit (out0 a) # src, 0, k, Some t) =
      pton_from targsize (src, 1, k, Some (t[k := push_bit 2 (out0 a)]))"
    "k + 1 < targsize \<Longrightarrow> pton_from targsize (digit (out1 a b) # src, 1, k, Some t) =
      pton_from targsize (src, 2, k + 1, Some (t[k := t ! k OR drop_bit 4 (out1 a b), k + 1 := rest1 (out1 a b)]))"
    "k + 1 < targsize \<Longrightarrow> pton_from targsize (digit (out2 b c) # src, 2, k, Some t) =
      pton_from targsize (src, 3, k + 1, Some (t[k := t ! k OR drop_bit 2 (out2 b c), k + 1 := rest2 (out2 b c)]))"
    "k < targsize \<Longrightarrow> pton_from targsize (digit (out3 c) # src, 3, k, Some t) =
      pton_from targsize (src, 0, k + 1, Some (t[k := t ! k OR out3 c]))"
  using pton_digit_step [OF out_less(1) pton_store_ok(1), of targsize t k]
    pton_digit_step [OF out_less(2) pton_store_ok(2), of targsize t k]
    pton_digit_step [OF out_less(3) pton_store_ok(3), of targsize t k]
    pton_digit_step [OF out_less(4) pton_store_ok(4), of targsize t k] assms
  by (simp_all add: numeral_2_eq_2 [symmetric])

lemma join_rest:
  "push_bit 2 (out0 a) OR drop_bit 4 (out1 a b) = a"
  "rest1 (out1 a b) OR drop_bit 2 (out2 b c) = b"
  "rest2 (out2 b c) OR out3 c = c"
  unfolding rest1_def rest2_def by (rule join_bytes)+

lemma pton_two:
  assumes "k + 1 < targsize" "targsize \<le> length t"
  shows "pton_from targsize (digit (out0 a) # digit (out1 a b) # src, 0, k, Some t) =
    pton_from targsize (src, 2, k + 1, Some (t[k := a, k + 1 := rest1 (out1 a b)]))"
  using assms pton_state(2) [of targsize "t[k := push_bit 2 (out0 a)]" k a b src] by (simp add: pton_state(1) join_rest)

lemma pton_three:
  assumes "k + 2 < targsize" "targsize \<le> length t"
  shows "pton_from targsize (digit (out0 a) # digit (out1 a b) # digit (out2 b c) # src, 0, k, Some t) =
    pton_from targsize (src, 3, k + 2, Some (t[k := a, k + 1 := b, k + 2 := rest2 (out2 b c)]))"
  using assms pton_state(3) [of targsize "t[k := a, k + 1 := rest1 (out1 a b)]" "k + 1" b c src]
  by (simp add: pton_two join_rest)

lemma pton_four:
  assumes "k + 2 < targsize" "targsize \<le> length t"
  shows "pton_from targsize (digit (out0 a) # digit (out1 a b) # digit (out2 b c) # digit (out3 c) # src, 0, k, Some t) =
    pton_from targsize (src, 0, k + 3, Some (t[k := a, k + 1 := b, k + 2 := c]))"
  using assms pton_state(4) [of targsize "t[k := a, k + 1 := b, k + 2 := rest2 (out2 b c)]" "k + 2" c src]
  by (simp add: pton_three join_rest eval_nat_numeral)

text \<open>The bits left over in the last digit of a padded group are zero.\<close>

lemma left_over: "rest1 (out1 a 0) = 0" "rest2 (out2 b 0) = 0"
proof -
  have "unat (out1 a 0 AND 0x0f) = 0" by (simp only: u8_masks unat_and_mask unat_out) simp
  then show "rest1 (out1 a 0) = 0" unfolding rest1_def unat_eq_0 by (simp only: push_bit_of_0)
  have "unat (out2 b 0 AND 0x03) = 0" by (simp only: u8_masks unat_and_mask unat_out) simp
  then show "rest2 (out2 b 0) = 0" unfolding rest2_def unat_eq_0 by (simp only: push_bit_of_0)
qed

lemma pton_end: "pton_from targsize (0 # junk, 0, k, Some t) = Some (to_int k, Some t)"
  by (simp add: pton_from_def c_loop_unfold pton_step_def Pad64_def)

lemma pton_pad: "pton_from targsize (Pad64 # src, state, k, target) =
    (case pad_ok src state k target of None \<Rightarrow> None
     | Some ok \<Rightarrow> Some (if ok then to_int k else -1, target))"
proof -
  have "Pad64 \<noteq> 0" "\<not> isspace Pad64" by code_simp+
  then show ?thesis by (simp add: pton_from_def c_loop_unfold pton_step_def)
qed

lemma pad_ok_2: "k < length t \<Longrightarrow> pad_ok (Pad64 # 0 # junk) 2 k (Some t) = Some (t ! k = 0)"
proof -
  have "\<not> isspace Pad64" by code_simp
  then show "k < length t \<Longrightarrow> ?thesis" by (simp add: pad_ok_def skip_spaces.simps only_spaces.simps)
qed

lemma pad_ok_3: "k < length t \<Longrightarrow> pad_ok (0 # junk) 3 k (Some t) = Some (t ! k = 0)"
  by (simp add: pad_ok_def only_spaces.simps)

definition slack :: "u8 list \<Rightarrow> nat" where
  "slack bs = (if length bs mod 3 = 0 then 0 else 1)"

lemma pton_b64:
  "k + length bs + slack bs \<le> targsize \<Longrightarrow> targsize \<le> length t \<Longrightarrow>
   \<exists>t'. pton_from targsize (b64 bs @ 0 # junk, 0, k, Some t) = Some (to_int (k + length bs), Some t') \<and>
     take (k + length bs) t' = take k t @ bs \<and> length t' = length t"
proof (induction bs arbitrary: k t rule: b64.induct)
  case 1
  then show ?case by (simp add: pton_end)
next
  case (2 a)
  let ?t = "t[k := a, k + 1 := 0]"
  have "?t ! (k + 1) = 0" "k + 1 < length ?t" using 2 by (simp_all add: slack_def)
  with 2 show ?case
    by (simp add: pton_two pton_pad pad_ok_2 left_over slack_def) (simp add: take_Suc_conv_app_nth take_update_cancel)
next
  case (3 a b)
  let ?t = "t[k := a, k + 1 := b, k + 2 := 0]"
  have "?t ! (k + 2) = 0" "k + 2 < length ?t" using 3 by (simp_all add: slack_def)
  with 3 show ?case
    by (simp add: pton_three pton_pad pad_ok_3 left_over slack_def)
      (simp add: take_Suc_conv_app_nth take_update_cancel nth_list_update)
next
  case (4 a b c bs)
  let ?t = "t[k := a, k + 1 := b, k + 2 := c]"
  have sl: "slack (a # b # c # bs) = slack bs" by (simp add: slack_def)
  have "\<exists>t'. pton_from targsize (b64 bs @ 0 # junk, 0, k + 3, Some ?t) = Some (to_int (k + 3 + length bs), Some t') \<and>
     take (k + 3 + length bs) t' = take (k + 3) ?t @ bs \<and> length t' = length ?t"
    using "4.prems" sl by (intro "4.IH") simp_all
  moreover have "take (k + 3) ?t = take k t @ [a, b, c]"
    using "4.prems" by (simp add: take_Suc_conv_app_nth take_update_cancel nth_list_update eval_nat_numeral)
  moreover have "k + 3 + length bs = k + length (a # b # c # bs)" by simp
  ultimately show ?case
    using "4.prems" pton_four [of k targsize t a b c "b64 bs @ 0 # junk"] by (simp del: list.size add: add.assoc)
qed


text \<open>A target without that room is refused.\<close>

lemma pton_short:
  assumes "targsize \<le> length t" "k \<le> targsize"
  shows "targsize < k + 1 \<Longrightarrow> \<exists>t'. pton_from targsize (digit (out0 a) # src, 0, k, Some t) = Some (-1, Some t')"
    "targsize < k + 2 \<Longrightarrow>
     \<exists>t'. pton_from targsize (digit (out0 a) # digit (out1 a b) # src, 0, k, Some t) = Some (-1, Some t')"
    "targsize < k + 3 \<Longrightarrow>
     \<exists>t'. pton_from targsize (digit (out0 a) # digit (out1 a b) # digit (out2 b c) # src, 0, k, Some t) = Some (-1, Some t')"
proof -
  have fail: "unat v < 64 \<Longrightarrow> pton_store targsize state v j u = Some (Inl ()) \<Longrightarrow>
      pton_from targsize (digit v # rest, state, j, Some u) = Some (-1, Some u)" for v state j u rest
    by (simp add: pton_from_def c_loop_unfold pton_digit)
  have 1: "pton_from targsize (digit (out0 a) # rest, 0, k, Some t) = Some (-1, Some t)" if "targsize < k + 1" for rest
    using that by (intro fail out_less) (simp add: pton_store_def)
  have 2: "\<exists>t'. pton_from targsize (digit (out0 a) # digit (out1 a b) # rest, 0, k, Some t) = Some (-1, Some t')"
    if "targsize < k + 2" for rest
  proof (cases "targsize < k + 1")
    case False
    have "pton_store targsize 1 (out1 a b) k (t[k := push_bit 2 (out0 a)]) = Some (Inl ())"
      using that by (simp add: pton_store_def)
    from fail [OF out_less(2) this] False assms show ?thesis by (simp add: pton_state(1))
  qed (auto simp: 1)
  show "\<exists>t'. pton_from targsize (digit (out0 a) # digit (out1 a b) # digit (out2 b c) # src, 0, k, Some t) = Some (-1, Some t')"
    if "targsize < k + 3"
  proof (cases "targsize < k + 2")
    case False
    have "pton_store targsize 2 (out2 b c) (k + 1) (t[k := a, k + 1 := rest1 (out1 a b)]) = Some (Inl ())"
      using that by (simp add: pton_store_def)
    from fail [OF out_less(3) this] False assms show ?thesis by (simp add: pton_two)
  qed (rule 2)
  show "\<exists>t'. pton_from targsize (digit (out0 a) # src, 0, k, Some t) = Some (-1, Some t')" if "targsize < k + 1"
    using 1 [OF that] by blast
  show "\<exists>t'. pton_from targsize (digit (out0 a) # digit (out1 a b) # src, 0, k, Some t) = Some (-1, Some t')"
    if "targsize < k + 2"
    using that by (rule 2)
qed

lemma pton_b64_full:
  "targsize < k + length bs + slack bs \<Longrightarrow> k \<le> targsize \<Longrightarrow> targsize \<le> length t \<Longrightarrow>
   \<exists>t'. pton_from targsize (b64 bs @ 0 # junk, 0, k, Some t) = Some (-1, Some t')"
proof (induction bs arbitrary: k t rule: b64.induct)
  case (2 a)
  then show ?case using pton_short(2) [of targsize t k] by (simp add: slack_def)
next
  case (3 a b)
  then show ?case using pton_short(3) [of targsize t k] by (simp add: slack_def)
next
  case (4 a b c bs)
  show ?case
  proof (cases "targsize < k + 3")
    case True
    with 4 show ?thesis using pton_short(3) [of targsize t k] by simp
  next
    case False
    have "slack (a # b # c # bs) = slack bs" by (simp add: slack_def)
    with False "4.prems" have "\<exists>t'. pton_from targsize (b64 bs @ 0 # junk, 0, k + 3, Some (t[k := a, k + 1 := b, k + 2 := c])) =
      Some (-1, Some t')"
      by (intro "4.IH") simp_all
    then show ?thesis
      using "4.prems" False pton_four [of k targsize t a b c "b64 bs @ 0 # junk"] by (simp del: list.size)
  qed
qed (simp add: slack_def)

section \<open>The decoder on any string\<close>

text \<open>Where the next byte goes, and that it is inside the target within a group.\<close>

definition pton_inv :: "nat \<Rightarrow> u8 list \<Rightarrow> nat \<Rightarrow> nat \<Rightarrow> bool" where
  "pton_inv targsize t state k \<longleftrightarrow>
     state < 4 \<and> k \<le> targsize \<and> targsize \<le> length t \<and> (state \<noteq> 0 \<longrightarrow> k < targsize)"

definition pton_result :: "nat \<Rightarrow> u8 list \<Rightarrow> (int \<times> u8 list option) option \<Rightarrow> bool" where
  "pton_result targsize t r \<longleftrightarrow> (\<exists>n t'. r = Some (n, Some t') \<and>
     (n = -1 \<or> (\<exists>k\<le>targsize. n = to_int k)) \<and> length t' = length t \<and> drop targsize t' = drop targsize t)"

lemma pton_store_inv:
  assumes "pton_inv targsize t state k"
  obtains "pton_store targsize state v k t = Some (Inl ())"
  | t' where "pton_store targsize state v k t = Some (Inr t')" "length t' = length t"
      "drop targsize t' = drop targsize t"
      "pton_inv targsize t' ((state + 1) mod 4) (if state = 0 then k else k + 1)"
proof -
  note inv = assms [unfolded pton_inv_def]
  consider "state = 0" | "state = 1" | "state = 2" | "state = 3" using inv by linarith
  then show ?thesis
  proof cases
    case 1
    show ?thesis
    proof (cases "k < targsize")
      case True
      then show ?thesis using inv 1 pton_store_ok(1) [of targsize t k v] by (intro that(2), simp) (simp_all add: pton_inv_def)
    next
      case False
      then show ?thesis using 1 by (intro that(1)) (simp add: pton_store_def)
    qed
  next
    case 2
    show ?thesis
    proof (cases "k + 1 < targsize")
      case True
      then show ?thesis using inv 2 pton_store_ok(2) [of targsize t k v] by (intro that(2), simp) (simp_all add: pton_inv_def)
    next
      case False
      then show ?thesis using 2 by (intro that(1)) (simp add: pton_store_def)
    qed
  next
    case 3
    show ?thesis
    proof (cases "k + 1 < targsize")
      case True
      then show ?thesis using inv 3 pton_store_ok(3) [of targsize t k v] by (intro that(2), simp) (simp_all add: pton_inv_def)
    next
      case False
      then show ?thesis using 3 by (intro that(1)) (simp add: pton_store_def)
    qed
  next
    case 4
    then show ?thesis using inv pton_store_ok(4) [of targsize t k v] by (intro that(2), simp) (simp_all add: pton_inv_def)
  qed
qed

lemma skip_spaces_defined:
  "0 \<in> set (c # src) \<Longrightarrow>
   \<exists>c' src'. skip_spaces c src = Some (c', src') \<and> (c' \<noteq> 0 \<longrightarrow> 0 \<in> set src')"
proof (induction src arbitrary: c)
  case (Cons d src)
  then show ?case by (subst skip_spaces.simps) auto
qed (auto simp: skip_spaces.simps)

lemma only_spaces_defined: "0 \<in> set (c # src) \<Longrightarrow> only_spaces c src \<noteq> None"
proof (induction src arbitrary: c)
  case (Cons d src)
  then show ?case by (subst only_spaces.simps) auto
qed (auto simp: only_spaces.simps)

lemma pad_ok_defined:
  assumes "0 \<in> set src" "pton_inv targsize t state k"
  shows "\<exists>ok. pad_ok src state k (Some t) = Some ok"
proof -
  obtain c src1 where src: "src = c # src1" using assms(1) by (cases src) auto
  have k: "state \<noteq> 0 \<Longrightarrow> k < length t" using assms(2) by (auto simp: pton_inv_def)
  show ?thesis
  proof (cases "state = 2")
    case True
    obtain c' src' where s: "skip_spaces c src1 = Some (c', src')" "c' \<noteq> 0 \<longrightarrow> 0 \<in> set src'"
      using skip_spaces_defined [of c src1] assms(1) src by auto
    have pad: "Pad64 \<noteq> 0" by code_simp
    show ?thesis
    proof (cases "c' = Pad64")
      case p: True
      with s pad obtain d rest where r: "src' = d # rest" by (cases src') auto
      obtain sp where "only_spaces d rest = Some sp" using only_spaces_defined [of d rest] s(2) p pad r by auto
      then show ?thesis using s src True k p r by (auto simp: pad_ok_def)
    qed (use s src True in \<open>auto simp: pad_ok_def\<close>)
  next
    case False
    obtain sp where "only_spaces c src1 = Some sp" using only_spaces_defined [of c src1] assms(1) src by auto
    then show ?thesis using src False k by (cases "state = 0") (auto simp: pad_ok_def)
  qed
qed

lemma pton_safe:
  "0 \<in> set src \<Longrightarrow> pton_inv targsize t state k \<Longrightarrow> pton_result targsize t (pton_from targsize (src, state, k, Some t))"
proof (induction src arbitrary: state k t)
  case (Cons c src)
  have k: "k \<le> targsize" using Cons.prems by (simp add: pton_inv_def)
  consider "c = 0" | "c \<noteq> 0" "isspace c" | "c = Pad64" | "c \<noteq> 0" "\<not> isspace c" "c \<noteq> Pad64" "b64_index c = None"
    | v where "c \<noteq> 0" "\<not> isspace c" "c \<noteq> Pad64" "b64_index c = Some v"
    by blast
  then show ?case
  proof cases
    case 1
    have "Pad64 \<noteq> 0" by code_simp
    with 1 k show ?thesis by (auto simp: pton_from_def c_loop_unfold pton_step_def pton_result_def)
  next
    case 2
    then have "pton_from targsize (c # src, state, k, Some t) = pton_from targsize (src, state, k, Some t)"
      by (intro pton_from_step) (simp add: pton_step_def)
    with 2 Cons show ?thesis by simp
  next
    case 3
    have "Pad64 \<noteq> 0" by code_simp
    with 3 Cons.prems have "0 \<in> set src" by auto
    from pad_ok_defined [OF this Cons.prems(2)] 3 k show ?thesis by (auto simp: pton_pad pton_result_def)
  next
    case 4
    then show ?thesis by (simp add: pton_from_def c_loop_unfold pton_step_def pton_result_def)
  next
    case 5
    show ?thesis
    proof (rule pton_store_inv [OF Cons.prems(2), of "word_of_nat v"])
      assume "pton_store targsize state (word_of_nat v) k t = Some (Inl ())"
      with 5 show ?thesis by (simp add: pton_from_def c_loop_unfold pton_step_def pton_result_def Let_def)
    next
      fix t' assume s: "pton_store targsize state (word_of_nat v) k t = Some (Inr t')" "length t' = length t"
        "drop targsize t' = drop targsize t" "pton_inv targsize t' ((state + 1) mod 4) (if state = 0 then k else k + 1)"
      have "pton_from targsize (c # src, state, k, Some t) =
          pton_from targsize (src, (state + 1) mod 4, if state = 0 then k else k + 1, Some t')"
        using 5 s(1) by (intro pton_from_step) (simp add: pton_step_def Let_def)
      moreover have "pton_result targsize t' (pton_from targsize (src, (state + 1) mod 4, if state = 0 then k else k + 1, Some t'))"
        using 5 Cons.prems(1) s(4) by (intro Cons.IH) auto
      ultimately show ?thesis using s(2,3) by (simp add: pton_result_def)
    qed
  qed
qed simp


section \<open>Properties\<close>

lemma to_int_small: "n < 2147483648 \<Longrightarrow> to_int n = int n"
proof -
  assume n: "n < 2147483648"
  have "unat (word_of_nat n :: u32) = n" using n by (simp only: unsigned_of_nat) (simp add: take_bit_nat_eq_self)
  moreover have "sint (word_of_nat n :: u32) = signed_take_bit 31 (int n)"
    by (simp add: signed_of_nat)
  moreover have "signed_take_bit 31 (int n) = int n"
    using n by (intro signed_take_bit_int_eq_self) simp_all
  ultimately show ?thesis by (simp add: to_int_def)
qed

text \<open>
  C20: \<open>f_b64_ntop\<close> encodes: when the base64 text and its terminating zero fit into the \<open>targsize\<close> bytes
  announced, it writes exactly them and returns the length of the text; otherwise it returns -1.  In both
  cases the bytes of the target behind \<open>targsize\<close> keep their values, and no source byte behind
  \<open>srclength\<close> matters.
\<close>

theorem ntop_encodes:
  assumes "targsize \<le> length target" "length (b64 bs) < 2147483648"
  shows "\<exists>t'. f_b64_ntop (bs @ more) (length bs) target targsize =
      Some (if length (b64 bs) < targsize then int (length (b64 bs)) else -1, t') \<and>
    length t' = length target \<and> drop targsize t' = drop targsize target \<and>
    (length (b64 bs) < targsize \<longrightarrow> t' = b64 bs @ [0] @ drop (length (b64 bs) + 1) target)"
proof (cases "length (b64 bs) \<le> targsize")
  case True
  have g: "ntop_groups targsize (bs @ more, length bs, 0, target) =
      Some (Inr (length (b64 bs), b64 bs @ drop (length (b64 bs)) target))"
    using ntop_groups_ok [of "[]" bs targsize target more] True assms(1) by simp
  show ?thesis
  proof (cases "length (b64 bs) < targsize")
    case True
    then obtain x xs where "drop (length (b64 bs)) target = x # xs" "xs = drop (length (b64 bs) + 1) target"
      using assms(1) by (metis Cons_nth_drop_Suc Suc_eq_plus1 less_le_trans)
    moreover obtain m where "targsize = length (b64 bs) + Suc m" using True less_imp_Suc_add by auto
    ultimately show ?thesis
      using g assms by (auto simp: ntop_eq_groups put_at_def list_update_append to_int_small add.commute)
  next
    case False
    then show ?thesis using g True assms(1) by (simp add: ntop_eq_groups)
  qed
next
  case False
  then show ?thesis
    using ntop_groups_full [of targsize "[]" bs target more] assms(1) by (auto simp: ntop_eq_groups)
qed

theorem ntop_encodes_witness:
  "\<exists>t'. f_b64_ntop [1, 2, 3, 4] 4 (replicate 10 7) 9 = Some (8, t') \<and>
     t' = map of_char ''AQIDBA=='' @ [0, 7]"
proof -
  have b: "b64 [1, 2, 3, 4] = map of_char ''AQIDBA==''" by code_simp
  have l: "length [1, 2, 3, 4 :: u8] = 4" "length (replicate 10 (7 :: u8)) = 10" by simp_all
  have d: "length (map of_char ''AQIDBA=='' :: u8 list) = 8" "drop (8 + 1) (replicate 10 (7 :: u8)) = [7]" by code_simp+
  show ?thesis
    using ntop_encodes [of 9 "replicate 10 7" "[1, 2, 3, 4]" "[]", unfolded b l d] by simp
qed

text \<open>
  C21: \<open>f_b64_pton\<close> decodes the text of \<open>f_b64_ntop\<close> to the bytes it was made of, given a target with room
  for the bytes and, when the text is padded, for one byte more; with less room it returns -1.
\<close>

theorem pton_decodes:
  assumes "targsize \<le> length target" "length (b64 bs) < 2147483648"
    and "f_b64_ntop bs (length bs) buffer room = Some (n, txt)" "room \<le> length buffer" "n \<noteq> -1"
  shows "if length bs + (if length bs mod 3 = 0 then 0 else 1) \<le> targsize
    then \<exists>t'. f_b64_pton txt (Some target) targsize = Some (int (length bs), Some t') \<and> take (length bs) t' = bs
    else \<exists>t'. f_b64_pton txt (Some target) targsize = Some (-1, Some t')"
proof -
  obtain junk where enc: "txt = b64 bs @ 0 # junk"
    using ntop_encodes [of room buffer bs "[]"] assms(2-5) by (auto split: if_splits)
  have "length bs < 2147483648" using assms(2) by (simp add: length_b64)
  then show ?thesis
    using pton_b64 [of 0 bs targsize target junk] pton_b64_full [of targsize 0 bs target junk] assms(1) enc
    by (auto simp: pton_eq_from to_int_small slack_def not_le)
qed

theorem pton_decodes_witness:
  "(\<exists>t'. f_b64_pton (map of_char ''AQID'' @ [0, 7]) (Some [9, 9, 9]) 3 = Some (3, Some t') \<and> take 3 t' = [1, 2, 3]) \<and>
   (\<exists>t'. f_b64_pton (map of_char ''AQI='' @ [0, 7]) (Some [9, 9, 9]) 2 = Some (-1, Some t'))"
proof -
  have e: "f_b64_ntop [1, 2, 3] (length [1, 2, 3 :: u8]) (replicate 6 7) 5 = Some (4, map of_char ''AQID'' @ [0, 7])"
    "f_b64_ntop [1, 2] (length [1, 2 :: u8]) (replicate 6 7) 5 = Some (4, map of_char ''AQI='' @ [0, 7])"
    by code_simp+
  have l: "length (b64 [1, 2, 3]) < 2147483648" "length (b64 [1, 2]) < 2147483648" by (simp_all add: length_b64)
  have n: "length [1, 2, 3 :: u8] = 3" "length [1, 2 :: u8] = 2" "length [9, 9, 9 :: u8] = 3" "length (replicate 6 (7 :: u8)) = 6"
    by simp_all
  have r: "3 + (if (3 :: nat) mod 3 = 0 then 0 else 1) \<le> (3 :: nat)" "\<not> 2 + (if (2 :: nat) mod 3 = 0 then 0 else 1) \<le> (2 :: nat)"
    by simp_all
  have "(3 :: nat) \<le> 3" "(2 :: nat) \<le> 3" "(5 :: nat) \<le> 6" "(4 :: int) \<noteq> -1" by simp_all
  note p = pton_decodes [of 3 "[9, 9, 9]" "[1, 2, 3]" "replicate 6 7" 5, OF _ l(1) e(1), unfolded n, OF this(1,3,4)]
    pton_decodes [of 2 "[9, 9, 9]" "[1, 2]" "replicate 6 7" 5, OF _ l(2) e(2), unfolded n, OF this(2,3,4)]
  show ?thesis using p(1) [unfolded if_P [OF r(1)]] p(2) [unfolded if_not_P [OF r(2)]] by (simp only: of_nat_numeral simp_thms)
qed

text \<open>
  C22: On every zero-terminated string \<open>f_b64_pton\<close> ends without an access outside its buffers: it returns -1
  or a number of bytes of at most \<open>targsize\<close>, and stores only into the first \<open>targsize\<close> bytes of the target.
\<close>

theorem pton_within_bounds:
  assumes "0 \<in> set src" "targsize \<le> length target" "targsize < 2147483648"
  shows "\<exists>n t'. f_b64_pton src (Some target) targsize = Some (n, Some t') \<and> -1 \<le> n \<and> n \<le> int targsize \<and>
    length t' = length target \<and> drop targsize t' = drop targsize target"
proof -
  have "pton_inv targsize target 0 0" using assms(2) by (simp add: pton_inv_def)
  from pton_safe [OF assms(1) this] assms(3) show ?thesis
    by (auto simp: pton_eq_from pton_result_def to_int_small)
qed

theorem pton_within_bounds_witness:
  "\<exists>n t'. f_b64_pton [81, 32, 81, 61, 10, 61, 0] (Some [1, 2, 3]) 2 = Some (n, Some t') \<and> -1 \<le> n \<and> n \<le> 2 \<and>
    length t' = 3 \<and> drop 2 t' = [3]"
  using pton_within_bounds [of "[81, 32, 81, 61, 10, 61, 0]" 2 "[1, 2, 3]"] by (simp add: numeral_3_eq_3)

end
