(* ===== verification/LDB_Slice.thy ===== *)
theory LDB_Slice
  imports Varint_Format
begin

text \<open>
  LevelDB: byte slices and status values (\<open>include/leveldb/slice.h\<close>, \<open>include/leveldb/status.h\<close>,
  \<open>util/status.cc\<close>) and the platform layer \<open>port/port_stdcxx.h\<close> in the configuration of the pods
  (\<open>LEVELDB_IS_BIG_ENDIAN=0\<close>, neither \<open>HAVE_SNAPPY\<close> nor \<open>HAVE_CRC32C\<close>).  A slice, a
  \<open>std::string\<close> and the bytes between two pointers are lists of bytes.
\<close>

section \<open>Platform layer\<close>

definition kLittleEndian :: bool where
  "kLittleEndian = (\<not> False)"

definition Snappy_Compress :: "u8 list \<Rightarrow> u8 list \<Rightarrow> (bool \<times> u8 list)" where
  "Snappy_Compress input output = (False, output)"

definition Snappy_GetUncompressedLength :: "u8 list \<Rightarrow> u64 option" where
  "Snappy_GetUncompressedLength input = None"

definition Snappy_Uncompress :: "u8 list \<Rightarrow> u8 list option" where
  "Snappy_Uncompress input = None"

definition AcceleratedCRC32C :: "u32 \<Rightarrow> u8 list \<Rightarrow> u32" where
  "AcceleratedCRC32C crc buf = 0"

text \<open>The bytes of a string literal.\<close>

definition chars :: "string \<Rightarrow> u8 list" where
  "chars s = map of_char s"

section \<open>Slices\<close>

type_synonym slice = "u8 list"

text \<open>\<open>memcmp\<close> of the C library on the first \<open>n\<close> bytes: the sign of the first difference.\<close>

fun memcmp :: "u8 list \<Rightarrow> u8 list \<Rightarrow> nat \<Rightarrow> int" where
  "memcmp (x # xs) (y # ys) (Suc n) = (if x < y then -1 else if y < x then 1 else memcmp xs ys n)"
| "memcmp xs ys n = 0"

text \<open>The code asserts that the slice has \<open>n\<close> bytes; its callers check this.\<close>

definition remove_prefix :: "slice \<Rightarrow> nat \<Rightarrow> slice" where
  "remove_prefix s n = drop n s"

definition slice_compare :: "slice \<Rightarrow> slice \<Rightarrow> int" where
  "slice_compare a b =
     (let min_len = (if length a < length b then length a else length b);
          r = memcmp a b min_len
      in if r = 0 then
           (if length a < length b then -1
            else if length a > length b then 1 else r)
         else r)"

definition starts_with :: "slice \<Rightarrow> slice \<Rightarrow> bool" where
  "starts_with s x = (length s \<ge> length x \<and> memcmp s x (length x) = 0)"

definition slice_eq :: "slice \<Rightarrow> slice \<Rightarrow> bool" where
  "slice_eq x y = (length x = length y \<and> memcmp x y (length x) = 0)"

text \<open>The byte-wise lexicographic order the comparison computes.\<close>

fun bytes_less :: "u8 list \<Rightarrow> u8 list \<Rightarrow> bool" where
  "bytes_less xs [] = False"
| "bytes_less [] (y # ys) = True"
| "bytes_less (x # xs) (y # ys) = (x < y \<or> x = y \<and> bytes_less xs ys)"

lemma bytes_less_Nil [simp]: "bytes_less [] xs \<longleftrightarrow> xs \<noteq> []"
  by (cases xs) simp_all

lemma memcmp_0 [simp]: "memcmp xs ys 0 = 0"
  by (cases xs; cases ys) simp_all

lemma memcmp_refl [simp]: "memcmp xs xs n = 0"
proof (induction xs arbitrary: n)
  case (Cons x xs)
  then show ?case by (cases n) simp_all
qed simp

lemma memcmp_eq_0:
  "memcmp xs ys n = 0 \<longleftrightarrow> take n xs = take n ys" if "n \<le> length xs" "n \<le> length ys"
  using that by (induction xs ys n rule: memcmp.induct) (auto simp: not_less_iff_gr_or_eq)

lemma starts_with_iff: "starts_with s x \<longleftrightarrow> (\<exists>r. s = x @ r)"
proof -
  have "starts_with s x \<longleftrightarrow> length x \<le> length s \<and> take (length x) s = x"
    unfolding starts_with_def by (auto simp: memcmp_eq_0)
  then show ?thesis by (metis append_eq_conv_conj append_take_drop_id length_append le_add1)
qed

lemma slice_eq_iff [simp]: "slice_eq x y \<longleftrightarrow> x = y"
  by (auto simp: slice_eq_def memcmp_eq_0)

lemma slice_compare_Cons:
  "slice_compare (x # xs) (y # ys) = (if x < y then -1 else if y < x then 1 else slice_compare xs ys)"
  by (auto simp: slice_compare_def Let_def)

lemma slice_compare_Nil [simp]:
  "slice_compare [] [] = 0" "slice_compare [] (y # ys) = -1" "slice_compare (x # xs) [] = 1"
  by (simp_all add: slice_compare_def)

lemma slice_compare_cases:
  "slice_compare a b = (if bytes_less a b then -1 else if a = b then 0 else 1)"
proof (induction a b rule: bytes_less.induct)
  case (1 xs)
  then show ?case by (cases xs) simp_all
qed (auto simp: slice_compare_Cons)

lemma bytes_less_irrefl [simp]: "\<not> bytes_less a a"
  by (induction a) auto

lemma bytes_less_trans: "bytes_less a b \<Longrightarrow> bytes_less b c \<Longrightarrow> bytes_less a c"
proof (induction a b arbitrary: c rule: bytes_less.induct)
  case (2 y ys)
  then show ?case by (cases c) auto
next
  case (3 x xs y ys)
  then show ?case by (cases c) auto
qed simp

lemma bytes_less_linear: "bytes_less a b \<or> a = b \<or> bytes_less b a"
  by (induction a b rule: bytes_less.induct) auto

lemma bytes_less_append: "bytes_less a (a @ x # xs)"
  by (induction a) auto

lemma slice_compare_eq_0 [simp]: "slice_compare a b = 0 \<longleftrightarrow> a = b"
  by (simp add: slice_compare_cases)

lemma slice_compare_less [simp]: "slice_compare a b < 0 \<longleftrightarrow> bytes_less a b"
  by (simp add: slice_compare_cases)

lemma slice_compare_gr [simp]: "0 < slice_compare a b \<longleftrightarrow> bytes_less b a"
  using bytes_less_linear [of a b] bytes_less_trans [of a b a] by (auto simp: slice_compare_cases)

section \<open>Status values\<close>

text \<open>
  The null state is success; otherwise the state is the heap array of \<open>status.h\<close>: four bytes
  of length, one byte of code, the message.
\<close>

type_synonym Status = "u8 list option"

definition kOk :: u8 where "kOk = 0"
definition kNotFound :: u8 where "kNotFound = 1"
definition kCorruption :: u8 where "kCorruption = 2"
definition kNotSupported :: u8 where "kNotSupported = 3"
definition kInvalidArgument :: u8 where "kInvalidArgument = 4"
definition kIOError :: u8 where "kIOError = 5"

text \<open>The code asserts that \<open>code\<close> is not \<open>kOk\<close>; the constructors below pass the other codes.\<close>

definition make_status :: "u8 \<Rightarrow> slice \<Rightarrow> slice \<Rightarrow> Status" where
  "make_status code msg msg2 =
     (let len1 = word_of_nat (length msg) :: u32;
          len2 = word_of_nat (length msg2) :: u32;
          size = len1 + (if len2 \<noteq> 0 then 2 + len2 else 0);
          result = bytes_le 4 size @ [code] @ take (unat len1) msg
      in Some (if len2 \<noteq> 0 then result @ chars '': '' @ take (unat len2) msg2 else result))"

definition status_OK :: Status where "status_OK = None"
definition NotFound :: "slice \<Rightarrow> slice \<Rightarrow> Status" where
  "NotFound msg msg2 = make_status kNotFound msg msg2"
definition Corruption :: "slice \<Rightarrow> slice \<Rightarrow> Status" where
  "Corruption msg msg2 = make_status kCorruption msg msg2"
definition NotSupported :: "slice \<Rightarrow> slice \<Rightarrow> Status" where
  "NotSupported msg msg2 = make_status kNotSupported msg msg2"
definition InvalidArgument :: "slice \<Rightarrow> slice \<Rightarrow> Status" where
  "InvalidArgument msg msg2 = make_status kInvalidArgument msg msg2"
definition IOError :: "slice \<Rightarrow> slice \<Rightarrow> Status" where
  "IOError msg msg2 = make_status kIOError msg msg2"

definition status_ok :: "Status \<Rightarrow> bool" where
  "status_ok st = (st = None)"

definition status_code :: "Status \<Rightarrow> u8" where
  "status_code st = (case st of None \<Rightarrow> kOk | Some state \<Rightarrow> state ! 4)"

definition IsNotFound :: "Status \<Rightarrow> bool" where
  "IsNotFound st = (status_code st = kNotFound)"
definition IsCorruption :: "Status \<Rightarrow> bool" where
  "IsCorruption st = (status_code st = kCorruption)"
definition IsNotSupportedError :: "Status \<Rightarrow> bool" where
  "IsNotSupportedError st = (status_code st = kNotSupported)"
definition IsInvalidArgument :: "Status \<Rightarrow> bool" where
  "IsInvalidArgument st = (status_code st = kInvalidArgument)"
definition IsIOError :: "Status \<Rightarrow> bool" where
  "IsIOError st = (status_code st = kIOError)"

text \<open>\<open>CopyState\<close> copies the length field plus five bytes; the copy constructor and assignment use it.\<close>

definition CopyState :: "u8 list \<Rightarrow> u8 list" where
  "CopyState state = (let size = word_le (take 4 state) :: u32 in take (unat size + 5) state)"

definition status_copy :: "Status \<Rightarrow> Status" where
  "status_copy rhs = (case rhs of None \<Rightarrow> None | Some state \<Rightarrow> Some (CopyState state))"

text \<open>The decimal text of the default case of the switch.\<close>

fun decimal :: "nat \<Rightarrow> string" where
  "decimal n = (if n < 10 then [char_of (48 + n)] else decimal (n div 10) @ [char_of (48 + n mod 10)])"

declare decimal.simps [simp del]

definition status_ToString :: "Status \<Rightarrow> u8 list" where
  "status_ToString st = (case st of None \<Rightarrow> chars ''OK''
   | Some state \<Rightarrow>
      (let code = status_code st;
           type = (if code = kOk then chars ''OK''
             else if code = kNotFound then chars ''NotFound: ''
             else if code = kCorruption then chars ''Corruption: ''
             else if code = kNotSupported then chars ''Not implemented: ''
             else if code = kInvalidArgument then chars ''Invalid argument: ''
             else if code = kIOError then chars ''IO error: ''
             else chars (''Unknown code('' @ decimal (unat code) @ ''): ''));
           len = word_le (take 4 state) :: u32
       in type @ take (unat len) (drop 5 state)))"

lemmas status_kinds =
  NotFound_def Corruption_def NotSupported_def InvalidArgument_def IOError_def

lemma status_ok_simps [simp]:
  "status_ok status_OK" "\<not> status_ok (make_status c m m2)"
  "\<not> status_ok (Corruption m m2)" "\<not> status_ok (NotFound m m2)" "\<not> status_ok (IOError m m2)"
  "\<not> status_ok (NotSupported m m2)" "\<not> status_ok (InvalidArgument m m2)"
  by (simp_all add: status_ok_def status_OK_def make_status_def Let_def status_kinds)

lemma status_code_make [simp]: "status_code (make_status c m m2) = c"
  by (simp add: status_code_def make_status_def Let_def nth_append)

lemma status_message:
  assumes "length m + length m2 + 2 < 2 ^ 32"
  shows "make_status c m m2 =
    (let msg = m @ (if m2 = [] then [] else chars '': '' @ m2)
     in Some (bytes_le 4 (word_of_nat (length msg) :: u32) @ [c] @ msg))"
proof -
  have len [simp]: "unat (word_of_nat (length m) :: u32) = length m"
    "unat (word_of_nat (length m2) :: u32) = length m2"
    using assms by (simp_all add: unat_of_nat_32)
  have z: "(word_of_nat (length m2) :: u32) = 0 \<longleftrightarrow> m2 = []"
  proof
    assume "(word_of_nat (length m2) :: u32) = 0"
    then have "unat (word_of_nat (length m2) :: u32) = 0" by (simp only: unat_0)
    then show "m2 = []" using len(2) by simp
  qed simp
  show ?thesis by (auto simp: make_status_def Let_def z chars_def add_ac)
qed

lemma status_copy_id:
  assumes "length m + length m2 + 2 < 2 ^ 32"
  shows "status_copy (make_status c m m2) = make_status c m m2"
proof -
  let ?msg = "m @ (if m2 = [] then [] else chars '': '' @ m2)"
  have "unat (word_of_nat (length ?msg) :: u32) = length ?msg"
    using assms by (intro unat_of_nat_32) (auto simp: chars_def)
  moreover have "word_le (bytes_le 4 (word_of_nat (length ?msg) :: u32)) = (word_of_nat (length ?msg) :: u32)"
    by (rule word_le_bytes_le_id) simp
  ultimately show ?thesis
    by (simp add: status_message [OF assms] Let_def status_copy_def CopyState_def del: bytes_le_numeral)
qed

end
