(* ===== verification/LDB_Env.thy ===== *)
theory LDB_Env
  imports LDB_Slice
begin

text \<open>
  LevelDB: the file classes of \<open>util/env_posix.cc\<close> and the file interfaces of \<open>include/leveldb/env.h\<close>.
  The operating system is a parameter: a record of system calls over a kernel state, each call
  returning its result, the value of \<open>errno\<close> and the new state.  A method returns its status (and
  its out parameters) and the new state; \<open>None\<close> is a run that does not end (a call interrupted for
  ever) or an assertion that fails.
\<close>

section \<open>System calls\<close>

record 'k posix =
  sys_write :: "'k \<Rightarrow> int \<Rightarrow> u8 list \<Rightarrow> int \<times> int \<times> 'k"
  sys_read :: "'k \<Rightarrow> int \<Rightarrow> nat \<Rightarrow> int \<times> u8 list \<times> int \<times> 'k"
  sys_pread :: "'k \<Rightarrow> int \<Rightarrow> nat \<Rightarrow> u64 \<Rightarrow> int \<times> u8 list \<times> int \<times> 'k"
  sys_lseek_cur :: "'k \<Rightarrow> int \<Rightarrow> u64 \<Rightarrow> int \<times> int \<times> 'k"
  sys_open_rdonly :: "'k \<Rightarrow> u8 list \<Rightarrow> int \<times> int \<times> 'k"
  sys_close :: "'k \<Rightarrow> int \<Rightarrow> int \<times> int \<times> 'k"
  sys_fullfsync :: "'k \<Rightarrow> int \<Rightarrow> int \<times> int \<times> 'k"
  sys_fsync :: "'k \<Rightarrow> int \<Rightarrow> int \<times> int \<times> 'k"
  sys_strerror :: "int \<Rightarrow> u8 list"

definition ENOENT :: int where "ENOENT = 2"
definition EINTR :: int where "EINTR = 4"
definition EINVAL :: int where "EINVAL = 22"

definition PosixError :: "'k posix \<Rightarrow> u8 list \<Rightarrow> int \<Rightarrow> Status" where
  "PosixError K ctx error_number =
     (if error_number = ENOENT then NotFound ctx (sys_strerror K error_number)
      else IOError ctx (sys_strerror K error_number))"

lemma PosixError_not_ok [simp]: "\<not> status_ok (PosixError K ctx e)"
  by (simp add: PosixError_def)

section \<open>Resource limiter\<close>

text \<open>\<open>acquires_allowed_\<close> is an atomic counter; the two atomic steps of a failing \<open>Acquire\<close> cancel.\<close>

definition Limiter_Acquire :: "int \<Rightarrow> bool \<times> int" where
  "Limiter_Acquire acquires_allowed =
     (let old_acquires_allowed = acquires_allowed; acquires_allowed = acquires_allowed - 1
      in if old_acquires_allowed > 0 then (True, acquires_allowed) else (False, acquires_allowed + 1))"

definition Limiter_Release :: "int \<Rightarrow> int" where
  "Limiter_Release acquires_allowed = acquires_allowed + 1"

section \<open>Writable files\<close>

definition kWritableFileBufferSize :: nat where
  "kWritableFileBufferSize = 65536"

text \<open>\<open>w_buf\<close> is \<open>buf_[0, pos_ - 1]\<close>, so \<open>pos_\<close> is its length.\<close>

record 'k PosixWritableFile =
  w_buf :: "u8 list"
  w_fd :: int
  w_is_manifest :: bool
  w_filename :: "u8 list"
  w_dirname :: "u8 list"
  w_kernel :: 'k

text \<open>\<open>rfind('/')\<close>: the position of the last separator.\<close>

fun rfind_slash :: "u8 list \<Rightarrow> nat option" where
  "rfind_slash [] = None"
| "rfind_slash (c # cs) = (case rfind_slash cs of Some n \<Rightarrow> Some (Suc n)
     | None \<Rightarrow> if c = of_char (CHR ''/'') then Some 0 else None)"

definition Dirname :: "u8 list \<Rightarrow> u8 list" where
  "Dirname filename = (case rfind_slash filename of None \<Rightarrow> chars ''.'' | Some n \<Rightarrow> take n filename)"

definition Basename :: "u8 list \<Rightarrow> u8 list" where
  "Basename filename = (case rfind_slash filename of None \<Rightarrow> filename | Some n \<Rightarrow> drop (n + 1) filename)"

definition IsManifest :: "u8 list \<Rightarrow> bool" where
  "IsManifest filename = starts_with (Basename filename) (chars ''MANIFEST'')"

definition PosixWritableFile_new :: "u8 list \<Rightarrow> int \<Rightarrow> 'k \<Rightarrow> 'k PosixWritableFile" where
  "PosixWritableFile_new filename fd k =
     \<lparr>w_buf = [], w_fd = fd, w_is_manifest = IsManifest filename, w_filename = filename,
      w_dirname = Dirname filename, w_kernel = k\<rparr>"

definition write_step ::
  "'k posix \<Rightarrow> u8 list \<times> 'k PosixWritableFile \<Rightarrow>
   ((Status \<times> 'k PosixWritableFile) + (u8 list \<times> 'k PosixWritableFile)) option" where
  "write_step K = (\<lambda>(data, f).
     if length data > 0 then
       (case sys_write K (w_kernel f) (w_fd f) data of (write_result, errno, k) \<Rightarrow>
          let f = f\<lparr>w_kernel := k\<rparr> in
          if write_result < 0 then
            if errno = EINTR then Some (Inr (data, f))
            else Some (Inl (PosixError K (w_filename f) errno, f))
          else Some (Inr (drop (nat write_result) data, f)))
     else Some (Inl (status_OK, f)))"

definition WriteUnbuffered ::
  "'k posix \<Rightarrow> 'k PosixWritableFile \<Rightarrow> u8 list \<Rightarrow> (Status \<times> 'k PosixWritableFile) option" where
  "WriteUnbuffered K f data = c_loop (write_step K) (data, f)"

definition FlushBuffer :: "'k posix \<Rightarrow> 'k PosixWritableFile \<Rightarrow> (Status \<times> 'k PosixWritableFile) option" where
  "FlushBuffer K f =
     (case WriteUnbuffered K f (w_buf f) of None \<Rightarrow> None
      | Some (status, f) \<Rightarrow> Some (status, f\<lparr>w_buf := []\<rparr>))"

definition PosixWritableFile_Append ::
  "'k posix \<Rightarrow> 'k PosixWritableFile \<Rightarrow> slice \<Rightarrow> (Status \<times> 'k PosixWritableFile) option" where
  "PosixWritableFile_Append K f data =
     (let write_size = length data;
          copy_size = min write_size (kWritableFileBufferSize - length (w_buf f));
          f = f\<lparr>w_buf := w_buf f @ take copy_size data\<rparr>;
          write_data = drop copy_size data;
          write_size = write_size - copy_size
      in if write_size = 0 then Some (status_OK, f)
         else (case FlushBuffer K f of None \<Rightarrow> None
           | Some (status, f) \<Rightarrow>
               if \<not> status_ok status then Some (status, f)
               else if write_size < kWritableFileBufferSize then
                 Some (status_OK, f\<lparr>w_buf := write_data\<rparr>)
               else WriteUnbuffered K f write_data))"

definition PosixWritableFile_Close ::
  "'k posix \<Rightarrow> 'k PosixWritableFile \<Rightarrow> (Status \<times> 'k PosixWritableFile) option" where
  "PosixWritableFile_Close K f =
     (case FlushBuffer K f of None \<Rightarrow> None
      | Some (status, f) \<Rightarrow>
          (case sys_close K (w_kernel f) (w_fd f) of (close_result, errno, k) \<Rightarrow>
             let status = (if close_result < 0 \<and> status_ok status
                           then PosixError K (w_filename f) errno else status)
             in Some (status, f\<lparr>w_fd := -1, w_kernel := k\<rparr>)))"

definition PosixWritableFile_Flush ::
  "'k posix \<Rightarrow> 'k PosixWritableFile \<Rightarrow> (Status \<times> 'k PosixWritableFile) option" where
  "PosixWritableFile_Flush K f = FlushBuffer K f"

text \<open>\<open>HAVE_FULLFSYNC=1\<close>, no \<open>HAVE_FDATASYNC\<close>.\<close>

definition SyncFd :: "'k posix \<Rightarrow> 'k \<Rightarrow> int \<Rightarrow> u8 list \<Rightarrow> Status \<times> 'k" where
  "SyncFd K k fd fd_path =
     (case sys_fullfsync K k fd of (r, errno, k) \<Rightarrow>
        if r = 0 then (status_OK, k)
        else (case sys_fsync K k fd of (r, errno, k) \<Rightarrow>
          let sync_success = (r = 0) in
          if sync_success then (status_OK, k) else (PosixError K fd_path errno, k)))"

definition SyncDirIfManifest :: "'k posix \<Rightarrow> 'k PosixWritableFile \<Rightarrow> Status \<times> 'k PosixWritableFile" where
  "SyncDirIfManifest K f =
     (if \<not> w_is_manifest f then (status_OK, f)
      else (case sys_open_rdonly K (w_kernel f) (w_dirname f) of (fd, errno, k) \<Rightarrow>
        if fd < 0 then (PosixError K (w_dirname f) errno, f\<lparr>w_kernel := k\<rparr>)
        else (case SyncFd K k fd (w_dirname f) of (status, k) \<Rightarrow>
          (case sys_close K k fd of (r, errno, k) \<Rightarrow> (status, f\<lparr>w_kernel := k\<rparr>)))))"

definition PosixWritableFile_Sync ::
  "'k posix \<Rightarrow> 'k PosixWritableFile \<Rightarrow> (Status \<times> 'k PosixWritableFile) option" where
  "PosixWritableFile_Sync K f =
     (case SyncDirIfManifest K f of (status, f) \<Rightarrow>
        if \<not> status_ok status then Some (status, f)
        else (case FlushBuffer K f of None \<Rightarrow> None
          | Some (status, f) \<Rightarrow>
              if \<not> status_ok status then Some (status, f)
              else (case SyncFd K (w_kernel f) (w_fd f) (w_filename f) of (status, k) \<Rightarrow>
                Some (status, f\<lparr>w_kernel := k\<rparr>))))"

section \<open>Readable files\<close>

record 'k PosixSequentialFile =
  q_fd :: int
  q_filename :: "u8 list"
  q_kernel :: 'k

definition PosixSequentialFile_new :: "u8 list \<Rightarrow> int \<Rightarrow> 'k \<Rightarrow> 'k PosixSequentialFile" where
  "PosixSequentialFile_new filename fd k = \<lparr>q_fd = fd, q_filename = filename, q_kernel = k\<rparr>"

text \<open>The out parameter is left alone when the read fails: \<open>None\<close>.\<close>

definition read_step ::
  "'k posix \<Rightarrow> nat \<Rightarrow> 'k PosixSequentialFile \<Rightarrow>
   ((Status \<times> slice option \<times> 'k PosixSequentialFile) + 'k PosixSequentialFile) option" where
  "read_step K n f =
     (case sys_read K (q_kernel f) (q_fd f) n of (read_size, scratch, errno, k) \<Rightarrow>
        let f = f\<lparr>q_kernel := k\<rparr> in
        if read_size < 0 then
          if errno = EINTR then Some (Inr f)
          else Some (Inl (PosixError K (q_filename f) errno, None, f))
        else Some (Inl (status_OK, Some (take (nat read_size) scratch), f)))"

definition PosixSequentialFile_Read ::
  "'k posix \<Rightarrow> 'k PosixSequentialFile \<Rightarrow> nat \<Rightarrow> (Status \<times> slice option \<times> 'k PosixSequentialFile) option" where
  "PosixSequentialFile_Read K f n = c_loop (read_step K n) f"

definition PosixSequentialFile_Skip ::
  "'k posix \<Rightarrow> 'k PosixSequentialFile \<Rightarrow> u64 \<Rightarrow> Status \<times> 'k PosixSequentialFile" where
  "PosixSequentialFile_Skip K f n =
     (case sys_lseek_cur K (q_kernel f) (q_fd f) n of (r, errno, k) \<Rightarrow>
        let f = f\<lparr>q_kernel := k\<rparr> in
        if r = -1 then (PosixError K (q_filename f) errno, f) else (status_OK, f))"

text \<open>Random access: through a descriptor, opened for every read when the limiter gave none.\<close>

record PosixRandomAccessFile =
  has_permanent_fd :: bool
  ra_fd :: int
  ra_filename :: "u8 list"

definition PosixRandomAccessFile_new ::
  "'k posix \<Rightarrow> 'k \<Rightarrow> int \<Rightarrow> u8 list \<Rightarrow> int \<Rightarrow> PosixRandomAccessFile \<times> int \<times> 'k" where
  "PosixRandomAccessFile_new K k fd_limiter filename fd =
     (let (perm, fd_limiter) = Limiter_Acquire fd_limiter;
          f = \<lparr>has_permanent_fd = perm, ra_fd = (if perm then fd else -1), ra_filename = filename\<rparr>;
          k = (if perm then k else (case sys_close K k fd of (r, errno, k) \<Rightarrow> k))
      in (f, fd_limiter, k))"

definition PosixRandomAccessFile_Read ::
  "'k posix \<Rightarrow> 'k \<Rightarrow> PosixRandomAccessFile \<Rightarrow> u64 \<Rightarrow> nat \<Rightarrow> (Status \<times> slice option \<times> 'k) option" where
  "PosixRandomAccessFile_Read K k f offset n =
     (let (fd, errno, k) = (if \<not> has_permanent_fd f then sys_open_rdonly K k (ra_filename f)
                            else (ra_fd f, 0, k))
      in if \<not> has_permanent_fd f \<and> fd < 0 then Some (PosixError K (ra_filename f) errno, None, k)
         else if fd = -1 then None
         else (case sys_pread K k fd n offset of (read_size, scratch, errno, k) \<Rightarrow>
           let result = (if read_size < 0 then [] else take (nat read_size) scratch);
               status = (if read_size < 0 then PosixError K (ra_filename f) errno else status_OK);
               k = (if \<not> has_permanent_fd f then (case sys_close K k fd of (r, errno, k) \<Rightarrow> k) else k)
           in Some (status, Some result, k)))"

record PosixMmapReadableFile =
  mmap_base :: "u8 list"
  mm_filename :: "u8 list"

text \<open>
  The sum \<open>offset + n\<close> is computed in 64 bits; a result slice that reaches outside the mapping is
  undefined, \<open>None\<close>.
\<close>

definition PosixMmapReadableFile_Read ::
  "'k posix \<Rightarrow> PosixMmapReadableFile \<Rightarrow> u64 \<Rightarrow> u64 \<Rightarrow> (Status \<times> slice) option" where
  "PosixMmapReadableFile_Read K f offset n =
     (if offset + n > word_of_nat (length (mmap_base f)) then Some (PosixError K (mm_filename f) EINVAL, [])
      else if unat offset + unat n \<le> length (mmap_base f) then
        Some (status_OK, take (unat n) (drop (unat offset) (mmap_base f)))
      else None)"

section \<open>The file interfaces\<close>

text \<open>
  The virtual methods of \<open>WritableFile\<close> and \<open>SequentialFile\<close> the log uses, over the state of the
  file object.
\<close>

record 'f writable_ops =
  Append :: "'f \<Rightarrow> slice \<Rightarrow> (Status \<times> 'f) option"
  Flush :: "'f \<Rightarrow> (Status \<times> 'f) option"

record 'q sequential_ops =
  Read :: "'q \<Rightarrow> nat \<Rightarrow> (Status \<times> slice option \<times> 'q) option"
  Skip :: "'q \<Rightarrow> u64 \<Rightarrow> Status \<times> 'q"

definition posix_writable :: "'k posix \<Rightarrow> 'k PosixWritableFile writable_ops" where
  "posix_writable K = \<lparr>Append = PosixWritableFile_Append K, Flush = PosixWritableFile_Flush K\<rparr>"

definition posix_sequential :: "'k posix \<Rightarrow> 'k PosixSequentialFile sequential_ops" where
  "posix_sequential K = \<lparr>Read = PosixSequentialFile_Read K, Skip = PosixSequentialFile_Skip K\<rparr>"

end
