(* ===== verification/LDB_Coding.thy ===== *)
theory LDB_Coding
  imports LDB_Slice
begin

text \<open>
  LevelDB: \<open>util/coding.cc\<close> and \<open>util/coding.h\<close>.  A destination pointer \<open>char* dst\<close> is the list of
  bytes written from it on, a pair of pointers \<open>p, limit\<close> is the list of bytes between them, and
  the pointer a \<open>Get\<close> routine returns is the list of bytes from it to \<open>limit\<close>; \<open>nullptr\<close> is \<open>None\<close>.
  The lemmas give every routine's result in terms of the formats of \<open>Varint_Format\<close>.
\<close>

section \<open>Fixed-width integers\<close>

text \<open>\<open>memcpy(&result, ptr, n)\<close>: the \<open>n\<close> bytes at a pointer; bytes behind its object are unspecified.\<close>

definition load :: "nat \<Rightarrow> u8 list \<Rightarrow> u8 list" where
  "load n ptr = map (\<lambda>i. ptr ! i) [0..<n]"

definition EncodeFixed32 :: "u32 \<Rightarrow> u8 list" where
  "EncodeFixed32 v =
     (if kLittleEndian then bytes_le 4 v
      else [ucast (v AND 0xff), ucast (drop_bit 8 v AND 0xff),
            ucast (drop_bit 16 v AND 0xff), ucast (drop_bit 24 v AND 0xff)])"

definition EncodeFixed64 :: "u64 \<Rightarrow> u8 list" where
  "EncodeFixed64 v =
     (if kLittleEndian then bytes_le 8 v
      else [ucast (v AND 0xff), ucast (drop_bit 8 v AND 0xff),
            ucast (drop_bit 16 v AND 0xff), ucast (drop_bit 24 v AND 0xff),
            ucast (drop_bit 32 v AND 0xff), ucast (drop_bit 40 v AND 0xff),
            ucast (drop_bit 48 v AND 0xff), ucast (drop_bit 56 v AND 0xff)])"

definition PutFixed32 :: "u8 list \<Rightarrow> u32 \<Rightarrow> u8 list" where
  "PutFixed32 dst v = dst @ EncodeFixed32 v"

definition PutFixed64 :: "u8 list \<Rightarrow> u64 \<Rightarrow> u8 list" where
  "PutFixed64 dst v = dst @ EncodeFixed64 v"

text \<open>The callers give four or eight bytes; on a shorter list the value is unspecified.\<close>

definition DecodeFixed32 :: "u8 list \<Rightarrow> u32" where
  "DecodeFixed32 ptr =
     (if kLittleEndian then word_le (load 4 ptr)
      else ucast (ptr ! 0) OR push_bit 8 (ucast (ptr ! 1)) OR
           push_bit 16 (ucast (ptr ! 2)) OR push_bit 24 (ucast (ptr ! 3)))"

definition DecodeFixed64 :: "u8 list \<Rightarrow> u64" where
  "DecodeFixed64 ptr =
     (if kLittleEndian then word_le (load 8 ptr)
      else let lo = ucast (DecodeFixed32 ptr); hi = ucast (DecodeFixed32 (drop 4 ptr))
           in push_bit 32 hi OR lo)"

section \<open>Variable-width integers\<close>

definition EncodeVarint32 :: "u32 \<Rightarrow> u8 list" where
  "EncodeVarint32 v =
     (if v < push_bit 7 1 then [ucast v]
      else if v < push_bit 14 1 then [ucast (v OR 128), ucast (drop_bit 7 v)]
      else if v < push_bit 21 1 then
        [ucast (v OR 128), ucast (drop_bit 7 v OR 128), ucast (drop_bit 14 v)]
      else if v < push_bit 28 1 then
        [ucast (v OR 128), ucast (drop_bit 7 v OR 128), ucast (drop_bit 14 v OR 128),
         ucast (drop_bit 21 v)]
      else
        [ucast (v OR 128), ucast (drop_bit 7 v OR 128), ucast (drop_bit 14 v OR 128),
         ucast (drop_bit 21 v OR 128), ucast (drop_bit 28 v)])"

definition PutVarint32 :: "u8 list \<Rightarrow> u32 \<Rightarrow> u8 list" where
  "PutVarint32 dst v = dst @ EncodeVarint32 v"

lemma drop7_less: "128 \<le> v \<Longrightarrow> unat (drop_bit 7 v) < unat v" for v :: u64
proof -
  assume "128 \<le> v"
  then have "128 \<le> unat v" by (simp add: word_le_nat_alt)
  then show ?thesis by (simp add: unat_drop7)
qed

function EncodeVarint64 :: "u64 \<Rightarrow> u8 list" where
  "EncodeVarint64 v =
     (if 128 \<le> v then ucast (v OR 128) # EncodeVarint64 (drop_bit 7 v) else [ucast v])"
  by pat_completeness auto
termination by (relation "measure unat") (auto intro: drop7_less)

declare EncodeVarint64.simps [simp del]

definition PutVarint64 :: "u8 list \<Rightarrow> u64 \<Rightarrow> u8 list" where
  "PutVarint64 dst v = dst @ EncodeVarint64 v"

text \<open>The size of the slice is a 64-bit number that the call of \<open>PutVarint32\<close> truncates.\<close>

definition PutLengthPrefixedSlice :: "u8 list \<Rightarrow> slice \<Rightarrow> u8 list" where
  "PutLengthPrefixedSlice dst s = PutVarint32 dst (word_of_nat (length s)) @ s"

function VarintLength_loop :: "u64 \<Rightarrow> nat \<Rightarrow> nat" where
  "VarintLength_loop v len = (if 128 \<le> v then VarintLength_loop (drop_bit 7 v) (len + 1) else len)"
  by pat_completeness auto
termination by (relation "measure (\<lambda>(v, len). unat v)") (auto intro: drop7_less)

declare VarintLength_loop.simps [simp del]

definition VarintLength :: "u64 \<Rightarrow> nat" where
  "VarintLength v = VarintLength_loop v 1"

text \<open>
  The loop of \<open>GetVarint32PtrFallback\<close> (last shift 28) and of \<open>GetVarint64Ptr\<close> (last shift 63).
\<close>

fun get_varint_loop :: "u32 \<Rightarrow> u32 \<Rightarrow> 'a::len word \<Rightarrow> u8 list \<Rightarrow> ('a word \<times> u8 list) option" where
  "get_varint_loop last_shift shift result [] = None"
| "get_varint_loop last_shift shift result (b # p) =
     (if shift \<le> last_shift then
        let byte = ucast b in
        if byte AND 128 \<noteq> 0 then
          get_varint_loop last_shift (shift + 7) (result OR push_bit (unat shift) (byte AND 127)) p
        else Some (result OR push_bit (unat shift) byte, p)
      else None)"

definition GetVarint32PtrFallback :: "u8 list \<Rightarrow> (u32 \<times> u8 list) option" where
  "GetVarint32PtrFallback p = get_varint_loop 28 0 0 p"

definition GetVarint32Ptr :: "u8 list \<Rightarrow> (u32 \<times> u8 list) option" where
  "GetVarint32Ptr p =
     (case p of b # p' \<Rightarrow>
        let result = ucast b :: u32 in
        if result AND 128 = 0 then Some (result, p') else GetVarint32PtrFallback p
      | [] \<Rightarrow> GetVarint32PtrFallback p)"

definition GetVarint64Ptr :: "u8 list \<Rightarrow> (u64 \<times> u8 list) option" where
  "GetVarint64Ptr p = get_varint_loop 63 0 0 p"

text \<open>The slice variants; the second component is the input slice afterwards.\<close>

definition GetVarint32 :: "slice \<Rightarrow> (u32 option \<times> slice)" where
  "GetVarint32 input = (case GetVarint32Ptr input of None \<Rightarrow> (None, input) | Some (v, q) \<Rightarrow> (Some v, q))"

definition GetVarint64 :: "slice \<Rightarrow> (u64 option \<times> slice)" where
  "GetVarint64 input = (case GetVarint64Ptr input of None \<Rightarrow> (None, input) | Some (v, q) \<Rightarrow> (Some v, q))"

definition GetLengthPrefixedSlicePtr :: "u8 list \<Rightarrow> (slice \<times> u8 list) option" where
  "GetLengthPrefixedSlicePtr p =
     (case GetVarint32Ptr p of None \<Rightarrow> None
      | Some (len, p) \<Rightarrow> if unat len > length p then None else Some (take (unat len) p, drop (unat len) p))"

definition GetLengthPrefixedSlice :: "slice \<Rightarrow> (slice option \<times> slice)" where
  "GetLengthPrefixedSlice input =
     (case GetVarint32 input of
        (Some len, input) \<Rightarrow>
          if length input \<ge> unat len then (Some (take (unat len) input), remove_prefix input (unat len))
          else (None, input)
      | (None, input) \<Rightarrow> (None, input))"

section \<open>Fixed-width integers: round trips\<close>

lemma load_eq: "n \<le> length ptr \<Longrightarrow> load n ptr = take n ptr"
  unfolding load_def by (rule nth_equalityI) simp_all

lemma kLittleEndian [simp]: "kLittleEndian" by (simp add: kLittleEndian_def)

text \<open>Both branches of the encoders write the same bytes: the format does not depend on the machine.\<close>

lemma EncodeFixed32_portable:
  "EncodeFixed32 v = [ucast (v AND 0xff), ucast (drop_bit 8 v AND 0xff),
     ucast (drop_bit 16 v AND 0xff), ucast (drop_bit 24 v AND 0xff)]"
  by (simp add: EncodeFixed32_def)

lemma EncodeFixed32_eq: "EncodeFixed32 v = bytes_le 4 v"
  by (simp add: EncodeFixed32_def)

lemma EncodeFixed64_eq: "EncodeFixed64 v = bytes_le 8 v"
  by (simp add: EncodeFixed64_def)

lemma length_EncodeFixed [simp]:
  "length (EncodeFixed32 v) = 4" "length (EncodeFixed64 w) = 8"
  by (simp_all add: EncodeFixed32_eq EncodeFixed64_eq del: bytes_le_numeral)

lemma DecodeFixed32_eq: "4 \<le> length p \<Longrightarrow> DecodeFixed32 p = word_le (take 4 p)"
  by (simp add: DecodeFixed32_def load_eq)

lemma DecodeFixed64_eq: "8 \<le> length p \<Longrightarrow> DecodeFixed64 p = word_le (take 8 p)"
  by (simp add: DecodeFixed64_def load_eq)

lemma Fixed32_roundtrip [simp]: "DecodeFixed32 (EncodeFixed32 v @ rest) = v"
  by (simp add: DecodeFixed32_eq) (simp add: EncodeFixed32_eq del: bytes_le_numeral)

lemma Fixed64_roundtrip [simp]: "DecodeFixed64 (EncodeFixed64 v @ rest) = v"
  by (simp add: DecodeFixed64_eq) (simp add: EncodeFixed64_eq del: bytes_le_numeral)

text \<open>Arrays of 32-bit numbers.\<close>

definition fixed32s :: "u32 list \<Rightarrow> u8 list" where
  "fixed32s ws = concat (map EncodeFixed32 ws)"

lemma fixed32s_simps [simp]:
  "fixed32s [] = []" "fixed32s (w # ws) = EncodeFixed32 w @ fixed32s ws"
  "fixed32s (ws @ vs) = fixed32s ws @ fixed32s vs"
  by (simp_all add: fixed32s_def)

lemma length_fixed32s [simp]: "length (fixed32s ws) = 4 * length ws"
  by (induction ws) simp_all

lemma drop_fixed32s: "j < length ws \<Longrightarrow> drop (4 * j) (fixed32s ws) = EncodeFixed32 (ws ! j) @ fixed32s (drop (Suc j) ws)"
proof (induction ws arbitrary: j)
  case (Cons w ws)
  then show ?case by (cases j) simp_all
qed simp

lemma foldl_PutFixed32: "foldl PutFixed32 buf ws = buf @ fixed32s ws"
  by (induction ws arbitrary: buf) (simp_all add: PutFixed32_def)

section \<open>Varints: the encoders emit the format\<close>

lemma ucast_low8: "(ucast v :: u8) = word_of_nat (unat v mod 256)" for v :: "'a::len word"
  by (simp add: word_unat_eq_iff unsigned_ucast_eq take_bit_eq_mod unsigned_of_nat)

lemma ucast_or128: "(ucast (v OR 128) :: u8) = word_of_nat (unat v mod 128 + 128)"
  if "8 \<le> LENGTH('a)" for v :: "'a::len word"
proof -
  have "(ucast (v OR 128) :: u8) = ucast v OR 128"
    by (rule bit_word_eqI) (use that in \<open>auto simp: bit_simps\<close>)
  moreover have "(ucast v :: u8) OR 128 = (ucast v AND 0x7F) OR 128"
  proof -
    have "((ucast v :: u8) AND 0x7F) OR 128 = (ucast v OR 128) AND (0x7F OR 128)"
      by (rule bit.disj_conj_distrib2)
    moreover have "w AND (0x7F OR 128) = w" for w :: u8
    proof -
      have "w AND mask 8 = w" by (simp add: take_bit_eq_mask [symmetric] take_bit_word_eq_self)
      then show ?thesis by (simp add: mask_eq_exp_minus_1)
    qed
    ultimately show ?thesis by (simp only:)
  qed
  moreover have "(ucast v AND 0x7F :: u8) OR 128 = (ucast v AND 0x7F) + 128"
    by (rule or80) (simp add: u8_low7)
  moreover have "unat (ucast v AND 0x7F :: u8) = unat v mod 128"
    by (simp add: u8_low7 unsigned_ucast_eq take_bit_eq_mod mod_mod_cancel)
  ultimately show ?thesis
    by (simp add: word_unat_eq_iff unat_word_ariths unsigned_of_nat take_bit_eq_mod)
qed

lemma varint_bytes_more: "128 \<le> n \<Longrightarrow> varint_bytes n = word_of_nat (n mod 128 + 128) # varint_bytes (n div 128)"
  by (subst varint_bytes.simps) simp

lemma varint_bytes_last: "n < 128 \<Longrightarrow> varint_bytes n = [word_of_nat n]"
  by (subst varint_bytes.simps) simp

lemma EncodeVarint64_eq: "EncodeVarint64 v = varint_bytes (unat v)"
proof (induction v rule: EncodeVarint64.induct)
  case (1 v)
  show ?case
  proof (cases "128 \<le> v")
    case True
    with 1 show ?thesis
      by (subst EncodeVarint64.simps)
        (simp add: varint_bytes_more word_le_nat_alt unat_drop7 ucast_or128)
  next
    case False
    then have "unat v < 128" by (simp add: word_le_nat_alt)
    with False show ?thesis
      by (subst EncodeVarint64.simps) (simp add: varint_bytes_last of_nat_unat)
  qed
qed

text \<open>The five branches of the 32-bit encoder over natural numbers.\<close>

lemma EncodeVarint32_nat:
  fixes n :: nat and hi lo :: "nat \<Rightarrow> u8"
  assumes n: "n = unat v"
  defines "hi m \<equiv> word_of_nat (m mod 128 + 128)" and "lo m \<equiv> word_of_nat (m mod 256)"
  shows "EncodeVarint32 v =
    (let n1 = n div 128; n2 = n1 div 128; n3 = n2 div 128; n4 = n3 div 128
     in if n < 2 ^ 7 then [lo n] else if n < 2 ^ 14 then [hi n, lo n1]
     else if n < 2 ^ 21 then [hi n, hi n1, lo n2]
     else if n < 2 ^ 28 then [hi n, hi n1, hi n2, lo n3]
     else [hi n, hi n1, hi n2, hi n3, lo n4])"
proof -
  have lt: "v < push_bit 7 1 \<longleftrightarrow> n < 2 ^ 7" "v < push_bit 14 1 \<longleftrightarrow> n < 2 ^ 14"
    "v < push_bit 21 1 \<longleftrightarrow> n < 2 ^ 21" "v < push_bit 28 1 \<longleftrightarrow> n < 2 ^ 28"
    by (simp_all add: word_less_nat_alt n)
  have or128: "(ucast (w OR 128) :: u8) = hi (unat w)" for w :: u32
    unfolding hi_def by (rule ucast_or128) simp
  have low8: "(ucast w :: u8) = lo (unat w)" for w :: u32
    unfolding lo_def by (rule ucast_low8)
  have dd: "n div 2 ^ 14 = n div 128 div 128" "n div 2 ^ 21 = n div 128 div 128 div 128"
    "n div 2 ^ 28 = n div 128 div 128 div 128 div 128" "n div 2 ^ 7 = n div 128"
    by (simp_all add: div_mult2_eq [symmetric])
  show ?thesis
    unfolding EncodeVarint32_def lt or128 unfolding low8 unat_drop_bit n [symmetric] Let_def dd ..
qed

lemma EncodeVarint32_eq: "EncodeVarint32 v = varint_bytes (unat v)"
proof -
  define n where "n = unat v"
  have n: "n < 2 ^ 32" using unat_u32_less [of v] by (simp add: n_def)
  have lt: "a < b * 128 \<longleftrightarrow> a div 128 < b" for a b :: nat
    by (simp add: div_less_iff_less_mult)
  define n1 n2 n3 n4 where d: "n1 = n div 128" "n2 = n1 div 128" "n3 = n2 div 128" "n4 = n3 div 128"
  have b: "n < 2 ^ 14 \<longleftrightarrow> n1 < 128" "n < 2 ^ 21 \<longleftrightarrow> n2 < 128" "n < 2 ^ 28 \<longleftrightarrow> n3 < 128"
    unfolding d lt [symmetric] by simp_all
  have n4: "n4 < 128" using n unfolding d lt [symmetric] by simp
  have "(if n < 2 ^ 7 then [word_of_nat (n mod 256)] else if n < 2 ^ 14 then [word_of_nat (n mod 128 + 128), word_of_nat (n1 mod 256)]
     else if n < 2 ^ 21 then [word_of_nat (n mod 128 + 128), word_of_nat (n1 mod 128 + 128), word_of_nat (n2 mod 256)]
     else if n < 2 ^ 28 then [word_of_nat (n mod 128 + 128), word_of_nat (n1 mod 128 + 128), word_of_nat (n2 mod 128 + 128), word_of_nat (n3 mod 256)]
     else [word_of_nat (n mod 128 + 128), word_of_nat (n1 mod 128 + 128), word_of_nat (n2 mod 128 + 128), word_of_nat (n3 mod 128 + 128), word_of_nat (n4 mod 256)])
    = varint_bytes n"
    unfolding b using n4
    by (simp add: varint_bytes.simps [of n] varint_bytes.simps [of n1] varint_bytes.simps [of n2] varint_bytes.simps [of n3]
     varint_bytes.simps [of n4] flip: d)
  then show ?thesis
    unfolding EncodeVarint32_nat [OF n_def] n_def [symmetric] Let_def d .
qed

lemma VarintLength_loop_eq: "VarintLength_loop v k + 1 = k + length (varint_bytes (unat v))"
proof (induction v k rule: VarintLength_loop.induct)
  case (1 v k)
  show ?case
  proof (cases "128 \<le> v")
    case True
    with 1 show ?thesis
      by (subst VarintLength_loop.simps) (simp add: varint_bytes_more word_le_nat_alt unat_drop7)
  next
    case False
    then have "unat v < 128" by (simp add: word_le_nat_alt)
    with False show ?thesis by (subst VarintLength_loop.simps) (simp add: varint_bytes_last)
  qed
qed

lemma VarintLength_eq: "VarintLength v = length (varint_bytes (unat v))"
  using VarintLength_loop_eq [of v 1] by (simp add: VarintLength_def)

section \<open>Varints: the decoders invert the format\<close>

lemma get_varint_loop_eq:
  assumes "v < 2 ^ (7 * k)" "unat last_shift < 100" "8 \<le> LENGTH('a)" "k \<le> unat last_shift div 7 + 1"
  shows "get_varint_loop last_shift (word_of_nat (7 * k)) (word_of_nat v :: 'a::len word) p =
    (case varint_prefix (take (unat last_shift div 7 + 1 - k) p) of None \<Rightarrow> None
     | Some q \<Rightarrow> Some (word_of_nat (v + 2 ^ (7 * k) * varint_value q), drop (length q) p))"
  using assms(1,4)
proof (induction p arbitrary: k v)
  case (Cons b p)
  let ?L = "unat last_shift div 7 + 1"
  let ?w = "v + 2 ^ (7 * k) * (unat b mod 128)"
  have sh: "unat (word_of_nat (7 * k) :: u32) = 7 * k"
    using Cons.prems(2) assms(2) by (intro unat_of_nat_32 le_less_trans [of "7 * k" 200]) auto
  show ?case
  proof (cases "k = ?L")
    case True
    then have "\<not> (word_of_nat (7 * k) :: u32) \<le> last_shift"
      unfolding word_le_nat_alt sh by linarith
    with True show ?thesis by simp
  next
    case False
    with Cons.prems(2) have k: "k \<le> unat last_shift div 7" by linarith
    then have le: "(word_of_nat (7 * k) :: u32) \<le> last_shift"
      unfolding word_le_nat_alt sh by linarith
    have tk: "take (?L - k) (b # p) = b # take (?L - Suc k) p"
      using k by (simp add: Suc_diff_le)
    have low: "(ucast b AND 127 :: 'a word) = word_of_nat (unat b mod 128)"
    proof -
      have "(ucast b AND 127 :: 'a word) = ucast (b AND 0x7F)"
        by (rule bit_word_eqI) (auto simp: bit_simps dest: bit_imp_le_length)
      then show ?thesis by (simp add: low7_of_nat)
    qed
    have hi: "(ucast b AND 128 :: 'a word) = 0 \<longleftrightarrow> unat b < 128"
    proof -
      have "(ucast b AND 128 :: 'a word) = ucast (b AND 0x80)"
        by (rule bit_word_eqI) (auto simp: bit_simps dest: bit_imp_le_length)
      moreover have "(ucast w :: 'a word) = 0 \<longleftrightarrow> w = 0" for w :: u8
      proof -
        have "ucast (ucast w :: 'a word) = w" using assms(3) by (simp add: ucast_up_ucast_id is_up)
        then show ?thesis by (metis ucast_0)
      qed
      ultimately show ?thesis by (simp add: u8_high)
    qed
    have upd: "word_of_nat v OR push_bit (7 * k) (word_of_nat m) = (word_of_nat (v + 2 ^ (7 * k) * m) :: 'a word)"
      for m using or_push_bit [OF Cons.prems(1)] .
    show ?thesis
    proof (cases "unat b < 128")
      case True
      then show ?thesis
        unfolding get_varint_loop.simps Let_def tk sh
        using le hi upd [of "unat b"] by (simp add: of_nat_unat)
    next
      case False
      have "unat b mod 128 < 128" by simp
      then have "v + 2 ^ (7 * k) * (unat b mod 128) < 2 ^ (7 * k) + 2 ^ (7 * k) * 127"
        using Cons.prems(1) by (intro add_less_le_mono mult_le_mono) linarith+
      then have v: "?w < 2 ^ (7 * Suc k)" by (simp add: power_add)
      have nxt: "word_of_nat (7 * k) + 7 = (word_of_nat (7 * Suc k) :: u32)" by simp
      have "Suc k \<le> ?L" using k by simp
      note IH = Cons.IH [OF v this]
      show ?thesis
        unfolding get_varint_loop.simps Let_def low upd sh nxt IH tk
        using le False by (auto simp: hi power_add algebra_simps split: option.splits)
    qed
  qed
qed simp

lemma GetVarint64Ptr_eq:
  "GetVarint64Ptr p = (case varint_prefix (take 10 p) of None \<Rightarrow> None
     | Some q \<Rightarrow> Some (word_of_nat (varint_value q), drop (length q) p))"
  using get_varint_loop_eq [of 0 0 63, where 'a = 64]
  by (simp add: GetVarint64Ptr_def split: option.splits)

lemma GetVarint32Ptr_eq:
  "GetVarint32Ptr p = (case varint_prefix (take 5 p) of None \<Rightarrow> None
     | Some q \<Rightarrow> Some (word_of_nat (varint_value q), drop (length q) p))"
proof -
  have fallback: "GetVarint32PtrFallback p = (case varint_prefix (take 5 p) of None \<Rightarrow> None
     | Some q \<Rightarrow> Some (word_of_nat (varint_value q), drop (length q) p))"
    using get_varint_loop_eq [of 0 0 28, where 'a = 32]
    by (simp add: GetVarint32PtrFallback_def split: option.splits)
  have "GetVarint32Ptr p = GetVarint32PtrFallback p"
    by (auto simp: GetVarint32Ptr_def GetVarint32PtrFallback_def Let_def split: list.splits)
  then show ?thesis using fallback by simp
qed

lemma GetVarint32Ptr_bytes [simp]: "GetVarint32Ptr (EncodeVarint32 v @ rest) = Some (v, rest)"
  using varint_length_u32 [of v] by (simp add: GetVarint32Ptr_eq EncodeVarint32_eq)

lemma GetVarint64Ptr_bytes [simp]: "GetVarint64Ptr (EncodeVarint64 v @ rest) = Some (v, rest)"
  using varint_length_u64 [of v] by (simp add: GetVarint64Ptr_eq EncodeVarint64_eq)

lemma GetVarint32_bytes [simp]: "GetVarint32 (EncodeVarint32 v @ rest) = (Some v, rest)"
  by (simp add: GetVarint32_def)

lemma GetVarint64_bytes [simp]: "GetVarint64 (EncodeVarint64 v @ rest) = (Some v, rest)"
  by (simp add: GetVarint64_def)

lemma GetLengthPrefixedSlice_bytes [simp]:
  assumes "length s < 2 ^ 32"
  shows "GetLengthPrefixedSlice (PutLengthPrefixedSlice [] s @ rest) = (Some s, rest)"
  using unat_of_nat_32 [OF assms]
  by (simp add: GetLengthPrefixedSlice_def PutLengthPrefixedSlice_def PutVarint32_def remove_prefix_def)

lemma PutLengthPrefixedSlice_append:
  "PutLengthPrefixedSlice dst s = dst @ PutLengthPrefixedSlice [] s"
  by (simp add: PutLengthPrefixedSlice_def PutVarint32_def)

lemma varint_prefix_drop:
  "varint_prefix (take k input) = Some q \<Longrightarrow> input = q @ drop (length q) input \<and> 0 < length q \<and> length q \<le> k"
  using varint_prefix_split [of "take k input" q] varint_prefix_length [of "take k input" q]
  by (metis append_eq_conv_conj append_take_drop_id length_take min.bounded_iff take_take min.absorb1)

lemma GetVarint_suffix:
  "GetVarint32 input = (Some v, rest) \<Longrightarrow> \<exists>p. input = p @ rest \<and> 0 < length p \<and> length p \<le> 5"
  "GetVarint64 input = (Some w, rest) \<Longrightarrow> \<exists>p. input = p @ rest \<and> 0 < length p \<and> length p \<le> 10"
  by (auto simp: GetVarint32_def GetVarint64_def GetVarint32Ptr_eq GetVarint64Ptr_eq
      split: option.splits dest: varint_prefix_drop)

section \<open>Properties\<close>

text \<open>
  C26: Every value survives its encoding, whatever bytes follow: fixed-width and variable-width
  integers of 32 and 64 bits, and length-prefixed byte strings shorter than 4 GB, read by the slice
  variant and by the pointer variant of the decoder.
\<close>

theorem coding_roundtrip:
  assumes "length s < 2 ^ 32"
  shows "DecodeFixed32 (PutFixed32 [] v @ rest) = v \<and> DecodeFixed64 (PutFixed64 [] w @ rest) = w \<and>
    GetVarint32 (PutVarint32 [] v @ rest) = (Some v, rest) \<and>
    GetVarint64 (PutVarint64 [] w @ rest) = (Some w, rest) \<and>
    GetLengthPrefixedSlice (PutLengthPrefixedSlice [] s @ rest) = (Some s, rest) \<and>
    GetLengthPrefixedSlicePtr (PutLengthPrefixedSlice [] s @ rest) = Some (s, rest)"
  using assms unat_of_nat_32 [OF assms]
  by (simp add: PutFixed32_def PutFixed64_def PutVarint32_def PutVarint64_def
      GetLengthPrefixedSlicePtr_def) (simp add: PutLengthPrefixedSlice_def PutVarint32_def)

lemma coding_roundtrip_witness:
  "GetLengthPrefixedSlice (PutLengthPrefixedSlice [] [1, 2, 3] @ [4]) = (Some [1, 2, 3], [4])"
  using coding_roundtrip [of "[1, 2, 3]" 0 "[4]" 0] by simp

text \<open>
  C27: The varint decoders on every input.  The 32-bit decoder looks at the first five bytes, the
  64-bit decoder at the first ten; when they hold no byte below 128 the input is refused unchanged,
  otherwise the result is the value of that varint modulo the word size and the input is advanced
  behind it.  \<open>VarintLength\<close> is the number of bytes the encoder writes, one to ten.
\<close>

theorem varint_behaviour:
  "GetVarint32 input = (case varint_prefix (take 5 input) of None \<Rightarrow> (None, input)
     | Some q \<Rightarrow> (Some (word_of_nat (varint_value q)), drop (length q) input)) \<and>
   GetVarint64 input = (case varint_prefix (take 10 input) of None \<Rightarrow> (None, input)
     | Some q \<Rightarrow> (Some (word_of_nat (varint_value q)), drop (length q) input)) \<and>
   VarintLength w = length (EncodeVarint64 w) \<and> VarintLength w \<in> {1..10}"
  using varint_length_u64 [of w]
  by (auto simp: GetVarint32_def GetVarint64_def GetVarint32Ptr_eq GetVarint64Ptr_eq VarintLength_eq
      EncodeVarint64_eq Suc_le_eq split: option.splits)

text \<open>
  The 32-bit decoder accepts five-byte varints of values that do not fit in 32 bits and drops
  the bits above the 31st: \<open>FF FF FF FF 7F\<close>, the value \<open>2 ^ 35 - 1\<close>, is read as \<open>2 ^ 32 - 1\<close>.
\<close>

lemma varint32_truncates:
  "GetVarint32 [255, 255, 255, 255, 127] = (Some 4294967295, []) \<and>
   GetVarint64 [255, 255, 255, 255, 127] = (Some 34359738367, [])"
  by (simp add: GetVarint32_def GetVarint64_def GetVarint32Ptr_eq GetVarint64Ptr_eq)

end
