(* ===== verification/LDB_Log.thy ===== *)
theory LDB_Log
  imports LDB_Env LDB_Crc32c
begin

text \<open>
  LevelDB: the record log, \<open>db/log_format.h\<close>, \<open>db/log_writer.cc\<close> and \<open>db/log_reader.cc\<close>, over the
  file interfaces of \<open>LDB_Env\<close>.  Failing assertions and file calls that do not return are \<open>None\<close>.
\<close>

section \<open>Format\<close>

definition kZeroType :: u32 where "kZeroType = 0"
definition kFullType :: u32 where "kFullType = 1"
definition kFirstType :: u32 where "kFirstType = 2"
definition kMiddleType :: u32 where "kMiddleType = 3"
definition kLastType :: u32 where "kLastType = 4"
definition kMaxRecordType :: u32 where "kMaxRecordType = kLastType"
definition kBlockSize :: nat where "kBlockSize = 32768"
definition kHeaderSize :: nat where "kHeaderSize = 4 + 2 + 1"

section \<open>Writer\<close>

record 'f Writer =
  dest :: 'f
  block_offset :: int
  type_crc :: "u32 list"

definition InitTypeCrc :: "u32 list" where
  "InitTypeCrc = map (\<lambda>i. crc32c_Value [word_of_nat i]) [0..<unat kMaxRecordType + 1]"

definition Writer_new :: "'f \<Rightarrow> 'f Writer" where
  "Writer_new d = \<lparr>dest = d, block_offset = 0, type_crc = InitTypeCrc\<rparr>"

definition Writer_append :: "'f \<Rightarrow> u64 \<Rightarrow> 'f Writer" where
  "Writer_append d dest_length =
     \<lparr>dest = d, block_offset = int (unat dest_length mod kBlockSize), type_crc = InitTypeCrc\<rparr>"

definition log_header :: "u32 list \<Rightarrow> u32 \<Rightarrow> slice \<Rightarrow> u8 list" where
  "log_header crcs t ptr =
     (let len = length ptr;
          crc = crc32c_Extend (crcs ! unat t) ptr;
          crc = Mask crc
      in EncodeFixed32 crc @ [word_of_nat len AND 0xff, word_of_nat (len div 2 ^ 8), ucast t])"

definition EmitPhysicalRecord ::
  "'f writable_ops \<Rightarrow> 'f Writer \<Rightarrow> u32 \<Rightarrow> slice \<Rightarrow> (Status \<times> 'f Writer) option" where
  "EmitPhysicalRecord F w t ptr =
     (if \<not> length ptr \<le> 0xffff then None
      else if \<not> block_offset w + int kHeaderSize + int (length ptr) \<le> int kBlockSize then None
      else
        let buf = log_header (type_crc w) t ptr in
        (case Append F (dest w) buf of None \<Rightarrow> None
         | Some (s, d) \<Rightarrow>
           (case (if status_ok s then
                    (case Append F d ptr of None \<Rightarrow> None
                     | Some (s, d) \<Rightarrow> if status_ok s then Flush F d else Some (s, d))
                  else Some (s, d)) of None \<Rightarrow> None
            | Some (s, d) \<Rightarrow>
                Some (s, w\<lparr>dest := d,
                  block_offset := block_offset w + (int kHeaderSize + int (length ptr))\<rparr>))))"

text \<open>
  One round of the loop of \<open>AddRecord\<close>: the state is the data left, \<open>begin\<close> and the writer.  The
  status of the \<open>Append\<close> that fills the trailer is not looked at.
\<close>

definition AddRecord_step ::
  "'f writable_ops \<Rightarrow> slice \<times> bool \<times> 'f Writer \<Rightarrow>
   ((Status \<times> 'f Writer) + (slice \<times> bool \<times> 'f Writer)) option" where
  "AddRecord_step F = (\<lambda>(ptr, begin, w).
     let leftover = int kBlockSize - block_offset w in
     if \<not> leftover \<ge> 0 then None
     else
       (case (if leftover < int kHeaderSize then
                (case (if leftover > 0 then
                         map_option snd (Append F (dest w) (take (nat leftover) [0, 0, 0, 0, 0, 0]))
                       else Some (dest w)) of None \<Rightarrow> None
                 | Some d \<Rightarrow> Some (w\<lparr>dest := d, block_offset := 0\<rparr>))
              else Some w) of None \<Rightarrow> None
        | Some w \<Rightarrow>
            if \<not> int kBlockSize - block_offset w - int kHeaderSize \<ge> 0 then None
            else
              let avail = nat (int kBlockSize - block_offset w - int kHeaderSize);
                  left = length ptr;
                  fragment_length = (if left < avail then left else avail);
                  end' = (left = fragment_length);
                  type = (if begin \<and> end' then kFullType else if begin then kFirstType
                          else if end' then kLastType else kMiddleType)
              in (case EmitPhysicalRecord F w type (take fragment_length ptr) of None \<Rightarrow> None
                  | Some (s, w) \<Rightarrow>
                      let ptr = drop fragment_length ptr in
                      if status_ok s \<and> length ptr > 0 then Some (Inr (ptr, False, w))
                      else Some (Inl (s, w)))))"

definition AddRecord ::
  "'f writable_ops \<Rightarrow> 'f Writer \<Rightarrow> slice \<Rightarrow> (Status \<times> 'f Writer) option" where
  "AddRecord F w rec = c_loop (AddRecord_step F) (rec, True, w)"

section \<open>Reader\<close>

text \<open>\<open>r_reporter\<close> is \<open>None\<close> for a null reporter, otherwise the calls of \<open>Corruption\<close> so far.\<close>

record 'q Reader =
  r_file :: 'q
  r_reporter :: "(u64 \<times> Status) list option"
  r_checksum :: bool
  r_buffer :: slice
  r_eof :: bool
  r_last_record_offset :: u64
  r_end_of_buffer_offset :: u64
  r_initial_offset :: u64
  r_resyncing :: bool

definition kEof :: u32 where "kEof = kMaxRecordType + 1"
definition kBadRecord :: u32 where "kBadRecord = kMaxRecordType + 2"

definition Reader_new :: "'q \<Rightarrow> (u64 \<times> Status) list option \<Rightarrow> bool \<Rightarrow> u64 \<Rightarrow> 'q Reader" where
  "Reader_new q reporter checksum initial_offset =
     \<lparr>r_file = q, r_reporter = reporter, r_checksum = checksum, r_buffer = [], r_eof = False,
      r_last_record_offset = 0, r_end_of_buffer_offset = 0, r_initial_offset = initial_offset,
      r_resyncing = initial_offset > 0\<rparr>"

definition ReportDrop :: "'q Reader \<Rightarrow> u64 \<Rightarrow> Status \<Rightarrow> 'q Reader" where
  "ReportDrop R bytes reason =
     (case r_reporter R of None \<Rightarrow> R
      | Some calls \<Rightarrow>
          if r_end_of_buffer_offset R - word_of_nat (length (r_buffer R)) - bytes \<ge> r_initial_offset R
          then R\<lparr>r_reporter := Some (calls @ [(bytes, reason)])\<rparr> else R)"

definition ReportCorruption :: "'q Reader \<Rightarrow> u64 \<Rightarrow> string \<Rightarrow> 'q Reader" where
  "ReportCorruption R bytes reason = ReportDrop R bytes (Corruption (chars reason) [])"

definition SkipToInitialBlock :: "'q sequential_ops \<Rightarrow> 'q Reader \<Rightarrow> bool \<times> 'q Reader" where
  "SkipToInitialBlock F R =
     (let offset_in_block = r_initial_offset R mod word_of_nat kBlockSize;
          block_start_location = r_initial_offset R - offset_in_block;
          block_start_location =
            (if offset_in_block > word_of_nat kBlockSize - 6
             then block_start_location + word_of_nat kBlockSize else block_start_location);
          R = R\<lparr>r_end_of_buffer_offset := block_start_location\<rparr>
      in if block_start_location > 0 then
           (case Skip F (r_file R) block_start_location of (skip_status, q) \<Rightarrow>
              let R = R\<lparr>r_file := q\<rparr> in
              if \<not> status_ok skip_status then (False, ReportDrop R block_start_location skip_status)
              else (True, R))
         else (True, R))"

text \<open>
  The loop of \<open>ReadPhysicalRecord\<close>; the state is the reader, the result the record type, the
  assignment to \<open>*result\<close> when there is one, and the reader.  The type byte is a signed \<open>char\<close>
  that is converted to \<open>unsigned int\<close>.
\<close>

definition parse_physical :: "'q Reader \<Rightarrow> u32 \<times> slice option \<times> 'q Reader" where
  "parse_physical R =
     (let header = r_buffer R;
          a = ucast (header ! 4) AND 0xff :: u32;
          b = ucast (header ! 5) AND 0xff :: u32;
          type = scast (header ! 6) :: u32;
          len = a OR push_bit 8 b
      in if kHeaderSize + unat len > length (r_buffer R) then
           let drop_size = length (r_buffer R); R = R\<lparr>r_buffer := []\<rparr> in
           if \<not> r_eof R then (kBadRecord, None, ReportCorruption R (word_of_nat drop_size) ''bad record length'')
           else (kEof, None, R)
         else if type = kZeroType \<and> len = 0 then (kBadRecord, None, R\<lparr>r_buffer := []\<rparr>)
         else if r_checksum R \<and>
             crc32c_Value (take (1 + unat len) (drop 6 header)) \<noteq> Unmask (DecodeFixed32 header) then
           let drop_size = length (r_buffer R); R = R\<lparr>r_buffer := []\<rparr> in
           (kBadRecord, None, ReportCorruption R (word_of_nat drop_size) ''checksum mismatch'')
         else
           let R = R\<lparr>r_buffer := remove_prefix (r_buffer R) (kHeaderSize + unat len)\<rparr> in
           if r_end_of_buffer_offset R - word_of_nat (length (r_buffer R)) - word_of_nat kHeaderSize - ucast len
              < r_initial_offset R then (kBadRecord, Some [], R)
           else (type, Some (take (unat len) (drop kHeaderSize header)), R))"

definition ReadPhysical_step ::
  "'q sequential_ops \<Rightarrow> 'q Reader \<Rightarrow> ((u32 \<times> slice option \<times> 'q Reader) + 'q Reader) option" where
  "ReadPhysical_step F R =
     (if length (r_buffer R) < kHeaderSize then
        if \<not> r_eof R then
          let R = R\<lparr>r_buffer := []\<rparr> in
          (case Read F (r_file R) kBlockSize of None \<Rightarrow> None
           | Some (status, result, q) \<Rightarrow>
               let buffer = (case result of None \<Rightarrow> [] | Some s \<Rightarrow> s);
                   R = R\<lparr>r_file := q, r_buffer := buffer,
                         r_end_of_buffer_offset := r_end_of_buffer_offset R + word_of_nat (length buffer)\<rparr>
               in if \<not> status_ok status then
                    let R = ReportDrop (R\<lparr>r_buffer := []\<rparr>) (word_of_nat kBlockSize) status in
                    Some (Inl (kEof, None, R\<lparr>r_eof := True\<rparr>))
                  else if length (r_buffer R) < kBlockSize then Some (Inr (R\<lparr>r_eof := True\<rparr>))
                  else Some (Inr R))
        else Some (Inl (kEof, None, R\<lparr>r_buffer := []\<rparr>))
      else Some (Inl (parse_physical R)))"

definition ReadPhysicalRecord ::
  "'q sequential_ops \<Rightarrow> 'q Reader \<Rightarrow> (u32 \<times> slice option \<times> 'q Reader) option" where
  "ReadPhysicalRecord F R = c_loop (ReadPhysical_step F) R"

text \<open>
  The loop of \<open>ReadRecord\<close>: \<open>fragment\<close>, \<open>in_fragmented_record\<close>, \<open>*scratch\<close>,
  \<open>prospective_record_offset\<close> and the reader.  The result is \<open>*record\<close> when it returns true.
\<close>

type_synonym 'q record_state = "slice \<times> bool \<times> u8 list \<times> u64 \<times> 'q Reader"

definition ReadRecord_step ::
  "'q sequential_ops \<Rightarrow> 'q record_state \<Rightarrow> ((slice option \<times> 'q Reader) + 'q record_state) option" where
  "ReadRecord_step F = (\<lambda>(fragment, in_fragmented_record, scratch, prospective_record_offset, R).
     (case ReadPhysicalRecord F R of None \<Rightarrow> None
      | Some (record_type, result, R) \<Rightarrow>
        let fragment = (case result of None \<Rightarrow> fragment | Some s \<Rightarrow> s);
            physical_record_offset =
              r_end_of_buffer_offset R - word_of_nat (length (r_buffer R)) - word_of_nat kHeaderSize -
              word_of_nat (length fragment)
        in if r_resyncing R \<and> record_type = kMiddleType then
             Some (Inr (fragment, in_fragmented_record, scratch, prospective_record_offset, R))
           else if r_resyncing R \<and> record_type = kLastType then
             Some (Inr (fragment, in_fragmented_record, scratch, prospective_record_offset,
               R\<lparr>r_resyncing := False\<rparr>))
           else
             let R = R\<lparr>r_resyncing := False\<rparr> in
             if record_type = kFullType then
               let R = (if in_fragmented_record \<and> scratch \<noteq> []
                        then ReportCorruption R (word_of_nat (length scratch)) ''partial record without end(1)''
                        else R)
               in Some (Inl (Some fragment, R\<lparr>r_last_record_offset := physical_record_offset\<rparr>))
             else if record_type = kFirstType then
               let R = (if in_fragmented_record \<and> scratch \<noteq> []
                        then ReportCorruption R (word_of_nat (length scratch)) ''partial record without end(2)''
                        else R)
               in Some (Inr (fragment, True, fragment, physical_record_offset, R))
             else if record_type = kMiddleType then
               if \<not> in_fragmented_record then
                 Some (Inr (fragment, in_fragmented_record, scratch, prospective_record_offset,
                   ReportCorruption R (word_of_nat (length fragment)) ''missing start of fragmented record(1)''))
               else Some (Inr (fragment, in_fragmented_record, scratch @ fragment, prospective_record_offset, R))
             else if record_type = kLastType then
               if \<not> in_fragmented_record then
                 Some (Inr (fragment, in_fragmented_record, scratch, prospective_record_offset,
                   ReportCorruption R (word_of_nat (length fragment)) ''missing start of fragmented record(2)''))
               else Some (Inl (Some (scratch @ fragment), R\<lparr>r_last_record_offset := prospective_record_offset\<rparr>))
             else if record_type = kEof then Some (Inl (None, R))
             else if record_type = kBadRecord then
               if in_fragmented_record then
                 Some (Inr (fragment, False, [], prospective_record_offset,
                   ReportCorruption R (word_of_nat (length scratch)) ''error in middle of record''))
               else Some (Inr (fragment, in_fragmented_record, scratch, prospective_record_offset, R))
             else
               Some (Inr (fragment, False, [], prospective_record_offset,
                 ReportCorruption R
                   (word_of_nat (length fragment + (if in_fragmented_record then length scratch else 0)))
                   (''unknown record type '' @ decimal (unat record_type))))))"

definition ReadRecord ::
  "'q sequential_ops \<Rightarrow> 'q Reader \<Rightarrow> (slice option \<times> 'q Reader) option" where
  "ReadRecord F R =
     (let (ok, R) = (if r_last_record_offset R < r_initial_offset R then SkipToInitialBlock F R else (True, R))
      in if \<not> ok then Some (None, R)
         else c_loop (ReadRecord_step F) ([], False, [], 0, R))"

text \<open>
  What the callers do (\<open>VersionSet::Recover\<close>, \<open>DBImpl::RecoverLogFile\<close>): read records until the
  reader returns false.
\<close>

definition read_all_step ::
  "'q sequential_ops \<Rightarrow> slice list \<times> 'q Reader \<Rightarrow> ((slice list \<times> 'q Reader) + (slice list \<times> 'q Reader)) option" where
  "read_all_step F = (\<lambda>(records, R).
     (case ReadRecord F R of None \<Rightarrow> None
      | Some (None, R) \<Rightarrow> Some (Inl (records, R))
      | Some (Some r, R) \<Rightarrow> Some (Inr (records @ [r], R))))"

definition read_all :: "'q sequential_ops \<Rightarrow> 'q Reader \<Rightarrow> (slice list \<times> 'q Reader) option" where
  "read_all F R = c_loop (read_all_step F) ([], R)"

end
