(* ===== verification/LDB_Files.thy ===== *)
theory LDB_Files
  imports LDB_Env
begin

text \<open>
  The contracts of the file interfaces as locales, and the POSIX files of \<open>util/env_posix.cc\<close> as
  their providers over a kernel that keeps the documented behaviour of the system calls.
\<close>

section \<open>Contracts\<close>

text \<open>
  A writable file: appending and flushing return, an append that succeeds adds its data at the end of
  the contents (what reached the device followed by what is still buffered), and a flush that succeeds
  leaves nothing in the buffer.
\<close>

locale writable_file =
  fixes F :: "'f writable_ops"
    and good :: "'f \<Rightarrow> bool"
    and contents :: "'f \<Rightarrow> u8 list"
    and flushed :: "'f \<Rightarrow> bool"
  assumes append_returns: "good f \<Longrightarrow> \<exists>s f'. Append F f d = Some (s, f') \<and> good f'"
    and append_ok: "good f \<Longrightarrow> Append F f d = Some (s, f') \<Longrightarrow> status_ok s \<Longrightarrow> contents f' = contents f @ d"
    and flush_returns: "good f \<Longrightarrow> \<exists>s f'. Flush F f = Some (s, f') \<and> good f'"
    and flush_ok: "good f \<Longrightarrow> Flush F f = Some (s, f') \<Longrightarrow> status_ok s \<Longrightarrow> contents f' = contents f \<and> flushed f'"

text \<open>
  A file with a buffer: a few bytes always fit into the buffer of a flushed file.  The interface does not
  promise this; the POSIX files do it.
\<close>

locale buffered_file = writable_file +
  assumes append_small: "good f \<Longrightarrow> flushed f \<Longrightarrow> length d < 7 \<Longrightarrow> Append F f d = Some (s, f') \<Longrightarrow> status_ok s"

text \<open>A device that does not fail.\<close>

locale reliable_file = writable_file +
  assumes append_reliable: "good f \<Longrightarrow> Append F f d = Some (s, f') \<Longrightarrow> status_ok s"
    and flush_reliable: "good f \<Longrightarrow> Flush F f = Some (s, f') \<Longrightarrow> status_ok s"

sublocale reliable_file \<subseteq> buffered_file
  by unfold_locales (rule append_reliable)

text \<open>
  A sequential file over the bytes that are left: a read returns; it gives all bytes that were asked for and are
  there, or fails at some place.  On a readable file no read fails.
\<close>

locale sequential_file =
  fixes F :: "'q sequential_ops"
    and rest :: "'q \<Rightarrow> u8 list"
  assumes read_returns: "\<exists>s r q'. Read F q n = Some (s, r, q') \<and>
      (if status_ok s then r = Some (take n (rest q)) \<and> rest q' = drop n (rest q) else \<exists>m. rest q' = drop m (rest q))"
    and skip_suffix: "Skip F q to = (s, q') \<Longrightarrow> \<exists>m. rest q' = drop m (rest q)"

locale readable_file = sequential_file +
  assumes read_ok: "Read F q n = Some (s, r, q') \<Longrightarrow> status_ok s"
begin

lemma read_all: "\<exists>s q'. Read F q n = Some (s, Some (take n (rest q)), q') \<and> status_ok s \<and> rest q' = drop n (rest q)"
  using read_returns [of q n] read_ok [of q n] by auto

end

section \<open>Kernels\<close>

text \<open>The contents of a writable file: what reached the descriptor, then the buffer.\<close>

definition file_contents :: "('k \<Rightarrow> int \<Rightarrow> u8 list) \<Rightarrow> 'k PosixWritableFile \<Rightarrow> u8 list" where
  "file_contents fd_content f = fd_content (w_kernel f) (w_fd f) @ w_buf f"

definition file_good :: "'k PosixWritableFile \<Rightarrow> bool" where
  "file_good f = (length (w_buf f) \<le> kWritableFileBufferSize)"

definition buffer_empty :: "'k PosixWritableFile \<Rightarrow> bool" where
  "buffer_empty f = (w_buf f = [])"

definition file_rest :: "('k \<Rightarrow> int \<Rightarrow> u8 list) \<Rightarrow> 'k PosixSequentialFile \<Rightarrow> u8 list" where
  "file_rest fd_rest f = fd_rest (q_kernel f) (q_fd f)"

text \<open>
  \<open>write(2)\<close> adds a prefix of the data to the file or fails and leaves it alone, \<open>read(2)\<close> returns
  the next bytes of a regular file in full or fails; calls that make no progress (interrupted ones) use up
  \<open>patience\<close>, so they do not go on for ever.
\<close>

locale fallible_kernel =
  fixes K :: "'k posix"
    and fd_content :: "'k \<Rightarrow> int \<Rightarrow> u8 list"
    and fd_rest :: "'k \<Rightarrow> int \<Rightarrow> u8 list"
    and patience :: "'k \<Rightarrow> nat"
  assumes write_law: "sys_write K k fd data = (r, e, k') \<Longrightarrow>
      nat r \<le> length data \<and> fd_content k' fd = fd_content k fd @ take (nat r) data \<and> patience k' \<le> patience k"
    and write_progress: "sys_write K k fd data = (r, e, k') \<Longrightarrow> data \<noteq> [] \<Longrightarrow> r = 0 \<or> r < 0 \<and> e = EINTR \<Longrightarrow>
      patience k' < patience k"
    and read_any: "sys_read K k fd n = (r, scratch, e, k') \<Longrightarrow>
      (r \<ge> 0 \<and> take (nat r) scratch = take n (fd_rest k fd) \<and> fd_rest k' fd = drop n (fd_rest k fd)) \<or>
      (r < 0 \<and> e = EINTR \<and> fd_rest k' fd = fd_rest k fd \<and> patience k' < patience k) \<or>
      (r < 0 \<and> e \<noteq> EINTR \<and> fd_rest k' fd = fd_rest k fd)"
    and lseek_law: "sys_lseek_cur K k fd m = (r, e, k') \<Longrightarrow> \<exists>n. fd_rest k' fd = drop n (fd_rest k fd)"
begin

lemma WriteUnbuffered_returns:
  "\<exists>s k'. WriteUnbuffered K f data = Some (s, f\<lparr>w_kernel := k'\<rparr>) \<and>
    (status_ok s \<longrightarrow> fd_content k' (w_fd f) = fd_content (w_kernel f) (w_fd f) @ data)"
proof -
  let ?fd = "w_fd f"
  let ?I = "\<lambda>(d, g). \<exists>k'. g = f\<lparr>w_kernel := k'\<rparr> \<and>
      fd_content k' ?fd @ d = fd_content (w_kernel f) ?fd @ data"
  let ?Q = "\<lambda>(s, g). \<exists>k'. g = f\<lparr>w_kernel := k'\<rparr> \<and>
      (status_ok s \<longrightarrow> fd_content k' ?fd = fd_content (w_kernel f) ?fd @ data)"
  have "\<exists>r. c_loop (write_step K) (data, f) = Some r \<and> ?Q r"
  proof (rule c_loop_rule [where I = ?I and m = "\<lambda>(d, g). length d + patience (w_kernel g)"])
    show "?I (data, f)" by (auto intro!: exI [of _ "w_kernel f"])
  next
    fix x
    assume "?I x"
    then obtain d k where x: "x = (d, f\<lparr>w_kernel := k\<rparr>)"
      and inv: "fd_content k ?fd @ d = fd_content (w_kernel f) ?fd @ data" by auto
    obtain r e k' where w: "sys_write K k ?fd d = (r, e, k')" by (cases "sys_write K k ?fd d")
    note law = write_law [OF w]
    show "\<exists>y. write_step K x = Some y \<and> (case y of Inl r \<Rightarrow> ?Q r
      | Inr s' \<Rightarrow> ?I s' \<and> (case s' of (d, g) \<Rightarrow> length d + patience (w_kernel g))
          < (case x of (d, g) \<Rightarrow> length d + patience (w_kernel g)))"
    proof (cases "d = []")
      case True
      with inv show ?thesis by (auto simp: x write_step_def)
    next
      case False
      consider "r < 0" "e = EINTR" | "r < 0" "e \<noteq> EINTR" | "0 \<le> r" by linarith
      then show ?thesis
      proof cases
        case 1
        with False w law write_progress [OF w False] inv show ?thesis
          by (auto simp: x write_step_def Let_def intro!: exI [of _ k'])
      next
        case 2
        with False w show ?thesis by (auto simp: x write_step_def Let_def intro!: exI [of _ k'])
      next
        case 3
        then have "length (drop (nat r) d) + patience k' < length d + patience k"
          using law write_progress [OF w False] False by (cases "r = 0") auto
        moreover have "fd_content k' ?fd @ drop (nat r) d = fd_content (w_kernel f) ?fd @ data"
          using law inv by simp
        ultimately show ?thesis
          using 3 False w by (auto simp: x write_step_def Let_def intro!: exI [of _ k'])
      qed
    qed
  qed
  then show ?thesis by (auto simp: WriteUnbuffered_def)
qed

lemma FlushBuffer_returns:
  "\<exists>s k'. FlushBuffer K f = Some (s, f\<lparr>w_kernel := k', w_buf := []\<rparr>) \<and>
    (status_ok s \<longrightarrow> fd_content k' (w_fd f) = file_contents fd_content f)"
  using WriteUnbuffered_returns [of f "w_buf f"] by (auto simp: FlushBuffer_def file_contents_def)

lemma Append_returns:
  assumes "file_good f"
  shows "\<exists>s f'. PosixWritableFile_Append K f d = Some (s, f') \<and> file_good f' \<and>
    (status_ok s \<longrightarrow> file_contents fd_content f' = file_contents fd_content f @ d) \<and>
    (length (w_buf f) + length d \<le> kWritableFileBufferSize \<longrightarrow> status_ok s)"
proof -
  define c where "c = min (length d) (kWritableFileBufferSize - length (w_buf f))"
  define g where "g = f\<lparr>w_buf := w_buf f @ take c d\<rparr>"
  have g: "file_good g" "file_contents fd_content g = file_contents fd_content f @ take c d"
    using assms by (auto simp: g_def file_good_def file_contents_def c_def)
  have app: "PosixWritableFile_Append K f d =
    (if length d - c = 0 then Some (status_OK, g)
     else (case FlushBuffer K g of None \<Rightarrow> None
       | Some (status, f) \<Rightarrow>
           if \<not> status_ok status then Some (status, f)
           else if length d - c < kWritableFileBufferSize then Some (status_OK, f\<lparr>w_buf := drop c d\<rparr>)
           else WriteUnbuffered K f (drop c d)))"
    unfolding PosixWritableFile_Append_def Let_def g_def c_def ..
  show ?thesis
  proof (cases "length d - c = 0")
    case True
    then have "c = length d" by (simp add: c_def)
    with g show ?thesis by (simp add: app)
  next
    case False
    then have big: "\<not> length (w_buf f) + length d \<le> kWritableFileBufferSize" by (auto simp: c_def)
    obtain s k' where fl: "FlushBuffer K g = Some (s, g\<lparr>w_kernel := k', w_buf := []\<rparr>)"
      and ok: "status_ok s \<longrightarrow> fd_content k' (w_fd g) = file_contents fd_content g"
      using FlushBuffer_returns by blast
    let ?h = "g\<lparr>w_kernel := k', w_buf := []\<rparr>"
    obtain s2 k2 where wr: "WriteUnbuffered K ?h (drop c d) = Some (s2, ?h\<lparr>w_kernel := k2\<rparr>)"
      and ok2: "status_ok s2 \<longrightarrow> fd_content k2 (w_fd g) = fd_content k' (w_fd g) @ drop c d"
      using WriteUnbuffered_returns [of ?h "drop c d"] by auto
    show ?thesis
      using False fl wr ok ok2 g big
      by (auto simp: app file_good_def file_contents_def)
  qed
qed

lemma Read_returns:
  "\<exists>s r f'. PosixSequentialFile_Read K f n = Some (s, r, f') \<and>
    (if status_ok s then r = Some (take n (fd_rest (q_kernel f) (q_fd f))) \<and>
       fd_rest (q_kernel f') (q_fd f') = drop n (fd_rest (q_kernel f) (q_fd f))
     else fd_rest (q_kernel f') (q_fd f') = fd_rest (q_kernel f) (q_fd f))"
proof -
  let ?fd = "q_fd f" and ?rest = "fd_rest (q_kernel f) (q_fd f)"
  let ?I = "\<lambda>g. \<exists>k. g = f\<lparr>q_kernel := k\<rparr> \<and> fd_rest k ?fd = ?rest"
  let ?Q = "\<lambda>(s, r, g). if status_ok s then r = Some (take n ?rest) \<and> fd_rest (q_kernel g) (q_fd g) = drop n ?rest
      else fd_rest (q_kernel g) (q_fd g) = ?rest"
  have "\<exists>r. c_loop (read_step K n) f = Some r \<and> ?Q r"
  proof (rule c_loop_rule [where I = ?I and m = "\<lambda>g. patience (q_kernel g)"])
    show "?I f" by (auto intro!: exI [of _ "q_kernel f"])
  next
    fix g
    assume "?I g"
    then obtain k where g: "g = f\<lparr>q_kernel := k\<rparr>" "fd_rest k ?fd = ?rest" by auto
    obtain r sc e k' where w: "sys_read K k ?fd n = (r, sc, e, k')" by (cases "sys_read K k ?fd n")
    show "\<exists>y. read_step K n g = Some y \<and> (case y of Inl r \<Rightarrow> ?Q r
      | Inr g' \<Rightarrow> ?I g' \<and> patience (q_kernel g') < patience (q_kernel g))"
      using read_any [OF w] w g(2) PosixError_not_ok unfolding g(1)
      by (auto simp: read_step_def Let_def)
  qed
  then show ?thesis unfolding PosixSequentialFile_Read_def by (elim exE conjE) (rename_tac x, case_tac x, auto)
qed

end

text \<open>A kernel whose reads fail only when they are interrupted.\<close>

locale posix_kernel = fallible_kernel +
  assumes read_only_eintr: "sys_read K k fd n = (r, scratch, e, k') \<Longrightarrow> r < 0 \<Longrightarrow> e = EINTR"
begin

lemma Read_ok: "PosixSequentialFile_Read K f n = Some (s, r, f') \<Longrightarrow> status_ok s"
  unfolding PosixSequentialFile_Read_def
  by (drule c_loop_partial [where I = "\<lambda>_. True" and Q = "\<lambda>(s, r, f). status_ok s"])
    (auto simp: read_step_def Let_def dest: read_only_eintr split: if_splits prod.splits)

end

sublocale fallible_kernel \<subseteq> buffered_file "posix_writable K" file_good "file_contents fd_content" buffer_empty
proof
  fix f :: "'k PosixWritableFile" and d s f'
  note app = Append_returns [of f d] and fl = FlushBuffer_returns [of f]
  show "file_good f \<Longrightarrow> \<exists>s f'. Append (posix_writable K) f d = Some (s, f') \<and> file_good f'"
    using app by (auto simp: posix_writable_def buffer_empty_def)
  show "file_good f \<Longrightarrow> Append (posix_writable K) f d = Some (s, f') \<Longrightarrow> status_ok s \<Longrightarrow>
      file_contents fd_content f' = file_contents fd_content f @ d"
    using app by (auto simp: posix_writable_def buffer_empty_def)
  show "file_good f \<Longrightarrow> buffer_empty f \<Longrightarrow> length d < 7 \<Longrightarrow> Append (posix_writable K) f d = Some (s, f') \<Longrightarrow>
      status_ok s"
    using app by (auto simp: posix_writable_def buffer_empty_def kWritableFileBufferSize_def)
  show "file_good f \<Longrightarrow> \<exists>s f'. Flush (posix_writable K) f = Some (s, f') \<and> file_good f'"
    using fl by (auto simp: posix_writable_def buffer_empty_def PosixWritableFile_Flush_def file_good_def)
  show "file_good f \<Longrightarrow> Flush (posix_writable K) f = Some (s, f') \<Longrightarrow> status_ok s \<Longrightarrow>
      file_contents fd_content f' = file_contents fd_content f \<and> buffer_empty f'"
    using fl by (auto simp: posix_writable_def buffer_empty_def PosixWritableFile_Flush_def file_contents_def)
qed

sublocale fallible_kernel \<subseteq> sequential_file "posix_sequential K" "file_rest fd_rest"
proof
  fix q :: "'k PosixSequentialFile" and n m s q'
  show "\<exists>s r q'. Read (posix_sequential K) q n = Some (s, r, q') \<and>
      (if status_ok s then r = Some (take n (file_rest fd_rest q)) \<and> file_rest fd_rest q' = drop n (file_rest fd_rest q)
       else \<exists>m. file_rest fd_rest q' = drop m (file_rest fd_rest q))"
    using Read_returns [of q n] unfolding posix_sequential_def file_rest_def
    by (elim exE conjE) (intro exI conjI, auto intro!: exI [of _ 0] split: if_splits)
  show "Skip (posix_sequential K) q m = (s, q') \<Longrightarrow> \<exists>n. file_rest fd_rest q' = drop n (file_rest fd_rest q)"
    using lseek_law
    by (fastforce simp: posix_sequential_def PosixSequentialFile_Skip_def file_rest_def Let_def
        split: prod.splits if_splits)
qed

sublocale posix_kernel \<subseteq> readable_file "posix_sequential K" "file_rest fd_rest"
  by unfold_locales (auto simp: posix_sequential_def dest: Read_ok)

text \<open>A kernel whose writes fail only when they are interrupted gives reliable files.\<close>

locale reliable_kernel = posix_kernel +
  assumes write_only_eintr: "sys_write K k fd data = (r, e, k') \<Longrightarrow> r < 0 \<Longrightarrow> e = EINTR"
begin

lemma WriteUnbuffered_ok: "WriteUnbuffered K f data = Some (s, f') \<Longrightarrow> status_ok s"
  unfolding WriteUnbuffered_def
  by (drule c_loop_partial [where I = "\<lambda>_. True" and Q = "\<lambda>(s, f). status_ok s"])
    (auto simp: write_step_def Let_def dest: write_only_eintr split: if_splits prod.splits)

lemma FlushBuffer_ok: "FlushBuffer K f = Some (s, f') \<Longrightarrow> status_ok s"
  by (auto simp: FlushBuffer_def dest: WriteUnbuffered_ok split: option.splits)

lemma Append_ok: "PosixWritableFile_Append K f d = Some (s, f') \<Longrightarrow> status_ok s"
  by (auto simp: PosixWritableFile_Append_def Let_def dest: WriteUnbuffered_ok FlushBuffer_ok
      split: option.splits if_splits)

end

sublocale reliable_kernel \<subseteq> reliable_file "posix_writable K" file_good "file_contents fd_content" buffer_empty
  by unfold_locales (auto simp: posix_writable_def PosixWritableFile_Flush_def dest: Append_ok FlushBuffer_ok)

context fallible_kernel
begin

lemma writable: "writable_file (posix_writable K) file_good (file_contents fd_content) buffer_empty"
  by unfold_locales

lemma buffered: "buffered_file (posix_writable K) file_good (file_contents fd_content) buffer_empty"
  by unfold_locales

lemma sequential: "sequential_file (posix_sequential K) (file_rest fd_rest)"
  by unfold_locales

end

context posix_kernel
begin

lemma buffered_writes: "buffered_file (posix_writable K) file_good (file_contents fd_content) buffer_empty"
  by (rule buffered)

lemma readable: "readable_file (posix_sequential K) (file_rest fd_rest)"
  by unfold_locales

end

context reliable_kernel
begin

lemma reliable: "reliable_file (posix_writable K) file_good (file_contents fd_content) buffer_empty"
  by unfold_locales

end

section \<open>A kernel\<close>

text \<open>
  Regular files by descriptor: the bytes written and the bytes still to be read.  A write takes at
  most 4096 bytes, and the first \<open>d_interrupts\<close> calls are interrupted.
\<close>

record disk =
  d_written :: "int \<Rightarrow> u8 list"
  d_unread :: "int \<Rightarrow> u8 list"
  d_interrupts :: nat

definition disk_posix :: "disk posix" where
  "disk_posix =
     \<lparr>sys_write = (\<lambda>k fd data.
        if d_interrupts k > 0 then (-1, EINTR, k\<lparr>d_interrupts := d_interrupts k - 1\<rparr>)
        else let n = min (length data) 4096 in
          (int n, 0, k\<lparr>d_written := (d_written k)(fd := d_written k fd @ take n data)\<rparr>)),
      sys_read = (\<lambda>k fd n.
        if d_interrupts k > 0 then (-1, [], EINTR, k\<lparr>d_interrupts := d_interrupts k - 1\<rparr>)
        else let s = take n (d_unread k fd) in
          (int (length s), s, 0, k\<lparr>d_unread := (d_unread k)(fd := drop n (d_unread k fd))\<rparr>)),
      sys_pread = (\<lambda>k fd n offset.
        let s = take n (drop (unat offset) (d_unread k fd)) in (int (length s), s, 0, k)),
      sys_lseek_cur = (\<lambda>k fd n. (0, 0, k\<lparr>d_unread := (d_unread k)(fd := drop (unat n) (d_unread k fd))\<rparr>)),
      sys_open_rdonly = (\<lambda>k path. (-1, ENOENT, k)),
      sys_close = (\<lambda>k fd. (0, 0, k)),
      sys_fullfsync = (\<lambda>k fd. (0, 0, k)),
      sys_fsync = (\<lambda>k fd. (0, 0, k)),
      sys_strerror = (\<lambda>e. [])\<rparr>"

definition empty_disk :: disk where
  "empty_disk = \<lparr>d_written = (\<lambda>_. []), d_unread = (\<lambda>_. []), d_interrupts = 2\<rparr>"

interpretation dk: reliable_kernel disk_posix d_written d_unread d_interrupts
  by unfold_locales (auto simp: disk_posix_def Let_def min_def split: if_splits)

end
