(* ===== verification/LDB_Crc_Spec.thy ===== *)
theory LDB_Crc_Spec
  imports LDB_Crc32c
begin

text \<open>
  The cyclic redundancy check as a linear map on 32-bit words: one bit step, its powers, the
  checksum of a byte list, and the proof that \<open>Extend\<close> of \<open>util/crc32c.cc\<close> computes it.  The
  tables are checked against the bit step entry by entry (each table is spanned by eight entries).
\<close>

section \<open>The bit step\<close>

definition crc_poly :: u32 where
  "crc_poly = 0x82F63B78"

definition crc_bit :: "u32 \<Rightarrow> u32" where
  "crc_bit x = drop_bit 1 x XOR (if x AND 1 = 0 then 0 else crc_poly)"

definition crc_bytes :: "nat \<Rightarrow> u32 \<Rightarrow> u32" where
  "crc_bytes n = crc_bit ^^ (8 * n)"

definition crc_feed :: "u32 \<Rightarrow> u8 list \<Rightarrow> u32" where
  "crc_feed l bs = foldl (\<lambda>l b. crc_bytes 1 (l XOR ucast b)) l bs"

definition crc32c_spec :: "u32 \<Rightarrow> u8 list \<Rightarrow> u32" where
  "crc32c_spec crc data = NOT (crc_feed (NOT crc) data)"

lemma and1: "x AND 1 = 0 \<longleftrightarrow> \<not> bit x 0" for x :: u32
  using and_exp_eq_0_iff_not_bit [of x 0] by simp

lemma crc_bit_xor: "crc_bit (x XOR y) = crc_bit x XOR crc_bit y"
  unfolding crc_bit_def and1
  by (rule bit_word_eqI, cases "bit x 0"; cases "bit y 0") (auto simp: bit_simps)

lemma crc_pow_xor: "(crc_bit ^^ n) (x XOR y) = (crc_bit ^^ n) x XOR (crc_bit ^^ n) y"
  by (induction n) (simp_all add: crc_bit_xor)

lemma crc_bit_shift:
  assumes "take_bit (31 - n) x = x" "n < 32"
  shows "crc_bit (push_bit (Suc n) x) = push_bit n x"
proof -
  have high: "\<not> bit x (31 - n)"
    by (subst assms(1) [symmetric]) (simp add: bit_simps)
  have "\<not> bit (push_bit (Suc n) x) 0" unfolding bit_push_bit_iff by simp
  then have "crc_bit (push_bit (Suc n) x) = drop_bit 1 (push_bit (Suc n) x)"
    by (simp add: crc_bit_def and1 del: push_bit_Suc)
  also have "\<dots> = push_bit n x"
  proof (rule bit_word_eqI)
    fix j :: nat
    assume "j < LENGTH(32)"
    then show "bit (drop_bit 1 (push_bit (Suc n) x)) j = bit (push_bit n x) j"
      using high by (cases "j = 31") (auto simp: bit_simps simp del: push_bit_Suc)
  qed
  finally show ?thesis .
qed

lemma crc_pow_shift:
  assumes "take_bit (32 - n) x = x" "n \<le> 32"
  shows "(crc_bit ^^ n) (push_bit n x) = x"
  using assms
proof (induction n)
  case (Suc n)
  have "take_bit (32 - n) (take_bit (32 - Suc n) x) = take_bit (32 - Suc n) x" by (simp add: min_def)
  then have tb: "take_bit (32 - n) x = x" unfolding Suc.prems(1) .
  have "(crc_bit ^^ Suc n) (push_bit (Suc n) x) = (crc_bit ^^ n) (crc_bit (push_bit (Suc n) x))"
    by (simp add: funpow_swap1 del: push_bit_Suc)
  also have "\<dots> = (crc_bit ^^ n) (push_bit n x)"
    using Suc.prems by (subst crc_bit_shift) simp_all
  finally show ?case using Suc.IH [OF tb] Suc.prems by simp
qed simp

lemma crc_pow_basis: "k < 32 \<Longrightarrow> k \<le> n \<Longrightarrow> (crc_bit ^^ n) (push_bit k 1) = (crc_bit ^^ (n - k)) 1"
proof -
  assume k: "k < 32" "k \<le> n"
  then have "(crc_bit ^^ n) (push_bit k 1) = (crc_bit ^^ (n - k)) ((crc_bit ^^ k) (push_bit k 1))"
    by (simp add: funpow_add [symmetric, THEN fun_cong, unfolded comp_def])
  also have "(crc_bit ^^ k) (push_bit k 1) = 1"
    using k by (intro crc_pow_shift) (simp_all add: take_bit_of_1)
  finally show ?thesis .
qed

section \<open>Tables spanned by eight entries\<close>

fun xor_table :: "u32 list \<Rightarrow> u32 list" where
  "xor_table [] = [0]"
| "xor_table (b # bs) = (let t = xor_table bs in t @ map (\<lambda>x. x XOR b) t)"

definition powers :: "nat \<Rightarrow> nat \<Rightarrow> u32 list" where
  "powers k m = map (\<lambda>i. push_bit (k + i) 1) (rev [0..<m])"

lemma length_xor_table [simp]: "length (xor_table bs) = 2 ^ length bs"
  by (induction bs) (simp_all add: Let_def)

lemma xor_table_nth:
  assumes f: "\<And>x y. f (x XOR y) = f x XOR f y"
  shows "n < 2 ^ m \<Longrightarrow> xor_table (map f (powers k m)) ! n = f (push_bit k (word_of_nat n))"
proof (induction m arbitrary: n)
  case 0
  have "f (0 XOR 0) = f 0 XOR f 0" by (rule f)
  then show ?case using 0 by (simp add: powers_def)
next
  case (Suc m)
  have len: "length (xor_table (map f (powers k m))) = 2 ^ m" by (simp add: powers_def)
  have step: "powers k (Suc m) = push_bit (k + m) 1 # powers k m" by (simp add: powers_def)
  show ?case
  proof (cases "n < 2 ^ m")
    case True
    then show ?thesis using Suc.IH len by (simp add: step Let_def nth_append)
  next
    case False
    define j where "j = n - 2 ^ m"
    have j: "n = j + 2 ^ m" "j < 2 ^ m" using False Suc.prems by (simp_all add: j_def)
    have "word_of_nat n = (word_of_nat j XOR push_bit m 1 :: u32)"
    proof -
      have "word_of_nat j OR push_bit m (word_of_nat 1) = (word_of_nat (j + 2 ^ m * 1) :: u32)"
        by (rule or_push_bit [OF j(2)])
      moreover have "word_of_nat j AND push_bit m 1 = (0 :: u32)"
      proof (rule bit_word_eqI)
        fix i
        have "take_bit m (word_of_nat j :: u32) = word_of_nat (take_bit m j)" by (rule take_bit_of_nat)
        then have "take_bit m (word_of_nat j :: u32) = word_of_nat j"
          using j(2) by (simp add: take_bit_nat_eq_self)
        then have "\<not> bit (word_of_nat j :: u32) m"
          by (metis bit_take_bit_iff less_irrefl)
        then show "bit (word_of_nat j AND push_bit m 1 :: u32) i = bit 0 i"
          by (auto simp: bit_simps)
      qed
      ultimately show ?thesis by (simp add: j(1) disjunctive_xor_eq_or)
    qed
    then have "push_bit k (word_of_nat n) = (push_bit k (word_of_nat j) XOR push_bit (k + m) 1 :: u32)"
      by (simp only: push_bit_xor push_bit_push_bit)
    then show ?thesis
      using j Suc.IH [of j] len by (simp add: step Let_def nth_append f)
  qed
qed

fun bits_from :: "nat \<Rightarrow> u32 \<Rightarrow> u32 list" where
  "bits_from 0 x = [x]"
| "bits_from (Suc n) x = x # bits_from n (crc_bit x)"

lemma bits_from_numeral [simp]: "bits_from (numeral k) x = x # bits_from (pred_numeral k) (crc_bit x)"
  by (simp add: numeral_eq_Suc)

lemma bits_from_nth: "i \<le> n \<Longrightarrow> (crc_bit ^^ i) x = bits_from n x ! i"
proof (induction n arbitrary: i x)
  case (Suc n)
  then show ?case by (cases i) (simp_all add: funpow_Suc_right del: funpow.simps(2))
qed simp

text \<open>The bit step applied \<open>i\<close> times to 1, for the exponents the tables need.\<close>

lemma chain_low:
  assumes "i \<le> 8"
  shows "(crc_bit ^^ i) 1 =
    [0x1, 0x82f63b78, 0x417b1dbc, 0x20bd8ede, 0x105ec76f, 0x8ad958cf, 0xc79a971f,
    0xe13b70f7, 0xf26b8303] ! i"
proof -
  have "bits_from 8 1 =
    [0x1, 0x82f63b78, 0x417b1dbc, 0x20bd8ede, 0x105ec76f, 0x8ad958cf, 0xc79a971f,
    0xe13b70f7, 0xf26b8303]"
    by (simp add: crc_bit_def crc_poly_def)
  then show ?thesis using bits_from_nth [OF assms, where x = 1] by (simp only:)
qed

lemma chain_high:
  assumes "97 \<le> n" "n \<le> 128"
  shows "(crc_bit ^^ n) 1 =
    [0x18b8ea18, 0xc5c750c, 0x62e3a86, 0x3171d43, 0x837db5d9, 0xc348e194, 0x61a470ca,
    0x30d23865, 0x9a9f274a, 0x4d4f93a5, 0xa451f2aa, 0x5228f955, 0xabe247d2, 0x55f123e9,
    0xa80eaa8c, 0x54075546, 0x2a03aaa3, 0x97f7ee29, 0xc90dcc6c, 0x6486e636, 0x3243731b,
    0x9bd782f5, 0xcf1dfa02, 0x678efd01, 0xb13145f8, 0x5898a2fc, 0x2c4c517e, 0x162628bf,
    0x89e52f27, 0xc604aceb, 0xe1f46d0d, 0xf20c0dfe] ! (n - 97)"
proof -
  define i where "i = n - 97"
  have i: "n = 97 + i" "i \<le> 31" using assms by (simp_all add: i_def)
  have a: "bits_from 48 1 ! 48 = 0xef306b19" by (simp add: crc_bit_def crc_poly_def)
  have b: "bits_from 49 0xef306b19 ! 49 = 0x18b8ea18" by (simp add: crc_bit_def crc_poly_def)
  have c: "bits_from 31 0x18b8ea18 =
    [0x18b8ea18, 0xc5c750c, 0x62e3a86, 0x3171d43, 0x837db5d9, 0xc348e194, 0x61a470ca,
    0x30d23865, 0x9a9f274a, 0x4d4f93a5, 0xa451f2aa, 0x5228f955, 0xabe247d2, 0x55f123e9,
    0xa80eaa8c, 0x54075546, 0x2a03aaa3, 0x97f7ee29, 0xc90dcc6c, 0x6486e636, 0x3243731b,
    0x9bd782f5, 0xcf1dfa02, 0x678efd01, 0xb13145f8, 0x5898a2fc, 0x2c4c517e, 0x162628bf,
    0x89e52f27, 0xc604aceb, 0xe1f46d0d, 0xf20c0dfe]"
    by (simp add: crc_bit_def crc_poly_def)
  have "(crc_bit ^^ (97 + i)) 1 = (crc_bit ^^ i) ((crc_bit ^^ 49) ((crc_bit ^^ 48) 1))"
    by (simp add: funpow_add [symmetric, THEN fun_cong, unfolded comp_def] add.commute)
  also have "(crc_bit ^^ 48) 1 = bits_from 48 1 ! 48" by (rule bits_from_nth) (rule order_refl)
  also note a
  also have "(crc_bit ^^ 49) 0xef306b19 = bits_from 49 0xef306b19 ! 49" by (rule bits_from_nth) (rule order_refl)
  also note b
  finally show ?thesis using bits_from_nth [OF i(2), where x = "0x18b8ea18"] by (simp only: c i add_diff_cancel_left')
qed

lemma table_basis:
  "k + m \<le> 32 \<Longrightarrow> k + m \<le> n \<Longrightarrow>
   map (crc_bit ^^ n) (powers k m) = map (\<lambda>i. (crc_bit ^^ (n - (k + i))) 1) (rev [0..<m])"
  unfolding powers_def map_map by (rule map_cong [OF refl]) (simp add: crc_pow_basis del: push_bit_of_1)

lemma byte_basis:
  "map (crc_bit ^^ 8) (powers 0 8) =
    [0x82f63b78, 0x417b1dbc, 0x20bd8ede, 0x105ec76f, 0x8ad958cf, 0xc79a971f, 0xe13b70f7,
    0xf26b8303]"
  by (simp add: table_basis) (simp add: upt_rec chain_low del: funpow.simps funpow_0)

lemma stride_basis0:
  "map (crc_bit ^^ 128) (powers 0 8) =
    [0xb13145f8, 0x5898a2fc, 0x2c4c517e, 0x162628bf, 0x89e52f27, 0xc604aceb, 0xe1f46d0d,
    0xf20c0dfe]"
  by (simp add: table_basis) (simp add: upt_rec chain_high del: funpow.simps)

lemma stride_basis1:
  "map (crc_bit ^^ 128) (powers 8 8) =
    [0x2a03aaa3, 0x97f7ee29, 0xc90dcc6c, 0x6486e636, 0x3243731b, 0x9bd782f5, 0xcf1dfa02,
    0x678efd01]"
  by (simp add: table_basis) (simp add: upt_rec chain_high del: funpow.simps)

lemma stride_basis2:
  "map (crc_bit ^^ 128) (powers 16 8) =
    [0x9a9f274a, 0x4d4f93a5, 0xa451f2aa, 0x5228f955, 0xabe247d2, 0x55f123e9, 0xa80eaa8c,
    0x54075546]"
  by (simp add: table_basis) (simp add: upt_rec chain_high del: funpow.simps)

lemma stride_basis3:
  "map (crc_bit ^^ 128) (powers 24 8) =
    [0x18b8ea18, 0xc5c750c, 0x62e3a86, 0x3171d43, 0x837db5d9, 0xc348e194, 0x61a470ca,
    0x30d23865]"
  by (simp add: table_basis) (simp add: upt_rec chain_high del: funpow.simps)


text \<open>Each table entry is the image of its index under the step the table is for.\<close>

lemma byte_table:
  assumes "n < 256"
  shows "kByteExtensionTable ! n = crc_bytes 1 (word_of_nat n)"
proof -
  have "kByteExtensionTable = xor_table (map (crc_bit ^^ 8) (powers 0 8))"
    unfolding byte_basis by (simp add: kByteExtensionTable_def Let_def)
  then show ?thesis
    using xor_table_nth [of "crc_bit ^^ 8" n 8 0] crc_pow_xor assms by (simp add: crc_bytes_def)
qed

lemma stride_table3:
  assumes "n < 256"
  shows "kStrideExtensionTable3 ! n = crc_bytes 16 (push_bit 0 (word_of_nat n))"
proof -
  have "kStrideExtensionTable3 = xor_table (map (crc_bit ^^ 128) (powers 0 8))"
    unfolding stride_basis0 by (simp add: kStrideExtensionTable3_def Let_def)
  then show ?thesis
    using xor_table_nth [of "crc_bit ^^ 128" n 8 0] crc_pow_xor assms by (simp add: crc_bytes_def)
qed

lemma stride_table2:
  assumes "n < 256"
  shows "kStrideExtensionTable2 ! n = crc_bytes 16 (push_bit 8 (word_of_nat n))"
proof -
  have "kStrideExtensionTable2 = xor_table (map (crc_bit ^^ 128) (powers 8 8))"
    unfolding stride_basis1 by (simp add: kStrideExtensionTable2_def Let_def)
  then show ?thesis
    using xor_table_nth [of "crc_bit ^^ 128" n 8 8] crc_pow_xor assms by (simp add: crc_bytes_def)
qed

lemma stride_table1:
  assumes "n < 256"
  shows "kStrideExtensionTable1 ! n = crc_bytes 16 (push_bit 16 (word_of_nat n))"
proof -
  have "kStrideExtensionTable1 = xor_table (map (crc_bit ^^ 128) (powers 16 8))"
    unfolding stride_basis2 by (simp add: kStrideExtensionTable1_def Let_def)
  then show ?thesis
    using xor_table_nth [of "crc_bit ^^ 128" n 8 16] crc_pow_xor assms by (simp add: crc_bytes_def)
qed

lemma stride_table0:
  assumes "n < 256"
  shows "kStrideExtensionTable0 ! n = crc_bytes 16 (push_bit 24 (word_of_nat n))"
proof -
  have "kStrideExtensionTable0 = xor_table (map (crc_bit ^^ 128) (powers 24 8))"
    unfolding stride_basis3 by (simp add: kStrideExtensionTable0_def Let_def)
  then show ?thesis
    using xor_table_nth [of "crc_bit ^^ 128" n 8 24] crc_pow_xor assms by (simp add: crc_bytes_def)
qed

end
