(* ===== verification/LDB_Crc_Props.thy ===== *)
theory LDB_Crc_Props
  imports LDB_Crc_Spec
begin

text \<open>
  What the checksum of \<open>util/crc32c.cc\<close> computes and what it detects: the four-lane algorithm equals
  the bit-wise check, extending is concatenating, masking is invertible, and no change confined to
  four neighbouring bytes goes unnoticed.
\<close>

section \<open>Linear steps\<close>

lemma crc_bytes_xor: "crc_bytes n (x XOR y) = crc_bytes n x XOR crc_bytes n y"
  by (simp add: crc_bytes_def crc_pow_xor)

lemma crc_bytes_add [simp]: "crc_bytes m (crc_bytes n x) = crc_bytes (m + n) x"
  by (simp add: crc_bytes_def funpow_add [THEN fun_cong, unfolded comp_def] distrib_left)

lemma crc_bytes_0 [simp]: "crc_bytes 0 x = x" "crc_bytes n 0 = 0"
  using crc_bytes_xor [of n 0 0] by (simp_all add: crc_bytes_def)

lemma crc_bytes_shift: "take_bit 24 x = x \<Longrightarrow> crc_bytes 1 (push_bit 8 x) = x"
  using crc_pow_shift [of 8 x] by (simp add: crc_bytes_def)

lemma low_byte: "x AND 0xff = take_bit 8 x" for x :: u32
  by (simp only: take_bit_eq_mask mask_eq_exp_minus_1) simp

lemma low_high: "x = (x AND 0xff) XOR push_bit 8 (drop_bit 8 x)" for x :: u32
  unfolding low_byte by (rule bit_word_eqI) (auto simp: bit_simps)

lemma unat_low_byte [simp]: "unat (x AND 0xff) < 256" for x :: u32
  unfolding low_byte unsigned_take_bit_eq by (simp add: take_bit_eq_mod)

lemma crc_byte_split: "crc_bytes 1 x = crc_bytes 1 (x AND 0xff) XOR drop_bit 8 x"
proof -
  have "take_bit 24 (drop_bit 8 x) = drop_bit 8 x"
    by (rule bit_word_eqI) (auto simp: bit_simps dest: bit_imp_le_length)
  then show ?thesis
    by (subst low_high [of x]) (simp only: crc_bytes_xor crc_bytes_shift)
qed

lemma table_step: "kByteExtensionTable ! unat (x AND 0xff) = crc_bytes 1 (x AND 0xff)"
  using byte_table [of "unat (x AND 0xff)"] by simp

text \<open>\<open>STEP1\<close>, \<open>STEP4W\<close> and \<open>STEP4\<close> are the linear steps for one byte, one word, one swath.\<close>

lemma STEP1_eq: "STEP1 l b = crc_bytes 1 (l XOR ucast b)"
proof -
  have c: "(l AND 0xff) XOR ucast b = (l XOR ucast b) AND 0xff"
    unfolding low_byte by (rule bit_word_eqI) (auto simp: bit_simps dest: bit_imp_le_length)
  have "drop_bit 8 (l XOR ucast b) = drop_bit 8 l"
    by (rule bit_word_eqI) (auto simp: bit_simps dest: bit_imp_le_length)
  then show ?thesis
    unfolding STEP1_def Let_def c table_step by (subst (2) crc_byte_split) simp
qed

lemma foldl_STEP1 [simp]: "foldl STEP1 l bs = crc_feed l bs"
  by (simp add: crc_feed_def STEP1_eq [abs_def])

lemma STEP4W_eq: "STEP4W w l = crc_bytes 4 (w XOR l)"
proof -
  have "(\<lambda>w. drop_bit 8 w XOR kByteExtensionTable ! unat (w AND 0xff)) = crc_bytes 1"
    by (rule ext) (simp only: table_step crc_byte_split [symmetric] xor.commute [of "drop_bit 8 w" for w])
  then show ?thesis unfolding STEP4W_def by (simp add: crc_bytes_def eval_nat_numeral)
qed

lemma split_bytes:
  "x = (x AND 0xff) XOR push_bit 8 (drop_bit 8 x AND 0xff) XOR
     push_bit 16 (drop_bit 16 x AND 0xff) XOR push_bit 24 (drop_bit 24 x)" for x :: u32
  unfolding low_byte by (rule bit_word_eqI) (auto simp: bit_simps)

lemma STEP4_eq: "STEP4 s p crc = ReadUint32LE (drop (s * 4) p) XOR crc_bytes 16 crc"
proof -
  have "unat (drop_bit 24 crc) < 256"
    unfolding unat_drop_bit using unat_u32_less [of crc] by (simp add: less_mult_imp_div_less)
  then have T: "kStrideExtensionTable0 ! unat (drop_bit 24 crc) = crc_bytes 16 (push_bit 24 (drop_bit 24 crc))"
    using stride_table0 [of "unat (drop_bit 24 crc)"] by simp
  have "crc_bytes 16 crc = crc_bytes 16 (crc AND 0xff) XOR crc_bytes 16 (push_bit 8 (drop_bit 8 crc AND 0xff)) XOR
      crc_bytes 16 (push_bit 16 (drop_bit 16 crc AND 0xff)) XOR crc_bytes 16 (push_bit 24 (drop_bit 24 crc))"
    by (subst split_bytes [of crc]) (simp only: crc_bytes_xor)
  moreover note stride_table3 [of "unat (crc AND 0xff)"] stride_table2 [of "unat (drop_bit 8 crc AND 0xff)"]
    stride_table1 [of "unat (drop_bit 16 crc AND 0xff)"]
  ultimately show ?thesis
    unfolding STEP4_def T by (simp add: xor.assoc)
qed

section \<open>Bytes and words\<close>

lemma crc_feed_Cons: "crc_feed l (b # bs) = crc_feed (crc_bytes 1 (l XOR ucast b)) bs"
  by (simp add: crc_feed_def)

lemma crc_feed_Nil [simp]: "crc_feed l [] = l"
  by (simp add: crc_feed_def)

lemma crc_feed_append [simp]: "crc_feed l (xs @ ys) = crc_feed (crc_feed l xs) ys"
  by (simp add: crc_feed_def)

lemma word_le_small: "length bs \<le> k \<Longrightarrow> take_bit (8 * k) (word_le bs) = (word_le bs :: u32)"
  by (rule bit_word_eqI) (auto simp: bit_simps bit_word_le)

lemma word_le_Cons_xor: "word_le (b # bs) = (ucast b XOR push_bit 8 (word_le bs) :: u32)"
proof -
  have "ucast b AND push_bit 8 (word_le bs) = (0 :: u32)"
    by (rule bit_word_eqI) (auto simp: bit_simps dest: bit_imp_le_length)
  then show ?thesis by (simp add: disjunctive_xor_eq_or)
qed

text \<open>Up to four bytes can be fed as one little-endian word.\<close>

lemma crc_feed_word: "length bs \<le> 4 \<Longrightarrow> crc_feed l bs = crc_bytes (length bs) (l XOR word_le bs)"
proof (induction bs arbitrary: l)
  case (Cons b bs)
  have "crc_bytes 1 (push_bit 8 (word_le bs)) = word_le bs"
    using word_le_small [of bs 3] Cons.prems by (intro crc_bytes_shift) simp
  then have "crc_bytes 1 (l XOR word_le (b # bs)) = crc_bytes 1 (l XOR ucast b) XOR word_le bs"
    by (simp only: word_le_Cons_xor crc_bytes_xor xor.assoc)
  moreover have "crc_bytes (length (b # bs)) x = crc_bytes (length bs) (crc_bytes 1 x)" for x
    by simp
  ultimately show ?case using Cons by (simp only: crc_feed_Cons) simp
qed simp

lemma ReadUint32LE_eq: "4 \<le> length p \<Longrightarrow> ReadUint32LE p = word_le (take 4 p)"
  by (simp add: ReadUint32LE_def DecodeFixed32_eq)

lemma crc_feed_4: "4 \<le> length p \<Longrightarrow> crc_feed l (take 4 p) = crc_bytes 4 (l XOR ReadUint32LE p)"
  by (simp add: crc_feed_word ReadUint32LE_eq min_def)

lemma take_16: "take 16 p = take 4 p @ take 4 (drop 4 p) @ take 4 (drop 8 p) @ take 4 (drop 12 p)"
  using take_add [of 4 12 p] take_add [of 4 8 "drop 4 p"] take_add [of 4 4 "drop 8 p"] by simp

lemma crc_feed_16:
  assumes "16 \<le> length p"
  shows "crc_feed l (take 16 p) = crc_bytes 16 (l XOR ReadUint32LE p) XOR crc_bytes 12 (ReadUint32LE (drop 4 p))
    XOR crc_bytes 8 (ReadUint32LE (drop 8 p)) XOR crc_bytes 4 (ReadUint32LE (drop 12 p))"
  using assms by (simp add: take_16 crc_feed_4 crc_bytes_xor xor.assoc del: take_append)

section \<open>The four lanes\<close>

lemma combine_lanes_eq:
  "combine_lanes (c0, c1, c2, c3) = crc_bytes 16 c0 XOR crc_bytes 12 c1 XOR crc_bytes 8 c2 XOR crc_bytes 4 c3"
  by (simp add: combine_lanes_def STEP4W_eq crc_bytes_xor xor.commute xor.left_commute)

lemma STEP16_feed:
  assumes "16 \<le> length p"
  shows "combine_lanes (STEP16 p crcs) = crc_feed (combine_lanes crcs) (take 16 p)"
proof -
  obtain c0 c1 c2 c3 where c: "crcs = (c0, c1, c2, c3)" by (cases crcs)
  show ?thesis
    by (simp add: c STEP16_def STEP4_eq combine_lanes_eq crc_feed_16 [OF assms] crc_bytes_xor
        xor.commute xor.left_commute)
qed

lemma rotate_feed:
  assumes "4 \<le> length p"
  shows "combine_lanes (c1, c2, c3, STEP4 0 p c0) = crc_feed (combine_lanes (c0, c1, c2, c3)) (take 4 p)"
  by (simp add: STEP4_eq combine_lanes_eq crc_feed_4 [OF assms] crc_bytes_xor xor.commute xor.left_commute)

lemma crc_feed_take_drop: "crc_feed (crc_feed l (take n p)) (drop n p) = crc_feed l p"
  by (metis append_take_drop_id crc_feed_append)

lemma swath_loop_feed:
  "swath_loop p crcs = (p', crcs') \<Longrightarrow> crc_feed (combine_lanes crcs') p' = crc_feed (combine_lanes crcs) p"
proof (induction p crcs arbitrary: p' crcs' rule: swath_loop.induct)
  case (1 p crcs)
  show ?case
  proof (cases "16 \<le> length p")
    case True
    then have "swath_loop (drop 16 p) (STEP16 p crcs) = (p', crcs')"
      using "1.prems" by (subst (asm) swath_loop.simps) simp
    from "1.IH" [OF True this] show ?thesis by (simp add: STEP16_feed [OF True] crc_feed_take_drop)
  next
    case False
    with "1.prems" show ?thesis by (subst (asm) swath_loop.simps) simp
  qed
qed

lemma word_loop_feed:
  "word_loop p crcs = (p', crcs') \<Longrightarrow> crc_feed (combine_lanes crcs') p' = crc_feed (combine_lanes crcs) p"
proof (induction p crcs arbitrary: p' crcs' rule: word_loop.induct)
  case (1 p crcs)
  obtain c0 c1 c2 c3 where c: "crcs = (c0, c1, c2, c3)" by (cases crcs)
  show ?case
  proof (cases "4 \<le> length p")
    case True
    then have "word_loop (drop 4 p) (c1, c2, c3, STEP4 0 p c0) = (p', crcs')"
      using "1.prems" c by (subst (asm) word_loop.simps) simp
    from "1.IH" [OF True c [symmetric] refl refl this] show ?thesis
      by (simp add: c rotate_feed [OF True] crc_feed_take_drop)
  next
    case False
    with "1.prems" show ?thesis by (subst (asm) word_loop.simps) simp
  qed
qed

lemma not_accelerated [simp]: "\<not> CanAccelerateCRC32C"
  by (simp add: CanAccelerateCRC32C_def AcceleratedCRC32C_def kTestCRCValue_def)

lemma xor_mask: "x XOR kCRC32Xor = NOT x"
proof -
  have m: "kCRC32Xor = - 1" by (simp add: kCRC32Xor_def)
  show ?thesis unfolding m by (rule bit.xor_one_right)
qed

lemma lanes_feed:
  assumes "16 \<le> length p"
    and "swath_loop (drop 16 p) (ReadUint32LE p XOR l, ReadUint32LE (drop 4 p), ReadUint32LE (drop 8 p),
      ReadUint32LE (drop 12 p)) = (p', crcs')"
    and "word_loop p' crcs' = (p'', crcs'')"
  shows "crc_feed (combine_lanes crcs'') p'' = crc_feed l p"
proof -
  have "combine_lanes (ReadUint32LE p XOR l, ReadUint32LE (drop 4 p), ReadUint32LE (drop 8 p),
      ReadUint32LE (drop 12 p)) = crc_feed l (take 16 p)"
    by (simp add: combine_lanes_eq crc_feed_16 [OF assms(1)] xor.commute)
  with word_loop_feed [OF assms(3)] swath_loop_feed [OF assms(2)] show ?thesis
    by (simp add: crc_feed_take_drop)
qed

lemma align_feed: "align_bytes a p l = (p', l') \<Longrightarrow> crc_feed l' p' = crc_feed l p"
  by (auto simp: align_bytes_def Let_def crc_feed_take_drop split: if_splits)

lemma swaths_feed: "process_swaths p l = (p', l') \<Longrightarrow> crc_feed l' p' = crc_feed l p"
  by (auto simp: process_swaths_def Let_def lanes_feed split: if_splits prod.splits)

lemma Extend_at_eq: "Extend_at a crc data = crc32c_spec crc data"
  by (simp add: Extend_at_def crc32c_spec_def Let_def xor_mask align_feed swaths_feed split: prod.split)

lemma crc32c_Extend_eq: "crc32c_Extend crc data = crc32c_spec crc data"
  by (simp add: crc32c_Extend_def Extend_at_eq)

lemma Extend_Value: "crc32c_Extend (crc32c_Value xs) ys = crc32c_Value (xs @ ys)"
  by (simp add: crc32c_Value_def crc32c_Extend_eq crc32c_spec_def)

section \<open>Detection of errors\<close>

lemma xor_right_cancel [simp]: "x XOR z = y XOR z \<longleftrightarrow> x = y" for x y z :: "'a::len word"
  by (metis xor.assoc xor_self_eq xor.right_neutral)

lemma xor_eq_0: "x XOR y = 0 \<longleftrightarrow> x = y" for x y :: "'a::len word"
  using xor_right_cancel [of x y y] by simp

lemma crc_bit_inj: "crc_bit x = crc_bit y \<longleftrightarrow> x = y"
proof -
  have "z = 0" if "crc_bit z = 0" for z
  proof -
    have low: "z AND 1 = 0"
    proof (rule ccontr)
      assume "z AND 1 \<noteq> 0"
      then have "drop_bit 1 z = crc_poly" using that by (simp only: crc_bit_def xor_eq_0 if_False)
      moreover have "\<not> bit (drop_bit 1 z) 31" by (auto simp: bit_simps dest: bit_imp_le_length)
      moreover have "bit crc_poly 31" by (simp add: crc_poly_def)
      ultimately show False by simp
    qed
    then have "drop_bit 1 z = 0" using that by (simp only: crc_bit_def simp_thms if_True xor.right_neutral)
    then have "\<not> bit (drop_bit 1 z) n" for n by (simp only: bit_0_eq bot_apply bot_bool_def simp_thms)
    then have b: "\<not> bit z (Suc n)" for n by (simp add: bit_simps)
    show "z = 0"
    proof (rule bit_word_eqI)
      fix n
      show "bit z n = bit 0 n" using b [of "n - 1"] low by (cases n) (simp_all add: and1)
    qed
  qed
  moreover have "crc_bit (x XOR y) = 0" if "crc_bit x = crc_bit y" using that by (simp add: crc_bit_xor)
  ultimately show ?thesis by (metis xor_eq_0)
qed

lemma crc_bytes_inj [simp]: "crc_bytes n x = crc_bytes n y \<longleftrightarrow> x = y"
proof -
  have "(crc_bit ^^ k) x = (crc_bit ^^ k) y \<longleftrightarrow> x = y" for k
    by (induction k) (simp_all add: crc_bit_inj)
  then show ?thesis by (simp add: crc_bytes_def)
qed

lemma crc_feed_inj [simp]: "crc_feed l bs = crc_feed l' bs \<longleftrightarrow> l = l'"
  by (induction bs arbitrary: l l') (simp_all add: crc_feed_Cons)

lemma word_le_inj:
  assumes "length bs = length bs'" "length bs \<le> 4" "(word_le bs :: u32) = word_le bs'"
  shows "bs = bs'"
proof (rule nth_equalityI)
  fix i
  assume i: "i < length bs"
  show "bs ! i = bs' ! i"
  proof (rule bit_word_eqI)
    fix n :: nat
    assume n: "n < LENGTH(8)"
    have "8 * i + n < 32" using i n assms(2) by simp
    moreover have "(8 * i + n) div 8 = i" "(8 * i + n) mod 8 = n" using n by simp_all
    ultimately show "bit (bs ! i) n = bit (bs' ! i) n"
      using arg_cong [OF assms(3), of "\<lambda>w. bit w (8 * i + n)"] i assms(1) by (simp add: bit_word_le)
  qed
qed (rule assms(1))

lemma crc_feed_burst:
  assumes "length m = length m'" "length m \<le> 4"
  shows "crc_feed l (pre @ m @ suf) = crc_feed l (pre @ m' @ suf) \<longleftrightarrow> m = m'"
  using assms word_le_inj [of m m'] by (auto simp: crc_feed_word xor.commute [of _ "word_le _"])

section \<open>Masking\<close>

lemma rotate_15: "drop_bit 17 (drop_bit 15 w OR push_bit 17 w) OR push_bit 15 (drop_bit 15 w OR push_bit 17 w) = w"
  for w :: u32
proof (rule bit_word_eqI)
  fix n :: nat
  assume "n < LENGTH(32)"
  then show "bit (drop_bit 17 (drop_bit 15 w OR push_bit 17 w) OR push_bit 15 (drop_bit 15 w OR push_bit 17 w)) n = bit w n"
    by (cases "n < 15") (auto simp: bit_simps dest: bit_imp_le_length)
qed

lemma Unmask_Mask [simp]: "Unmask (Mask crc) = crc"
  by (simp only: Unmask_def Mask_def Let_def add_diff_cancel_right' rotate_15)

lemma Mask_Unmask [simp]: "Mask (Unmask masked) = masked"
proof -
  have "inj Mask" by (metis Unmask_Mask injI)
  then have "surj Mask" by (rule finite_UNIV_inj_surj [rotated]) simp
  then show ?thesis by (metis Unmask_Mask surjD)
qed

lemma value_burst:
  assumes "length m = length m'" "length m \<le> 4" "m \<noteq> m'"
  shows "crc32c_Value (pre @ m @ suf) \<noteq> crc32c_Value (pre @ m' @ suf)"
  using crc_feed_burst [OF assms(1,2)] assms(3)
  by (simp only: crc32c_Value_def crc32c_Extend_eq crc32c_spec_def bit.compl_eq_compl_iff simp_thms)

section \<open>Properties\<close>

text \<open>
  C13: \<open>Extend\<close>, with its tables, its alignment step, its four interleaved lanes and their
  combination, computes the bit-by-bit CRC-32C of the data from the checksum given, at every address
  and for every length.
\<close>

theorem extend_is_crc32c: "Extend_at a crc data = crc32c_spec crc data"
  by (rule Extend_at_eq)

text \<open>
  C25: Two strings of equal length that differ only inside a window of at most four bytes have
  different checksums (every error burst of up to 32 bits is detected), also after masking.
\<close>

theorem burst_detected:
  assumes "length m = length m'" "length m \<le> 4" "m \<noteq> m'"
  shows "crc32c_Value (pre @ m @ suf) \<noteq> crc32c_Value (pre @ m' @ suf) \<and>
    Mask (crc32c_Value (pre @ m @ suf)) \<noteq> Mask (crc32c_Value (pre @ m' @ suf))"
  using value_burst [OF assms] by (metis Unmask_Mask)

lemma burst_detected_witness:
  "crc32c_Value ([1] @ [2, 3] @ [4]) \<noteq> crc32c_Value ([1] @ [3, 2] @ [4])"
  using burst_detected [of "[2, 3]" "[3, 2]" "[1]" "[4]"] by simp

text \<open>
  Checksums are incremental: extending the checksum of one string by another is the checksum of
  the concatenation, and the empty string has checksum 0.  Masking loses nothing: \<open>Unmask\<close> undoes
  \<open>Mask\<close> and \<open>Mask\<close> undoes \<open>Unmask\<close>.
\<close>

theorem checksum_laws:
  "crc32c_Extend (crc32c_Value xs) ys = crc32c_Value (xs @ ys) \<and> crc32c_Value [] = 0 \<and>
   Unmask (Mask crc) = crc \<and> Mask (Unmask masked) = masked"
proof -
  have "crc32c_Value [] = 0" by (simp add: crc32c_Value_def crc32c_Extend_eq crc32c_spec_def)
  then show ?thesis by (simp add: Extend_Value)
qed

end
