(* ===== verification/LDB_Log_Write.thy ===== *)
theory LDB_Log_Write
  imports LDB_Log LDB_Files LDB_Crc_Props
begin

text \<open>
  The log as a sequence of bytes: physical records placed in blocks, the fragments of a record, and
  the proof that \<open>AddRecord\<close> appends exactly the placed fragments of its argument behind whatever
  the append that fills the trailer of a block left; in a buffered file this is the padding.
\<close>

section \<open>The format\<close>

text \<open>A physical record: masked checksum of type and payload, length, type, payload.\<close>

definition phys :: "u32 \<Rightarrow> slice \<Rightarrow> u8 list" where
  "phys t d = EncodeFixed32 (Mask (crc32c_Value (ucast t # d))) @
     [word_of_nat (length d mod 256), word_of_nat (length d div 256), ucast t] @ d"

text \<open>
  Where a physical record goes when the block already holds \<open>off\<close> bytes: the padding before it, and
  the offset its header starts at.
\<close>

definition pad_at :: "nat \<Rightarrow> nat" where
  "pad_at off = (if kBlockSize - off < kHeaderSize then kBlockSize - off else 0)"

definition start_at :: "nat \<Rightarrow> nat" where
  "start_at off = (if kBlockSize - off < kHeaderSize then 0 else off)"

definition next_off :: "nat \<Rightarrow> slice \<Rightarrow> nat" where
  "next_off off d = start_at off + kHeaderSize + length d"

fun place :: "nat \<Rightarrow> (u32 \<times> slice) list \<Rightarrow> u8 list" where
  "place off [] = []"
| "place off ((t, d) # cs) = replicate (pad_at off) 0 @ phys t d @ place (next_off off d) cs"

fun end_off :: "nat \<Rightarrow> (u32 \<times> slice) list \<Rightarrow> nat" where
  "end_off off [] = off"
| "end_off off ((t, d) # cs) = end_off (next_off off d) cs"

fun fits :: "nat \<Rightarrow> (u32 \<times> slice) list \<Rightarrow> bool" where
  "fits off [] = (off \<le> kBlockSize)"
| "fits off ((t, d) # cs) = (off \<le> kBlockSize \<and> next_off off d \<le> kBlockSize \<and> fits (next_off off d) cs)"

lemmas log_consts = kBlockSize_def kHeaderSize_def
lemmas log_types = kZeroType_def kFullType_def kFirstType_def kMiddleType_def kLastType_def
  kMaxRecordType_def kEof_def kBadRecord_def

lemma place_append: "place off (xs @ ys) = place off xs @ place (end_off off xs) ys"
  by (induction off xs rule: place.induct) simp_all

lemma end_off_append: "end_off off (xs @ ys) = end_off (end_off off xs) ys"
  by (induction off xs rule: end_off.induct) simp_all

lemma fits_append: "fits off (xs @ ys) \<longleftrightarrow> fits off xs \<and> fits (end_off off xs) ys"
proof (induction off xs rule: fits.induct)
  case (1 off)
  then show ?case by (cases ys) auto
qed auto

lemma length_phys [simp]: "length (phys t d) = kHeaderSize + length d"
  by (simp add: phys_def kHeaderSize_def)

section \<open>Fragments\<close>

definition frag_type :: "bool \<Rightarrow> bool \<Rightarrow> u32" where
  "frag_type first fin =
     (if first \<and> fin then kFullType else if first then kFirstType else if fin then kLastType else kMiddleType)"

definition room :: "nat \<Rightarrow> nat" where
  "room off = kBlockSize - kHeaderSize - start_at off"

lemma room_0: "off \<le> kBlockSize \<Longrightarrow> room off = 0 \<longleftrightarrow> off = kBlockSize - kHeaderSize"
  by (auto simp: room_def start_at_def log_consts)

lemma room_full: "room kBlockSize = kBlockSize - kHeaderSize"
  by (simp add: room_def start_at_def log_consts)

lemma next_off_room: "room off \<le> length d \<Longrightarrow> off \<le> kBlockSize \<Longrightarrow> next_off off (take (room off) d) = kBlockSize"
  by (simp add: next_off_def room_def start_at_def log_consts)

function fragments :: "nat \<Rightarrow> bool \<Rightarrow> slice \<Rightarrow> (u32 \<times> slice) list" where
  "fragments off first d =
     (let n = min (length d) (room off)
      in if length d = n then [(frag_type first True, d)]
         else (frag_type first False, take n d) # fragments (next_off off (take n d)) False (drop n d))"
  by pat_completeness auto
termination
proof (relation "measure (\<lambda>(off, first, d). 2 * length d + (if room off = 0 then 1 else 0))")
  fix off :: nat and first :: bool and d :: slice and n
  assume n: "n = min (length d) (room off)" and ne: "length d \<noteq> n"
  have "room (next_off off (take n d)) \<noteq> 0" if "n = 0"
  proof -
    have "room off = 0" using that n ne by (auto simp: min_def split: if_splits)
    then have "kBlockSize - off \<ge> kHeaderSize \<and> off + kHeaderSize \<ge> kBlockSize"
      by (auto simp: room_def start_at_def log_consts split: if_splits)
    then show ?thesis using that by (auto simp: room_def next_off_def start_at_def log_consts)
  qed
  then show "((next_off off (take n d), False, drop n d), off, first, d)
      \<in> measure (\<lambda>(off, first, d). 2 * length d + (if room off = 0 then 1 else 0))"
    using n ne by (cases "n = 0") (auto simp: min_def split: if_splits)
qed simp

declare fragments.simps [simp del]

lemma fragments_last: "length d \<le> room off \<Longrightarrow> fragments off first d = [(frag_type first True, d)]"
  by (subst fragments.simps) (simp add: Let_def)

lemma fragments_more:
  "room off < length d \<Longrightarrow> fragments off first d =
     (frag_type first False, take (room off) d) #
       fragments (next_off off (take (room off) d)) False (drop (room off) d)"
  by (subst fragments.simps) (simp add: Let_def min_def)

text \<open>Induction over the fragments of a record.\<close>

lemma fragments_induct [case_names last more]:
  assumes "\<And>off first d. length d \<le> room off \<Longrightarrow> P off first d"
    and "\<And>off first d. room off < length d \<Longrightarrow>
      P (next_off off (take (room off) d)) False (drop (room off) d) \<Longrightarrow> P off first d"
  shows "P off first d"
proof (induction off first d rule: fragments.induct)
  case (1 off first d)
  show ?case
    by (cases "length d \<le> room off") (use assms 1 in \<open>auto simp: min_def not_le\<close>)
qed

lemma fragments_ne [simp]: "fragments off first d \<noteq> []"
  by (subst fragments.simps) (simp add: Let_def)

lemma next_off_le: "length d \<le> room off \<Longrightarrow> off \<le> kBlockSize \<Longrightarrow> next_off off d \<le> kBlockSize"
  by (auto simp: next_off_def room_def start_at_def log_consts split: if_splits)

lemma fragments_fit: "off \<le> kBlockSize \<Longrightarrow> fits off (fragments off first d)"
proof (induction off first d rule: fragments_induct)
  case (last off first d)
  then show ?case by (simp add: fragments_last next_off_le)
next
  case (more off first d)
  then have "next_off off (take (room off) d) \<le> kBlockSize" by (intro next_off_le) simp_all
  with more show ?case by (simp add: fragments_more)
qed

lemma fragments_payload: "concat (map snd (fragments off first d)) = d"
  by (induction off first d rule: fragments_induct) (simp_all add: fragments_last fragments_more)

section \<open>The writer appends the fragments\<close>

lemma InitTypeCrc_nth: "unat t \<le> 4 \<Longrightarrow> InitTypeCrc ! unat t = crc32c_Value [ucast t]"
proof -
  assume t: "unat t \<le> 4"
  have "(ucast t :: u8) = word_of_nat (unat t)" by (simp add: of_nat_unat)
  with t show ?thesis by (simp add: InitTypeCrc_def log_types del: upt_Suc)
qed

lemma u8_of_nat_and: "(word_of_nat n AND 0xff :: u8) = word_of_nat (n mod 256)"
proof -
  have "w AND 0xff = w" for w :: u8
  proof -
    have "w AND mask 8 = w" by (simp add: take_bit_eq_mask [symmetric] take_bit_word_eq_self)
    then show ?thesis by (simp add: mask_eq_exp_minus_1)
  qed
  then show ?thesis by (simp add: word_unat_eq_iff unsigned_of_nat take_bit_eq_mod)
qed

lemma log_header_phys:
  assumes "unat t \<le> 4" "length d < 65536"
  shows "log_header InitTypeCrc t d @ d = phys t d"
proof -
  have "(word_of_nat (length d) AND 0xff :: u8) = word_of_nat (length d mod 256)"
    using u8_of_nat_and [of "length d"] .
  moreover have "crc32c_Extend (crc32c_Value [ucast t]) d = crc32c_Value (ucast t # d)"
    by (simp add: Extend_Value)
  ultimately show ?thesis
    by (simp add: log_header_def phys_def InitTypeCrc_nth [OF assms(1)] Let_def)
qed

definition writer_ok :: "('f \<Rightarrow> bool) \<Rightarrow> 'f Writer \<Rightarrow> bool" where
  "writer_ok good w = (good (dest w) \<and> 0 \<le> block_offset w \<and> block_offset w \<le> int kBlockSize \<and>
     type_crc w = InitTypeCrc)"

lemma fragments_types: "(t, x) \<in> set (fragments off first d) \<Longrightarrow> unat t \<le> 4"
  by (induction off first d rule: fragments_induct)
    (auto simp: fragments_last fragments_more frag_type_def log_types)

definition never_fails :: "'f writable_ops \<Rightarrow> ('f \<Rightarrow> bool) \<Rightarrow> bool" where
  "never_fails F good \<longleftrightarrow> (\<forall>f d s f'. good f \<longrightarrow> Append F f d = Some (s, f') \<longrightarrow> status_ok s) \<and>
     (\<forall>f s f'. good f \<longrightarrow> Flush F f = Some (s, f') \<longrightarrow> status_ok s)"

text \<open>
  The append that fills the trailer of a block: when \<open>n\<close> bytes are left, it is made and leaves the
  file \<open>f0\<close> with status \<open>t\<close>, which the writer does not look at; when none are left there is none.
\<close>

definition trailer :: "'f writable_ops \<Rightarrow> 'f \<Rightarrow> nat \<Rightarrow> Status \<Rightarrow> 'f \<Rightarrow> bool" where
  "trailer F f n t f0 \<longleftrightarrow>
     (if n = 0 then t = status_OK \<and> f0 = f else Append F f (replicate n 0) = Some (t, f0))"

lemma place_drop: "cs \<noteq> [] \<Longrightarrow> replicate (pad_at off) 0 @ drop (pad_at off) (place off cs) = place off cs"
  by (cases cs) auto

lemma drop_place: "drop (pad_at off) (place off ((t, d) # cs)) = phys t d @ place (next_off off d) cs"
  by simp

lemma pad_at_block [simp]: "pad_at kBlockSize = 0"
  by (simp add: pad_at_def)

text \<open>Every call of \<open>AddRecord\<close> returns, keeps the writer's invariant and meets no failing assertion.\<close>

context writable_file
begin

lemma Emit_returns:
  assumes "writer_ok good w" "block_offset w + int kHeaderSize + int (length d) \<le> int kBlockSize"
  shows "\<exists>s w'. EmitPhysicalRecord F w t d = Some (s, w') \<and> writer_ok good w' \<and>
    block_offset w' = block_offset w + int kHeaderSize + int (length d) \<and>
    (status_ok s \<longrightarrow> contents (dest w') = contents (dest w) @ log_header InitTypeCrc t d @ d \<and> flushed (dest w')) \<and>
    (never_fails F good \<longrightarrow> status_ok s)"
proof -
  have len: "length d \<le> 0xffff" using assms by (auto simp: writer_ok_def log_consts)
  let ?h = "log_header InitTypeCrc t d"
  obtain s1 d1 where 1: "Append F (dest w) ?h = Some (s1, d1)" "good d1"
    using append_returns [of "dest w" ?h] assms(1) by (auto simp: writer_ok_def)
  note ok1 = append_ok [OF _ 1(1)]
  obtain s2 d2 where 2: "Append F d1 d = Some (s2, d2)" "good d2" using append_returns 1(2) by blast
  note ok2 = append_ok [OF 1(2) 2(1)]
  obtain s3 d3 where 3: "Flush F d2 = Some (s3, d3)" "good d3" using flush_returns 2(2) by blast
  note ok3 = flush_ok [OF 2(2) 3(1)]
  have nf: "never_fails F good \<Longrightarrow> status_ok s1 \<and> status_ok s2 \<and> status_ok s3"
    using 1 2 3 assms(1) unfolding never_fails_def writer_ok_def by blast
  show ?thesis
    using assms len 1 2 3 ok1 ok2 ok3 nf
    by (auto simp: EmitPhysicalRecord_def Let_def writer_ok_def log_consts)
qed

lemma trailer_returns:
  assumes "writer_ok good w" "block_offset w = int off"
  shows "\<exists>w' t. (if int kBlockSize - block_offset w < int kHeaderSize then
       (case (if int kBlockSize - block_offset w > 0 then
                map_option snd (Append F (dest w) (take (nat (int kBlockSize - block_offset w)) [0, 0, 0, 0, 0, 0]))
              else Some (dest w)) of None \<Rightarrow> None
        | Some d \<Rightarrow> Some (w\<lparr>dest := d, block_offset := 0\<rparr>))
     else Some w) = Some w' \<and> writer_ok good w' \<and> block_offset w' = int (start_at off) \<and>
     trailer F (dest w) (pad_at off) t (dest w')"
proof (cases "off < kBlockSize \<and> kBlockSize < off + kHeaderSize")
  case True
  then have n: "nat (int kBlockSize - int off) = pad_at off" "pad_at off < 7" "off < kBlockSize"
    by (auto simp: pad_at_def log_consts)
  have zs: "take (pad_at off) [0, 0, 0, 0, 0, 0 :: u8] = replicate (pad_at off) 0"
  proof -
    have "[0, 0, 0, 0, 0, 0 :: u8] = replicate 6 0" by (simp add: eval_nat_numeral)
    then show ?thesis using n(2) by (simp add: min_def)
  qed
  obtain s d where a: "Append F (dest w) (replicate (pad_at off) 0) = Some (s, d)" "good d"
    using append_returns [of "dest w" "replicate (pad_at off) 0"] assms(1) by (auto simp: writer_ok_def)
  moreover have "pad_at off \<noteq> 0" using True by (auto simp: pad_at_def)
  ultimately show ?thesis using True a assms n zs by (auto simp: writer_ok_def start_at_def trailer_def)
next
  case False
  with assms show ?thesis
    by (auto simp: writer_ok_def pad_at_def start_at_def log_consts trailer_def)
qed

lemma trailer_ok:
  "good f \<Longrightarrow> trailer F f n t f0 \<Longrightarrow> status_ok t \<Longrightarrow> contents f0 = contents f @ replicate n 0"
  using append_ok [of f "replicate n 0" t f0] by (auto simp: trailer_def split: if_splits)

lemma AddRecord_round:
  assumes "writer_ok good w" "block_offset w = int off" and n: "n = min (length d) (room off)"
  shows "\<exists>s w' t f0. AddRecord_step F (d, first, w) =
      Some (if status_ok s \<and> drop n d \<noteq> [] then Inr (drop n d, False, w') else Inl (s, w')) \<and>
    writer_ok good w' \<and> block_offset w' = int (next_off off (take n d)) \<and>
    trailer F (dest w) (pad_at off) t f0 \<and>
    (status_ok s \<longrightarrow> flushed (dest w') \<and>
       contents (dest w') = contents f0 @ phys (frag_type first (length d = n)) (take n d)) \<and>
    (never_fails F good \<longrightarrow> status_ok s)"
proof -
  let ?t = "frag_type first (length d = n)"
  have off: "off \<le> kBlockSize" using assms(1,2) by (simp add: writer_ok_def)
  obtain w1 t where 1: "(if int kBlockSize - block_offset w < int kHeaderSize then
       (case (if int kBlockSize - block_offset w > 0 then
                map_option snd (Append F (dest w) (take (nat (int kBlockSize - block_offset w)) [0, 0, 0, 0, 0, 0]))
              else Some (dest w)) of None \<Rightarrow> None
        | Some d \<Rightarrow> Some (w\<lparr>dest := d, block_offset := 0\<rparr>))
     else Some w) = Some w1" "writer_ok good w1" "block_offset w1 = int (start_at off)"
     "trailer F (dest w) (pad_at off) t (dest w1)"
    using trailer_returns [OF assms(1,2)] by blast
  have room: "nat (int kBlockSize - block_offset w1 - int kHeaderSize) = room off"
    "int kBlockSize - block_offset w1 - int kHeaderSize \<ge> 0"
    using off by (auto simp: 1(3) room_def start_at_def log_consts)
  have fl: "(if length d < room off then length d else room off) = n" by (simp add: n min_def)
  have "block_offset w1 + int kHeaderSize + int (length (take n d)) \<le> int kBlockSize"
    using room(2) n by (auto simp: 1(3) room(1) [symmetric])
  then obtain s w2 where 2: "EmitPhysicalRecord F w1 ?t (take n d) = Some (s, w2)" "writer_ok good w2"
    "block_offset w2 = block_offset w1 + int kHeaderSize + int (length (take n d))"
    "status_ok s \<longrightarrow> contents (dest w2) = contents (dest w1) @ log_header InitTypeCrc ?t (take n d) @ take n d
      \<and> flushed (dest w2)"
    "never_fails F good \<longrightarrow> status_ok s"
    using Emit_returns [OF 1(2)] by blast
  have "length (take n d) < 65536" using n by (auto simp: room_def log_consts)
  then have ph: "log_header InitTypeCrc ?t (take n d) @ take n d = phys ?t (take n d)"
    by (intro log_header_phys) (simp_all add: frag_type_def log_types)
  have "AddRecord_step F (d, first, w) =
      Some (if status_ok s \<and> drop n d \<noteq> [] then Inr (drop n d, False, w2) else Inl (s, w2))"
    using 1(1) 2(1) room off assms(2)
    unfolding AddRecord_step_def prod.case Let_def 1(1) option.case room(1) fl frag_type_def
    by auto
  moreover have "block_offset w2 = int (next_off off (take n d))"
    using 2(3) 1(3) by (simp add: next_off_def)
  moreover have "status_ok s \<longrightarrow> flushed (dest w2) \<and> contents (dest w2) = contents (dest w1) @ phys ?t (take n d)"
    using 2(4) ph by simp
  ultimately show ?thesis using 1(4) 2(2,5) by blast
qed

lemma AddRecord_loop:
  "writer_ok good w \<Longrightarrow> block_offset w = int off \<Longrightarrow>
   \<exists>s w' t f0. c_loop (AddRecord_step F) (d, first, w) = Some (s, w') \<and> writer_ok good w' \<and>
     trailer F (dest w) (pad_at off) t f0 \<and>
     (status_ok s \<longrightarrow>
       contents (dest w') = contents f0 @ drop (pad_at off) (place off (fragments off first d)) \<and>
       block_offset w' = int (end_off off (fragments off first d)) \<and> flushed (dest w')) \<and>
     (never_fails F good \<longrightarrow> status_ok s)"
proof (induction off first d arbitrary: w rule: fragments_induct)
  case (last off first d)
  then have n: "length d = min (length d) (room off)" by simp
  from AddRecord_round [OF last.prems n, of first]
  show ?case by (fastforce simp: c_loop_unfold fragments_last [OF last.hyps])
next
  case (more off first d)
  let ?n = "room off"
  have n: "?n = min (length d) (room off)" and ne: "length d \<noteq> ?n" "drop ?n d \<noteq> []"
    using more.hyps by simp_all
  from AddRecord_round [OF more.prems n, of first] ne
  obtain s w1 t f0 where 1: "AddRecord_step F (d, first, w) =
      Some (if status_ok s then Inr (drop ?n d, False, w1) else Inl (s, w1))" "writer_ok good w1"
    "block_offset w1 = int (next_off off (take ?n d))" "trailer F (dest w) (pad_at off) t f0"
    "status_ok s \<longrightarrow> flushed (dest w1) \<and> contents (dest w1) = contents f0 @ phys (frag_type first False) (take ?n d)"
    "never_fails F good \<longrightarrow> status_ok s" by auto
  have off: "off \<le> kBlockSize" using more.prems by (simp add: writer_ok_def)
  then have pad: "pad_at (next_off off (take ?n d)) = 0" using more.hyps by (simp add: next_off_room)
  show ?case
  proof (cases "status_ok s")
    case True
    from more.IH [OF 1(2,3)] pad obtain s2 w2 where
      2: "c_loop (AddRecord_step F) (drop ?n d, False, w1) = Some (s2, w2)" "writer_ok good w2"
        "status_ok s2 \<longrightarrow>
          contents (dest w2) = contents (dest w1) @
            place (next_off off (take ?n d)) (fragments (next_off off (take ?n d)) False (drop ?n d)) \<and>
          block_offset w2 = int (end_off (next_off off (take ?n d))
            (fragments (next_off off (take ?n d)) False (drop ?n d))) \<and> flushed (dest w2)"
        "never_fails F good \<longrightarrow> status_ok s2" by (auto simp: trailer_def)
    show ?thesis
      by (rule exI [of _ s2], rule exI [of _ w2], rule exI [of _ t], rule exI [of _ f0])
        (use True 1 2 in \<open>simp add: c_loop_unfold fragments_more [OF more.hyps] drop_place\<close>)
  next
    case False
    with 1 show ?thesis by (fastforce simp: c_loop_unfold)
  qed
qed

lemma AddRecord_spec:
  assumes "writer_ok good w" "block_offset w = int off"
  shows "\<exists>s w' t f0. AddRecord F w d = Some (s, w') \<and> writer_ok good w' \<and>
     trailer F (dest w) (pad_at off) t f0 \<and>
     (status_ok t \<longrightarrow> contents f0 = contents (dest w) @ replicate (pad_at off) 0) \<and>
     (status_ok s \<longrightarrow>
       contents (dest w') = contents f0 @ drop (pad_at off) (place off (fragments off True d)) \<and>
       block_offset w' = int (end_off off (fragments off True d)) \<and> flushed (dest w')) \<and>
     (never_fails F good \<longrightarrow> status_ok s)"
  using AddRecord_loop [OF assms, of d True] trailer_ok [of "dest w"] assms(1)
  unfolding AddRecord_def writer_ok_def by blast

end

text \<open>In a buffered file the few bytes of the trailer always fit, so the padding is there.\<close>

context buffered_file
begin

lemma trailer_small: "good f \<Longrightarrow> flushed f \<Longrightarrow> trailer F f (pad_at off) t f0 \<Longrightarrow> status_ok t"
  using append_small [of f "replicate (pad_at off) 0" t f0]
  by (auto simp: trailer_def pad_at_def kHeaderSize_def split: if_splits)

lemma AddRecord_buffered:
  assumes "writer_ok good w" "block_offset w = int off" "flushed (dest w)"
  shows "\<exists>s w'. AddRecord F w d = Some (s, w') \<and> writer_ok good w' \<and>
     (status_ok s \<longrightarrow>
       contents (dest w') = contents (dest w) @ place off (fragments off True d) \<and>
       block_offset w' = int (end_off off (fragments off True d)) \<and> flushed (dest w')) \<and>
     (never_fails F good \<longrightarrow> status_ok s)"
proof -
  from AddRecord_spec [OF assms(1,2), of d] obtain s w' t f0 where
    1: "AddRecord F w d = Some (s, w')" "writer_ok good w'" "trailer F (dest w) (pad_at off) t f0"
      "status_ok t \<longrightarrow> contents f0 = contents (dest w) @ replicate (pad_at off) 0"
      "status_ok s \<longrightarrow>
        contents (dest w') = contents f0 @ drop (pad_at off) (place off (fragments off True d)) \<and>
        block_offset w' = int (end_off off (fragments off True d)) \<and> flushed (dest w')"
      "never_fails F good \<longrightarrow> status_ok s" by blast
  have "status_ok t" using trailer_small [OF _ assms(3) 1(3)] assms(1) by (simp add: writer_ok_def)
  with 1 show ?thesis by (simp add: place_drop)
qed

end

end
