(* ===== verification/LDB_Log_Read.thy ===== *)
theory LDB_Log_Read
  imports LDB_Log_Write
begin

text \<open>
  The log reader on a file that holds the bytes of a log, possibly cut off anywhere: which physical
  records it sees, which records it returns, and where it stops.
\<close>

section \<open>Logs of several records\<close>

fun log_chunks :: "nat \<Rightarrow> slice list \<Rightarrow> (u32 \<times> slice) list" where
  "log_chunks off [] = []"
| "log_chunks off (r # rs) =
     fragments off True r @ log_chunks (end_off off (fragments off True r)) rs"

definition log_bytes :: "nat \<Rightarrow> slice list \<Rightarrow> u8 list" where
  "log_bytes off rs = place off (log_chunks off rs)"

text \<open>The records that lie completely within the first \<open>m\<close> bytes.\<close>

fun complete_records :: "nat \<Rightarrow> nat \<Rightarrow> slice list \<Rightarrow> slice list" where
  "complete_records off m [] = []"
| "complete_records off m (r # rs) =
     (let fs = fragments off True r; n = length (place off fs)
      in if n \<le> m then r # complete_records (end_off off fs) (m - n) rs else [])"

lemma place_block: "place kBlockSize cs = place 0 cs"
  by (cases cs rule: list.exhaust) (auto simp: pad_at_def next_off_def start_at_def log_consts)

lemma fragments_block: "fragments kBlockSize first d = fragments 0 first d"
proof -
  have "room kBlockSize = room 0" "next_off kBlockSize x = next_off 0 x" for x
    by (simp_all add: room_def next_off_def start_at_def log_consts)
  then show ?thesis by (simp add: fragments.simps [of kBlockSize] fragments.simps [of 0] Let_def)
qed

lemma end_off_block: "cs \<noteq> [] \<Longrightarrow> end_off kBlockSize cs = end_off 0 cs"
  by (cases cs) (auto simp: next_off_def start_at_def log_consts)

lemma log_bytes_Nil [simp]: "log_bytes off [] = []"
  by (simp add: log_bytes_def)

lemma log_bytes_Cons:
  "log_bytes off (r # rs) = place off (fragments off True r) @ log_bytes (end_off off (fragments off True r)) rs"
  by (simp add: log_bytes_def place_append)

lemma log_bytes_block: "log_bytes kBlockSize rs = log_bytes 0 rs"
  by (cases rs) (simp_all add: log_bytes_Cons place_block fragments_block end_off_block)

lemma complete_records_block: "complete_records kBlockSize m rs = complete_records 0 m rs"
  by (cases rs) (simp_all add: place_block fragments_block end_off_block Let_def)

lemma end_off_le: "fits off cs \<Longrightarrow> end_off off cs \<le> kBlockSize"
  by (induction off cs rule: fits.induct) auto

section \<open>The reader at a place in the log\<close>

definition at_log :: "('q \<Rightarrow> u8 list) \<Rightarrow> 'q Reader \<Rightarrow> nat \<Rightarrow> u8 list \<Rightarrow> bool" where
  "at_log rest R off S \<longleftrightarrow> off \<le> kBlockSize \<and> r_buffer R = take (kBlockSize - off) S \<and>
     rest (r_file R) = drop (kBlockSize - off) S \<and>
     (if r_eof R then length S < kBlockSize - off else kBlockSize - off \<le> length S) \<and>
     r_initial_offset R = 0 \<and> \<not> r_resyncing R"

lemma at_log_new: "rest q = S \<Longrightarrow> at_log rest (Reader_new q rep chk 0) kBlockSize S"
  by (simp add: at_log_def Reader_new_def)

lemma at_log_resync: "at_log rest R off S \<Longrightarrow> R\<lparr>r_resyncing := False\<rparr> = R \<and> \<not> r_resyncing R"
  by (simp add: at_log_def)

lemma phys_ne [simp]: "phys t d \<noteq> []"
  by (simp add: phys_def)

lemma len_bytes:
  assumes "n < 65536"
  shows "(ucast (word_of_nat (n mod 256) :: u8) AND 0xff) OR push_bit 8 (ucast (word_of_nat (n div 256) :: u8) AND 0xff)
    = (word_of_nat n :: u32)"
proof -
  have low: "(w AND 0xff) = w" if "unat w < 256" for w :: u32
  proof -
    have "take_bit 8 w = w" using that by (simp add: word_unat_eq_iff unsigned_take_bit_eq take_bit_nat_eq_self)
    then show ?thesis by (simp only: low_byte)
  qed
  have u: "(ucast (word_of_nat k :: u8) :: u32) = word_of_nat k" if "k < 256" for k
    using that by (simp add: word_unat_eq_iff unsigned_ucast_eq unsigned_of_nat take_bit_nat_eq_self)
  have d: "n div 256 < 256" using assms by (simp add: less_mult_imp_div_less)
  have "word_of_nat (n mod 256) OR push_bit 8 (word_of_nat (n div 256)) =
      (word_of_nat (n mod 256 + 2 ^ 8 * (n div 256)) :: u32)"
    by (rule or_push_bit) simp
  with d show ?thesis
    by (simp add: u low unsigned_of_nat take_bit_nat_eq_self)
qed

lemma phys_nth:
  "(phys t d @ z) ! 4 = word_of_nat (length d mod 256)"
  "(phys t d @ z) ! 5 = word_of_nat (length d div 256)"
  "(phys t d @ z) ! 6 = ucast t"
  by (simp_all add: phys_def nth_append)

lemma phys_drop: "drop 6 (phys t d @ z) = ucast t # d @ z" "drop 7 (phys t d @ z) = d @ z"
  by (simp_all add: phys_def)

lemma phys_crc: "Unmask (DecodeFixed32 (phys t d @ z)) = crc32c_Value (ucast t # d)"
  by (simp add: phys_def)

lemma record_type_char: "unat t \<le> 4 \<Longrightarrow> scast (ucast t :: u8) = (t :: u32)"
proof -
  assume "unat t \<le> 4"
  then have "unat t \<in> {0, 1, 2, 3, 4}" by auto
  then have "t \<in> {0, 1, 2, 3, 4}"
    by (simp add: word_unat_eq_iff)
  then show ?thesis by auto
qed

lemma parse_phys:
  assumes at: "at_log rest R off (phys t d @ S)" and fit: "off + kHeaderSize + length d \<le> kBlockSize"
    and t: "0 < t" "unat t \<le> 4"
  shows "\<exists>R'. parse_physical R = (t, Some d, R') \<and> at_log rest R' (off + kHeaderSize + length d) S \<and>
    r_reporter R' = r_reporter R"
proof -
  let ?n = "kHeaderSize + length d"
  define z where "z = take (kBlockSize - off - ?n) S"
  have len: "length d < 65536" using fit by (simp add: log_consts)
  have buf: "r_buffer R = phys t d @ z"
    using at fit by (simp add: at_log_def z_def)
  have lenw: "unat (word_of_nat (length d) :: u32) = length d" using len by (simp add: unat_of_nat_32)
  have t0: "t \<noteq> kZeroType" using t(1) by (auto simp: kZeroType_def)
  define R' where "R' = R\<lparr>r_buffer := remove_prefix (r_buffer R) ?n\<rparr>"
  have init: "r_initial_offset R = 0" using at by (simp add: at_log_def)
  have crc: "take (1 + length d) (drop 6 (phys t d @ z)) = ucast t # d"
    unfolding phys_drop by simp
  have payload: "take (length d) (drop kHeaderSize (phys t d @ z)) = d"
    by (simp add: kHeaderSize_def phys_drop del: drop_append take_append) simp
  have "parse_physical R = (t, Some d, R')"
    unfolding parse_physical_def Let_def buf phys_nth phys_crc len_bytes [OF len] record_type_char [OF t(2)] lenw
      crc payload
    using t0 init by (simp add: R'_def buf)
  moreover have "at_log rest R' (off + kHeaderSize + length d) S"
    using at fit by (auto simp: at_log_def R'_def buf remove_prefix_def z_def add.assoc)
  moreover have "r_reporter R' = r_reporter R" by (simp add: R'_def)
  ultimately show ?thesis by blast
qed

text \<open>A header that announces more than is left of the file ends the log without a report.\<close>

lemma parse_cut:
  assumes at: "at_log rest R off (take m (phys t d))" and m: "kHeaderSize \<le> m" "m < kHeaderSize + length d"
    and fit: "off + kHeaderSize + length d \<le> kBlockSize"
  shows "\<exists>R'. parse_physical R = (kEof, None, R') \<and> r_reporter R' = r_reporter R"
proof -
  have len: "length d < 65536" using fit by (simp add: log_consts)
  have lenw: "unat (word_of_nat (length d) :: u32) = length d" using len by (simp add: unat_of_nat_32)
  have buf: "r_buffer R = take m (phys t d)" and eof: "r_eof R"
    using at m fit by (auto simp: at_log_def split: if_splits)
  have nth: "take m (phys t d) ! i = phys t d ! i" if "i < 7" for i
    using m(1) that by (simp add: kHeaderSize_def)
  have h: "take m (phys t d) ! 4 = word_of_nat (length d mod 256)"
    "take m (phys t d) ! 5 = word_of_nat (length d div 256)"
    using phys_nth [of t d "[]"] by (simp_all add: nth)
  have short: "kHeaderSize + length d > length (take m (phys t d))" using m by simp
  show ?thesis
    unfolding parse_physical_def Let_def buf h len_bytes [OF len] lenw if_P [OF short]
    using eof by simp
qed

context readable_file
begin

text \<open>Reading the next block, when less than a header is left of the current one.\<close>

lemma refill:
  assumes at: "at_log rest R off S" and short: "length (r_buffer R) < kHeaderSize" "\<not> r_eof R"
  shows "\<exists>R'. ReadPhysical_step F R = Some (Inr R') \<and> at_log rest R' 0 (drop (kBlockSize - off) S) \<and>
    r_reporter R' = r_reporter R"
proof -
  let ?S = "drop (kBlockSize - off) S"
  obtain st q where rd: "Read F (r_file R) kBlockSize = Some (st, Some (take kBlockSize ?S), q)"
    "status_ok st" "rest q = drop kBlockSize ?S"
    using read_all [of "r_file R" kBlockSize] at by (auto simp: at_log_def)
  show ?thesis
    using short rd at by (auto simp: ReadPhysical_step_def Let_def at_log_def)
qed

lemma read_phys_here:
  assumes "at_log rest R off (phys t d @ S)" "off + kHeaderSize + length d \<le> kBlockSize" "0 < t" "unat t \<le> 4"
  shows "\<exists>R'. ReadPhysicalRecord F R = Some (t, Some d, R') \<and>
    at_log rest R' (off + kHeaderSize + length d) S \<and> r_reporter R' = r_reporter R"
proof -
  have "\<not> length (r_buffer R) < kHeaderSize"
    using assms(1,2) by (simp add: at_log_def)
  with parse_phys [OF assms] show ?thesis
    by (auto simp: ReadPhysicalRecord_def ReadPhysical_step_def c_loop_unfold)
qed

lemma read_phys:
  assumes at: "at_log rest R off (replicate (pad_at off) 0 @ phys t d @ S)"
    and fit: "next_off off d \<le> kBlockSize" and t: "0 < t" "unat t \<le> 4"
  shows "\<exists>R'. ReadPhysicalRecord F R = Some (t, Some d, R') \<and> at_log rest R' (next_off off d) S \<and>
    r_reporter R' = r_reporter R"
proof (cases "kBlockSize - off < kHeaderSize")
  case True
  then have pad: "pad_at off = kBlockSize - off" "start_at off = 0" by (simp_all add: pad_at_def start_at_def)
  have short: "length (r_buffer R) < kHeaderSize" "\<not> r_eof R"
    using at True by (auto simp: at_log_def pad)
  obtain R1 where 1: "ReadPhysical_step F R = Some (Inr R1)" "at_log rest R1 0 (phys t d @ S)"
    "r_reporter R1 = r_reporter R"
    using refill [OF at short] by (auto simp: pad)
  from read_phys_here [OF 1(2) _ t] fit 1 show ?thesis
    by (auto simp: ReadPhysicalRecord_def c_loop_unfold next_off_def pad)
next
  case False
  then have pad: "pad_at off = 0" "start_at off = off" by (simp_all add: pad_at_def start_at_def)
  from read_phys_here [of R off t d S, OF _ _ t] at fit show ?thesis by (simp add: next_off_def pad)
qed

lemma read_cut_here:
  assumes at: "at_log rest R off (take m (phys t d))" and m: "m < kHeaderSize + length d"
    and fit: "off + kHeaderSize + length d \<le> kBlockSize"
  shows "\<exists>R'. ReadPhysicalRecord F R = Some (kEof, None, R') \<and> r_reporter R' = r_reporter R"
proof (cases "m < kHeaderSize")
  case True
  have "length (r_buffer R) < kHeaderSize" "r_eof R"
    using at True m fit by (auto simp: at_log_def split: if_splits)
  then show ?thesis
    by (auto simp: ReadPhysicalRecord_def ReadPhysical_step_def c_loop_unfold)
next
  case False
  then have "kHeaderSize \<le> m" by simp
  moreover have "\<not> length (r_buffer R) < kHeaderSize" using False at m fit by (simp add: at_log_def)
  ultimately show ?thesis
    using parse_cut [OF at _ m fit] by (auto simp: ReadPhysicalRecord_def ReadPhysical_step_def c_loop_unfold)
qed

lemma read_cut:
  assumes at: "at_log rest R off (take m (replicate (pad_at off) 0 @ phys t d))"
    and m: "m < pad_at off + kHeaderSize + length d" and fit: "next_off off d \<le> kBlockSize"
  shows "\<exists>R'. ReadPhysicalRecord F R = Some (kEof, None, R') \<and> r_reporter R' = r_reporter R"
proof (cases "kBlockSize - off < kHeaderSize")
  case True
  then have pad: "pad_at off = kBlockSize - off" "start_at off = 0" by (simp_all add: pad_at_def start_at_def)
  have short: "length (r_buffer R) < kHeaderSize" using at True by (auto simp: at_log_def)
  show ?thesis
  proof (cases "r_eof R")
    case True
    with short show ?thesis
      by (auto simp: ReadPhysicalRecord_def ReadPhysical_step_def c_loop_unfold)
  next
    case False
    obtain R1 where 1: "ReadPhysical_step F R = Some (Inr R1)"
      "at_log rest R1 0 (drop (kBlockSize - off) (take m (replicate (pad_at off) 0 @ phys t d)))"
      "r_reporter R1 = r_reporter R"
      using refill [OF at short False] by blast
    have "drop (kBlockSize - off) (take m (replicate (pad_at off) 0 @ phys t d)) = take (m - pad_at off) (phys t d)"
      unfolding drop_take pad by simp
    moreover have "m - pad_at off < kHeaderSize + length d" using m by (simp add: kHeaderSize_def)
    ultimately show ?thesis using 1 read_cut_here [of R1 0 "m - pad_at off" t d] fit
      by (auto simp: ReadPhysicalRecord_def c_loop_unfold next_off_def pad)
  qed
next
  case False
  then have pad: "pad_at off = 0" "start_at off = off" by (simp_all add: pad_at_def start_at_def)
  from read_cut_here [of R off m t d] at m fit show ?thesis by (simp add: next_off_def pad)
qed


text \<open>The loop of \<open>ReadRecord\<close> over the fragments of one record.\<close>

lemma record_loop:
  assumes "at_log rest R off (place off (fragments off first d) @ S)" "off \<le> kBlockSize"
  shows "\<exists>R'. c_loop (ReadRecord_step F) (fr, \<not> first, scratch, pro, R) =
      Some (Some (if first then d else scratch @ d), R') \<and>
    at_log rest R' (end_off off (fragments off first d)) S \<and> r_reporter R' = r_reporter R"
  using assms
proof (induction off first d arbitrary: fr scratch pro R rule: fragments_induct)
  case (last off first d)
  let ?t = "frag_type first True"
  have t: "0 < ?t" "unat ?t \<le> 4" by (simp_all add: frag_type_def log_types)
  have "at_log rest R off (replicate (pad_at off) 0 @ phys ?t d @ S)"
    using last.prems(1) by (simp add: fragments_last [OF last.hyps])
  then obtain R1 where 1: "ReadPhysicalRecord F R = Some (?t, Some d, R1)" "at_log rest R1 (next_off off d) S"
    "r_reporter R1 = r_reporter R"
    using read_phys next_off_le [OF last.hyps last.prems(2)] t by blast
  then show ?case
    by (cases first)
      (auto simp: c_loop_unfold ReadRecord_step_def Let_def frag_type_def log_types at_log_def
        fragments_last [OF last.hyps])
next
  case (more off first d)
  let ?t = "frag_type first False" and ?x = "take (room off) d" and ?y = "drop (room off) d"
  have t: "0 < ?t" "unat ?t \<le> 4" by (simp_all add: frag_type_def log_types)
  have fit: "next_off off ?x \<le> kBlockSize" using more.prems(2) by (intro next_off_le) simp_all
  let ?S = "place (next_off off ?x) (fragments (next_off off ?x) False ?y) @ S"
  have "at_log rest R off (replicate (pad_at off) 0 @ phys ?t ?x @ ?S)"
    using more.prems(1) by (simp add: fragments_more [OF more.hyps])
  then obtain R1 where 1: "ReadPhysicalRecord F R = Some (?t, Some ?x, R1)" "at_log rest R1 (next_off off ?x) ?S"
    "r_reporter R1 = r_reporter R"
    using read_phys fit t by blast
  let ?sc = "if first then ?x else scratch @ ?x"
  obtain p2 R2 where 2: "ReadRecord_step F (fr, \<not> first, scratch, pro, R) =
      Some (Inr (?x, True, ?sc, p2, R2))" "at_log rest R2 (next_off off ?x) ?S" "r_reporter R2 = r_reporter R"
    using 1 at_log_resync [OF 1(2)]
    by (cases first) (auto simp: ReadRecord_step_def Let_def frag_type_def log_types)
  have "(if first then d else scratch @ d) = ?sc @ ?y" by simp
  with more.IH [OF 2(2) fit, of ?x ?sc p2] 2 show ?case
    by (simp add: c_loop_unfold fragments_more [OF more.hyps])
qed

lemma record_loop_cut:
  assumes "at_log rest R off (take m (place off (fragments off first d)))" "off \<le> kBlockSize"
    and "m < length (place off (fragments off first d))"
  shows "\<exists>R'. c_loop (ReadRecord_step F) (fr, \<not> first, scratch, pro, R) = Some (None, R') \<and>
    r_reporter R' = r_reporter R"
  using assms
proof (induction off first d arbitrary: m fr scratch pro R rule: fragments_induct)
  case (last off first d)
  let ?t = "frag_type first True"
  obtain R1 where 1: "ReadPhysicalRecord F R = Some (kEof, None, R1)" "r_reporter R1 = r_reporter R"
    using read_cut [of R off m ?t d] last.prems next_off_le [OF last.hyps last.prems(2)]
    by (auto simp: fragments_last [OF last.hyps])
  then show ?case
    by (auto simp: c_loop_unfold ReadRecord_step_def Let_def log_types)
next
  case (more off first d)
  let ?t = "frag_type first False" and ?x = "take (room off) d" and ?y = "drop (room off) d"
  have t: "0 < ?t" "unat ?t \<le> 4" by (simp_all add: frag_type_def log_types)
  have fit: "next_off off ?x \<le> kBlockSize" using more.prems(2) by (intro next_off_le) simp_all
  let ?p = "replicate (pad_at off) 0 @ phys ?t ?x"
  let ?S = "place (next_off off ?x) (fragments (next_off off ?x) False ?y)"
  have pl: "place off (fragments off first d) = ?p @ ?S" by (simp add: fragments_more [OF more.hyps])
  show ?case
  proof (cases "m < length ?p")
    case True
    then have "at_log rest R off (take m ?p)" using more.prems(1) by (simp add: pl)
    with True fit obtain R1 where "ReadPhysicalRecord F R = Some (kEof, None, R1)" "r_reporter R1 = r_reporter R"
      using read_cut [of R off m ?t ?x] by auto
    then show ?thesis by (auto simp: c_loop_unfold ReadRecord_step_def Let_def log_types)
  next
    case False
    let ?m = "m - length ?p"
    have "take m (?p @ ?S) = ?p @ take ?m ?S" using False by simp
    then have "at_log rest R off (replicate (pad_at off) 0 @ phys ?t ?x @ take ?m ?S)"
      using more.prems(1) by (simp only: pl append_assoc)
    then obtain R1 where 1: "ReadPhysicalRecord F R = Some (?t, Some ?x, R1)"
      "at_log rest R1 (next_off off ?x) (take ?m ?S)" "r_reporter R1 = r_reporter R"
      using read_phys fit t by blast
    obtain sc p2 R2 where 2: "ReadRecord_step F (fr, \<not> first, scratch, pro, R) =
        Some (Inr (?x, True, sc, p2, R2))" "at_log rest R2 (next_off off ?x) (take ?m ?S)"
      "r_reporter R2 = r_reporter R"
      using 1 at_log_resync [OF 1(2)]
      by (cases first) (auto simp: ReadRecord_step_def Let_def frag_type_def log_types)
    have "?m < length ?S" using more.prems(3) False by (simp only: pl length_append)
    with more.IH [OF 2(2) fit, of ?x sc p2] 2 show ?thesis by (simp add: c_loop_unfold)
  qed
qed

lemma read_record:
  assumes "at_log rest R off (place off (fragments off True d) @ S)" "off \<le> kBlockSize"
  shows "\<exists>R'. ReadRecord F R = Some (Some d, R') \<and>
    at_log rest R' (end_off off (fragments off True d)) S \<and> r_reporter R' = r_reporter R"
  using record_loop [OF assms, of "[]" "[]" 0] assms(1) by (auto simp: ReadRecord_def at_log_def)

lemma read_record_cut:
  assumes "at_log rest R off (take m (place off (fragments off True d)))" "off \<le> kBlockSize"
    and "m < length (place off (fragments off True d))"
  shows "\<exists>R'. ReadRecord F R = Some (None, R') \<and> r_reporter R' = r_reporter R"
  using record_loop_cut [OF assms, of "[]" "[]" 0] assms(1) by (auto simp: ReadRecord_def at_log_def)

lemma read_all_prefix:
  "at_log rest R off (take m (log_bytes off rs)) \<Longrightarrow> off \<le> kBlockSize \<Longrightarrow>
   \<exists>R'. c_loop (read_all_step F) (acc, R) = Some (acc @ complete_records off m rs, R') \<and>
     r_reporter R' = r_reporter R"
proof (induction rs arbitrary: off m acc R)
  case Nil
  then have "at_log rest R off (take 0 (place off (fragments off True [])))" by simp
  moreover have "0 < length (place off (fragments off True []))"
    by (cases "fragments off True []") (auto simp: kHeaderSize_def)
  ultimately obtain R' where "ReadRecord F R = Some (None, R')" "r_reporter R' = r_reporter R"
    using read_record_cut Nil.prems(2) by blast
  then show ?case by (simp add: c_loop_unfold read_all_step_def)
next
  case (Cons r rs)
  let ?fs = "fragments off True r"
  let ?p = "place off ?fs" and ?e = "end_off off ?fs"
  show ?case
  proof (cases "length ?p \<le> m")
    case True
    then have "at_log rest R off (?p @ take (m - length ?p) (log_bytes ?e rs))"
      using Cons.prems(1) by (simp add: log_bytes_Cons)
    then obtain R1 where 1: "ReadRecord F R = Some (Some r, R1)"
      "at_log rest R1 ?e (take (m - length ?p) (log_bytes ?e rs))" "r_reporter R1 = r_reporter R"
      using read_record Cons.prems(2) by blast
    have "?e \<le> kBlockSize" by (intro end_off_le fragments_fit Cons.prems(2))
    from Cons.IH [OF 1(2) this, of "acc @ [r]"] 1 True show ?thesis
      by (auto simp: c_loop_unfold read_all_step_def Let_def)
  next
    case False
    then have "at_log rest R off (take m ?p)" using Cons.prems(1) by (simp add: log_bytes_Cons)
    then obtain R1 where "ReadRecord F R = Some (None, R1)" "r_reporter R1 = r_reporter R"
      using read_record_cut Cons.prems(2) False by (metis not_le)
    with False show ?thesis by (simp add: c_loop_unfold read_all_step_def Let_def)
  qed
qed

end

section \<open>Termination on any file\<close>

definition reader_measure :: "('q \<Rightarrow> u8 list) \<Rightarrow> 'q Reader \<Rightarrow> nat" where
  "reader_measure rest R = 2 * length (rest (r_file R)) + length (r_buffer R) + (if r_eof R then 0 else 1)"

lemma ReportDrop_fields [simp]:
  "r_file (ReportDrop R b s) = r_file R" "r_buffer (ReportDrop R b s) = r_buffer R"
  "r_eof (ReportDrop R b s) = r_eof R" "r_eof_update f (ReportDrop R b s) = ReportDrop (r_eof_update f R) b s"
  by (auto simp: ReportDrop_def split: option.splits)

lemma reader_measure_report [simp]:
  "reader_measure rest (ReportDrop R b s) = reader_measure rest R"
  "reader_measure rest (ReportCorruption R b z) = reader_measure rest R"
  "reader_measure rest (R\<lparr>r_resyncing := x\<rparr>) = reader_measure rest R"
  "reader_measure rest (R\<lparr>r_last_record_offset := y\<rparr>) = reader_measure rest R"
  by (simp_all add: reader_measure_def ReportCorruption_def)

lemma parse_decreases:
  assumes "kHeaderSize \<le> length (r_buffer R)" "parse_physical R = (t, res, R')"
  shows "reader_measure rest R' < reader_measure rest R"
  using assms
  by (auto simp: parse_physical_def Let_def reader_measure_def ReportCorruption_def remove_prefix_def
      kHeaderSize_def split: if_splits)

context sequential_file
begin

lemma read_physical_decreases:
  "\<exists>t res R'. ReadPhysicalRecord F R = Some (t, res, R') \<and>
    (t \<noteq> kEof \<longrightarrow> reader_measure rest R' < reader_measure rest R) \<and> reader_measure rest R' \<le> reader_measure rest R"
proof -
  let ?m = "reader_measure rest"
  have "\<exists>x. c_loop (ReadPhysical_step F) R = Some x \<and>
    (case x of (t, res, R') \<Rightarrow> (t \<noteq> kEof \<longrightarrow> ?m R' < ?m R) \<and> ?m R' \<le> ?m R)"
  proof (rule c_loop_rule [where I = "\<lambda>R'. ?m R' \<le> ?m R" and m = ?m])
    fix S
    assume le: "?m S \<le> ?m R"
    show "\<exists>x. ReadPhysical_step F S = Some x \<and> (case x of
        Inl r \<Rightarrow> (case r of (t, res, R') \<Rightarrow> (t \<noteq> kEof \<longrightarrow> ?m R' < ?m R) \<and> ?m R' \<le> ?m R)
      | Inr S' \<Rightarrow> ?m S' \<le> ?m R \<and> ?m S' < ?m S)"
    proof (cases "length (r_buffer S) < kHeaderSize")
      case False
      obtain t res R' where p: "parse_physical S = (t, res, R')" by (cases "parse_physical S")
      with False parse_decreases [of S t res R' rest] le show ?thesis
        by (auto simp: ReadPhysical_step_def)
    next
      case True
      show ?thesis
      proof (cases "r_eof S")
        case e: True
        have "?m (S\<lparr>r_buffer := []\<rparr>) \<le> ?m S" by (simp add: reader_measure_def)
        with True e le show ?thesis by (auto simp: ReadPhysical_step_def)
      next
        case e: False
        obtain st r q where rr: "Read F (r_file S) kBlockSize = Some (st, r, q)"
          and rq: "if status_ok st then r = Some (take kBlockSize (rest (r_file S))) \<and>
              rest q = drop kBlockSize (rest (r_file S)) else \<exists>m. rest q = drop m (rest (r_file S))"
          using read_returns [of "r_file S" kBlockSize] by auto
        show ?thesis
        proof (cases "status_ok st")
          case bad: False
          with rq have "length (rest q) \<le> length (rest (r_file S))" by auto
          with bad True e rr le show ?thesis
            by (auto simp: ReadPhysical_step_def Let_def reader_measure_def log_types)
        next
          case ok: True
          with rr rq have rd: "Read F (r_file S) kBlockSize = Some (st, Some (take kBlockSize (rest (r_file S))), q)"
            "status_ok st" "rest q = drop kBlockSize (rest (r_file S))" by auto
        define S1 where "S1 = S\<lparr>r_file := q, r_buffer := take kBlockSize (rest (r_file S)),
            r_end_of_buffer_offset := r_end_of_buffer_offset S + word_of_nat (length (take kBlockSize (rest (r_file S)))),
            r_eof := length (take kBlockSize (rest (r_file S))) < kBlockSize\<rparr>"
        have "ReadPhysical_step F S = Some (Inr S1)"
          using True e rd by (auto simp: ReadPhysical_step_def Let_def S1_def)
        moreover have "?m S1 < ?m S"
          using e rd(3) by (auto simp: reader_measure_def S1_def log_consts)
        ultimately show ?thesis using le by auto
        qed
      qed
    qed
  qed simp
  then show ?thesis by (auto simp: ReadPhysicalRecord_def)
qed

lemma read_record_decreases:
  "\<exists>r R'. ReadRecord F R = Some (r, R') \<and> (r \<noteq> None \<longrightarrow> reader_measure rest R' < reader_measure rest R)"
proof -
  let ?m = "reader_measure rest"
  have loop: "\<exists>x. c_loop (ReadRecord_step F) (fr, b, sc, pro, R) = Some x \<and>
      (case x of (r, R') \<Rightarrow> r \<noteq> None \<longrightarrow> ?m R' < ?m R)" for fr b sc pro R
  proof (rule c_loop_rule [where I = "\<lambda>(fr, b, sc, pro, S). ?m S \<le> ?m R"
        and m = "\<lambda>(fr, b, sc, pro, S). ?m S"])
    fix x :: "'q record_state"
    assume I: "case x of (fr, b, sc, pro, S) \<Rightarrow> ?m S \<le> ?m R"
    obtain fr b sc pro S where x: "x = (fr, b, sc, pro, S)" by (cases x)
    obtain t res S' where p: "ReadPhysicalRecord F S = Some (t, res, S')"
      "t \<noteq> kEof \<longrightarrow> ?m S' < ?m S" using read_physical_decreases by blast
    show "\<exists>y. ReadRecord_step F x = Some y \<and> (case y of
        Inl r \<Rightarrow> (case r of (r, R') \<Rightarrow> r \<noteq> None \<longrightarrow> ?m R' < ?m R)
      | Inr x' \<Rightarrow> (case x' of (fr, b, sc, pro, S) \<Rightarrow> ?m S \<le> ?m R) \<and>
          (case x' of (fr, b, sc, pro, S) \<Rightarrow> ?m S) < (case x of (fr, b, sc, pro, S) \<Rightarrow> ?m S))"
    proof (cases "t = kEof")
      case True
      with p show ?thesis by (auto simp: x ReadRecord_step_def Let_def log_types)
    next
      case False
      with p have "?m S' < ?m S" by blast
      with I False p(1) show ?thesis
        by (simp add: x ReadRecord_step_def Let_def)
    qed
  qed simp
  have skip: "?m (snd (SkipToInitialBlock F R)) \<le> ?m R"
  proof -
    have "length (rest (snd (Skip F q n))) \<le> length (rest q)" for q n
      using skip_suffix [of q n] by (cases "Skip F q n") force
    then show ?thesis
      by (auto simp: SkipToInitialBlock_def Let_def reader_measure_def split: prod.splits)
        (metis snd_conv add_le_mono1 mult_le_mono2)+
  qed
  show ?thesis
  proof (cases "r_last_record_offset R < r_initial_offset R")
    case False
    with loop [of "[]" False "[]" 0 R] show ?thesis by (auto simp: ReadRecord_def)
  next
    case True
    obtain ok R1 where s: "SkipToInitialBlock F R = (ok, R1)" by (cases "SkipToInitialBlock F R")
    with True skip loop [of "[]" False "[]" 0 R1] show ?thesis
      by (cases ok) (auto simp: ReadRecord_def)
  qed
qed

lemma read_all_returns: "\<exists>r. c_loop (read_all_step F) (acc, R) = Some r"
proof -
  have "\<exists>r. c_loop (read_all_step F) (acc, R) = Some r \<and> True"
  proof (rule c_loop_rule [where I = "\<lambda>_. True" and m = "\<lambda>(acc, R). reader_measure rest R"])
    fix x :: "slice list \<times> 'q Reader"
    obtain acc R where x: "x = (acc, R)" by (cases x)
    obtain r R' where "ReadRecord F R = Some (r, R')" "r \<noteq> None \<longrightarrow> reader_measure rest R' < reader_measure rest R"
      using read_record_decreases by blast
    then show "\<exists>y. read_all_step F x = Some y \<and> (case y of Inl r \<Rightarrow> True
      | Inr x' \<Rightarrow> True \<and> (case x' of (acc, R) \<Rightarrow> reader_measure rest R) < (case x of (acc, R) \<Rightarrow> reader_measure rest R))"
      by (cases r) (auto simp: x read_all_step_def)
  qed simp
  then show ?thesis by blast
qed

end

end
