(* ===== verification/LDB_Log_Props.thy ===== *)
theory LDB_Log_Props
  imports LDB_Log_Read
begin

text \<open>
  The record log end to end: what a writer leaves in a file, what a reader gets back from all of it
  or from any prefix of it (a crash), that it always comes to an end, and what it does with damage.
\<close>

section \<open>Writing several records\<close>

fun add_all :: "'f writable_ops \<Rightarrow> 'f Writer \<Rightarrow> slice list \<Rightarrow> (bool \<times> 'f Writer) option" where
  "add_all F w [] = Some (True, w)"
| "add_all F w (r # rs) = (case AddRecord F w r of None \<Rightarrow> None
     | Some (s, w) \<Rightarrow> if status_ok s then add_all F w rs else Some (False, w))"

context buffered_file
begin

lemma add_all_spec:
  "writer_ok good w \<Longrightarrow> block_offset w = int off \<Longrightarrow> flushed (dest w) \<Longrightarrow>
   \<exists>ok w'. add_all F w rs = Some (ok, w') \<and> writer_ok good w' \<and>
     (ok \<longrightarrow> contents (dest w') = contents (dest w) @ log_bytes off rs) \<and> (never_fails F good \<longrightarrow> ok)"
proof (induction rs arbitrary: w off)
  case (Cons r rs)
  from AddRecord_buffered [OF Cons.prems, of r]
  obtain s w1 where 1: "AddRecord F w r = Some (s, w1)" "writer_ok good w1"
    "status_ok s \<longrightarrow> contents (dest w1) = contents (dest w) @ place off (fragments off True r) \<and>
       block_offset w1 = int (end_off off (fragments off True r)) \<and> flushed (dest w1)"
    "never_fails F good \<longrightarrow> status_ok s" by blast
  show ?case
  proof (cases "status_ok s")
    case True
    with 1(3) have c: "contents (dest w1) = contents (dest w) @ place off (fragments off True r)"
      "block_offset w1 = int (end_off off (fragments off True r))" "flushed (dest w1)" by simp_all
    from Cons.IH [OF 1(2) c(2,3)] True 1(1) c(1) show ?thesis by (auto simp: log_bytes_Cons)
  next
    case False
    with 1 show ?thesis by auto
  qed
qed auto

lemma writer_new_ok: "good f \<Longrightarrow> writer_ok good (Writer_new f)"
  by (simp add: writer_ok_def Writer_new_def kBlockSize_def)

lemma add_all_new:
  assumes "good f" "flushed f"
  shows "\<exists>ok w. add_all F (Writer_new f) rs = Some (ok, w) \<and>
    (ok \<longrightarrow> contents (dest w) = contents f @ log_bytes 0 rs) \<and> (never_fails F good \<longrightarrow> ok)"
  using add_all_spec [OF writer_new_ok [OF assms(1)], of 0 rs] assms(2)
  by (auto simp: Writer_new_def)

end

context reliable_file
begin

lemma reliable_never_fails: "never_fails F good"
  using append_reliable flush_reliable unfolding never_fails_def by blast

end

lemma complete_records_all: "length (log_bytes off rs) \<le> m \<Longrightarrow> complete_records off m rs = rs"
  by (induction rs arbitrary: off m) (simp_all add: log_bytes_Cons Let_def)

lemma scast_u8_0: "scast (w :: u8) = (0 :: u32) \<longleftrightarrow> w = 0"
proof -
  have "ucast (scast w :: u32) = w"
    by (rule bit_word_eqI) (auto simp: bit_simps)
  then show ?thesis by (metis ucast_0 scast_0)
qed

text \<open>
  A checksum that was changed, or that belongs to contents which differ within four bytes, is not
  the one that is computed.
\<close>

lemma stored_checksum_differs:
  assumes "length c = 4"
    and "(c \<noteq> EncodeFixed32 (Mask (crc32c_Value p0)) \<and> p = p0) \<or>
      (c = EncodeFixed32 (Mask (crc32c_Value p0)) \<and>
       (\<exists>pre x y suf. p0 = pre @ x @ suf \<and> p = pre @ y @ suf \<and> length x = length y \<and> length x \<le> 4 \<and> x \<noteq> y))"
    and "stored = word_le c"
  shows "crc32c_Value p \<noteq> Unmask stored"
  using assms(2)
proof (elim disjE conjE exE)
  assume ne: "c \<noteq> EncodeFixed32 (Mask (crc32c_Value p0))" and p: "p = p0"
  have "c = EncodeFixed32 (Mask (crc32c_Value p))" if e: "crc32c_Value p = Unmask stored"
  proof (rule word_le_inj)
    show "word_le c = (word_le (EncodeFixed32 (Mask (crc32c_Value p))) :: u32)"
      unfolding e Mask_Unmask assms(3) by (simp add: EncodeFixed32_eq del: bytes_le_numeral)
  qed (simp_all add: assms(1))
  with ne p show ?thesis by blast
next
  fix pre x y suf
  assume "c = EncodeFixed32 (Mask (crc32c_Value p0))" "p0 = pre @ x @ suf" "p = pre @ y @ suf"
    "length x = length y" "length x \<le> 4" "x \<noteq> y"
  moreover from this have "stored = Mask (crc32c_Value p0)"
    by (simp add: assms(3) EncodeFixed32_eq del: bytes_le_numeral)
  ultimately show ?thesis using value_burst [of x y pre suf] by simp
qed

section \<open>Properties\<close>

text \<open>
  C12: \<open>Writer::AddRecord\<close> refines the log format.  On every file that keeps the contract of a
  writable file, every call returns (no assertion of the writer fails, its block offset stays within
  0 and the block size), and succeeds when the file's appends and flushes do.  When fewer bytes than a
  header, but some, are left in the block, it first appends that many zeros, with some status \<open>t\<close> that the
  code ignores, and leaves a file \<open>f0\<close> (\<open>trailer\<close>; with nothing to fill up \<open>f0\<close> is the file it started
  from).  When the call reports success, it has appended to the contents of \<open>f0\<close> exactly the record's
  fragments, each in one block, flushed them, and its offset is the one after them.  So when also the
  ignored append succeeded, the contents grew by exactly the record's layout, padding included; when it
  failed, \<open>trailer_error_ignored\<close> below shows that the record may lie in the wrong place.
\<close>

theorem add_record_appends:
  assumes "writable_file F good contents flushed" "writer_ok good w" "block_offset w = int off"
  shows "\<exists>s w' t f0. AddRecord F w d = Some (s, w') \<and> writer_ok good w' \<and>
    trailer F (dest w) (pad_at off) t f0 \<and>
    (status_ok s \<longrightarrow>
      contents (dest w') = contents f0 @ drop (pad_at off) (place off (fragments off True d)) \<and>
      block_offset w' = int (end_off off (fragments off True d)) \<and> flushed (dest w')) \<and>
    (status_ok s \<and> status_ok t \<longrightarrow>
      contents (dest w') = contents (dest w) @ place off (fragments off True d)) \<and>
    (never_fails F good \<longrightarrow> status_ok s \<and> status_ok t) \<and>
    concat (map snd (fragments off True d)) = d \<and> fits off (fragments off True d)"
proof -
  have off: "off \<le> kBlockSize" using assms(2,3) by (simp add: writer_ok_def)
  from writable_file.AddRecord_spec [OF assms, of d] obtain s w' t f0 where
    1: "AddRecord F w d = Some (s, w')" "writer_ok good w'" "trailer F (dest w) (pad_at off) t f0"
      "status_ok t \<longrightarrow> contents f0 = contents (dest w) @ replicate (pad_at off) 0"
      "status_ok s \<longrightarrow>
        contents (dest w') = contents f0 @ drop (pad_at off) (place off (fragments off True d)) \<and>
        block_offset w' = int (end_off off (fragments off True d)) \<and> flushed (dest w')"
      "never_fails F good \<longrightarrow> status_ok s" by blast
  have "never_fails F good \<longrightarrow> status_ok t"
    using 1(3) assms(2) by (auto simp: trailer_def never_fails_def writer_ok_def split: if_splits)
  with 1 show ?thesis
    by (intro exI [of _ s] exI [of _ w'] exI [of _ t] exI [of _ f0])
      (simp add: fragments_payload fragments_fit off place_drop)
qed

definition empty_log :: "disk PosixWritableFile" where
  "empty_log = PosixWritableFile_new (chars ''000003.log'') 3 empty_disk"

lemma add_record_appends_witness:
  "\<exists>s w'. AddRecord (posix_writable disk_posix) (Writer_new empty_log) [1, 2, 3] = Some (s, w') \<and>
    status_ok s \<and> file_contents d_written (dest w') = phys kFullType [1, 2, 3] \<and> block_offset w' = 10"
proof -
  have w: "writer_ok file_good (Writer_new empty_log)" "block_offset (Writer_new empty_log) = int 0"
    "file_contents d_written (dest (Writer_new empty_log)) = []"
    by (simp_all add: writer_ok_def Writer_new_def empty_log_def PosixWritableFile_new_def file_good_def
        kBlockSize_def file_contents_def empty_disk_def)
  have fr: "fragments 0 True [1, 2, 3] = [(kFullType, [1, 2, 3])]" "pad_at 0 = 0"
    by (simp_all add: fragments_last room_def start_at_def pad_at_def log_consts frag_type_def)
  from add_record_appends [OF dk.writable w(1,2), of "[1, 2, 3]"] dk.reliable_never_fails w(3)
  show ?thesis by (auto simp: fr next_off_def start_at_def log_consts)
qed

text \<open>
  C4: Durability of the log.  Records are written through a buffered POSIX file, over a kernel whose
  calls may be interrupted, take only part of the data, or fail; then a reader is opened on the first
  \<open>m\<close> bytes of the file, wherever a crash may have cut it.  When all writes reported success, the
  reader returns exactly the records that lie completely within those bytes, in order, then the end,
  and reports no corruption; with the whole file these are all records.  When the kernel's writes
  fail only by being interrupted, all writes do report success.
\<close>

theorem log_roundtrip:
  assumes "posix_kernel K written unread patience"
    and "file_contents written f = []" "buffer_empty f"
    and "add_all (posix_writable K) (Writer_new f) rs = Some (ok, w)"
    and "file_rest unread q = take m (file_contents written (dest w))"
  shows "(ok \<longrightarrow> (\<exists>R. LDB_Log.read_all (posix_sequential K) (Reader_new q (Some []) True 0) =
        Some (complete_records 0 m rs, R) \<and> r_reporter R = Some [] \<and>
      (length (file_contents written (dest w)) \<le> m \<longrightarrow> complete_records 0 m rs = rs))) \<and>
    (reliable_kernel K written unread patience \<longrightarrow> ok)"
proof -
  note kernel = assms(1)
  have good: "file_good f" using assms(3) by (simp add: file_good_def buffer_empty_def)
  have w: "ok \<longrightarrow> file_contents written (dest w) = log_bytes 0 rs"
    "never_fails (posix_writable K) file_good \<longrightarrow> ok"
    using buffered_file.add_all_new [OF posix_kernel.buffered_writes [OF kernel] good assms(3), of rs] assms(2,4) by auto
  have read: "\<exists>R. LDB_Log.read_all (posix_sequential K) (Reader_new q (Some []) True 0) =
      Some (complete_records 0 m rs, R) \<and> r_reporter R = Some []" if ok
  proof -
    have "file_rest unread q = take m (log_bytes kBlockSize rs)"
      using assms(5) w(1) that by (simp add: log_bytes_block)
    then have "at_log (file_rest unread) (Reader_new q (Some []) True 0) kBlockSize (take m (log_bytes kBlockSize rs))"
      by (rule at_log_new)
    from readable_file.read_all_prefix [OF posix_kernel.readable [OF kernel] this order_refl, of "[]"] show ?thesis
      by (simp add: LDB_Log.read_all_def complete_records_block Reader_new_def)
  qed
  show ?thesis
    using read w complete_records_all [of 0 rs m]
      reliable_file.reliable_never_fails [OF reliable_kernel.reliable, of K written unread patience]
    by auto
qed

lemma log_roundtrip_witness:
  "\<exists>w R. add_all (posix_writable disk_posix) (Writer_new empty_log) [[1, 2], [3]] = Some (True, w) \<and>
    LDB_Log.read_all (posix_sequential disk_posix)
      (Reader_new (PosixSequentialFile_new [] 3
         (empty_disk\<lparr>d_unread := (\<lambda>_. file_contents d_written (dest w))\<rparr>)) (Some []) True 0) =
      Some ([[1, 2], [3]], R)"
proof -
  have f: "file_contents d_written empty_log = []" "buffer_empty empty_log" "file_good empty_log"
    by (simp_all add: empty_log_def PosixWritableFile_new_def file_contents_def buffer_empty_def
        empty_disk_def file_good_def)
  obtain ok w where w: "add_all (posix_writable disk_posix) (Writer_new empty_log) [[1, 2], [3]] = Some (ok, w)"
    using dk.add_all_new [OF f(3,2), of "[[1, 2], [3]]"] by auto
  let ?c = "file_contents d_written (dest w)"
  let ?q = "PosixSequentialFile_new [] 3 (empty_disk\<lparr>d_unread := (\<lambda>_. ?c)\<rparr>)"
  have "file_rest d_unread ?q = take (length ?c) ?c"
    by (simp add: file_rest_def PosixSequentialFile_new_def)
  from log_roundtrip [OF dk.posix_kernel_axioms f(1,2) w this] dk.reliable_kernel_axioms w show ?thesis
    by auto
qed

text \<open>
  C23: \<open>Reader::ReadRecord\<close> comes to an end on every file, whatever its bytes are, from every state of
  the reader, and so does reading all records: no damaged length, type or checksum makes the reader loop,
  and no read or skip that fails on the device does (\<open>sequential_file\<close> lets both fail).
\<close>

theorem reader_terminates:
  assumes "sequential_file F rest"
  shows "(\<exists>r. ReadRecord F R = Some r) \<and> (\<exists>x. LDB_Log.read_all F R = Some x)"
  using sequential_file.read_record_decreases [OF assms, of R] sequential_file.read_all_returns [OF assms]
  by (fastforce simp: LDB_Log.read_all_def)

lemma reader_terminates_witness:
  "\<exists>x. LDB_Log.read_all (posix_sequential disk_posix)
     (Reader_new (PosixSequentialFile_new [] 3 (empty_disk\<lparr>d_unread := (\<lambda>_. replicate 40000 255)\<rparr>)) None True 7) =
   Some x"
  using reader_terminates [OF dk.sequential] by blast

text \<open>
  C24: Damage to a record.  A record with type and payload \<open>p0\<close> was written, and the reader is at it with
  checksums on.  The two bytes of the length are intact; of the rest of the record, either the stored checksum was
  changed in any way, or type and payload were changed within a window of at most four bytes.  Then the
  record is not returned and the rest of the block is dropped; the drop is reported as a checksum mismatch, but
  for one case: a record without payload whose type is 0 is taken for preallocated space and
  skipped without a report.  Not covered: damage to the length (which moves the end of the payload, and
  passes for the end of the log, without a report, when it points behind the end of the file), and damage to
  checksum and contents at once.
\<close>

theorem damaged_record_rejected:
  assumes "r_buffer R = c @ [word_of_nat (n mod 256), word_of_nat (n div 256)] @ p @ more_bytes"
    and "length c = 4" "length p = 1 + n" "n < 65536"
    and "(c \<noteq> EncodeFixed32 (Mask (crc32c_Value p0)) \<and> p = p0) \<or>
      (c = EncodeFixed32 (Mask (crc32c_Value p0)) \<and>
       (\<exists>pre x y suf. p0 = pre @ x @ suf \<and> p = pre @ y @ suf \<and> length x = length y \<and> length x \<le> 4 \<and> x \<noteq> y))"
    and "r_checksum R" "r_initial_offset R = 0" "r_reporter R = Some calls"
  shows "ReadPhysicalRecord F R = Some (kBadRecord, None,
    R\<lparr>r_buffer := [], r_reporter := Some (if n = 0 \<and> p ! 0 = 0 then calls
      else calls @ [(word_of_nat (length (r_buffer R)), Corruption (chars ''checksum mismatch'') [])])\<rparr>)"
proof -
  note buf = assms(1) and p = assms(3)
  have nth: "r_buffer R ! 4 = word_of_nat (n mod 256)" "r_buffer R ! 5 = word_of_nat (n div 256)"
    "r_buffer R ! 6 = p ! 0"
    using p assms(2) by (simp_all add: buf nth_append)
  have lenw: "unat (word_of_nat n :: u32) = n" using assms(4) by (simp add: unat_of_nat_32)
  have crc: "take (1 + n) (drop 6 (r_buffer R)) = p" using p assms(2) by (simp add: buf)
  have dec: "DecodeFixed32 (r_buffer R) = word_le c" using assms(2) by (simp add: buf DecodeFixed32_eq)
  have bad: "crc32c_Value p \<noteq> Unmask (DecodeFixed32 (r_buffer R))"
    by (rule stored_checksum_differs [OF assms(2,5)]) (rule dec)
  have long: "\<not> kHeaderSize + n > length (r_buffer R)" using p assms(2) by (simp add: buf kHeaderSize_def)
  have zero: "scast (p ! 0) = kZeroType \<and> word_of_nat n = (0 :: u32) \<longleftrightarrow> n = 0 \<and> p ! 0 = 0"
    using lenw by (auto simp: kZeroType_def scast_u8_0)
  have "parse_physical R = (kBadRecord, None,
    R\<lparr>r_buffer := [], r_reporter := Some (if n = 0 \<and> p ! 0 = 0 then calls
      else calls @ [(word_of_nat (length (r_buffer R)), Corruption (chars ''checksum mismatch'') [])])\<rparr>)"
    unfolding parse_physical_def Let_def nth len_bytes [OF assms(4)] lenw crc if_not_P [OF long] zero
    using bad assms(6-8) by (simp add: ReportCorruption_def ReportDrop_def)
  moreover have "\<not> length (r_buffer R) < kHeaderSize" using long by simp
  ultimately show ?thesis
    by (simp add: ReadPhysicalRecord_def ReadPhysical_step_def c_loop_unfold)
qed

lemma damaged_record_rejected_witness:
  "\<exists>R. ReadPhysicalRecord (posix_sequential disk_posix) R = Some (kBadRecord, None, R\<lparr>r_buffer := [],
     r_reporter := Some [(8, Corruption (chars ''checksum mismatch'') [])]\<rparr>)"
proof -
  let ?R = "(Reader_new (PosixSequentialFile_new [] 3 empty_disk) (Some []) True 0)\<lparr>r_buffer :=
    EncodeFixed32 (Mask (crc32c_Value [1, 5])) @ [word_of_nat (1 mod 256), word_of_nat (1 div 256)] @
    [1, 6] @ []\<rparr>"
  have burst: "\<exists>pre x y suf. [1, 5 :: u8] = pre @ x @ suf \<and> [1, 6] = pre @ y @ suf \<and> length x = length y \<and>
      length x \<le> 4 \<and> x \<noteq> y"
    by (rule exI [of _ "[1]"], rule exI [of _ "[5]"], rule exI [of _ "[6]"], rule exI [of _ "[]"]) simp
  have "ReadPhysicalRecord (posix_sequential disk_posix) ?R = Some (kBadRecord, None, ?R\<lparr>r_buffer := [],
     r_reporter := Some (if (1 :: nat) = 0 \<and> [1, 6 :: u8] ! 0 = 0 then []
       else [] @ [(word_of_nat (length (r_buffer ?R)), Corruption (chars ''checksum mismatch'') [])])\<rparr>)"
    by (rule damaged_record_rejected [of ?R "EncodeFixed32 (Mask (crc32c_Value [1, 5]))" 1 "[1, 6]" "[]" "[1, 5]"])
      (use burst in \<open>simp_all add: Reader_new_def\<close>)
  then show ?thesis by (intro exI [of _ ?R]) simp
qed

text \<open>A file whose first append may be refused; its contents.\<close>

definition flaky_ops :: "(bool \<times> u8 list) writable_ops" where
  "flaky_ops = \<lparr>Append = (\<lambda>(broken, c) d.
      Some (if broken then (IOError [] [], (False, c)) else (status_OK, (False, c @ d)))),
    Flush = (\<lambda>f. Some (status_OK, f))\<rparr>"

text \<open>
  The status of the \<open>Append\<close> that fills the rest of a block is dropped.  On a file that refuses
  the one append of three bytes and accepts everything after it, \<open>AddRecord\<close> returns success, but the
  record lies three bytes before the place the format gives it.
\<close>

theorem trailer_error_ignored:
  assumes "length c = 32765"
  shows "AddRecord flaky_ops (Writer_append (True, c) 32765) [7] =
    Some (status_OK, (Writer_append (True, c) 32765)\<lparr>dest := (False, c @ phys kFullType [7]), block_offset := 8\<rparr>) \<and>
    c @ place 32765 (fragments 32765 True [7]) = c @ [0, 0, 0] @ phys kFullType [7]"
proof -
  have fr: "fragments 32765 True [7] = [(kFullType, [7])]"
    by (simp add: fragments_last room_def start_at_def log_consts frag_type_def)
  have h: "log_header InitTypeCrc 1 [7] @ [7] = phys 1 [7]"
    by (rule log_header_phys) simp_all
  have "AddRecord_step flaky_ops ([7], True, Writer_append (True, c) 32765) =
     Some (Inl (status_OK, (Writer_append (True, c) 32765)\<lparr>dest := (False, c @ phys kFullType [7]), block_offset := 8\<rparr>))"
    by (simp add: AddRecord_step_def Writer_append_def log_consts flaky_ops_def EmitPhysicalRecord_def
        Let_def log_types h)
  moreover have "replicate 3 (0 :: u8) = [0, 0, 0]" by (simp add: numeral_eq_Suc)
  ultimately show ?thesis
    by (simp add: AddRecord_def c_loop_unfold fr pad_at_def log_consts)
qed

lemma trailer_error_ignored_witness:
  "fst (the (AddRecord flaky_ops (Writer_append (True, replicate 32765 0) 32765) [7])) = status_OK"
  using trailer_error_ignored [of "replicate 32765 0"] by simp

end
