(* ===== verification/LDB_Comparator.thy ===== *)
theory LDB_Comparator
  imports LDB_Slice
begin

text \<open>
  LevelDB: the comparator interface (\<open>include/leveldb/comparator.h\<close>) with its contract as a locale,
  and the byte-wise comparator of \<open>util/comparator.cc\<close> as its first provider.  A method that may fail
  an assertion returns an option, \<open>None\<close> for the failure.
\<close>

section \<open>The interface\<close>

record comparator =
  comparator_Name :: slice
  Compare :: "slice \<Rightarrow> slice \<Rightarrow> int"
  FindShortestSeparator :: "slice \<Rightarrow> slice \<Rightarrow> slice option"
  FindShortSuccessor :: "slice \<Rightarrow> slice option"

text \<open>
  The keys a comparator is used on are its valid ones (internal keys have at least eight bytes).
  \<open>Compare\<close> is a total preorder on them, a separator lies between its arguments, and a successor is
  not before its argument.
\<close>

locale comparator_order =
  fixes C :: comparator
    and valid :: "slice \<Rightarrow> bool"
  assumes compare_refl: "valid a \<Longrightarrow> Compare C a a = 0"
    and compare_sign: "valid a \<Longrightarrow> valid b \<Longrightarrow> Compare C a b < 0 \<longleftrightarrow> 0 < Compare C b a"
    and compare_trans: "valid a \<Longrightarrow> valid b \<Longrightarrow> valid c \<Longrightarrow> Compare C a b \<le> 0 \<Longrightarrow> Compare C b c \<le> 0 \<Longrightarrow>
      Compare C a c \<le> 0"
begin

lemma compare_le_sign: "valid a \<Longrightarrow> valid b \<Longrightarrow> Compare C a b \<le> 0 \<longleftrightarrow> 0 \<le> Compare C b a"
  using compare_sign [of b a] by linarith

lemma compare_less_trans:
  assumes "valid a" "valid b" "valid c" "Compare C a b \<le> 0" "Compare C b c < 0"
  shows "Compare C a c < 0"
proof (rule ccontr)
  assume "\<not> Compare C a c < 0"
  then have "Compare C c a \<le> 0" using assms(1,3) compare_le_sign by simp
  then have "Compare C c b \<le> 0" using compare_trans [of c a b] assms by simp
  then show False using assms compare_sign [of b c] by simp
qed

lemma compare_less_trans2:
  assumes "valid a" "valid b" "valid c" "Compare C a b < 0" "Compare C b c \<le> 0"
  shows "Compare C a c < 0"
proof (rule ccontr)
  assume "\<not> Compare C a c < 0"
  then have "Compare C c a \<le> 0" using assms(1,3) compare_le_sign by simp
  then have "Compare C b a \<le> 0" using compare_trans [of b c a] assms by simp
  then show False using assms compare_sign [of a b] by simp
qed

text \<open>The order on fewer keys.\<close>

lemma order_on: "(\<And>k. valid' k \<Longrightarrow> valid k) \<Longrightarrow> comparator_order C valid'"
  by unfold_locales (blast intro: compare_refl compare_sign [THEN iffD1] compare_sign [THEN iffD2] compare_trans)+

end

locale comparator_laws = comparator_order C valid for C and valid +
  assumes separator: "valid a \<Longrightarrow> valid b \<Longrightarrow> Compare C a b < 0 \<Longrightarrow>
      \<exists>s. FindShortestSeparator C a b = Some s \<and> valid s \<and> Compare C a s \<le> 0 \<and> Compare C s b < 0"
    and successor: "valid a \<Longrightarrow> \<exists>s. FindShortSuccessor C a = Some s \<and> valid s \<and> Compare C a s \<le> 0"

text \<open>A comparator for user keys: every byte string is valid, and equal keys have no separator.\<close>

locale user_comparator = comparator_laws C "\<lambda>_. True" for C +
  assumes separator_same: "Compare C a b = 0 \<Longrightarrow> FindShortestSeparator C a b = Some a"

section \<open>The byte-wise comparator\<close>

text \<open>The loop that finds the length of the common prefix.\<close>

fun diff_index_loop :: "slice \<Rightarrow> slice \<Rightarrow> nat" where
  "diff_index_loop (x # xs) (y # ys) = (if x = y then Suc (diff_index_loop xs ys) else 0)"
| "diff_index_loop xs ys = 0"

definition bytewise_separator :: "slice \<Rightarrow> slice \<Rightarrow> slice option" where
  "bytewise_separator start limit =
     (let min_length = min (length start) (length limit);
          diff_index = diff_index_loop start limit
      in if diff_index \<ge> min_length then Some start
         else
           let diff_byte = start ! diff_index in
           if diff_byte < 0xff \<and> unat diff_byte + 1 < unat (limit ! diff_index) then
             let start = take (diff_index + 1) (start[diff_index := start ! diff_index + 1]) in
             if slice_compare start limit < 0 then Some start else None
           else Some start)"

text \<open>The loop over the key; the prefix passed so far is a run of 0xff.\<close>

fun bytewise_successor :: "slice \<Rightarrow> slice" where
  "bytewise_successor [] = []"
| "bytewise_successor (b # key) = (if b \<noteq> 0xff then [b + 1] else b # bytewise_successor key)"

definition BytewiseComparator :: comparator where
  "BytewiseComparator = \<lparr>comparator_Name = chars ''leveldb.BytewiseComparator'', Compare = slice_compare, FindShortestSeparator = bytewise_separator,
     FindShortSuccessor = (\<lambda>key. Some (bytewise_successor key))\<rparr>"

lemma diff_index_split:
  "diff_index_loop a b < min (length a) (length b) \<Longrightarrow>
   \<exists>p x xs y ys. a = p @ x # xs \<and> b = p @ y # ys \<and> x \<noteq> y \<and> length p = diff_index_loop a b"
proof (induction a b rule: diff_index_loop.induct)
  case (1 x xs y ys)
  show ?case
  proof (cases "x = y")
    case True
    with 1 obtain p u us v vs where "xs = p @ u # us" "ys = p @ v # vs" "u \<noteq> v" "length p = diff_index_loop xs ys"
      by auto
    then have "x # xs = (y # p) @ u # us \<and> y # ys = (y # p) @ v # vs \<and> u \<noteq> v \<and>
        length (y # p) = diff_index_loop (x # xs) (y # ys)"
      using True by simp
    then show ?thesis by blast
  next
    case False
    then have "x # xs = [] @ x # xs \<and> y # ys = [] @ y # ys \<and> x \<noteq> y \<and>
        length [] = diff_index_loop (x # xs) (y # ys)"
      by simp
    then show ?thesis by blast
  qed
qed auto

lemma bytes_less_prefix [simp]: "bytes_less (p @ a) (p @ b) \<longleftrightarrow> bytes_less a b"
  by (induction p) auto

lemma u8_succ_less: "x < 0xff \<Longrightarrow> unat x + 1 < unat y \<Longrightarrow> x < x + 1 \<and> x + 1 < y" for x y :: u8
proof -
  assume x: "x < 0xff" and y: "unat x + 1 < unat y"
  have "unat x < 255" using x by (simp add: word_less_nat_alt)
  then have "unat (x + 1) = unat x + 1" by (simp add: unat_word_ariths)
  then show ?thesis using y by (simp add: word_less_nat_alt)
qed

lemma bytewise_separator_props:
  "\<exists>s. bytewise_separator a b = Some s \<and> (s = a \<or> bytes_less a s \<and> bytes_less s b \<and> length s \<le> length a)"
proof (cases "diff_index_loop a b < min (length a) (length b)")
  case True
  then obtain p x xs y ys where ab: "a = p @ x # xs" "b = p @ y # ys" "x \<noteq> y" "length p = diff_index_loop a b"
    using diff_index_split by blast
  have nth: "a ! length p = x" "b ! length p = y" by (simp_all add: ab(1,2) nth_append)
  have ne: "\<not> length p \<ge> min (length a) (length b)" using True ab(4) by linarith
  note sep = bytewise_separator_def [of a b, unfolded Let_def ab(4) [symmetric] nth if_not_P [OF ne]]
  show ?thesis
  proof (cases "x < 0xff \<and> unat x + 1 < unat y")
    case c: True
    let ?s = "p @ [x + 1]"
    have less: "bytes_less a ?s" "bytes_less ?s b"
      using u8_succ_less [of x y] c by (simp_all add: ab)
    have upd: "take (length p + 1) (a[length p := x + 1]) = ?s"
      by (simp add: ab list_update_append)
    have "bytewise_separator a b = Some ?s"
      using c less unfolding sep upd by simp
    then show ?thesis using less by (simp add: ab)
  next
    case False
    then show ?thesis unfolding sep if_not_P [OF False] by simp
  qed
next
  case False
  then have le: "diff_index_loop a b \<ge> min (length a) (length b)" by linarith
  show ?thesis unfolding bytewise_separator_def Let_def if_P [OF le] by simp
qed

lemma diff_index_same: "diff_index_loop a a = length a"
  by (induction a) simp_all

lemma bytewise_successor_props: "bytewise_successor a = a \<or> bytes_less a (bytewise_successor a)"
proof (induction a)
  case (Cons b a)
  have "b < b + 1" if "b \<noteq> 0xff"
  proof -
    have "unat b \<noteq> 255" using that by (auto simp: word_unat_eq_iff)
    then have "unat b < 255" using unat_u8_less [of b] by linarith
    then show ?thesis by (simp add: word_less_nat_alt unat_word_ariths)
  qed
  with Cons show ?case by auto
qed simp

interpretation bytewise: user_comparator BytewiseComparator
proof
  fix a b c :: slice
  show "Compare BytewiseComparator a a = 0" by (simp add: BytewiseComparator_def)
  show "Compare BytewiseComparator a b < 0 \<longleftrightarrow> 0 < Compare BytewiseComparator b a"
    by (simp add: BytewiseComparator_def)
  show "Compare BytewiseComparator a b \<le> 0 \<Longrightarrow> Compare BytewiseComparator b c \<le> 0 \<Longrightarrow>
      Compare BytewiseComparator a c \<le> 0"
    by (auto simp: BytewiseComparator_def slice_compare_cases dest: bytes_less_trans split: if_splits)
  show "Compare BytewiseComparator a b < 0 \<Longrightarrow> \<exists>s. FindShortestSeparator BytewiseComparator a b = Some s \<and>
      True \<and> Compare BytewiseComparator a s \<le> 0 \<and> Compare BytewiseComparator s b < 0"
    using bytewise_separator_props [of a b]
    by (fastforce simp: BytewiseComparator_def slice_compare_cases split: if_splits)
  show "\<exists>s. FindShortSuccessor BytewiseComparator a = Some s \<and> True \<and> Compare BytewiseComparator a s \<le> 0"
    using bytewise_successor_props [of a] by (auto simp: BytewiseComparator_def slice_compare_cases)
  show "Compare BytewiseComparator a b = 0 \<Longrightarrow> FindShortestSeparator BytewiseComparator a b = Some a"
    by (simp add: BytewiseComparator_def bytewise_separator_def diff_index_same)
qed

end
