(* ===== verification/LDB_Options.thy ===== *)
theory LDB_Options
  imports LDB_Comparator
begin

text \<open>
  LevelDB: filter policies as an interface (\<open>include/leveldb/filter_policy.h\<close>) and the options
  (\<open>include/leveldb/options.h\<close>, \<open>util/options.cc\<close>).  The environment, the logger and the block cache are
  no fields of the model's record.
\<close>

section \<open>Filter policies\<close>

text \<open>\<open>CreateFilter keys dst\<close> is \<open>dst\<close> after the call.\<close>

record FilterPolicy =
  fp_Name :: slice
  CreateFilter :: "slice list \<Rightarrow> u8 list \<Rightarrow> u8 list"
  KeyMayMatch :: "slice \<Rightarrow> slice \<Rightarrow> bool"

text \<open>
  What a client may rely on: a filter is appended to the destination, and it matches every key
  it was made from.
\<close>

locale filter_policy =
  fixes P :: FilterPolicy
    and small :: "slice list \<Rightarrow> bool"
  assumes create_appends: "small keys \<Longrightarrow> \<exists>f. \<forall>dst. CreateFilter P keys dst = dst @ f"
    and create_matches: "small keys \<Longrightarrow> key \<in> set keys \<Longrightarrow> KeyMayMatch P key (CreateFilter P keys [])"
begin

lemma create_eq: "small keys \<Longrightarrow> CreateFilter P keys dst = dst @ CreateFilter P keys []"
  using create_appends [of keys] by force

end

section \<open>Options\<close>

definition kNoCompression :: u8 where "kNoCompression = 0"
definition kSnappyCompression :: u8 where "kSnappyCompression = 1"

record Options =
  o_comparator :: comparator
  create_if_missing :: bool
  error_if_exists :: bool
  paranoid_checks :: bool
  write_buffer_size :: nat
  max_open_files :: int
  block_size :: nat
  block_restart_interval :: int
  max_file_size :: nat
  o_compression :: u8
  reuse_logs :: bool
  o_filter_policy :: "FilterPolicy option"

definition Options_new :: Options where
  "Options_new = \<lparr>o_comparator = BytewiseComparator, create_if_missing = False, error_if_exists = False,
     paranoid_checks = False, write_buffer_size = 4 * 1024 * 1024, max_open_files = 1000,
     block_size = 4 * 1024, block_restart_interval = 16, max_file_size = 2 * 1024 * 1024,
     o_compression = kSnappyCompression, reuse_logs = False, o_filter_policy = None\<rparr>"

record ReadOptions =
  verify_checksums :: bool
  fill_cache :: bool
  r_snapshot :: "u64 option"

definition ReadOptions_new :: ReadOptions where
  "ReadOptions_new = \<lparr>verify_checksums = False, fill_cache = True, r_snapshot = None\<rparr>"

record WriteOptions =
  wo_sync :: bool

definition WriteOptions_new :: WriteOptions where
  "WriteOptions_new = \<lparr>wo_sync = False\<rparr>"

end
