(* ===== verification/LDB_Iterator.thy ===== *)
theory LDB_Iterator
  imports LDB_Comparator PB_Prelude
begin

text \<open>
  LevelDB: the iterator interface (\<open>include/leveldb/iterator.h\<close>) with its contract as a locale, the empty
  iterator and the cleanup list of \<open>table/iterator.cc\<close>, and the caching wrapper of
  \<open>table/iterator_wrapper.h\<close>.  A failing assertion and an access outside of a buffer have no result.
\<close>

section \<open>The interface\<close>

record 'i iter_ops =
  Valid :: "'i \<Rightarrow> bool"
  SeekToFirst :: "'i \<Rightarrow> 'i option"
  SeekToLast :: "'i \<Rightarrow> 'i option"
  Seek :: "slice \<Rightarrow> 'i \<Rightarrow> 'i option"
  Next :: "'i \<Rightarrow> 'i option"
  Prev :: "'i \<Rightarrow> 'i option"
  iter_key :: "'i \<Rightarrow> slice option"
  iter_value :: "'i \<Rightarrow> slice option"
  iter_status :: "'i \<Rightarrow> Status"

type_synonym entries = "(slice \<times> slice) list"

text \<open>The position of the first entry whose key is at or after the target.\<close>

definition seek_index :: "(slice \<Rightarrow> slice \<Rightarrow> int) \<Rightarrow> entries \<Rightarrow> slice \<Rightarrow> nat" where
  "seek_index cmp es target = length (takeWhile (\<lambda>e. cmp (fst e) target < 0) es)"

text \<open>
  An iterator stands for a list of entries and a position, \<open>length es\<close> when it is not valid.
\<close>

locale iterator =
  fixes ops :: "'i iter_ops"
    and rep :: "entries \<Rightarrow> nat \<Rightarrow> 'i \<Rightarrow> bool"
    and cmp :: "slice \<Rightarrow> slice \<Rightarrow> int"
    and valid :: "slice \<Rightarrow> bool"
  assumes rep_bound: "rep es n i \<Longrightarrow> n \<le> length es"
    and rep_Valid: "rep es n i \<Longrightarrow> Valid ops i \<longleftrightarrow> n < length es"
    and rep_key: "rep es n i \<Longrightarrow> n < length es \<Longrightarrow> iter_key ops i = Some (fst (es ! n))"
    and rep_value: "rep es n i \<Longrightarrow> n < length es \<Longrightarrow> iter_value ops i = Some (snd (es ! n))"
    and rep_status: "rep es n i \<Longrightarrow> status_ok (iter_status ops i)"
    and rep_first: "rep es n i \<Longrightarrow> \<exists>i'. SeekToFirst ops i = Some i' \<and> rep es 0 i'"
    and rep_last: "rep es n i \<Longrightarrow> \<exists>i'. SeekToLast ops i = Some i' \<and> rep es (length es - 1) i'"
    and rep_seek: "rep es n i \<Longrightarrow> valid target \<Longrightarrow>
      \<exists>i'. Seek ops target i = Some i' \<and> rep es (seek_index cmp es target) i'"
    and rep_next: "rep es n i \<Longrightarrow> n < length es \<Longrightarrow> \<exists>i'. Next ops i = Some i' \<and> rep es (n + 1) i'"
    and rep_prev: "rep es n i \<Longrightarrow> n < length es \<Longrightarrow>
      \<exists>i'. Prev ops i = Some i' \<and> rep es (if n = 0 then length es else n - 1) i'"

section \<open>Clients: scanning\<close>

text \<open>
  The loops \<open>for (; it->Valid(); it->Next())\<close> and \<open>for (; it->Valid(); it->Prev())\<close> that collect what the
  iterator passes, as the builder of tables and the dump tool run them.
\<close>

definition scan_step :: "'i iter_ops \<Rightarrow> ('i \<Rightarrow> 'i option) \<Rightarrow> entries \<times> 'i \<Rightarrow> (entries \<times> 'i + entries \<times> 'i) option" where
  "scan_step ops move = (\<lambda>(acc, i).
     if \<not> Valid ops i then Some (Inl (acc, i))
     else case (iter_key ops i, iter_value ops i, move i) of
            (Some k, Some v, Some i') \<Rightarrow> Some (Inr (acc @ [(k, v)], i'))
          | _ \<Rightarrow> None)"

definition scan_forward :: "'i iter_ops \<Rightarrow> 'i \<Rightarrow> (entries \<times> 'i) option" where
  "scan_forward ops i = c_loop (scan_step ops (Next ops)) ([], i)"

definition scan_backward :: "'i iter_ops \<Rightarrow> 'i \<Rightarrow> (entries \<times> 'i) option" where
  "scan_backward ops i = c_loop (scan_step ops (Prev ops)) ([], i)"

context iterator
begin

lemma scan_forward_loop:
  "rep es n i \<Longrightarrow> \<exists>i'. c_loop (scan_step ops (Next ops)) (acc, i) = Some (acc @ drop n es, i') \<and> rep es (length es) i'"
proof (induction "length es - n" arbitrary: n i acc)
  case 0
  then have "n = length es" using rep_bound [of es n i] by simp
  with 0 rep_Valid [of es n i] show ?case by (auto simp: scan_step_def c_loop_unfold)
next
  case (Suc m)
  then have n: "n < length es" by simp
  obtain i' where i': "Next ops i = Some i'" "rep es (n + 1) i'" using rep_next [OF Suc.prems n] by blast
  then have "scan_step ops (Next ops) (acc, i) = Some (Inr (acc @ [es ! n], i'))"
    using rep_Valid [OF Suc.prems] rep_key [OF Suc.prems n] rep_value [OF Suc.prems n] n
    by (simp add: scan_step_def)
  moreover have "\<exists>j. c_loop (scan_step ops (Next ops)) (acc @ [es ! n], i') =
      Some ((acc @ [es ! n]) @ drop (n + 1) es, j) \<and> rep es (length es) j"
    by (rule Suc.hyps) (use Suc.hyps i' in auto)
  ultimately show ?case using n by (simp add: c_loop_unfold Cons_nth_drop_Suc)
qed

lemma scan_backward_loop:
  "rep es n i \<Longrightarrow> n < length es \<Longrightarrow>
   \<exists>i'. c_loop (scan_step ops (Prev ops)) (acc, i) = Some (acc @ rev (take (n + 1) es), i') \<and> rep es (length es) i'"
proof (induction n arbitrary: i acc)
  case 0
  obtain i' where i': "Prev ops i = Some i'" "rep es (length es) i'" using rep_prev [OF 0] by auto
  then have "scan_step ops (Prev ops) (acc, i) = Some (Inr (acc @ [es ! 0], i'))"
    using rep_Valid [OF 0(1)] rep_key [OF 0] rep_value [OF 0] 0 by (simp add: scan_step_def)
  moreover have "scan_step ops (Prev ops) (acc @ [es ! 0], i') = Some (Inl (acc @ [es ! 0], i'))"
    using rep_Valid [OF i'(2)] by (simp add: scan_step_def)
  ultimately show ?case using i' 0 by (cases es) (auto simp: c_loop_unfold)
next
  case (Suc n)
  obtain i' where i': "Prev ops i = Some i'" "rep es n i'" using rep_prev [OF Suc.prems] by auto
  then have "scan_step ops (Prev ops) (acc, i) = Some (Inr (acc @ [es ! Suc n], i'))"
    using rep_Valid [OF Suc.prems(1)] rep_key [OF Suc.prems] rep_value [OF Suc.prems] Suc.prems
    by (simp add: scan_step_def)
  moreover have "\<exists>j. c_loop (scan_step ops (Prev ops)) (acc @ [es ! Suc n], i') =
      Some ((acc @ [es ! Suc n]) @ rev (take (n + 1) es), j) \<and> rep es (length es) j"
    using i' Suc.prems by (intro Suc.IH) auto
  ultimately show ?case using Suc.prems by (simp add: c_loop_unfold take_Suc_conv_app_nth)
qed

text \<open>From the first entry forward, and from the last backward.\<close>

lemma scan_all:
  assumes "rep es n i"
  shows "\<exists>i'. SeekToFirst ops i = Some i' \<and> (\<exists>j. scan_forward ops i' = Some (es, j) \<and> rep es (length es) j)"
proof -
  obtain i' where "SeekToFirst ops i = Some i'" "rep es 0 i'" using rep_first [OF assms] by blast
  with scan_forward_loop [of es 0 i' "[]"] show ?thesis by (simp add: scan_forward_def)
qed

lemma scan_all_backward:
  assumes "rep es n i"
  shows "\<exists>i'. SeekToLast ops i = Some i' \<and> (\<exists>j. scan_backward ops i' = Some (rev es, j) \<and> rep es (length es) j)"
proof -
  obtain i' where i': "SeekToLast ops i = Some i'" "rep es (length es - 1) i'" using rep_last [OF assms] by blast
  show ?thesis
  proof (cases "es = []")
    case True
    with i' rep_Valid [OF i'(2)] show ?thesis by (simp add: scan_backward_def scan_step_def c_loop_unfold)
  next
    case False
    with i' scan_backward_loop [of es "length es - 1" i' "[]"] show ?thesis by (simp add: scan_backward_def)
  qed
qed

text \<open>A seek ends on the first entry at or after the target, or behind the last entry.\<close>

lemma seek_lands:
  assumes "rep es n i" "valid target"
  shows "\<exists>i'. Seek ops target i = Some i' \<and>
    (\<forall>m < seek_index cmp es target. cmp (fst (es ! m)) target < 0) \<and>
    (if seek_index cmp es target < length es
     then Valid ops i' \<and> iter_key ops i' = Some (fst (es ! seek_index cmp es target)) \<and>
       iter_value ops i' = Some (snd (es ! seek_index cmp es target)) \<and>
       0 \<le> cmp (fst (es ! seek_index cmp es target)) target
     else \<not> Valid ops i') \<and> status_ok (iter_status ops i')"
proof -
  let ?s = "seek_index cmp es target"
  obtain i' where i': "Seek ops target i = Some i'" "rep es ?s i'" using rep_seek [OF assms] by blast
  have before: "cmp (fst (es ! m)) target < 0" if "m < ?s" for m
    using nth_mem [of m "takeWhile (\<lambda>e. cmp (fst e) target < 0) es"] that
    by (auto simp: seek_index_def takeWhile_nth dest: set_takeWhileD)
  have here: "0 \<le> cmp (fst (es ! ?s)) target" if "?s < length es"
    using nth_length_takeWhile [of "\<lambda>e. cmp (fst e) target < 0" es] that by (simp add: seek_index_def)
  show ?thesis
    using i' before here rep_Valid [OF i'(2)] rep_key [OF i'(2)] rep_value [OF i'(2)] rep_status [OF i'(2)]
    by auto
qed

end

section \<open>Clients: sequences of calls\<close>

datatype iter_call = CallFirst | CallLast | CallSeek slice | CallNext | CallPrev

fun iter_step :: "'i iter_ops \<Rightarrow> iter_call \<Rightarrow> 'i \<Rightarrow> 'i option" where
  "iter_step ops CallFirst i = SeekToFirst ops i"
| "iter_step ops CallLast i = SeekToLast ops i"
| "iter_step ops (CallSeek target) i = Seek ops target i"
| "iter_step ops CallNext i = Next ops i"
| "iter_step ops CallPrev i = Prev ops i"

fun iter_run :: "'i iter_ops \<Rightarrow> iter_call list \<Rightarrow> 'i \<Rightarrow> 'i option" where
  "iter_run ops [] i = Some i"
| "iter_run ops (c # cs) i = (case iter_step ops c i of None \<Rightarrow> None | Some i \<Rightarrow> iter_run ops cs i)"

text \<open>The same calls on a position in a list: \<open>Next\<close> and \<open>Prev\<close> need a valid position.\<close>

fun cursor_step :: "(slice \<Rightarrow> slice \<Rightarrow> int) \<Rightarrow> entries \<Rightarrow> iter_call \<Rightarrow> nat \<Rightarrow> nat option" where
  "cursor_step cmp es CallFirst n = Some 0"
| "cursor_step cmp es CallLast n = Some (length es - 1)"
| "cursor_step cmp es (CallSeek target) n = Some (seek_index cmp es target)"
| "cursor_step cmp es CallNext n = (if n < length es then Some (n + 1) else None)"
| "cursor_step cmp es CallPrev n = (if n < length es then Some (if n = 0 then length es else n - 1) else None)"

fun cursor_run :: "(slice \<Rightarrow> slice \<Rightarrow> int) \<Rightarrow> entries \<Rightarrow> iter_call list \<Rightarrow> nat \<Rightarrow> nat option" where
  "cursor_run cmp es [] n = Some n"
| "cursor_run cmp es (c # cs) n = (case cursor_step cmp es c n of None \<Rightarrow> None | Some n \<Rightarrow> cursor_run cmp es cs n)"

context iterator
begin

lemma step_refines:
  assumes "rep es n i" "cursor_step cmp es c n = Some m" "\<And>t. c = CallSeek t \<Longrightarrow> valid t"
  shows "\<exists>j. iter_step ops c i = Some j \<and> rep es m j"
proof (cases c)
  case CallFirst
  with assms rep_first show ?thesis by auto
next
  case CallLast
  with assms rep_last show ?thesis by auto
next
  case (CallSeek t)
  with assms rep_seek show ?thesis by auto
next
  case CallNext
  with assms rep_next [OF assms(1)] show ?thesis by (auto split: if_splits)
next
  case CallPrev
  then have "n < length es" "m = (if n = 0 then length es else n - 1)"
    using assms(2) by (auto split: if_splits)
  with rep_prev [OF assms(1)] CallPrev show ?thesis by simp
qed

lemma run_refines:
  "rep es n i \<Longrightarrow> cursor_run cmp es cs n = Some m \<Longrightarrow> (\<And>t. CallSeek t \<in> set cs \<Longrightarrow> valid t) \<Longrightarrow>
   \<exists>j. iter_run ops cs i = Some j \<and> rep es m j"
proof (induction cs arbitrary: n i)
  case (Cons c cs)
  then obtain k where k: "cursor_step cmp es c n = Some k" "cursor_run cmp es cs k = Some m"
    by (auto split: option.splits)
  obtain j where "iter_step ops c i = Some j" "rep es k j"
    using step_refines [OF Cons.prems(1) k(1)] Cons.prems(3) by auto
  with Cons.IH [OF _ k(2)] Cons.prems(3) show ?case by auto
qed simp

lemma observe:
  assumes "rep es n i"
  shows "Valid ops i = (n < length es)"
    and "iter_key ops i = (if n < length es then Some (fst (es ! n)) else iter_key ops i)"
    and "iter_value ops i = (if n < length es then Some (snd (es ! n)) else iter_value ops i)"
    and "iter_status ops i = status_OK"
  using rep_Valid [OF assms] rep_key [OF assms] rep_value [OF assms] rep_status [OF assms]
  by (simp_all add: status_ok_def status_OK_def)

end

section \<open>The empty iterator\<close>

text \<open>An \<open>EmptyIterator\<close> is its status; \<open>Next\<close>, \<open>Prev\<close>, \<open>key\<close> and \<open>value\<close> fail an assertion.\<close>

definition EmptyIterator :: "Status iter_ops" where
  "EmptyIterator = \<lparr>Valid = (\<lambda>_. False), SeekToFirst = Some, SeekToLast = Some, Seek = (\<lambda>_. Some),
     Next = (\<lambda>_. None), Prev = (\<lambda>_. None), iter_key = (\<lambda>_. None), iter_value = (\<lambda>_. None), iter_status = id\<rparr>"

definition NewEmptyIterator :: Status where "NewEmptyIterator = status_OK"
definition NewErrorIterator :: "Status \<Rightarrow> Status" where "NewErrorIterator s = s"

interpretation empty_iter: iterator EmptyIterator "\<lambda>es n i. es = [] \<and> n = 0 \<and> i = NewEmptyIterator" cmp valid
  for cmp valid
  by unfold_locales (auto simp: EmptyIterator_def NewEmptyIterator_def seek_index_def)

section \<open>Cleanup functions\<close>

text \<open>The head node followed by the chain; the destructor runs them in this order.\<close>

definition RegisterCleanup :: "'f list \<Rightarrow> 'f \<Rightarrow> 'f list" where
  "RegisterCleanup cleanups f = (case cleanups of [] \<Rightarrow> [f] | head # chain \<Rightarrow> head # f # chain)"

section \<open>The caching wrapper\<close>

record 'i IteratorWrapper =
  w_iter :: "'i option"
  w_valid :: bool
  w_key :: slice

definition wrapper_Update :: "'i iter_ops \<Rightarrow> 'i \<Rightarrow> 'i IteratorWrapper \<Rightarrow> 'i IteratorWrapper option" where
  "wrapper_Update ops it w =
     (let w = w\<lparr>w_iter := Some it, w_valid := Valid ops it\<rparr>
      in if w_valid w then map_option (\<lambda>k. w\<lparr>w_key := k\<rparr>) (iter_key ops it) else Some w)"

definition wrapper_Set :: "'i iter_ops \<Rightarrow> 'i option \<Rightarrow> 'i IteratorWrapper \<Rightarrow> 'i IteratorWrapper option" where
  "wrapper_Set ops it w =
     (case it of None \<Rightarrow> Some (w\<lparr>w_iter := None, w_valid := False\<rparr>) | Some it \<Rightarrow> wrapper_Update ops it w)"

definition IteratorWrapper_new :: "'i iter_ops \<Rightarrow> 'i \<Rightarrow> 'i IteratorWrapper option" where
  "IteratorWrapper_new ops it = wrapper_Set ops (Some it) \<lparr>w_iter = None, w_valid = False, w_key = []\<rparr>"

text \<open>A movement: the assertion that there is an iterator, the call and the update.\<close>

definition wrapper_move ::
  "'i iter_ops \<Rightarrow> ('i \<Rightarrow> 'i option) \<Rightarrow> 'i IteratorWrapper \<Rightarrow> 'i IteratorWrapper option" where
  "wrapper_move ops move w =
     (case w_iter w of None \<Rightarrow> None
      | Some it \<Rightarrow> (case move it of None \<Rightarrow> None | Some it' \<Rightarrow> wrapper_Update ops it' w))"

definition wrapper_key :: "'i IteratorWrapper \<Rightarrow> slice option" where
  "wrapper_key w = (if w_valid w then Some (w_key w) else None)"

definition wrapper_value :: "'i iter_ops \<Rightarrow> 'i IteratorWrapper \<Rightarrow> slice option" where
  "wrapper_value ops w =
     (if w_valid w then (case w_iter w of None \<Rightarrow> None | Some it \<Rightarrow> iter_value ops it) else None)"

definition wrapper_status :: "'i iter_ops \<Rightarrow> 'i IteratorWrapper \<Rightarrow> Status option" where
  "wrapper_status ops w = map_option (iter_status ops) (w_iter w)"

definition wrapper_ops :: "'i iter_ops \<Rightarrow> 'i IteratorWrapper iter_ops" where
  "wrapper_ops ops = \<lparr>Valid = w_valid, SeekToFirst = wrapper_move ops (SeekToFirst ops),
     SeekToLast = wrapper_move ops (SeekToLast ops), Seek = (\<lambda>k. wrapper_move ops (Seek ops k)),
     Next = wrapper_move ops (Next ops), Prev = wrapper_move ops (Prev ops),
     iter_key = wrapper_key, iter_value = wrapper_value ops,
     iter_status = (\<lambda>w. the (wrapper_status ops w))\<rparr>"

text \<open>The wrapper of an iterator is an iterator over the same entries: its cache is up to date.\<close>

definition wrapper_rep ::
  "'i iter_ops \<Rightarrow> (entries \<Rightarrow> nat \<Rightarrow> 'i \<Rightarrow> bool) \<Rightarrow> entries \<Rightarrow> nat \<Rightarrow> 'i IteratorWrapper \<Rightarrow> bool" where
  "wrapper_rep ops rep es n w \<longleftrightarrow>
     (\<exists>it. w_iter w = Some it \<and> rep es n it \<and> w_valid w = Valid ops it \<and>
       (w_valid w \<longrightarrow> iter_key ops it = Some (w_key w)))"

context iterator
begin

lemma wrapper_Update_rep:
  assumes "rep es n it"
  shows "\<exists>w'. wrapper_Update ops it w = Some w' \<and> wrapper_rep ops rep es n w'"
  using rep_Valid [OF assms] rep_key [OF assms] assms
  by (auto simp: wrapper_Update_def wrapper_rep_def Let_def)

lemma wrapper_move_rep:
  assumes "wrapper_rep ops rep es n w"
    and "\<And>it. rep es n it \<Longrightarrow> \<exists>it'. move it = Some it' \<and> rep es m it'"
  shows "\<exists>w'. wrapper_move ops move w = Some w' \<and> wrapper_rep ops rep es m w'"
proof -
  obtain it where it: "w_iter w = Some it" "rep es n it" using assms(1) by (auto simp: wrapper_rep_def)
  obtain it' where "move it = Some it'" "rep es m it'" using assms(2) [OF it(2)] by blast
  with it wrapper_Update_rep show ?thesis by (simp add: wrapper_move_def)
qed

lemma wrapper_iterator: "iterator (wrapper_ops ops) (wrapper_rep ops rep) cmp valid"
proof (unfold_locales, goal_cases)
  case (1 es n w)
  then show ?case using rep_bound by (auto simp: wrapper_rep_def)
next
  case (2 es n w)
  then show ?case using rep_Valid by (auto simp: wrapper_rep_def wrapper_ops_def)
next
  case (3 es n w)
  then show ?case using rep_Valid rep_key by (fastforce simp: wrapper_rep_def wrapper_ops_def wrapper_key_def)
next
  case (4 es n w)
  then show ?case using rep_Valid rep_value by (fastforce simp: wrapper_rep_def wrapper_ops_def wrapper_value_def)
next
  case (5 es n w)
  then show ?case using rep_status by (auto simp: wrapper_rep_def wrapper_ops_def wrapper_status_def)
next
  case (6 es n w)
  from wrapper_move_rep [OF this rep_first] show ?case by (simp add: wrapper_ops_def)
next
  case (7 es n w)
  from wrapper_move_rep [OF this rep_last] show ?case by (simp add: wrapper_ops_def)
next
  case (8 es n w target)
  from wrapper_move_rep [OF this(1) rep_seek [OF _ this(2)]] show ?case by (simp add: wrapper_ops_def)
next
  case (9 es n w)
  from wrapper_move_rep [OF this(1) rep_next [OF _ this(2)]] show ?case by (simp add: wrapper_ops_def)
next
  case (10 es n w)
  from wrapper_move_rep [OF this(1) rep_prev [OF _ this(2)]] show ?case by (simp add: wrapper_ops_def)
qed

end

end
