(* ===== verification/LDB_Block.thy ===== *)
theory LDB_Block
  imports LDB_Options LDB_Iterator LDB_Coding
begin

text \<open>
  LevelDB: blocks of sorted entries with prefix compression and restart points, the builder
  (\<open>table/block_builder.h\<close>, \<open>table/block_builder.cc\<close>) and the reader with its iterator
  (\<open>table/block.h\<close>, \<open>table/block.cc\<close>).  A failing assertion and a read outside of the block have no
  result.  Pointers into the block are offsets.
\<close>

section \<open>Building\<close>

record BlockBuilder =
  b_options :: Options
  b_buffer :: "u8 list"
  b_restarts :: "u32 list"
  b_counter :: int
  b_finished :: bool
  b_last_key :: "u8 list"

definition BlockBuilder_new :: "Options \<Rightarrow> BlockBuilder option" where
  "BlockBuilder_new options =
     (if \<not> block_restart_interval options \<ge> 1 then None
      else Some \<lparr>b_options = options, b_buffer = [], b_restarts = [0], b_counter = 0, b_finished = False,
             b_last_key = []\<rparr>)"

definition BlockBuilder_Reset :: "BlockBuilder \<Rightarrow> BlockBuilder" where
  "BlockBuilder_Reset b =
     b\<lparr>b_buffer := [], b_restarts := [0], b_counter := 0, b_finished := False, b_last_key := []\<rparr>"

definition BlockBuilder_CurrentSizeEstimate :: "BlockBuilder \<Rightarrow> nat" where
  "BlockBuilder_CurrentSizeEstimate b = length (b_buffer b) + length (b_restarts b) * 4 + 4"

definition BlockBuilder_empty :: "BlockBuilder \<Rightarrow> bool" where
  "BlockBuilder_empty b = (b_buffer b = [])"

definition BlockBuilder_Finish :: "BlockBuilder \<Rightarrow> slice \<times> BlockBuilder" where
  "BlockBuilder_Finish b =
     (let buffer = foldl PutFixed32 (b_buffer b) (b_restarts b);
          buffer = PutFixed32 buffer (word_of_nat (length (b_restarts b)))
      in (buffer, b\<lparr>b_buffer := buffer, b_finished := True\<rparr>))"

text \<open>The loop that finds how much of the key is shared with the previous one.\<close>

fun shared_loop :: "slice \<Rightarrow> slice \<Rightarrow> nat" where
  "shared_loop (x # last_key_piece) (y # key) = (if x = y then Suc (shared_loop last_key_piece key) else 0)"
| "shared_loop last_key_piece key = 0"

definition BlockBuilder_Add :: "BlockBuilder \<Rightarrow> slice \<Rightarrow> slice \<Rightarrow> BlockBuilder option" where
  "BlockBuilder_Add b key val =
     (if b_finished b then None
      else if \<not> b_counter b \<le> block_restart_interval (b_options b) then None
      else if \<not> (b_buffer b = [] \<or> Compare (o_comparator (b_options b)) key (b_last_key b) > 0) then None
      else
        let (shared, b) =
              (if b_counter b < block_restart_interval (b_options b) then (shared_loop (b_last_key b) key, b)
               else (0, b\<lparr>b_restarts := b_restarts b @ [word_of_nat (length (b_buffer b))], b_counter := 0\<rparr>));
            non_shared = length key - shared;
            buffer = PutVarint32 (b_buffer b) (word_of_nat shared);
            buffer = PutVarint32 buffer (word_of_nat non_shared);
            buffer = PutVarint32 buffer (word_of_nat (length val));
            buffer = buffer @ drop shared key;
            buffer = buffer @ val;
            last_key = take shared (b_last_key b) @ drop shared key
        in if last_key \<noteq> key then None
           else Some (b\<lparr>b_buffer := buffer, b_last_key := last_key, b_counter := b_counter b + 1\<rparr>))"

section \<open>The block\<close>

text \<open>The constructor of \<open>Block\<close>; \<open>size_\<close> is 0 when the contents are bad.\<close>

record Block =
  bl_data :: "u8 list"
  bl_size :: nat
  bl_restart_offset :: u32

definition NumRestarts :: "u8 list \<Rightarrow> nat \<Rightarrow> u32 option" where
  "NumRestarts data sz = (if \<not> sz \<ge> 4 then None else Some (DecodeFixed32 (drop (sz - 4) data)))"

definition Block_new :: "slice \<Rightarrow> Block option" where
  "Block_new contents =
     (let bad = \<lparr>bl_data = contents, bl_size = 0, bl_restart_offset = 0\<rparr>; sz = length contents
      in if sz < 4 then Some bad
         else case NumRestarts contents sz of None \<Rightarrow> None
           | Some num \<Rightarrow>
               let max_restarts_allowed = (sz - 4) div 4 in
               if unat num > max_restarts_allowed then Some bad
               else Some \<lparr>bl_data = contents, bl_size = sz,
                 bl_restart_offset = word_of_nat (sz - unat (1 + num) * 4)\<rparr>)"

text \<open>
  \<open>DecodeEntry\<close> on the bytes from \<open>p\<close> to \<open>limit\<close>: the three lengths and the bytes after them, \<open>None\<close> for
  the null pointer.  The sum of the two lengths wraps around in 32 bits.
\<close>

definition DecodeEntry :: "u8 list \<Rightarrow> (u32 \<times> u32 \<times> u32 \<times> u8 list) option" where
  "DecodeEntry p =
     (if length p < 3 then None
      else
        let shared = ucast (p ! 0) :: u32; non_shared = ucast (p ! 1) :: u32; value_length = ucast (p ! 2) :: u32
        in case (if shared OR non_shared OR value_length < 128
                 then Some (shared, non_shared, value_length, drop 3 p)
                 else case GetVarint32Ptr p of None \<Rightarrow> None
                   | Some (shared, p) \<Rightarrow> (case GetVarint32Ptr p of None \<Rightarrow> None
                     | Some (non_shared, p) \<Rightarrow> (case GetVarint32Ptr p of None \<Rightarrow> None
                       | Some (value_length, p) \<Rightarrow> Some (shared, non_shared, value_length, p)))) of
            None \<Rightarrow> None
          | Some (shared, non_shared, value_length, p) \<Rightarrow>
              if (word_of_nat (length p) :: u32) < non_shared + value_length then None
              else Some (shared, non_shared, value_length, p))"

section \<open>The iterator\<close>

text \<open>The value is the offset and length of the slice into the block; an empty slice has offset 0.\<close>

record Iter =
  it_comparator :: comparator
  it_data :: "u8 list"
  it_restarts :: u32
  it_num_restarts :: u32
  it_current :: u32
  it_restart_index :: u32
  it_key :: "u8 list"
  it_value :: "nat \<times> nat"
  it_status :: Status

definition Iter_new :: "comparator \<Rightarrow> u8 list \<Rightarrow> u32 \<Rightarrow> u32 \<Rightarrow> Iter option" where
  "Iter_new comparator data restarts num_restarts =
     (if \<not> num_restarts > 0 then None
      else Some \<lparr>it_comparator = comparator, it_data = data, it_restarts = restarts,
             it_num_restarts = num_restarts, it_current = restarts, it_restart_index = num_restarts,
             it_key = [], it_value = (0, 0), it_status = status_OK\<rparr>)"

definition Iter_Valid :: "Iter \<Rightarrow> bool" where
  "Iter_Valid it = (it_current it < it_restarts it)"

definition Iter_key :: "Iter \<Rightarrow> slice option" where
  "Iter_key it = (if \<not> Iter_Valid it then None else Some (it_key it))"

definition Iter_value :: "Iter \<Rightarrow> slice option" where
  "Iter_value it =
     (let (offset, len) = it_value it in
      if \<not> Iter_Valid it then None
      else if length (it_data it) < offset + len then None
      else Some (take len (drop offset (it_data it))))"

definition NextEntryOffset :: "Iter \<Rightarrow> u32" where
  "NextEntryOffset it = word_of_nat (fst (it_value it) + snd (it_value it))"

definition GetRestartPoint :: "Iter \<Rightarrow> u32 \<Rightarrow> u32 option" where
  "GetRestartPoint it index =
     (if \<not> index < it_num_restarts it then None
      else
        let offset = unat (it_restarts it) + unat index * 4 in
        if length (it_data it) < offset + 4 then None
        else Some (DecodeFixed32 (drop offset (it_data it))))"

definition SeekToRestartPoint :: "u32 \<Rightarrow> Iter \<Rightarrow> Iter option" where
  "SeekToRestartPoint index it =
     map_option (\<lambda>offset. it\<lparr>it_key := [], it_restart_index := index, it_value := (unat offset, 0)\<rparr>)
       (GetRestartPoint it index)"

definition CorruptionError :: "Iter \<Rightarrow> Iter" where
  "CorruptionError it =
     it\<lparr>it_current := it_restarts it, it_restart_index := it_num_restarts it,
        it_status := Corruption (chars ''bad entry in block'') [], it_key := [], it_value := (0, 0)\<rparr>"

text \<open>The loop at the end of \<open>ParseNextKey\<close>.\<close>

definition advance_restart :: "Iter \<Rightarrow> (Iter + Iter) option" where
  "advance_restart it =
     (if it_restart_index it + 1 < it_num_restarts it
      then case GetRestartPoint it (it_restart_index it + 1) of None \<Rightarrow> None
        | Some point \<Rightarrow>
            if point < it_current it then Some (Inr (it\<lparr>it_restart_index := it_restart_index it + 1\<rparr>))
            else Some (Inl it)
      else Some (Inl it))"

definition ParseNextKey :: "Iter \<Rightarrow> (bool \<times> Iter) option" where
  "ParseNextKey it =
     (let it = it\<lparr>it_current := NextEntryOffset it\<rparr> in
      if it_current it \<ge> it_restarts it
      then Some (False, it\<lparr>it_current := it_restarts it, it_restart_index := it_num_restarts it\<rparr>)
      else
        case DecodeEntry (drop (unat (it_current it)) (take (unat (it_restarts it)) (it_data it))) of
          None \<Rightarrow> Some (False, CorruptionError it)
        | Some (shared, non_shared, value_length, p) \<Rightarrow>
            if length (it_key it) < unat shared then Some (False, CorruptionError it)
            else
              let offset = unat (it_restarts it) - length p in
              if length (it_data it) < offset + unat non_shared then None
              else map_option (Pair True) (c_loop advance_restart
                (it\<lparr>it_key := take (unat shared) (it_key it) @ take (unat non_shared) (drop offset (it_data it)),
                    it_value := (offset + unat non_shared, unat value_length)\<rparr>)))"

definition Iter_Next :: "Iter \<Rightarrow> Iter option" where
  "Iter_Next it = (if \<not> Iter_Valid it then None else map_option snd (ParseNextKey it))"

text \<open>The first loop of \<open>Prev\<close>: its result says whether it returned early.\<close>

definition prev_restart_step :: "u32 \<Rightarrow> Iter \<Rightarrow> ((bool \<times> Iter) + Iter) option" where
  "prev_restart_step original it =
     (case GetRestartPoint it (it_restart_index it) of None \<Rightarrow> None
      | Some point \<Rightarrow>
          if point \<ge> original then
            if it_restart_index it = 0
            then Some (Inl (True, it\<lparr>it_current := it_restarts it, it_restart_index := it_num_restarts it\<rparr>))
            else Some (Inr (it\<lparr>it_restart_index := it_restart_index it - 1\<rparr>))
          else Some (Inl (False, it)))"

text \<open>The loops \<open>while (ParseNextKey() && NextEntryOffset() < bound)\<close> of \<open>Prev\<close> and \<open>SeekToLast\<close>.\<close>

definition parse_until_step :: "u32 \<Rightarrow> Iter \<Rightarrow> (Iter + Iter) option" where
  "parse_until_step bound it =
     (case ParseNextKey it of None \<Rightarrow> None
      | Some (found, it) \<Rightarrow> if found \<and> NextEntryOffset it < bound then Some (Inr it) else Some (Inl it))"

definition Iter_Prev :: "Iter \<Rightarrow> Iter option" where
  "Iter_Prev it =
     (if \<not> Iter_Valid it then None
      else
        let original = it_current it in
        case c_loop (prev_restart_step original) it of None \<Rightarrow> None
        | Some (True, it) \<Rightarrow> Some it
        | Some (False, it) \<Rightarrow>
            (case SeekToRestartPoint (it_restart_index it) it of None \<Rightarrow> None
             | Some it \<Rightarrow> c_loop (parse_until_step original) it))"

text \<open>The binary search of \<open>Seek\<close>: \<open>None\<close> as its outcome is the corruption error.\<close>

definition search_step :: "slice \<Rightarrow> Iter \<Rightarrow> u32 \<times> u32 \<Rightarrow> (u32 option + u32 \<times> u32) option" where
  "search_step target it = (\<lambda>(left, right).
     if left < right then
       let mid = (left + right + 1) div 2 in
       case GetRestartPoint it mid of None \<Rightarrow> None
       | Some region_offset \<Rightarrow>
           (case DecodeEntry (drop (unat region_offset) (take (unat (it_restarts it)) (it_data it))) of
              None \<Rightarrow> Some (Inl None)
            | Some (shared, non_shared, value_length, p) \<Rightarrow>
                if shared \<noteq> 0 then Some (Inl None)
                else
                  let offset = unat (it_restarts it) - length p in
                  if length (it_data it) < offset + unat non_shared then None
                  else
                    let mid_key = take (unat non_shared) (drop offset (it_data it)) in
                    if Compare (it_comparator it) mid_key target < 0 then Some (Inr (mid, right))
                    else Some (Inr (left, mid - 1)))
     else Some (Inl (Some left)))"

definition seek_scan_step :: "slice \<Rightarrow> Iter \<Rightarrow> (Iter + Iter) option" where
  "seek_scan_step target it =
     (case ParseNextKey it of None \<Rightarrow> None
      | Some (found, it) \<Rightarrow>
          if \<not> found then Some (Inl it)
          else if Compare (it_comparator it) (it_key it) target \<ge> 0 then Some (Inl it)
          else Some (Inr it))"

definition Iter_Seek :: "slice \<Rightarrow> Iter \<Rightarrow> Iter option" where
  "Iter_Seek target it =
     (case c_loop (search_step target it) (0, it_num_restarts it - 1) of None \<Rightarrow> None
      | Some None \<Rightarrow> Some (CorruptionError it)
      | Some (Some left) \<Rightarrow>
          (case SeekToRestartPoint left it of None \<Rightarrow> None
           | Some it \<Rightarrow> c_loop (seek_scan_step target) it))"

definition Iter_SeekToFirst :: "Iter \<Rightarrow> Iter option" where
  "Iter_SeekToFirst it =
     (case SeekToRestartPoint 0 it of None \<Rightarrow> None
      | Some it \<Rightarrow> map_option snd (ParseNextKey it))"

definition Iter_SeekToLast :: "Iter \<Rightarrow> Iter option" where
  "Iter_SeekToLast it =
     (case SeekToRestartPoint (it_num_restarts it - 1) it of None \<Rightarrow> None
      | Some it \<Rightarrow> c_loop (parse_until_step (it_restarts it)) it)"

definition block_iter :: "Iter iter_ops" where
  "block_iter = \<lparr>Valid = Iter_Valid, SeekToFirst = Iter_SeekToFirst, SeekToLast = Iter_SeekToLast,
     Seek = Iter_Seek, Next = Iter_Next, Prev = Iter_Prev, iter_key = Iter_key, iter_value = Iter_value,
     iter_status = it_status\<rparr>"

text \<open>\<open>NewIterator\<close>: an empty iterator with its status, or an iterator over the block.\<close>

definition Block_NewIterator :: "Block \<Rightarrow> comparator \<Rightarrow> (Status + Iter) option" where
  "Block_NewIterator bl comparator =
     (if bl_size bl < 4 then Some (Inl (NewErrorIterator (Corruption (chars ''bad block contents'') [])))
      else case NumRestarts (bl_data bl) (bl_size bl) of None \<Rightarrow> None
        | Some num_restarts \<Rightarrow>
            if num_restarts = 0 then Some (Inl NewEmptyIterator)
            else map_option Inr (Iter_new comparator (bl_data bl) (bl_restart_offset bl) num_restarts))"

end
