(* ===== verification/LDB_Block_Layout.thy ===== *)
theory LDB_Block_Layout
  imports LDB_Block
begin

text \<open>
  LevelDB: the format of a block as a function of its entries, how much of each key is shared and
  which entries are restart points; the block iterator on a block of this format keeps the contract of
  iterators.
\<close>

section \<open>The format\<close>

text \<open>An entry with the length of the prefix it shares with the key before.\<close>

type_synonym shared_entry = "nat \<times> slice \<times> slice"

definition entry_bytes :: "shared_entry \<Rightarrow> u8 list" where
  "entry_bytes x = (case x of (s, k, v) \<Rightarrow>
     EncodeVarint32 (word_of_nat s) @ EncodeVarint32 (word_of_nat (length k - s)) @
     EncodeVarint32 (word_of_nat (length v)) @ drop s k @ v)"

definition entries_bytes :: "shared_entry list \<Rightarrow> u8 list" where
  "entries_bytes xs = concat (map entry_bytes xs)"

definition entry_off :: "shared_entry list \<Rightarrow> nat \<Rightarrow> nat" where
  "entry_off xs n = length (entries_bytes (take n xs))"

definition restart_bytes :: "shared_entry list \<Rightarrow> nat list \<Rightarrow> u8 list" where
  "restart_bytes xs rs = fixed32s (map (\<lambda>r. word_of_nat (entry_off xs r)) rs)"

definition block_bytes :: "shared_entry list \<Rightarrow> nat list \<Rightarrow> u8 list" where
  "block_bytes xs rs = entries_bytes xs @ restart_bytes xs rs @ EncodeFixed32 (word_of_nat (length rs))"

abbreviation entry_key :: "shared_entry list \<Rightarrow> nat \<Rightarrow> slice" where
  "entry_key xs n \<equiv> fst (snd (xs ! n))"

abbreviation entry_val :: "shared_entry list \<Rightarrow> nat \<Rightarrow> slice" where
  "entry_val xs n \<equiv> snd (snd (xs ! n))"

text \<open>Prefixes are shared only with the key before, and not at restart points.\<close>

definition shares :: "shared_entry list \<Rightarrow> bool" where
  "shares xs \<longleftrightarrow> (\<forall>n < length xs. fst (xs ! n) \<le> length (entry_key xs n) \<and>
     (if n = 0 then fst (xs ! n) = 0
      else fst (xs ! n) \<le> length (entry_key xs (n - 1)) \<and>
        take (fst (xs ! n)) (entry_key xs (n - 1)) = take (fst (xs ! n)) (entry_key xs n)))"

definition restarts_ok :: "shared_entry list \<Rightarrow> nat list \<Rightarrow> bool" where
  "restarts_ok xs rs \<longleftrightarrow> rs \<noteq> [] \<and> rs ! 0 = 0 \<and> sorted_wrt (<) rs \<and>
     (\<forall>r \<in> set rs. r = 0 \<or> r < length xs) \<and> (\<forall>r \<in> set rs. r < length xs \<longrightarrow> fst (xs ! r) = 0)"

definition layout :: "shared_entry list \<Rightarrow> nat list \<Rightarrow> bool" where
  "layout xs rs \<longleftrightarrow> shares xs \<and> restarts_ok xs rs \<and> length (block_bytes xs rs) < 2 ^ 32"

section \<open>Decoding an entry\<close>

lemma unat_of_32 [simp]: "a < 4294967296 \<Longrightarrow> unat (word_of_nat a :: u32) = a"
  using unat_of_nat_32 [of a] by simp

lemma of_nat_less_32: "a < 2 ^ 32 \<Longrightarrow> b < 2 ^ 32 \<Longrightarrow> (word_of_nat a :: u32) < word_of_nat b \<longleftrightarrow> a < b"
  by (simp add: word_less_nat_alt)

lemma of_nat_le_32: "a < 2 ^ 32 \<Longrightarrow> b < 2 ^ 32 \<Longrightarrow> (word_of_nat a :: u32) \<le> word_of_nat b \<longleftrightarrow> a \<le> b"
  by (simp add: word_le_nat_alt)

lemma of_nat_eq_32: "a < 2 ^ 32 \<Longrightarrow> b < 2 ^ 32 \<Longrightarrow> (word_of_nat a :: u32) = word_of_nat b \<longleftrightarrow> a = b"
  by (simp add: word_unat_eq_iff)

lemma word_pred_32: "0 < k \<Longrightarrow> (word_of_nat k :: u32) - 1 = word_of_nat (k - 1)"
  by (cases k) simp_all

lemma small_or: "a OR b < 128 \<longleftrightarrow> a < 128 \<and> b < 128" for a b :: u32
proof -
  have small: "x < 128 \<longleftrightarrow> drop_bit 7 x = 0" for x :: u32
    by (simp add: word_less_nat_alt word_unat_eq_iff unat_drop_bit div_eq_0_iff)
  show ?thesis by (simp add: small drop_bit_or or_eq_0_iff)
qed

lemma GetVarint32Ptr_small: "unat b < 128 \<Longrightarrow> GetVarint32Ptr (b # p) = Some (ucast b, p)"
  by (simp add: GetVarint32Ptr_eq of_nat_unat)

lemma DecodeEntry_slow:
  "3 \<le> length p \<Longrightarrow> DecodeEntry p =
     (case (case GetVarint32Ptr p of None \<Rightarrow> None
         | Some (shared, p) \<Rightarrow> (case GetVarint32Ptr p of None \<Rightarrow> None
           | Some (non_shared, p) \<Rightarrow> (case GetVarint32Ptr p of None \<Rightarrow> None
             | Some (value_length, p) \<Rightarrow> Some (shared, non_shared, value_length, p)))) of
        None \<Rightarrow> None
      | Some (shared, non_shared, value_length, p) \<Rightarrow>
          if (word_of_nat (length p) :: u32) < non_shared + value_length then None
          else Some (shared, non_shared, value_length, p))"
proof -
  assume "3 \<le> length p"
  then obtain a b c q where p: "p = a # b # c # q"
    by (cases p; cases "tl p"; cases "tl (tl p)") auto
  have s: "(ucast x :: u32) < 128 \<longleftrightarrow> unat x < 128" for x :: u8
  proof -
    have "unat x < 2 ^ 32" using unat_u8_less [of x] by (rule less_trans) simp
    then show ?thesis by (simp add: word_less_nat_alt unsigned_ucast_eq take_bit_nat_eq_self)
  qed
  show ?thesis
  proof (cases "unat a < 128 \<and> unat b < 128 \<and> unat c < 128")
    case True
    then show ?thesis
      by (simp add: p DecodeEntry_def Let_def small_or s GetVarint32Ptr_small numeral_2_eq_2)
  next
    case False
    then show ?thesis by (auto simp: p DecodeEntry_def Let_def small_or s numeral_2_eq_2)
  qed
qed

lemma length_varint_pos: "0 < length (EncodeVarint32 v)"
  using EncodeVarint32_eq [of v] by (simp add: varint_bytes.simps [of "unat v"])

lemma length_entry_bytes: "3 + (length k - s) + length v \<le> length (entry_bytes (s, k, v))"
  using length_varint_pos [of "word_of_nat s"] length_varint_pos [of "word_of_nat (length k - s)"]
    length_varint_pos [of "word_of_nat (length v)"]
  unfolding entry_bytes_def prod.case length_append length_drop by linarith

lemma DecodeEntry_bytes:
  assumes "length (entry_bytes (s, k, v) @ rest) < 2 ^ 32"
  shows "DecodeEntry (entry_bytes (s, k, v) @ rest) =
    Some (word_of_nat s, word_of_nat (length k - s), word_of_nat (length v), drop s k @ v @ rest)"
proof -
  let ?p = "drop s k @ v @ rest"
  have len: "3 \<le> length (entry_bytes (s, k, v) @ rest)" using length_entry_bytes [of k s v] by simp
  have small: "length ?p < 2 ^ 32" using assms length_entry_bytes [of k s v] by simp
  have sum: "word_of_nat (length k - s) + word_of_nat (length v) = (word_of_nat (length k - s + length v) :: u32)"
    by simp
  have fits: "\<not> (word_of_nat (length ?p) :: u32) < word_of_nat (length k - s) + word_of_nat (length v)"
    using small unfolding sum by (subst of_nat_less_32) auto
  have "entry_bytes (s, k, v) @ rest = EncodeVarint32 (word_of_nat s) @ EncodeVarint32 (word_of_nat (length k - s)) @
      EncodeVarint32 (word_of_nat (length v)) @ ?p"
    by (simp add: entry_bytes_def)
  then show ?thesis
    unfolding DecodeEntry_slow [OF len]
    by (simp only: GetVarint32Ptr_bytes option.case prod.case if_not_P [OF fits])
qed

section \<open>Offsets\<close>

lemma entries_bytes_simps [simp]:
  "entries_bytes [] = []" "entries_bytes (x # xs) = entry_bytes x @ entries_bytes xs"
  "entries_bytes (xs @ ys) = entries_bytes xs @ entries_bytes ys"
  by (simp_all add: entries_bytes_def)

lemma entry_bytes_pos: "3 \<le> length (entry_bytes x)"
proof (cases x)
  case (fields s k v)
  show ?thesis unfolding fields using length_entry_bytes [of k s v] by linarith
qed

lemma entry_off_0 [simp]: "entry_off xs 0 = 0"
  by (simp add: entry_off_def)

lemma entry_off_Suc: "n < length xs \<Longrightarrow> entry_off xs (Suc n) = entry_off xs n + length (entry_bytes (xs ! n))"
  by (simp add: entry_off_def take_Suc_conv_app_nth)

lemma entry_off_all: "entry_off xs (length xs) = length (entries_bytes xs)"
  by (simp add: entry_off_def)

lemma entry_off_mono: "n \<le> m \<Longrightarrow> entry_off xs n \<le> entry_off xs m"
proof -
  assume "n \<le> m"
  then have "take m xs = take n xs @ take (m - n) (drop n xs)" by (metis le_add_diff_inverse take_add)
  then show ?thesis by (simp add: entry_off_def)
qed

lemma entry_off_less:
  assumes "m \<le> length xs" "n \<le> length xs"
  shows "entry_off xs n < entry_off xs m \<longleftrightarrow> n < m"
proof
  assume "n < m"
  then have "entry_off xs n < entry_off xs (Suc n)"
    using assms entry_off_Suc [of n xs] entry_bytes_pos [of "xs ! n"] by linarith
  also have "\<dots> \<le> entry_off xs m" using \<open>n < m\<close> by (intro entry_off_mono) simp
  finally show "entry_off xs n < entry_off xs m" .
next
  assume "entry_off xs n < entry_off xs m"
  then show "n < m" using entry_off_mono [of m n xs] by (cases "n < m") simp_all
qed

lemma entry_off_le: "n \<le> length xs \<Longrightarrow> entry_off xs n \<le> length (entries_bytes xs)"
  using entry_off_mono [of n "length xs" xs] by (simp add: entry_off_all)

lemma drop_entry_off: "drop (entry_off xs n) (entries_bytes xs) = entries_bytes (drop n xs)"
  by (metis append_take_drop_id entries_bytes_simps(3) entry_off_def append_eq_conv_conj)

lemma length_restart_bytes: "length (restart_bytes xs rs) = 4 * length rs"
  by (simp add: restart_bytes_def)

lemma drop_restart_bytes:
  "j < length rs \<Longrightarrow> drop (4 * j) (restart_bytes xs rs) =
     EncodeFixed32 (word_of_nat (entry_off xs (rs ! j))) @ restart_bytes xs (drop (Suc j) rs)"
  using drop_fixed32s [of j "map (\<lambda>r. word_of_nat (entry_off xs r)) rs"]
  by (simp add: restart_bytes_def drop_map)

lemma layout_small:
  assumes "layout xs rs"
  shows "length (entries_bytes xs) + 4 * length rs + 4 < 2 ^ 32"
  using assms by (simp add: layout_def block_bytes_def length_restart_bytes)

section \<open>States of the iterator\<close>

text \<open>The constant part.\<close>

definition it_over :: "comparator \<Rightarrow> shared_entry list \<Rightarrow> nat list \<Rightarrow> Iter \<Rightarrow> bool" where
  "it_over C xs rs it \<longleftrightarrow> it_comparator it = C \<and> it_data it = block_bytes xs rs \<and>
     it_restarts it = word_of_nat (length (entries_bytes xs)) \<and> it_num_restarts it = word_of_nat (length rs) \<and>
     it_status it = status_OK"

definition restart_at :: "nat list \<Rightarrow> nat \<Rightarrow> Iter \<Rightarrow> bool" where
  "restart_at rs n it \<longleftrightarrow> (\<exists>j < length rs. it_restart_index it = word_of_nat j \<and> rs ! j \<le> n)"

text \<open>The next call of \<open>ParseNextKey\<close> reads entry \<open>n\<close>; the iterator is on entry \<open>n\<close>; it is not valid.\<close>

definition ready :: "comparator \<Rightarrow> shared_entry list \<Rightarrow> nat list \<Rightarrow> nat \<Rightarrow> Iter \<Rightarrow> bool" where
  "ready C xs rs n it \<longleftrightarrow> it_over C xs rs it \<and> n \<le> length xs \<and> restart_at rs n it \<and>
     NextEntryOffset it = word_of_nat (entry_off xs n) \<and>
     (n < length xs \<longrightarrow> fst (xs ! n) \<le> length (it_key it) \<and>
        take (fst (xs ! n)) (it_key it) = take (fst (xs ! n)) (entry_key xs n))"

definition on_entry :: "comparator \<Rightarrow> shared_entry list \<Rightarrow> nat list \<Rightarrow> nat \<Rightarrow> Iter \<Rightarrow> bool" where
  "on_entry C xs rs n it \<longleftrightarrow> it_over C xs rs it \<and> n < length xs \<and> restart_at rs n it \<and>
     it_current it = word_of_nat (entry_off xs n) \<and> it_key it = entry_key xs n \<and>
     it_value it = (entry_off xs (Suc n) - length (entry_val xs n), length (entry_val xs n))"

definition at_end :: "comparator \<Rightarrow> shared_entry list \<Rightarrow> nat list \<Rightarrow> Iter \<Rightarrow> bool" where
  "at_end C xs rs it \<longleftrightarrow> it_over C xs rs it \<and> it_current it = it_restarts it"

lemma restart_point:
  assumes "layout xs rs" "it_over C xs rs it" "j < length rs"
  shows "GetRestartPoint it (word_of_nat j) = Some (word_of_nat (entry_off xs (rs ! j)))"
proof -
  have j: "j < 2 ^ 32" "length rs < 2 ^ 32" "length (entries_bytes xs) < 2 ^ 32"
    using layout_small [OF assms(1)] assms(3) by simp_all
  have "drop (length (entries_bytes xs) + j * 4) (block_bytes xs rs) =
      EncodeFixed32 (word_of_nat (entry_off xs (rs ! j))) @
        restart_bytes xs (drop (Suc j) rs) @ EncodeFixed32 (word_of_nat (length rs))"
    using drop_restart_bytes [OF assms(3), of xs] assms(3)
    by (simp add: block_bytes_def length_restart_bytes mult.commute)
  then show ?thesis
    using assms(2,3) j
    by (auto simp: GetRestartPoint_def it_over_def of_nat_less_32 Let_def block_bytes_def length_restart_bytes)
qed

lemma restart_index_ok: "layout xs rs \<Longrightarrow> j < length rs \<Longrightarrow> rs ! j \<le> length xs"
proof -
  assume "layout xs rs" "j < length rs"
  then have "rs ! j = 0 \<or> rs ! j < length xs" by (simp add: layout_def restarts_ok_def)
  then show ?thesis by linarith
qed

lemma restart_less:
  assumes "layout xs rs" "j < length rs" "xs \<noteq> []"
  shows "rs ! j < length xs"
proof -
  have "rs ! j = 0 \<or> rs ! j < length xs" using assms(1,2) by (simp add: layout_def restarts_ok_def)
  with assms(3) show ?thesis by auto
qed

lemma restart_to_ready:
  assumes "layout xs rs" "it_over C xs rs it" "j < length rs"
  shows "\<exists>it'. SeekToRestartPoint (word_of_nat j) it = Some it' \<and> ready C xs rs (rs ! j) it'"
proof -
  have "entry_off xs (rs ! j) < 2 ^ 32"
    using entry_off_le [OF restart_index_ok [OF assms(1,3)]] layout_small [OF assms(1)] by linarith
  then show ?thesis
    using restart_point [OF assms] assms restart_index_ok [OF assms(1,3)] nth_mem [OF assms(3)]
    by (auto simp: SeekToRestartPoint_def ready_def it_over_def restart_at_def NextEntryOffset_def
        layout_def restarts_ok_def)
qed

lemma on_entry_ready:
  assumes "layout xs rs" "on_entry C xs rs n it"
  shows "ready C xs rs (Suc n) it"
proof -
  have n: "n < length xs" using assms(2) by (simp add: on_entry_def)
  have "length (entry_val xs n) \<le> entry_off xs (Suc n)"
    using length_entry_bytes [of "entry_key xs n" "fst (xs ! n)" "entry_val xs n"] entry_off_Suc [OF n] by simp
  moreover have "shares xs" using assms(1) by (simp add: layout_def)
  ultimately show ?thesis
    using assms(2) n by (auto simp: on_entry_def ready_def NextEntryOffset_def shares_def restart_at_def
        intro: le_SucI)
qed

text \<open>The loop that advances the restart index changes nothing else.\<close>

lemma advance_restart_loop:
  assumes "layout xs rs" "it_over C xs rs it" "restart_at rs n it" "it_current it = word_of_nat (entry_off xs n)"
    "n \<le> length xs"
  shows "\<exists>r. c_loop advance_restart it = Some r \<and>
    restart_at rs n r \<and> (\<exists>i. r = it\<lparr>it_restart_index := i\<rparr>)"
proof (rule c_loop_rule [where I = "\<lambda>r. restart_at rs n r \<and> (\<exists>i. r = it\<lparr>it_restart_index := i\<rparr>)"
      and m = "\<lambda>r. length rs - unat (it_restart_index r)"])
  have "it = it\<lparr>it_restart_index := it_restart_index it\<rparr>" by simp
  with assms(3) show "restart_at rs n it \<and> (\<exists>i. it = it\<lparr>it_restart_index := i\<rparr>)" by blast
next
  fix r
  assume "restart_at rs n r \<and> (\<exists>i. r = it\<lparr>it_restart_index := i\<rparr>)"
  then obtain j where j: "j < length rs" "rs ! j \<le> n" and r: "r = it\<lparr>it_restart_index := word_of_nat j\<rparr>"
    by (auto simp: restart_at_def)
  have over: "it_over C xs rs r" using assms(2) by (simp add: r it_over_def)
  have small: "Suc j < 2 ^ 32" "length rs < 2 ^ 32" "entry_off xs n < 2 ^ 32"
    using layout_small [OF assms(1)] j(1) entry_off_le [OF assms(5)] by linarith+
  have suc: "it_restart_index r + 1 = word_of_nat (Suc j)" by (simp add: r)
  have num: "it_num_restarts r = word_of_nat (length rs)" using over by (simp add: it_over_def)
  have last: "it_restart_index r + 1 < it_num_restarts r \<longleftrightarrow> Suc j < length rs"
    unfolding suc num using small by (intro of_nat_less_32)
  show "\<exists>x. advance_restart r = Some x \<and> (case x of
      Inl r \<Rightarrow> restart_at rs n r \<and> (\<exists>i. r = it\<lparr>it_restart_index := i\<rparr>)
    | Inr s \<Rightarrow> (restart_at rs n s \<and> (\<exists>i. s = it\<lparr>it_restart_index := i\<rparr>)) \<and>
        length rs - unat (it_restart_index s) < length rs - unat (it_restart_index r))"
  proof (cases "Suc j < length rs")
    case True
    let ?s = "it\<lparr>it_restart_index := word_of_nat (Suc j)\<rparr>"
    have le: "rs ! Suc j \<le> length xs" by (rule restart_index_ok [OF assms(1) True])
    have "entry_off xs (rs ! Suc j) < 2 ^ 32"
      using layout_small [OF assms(1)] entry_off_le [OF le] by linarith
    then have less: "(word_of_nat (entry_off xs (rs ! Suc j)) :: u32) < it_current r \<longleftrightarrow> rs ! Suc j < n"
      using small le assms(4,5) by (simp add: r of_nat_less_32 entry_off_less)
    have step: "advance_restart r = (if rs ! Suc j < n then Some (Inr ?s) else Some (Inl r))"
      unfolding advance_restart_def if_P [OF last [THEN iffD2, OF True]]
      unfolding suc restart_point [OF assms(1) over True] option.case less by (simp add: r)
    show ?thesis
    proof (cases "rs ! Suc j < n")
      case less: True
      have "restart_at rs n ?s" using less True by (auto simp: restart_at_def simp del: of_nat_Suc)
      moreover have "length rs - unat (it_restart_index ?s) < length rs - unat (it_restart_index r)"
        using True small j(1) by (simp add: r del: of_nat_Suc)
      ultimately show ?thesis using step less by auto
    next
      case False
      with step j r show ?thesis by (auto simp: restart_at_def)
    qed
  next
    case False
    then have "advance_restart r = Some (Inl r)" using last by (simp add: advance_restart_def)
    with j r show ?thesis by (auto simp: restart_at_def)
  qed
qed

section \<open>Parsing\<close>

lemma block_entry:
  assumes "layout xs rs" "n < length xs"
  shows "drop (entry_off xs n) (take (length (entries_bytes xs)) (block_bytes xs rs)) =
    entry_bytes (xs ! n) @ entries_bytes (drop (Suc n) xs)"
  using drop_entry_off [of xs n] Cons_nth_drop_Suc [OF assms(2)]
  by (simp add: block_bytes_def flip: entries_bytes_simps(2))

lemma decode_at:
  assumes "layout xs rs" "it_over C xs rs it" "n < length xs"
  shows "DecodeEntry (drop (unat (word_of_nat (entry_off xs n) :: u32)) (take (unat (it_restarts it)) (it_data it))) =
    Some (word_of_nat (fst (xs ! n)), word_of_nat (length (entry_key xs n) - fst (xs ! n)),
      word_of_nat (length (entry_val xs n)),
      drop (fst (xs ! n)) (entry_key xs n) @ entry_val xs n @ entries_bytes (drop (Suc n) xs))"
proof -
  have small: "length (entries_bytes xs) < 2 ^ 32" "entry_off xs n < 2 ^ 32"
    using layout_small [OF assms(1)] entry_off_le [of n xs] assms(3) by linarith+
  have "length (entry_bytes (xs ! n) @ entries_bytes (drop (Suc n) xs)) \<le> length (entries_bytes xs)"
    unfolding block_entry [OF assms(1,3), symmetric] by (simp add: block_bytes_def)
  then have "length (entry_bytes (xs ! n) @ entries_bytes (drop (Suc n) xs)) < 2 ^ 32"
    using small by linarith
  then show ?thesis
    using DecodeEntry_bytes [of "fst (xs ! n)" "entry_key xs n" "entry_val xs n"] assms(2) small
    by (simp add: it_over_def block_entry [OF assms(1,3)])
qed

text \<open>Where the parts of an entry are.\<close>

lemma entry_parts:
  assumes "layout xs rs" "n < length xs"
  defines "p \<equiv> drop (fst (xs ! n)) (entry_key xs n) @ entry_val xs n @ entries_bytes (drop (Suc n) xs)"
    and "o1 \<equiv> entry_off xs (Suc n) - length (entry_val xs n)"
  shows "length (entries_bytes xs) - length p + (length (entry_key xs n) - fst (xs ! n)) = o1"
    "length (entries_bytes xs) - length p + (length (entry_key xs n) - fst (xs ! n)) \<le> length (block_bytes xs rs)"
    "take (length (entry_key xs n) - fst (xs ! n)) (drop (length (entries_bytes xs) - length p) (block_bytes xs rs)) =
      drop (fst (xs ! n)) (entry_key xs n)"
    "take (length (entry_val xs n)) (drop o1 (block_bytes xs rs)) = entry_val xs n"
    "o1 + length (entry_val xs n) = entry_off xs (Suc n)"
    "entry_off xs (Suc n) \<le> length (block_bytes xs rs)"
proof -
  obtain s k v where x: "xs ! n = (s, k, v)" by (cases "xs ! n")
  define h where "h = EncodeVarint32 (word_of_nat s) @ EncodeVarint32 (word_of_nat (length k - s)) @
    EncodeVarint32 (word_of_nat (length v))"
  define pre where "pre = entries_bytes (take n xs) @ h"
  have data: "entries_bytes xs = pre @ p"
    using id_take_nth_drop [OF assms(2)] entries_bytes_simps(3) [of "take n xs" "xs ! n # drop (Suc n) xs"]
    by (simp add: pre_def h_def p_def x entry_bytes_def)
  have block: "block_bytes xs rs = pre @ p @ restart_bytes xs rs @ EncodeFixed32 (word_of_nat (length rs))"
    by (simp add: block_bytes_def data)
  have len: "length (entries_bytes xs) - length p = length pre" by (simp add: data)
  have off: "entry_off xs (Suc n) = length pre + (length k - s) + length v"
    unfolding entry_off_Suc [OF assms(2)]
    by (simp add: entry_off_def pre_def h_def x entry_bytes_def)
  show "length (entries_bytes xs) - length p + (length (entry_key xs n) - fst (xs ! n)) = o1"
    unfolding len by (simp add: o1_def off x)
  show "length (entries_bytes xs) - length p + (length (entry_key xs n) - fst (xs ! n)) \<le> length (block_bytes xs rs)"
    unfolding len by (simp add: block x p_def)
  show "take (length (entry_key xs n) - fst (xs ! n)) (drop (length (entries_bytes xs) - length p) (block_bytes xs rs)) =
      drop (fst (xs ! n)) (entry_key xs n)"
    unfolding len by (simp add: block x p_def)
  have "drop o1 (block_bytes xs rs) = drop (length k - s) (p @ restart_bytes xs rs @ EncodeFixed32 (word_of_nat (length rs)))"
    by (simp add: o1_def off x block)
  then show "take (length (entry_val xs n)) (drop o1 (block_bytes xs rs)) = entry_val xs n"
    by (simp add: x p_def)
  show "o1 + length (entry_val xs n) = entry_off xs (Suc n)" by (simp add: o1_def off x)
  show "entry_off xs (Suc n) \<le> length (block_bytes xs rs)"
    using entry_off_le [of "Suc n" xs] assms(2) by (simp add: block_bytes_def)
qed

lemma shared_length:
  assumes "shares xs" "n < length xs"
  shows "length (entry_key xs n) \<le> entry_off xs (Suc n) \<and> fst (xs ! n) \<le> entry_off xs n"
  using assms(2)
proof (induction n)
  case 0
  then have "fst (xs ! 0) = 0" using assms(1) by (auto simp: shares_def)
  then show ?case
    using length_entry_bytes [of "entry_key xs 0" "fst (xs ! 0)" "entry_val xs 0"] entry_off_Suc [OF 0]
    by (cases "xs ! 0") simp
next
  case (Suc n)
  then have "fst (xs ! Suc n) \<le> length (entry_key xs n)" using assms(1) by (fastforce simp: shares_def)
  then show ?case
    using Suc length_entry_bytes [of "entry_key xs (Suc n)" "fst (xs ! Suc n)" "entry_val xs (Suc n)"]
      entry_off_Suc [OF Suc.prems]
    unfolding prod.collapse by linarith
qed

lemma parse_entry:
  assumes "layout xs rs" "ready C xs rs n it" "n < length xs"
  shows "\<exists>it'. ParseNextKey it = Some (True, it') \<and> on_entry C xs rs n it'"
proof -
  let ?s = "fst (xs ! n)" and ?k = "entry_key xs n" and ?v = "entry_val xs n"
  let ?p = "drop ?s ?k @ ?v @ entries_bytes (drop (Suc n) xs)"
  let ?it = "it\<lparr>it_current := word_of_nat (entry_off xs n)\<rparr>"
  have over: "it_over C xs rs it" and over': "it_over C xs rs ?it" and next_off: "NextEntryOffset it = word_of_nat (entry_off xs n)"
    and key: "?s \<le> length (it_key it)" "take ?s (it_key it) = take ?s ?k" and idx: "restart_at rs n it"
    using assms(2,3) by (auto simp: ready_def it_over_def)
  have data: "it_data it = block_bytes xs rs" "it_restarts it = word_of_nat (length (entries_bytes xs))"
    using over by (simp_all add: it_over_def)
  have "entry_off xs n < entry_off xs (length xs)" using assms(3) by (simp add: entry_off_less)
  then have small: "length (entries_bytes xs) < 2 ^ 32" "entry_off xs n < length (entries_bytes xs)"
    using layout_small [OF assms(1)] by (simp_all add: entry_off_all)
  have sk: "?s \<le> length ?k" "length ?k - ?s + length ?v < 2 ^ 32" "length ?p \<le> length (entries_bytes xs)"
  proof -
    show "?s \<le> length ?k" using assms(1,3) by (simp add: layout_def shares_def)
    have "length (entry_bytes (xs ! n)) + entry_off xs n \<le> length (entries_bytes xs)"
      using entry_off_le [of "Suc n" xs] entry_off_Suc [OF assms(3)] assms(3) by simp
    then show "length ?k - ?s + length ?v < 2 ^ 32"
      using length_entry_bytes [of ?k ?s ?v] small by simp
    have "length ?p \<le> length (entry_bytes (xs ! n) @ entries_bytes (drop (Suc n) xs))"
      using length_entry_bytes [of ?k ?s ?v] by simp
    also have "\<dots> \<le> length (entries_bytes xs)"
      unfolding block_entry [OF assms(1,3), symmetric] by (simp add: block_bytes_def)
    finally show "length ?p \<le> length (entries_bytes xs)" .
  qed
  have s_small: "?s < 2 ^ 32"
    using shared_length [OF _ assms(3)] assms(1) small by (auto simp: layout_def)
  let ?new = "?it\<lparr>it_key := ?k, it_value := (entry_off xs (Suc n) - length ?v, length ?v)\<rparr>"
  have k: "take ?s (it_key it) @ drop ?s ?k = ?k" by (simp add: key)
  have "restart_at rs n ?new" using idx by (simp add: restart_at_def)
  moreover have "it_over C xs rs ?new" using over by (simp add: it_over_def)
  ultimately obtain r i where r: "c_loop advance_restart ?new = Some r" "restart_at rs n r"
      "r = ?new\<lparr>it_restart_index := i\<rparr>"
    using advance_restart_loop [OF assms(1), of C ?new n] assms(3) by auto
  have lt: "\<not> it_restarts it \<le> word_of_nat (entry_off xs n)"
    using small by (simp add: data of_nat_le_32)
  have sel: "it_current ?it = word_of_nat (entry_off xs n)" "it_restarts ?it = it_restarts it"
    "it_data ?it = it_data it" "it_key ?it = it_key it"
    by simp_all
  note dec = decode_at [OF assms(1) over assms(3)]
  note parts = entry_parts [OF assms(1,3)]
  have lens: "unat (word_of_nat ?s :: u32) = ?s" "unat (word_of_nat (length ?k - ?s) :: u32) = length ?k - ?s"
    "unat (word_of_nat (length ?v) :: u32) = length ?v" "unat (it_restarts it) = length (entries_bytes xs)"
    using s_small sk(2) small(1) by (simp_all add: data)
  have "ParseNextKey it = map_option (Pair True) (c_loop advance_restart ?new)"
    unfolding ParseNextKey_def next_off Let_def sel if_not_P [OF lt] dec option.case prod.case
    unfolding lens if_not_P [OF key(1) [unfolded not_less [symmetric]]] data(1) if_not_P [OF parts(2) [unfolded not_less [symmetric]]]
      parts(3) k parts(1)
    using parts(2) [unfolded parts(1)] by simp
  then show ?thesis
    using r over assms(3) by (simp add: on_entry_def it_over_def)
qed

lemma parse_end:
  assumes "layout xs rs" "ready C xs rs (length xs) it"
  shows "\<exists>it'. ParseNextKey it = Some (False, it') \<and> at_end C xs rs it'"
  using assms(2) by (auto simp: ParseNextKey_def ready_def it_over_def at_end_def entry_off_all)

text \<open>The position the next \<open>ParseNextKey\<close> reaches.\<close>

definition positioned :: "comparator \<Rightarrow> shared_entry list \<Rightarrow> nat list \<Rightarrow> nat \<Rightarrow> Iter \<Rightarrow> bool" where
  "positioned C xs rs n it \<longleftrightarrow> (if n < length xs then on_entry C xs rs n it else n = length xs \<and> at_end C xs rs it)"

lemma parse_next:
  assumes "layout xs rs" "ready C xs rs n it"
  shows "\<exists>it'. ParseNextKey it = Some (n < length xs, it') \<and> positioned C xs rs n it'"
proof (cases "n < length xs")
  case True
  with parse_entry [OF assms] show ?thesis by (auto simp: positioned_def)
next
  case False
  then have "n = length xs" using assms(2) by (simp add: ready_def)
  with parse_end assms show ?thesis by (auto simp: positioned_def)
qed

text \<open>The loop of \<open>Prev\<close> and \<open>SeekToLast\<close> stops on the entry before the bound.\<close>

lemma parse_until:
  assumes "layout xs rs" "ready C xs rs n it" "n < m" "m \<le> length xs"
  shows "\<exists>it'. c_loop (parse_until_step (word_of_nat (entry_off xs m))) it = Some it' \<and> on_entry C xs rs (m - 1) it'"
  using assms(2,3)
proof (induction "m - n" arbitrary: n it)
  case (Suc d)
  have n: "n < length xs" using Suc.prems(2) assms(4) by simp
  obtain it' where it': "ParseNextKey it = Some (True, it')" "on_entry C xs rs n it'"
    using parse_entry [OF assms(1) Suc.prems(1) n] by blast
  have r: "ready C xs rs (Suc n) it'" by (rule on_entry_ready [OF assms(1) it'(2)])
  have small: "entry_off xs (Suc n) < 2 ^ 32" "entry_off xs m < 2 ^ 32"
    using layout_small [OF assms(1)] entry_off_le [of "Suc n" xs] entry_off_le [OF assms(4)] n by simp_all
  have "NextEntryOffset it' < word_of_nat (entry_off xs m) \<longleftrightarrow> Suc n < m"
    using r small n assms(4) by (simp add: ready_def of_nat_less_32 entry_off_less)
  then have step: "parse_until_step (word_of_nat (entry_off xs m)) it =
      (if Suc n < m then Some (Inr it') else Some (Inl it'))"
    by (simp add: parse_until_step_def it'(1))
  show ?case
  proof (cases "Suc n < m")
    case True
    then have "\<exists>it''. c_loop (parse_until_step (word_of_nat (entry_off xs m))) it' = Some it'' \<and>
        on_entry C xs rs (m - 1) it''"
      using Suc.hyps(2) by (intro Suc.hyps(1)) (simp_all add: r)
    then show ?thesis using step True by (simp add: c_loop_unfold)
  next
    case False
    then have "m - 1 = n" using Suc.prems(2) by simp
    then show ?thesis using step False it'(2) by (auto simp: c_loop_unfold)
  qed
qed simp

section \<open>Movements\<close>

lemma first_positioned:
  assumes "layout xs rs" "it_over C xs rs it"
  shows "\<exists>it'. Iter_SeekToFirst it = Some it' \<and> positioned C xs rs 0 it'"
proof -
  have rs: "0 < length rs" "rs ! 0 = 0" using assms(1) by (auto simp: layout_def restarts_ok_def)
  obtain it1 where it1: "SeekToRestartPoint 0 it = Some it1" "ready C xs rs 0 it1"
    using restart_to_ready [OF assms rs(1)] rs(2) by auto
  show ?thesis using parse_next [OF assms(1) it1(2)] it1(1) by (auto simp: Iter_SeekToFirst_def)
qed

lemma last_positioned:
  assumes "layout xs rs" "it_over C xs rs it"
  shows "\<exists>it'. Iter_SeekToLast it = Some it' \<and> positioned C xs rs (length xs - 1) it'"
proof -
  have rs: "0 < length rs" "length rs - 1 < length rs" using assms(1) by (auto simp: layout_def restarts_ok_def)
  have num: "it_num_restarts it - 1 = word_of_nat (length rs - 1)"
    using assms(2) word_pred_32 [OF rs(1)] by (simp add: it_over_def)
  obtain it1 where it1: "SeekToRestartPoint (it_num_restarts it - 1) it = Some it1" "ready C xs rs (rs ! (length rs - 1)) it1"
    unfolding num using restart_to_ready [OF assms rs(2)] by auto
  have bound: "it_restarts it1 = word_of_nat (entry_off xs (length xs))" "it_restarts it = it_restarts it1"
    using it1(2) assms(2) by (simp_all add: ready_def it_over_def entry_off_all)
  show ?thesis
  proof (cases "xs = []")
    case True
    then have "rs ! (length rs - 1) = 0" using it1(2) by (simp add: ready_def)
    with True it1 obtain it2 where "ParseNextKey it1 = Some (False, it2)" "at_end C xs rs it2"
      using parse_end [OF assms(1)] by fastforce
    with it1(1) True show ?thesis
      by (simp add: Iter_SeekToLast_def parse_until_step_def c_loop_unfold positioned_def)
  next
    case False
    have "rs ! (length rs - 1) < length xs"
      by (rule restart_less [OF assms(1) rs(2) False])
    from parse_until [OF assms(1) it1(2) this order_refl] show ?thesis
      using it1(1) bound False by (auto simp: Iter_SeekToLast_def positioned_def)
  qed
qed

lemma next_positioned:
  assumes "layout xs rs" "on_entry C xs rs n it" "Iter_Valid it"
  shows "\<exists>it'. Iter_Next it = Some it' \<and> positioned C xs rs (Suc n) it'"
  using parse_next [OF assms(1) on_entry_ready [OF assms(1,2)]] assms(3) by (auto simp: Iter_Next_def)

lemma on_entry_Valid:
  assumes "layout xs rs" "on_entry C xs rs n it"
  shows "Iter_Valid it"
proof -
  have n: "n < length xs" using assms(2) by (simp add: on_entry_def)
  then have "entry_off xs n < length (entries_bytes xs)"
    using entry_off_less [of "length xs" xs n] by (simp add: entry_off_all)
  then show ?thesis
    using assms layout_small [OF assms(1)] by (simp add: Iter_Valid_def on_entry_def it_over_def of_nat_less_32)
qed

text \<open>The first loop of \<open>Prev\<close> ends at a restart point before the entry, or at the first entry.\<close>

lemma prev_restart_loop:
  assumes "layout xs rs" "on_entry C xs rs n it"
  shows "\<exists>r. c_loop (prev_restart_step (word_of_nat (entry_off xs n))) it = Some r \<and>
    (case r of (True, it') \<Rightarrow> n = 0 \<and> at_end C xs rs it'
     | (False, it') \<Rightarrow> it_over C xs rs it' \<and>
        (\<exists>j < length rs. it_restart_index it' = word_of_nat j \<and> rs ! j < n))"
proof (rule c_loop_rule [where I = "\<lambda>s. it_over C xs rs s \<and> restart_at rs n s"
      and m = "\<lambda>s. unat (it_restart_index s)"])
  show "it_over C xs rs it \<and> restart_at rs n it" using assms(2) by (simp add: on_entry_def)
next
  fix s
  assume I: "it_over C xs rs s \<and> restart_at rs n s"
  then obtain j where j: "j < length rs" "it_restart_index s = word_of_nat j" "rs ! j \<le> n"
    by (auto simp: restart_at_def)
  have n: "n < length xs" using assms(2) by (simp add: on_entry_def)
  have small: "j < 2 ^ 32" "entry_off xs n < 2 ^ 32" "entry_off xs (rs ! j) < 2 ^ 32"
    using layout_small [OF assms(1)] j(1) entry_off_le [of n xs] entry_off_le [of "rs ! j" xs] n j(3) by simp_all
  have point: "GetRestartPoint s (it_restart_index s) = Some (word_of_nat (entry_off xs (rs ! j)))"
    unfolding j(2) by (rule restart_point [OF assms(1)]) (use I j(1) in blast)+
  have ge: "(word_of_nat (entry_off xs n) :: u32) \<le> word_of_nat (entry_off xs (rs ! j)) \<longleftrightarrow> n \<le> rs ! j"
    unfolding of_nat_le_32 [OF small(2,3)] using n j(3) entry_off_less [of n xs "rs ! j"] by linarith
  have zero: "it_restart_index s = 0 \<longleftrightarrow> j = 0" using of_nat_eq_32 [of j 0] small(1) by (simp add: j(2))
  have step: "prev_restart_step (word_of_nat (entry_off xs n)) s =
      (if n \<le> rs ! j then
         if j = 0 then Some (Inl (True, s\<lparr>it_current := it_restarts s, it_restart_index := it_num_restarts s\<rparr>))
         else Some (Inr (s\<lparr>it_restart_index := it_restart_index s - 1\<rparr>))
       else Some (Inl (False, s)))"
    by (simp only: prev_restart_step_def point option.case ge zero)
  show "\<exists>x. prev_restart_step (word_of_nat (entry_off xs n)) s = Some x \<and> (case x of
      Inl r \<Rightarrow> (case r of (True, it') \<Rightarrow> n = 0 \<and> at_end C xs rs it'
        | (False, it') \<Rightarrow> it_over C xs rs it' \<and> (\<exists>j < length rs. it_restart_index it' = word_of_nat j \<and> rs ! j < n))
    | Inr t \<Rightarrow> (it_over C xs rs t \<and> restart_at rs n t) \<and> unat (it_restart_index t) < unat (it_restart_index s))"
  proof (cases "n \<le> rs ! j")
    case False
    then show ?thesis using I j step by auto
  next
    case True
    show ?thesis
    proof (cases "j = 0")
      case z: True
      then have "n = 0" using True assms(1) by (simp add: layout_def restarts_ok_def)
      with z True I step show ?thesis by (simp add: at_end_def it_over_def)
    next
      case False
      then obtain i where i: "j = Suc i" by (cases j) simp_all
      let ?t = "s\<lparr>it_restart_index := it_restart_index s - 1\<rparr>"
      have "rs ! i < rs ! j" using assms(1) j(1) i
        by (simp add: layout_def restarts_ok_def sorted_wrt_iff_nth_less)
      then have "rs ! i \<le> n" using j(3) by linarith
      moreover have idx: "it_restart_index ?t = word_of_nat i"
        using i word_pred_32 [of j] by (simp add: j(2))
      ultimately have "restart_at rs n ?t" 
        using j(1) i unfolding restart_at_def idx by (intro exI [of _ i]) simp
      moreover have "unat (it_restart_index ?t) < unat (it_restart_index s)"
      proof -
        have "unat (it_restart_index ?t) = i" unfolding idx using i small(1) by simp
        moreover have "unat (it_restart_index s) = j" unfolding j(2) using small(1) by simp
        ultimately show ?thesis using i by linarith
      qed
      ultimately show ?thesis using step True False I by (simp add: it_over_def)
    qed
  qed
qed

lemma prev_positioned:
  assumes "layout xs rs" "on_entry C xs rs n it"
  shows "\<exists>it'. Iter_Prev it = Some it' \<and> positioned C xs rs (if n = 0 then length xs else n - 1) it'"
proof -
  have cur: "it_current it = word_of_nat (entry_off xs n)" and n: "n < length xs"
    using assms(2) by (simp_all add: on_entry_def)
  obtain e it1 where l: "c_loop (prev_restart_step (word_of_nat (entry_off xs n))) it = Some (e, it1)"
    and r: "case (e, it1) of (True, it') \<Rightarrow> n = 0 \<and> at_end C xs rs it'
     | (False, it') \<Rightarrow> it_over C xs rs it' \<and> (\<exists>j < length rs. it_restart_index it' = word_of_nat j \<and> rs ! j < n)"
    using prev_restart_loop [OF assms] by fastforce
  note valid = on_entry_Valid [OF assms]
  show ?thesis
  proof (cases e)
    case True
    with l r valid cur show ?thesis by (simp add: Iter_Prev_def positioned_def)
  next
    case False
    with r obtain j where j: "it_over C xs rs it1" "j < length rs" "it_restart_index it1 = word_of_nat j" "rs ! j < n"
      by auto
    obtain it2 where it2: "SeekToRestartPoint (word_of_nat j) it1 = Some it2" "ready C xs rs (rs ! j) it2"
      using restart_to_ready [OF assms(1) j(1,2)] by blast
    obtain it3 where "c_loop (parse_until_step (word_of_nat (entry_off xs n))) it2 = Some it3" "on_entry C xs rs (n - 1) it3"
      using parse_until [OF assms(1) it2(2) j(4)] n by auto
    then show ?thesis
      using l False valid cur j it2(1) n less_imp_diff_less [OF n, of 1] by (simp add: Iter_Prev_def positioned_def)
  qed
qed

section \<open>Seek\<close>

lemma half_32: "a < 2 ^ 32 \<Longrightarrow> (word_of_nat a :: u32) div 2 = word_of_nat (a div 2)"
  by (simp add: word_unat_eq_iff unat_div)

text \<open>Strictly ascending valid keys.\<close>

definition sorted_entries :: "comparator \<Rightarrow> (slice \<Rightarrow> bool) \<Rightarrow> entries \<Rightarrow> bool" where
  "sorted_entries C valid es \<longleftrightarrow> sorted_wrt (\<lambda>a b. Compare C (fst a) (fst b) < 0) es \<and> (\<forall>e \<in> set es. valid (fst e))"

context comparator_laws
begin

lemma before_bound:
  assumes "sorted_entries C valid es" "valid target" "r < length es" "Compare C (fst (es ! r)) target < 0" "m \<le> r"
  shows "Compare C (fst (es ! m)) target < 0"
proof (cases "m = r")
  case False
  then have "Compare C (fst (es ! m)) (fst (es ! r)) < 0"
    using assms(1,3,5) by (simp add: sorted_entries_def sorted_wrt_iff_nth_less)
  moreover have "valid (fst (es ! m))" "valid (fst (es ! r))"
    using assms by (simp_all add: sorted_entries_def)
  ultimately show ?thesis using compare_less_trans [of "fst (es ! m)" "fst (es ! r)" target] assms by simp
qed (use assms in simp)

lemma seek_index_eq:
  assumes "n \<le> length es" "\<And>m. m < n \<Longrightarrow> Compare C (fst (es ! m)) target < 0"
    and "n < length es \<Longrightarrow> 0 \<le> Compare C (fst (es ! n)) target"
  shows "seek_index (Compare C) es target = n"
proof -
  have "takeWhile (\<lambda>e. Compare C (fst e) target < 0) es = take n es"
    using assms by (intro takeWhile_eq_take_P_nth) auto
  then show ?thesis using assms(1) by (simp add: seek_index_def)
qed

text \<open>The linear search from an entry before which every key is smaller.\<close>

lemma seek_scan:
  assumes "layout xs rs" "ready C xs rs n it"
    and "\<And>m. m < n \<Longrightarrow> Compare C (entry_key xs m) target < 0"
  shows "\<exists>it'. c_loop (seek_scan_step target) it = Some it' \<and>
    positioned C xs rs (seek_index (Compare C) (map snd xs) target) it'"
  using assms(2,3)
proof (induction "length xs - n" arbitrary: n it)
  case 0
  then have n: "n = length xs" by (simp add: ready_def)
  with 0 have "seek_index (Compare C) (map snd xs) target = n" by (intro seek_index_eq) simp_all
  then show ?case
    using parse_end [OF assms(1) 0(2) [unfolded n]] n
    by (auto simp: seek_scan_step_def c_loop_unfold positioned_def)
next
  case (Suc d)
  have n: "n < length xs" using Suc.hyps(2) by simp
  obtain it' where it': "ParseNextKey it = Some (True, it')" "on_entry C xs rs n it'"
    using parse_entry [OF assms(1) Suc.prems(1) n] by blast
  have here: "it_comparator it' = C" "it_key it' = entry_key xs n" using it'(2) by (simp_all add: on_entry_def it_over_def)
  show ?case
  proof (cases "Compare C (entry_key xs n) target < 0")
    case True
    have "\<exists>it''. c_loop (seek_scan_step target) it' = Some it'' \<and>
        positioned C xs rs (seek_index (Compare C) (map snd xs) target) it''"
      using Suc.hyps(2) on_entry_ready [OF assms(1) it'(2)] Suc.prems(2) True
      by (intro Suc.hyps(1)) (auto simp: less_Suc_eq)
    with True here it'(1) show ?thesis by (simp add: seek_scan_step_def c_loop_unfold)
  next
    case False
    then have "seek_index (Compare C) (map snd xs) target = n" using n Suc.prems(2) by (intro seek_index_eq) simp_all
    with False here it' n show ?thesis by (simp add: seek_scan_step_def c_loop_unfold positioned_def)
  qed
qed

text \<open>The binary search ends on a restart point that is the first or has a smaller key.\<close>

lemma search_restarts:
  assumes "layout xs rs" "it_over C xs rs it"
  shows "\<exists>r. c_loop (search_step target it) (0, it_num_restarts it - 1) = Some r \<and>
    (\<exists>j < length rs. r = Some (word_of_nat j) \<and> (j = 0 \<or> Compare C (entry_key xs (rs ! j)) target < 0))"
proof (rule c_loop_rule [where m = "\<lambda>(left, right). unat right - unat left" and
      I = "\<lambda>(left, right). \<exists>l r. left = word_of_nat l \<and> right = word_of_nat r \<and> l \<le> r \<and> r < length rs \<and>
        (l = 0 \<or> Compare C (entry_key xs (rs ! l)) target < 0)"])
  have rs: "0 < length rs" using assms(1) by (auto simp: layout_def restarts_ok_def)
  then have "it_num_restarts it - 1 = word_of_nat (length rs - 1)"
    using assms(2) word_pred_32 [OF rs] by (simp add: it_over_def)
  with rs show "case (0, it_num_restarts it - 1) of (left, right) \<Rightarrow>
      \<exists>l r. left = word_of_nat l \<and> right = word_of_nat r \<and> l \<le> r \<and> r < length rs \<and>
        (l = 0 \<or> Compare C (entry_key xs (rs ! l)) target < 0)"
    unfolding prod.case by - (rule exI [of _ 0], rule exI [of _ "length rs - 1"], simp)
next
  fix s :: "u32 \<times> u32"
  assume "case s of (left, right) \<Rightarrow>
      \<exists>l r. left = word_of_nat l \<and> right = word_of_nat r \<and> l \<le> r \<and> r < length rs \<and>
        (l = 0 \<or> Compare C (entry_key xs (rs ! l)) target < 0)"
  then obtain l r where s: "s = (word_of_nat l, word_of_nat r)" and lr: "l \<le> r" "r < length rs"
    and low: "l = 0 \<or> Compare C (entry_key xs (rs ! l)) target < 0"
    by (cases s) auto
  have big: "4 * length rs < 2 ^ 32" using layout_small [OF assms(1)] by linarith
  have less: "(word_of_nat l :: u32) < word_of_nat r \<longleftrightarrow> l < r" using lr big by (intro of_nat_less_32) linarith+
  let ?m = "(l + r + 1) div 2"
  show "\<exists>x. search_step target it s = Some x \<and> (case x of
      Inl q \<Rightarrow> \<exists>j < length rs. q = Some (word_of_nat j) \<and> (j = 0 \<or> Compare C (entry_key xs (rs ! j)) target < 0)
    | Inr t \<Rightarrow> (case t of (left, right) \<Rightarrow>
        \<exists>l r. left = word_of_nat l \<and> right = word_of_nat r \<and> l \<le> r \<and> r < length rs \<and>
          (l = 0 \<or> Compare C (entry_key xs (rs ! l)) target < 0)) \<and>
      (case t of (left, right) \<Rightarrow> unat right - unat left) < (case s of (left, right) \<Rightarrow> unat right - unat left))"
  proof (cases "l < r")
    case False
    then have "search_step target it s = Some (Inl (Some (word_of_nat l)))"
      using less by (simp add: s search_step_def)
    moreover have "\<exists>j < length rs. Some (word_of_nat l :: u32) = Some (word_of_nat j) \<and>
        (j = 0 \<or> Compare C (entry_key xs (rs ! j)) target < 0)"
      using low lr by (intro exI [of _ l]) simp
    ultimately show ?thesis by simp
  next
    case True
    have m: "l < ?m" "?m \<le> r" "?m < length rs" using True lr by auto
    have sum: "(word_of_nat l + word_of_nat r + 1 :: u32) = word_of_nat (l + r + 1)" by (simp add: add_ac)
    have mid: "(word_of_nat l + word_of_nat r + 1 :: u32) div 2 = word_of_nat ?m"
    proof -
      have "l + r + 1 < 2 ^ 32" using lr big by linarith
      then show ?thesis unfolding sum by (rule half_32)
    qed
    have "rs ! l < rs ! ?m"
      using assms(1) m by (simp only: layout_def restarts_ok_def sorted_wrt_iff_nth_less)
    then have pos: "0 < rs ! ?m" by linarith
    then have n: "rs ! ?m < length xs" and sh: "fst (xs ! (rs ! ?m)) = 0"
      using nth_mem [OF m(3)] assms(1) by (auto simp: layout_def restarts_ok_def)
    note dec = decode_at [OF assms n, unfolded sh minus_nat.diff_0 drop_0]
    note parts = entry_parts [OF assms(1) n, unfolded sh minus_nat.diff_0 drop_0]
    have klen: "unat (word_of_nat (length (entry_key xs (rs ! ?m))) :: u32) = length (entry_key xs (rs ! ?m))"
    proof -
      have "entry_off xs (Suc (rs ! ?m)) < 2 ^ 32"
        using entry_off_le [of "Suc (rs ! ?m)" xs] n layout_small [OF assms(1)] by simp
      then show ?thesis
        using shared_length [OF _ n] assms(1) by (intro unat_of_nat_32) (auto simp: layout_def)
    qed
    have over: "unat (it_restarts it) = length (entries_bytes xs)" "it_data it = block_bytes xs rs"
      "it_comparator it = C"
      using assms(2) layout_small [OF assms(1)] by (simp_all add: it_over_def)
    have step: "search_step target it s =
        (if Compare C (entry_key xs (rs ! ?m)) target < 0 then Some (Inr (word_of_nat ?m, word_of_nat r))
         else Some (Inr (word_of_nat l, word_of_nat ?m - 1)))"
      unfolding search_step_def s prod.case if_P [OF less [THEN iffD2, OF True]] mid Let_def
        restart_point [OF assms m(3)] option.case dec
      unfolding klen over if_not_P [OF parts(2) [unfolded not_less [symmetric]]] parts(3)
      by simp
    have m1: "(word_of_nat ?m - 1 :: u32) = word_of_nat (?m - 1)"
      using m(1) by (intro word_pred_32) linarith
    have u: "unat (word_of_nat k :: u32) = k" if "k < length rs" for k using that big by (intro unat_of_nat_32) linarith
    show ?thesis
    proof (cases "Compare C (entry_key xs (rs ! ?m)) target < 0")
      case c: True
      have "unat (word_of_nat r :: u32) - unat (word_of_nat ?m :: u32) < unat (word_of_nat r :: u32) - unat (word_of_nat l :: u32)"
        using m lr True by (simp only: u)
      then show ?thesis using step c m lr by (auto simp: s)
    next
      case c: False
      define q where "q = ?m - 1"
      have q: "l \<le> q" "q < r" "q < length rs" "l < length rs" using m lr by (auto simp: q_def)
      have less_q: "unat (word_of_nat q :: u32) - unat (word_of_nat l :: u32) <
          unat (word_of_nat r :: u32) - unat (word_of_nat l :: u32)"
        unfolding u [OF q(3)] u [OF q(4)] u [OF lr(2)] using q(1,2) by linarith
      have "search_step target it s = Some (Inr (word_of_nat l, word_of_nat q))"
        using step c unfolding m1 q_def by simp
      then show ?thesis using less_q q low by (auto simp: s)
    qed
  qed
qed

lemma seek_positioned:
  assumes "layout xs rs" "it_over C xs rs it" "sorted_entries C valid (map snd xs)" "valid target"
  shows "\<exists>it'. Iter_Seek target it = Some it' \<and>
    positioned C xs rs (seek_index (Compare C) (map snd xs) target) it'"
proof -
  obtain j where j: "c_loop (search_step target it) (0, it_num_restarts it - 1) = Some (Some (word_of_nat j))"
      "j < length rs" "j = 0 \<or> Compare C (entry_key xs (rs ! j)) target < 0"
    using search_restarts [OF assms(1,2)] by blast
  obtain it1 where it1: "SeekToRestartPoint (word_of_nat j) it = Some it1" "ready C xs rs (rs ! j) it1"
    using restart_to_ready [OF assms(1,2) j(2)] by blast
  have "Compare C (entry_key xs m) target < 0" if m: "m < rs ! j" for m
  proof -
    have "rs ! 0 = 0" using assms(1) by (simp add: layout_def restarts_ok_def)
    then have "j \<noteq> 0" using m by (cases j) simp_all
    moreover have "rs ! j < length xs" using nth_mem [OF j(2)] assms(1) m by (auto simp: layout_def restarts_ok_def)
    ultimately show ?thesis
      using before_bound [OF assms(3,4), of "rs ! j" m] j(3) m by simp
  qed
  from seek_scan [OF assms(1) it1(2) this] show ?thesis by (simp add: Iter_Seek_def j(1) it1(1))
qed

end

text \<open>What an iterator of a block stands for.\<close>

definition block_rep :: "comparator \<Rightarrow> (slice \<Rightarrow> bool) \<Rightarrow> entries \<Rightarrow> nat \<Rightarrow> Iter \<Rightarrow> bool" where
  "block_rep C valid es n it \<longleftrightarrow>
     (\<exists>xs rs. es = map snd xs \<and> layout xs rs \<and> sorted_entries C valid es \<and> positioned C xs rs n it)"

context comparator_laws
begin

lemma block_repI:
  "layout xs rs \<Longrightarrow> sorted_entries C valid (map snd xs) \<Longrightarrow> positioned C xs rs n it \<Longrightarrow> block_rep C valid (map snd xs) n it"
  by (auto simp: block_rep_def)

end

lemma positioned_over: "positioned C xs rs n it \<Longrightarrow> it_over C xs rs it"
  by (auto simp: positioned_def on_entry_def at_end_def split: if_splits)

lemma positioned_Valid:
  assumes "layout xs rs" "positioned C xs rs n it"
  shows "Iter_Valid it \<longleftrightarrow> n < length xs"
  using assms on_entry_Valid by (auto simp: positioned_def at_end_def Iter_Valid_def split: if_splits)

lemma positioned_entry:
  assumes "layout xs rs" "positioned C xs rs n it" "n < length xs"
  shows "Iter_key it = Some (entry_key xs n)" "Iter_value it = Some (entry_val xs n)"
proof -
  have "on_entry C xs rs n it" using assms(2,3) by (simp add: positioned_def)
  moreover have "Iter_Valid it" using positioned_Valid [OF assms(1,2)] assms(3) by simp
  ultimately show "Iter_key it = Some (entry_key xs n)" "Iter_value it = Some (entry_val xs n)"
    using entry_parts [OF assms(1,3)] by (simp_all add: Iter_key_def Iter_value_def on_entry_def it_over_def)
qed

sublocale comparator_laws \<subseteq> block: iterator block_iter "block_rep C valid" "Compare C" valid
proof (unfold_locales, goal_cases)
  case (1 es n it)
  then show ?case by (auto simp: block_rep_def positioned_def split: if_splits)
next
  case (2 es n it)
  then show ?case using positioned_Valid by (auto simp: block_rep_def block_iter_def)
next
  case (3 es n it)
  then show ?case using positioned_entry by (fastforce simp: block_rep_def block_iter_def)
next
  case (4 es n it)
  then show ?case using positioned_entry by (fastforce simp: block_rep_def block_iter_def)
next
  case (5 es n it)
  then show ?case by (auto simp: block_rep_def block_iter_def it_over_def dest!: positioned_over)
next
  case (6 es n it)
  then obtain xs rs where x: "es = map snd xs" "layout xs rs" "sorted_entries C valid es" "it_over C xs rs it"
    by (auto simp: block_rep_def dest: positioned_over)
  from first_positioned [OF x(2,4)] x show ?case by (auto simp: block_rep_def block_iter_def)
next
  case (7 es n it)
  then obtain xs rs where x: "es = map snd xs" "layout xs rs" "sorted_entries C valid es" "it_over C xs rs it"
    by (auto simp: block_rep_def dest: positioned_over)
  from last_positioned [OF x(2,4)] x show ?case by (auto simp: block_rep_def block_iter_def)
next
  case (8 es n it target)
  then obtain xs rs where x: "es = map snd xs" "layout xs rs" "sorted_entries C valid es" "it_over C xs rs it"
    by (auto simp: block_rep_def dest: positioned_over)
  from seek_positioned [OF x(2,4) x(3) [unfolded x(1)] 8(2)] x show ?case
    by (auto simp: block_rep_def block_iter_def)
next
  case (9 es n it)
  then obtain xs rs where x: "es = map snd xs" "layout xs rs" "sorted_entries C valid es" "on_entry C xs rs n it"
    by (auto simp: block_rep_def positioned_def)
  from next_positioned [OF x(2,4) on_entry_Valid [OF x(2,4)]] x show ?case
    by (auto simp: block_rep_def block_iter_def)
next
  case (10 es n it)
  then obtain xs rs where x: "es = map snd xs" "layout xs rs" "sorted_entries C valid es" "on_entry C xs rs n it"
    by (auto simp: block_rep_def positioned_def)
  from prev_positioned [OF x(2,4)] block_repI [OF x(2) x(3) [unfolded x(1)]] x(1) show ?case
    by (auto simp: block_iter_def)
qed

context comparator_laws
begin

lemma block_iterator: "iterator block_iter (block_rep C valid) (Compare C) valid"
  by (rule block.iterator_axioms)

end

end
