(* ===== verification/LDB_Dbformat.thy ===== *)
theory LDB_Dbformat
  imports LDB_Comparator LDB_Coding
begin

text \<open>
  LevelDB: \<open>db/dbformat.h\<close> and \<open>db/dbformat.cc\<close>, internal keys and their comparator, with the
  number and escape routines of \<open>util/logging.cc\<close>.  An assertion that fails is \<open>None\<close>; the user key
  of fewer than eight bytes is unspecified, as the code asserts there are eight.
\<close>

section \<open>Text and numbers\<close>

definition AppendNumberTo :: "u8 list \<Rightarrow> u64 \<Rightarrow> u8 list" where
  "AppendNumberTo str num = str @ chars (decimal (unat num))"

definition NumberToString :: "u64 \<Rightarrow> u8 list" where
  "NumberToString num = AppendNumberTo [] num"

text \<open>\<open>\x%02x\<close> of a byte.\<close>

definition hex_digit :: "nat \<Rightarrow> u8" where
  "hex_digit n = (if n < 10 then word_of_nat (48 + n) else word_of_nat (87 + n))"

definition hex_escape :: "u8 \<Rightarrow> u8 list" where
  "hex_escape c = [92, 120, hex_digit (unat c div 16), hex_digit (unat c mod 16)]"

text \<open>The comparisons are on a signed \<open>char\<close>: bytes from 128 on are negative, below a space.\<close>

fun AppendEscapedStringTo :: "u8 list \<Rightarrow> slice \<Rightarrow> u8 list" where
  "AppendEscapedStringTo str [] = str"
| "AppendEscapedStringTo str (c # cs) =
     AppendEscapedStringTo
       (if sint c \<ge> 32 \<and> sint c \<le> 126 then str @ [c] else str @ hex_escape c) cs"

definition EscapeString :: "slice \<Rightarrow> u8 list" where
  "EscapeString s = AppendEscapedStringTo [] s"

definition kMaxUint64 :: u64 where "kMaxUint64 = - 1"
definition kLastDigitOfMaxUint64 :: u8 where "kLastDigitOfMaxUint64 = 48 + 5"

text \<open>
  The loop of \<open>ConsumeDecimalNumber\<close>: the value and the rest, \<open>None\<close> for the early return on overflow.
\<close>

fun decimal_loop :: "u64 \<Rightarrow> u8 list \<Rightarrow> (u64 \<times> u8 list) option" where
  "decimal_loop v [] = Some (v, [])"
| "decimal_loop v (ch # current) =
     (if ch < 48 \<or> ch > 57 then Some (v, ch # current)
      else if v > kMaxUint64 div 10 \<or> (v = kMaxUint64 div 10 \<and> ch > kLastDigitOfMaxUint64) then None
      else decimal_loop (v * 10 + (ucast ch - 48)) current)"

text \<open>Returned value, \<open>*val\<close> when it is assigned, and the slice afterwards.\<close>

definition ConsumeDecimalNumber :: "slice \<Rightarrow> bool \<times> u64 option \<times> slice" where
  "ConsumeDecimalNumber input =
     (case decimal_loop 0 input of None \<Rightarrow> (False, None, input)
      | Some (v, rest) \<Rightarrow>
          let digits_consumed = length input - length rest
          in (digits_consumed \<noteq> 0, Some v, remove_prefix input digits_consumed))"

section \<open>Constants\<close>

definition kNumLevels :: nat where "kNumLevels = 7"
definition kL0_CompactionTrigger :: int where "kL0_CompactionTrigger = 4"
definition kL0_SlowdownWritesTrigger :: int where "kL0_SlowdownWritesTrigger = 8"
definition kL0_StopWritesTrigger :: int where "kL0_StopWritesTrigger = 12"
definition kMaxMemCompactLevel :: nat where "kMaxMemCompactLevel = 2"
definition kReadBytesPeriod :: nat where "kReadBytesPeriod = 1048576"

definition kTypeDeletion :: u8 where "kTypeDeletion = 0"
definition kTypeValue :: u8 where "kTypeValue = 1"
definition kValueTypeForSeek :: u8 where "kValueTypeForSeek = kTypeValue"

type_synonym SequenceNumber = u64

definition kMaxSequenceNumber :: SequenceNumber where
  "kMaxSequenceNumber = push_bit 56 1 - 1"

section \<open>Internal keys\<close>

record ParsedInternalKey =
  p_user_key :: slice
  p_sequence :: SequenceNumber
  p_type :: u8

definition InternalKeyEncodingLength :: "ParsedInternalKey \<Rightarrow> nat" where
  "InternalKeyEncodingLength key = length (p_user_key key) + 8"

definition PackSequenceAndType :: "u64 \<Rightarrow> u8 \<Rightarrow> u64 option" where
  "PackSequenceAndType seq t =
     (if \<not> seq \<le> kMaxSequenceNumber then None
      else if \<not> t \<le> kValueTypeForSeek then None
      else Some (push_bit 8 seq OR ucast t))"

definition AppendInternalKey :: "u8 list \<Rightarrow> ParsedInternalKey \<Rightarrow> u8 list option" where
  "AppendInternalKey result key =
     map_option (PutFixed64 (result @ p_user_key key)) (PackSequenceAndType (p_sequence key) (p_type key))"

definition ParsedInternalKey_DebugString :: "ParsedInternalKey \<Rightarrow> u8 list" where
  "ParsedInternalKey_DebugString key =
     chars [CHR 0x27] @ EscapeString (p_user_key key) @
     chars (CHR 0x27 # '' @ '' @ decimal (unat (p_sequence key)) @ '' : '' @ decimal (unat (p_type key)))"

text \<open>On a key of less than eight bytes, where the code's assertion fails, the value is unspecified.\<close>

definition ExtractUserKey :: "slice \<Rightarrow> slice" where
  "ExtractUserKey internal_key =
     (if length internal_key \<ge> 8 then take (length internal_key - 8) internal_key else undefined)"

text \<open>The tag: the last eight bytes of an internal key.\<close>

definition key_tag :: "slice \<Rightarrow> u64" where
  "key_tag k = DecodeFixed64 (drop (length k - 8) k)"

definition ParseInternalKey :: "slice \<Rightarrow> ParsedInternalKey option" where
  "ParseInternalKey internal_key =
     (let n = length internal_key in
      if n < 8 then None
      else
        let num = key_tag internal_key;
            c = ucast (num AND 0xff) :: u8;
            result = \<lparr>p_user_key = take (n - 8) internal_key, p_sequence = drop_bit 8 num, p_type = c\<rparr>
        in if c \<le> kTypeValue then Some result else None)"

definition InternalKey_new :: "slice \<Rightarrow> SequenceNumber \<Rightarrow> u8 \<Rightarrow> u8 list option" where
  "InternalKey_new user_key s t = AppendInternalKey [] \<lparr>p_user_key = user_key, p_sequence = s, p_type = t\<rparr>"

definition InternalKey_Encode :: "u8 list \<Rightarrow> slice option" where
  "InternalKey_Encode rep = (if rep = [] then None else Some rep)"

definition InternalKey_SetFrom :: "ParsedInternalKey \<Rightarrow> u8 list option" where
  "InternalKey_SetFrom p = AppendInternalKey [] p"

definition InternalKey_DebugString :: "u8 list \<Rightarrow> u8 list" where
  "InternalKey_DebugString rep =
     (case ParseInternalKey rep of Some parsed \<Rightarrow> ParsedInternalKey_DebugString parsed
      | None \<Rightarrow> chars ''(bad)'' @ EscapeString rep)"

section \<open>The comparator of internal keys\<close>

definition internal_compare :: "comparator \<Rightarrow> slice \<Rightarrow> slice \<Rightarrow> int" where
  "internal_compare user akey bkey =
     (let r = Compare user (ExtractUserKey akey) (ExtractUserKey bkey) in
      if r = 0 then
        let anum = DecodeFixed64 (drop (length akey - 8) akey);
            bnum = DecodeFixed64 (drop (length bkey - 8) bkey)
        in if anum > bnum then -1 else if anum < bnum then 1 else r
      else r)"

definition internal_separator :: "comparator \<Rightarrow> slice \<Rightarrow> slice \<Rightarrow> slice option" where
  "internal_separator user start limit =
     (let user_start = ExtractUserKey start;
          user_limit = ExtractUserKey limit
      in case FindShortestSeparator user user_start user_limit of None \<Rightarrow> None
         | Some tmp \<Rightarrow>
             if length tmp < length user_start \<and> Compare user user_start tmp < 0 then
               (case PackSequenceAndType kMaxSequenceNumber kValueTypeForSeek of None \<Rightarrow> None
                | Some tag \<Rightarrow>
                    let tmp = PutFixed64 tmp tag in
                    if \<not> internal_compare user start tmp < 0 then None
                    else if \<not> internal_compare user tmp limit < 0 then None
                    else Some tmp)
             else Some start)"

definition internal_successor :: "comparator \<Rightarrow> slice \<Rightarrow> slice option" where
  "internal_successor user key =
     (let user_key = ExtractUserKey key
      in case FindShortSuccessor user user_key of None \<Rightarrow> None
         | Some tmp \<Rightarrow>
             if length tmp < length user_key \<and> Compare user user_key tmp < 0 then
               (case PackSequenceAndType kMaxSequenceNumber kValueTypeForSeek of None \<Rightarrow> None
                | Some tag \<Rightarrow>
                    let tmp = PutFixed64 tmp tag in
                    if \<not> internal_compare user key tmp < 0 then None else Some tmp)
             else Some key)"

definition InternalKeyComparator :: "comparator \<Rightarrow> comparator" where
  "InternalKeyComparator user =
     \<lparr>comparator_Name = chars ''leveldb.InternalKeyComparator'', Compare = internal_compare user, FindShortestSeparator = internal_separator user,
      FindShortSuccessor = internal_successor user\<rparr>"

section \<open>Lookup keys\<close>

text \<open>The array from \<open>start_\<close> to \<open>end_\<close> and the offset of \<open>kstart_\<close> in it.\<close>

record LookupKey =
  lk_start :: "u8 list"
  lk_kstart :: nat

definition LookupKey_new :: "slice \<Rightarrow> SequenceNumber \<Rightarrow> LookupKey option" where
  "LookupKey_new user_key s =
     (let usize = length user_key;
          dst = EncodeVarint32 (word_of_nat (usize + 8));
          kstart = length dst
      in map_option (\<lambda>tag. \<lparr>lk_start = dst @ user_key @ EncodeFixed64 tag, lk_kstart = kstart\<rparr>)
           (PackSequenceAndType s kValueTypeForSeek))"

definition memtable_key :: "LookupKey \<Rightarrow> slice" where
  "memtable_key lk = lk_start lk"

definition lookup_internal_key :: "LookupKey \<Rightarrow> slice" where
  "lookup_internal_key lk = drop (lk_kstart lk) (lk_start lk)"

definition lookup_user_key :: "LookupKey \<Rightarrow> slice" where
  "lookup_user_key lk = take (length (lk_start lk) - lk_kstart lk - 8) (drop (lk_kstart lk) (lk_start lk))"

section \<open>Packing\<close>

text \<open>An internal key with its parts: the encoding when the assertions hold.\<close>

definition ikey :: "slice \<Rightarrow> u64 \<Rightarrow> slice" where
  "ikey u tag = u @ EncodeFixed64 tag"

lemma ExtractUserKey_ikey [simp]: "ExtractUserKey (ikey u tag) = u"
  by (simp add: ExtractUserKey_def ikey_def)

lemma key_tag_ikey [simp]: "key_tag (ikey u tag) = tag"
  using Fixed64_roundtrip [of tag "[]"] by (simp add: key_tag_def ikey_def)

lemma length_ikey [simp]: "length (ikey u tag) = length u + 8"
  by (simp add: ikey_def)

lemma EncodeFixed64_Decode: "length p = 8 \<Longrightarrow> EncodeFixed64 (DecodeFixed64 p) = p"
  using bytes_le_word_le [of p, where 'a = 64]
  by (simp add: EncodeFixed64_eq DecodeFixed64_eq del: bytes_le_numeral)

lemma ikey_split: "8 \<le> length k \<Longrightarrow> k = ikey (ExtractUserKey k) (key_tag k)"
  by (simp add: ikey_def ExtractUserKey_def key_tag_def EncodeFixed64_Decode)

lemma internal_compare_tags:
  "internal_compare user a b =
     (let r = Compare user (ExtractUserKey a) (ExtractUserKey b) in
      if r = 0 then if key_tag a > key_tag b then -1 else if key_tag a < key_tag b then 1 else 0 else r)"
  by (simp add: internal_compare_def key_tag_def Let_def)

lemma max_tag: "PackSequenceAndType kMaxSequenceNumber kValueTypeForSeek = Some 0xFFFFFFFFFFFFFF01"
  by (simp add: PackSequenceAndType_def kMaxSequenceNumber_def kValueTypeForSeek_def kTypeValue_def)

lemma PutFixed64_ikey: "PutFixed64 u tag = ikey u tag"
  by (simp add: PutFixed64_def ikey_def)

section \<open>The internal comparator keeps the contract\<close>

context user_comparator
begin

lemma user_trans: "Compare C a b \<le> 0 \<Longrightarrow> Compare C b c \<le> 0 \<Longrightarrow> Compare C a c \<le> 0"
  using compare_trans by simp

lemma user_sign: "Compare C a b < 0 \<longleftrightarrow> 0 < Compare C b a"
  using compare_sign by simp

lemma user_zero: "Compare C a b = 0 \<longleftrightarrow> Compare C b a = 0"
  using user_sign [of a b] user_sign [of b a] by linarith

lemma internal_le:
  "internal_compare C a b \<le> 0 \<longleftrightarrow>
     Compare C (ExtractUserKey a) (ExtractUserKey b) < 0 \<or>
     Compare C (ExtractUserKey a) (ExtractUserKey b) = 0 \<and> key_tag b \<le> key_tag a"
  by (auto simp: internal_compare_tags Let_def)

lemma internal_less:
  "internal_compare C a b < 0 \<longleftrightarrow>
     Compare C (ExtractUserKey a) (ExtractUserKey b) < 0 \<or>
     Compare C (ExtractUserKey a) (ExtractUserKey b) = 0 \<and> key_tag b < key_tag a"
  by (auto simp: internal_compare_tags Let_def)

lemma internal_greater:
  "0 < internal_compare C a b \<longleftrightarrow> internal_compare C b a < 0"
  using user_sign [of "ExtractUserKey b" "ExtractUserKey a"] user_zero
  by (auto simp: internal_compare_tags Let_def)

lemma internal_trans:
  assumes "internal_compare C a b \<le> 0" "internal_compare C b c \<le> 0"
  shows "internal_compare C a c \<le> 0"
proof -
  let ?a = "ExtractUserKey a" and ?b = "ExtractUserKey b" and ?c = "ExtractUserKey c"
  have ab: "Compare C ?a ?b \<le> 0" and bc: "Compare C ?b ?c \<le> 0"
    using assms by (auto simp: internal_le)
  have ac: "Compare C ?a ?c \<le> 0" using user_trans [OF ab bc] .
  show ?thesis
  proof (cases "Compare C ?a ?c = 0")
    case True
    then have ca: "Compare C ?c ?a \<le> 0" using user_zero [of ?a ?c] by simp
    have "Compare C ?b ?a \<le> 0" "Compare C ?c ?b \<le> 0"
      using user_trans [OF bc ca] user_trans [OF ca ab] by simp_all
    then have "Compare C ?a ?b = 0" "Compare C ?b ?c = 0"
      using ab bc user_sign [of ?a ?b] user_sign [of ?b ?c] by linarith+
    with assms True show ?thesis by (auto simp: internal_le)
  next
    case False
    with ac show ?thesis by (auto simp: internal_le)
  qed
qed

lemma internal_separator_ok:
  assumes "8 \<le> length a" "8 \<le> length b" "internal_compare C a b < 0"
  shows "\<exists>s. internal_separator C a b = Some s \<and> 8 \<le> length s \<and>
    internal_compare C a s \<le> 0 \<and> internal_compare C s b < 0"
proof -
  let ?a = "ExtractUserKey a" and ?b = "ExtractUserKey b"
  have same: "internal_compare C a a \<le> 0" using compare_refl by (simp add: internal_le)
  consider (less) "Compare C ?a ?b < 0" | (eq) "Compare C ?a ?b = 0"
    using assms(3) by (auto simp: internal_less)
  then show ?thesis
  proof cases
    case eq
    then have "internal_separator C a b = Some a"
      using separator_same by (simp add: internal_separator_def)
    with same assms show ?thesis by simp
  next
    case less
    then obtain t where t: "FindShortestSeparator C ?a ?b = Some t" "Compare C ?a t \<le> 0" "Compare C t ?b < 0"
      using separator by auto
    show ?thesis
    proof (cases "length t < length ?a \<and> Compare C ?a t < 0")
      case True
      let ?s = "ikey t 0xFFFFFFFFFFFFFF01"
      have "internal_compare C a ?s < 0" "internal_compare C ?s b < 0"
        using True t(3) by (auto simp: internal_less)
      moreover from this have "internal_separator C a b = Some ?s"
        using True t(1) by (simp add: internal_separator_def Let_def max_tag PutFixed64_ikey)
      ultimately show ?thesis by auto
    next
      case False
      then have "internal_separator C a b = Some a" using t(1) by (auto simp: internal_separator_def Let_def)
      with same assms show ?thesis by simp
    qed
  qed
qed

lemma internal_successor_ok:
  assumes "8 \<le> length a"
  shows "\<exists>s. internal_successor C a = Some s \<and> 8 \<le> length s \<and> internal_compare C a s \<le> 0"
proof -
  let ?a = "ExtractUserKey a"
  obtain t where t: "FindShortSuccessor C ?a = Some t" "Compare C ?a t \<le> 0" using successor by auto
  show ?thesis
  proof (cases "length t < length ?a \<and> Compare C ?a t < 0")
    case True
    let ?s = "ikey t 0xFFFFFFFFFFFFFF01"
    have "internal_compare C a ?s < 0" using True by (auto simp: internal_less)
    moreover from this have "internal_successor C a = Some ?s"
      using True t(1) by (simp add: internal_successor_def Let_def max_tag PutFixed64_ikey)
    ultimately show ?thesis by auto
  next
    case False
    then have "internal_successor C a = Some a" using t(1) by (auto simp: internal_successor_def Let_def)
    with assms show ?thesis using compare_refl by (simp add: internal_le)
  qed
qed

end

sublocale user_comparator \<subseteq> internal: comparator_laws "InternalKeyComparator C" "\<lambda>k. 8 \<le> length k"
proof
  fix a b c :: slice
  show "Compare (InternalKeyComparator C) a a = 0"
    using compare_refl by (simp add: InternalKeyComparator_def internal_compare_tags)
  show "Compare (InternalKeyComparator C) a b < 0 \<longleftrightarrow> 0 < Compare (InternalKeyComparator C) b a"
    by (simp add: InternalKeyComparator_def internal_greater)
  show "Compare (InternalKeyComparator C) a b \<le> 0 \<Longrightarrow> Compare (InternalKeyComparator C) b c \<le> 0 \<Longrightarrow>
      Compare (InternalKeyComparator C) a c \<le> 0"
    using internal_trans by (simp add: InternalKeyComparator_def)
  show "8 \<le> length a \<Longrightarrow> 8 \<le> length b \<Longrightarrow> Compare (InternalKeyComparator C) a b < 0 \<Longrightarrow>
      \<exists>s. FindShortestSeparator (InternalKeyComparator C) a b = Some s \<and> 8 \<le> length s \<and>
        Compare (InternalKeyComparator C) a s \<le> 0 \<and> Compare (InternalKeyComparator C) s b < 0"
    using internal_separator_ok by (simp add: InternalKeyComparator_def)
  show "8 \<le> length a \<Longrightarrow> \<exists>s. FindShortSuccessor (InternalKeyComparator C) a = Some s \<and> 8 \<le> length s \<and>
      Compare (InternalKeyComparator C) a s \<le> 0"
    using internal_successor_ok by (simp add: InternalKeyComparator_def)
qed

context user_comparator
begin

lemma internal_laws: "comparator_laws (InternalKeyComparator C) (\<lambda>k. 8 \<le> length k)"
  by (rule internal.comparator_laws_axioms)

end

section \<open>Tags\<close>

lemma unat_pack:
  assumes "seq \<le> kMaxSequenceNumber"
  shows "unat (push_bit 8 seq OR ucast (t :: u8) :: u64) = unat seq * 256 + unat t"
proof -
  have seq: "unat seq < 2 ^ 56"
    using assms by (simp add: word_le_nat_alt kMaxSequenceNumber_def)
  have "word_of_nat (unat t) OR push_bit 8 (word_of_nat (unat seq)) =
      (word_of_nat (unat t + 2 ^ 8 * unat seq) :: u64)"
    by (rule or_push_bit) simp
  then have eq: "push_bit 8 seq OR ucast t = (word_of_nat (unat t + 2 ^ 8 * unat seq) :: u64)"
    by (simp only: of_nat_unat ucast_id or.commute)
  have "unat seq < 72057594037927936" using seq by simp
  then have "unat t + 256 * unat seq < 18446744073709551616"
    using unat_u8_less [of t] by linarith
  then show ?thesis unfolding eq by (subst unat_of_nat_64) simp_all
qed

lemma PackSequenceAndType_Some:
  "PackSequenceAndType seq t = Some tag \<longleftrightarrow>
     seq \<le> kMaxSequenceNumber \<and> t \<le> kTypeValue \<and> tag = push_bit 8 seq OR ucast t"
  by (auto simp: PackSequenceAndType_def kValueTypeForSeek_def)

lemma pack_parts:
  assumes "PackSequenceAndType seq t = Some tag"
  shows "drop_bit 8 tag = seq" "ucast (tag AND 0xff) = t"
proof -
  have seq: "seq \<le> kMaxSequenceNumber" and tag: "tag = push_bit 8 seq OR ucast t"
    using assms by (simp_all add: PackSequenceAndType_Some)
  note u = unat_pack [OF seq, of t]
  show "drop_bit 8 tag = seq"
    using unat_u8_less [of t] by (simp only: word_unat_eq_iff unat_drop_bit tag u) simp
  show "ucast (tag AND 0xff) = t"
    using unat_u8_less [of t] by (simp add: word_unat_eq_iff tag unsigned_ucast_eq u take_bit_eq_mod)
qed

lemma AppendInternalKey_Some:
  "AppendInternalKey r x = Some k \<longleftrightarrow>
     (\<exists>tag. PackSequenceAndType (p_sequence x) (p_type x) = Some tag \<and> k = r @ ikey (p_user_key x) tag)"
  by (auto simp: AppendInternalKey_def PutFixed64_def ikey_def)

lemma Parse_ikey:
  assumes "PackSequenceAndType (p_sequence x) (p_type x) = Some tag"
  shows "ParseInternalKey (ikey (p_user_key x) tag) = Some x"
proof -
  have "p_type x \<le> kTypeValue" using assms by (simp add: PackSequenceAndType_Some)
  then show ?thesis
    using pack_parts [OF assms] by (simp add: ParseInternalKey_def Let_def) (simp add: ikey_def)
qed

text \<open>Tags are ordered by sequence number first, then by type.\<close>

lemma tag_less:
  assumes "PackSequenceAndType s1 t1 = Some tag1" "PackSequenceAndType s2 t2 = Some tag2"
  shows "tag1 < tag2 \<longleftrightarrow> s1 < s2 \<or> s1 = s2 \<and> t1 < t2"
proof -
  have u: "unat tag1 = unat s1 * 256 + unat t1" "unat tag2 = unat s2 * 256 + unat t2"
    using assms by (simp_all add: PackSequenceAndType_Some unat_pack)
  have t: "unat t1 < 256" "unat t2 < 256" by simp_all
  consider "unat s1 < unat s2" | "unat s2 < unat s1" | "unat s1 = unat s2" by linarith
  then show ?thesis
  proof cases
    case 1
    then have "unat tag1 < unat tag2" unfolding u using t by linarith
    with 1 show ?thesis by (simp add: word_less_nat_alt)
  next
    case 2
    then have "unat tag2 < unat tag1" unfolding u using t by linarith
    with 2 show ?thesis by (auto simp: word_less_nat_alt)
  next
    case 3
    then show ?thesis by (simp add: word_less_nat_alt u word_unat_eq_iff)
  qed
qed

section \<open>Decimal numbers\<close>

definition is_digit :: "u8 \<Rightarrow> bool" where
  "is_digit c \<longleftrightarrow> 48 \<le> c \<and> c \<le> 57"

fun digits_value :: "nat \<Rightarrow> u8 list \<Rightarrow> nat" where
  "digits_value v [] = v"
| "digits_value v (c # cs) = digits_value (v * 10 + (unat c - 48)) cs"

lemma digits_value_ge: "v \<le> digits_value v cs"
proof (induction cs arbitrary: v)
  case (Cons c cs)
  then have "v * 10 + (unat c - 48) \<le> digits_value (v * 10 + (unat c - 48)) cs" .
  then show ?case by simp
qed simp

lemma decimal_step:
  assumes "is_digit ch"
  shows "(v > kMaxUint64 div 10 \<or> (v = kMaxUint64 div 10 \<and> ch > kLastDigitOfMaxUint64)) \<longleftrightarrow>
      2 ^ 64 \<le> unat v * 10 + (unat ch - 48)"
    and "unat v * 10 + (unat ch - 48) < 2 ^ 64 \<Longrightarrow>
      unat (v * 10 + (ucast ch - 48)) = unat v * 10 + (unat ch - 48)"
proof -
  have c: "48 \<le> unat ch" "unat ch \<le> 57"
    using assms by (simp_all add: is_digit_def word_le_nat_alt)
  have m: "unat (kMaxUint64 div 10) = 1844674407370955161"
    by (simp add: kMaxUint64_def unat_div)
  show "(v > kMaxUint64 div 10 \<or> (v = kMaxUint64 div 10 \<and> ch > kLastDigitOfMaxUint64)) \<longleftrightarrow>
      2 ^ 64 \<le> unat v * 10 + (unat ch - 48)"
    using c by (auto simp: word_less_nat_alt word_unat_eq_iff m kLastDigitOfMaxUint64_def)
  assume small: "unat v * 10 + (unat ch - 48) < 2 ^ 64"
  have "(ucast ch - 48 :: u64) = word_of_nat (unat ch - 48)"
    using c by (simp add: of_nat_diff of_nat_unat)
  then have "v * 10 + (ucast ch - 48) = (word_of_nat (unat v * 10 + (unat ch - 48)) :: u64)"
    by simp
  then show "unat (v * 10 + (ucast ch - 48)) = unat v * 10 + (unat ch - 48)"
    using small by (simp only: unat_of_nat_64)
qed

lemma decimal_loop_eq:
  "decimal_loop v cs =
     (let ds = takeWhile is_digit cs in
      if digits_value (unat v) ds < 2 ^ 64 then Some (word_of_nat (digits_value (unat v) ds), drop (length ds) cs)
      else None)"
proof (induction cs arbitrary: v)
  case Nil
  have "unat v < 2 ^ 64" by (rule unat_u64_less)
  then show ?case by (simp add: Let_def)
next
  case (Cons ch cs)
  show ?case
  proof (cases "is_digit ch")
    case True
    then have nd: "\<not> (ch < 48 \<or> ch > 57)" by (auto simp: is_digit_def)
    show ?thesis
    proof (cases "2 ^ 64 \<le> unat v * 10 + (unat ch - 48)")
      case big: True
      then have "2 ^ 64 \<le> digits_value (unat v * 10 + (unat ch - 48)) (takeWhile is_digit cs)"
        using digits_value_ge le_trans by blast
      then show ?thesis
        using True nd big decimal_step(1) [OF True, of v] by (simp add: Let_def)
    next
      case False
      then have "unat (v * 10 + (ucast ch - 48)) = unat v * 10 + (unat ch - 48)"
        using decimal_step(2) [OF True] by simp
      moreover have ok: "\<not> (v > kMaxUint64 div 10 \<or> (v = kMaxUint64 div 10 \<and> ch > kLastDigitOfMaxUint64))"
        using False decimal_step(1) [OF True, of v] by simp
      ultimately show ?thesis
        unfolding decimal_loop.simps if_not_P [OF nd] if_not_P [OF ok] Cons
        using True by (simp add: Let_def)
    qed
  next
    case False
    then have "ch < 48 \<or> ch > 57" by (auto simp: is_digit_def)
    moreover have "unat v < 2 ^ 64" by (rule unat_u64_less)
    ultimately show ?thesis using False by (simp add: Let_def)
  qed
qed

lemma digits_value_append: "digits_value v (xs @ ys) = digits_value (digits_value v xs) ys"
  by (induction xs arbitrary: v) simp_all

lemma chars_append [simp]: "chars (xs @ ys) = chars xs @ chars ys"
  by (simp add: chars_def)

lemma digit_cases: "n < 10 \<Longrightarrow> n = 0 \<or> n = 1 \<or> n = 2 \<or> n = 3 \<or> n = 4 \<or> n = 5 \<or> n = 6 \<or> n = 7 \<or> n = 8 \<or> n = 9"
  for n :: nat by arith

lemma chars_digit:
  assumes "n < 10"
  shows "chars [char_of (48 + n)] = [word_of_nat (48 + n)]"
  using assms of_nat_of_char [of "char_of (48 + n)", where 'a = u8, symmetric] by (simp add: chars_def)

lemma is_digit_code:
  assumes "k < 10"
  shows "is_digit (word_of_nat (48 + k))" "unat (word_of_nat (48 + k) :: u8) - 48 = k"
  using digit_cases [OF assms] by (auto simp: is_digit_def)

lemma chars_decimal:
  "chars (decimal n) =
     (if n < 10 then [word_of_nat (48 + n)] else chars (decimal (n div 10)) @ [word_of_nat (48 + n mod 10)])"
  using chars_digit [of n] chars_digit [of "n mod 10"] by (subst decimal.simps) simp

lemma decimal_digits:
  "digits_value 0 (chars (decimal n)) = n \<and> (\<forall>c \<in> set (chars (decimal n)). is_digit c)"
proof (induction n rule: decimal.induct)
  case (1 n)
  show ?case
  proof (cases "n < 10")
    case True
    with is_digit_code [OF True] show ?thesis by (simp add: chars_decimal [of n] del: chars_append)
  next
    case False
    then show ?thesis
      using is_digit_code [of "n mod 10"] 1 by (simp add: chars_decimal [of n] digits_value_append)
  qed
qed

lemma decimal_not_Nil: "chars (decimal n) \<noteq> []"
  by (subst chars_decimal) simp

end
