(* ===== verification/LDB_Key_Props.thy ===== *)
theory LDB_Key_Props
  imports LDB_Dbformat
begin

text \<open>
  LevelDB: what internal keys, their comparator, lookup keys and decimal numbers promise, over any
  comparator of user keys that keeps its contract and, in the witnesses, the byte-wise one.
\<close>

section \<open>Internal keys\<close>

text \<open>The order of parsed keys: by user key, then the newer first.\<close>

definition parsed_before :: "comparator \<Rightarrow> ParsedInternalKey \<Rightarrow> ParsedInternalKey \<Rightarrow> bool" where
  "parsed_before C x y \<longleftrightarrow>
     (let r = Compare C (p_user_key x) (p_user_key y)
      in r < 0 \<or> r = 0 \<and> (p_sequence y < p_sequence x \<or>
           p_sequence y = p_sequence x \<and> p_type y < p_type x))"

lemma PackSequenceAndType_ok:
  "s \<le> kMaxSequenceNumber \<Longrightarrow> t \<le> kTypeValue \<Longrightarrow> \<exists>tag. PackSequenceAndType s t = Some tag"
  by (simp add: PackSequenceAndType_Some)

lemma internal_compare_parsed:
  assumes "PackSequenceAndType (p_sequence x) (p_type x) = Some tx"
    and "PackSequenceAndType (p_sequence y) (p_type y) = Some ty"
  shows "internal_compare C (ikey (p_user_key x) tx) (ikey (p_user_key y) ty) < 0 \<longleftrightarrow> parsed_before C x y"
  using tag_less [OF assms(2) assms(1)] tag_less [OF assms]
  by (auto simp: internal_compare_tags parsed_before_def Let_def)

text \<open>
  C29: An internal key holds a user key, a sequence number below 2^56 and a type.  Encoding never
  fails for these, parsing gives them back, and the comparator of internal keys orders the encodings
  by user key, then by descending sequence number, then by descending type.  A sequence number
  of 2^56 or more fails the assertion, and fewer than eight bytes are never parsed.
\<close>

theorem internal_key_order:
  assumes "p_sequence x \<le> kMaxSequenceNumber" "p_type x \<le> kTypeValue"
    and "p_sequence y \<le> kMaxSequenceNumber" "p_type y \<le> kTypeValue"
  shows "\<exists>k l. AppendInternalKey [] x = Some k \<and> AppendInternalKey [] y = Some l \<and>
    length k = InternalKeyEncodingLength x \<and>
    ParseInternalKey k = Some x \<and> ParseInternalKey l = Some y \<and> ExtractUserKey k = p_user_key x \<and>
    (Compare (InternalKeyComparator C) k l < 0 \<longleftrightarrow> parsed_before C x y) \<and>
    (kMaxSequenceNumber < s \<longrightarrow> AppendInternalKey [] (x\<lparr>p_sequence := s\<rparr>) = None) \<and>
    (length b < 8 \<longrightarrow> ParseInternalKey b = None)"
proof -
  obtain tx ty where t: "PackSequenceAndType (p_sequence x) (p_type x) = Some tx"
    "PackSequenceAndType (p_sequence y) (p_type y) = Some ty"
    using PackSequenceAndType_ok assms by blast
  show ?thesis
    by (intro exI conjI)
      (use t Parse_ikey [OF t(1)] Parse_ikey [OF t(2)] internal_compare_parsed [OF t] in
        \<open>auto simp: AppendInternalKey_Some InternalKeyEncodingLength_def InternalKeyComparator_def
          AppendInternalKey_def PutFixed64_def ikey_def [symmetric] ParseInternalKey_def
          PackSequenceAndType_def [of s]\<close>)
qed

lemma internal_key_order_witness:
  "\<exists>k l. AppendInternalKey [] \<lparr>p_user_key = [7], p_sequence = 5, p_type = 1\<rparr> = Some k \<and>
     AppendInternalKey [] \<lparr>p_user_key = [7], p_sequence = 3, p_type = 0\<rparr> = Some l \<and>
     Compare (InternalKeyComparator BytewiseComparator) k l < 0"
  using internal_key_order [where x = "\<lparr>p_user_key = [7], p_sequence = 5, p_type = 1\<rparr>"
      and y = "\<lparr>p_user_key = [7], p_sequence = 3, p_type = 0\<rparr>" and C = BytewiseComparator
      and s = 0 and b = "[]"]
  by (fastforce simp: kMaxSequenceNumber_def kTypeValue_def parsed_before_def BytewiseComparator_def)

text \<open>
  C30: The comparator of internal keys keeps the contract of comparators on keys of eight and more
  bytes whenever the comparator of user keys keeps it: it is a total preorder, no assertion of
  \<open>FindShortestSeparator\<close> and \<open>FindShortSuccessor\<close> fails, the separator of two keys is at least the
  first and before the second, and the successor is at least its argument.
\<close>

theorem internal_comparator_contract:
  assumes "user_comparator C"
  shows "comparator_laws (InternalKeyComparator C) (\<lambda>k. 8 \<le> length k)"
proof -
  from assms show ?thesis by (rule user_comparator.internal_laws)
qed

lemma internal_comparator_contract_witness:
  "comparator_laws (InternalKeyComparator BytewiseComparator) (\<lambda>k. 8 \<le> length k)"
  by (rule internal_comparator_contract [OF bytewise.user_comparator_axioms])

section \<open>Lookup keys\<close>

lemma lookup_tag:
  assumes "PackSequenceAndType s kValueTypeForSeek = Some t" "PackSequenceAndType s' ty = Some t'"
  shows "t' \<le> t \<longleftrightarrow> s' \<le> s"
proof -
  have "ty \<le> kTypeValue" using assms(2) by (simp add: PackSequenceAndType_Some)
  then show ?thesis
    using tag_less [OF assms] by (auto simp: kValueTypeForSeek_def not_less [symmetric])
qed

text \<open>
  A lookup key for a user key and a snapshot: its three views are the user key, the internal
  key and the length-prefixed entry of the memtable, and the internal key is at or before exactly
  the entries with a later user key and the versions of the same user key that the snapshot sees, those
  with a sequence number of at most the snapshot's; so a seek ends on the newest visible version.
\<close>

theorem lookup_key_sees_snapshot:
  assumes "length u + 8 < 2 ^ 32" "s \<le> kMaxSequenceNumber"
    and "AppendInternalKey [] x = Some k"
  shows "\<exists>lk. LookupKey_new u s = Some lk \<and> lookup_user_key lk = u \<and>
    ParseInternalKey (lookup_internal_key lk) =
      Some \<lparr>p_user_key = u, p_sequence = s, p_type = kValueTypeForSeek\<rparr> \<and>
    GetLengthPrefixedSlice (memtable_key lk) = (Some (lookup_internal_key lk), []) \<and>
    (Compare (InternalKeyComparator C) (lookup_internal_key lk) k \<le> 0 \<longleftrightarrow>
      Compare C u (p_user_key x) < 0 \<or> Compare C u (p_user_key x) = 0 \<and> p_sequence x \<le> s)"
proof -
  obtain t where t: "PackSequenceAndType s kValueTypeForSeek = Some t"
    using assms(2) PackSequenceAndType_ok by (auto simp: kValueTypeForSeek_def)
  obtain t' where t': "PackSequenceAndType (p_sequence x) (p_type x) = Some t'" and k: "k = ikey (p_user_key x) t'"
    using assms(3) by (auto simp: AppendInternalKey_Some)
  let ?n = "EncodeVarint32 (word_of_nat (length u + 8))"
  have lk: "LookupKey_new u s = Some \<lparr>lk_start = ?n @ ikey u t, lk_kstart = length ?n\<rparr>"
    using t by (simp add: LookupKey_new_def Let_def ikey_def)
  have pre: "GetLengthPrefixedSlice (?n @ ikey u t) = (Some (ikey u t), [])"
    using GetLengthPrefixedSlice_bytes [of "ikey u t" "[]"] assms(1)
    by (simp add: PutLengthPrefixedSlice_def PutVarint32_def)
  show ?thesis
    unfolding lk
    using pre Parse_ikey [of "\<lparr>p_user_key = u, p_sequence = s, p_type = kValueTypeForSeek\<rparr>" t] t
      lookup_tag [OF t t']
    by (auto simp: lookup_user_key_def lookup_internal_key_def memtable_key_def
        InternalKeyComparator_def internal_compare_tags Let_def k) (auto simp: ikey_def)
qed

lemma lookup_key_sees_snapshot_witness:
  "\<exists>lk. LookupKey_new [1, 2] 9 = Some lk \<and> lookup_user_key lk = [1, 2]"
  using lookup_key_sees_snapshot [of "[1, 2]" 9 "\<lparr>p_user_key = [], p_sequence = 0, p_type = 0\<rparr>"
      "ikey [] 0"]
  by (auto simp: kMaxSequenceNumber_def AppendInternalKey_Some PackSequenceAndType_Some)

section \<open>Decimal numbers\<close>

text \<open>
  Decimal numbers on every input: leading digits are consumed, no digit or a value of 2^64 or
  more is refused (the latter without moving the input), and every number survives the round trip.
\<close>

lemma ConsumeDecimalNumber_eq:
  "ConsumeDecimalNumber input =
     (let ds = takeWhile is_digit input; n = digits_value 0 ds
      in if 2 ^ 64 \<le> n then (False, None, input) else (ds \<noteq> [], Some (word_of_nat n), drop (length ds) input))"
proof -
  have "length (takeWhile is_digit input) \<le> length input" by (rule length_takeWhile_le)
  then have "length input - length (takeWhile is_digit input) < length input \<longleftrightarrow> takeWhile is_digit input \<noteq> []"
    by (cases "takeWhile is_digit input") auto
  then show ?thesis
    using length_takeWhile_le [of is_digit input]
    by (simp add: ConsumeDecimalNumber_def decimal_loop_eq Let_def remove_prefix_def)
qed

lemma ConsumeDecimalNumber_number [simp]:
  assumes "rest = [] \<or> \<not> is_digit (hd rest)"
  shows "ConsumeDecimalNumber (NumberToString n @ rest) = (True, Some n, rest)"
proof -
  let ?d = "chars (decimal (unat n))"
  have tw: "takeWhile is_digit (?d @ rest) = ?d"
    using decimal_digits [of "unat n"] assms
    by (cases rest) (auto simp: takeWhile_append takeWhile_tail)
  have "unat n < 2 ^ 64" by (rule unat_u64_less)
  then show ?thesis
    using decimal_digits [of "unat n"] decimal_not_Nil [of "unat n"]
    unfolding ConsumeDecimalNumber_eq NumberToString_def AppendNumberTo_def append_Nil tw Let_def
    by simp
qed

end
