(* ===== verification/LDB_Block_Props.thy ===== *)
theory LDB_Block_Props
  imports LDB_Block_Layout LDB_Key_Props
begin

text \<open>
  LevelDB: the block builder writes the block format, and what the builder and the iterator of a block
  promise together.
\<close>

section \<open>The builder writes the format\<close>

text \<open>What a builder has built: the entries with their shared prefixes and the restart points.\<close>

definition builds :: "BlockBuilder \<Rightarrow> shared_entry list \<Rightarrow> nat list \<Rightarrow> bool" where
  "builds b xs rs \<longleftrightarrow> b_buffer b = entries_bytes xs \<and>
     b_restarts b = map (\<lambda>r. word_of_nat (entry_off xs r)) rs \<and> \<not> b_finished b \<and>
     b_last_key b = (if xs = [] then [] else entry_key xs (length xs - 1)) \<and>
     0 \<le> b_counter b \<and> b_counter b \<le> block_restart_interval (b_options b) \<and>
     1 \<le> block_restart_interval (b_options b) \<and> (xs = [] \<longrightarrow> b_counter b = 0) \<and>
     shares xs \<and> restarts_ok xs rs \<and> length rs \<le> length xs + 1"

lemma shared_loop_prefix:
  "shared_loop a b \<le> length a" "shared_loop a b \<le> length b" "take (shared_loop a b) a = take (shared_loop a b) b"
  by (induction a b rule: shared_loop.induct) auto

lemma entry_off_snoc: "r \<le> length xs \<Longrightarrow> entry_off (xs @ ys) r = entry_off xs r"
  by (simp add: entry_off_def)

lemma entries_bytes_Nil: "entries_bytes xs = [] \<longleftrightarrow> xs = []"
proof (cases xs)
  case (Cons x ys)
  then show ?thesis using entry_bytes_pos [of x] by auto
qed simp

lemma shares_snoc:
  assumes "shares xs" "s \<le> length k" "xs = [] \<Longrightarrow> s = 0"
    and "xs \<noteq> [] \<Longrightarrow> s \<le> length (entry_key xs (length xs - 1)) \<and>
      take s (entry_key xs (length xs - 1)) = take s k"
  shows "shares (xs @ [(s, k, v)])"
  unfolding shares_def
proof (intro allI impI)
  fix n
  let ?xs = "xs @ [(s, k, v)]"
  assume "n < length ?xs"
  then consider "n < length xs" | "n = length xs" by fastforce
  then show "fst (?xs ! n) \<le> length (entry_key ?xs n) \<and>
     (if n = 0 then fst (?xs ! n) = 0
      else fst (?xs ! n) \<le> length (entry_key ?xs (n - 1)) \<and>
        take (fst (?xs ! n)) (entry_key ?xs (n - 1)) = take (fst (?xs ! n)) (entry_key ?xs n))"
  proof cases
    case 1
    then have "n - 1 < length xs" by simp
    moreover have "fst (xs ! n) \<le> length (entry_key xs n) \<and>
       (if n = 0 then fst (xs ! n) = 0
        else fst (xs ! n) \<le> length (entry_key xs (n - 1)) \<and>
          take (fst (xs ! n)) (entry_key xs (n - 1)) = take (fst (xs ! n)) (entry_key xs n))"
      using assms(1) 1 unfolding shares_def by blast
    ultimately show ?thesis using 1 by (simp only: nth_append if_True simp_thms) blast
  next
    case 2
    with assms show ?thesis by (cases "xs = []") (simp_all add: nth_append)
  qed
qed

lemma restarts_snoc:
  assumes "restarts_ok xs rs"
  shows "restarts_ok (xs @ [x]) rs \<longleftrightarrow> (xs = [] \<longrightarrow> fst x = 0)"
  using assms by (auto simp: restarts_ok_def nth_append)

lemma restarts_new:
  assumes "restarts_ok xs rs" "xs \<noteq> []"
  shows "restarts_ok (xs @ [(0, k, v)]) (rs @ [length xs])"
  using assms by (auto simp: restarts_ok_def nth_append sorted_wrt_append)

lemma restarts_bound: "restarts_ok xs rs \<Longrightarrow> r \<in> set rs \<Longrightarrow> r \<le> length xs"
  by (fastforce simp: restarts_ok_def)

lemma Add_builds:
  assumes b: "builds b xs rs"
    and gr: "xs \<noteq> [] \<Longrightarrow> 0 < Compare (o_comparator (b_options b)) key (entry_key xs (length xs - 1))"
  shows "\<exists>b' s rs'. BlockBuilder_Add b key val = Some b' \<and> b_options b' = b_options b \<and>
    builds b' (xs @ [(s, key, val)]) rs'"
proof -
  let ?I = "block_restart_interval (b_options b)"
  have rs: "restarts_ok xs rs" "shares xs" using b by (simp_all add: builds_def)
  have pre: "\<not> b_finished b" "\<not> \<not> b_counter b \<le> ?I"
    "\<not> \<not> (b_buffer b = [] \<or> Compare (o_comparator (b_options b)) key (b_last_key b) > 0)"
    and buf: "b_buffer b = entries_bytes xs"
    using b gr by (auto simp: builds_def entries_bytes_Nil)
  note add_def = BlockBuilder_Add_def [of b key val, unfolded if_not_P [OF pre(1)] if_not_P [OF pre(2)] if_not_P [OF pre(3)]]
  have bytes: "PutVarint32 (PutVarint32 (PutVarint32 (entries_bytes xs) (word_of_nat s)) (word_of_nat (length key - s)))
      (word_of_nat (length val)) @ drop s key @ val = entries_bytes (xs @ [(s, key, val)])" for s
    by (simp add: PutVarint32_def entry_bytes_def)
  have offs: "map (\<lambda>r. word_of_nat (entry_off xs r)) rs = map (\<lambda>r. (word_of_nat (entry_off (xs @ [x]) r) :: u32)) rs" for x
    using restarts_bound [OF rs(1)] by (simp add: entry_off_snoc)
  show ?thesis
  proof (cases "b_counter b < ?I")
    case True
    define s where "s = shared_loop (b_last_key b) key"
    have s: "s \<le> length key" "s \<le> length (b_last_key b)" "take s (b_last_key b) = take s key"
      using shared_loop_prefix [of "b_last_key b" key] by (simp_all add: s_def)
    let ?b = "b\<lparr>b_buffer := entries_bytes (xs @ [(s, key, val)]), b_last_key := key, b_counter := b_counter b + 1\<rparr>"
    have add: "BlockBuilder_Add b key val = Some ?b"
      using bytes [of s]
      unfolding add_def if_P [OF True] prod.case Let_def s_def [symmetric] buf s(3) append_take_drop_id
      by (simp del: of_nat_diff)
    have "shares (xs @ [(s, key, val)])"
      using s b rs by (intro shares_snoc) (auto simp: builds_def)
    moreover have "restarts_ok (xs @ [(s, key, val)]) rs"
      using restarts_snoc [OF rs(1)] s b by (auto simp: builds_def)
    ultimately have "builds ?b (xs @ [(s, key, val)]) rs"
      using b True offs [of "(s, key, val)"] by (simp add: builds_def nth_append)
    with add show ?thesis by (intro exI [of _ ?b] exI [of _ s] exI [of _ rs]) simp
  next
    case False
    then have xs: "xs \<noteq> []" using b by (auto simp: builds_def)
    let ?b = "b\<lparr>b_restarts := b_restarts b @ [word_of_nat (length (b_buffer b))],
      b_buffer := entries_bytes (xs @ [(0, key, val)]), b_last_key := key, b_counter := 1\<rparr>"
    have add: "BlockBuilder_Add b key val = Some ?b"
      using bytes [of 0] unfolding add_def if_not_P [OF False] prod.case Let_def by (simp add: buf)
    have "builds ?b (xs @ [(0, key, val)]) (rs @ [length xs])"
      using b False offs [of "(0, key, val)"] shares_snoc [OF rs(2), of 0 key val] restarts_new [OF rs(1) xs]
      by (simp add: builds_def nth_append entry_off_snoc entry_off_all xs)
    with add show ?thesis by (intro exI [of _ ?b] exI [of _ 0] exI [of _ "rs @ [length xs]"]) simp
  qed
qed

text \<open>Adding a list of entries, as the builder of tables does.\<close>

fun add_entries :: "BlockBuilder \<Rightarrow> entries \<Rightarrow> BlockBuilder option" where
  "add_entries b [] = Some b"
| "add_entries b ((key, val) # es) =
     (case BlockBuilder_Add b key val of None \<Rightarrow> None | Some b \<Rightarrow> add_entries b es)"

lemma BlockBuilder_new_builds:
  "1 \<le> block_restart_interval opts \<Longrightarrow> \<exists>b. BlockBuilder_new opts = Some b \<and> b_options b = opts \<and> builds b [] [0]"
  by (simp add: BlockBuilder_new_def builds_def shares_def restarts_ok_def)

context comparator_laws
begin

lemma add_entries_builds:
  assumes C: "C = o_comparator (b_options b)" and b: "builds b xs rs" and sorted: "sorted_entries C valid (map snd xs @ es)"
  shows "\<exists>b' ys rs'. add_entries b es = Some b' \<and> builds b' (xs @ ys) rs' \<and> map snd ys = es"
  using C b sorted
proof (induction es arbitrary: b xs rs)
  case Nil
  then show ?case by auto
next
  case (Cons e es)
  obtain key val where e: "e = (key, val)" by (cases e)
  have "0 < Compare (o_comparator (b_options b)) key (entry_key xs (length xs - 1))" if "xs \<noteq> []"
  proof -
    have m: "snd (xs ! (length xs - 1)) \<in> set (map snd xs)" using that by simp
    have "Compare C (entry_key xs (length xs - 1)) key < 0" "valid (entry_key xs (length xs - 1))" "valid key"
      using Cons.prems(3) m by (auto simp: sorted_entries_def sorted_wrt_append e simp del: set_map)
    then show ?thesis using compare_sign Cons.prems(1) by simp
  qed
  then obtain b' s rs' where b': "BlockBuilder_Add b key val = Some b'" "b_options b' = b_options b"
    "builds b' (xs @ [(s, key, val)]) rs'"
    using Add_builds [OF Cons.prems(2)] by blast
  have "sorted_entries C valid (map snd (xs @ [(s, key, val)]) @ es)"
    using Cons.prems(3) by (simp add: e)
  then obtain b'' ys rs'' where "add_entries b' es = Some b''" "builds b'' ((xs @ [(s, key, val)]) @ ys) rs''" "map snd ys = es"
    using Cons.IH [OF _ b'(3)] Cons.prems(1) b'(2) by auto
  then show ?case
    using b'(1) e by (intro exI [of _ b''] exI [of _ "(s, key, val) # ys"] exI [of _ rs'']) simp
qed

end

section \<open>Finishing\<close>

lemma Finish_bytes: "builds b xs rs \<Longrightarrow> fst (BlockBuilder_Finish b) = block_bytes xs rs"
  by (simp add: BlockBuilder_Finish_def builds_def foldl_PutFixed32 block_bytes_def restart_bytes_def
      PutFixed32_def comp_def Let_def)

lemma estimate_exact: "builds b xs rs \<Longrightarrow> BlockBuilder_CurrentSizeEstimate b = length (block_bytes xs rs)"
  by (simp add: BlockBuilder_CurrentSizeEstimate_def builds_def block_bytes_def length_restart_bytes)

text \<open>A bound for the size of a block.\<close>

definition block_bound :: "entries \<Rightarrow> nat" where
  "block_bound es = sum_list (map (\<lambda>(k, v). length k + length v + 19) es) + 8"

lemma length_EncodeVarint32: "length (EncodeVarint32 v) \<le> 5"
  using varint_length_u32 [of v] by (simp add: EncodeVarint32_eq)

lemma entry_bytes_bound: "length (entry_bytes (s, k, v)) \<le> length k + length v + 15"
  unfolding entry_bytes_def prod.case length_append length_drop
  using length_EncodeVarint32 [of "word_of_nat s"] length_EncodeVarint32 [of "word_of_nat (length k - s)"]
    length_EncodeVarint32 [of "word_of_nat (length v)"]
  by linarith

lemma entries_bytes_bound: "length (entries_bytes xs) + 4 * length xs + 8 \<le> block_bound (map snd xs)"
proof (induction xs)
  case (Cons x xs)
  obtain s k v where "x = (s, k, v)" by (cases x)
  with Cons entry_bytes_bound [of s k v] show ?case by (simp add: block_bound_def)
qed (simp add: block_bound_def)

lemma builds_layout:
  assumes "builds b xs rs" "block_bound (map snd xs) < 2 ^ 32"
  shows "layout xs rs"
proof -
  have "length rs \<le> length xs + 1" using assms(1) by (simp add: builds_def)
  then have "length (block_bytes xs rs) \<le> block_bound (map snd xs)"
    using entries_bytes_bound [of xs] by (simp add: block_bytes_def length_restart_bytes)
  then show ?thesis using assms by (simp add: layout_def builds_def)
qed

section \<open>Opening a finished block\<close>

text \<open>The iterator over the contents of a block, from the constructor and \<open>NewIterator\<close>.\<close>

definition open_block :: "slice \<Rightarrow> comparator \<Rightarrow> (Status + Iter) option" where
  "open_block contents C =
     (case Block_new contents of None \<Rightarrow> None | Some bl \<Rightarrow> Block_NewIterator bl C)"

lemma open_layout:
  assumes "layout xs rs"
  shows "\<exists>it. open_block (block_bytes xs rs) C = Some (Inr it) \<and> it_over C xs rs it \<and> \<not> Iter_Valid it"
proof -
  let ?d = "block_bytes xs rs"
  have len: "length ?d = length (entries_bytes xs) + 4 * length rs + 4"
    by (simp add: block_bytes_def length_restart_bytes)
  have small: "length (entries_bytes xs) + 4 * length rs + 4 < 2 ^ 32" by (rule layout_small [OF assms])
  have rs: "0 < length rs" using assms by (auto simp: layout_def restarts_ok_def)
  have num: "NumRestarts ?d (length ?d) = Some (word_of_nat (length rs))"
  proof -
    have "drop (length ?d - 4) ?d = EncodeFixed32 (word_of_nat (length rs)) @ []"
      unfolding len by (simp add: block_bytes_def length_restart_bytes)
    then show ?thesis using len by (simp add: NumRestarts_def del: append_Nil2)
  qed
  have u: "unat (word_of_nat (length rs) :: u32) = length rs"
    "unat (1 + word_of_nat (length rs) :: u32) = length rs + 1"
    using unat_of_nat_32 [of "length rs"] unat_of_nat_32 [of "length rs + 1"] small by simp_all
  have "Block_new ?d = Some \<lparr>bl_data = ?d, bl_size = length ?d,
      bl_restart_offset = word_of_nat (length (entries_bytes xs))\<rparr>"
    using num len by (simp add: Block_new_def u)
  moreover have "(word_of_nat (length rs) :: u32) \<noteq> 0" "0 < (word_of_nat (length rs) :: u32)"
    using u(1) rs by (auto simp: word_less_nat_alt)
  ultimately show ?thesis
    using num len by (simp add: open_block_def Block_NewIterator_def Iter_new_def it_over_def Iter_Valid_def)
qed

text \<open>The state before the first movement stands for the entries, behind the last one.\<close>

lemma open_rep:
  assumes "layout xs rs" "sorted_entries C valid (map snd xs)"
  shows "\<exists>it. open_block (block_bytes xs rs) C = Some (Inr it) \<and>
    block_rep C valid (map snd xs) (length xs) it"
proof -
  obtain it where it: "open_block (block_bytes xs rs) C = Some (Inr it)" "it_over C xs rs it" "\<not> Iter_Valid it"
    using open_layout [OF assms(1)] by blast
  then have "at_end C xs rs it"
    by (auto simp: open_block_def Block_NewIterator_def Iter_new_def at_end_def split: option.splits if_splits)
  with it assms show ?thesis by (auto simp: block_rep_def positioned_def)
qed

text \<open>Building a block: the calls of the builder of tables.\<close>

definition build_block :: "Options \<Rightarrow> entries \<Rightarrow> slice option" where
  "build_block options es =
     (case BlockBuilder_new options of None \<Rightarrow> None
      | Some b \<Rightarrow> map_option (\<lambda>b. fst (BlockBuilder_Finish b)) (add_entries b es))"

context comparator_laws
begin

lemma built_block:
  assumes "o_comparator options = C" "1 \<le> block_restart_interval options"
    and "sorted_entries C valid es" "block_bound es < 2 ^ 32"
  shows "\<exists>contents it. build_block options es = Some contents \<and> length contents \<le> block_bound es \<and>
    open_block contents C = Some (Inr it) \<and> block_rep C valid es (length es) it"
proof -
  obtain b0 where b0: "BlockBuilder_new options = Some b0" "b_options b0 = options" "builds b0 [] [0]"
    using BlockBuilder_new_builds [OF assms(2)] by blast
  obtain b xs rs where b: "add_entries b0 es = Some b" "builds b xs rs" "map snd xs = es"
    using add_entries_builds [OF _ b0(3), of es] assms(1,3) b0(2) by auto
  have layout: "layout xs rs" by (rule builds_layout [OF b(2)]) (unfold b(3), rule assms(4))
  have "length rs \<le> length xs + 1" using b(2) by (simp add: builds_def)
  then have "length (block_bytes xs rs) \<le> block_bound es"
    using entries_bytes_bound [of xs] b(3) by (simp add: block_bytes_def length_restart_bytes)
  moreover have "length xs = length es" using b(3) by auto
  moreover have "build_block options es = Some (block_bytes xs rs)"
    by (simp add: build_block_def b0(1) b(1) Finish_bytes [OF b(2)])
  ultimately show ?thesis
    using open_rep [OF layout] assms(3) b(3) by auto
qed

end

section \<open>Properties\<close>

text \<open>
  C28: Entries added to a block builder in ascending order come back from the iterator over the
  finished block: none of the builder's assertions fails, the block opens, \<open>SeekToFirst\<close> and repeated
  \<open>Next\<close> pass the entries in order with their keys and values, \<open>SeekToLast\<close> and repeated \<open>Prev\<close> pass them in
  reverse, and both end without an error, for every restart interval of at least one and entries that fit
  in 4 GB.
\<close>

theorem block_roundtrip:
  assumes "comparator_laws (o_comparator options) valid" "1 \<le> block_restart_interval options"
    and "sorted_entries (o_comparator options) valid es" "block_bound es < 2 ^ 32"
  shows "\<exists>contents it first last fwd bwd. build_block options es = Some contents \<and>
    open_block contents (o_comparator options) = Some (Inr it) \<and>
    Iter_SeekToFirst it = Some first \<and> scan_forward block_iter first = Some (es, fwd) \<and>
    Iter_SeekToLast it = Some last \<and> scan_backward block_iter last = Some (rev es, bwd) \<and>
    it_status fwd = status_OK \<and> it_status bwd = status_OK"
proof -
  let ?C = "o_comparator options"
  note block = comparator_laws.block_iterator [OF assms(1)]
  obtain contents it where it: "build_block options es = Some contents"
    "open_block contents ?C = Some (Inr it)" "block_rep ?C valid es (length es) it"
    using comparator_laws.built_block [OF assms(1) refl assms(2-4)] by blast
  have status: "it_status i = status_OK" if "block_rep ?C valid es n i" for n i
    using iterator.rep_status [OF block that] by (simp add: block_iter_def status_ok_def status_OK_def)
  show ?thesis
    using it(1,2) iterator.scan_all [OF block it(3)] iterator.scan_all_backward [OF block it(3)] status
    by (fastforce simp: block_iter_def)
qed

lemma block_roundtrip_witness:
  "\<exists>contents. build_block Options_new [([1], [7]), ([1, 2], []), ([3], [8, 9])] = Some contents"
proof -
  have laws: "comparator_laws (o_comparator Options_new) (\<lambda>_. True)"
    by (simp add: Options_new_def bytewise.comparator_laws_axioms)
  show ?thesis
    using block_roundtrip [OF laws, of "[([1], [7]), ([1, 2], []), ([3], [8, 9])]"]
    by (auto simp: sorted_entries_def Options_new_def BytewiseComparator_def block_bound_def)
qed

text \<open>
  C9: The iterator over a finished block behaves as a cursor in the sorted list of its entries under
  every sequence of calls: the calls return, the iterator is valid exactly when the cursor is inside
  the list, shows the entry at the cursor, and its status stays OK.  \<open>Seek\<close>, a binary search over the restart
  points and a linear search, puts the cursor on the first key at or after the target.
\<close>

theorem block_iterator_refines_cursor:
  assumes "comparator_laws (o_comparator options) valid" "1 \<le> block_restart_interval options"
    and "sorted_entries (o_comparator options) valid es" "block_bound es < 2 ^ 32"
    and "cursor_run (Compare (o_comparator options)) es calls (length es) = Some m"
    and "\<And>t. CallSeek t \<in> set calls \<Longrightarrow> valid t"
  shows "\<exists>contents it j. build_block options es = Some contents \<and>
    open_block contents (o_comparator options) = Some (Inr it) \<and>
    iter_run block_iter calls it = Some j \<and> (Iter_Valid j \<longleftrightarrow> m < length es) \<and> it_status j = status_OK \<and>
    (m < length es \<longrightarrow> Iter_key j = Some (fst (es ! m)) \<and> Iter_value j = Some (snd (es ! m)))"
proof -
  note block = comparator_laws.block_iterator [OF assms(1)]
  obtain contents it where it: "build_block options es = Some contents"
    "open_block contents (o_comparator options) = Some (Inr it)"
    "block_rep (o_comparator options) valid es (length es) it"
    using comparator_laws.built_block [OF assms(1) refl assms(2-4)] by blast
  obtain j where j: "iter_run block_iter calls it = Some j" "block_rep (o_comparator options) valid es m j"
    using iterator.run_refines [OF block it(3) assms(5,6)] by blast
  show ?thesis
    using it(1,2) j(1) iterator.observe [OF block j(2)] by (auto simp: block_iter_def)
qed

lemma block_iterator_refines_cursor_witness:
  "\<exists>contents it j. build_block Options_new [([1], [7]), ([1, 2], []), ([3], [8, 9])] = Some contents \<and>
    open_block contents (o_comparator Options_new) = Some (Inr it) \<and>
    iter_run block_iter [CallSeek [2], CallPrev] it = Some j \<and> Iter_key j = Some [1, 2]"
proof -
  have laws: "comparator_laws (o_comparator Options_new) (\<lambda>_. True)"
    by (simp add: Options_new_def bytewise.comparator_laws_axioms)
  show ?thesis
    using block_iterator_refines_cursor [OF laws, of "[([1], [7]), ([1, 2], []), ([3], [8, 9])]" "[CallSeek [2], CallPrev]" 1]
    by (fastforce simp: sorted_entries_def Options_new_def BytewiseComparator_def block_bound_def seek_index_def)
qed

end
