(* ===== verification/LDB_Filter.thy ===== *)
theory LDB_Filter
  imports LDB_Options LDB_Dbformat PB_Prelude
begin

text \<open>
  LevelDB: the hash function (\<open>util/hash.cc\<close>), the Bloom filter policy (\<open>util/bloom.cc\<close>), the filter policy
  on internal keys (\<open>db/dbformat.cc\<close>) and the filter block of a table (\<open>table/filter_block.h\<close>,
  \<open>table/filter_block.cc\<close>).
\<close>

section \<open>Hash\<close>

definition hash_m :: u32 where "hash_m = 0xc6a4a793"
definition hash_r :: nat where "hash_r = 24"

text \<open>The loop over four bytes at a time, and the rest of up to three bytes.\<close>

fun hash_loop :: "u32 \<Rightarrow> u8 list \<Rightarrow> u32 \<times> u8 list" where
  "hash_loop h (a # b # c # d # data) =
     (let w = DecodeFixed32 [a, b, c, d];
          h = h + w;
          h = h * hash_m;
          h = h XOR drop_bit 16 h
      in hash_loop h data)"
| "hash_loop h data = (h, data)"

definition hash_rest :: "u32 \<Rightarrow> u8 list \<Rightarrow> u32" where
  "hash_rest h data =
     (let n = length data;
          h = (if n = 3 then h + push_bit 16 (ucast (data ! 2)) else h);
          h = (if n = 3 \<or> n = 2 then h + push_bit 8 (ucast (data ! 1)) else h)
      in if n = 3 \<or> n = 2 \<or> n = 1 then
           let h = h + ucast (data ! 0);
               h = h * hash_m
           in h XOR drop_bit hash_r h
         else h)"

definition Hash :: "u8 list \<Rightarrow> u32 \<Rightarrow> u32" where
  "Hash data seed =
     (let h = ucast (ucast seed XOR (word_of_nat (length data) * ucast hash_m :: u64)) :: u32;
          (h, rest) = hash_loop h data
      in hash_rest h rest)"

section \<open>Bloom filters\<close>

definition BloomHash :: "slice \<Rightarrow> u32" where
  "BloomHash key = Hash key 0xbc9f1d34"

record BloomFilterPolicy =
  bits_per_key :: u64
  bf_k :: u64

text \<open>
  The product with 0.69 is rounded down.  In the exact product \<open>69 n / 100\<close> the fraction is at least
  0.01 away from an integer below 44, from where on the bound of 30 applies, so the rounding
  of the \<open>double\<close> product makes no difference.  A negative argument is undefined in the code.
\<close>

definition BloomFilterPolicy_new :: "nat \<Rightarrow> BloomFilterPolicy" where
  "BloomFilterPolicy_new n =
     (let k = n * 69 div 100;
          k = (if k < 1 then 1 else k);
          k = (if k > 30 then 30 else k)
      in \<lparr>bits_per_key = word_of_nat n, bf_k = word_of_nat k\<rparr>)"

definition rotate_delta :: "u32 \<Rightarrow> u32" where
  "rotate_delta h = drop_bit 17 h OR push_bit 15 h"

text \<open>The loops over the probes that set and that test the bits.\<close>

fun set_probes :: "nat \<Rightarrow> u32 \<Rightarrow> u32 \<Rightarrow> u64 \<Rightarrow> u8 list \<Rightarrow> u8 list" where
  "set_probes 0 h delta bits array = array"
| "set_probes (Suc j) h delta bits array =
     (let bitpos = ucast (ucast h mod bits) :: u32; i = unat (bitpos div 8)
      in set_probes j (h + delta) delta bits
           (array[i := array ! i OR push_bit (unat (bitpos mod 8)) 1]))"

fun test_probes :: "nat \<Rightarrow> u32 \<Rightarrow> u32 \<Rightarrow> u64 \<Rightarrow> u8 list \<Rightarrow> bool" where
  "test_probes 0 h delta bits array = True"
| "test_probes (Suc j) h delta bits array =
     (let bitpos = ucast (ucast h mod bits) :: u32
      in if array ! unat (bitpos div 8) AND push_bit (unat (bitpos mod 8)) 1 = 0 then False
         else test_probes j (h + delta) delta bits array)"

definition bloom_bytes :: "BloomFilterPolicy \<Rightarrow> slice list \<Rightarrow> u64" where
  "bloom_bytes p keys =
     (let bits = word_of_nat (length keys) * bits_per_key p;
          bits = (if bits < 64 then 64 else bits)
      in (bits + 7) div 8)"

text \<open>
  The number of keys, which the code casts to \<open>int\<close>, is the length of the list.  The positions that are set are
  below the number of bits, so every update lies in the array while the number of bits is below \<open>2 ^ 64\<close>.
\<close>

definition bloom_CreateFilter :: "BloomFilterPolicy \<Rightarrow> slice list \<Rightarrow> u8 list \<Rightarrow> u8 list" where
  "bloom_CreateFilter p keys dst =
     (let bytes = bloom_bytes p keys;
          bits = bytes * 8;
          array = fold (\<lambda>key array. let h = BloomHash key in set_probes (unat (bf_k p)) h (rotate_delta h) bits array)
            keys (replicate (unat bytes) 0)
      in dst @ array @ [ucast (bf_k p)])"

definition bloom_KeyMayMatch :: "slice \<Rightarrow> slice \<Rightarrow> bool" where
  "bloom_KeyMayMatch key bloom_filter =
     (let len = length bloom_filter in
      if len < 2 then False
      else
        let bits = word_of_nat (len - 1) * 8 :: u64;
            k = scast (bloom_filter ! (len - 1)) :: u64
        in if k > 30 then True
           else let h = BloomHash key in test_probes (unat k) h (rotate_delta h) bits bloom_filter)"

definition NewBloomFilterPolicy :: "nat \<Rightarrow> FilterPolicy" where
  "NewBloomFilterPolicy n =
     \<lparr>fp_Name = chars ''leveldb.BuiltinBloomFilter2'', CreateFilter = bloom_CreateFilter (BloomFilterPolicy_new n),
      KeyMayMatch = bloom_KeyMayMatch\<rparr>"

section \<open>Filters on internal keys\<close>

definition InternalFilterPolicy :: "FilterPolicy \<Rightarrow> FilterPolicy" where
  "InternalFilterPolicy user =
     \<lparr>fp_Name = fp_Name user,
      CreateFilter = (\<lambda>keys dst. CreateFilter user (map ExtractUserKey keys) dst),
      KeyMayMatch = (\<lambda>key f. KeyMayMatch user (ExtractUserKey key) f)\<rparr>"

section \<open>Filter blocks\<close>

definition kFilterBaseLg :: nat where "kFilterBaseLg = 11"
definition kFilterBase :: u64 where "kFilterBase = push_bit kFilterBaseLg 1"

text \<open>The list \<open>tmp_keys_\<close> is empty between calls and is left out.\<close>

record FilterBlockBuilder =
  fb_policy :: FilterPolicy
  fb_keys :: "u8 list"
  fb_start :: "nat list"
  fb_result :: "u8 list"
  fb_filter_offsets :: "u32 list"

definition FilterBlockBuilder_new :: "FilterPolicy \<Rightarrow> FilterBlockBuilder" where
  "FilterBlockBuilder_new policy =
     \<lparr>fb_policy = policy, fb_keys = [], fb_start = [], fb_result = [], fb_filter_offsets = []\<rparr>"

definition GenerateFilter :: "FilterBlockBuilder \<Rightarrow> FilterBlockBuilder" where
  "GenerateFilter b =
     (let num_keys = length (fb_start b);
          offsets = fb_filter_offsets b @ [word_of_nat (length (fb_result b))]
      in if num_keys = 0 then b\<lparr>fb_filter_offsets := offsets\<rparr>
         else
           let start = fb_start b @ [length (fb_keys b)];
               tmp_keys = map (\<lambda>i. take (start ! (i + 1) - start ! i) (drop (start ! i) (fb_keys b))) [0..<num_keys]
           in b\<lparr>fb_filter_offsets := offsets, fb_result := CreateFilter (fb_policy b) tmp_keys (fb_result b),
                fb_keys := [], fb_start := []\<rparr>)"

definition start_block_step :: "u64 \<Rightarrow> FilterBlockBuilder \<Rightarrow> (FilterBlockBuilder + FilterBlockBuilder) option" where
  "start_block_step filter_index b =
     (if filter_index > word_of_nat (length (fb_filter_offsets b)) then Some (Inr (GenerateFilter b))
      else Some (Inl b))"

definition StartBlock :: "u64 \<Rightarrow> FilterBlockBuilder \<Rightarrow> FilterBlockBuilder option" where
  "StartBlock block_offset b =
     (let filter_index = block_offset div kFilterBase in
      if \<not> filter_index \<ge> word_of_nat (length (fb_filter_offsets b)) then None
      else c_loop (start_block_step filter_index) b)"

definition AddKey :: "slice \<Rightarrow> FilterBlockBuilder \<Rightarrow> FilterBlockBuilder" where
  "AddKey key b = b\<lparr>fb_start := fb_start b @ [length (fb_keys b)], fb_keys := fb_keys b @ key\<rparr>"

definition FilterBlock_Finish :: "FilterBlockBuilder \<Rightarrow> slice \<times> FilterBlockBuilder" where
  "FilterBlock_Finish b =
     (let b = (if fb_start b \<noteq> [] then GenerateFilter b else b);
          array_offset = word_of_nat (length (fb_result b)) :: u32;
          result = foldl PutFixed32 (fb_result b) (fb_filter_offsets b);
          result = PutFixed32 result array_offset;
          result = result @ [word_of_nat kFilterBaseLg]
      in (result, b\<lparr>fb_result := result\<rparr>))"

text \<open>\<open>offset_\<close> is the offset of the array of offsets in the contents.\<close>

record FilterBlockReader =
  fr_policy :: FilterPolicy
  fr_data :: "u8 list"
  fr_offset :: nat
  fr_num :: nat
  fr_base_lg :: u64

definition FilterBlockReader_new :: "FilterPolicy \<Rightarrow> slice \<Rightarrow> FilterBlockReader" where
  "FilterBlockReader_new policy contents =
     (let n = length contents; r = \<lparr>fr_policy = policy, fr_data = [], fr_offset = 0, fr_num = 0, fr_base_lg = 0\<rparr> in
      if n < 5 then r
      else
        let r = r\<lparr>fr_base_lg := scast (contents ! (n - 1))\<rparr>;
            last_word = DecodeFixed32 (drop (n - 5) contents)
        in if unat last_word > n - 5 then r
           else r\<lparr>fr_data := contents, fr_offset := unat last_word, fr_num := (n - 5 - unat last_word) div 4\<rparr>)"

text \<open>A shift by 64 or more is undefined: no result.\<close>

definition FilterBlock_KeyMayMatch :: "FilterBlockReader \<Rightarrow> u64 \<Rightarrow> slice \<Rightarrow> bool option" where
  "FilterBlock_KeyMayMatch r block_offset key =
     (if fr_base_lg r \<ge> 64 then None
      else
        let index = unat (drop_bit (unat (fr_base_lg r)) block_offset) in
        if index < fr_num r then
          let start = DecodeFixed32 (drop (fr_offset r + index * 4) (fr_data r));
              limit = DecodeFixed32 (drop (fr_offset r + index * 4 + 4) (fr_data r))
          in if start \<le> limit \<and> unat limit \<le> fr_offset r then
               Some (KeyMayMatch (fr_policy r) key (take (unat (limit - start)) (drop (unat start) (fr_data r))))
             else if start = limit then Some False
             else Some True
        else Some True)"

end
