(* ===== verification/LDB_Filter_Props.thy ===== *)
theory LDB_Filter_Props
  imports LDB_Filter
begin

text \<open>
  LevelDB: a Bloom filter, and the filter block of a table, match every key they were made from.
\<close>

section \<open>Probes\<close>

definition bits_kept :: "u8 list \<Rightarrow> u8 list \<Rightarrow> bool" where
  "bits_kept a b \<longleftrightarrow> (\<forall>i < length a. \<forall>n. bit (a ! i) n \<longrightarrow> bit (b ! i) n)"

lemma bits_kept_refl [simp]: "bits_kept a a"
  by (simp add: bits_kept_def)

lemma bits_kept_trans: "bits_kept a b \<Longrightarrow> bits_kept b c \<Longrightarrow> length a = length b \<Longrightarrow> bits_kept a c"
  by (simp add: bits_kept_def)

lemma bits_kept_update: "bits_kept a (a[i := a ! i OR w])"
  by (cases "i < length a") (auto simp: bits_kept_def nth_list_update bit_or_iff)

lemma set_probes_kept:
  "length (set_probes k h delta bits a) = length a \<and> bits_kept a (set_probes k h delta bits a)"
proof (induction k arbitrary: h a)
  case (Suc k)
  let ?p = "ucast (ucast h mod bits) :: u32"
  let ?a = "a[unat (?p div 8) := a ! unat (?p div 8) OR push_bit (unat (?p mod 8)) 1]"
  let ?r = "set_probes k (h + delta) delta bits ?a"
  have IH: "length ?r = length ?a" "bits_kept ?a ?r" using Suc by blast+
  have len: "length ?a = length a" by (rule length_list_update)
  have kept: "bits_kept a ?r" by (rule bits_kept_trans [OF bits_kept_update IH(2) len [symmetric]])
  show ?case
    unfolding set_probes.simps Let_def by (intro conjI trans [OF IH(1) len] kept)
qed simp

lemma bitpos_less:
  fixes h :: u32 and bits :: u64
  assumes "0 < bits" "unat bits \<le> 8 * n"
  shows "unat ((ucast (ucast h mod bits) :: u32) div 8) < n"
proof -
  have h: "unat (ucast h :: u64) = unat h"
    using less_trans [OF unat_u32_less [of h], of "2 ^ 64"] by (simp add: unsigned_ucast_eq take_bit_nat_eq_self)
  have b: "0 < unat bits" using assms(1) by (simp add: word_less_nat_alt)
  have "unat h mod unat bits \<le> unat h" by simp
  then have "unat h mod unat bits < 2 ^ 32" using unat_u32_less [of h] by linarith
  then have "unat (ucast (ucast h mod bits) :: u32) = unat h mod unat bits"
    by (simp add: unsigned_ucast_eq take_bit_nat_eq_self unat_mod h)
  moreover have "unat h mod unat bits < unat bits" using b by simp
  ultimately show ?thesis using assms(2) by (simp add: unat_div)
qed

lemma bit_test: "w AND push_bit n 1 = 0 \<longleftrightarrow> \<not> bit w n" if "n < 8" for w :: u8
  using that by (metis and_exp_eq_0_iff_not_bit push_bit_of_1)

text \<open>Bits that were set are found, also when more bits were set since.\<close>

lemma test_after_set:
  assumes "0 < bits" "unat bits \<le> 8 * length a" "bits_kept (set_probes k h delta bits a) b"
  shows "test_probes k h delta bits b"
  using assms(2,3)
proof (induction k arbitrary: h a)
  case (Suc k)
  let ?p = "ucast (ucast h mod bits) :: u32"
  let ?i = "unat (?p div 8)" and ?n = "unat (?p mod 8)"
  let ?a = "a[?i := a ! ?i OR push_bit ?n 1]"
  have i: "?i < length a" by (rule bitpos_less [OF assms(1) Suc.prems(1)])
  have n: "?n < 8" by (simp add: unat_mod)
  have "bit (?a ! ?i) ?n" using i n by (simp add: bit_simps)
  moreover have "bits_kept ?a b"
    by (rule bits_kept_trans [OF _ Suc.prems(2) [unfolded set_probes.simps Let_def]])
      (simp_all only: set_probes_kept)
  ultimately have "bit (b ! ?i) ?n" using i by (simp add: bits_kept_def)
  moreover have "test_probes k (h + delta) delta bits b"
    using Suc.prems(2) [unfolded set_probes.simps Let_def] Suc.prems(1)
    by (intro Suc.IH [of ?a]) (simp_all only: length_list_update)
  ultimately show ?case unfolding test_probes.simps Let_def bit_test [OF n] by simp
qed simp

section \<open>The Bloom filter\<close>

definition add_key :: "nat \<Rightarrow> u64 \<Rightarrow> slice \<Rightarrow> u8 list \<Rightarrow> u8 list" where
  "add_key k bits key array = (let h = BloomHash key in set_probes k h (rotate_delta h) bits array)"

lemma fold_add_key_kept:
  "length (fold (add_key k bits) keys a) = length a \<and> bits_kept a (fold (add_key k bits) keys a)"
proof (induction keys arbitrary: a)
  case (Cons key keys)
  have "length (add_key k bits key a) = length a \<and> bits_kept a (add_key k bits key a)"
    using set_probes_kept by (simp add: add_key_def Let_def)
  then show ?case
    using Cons [of "add_key k bits key a"] bits_kept_trans [of a "add_key k bits key a"] by simp
qed simp

lemma fold_add_key_finds:
  assumes "key \<in> set keys" "0 < bits" "unat bits \<le> 8 * length a"
    and "bits_kept (fold (add_key k bits) keys a) b"
  shows "test_probes k (BloomHash key) (rotate_delta (BloomHash key)) bits b"
proof -
  obtain xs ys where keys: "keys = xs @ key # ys" using assms(1) by (auto simp: in_set_conv_decomp)
  let ?a = "fold (add_key k bits) xs a"
  have len: "length ?a = length a" using fold_add_key_kept by blast
  let ?s = "add_key k bits key ?a"
  have "fold (add_key k bits) keys a = fold (add_key k bits) ys ?s" by (simp add: keys)
  then have "bits_kept (fold (add_key k bits) ys ?s) b" using assms(4) by simp
  then have "bits_kept ?s b"
    using fold_add_key_kept [of k bits ys ?s] by (metis bits_kept_trans)
  then show ?thesis
    using assms(2,3) len test_after_set [of bits ?a k "BloomHash key" "rotate_delta (BloomHash key)" b]
    by (simp add: add_key_def Let_def)
qed

definition bloom_small :: "nat \<Rightarrow> slice list \<Rightarrow> bool" where
  "bloom_small n keys \<longleftrightarrow> length keys * n + 71 < 2 ^ 64"

lemma unat_of_64 [simp]: "a < 18446744073709551616 \<Longrightarrow> unat (word_of_nat a :: u64) = a"
  using unat_of_nat_64 [of a] by simp

lemma bloom_bytes_size:
  assumes "bloom_small n keys" "bits_per_key p = word_of_nat n"
  shows "unat (bloom_bytes p keys) * 8 < 2 ^ 64" "8 \<le> unat (bloom_bytes p keys)"
    and "unat (bloom_bytes p keys) \<le> length keys * n + 8"
proof -
  define m where "m = length keys * n"
  define b where "b = max 64 m"
  have m: "m + 71 < 2 ^ 64" using assms(1) by (simp add: bloom_small_def m_def)
  have prod: "word_of_nat (length keys) * bits_per_key p = (word_of_nat m :: u64)"
    by (simp add: assms(2) m_def)
  have bs: "b + 7 < 2 ^ 64" using m by (simp add: b_def)
  have u: "unat (word_of_nat m :: u64) = m" using m by (intro unat_of_nat_64) linarith
  have ub: "unat (word_of_nat (b + 7) :: u64) = b + 7" using bs by (rule unat_of_nat_64)
  have "(if word_of_nat m < (64 :: u64) then 64 else word_of_nat m) = (word_of_nat b :: u64)"
    using u by (auto simp: word_less_nat_alt b_def max_def)
  then have "bloom_bytes p keys = (word_of_nat b + 7) div 8"
    unfolding bloom_bytes_def Let_def prod by simp
  also have "word_of_nat b + 7 = (word_of_nat (b + 7) :: u64)" by simp
  finally have "unat (bloom_bytes p keys) = unat (word_of_nat (b + 7) :: u64) div unat (8 :: u64)"
    by (simp only: unat_div)
  also have "unat (8 :: u64) = 8" by simp
  finally have "unat (bloom_bytes p keys) = unat (word_of_nat (b + 7) :: u64) div 8" .
  then have "unat (bloom_bytes p keys) = (b + 7) div 8" unfolding ub .
  moreover have "64 \<le> b" "b \<le> m + 64" by (simp_all add: b_def)
  ultimately show "unat (bloom_bytes p keys) * 8 < 2 ^ 64" "8 \<le> unat (bloom_bytes p keys)"
    "unat (bloom_bytes p keys) \<le> length keys * n + 8"
    unfolding m_def [symmetric] using bs by linarith+
qed

lemma bloom_k:
  "1 \<le> unat (bf_k (BloomFilterPolicy_new n)) \<and> unat (bf_k (BloomFilterPolicy_new n)) \<le> 30"
  by (simp add: BloomFilterPolicy_new_def Let_def)

lemma k_byte:
  fixes k :: u64
  assumes "unat k \<le> 30"
  shows "scast (ucast k :: u8) = k"
proof -
  have "\<forall>j \<in> set [0..<31]. scast (ucast (word_of_nat j :: u64) :: u8) = (word_of_nat j :: u64)"
    by code_simp
  moreover have "unat k \<in> set [0..<31]" using assms by simp
  ultimately have "scast (ucast (word_of_nat (unat k) :: u64) :: u8) = (word_of_nat (unat k) :: u64)" by blast
  then show ?thesis by simp
qed

lemma bloom_create_eq:
  "bloom_CreateFilter p keys dst = dst @
     fold (add_key (unat (bf_k p)) (bloom_bytes p keys * 8)) keys (replicate (unat (bloom_bytes p keys)) 0) @
     [ucast (bf_k p)]"
  by (simp add: bloom_CreateFilter_def add_key_def [abs_def] Let_def)

lemma bloom_matches:
  assumes "bloom_small n keys" "key \<in> set keys" "p = BloomFilterPolicy_new n"
  shows "bloom_KeyMayMatch key (bloom_CreateFilter p keys [])"
proof -
  have bpk: "bits_per_key p = word_of_nat n" by (simp add: assms(3) BloomFilterPolicy_new_def Let_def)
  let ?bytes = "bloom_bytes p keys"
  let ?a = "fold (add_key (unat (bf_k p)) (?bytes * 8)) keys (replicate (unat ?bytes) 0)"
  let ?f = "?a @ [ucast (bf_k p)]"
  note size = bloom_bytes_size [OF assms(1) bpk]
  have len: "length ?a = unat ?bytes" using fold_add_key_kept by simp
  have bits: "unat (?bytes * 8) = unat ?bytes * 8"
    using size(1) by (simp add: unat_word_ariths)
  then have pos: "0 < ?bytes * 8" using size(2) by (simp add: word_less_nat_alt)
  have k: "scast (ucast (bf_k p) :: u8) = bf_k p" "\<not> bf_k p > 30"
    using bloom_k [of n] k_byte [of "bf_k p"] by (simp_all add: assms(3) word_less_nat_alt)
  have kept: "bits_kept ?a ?f" by (simp add: bits_kept_def nth_append)
  have "test_probes (unat (bf_k p)) (BloomHash key) (rotate_delta (BloomHash key)) (?bytes * 8) ?f"
    by (rule fold_add_key_finds [OF assms(2) pos _ kept]) (simp add: bits)
  moreover have "word_of_nat (unat ?bytes) * 8 = ?bytes * 8" by simp
  moreover have "\<not> length ?f < 2" using len size(2) by simp
  ultimately show ?thesis
    using k len by (simp add: bloom_create_eq bloom_KeyMayMatch_def Let_def nth_append)
qed

interpretation bloom: filter_policy "NewBloomFilterPolicy n" "bloom_small n" for n
proof
  fix keys
  show "\<exists>f. \<forall>dst. CreateFilter (NewBloomFilterPolicy n) keys dst = dst @ f"
    by (simp add: NewBloomFilterPolicy_def bloom_create_eq)
  show "bloom_small n keys \<Longrightarrow> key \<in> set keys \<Longrightarrow>
      KeyMayMatch (NewBloomFilterPolicy n) key (CreateFilter (NewBloomFilterPolicy n) keys [])" for key
    using bloom_matches by (simp add: NewBloomFilterPolicy_def)
qed

context filter_policy
begin

lemma internal_policy: "filter_policy (InternalFilterPolicy P) (\<lambda>keys. small (map ExtractUserKey keys))"
proof
  fix keys
  show "small (map ExtractUserKey keys) \<Longrightarrow> \<exists>f. \<forall>dst. CreateFilter (InternalFilterPolicy P) keys dst = dst @ f"
    using create_appends [of "map ExtractUserKey keys"] by (simp add: InternalFilterPolicy_def)
  show "small (map ExtractUserKey keys) \<Longrightarrow> key \<in> set keys \<Longrightarrow>
      KeyMayMatch (InternalFilterPolicy P) key (CreateFilter (InternalFilterPolicy P) keys [])" for key
    using create_matches [of "map ExtractUserKey keys"] by (simp add: InternalFilterPolicy_def)
qed

end

section \<open>Filter blocks: the builder\<close>

definition one_filter :: "FilterPolicy \<Rightarrow> slice list \<Rightarrow> u8 list" where
  "one_filter P keys = (if keys = [] then [] else CreateFilter P keys [])"

definition filters :: "FilterPolicy \<Rightarrow> slice list list \<Rightarrow> u8 list" where
  "filters P G = concat (map (one_filter P) G)"

lemma filters_simps [simp]:
  "filters P [] = []" "filters P (ks # G) = one_filter P ks @ filters P G" "filters P (G @ H) = filters P G @ filters P H"
  by (simp_all add: filters_def)

definition filter_offsets :: "FilterPolicy \<Rightarrow> slice list list \<Rightarrow> u32 list" where
  "filter_offsets P G = map (\<lambda>i. word_of_nat (length (filters P (take i G)))) [0..<length G]"

lemma filter_offsets_snoc:
  "filter_offsets P (G @ [ks]) = filter_offsets P G @ [word_of_nat (length (filters P G))]"
  by (simp add: filter_offsets_def)

text \<open>The builder has made filters for the groups \<open>G\<close> and holds the keys \<open>pend\<close> for the next.\<close>

definition filter_built :: "FilterPolicy \<Rightarrow> FilterBlockBuilder \<Rightarrow> slice list list \<Rightarrow> slice list \<Rightarrow> bool" where
  "filter_built P b G pend \<longleftrightarrow> fb_policy b = P \<and> fb_result b = filters P G \<and>
     fb_filter_offsets b = filter_offsets P G \<and> fb_keys b = concat pend \<and>
     fb_start b = map (\<lambda>i. length (concat (take i pend))) [0..<length pend]"

lemma length_filter_offsets [simp]: "length (filter_offsets P G) = length G"
  by (simp add: filter_offsets_def)

lemma flattened_key:
  assumes "i < length pend"
  shows "take (length (concat (take (Suc i) pend)) - length (concat (take i pend)))
    (drop (length (concat (take i pend))) (concat pend)) = pend ! i"
proof -
  have "concat pend = concat (take i pend) @ pend ! i @ concat (drop (Suc i) pend)"
    using id_take_nth_drop [OF assms] by (metis concat.simps(2) concat_append)
  then show ?thesis using assms by (simp add: take_Suc_conv_app_nth)
qed

lemma AddKey_built: "filter_built P b G pend \<Longrightarrow> filter_built P (AddKey key b) G (pend @ [key])"
  by (simp add: filter_built_def AddKey_def)

context filter_policy
begin

lemma GenerateFilter_built:
  assumes "filter_built P b G pend" "small pend"
  shows "filter_built P (GenerateFilter b) (G @ [pend]) []"
proof (cases "pend = []")
  case True
  then show ?thesis
    using assms(1) by (simp add: filter_built_def GenerateFilter_def filter_offsets_snoc one_filter_def)
next
  case False
  let ?start = "fb_start b @ [length (fb_keys b)]"
  have nth: "?start ! i = length (concat (take i pend))" if "i \<le> length pend" for i
    using assms(1) that by (cases "i = length pend") (simp_all add: filter_built_def nth_append)
  have len: "length (fb_start b) = length pend" using assms(1) by (simp add: filter_built_def)
  have key: "take (?start ! (i + 1) - ?start ! i) (drop (?start ! i) (fb_keys b)) = pend ! i" if "i < length pend" for i
    using flattened_key [OF that] nth [of i] nth [of "i + 1"] that assms(1) by (simp add: filter_built_def)
  have "map (\<lambda>i. take (?start ! (i + 1) - ?start ! i) (drop (?start ! i) (fb_keys b))) [0..<length (fb_start b)] =
      map ((!) pend) [0..<length pend]"
    unfolding len by (rule map_cong [OF refl]) (rule key, simp)
  then have "map (\<lambda>i. take (?start ! (i + 1) - ?start ! i) (drop (?start ! i) (fb_keys b))) [0..<length (fb_start b)] = pend"
    unfolding map_nth .
  then show ?thesis
    using assms False create_eq [OF assms(2), of "filters P G"]
    by (simp add: filter_built_def GenerateFilter_def len filter_offsets_snoc one_filter_def Let_def)
qed

end

text \<open>The groups after \<open>StartBlock\<close>: the pending keys, then empty groups up to the index.\<close>

definition grown :: "slice list list \<Rightarrow> slice list \<Rightarrow> slice list list \<Rightarrow> slice list \<Rightarrow> bool" where
  "grown G pend G' pend' \<longleftrightarrow> (G' = G \<and> pend' = pend) \<or>
     (pend' = [] \<and> (\<exists>n. G' = G @ [pend] @ replicate n []))"

lemma grown_refl [simp]: "grown G pend G pend"
  by (simp add: grown_def)

lemma grown_snoc: "grown G pend G' pend' \<Longrightarrow> grown G pend (G' @ [pend']) []"
  by (auto simp: grown_def replicate_append_same simp flip: replicate_Suc intro: exI [of _ 0])

context filter_policy
begin

lemma StartBlock_built:
  assumes b: "filter_built P b G pend" "small pend" "small []"
    and idx: "length G \<le> unat (block_offset div kFilterBase)"
  shows "\<exists>b' G' pend'. StartBlock block_offset b = Some b' \<and> filter_built P b' G' pend' \<and>
    length G' = unat (block_offset div kFilterBase) \<and> grown G pend G' pend'"
proof -
  let ?x = "block_offset div kFilterBase"
  let ?I = "\<lambda>s. \<exists>G' pend'. filter_built P s G' pend' \<and> small pend' \<and> length G' \<le> unat ?x \<and> grown G pend G' pend'"
  let ?Q = "\<lambda>s. \<exists>G' pend'. filter_built P s G' pend' \<and> length G' = unat ?x \<and> grown G pend G' pend'"
  have u: "unat (word_of_nat (length G') :: u64) = length G'" if "length G' \<le> unat ?x" for G' :: "slice list list"
    using that unat_u64_less [of ?x] by (intro unat_of_nat_64) linarith
  have "\<exists>b'. c_loop (start_block_step ?x) b = Some b' \<and> ?Q b'"
  proof (rule c_loop_rule [where m = "\<lambda>b. unat ?x - length (fb_filter_offsets b)" and I = ?I])
    show "?I b" using b idx grown_refl by blast
  next
    fix s
    assume "?I s"
    then obtain G' pend' where s: "filter_built P s G' pend'" "small pend'" "length G' \<le> unat ?x"
      "grown G pend G' pend'" by blast
    have offs: "length (fb_filter_offsets s) = length G'" using s(1) by (simp add: filter_built_def)
    show "\<exists>x. start_block_step ?x s = Some x \<and> (case x of Inl b' \<Rightarrow> ?Q b'
      | Inr s' \<Rightarrow> ?I s' \<and> unat ?x - length (fb_filter_offsets s') < unat ?x - length (fb_filter_offsets s))"
    proof (cases "length G' < unat ?x")
      case True
      then have step: "start_block_step ?x s = Some (Inr (GenerateFilter s))"
        using u [OF s(3)] by (simp add: start_block_step_def offs word_less_nat_alt)
      have g: "filter_built P (GenerateFilter s) (G' @ [pend']) []" by (rule GenerateFilter_built [OF s(1,2)])
      moreover have "length (G' @ [pend']) \<le> unat ?x" using True by simp
      ultimately have "?I (GenerateFilter s)" using b(3) grown_snoc [OF s(4)] by blast
      moreover have "length (fb_filter_offsets (GenerateFilter s)) = length G' + 1"
        using g by (simp add: filter_built_def)
      ultimately show ?thesis using step True by (simp add: offs)
    next
      case False
      then have eq: "length G' = unat ?x" using s(3) by simp
      then have "start_block_step ?x s = Some (Inl s)"
        using u [OF s(3)] by (simp add: start_block_step_def offs word_less_nat_alt)
      moreover have "?Q s" using s(1,4) eq by blast
      ultimately show ?thesis by simp
    qed
  qed
  moreover have "word_of_nat (length (fb_filter_offsets b)) \<le> ?x"
    using b(1) u [OF idx] idx by (simp add: filter_built_def word_le_nat_alt)
  ultimately show ?thesis by (simp add: StartBlock_def Let_def)
qed

end

text \<open>A client: blocks with their offsets and keys, as the builder of tables passes them.\<close>

fun add_block :: "FilterBlockBuilder \<Rightarrow> u64 \<times> slice list \<Rightarrow> FilterBlockBuilder option" where
  "add_block b (block_offset, keys) = map_option (fold AddKey keys) (StartBlock block_offset b)"

fun add_blocks :: "FilterBlockBuilder \<Rightarrow> (u64 \<times> slice list) list \<Rightarrow> FilterBlockBuilder option" where
  "add_blocks b [] = Some b"
| "add_blocks b (x # xs) = (case add_block b x of None \<Rightarrow> None | Some b \<Rightarrow> add_blocks b xs)"

definition build_filter_block :: "FilterPolicy \<Rightarrow> (u64 \<times> slice list) list \<Rightarrow> slice option" where
  "build_filter_block P blocks =
     map_option (\<lambda>b. fst (FilterBlock_Finish b)) (add_blocks (FilterBlockBuilder_new P) blocks)"

definition key_count :: "(u64 \<times> slice list) list \<Rightarrow> nat" where
  "key_count blocks = sum_list (map (\<lambda>x. length (snd x)) blocks)"

text \<open>Every key of a block is in the group of its offset, or still pending for it.\<close>

definition covered :: "(u64 \<times> slice list) list \<Rightarrow> slice list list \<Rightarrow> slice list \<Rightarrow> bool" where
  "covered blocks G pend \<longleftrightarrow> (\<forall>(blk, keys) \<in> set blocks. \<forall>key \<in> set keys.
     let i = unat (blk div kFilterBase) in
       i < length G \<and> key \<in> set (G ! i) \<or> i = length G \<and> key \<in> set pend)"

lemma fold_AddKey_built: "filter_built P b G pend \<Longrightarrow> filter_built P (fold AddKey keys b) G (pend @ keys)"
proof (induction keys arbitrary: b pend)
  case (Cons key keys)
  from Cons.IH [OF AddKey_built [OF Cons.prems]] show ?case by simp
qed simp

definition filter_inv :: "FilterPolicy \<Rightarrow> (u64 \<times> slice list) list \<Rightarrow> FilterBlockBuilder \<Rightarrow> slice list list \<Rightarrow> slice list \<Rightarrow> bool" where
  "filter_inv P ds b G pend \<longleftrightarrow> filter_built P b G pend \<and> covered ds G pend \<and>
     (\<forall>g \<in> set (pend # G). length g \<le> key_count ds) \<and>
     length G \<le> (if ds = [] then 0 else unat (fst (last ds) div kFilterBase))"

context filter_policy
begin

lemma add_block_inv:
  assumes inv: "filter_inv P ds b G pend" and small: "\<And>ks. length ks \<le> key_count ds \<Longrightarrow> small ks"
    and later: "\<And>x. x \<in> set ds \<Longrightarrow> fst x \<le> blk"
  shows "\<exists>b' G' pend'. add_block b (blk, keys) = Some b' \<and> filter_inv P (ds @ [(blk, keys)]) b' G' pend' \<and>
    length G' = unat (blk div kFilterBase)"
proof -
  let ?i = "unat (blk div kFilterBase)"
  have b: "filter_built P b G pend" "covered ds G pend" "length pend \<le> key_count ds"
    "\<And>g. g \<in> set G \<Longrightarrow> length g \<le> key_count ds"
    using inv by (auto simp: filter_inv_def)
  have sm: "small []" by (rule small) simp
  have "length G \<le> ?i"
  proof (cases "ds = []")
    case False
    then have "unat (fst (last ds)) \<le> unat blk" using later [of "last ds"] by (simp add: word_le_nat_alt)
    then have "unat (fst (last ds) div kFilterBase) \<le> ?i" by (simp add: unat_div div_le_mono)
    then show ?thesis using inv False by (simp add: filter_inv_def)
  qed (use inv in \<open>simp add: filter_inv_def\<close>)
  then obtain b' G' pend' where s: "StartBlock blk b = Some b'" "filter_built P b' G' pend'" "length G' = ?i"
    "grown G pend G' pend'"
    using StartBlock_built [OF b(1) small [OF b(3)] sm] by blast
  have count: "key_count (ds @ [(blk, keys)]) = key_count ds + length keys" by (simp add: key_count_def)
  have bound: "\<forall>g \<in> set ((pend' @ keys) # G'). length g \<le> key_count ds + length keys"
    using s(4) b(3) b(4) [THEN trans_le_add1] by (auto simp: grown_def)
  have "covered ds G' (pend' @ keys)"
    using s(4) b(2) by (fastforce simp: grown_def covered_def Let_def nth_append)
  then have "covered (ds @ [(blk, keys)]) G' (pend' @ keys)"
    using s(3) by (auto simp: covered_def Let_def)
  with fold_AddKey_built [OF s(2), of keys] bound s(1,3) show ?thesis
    by (intro exI [of _ "fold AddKey keys b'"] exI [of _ G'] exI [of _ "pend' @ keys"])
      (simp add: filter_inv_def count)
qed

lemma add_blocks_inv:
  "filter_inv P ds b G pend \<Longrightarrow> (\<And>ks. length ks \<le> key_count (ds @ blocks) \<Longrightarrow> small ks) \<Longrightarrow>
   sorted_wrt (\<lambda>x y. fst x \<le> fst y) (ds @ blocks) \<Longrightarrow>
   \<exists>b' G' pend'. add_blocks b blocks = Some b' \<and> filter_inv P (ds @ blocks) b' G' pend'"
proof (induction blocks arbitrary: ds b G pend)
  case (Cons x blocks)
  obtain blk keys where x: "x = (blk, keys)" by (cases x)
  have "\<exists>b' G' pend'. add_block b (blk, keys) = Some b' \<and> filter_inv P (ds @ [(blk, keys)]) b' G' pend' \<and>
    length G' = unat (blk div kFilterBase)"
  proof (rule add_block_inv [OF Cons.prems(1)])
    show "length ks \<le> key_count ds \<Longrightarrow> small ks" for ks
      using Cons.prems(2) [of ks] by (simp add: key_count_def)
    show "y \<in> set ds \<Longrightarrow> fst y \<le> blk" for y
      using Cons.prems(3) by (auto simp: sorted_wrt_append x)
  qed
  then obtain b' G' pend' where b': "add_block b x = Some b'" "filter_inv P (ds @ [x]) b' G' pend'"
    unfolding x by blast
  from Cons.IH [OF b'(2)] Cons.prems(2,3) b'(1) show ?case by simp
qed auto

end

section \<open>Filter blocks: the reader\<close>

definition filter_contents :: "FilterPolicy \<Rightarrow> slice list list \<Rightarrow> slice" where
  "filter_contents P G = filters P G @ fixed32s (filter_offsets P G) @
     EncodeFixed32 (word_of_nat (length (filters P G))) @ [word_of_nat kFilterBaseLg]"

lemma filter_contents_finish:
  assumes "filter_built P b G pend" "pend \<noteq> [] \<Longrightarrow> filter_built P (GenerateFilter b) (G @ [pend]) []"
  shows "fst (FilterBlock_Finish b) = filter_contents P (if pend = [] then G else G @ [pend])"
proof -
  have start: "fb_start b = [] \<longleftrightarrow> pend = []" using assms(1) by (auto simp: filter_built_def)
  define c where "c = (if fb_start b \<noteq> [] then GenerateFilter b else b)"
  have "\<exists>q. filter_built P c (if pend = [] then G else G @ [pend]) q"
    using assms start by (auto simp: c_def)
  then show ?thesis
    unfolding FilterBlock_Finish_def c_def [symmetric]
    by (auto simp: Let_def filter_contents_def foldl_PutFixed32 PutFixed32_def filter_built_def)
qed

lemma take_filters: "length (filters P (take i G)) \<le> length (filters P G)"
  by (metis append_take_drop_id filters_simps(3) length_append le_add1)

lemma filter_slice:
  assumes "i < length G"
  shows "take (length (filters P (take (Suc i) G)) - length (filters P (take i G)))
    (drop (length (filters P (take i G))) (filters P G @ rest)) = one_filter P (G ! i)"
proof -
  have "filters P G = filters P (take i G) @ one_filter P (G ! i) @ filters P (drop (Suc i) G)"
    using id_take_nth_drop [OF assms] by (metis filters_simps(2,3))
  then show ?thesis using assms by (simp add: take_Suc_conv_app_nth)
qed

lemma reader_group:
  assumes small: "length (filter_contents P G) < 2 ^ 32" and i: "unat (blk div kFilterBase) < length G"
  shows "FilterBlock_KeyMayMatch (FilterBlockReader_new P (filter_contents P G)) blk key =
    Some (KeyMayMatch P key (one_filter P (G ! unat (blk div kFilterBase))))"
proof -
  let ?c = "filter_contents P G" and ?n = "length (filters P G)" and ?i = "unat (blk div kFilterBase)"
  let ?off = "\<lambda>j. length (filters P (take j G))"
  have len: "length ?c = ?n + 4 * length G + 5" by (simp add: filter_contents_def)
  have n: "?n < 4294967296" using small len by simp
  have last: "?c ! (length ?c - 1) = word_of_nat kFilterBaseLg"
    unfolding len by (simp add: filter_contents_def nth_append)
  have lg: "scast (word_of_nat kFilterBaseLg :: u8) = (11 :: u64)" by (simp add: kFilterBaseLg_def)
  have word: "DecodeFixed32 (drop (length ?c - 5) ?c) = word_of_nat ?n"
    unfolding len by (simp add: filter_contents_def)
  have un: "unat (word_of_nat ?n :: u32) = ?n" using n by (intro unat_of_nat_32) simp
  have reader: "FilterBlockReader_new P ?c =
      \<lparr>fr_policy = P, fr_data = ?c, fr_offset = ?n, fr_num = length G, fr_base_lg = 11\<rparr>"
    unfolding FilterBlockReader_new_def Let_def last lg word un by (simp add: len)
  have shift: "unat (drop_bit (unat (11 :: u64)) blk) = ?i"
    by (simp add: unat_drop_bit unat_div kFilterBase_def kFilterBaseLg_def)
  let ?offs = "filter_offsets P G @ [word_of_nat ?n]"
  have arr: "drop ?n ?c = fixed32s ?offs @ [word_of_nat kFilterBaseLg]"
    by (simp add: filter_contents_def)
  have offs: "?offs ! j = word_of_nat (?off j)" if "j \<le> length G" for j
    using that by (cases "j = length G") (simp_all add: filter_offsets_def nth_append)
  have entry: "DecodeFixed32 (drop (?n + 4 * j) ?c) = word_of_nat (?off j)" if "j \<le> length G" for j
  proof -
    have "drop (?n + 4 * j) ?c = drop (4 * j) (fixed32s ?offs) @ [word_of_nat kFilterBaseLg]"
    proof -
      have "drop (?n + 4 * j) ?c = drop (4 * j) (drop ?n ?c)" by (simp only: drop_drop add.commute)
      then show ?thesis unfolding arr using that by simp
    qed
    moreover have "drop (4 * j) (fixed32s ?offs) = EncodeFixed32 (?offs ! j) @ fixed32s (drop (Suc j) ?offs)"
      by (rule drop_fixed32s) (use that in simp)
    ultimately show ?thesis unfolding offs [OF that] by (simp only: append_assoc Fixed32_roundtrip)
  qed
  have start: "DecodeFixed32 (drop (?n + ?i * 4) ?c) = word_of_nat (?off ?i)"
    using entry [of ?i] i by (simp add: mult.commute)
  have limit: "DecodeFixed32 (drop (?n + ?i * 4 + 4) ?c) = word_of_nat (?off (Suc ?i))"
    using entry [of "Suc ?i"] i by (simp add: mult.commute add_ac)
  have le: "?off ?i \<le> ?off (Suc ?i)" "?off (Suc ?i) \<le> ?n"
    using take_filters [of P "?i" "take (Suc ?i) G"] take_filters [of P "Suc ?i" G] by simp_all
  have u: "unat (word_of_nat (?off ?i) :: u32) = ?off ?i" "unat (word_of_nat (?off (Suc ?i)) :: u32) = ?off (Suc ?i)"
    using le n by (auto intro!: unat_of_nat_32)
  have "(word_of_nat (?off ?i) :: u32) \<le> word_of_nat (?off (Suc ?i))" using le(1) u by (simp add: word_le_nat_alt)
  moreover from this have diff: "unat (word_of_nat (?off (Suc ?i)) - word_of_nat (?off ?i) :: u32) = ?off (Suc ?i) - ?off ?i"
    using u by (simp only: unat_sub)
  ultimately have range: "(word_of_nat (?off ?i) :: u32) \<le> word_of_nat (?off (Suc ?i)) \<and>
      unat (word_of_nat (?off (Suc ?i)) :: u32) \<le> ?n"
    using le(2) u(2) by simp
  have lg64: "\<not> (64 :: u64) \<le> 11" by simp
  have "take (?off (Suc ?i) - ?off ?i) (drop (?off ?i) ?c) = one_filter P (G ! ?i)"
    unfolding filter_contents_def by (rule filter_slice [OF i])
  then show ?thesis
    unfolding reader FilterBlock_KeyMayMatch_def FilterBlockReader.select_convs if_not_P [OF lg64] shift Let_def
      if_P [OF i] start limit if_P [OF range] diff u(1) by simp
qed

text \<open>The finished block of a builder that has seen the blocks: the groups with the pending keys as the last.\<close>

definition all_groups :: "slice list list \<Rightarrow> slice list \<Rightarrow> slice list list" where
  "all_groups G pend = (if pend = [] then G else G @ [pend])"

lemma filter_inv_finish:
  assumes "filter_policy P small" "filter_inv P blocks b G pend" "\<And>ks. length ks \<le> key_count blocks \<Longrightarrow> small ks"
  shows "fst (FilterBlock_Finish b) = filter_contents P (all_groups G pend)"
    and "\<And>off keys key. length (filter_contents P (all_groups G pend)) < 2 ^ 32 \<Longrightarrow> (off, keys) \<in> set blocks \<Longrightarrow> key \<in> set keys \<Longrightarrow>
      FilterBlock_KeyMayMatch (FilterBlockReader_new P (filter_contents P (all_groups G pend))) off key = Some True"
proof -
  let ?H = "all_groups G pend"
  have built: "filter_built P b G pend" and small: "\<forall>g \<in> set ?H. small g"
    using assms(2,3) by (auto simp: filter_inv_def all_groups_def)
  have "small pend" using assms(2,3) by (simp add: filter_inv_def)
  then show "fst (FilterBlock_Finish b) = filter_contents P ?H"
    unfolding all_groups_def by (intro filter_contents_finish [OF built] filter_policy.GenerateFilter_built [OF assms(1) built])
  fix off keys key
  assume len: "length (filter_contents P ?H) < 2 ^ 32" and mem: "(off, keys) \<in> set blocks" "key \<in> set keys"
  let ?i = "unat (off div kFilterBase)"
  have i: "?i < length ?H" "key \<in> set (?H ! ?i)"
    using assms(2) mem by (fastforce simp: filter_inv_def covered_def Let_def all_groups_def nth_append split: if_splits)+
  moreover have "small (?H ! ?i)" using small i(1) by simp
  ultimately have "KeyMayMatch P key (one_filter P (?H ! ?i))"
    using filter_policy.create_matches [OF assms(1)] by (auto simp: one_filter_def)
  then show "FilterBlock_KeyMayMatch (FilterBlockReader_new P (filter_contents P ?H)) off key = Some True"
    using reader_group [OF len i(1)] by simp
qed

section \<open>Properties\<close>

text \<open>
  A Bloom filter has no false negatives: for every number of bits per key, every set of keys
  that fits in memory and every destination string, the filter is appended to the destination and
  \<open>KeyMayMatch\<close> is true for each of the keys; the same holds for the policy on internal keys.
\<close>

theorem bloom_no_false_negatives:
  fixes n :: nat
  assumes "length keys * n + 71 < 2 ^ 64" "key \<in> set keys"
  shows "\<exists>filter. CreateFilter (NewBloomFilterPolicy n) keys dst = dst @ filter \<and>
    KeyMayMatch (NewBloomFilterPolicy n) key filter \<and>
    (\<forall>ikeys ik. map ExtractUserKey ikeys = keys \<longrightarrow> ik \<in> set ikeys \<longrightarrow>
       KeyMayMatch (InternalFilterPolicy (NewBloomFilterPolicy n)) ik
         (CreateFilter (InternalFilterPolicy (NewBloomFilterPolicy n)) ikeys []))"
proof -
  have small: "bloom_small n keys" using assms(1) by (simp add: bloom_small_def)
  show ?thesis
    using bloom.create_eq [OF small, of dst] bloom.create_matches [OF small assms(2)] small
      filter_policy.create_matches [OF bloom.internal_policy [of n]]
    by auto
qed

lemma bloom_no_false_negatives_witness:
  "\<exists>filter. CreateFilter (NewBloomFilterPolicy 10) [[1, 2], [3]] [9] = [9] @ filter \<and>
    KeyMayMatch (NewBloomFilterPolicy 10) [3] filter"
  using bloom_no_false_negatives [of "[[1, 2], [3]]" 10 "[3]" "[9]"] by auto

text \<open>
  C31: A filter block has no false negatives: blocks are announced at ascending offsets, each with its
  keys; then no assertion of the builder fails, and as long as the result has less than 4 GB the
  reader of it answers true for every key at the offset of its block, with every policy that keeps the
  contract of filter policies, however the blocks fall into the 2 KB ranges that share a filter.
\<close>

theorem filter_block_no_false_negatives:
  assumes "filter_policy P small" "\<And>ks. length ks \<le> key_count blocks \<Longrightarrow> small ks"
    and "sorted_wrt (\<lambda>x y. fst x \<le> fst y) blocks"
  shows "\<exists>contents. build_filter_block P blocks = Some contents \<and>
    (length contents < 2 ^ 32 \<longrightarrow> (\<forall>(block_offset, keys) \<in> set blocks. \<forall>key \<in> set keys.
       FilterBlock_KeyMayMatch (FilterBlockReader_new P contents) block_offset key = Some True))"
proof -
  have "filter_inv P [] (FilterBlockBuilder_new P) [] []"
    by (simp add: filter_inv_def filter_built_def FilterBlockBuilder_new_def covered_def filter_offsets_def)
  then have "\<exists>b G pend. add_blocks (FilterBlockBuilder_new P) blocks = Some b \<and> filter_inv P ([] @ blocks) b G pend"
    by (rule filter_policy.add_blocks_inv [OF assms(1)]) (use assms(2,3) in simp_all)
  then obtain b G pend where
    b: "add_blocks (FilterBlockBuilder_new P) blocks = Some b" and inv: "filter_inv P blocks b G pend"
    by auto
  note fin = filter_inv_finish [OF assms(1) inv assms(2)]
  show ?thesis using b fin(1) fin(2) by (auto simp: build_filter_block_def)
qed

lemma length_bloom:
  "length (CreateFilter (NewBloomFilterPolicy n) keys dst) =
     length dst + unat (bloom_bytes (BloomFilterPolicy_new n) keys) + 1"
  using fold_add_key_kept by (simp add: NewBloomFilterPolicy_def bloom_create_eq)

lemma example_filter_block:
  assumes "build_filter_block (NewBloomFilterPolicy 10) [(0, [[1], [2]]), (5000, [[3]])] = Some x"
  shows "length x = 35"
proof -
  have "(5000 :: u64) div kFilterBase = 2" by (simp add: kFilterBase_def kFilterBaseLg_def)
  then show ?thesis
    using assms
    by (auto simp: build_filter_block_def FilterBlockBuilder_new_def StartBlock_def start_block_step_def c_loop.simps [of "start_block_step _"]
        AddKey_def GenerateFilter_def FilterBlock_Finish_def Let_def foldl_PutFixed32 PutFixed32_def length_bloom bloom_bytes_def BloomFilterPolicy_new_def)
qed

lemma filter_block_no_false_negatives_witness:
  "\<exists>contents. build_filter_block (NewBloomFilterPolicy 10) [(0, [[1], [2]]), (5000, [[3]])] = Some contents \<and>
    FilterBlock_KeyMayMatch (FilterBlockReader_new (NewBloomFilterPolicy 10) contents) 5000 [3] = Some True"
  using filter_block_no_false_negatives [OF bloom.filter_policy_axioms, of "[(0, [[1], [2]]), (5000, [[3]])]" 10]
    example_filter_block
  by (auto simp: key_count_def bloom_small_def)

end
