(* ===== verification/LDB_Skiplist.thy ===== *)
theory LDB_Skiplist
  imports PB_Prelude
begin

text \<open>
  LevelDB: the pseudo random numbers of \<open>util/random.h\<close> and the skip list of \<open>db/skiplist.h\<close>.  Nodes are numbered
  in the order of their allocation, the head is node 0, a null pointer is \<open>None\<close>.  The comparison has
  no result on keys it cannot read; a link that does not exist, an uninitialised element of \<open>prev\<close> and a
  failing assertion have no result either.  Only one thread inserts at a time, as the code requires.
\<close>

section \<open>Random numbers\<close>

definition random_M :: u32 where "random_M = 2147483647"
definition random_A :: u64 where "random_A = 16807"

definition Random_new :: "u32 \<Rightarrow> u32" where
  "Random_new s =
     (let seed = s AND 0x7fffffff in if seed = 0 \<or> seed = random_M then 1 else seed)"

definition Random_Next :: "u32 \<Rightarrow> u32" where
  "Random_Next seed =
     (let product = ucast seed * random_A;
          seed = ucast (drop_bit 31 product + (product AND ucast random_M)) :: u32
      in if seed > random_M then seed - random_M else seed)"

definition Random_Uniform :: "u32 \<Rightarrow> u32 \<Rightarrow> u32 \<times> u32" where
  "Random_Uniform seed n = (let r = Random_Next seed in (r mod n, r))"

definition Random_OneIn :: "u32 \<Rightarrow> u32 \<Rightarrow> bool \<times> u32" where
  "Random_OneIn seed n = (let r = Random_Next seed in (r mod n = 0, r))"

definition Random_Skewed :: "u32 \<Rightarrow> u32 \<Rightarrow> u32 \<times> u32" where
  "Random_Skewed seed max_log =
     (let (u, seed) = Random_Uniform seed (max_log + 1) in Random_Uniform seed (push_bit (unat u) 1))"

section \<open>Nodes\<close>

definition kMaxHeight :: nat where "kMaxHeight = 12"

record 'k Node =
  node_key :: 'k
  node_next :: "nat option list"

record 'k SkipList =
  sl_nodes :: "'k Node list"
  sl_max_height :: nat
  sl_rnd :: u32

definition NewNode :: "'k \<Rightarrow> nat \<Rightarrow> 'k Node" where
  "NewNode key height = \<lparr>node_key = key, node_next = replicate height None\<rparr>"

definition SkipList_new :: "'k \<Rightarrow> 'k SkipList" where
  "SkipList_new any_key =
     \<lparr>sl_nodes = [NewNode any_key kMaxHeight], sl_max_height = 1, sl_rnd = Random_new 0xdeadbeef\<rparr>"

definition node_Next :: "'k SkipList \<Rightarrow> nat \<Rightarrow> nat \<Rightarrow> nat option option" where
  "node_Next l x n =
     (if x < length (sl_nodes l) \<and> n < length (node_next (sl_nodes l ! x))
      then Some (node_next (sl_nodes l ! x) ! n) else None)"

definition node_SetNext :: "nat \<Rightarrow> nat \<Rightarrow> nat option \<Rightarrow> 'k SkipList \<Rightarrow> 'k SkipList option" where
  "node_SetNext x n y l =
     (if x < length (sl_nodes l) \<and> n < length (node_next (sl_nodes l ! x))
      then Some (l\<lparr>sl_nodes := (sl_nodes l)[x := (sl_nodes l ! x)
             \<lparr>node_next := (node_next (sl_nodes l ! x))[n := y]\<rparr>]\<rparr>)
      else None)"

definition key_of :: "'k SkipList \<Rightarrow> nat \<Rightarrow> 'k" where
  "key_of l x = node_key (sl_nodes l ! x)"

section \<open>Searching\<close>

definition KeyIsAfterNode :: "('k \<Rightarrow> 'k \<Rightarrow> int option) \<Rightarrow> 'k SkipList \<Rightarrow> 'k \<Rightarrow> nat option \<Rightarrow> bool option" where
  "KeyIsAfterNode cmp l key n =
     (case n of None \<Rightarrow> Some False | Some n \<Rightarrow> map_option (\<lambda>r. r < 0) (cmp (key_of l n) key))"

type_synonym search_state = "nat \<times> nat \<times> nat option list"

definition find_ge_step ::
  "('k \<Rightarrow> 'k \<Rightarrow> int option) \<Rightarrow> 'k SkipList \<Rightarrow> 'k \<Rightarrow> search_state \<Rightarrow> (nat option \<times> nat option list + search_state) option" where
  "find_ge_step cmp l key = (\<lambda>(x, level, prev).
     case node_Next l x level of None \<Rightarrow> None
     | Some nxt \<Rightarrow>
         (case KeyIsAfterNode cmp l key nxt of None \<Rightarrow> None
          | Some after \<Rightarrow>
              if after then (case nxt of None \<Rightarrow> None | Some y \<Rightarrow> Some (Inr (y, level, prev)))
              else
                let prev = prev[level := Some x] in
                if level = 0 then Some (Inl (nxt, prev)) else Some (Inr (x, level - 1, prev))))"

definition FindGreaterOrEqual ::
  "('k \<Rightarrow> 'k \<Rightarrow> int option) \<Rightarrow> 'k SkipList \<Rightarrow> 'k \<Rightarrow> (nat option \<times> nat option list) option" where
  "FindGreaterOrEqual cmp l key =
     c_loop (find_ge_step cmp l key) (0, sl_max_height l - 1, replicate kMaxHeight None)"

definition find_lt_step ::
  "('k \<Rightarrow> 'k \<Rightarrow> int option) \<Rightarrow> 'k SkipList \<Rightarrow> 'k \<Rightarrow> nat \<times> nat \<Rightarrow> (nat + nat \<times> nat) option" where
  "find_lt_step cmp l key = (\<lambda>(x, level).
     case (if x = 0 then Some True else map_option (\<lambda>r. r < 0) (cmp (key_of l x) key)) of None \<Rightarrow> None
     | Some ok \<Rightarrow>
         if \<not> ok then None
         else
           case node_Next l x level of None \<Rightarrow> None
           | Some nxt \<Rightarrow>
               (case (case nxt of None \<Rightarrow> Some True | Some y \<Rightarrow> map_option (\<lambda>r. r \<ge> 0) (cmp (key_of l y) key)) of None \<Rightarrow> None
                | Some stop \<Rightarrow>
                    if stop then if level = 0 then Some (Inl x) else Some (Inr (x, level - 1))
                    else (case nxt of None \<Rightarrow> None | Some y \<Rightarrow> Some (Inr (y, level)))))"

definition FindLessThan :: "('k \<Rightarrow> 'k \<Rightarrow> int option) \<Rightarrow> 'k SkipList \<Rightarrow> 'k \<Rightarrow> nat option" where
  "FindLessThan cmp l key = c_loop (find_lt_step cmp l key) (0, sl_max_height l - 1)"

definition find_last_step :: "'k SkipList \<Rightarrow> nat \<times> nat \<Rightarrow> (nat + nat \<times> nat) option" where
  "find_last_step l = (\<lambda>(x, level).
     case node_Next l x level of None \<Rightarrow> None
     | Some None \<Rightarrow> if level = 0 then Some (Inl x) else Some (Inr (x, level - 1))
     | Some (Some y) \<Rightarrow> Some (Inr (y, level)))"

definition FindLast :: "'k SkipList \<Rightarrow> nat option" where
  "FindLast l = c_loop (find_last_step l) (0, sl_max_height l - 1)"

section \<open>Inserting\<close>

definition kBranching :: u32 where "kBranching = 4"

function random_height_loop :: "nat \<Rightarrow> u32 \<Rightarrow> nat \<times> u32" where
  "random_height_loop height rnd =
     (if height < kMaxHeight then
        let r = Random_Next rnd in
        if r mod kBranching = 0 then random_height_loop (height + 1) r else (height, r)
      else (height, rnd))"
  by pat_completeness auto
termination by (relation "measure (\<lambda>(height, rnd). kMaxHeight - height)") auto

declare random_height_loop.simps [simp del]

definition RandomHeight :: "u32 \<Rightarrow> nat \<times> u32" where
  "RandomHeight rnd = random_height_loop 1 rnd"

definition link_level :: "nat \<Rightarrow> nat option list \<Rightarrow> nat \<Rightarrow> 'k SkipList \<Rightarrow> 'k SkipList option" where
  "link_level x prev i l =
     (case prev ! i of None \<Rightarrow> None
      | Some p \<Rightarrow>
          (case node_Next l p i of None \<Rightarrow> None
           | Some y \<Rightarrow>
               (case node_SetNext x i y l of None \<Rightarrow> None | Some l \<Rightarrow> node_SetNext p i (Some x) l)))"

fun link_levels :: "nat \<Rightarrow> nat option list \<Rightarrow> nat list \<Rightarrow> 'k SkipList \<Rightarrow> 'k SkipList option" where
  "link_levels x prev [] l = Some l"
| "link_levels x prev (i # levels) l =
     (case link_level x prev i l of None \<Rightarrow> None | Some l \<Rightarrow> link_levels x prev levels l)"

definition skip_Insert :: "('k \<Rightarrow> 'k \<Rightarrow> int option) \<Rightarrow> 'k \<Rightarrow> 'k SkipList \<Rightarrow> 'k SkipList option" where
  "skip_Insert cmp key l =
     (case FindGreaterOrEqual cmp l key of None \<Rightarrow> None
      | Some (x, prev) \<Rightarrow>
          (case (case x of None \<Rightarrow> Some False | Some x \<Rightarrow> map_option (\<lambda>r. r = 0) (cmp key (key_of l x))) of None \<Rightarrow> None
           | Some equal \<Rightarrow>
               if equal then None
               else
                 let (height, rnd) = RandomHeight (sl_rnd l);
                     prev = (if height > sl_max_height l
                             then fold (\<lambda>i prev. prev[i := Some 0]) [sl_max_height l..<height] prev else prev);
                     l = l\<lparr>sl_rnd := rnd, sl_max_height := max height (sl_max_height l)\<rparr>;
                     x = length (sl_nodes l);
                     l = l\<lparr>sl_nodes := sl_nodes l @ [NewNode key height]\<rparr>
                 in link_levels x prev [0..<height] l))"

definition skip_Contains :: "('k \<Rightarrow> 'k \<Rightarrow> int option) \<Rightarrow> 'k SkipList \<Rightarrow> 'k \<Rightarrow> bool option" where
  "skip_Contains cmp l key =
     (case FindGreaterOrEqual cmp l key of None \<Rightarrow> None
      | Some (None, prev) \<Rightarrow> Some False
      | Some (Some x, prev) \<Rightarrow> map_option (\<lambda>r. r = 0) (cmp key (key_of l x)))"

section \<open>Iterators\<close>

text \<open>An iterator is the list and the current node; these are its movements.\<close>

record 'k SkipIter =
  si_list :: "'k SkipList"
  si_node :: "nat option"

definition SkipIter_new :: "'k SkipList \<Rightarrow> 'k SkipIter" where
  "SkipIter_new l = \<lparr>si_list = l, si_node = None\<rparr>"

definition SkipIter_Valid :: "'k SkipIter \<Rightarrow> bool" where
  "SkipIter_Valid it = (si_node it \<noteq> None)"

definition SkipIter_key :: "'k SkipIter \<Rightarrow> 'k option" where
  "SkipIter_key it = map_option (key_of (si_list it)) (si_node it)"

definition SkipIter_Next :: "'k SkipIter \<Rightarrow> 'k SkipIter option" where
  "SkipIter_Next it =
     (case si_node it of None \<Rightarrow> None
      | Some x \<Rightarrow> map_option (\<lambda>y. it\<lparr>si_node := y\<rparr>) (node_Next (si_list it) x 0))"

definition SkipIter_Prev :: "('k \<Rightarrow> 'k \<Rightarrow> int option) \<Rightarrow> 'k SkipIter \<Rightarrow> 'k SkipIter option" where
  "SkipIter_Prev cmp it =
     (case si_node it of None \<Rightarrow> None
      | Some x \<Rightarrow> map_option (\<lambda>y. it\<lparr>si_node := if y = 0 then None else Some y\<rparr>)
          (FindLessThan cmp (si_list it) (key_of (si_list it) x)))"

definition SkipIter_Seek :: "('k \<Rightarrow> 'k \<Rightarrow> int option) \<Rightarrow> 'k \<Rightarrow> 'k SkipIter \<Rightarrow> 'k SkipIter option" where
  "SkipIter_Seek cmp target it =
     map_option (\<lambda>(y, prev). it\<lparr>si_node := y\<rparr>) (FindGreaterOrEqual cmp (si_list it) target)"

definition SkipIter_SeekToFirst :: "'k SkipIter \<Rightarrow> 'k SkipIter option" where
  "SkipIter_SeekToFirst it = map_option (\<lambda>y. it\<lparr>si_node := y\<rparr>) (node_Next (si_list it) 0 0)"

definition SkipIter_SeekToLast :: "'k SkipIter \<Rightarrow> 'k SkipIter option" where
  "SkipIter_SeekToLast it =
     map_option (\<lambda>y. it\<lparr>si_node := if y = 0 then None else Some y\<rparr>) (FindLast (si_list it))"

end
