(* ===== verification/LDB_Memtable.thy ===== *)
theory LDB_Memtable
  imports LDB_Dbformat LDB_Iterator LDB_Skiplist
begin

text \<open>
  LevelDB: the in-memory table of \<open>db/memtable.h\<close> and \<open>db/memtable.cc\<close>.  A pointer into the arena is
  the list of bytes from there to the end of its allocation; what is read beyond it has no result.  The
  arena is modelled in \<open>LDB_Arena\<close>; the addresses of the entries play no part here.
\<close>

section \<open>Entries\<close>

text \<open>
  The limit of five bytes that the code passes to \<open>GetVarint32Ptr\<close> is the length of the longest varint it
  reads.  The second component is what follows the slice.
\<close>

definition mem_GetLengthPrefixedSlice :: "u8 list \<Rightarrow> (slice \<times> u8 list) option" where
  "mem_GetLengthPrefixedSlice data =
     (case GetVarint32Ptr data of None \<Rightarrow> None
      | Some (len, p) \<Rightarrow> if unat len \<le> length p then Some (take (unat len) p, drop (unat len) p) else None)"

definition KeyComparator :: "comparator \<Rightarrow> u8 list \<Rightarrow> u8 list \<Rightarrow> int option" where
  "KeyComparator user aptr bptr =
     (case (mem_GetLengthPrefixedSlice aptr, mem_GetLengthPrefixedSlice bptr) of
        (Some (a, _), Some (b, _)) \<Rightarrow>
          if length a < 8 \<or> length b < 8 then None else Some (internal_compare user a b)
      | _ \<Rightarrow> None)"

definition EncodeKey :: "slice \<Rightarrow> u8 list" where
  "EncodeKey target = PutVarint32 [] (word_of_nat (length target)) @ target"

section \<open>The table\<close>

record MemTable =
  mt_comparator :: comparator
  mt_refs :: int
  mt_table :: "u8 list SkipList"

definition MemTable_new :: "comparator \<Rightarrow> MemTable" where
  "MemTable_new user = \<lparr>mt_comparator = user, mt_refs = 0, mt_table = SkipList_new []\<rparr>"

definition MemTable_Ref :: "MemTable \<Rightarrow> MemTable" where
  "MemTable_Ref m = m\<lparr>mt_refs := mt_refs m + 1\<rparr>"

text \<open>\<open>Inl\<close>: the table deletes itself, whose assertion then holds.\<close>

definition MemTable_Unref :: "MemTable \<Rightarrow> (unit + MemTable) option" where
  "MemTable_Unref m =
     (let refs = mt_refs m - 1
      in if \<not> refs \<ge> 0 then None else if refs \<le> 0 then Some (Inl ()) else Some (Inr (m\<lparr>mt_refs := refs\<rparr>)))"

definition MemTable_Add :: "SequenceNumber \<Rightarrow> u8 \<Rightarrow> slice \<Rightarrow> slice \<Rightarrow> MemTable \<Rightarrow> MemTable option" where
  "MemTable_Add s type key val m =
     (let internal_key_size = length key + 8;
          val_size = length val;
          encoded_len = VarintLength (word_of_nat internal_key_size) + internal_key_size +
            VarintLength (word_of_nat val_size) + val_size;
          buf = EncodeVarint32 (word_of_nat internal_key_size) @ key @ EncodeFixed64 (push_bit 8 s OR ucast type) @
            EncodeVarint32 (word_of_nat val_size) @ val
      in if length buf \<noteq> encoded_len then None
         else map_option (\<lambda>t. m\<lparr>mt_table := t\<rparr>) (skip_Insert (KeyComparator (mt_comparator m)) buf (mt_table m)))"

text \<open>The out parameters are arguments and results.\<close>

definition MemTable_Get :: "LookupKey \<Rightarrow> slice \<Rightarrow> Status \<Rightarrow> MemTable \<Rightarrow> (bool \<times> slice \<times> Status) option" where
  "MemTable_Get key val s m =
     (case SkipIter_Seek (KeyComparator (mt_comparator m)) (memtable_key key) (SkipIter_new (mt_table m)) of None \<Rightarrow> None
      | Some iter \<Rightarrow>
          (case SkipIter_key iter of None \<Rightarrow> Some (False, val, s)
           | Some entry \<Rightarrow>
               (case GetVarint32Ptr entry of None \<Rightarrow> None
                | Some (key_length, key_ptr) \<Rightarrow>
                    let n = unat (key_length - 8) in
                    if length key_ptr < n + 8 then None
                    else if Compare (mt_comparator m) (take n key_ptr) (lookup_user_key key) = 0 then
                      let tag = DecodeFixed64 (drop n key_ptr); type = ucast (tag AND 0xff) :: u8
                      in if type = kTypeValue then
                           map_option (\<lambda>(v, _). (True, v, s))
                             (mem_GetLengthPrefixedSlice (drop (unat key_length) key_ptr))
                         else if type = kTypeDeletion then Some (True, val, NotFound [] [])
                         else Some (False, val, s)
                    else Some (False, val, s))))"

section \<open>The iterator\<close>

text \<open>The scratch string \<open>tmp_\<close> that holds the encoded target is left out.\<close>

definition MemTableIterator :: "comparator \<Rightarrow> u8 list SkipIter iter_ops" where
  "MemTableIterator user =
     \<lparr>Valid = SkipIter_Valid, SeekToFirst = SkipIter_SeekToFirst, SeekToLast = SkipIter_SeekToLast,
      Seek = (\<lambda>k. SkipIter_Seek (KeyComparator user) (EncodeKey k)), Next = SkipIter_Next,
      Prev = SkipIter_Prev (KeyComparator user),
      iter_key = (\<lambda>it. case SkipIter_key it of None \<Rightarrow> None
        | Some entry \<Rightarrow> map_option fst (mem_GetLengthPrefixedSlice entry)),
      iter_value = (\<lambda>it. case SkipIter_key it of None \<Rightarrow> None
        | Some entry \<Rightarrow>
            (case mem_GetLengthPrefixedSlice entry of None \<Rightarrow> None
             | Some (key_slice, rest) \<Rightarrow> map_option fst (mem_GetLengthPrefixedSlice rest))),
      iter_status = (\<lambda>_. status_OK)\<rparr>"

definition MemTable_NewIterator :: "MemTable \<Rightarrow> u8 list SkipIter" where
  "MemTable_NewIterator m = SkipIter_new (mt_table m)"

end
