(* ===== verification/LDB_WriteBatch.thy ===== *)
theory LDB_WriteBatch
  imports LDB_Memtable
begin

text \<open>
  LevelDB: write batches (\<open>include/leveldb/write_batch.h\<close>, \<open>db/write_batch_internal.h\<close>,
  \<open>db/write_batch.cc\<close>).  A batch is its string \<open>rep_\<close>.  The count is a signed 32-bit number; an overflow of
  it, like a failing assertion, has no result.
\<close>

type_synonym WriteBatch = "u8 list"

definition kHeader :: nat where "kHeader = 12"

definition WriteBatch_new :: WriteBatch where "WriteBatch_new = replicate kHeader 0"

definition WriteBatch_Clear :: "WriteBatch \<Rightarrow> WriteBatch" where
  "WriteBatch_Clear b = replicate kHeader 0"

definition ApproximateSize :: "WriteBatch \<Rightarrow> nat" where "ApproximateSize b = length b"

section \<open>The header\<close>

definition batch_Count :: "WriteBatch \<Rightarrow> int" where
  "batch_Count b = sint (DecodeFixed32 (drop 8 b))"

definition batch_SetCount :: "WriteBatch \<Rightarrow> int \<Rightarrow> WriteBatch" where
  "batch_SetCount b n = take 8 b @ EncodeFixed32 (word_of_int n) @ drop 12 b"

definition batch_Sequence :: "WriteBatch \<Rightarrow> SequenceNumber" where
  "batch_Sequence b = DecodeFixed64 b"

definition batch_SetSequence :: "WriteBatch \<Rightarrow> SequenceNumber \<Rightarrow> WriteBatch" where
  "batch_SetSequence b seq = EncodeFixed64 seq @ drop 8 b"

definition batch_Contents :: "WriteBatch \<Rightarrow> slice" where "batch_Contents b = b"
definition batch_ByteSize :: "WriteBatch \<Rightarrow> nat" where "batch_ByteSize b = length b"

definition batch_SetContents :: "slice \<Rightarrow> WriteBatch option" where
  "batch_SetContents contents = (if \<not> length contents \<ge> kHeader then None else Some contents)"

text \<open>The sum of two counts, a signed addition.\<close>

definition int_sum :: "int \<Rightarrow> int \<Rightarrow> int option" where
  "int_sum a b = (if - (2 ^ 31) \<le> a + b \<and> a + b < 2 ^ 31 then Some (a + b) else None)"

section \<open>Writing\<close>

definition batch_Put :: "slice \<Rightarrow> slice \<Rightarrow> WriteBatch \<Rightarrow> WriteBatch option" where
  "batch_Put key val b =
     (case int_sum (batch_Count b) 1 of None \<Rightarrow> None
      | Some n \<Rightarrow>
          let rep = batch_SetCount b n;
              rep = rep @ [kTypeValue];
              rep = PutLengthPrefixedSlice rep key
          in Some (PutLengthPrefixedSlice rep val))"

definition batch_Delete :: "slice \<Rightarrow> WriteBatch \<Rightarrow> WriteBatch option" where
  "batch_Delete key b =
     (case int_sum (batch_Count b) 1 of None \<Rightarrow> None
      | Some n \<Rightarrow>
          let rep = batch_SetCount b n;
              rep = rep @ [kTypeDeletion]
          in Some (PutLengthPrefixedSlice rep key))"

definition batch_Append :: "WriteBatch \<Rightarrow> WriteBatch \<Rightarrow> WriteBatch option" where
  "batch_Append dst src =
     (case int_sum (batch_Count dst) (batch_Count src) of None \<Rightarrow> None
      | Some n \<Rightarrow>
          let dst = batch_SetCount dst n
          in if \<not> length src \<ge> kHeader then None else Some (dst @ take (length src - kHeader) (drop kHeader src)))"

section \<open>Reading\<close>

text \<open>
  A handler with its state; a call that fails an assertion has no result.  The counter \<open>found\<close>, an \<open>int\<close> of the code,
  is a natural number: a batch of \<open>2 ^ 31\<close> records or more, where the \<open>int\<close> overflows, is outside the model.
\<close>

record 'h Handler =
  handle_Put :: "slice \<Rightarrow> slice \<Rightarrow> 'h \<Rightarrow> 'h option"
  handle_Delete :: "slice \<Rightarrow> 'h \<Rightarrow> 'h option"

definition iterate_step ::
  "'h Handler \<Rightarrow> slice \<times> nat \<times> 'h \<Rightarrow> ((Status option \<times> nat \<times> 'h) + slice \<times> nat \<times> 'h) option" where
  "iterate_step handler = (\<lambda>(input, found, h).
     case input of
       [] \<Rightarrow> Some (Inl (None, found, h))
     | tag # input \<Rightarrow>
         let found = found + 1 in
         if tag = kTypeValue then
           (case GetLengthPrefixedSlice input of
              (Some key, input) \<Rightarrow>
                (case GetLengthPrefixedSlice input of
                   (Some val, input) \<Rightarrow> map_option (\<lambda>h. Inr (input, found, h)) (handle_Put handler key val h)
                 | (None, input) \<Rightarrow> Some (Inl (Some (Corruption (chars ''bad WriteBatch Put'') []), found, h)))
            | (None, input) \<Rightarrow> Some (Inl (Some (Corruption (chars ''bad WriteBatch Put'') []), found, h)))
         else if tag = kTypeDeletion then
           (case GetLengthPrefixedSlice input of
              (Some key, input) \<Rightarrow> map_option (\<lambda>h. Inr (input, found, h)) (handle_Delete handler key h)
            | (None, input) \<Rightarrow> Some (Inl (Some (Corruption (chars ''bad WriteBatch Delete'') []), found, h)))
         else Some (Inl (Some (Corruption (chars ''unknown WriteBatch tag'') []), found, h)))"

definition batch_Iterate :: "'h Handler \<Rightarrow> WriteBatch \<Rightarrow> 'h \<Rightarrow> (Status \<times> 'h) option" where
  "batch_Iterate handler b h =
     (let input = b in
      if length input < kHeader then Some (Corruption (chars ''malformed WriteBatch (too small)'') [], h)
      else
        let input = remove_prefix input kHeader in
        case c_loop (iterate_step handler) (input, 0, h) of None \<Rightarrow> None
        | Some (Some s, found, h) \<Rightarrow> Some (s, h)
        | Some (None, found, h) \<Rightarrow>
            if int found \<noteq> batch_Count b then Some (Corruption (chars ''WriteBatch has wrong count'') [], h)
            else Some (status_OK, h))"

section \<open>Inserting into a memtable\<close>

definition MemTableInserter :: "(SequenceNumber \<times> MemTable) Handler" where
  "MemTableInserter =
     \<lparr>handle_Put = (\<lambda>key val (sequence, mem).
        map_option (\<lambda>mem. (sequence + 1, mem)) (MemTable_Add sequence kTypeValue key val mem)),
      handle_Delete = (\<lambda>key (sequence, mem).
        map_option (\<lambda>mem. (sequence + 1, mem)) (MemTable_Add sequence kTypeDeletion key [] mem))\<rparr>"

definition InsertInto :: "WriteBatch \<Rightarrow> MemTable \<Rightarrow> (Status \<times> MemTable) option" where
  "InsertInto b memtable =
     map_option (\<lambda>(s, (sequence, mem)). (s, mem)) (batch_Iterate MemTableInserter b (batch_Sequence b, memtable))"

end
