(* ===== verification/LDB_Skiplist_Props.thy ===== *)
theory LDB_Skiplist_Props
  imports LDB_Skiplist
begin

text \<open>
  LevelDB: the invariant of the skip list and what its operations do to the sorted list of its keys, over
  any order of keys.
\<close>

section \<open>Random numbers\<close>

lemma coprime_random: "coprime (16807 :: nat) 2147483647"
proof -
  have "gcd (16807 :: nat) 2147483647 = 1" by (simp add: gcd_non_0_nat)
  then show ?thesis by (simp add: coprime_iff_gcd_eq_1)
qed

lemma lehmer_step:
  assumes "0 < unat seed" "unat seed < 2147483647"
  shows "unat (Random_Next seed) = unat seed * 16807 mod 2147483647 \<and> 0 < unat (Random_Next seed) \<and>
    unat (Random_Next seed) < 2147483647"
proof -
  define p where "p = unat seed * 16807"
  have p: "p < 2147483647 * 16807" using assms(2) by (simp add: p_def)
  have product: "unat (ucast seed * random_A) = p"
    using p by (simp add: random_A_def p_def unat_word_ariths unsigned_ucast_eq take_bit_eq_mod)
  have hi: "unat (drop_bit 31 (ucast seed * random_A)) = p div 2 ^ 31"
    unfolding unat_drop_bit_eq product by (simp add: drop_bit_eq_div)
  have "ucast random_M = (mask 31 :: u64)" by (simp add: random_M_def mask_eq_exp_minus_1)
  then have "(ucast seed * random_A) AND ucast random_M = take_bit 31 (ucast seed * random_A)"
    by (simp only: take_bit_eq_mask)
  then have lo: "unat ((ucast seed * random_A) AND ucast random_M) = p mod 2 ^ 31"
    by (simp only: unsigned_take_bit_eq product) (simp add: take_bit_eq_mod)
  define r where "r = p div 2 ^ 31 + p mod 2 ^ 31"
  have r: "r < 2 ^ 31 + 16807" using p by (simp add: r_def)
  have sum: "unat (ucast (drop_bit 31 (ucast seed * random_A) + ((ucast seed * random_A) AND ucast random_M)) :: u32) = r"
    using r by (simp add: unsigned_ucast_eq take_bit_eq_mod unat_word_ariths hi lo r_def)
  have "p = 2 ^ 31 * a + b \<Longrightarrow> p = a + b + 2147483647 * a" for a b by simp
  then have "p = r + 2147483647 * (p div 2 ^ 31)" unfolding r_def by (metis mult_div_mod_eq)
  then have mod: "p mod 2147483647 = r mod 2147483647" by (metis mod_mult_self2)
  have "\<not> 2147483647 dvd p"
    using coprime_dvd_mult_left_iff [of 2147483647 16807 "unat seed"] coprime_random assms nat_dvd_not_less
    by (auto simp: p_def coprime_commute)
  then have nz: "p mod 2147483647 \<noteq> 0" by (simp add: dvd_eq_mod_eq_0)
  then have rm: "r \<noteq> 2147483647" "r \<noteq> 0" using mod by auto
  have red: "unat (Random_Next seed) = (if r > 2147483647 then r - 2147483647 else r)"
    using sum unfolding Random_Next_def Let_def by (auto simp: word_less_nat_alt random_M_def unat_sub_if')
  have "unat (Random_Next seed) = r mod 2147483647"
  proof (cases "r > 2147483647")
    case True
    then have "r mod 2147483647 = r - 2147483647" using r by (simp add: mod_if)
    then show ?thesis using red True by simp
  next
    case False
    then show ?thesis using red rm by simp
  qed
  then show ?thesis using mod nz p_def by auto
qed

text \<open>
  C36: The pseudo random numbers are those of the multiplicative generator with multiplier 16807 and the
  Mersenne prime 2^31 - 1 as its modulus: the shift and the addition compute the remainder, and a seed in
  the range below the modulus never leaves the range nor becomes zero.
\<close>

theorem random_is_lehmer:
  assumes "0 < unat seed" "unat seed < 2147483647"
  shows "unat (Random_Next seed) = unat seed * 16807 mod 2147483647 \<and> 0 < unat (Random_Next seed) \<and>
    unat (Random_Next seed) < 2147483647"
  using assms by (rule lehmer_step)

lemma random_is_lehmer_witness: "unat (Random_Next 1000000000) = 1000000000 * 16807 mod 2147483647"
  using random_is_lehmer [of 1000000000] by simp

section \<open>The order of keys\<close>

text \<open>What the skip list needs of its comparison: on valid keys it returns, and is a total preorder.\<close>

locale key_order =
  fixes cmp :: "'k \<Rightarrow> 'k \<Rightarrow> int option"
    and c :: "'k \<Rightarrow> 'k \<Rightarrow> int"
    and valid :: "'k \<Rightarrow> bool"
  assumes cmp_returns: "valid a \<Longrightarrow> valid b \<Longrightarrow> cmp a b = Some (c a b)"
    and c_sign: "valid a \<Longrightarrow> valid b \<Longrightarrow> c a b < 0 \<longleftrightarrow> 0 < c b a"
    and c_trans: "valid a \<Longrightarrow> valid b \<Longrightarrow> valid d \<Longrightarrow> c a b \<le> 0 \<Longrightarrow> c b d \<le> 0 \<Longrightarrow> c a d \<le> 0"
begin

lemma c_less_trans:
  assumes "valid a" "valid b" "valid d" "c a b < 0" "c b d < 0"
  shows "c a d < 0"
proof (rule ccontr)
  assume "\<not> c a d < 0"
  then have "c d a \<le> 0" using assms(1,3) c_sign [of d a] c_sign [of a d] by linarith
  then have "c d b \<le> 0" using c_trans [of d a b] assms by simp
  then show False using assms c_sign [of b d] by simp
qed

end

section \<open>Searching lists\<close>

lemma find_index:
  obtains (None) "find P xs = None" "\<And>m. m < length xs \<Longrightarrow> \<not> P (xs ! m)"
  | (Some) q where "q < length xs" "find P xs = Some (xs ! q)" "P (xs ! q)" "\<And>m. m < q \<Longrightarrow> \<not> P (xs ! m)"
proof (cases "find P xs")
  case None
  then show ?thesis using that(1) by (auto simp: find_None_iff)
next
  case (Some y)
  then show ?thesis using that(2) by (auto simp: find_Some_iff)
qed

lemma find_append: "find P (xs @ ys) = (case find P xs of None \<Rightarrow> find P ys | Some x \<Rightarrow> Some x)"
  by (induction xs) simp_all

lemma find_skip: "\<forall>x \<in> set xs. \<not> P x \<Longrightarrow> find P (xs @ ys) = find P ys"
  by (induction xs) simp_all

definition index_of :: "'a list \<Rightarrow> 'a \<Rightarrow> nat" where
  "index_of xs x = length (takeWhile (\<lambda>y. y \<noteq> x) xs)"

lemma index_of_nth: "distinct xs \<Longrightarrow> j < length xs \<Longrightarrow> index_of xs (xs ! j) = j"
proof (induction xs arbitrary: j)
  case (Cons x xs)
  then show ?case by (cases j) (auto simp: index_of_def)
qed simp

section \<open>The invariant\<close>

definition hgt :: "'k SkipList \<Rightarrow> nat \<Rightarrow> nat" where
  "hgt l x = length (node_next (sl_nodes l ! x))"

text \<open>
  \<open>ns\<close> are the nodes behind the head in the order of the lowest level.  The link of level \<open>i\<close> goes to the
  next node that is higher than \<open>i\<close>.
\<close>

definition skip_inv :: "'k SkipList \<Rightarrow> nat list \<Rightarrow> bool" where
  "skip_inv l ns \<longleftrightarrow> distinct (0 # ns) \<and> (\<forall>x \<in> set (0 # ns). x < length (sl_nodes l)) \<and>
     hgt l 0 = kMaxHeight \<and> 1 \<le> sl_max_height l \<and> sl_max_height l \<le> kMaxHeight \<and>
     (\<forall>x \<in> set ns. 1 \<le> hgt l x \<and> hgt l x \<le> sl_max_height l) \<and>
     (\<forall>j < length (0 # ns). \<forall>i < hgt l ((0 # ns) ! j).
        node_next (sl_nodes l ! ((0 # ns) ! j)) ! i = find (\<lambda>x. i < hgt l x) (drop j ns))"

lemma node_Next_eq:
  assumes "skip_inv l ns" "j \<le> length ns" "i < hgt l ((0 # ns) ! j)"
  shows "node_Next l ((0 # ns) ! j) i = Some (find (\<lambda>x. i < hgt l x) (drop j ns))"
proof -
  have j: "j < length (0 # ns)" using assms(2) by simp
  then have "(0 # ns) ! j \<in> set (0 # ns)" by (rule nth_mem)
  then have "(0 # ns) ! j < length (sl_nodes l)" using assms(1) unfolding skip_inv_def by blast
  moreover have "node_next (sl_nodes l ! ((0 # ns) ! j)) ! i = find (\<lambda>x. i < hgt l x) (drop j ns)"
    using assms(1,3) j unfolding skip_inv_def by blast
  ultimately show ?thesis using assms(3) by (simp add: node_Next_def hgt_def)
qed

text \<open>
  One step of a search for the end of the initial segment of nodes with property \<open>go\<close>: the next node
  on the level is in the segment, or no node of the level is left in it.
\<close>

lemma descend_cases:
  assumes inv: "skip_inv l ns" and j: "j \<le> p" and lev: "level < hgt l ((0 # ns) ! j)"
    and p: "p \<le> length ns" "\<And>q. q < length ns \<Longrightarrow> goes (ns ! q) \<longleftrightarrow> q < p"
  obtains
    (right) q where "j \<le> q" "q < p" "node_Next l ((0 # ns) ! j) level = Some (Some (ns ! q))" "level < hgt l (ns ! q)"
      "goes (ns ! q)"
  | (stop) y where "node_Next l ((0 # ns) ! j) level = Some y" "\<And>z. y = Some z \<Longrightarrow> z \<in> set ns \<and> \<not> goes z"
      "\<And>m. j \<le> m \<Longrightarrow> m < p \<Longrightarrow> hgt l (ns ! m) \<le> level"
      "level = 0 \<Longrightarrow> j = p \<and> y = (if p < length ns then Some (ns ! p) else None)"
proof -
  have jl: "j \<le> length ns" using j p(1) by simp
  note nxt = node_Next_eq [OF inv jl lev]
  have pos: "0 < hgt l (ns ! m)" if "m < length ns" for m
  proof -
    have "ns ! m \<in> set ns" using that by simp
    then have "1 \<le> hgt l (ns ! m)" using inv unfolding skip_inv_def by blast
    then show ?thesis by simp
  qed
  show thesis
  proof (rule find_index [of "\<lambda>x. level < hgt l x" "drop j ns"])
    assume None: "find (\<lambda>x. level < hgt l x) (drop j ns) = None"
      "\<And>m. m < length (drop j ns) \<Longrightarrow> \<not> level < hgt l (drop j ns ! m)"
    have none: "hgt l (ns ! m) \<le> level" if "j \<le> m" "m < length ns" for m
      using None(2) [of "m - j"] that diff_less_mono [of m "length ns" j] by simp
    have "j = p" if "level = 0"
      using none [of j] pos [of j] that j p(1) by (cases "j < p") auto
    moreover have "\<not> p < length ns" if "level = 0"
      using none [of p] pos [of p] that j by (cases "p < length ns") auto
    ultimately show thesis
      by (intro stop [of None]) (use nxt None none p(1) in auto)
  next
    fix q
    assume Some: "q < length (drop j ns)" "find (\<lambda>x. level < hgt l x) (drop j ns) = Some (drop j ns ! q)"
      "level < hgt l (drop j ns ! q)" "\<And>m. m < q \<Longrightarrow> \<not> level < hgt l (drop j ns ! m)"
    have y: "drop j ns ! q = ns ! (j + q)" "j + q < length ns" using Some(1) by simp_all
    have before: "hgt l (ns ! m) \<le> level" if "j \<le> m" "m < j + q" for m
      using Some(4) [of "m - j"] that y less_diff_conv2 [of j m q] by (simp add: add.commute)
    show thesis
    proof (cases "j + q < p")
      case True
      then show thesis
        using right [of "j + q"] nxt Some(2,3) y p(2) [of "j + q"] by simp
    next
      case False
      have zero: "q = 0 \<and> j = p" if "level = 0"
      proof -
        have "q = 0" using before [of j] pos [of j] that y by (cases q) auto
        then show ?thesis using False j by simp
      qed
      show thesis
      proof (rule stop)
        show "node_Next l ((0 # ns) ! j) level = Some (Some (ns ! (j + q)))" using nxt Some(2) y by simp
        show "Some (ns ! (j + q)) = Some z \<Longrightarrow> z \<in> set ns \<and> \<not> goes z" for z
          using False y p(2) [of "j + q"] by auto
        show "j \<le> m \<Longrightarrow> m < p \<Longrightarrow> hgt l (ns ! m) \<le> level" for m using before False by simp
        show "level = 0 \<Longrightarrow> j = p \<and> Some (ns ! (j + q)) = (if p < length ns then Some (ns ! p) else None)"
          using zero y by auto
      qed
    qed
  qed
qed

text \<open>The measure of the searches: the level, then the distance to the end.\<close>

definition search_measure :: "nat list \<Rightarrow> nat \<Rightarrow> nat \<Rightarrow> nat" where
  "search_measure ns x level = level * (length ns + 2) + (length ns + 1 - index_of (0 # ns) x)"

lemma search_measure_right:
  assumes "skip_inv l ns" "j \<le> q" "q < length ns"
  shows "search_measure ns (ns ! q) level < search_measure ns ((0 # ns) ! j) level"
proof -
  have d: "distinct (0 # ns)" using assms(1) by (simp add: skip_inv_def)
  have "index_of (0 # ns) ((0 # ns) ! Suc q) = Suc q" "index_of (0 # ns) ((0 # ns) ! j) = j"
    by (rule index_of_nth [OF d], use assms in simp)+
  then show ?thesis using assms(2,3) by (simp add: search_measure_def)
qed

lemma search_measure_down:
  assumes "0 < level"
  shows "search_measure ns x (level - 1) < search_measure ns x level"
  using assms by (cases level) (simp_all add: search_measure_def)

lemma inv_max_height:
  "skip_inv l ns \<Longrightarrow> sl_max_height l - 1 < hgt l 0 \<and> sl_max_height l - 1 < sl_max_height l"
  by (auto simp: skip_inv_def)

section \<open>The searches\<close>

text \<open>The node on a level that precedes position \<open>p\<close>.\<close>

definition prev_ok :: "'k SkipList \<Rightarrow> nat list \<Rightarrow> nat \<Rightarrow> nat \<Rightarrow> nat option \<Rightarrow> bool" where
  "prev_ok l ns p level x \<longleftrightarrow> (\<exists>j \<le> p. x = Some ((0 # ns) ! j) \<and> level < hgt l ((0 # ns) ! j) \<and>
     (\<forall>m. j \<le> m \<longrightarrow> m < p \<longrightarrow> hgt l (ns ! m) \<le> level))"

context key_order
begin

definition keys_ok :: "'k SkipList \<Rightarrow> nat list \<Rightarrow> bool" where
  "keys_ok l ns \<longleftrightarrow> sorted_wrt (\<lambda>x y. c (key_of l x) (key_of l y) < 0) ns \<and> (\<forall>x \<in> set ns. valid (key_of l x))"

definition seek_pos :: "'k list \<Rightarrow> 'k \<Rightarrow> nat" where
  "seek_pos ks key = length (takeWhile (\<lambda>k. c k key < 0) ks)"

lemma seek_pos_le: "seek_pos ks key \<le> length ks"
  by (simp add: seek_pos_def length_takeWhile_le)

lemma seek_pos_iff:
  assumes "keys_ok l ns" "valid key" "q < length ns"
  shows "c (key_of l (ns ! q)) key < 0 \<longleftrightarrow> q < seek_pos (map (key_of l) ns) key"
proof -
  let ?ks = "map (key_of l) ns" and ?p = "seek_pos (map (key_of l) ns) key"
  have before: "c (key_of l (ns ! m)) key < 0" if "m < ?p" for m
    using nth_mem [of m "takeWhile (\<lambda>k. c k key < 0) ?ks"] that takeWhile_nth [of m "\<lambda>k. c k key < 0" ?ks]
      length_takeWhile_le [of "\<lambda>k. c k key < 0" ?ks]
    by (auto simp: seek_pos_def dest: set_takeWhileD)
  have "\<not> c (key_of l (ns ! q)) key < 0" if "?p \<le> q"
  proof -
    have p: "?p < length ns" using that assms(3) by simp
    have at: "\<not> c (key_of l (ns ! ?p)) key < 0"
      using nth_length_takeWhile [of "\<lambda>k. c k key < 0" ?ks] p by (simp add: seek_pos_def)
    show ?thesis
    proof (cases "?p = q")
      case False
      then have less: "c (key_of l (ns ! ?p)) (key_of l (ns ! q)) < 0"
        using assms(1,3) that by (simp add: keys_ok_def sorted_wrt_iff_nth_less)
      have v: "valid (key_of l (ns ! ?p))" "valid (key_of l (ns ! q))"
        using assms(1,3) p by (simp_all add: keys_ok_def)
      show ?thesis using c_less_trans [OF v(1,2) assms(2) less] at by blast
    qed (use at in simp)
  qed
  with before show ?thesis using not_less by blast
qed

lemma FindGreaterOrEqual_spec:
  assumes inv: "skip_inv l ns" "keys_ok l ns" "valid key"
  shows "\<exists>prev. FindGreaterOrEqual cmp l key =
      Some (if seek_pos (map (key_of l) ns) key < length ns then Some (ns ! seek_pos (map (key_of l) ns) key) else None, prev) \<and>
    length prev = kMaxHeight \<and>
    (\<forall>level < sl_max_height l. prev_ok l ns (seek_pos (map (key_of l) ns) key) level (prev ! level))"
proof -
  let ?p = "seek_pos (map (key_of l) ns) key"
  let ?I = "\<lambda>(x, level, prev). \<exists>j \<le> ?p. x = (0 # ns) ! j \<and> level < hgt l x \<and> level < sl_max_height l \<and>
    length prev = kMaxHeight \<and> (\<forall>i. level < i \<longrightarrow> i < sl_max_height l \<longrightarrow> prev_ok l ns ?p i (prev ! i))"
  let ?Q = "\<lambda>(y, prev). y = (if ?p < length ns then Some (ns ! ?p) else None) \<and> length prev = kMaxHeight \<and>
    (\<forall>level < sl_max_height l. prev_ok l ns ?p level (prev ! level))"
  have p: "?p \<le> length ns" using seek_pos_le [of "map (key_of l) ns"] by simp
  note seg = seek_pos_iff [OF inv(2,3)]
  have "\<exists>r. FindGreaterOrEqual cmp l key = Some r \<and> ?Q r"
    unfolding FindGreaterOrEqual_def
  proof (rule c_loop_rule [where I = ?I and m = "\<lambda>(x, level, prev). search_measure ns x level"])
    show "?I (0, sl_max_height l - 1, replicate kMaxHeight None)"
      using inv_max_height [OF inv(1)] by (auto intro: exI [of _ 0])
  next
    fix s
    assume "?I s"
    then obtain j level prev where s: "s = ((0 # ns) ! j, level, prev)" and j: "j \<le> ?p"
      and lev: "level < hgt l ((0 # ns) ! j)" "level < sl_max_height l" and len: "length prev = kMaxHeight"
      and above: "\<forall>i. level < i \<longrightarrow> i < sl_max_height l \<longrightarrow> prev_ok l ns ?p i (prev ! i)"
      by (cases s) auto
    show "\<exists>x. find_ge_step cmp l key s = Some x \<and> (case x of Inl r \<Rightarrow> ?Q r
        | Inr t \<Rightarrow> ?I t \<and> (case t of (x, level, prev) \<Rightarrow> search_measure ns x level) <
            (case s of (x, level, prev) \<Rightarrow> search_measure ns x level))"
    proof (rule descend_cases [OF inv(1) j lev(1) p, where goes = "\<lambda>z. c (key_of l z) key < 0", OF seg])
      fix q
      assume right: "j \<le> q" "q < ?p" "node_Next l ((0 # ns) ! j) level = Some (Some (ns ! q))" "level < hgt l (ns ! q)"
        "c (key_of l (ns ! q)) key < 0"
      have "ns ! q \<in> set ns" using right(2) p by simp
      then have "cmp (key_of l (ns ! q)) key = Some (c (key_of l (ns ! q)) key)"
        using inv by (intro cmp_returns) (simp_all add: keys_ok_def)
      then have "find_ge_step cmp l key s = Some (Inr (ns ! q, level, prev))"
        using right by (simp add: s find_ge_step_def KeyIsAfterNode_def)
      moreover have "?I (ns ! q, level, prev)"
        using right lev(2) len above by (auto intro!: exI [of _ "Suc q"])
      moreover have "search_measure ns (ns ! q) level < search_measure ns ((0 # ns) ! j) level"
        using search_measure_right [OF inv(1) right(1)] right(2) p by simp
      ultimately show ?thesis by (simp add: s)
    next
      fix y
      assume stop: "node_Next l ((0 # ns) ! j) level = Some y" "\<And>z. y = Some z \<Longrightarrow> z \<in> set ns \<and> \<not> c (key_of l z) key < 0"
        "\<And>m. j \<le> m \<Longrightarrow> m < ?p \<Longrightarrow> hgt l (ns ! m) \<le> level"
        "level = 0 \<Longrightarrow> j = ?p \<and> y = (if ?p < length ns then Some (ns ! ?p) else None)"
      have after: "KeyIsAfterNode cmp l key y = Some False"
      proof (cases y)
        case (Some z)
        then have z: "z \<in> set ns" "\<not> c (key_of l z) key < 0" using stop(2) by blast+
        then have "cmp (key_of l z) key = Some (c (key_of l z) key)"
          using inv by (intro cmp_returns) (simp_all add: keys_ok_def)
        with z Some show ?thesis by (simp add: KeyIsAfterNode_def)
      qed (simp add: KeyIsAfterNode_def)
      let ?prev = "prev[level := Some ((0 # ns) ! j)]"
      have level: "level < kMaxHeight" using lev(2) inv(1) by (simp add: skip_inv_def)
      have "prev_ok l ns ?p level (?prev ! level)"
        using j lev(1) stop(3) len level unfolding prev_ok_def by auto
      then have prev: "prev_ok l ns ?p i (?prev ! i)" if "level \<le> i" "i < sl_max_height l" for i
        using above that by (cases "i = level") auto
      have step: "find_ge_step cmp l key s =
          (if level = 0 then Some (Inl (y, ?prev)) else Some (Inr ((0 # ns) ! j, level - 1, ?prev)))"
        unfolding find_ge_step_def s prod.case stop(1) option.case after Let_def by simp
      show ?thesis
      proof (cases "level = 0")
        case True
        with step prev stop(4) len show ?thesis by simp
      next
        case False
        then have "?I ((0 # ns) ! j, level - 1, ?prev)"
          using j lev len prev by auto
        moreover have "search_measure ns ((0 # ns) ! j) (level - 1) < search_measure ns ((0 # ns) ! j) level"
          using False by (intro search_measure_down) simp
        ultimately show ?thesis using step False by (simp add: s)
      qed
    qed
  qed
  then show ?thesis by auto
qed

lemma FindLessThan_spec:
  assumes inv: "skip_inv l ns" "keys_ok l ns" "valid key"
  shows "FindLessThan cmp l key = Some ((0 # ns) ! seek_pos (map (key_of l) ns) key)"
proof -
  let ?p = "seek_pos (map (key_of l) ns) key"
  let ?I = "\<lambda>(x, level). \<exists>j \<le> ?p. x = (0 # ns) ! j \<and> level < hgt l x"
  have p: "?p \<le> length ns" using seek_pos_le [of "map (key_of l) ns"] by simp
  note seg = seek_pos_iff [OF inv(2,3)]
  have ret: "cmp (key_of l z) key = Some (c (key_of l z) key)" if "z \<in> set ns" for z
    using inv that by (intro cmp_returns) (simp_all add: keys_ok_def)
  have "\<exists>r. FindLessThan cmp l key = Some r \<and> r = (0 # ns) ! ?p"
    unfolding FindLessThan_def
  proof (rule c_loop_rule [where I = ?I and m = "\<lambda>(x, level). search_measure ns x level"])
    show "?I (0, sl_max_height l - 1)" using inv_max_height [OF inv(1)] by (auto intro: exI [of _ 0])
  next
    fix s
    assume "?I s"
    then obtain j level where s: "s = ((0 # ns) ! j, level)" and j: "j \<le> ?p" and lev: "level < hgt l ((0 # ns) ! j)"
      by (cases s) auto
    have here: "(if (0 # ns) ! j = 0 then Some True else map_option (\<lambda>r. r < 0) (cmp (key_of l ((0 # ns) ! j)) key)) = Some True"
    proof (cases j)
      case (Suc i)
      then have "ns ! i \<in> set ns" "c (key_of l (ns ! i)) key < 0" using j p seg [of i] by simp_all
      with ret Suc show ?thesis by simp
    qed simp
    show "\<exists>x. find_lt_step cmp l key s = Some x \<and> (case x of Inl r \<Rightarrow> r = (0 # ns) ! ?p
        | Inr t \<Rightarrow> ?I t \<and> (case t of (x, level) \<Rightarrow> search_measure ns x level) <
            (case s of (x, level) \<Rightarrow> search_measure ns x level))"
    proof (rule descend_cases [OF inv(1) j lev p, where goes = "\<lambda>z. c (key_of l z) key < 0", OF seg])
      fix q
      assume right: "j \<le> q" "q < ?p" "node_Next l ((0 # ns) ! j) level = Some (Some (ns ! q))" "level < hgt l (ns ! q)"
        "c (key_of l (ns ! q)) key < 0"
      have "ns ! q \<in> set ns" using right(2) p by simp
      then have "find_lt_step cmp l key s = Some (Inr (ns ! q, level))"
        using right here ret by (simp add: s find_lt_step_def)
      moreover have "?I (ns ! q, level)" using right by (auto intro!: exI [of _ "Suc q"])
      moreover have "search_measure ns (ns ! q) level < search_measure ns ((0 # ns) ! j) level"
        using search_measure_right [OF inv(1) right(1)] right(2) p by simp
      ultimately show ?thesis by (simp add: s)
    next
      fix y
      assume stop: "node_Next l ((0 # ns) ! j) level = Some y" "\<And>z. y = Some z \<Longrightarrow> z \<in> set ns \<and> \<not> c (key_of l z) key < 0"
        "\<And>m. j \<le> m \<Longrightarrow> m < ?p \<Longrightarrow> hgt l (ns ! m) \<le> level"
        "level = 0 \<Longrightarrow> j = ?p \<and> y = (if ?p < length ns then Some (ns ! ?p) else None)"
      have "(case y of None \<Rightarrow> Some True | Some z \<Rightarrow> map_option (\<lambda>r. r \<ge> 0) (cmp (key_of l z) key)) = Some True"
        using stop(2) ret by (auto split: option.splits)
      then have step: "find_lt_step cmp l key s =
          (if level = 0 then Some (Inl ((0 # ns) ! j)) else Some (Inr ((0 # ns) ! j, level - 1)))"
        unfolding find_lt_step_def s prod.case here option.case stop(1) by simp
      show ?thesis
      proof (cases "level = 0")
        case True
        with step stop(4) show ?thesis by simp
      next
        case False
        then have "?I ((0 # ns) ! j, level - 1)" using j lev by auto
        moreover have "search_measure ns ((0 # ns) ! j) (level - 1) < search_measure ns ((0 # ns) ! j) level"
          using False by (intro search_measure_down) simp
        ultimately show ?thesis using step False by (simp add: s)
      qed
    qed
  qed
  then show ?thesis by auto
qed

end

lemma FindLast_spec:
  assumes inv: "skip_inv l ns"
  shows "FindLast l = Some ((0 # ns) ! length ns)"
proof -
  let ?I = "\<lambda>(x, level). \<exists>j \<le> length ns. x = (0 # ns) ! j \<and> level < hgt l x"
  have "\<exists>r. FindLast l = Some r \<and> r = (0 # ns) ! length ns"
    unfolding FindLast_def
  proof (rule c_loop_rule [where I = ?I and m = "\<lambda>(x, level). search_measure ns x level"])
    show "?I (0, sl_max_height l - 1)" using inv_max_height [OF inv] by (auto intro: exI [of _ 0])
  next
    fix s
    assume "?I s"
    then obtain j level where s: "s = ((0 # ns) ! j, level)" and j: "j \<le> length ns" and lev: "level < hgt l ((0 # ns) ! j)"
      by (cases s) auto
    have all: "\<And>q. q < length ns \<Longrightarrow> True \<longleftrightarrow> q < length ns" by simp
    show "\<exists>x. find_last_step l s = Some x \<and> (case x of Inl r \<Rightarrow> r = (0 # ns) ! length ns
        | Inr t \<Rightarrow> ?I t \<and> (case t of (x, level) \<Rightarrow> search_measure ns x level) <
            (case s of (x, level) \<Rightarrow> search_measure ns x level))"
    proof (rule descend_cases [OF inv j lev order_refl, where goes = "\<lambda>_. True", OF all])
      fix q
      assume right: "j \<le> q" "q < length ns" "node_Next l ((0 # ns) ! j) level = Some (Some (ns ! q))" "level < hgt l (ns ! q)"
        "True"
      then have "find_last_step l s = Some (Inr (ns ! q, level))" by (simp add: s find_last_step_def)
      moreover have "?I (ns ! q, level)" using right by (auto intro!: exI [of _ "Suc q"])
      moreover have "search_measure ns (ns ! q) level < search_measure ns ((0 # ns) ! j) level"
        using search_measure_right [OF inv right(1,2)] .
      ultimately show ?thesis by (simp add: s)
    next
      fix y
      assume stop: "node_Next l ((0 # ns) ! j) level = Some y" "\<And>z. y = Some z \<Longrightarrow> z \<in> set ns \<and> \<not> True"
        "\<And>m. j \<le> m \<Longrightarrow> m < length ns \<Longrightarrow> hgt l (ns ! m) \<le> level"
        "level = 0 \<Longrightarrow> j = length ns \<and> y = (if length ns < length ns then Some (ns ! length ns) else None)"
      have "y = None" using stop(2) by (cases y) auto
      then have step: "find_last_step l s =
          (if level = 0 then Some (Inl ((0 # ns) ! j)) else Some (Inr ((0 # ns) ! j, level - 1)))"
        using stop(1) by (simp add: s find_last_step_def)
      show ?thesis
      proof (cases "level = 0")
        case True
        with step stop(4) show ?thesis by simp
      next
        case False
        then have "?I ((0 # ns) ! j, level - 1)" using j lev by auto
        moreover have "search_measure ns ((0 # ns) ! j) (level - 1) < search_measure ns ((0 # ns) ! j) level"
          using False by (intro search_measure_down) simp
        ultimately show ?thesis using step False by (simp add: s)
      qed
    qed
  qed
  then show ?thesis by auto
qed

section \<open>Inserting\<close>

text \<open>The invariant, level by level.\<close>

definition links_ok :: "'k SkipList \<Rightarrow> nat list \<Rightarrow> nat \<Rightarrow> bool" where
  "links_ok l ns i \<longleftrightarrow> (\<forall>j < length (0 # ns). i < hgt l ((0 # ns) ! j) \<longrightarrow>
     node_next (sl_nodes l ! ((0 # ns) ! j)) ! i = find (\<lambda>x. i < hgt l x) (drop j ns))"

definition shape_ok :: "'k SkipList \<Rightarrow> nat list \<Rightarrow> bool" where
  "shape_ok l ns \<longleftrightarrow> distinct (0 # ns) \<and> (\<forall>x \<in> set (0 # ns). x < length (sl_nodes l)) \<and>
     hgt l 0 = kMaxHeight \<and> 1 \<le> sl_max_height l \<and> sl_max_height l \<le> kMaxHeight \<and>
     (\<forall>x \<in> set ns. 1 \<le> hgt l x \<and> hgt l x \<le> sl_max_height l)"

lemma links_ok_at:
  "links_ok l ns i \<Longrightarrow> m \<le> length ns \<Longrightarrow> i < hgt l ((0 # ns) ! m) \<Longrightarrow>
   node_next (sl_nodes l ! ((0 # ns) ! m)) ! i = find (\<lambda>x. i < hgt l x) (drop m ns)"
  by (simp add: links_ok_def)

lemma skip_inv_levels: "skip_inv l ns \<longleftrightarrow> shape_ok l ns \<and> (\<forall>i. links_ok l ns i)"
  unfolding skip_inv_def shape_ok_def links_ok_def by blast

text \<open>What linking the levels \<open>ks\<close> leaves as it was.\<close>

definition same_but :: "nat set \<Rightarrow> 'k SkipList \<Rightarrow> 'k SkipList \<Rightarrow> bool" where
  "same_but ks l l' \<longleftrightarrow> length (sl_nodes l') = length (sl_nodes l) \<and> (\<forall>z. key_of l' z = key_of l z) \<and>
     (\<forall>z. hgt l' z = hgt l z) \<and> sl_max_height l' = sl_max_height l \<and> sl_rnd l' = sl_rnd l \<and>
     (\<forall>z i. i \<notin> ks \<longrightarrow> node_next (sl_nodes l' ! z) ! i = node_next (sl_nodes l ! z) ! i)"

lemma same_but_refl: "same_but {} l l"
  by (simp add: same_but_def)

lemma same_but_trans: "same_but A l l' \<Longrightarrow> same_but B l' l'' \<Longrightarrow> same_but (A \<union> B) l l''"
  by (simp add: same_but_def)

lemma links_ok_same: "same_but ks l l' \<Longrightarrow> i \<notin> ks \<Longrightarrow> links_ok l' ns i \<longleftrightarrow> links_ok l ns i"
  by (simp add: same_but_def links_ok_def)

lemma node_SetNext_eq:
  assumes "x < length (sl_nodes l)" "i < hgt l x"
  obtains l' where "node_SetNext x i y l = Some l'" "same_but {i} l l'"
    "\<And>z. node_next (sl_nodes l' ! z) ! i = (if z = x then y else node_next (sl_nodes l ! z) ! i)"
proof
  let ?l = "l\<lparr>sl_nodes := (sl_nodes l)[x := (sl_nodes l ! x)\<lparr>node_next := (node_next (sl_nodes l ! x))[i := y]\<rparr>]\<rparr>"
  have upd: "(sl_nodes l)[x := v] ! z = (if z = x then v else sl_nodes l ! z)" for v z
    using assms(1) by simp
  show "node_SetNext x i y l = Some ?l" using assms by (simp add: node_SetNext_def hgt_def)
  show "same_but {i} l ?l" using assms(1)
    by (auto simp: same_but_def hgt_def key_of_def upd)
  show "node_next (sl_nodes ?l ! z) ! i = (if z = x then y else node_next (sl_nodes l ! z) ! i)" for z
    using assms by (auto simp: hgt_def)
qed

lemma prev_unique:
  assumes "prev_ok l ns p i (Some y)" "j \<le> p" "i < hgt l ((0 # ns) ! j)"
    and "\<And>m. j \<le> m \<Longrightarrow> m < p \<Longrightarrow> hgt l (ns ! m) \<le> i"
  shows "y = (0 # ns) ! j"
proof -
  obtain k where k: "k \<le> p" "y = (0 # ns) ! k" "i < hgt l ((0 # ns) ! k)"
    and between: "\<forall>m. k \<le> m \<longrightarrow> m < p \<longrightarrow> hgt l (ns ! m) \<le> i"
    using assms(1) by (auto simp: prev_ok_def)
  have "\<not> j < k" using assms(4) [of "k - 1"] k(1,3) by (cases k) auto
  moreover have "\<not> k < j" using between [rule_format, of "j - 1"] assms(2,3) by (cases j) auto
  ultimately show ?thesis using k(2) by simp
qed

lemma find_None_drop_take:
  "p \<le> length ns \<Longrightarrow> find P (drop j (take p ns)) = None \<longleftrightarrow> (\<forall>m. j \<le> m \<longrightarrow> m < p \<longrightarrow> \<not> P (ns ! m))"
proof -
  assume p: "p \<le> length ns"
  have "find P (drop j (take p ns)) = None \<longleftrightarrow> (\<forall>m < p - j. \<not> P (ns ! (j + m)))"
  proof -
    have "find P (drop j (take p ns)) = None \<longleftrightarrow> (\<forall>x \<in> set (drop j (take p ns)). \<not> P x)"
      by (auto simp: find_None_iff)
    then show ?thesis using p by (simp add: all_set_conv_all_nth)
  qed
  also have "\<dots> \<longleftrightarrow> (\<forall>m. j \<le> m \<longrightarrow> m < p \<longrightarrow> \<not> P (ns ! m))"
  proof (intro iffI allI impI)
    fix m
    assume "\<forall>m < p - j. \<not> P (ns ! (j + m))" "j \<le> m" "m < p"
    then show "\<not> P (ns ! m)" by (auto dest!: spec [of _ "m - j"])
  qed simp
  finally show ?thesis .
qed

lemma link_level_spec:
  assumes shape: "distinct (x # 0 # ns)" "\<forall>z \<in> set (x # 0 # ns). z < length (sl_nodes l)"
    and links: "links_ok l ns i" and p: "p \<le> length ns" and i: "i < hgt l x"
    and prev: "prev_ok l ns p i (prev ! i)"
  shows "\<exists>l'. link_level x prev i l = Some l' \<and> same_but {i} l l' \<and> links_ok l' (take p ns @ x # drop p ns) i"
proof -
  let ?P = "\<lambda>z. i < hgt l z"
  obtain k where k: "k \<le> p" "prev ! i = Some ((0 # ns) ! k)" "i < hgt l ((0 # ns) ! k)"
    and between: "\<forall>m. k \<le> m \<longrightarrow> m < p \<longrightarrow> hgt l (ns ! m) \<le> i"
    using prev by (auto simp: prev_ok_def)
  let ?k = "(0 # ns) ! k"
  have kl: "k < length (0 # ns)" using k(1) p by simp
  have km: "?k \<in> set (0 # ns)" using kl by (rule nth_mem)
  then have kn: "?k < length (sl_nodes l)" "?k \<noteq> x" using shape by auto
  have split: "drop j ns = drop j (take p ns) @ drop p ns" if "j \<le> p" for j
    using that p by (metis append_take_drop_id drop_append diff_is_0_eq drop_0 length_take min.absorb2)
  have old: "node_next (sl_nodes l ! ?k) ! i = find ?P (drop p ns)"
  proof -
    have "find ?P (drop k (take p ns)) = None"
      using between by (simp add: find_None_drop_take [OF p] not_less)
    moreover have "node_next (sl_nodes l ! ?k) ! i = find ?P (drop k ns)"
      using links kl k(3) unfolding links_ok_def by blast
    ultimately show ?thesis using split [OF k(1)] by (simp add: find_append)
  qed
  have "node_Next l ?k i = Some (find ?P (drop p ns))"
    using kn(1) k(3) old by (simp add: node_Next_def hgt_def)
  moreover obtain l1 where l1: "node_SetNext x i (find ?P (drop p ns)) l = Some l1" "same_but {i} l l1"
    "\<And>z. node_next (sl_nodes l1 ! z) ! i = (if z = x then find ?P (drop p ns) else node_next (sl_nodes l ! z) ! i)"
    by (rule node_SetNext_eq [of x l i "find ?P (drop p ns)"]) (use shape i in auto)
  moreover obtain l2 where l2: "node_SetNext ?k i (Some x) l1 = Some l2" "same_but {i} l1 l2"
    "\<And>z. node_next (sl_nodes l2 ! z) ! i = (if z = ?k then Some x else node_next (sl_nodes l1 ! z) ! i)"
    by (rule node_SetNext_eq [of ?k l1 i "Some x"]) (use kn k(3) l1(2) in \<open>auto simp: same_but_def\<close>)
  ultimately have "link_level x prev i l = Some l2" by (simp add: link_level_def k(2))
  moreover have same: "same_but {i} l l2" using same_but_trans [OF l1(2) l2(2)] by simp
  moreover have "links_ok l2 (take p ns @ x # drop p ns) i"
    unfolding links_ok_def
  proof (intro allI impI)
    let ?ns = "take p ns @ x # drop p ns"
    fix j
    assume j: "j < length (0 # ?ns)" and high: "i < hgt l2 ((0 # ?ns) ! j)"
    have hgt: "hgt l2 z = hgt l z" for z using same by (simp add: same_but_def)
    have now: "node_next (sl_nodes l2 ! z) ! i =
        (if z = ?k then Some x else if z = x then find ?P (drop p ns) else node_next (sl_nodes l ! z) ! i)" for z
      by (simp add: l2(3) l1(3))
    consider (before) "j \<le> p" | (new) "j = Suc p" | (after) m where "j = Suc m" "p < m" "m \<le> length ns"
    proof -
      have "thesis" if "Suc p < j"
        using that j p by (intro \<open>\<And>m. j = Suc m \<Longrightarrow> p < m \<Longrightarrow> m \<le> length ns \<Longrightarrow> thesis\<close> [of "j - 1"]) auto
      then show thesis using that(1,2) by (meson Suc_leI le_neq_implies_less not_le)
    qed
    then have "node_next (sl_nodes l2 ! ((0 # ?ns) ! j)) ! i = find ?P (drop j ?ns)"
    proof cases
      case before
      have node: "(0 # ?ns) ! j = (0 # ns) ! j" using before p by (cases j) (simp_all add: nth_append)
      have jm: "(0 # ns) ! j \<in> set (0 # ns)" by (rule nth_mem) (use before p in simp)
      then have notx: "(0 # ns) ! j \<noteq> x" using shape(1) by auto
      have rest: "find ?P (drop j ?ns) = (case find ?P (drop j (take p ns)) of None \<Rightarrow> Some x | Some z \<Rightarrow> Some z)"
        using before p i by (simp add: find_append split: option.split)
      show ?thesis
      proof (cases "find ?P (drop j (take p ns))")
        case None
        then have "?k = (0 # ns) ! j"
          using prev_unique [of l ns p i ?k j] prev k(2) before high node
          by (simp add: find_None_drop_take [OF p] not_less hgt)
        then show ?thesis using rest None node by (simp add: now)
      next
        case (Some z)
        have "?k \<noteq> (0 # ns) ! j"
        proof
          assume "?k = (0 # ns) ! j"
          then have "k = j" using nth_eq_iff_index_eq [of "0 # ns" k j] shape(1) kl before p by simp
          then show False using Some between find_None_drop_take [OF p, of ?P j] by (simp add: not_less)
        qed
        moreover have "node_next (sl_nodes l ! ((0 # ns) ! j)) ! i = find ?P (drop j ns)"
          using links high before p unfolding links_ok_def node hgt by simp
        ultimately show ?thesis using rest Some node notx split [OF before] by (simp add: now find_append)
      qed
    next
      case new
      then have "(0 # ?ns) ! j = x" "drop j ?ns = drop p ns" using p by (simp_all add: nth_append)
      then show ?thesis using kn(2) by (auto simp: now)
    next
      case after
      have node: "(0 # ?ns) ! j = (0 # ns) ! m" using after p by (cases m) (auto simp: nth_append nth_Cons')
      have dr: "drop j ?ns = drop m ns" using after p by (cases m) (auto simp: Suc_diff_le)
      have "(0 # ns) ! m \<in> set (0 # ns)" by (rule nth_mem) (use after in simp)
      then have notx: "(0 # ns) ! m \<noteq> x" using shape(1) by auto
      have "?k \<noteq> (0 # ns) ! m"
        using nth_eq_iff_index_eq [of "0 # ns" k m] shape(1) kl after k(1) by simp
      moreover have "node_next (sl_nodes l ! ((0 # ns) ! m)) ! i = find ?P (drop m ns)"
        by (rule links_ok_at [OF links after(3)]) (use high in \<open>simp only: node hgt\<close>)
      ultimately show ?thesis using node notx dr by (simp add: now)
    qed
    then show "node_next (sl_nodes l2 ! ((0 # ?ns) ! j)) ! i = find (\<lambda>z. i < hgt l2 z) (drop j ?ns)"
      by (simp add: hgt)
  qed
  ultimately show ?thesis by blast
qed

lemma links_ok_low:
  assumes "hgt l x \<le> i" "p \<le> length ns" "links_ok l ns i"
  shows "links_ok l (take p ns @ x # drop p ns) i"
  unfolding links_ok_def
proof (intro allI impI)
  let ?ns = "take p ns @ x # drop p ns" and ?P = "\<lambda>z. i < hgt l z"
  fix j
  assume j: "j < length (0 # ?ns)" and high: "i < hgt l ((0 # ?ns) ! j)"
  define j' where "j' = (if j \<le> p then j else j - 1)"
  have "j \<noteq> Suc p"
    using high assms(1,2) by (auto simp: nth_append)
  then have node: "(0 # ?ns) ! j = (0 # ns) ! j'"
    using assms(2) j by (cases j) (auto simp: j'_def nth_append nth_Cons')
  have "find ?P (drop j ?ns) = find ?P (drop j' ns)"
  proof (cases "j \<le> p")
    case True
    have "drop j ns = drop j (take p ns) @ drop p ns"
      using True assms(2) by (metis append_take_drop_id drop_append diff_is_0_eq drop_0 length_take min.absorb2)
    then show ?thesis using True assms(1,2) by (simp add: j'_def find_append split: option.split)
  next
    case False
    then show ?thesis using assms(2) \<open>j \<noteq> Suc p\<close> by (cases j) (auto simp: j'_def Suc_diff_le)
  qed
  moreover have "node_next (sl_nodes l ! ((0 # ns) ! j')) ! i = find ?P (drop j' ns)"
    by (rule links_ok_at [OF assms(3)]) (use high node j \<open>j \<noteq> Suc p\<close> assms(2) in \<open>auto simp: j'_def\<close>)
  ultimately show "node_next (sl_nodes l ! ((0 # ?ns) ! j)) ! i = find ?P (drop j ?ns)"
    using node by simp
qed

lemma link_levels_spec:
  assumes "distinct levels" "distinct (x # 0 # ns)" "\<forall>z \<in> set (x # 0 # ns). z < length (sl_nodes l)"
    and "\<forall>i \<in> set levels. links_ok l ns i \<and> i < hgt l x \<and> prev_ok l ns p i (prev ! i)" "p \<le> length ns"
  shows "\<exists>l'. link_levels x prev levels l = Some l' \<and> same_but (set levels) l l' \<and>
    (\<forall>i \<in> set levels. links_ok l' (take p ns @ x # drop p ns) i)"
  using assms
proof (induction levels arbitrary: l)
  case Nil
  then show ?case by (simp add: same_but_refl)
next
  case (Cons i levels)
  let ?ns = "take p ns @ x # drop p ns"
  obtain l1 where l1: "link_level x prev i l = Some l1" "same_but {i} l l1" "links_ok l1 ?ns i"
    using link_level_spec [of x ns l i p prev] Cons.prems by auto
  have hgt: "hgt l1 = hgt l" and len: "length (sl_nodes l1) = length (sl_nodes l)"
    using l1(2) by (auto simp: same_but_def)
  have "\<forall>k \<in> set levels. links_ok l1 ns k \<and> k < hgt l1 x \<and> prev_ok l1 ns p k (prev ! k)"
  proof
    fix k
    assume k: "k \<in> set levels"
    then have "k \<notin> {i}" using Cons.prems(1) by auto
    with l1(2) have "links_ok l1 ns k \<longleftrightarrow> links_ok l ns k" by (rule links_ok_same)
    then show "links_ok l1 ns k \<and> k < hgt l1 x \<and> prev_ok l1 ns p k (prev ! k)"
      using Cons.prems(4) k by (simp add: hgt prev_ok_def)
  qed
  then obtain l2 where l2: "link_levels x prev levels l1 = Some l2" "same_but (set levels) l1 l2"
    "\<forall>k \<in> set levels. links_ok l2 ?ns k"
    using Cons.IH [of l1] Cons.prems len by auto
  have "links_ok l2 ?ns i"
    using links_ok_same [OF l2(2), of i ?ns] l1(3) Cons.prems(1) by simp
  then show ?case
    using l1(1) l2 same_but_trans [OF l1(2) l2(2)] by simp
qed

lemma RandomHeight_range: "RandomHeight rnd = (h, rnd') \<Longrightarrow> 1 \<le> h \<and> h \<le> kMaxHeight"
proof -
  have "1 \<le> k \<Longrightarrow> k \<le> kMaxHeight \<Longrightarrow> random_height_loop k rnd = (h, rnd') \<Longrightarrow> 1 \<le> h \<and> h \<le> kMaxHeight" for k
  proof (induction k rnd rule: random_height_loop.induct)
    case (1 k rnd)
    have "(if k < kMaxHeight then let r = Random_Next rnd in
        if r mod kBranching = 0 then random_height_loop (k + 1) r else (k, r) else (k, rnd)) = (h, rnd')"
      using 1(4) by (simp only: random_height_loop.simps [of k rnd])
    then show ?case
      using 1(1) [OF _ refl] 1(2,3) by (auto simp: Let_def split: if_splits)
  qed
  from this [of 1] show "RandomHeight rnd = (h, rnd') \<Longrightarrow> 1 \<le> h \<and> h \<le> kMaxHeight"
    by (simp add: RandomHeight_def kMaxHeight_def)
qed

lemma fold_prev:
  fixes prev :: "nat option list"
  shows "length prev = kMaxHeight \<Longrightarrow> h \<le> kMaxHeight \<Longrightarrow> i < kMaxHeight \<Longrightarrow>
   fold (\<lambda>i prev. prev[i := Some 0]) [m..<h] prev ! i = (if m \<le> i \<and> i < h then Some 0 else prev ! i)"
proof (induction h)
  case (Suc h)
  have len: "length (fold (\<lambda>i prev. prev[i := Some 0]) xs ps) = length (ps :: nat option list)" for xs ps
    by (induction xs arbitrary: ps) simp_all
  show ?case
    using Suc by (cases "m \<le> h") (auto simp: len nth_list_update)
qed simp

text \<open>The list that enters the loop over the levels: the new node is there, not linked.\<close>

definition grown :: "'k \<Rightarrow> 'k SkipList \<Rightarrow> 'k SkipList" where
  "grown key l =
     (let (height, rnd) = RandomHeight (sl_rnd l) in
      l\<lparr>sl_rnd := rnd, sl_max_height := max height (sl_max_height l), sl_nodes := sl_nodes l @ [NewNode key height]\<rparr>)"

definition grown_prev :: "'k SkipList \<Rightarrow> nat option list \<Rightarrow> nat option list" where
  "grown_prev l prev =
     (let height = fst (RandomHeight (sl_rnd l)) in
      if height > sl_max_height l then fold (\<lambda>i prev. prev[i := Some 0]) [sl_max_height l..<height] prev else prev)"

lemma grown_simps:
  "length (sl_nodes (grown key l)) = Suc (length (sl_nodes l))"
  "z < length (sl_nodes l) \<Longrightarrow> sl_nodes (grown key l) ! z = sl_nodes l ! z"
  "sl_nodes (grown key l) ! length (sl_nodes l) = NewNode key (fst (RandomHeight (sl_rnd l)))"
  "sl_max_height (grown key l) = max (fst (RandomHeight (sl_rnd l))) (sl_max_height l)"
  by (simp_all add: grown_def nth_append split: prod.splits)

lemma grown_old:
  assumes "z < length (sl_nodes l)"
  shows "hgt (grown key l) z = hgt l z" "key_of (grown key l) z = key_of l z"
  using assms by (simp_all add: hgt_def key_of_def grown_simps)

lemma grown_new:
  "hgt (grown key l) (length (sl_nodes l)) = fst (RandomHeight (sl_rnd l))"
  "key_of (grown key l) (length (sl_nodes l)) = key"
  by (simp_all add: hgt_def key_of_def grown_simps NewNode_def)

lemma find_cong_set: "(\<And>x. x \<in> set xs \<Longrightarrow> P x = Q x) \<Longrightarrow> find P xs = find Q xs"
  by (induction xs) simp_all

lemma grown_inv:
  assumes "skip_inv l ns"
  shows "skip_inv (grown key l) ns"
proof -
  have below: "z < length (sl_nodes l)" if "z \<in> set (0 # ns)" for z
    using assms that unfolding skip_inv_def by blast
  have same: "z < Suc (length (sl_nodes l)) \<and> hgt (grown key l) z = hgt l z" if "z \<in> set (0 # ns)" for z
    using below [OF that] by (simp add: grown_old)
  have height: "1 \<le> fst (RandomHeight (sl_rnd l)) \<and> fst (RandomHeight (sl_rnd l)) \<le> kMaxHeight"
    using RandomHeight_range [of "sl_rnd l"] by (metis prod.collapse)
  have "shape_ok (grown key l) ns"
    unfolding shape_ok_def grown_simps
    using assms height same same [of 0] by (auto simp: skip_inv_levels shape_ok_def le_max_iff_disj)
  moreover have "links_ok (grown key l) ns i" for i
    unfolding links_ok_def
  proof (intro allI impI)
    fix j
    assume j: "j < length (0 # ns)" and high: "i < hgt (grown key l) ((0 # ns) ! j)"
    have z: "(0 # ns) ! j < length (sl_nodes l)" by (rule below [OF nth_mem [OF j]])
    have "find (\<lambda>x. i < hgt l x) (drop j ns) = find (\<lambda>x. i < hgt (grown key l) x) (drop j ns)"
    proof (rule find_cong_set)
      fix x
      assume "x \<in> set (drop j ns)"
      then have "x < length (sl_nodes l)" using below [of x] by (auto dest: in_set_dropD)
      then show "(i < hgt l x) = (i < hgt (grown key l) x)" by (simp add: grown_old)
    qed
    moreover have "node_next (sl_nodes l ! ((0 # ns) ! j)) ! i = find (\<lambda>x. i < hgt l x) (drop j ns)"
      by (rule links_ok_at) (use assms j high z in \<open>auto simp: skip_inv_levels grown_old\<close>)
    ultimately show "node_next (sl_nodes (grown key l) ! ((0 # ns) ! j)) ! i =
        find (\<lambda>x. i < hgt (grown key l) x) (drop j ns)"
      using z by (simp add: grown_simps)
  qed
  ultimately show ?thesis by (simp add: skip_inv_levels)
qed

lemma grown_prev_ok:
  assumes inv: "skip_inv l ns" and len: "length prev = kMaxHeight" and p: "p \<le> length ns"
    and prev: "\<forall>level < sl_max_height l. prev_ok l ns p level (prev ! level)"
    and i: "i < fst (RandomHeight (sl_rnd l))"
  shows "prev_ok (grown key l) ns p i (grown_prev l prev ! i)"
proof -
  have below: "z < length (sl_nodes l)" if "z \<in> set (0 # ns)" for z
    using inv that unfolding skip_inv_def by blast
  have height: "fst (RandomHeight (sl_rnd l)) \<le> kMaxHeight"
    using RandomHeight_range [of "sl_rnd l"] by (metis prod.collapse)
  have at: "grown_prev l prev ! i = (if sl_max_height l \<le> i then Some 0 else prev ! i)"
    using fold_prev [OF len height, of i "sl_max_height l"] i height by (auto simp: grown_prev_def Let_def)
  have hgt: "hgt (grown key l) ((0 # ns) ! m) = hgt l ((0 # ns) ! m)" if "m \<le> length ns" for m
    by (rule grown_old, rule below, rule nth_mem) (use that in simp)
  have hgt': "hgt (grown key l) (ns ! m) = hgt l (ns ! m)" if "m < length ns" for m
    using hgt [of "Suc m"] that by simp
  show ?thesis
  proof (cases "sl_max_height l \<le> i")
    case True
    have "hgt l (ns ! m) \<le> i" if "m < length ns" for m
    proof -
      have "ns ! m \<in> set ns" using that by simp
      then have "hgt l (ns ! m) \<le> sl_max_height l" using inv unfolding skip_inv_def by blast
      then show ?thesis using True by simp
    qed
    moreover have "i < hgt l 0" using inv i height by (simp add: skip_inv_def)
    ultimately show ?thesis
      using True at hgt [of 0] hgt' p by (auto simp: prev_ok_def intro!: exI [of _ 0])
  next
    case False
    then obtain j where j: "j \<le> p" "prev ! i = Some ((0 # ns) ! j)" "i < hgt l ((0 # ns) ! j)"
      "\<forall>m. j \<le> m \<longrightarrow> m < p \<longrightarrow> hgt l (ns ! m) \<le> i"
      using prev unfolding prev_ok_def by (meson not_le)
    then show ?thesis
      using False at hgt [of j] hgt' p unfolding prev_ok_def by (intro exI [of _ j]) auto
  qed
qed

lemma link_all_inv:
  assumes inv: "skip_inv l ns" and x: "x < length (sl_nodes l)" "x \<notin> set (0 # ns)" "1 \<le> hgt l x"
    "hgt l x \<le> sl_max_height l" and p: "p \<le> length ns"
    and prev: "\<forall>i < hgt l x. prev_ok l ns p i (prev ! i)"
  shows "\<exists>l'. link_levels x prev [0..<hgt l x] l = Some l' \<and> same_but {..<hgt l x} l l' \<and>
    skip_inv l' (take p ns @ x # drop p ns)"
proof -
  let ?ns = "take p ns @ x # drop p ns"
  have set: "set ?ns = insert x (set ns)"
    using p by (metis Un_insert_right append_take_drop_id list.simps(15) set_append)
  have "distinct ?ns" using inv x(2) p set_take_disj_set_drop_if_distinct [of ns p p]
    by (auto simp: skip_inv_def dest: in_set_takeD in_set_dropD)
  obtain l' where l': "link_levels x prev [0..<hgt l x] l = Some l'" "same_but (set [0..<hgt l x]) l l'"
    "\<forall>i \<in> set [0..<hgt l x]. links_ok l' ?ns i"
    using link_levels_spec [of "[0..<hgt l x]" x ns l p prev] inv x p prev
    by (auto simp: skip_inv_levels shape_ok_def)
  have hgt: "hgt l' = hgt l" using l'(2) by (auto simp: same_but_def)
  have "links_ok l' ?ns i" for i
  proof (cases "i < hgt l x")
    case False
    then have "links_ok l' ns i" using links_ok_same [OF l'(2), of i ns] inv by (simp add: skip_inv_levels)
    then show ?thesis using False p hgt by (intro links_ok_low) simp_all
  qed (use l'(3) in simp)
  moreover have "shape_ok l' ?ns"
    using inv x l'(2) \<open>distinct ?ns\<close> set hgt by (auto simp: skip_inv_levels shape_ok_def same_but_def)
  ultimately have "skip_inv l' ?ns" unfolding skip_inv_levels by blast
  then show ?thesis using l' by (auto simp: lessThan_atLeast0)
qed

context key_order
begin

text \<open>The list holds the keys \<open>ks\<close>, in this order.\<close>

definition skip_rep :: "'k SkipList \<Rightarrow> 'k list \<Rightarrow> bool" where
  "skip_rep l ks \<longleftrightarrow> (\<exists>ns. skip_inv l ns \<and> keys_ok l ns \<and> ks = map (key_of l) ns)"

lemma skip_new_rep: "skip_rep (SkipList_new any_key) []"
  by (auto simp: skip_rep_def skip_inv_def keys_ok_def SkipList_new_def hgt_def NewNode_def kMaxHeight_def
      simp del: replicate.simps intro!: exI [of _ "[]"])

text \<open>The key goes to its place; a failing assertion of an equal key has no result.\<close>

definition ordered_insert :: "'k \<Rightarrow> 'k list \<Rightarrow> 'k list" where
  "ordered_insert key ks = take (seek_pos ks key) ks @ key # drop (seek_pos ks key) ks"

lemma seek_split:
  assumes "sorted_wrt (\<lambda>a b. c a b < 0) ks" "\<forall>k \<in> set ks. valid k" "valid key"
  shows "\<forall>k \<in> set (take (seek_pos ks key) ks). c k key < 0"
    and "\<forall>k \<in> set (drop (seek_pos ks key) ks). \<not> c k key < 0"
proof -
  let ?p = "seek_pos ks key" and ?P = "\<lambda>k. c k key < 0"
  have tw: "take ?p ks = takeWhile ?P ks" unfolding seek_pos_def by (rule takeWhile_eq_take [symmetric])
  show "\<forall>k \<in> set (take ?p ks). ?P k" unfolding tw by (auto dest: set_takeWhileD)
  have dw: "drop ?p ks = dropWhile ?P ks" unfolding seek_pos_def by (rule dropWhile_eq_drop [symmetric])
  have "\<not> ?P k" if "k \<in> set (dropWhile ?P ks)" for k
  proof (cases "dropWhile ?P ks")
    case (Cons a rest)
    then have a: "\<not> ?P a" by (metis hd_dropWhile list.distinct(1) list.sel(1))
    have sub: "set (a # rest) \<subseteq> set ks" using Cons by (metis set_dropWhileD subsetI)
    have "sorted_wrt (\<lambda>a b. c a b < 0) (a # rest)"
      using assms(1) Cons by (metis sorted_wrt_append takeWhile_dropWhile_id)
    then have "k = a \<or> c a k < 0" using that Cons by auto
    then show ?thesis
    proof
      assume "c a k < 0"
      then show ?thesis using a c_less_trans [of a k key] assms(2,3) that Cons sub by (meson list.set_intros(1) set_dropWhileD subsetD)
    qed (use a in simp)
  next
    case Nil
    then show ?thesis using that by (simp only: list.set empty_iff)
  qed
  then show "\<forall>k \<in> set (drop ?p ks). \<not> ?P k" unfolding dw by blast
qed

lemma skip_Insert_spec:
  assumes rep: "skip_rep l ks" and key: "valid key"
  shows "if \<exists>k \<in> set ks. c key k = 0 then skip_Insert cmp key l = None
    else \<exists>l'. skip_Insert cmp key l = Some l' \<and> skip_rep l' (ordered_insert key ks)"
proof -
  obtain ns where inv: "skip_inv l ns" and keys: "keys_ok l ns" and ks: "ks = map (key_of l) ns"
    using rep by (auto simp: skip_rep_def)
  let ?p = "seek_pos ks key"
  obtain prev where find: "FindGreaterOrEqual cmp l key = Some (if ?p < length ns then Some (ns ! ?p) else None, prev)"
    and len: "length prev = kMaxHeight" and prev: "\<forall>level < sl_max_height l. prev_ok l ns ?p level (prev ! level)"
    using FindGreaterOrEqual_spec [OF inv keys key] ks by auto
  have p: "?p \<le> length ns" using seek_pos_le [of ks key] ks by simp
  have sorted: "sorted_wrt (\<lambda>a b. c a b < 0) ks" and valid: "\<forall>k \<in> set ks. valid k"
    using keys ks by (auto simp: keys_ok_def sorted_wrt_map)
  have len_ks: "length ks = length ns" using ks by simp
  have equal: "(\<exists>k \<in> set ks. c key k = 0) \<longleftrightarrow> ?p < length ks \<and> c key (ks ! ?p) = 0"
  proof
    assume "\<exists>k \<in> set ks. c key k = 0"
    then obtain k where k: "k \<in> set ks" "c key k = 0" by blast
    have kk: "\<not> c k key < 0" using c_sign [of k key] k valid key by auto
    then have "k \<in> set (drop ?p ks)"
      using seek_split(1) [OF sorted valid key] k(1) by (metis UnE append_take_drop_id set_append)
    then have pl: "?p < length ks" by (metis drop_all empty_iff list.set(1) not_le)
    then have front: "drop ?p ks = ks ! ?p # drop (Suc ?p) ks" by (rule Cons_nth_drop_Suc [symmetric])
    have "sorted_wrt (\<lambda>a b. c a b < 0) (drop ?p ks)" using sorted by (rule sorted_wrt_drop)
    then have "k = ks ! ?p \<or> c (ks ! ?p) k < 0"
      using \<open>k \<in> set (drop ?p ks)\<close> unfolding front by auto
    moreover have False if "c (ks ! ?p) k < 0"
    proof -
      have v: "valid (ks ! ?p)" "valid k" using valid pl k(1) by simp_all
      have "c k key \<le> 0" using c_sign [OF key v(2)] k(2) by simp
      moreover have "\<not> c (ks ! ?p) key < 0"
        using seek_split(2) [OF sorted valid key] pl by (simp add: Cons_nth_drop_Suc [symmetric])
      then have "c key (ks ! ?p) \<le> 0" using c_sign [OF v(1) key] by simp
      ultimately have "c k (ks ! ?p) \<le> 0" using c_trans [OF v(2) key v(1)] by simp
      then show False using c_sign [OF v] that by simp
    qed
    ultimately show "?p < length ks \<and> c key (ks ! ?p) = 0" using pl k(2) by blast
  qed (use nth_mem in blast)
  show ?thesis
  proof (cases "\<exists>k \<in> set ks. c key k = 0")
    case True
    then have at: "?p < length ns" "c key (ks ! ?p) = 0" using equal len_ks by simp_all
    then have "c key (key_of l (ns ! ?p)) = 0" using ks by simp
    then have "cmp key (key_of l (ns ! ?p)) = Some 0"
      using keys key at(1) by (simp add: keys_ok_def cmp_returns)
    then have "skip_Insert cmp key l = None"
      using find at(1) by (simp add: skip_Insert_def)
    then show ?thesis using True by simp
  next
    case False
    have eq: "(case (if ?p < length ns then Some (ns ! ?p) else None) of None \<Rightarrow> Some False
        | Some x \<Rightarrow> map_option (\<lambda>r. r = 0) (cmp key (key_of l x))) = Some False"
    proof (cases "?p < length ns")
      case True
      then have "cmp key (key_of l (ns ! ?p)) = Some (c key (key_of l (ns ! ?p)))"
        using keys key by (simp add: keys_ok_def cmp_returns)
      moreover have "c key (key_of l (ns ! ?p)) \<noteq> 0" using False equal True ks by auto
      ultimately show ?thesis using True by simp
    qed simp
    let ?x = "length (sl_nodes l)" and ?g = "grown key l"
    have x: "hgt ?g ?x = fst (RandomHeight (sl_rnd l))" by (rule grown_new)
    have Insert: "skip_Insert cmp key l = link_levels ?x (grown_prev l prev) [0..<hgt ?g ?x] ?g"
      unfolding skip_Insert_def find option.case prod.case eq x
      by (simp add: grown_def grown_prev_def Let_def split: prod.splits)
    have below: "\<forall>z \<in> set (0 # ns). z < ?x" using inv unfolding skip_inv_def by blast
    have range: "1 \<le> hgt ?g ?x \<and> hgt ?g ?x \<le> sl_max_height ?g"
      using RandomHeight_range [of "sl_rnd l"] unfolding x grown_simps by (metis max.cobounded1 prod.collapse)
    obtain l' where l': "link_levels ?x (grown_prev l prev) [0..<hgt ?g ?x] ?g = Some l'"
      "same_but {..<hgt ?g ?x} ?g l'" "skip_inv l' (take ?p ns @ ?x # drop ?p ns)"
      using link_all_inv [OF grown_inv [OF inv, of key], of ?x ?p "grown_prev l prev"]
        grown_prev_ok [OF inv len p prev, of _ key] below range p x
      by (auto simp: grown_simps(1))
    let ?ns = "take ?p ns @ ?x # drop ?p ns"
    have key_old: "key_of l' z = key_of l z" if "z \<in> set ns" for z
      using l'(2) below that by (simp add: same_but_def grown_old)
    have key_new: "key_of l' ?x = key" using l'(2) by (simp add: same_but_def grown_new)
    have map_keys: "map (key_of l') ?ns = ordered_insert key ks"
      using key_old key_new by (auto simp: ordered_insert_def ks take_map drop_map dest: in_set_takeD in_set_dropD)
    have "sorted_wrt (\<lambda>a b. c a b < 0) (ordered_insert key ks)"
    proof -
      note split = seek_split [OF sorted valid key]
      have after: "c key k < 0" if "k \<in> set (drop ?p ks)" for k
      proof -
        have "k \<in> set ks" using that by (rule in_set_dropD)
        then have "c key k \<noteq> 0" "valid k" using False valid by auto
        moreover have "\<not> c k key < 0" using split(2) that by blast
        ultimately show ?thesis using c_sign [of k key] key by auto
      qed
      moreover have "sorted_wrt (\<lambda>a b. c a b < 0) (take ?p ks @ drop ?p ks)" using sorted by simp
      ultimately show ?thesis using split(1) unfolding ordered_insert_def sorted_wrt_append by auto
    qed
    moreover have "\<forall>k \<in> set (ordered_insert key ks). valid k"
      using valid key by (auto simp: ordered_insert_def dest: in_set_takeD in_set_dropD)
    ultimately have "keys_ok l' ?ns"
      unfolding keys_ok_def map_keys [symmetric] sorted_wrt_map by auto
    then have "skip_rep l' (ordered_insert key ks)"
      unfolding skip_rep_def using l'(3) map_keys by (metis)
    then show ?thesis using False Insert l'(1) by simp
  qed
qed

lemma skip_rep_ordered:
  assumes "skip_rep l ks"
  shows "sorted_wrt (\<lambda>a b. c a b < 0) ks" "\<forall>k \<in> set ks. valid k"
  using assms by (auto simp: skip_rep_def keys_ok_def sorted_wrt_map)

lemma seek_pos_self:
  assumes "sorted_wrt (\<lambda>a b. c a b < 0) ks" "\<forall>k \<in> set ks. valid k" "n < length ks"
  shows "seek_pos ks (ks ! n) = n"
proof -
  have "takeWhile (\<lambda>k. c k (ks ! n) < 0) ks = take n ks"
  proof (rule takeWhile_eq_take_P_nth)
    show "c (ks ! i) (ks ! n) < 0" if "i < n" "i < length ks" for i
      using assms(1,3) that by (simp add: sorted_wrt_iff_nth_less)
    show "\<not> c (ks ! n) (ks ! n) < 0" using c_sign [of "ks ! n" "ks ! n"] assms(2,3) by fastforce
  qed
  then show ?thesis using assms(3) by (simp add: seek_pos_def)
qed

lemma skip_Contains_spec:
  assumes "skip_rep l ks" "valid key"
  shows "skip_Contains cmp l key = Some (seek_pos ks key < length ks \<and> c key (ks ! seek_pos ks key) = 0)"
proof -
  obtain ns where inv: "skip_inv l ns" "keys_ok l ns" and ks: "ks = map (key_of l) ns"
    using assms(1) by (auto simp: skip_rep_def)
  obtain prev where "FindGreaterOrEqual cmp l key =
      Some (if seek_pos ks key < length ns then Some (ns ! seek_pos ks key) else None, prev)"
    using FindGreaterOrEqual_spec [OF inv assms(2)] ks by auto
  then show ?thesis
    using inv(2) assms(2) ks by (auto simp: skip_Contains_def keys_ok_def cmp_returns)
qed

section \<open>Iterators\<close>

text \<open>An iterator at position \<open>n\<close> of the keys \<open>ks\<close>, behind the last one when it is not valid.\<close>

definition iter_rep :: "'k list \<Rightarrow> nat \<Rightarrow> 'k SkipIter \<Rightarrow> bool" where
  "iter_rep ks n it \<longleftrightarrow> (\<exists>ns. skip_inv (si_list it) ns \<and> keys_ok (si_list it) ns \<and>
     ks = map (key_of (si_list it)) ns \<and> n \<le> length ns \<and>
     si_node it = (if n < length ns then Some (ns ! n) else None))"

lemma iter_rep_new: "skip_rep l ks \<Longrightarrow> iter_rep ks (length ks) (SkipIter_new l)"
  by (auto simp: skip_rep_def iter_rep_def SkipIter_new_def)

lemma iter_rep_le: "iter_rep ks n it \<Longrightarrow> n \<le> length ks"
  by (auto simp: iter_rep_def)

lemma iter_rep_valid: "iter_rep ks n it \<Longrightarrow> k \<in> set ks \<Longrightarrow> valid k"
  by (auto simp: iter_rep_def keys_ok_def)

lemma SkipIter_Valid_rep: "iter_rep ks n it \<Longrightarrow> SkipIter_Valid it \<longleftrightarrow> n < length ks"
  by (auto simp: iter_rep_def SkipIter_Valid_def split: if_splits)

lemma SkipIter_key_rep: "iter_rep ks n it \<Longrightarrow> SkipIter_key it = (if n < length ks then Some (ks ! n) else None)"
  by (auto simp: iter_rep_def SkipIter_key_def)

lemma SkipIter_Next_rep:
  assumes "iter_rep ks n it" "n < length ks"
  shows "\<exists>it'. SkipIter_Next it = Some it' \<and> iter_rep ks (n + 1) it'"
proof -
  obtain ns where ns: "skip_inv (si_list it) ns" "keys_ok (si_list it) ns" "ks = map (key_of (si_list it)) ns"
    "si_node it = Some (ns ! n)" "n < length ns"
    using assms by (auto simp: iter_rep_def)
  have high: "1 \<le> hgt (si_list it) z" if "z \<in> set ns" for z
    using ns(1) that unfolding skip_inv_def by blast
  have "find (\<lambda>x. 0 < hgt (si_list it) x) (drop (n + 1) ns) = (if n + 1 < length ns then Some (ns ! (n + 1)) else None)"
    using high [of "ns ! (n + 1)"] by (auto simp: Cons_nth_drop_Suc [symmetric])
  moreover have "node_Next (si_list it) (ns ! n) 0 = Some (find (\<lambda>x. 0 < hgt (si_list it) x) (drop (n + 1) ns))"
    using node_Next_eq [OF ns(1), of "n + 1" 0] high [of "ns ! n"] ns(5) by simp
  ultimately show ?thesis using ns by (auto simp: SkipIter_Next_def iter_rep_def)
qed

lemma SkipIter_First_rep:
  assumes "iter_rep ks n it"
  shows "\<exists>it'. SkipIter_SeekToFirst it = Some it' \<and> iter_rep ks 0 it'"
proof -
  obtain ns where ns: "skip_inv (si_list it) ns" "keys_ok (si_list it) ns" "ks = map (key_of (si_list it)) ns"
    using assms by (auto simp: iter_rep_def)
  have high: "1 \<le> hgt (si_list it) z" if "z \<in> set ns" for z
    using ns(1) that unfolding skip_inv_def by blast
  have "find (\<lambda>x. 0 < hgt (si_list it) x) ns = (if 0 < length ns then Some (ns ! 0) else None)"
    using high by (cases ns) force+
  moreover have "0 < hgt (si_list it) 0" using ns(1) by (simp add: skip_inv_def kMaxHeight_def)
  ultimately show ?thesis
    using node_Next_eq [OF ns(1), of 0 0] ns by (auto simp: SkipIter_SeekToFirst_def iter_rep_def)
qed

lemma SkipIter_Last_rep:
  assumes "iter_rep ks n it"
  shows "\<exists>it'. SkipIter_SeekToLast it = Some it' \<and> iter_rep ks (length ks - 1) it'"
proof -
  obtain ns where ns: "skip_inv (si_list it) ns" "keys_ok (si_list it) ns" "ks = map (key_of (si_list it)) ns"
    using assms by (auto simp: iter_rep_def)
  have "0 \<notin> set ns" using ns(1) by (simp add: skip_inv_def)
  then have "ns ! (length ns - 1) \<noteq> 0" if "ns \<noteq> []" using that by (metis diff_less length_greater_0_conv nth_mem zero_less_one)
  moreover have "(0 # ns) ! length ns = (if ns = [] then 0 else ns ! (length ns - 1))" by (cases ns) simp_all
  ultimately show ?thesis
    using FindLast_spec [OF ns(1)] ns by (auto simp: SkipIter_SeekToLast_def iter_rep_def)
qed

lemma SkipIter_Seek_rep:
  assumes "iter_rep ks n it" "valid target"
  shows "\<exists>it'. SkipIter_Seek cmp target it = Some it' \<and> iter_rep ks (seek_pos ks target) it'"
proof -
  obtain ns where ns: "skip_inv (si_list it) ns" "keys_ok (si_list it) ns" "ks = map (key_of (si_list it)) ns"
    using assms(1) by (auto simp: iter_rep_def)
  obtain prev where "FindGreaterOrEqual cmp (si_list it) target =
      Some (if seek_pos ks target < length ns then Some (ns ! seek_pos ks target) else None, prev)"
    using FindGreaterOrEqual_spec [OF ns(1,2) assms(2)] ns(3) by auto
  moreover have "seek_pos ks target \<le> length ns" using seek_pos_le [of ks target] ns(3) by simp
  ultimately show ?thesis using ns by (auto simp: SkipIter_Seek_def iter_rep_def)
qed

lemma SkipIter_Prev_rep:
  assumes "iter_rep ks n it" "n < length ks"
  shows "\<exists>it'. SkipIter_Prev cmp it = Some it' \<and> iter_rep ks (if n = 0 then length ks else n - 1) it'"
proof -
  obtain ns where ns: "skip_inv (si_list it) ns" "keys_ok (si_list it) ns" "ks = map (key_of (si_list it)) ns"
    "si_node it = Some (ns ! n)" "n < length ns"
    using assms by (auto simp: iter_rep_def)
  have ord: "sorted_wrt (\<lambda>a b. c a b < 0) ks" "\<forall>k \<in> set ks. valid k"
    using ns by (auto simp: keys_ok_def sorted_wrt_map)
  have at: "ks ! n = key_of (si_list it) (ns ! n)" using ns(3,5) by simp
  have "valid (ks ! n)" using ord(2) assms(2) by simp
  then have "FindLessThan cmp (si_list it) (ks ! n) = Some ((0 # ns) ! n)"
    using FindLessThan_spec [OF ns(1,2)] seek_pos_self [OF ord assms(2)] ns(3) by simp
  moreover have "ns ! (n - 1) \<noteq> 0"
  proof -
    have "ns ! (n - 1) \<in> set ns" using ns(5) by simp
    moreover have "0 \<notin> set ns" using ns(1) by (simp add: skip_inv_def)
    ultimately show ?thesis by metis
  qed
  ultimately show ?thesis
    using ns at by (cases n) (auto simp: SkipIter_Prev_def iter_rep_def)
qed

end

section \<open>The list after any insertions\<close>

text \<open>A client that inserts one key after the other.\<close>

fun skip_inserts :: "('k \<Rightarrow> 'k \<Rightarrow> int option) \<Rightarrow> 'k list \<Rightarrow> 'k SkipList \<Rightarrow> 'k SkipList option" where
  "skip_inserts cmp [] l = Some l"
| "skip_inserts cmp (k # ks) l = (case skip_Insert cmp k l of None \<Rightarrow> None | Some l \<Rightarrow> skip_inserts cmp ks l)"

context key_order
begin

lemma set_ordered_insert: "set (ordered_insert key ks) = insert key (set ks)"
  unfolding ordered_insert_def by (metis Un_insert_right append_take_drop_id list.simps(15) set_append)

lemma skip_inserts_spec:
  "skip_rep l ks \<Longrightarrow> \<forall>k \<in> set keys. valid k \<Longrightarrow> distinct keys \<Longrightarrow>
   \<forall>a \<in> set keys \<union> set ks. \<forall>b \<in> set keys. c b a = 0 \<longrightarrow> a = b \<and> b \<notin> set ks \<Longrightarrow>
   \<exists>l' ks'. skip_inserts cmp keys l = Some l' \<and> skip_rep l' ks' \<and> set ks' = set ks \<union> set keys"
proof (induction keys arbitrary: l ks)
  case (Cons k keys)
  have "\<not> (\<exists>a \<in> set ks. c k a = 0)" using Cons.prems(4) by auto
  then obtain l1 where l1: "skip_Insert cmp k l = Some l1" "skip_rep l1 (ordered_insert k ks)"
    using skip_Insert_spec [OF Cons.prems(1), of k] Cons.prems(2) by auto
  have "\<forall>a \<in> set keys \<union> set (ordered_insert k ks). \<forall>b \<in> set keys. c b a = 0 \<longrightarrow> a = b \<and> b \<notin> set (ordered_insert k ks)"
    using Cons.prems(3,4) by (auto simp: set_ordered_insert)
  then obtain l' ks' where "skip_inserts cmp keys l1 = Some l'" "skip_rep l' ks'"
    "set ks' = set (ordered_insert k ks) \<union> set keys"
    using Cons.IH [OF l1(2)] Cons.prems(2,3) by auto
  then show ?case using l1(1) by (auto simp: set_ordered_insert)
qed auto

lemma skip_Contains_iff:
  assumes "skip_rep l ks" "valid key"
  shows "skip_Contains cmp l key = Some (\<exists>k \<in> set ks. c k key = 0)"
proof -
  note ord = skip_rep_ordered [OF assms(1)]
  note split = seek_split [OF ord assms(2)]
  let ?p = "seek_pos ks key"
  have "?p < length ks \<and> c key (ks ! ?p) = 0" if k: "k \<in> set ks" "c k key = 0" for k
  proof -
    have v: "valid k" using ord(2) k(1) by blast
    have "k \<in> set (take ?p ks) \<union> set (drop ?p ks)" using k(1) by (metis append_take_drop_id set_append)
    then have kd: "k \<in> set (drop ?p ks)" using split(1) k(2) by auto
    then have p: "?p < length ks" by (cases "?p < length ks") simp_all
    then have front: "drop ?p ks = ks ! ?p # drop (Suc ?p) ks" by (rule Cons_nth_drop_Suc [symmetric])
    have vp: "valid (ks ! ?p)" using ord(2) p by simp
    have "\<not> c (ks ! ?p) key < 0" using split(2) front by simp
    moreover have "k = ks ! ?p \<or> c (ks ! ?p) k < 0"
      using kd sorted_wrt_drop [OF ord(1), of ?p] unfolding front by auto
    moreover have "c (ks ! ?p) key \<le> 0" if "c (ks ! ?p) k < 0"
      using c_trans [OF vp v assms(2)] that k(2) by simp
    moreover have False if "c (ks ! ?p) k < 0" "c (ks ! ?p) key = 0"
    proof -
      have "c key (ks ! ?p) \<le> 0" using c_sign [OF vp assms(2)] that(2) by simp
      then have "c k (ks ! ?p) \<le> 0" using c_trans [OF v assms(2) vp] k(2) by simp
      then show False using c_sign [OF vp v] that(1) by simp
    qed
    ultimately have "k = ks ! ?p" by fastforce
    then show ?thesis using p k(2) c_sign [OF v assms(2)] c_sign [OF assms(2) v] by fastforce
  qed
  moreover have "\<exists>k \<in> set ks. c k key = 0" if "?p < length ks" "c key (ks ! ?p) = 0"
  proof -
    have "valid (ks ! ?p)" using ord(2) that(1) by simp
    then have "c (ks ! ?p) key = 0"
      using that(2) c_sign [of "ks ! ?p" key] c_sign [of key "ks ! ?p"] assms(2) by fastforce
    then show ?thesis using that(1) nth_mem by blast
  qed
  ultimately show ?thesis by (auto simp: skip_Contains_spec [OF assms])
qed

end

text \<open>The integers compared by subtraction.\<close>

interpretation int_order: key_order "\<lambda>a b. Some (a - b)" "\<lambda>a b. a - b" "\<lambda>_. True"
  by unfold_locales auto

text \<open>
  C11: After any insertions of different keys, in any order and with any random heights, no assertion
  failed and the skip list keeps its invariant: the nodes of the lowest level hold exactly the inserted
  keys, strictly ascending, the link of every node on every level below its height goes to the next node
  that is high enough, and no node is higher than the list.  Searches then find exactly the
  inserted keys.
\<close>

theorem skiplist_invariant:
  assumes "key_order cmp c valid" "\<forall>k \<in> set keys. valid k" "distinct keys"
    and "\<forall>a \<in> set keys. \<forall>b \<in> set keys. c a b = 0 \<longrightarrow> a = b"
  shows "\<exists>l ns. skip_inserts cmp keys (SkipList_new any_key) = Some l \<and> skip_inv l ns \<and>
    set (map (key_of l) ns) = set keys \<and> sorted_wrt (\<lambda>a b. c a b < 0) (map (key_of l) ns) \<and>
    (\<forall>key. valid key \<longrightarrow> skip_Contains cmp l key = Some (\<exists>k \<in> set keys. c k key = 0))"
proof -
  obtain l ks where l: "skip_inserts cmp keys (SkipList_new any_key) = Some l" "key_order.skip_rep c valid l ks"
    "set ks = set keys"
  proof -
    have "\<forall>a \<in> set keys \<union> set []. \<forall>b \<in> set keys. c b a = 0 \<longrightarrow> a = b \<and> b \<notin> set []"
      using assms(4) by auto
    from key_order.skip_inserts_spec [OF assms(1) key_order.skip_new_rep [OF assms(1)] assms(2,3) this, of any_key]
    show thesis using that by auto
  qed
  moreover obtain ns where "skip_inv l ns" "ks = map (key_of l) ns"
    using l(2) unfolding key_order.skip_rep_def [OF assms(1)] by blast
  ultimately show ?thesis
    using key_order.skip_rep_ordered(1) [OF assms(1) l(2)] key_order.skip_Contains_iff [OF assms(1) l(2)] by auto
qed

lemma skiplist_invariant_witness:
  "\<exists>l. skip_inserts (\<lambda>a b. Some (a - b)) [3, 1, 2 :: int] (SkipList_new 0) = Some l \<and>
     skip_Contains (\<lambda>a b. Some (a - b)) l 2 = Some True \<and> skip_Contains (\<lambda>a b. Some (a - b)) l 7 = Some False"
proof -
  have keys: "\<forall>k \<in> set [3, 1, 2 :: int]. True" "distinct [3, 1, 2 :: int]"
    "\<forall>a \<in> set [3, 1, 2 :: int]. \<forall>b \<in> set [3, 1, 2]. a - b = 0 \<longrightarrow> a = b"
    by simp_all
  from skiplist_invariant [OF int_order.key_order_axioms keys, of 0]
  obtain l where l: "skip_inserts (\<lambda>a b. Some (a - b)) [3, 1, 2 :: int] (SkipList_new 0) = Some l"
    and found: "\<forall>key. True \<longrightarrow> skip_Contains (\<lambda>a b. Some (a - b)) l key = Some (\<exists>k \<in> set [3, 1, 2]. k - key = 0)"
    by (elim exE conjE)
  show ?thesis by (intro exI [of _ l] conjI l) (simp_all add: found [rule_format])
qed

end
