(* ===== verification/LDB_Memtable_Props.thy ===== *)
theory LDB_Memtable_Props
  imports LDB_Memtable LDB_Key_Props LDB_Skiplist_Props
begin

text \<open>
  LevelDB: the memtable is a sorted list of entries, its iterator a cursor in it, and a lookup finds
  the newest version that its snapshot sees.
\<close>

section \<open>Entries\<close>

definition prefixed :: "slice \<Rightarrow> u8 list" where
  "prefixed s = EncodeVarint32 (word_of_nat (length s)) @ s"

definition entry_bytes :: "slice \<times> slice \<Rightarrow> u8 list" where
  "entry_bytes e = prefixed (fst e) @ prefixed (snd e)"

lemma mem_slice_prefixed [simp]:
  "length s < 2 ^ 32 \<Longrightarrow> mem_GetLengthPrefixedSlice (prefixed s @ rest) = Some (s, rest)"
  using unat_of_nat_32 [of "length s"] by (simp add: mem_GetLengthPrefixedSlice_def prefixed_def)

lemma mem_slice_prefixed0 [simp]:
  "length s < 2 ^ 32 \<Longrightarrow> mem_GetLengthPrefixedSlice (prefixed s) = Some (s, [])"
  using mem_slice_prefixed [of s "[]"] by simp

lemma EncodeKey_eq: "EncodeKey k = prefixed k"
  by (simp add: EncodeKey_def prefixed_def PutVarint32_def)

definition mem_valid :: "u8 list \<Rightarrow> bool" where
  "mem_valid b \<longleftrightarrow> (\<exists>k rest. mem_GetLengthPrefixedSlice b = Some (k, rest) \<and> 8 \<le> length k)"

definition mem_key :: "u8 list \<Rightarrow> slice" where
  "mem_key b = fst (the (mem_GetLengthPrefixedSlice b))"

definition entry_ok :: "slice \<times> slice \<Rightarrow> bool" where
  "entry_ok e \<longleftrightarrow> 8 \<le> length (fst e) \<and> length (fst e) < 2 ^ 32 \<and> length (snd e) < 2 ^ 32"

lemma mem_entry [simp]:
  assumes "entry_ok e"
  shows "mem_GetLengthPrefixedSlice (entry_bytes e) = Some (fst e, prefixed (snd e))"
    and "mem_key (entry_bytes e) = fst e" "mem_valid (entry_bytes e)"
  using assms by (simp_all add: entry_bytes_def mem_key_def mem_valid_def entry_ok_def)

lemma mem_target [simp]:
  assumes "8 \<le> length k" "length k < 2 ^ 32"
  shows "mem_key (prefixed k) = k" "mem_valid (prefixed k)"
  using assms by (simp_all add: mem_key_def mem_valid_def)

section \<open>The order of entries\<close>

context user_comparator
begin

lemma mem_key_order: "key_order (KeyComparator C) (\<lambda>a b. internal_compare C (mem_key a) (mem_key b)) mem_valid"
proof
  show "KeyComparator C a b = Some (internal_compare C (mem_key a) (mem_key b))" if "mem_valid a" "mem_valid b" for a b
    using that by (auto simp: KeyComparator_def mem_valid_def mem_key_def)
  show "internal_compare C (mem_key a) (mem_key b) < 0 \<longleftrightarrow> 0 < internal_compare C (mem_key b) (mem_key a)" for a b
    using internal_greater by blast
  show "internal_compare C (mem_key a) (mem_key b) \<le> 0 \<Longrightarrow> internal_compare C (mem_key b) (mem_key d) \<le> 0 \<Longrightarrow>
      internal_compare C (mem_key a) (mem_key d) \<le> 0" for a b d
    using internal_trans by blast
qed

end

sublocale user_comparator \<subseteq> mem: key_order "KeyComparator C" "\<lambda>a b. internal_compare C (mem_key a) (mem_key b)" mem_valid
  by (rule mem_key_order)

section \<open>The table as a sorted list\<close>

definition mem_insert :: "comparator \<Rightarrow> slice \<times> slice \<Rightarrow> entries \<Rightarrow> entries" where
  "mem_insert C e es =
     (let n = seek_index (internal_compare C) es (fst e) in take n es @ e # drop n es)"

lemma set_mem_insert: "set (mem_insert C e es) = insert e (set es)"
  unfolding mem_insert_def Let_def by (metis Un_insert_right append_take_drop_id list.simps(15) set_append)

context user_comparator
begin

definition mem_rep :: "MemTable \<Rightarrow> entries \<Rightarrow> bool" where
  "mem_rep m es \<longleftrightarrow> mt_comparator m = C \<and> mem.skip_rep (mt_table m) (map entry_bytes es) \<and> (\<forall>e \<in> set es. entry_ok e)"

definition mem_iter_rep :: "entries \<Rightarrow> nat \<Rightarrow> u8 list SkipIter \<Rightarrow> bool" where
  "mem_iter_rep es n it \<longleftrightarrow> mem.iter_rep (map entry_bytes es) n it \<and> (\<forall>e \<in> set es. entry_ok e)"

lemma mem_new_rep: "mem_rep (MemTable_new C) []"
  using mem.skip_new_rep by (simp add: mem_rep_def MemTable_new_def)

lemma mem_seek_pos:
  assumes "\<forall>e \<in> set es. entry_ok e" "mem_key b = k"
  shows "mem.seek_pos (map entry_bytes es) b = seek_index (internal_compare C) es k"
proof -
  have "takeWhile ((\<lambda>a. internal_compare C (mem_key a) (mem_key b) < 0) \<circ> entry_bytes) es =
      takeWhile (\<lambda>e. internal_compare C (fst e) k < 0) es"
    by (rule takeWhile_cong) (use assms in auto)
  then show ?thesis by (simp add: mem.seek_pos_def seek_index_def takeWhile_map)
qed

lemma mem_rep_sorted:
  assumes "mem_rep m es"
  shows "sorted_wrt (\<lambda>a b. internal_compare C (fst a) (fst b) < 0) es"
proof -
  have "sorted_wrt (\<lambda>a b. internal_compare C (mem_key (entry_bytes a)) (mem_key (entry_bytes b)) < 0) es"
    using mem.skip_rep_ordered(1) [of "mt_table m" "map entry_bytes es"] assms by (simp add: mem_rep_def sorted_wrt_map)
  then show ?thesis
    using assms by (auto simp: mem_rep_def sorted_wrt_iff_nth_less)
qed

lemma mem_add_rep:
  assumes rep: "mem_rep m es" and size: "length key + 8 < 2 ^ 32" "length val < 2 ^ 32"
    and new: "\<forall>e \<in> set es. internal_compare C (ikey key (push_bit 8 s OR ucast type)) (fst e) \<noteq> 0"
  shows "\<exists>m'. MemTable_Add s type key val m = Some m' \<and>
    mem_rep m' (mem_insert C (ikey key (push_bit 8 s OR ucast type), val) es)"
proof -
  let ?e = "(ikey key (push_bit 8 s OR ucast type), val)"
  have ok: "entry_ok ?e" using size by (simp add: entry_ok_def)
  have es: "\<forall>e \<in> set es. entry_ok e" using rep by (simp add: mem_rep_def)
  have small: "unat (word_of_nat n :: u32) = n \<and> unat (word_of_nat n :: u64) = n" if "n < 2 ^ 32" for n
    using that by (simp add: unat_of_nat)
  have buf: "EncodeVarint32 (word_of_nat (length key + 8)) @ key @ EncodeFixed64 (push_bit 8 s OR ucast type) @
      EncodeVarint32 (word_of_nat (length val)) @ val = entry_bytes ?e"
    by (simp add: entry_bytes_def prefixed_def ikey_def add.commute)
  have len: "length (entry_bytes ?e) = VarintLength (word_of_nat (length key + 8)) + (length key + 8) +
      VarintLength (word_of_nat (length val)) + length val"
    using small [of "length key + 8"] small [of "length val"] size
    by (simp add: entry_bytes_def prefixed_def EncodeVarint32_eq VarintLength_eq ikey_def)
  have "\<not> (\<exists>b \<in> set (map entry_bytes es). internal_compare C (mem_key (entry_bytes ?e)) (mem_key b) = 0)"
    using new ok es by auto
  then obtain t where t: "skip_Insert (KeyComparator C) (entry_bytes ?e) (mt_table m) = Some t"
    "mem.skip_rep t (mem.ordered_insert (entry_bytes ?e) (map entry_bytes es))"
    using mem.skip_Insert_spec [of "mt_table m" "map entry_bytes es" "entry_bytes ?e"] rep ok
    by (auto simp: mem_rep_def)
  have "mem.ordered_insert (entry_bytes ?e) (map entry_bytes es) = map entry_bytes (mem_insert C ?e es)"
    using mem_seek_pos [OF es, of "entry_bytes ?e"] ok
    by (simp add: mem.ordered_insert_def mem_insert_def Let_def take_map drop_map)
  moreover have "MemTable_Add s type key val m = Some (m\<lparr>mt_table := t\<rparr>)"
    using t(1) rep len unfolding MemTable_Add_def Let_def buf by (simp add: mem_rep_def)
  moreover have "\<forall>e \<in> set (mem_insert C ?e es). entry_ok e" using es ok by (simp add: set_mem_insert)
  ultimately show ?thesis using t(2) rep by (auto simp: mem_rep_def)
qed

lemma mem_iter_new: "mem_rep m es \<Longrightarrow> mem_iter_rep es (length es) (MemTable_NewIterator m)"
  using mem.iter_rep_new [of "mt_table m" "map entry_bytes es"]
  by (simp add: mem_rep_def mem_iter_rep_def MemTable_NewIterator_def)

lemma mem_iterator:
  "iterator (MemTableIterator C) mem_iter_rep (internal_compare C) (\<lambda>k. 8 \<le> length k \<and> length k < 2 ^ 32)"
proof
  fix es n i
  assume rep: "mem_iter_rep es n i"
  then have it: "mem.iter_rep (map entry_bytes es) n i" and ok: "\<forall>e \<in> set es. entry_ok e"
    by (simp_all add: mem_iter_rep_def)
  show "n \<le> length es" using mem.iter_rep_le [OF it] by simp
  show "Valid (MemTableIterator C) i \<longleftrightarrow> n < length es"
    using mem.SkipIter_Valid_rep [OF it] by (simp add: MemTableIterator_def)
  show "status_ok (iter_status (MemTableIterator C) i)"
    by (simp add: MemTableIterator_def status_ok_def status_OK_def)
  show "\<exists>i'. SeekToFirst (MemTableIterator C) i = Some i' \<and> mem_iter_rep es 0 i'"
    using mem.SkipIter_First_rep [OF it] ok by (simp add: MemTableIterator_def mem_iter_rep_def)
  show "\<exists>i'. SeekToLast (MemTableIterator C) i = Some i' \<and> mem_iter_rep es (length es - 1) i'"
    using mem.SkipIter_Last_rep [OF it] ok by (simp add: MemTableIterator_def mem_iter_rep_def)
  show "\<exists>i'. Seek (MemTableIterator C) target i = Some i' \<and>
      mem_iter_rep es (seek_index (internal_compare C) es target) i'"
    if "8 \<le> length target \<and> length target < 2 ^ 32" for target
    using mem.SkipIter_Seek_rep [OF it, of "prefixed target"] ok that mem_seek_pos [OF ok, of "prefixed target"]
    by (simp add: MemTableIterator_def mem_iter_rep_def EncodeKey_eq)
  assume n: "n < length es"
  then have okn: "entry_ok (es ! n)" using ok by simp
  have key: "SkipIter_key i = Some (entry_bytes (es ! n))"
    using mem.SkipIter_key_rep [OF it] n by simp
  show "iter_key (MemTableIterator C) i = Some (fst (es ! n))"
    using key okn by (simp add: MemTableIterator_def)
  show "iter_value (MemTableIterator C) i = Some (snd (es ! n))"
    using key okn by (simp add: MemTableIterator_def) (simp add: entry_ok_def)
  show "\<exists>i'. Next (MemTableIterator C) i = Some i' \<and> mem_iter_rep es (n + 1) i'"
    using mem.SkipIter_Next_rep [OF it] ok n by (simp add: MemTableIterator_def mem_iter_rep_def)
  show "\<exists>i'. Prev (MemTableIterator C) i = Some i' \<and> mem_iter_rep es (if n = 0 then length es else n - 1) i'"
    using mem.SkipIter_Prev_rep [OF it] ok n by (cases "n = 0") (simp_all add: MemTableIterator_def mem_iter_rep_def)
qed

end

sublocale user_comparator \<subseteq> mem_iter: iterator "MemTableIterator C" mem_iter_rep "internal_compare C"
    "\<lambda>k. 8 \<le> length k \<and> length k < 2 ^ 32"
  by (rule mem_iterator)

section \<open>Writes and what a snapshot sees of them\<close>

datatype batch_op = OpPut slice slice | OpDelete slice

fun op_key :: "batch_op \<Rightarrow> slice" where
  "op_key (OpPut k v) = k"
| "op_key (OpDelete k) = k"

fun op_value :: "batch_op \<Rightarrow> slice" where
  "op_value (OpPut k v) = v"
| "op_value (OpDelete k) = []"

fun op_type :: "batch_op \<Rightarrow> u8" where
  "op_type (OpPut k v) = kTypeValue"
| "op_type (OpDelete k) = kTypeDeletion"

definition op_ok :: "batch_op \<Rightarrow> bool" where
  "op_ok x \<longleftrightarrow> length (op_key x) + 8 < 2 ^ 32 \<and> length (op_value x) < 2 ^ 32"

type_synonym history = "(SequenceNumber \<times> batch_op) list"

text \<open>The client that adds the writes of a history one after the other.\<close>

fun mem_adds :: "history \<Rightarrow> MemTable \<Rightarrow> MemTable option" where
  "mem_adds [] m = Some m"
| "mem_adds ((s, x) # ws) m =
     (case MemTable_Add s (op_type x) (op_key x) (op_value x) m of None \<Rightarrow> None | Some m \<Rightarrow> mem_adds ws m)"

text \<open>Sequence numbers ascend, and have 56 bits.\<close>

definition history_ok :: "history \<Rightarrow> bool" where
  "history_ok ws \<longleftrightarrow> sorted_wrt (<) (map fst ws) \<and> (\<forall>(s, x) \<in> set ws. s \<le> kMaxSequenceNumber \<and> op_ok x)"

text \<open>The last write of a key with a sequence number of at most \<open>s\<close>.\<close>

definition newest :: "comparator \<Rightarrow> history \<Rightarrow> slice \<Rightarrow> SequenceNumber \<Rightarrow> (SequenceNumber \<times> batch_op) option" where
  "newest C ws u s = find (\<lambda>(q, x). Compare C (op_key x) u = 0 \<and> q \<le> s) (rev ws)"

text \<open>What a lookup answers.\<close>

fun answer :: "(SequenceNumber \<times> batch_op) option \<Rightarrow> slice \<Rightarrow> Status \<Rightarrow> bool \<times> slice \<times> Status" where
  "answer None val st = (False, val, st)"
| "answer (Some (q, OpPut k v)) val st = (True, v, st)"
| "answer (Some (q, OpDelete k)) val st = (True, val, NotFound [] [])"

definition write_tag :: "SequenceNumber \<times> batch_op \<Rightarrow> u64" where
  "write_tag w = push_bit 8 (fst w) OR ucast (op_type (snd w))"

definition write_entry :: "SequenceNumber \<times> batch_op \<Rightarrow> slice \<times> slice" where
  "write_entry w = (ikey (op_key (snd w)) (write_tag w), op_value (snd w))"

lemma op_type_le: "op_type x \<le> kTypeValue"
  by (cases x) (simp_all add: kTypeValue_def kTypeDeletion_def)

lemma write_tag_pack: "fst w \<le> kMaxSequenceNumber \<Longrightarrow> PackSequenceAndType (fst w) (op_type (snd w)) = Some (write_tag w)"
  by (simp add: PackSequenceAndType_Some write_tag_def op_type_le)

lemma write_tag_less:
  assumes "fst v \<le> kMaxSequenceNumber" "fst w \<le> kMaxSequenceNumber" "fst v < fst w"
  shows "write_tag v < write_tag w"
  using tag_less [OF write_tag_pack [OF assms(1)] write_tag_pack [OF assms(2)]] assms(3) by simp

context user_comparator
begin

lemma mem_adds_rep:
  assumes "mem_rep m (es :: entries)" "set es = write_entry ` set ws0" "history_ok (ws0 @ ws)"
  shows "\<exists>m' es'. mem_adds ws m = Some m' \<and> mem_rep m' es' \<and> set es' = write_entry ` set (ws0 @ ws)"
  using assms
proof (induction ws arbitrary: m es ws0)
  case (Cons w ws)
  obtain s x where w: "w = (s, x)" by (cases w)
  have wok: "s \<le> kMaxSequenceNumber" "op_ok x" using Cons.prems(3) by (auto simp: history_ok_def w)
  have "\<forall>e \<in> set es. internal_compare C (ikey (op_key x) (push_bit 8 s OR ucast (op_type x))) (fst e) \<noteq> 0"
  proof
    fix e
    assume "e \<in> set es"
    then obtain v where v: "v \<in> set ws0" "e = write_entry v" using Cons.prems(2) by auto
    then have "fst v < fst w" "fst v \<le> kMaxSequenceNumber"
      using Cons.prems(3) by (auto simp: history_ok_def sorted_wrt_append)
    then have "write_tag v < write_tag w" using write_tag_less [of v w] wok(1) w by simp
    then show "internal_compare C (ikey (op_key x) (push_bit 8 s OR ucast (op_type x))) (fst e) \<noteq> 0"
      by (auto simp: internal_compare_tags v(2) write_entry_def w write_tag_def Let_def)
  qed
  then obtain m1 where m1: "MemTable_Add s (op_type x) (op_key x) (op_value x) m = Some m1"
    "mem_rep m1 (mem_insert C (write_entry w) es)"
    using mem_add_rep [OF Cons.prems(1), of "op_key x" "op_value x" s "op_type x"] wok(2)
    by (auto simp: op_ok_def write_entry_def write_tag_def w)
  have "\<exists>m' es'. mem_adds ws m1 = Some m' \<and> mem_rep m' es' \<and> set es' = write_entry ` set ((ws0 @ [w]) @ ws)"
    by (rule Cons.IH [OF m1(2)]) (use Cons.prems in \<open>simp_all add: set_mem_insert\<close>)
  then show ?case using m1(1) by (simp add: w)
qed auto

text \<open>A lookup key is the encoding of an internal key.\<close>

lemma lookup_key:
  assumes "length u + 8 < 2 ^ 32" "s \<le> kMaxSequenceNumber"
  obtains lk t where "LookupKey_new u s = Some lk" "PackSequenceAndType s kValueTypeForSeek = Some t"
    "memtable_key lk = prefixed (ikey u t)" "lookup_user_key lk = u"
proof -
  obtain t where t: "PackSequenceAndType s kValueTypeForSeek = Some t"
    using PackSequenceAndType_ok assms(2) by (auto simp: kValueTypeForSeek_def)
  let ?n = "EncodeVarint32 (word_of_nat (length u + 8))"
  have "LookupKey_new u s = Some \<lparr>lk_start = ?n @ ikey u t, lk_kstart = length ?n\<rparr>"
    using t by (simp add: LookupKey_new_def Let_def ikey_def)
  then show thesis
    by (rule that [OF _ t]) (simp_all add: memtable_key_def prefixed_def lookup_user_key_def add.commute, simp add: ikey_def)
qed

lemma MemTable_Get_at:
  assumes rep: "mem_rep m es" and lk: "memtable_key lk = prefixed (ikey u t)" "lookup_user_key lk = u" "length u + 8 < 2 ^ 32"
  defines "n \<equiv> seek_index (internal_compare C) es (ikey u t)"
  shows "MemTable_Get lk val st m =
    (if n < length es \<and> Compare C (ExtractUserKey (fst (es ! n))) u = 0 then
       let type = ucast (key_tag (fst (es ! n)) AND 0xff) :: u8
       in if type = kTypeValue then Some (True, snd (es ! n), st)
          else if type = kTypeDeletion then Some (True, val, NotFound [] []) else Some (False, val, st)
     else Some (False, val, st))"
proof -
  have ok: "\<forall>e \<in> set es. entry_ok e" and user: "mt_comparator m = C"
    and sk: "mem.skip_rep (mt_table m) (map entry_bytes es)" using rep by (simp_all add: mem_rep_def)
  have target: "mem_valid (prefixed (ikey u t))" "mem_key (prefixed (ikey u t)) = ikey u t" using lk(3) by simp_all
  obtain it where it: "SkipIter_Seek (KeyComparator C) (prefixed (ikey u t)) (SkipIter_new (mt_table m)) = Some it"
    "mem.iter_rep (map entry_bytes es) n it"
    using mem.SkipIter_Seek_rep [OF mem.iter_rep_new [OF sk] target(1)] mem_seek_pos [OF ok target(2)]
    by (auto simp: n_def)
  show ?thesis
  proof (cases "n < length es")
    case True
    let ?k = "fst (es ! n)" and ?v = "snd (es ! n)"
    have okn: "8 \<le> length ?k" "length ?k < 2 ^ 32" "length ?v < 2 ^ 32" using ok True by (auto simp: entry_ok_def)
    have key: "SkipIter_key it = Some (entry_bytes (es ! n))" using mem.SkipIter_key_rep [OF it(2)] True by simp
    have len: "GetVarint32Ptr (entry_bytes (es ! n)) = Some (word_of_nat (length ?k), ?k @ prefixed ?v)"
      by (simp add: entry_bytes_def prefixed_def)
    have n1: "unat (word_of_nat (length ?k) :: u32) = length ?k" using okn(2) by (simp add: unat_of_nat_32)
    have n2: "unat (word_of_nat (length ?k) - 8 :: u32) = length ?k - 8"
      using okn(1) n1 by (simp add: unat_sub_if')
    have user_key: "take (length ?k - 8) (?k @ prefixed ?v) = ExtractUserKey ?k"
      using okn(1) by (simp add: ExtractUserKey_def)
    have "length (drop (length ?k - 8) ?k) = 8" using okn(1) by simp
    then have tag: "DecodeFixed64 (drop (length ?k - 8) (?k @ prefixed ?v)) = key_tag ?k"
      using okn(1) by (simp add: key_tag_def DecodeFixed64_eq)
    have rest: "drop (length ?k) (?k @ prefixed ?v) = prefixed ?v" by simp
    have room: "\<not> length (?k @ prefixed ?v) < length ?k - 8 + 8" using okn(1) by simp
    show ?thesis
      unfolding MemTable_Get_def user lk(1,2) it(1) key len option.case prod.case Let_def n1 n2 user_key tag rest if_not_P [OF room]
      using True okn(3) by simp
  next
    case False
    then show ?thesis
      using it(1) mem.SkipIter_key_rep [OF it(2)] user by (simp add: MemTable_Get_def lk)
  qed
qed

text \<open>The entry at the target's place is the newest visible version, if any is visible.\<close>

lemma target_le_entry:
  assumes "PackSequenceAndType s kValueTypeForSeek = Some t" "fst w \<le> kMaxSequenceNumber"
  shows "internal_compare C (ikey u t) (fst (write_entry w)) \<le> 0 \<longleftrightarrow>
    Compare C u (op_key (snd w)) < 0 \<or> Compare C u (op_key (snd w)) = 0 \<and> fst w \<le> s"
  using lookup_tag [OF assms(1) write_tag_pack [OF assms(2)]] by (simp add: internal_le write_entry_def)

lemma newest_Some:
  assumes "history_ok ws" "newest C ws u s = Some w"
  shows "w \<in> set ws" "Compare C (op_key (snd w)) u = 0" "fst w \<le> s"
    "\<And>v. v \<in> set ws \<Longrightarrow> Compare C (op_key (snd v)) u = 0 \<Longrightarrow> fst v \<le> s \<Longrightarrow> fst v \<le> fst w"
proof -
  obtain i where i: "i < length (rev ws)" "w = rev ws ! i" "Compare C (op_key (snd w)) u = 0 \<and> fst w \<le> s"
    "\<forall>j < i. \<not> (Compare C (op_key (snd (rev ws ! j))) u = 0 \<and> fst (rev ws ! j) \<le> s)"
    using assms(2) by (auto simp: newest_def find_Some_iff case_prod_beta)
  show "w \<in> set ws" using nth_mem [OF i(1)] i(2) by simp
  show "Compare C (op_key (snd w)) u = 0" "fst w \<le> s" using i(3) by simp_all
  fix v
  assume v: "v \<in> set ws" "Compare C (op_key (snd v)) u = 0" "fst v \<le> s"
  then obtain j where j: "j < length (rev ws)" "v = rev ws ! j" by (metis in_set_conv_nth set_rev)
  then have "i \<le> j" using i(4) v(2,3) not_le by blast
  moreover have "sorted_wrt (\<lambda>a b. fst b < fst a) (rev ws)"
    using assms(1) by (simp add: history_ok_def sorted_wrt_rev sorted_wrt_map)
  ultimately show "fst v \<le> fst w"
    using i(1,2) j by (cases "i = j") (auto simp: sorted_wrt_iff_nth_less intro: less_imp_le)
qed

lemma newest_None:
  assumes "newest C ws u s = None" "v \<in> set ws" "Compare C (op_key (snd v)) u = 0"
  shows "\<not> fst v \<le> s"
  using assms by (auto simp: newest_def find_None_iff)

lemma same_sequence:
  assumes "history_ok ws" "v \<in> set ws" "w \<in> set ws" "fst v = fst w"
  shows "v = w"
proof -
  have "distinct (map fst ws)" using assms(1) by (simp add: history_ok_def strict_sorted_iff)
  then show ?thesis using assms(2-4) by (simp add: distinct_map inj_on_def)
qed

lemma seek_visible:
  fixes u :: slice
  assumes rep: "mem_rep m es" "set es = write_entry ` set ws" and ws: "history_ok ws"
    and t: "PackSequenceAndType s kValueTypeForSeek = Some t"
  defines "n \<equiv> seek_index (internal_compare C) es (ikey u t)"
  shows "case newest C ws u s of
      None \<Rightarrow> \<not> (n < length es \<and> Compare C (ExtractUserKey (fst (es ! n))) u = 0)
    | Some w \<Rightarrow> n < length es \<and> es ! n = write_entry w"
proof -
  let ?before = "\<lambda>e. internal_compare C (fst e) (ikey u t) < 0"
  have at: "\<not> ?before (es ! n)" if "n < length es"
    using nth_length_takeWhile [of ?before es] that by (simp add: n_def seek_index_def)
  have bound: "fst w \<le> kMaxSequenceNumber" if "w \<in> set ws" for w using ws that by (auto simp: history_ok_def)
  obtain v where v: "v \<in> set ws" "es ! n = write_entry v" if "n < length es"
    using nth_mem [of n es] rep(2) by (cases "n < length es") auto
  have seen: "Compare C u (op_key (snd v)) < 0 \<or> Compare C u (op_key (snd v)) = 0 \<and> fst v \<le> s" if "n < length es"
    using target_le_entry [OF t bound [OF v(1) [OF that]], of u] at [OF that] v(2) [OF that]
      internal_greater [of "fst (es ! n)" "ikey u t"] internal_greater [of "ikey u t" "fst (es ! n)"] by simp
  show ?thesis
  proof (cases "newest C ws u s")
    case None
    have "Compare C (op_key (snd v)) u \<noteq> 0" if "n < length es"
      using newest_None [OF None v(1) [OF that]] seen [OF that] user_zero [of "op_key (snd v)" u] by auto
    then show ?thesis using None v(2) by (simp add: write_entry_def)
  next
    case (Some w)
    note w = newest_Some [OF ws Some]
    have "write_entry w \<in> set es" using rep(2) w(1) by simp
    then obtain i where i: "i < length es" "es ! i = write_entry w" by (metis in_set_conv_nth)
    have "internal_compare C (ikey u t) (fst (write_entry w)) \<le> 0"
      using target_le_entry [OF t bound [OF w(1)], of u] w(2,3) user_zero by blast
    then have "\<not> ?before (es ! i)" using i(2) internal_greater [of "ikey u t" "fst (es ! i)"] by simp
    then have ni: "n \<le> i"
      using takeWhile_nth [of i ?before es] nth_mem [of i "takeWhile ?before es"] set_takeWhileD [of "es ! i" ?before es]
      by (metis n_def not_le seek_index_def)
    then have n: "n < length es" using i(1) by simp
    have "internal_compare C (fst (es ! n)) (fst (es ! i)) \<le> 0"
    proof (cases "n = i")
      case True
      then show ?thesis using compare_refl by (simp add: internal_le)
    next
      case False
      then show ?thesis using mem_rep_sorted [OF rep(1)] ni i(1) by (simp add: sorted_wrt_iff_nth_less less_imp_le)
    qed
    then have order: "Compare C (op_key (snd v)) (op_key (snd w)) < 0 \<or>
        Compare C (op_key (snd v)) (op_key (snd w)) = 0 \<and> write_tag w \<le> write_tag v"
      using v(2) [OF n] i(2) by (simp add: internal_le write_entry_def)
    have wu: "Compare C (op_key (snd w)) u \<le> 0" "Compare C u (op_key (snd w)) \<le> 0"
      using w(2) user_zero [of u "op_key (snd w)"] by simp_all
    have uv: "Compare C u (op_key (snd v)) \<le> 0" using seen [OF n] by auto
    have "Compare C (op_key (snd v)) u \<le> 0" using user_trans [OF _ wu(1)] order by auto
    then have zero: "Compare C (op_key (snd v)) u = 0"
      using uv user_sign [of "op_key (snd v)" u] by linarith
    then have "fst v \<le> s" using seen [OF n] user_zero [of "op_key (snd v)" u] by auto
    then have le: "fst v \<le> fst w" using w(4) [OF v(1) [OF n] zero] by simp
    have "Compare C (op_key (snd w)) (op_key (snd v)) \<le> 0" using user_trans [OF wu(1) uv] .
    then have "write_tag w \<le> write_tag v"
      using order user_sign [of "op_key (snd v)" "op_key (snd w)"] by auto
    then have "\<not> fst v < fst w" using write_tag_less [OF bound bound, of v w] v(1) [OF n] w(1) by fastforce
    then have "v = w" using le same_sequence [OF ws v(1) [OF n] w(1)] by simp
    then show ?thesis using Some n v(2) by simp
  qed
qed

lemma mem_get_newest:
  assumes rep: "mem_rep m es" "set es = write_entry ` set ws" and ws: "history_ok ws"
    and u: "length u + 8 < 2 ^ 32" "s \<le> kMaxSequenceNumber"
  shows "\<exists>lk. LookupKey_new u s = Some lk \<and> MemTable_Get lk val st m = Some (answer (newest C ws u s) val st)"
proof -
  obtain lk t where lk: "LookupKey_new u s = Some lk" "PackSequenceAndType s kValueTypeForSeek = Some t"
    "memtable_key lk = prefixed (ikey u t)" "lookup_user_key lk = u"
    using lookup_key [OF u] by blast
  note get = MemTable_Get_at [OF rep(1) lk(3,4) u(1), of val st]
  note visible = seek_visible [OF rep ws lk(2), of u]
  show ?thesis
  proof (cases "newest C ws u s")
    case None
    then show ?thesis using lk(1) get visible by (simp add: Let_def)
  next
    case (Some w)
    note w = newest_Some [OF ws Some]
    obtain q x where qx: "w = (q, x)" by (cases w)
    have "fst w \<le> kMaxSequenceNumber" using ws w(1) by (auto simp: history_ok_def)
    then have type: "ucast (write_tag w AND 0xff) = op_type x"
      using pack_parts(2) [OF write_tag_pack [of w]] qx by simp
    have "MemTable_Get lk val st m = Some (answer (Some w) val st)"
      using get visible Some w(2) type unfolding qx
      by (cases x) (simp_all add: write_entry_def Let_def kTypeValue_def kTypeDeletion_def)
    then show ?thesis using lk(1) Some by simp
  qed
qed

end

text \<open>
  C8: After the writes of a history with ascending sequence numbers were added to an empty memtable, no
  assertion failed, and a lookup of any key at any snapshot answers what the newest write of that key that
  the snapshot sees says: its value, that it was deleted, or that the table knows nothing of the key.
\<close>

theorem memtable_get_newest:
  assumes "user_comparator C" "history_ok ws" "length u + 8 < 2 ^ 32" "s \<le> kMaxSequenceNumber"
  shows "\<exists>m lk. mem_adds ws (MemTable_new C) = Some m \<and> LookupKey_new u s = Some lk \<and>
    MemTable_Get lk val st m = Some (answer (newest C ws u s) val st)"
proof -
  obtain m es where m: "mem_adds ws (MemTable_new C) = Some m" "user_comparator.mem_rep C m es"
    "set es = write_entry ` set ws"
    using user_comparator.mem_adds_rep [OF assms(1) user_comparator.mem_new_rep [OF assms(1)], of "[]" ws] assms(2)
    by auto
  then show ?thesis
    using user_comparator.mem_get_newest [OF assms(1) m(2,3) assms(2-4)] by blast
qed

lemma memtable_get_newest_witness:
  "\<exists>m lk. mem_adds [(1, OpPut [7] [1]), (2, OpPut [8] [2]), (4, OpDelete [7])] (MemTable_new BytewiseComparator) = Some m \<and>
     LookupKey_new [7] 3 = Some lk \<and> MemTable_Get lk [] status_OK m = Some (True, [1], status_OK)"
  using memtable_get_newest [OF bytewise.user_comparator_axioms,
      of "[(1, OpPut [7] [1]), (2, OpPut [8] [2]), (4, OpDelete [7])]" "[7]" 3 "[]" status_OK]
  by (simp add: history_ok_def op_ok_def kMaxSequenceNumber_def newest_def BytewiseComparator_def slice_compare_def
      del: mem_adds.simps)

text \<open>
  C32: The iterator of a memtable is a cursor in a list of entries that holds exactly the writes of the
  history, sorted by internal key: every sequence of calls leaves it where the same calls leave a
  position in the list, with that entry's key and value.
\<close>

theorem memtable_iterator_refines_cursor:
  assumes "user_comparator C" "history_ok ws"
    and "\<And>t. CallSeek t \<in> set calls \<Longrightarrow> 8 \<le> length t \<and> length t < 2 ^ 32"
  shows "\<exists>m es. mem_adds ws (MemTable_new C) = Some m \<and> set es = write_entry ` set ws \<and>
    sorted_wrt (\<lambda>a b. Compare (InternalKeyComparator C) (fst a) (fst b) < 0) es \<and>
    (\<forall>n. cursor_run (internal_compare C) es calls (length es) = Some n \<longrightarrow>
      (\<exists>i. iter_run (MemTableIterator C) calls (MemTable_NewIterator m) = Some i \<and>
        Valid (MemTableIterator C) i = (n < length es) \<and>
        (n < length es \<longrightarrow> iter_key (MemTableIterator C) i = Some (fst (es ! n)) \<and>
          iter_value (MemTableIterator C) i = Some (snd (es ! n)))))"
proof -
  obtain m es where m: "mem_adds ws (MemTable_new C) = Some m" "user_comparator.mem_rep C m es"
    "set es = write_entry ` set ws"
    using user_comparator.mem_adds_rep [OF assms(1) user_comparator.mem_new_rep [OF assms(1)], of "[]" ws] assms(2)
    by auto
  note it = user_comparator.mem_iterator [OF assms(1)]
  have "\<exists>i. iter_run (MemTableIterator C) calls (MemTable_NewIterator m) = Some i \<and>
        Valid (MemTableIterator C) i = (n < length es) \<and>
        (n < length es \<longrightarrow> iter_key (MemTableIterator C) i = Some (fst (es ! n)) \<and>
          iter_value (MemTableIterator C) i = Some (snd (es ! n)))"
    if run: "cursor_run (internal_compare C) es calls (length es) = Some n" for n
  proof -
    obtain i where "iter_run (MemTableIterator C) calls (MemTable_NewIterator m) = Some i"
      "user_comparator.mem_iter_rep C es n i"
      using iterator.run_refines [OF it user_comparator.mem_iter_new [OF assms(1) m(2)] run assms(3)] by blast
    then show ?thesis
      using iterator.rep_Valid [OF it] iterator.rep_key [OF it] iterator.rep_value [OF it] by blast
  qed
  moreover have "sorted_wrt (\<lambda>a b. Compare (InternalKeyComparator C) (fst a) (fst b) < 0) es"
    using user_comparator.mem_rep_sorted [OF assms(1) m(2)] by (simp add: InternalKeyComparator_def)
  ultimately show ?thesis using m(1,3) by blast
qed

lemma memtable_iterator_refines_cursor_witness:
  "\<exists>m i. mem_adds [(1, OpPut [7] [1])] (MemTable_new BytewiseComparator) = Some m \<and>
     iter_run (MemTableIterator BytewiseComparator) [CallFirst] (MemTable_NewIterator m) = Some i \<and>
     iter_value (MemTableIterator BytewiseComparator) i = Some [1]"
proof -
  have ok: "history_ok [(1, OpPut [7] [1])]" by (simp add: history_ok_def op_ok_def kMaxSequenceNumber_def)
  obtain m es where m: "mem_adds [(1, OpPut [7] [1])] (MemTable_new BytewiseComparator) = Some m"
    "set es = write_entry ` set [(1, OpPut [7] [1])]"
    "sorted_wrt (\<lambda>a b. Compare (InternalKeyComparator BytewiseComparator) (fst a) (fst b) < 0) es"
    "\<forall>n. cursor_run (internal_compare BytewiseComparator) es [CallFirst] (length es) = Some n \<longrightarrow>
      (\<exists>i. iter_run (MemTableIterator BytewiseComparator) [CallFirst] (MemTable_NewIterator m) = Some i \<and>
        Valid (MemTableIterator BytewiseComparator) i = (n < length es) \<and>
        (n < length es \<longrightarrow> iter_key (MemTableIterator BytewiseComparator) i = Some (fst (es ! n)) \<and>
          iter_value (MemTableIterator BytewiseComparator) i = Some (snd (es ! n))))"
    using memtable_iterator_refines_cursor [OF bytewise.user_comparator_axioms ok, of "[CallFirst]"] by auto
  have "0 < length es" using m(2) by (cases es) simp_all
  moreover from this have "es ! 0 \<in> set es" by simp
  then have "snd (es ! 0) = [1]" using m(2) by (auto simp: write_entry_def)
  ultimately show ?thesis using m(1) m(4) [rule_format, of 0] by auto
qed

end
