(* ===== verification/LDB_WriteBatch_Props.thy ===== *)
theory LDB_WriteBatch_Props
  imports LDB_WriteBatch LDB_Memtable_Props
begin

text \<open>
  LevelDB: a write batch is the list of its operations; reading it back, cutting it short, appending one
  to another, and inserting it into a memtable that is then read.
\<close>

section \<open>The format\<close>

fun op_bytes :: "batch_op \<Rightarrow> u8 list" where
  "op_bytes (OpPut k v) = kTypeValue # prefixed k @ prefixed v"
| "op_bytes (OpDelete k) = kTypeDeletion # prefixed k"

definition records :: "batch_op list \<Rightarrow> u8 list" where
  "records ops = concat (map op_bytes ops)"

lemma records_simps [simp]:
  "records [] = []" "records (x # ops) = op_bytes x @ records ops" "records (xs @ ys) = records xs @ records ys"
  by (simp_all add: records_def)

definition batch_bytes :: "SequenceNumber \<Rightarrow> batch_op list \<Rightarrow> u8 list" where
  "batch_bytes seq ops = EncodeFixed64 seq @ EncodeFixed32 (word_of_nat (length ops)) @ records ops"

lemma PutLengthPrefixedSlice_prefixed: "PutLengthPrefixedSlice dst s = dst @ prefixed s"
  by (simp add: PutLengthPrefixedSlice_def PutVarint32_def prefixed_def)

lemma GetLengthPrefixedSlice_prefixed [simp]:
  "length s < 2 ^ 32 \<Longrightarrow> GetLengthPrefixedSlice (prefixed s @ rest) = (Some s, rest)"
  using GetLengthPrefixedSlice_bytes [of s rest] by (simp add: PutLengthPrefixedSlice_prefixed)

text \<open>A prefixed slice that is cut short is not read.\<close>

lemma cut_split: "a @ b = p @ r \<Longrightarrow> (\<exists>p'. p = a @ p' \<and> b = p' @ r) \<or> (\<exists>r'. r' \<noteq> [] \<and> a = p @ r' \<and> r = r' @ b)"
  by (auto simp: append_eq_append_conv2)

lemma GetLengthPrefixedSlice_cut:
  assumes "prefixed s = p @ r" "r \<noteq> []" "length s < 2 ^ 32"
  shows "\<exists>q. GetLengthPrefixedSlice p = (None, q)"
proof -
  let ?n = "EncodeVarint32 (word_of_nat (length s))"
  have "?n @ s = p @ r" using assms(1) by (simp add: prefixed_def)
  from cut_split [OF this] show ?thesis
  proof (elim disjE exE conjE)
    fix p'
    assume "p = ?n @ p'" "s = p' @ r"
    then show ?thesis using assms(2,3) unat_of_nat_32 [OF assms(3)] by (simp add: GetLengthPrefixedSlice_def)
  next
    fix r'
    assume r': "r' \<noteq> []" "?n = p @ r'"
    have "varint_prefix (take 5 p) = None"
    proof (cases "varint_prefix (take 5 p)")
      case (Some q)
      have "varint_prefix (p @ r') = Some q"
        using varint_prefix_append [OF Some, of "drop 5 p @ r'"] by (metis append.assoc append_take_drop_id)
      moreover have "varint_prefix ?n = Some ?n"
        using varint_prefix_bytes [of _ "[]"] by (simp add: EncodeVarint32_eq)
      ultimately have "q = p @ r'" using r'(2) by simp
      then show ?thesis using varint_prefix_length [OF Some] r'(1) by simp
    qed
    then show ?thesis by (simp add: GetLengthPrefixedSlice_def GetVarint32_def GetVarint32Ptr_eq)
  qed
qed

section \<open>Building\<close>

text \<open>A client that puts operations into a batch.\<close>

fun batch_op_add :: "batch_op \<Rightarrow> WriteBatch \<Rightarrow> WriteBatch option" where
  "batch_op_add (OpPut k v) b = batch_Put k v b"
| "batch_op_add (OpDelete k) b = batch_Delete k b"

fun batch_build :: "batch_op list \<Rightarrow> WriteBatch \<Rightarrow> WriteBatch option" where
  "batch_build [] b = Some b"
| "batch_build (x # ops) b = (case batch_op_add x b of None \<Rightarrow> None | Some b \<Rightarrow> batch_build ops b)"

lemma batch_header:
  "take 8 (batch_bytes seq ops) = EncodeFixed64 seq"
  "drop 8 (batch_bytes seq ops) = EncodeFixed32 (word_of_nat (length ops)) @ records ops"
  "drop 12 (batch_bytes seq ops) = records ops" "12 \<le> length (batch_bytes seq ops)"
  by (simp_all add: batch_bytes_def)

lemma batch_Count_bytes: "length ops < 2 ^ 31 \<Longrightarrow> batch_Count (batch_bytes seq ops) = int (length ops)"
  unfolding batch_Count_def batch_header Fixed32_roundtrip
  by (simp add: signed_of_nat signed_take_bit_int_eq_self)

lemma batch_Sequence_bytes [simp]: "batch_Sequence (batch_bytes seq ops) = seq"
  by (simp add: batch_Sequence_def batch_bytes_def)

lemma batch_SetSequence_bytes [simp]: "batch_SetSequence (batch_bytes seq ops) s = batch_bytes s ops"
  by (simp add: batch_SetSequence_def batch_header) (simp add: batch_bytes_def)

lemma batch_new_bytes: "WriteBatch_new = batch_bytes 0 []"
  by (simp add: WriteBatch_new_def kHeader_def batch_bytes_def EncodeFixed32_eq EncodeFixed64_eq numeral_eq_Suc)

lemma batch_op_add_bytes:
  assumes "length ops + 1 < 2 ^ 31"
  shows "batch_op_add x (batch_bytes seq ops) = Some (batch_bytes seq (ops @ [x]))"
proof -
  have n: "int_sum (batch_Count (batch_bytes seq ops)) 1 = Some (int (length ops) + 1)"
    using assms batch_Count_bytes [of ops seq] by (simp add: int_sum_def)
  have "batch_SetCount (batch_bytes seq ops) (int (length ops) + 1) @ op_bytes x = batch_bytes seq (ops @ [x])"
    unfolding batch_SetCount_def batch_header by (simp add: batch_bytes_def add.commute)
  then show ?thesis
    by (cases x) (simp_all add: batch_Put_def batch_Delete_def n Let_def PutLengthPrefixedSlice_prefixed)
qed

lemma batch_build_bytes:
  "length (ops0 @ ops) < 2 ^ 31 \<Longrightarrow> batch_build ops (batch_bytes seq ops0) = Some (batch_bytes seq (ops0 @ ops))"
  by (induction ops arbitrary: ops0) (simp_all add: batch_op_add_bytes)

lemma batch_Append_bytes:
  assumes "length (xs @ ys) < 2 ^ 31"
  shows "batch_Append (batch_bytes s xs) (batch_bytes t ys) = Some (batch_bytes s (xs @ ys))"
proof -
  have "int_sum (batch_Count (batch_bytes s xs)) (batch_Count (batch_bytes t ys)) = Some (int (length (xs @ ys)))"
    using assms batch_Count_bytes [of xs s] batch_Count_bytes [of ys t] by (simp add: int_sum_def)
  moreover have "batch_SetCount (batch_bytes s xs) (int (length (xs @ ys))) @ records ys = batch_bytes s (xs @ ys)"
    unfolding batch_SetCount_def batch_header by (simp add: batch_bytes_def)
  ultimately show ?thesis
    using batch_header(3,4) [of t ys] by (simp add: batch_Append_def kHeader_def Let_def) (simp add: batch_bytes_def)
qed

section \<open>Iterating\<close>

text \<open>The calls of a handler in the order of the operations.\<close>

fun run_ops :: "'h Handler \<Rightarrow> batch_op list \<Rightarrow> 'h \<Rightarrow> 'h option" where
  "run_ops handler [] h = Some h"
| "run_ops handler (OpPut k v # ops) h =
     (case handle_Put handler k v h of None \<Rightarrow> None | Some h \<Rightarrow> run_ops handler ops h)"
| "run_ops handler (OpDelete k # ops) h =
     (case handle_Delete handler k h of None \<Rightarrow> None | Some h \<Rightarrow> run_ops handler ops h)"

lemma types_differ [simp]: "kTypeDeletion \<noteq> kTypeValue" "kTypeValue \<noteq> kTypeDeletion"
  by (simp_all add: kTypeValue_def kTypeDeletion_def)

lemma iterate_records:
  "\<forall>x \<in> set ops. op_ok x \<Longrightarrow>
   c_loop (iterate_step handler) (records ops @ rest, found, h) =
     (case run_ops handler ops h of None \<Rightarrow> None
      | Some h \<Rightarrow> c_loop (iterate_step handler) (rest, found + length ops, h))"
proof (induction ops arbitrary: found h)
  case (Cons x ops)
  show ?case
  proof (cases x)
    case (OpPut k v)
    have "iterate_step handler (records (x # ops) @ rest, found, h) =
        map_option (\<lambda>h. Inr (records ops @ rest, found + 1, h)) (handle_Put handler k v h)"
      using Cons.prems OpPut by (simp add: iterate_step_def op_ok_def)
    then show ?thesis
      using Cons OpPut by (cases "handle_Put handler k v h") (simp_all add: c_loop_unfold del: records_simps split: option.split)
  next
    case (OpDelete k)
    have "iterate_step handler (records (x # ops) @ rest, found, h) =
        map_option (\<lambda>h. Inr (records ops @ rest, found + 1, h)) (handle_Delete handler k h)"
      using Cons.prems OpDelete by (simp add: iterate_step_def op_ok_def)
    then show ?thesis
      using Cons OpDelete by (cases "handle_Delete handler k h") (simp_all add: c_loop_unfold del: records_simps split: option.split)
  qed
qed simp

lemma batch_Iterate_bytes:
  assumes "\<forall>x \<in> set ops. op_ok x" "length ops < 2 ^ 31"
  shows "batch_Iterate handler (batch_bytes seq ops) h = map_option (\<lambda>h. (status_OK, h)) (run_ops handler ops h)"
proof -
  have stop: "c_loop (iterate_step handler) ([], found, h) = Some (None, found, h)" for found h
    by (simp add: c_loop_unfold iterate_step_def)
  have loop: "c_loop (iterate_step handler) (records ops, 0, h) =
      map_option (\<lambda>h. (None, length ops, h)) (run_ops handler ops h)"
    using iterate_records [OF assms(1), of handler "[]" 0 h] by (cases "run_ops handler ops h") (simp_all add: stop)
  show ?thesis
    using batch_header(4) [of seq ops] batch_Count_bytes [OF assms(2), of seq]
    by (cases "run_ops handler ops h")
      (simp_all add: batch_Iterate_def kHeader_def Let_def remove_prefix_def batch_header(3) loop)
qed

text \<open>The handler that records its calls.\<close>

definition recorder :: "batch_op list Handler" where
  "recorder = \<lparr>handle_Put = (\<lambda>k v ops. Some (ops @ [OpPut k v])), handle_Delete = (\<lambda>k ops. Some (ops @ [OpDelete k]))\<rparr>"

lemma run_recorder: "run_ops recorder ops h = Some (h @ ops)"
proof (induction ops arbitrary: h)
  case (Cons x ops)
  then show ?case by (cases x) (simp_all add: recorder_def)
qed simp

text \<open>An operation that is cut short stops the loop.\<close>

lemma iterate_cut:
  assumes "op_bytes x = p @ r" "p \<noteq> []" "r \<noteq> []" "op_ok x"
  shows "\<exists>s n h'. iterate_step handler (p, found, h) = Some (Inl (Some s, n, h')) \<and> IsCorruption s \<and> h' = h"
proof -
  have corrupt: "IsCorruption (Corruption m [])" for m by (simp add: IsCorruption_def Corruption_def)
  obtain t p' where p: "p = t # p'" using assms(2) by (cases p) auto
  show ?thesis
  proof (cases x)
    case (OpPut k v)
    then have "prefixed k @ prefixed v = p' @ r" "t = kTypeValue" using assms(1) p by simp_all
    from this(1) [THEN cut_split] show ?thesis
    proof (elim disjE exE conjE)
      fix q
      assume q: "p' = prefixed k @ q" "prefixed v = q @ r"
      then show ?thesis
        using GetLengthPrefixedSlice_cut [OF q(2) assms(3)] assms(4) OpPut p corrupt \<open>t = kTypeValue\<close>
        by (auto simp: iterate_step_def op_ok_def)
    next
      fix q
      assume "q \<noteq> []" "prefixed k = p' @ q"
      then show ?thesis
        using GetLengthPrefixedSlice_cut [of k p' q] assms(4) OpPut p corrupt \<open>t = kTypeValue\<close>
        by (auto simp: iterate_step_def op_ok_def)
    qed
  next
    case (OpDelete k)
    then show ?thesis
      using GetLengthPrefixedSlice_cut [of k p' r] assms p corrupt by (auto simp: iterate_step_def op_ok_def)
  qed
qed

lemma records_cut:
  "records ops = p @ r \<Longrightarrow> r \<noteq> [] \<Longrightarrow> \<exists>xs x ys q t. ops = xs @ x # ys \<and> p = records xs @ q \<and> op_bytes x = q @ t \<and> t \<noteq> []"
proof (induction ops arbitrary: p)
  case (Cons y ops)
  from Cons.prems(1) have "op_bytes y @ records ops = p @ r" by simp
  from cut_split [OF this] show ?case
  proof (elim disjE exE conjE)
    fix p'
    assume p': "p = op_bytes y @ p'" "records ops = p' @ r"
    then obtain xs x ys q t where *: "ops = xs @ x # ys" "p' = records xs @ q" "op_bytes x = q @ t" "t \<noteq> []"
      using Cons.IH Cons.prems(2) by blast
    show ?thesis by (rule exI [of _ "y # xs"], rule exI [of _ x], rule exI [of _ ys], rule exI [of _ q]) (use p' * in auto)
  next
    fix r'
    assume "r' \<noteq> []" "op_bytes y = p @ r'"
    then have "y # ops = [] @ y # ops \<and> p = records [] @ p \<and> op_bytes y = p @ r' \<and> r' \<noteq> []" by simp
    then show ?thesis by blast
  qed
qed simp

text \<open>
  C33: A batch built from two lists of operations, or from both after one another, or by appending the one
  batch to the other, is the same: its count is the number of operations, its sequence number
  is the one that was set last, and iterating over it calls the handler for exactly the operations in their
  order and returns success (or stops where the handler fails an assertion).
\<close>

theorem write_batch_roundtrip:
  assumes "\<forall>x \<in> set (xs @ ys). op_ok x" "length (xs @ ys) < 2 ^ 31"
  shows "\<exists>a b c. batch_build xs WriteBatch_new = Some a \<and> batch_build ys WriteBatch_new = Some b \<and>
    batch_Append a b = Some c \<and> batch_build (xs @ ys) WriteBatch_new = Some c \<and>
    batch_Count c = int (length (xs @ ys)) \<and> batch_Sequence (batch_SetSequence c seq) = seq \<and>
    batch_Iterate handler (batch_SetSequence c seq) h = map_option (\<lambda>h. (status_OK, h)) (run_ops handler (xs @ ys) h)"
proof -
  have len: "length xs < 2 ^ 31" "length ys < 2 ^ 31" using assms(2) by simp_all
  show ?thesis
    unfolding batch_new_bytes
    using batch_build_bytes [of "[]" xs 0] batch_build_bytes [of "[]" ys 0] batch_build_bytes [of "[]" "xs @ ys" 0]
      batch_Append_bytes [OF assms(2), of 0 0] batch_Count_bytes [OF assms(2), of 0]
      batch_Iterate_bytes [OF assms, of handler seq h] len assms(2)
    by simp
qed

lemma write_batch_roundtrip_witness:
  "\<exists>a b c. batch_build [OpPut [1] [2, 3]] WriteBatch_new = Some a \<and> batch_build [OpDelete [4]] WriteBatch_new = Some b \<and>
    batch_Append a b = Some c \<and> batch_Iterate recorder (batch_SetSequence c 9) [] = Some (status_OK, [OpPut [1] [2, 3], OpDelete [4]])"
  using write_batch_roundtrip [of "[OpPut [1] [2, 3]]" "[OpDelete [4]]" 9 recorder "[]"]
  by (auto simp: op_ok_def recorder_def)

text \<open>
  C34: Every proper prefix of a batch is rejected: iterating over it returns a corruption, whatever
  the place of the cut, and the handler was called for the operations that are complete, no others.
\<close>

theorem write_batch_truncated:
  assumes "\<forall>x \<in> set ops. op_ok x" "length ops < 2 ^ 31" "batch_build ops WriteBatch_new = Some b" "len < length b"
  shows "\<exists>st n. batch_Iterate recorder (take len b) [] = Some (st, take n ops) \<and> IsCorruption st"
proof -
  have corrupt: "IsCorruption (Corruption m [])" for m by (simp add: IsCorruption_def Corruption_def)
  have b: "b = batch_bytes 0 ops" using assms(2,3) batch_build_bytes [of "[]" ops 0] by (simp add: batch_new_bytes)
  show ?thesis
  proof (cases "len < 12")
    case True
    then show ?thesis
      using corrupt by (intro exI [of _ "Corruption (chars ''malformed WriteBatch (too small)'') []"] exI [of _ 0])
        (simp add: batch_Iterate_def kHeader_def Let_def min_less_iff_disj)
  next
    case False
    define p where "p = take (len - 12) (records ops)"
    have pb: "take len b = EncodeFixed64 0 @ EncodeFixed32 (word_of_nat (length ops)) @ p"
      using False by (simp add: b batch_bytes_def p_def)
    have "records ops = p @ drop (len - 12) (records ops)" "drop (len - 12) (records ops) \<noteq> []"
      using assms(4) False by (simp_all add: p_def b batch_bytes_def)
    then obtain xs x ys q t where ops: "ops = xs @ x # ys" "p = records xs @ q" "op_bytes x = q @ t" "t \<noteq> []"
      using records_cut by blast
    have xs: "\<forall>x \<in> set xs. op_ok x" "op_ok x" using assms(1) ops(1) by simp_all
    have count: "batch_Count (take len b) = int (length ops)"
      using batch_Count_bytes [OF assms(2), of 0] unfolding pb batch_Count_def by (simp add: batch_bytes_def)
    have loop: "c_loop (iterate_step recorder) (p, 0, []) = c_loop (iterate_step recorder) (q, length xs, xs)"
      using iterate_records [OF xs(1), of recorder q 0 "[]"] ops(2) by (simp add: run_recorder)
    have "\<exists>st. batch_Iterate recorder (take len b) [] = Some (st, xs) \<and> IsCorruption st"
    proof (cases "q = []")
      case True
      then have "c_loop (iterate_step recorder) (p, 0, []) = Some (None, length xs, xs)"
        using loop by (simp add: c_loop_unfold iterate_step_def)
      then show ?thesis
        using count ops(1) corrupt unfolding batch_Iterate_def Let_def kHeader_def remove_prefix_def
        by (simp add: pb)
    next
      case False
      then obtain s n where "iterate_step recorder (q, length xs, xs) = Some (Inl (Some s, n, xs))" "IsCorruption s"
        using iterate_cut [OF ops(3) False ops(4) xs(2), of recorder "length xs" xs] by blast
      then have "c_loop (iterate_step recorder) (p, 0, []) = Some (Some s, n, xs)" "IsCorruption s"
        using loop by (simp_all add: c_loop_unfold)
      then show ?thesis
        unfolding batch_Iterate_def Let_def kHeader_def remove_prefix_def by (simp add: pb)
    qed
    moreover have "xs = take (length xs) ops" using ops(1) by simp
    ultimately show ?thesis by metis
  qed
qed

lemma write_batch_truncated_witness:
  "\<exists>b st n. batch_build [OpPut [1] [2, 3], OpDelete [4]] WriteBatch_new = Some b \<and>
     batch_Iterate recorder (take 15 b) [] = Some (st, take n [OpPut [1] [2, 3], OpDelete [4]]) \<and> IsCorruption st"
proof -
  let ?ops = "[OpPut [1] [2, 3], OpDelete [4]]"
  have b: "batch_build ?ops WriteBatch_new = Some (batch_bytes 0 ?ops)"
    using batch_build_bytes [of "[]" ?ops 0] by (simp add: batch_new_bytes)
  have "15 < length (batch_bytes 0 ?ops)"
    by (simp add: batch_bytes_def prefixed_def)
  then show ?thesis
    using write_batch_truncated [OF _ _ b, of 15] b by (auto simp: op_ok_def)
qed

section \<open>Batches in a memtable\<close>

fun numbered :: "SequenceNumber \<Rightarrow> batch_op list \<Rightarrow> history" where
  "numbered q [] = []"
| "numbered q (x # ops) = (q, x) # numbered (q + 1) ops"

lemma run_inserter:
  "run_ops MemTableInserter ops (q, m) =
     map_option (\<lambda>m. (q + word_of_nat (length ops), m)) (mem_adds (numbered q ops) m)"
proof (induction ops arbitrary: q m)
  case (Cons x ops)
  have put: "handle_Put MemTableInserter k v (q, m) = map_option (Pair (q + 1)) (MemTable_Add q kTypeValue k v m)"
    and delete: "handle_Delete MemTableInserter k (q, m) = map_option (Pair (q + 1)) (MemTable_Add q kTypeDeletion k [] m)"
    for k v by (simp_all add: MemTableInserter_def)
  show ?case
    by (cases x) (auto simp: put delete Cons add.assoc split: option.split)
qed simp

lemma mem_adds_append:
  "mem_adds (xs @ ys) m = (case mem_adds xs m of None \<Rightarrow> None | Some m \<Rightarrow> mem_adds ys m)"
  by (induction xs arbitrary: m) (auto split: option.splits)

text \<open>
  C6: From building a batch to reading a key: operations put into a batch, the batch stamped with a
  sequence number behind those of the writes before, and inserted into the memtable: that succeeds, and every
  lookup then answers what the newest visible write says, the operations of the batch counted as writes with
  consecutive sequence numbers.
\<close>

theorem write_batch_visible:
  assumes "user_comparator C" "history_ok (ws @ numbered q ops)" "length ops < 2 ^ 31"
    and "length u + 8 < 2 ^ 32" "s \<le> kMaxSequenceNumber"
  shows "\<exists>m b m' lk. mem_adds ws (MemTable_new C) = Some m \<and> batch_build ops WriteBatch_new = Some b \<and>
    InsertInto (batch_SetSequence b q) m = Some (status_OK, m') \<and> LookupKey_new u s = Some lk \<and>
    MemTable_Get lk val st m' = Some (answer (newest C (ws @ numbered q ops) u s) val st)"
proof -
  have "set (map snd (numbered q ops)) = set ops" for q by (induction ops arbitrary: q) auto
  then have ok: "\<forall>x \<in> set ops. op_ok x"
    using assms(2) by (fastforce simp: history_ok_def)
  have b: "batch_build ops WriteBatch_new = Some (batch_bytes 0 ops)"
    using assms(3) batch_build_bytes [of "[]" ops 0] by (simp add: batch_new_bytes)
  obtain m' es where m': "mem_adds (ws @ numbered q ops) (MemTable_new C) = Some m'"
    "user_comparator.mem_rep C m' es" "set es = write_entry ` set (ws @ numbered q ops)"
    using user_comparator.mem_adds_rep [OF assms(1) user_comparator.mem_new_rep [OF assms(1)], of "[]" "ws @ numbered q ops"]
      assms(2) by auto
  then obtain m where m: "mem_adds ws (MemTable_new C) = Some m" "mem_adds (numbered q ops) m = Some m'"
    by (auto simp: mem_adds_append split: option.splits)
  have "InsertInto (batch_SetSequence (batch_bytes 0 ops) q) m = Some (status_OK, m')"
    unfolding InsertInto_def batch_SetSequence_bytes batch_Sequence_bytes
    by (simp add: batch_Iterate_bytes [OF ok assms(3)] run_inserter m(2))
  moreover obtain lk where "LookupKey_new u s = Some lk"
    "MemTable_Get lk val st m' = Some (answer (newest C (ws @ numbered q ops) u s) val st)"
    using user_comparator.mem_get_newest [OF assms(1) m'(2,3) assms(2,4,5)] by blast
  ultimately show ?thesis using m(1) b by blast
qed

lemma write_batch_visible_witness:
  "\<exists>m b m' lk. mem_adds [(1, OpPut [7] [1])] (MemTable_new BytewiseComparator) = Some m \<and>
     batch_build [OpPut [8] [2], OpDelete [7]] WriteBatch_new = Some b \<and>
     InsertInto (batch_SetSequence b 5) m = Some (status_OK, m') \<and> LookupKey_new [7] 9 = Some lk \<and>
     MemTable_Get lk [] status_OK m' = Some (True, [], NotFound [] [])"
  using write_batch_visible [OF bytewise.user_comparator_axioms,
      of "[(1, OpPut [7] [1])]" 5 "[OpPut [8] [2], OpDelete [7]]" "[7]" 9 "[]" status_OK]
  by (simp add: history_ok_def op_ok_def kMaxSequenceNumber_def newest_def BytewiseComparator_def
      del: mem_adds.simps batch_build.simps)

end
