(* ===== verification/LDB_Arena.thy ===== *)
theory LDB_Arena
  imports PB_Prelude
begin

text \<open>
  LevelDB: the arena of \<open>util/arena.h\<close> and \<open>util/arena.cc\<close>.  Addresses and sizes are 64-bit numbers.  The
  parameter \<open>new\<close> stands for the operator of the language: the address of its next result.  A block is
  recorded with its size, which only the operator knows in the code.
\<close>

definition arena_kBlockSize :: u64 where "arena_kBlockSize = 4096"

record Arena =
  alloc_ptr :: u64
  alloc_bytes_remaining :: u64
  ar_blocks :: "(u64 \<times> u64) list"
  memory_usage :: u64

definition Arena_new :: Arena where
  "Arena_new = \<lparr>alloc_ptr = 0, alloc_bytes_remaining = 0, ar_blocks = [], memory_usage = 0\<rparr>"

definition MemoryUsage :: "Arena \<Rightarrow> u64" where "MemoryUsage a = memory_usage a"

definition AllocateNewBlock :: "(nat \<Rightarrow> u64) \<Rightarrow> u64 \<Rightarrow> Arena \<Rightarrow> u64 \<times> Arena" where
  "AllocateNewBlock new block_bytes a =
     (let result = new (length (ar_blocks a))
      in (result, a\<lparr>ar_blocks := ar_blocks a @ [(result, block_bytes)],
                    memory_usage := memory_usage a + (block_bytes + 8)\<rparr>))"

definition AllocateFallback :: "(nat \<Rightarrow> u64) \<Rightarrow> u64 \<Rightarrow> Arena \<Rightarrow> u64 \<times> Arena" where
  "AllocateFallback new bytes a =
     (if bytes > arena_kBlockSize div 4 then AllocateNewBlock new bytes a
      else
        let (p, a) = AllocateNewBlock new arena_kBlockSize a;
            a = a\<lparr>alloc_ptr := p, alloc_bytes_remaining := arena_kBlockSize\<rparr>;
            result = alloc_ptr a
        in (result, a\<lparr>alloc_ptr := alloc_ptr a + bytes, alloc_bytes_remaining := alloc_bytes_remaining a - bytes\<rparr>))"

definition Allocate :: "(nat \<Rightarrow> u64) \<Rightarrow> u64 \<Rightarrow> Arena \<Rightarrow> (u64 \<times> Arena) option" where
  "Allocate new bytes a =
     (if \<not> bytes > 0 then None
      else if bytes \<le> alloc_bytes_remaining a then
        Some (alloc_ptr a, a\<lparr>alloc_ptr := alloc_ptr a + bytes, alloc_bytes_remaining := alloc_bytes_remaining a - bytes\<rparr>)
      else Some (AllocateFallback new bytes a))"

text \<open>\<open>align\<close> is 8, the larger of 8 and the size of a pointer on the 64-bit targets.\<close>

definition AllocateAligned :: "(nat \<Rightarrow> u64) \<Rightarrow> u64 \<Rightarrow> Arena \<Rightarrow> (u64 \<times> Arena) option" where
  "AllocateAligned new bytes a =
     (let align = 8;
          current_mod = alloc_ptr a AND (align - 1);
          slop = (if current_mod = 0 then 0 else align - current_mod);
          needed = bytes + slop;
          (result, a) =
            (if needed \<le> alloc_bytes_remaining a
             then (alloc_ptr a + slop,
               a\<lparr>alloc_ptr := alloc_ptr a + needed, alloc_bytes_remaining := alloc_bytes_remaining a - needed\<rparr>)
             else AllocateFallback new bytes a)
      in if \<not> result AND (align - 1) = 0 then None else Some (result, a))"

section \<open>Requests\<close>

text \<open>A client: requests with the number of bytes, some of them for aligned memory, and what was granted.\<close>

fun arena_run :: "(nat \<Rightarrow> u64) \<Rightarrow> (bool \<times> u64) list \<Rightarrow> Arena \<Rightarrow> ((u64 \<times> u64) list \<times> Arena) option" where
  "arena_run new [] a = Some ([], a)"
| "arena_run new ((aligned, bytes) # rs) a =
     (case (if aligned then AllocateAligned new bytes a else Allocate new bytes a) of None \<Rightarrow> None
      | Some (p, a) \<Rightarrow>
          (case arena_run new rs a of None \<Rightarrow> None | Some (grants, a) \<Rightarrow> Some ((p, bytes) # grants, a)))"

text \<open>Ranges of addresses.\<close>

definition span :: "u64 \<times> u64 \<Rightarrow> nat set" where
  "span r = {unat (fst r) ..< unat (fst r) + unat (snd r)}"

definition apart :: "(u64 \<times> u64) list \<Rightarrow> bool" where
  "apart rs \<longleftrightarrow> sorted_wrt (\<lambda>r s. span r \<inter> span s = {}) rs"

text \<open>What the operator promises of the blocks it returned: aligned, apart, within the address space.\<close>

definition blocks_ok :: "(u64 \<times> u64) list \<Rightarrow> bool" where
  "blocks_ok bs \<longleftrightarrow> apart bs \<and> (\<forall>b \<in> set bs. fst b AND 7 = 0 \<and> unat (fst b) + unat (snd b) \<le> 2 ^ 64)"

text \<open>
  The granted ranges are apart and inside of blocks, and the free range is inside of a block and apart
  from them.
\<close>

definition arena_inv :: "Arena \<Rightarrow> (u64 \<times> u64) list \<Rightarrow> bool" where
  "arena_inv a grants \<longleftrightarrow>
     apart ((alloc_ptr a, alloc_bytes_remaining a) # grants) \<and>
     (\<forall>g \<in> set grants. \<exists>b \<in> set (ar_blocks a). span g \<subseteq> span b) \<and>
     (alloc_bytes_remaining a = 0 \<or> (\<exists>b \<in> set (ar_blocks a). span (alloc_ptr a, alloc_bytes_remaining a) \<subseteq> span b)) \<and>
     unat (alloc_ptr a) + unat (alloc_bytes_remaining a) \<le> 2 ^ 64"

lemma inv_step:
  assumes inv: "arena_inv a gs" and old: "set (ar_blocks a) \<subseteq> set (ar_blocks a')"
    and F: "F = span (alloc_ptr a', alloc_bytes_remaining a')"
    and apart: "span g \<inter> F = {}" "\<And>h. h \<in> set gs \<Longrightarrow> span g \<inter> span h = {} \<and> F \<inter> span h = {}"
    and inside: "\<exists>b \<in> set (ar_blocks a'). span g \<subseteq> span b"
      "alloc_bytes_remaining a' = 0 \<or> (\<exists>b \<in> set (ar_blocks a'). F \<subseteq> span b)"
    and fits: "unat (alloc_ptr a') + unat (alloc_bytes_remaining a') \<le> 2 ^ 64"
  shows "arena_inv a' (g # gs)"
  unfolding arena_inv_def F [symmetric]
proof (intro conjI)
  show "apart ((alloc_ptr a', alloc_bytes_remaining a') # g # gs)"
    using inv apart unfolding arena_inv_def apart_def F by (simp add: Int_commute)
  show "\<forall>h \<in> set (g # gs). \<exists>b \<in> set (ar_blocks a'). span h \<subseteq> span b"
    using inv old inside(1) unfolding arena_inv_def by (simp only: set_simps ball_simps) blast
qed (fact inside(2) fits)+

lemma inv_new_block:
  assumes inv: "arena_inv a gs" and bs: "blocks_ok (ar_blocks a @ [b])"
  shows "\<And>h. h \<in> set gs \<Longrightarrow> span b \<inter> span h = {}" "span b \<inter> span (alloc_ptr a, alloc_bytes_remaining a) = {}"
proof -
  have new: "span b \<inter> span c = {}" if "c \<in> set (ar_blocks a)" for c
    using bs that by (auto simp: blocks_ok_def apart_def sorted_wrt_append)
  show "span b \<inter> span h = {}" if "h \<in> set gs" for h
    using inv that new unfolding arena_inv_def by blast
  show "span b \<inter> span (alloc_ptr a, alloc_bytes_remaining a) = {}"
  proof (cases "alloc_bytes_remaining a = 0")
    case True
    then show ?thesis by (simp add: span_def)
  next
    case False
    then show ?thesis using inv new unfolding arena_inv_def by blast
  qed
qed

text \<open>A range carved out of a range that does not wrap: what is granted, and what stays free.\<close>

lemma carve:
  assumes "unat p + unat r \<le> 2 ^ 64" "unat slop + unat n \<le> unat r" "0 < n"
  shows "span (p + slop, n) = {unat p + unat slop ..< unat p + unat slop + unat n}"
    and "span (p + (n + slop), r - (n + slop)) = {unat p + unat slop + unat n ..< unat p + unat r}"
    and "unat (p + (n + slop)) + unat (r - (n + slop)) \<le> 2 ^ 64"
proof -
  have n0: "0 < unat n" using assms(3) by (simp add: word_gt_0_no word_less_nat_alt)
  have r: "unat r < 2 ^ 64" by (rule unat_u64_less)
  have p: "unat p + unat slop < 2 ^ 64" using assms n0 by linarith
  have ns: "unat (n + slop) = unat n + unat slop"
    using assms(2) r by (simp add: unat_word_ariths)
  have ps: "unat (p + slop) = unat p + unat slop"
    using p by (simp add: unat_word_ariths)
  have le: "n + slop \<le> r" using ns assms(2) by (simp add: word_le_nat_alt)
  have rs: "unat (r - (n + slop)) = unat r - (unat n + unat slop)"
    using unat_sub [OF le] ns by simp
  show "span (p + slop, n) = {unat p + unat slop ..< unat p + unat slop + unat n}"
    by (simp add: span_def ps)
  have pns: "unat (p + (n + slop)) = (unat p + (unat n + unat slop)) mod 2 ^ 64"
    by (simp add: unat_word_ariths ns [unfolded unat_word_ariths] mod_simps)
  show "span (p + (n + slop), r - (n + slop)) = {unat p + unat slop + unat n ..< unat p + unat r}"
  proof (cases "unat p + (unat n + unat slop) = 2 ^ 64")
    case True
    then have "unat r = unat n + unat slop" using assms by linarith
    then show ?thesis by (simp add: span_def rs)
  next
    case False
    then have "unat p + (unat n + unat slop) < 2 ^ 64" using assms by linarith
    then have start: "unat (p + (n + slop)) = unat p + unat slop + unat n" using pns by simp
    have "unat p + unat slop + unat n + (unat r - (unat n + unat slop)) = unat p + unat r"
      using assms(2) by linarith
    then show ?thesis by (simp only: span_def fst_conv snd_conv rs start)
  qed
  show "unat (p + (n + slop)) + unat (r - (n + slop)) \<le> 2 ^ 64"
  proof -
    have "(unat p + (unat n + unat slop)) mod 2 ^ 64 \<le> unat p + (unat n + unat slop)" by (rule mod_less_eq_dividend)
    then show ?thesis using pns rs assms(1,2) by linarith
  qed
qed

lemma carve_inv:
  assumes inv: "arena_inv a gs" and n: "0 < n" "unat slop + unat n \<le> unat (alloc_bytes_remaining a)"
    and p: "p = alloc_ptr a + slop" and a': "a' = a\<lparr>alloc_ptr := alloc_ptr a + (n + slop),
      alloc_bytes_remaining := alloc_bytes_remaining a - (n + slop)\<rparr>"
  shows "arena_inv a' ((p, n) # gs)"
proof -
  have fit: "unat (alloc_ptr a) + unat (alloc_bytes_remaining a) \<le> 2 ^ 64" using inv by (simp add: arena_inv_def)
  note carved = carve [OF fit n(2,1)]
  let ?old = "span (alloc_ptr a, alloc_bytes_remaining a)"
  have sub: "span (p, n) \<subseteq> ?old" "span (alloc_ptr a', alloc_bytes_remaining a') \<subseteq> ?old"
    unfolding p a' using carved(1,2) n(2) by (simp_all add: span_def)
  have "alloc_bytes_remaining a \<noteq> 0" using n by (auto simp: word_gt_0_no unat_eq_0)
  then obtain b where b: "b \<in> set (ar_blocks a)" "?old \<subseteq> span b" using inv by (auto simp: arena_inv_def)
  have old: "?old \<inter> span h = {}" if "h \<in> set gs" for h using inv that by (simp add: arena_inv_def apart_def)
  have blocks: "ar_blocks a' = ar_blocks a" by (simp add: a')
  show ?thesis
  proof (rule inv_step [OF inv _ refl])
    show "span (p, n) \<inter> span (alloc_ptr a', alloc_bytes_remaining a') = {}"
      unfolding p a' by (simp add: carved(1,2))
    show "span (p, n) \<inter> span h = {} \<and> span (alloc_ptr a', alloc_bytes_remaining a') \<inter> span h = {}"
      if "h \<in> set gs" for h using old [OF that] sub by blast
    show "\<exists>b \<in> set (ar_blocks a'). span (p, n) \<subseteq> span b"
      by (rule bexI [of _ b], rule subset_trans [OF sub(1) b(2)]) (simp add: blocks b(1))
    show "alloc_bytes_remaining a' = 0 \<or>
        (\<exists>b \<in> set (ar_blocks a'). span (alloc_ptr a', alloc_bytes_remaining a') \<subseteq> span b)"
      by (rule disjI2, rule bexI [of _ b], rule subset_trans [OF sub(2) b(2)]) (simp add: blocks b(1))
    show "unat (alloc_ptr a') + unat (alloc_bytes_remaining a') \<le> 2 ^ 64" using carved(3) by (simp add: a')
  qed (simp add: blocks)
qed

lemma Fallback_inv:
  assumes inv: "arena_inv a gs" and run: "AllocateFallback new n a = (p, a')" and n: "0 < n" and bs: "blocks_ok (ar_blocks a')"
  shows "arena_inv a' ((p, n) # gs)"
proof (cases "n > arena_kBlockSize div 4")
  case True
  then have a': "ar_blocks a' = ar_blocks a @ [(p, n)]" "alloc_ptr a' = alloc_ptr a"
    "alloc_bytes_remaining a' = alloc_bytes_remaining a"
    using run by (auto simp: AllocateFallback_def AllocateNewBlock_def Let_def)
  note new = inv_new_block [OF inv bs [unfolded a']]
  show ?thesis
    by (rule inv_step [OF inv _ refl]) (use inv new a' in \<open>auto simp: arena_inv_def apart_def\<close>)
next
  case False
  define b where "b = (p, arena_kBlockSize)"
  have a': "ar_blocks a' = ar_blocks a @ [b]" "alloc_ptr a' = p + n" "alloc_bytes_remaining a' = arena_kBlockSize - n"
    using run False by (auto simp: AllocateFallback_def AllocateNewBlock_def Let_def b_def)
  note new = inv_new_block [OF inv bs [unfolded a']]
  have fit: "unat p + unat arena_kBlockSize \<le> 2 ^ 64" using bs by (simp add: a' blocks_ok_def b_def)
  have "unat (0 :: u64) + unat n \<le> unat arena_kBlockSize"
    using False by (simp add: not_less word_le_nat_alt arena_kBlockSize_def)
  note carved = carve [OF fit this n]
  have sub: "span (p, n) \<subseteq> span b" "span (alloc_ptr a', alloc_bytes_remaining a') \<subseteq> span b"
    using carved(1,2) \<open>unat (0 :: u64) + unat n \<le> unat arena_kBlockSize\<close> by (simp_all add: a' b_def span_def)
  show ?thesis
  proof (rule inv_step [OF inv _ refl])
    show "span (p, n) \<inter> span (alloc_ptr a', alloc_bytes_remaining a') = {}"
      unfolding a' using carved(1,2) by (simp add: ivl_disj_int)
    show "span (p, n) \<inter> span h = {} \<and> span (alloc_ptr a', alloc_bytes_remaining a') \<inter> span h = {}"
      if "h \<in> set gs" for h using new(1) [OF that] sub by blast
    show "\<exists>b \<in> set (ar_blocks a'). span (p, n) \<subseteq> span b" using sub(1) by (simp add: a')
    show "alloc_bytes_remaining a' = 0 \<or>
        (\<exists>b \<in> set (ar_blocks a'). span (alloc_ptr a', alloc_bytes_remaining a') \<subseteq> span b)"
      using sub(2) by (simp add: a'(1))
    show "unat (alloc_ptr a') + unat (alloc_bytes_remaining a') \<le> 2 ^ 64" using carved(3) by (simp add: a')
  qed (auto simp: a')
qed

lemma Allocate_inv:
  assumes inv: "arena_inv a gs" and run: "Allocate new n a = Some (p, a')" and bs: "blocks_ok (ar_blocks a')"
  shows "arena_inv a' ((p, n) # gs)"
proof (cases "n \<le> alloc_bytes_remaining a")
  case True
  then have n: "0 < n" "unat (0 :: u64) + unat n \<le> unat (alloc_bytes_remaining a)"
    using run by (auto simp: Allocate_def word_le_nat_alt split: if_splits)
  have a': "p = alloc_ptr a" "a' = a\<lparr>alloc_ptr := alloc_ptr a + n, alloc_bytes_remaining := alloc_bytes_remaining a - n\<rparr>"
    using run True n by (auto simp: Allocate_def)
  have fit: "unat (alloc_ptr a) + unat (alloc_bytes_remaining a) \<le> 2 ^ 64" using inv by (simp add: arena_inv_def)
  show ?thesis
    by (rule carve_inv [OF inv n(1) n(2)]) (use a' in simp_all)
next
  case False
  then have "AllocateFallback new n a = (p, a')" "0 < n" using run by (auto simp: Allocate_def split: if_splits)
  then show ?thesis by (rule Fallback_inv [OF inv _ _ bs])
qed

lemma AllocateAligned_inv:
  assumes inv: "arena_inv a gs" and run: "AllocateAligned new n a = Some (p, a')" and bs: "blocks_ok (ar_blocks a')"
    and n: "0 < n" "unat n \<le> 2 ^ 63"
  shows "arena_inv a' ((p, n) # gs)"
proof -
  let ?m = "alloc_ptr a AND 7"
  let ?slop = "if ?m = 0 then 0 else 8 - ?m"
  have slop: "unat ?slop \<le> 8"
  proof -
    have "?m \<le> 7" by (rule word_and_le1)
    then show ?thesis by (auto simp: word_le_nat_alt unat_sub_if')
  qed
  then have sum: "unat (n + ?slop) = unat n + unat ?slop"
    using n(2) by (subst unat_add_lem [THEN iffD1]) simp_all
  show ?thesis
  proof (cases "n + ?slop \<le> alloc_bytes_remaining a")
    case True
    then have fits: "unat ?slop + unat n \<le> unat (alloc_bytes_remaining a)"
      using sum by (simp add: word_le_nat_alt)
    show ?thesis
      by (rule carve_inv [OF inv n(1) fits]) (use run True in \<open>auto simp: AllocateAligned_def Let_def split: if_splits\<close>)
  next
    case False
    then have "AllocateFallback new n a = (p, a')"
      using run by (auto simp: AllocateAligned_def Let_def split: if_splits prod.splits)
    then show ?thesis by (rule Fallback_inv [OF inv _ n(1) bs])
  qed
qed

text \<open>Blocks are never dropped; results of aligned requests are aligned.\<close>

lemma Fallback_blocks:
  "AllocateFallback new n a = (p, a') \<Longrightarrow>
   p = new (length (ar_blocks a)) \<and> ar_blocks a' = ar_blocks a @ [(p, if n > arena_kBlockSize div 4 then n else arena_kBlockSize)]"
  by (auto simp: AllocateFallback_def AllocateNewBlock_def Let_def split: if_splits)

lemma request_blocks:
  "(if aligned then AllocateAligned new n a else Allocate new n a) = Some (p, a') \<Longrightarrow> \<exists>bs. ar_blocks a' = ar_blocks a @ bs"
  by (auto simp: AllocateAligned_def Allocate_def Let_def dest!: Fallback_blocks split: if_splits prod.splits)

lemma run_blocks: "arena_run new rs a = Some (gs, a') \<Longrightarrow> \<exists>bs. ar_blocks a' = ar_blocks a @ bs"
proof (induction rs arbitrary: a gs)
  case (Cons r rs)
  obtain al n where r: "r = (al, n)" by (cases r)
  from Cons.prems obtain p a1 gs' where step: "(if al then AllocateAligned new n a else Allocate new n a) = Some (p, a1)"
    "arena_run new rs a1 = Some (gs', a')" by (auto simp: r split: option.splits)
  show ?case using request_blocks [OF step(1)] Cons.IH [OF step(2)] by auto
qed simp

lemma blocks_ok_prefix: "blocks_ok (xs @ ys) \<Longrightarrow> blocks_ok xs"
  by (auto simp: blocks_ok_def apart_def sorted_wrt_append)

lemma align_up: "(p + (8 - (p AND 7))) AND 7 = 0" for p :: u64
proof -
  have m: "unat (w AND 7) = unat w mod 8" for w :: u64
  proof -
    have "w AND 7 = take_bit 3 w" by (simp add: take_bit_eq_mask mask_eq_exp_minus_1)
    then show ?thesis by (simp add: unsigned_take_bit_eq) (simp add: take_bit_eq_mod)
  qed
  have "unat (p AND 7) < 8" by (simp add: m)
  then have "unat (8 - (p AND 7)) = 8 - unat p mod 8"
    by (subst unat_sub) (simp_all add: word_le_nat_alt m)
  then have "unat (p + (8 - (p AND 7))) = (unat p + (8 - unat p mod 8)) mod 2 ^ 64"
    by (simp add: unat_word_ariths(1))
  then have "unat (p + (8 - (p AND 7)) AND 7) = (unat p + (8 - unat p mod 8)) mod 2 ^ 64 mod 8"
    by (simp only: m)
  also have "\<dots> = (unat p + (8 - unat p mod 8)) mod 8" by (rule mod_mod_cancel) simp
  also have "\<dots> = 0" by presburger
  finally show ?thesis by (simp add: unat_eq_0)
qed

lemma request_returns:
  assumes new: "\<And>i. new i AND 7 = 0" and n: "0 < n"
  shows "\<exists>p a'. (if aligned then AllocateAligned new n a else Allocate new n a) = Some (p, a') \<and> (aligned \<longrightarrow> p AND 7 = 0)"
proof (cases aligned)
  case False
  then show ?thesis using n by (cases "AllocateFallback new n a") (simp add: Allocate_def)
next
  case True
  let ?slop = "if alloc_ptr a AND 7 = 0 then 0 else 8 - (alloc_ptr a AND 7)"
  have fit: "(alloc_ptr a + ?slop) AND 7 = 0" using align_up [of "alloc_ptr a"] by simp
  obtain p a' where fb: "AllocateFallback new n a = (p, a')" by (cases "AllocateFallback new n a")
  have "p AND 7 = 0" using Fallback_blocks [OF fb] new by simp
  with fit fb True show ?thesis
    by (cases "alloc_ptr a AND 7 = 0"; cases "n + ?slop \<le> alloc_bytes_remaining a")
      (simp_all add: AllocateAligned_def Let_def)
qed

lemma arena_run_returns:
  assumes new: "\<And>i. new i AND 7 = 0" and rs: "\<forall>(al, n) \<in> set rs. 0 < n"
  shows "\<exists>grants a'. arena_run new rs a = Some (grants, a') \<and> map snd grants = map snd rs \<and>
    (\<forall>i < length rs. fst (rs ! i) \<longrightarrow> fst (grants ! i) AND 7 = 0)"
  using rs
proof (induction rs arbitrary: a)
  case (Cons r rs)
  obtain al n where r: "r = (al, n)" by (cases r)
  obtain p a1 where step: "(if al then AllocateAligned new n a else Allocate new n a) = Some (p, a1)"
    and al: "al \<longrightarrow> p AND 7 = 0"
    using request_returns [of new n al a, OF new] Cons.prems r by auto
  obtain grants a' where run: "arena_run new rs a1 = Some (grants, a')" "map snd grants = map snd rs"
    "\<forall>i < length rs. fst (rs ! i) \<longrightarrow> fst (grants ! i) AND 7 = 0"
    using Cons.IH [of a1] Cons.prems by auto
  have "\<forall>i < length (r # rs). fst ((r # rs) ! i) \<longrightarrow> fst (((p, n) # grants) ! i) AND 7 = 0"
    using run(3) al by (auto simp: r less_Suc_eq_0_disj)
  then show ?case using step run by (simp add: r)
qed simp

lemma arena_run_inv:
  assumes new: "\<And>i. new i AND 7 = 0" and inv: "arena_inv a gs" and rs: "\<forall>(al, n) \<in> set rs. 0 < n \<and> unat n \<le> 2 ^ 63"
  shows "\<exists>grants a'. arena_run new rs a = Some (grants, a') \<and> map snd grants = map snd rs \<and>
    (\<forall>i < length rs. fst (rs ! i) \<longrightarrow> fst (grants ! i) AND 7 = 0) \<and>
    (blocks_ok (ar_blocks a') \<longrightarrow> arena_inv a' (rev grants @ gs))"
  using inv rs
proof (induction rs arbitrary: a gs)
  case (Cons r rs)
  obtain al n where r: "r = (al, n)" by (cases r)
  have n: "0 < n" "unat n \<le> 2 ^ 63" using Cons.prems(2) by (simp_all add: r)
  obtain p a1 where step: "(if al then AllocateAligned new n a else Allocate new n a) = Some (p, a1)"
    and al: "al \<longrightarrow> p AND 7 = 0"
    using request_returns [of new n al a, OF new n(1)] by blast
  show ?case
  proof (cases "blocks_ok (ar_blocks a1)")
    case True
    then have "arena_inv a1 ((p, n) # gs)"
      using step Allocate_inv [OF Cons.prems(1) _ True] AllocateAligned_inv [OF Cons.prems(1) _ True n]
      by (cases al) simp_all
    then obtain grants a' where run: "arena_run new rs a1 = Some (grants, a')" "map snd grants = map snd rs"
      "\<forall>i < length rs. fst (rs ! i) \<longrightarrow> fst (grants ! i) AND 7 = 0"
      "blocks_ok (ar_blocks a') \<longrightarrow> arena_inv a' (rev grants @ (p, n) # gs)"
      using Cons.IH [of a1 "(p, n) # gs"] Cons.prems(2) by auto
    have "\<forall>i < length (r # rs). fst ((r # rs) ! i) \<longrightarrow> fst (((p, n) # grants) ! i) AND 7 = 0"
      using run(3) al by (auto simp: r less_Suc_eq_0_disj)
    then show ?thesis using step run by (simp add: r)
  next
    case False
    have rest: "\<forall>(al, n) \<in> set rs. 0 < n" using Cons.prems(2) by auto
    obtain grants a' where run: "arena_run new rs a1 = Some (grants, a')" "map snd grants = map snd rs"
      "\<forall>i < length rs. fst (rs ! i) \<longrightarrow> fst (grants ! i) AND 7 = 0"
      using arena_run_returns [of new rs a1, OF new] rest by blast
    have "\<not> blocks_ok (ar_blocks a')" using False run_blocks [OF run(1)] blocks_ok_prefix by auto
    moreover have "\<forall>i < length (r # rs). fst ((r # rs) ! i) \<longrightarrow> fst (((p, n) # grants) ! i) AND 7 = 0"
      using run(3) al by (auto simp: r less_Suc_eq_0_disj)
    ultimately show ?thesis using step run by (simp add: r)
  qed
qed simp

text \<open>
  C35: The arena grants memory safely: if the operator \<open>new\<close> returns aligned addresses then every sequence of
  requests for at least one byte succeeds, no assertion fails, aligned requests get aligned addresses, and if the
  blocks that were allocated do not overlap and do not wrap, then every granted range lies within a block
  and no two of them share a byte.
\<close>

theorem arena_grants:
  assumes "\<And>i. new i AND 7 = 0" "\<forall>(aligned, n) \<in> set rs. 0 < n \<and> unat n \<le> 2 ^ 63"
  shows "\<exists>grants a. arena_run new rs Arena_new = Some (grants, a) \<and> map snd grants = map snd rs \<and>
    (\<forall>i < length rs. fst (rs ! i) \<longrightarrow> fst (grants ! i) AND 7 = 0) \<and>
    (blocks_ok (ar_blocks a) \<longrightarrow> apart grants \<and> (\<forall>g \<in> set grants. \<exists>b \<in> set (ar_blocks a). span g \<subseteq> span b))"
proof -
  have "arena_inv Arena_new []" by (simp add: arena_inv_def Arena_new_def apart_def)
  then obtain grants a where run: "arena_run new rs Arena_new = Some (grants, a)" "map snd grants = map snd rs"
    "\<forall>i < length rs. fst (rs ! i) \<longrightarrow> fst (grants ! i) AND 7 = 0"
    "blocks_ok (ar_blocks a) \<longrightarrow> arena_inv a (rev grants @ [])"
    using arena_run_inv [of new Arena_new "[]" rs, OF assms(1) _ assms(2)] by blast
  have "apart grants \<and> (\<forall>g \<in> set grants. \<exists>b \<in> set (ar_blocks a). span g \<subseteq> span b)"
    if "blocks_ok (ar_blocks a)"
  proof -
    have "arena_inv a (rev grants)" using run(4) that by simp
    then show ?thesis
      unfolding arena_inv_def apart_def by (simp add: sorted_wrt_rev Int_commute)
  qed
  with run show ?thesis by blast
qed

lemma arena_grants_witness:
  "\<exists>grants a. arena_run (\<lambda>i. 4096 * word_of_nat (Suc i)) [(False, 5), (True, 16), (False, 2000)] Arena_new = Some (grants, a) \<and>
     map snd grants = [5, 16, 2000] \<and> fst (grants ! 1) AND 7 = 0"
proof -
  have "4096 * word_of_nat (Suc i) AND 7 = (0 :: u64)" for i
  proof -
    have "4096 * word_of_nat (Suc i) AND 7 = (take_bit 3 (push_bit 12 (word_of_nat (Suc i))) :: u64)"
      by (simp add: take_bit_eq_mask mask_eq_exp_minus_1 push_bit_eq_mult mult.commute)
    then show ?thesis by (simp add: take_bit_push_bit)
  qed
  from arena_grants [of "\<lambda>i. 4096 * word_of_nat (Suc i)" "[(False, 5), (True, 16), (False, 2000)]", OF this]
  show ?thesis by (fastforce simp: nth_Cons')
qed

end
