(* ===== verification/LDB_Merger.thy ===== *)
theory LDB_Merger
  imports LDB_Iterator
begin

text \<open>
  LevelDB: the merging iterator of \<open>table/merger.cc\<close>.  Its children are iterators of one type with their
  operations (the virtual methods), each behind a caching wrapper; the current child is its index.
\<close>

datatype Direction = kForward | kReverse

record 'i MergingIterator =
  mi_comparator :: comparator
  mi_children :: "'i IteratorWrapper list"
  mi_current :: "nat option"
  mi_direction :: Direction

definition MergingIterator_new :: "'i iter_ops \<Rightarrow> comparator \<Rightarrow> 'i list \<Rightarrow> 'i MergingIterator option" where
  "MergingIterator_new ops comparator children =
     map_option (\<lambda>cs. \<lparr>mi_comparator = comparator, mi_children = cs, mi_current = None, mi_direction = kForward\<rparr>)
       (those (map (IteratorWrapper_new ops) children))"

section \<open>The smallest and the largest child\<close>

text \<open>One turn of the loops: the child is valid, and better than the one found so far.\<close>

definition pick_child :: "(slice \<Rightarrow> slice \<Rightarrow> bool) \<Rightarrow> 'i IteratorWrapper list \<Rightarrow> nat option \<Rightarrow> nat \<Rightarrow> nat option" where
  "pick_child better cs best i =
     (if w_valid (cs ! i) then
        (case best of None \<Rightarrow> Some i
         | Some b \<Rightarrow> if better (w_key (cs ! i)) (w_key (cs ! b)) then Some i else best)
      else best)"

definition FindSmallest :: "'i MergingIterator \<Rightarrow> 'i MergingIterator" where
  "FindSmallest m =
     m\<lparr>mi_current := foldl (pick_child (\<lambda>a b. Compare (mi_comparator m) a b < 0) (mi_children m)) None
         [0..<length (mi_children m)]\<rparr>"

definition FindLargest :: "'i MergingIterator \<Rightarrow> 'i MergingIterator" where
  "FindLargest m =
     m\<lparr>mi_current := foldl (pick_child (\<lambda>a b. Compare (mi_comparator m) a b > 0) (mi_children m)) None
         (rev [0..<length (mi_children m)])\<rparr>"

section \<open>Movements\<close>

text \<open>A loop over the children that changes each of them.\<close>

definition each_child ::
  "(nat \<Rightarrow> 'i IteratorWrapper \<Rightarrow> 'i IteratorWrapper option) \<Rightarrow> 'i MergingIterator \<Rightarrow> 'i MergingIterator option" where
  "each_child f m =
     map_option (\<lambda>cs. m\<lparr>mi_children := cs\<rparr>) (those (map (\<lambda>i. f i (mi_children m ! i)) [0..<length (mi_children m)]))"

definition Merging_Valid :: "'i MergingIterator \<Rightarrow> bool" where
  "Merging_Valid m = (mi_current m \<noteq> None)"

definition Merging_SeekToFirst :: "'i iter_ops \<Rightarrow> 'i MergingIterator \<Rightarrow> 'i MergingIterator option" where
  "Merging_SeekToFirst ops m =
     map_option (\<lambda>m. (FindSmallest m)\<lparr>mi_direction := kForward\<rparr>) (each_child (\<lambda>i. SeekToFirst (wrapper_ops ops)) m)"

definition Merging_SeekToLast :: "'i iter_ops \<Rightarrow> 'i MergingIterator \<Rightarrow> 'i MergingIterator option" where
  "Merging_SeekToLast ops m =
     map_option (\<lambda>m. (FindLargest m)\<lparr>mi_direction := kReverse\<rparr>) (each_child (\<lambda>i. SeekToLast (wrapper_ops ops)) m)"

definition Merging_Seek :: "'i iter_ops \<Rightarrow> slice \<Rightarrow> 'i MergingIterator \<Rightarrow> 'i MergingIterator option" where
  "Merging_Seek ops target m =
     map_option (\<lambda>m. (FindSmallest m)\<lparr>mi_direction := kForward\<rparr>) (each_child (\<lambda>i. Seek (wrapper_ops ops) target) m)"

text \<open>The two loops that turn the direction around, for a child that is not the current one.\<close>

definition turn_forward :: "'i iter_ops \<Rightarrow> comparator \<Rightarrow> slice \<Rightarrow> 'i IteratorWrapper \<Rightarrow> 'i IteratorWrapper option" where
  "turn_forward ops comparator key child =
     (case Seek (wrapper_ops ops) key child of None \<Rightarrow> None
      | Some child \<Rightarrow>
          if w_valid child \<and> Compare comparator key (w_key child) = 0 then Next (wrapper_ops ops) child
          else Some child)"

definition turn_backward :: "'i iter_ops \<Rightarrow> slice \<Rightarrow> 'i IteratorWrapper \<Rightarrow> 'i IteratorWrapper option" where
  "turn_backward ops key child =
     (case Seek (wrapper_ops ops) key child of None \<Rightarrow> None
      | Some child \<Rightarrow>
          if w_valid child then Prev (wrapper_ops ops) child else SeekToLast (wrapper_ops ops) child)"

text \<open>The movement of the current child.\<close>

definition move_current ::
  "('i IteratorWrapper \<Rightarrow> 'i IteratorWrapper option) \<Rightarrow> nat \<Rightarrow> 'i MergingIterator \<Rightarrow> 'i MergingIterator option" where
  "move_current move c m =
     map_option (\<lambda>w. m\<lparr>mi_children := (mi_children m)[c := w]\<rparr>) (move (mi_children m ! c))"

definition Merging_Next :: "'i iter_ops \<Rightarrow> 'i MergingIterator \<Rightarrow> 'i MergingIterator option" where
  "Merging_Next ops m =
     (case mi_current m of None \<Rightarrow> None
      | Some c \<Rightarrow>
          let key = w_key (mi_children m ! c) in
          case (if mi_direction m \<noteq> kForward
                then map_option (\<lambda>m. m\<lparr>mi_direction := kForward\<rparr>)
                  (each_child (\<lambda>i child. if i \<noteq> c then turn_forward ops (mi_comparator m) key child else Some child) m)
                else Some m) of None \<Rightarrow> None
          | Some m \<Rightarrow> map_option FindSmallest (move_current (Next (wrapper_ops ops)) c m))"

definition Merging_Prev :: "'i iter_ops \<Rightarrow> 'i MergingIterator \<Rightarrow> 'i MergingIterator option" where
  "Merging_Prev ops m =
     (case mi_current m of None \<Rightarrow> None
      | Some c \<Rightarrow>
          let key = w_key (mi_children m ! c) in
          case (if mi_direction m \<noteq> kReverse
                then map_option (\<lambda>m. m\<lparr>mi_direction := kReverse\<rparr>)
                  (each_child (\<lambda>i child. if i \<noteq> c then turn_backward ops key child else Some child) m)
                else Some m) of None \<Rightarrow> None
          | Some m \<Rightarrow> map_option FindLargest (move_current (Prev (wrapper_ops ops)) c m))"

definition Merging_key :: "'i MergingIterator \<Rightarrow> slice option" where
  "Merging_key m = (case mi_current m of None \<Rightarrow> None | Some c \<Rightarrow> wrapper_key (mi_children m ! c))"

definition Merging_value :: "'i iter_ops \<Rightarrow> 'i MergingIterator \<Rightarrow> slice option" where
  "Merging_value ops m = (case mi_current m of None \<Rightarrow> None | Some c \<Rightarrow> wrapper_value ops (mi_children m ! c))"

text \<open>The loop of \<open>status\<close> stops at the first child whose status is an error.\<close>

fun status_loop :: "'i iter_ops \<Rightarrow> Status \<Rightarrow> 'i IteratorWrapper list \<Rightarrow> Status" where
  "status_loop ops st [] = st"
| "status_loop ops st (child # cs) =
     (let st = iter_status (wrapper_ops ops) child in if \<not> status_ok st then st else status_loop ops st cs)"

definition Merging_status :: "'i iter_ops \<Rightarrow> 'i MergingIterator \<Rightarrow> Status" where
  "Merging_status ops m = status_loop ops status_OK (mi_children m)"

definition merging_ops :: "'i iter_ops \<Rightarrow> 'i MergingIterator iter_ops" where
  "merging_ops ops =
     \<lparr>Valid = Merging_Valid, SeekToFirst = Merging_SeekToFirst ops, SeekToLast = Merging_SeekToLast ops,
      Seek = Merging_Seek ops, Next = Merging_Next ops, Prev = Merging_Prev ops,
      iter_key = Merging_key, iter_value = Merging_value ops, iter_status = Merging_status ops\<rparr>"

text \<open>\<open>NewMergingIterator\<close> makes one of three kinds of iterators.\<close>

datatype 'i merged = MergedNone Status | MergedOne 'i | MergedMany "'i MergingIterator"

definition NewMergingIterator :: "'i iter_ops \<Rightarrow> comparator \<Rightarrow> 'i list \<Rightarrow> 'i merged option" where
  "NewMergingIterator ops comparator children =
     (case children of
        [] \<Rightarrow> Some (MergedNone NewEmptyIterator)
      | [child] \<Rightarrow> Some (MergedOne child)
      | _ \<Rightarrow> map_option MergedMany (MergingIterator_new ops comparator children))"

end
