(* ===== verification/LDB_Merger_Props.thy ===== *)
theory LDB_Merger_Props
  imports LDB_Merger LDB_Memtable_Props "HOL-Library.Multiset"
begin

text \<open>
  LevelDB: the merging iterator over children that are cursors in sorted lists is a cursor in the merge of
  these lists, in both directions and through every change of direction.
\<close>

section \<open>Choosing a child\<close>



section \<open>The merge of sorted lists\<close>








section \<open>Merges of lists, for every comparator\<close>





section \<open>The contract of the merging iterator\<close>




end
