(* ===== verification/LDB_Format.thy ===== *)
theory LDB_Format
  imports LDB_Options LDB_Files LDB_Coding LDB_Crc32c "HOL-Library.Monad_Syntax"
begin

text \<open>
  LevelDB: the frame of table files, \<open>table/format.h\<close> and \<open>table/format.cc\<close>, block handles, the footer and
  reading a block; and the interface of random access files (\<open>include/leveldb/env.h\<close>) with its contract.
  A read outside of a buffer has no result.
\<close>

section \<open>Random access files\<close>

text \<open>
  \<open>Read\<close> is a const method that threads may call at the same time: its result is a function of its
  arguments.  The result has the status, the slice and whether the slice lies in the caller's buffer.
\<close>

record RandomAccessFile =
  raf_Read :: "u64 \<Rightarrow> u64 \<Rightarrow> (Status \<times> slice \<times> bool) option"

locale random_access_file =
  fixes R :: RandomAccessFile
    and bytes :: "u8 list"
  assumes read_within: "length bytes < 2 ^ 64 \<Longrightarrow> unat offset + unat n \<le> length bytes \<Longrightarrow>
    \<exists>own. raf_Read R offset n = Some (status_OK, take (unat n) (drop (unat offset) bytes), own)"

definition posix_random_access :: "'k posix \<Rightarrow> 'k \<Rightarrow> PosixRandomAccessFile \<Rightarrow> RandomAccessFile" where
  "posix_random_access K k f = \<lparr>raf_Read = (\<lambda>offset n.
     case PosixRandomAccessFile_Read K k f offset (unat n) of None \<Rightarrow> None
     | Some (status, result, k') \<Rightarrow> Some (status, case result of None \<Rightarrow> [] | Some s \<Rightarrow> s, True))\<rparr>"

definition mmap_random_access :: "'k posix \<Rightarrow> PosixMmapReadableFile \<Rightarrow> RandomAccessFile" where
  "mmap_random_access K f = \<lparr>raf_Read = (\<lambda>offset n.
     map_option (\<lambda>(status, result). (status, result, False)) (PosixMmapReadableFile_Read K f offset n))\<rparr>"

interpretation mmap_file: random_access_file "mmap_random_access K \<lparr>mmap_base = bytes, mm_filename = name\<rparr>" bytes
  for K :: "'k posix" and bytes name
proof
  fix offset n :: u64
  assume a: "length bytes < 2 ^ 64" "unat offset + unat n \<le> length bytes"
  then have "unat (offset + n) = unat offset + unat n" by (simp add: unat_add_lem [THEN iffD1])
  then have "\<not> offset + n > word_of_nat (length bytes)"
    using a by (simp add: word_less_nat_alt unat_of_nat)
  then show "\<exists>own. raf_Read (mmap_random_access K \<lparr>mmap_base = bytes, mm_filename = name\<rparr>) offset n =
      Some (status_OK, take (unat n) (drop (unat offset) bytes), own)"
    using a by (auto simp: mmap_random_access_def PosixMmapReadableFile_Read_def)
qed

interpretation disk_file: random_access_file
  "posix_random_access disk_posix k \<lparr>has_permanent_fd = True, ra_fd = 3, ra_filename = name\<rparr>" "d_unread k 3"
  for k name
  by unfold_locales (auto simp: posix_random_access_def PosixRandomAccessFile_Read_def disk_posix_def Let_def)

section \<open>Block handles\<close>

record BlockHandle =
  bh_offset :: u64
  bh_size :: u64

definition BlockHandle_new :: BlockHandle where
  "BlockHandle_new = \<lparr>bh_offset = NOT 0, bh_size = NOT 0\<rparr>"

definition kMaxEncodedLength :: nat where "kMaxEncodedLength = 10 + 10"

definition BlockHandle_EncodeTo :: "u8 list \<Rightarrow> BlockHandle \<Rightarrow> u8 list option" where
  "BlockHandle_EncodeTo dst h =
     (if \<not> bh_offset h \<noteq> NOT 0 then None
      else if \<not> bh_size h \<noteq> NOT 0 then None
      else
        let dst = PutVarint64 dst (bh_offset h);
            dst = PutVarint64 dst (bh_size h)
        in Some dst)"

text \<open>The status, the handle and the input after the call.\<close>

definition BlockHandle_DecodeFrom :: "slice \<Rightarrow> BlockHandle \<Rightarrow> Status \<times> BlockHandle \<times> slice" where
  "BlockHandle_DecodeFrom input h =
     (let bad = Corruption (chars ''bad block handle'') [] in
      case GetVarint64 input of
        (None, input) \<Rightarrow> (bad, h, input)
      | (Some off, input) \<Rightarrow>
          let h = h\<lparr>bh_offset := off\<rparr> in
          (case GetVarint64 input of
             (None, input) \<Rightarrow> (bad, h, input)
           | (Some sz, input) \<Rightarrow> (status_OK, h\<lparr>bh_size := sz\<rparr>, input)))"

section \<open>The footer\<close>

definition kTableMagicNumber :: u64 where "kTableMagicNumber = 0xdb4775248b80fb57"

definition kEncodedLength :: nat where "kEncodedLength = 2 * kMaxEncodedLength + 8"

record Footer =
  metaindex_handle :: BlockHandle
  index_handle :: BlockHandle

text \<open>\<open>std::string::resize\<close>.\<close>

definition resize :: "nat \<Rightarrow> u8 list \<Rightarrow> u8 list" where
  "resize n dst = take n dst @ replicate (n - length dst) 0"

definition Footer_EncodeTo :: "u8 list \<Rightarrow> Footer \<Rightarrow> u8 list option" where
  "Footer_EncodeTo dst f = do {
     let original_size = length dst;
     dst \<leftarrow> BlockHandle_EncodeTo dst (metaindex_handle f);
     dst \<leftarrow> BlockHandle_EncodeTo dst (index_handle f);
     let dst = resize (2 * kMaxEncodedLength) dst;
     let dst = PutFixed32 dst (ucast (kTableMagicNumber AND 0xffffffff));
     let dst = PutFixed32 dst (ucast (drop_bit 32 kTableMagicNumber));
     if length dst \<noteq> original_size + kEncodedLength then None else Some dst
   }"

definition Footer_DecodeFrom :: "slice \<Rightarrow> Footer \<Rightarrow> (Status \<times> Footer \<times> slice) option" where
  "Footer_DecodeFrom input f =
     (if length input < kEncodedLength then None
      else
        let magic_ptr = drop (kEncodedLength - 8) input;
            magic_lo = DecodeFixed32 magic_ptr;
            magic_hi = DecodeFixed32 (drop 4 magic_ptr);
            magic = push_bit 32 (ucast magic_hi) OR ucast magic_lo :: u64
        in if magic \<noteq> kTableMagicNumber
           then Some (Corruption (chars ''not an sstable (bad magic number)'') [], f, input)
           else
             let (result, metaindex, rest) = BlockHandle_DecodeFrom input (metaindex_handle f);
                 f = f\<lparr>metaindex_handle := metaindex\<rparr>;
                 (result, index, rest) =
                   (if status_ok result then BlockHandle_DecodeFrom rest (index_handle f)
                    else (result, index_handle f, rest));
                 f = f\<lparr>index_handle := index\<rparr>
             in if status_ok result then Some (result, f, drop 8 magic_ptr) else Some (result, f, rest))"

section \<open>Reading a block\<close>

definition kBlockTrailerSize :: nat where "kBlockTrailerSize = 5"

record BlockContents =
  bc_data :: slice
  cachable :: bool
  heap_allocated :: bool

text \<open>
  The size is computed in 64 bits, so a size near \<open>2 ^ 64\<close> wraps around; the bytes looked at behind a
  read that the check of the size let through may then be missing.
\<close>

definition ReadBlock :: "RandomAccessFile \<Rightarrow> ReadOptions \<Rightarrow> BlockHandle \<Rightarrow> (Status \<times> BlockContents) option" where
  "ReadBlock file options handle =
     (let result = \<lparr>bc_data = [], cachable = False, heap_allocated = False\<rparr>;
          n = bh_size handle
      in case raf_Read file (bh_offset handle) (n + word_of_nat kBlockTrailerSize) of None \<Rightarrow> None
         | Some (s, contents, in_buf) \<Rightarrow>
             if \<not> status_ok s then Some (s, result)
             else if word_of_nat (length contents) \<noteq> n + word_of_nat kBlockTrailerSize
             then Some (Corruption (chars ''truncated block read'') [], result)
             else if length contents < unat n + kBlockTrailerSize then None
             else
               let data = contents;
                   crc = Unmask (DecodeFixed32 (drop (unat n + 1) data));
                   actual = crc32c_Value (take (unat n + 1) data)
               in if verify_checksums options \<and> actual \<noteq> crc
                  then Some (Corruption (chars ''block checksum mismatch'') [], result)
                  else if data ! unat n = kNoCompression then
                    Some (status_OK, \<lparr>bc_data = take (unat n) data, cachable = in_buf, heap_allocated = in_buf\<rparr>)
                  else if data ! unat n = kSnappyCompression then
                    (case Snappy_GetUncompressedLength (take (unat n) data) of
                       None \<Rightarrow> Some (Corruption (chars ''corrupted compressed block contents'') [], result)
                     | Some ulength \<Rightarrow>
                         (case Snappy_Uncompress (take (unat n) data) of
                            None \<Rightarrow> Some (Corruption (chars ''corrupted compressed block contents'') [], result)
                          | Some ubuf \<Rightarrow>
                              Some (status_OK, \<lparr>bc_data = ubuf, cachable = True, heap_allocated = True\<rparr>)))
                  else Some (Corruption (chars ''bad block type'') [], result))"

end
