(* ===== verification/LDB_TwoLevel.thy ===== *)
theory LDB_TwoLevel
  imports LDB_Options LDB_Iterator "HOL-Library.Monad_Syntax"
begin

text \<open>
  LevelDB: the two-level iterator of \<open>table/two_level_iterator.cc\<close>: an iterator over an index whose values
  name blocks, and an iterator over the current block.  The block function with its argument is a parameter;
  it has no result, a null pointer (\<open>Some None\<close>), or an iterator.
\<close>

record ('i, 'd) TwoLevelIterator =
  tl_options :: ReadOptions
  tl_status :: Status
  tl_index_iter :: "'i IteratorWrapper"
  tl_data_iter :: "'d IteratorWrapper"
  tl_data_block_handle :: slice

type_synonym 'd block_function = "ReadOptions \<Rightarrow> slice \<Rightarrow> 'd option option"

definition NewTwoLevelIterator :: "'i iter_ops \<Rightarrow> 'i \<Rightarrow> ReadOptions \<Rightarrow> ('i, 'd) TwoLevelIterator option" where
  "NewTwoLevelIterator iops index_iter options =
     map_option (\<lambda>w. \<lparr>tl_options = options, tl_status = status_OK, tl_index_iter = w,
         tl_data_iter = \<lparr>w_iter = None, w_valid = False, w_key = []\<rparr>, tl_data_block_handle = []\<rparr>)
       (IteratorWrapper_new iops index_iter)"

definition SaveError :: "Status \<Rightarrow> ('i, 'd) TwoLevelIterator \<Rightarrow> ('i, 'd) TwoLevelIterator" where
  "SaveError s t = (if status_ok (tl_status t) \<and> \<not> status_ok s then t\<lparr>tl_status := s\<rparr> else t)"

definition SetDataIterator :: "'d iter_ops \<Rightarrow> 'd option \<Rightarrow> ('i, 'd) TwoLevelIterator \<Rightarrow> ('i, 'd) TwoLevelIterator option" where
  "SetDataIterator dops data_iter t =
     (let t = (case wrapper_status dops (tl_data_iter t) of None \<Rightarrow> t | Some s \<Rightarrow> SaveError s t)
      in map_option (\<lambda>w. t\<lparr>tl_data_iter := w\<rparr>) (wrapper_Set dops data_iter (tl_data_iter t)))"

definition InitDataBlock ::
  "'i iter_ops \<Rightarrow> 'd iter_ops \<Rightarrow> 'd block_function \<Rightarrow> ('i, 'd) TwoLevelIterator \<Rightarrow> ('i, 'd) TwoLevelIterator option" where
  "InitDataBlock iops dops block_function t =
     (if \<not> w_valid (tl_index_iter t) then SetDataIterator dops None t
      else do {
        handle \<leftarrow> wrapper_value iops (tl_index_iter t);
        if \<not> Option.is_none (w_iter (tl_data_iter t)) \<and> slice_compare handle (tl_data_block_handle t) = 0 then Some t
        else do {
          it \<leftarrow> block_function (tl_options t) handle;
          SetDataIterator dops it (t\<lparr>tl_data_block_handle := handle\<rparr>)
        }
      })"

text \<open>The pattern \<open>if (data_iter_.iter() != nullptr) data_iter_.m()\<close>, and a movement of the index.\<close>

definition move_data ::
  "('d IteratorWrapper \<Rightarrow> 'd IteratorWrapper option) \<Rightarrow> ('i, 'd) TwoLevelIterator \<Rightarrow> ('i, 'd) TwoLevelIterator option" where
  "move_data move t =
     (if Option.is_none (w_iter (tl_data_iter t)) then Some t
      else map_option (\<lambda>w. t\<lparr>tl_data_iter := w\<rparr>) (move (tl_data_iter t)))"

definition move_index ::
  "('i IteratorWrapper \<Rightarrow> 'i IteratorWrapper option) \<Rightarrow> ('i, 'd) TwoLevelIterator \<Rightarrow> ('i, 'd) TwoLevelIterator option" where
  "move_index move t = map_option (\<lambda>w. t\<lparr>tl_index_iter := w\<rparr>) (move (tl_index_iter t))"

text \<open>The loops of \<open>SkipEmptyDataBlocksForward\<close> and \<open>SkipEmptyDataBlocksBackward\<close>.\<close>

definition skip_forward_step ::
  "'i iter_ops \<Rightarrow> 'd iter_ops \<Rightarrow> 'd block_function \<Rightarrow> ('i, 'd) TwoLevelIterator \<Rightarrow>
   (('i, 'd) TwoLevelIterator + ('i, 'd) TwoLevelIterator) option" where
  "skip_forward_step iops dops block_function t =
     (if Option.is_none (w_iter (tl_data_iter t)) \<or> \<not> w_valid (tl_data_iter t) then
        if \<not> w_valid (tl_index_iter t) then map_option Inl (SetDataIterator dops None t)
        else do {
          t \<leftarrow> move_index (Next (wrapper_ops iops)) t;
          t \<leftarrow> InitDataBlock iops dops block_function t;
          t \<leftarrow> move_data (SeekToFirst (wrapper_ops dops)) t;
          Some (Inr t)
        }
      else Some (Inl t))"

definition SkipEmptyDataBlocksForward ::
  "'i iter_ops \<Rightarrow> 'd iter_ops \<Rightarrow> 'd block_function \<Rightarrow> ('i, 'd) TwoLevelIterator \<Rightarrow> ('i, 'd) TwoLevelIterator option" where
  "SkipEmptyDataBlocksForward iops dops block_function t = c_loop (skip_forward_step iops dops block_function) t"

definition skip_backward_step ::
  "'i iter_ops \<Rightarrow> 'd iter_ops \<Rightarrow> 'd block_function \<Rightarrow> ('i, 'd) TwoLevelIterator \<Rightarrow>
   (('i, 'd) TwoLevelIterator + ('i, 'd) TwoLevelIterator) option" where
  "skip_backward_step iops dops block_function t =
     (if Option.is_none (w_iter (tl_data_iter t)) \<or> \<not> w_valid (tl_data_iter t) then
        if \<not> w_valid (tl_index_iter t) then map_option Inl (SetDataIterator dops None t)
        else do {
          t \<leftarrow> move_index (Prev (wrapper_ops iops)) t;
          t \<leftarrow> InitDataBlock iops dops block_function t;
          t \<leftarrow> move_data (SeekToLast (wrapper_ops dops)) t;
          Some (Inr t)
        }
      else Some (Inl t))"

definition SkipEmptyDataBlocksBackward ::
  "'i iter_ops \<Rightarrow> 'd iter_ops \<Rightarrow> 'd block_function \<Rightarrow> ('i, 'd) TwoLevelIterator \<Rightarrow> ('i, 'd) TwoLevelIterator option" where
  "SkipEmptyDataBlocksBackward iops dops block_function t = c_loop (skip_backward_step iops dops block_function) t"

definition TwoLevel_Seek ::
  "'i iter_ops \<Rightarrow> 'd iter_ops \<Rightarrow> 'd block_function \<Rightarrow> slice \<Rightarrow> ('i, 'd) TwoLevelIterator \<Rightarrow> ('i, 'd) TwoLevelIterator option" where
  "TwoLevel_Seek iops dops block_function target t = do {
     t \<leftarrow> move_index (Seek (wrapper_ops iops) target) t;
     t \<leftarrow> InitDataBlock iops dops block_function t;
     t \<leftarrow> move_data (Seek (wrapper_ops dops) target) t;
     SkipEmptyDataBlocksForward iops dops block_function t
   }"

definition TwoLevel_SeekToFirst ::
  "'i iter_ops \<Rightarrow> 'd iter_ops \<Rightarrow> 'd block_function \<Rightarrow> ('i, 'd) TwoLevelIterator \<Rightarrow> ('i, 'd) TwoLevelIterator option" where
  "TwoLevel_SeekToFirst iops dops block_function t = do {
     t \<leftarrow> move_index (SeekToFirst (wrapper_ops iops)) t;
     t \<leftarrow> InitDataBlock iops dops block_function t;
     t \<leftarrow> move_data (SeekToFirst (wrapper_ops dops)) t;
     SkipEmptyDataBlocksForward iops dops block_function t
   }"

definition TwoLevel_SeekToLast ::
  "'i iter_ops \<Rightarrow> 'd iter_ops \<Rightarrow> 'd block_function \<Rightarrow> ('i, 'd) TwoLevelIterator \<Rightarrow> ('i, 'd) TwoLevelIterator option" where
  "TwoLevel_SeekToLast iops dops block_function t = do {
     t \<leftarrow> move_index (SeekToLast (wrapper_ops iops)) t;
     t \<leftarrow> InitDataBlock iops dops block_function t;
     t \<leftarrow> move_data (SeekToLast (wrapper_ops dops)) t;
     SkipEmptyDataBlocksBackward iops dops block_function t
   }"

definition TwoLevel_Valid :: "('i, 'd) TwoLevelIterator \<Rightarrow> bool" where
  "TwoLevel_Valid t = w_valid (tl_data_iter t)"

definition TwoLevel_Next ::
  "'i iter_ops \<Rightarrow> 'd iter_ops \<Rightarrow> 'd block_function \<Rightarrow> ('i, 'd) TwoLevelIterator \<Rightarrow> ('i, 'd) TwoLevelIterator option" where
  "TwoLevel_Next iops dops block_function t =
     (if \<not> TwoLevel_Valid t then None
      else do {
        w \<leftarrow> Next (wrapper_ops dops) (tl_data_iter t);
        SkipEmptyDataBlocksForward iops dops block_function (t\<lparr>tl_data_iter := w\<rparr>)
      })"

definition TwoLevel_Prev ::
  "'i iter_ops \<Rightarrow> 'd iter_ops \<Rightarrow> 'd block_function \<Rightarrow> ('i, 'd) TwoLevelIterator \<Rightarrow> ('i, 'd) TwoLevelIterator option" where
  "TwoLevel_Prev iops dops block_function t =
     (if \<not> TwoLevel_Valid t then None
      else do {
        w \<leftarrow> Prev (wrapper_ops dops) (tl_data_iter t);
        SkipEmptyDataBlocksBackward iops dops block_function (t\<lparr>tl_data_iter := w\<rparr>)
      })"

definition TwoLevel_key :: "('i, 'd) TwoLevelIterator \<Rightarrow> slice option" where
  "TwoLevel_key t = (if \<not> TwoLevel_Valid t then None else wrapper_key (tl_data_iter t))"

definition TwoLevel_value :: "'d iter_ops \<Rightarrow> ('i, 'd) TwoLevelIterator \<Rightarrow> slice option" where
  "TwoLevel_value dops t = (if \<not> TwoLevel_Valid t then None else wrapper_value dops (tl_data_iter t))"

definition TwoLevel_iter_status :: "'i iter_ops \<Rightarrow> 'd iter_ops \<Rightarrow> ('i, 'd) TwoLevelIterator \<Rightarrow> Status" where
  "TwoLevel_iter_status iops dops t =
     (let index_status = iter_status (wrapper_ops iops) (tl_index_iter t) in
      if \<not> status_ok index_status then index_status
      else case wrapper_status dops (tl_data_iter t) of
             None \<Rightarrow> tl_status t
           | Some s \<Rightarrow> if \<not> status_ok s then s else tl_status t)"

definition two_level_ops :: "'i iter_ops \<Rightarrow> 'd iter_ops \<Rightarrow> 'd block_function \<Rightarrow> ('i, 'd) TwoLevelIterator iter_ops" where
  "two_level_ops iops dops block_function =
     \<lparr>Valid = TwoLevel_Valid, SeekToFirst = TwoLevel_SeekToFirst iops dops block_function,
      SeekToLast = TwoLevel_SeekToLast iops dops block_function, Seek = TwoLevel_Seek iops dops block_function,
      Next = TwoLevel_Next iops dops block_function, Prev = TwoLevel_Prev iops dops block_function,
      iter_key = TwoLevel_key, iter_value = TwoLevel_value dops, iter_status = TwoLevel_iter_status iops dops\<rparr>"

end
