(* ===== verification/LDB_Table.thy ===== *)
theory LDB_Table
  imports LDB_Format LDB_Block LDB_Filter LDB_TwoLevel
begin

text \<open>
  LevelDB: reading a table file, \<open>table/table.cc\<close>.  The block cache is a parameter with its operations; an
  iterator is a value, so the cleanup functions that free or release its block do nothing in the model.
\<close>

section \<open>Iterators of two classes\<close>

text \<open>The virtual methods of an object that is of one class or of another.\<close>

definition either_ops :: "'a iter_ops \<Rightarrow> 'b iter_ops \<Rightarrow> ('a + 'b) iter_ops" where
  "either_ops A B =
     \<lparr>Valid = case_sum (Valid A) (Valid B),
      SeekToFirst = case_sum (\<lambda>i. map_option Inl (SeekToFirst A i)) (\<lambda>i. map_option Inr (SeekToFirst B i)),
      SeekToLast = case_sum (\<lambda>i. map_option Inl (SeekToLast A i)) (\<lambda>i. map_option Inr (SeekToLast B i)),
      Seek = (\<lambda>k. case_sum (\<lambda>i. map_option Inl (Seek A k i)) (\<lambda>i. map_option Inr (Seek B k i))),
      Next = case_sum (\<lambda>i. map_option Inl (Next A i)) (\<lambda>i. map_option Inr (Next B i)),
      Prev = case_sum (\<lambda>i. map_option Inl (Prev A i)) (\<lambda>i. map_option Inr (Prev B i)),
      iter_key = case_sum (iter_key A) (iter_key B), iter_value = case_sum (iter_value A) (iter_value B),
      iter_status = case_sum (iter_status A) (iter_status B)\<rparr>"

type_synonym table_iter = "Status + Iter"

definition block_or_empty :: "table_iter iter_ops" where
  "block_or_empty = either_ops EmptyIterator block_iter"

section \<open>Tables\<close>

record Table =
  t_options :: Options
  t_file :: RandomAccessFile
  t_cache_id :: u64
  t_filter :: "FilterBlockReader option"
  t_filter_data :: "slice option"
  t_metaindex_handle :: BlockHandle
  t_index_block :: Block

text \<open>The options for reading a block of the frame.\<close>

definition meta_read_options :: "Options \<Rightarrow> ReadOptions" where
  "meta_read_options options =
     (if paranoid_checks options then ReadOptions_new\<lparr>verify_checksums := True\<rparr> else ReadOptions_new)"

definition ReadFilter :: "slice \<Rightarrow> FilterPolicy \<Rightarrow> Table \<Rightarrow> Table option" where
  "ReadFilter filter_handle_value policy t =
     (case BlockHandle_DecodeFrom filter_handle_value BlockHandle_new of (s, filter_handle, v) \<Rightarrow>
        if \<not> status_ok s then Some t
        else case ReadBlock (t_file t) (meta_read_options (t_options t)) filter_handle of None \<Rightarrow> None
          | Some (s, block) \<Rightarrow>
              if \<not> status_ok s then Some t
              else
                let t = (if heap_allocated block then t\<lparr>t_filter_data := Some (bc_data block)\<rparr> else t)
                in Some (t\<lparr>t_filter := Some (FilterBlockReader_new policy (bc_data block))\<rparr>))"

definition ReadMeta :: "Footer \<Rightarrow> Table \<Rightarrow> Table option" where
  "ReadMeta footer t =
     (case o_filter_policy (t_options t) of None \<Rightarrow> Some t
      | Some policy \<Rightarrow>
          (case ReadBlock (t_file t) (meta_read_options (t_options t)) (metaindex_handle footer) of None \<Rightarrow> None
           | Some (s, contents) \<Rightarrow>
               if \<not> status_ok s then Some t
               else do {
                 meta \<leftarrow> Block_new (bc_data contents);
                 it \<leftarrow> Block_NewIterator meta BytewiseComparator;
                 let key = chars ''filter.'' @ fp_Name policy;
                 it \<leftarrow> Seek block_or_empty key it;
                 if Valid block_or_empty it then do {
                   k \<leftarrow> iter_key block_or_empty it;
                   if slice_eq k key then do {
                     v \<leftarrow> iter_value block_or_empty it;
                     ReadFilter v policy t
                   }
                   else Some t
                 }
                 else Some t
               }))"

text \<open>\<open>new_id\<close> is the identifier the block cache gave, or 0 without a cache.\<close>

definition Table_Open :: "Options \<Rightarrow> RandomAccessFile \<Rightarrow> u64 \<Rightarrow> u64 \<Rightarrow> (Status \<times> Table option) option" where
  "Table_Open options file file_size new_id =
     (if file_size < word_of_nat kEncodedLength
      then Some (Corruption (chars ''file is too short to be an sstable'') [], None)
      else case raf_Read file (file_size - word_of_nat kEncodedLength) (word_of_nat kEncodedLength) of None \<Rightarrow> None
        | Some (s, footer_input, _) \<Rightarrow>
            if \<not> status_ok s then Some (s, None)
            else case Footer_DecodeFrom footer_input
                \<lparr>metaindex_handle = BlockHandle_new, index_handle = BlockHandle_new\<rparr> of None \<Rightarrow> None
              | Some (s, footer, _) \<Rightarrow>
                  if \<not> status_ok s then Some (s, None)
                  else case ReadBlock file (meta_read_options options) (index_handle footer) of None \<Rightarrow> None
                    | Some (s, index_block_contents) \<Rightarrow>
                        if \<not> status_ok s then Some (s, None)
                        else do {
                          index_block \<leftarrow> Block_new (bc_data index_block_contents);
                          t \<leftarrow> ReadMeta footer \<lparr>t_options = options, t_file = file, t_cache_id = new_id,
                                 t_filter = None, t_filter_data = None, t_metaindex_handle = metaindex_handle footer,
                                 t_index_block = index_block\<rparr>;
                          Some (s, Some t)
                        })"

section \<open>Reading blocks\<close>

text \<open>
  The operations of a block cache over its state: a lookup that may find a block, and an insertion with the
  charge.
\<close>

record 'c BlockCache =
  cache_Lookup :: "slice \<Rightarrow> 'c \<Rightarrow> Block option \<times> 'c"
  cache_Insert :: "slice \<Rightarrow> Block \<Rightarrow> nat \<Rightarrow> 'c \<Rightarrow> 'c"

definition block_cache_key :: "Table \<Rightarrow> BlockHandle \<Rightarrow> slice" where
  "block_cache_key t handle = EncodeFixed64 (t_cache_id t) @ EncodeFixed64 (bh_offset handle)"

text \<open>The block from the cache or the file, or the status that says why there is none.\<close>

definition fetch_block ::
  "Table \<Rightarrow> ReadOptions \<Rightarrow> BlockHandle \<Rightarrow> 'c BlockCache option \<Rightarrow> 'c \<Rightarrow> ((Status + Block) \<times> 'c) option" where
  "fetch_block t options handle block_cache c =
     (case block_cache of
        Some B \<Rightarrow>
          let key = block_cache_key t handle in
          (case cache_Lookup B key c of
             (Some block, c) \<Rightarrow> Some (Inr block, c)
           | (None, c) \<Rightarrow>
               (case ReadBlock (t_file t) options handle of None \<Rightarrow> None
                | Some (s, contents) \<Rightarrow>
                    if \<not> status_ok s then Some (Inl s, c)
                    else do {
                      block \<leftarrow> Block_new (bc_data contents);
                      let c = (if cachable contents \<and> fill_cache options
                               then cache_Insert B key block (bl_size block) c else c);
                      Some (Inr block, c)
                    }))
      | None \<Rightarrow>
          (case ReadBlock (t_file t) options handle of None \<Rightarrow> None
           | Some (s, contents) \<Rightarrow>
               if \<not> status_ok s then Some (Inl s, c)
               else map_option (\<lambda>block. (Inr block, c)) (Block_new (bc_data contents))))"

definition BlockReader ::
  "Table \<Rightarrow> ReadOptions \<Rightarrow> slice \<Rightarrow> 'c BlockCache option \<Rightarrow> 'c \<Rightarrow> (table_iter \<times> 'c) option" where
  "BlockReader t options index_value block_cache c =
     (case BlockHandle_DecodeFrom index_value BlockHandle_new of (s, handle, input) \<Rightarrow>
        if \<not> status_ok s then Some (Inl (NewErrorIterator s), c)
        else case fetch_block t options handle block_cache c of None \<Rightarrow> None
          | Some (Inl s, c) \<Rightarrow> Some (Inl (NewErrorIterator s), c)
          | Some (Inr block, c) \<Rightarrow>
              map_option (\<lambda>it. (it, c)) (Block_NewIterator block (o_comparator (t_options t))))"

text \<open>The iterator of a table without a block cache.\<close>

definition table_block_function :: "Table \<Rightarrow> table_iter block_function" where
  "table_block_function t options handle = map_option (\<lambda>(it, c). Some it) (BlockReader t options handle None ())"

definition Table_NewIterator :: "Table \<Rightarrow> ReadOptions \<Rightarrow> (table_iter, table_iter) TwoLevelIterator option" where
  "Table_NewIterator t options = do {
     index_iter \<leftarrow> Block_NewIterator (t_index_block t) (o_comparator (t_options t));
     NewTwoLevelIterator block_or_empty index_iter options
   }"

definition table_iter_ops :: "Table \<Rightarrow> (table_iter, table_iter) TwoLevelIterator iter_ops" where
  "table_iter_ops t = two_level_ops block_or_empty block_or_empty (table_block_function t)"

section \<open>Looking up a key\<close>

text \<open>\<open>handle_result\<close> changes the client's argument.\<close>

definition InternalGet ::
  "Table \<Rightarrow> ReadOptions \<Rightarrow> slice \<Rightarrow> ('a \<Rightarrow> slice \<Rightarrow> slice \<Rightarrow> 'a) \<Rightarrow> 'c BlockCache option \<Rightarrow> 'a \<Rightarrow> 'c \<Rightarrow> (Status \<times> 'a \<times> 'c) option" where
  "InternalGet t options k handle_result block_cache arg c = do {
     iiter \<leftarrow> Block_NewIterator (t_index_block t) (o_comparator (t_options t));
     iiter \<leftarrow> Seek block_or_empty k iiter;
     (s, arg, c) \<leftarrow>
       (if Valid block_or_empty iiter then do {
          handle_value \<leftarrow> iter_value block_or_empty iiter;
          let (decoded, handle, _) = BlockHandle_DecodeFrom handle_value BlockHandle_new;
          may_match \<leftarrow> (case t_filter t of
               Some reader \<Rightarrow> if status_ok decoded then FilterBlock_KeyMayMatch reader (bh_offset handle) k else Some True
             | None \<Rightarrow> Some True);
          if \<not> may_match then Some (status_OK, arg, c)
          else do {
            (block_iter, c) \<leftarrow> BlockReader t options handle_value block_cache c;
            block_iter \<leftarrow> Seek block_or_empty k block_iter;
            arg \<leftarrow> (if Valid block_or_empty block_iter then do {
                     key \<leftarrow> iter_key block_or_empty block_iter;
                     val \<leftarrow> iter_value block_or_empty block_iter;
                     Some (handle_result arg key val)
                   }
                   else Some arg);
            Some (iter_status block_or_empty block_iter, arg, c)
          }
        }
        else Some (status_OK, arg, c));
     let s = (if status_ok s then iter_status block_or_empty iiter else s);
     Some (s, arg, c)
   }"

definition ApproximateOffsetOf :: "Table \<Rightarrow> slice \<Rightarrow> u64 option" where
  "ApproximateOffsetOf t key = do {
     index_iter \<leftarrow> Block_NewIterator (t_index_block t) (o_comparator (t_options t));
     index_iter \<leftarrow> Seek block_or_empty key index_iter;
     if Valid block_or_empty index_iter then do {
       input \<leftarrow> iter_value block_or_empty index_iter;
       let (s, handle, _) = BlockHandle_DecodeFrom input BlockHandle_new;
       if status_ok s then Some (bh_offset handle) else Some (bh_offset (t_metaindex_handle t))
     }
     else Some (bh_offset (t_metaindex_handle t))
   }"

end
