(* ===== verification/LDB_TableBuilder.thy ===== *)
theory LDB_TableBuilder
  imports LDB_Format LDB_Block LDB_Filter
begin

text \<open>
  LevelDB: building a table file, \<open>table/table_builder.cc\<close>.  A failing assertion has no result; errors of
  the file are the status of the builder.
\<close>

record 'f TableBuilder =
  tb_options :: Options
  tb_index_block_options :: Options
  tb_file :: 'f
  tb_offset :: u64
  tb_status :: Status
  tb_data_block :: BlockBuilder
  tb_index_block :: BlockBuilder
  tb_last_key :: slice
  tb_num_entries :: int
  tb_closed :: bool
  tb_filter_block :: "FilterBlockBuilder option"
  tb_pending_index_entry :: bool
  tb_pending_handle :: BlockHandle
  tb_compressed_output :: slice

text \<open>
  A block builder has a pointer to its options: the builder of the index sees the restart interval that
  the constructor of \<open>Rep\<close> sets afterwards.
\<close>

definition TableBuilder_new :: "Options \<Rightarrow> 'f \<Rightarrow> 'f TableBuilder option" where
  "TableBuilder_new options file = do {
     data_block \<leftarrow> BlockBuilder_new options;
     index_block \<leftarrow> BlockBuilder_new options;
     let index_block_options = options\<lparr>block_restart_interval := 1\<rparr>;
     filter_block \<leftarrow> (case o_filter_policy options of None \<Rightarrow> Some None
       | Some policy \<Rightarrow> map_option Some (StartBlock 0 (FilterBlockBuilder_new policy)));
     Some \<lparr>tb_options = options, tb_index_block_options = index_block_options, tb_file = file, tb_offset = 0,
       tb_status = status_OK, tb_data_block = data_block,
       tb_index_block = index_block\<lparr>b_options := index_block_options\<rparr>, tb_last_key = [], tb_num_entries = 0,
       tb_closed = False, tb_filter_block = filter_block, tb_pending_index_entry = False,
       tb_pending_handle = BlockHandle_new, tb_compressed_output = []\<rparr>
   }"

definition TableBuilder_ok :: "'f TableBuilder \<Rightarrow> bool" where
  "TableBuilder_ok r = status_ok (tb_status r)"

text \<open>The comparators are compared as objects.\<close>

definition ChangeOptions :: "Options \<Rightarrow> 'f TableBuilder \<Rightarrow> Status \<times> 'f TableBuilder" where
  "ChangeOptions options r =
     (if o_comparator options \<noteq> o_comparator (tb_options r)
      then (InvalidArgument (chars ''changing comparator while building table'') [], r)
      else
        let index_block_options = options\<lparr>block_restart_interval := 1\<rparr> in
        (status_OK, r\<lparr>tb_options := options, tb_index_block_options := index_block_options,
           tb_data_block := (tb_data_block r)\<lparr>b_options := options\<rparr>,
           tb_index_block := (tb_index_block r)\<lparr>b_options := index_block_options\<rparr>\<rparr>))"

text \<open>An append to the file whose status becomes the builder's.\<close>

definition tb_append :: "'f writable_ops \<Rightarrow> slice \<Rightarrow> 'f TableBuilder \<Rightarrow> 'f TableBuilder option" where
  "tb_append F data r =
     map_option (\<lambda>(status, file). r\<lparr>tb_status := status, tb_file := file\<rparr>) (Append F (tb_file r) data)"

definition WriteRawBlock :: "'f writable_ops \<Rightarrow> slice \<Rightarrow> u8 \<Rightarrow> 'f TableBuilder \<Rightarrow> (BlockHandle \<times> 'f TableBuilder) option" where
  "WriteRawBlock F block_contents type r = do {
     let handle = \<lparr>bh_offset = tb_offset r, bh_size = word_of_nat (length block_contents)\<rparr>;
     r \<leftarrow> tb_append F block_contents r;
     if \<not> status_ok (tb_status r) then Some (handle, r)
     else do {
       let crc = crc32c_Value block_contents;
       let crc = crc32c_Extend crc [type];
       let trailer = type # EncodeFixed32 (Mask crc);
       r \<leftarrow> tb_append F trailer r;
       if \<not> status_ok (tb_status r) then Some (handle, r)
       else Some (handle, r\<lparr>tb_offset := tb_offset r + word_of_nat (length block_contents + kBlockTrailerSize)\<rparr>)
     }
   }"

text \<open>The switch over the type of the compression: the contents and the type that are written.\<close>

definition compress :: "u8 \<Rightarrow> slice \<Rightarrow> slice \<Rightarrow> slice \<times> u8 \<times> slice" where
  "compress type raw compressed_output =
     (if type = kNoCompression then (raw, type, compressed_output)
      else if type = kSnappyCompression then
        let (done', compressed) = Snappy_Compress raw compressed_output in
        if done' \<and> length compressed < length raw - length raw div 8 then (compressed, type, compressed)
        else (raw, kNoCompression, compressed)
      else ([], type, compressed_output))"

definition WriteBlock ::
  "'f writable_ops \<Rightarrow> BlockBuilder \<Rightarrow> 'f TableBuilder \<Rightarrow> (BlockHandle \<times> BlockBuilder \<times> 'f TableBuilder) option" where
  "WriteBlock F block r =
     (if \<not> TableBuilder_ok r then None
      else do {
        let (raw, block) = BlockBuilder_Finish block;
        let (block_contents, type, compressed) = compress (o_compression (tb_options r)) raw (tb_compressed_output r);
        (handle, r) \<leftarrow> WriteRawBlock F block_contents type (r\<lparr>tb_compressed_output := compressed\<rparr>);
        Some (handle, BlockBuilder_Reset block, r\<lparr>tb_compressed_output := []\<rparr>)
      })"

definition TableBuilder_Flush :: "'f writable_ops \<Rightarrow> 'f TableBuilder \<Rightarrow> 'f TableBuilder option" where
  "TableBuilder_Flush F r =
     (if tb_closed r then None
      else if \<not> TableBuilder_ok r then Some r
      else if BlockBuilder_empty (tb_data_block r) then Some r
      else if tb_pending_index_entry r then None
      else do {
        (handle, block, r) \<leftarrow> WriteBlock F (tb_data_block r) r;
        let r = r\<lparr>tb_pending_handle := handle, tb_data_block := block\<rparr>;
        r \<leftarrow> (if TableBuilder_ok r
             then map_option (\<lambda>(status, file). r\<lparr>tb_pending_index_entry := True, tb_status := status, tb_file := file\<rparr>)
               (Flush F (tb_file r))
             else Some r);
        (case tb_filter_block r of None \<Rightarrow> Some r
         | Some filter_block \<Rightarrow>
             map_option (\<lambda>b. r\<lparr>tb_filter_block := Some b\<rparr>) (StartBlock (tb_offset r) filter_block))
      })"

text \<open>The index entry of a finished block under a key.\<close>

definition add_index_entry :: "slice \<Rightarrow> 'f TableBuilder \<Rightarrow> 'f TableBuilder option" where
  "add_index_entry key r = do {
     handle_encoding \<leftarrow> BlockHandle_EncodeTo [] (tb_pending_handle r);
     index_block \<leftarrow> BlockBuilder_Add (tb_index_block r) key handle_encoding;
     Some (r\<lparr>tb_last_key := key, tb_index_block := index_block, tb_pending_index_entry := False\<rparr>)
   }"

definition TableBuilder_Add :: "'f writable_ops \<Rightarrow> slice \<Rightarrow> slice \<Rightarrow> 'f TableBuilder \<Rightarrow> 'f TableBuilder option" where
  "TableBuilder_Add F key val r =
     (if tb_closed r then None
      else if \<not> TableBuilder_ok r then Some r
      else if tb_num_entries r > 0 \<and> \<not> Compare (o_comparator (tb_options r)) key (tb_last_key r) > 0 then None
      else do {
        r \<leftarrow> (if tb_pending_index_entry r then
               if \<not> BlockBuilder_empty (tb_data_block r) then None
               else do {
                 last_key \<leftarrow> FindShortestSeparator (o_comparator (tb_options r)) (tb_last_key r) key;
                 add_index_entry last_key r
               }
             else Some r);
        let r = r\<lparr>tb_filter_block := map_option (AddKey key) (tb_filter_block r), tb_last_key := key,
                  tb_num_entries := tb_num_entries r + 1\<rparr>;
        data_block \<leftarrow> BlockBuilder_Add (tb_data_block r) key val;
        let r = r\<lparr>tb_data_block := data_block\<rparr>;
        let estimated_block_size = BlockBuilder_CurrentSizeEstimate data_block;
        if estimated_block_size \<ge> block_size (tb_options r) then TableBuilder_Flush F r else Some r
      })"

text \<open>
  \<open>Finish\<close>: each block is written only if there was no error before.  The handle of a block that was not
  written is the one its constructor made.
\<close>

definition write_filter_block :: "'f writable_ops \<Rightarrow> 'f TableBuilder \<Rightarrow> (BlockHandle \<times> 'f TableBuilder) option" where
  "write_filter_block F r =
     (case tb_filter_block r of
        Some b \<Rightarrow>
          if TableBuilder_ok r then
            let (contents, b) = FilterBlock_Finish b
            in WriteRawBlock F contents kNoCompression (r\<lparr>tb_filter_block := Some b\<rparr>)
          else Some (BlockHandle_new, r)
      | None \<Rightarrow> Some (BlockHandle_new, r))"

definition write_metaindex_block :: "'f writable_ops \<Rightarrow> BlockHandle \<Rightarrow> 'f TableBuilder \<Rightarrow> (BlockHandle \<times> 'f TableBuilder) option" where
  "write_metaindex_block F filter_block_handle r =
     (if \<not> TableBuilder_ok r then Some (BlockHandle_new, r)
      else do {
        meta_index_block \<leftarrow> BlockBuilder_new (tb_options r);
        meta_index_block \<leftarrow> (case (tb_filter_block r, o_filter_policy (tb_options r)) of
            (None, _) \<Rightarrow> Some meta_index_block
          | (Some _, None) \<Rightarrow> None
          | (Some _, Some policy) \<Rightarrow> do {
              handle_encoding \<leftarrow> BlockHandle_EncodeTo [] filter_block_handle;
              BlockBuilder_Add meta_index_block (chars ''filter.'' @ fp_Name policy) handle_encoding
            });
        (handle, _, r) \<leftarrow> WriteBlock F meta_index_block r;
        Some (handle, r)
      })"

definition write_index_block :: "'f writable_ops \<Rightarrow> 'f TableBuilder \<Rightarrow> (BlockHandle \<times> 'f TableBuilder) option" where
  "write_index_block F r =
     (if \<not> TableBuilder_ok r then Some (BlockHandle_new, r)
      else do {
        r \<leftarrow> (if tb_pending_index_entry r then do {
               last_key \<leftarrow> FindShortSuccessor (o_comparator (tb_options r)) (tb_last_key r);
               add_index_entry last_key r
             }
             else Some r);
        (handle, block, r) \<leftarrow> WriteBlock F (tb_index_block r) r;
        Some (handle, r\<lparr>tb_index_block := block\<rparr>)
      })"

definition write_footer :: "'f writable_ops \<Rightarrow> BlockHandle \<Rightarrow> BlockHandle \<Rightarrow> 'f TableBuilder \<Rightarrow> 'f TableBuilder option" where
  "write_footer F metaindex_block_handle index_block_handle r =
     (if \<not> TableBuilder_ok r then Some r
      else do {
        footer_encoding \<leftarrow> Footer_EncodeTo [] \<lparr>metaindex_handle = metaindex_block_handle, index_handle = index_block_handle\<rparr>;
        r \<leftarrow> tb_append F footer_encoding r;
        if status_ok (tb_status r) then Some (r\<lparr>tb_offset := tb_offset r + word_of_nat (length footer_encoding)\<rparr>)
        else Some r
      })"

definition TableBuilder_Finish :: "'f writable_ops \<Rightarrow> 'f TableBuilder \<Rightarrow> (Status \<times> 'f TableBuilder) option" where
  "TableBuilder_Finish F r = do {
     r \<leftarrow> TableBuilder_Flush F r;
     if tb_closed r then None
     else do {
       let r = r\<lparr>tb_closed := True\<rparr>;
       (filter_block_handle, r) \<leftarrow> write_filter_block F r;
       (metaindex_block_handle, r) \<leftarrow> write_metaindex_block F filter_block_handle r;
       (index_block_handle, r) \<leftarrow> write_index_block F r;
       r \<leftarrow> write_footer F metaindex_block_handle index_block_handle r;
       Some (tb_status r, r)
     }
   }"

definition Abandon :: "'f TableBuilder \<Rightarrow> 'f TableBuilder option" where
  "Abandon r = (if tb_closed r then None else Some (r\<lparr>tb_closed := True\<rparr>))"

definition NumEntries :: "'f TableBuilder \<Rightarrow> u64" where
  "NumEntries r = word_of_int (tb_num_entries r)"

definition FileSize :: "'f TableBuilder \<Rightarrow> u64" where
  "FileSize r = tb_offset r"

end
