(* ===== verification/LDB_Format_Props.thy ===== *)
theory LDB_Format_Props
  imports LDB_Format LDB_Crc_Props
begin

text \<open>
  LevelDB: block handles and footers are read back as they were written, and \<open>ReadBlock\<close> returns the block
  stored at a handle, or reports damage.
\<close>

section \<open>Block handles and the footer\<close>

definition handle_bytes :: "BlockHandle \<Rightarrow> u8 list" where
  "handle_bytes h = EncodeVarint64 (bh_offset h) @ EncodeVarint64 (bh_size h)"

definition handle_ok :: "BlockHandle \<Rightarrow> bool" where
  "handle_ok h \<longleftrightarrow> bh_offset h \<noteq> NOT 0 \<and> bh_size h \<noteq> NOT 0"

lemma length_EncodeVarint64: "length (EncodeVarint64 v) \<le> 10"
  using varint_length_u64 [of v] by (simp add: EncodeVarint64_eq)

lemma length_handle_bytes: "length (handle_bytes h) \<le> 20"
  using length_EncodeVarint64 [of "bh_offset h"] length_EncodeVarint64 [of "bh_size h"]
  by (simp add: handle_bytes_def)

lemma handle_encode: "handle_ok h \<Longrightarrow> BlockHandle_EncodeTo dst h = Some (dst @ handle_bytes h)"
  by (simp add: handle_ok_def BlockHandle_EncodeTo_def PutVarint64_def handle_bytes_def Let_def)

lemma handle_decode [simp]: "BlockHandle_DecodeFrom (handle_bytes h @ rest) h0 = (status_OK, h, rest)"
  by (simp add: BlockHandle_DecodeFrom_def handle_bytes_def Let_def)

lemma handle_decode' [simp]: "BlockHandle_DecodeFrom (handle_bytes h) h0 = (status_OK, h, [])"
  using handle_decode [of h "[]" h0] by (simp del: handle_decode)

definition footer_bytes :: "Footer \<Rightarrow> u8 list" where
  "footer_bytes f = resize 40 (handle_bytes (metaindex_handle f) @ handle_bytes (index_handle f)) @
     EncodeFixed32 0x8b80fb57 @ EncodeFixed32 0xdb477524"

lemma length_footer_bytes [simp]: "length (footer_bytes f) = 48"
  by (simp add: footer_bytes_def resize_def)

lemma magic_halves:
  "(ucast (kTableMagicNumber AND 0xffffffff) :: u32) = 0x8b80fb57"
  "(ucast (drop_bit 32 kTableMagicNumber) :: u32) = 0xdb477524"
  "push_bit 32 (ucast (0xdb477524 :: u32)) OR ucast (0x8b80fb57 :: u32) = kTableMagicNumber"
  by (simp_all add: kTableMagicNumber_def)

lemma footer_encode:
  assumes "handle_ok (metaindex_handle f)" "handle_ok (index_handle f)"
  shows "Footer_EncodeTo [] f = Some (footer_bytes f)"
  using handle_encode [OF assms(1)] handle_encode [OF assms(2)]
  by (simp add: Footer_EncodeTo_def magic_halves PutFixed32_def footer_bytes_def resize_def kMaxEncodedLength_def
      kEncodedLength_def)

lemma footer_handles:
  "\<exists>pad. footer_bytes f = handle_bytes (metaindex_handle f) @ handle_bytes (index_handle f) @ pad @
     EncodeFixed32 0x8b80fb57 @ EncodeFixed32 0xdb477524"
  using length_handle_bytes [of "metaindex_handle f"] length_handle_bytes [of "index_handle f"]
  by (simp add: footer_bytes_def resize_def)

lemma footer_decode: "Footer_DecodeFrom (footer_bytes f @ rest) f0 = Some (status_OK, f, rest)"
proof -
  obtain pad where pad: "footer_bytes f = handle_bytes (metaindex_handle f) @ handle_bytes (index_handle f) @ pad @
     EncodeFixed32 0x8b80fb57 @ EncodeFixed32 0xdb477524" using footer_handles by blast
  have "drop 40 (footer_bytes f @ rest) = EncodeFixed32 0x8b80fb57 @ EncodeFixed32 0xdb477524 @ rest"
    by (simp add: footer_bytes_def resize_def)
  then have magic: "drop (kEncodedLength - 8) (footer_bytes f @ rest) =
      EncodeFixed32 0x8b80fb57 @ EncodeFixed32 0xdb477524 @ rest"
    by (simp add: kEncodedLength_def kMaxEncodedLength_def)
  have len: "\<not> length (footer_bytes f @ rest) < kEncodedLength"
    by (simp add: kEncodedLength_def kMaxEncodedLength_def)
  have decode: "BlockHandle_DecodeFrom (footer_bytes f @ rest) h =
      (status_OK, metaindex_handle f, handle_bytes (index_handle f) @ pad @ EncodeFixed32 0x8b80fb57 @
        EncodeFixed32 0xdb477524 @ rest)" for h
    by (simp add: pad)
  show ?thesis
    unfolding Footer_DecodeFrom_def if_not_P [OF len] Let_def magic
    by (simp add: decode kTableMagicNumber_def)
qed

section \<open>Blocks in a file\<close>

definition block_image :: "u8 \<Rightarrow> slice \<Rightarrow> u8 list" where
  "block_image type contents = contents @ type # EncodeFixed32 (Mask (crc32c_Value (contents @ [type])))"

lemma length_block_image [simp]: "length (block_image type contents) = length contents + 5"
  by (simp add: block_image_def)

text \<open>The block is stored at the handle.\<close>

definition stored_at :: "u8 list \<Rightarrow> BlockHandle \<Rightarrow> u8 \<Rightarrow> slice \<Rightarrow> bool" where
  "stored_at bytes h type contents \<longleftrightarrow> (\<exists>pre post. bytes = pre @ block_image type contents @ post \<and>
     unat (bh_offset h) = length pre \<and> unat (bh_size h) = length contents)"

context random_access_file
begin

lemma read_range:
  assumes "length bytes < 2 ^ 63" "bytes = pre @ data @ post" "unat offset = length pre" "length data = unat n + kBlockTrailerSize"
  shows "\<exists>own. raf_Read R offset (n + word_of_nat kBlockTrailerSize) = Some (status_OK, data, own)"
    and "word_of_nat (length data) = n + word_of_nat kBlockTrailerSize"
proof -
  have len: "unat n + 5 < 2 ^ 63" using assms by (simp add: kBlockTrailerSize_def)
  have u: "unat (n + 5) = unat n + 5"
    using len by (subst unat_add_lem [THEN iffD1]) simp_all
  then have "unat offset + unat (n + 5) \<le> length bytes" using assms by (simp add: kBlockTrailerSize_def)
  then obtain own where "raf_Read R offset (n + 5) = Some (status_OK, take (unat (n + 5)) (drop (unat offset) bytes), own)"
    using read_within [of offset "n + 5"] assms(1) by auto
  then show "\<exists>own. raf_Read R offset (n + word_of_nat kBlockTrailerSize) = Some (status_OK, data, own)"
    using assms(2-4) u by (simp add: kBlockTrailerSize_def)
  show "word_of_nat (length data) = n + word_of_nat kBlockTrailerSize"
    using assms(4) by (simp add: kBlockTrailerSize_def)
qed

lemma read_block:
  assumes "stored_at bytes h kNoCompression contents" "length bytes < 2 ^ 63"
  shows "\<exists>own. ReadBlock R options h = Some (status_OK, \<lparr>bc_data = contents, cachable = own, heap_allocated = own\<rparr>)"
proof -
  let ?data = "block_image kNoCompression contents"
  obtain pre post where b: "bytes = pre @ ?data @ post" "unat (bh_offset h) = length pre"
    "unat (bh_size h) = length contents" using assms(1) unfolding stored_at_def by blast
  have len: "length ?data = unat (bh_size h) + kBlockTrailerSize" using b(3) by (simp add: kBlockTrailerSize_def)
  obtain own where read: "raf_Read R (bh_offset h) (bh_size h + word_of_nat kBlockTrailerSize) = Some (status_OK, ?data, own)"
    using read_range(1) [OF assms(2) b(1,2) len] by blast
  have crc: "Unmask (DecodeFixed32 (drop (unat (bh_size h) + 1) ?data)) = crc32c_Value (take (unat (bh_size h) + 1) ?data)"
  proof -
    have "drop (length contents + 1) ?data = EncodeFixed32 (Mask (crc32c_Value (contents @ [kNoCompression]))) @ []"
      by (simp add: block_image_def)
    moreover have "take (length contents + 1) ?data = contents @ [kNoCompression]" by (simp add: block_image_def)
    ultimately show ?thesis unfolding b(3) by (simp only: Fixed32_roundtrip Unmask_Mask)
  qed
  have type: "?data ! unat (bh_size h) = kNoCompression" "take (unat (bh_size h)) ?data = contents"
    using b(3) by (simp_all add: block_image_def)
  show ?thesis
    unfolding ReadBlock_def Let_def read option.case prod.case
    using read_range(2) [OF assms(2) b(1,2) len] len crc type by simp
qed

end

section \<open>Properties\<close>

text \<open>
  C38: Block handles and footers are read back as they were written, whatever follows them: the handle of a
  block with any offset and size below \<open>2 ^ 64 - 1\<close>, and the footer of 48 bytes with two such handles.
\<close>

theorem footer_roundtrip:
  assumes "bh_offset m \<noteq> NOT 0" "bh_size m \<noteq> NOT 0" "bh_offset i \<noteq> NOT 0" "bh_size i \<noteq> NOT 0"
  shows "(\<exists>enc. BlockHandle_EncodeTo dst m = Some (dst @ enc) \<and> length enc \<le> kMaxEncodedLength \<and>
      BlockHandle_DecodeFrom (enc @ rest) h0 = (status_OK, m, rest)) \<and>
    (\<exists>enc. Footer_EncodeTo [] \<lparr>metaindex_handle = m, index_handle = i\<rparr> = Some enc \<and> length enc = kEncodedLength \<and>
      Footer_DecodeFrom (enc @ rest) f0 = Some (status_OK, \<lparr>metaindex_handle = m, index_handle = i\<rparr>, rest))"
proof (intro conjI)
  have ok: "handle_ok m" "handle_ok i" using assms by (simp_all add: handle_ok_def)
  show "\<exists>enc. BlockHandle_EncodeTo dst m = Some (dst @ enc) \<and> length enc \<le> kMaxEncodedLength \<and>
      BlockHandle_DecodeFrom (enc @ rest) h0 = (status_OK, m, rest)"
    using handle_encode [OF ok(1)] length_handle_bytes [of m] by (simp add: kMaxEncodedLength_def)
  show "\<exists>enc. Footer_EncodeTo [] \<lparr>metaindex_handle = m, index_handle = i\<rparr> = Some enc \<and> length enc = kEncodedLength \<and>
      Footer_DecodeFrom (enc @ rest) f0 = Some (status_OK, \<lparr>metaindex_handle = m, index_handle = i\<rparr>, rest)"
    using footer_encode [of "\<lparr>metaindex_handle = m, index_handle = i\<rparr>"] ok footer_decode
    by (simp add: kEncodedLength_def kMaxEncodedLength_def)
qed

lemma footer_roundtrip_witness:
  "\<exists>enc. Footer_EncodeTo [] \<lparr>metaindex_handle = \<lparr>bh_offset = 7, bh_size = 300\<rparr>, index_handle = \<lparr>bh_offset = 312, bh_size = 20\<rparr>\<rparr> =
     Some enc \<and> length enc = kEncodedLength \<and>
     Footer_DecodeFrom enc \<lparr>metaindex_handle = BlockHandle_new, index_handle = BlockHandle_new\<rparr> =
       Some (status_OK, \<lparr>metaindex_handle = \<lparr>bh_offset = 7, bh_size = 300\<rparr>, index_handle = \<lparr>bh_offset = 312, bh_size = 20\<rparr>\<rparr>, [])"
  using footer_roundtrip [where m = "\<lparr>bh_offset = 7, bh_size = 300\<rparr>" and i = "\<lparr>bh_offset = 312, bh_size = 20\<rparr>" and rest = "[]"]
  by simp

text \<open>
  C37: With verification of checksums, a block whose bytes were changed in the file within four consecutive
  bytes of the contents or the type is rejected: \<open>ReadBlock\<close> reports a corruption and gives no data.
\<close>

theorem damaged_block_rejected:
  assumes "random_access_file R (pre @ damaged @ EncodeFixed32 (Mask (crc32c_Value (contents @ [type]))) @ post)"
    and "length (pre @ damaged @ EncodeFixed32 (Mask (crc32c_Value (contents @ [type]))) @ post) < 2 ^ 63"
    and "contents @ [type] = a @ m @ z" "damaged = a @ m' @ z" "length m = length m'" "length m \<le> 4" "m \<noteq> m'"
    and "unat (bh_offset h) = length pre" "unat (bh_size h) = length contents" "verify_checksums options"
  shows "ReadBlock R options h = Some (Corruption (chars ''block checksum mismatch'') [],
    \<lparr>bc_data = [], cachable = False, heap_allocated = False\<rparr>)"
proof -
  let ?data = "damaged @ EncodeFixed32 (Mask (crc32c_Value (contents @ [type])))"
  have dlen: "length damaged = length contents + 1"
    using assms(3,4,5) by (metis length_append length_Cons list.size(3) One_nat_def)
  then have len: "length ?data = unat (bh_size h) + kBlockTrailerSize" using assms(9) by (simp add: kBlockTrailerSize_def)
  have bytes: "pre @ damaged @ EncodeFixed32 (Mask (crc32c_Value (contents @ [type]))) @ post = pre @ ?data @ post" by simp
  obtain own where read: "raf_Read R (bh_offset h) (bh_size h + word_of_nat kBlockTrailerSize) = Some (status_OK, ?data, own)"
    using random_access_file.read_range(1) [OF assms(1,2) bytes assms(8) len] by blast
  note size = random_access_file.read_range(2) [OF assms(1,2) bytes assms(8) len]
  have "drop (unat (bh_size h) + 1) ?data = EncodeFixed32 (Mask (crc32c_Value (contents @ [type]))) @ []"
    using dlen assms(9) by simp
  then have stored: "Unmask (DecodeFixed32 (drop (unat (bh_size h) + 1) ?data)) = crc32c_Value (contents @ [type])"
    by (simp only: Fixed32_roundtrip Unmask_Mask)
  have "take (unat (bh_size h) + 1) ?data = damaged" using dlen assms(9) by simp
  then have actual: "crc32c_Value (take (unat (bh_size h) + 1) ?data) \<noteq> Unmask (DecodeFixed32 (drop (unat (bh_size h) + 1) ?data))"
    using value_burst [OF assms(5,6,7), of a z] assms(3,4) stored by metis
  show ?thesis
    unfolding ReadBlock_def Let_def read option.case prod.case
    using size len actual assms(10) by simp
qed

lemma damaged_block_rejected_witness:
  "\<exists>bytes. ReadBlock (mmap_random_access disk_posix \<lparr>mmap_base = bytes, mm_filename = []\<rparr>)
      (ReadOptions_new\<lparr>verify_checksums := True\<rparr>) \<lparr>bh_offset = 1, bh_size = 2\<rparr> =
    Some (Corruption (chars ''block checksum mismatch'') [], \<lparr>bc_data = [], cachable = False, heap_allocated = False\<rparr>)"
proof -
  let ?bytes = "[9] @ [1, 3, 0] @ EncodeFixed32 (Mask (crc32c_Value ([1, 2] @ [0]))) @ [8]"
  have "ReadBlock (mmap_random_access disk_posix \<lparr>mmap_base = ?bytes, mm_filename = []\<rparr>)
      (ReadOptions_new\<lparr>verify_checksums := True\<rparr>) \<lparr>bh_offset = 1, bh_size = 2\<rparr> =
    Some (Corruption (chars ''block checksum mismatch'') [], \<lparr>bc_data = [], cachable = False, heap_allocated = False\<rparr>)"
    by (rule damaged_block_rejected [OF mmap_file.random_access_file_axioms, where a = "[1]" and m = "[2]" and z = "[0]" and m' = "[3]"])
      simp_all
  then show ?thesis by blast
qed

end
