(* ===== verification/LDB_TableBuilder_Props.thy ===== *)
theory LDB_TableBuilder_Props
  imports LDB_TableBuilder LDB_Format_Props LDB_Block_Props LDB_Filter_Props
begin

text \<open>
  LevelDB: the table builder writes the table format.  The format is a predicate on the bytes of a file
  (\<open>table_file\<close>), and the builder's state is described by the blocks it has finished, the entries of the
  current block and the keys of the index so far.
\<close>

section \<open>The format of a table file\<close>

definition block_of :: "entries \<Rightarrow> slice \<Rightarrow> bool" where
  "block_of es c \<longleftrightarrow> (\<exists>xs rs. layout xs rs \<and> map snd xs = es \<and> c = block_bytes xs rs)"

definition blocks_image :: "slice list \<Rightarrow> u8 list" where
  "blocks_image cs = concat (map (block_image kNoCompression) cs)"

definition block_off :: "slice list \<Rightarrow> nat \<Rightarrow> nat" where
  "block_off cs j = length (blocks_image (take j cs))"

definition block_handle :: "slice list \<Rightarrow> nat \<Rightarrow> BlockHandle" where
  "block_handle cs j = \<lparr>bh_offset = word_of_nat (block_off cs j), bh_size = word_of_nat (length (cs ! j))\<rparr>"

text \<open>The entries of the index: keys with the encoded handles of the blocks.\<close>

definition index_entries :: "slice list \<Rightarrow> slice list \<Rightarrow> entries" where
  "index_entries ks cs = map (\<lambda>j. (ks ! j, handle_bytes (block_handle cs j))) [0..<length ks]"

text \<open>Key \<open>j\<close> of the index is at or after block \<open>j\<close> and before all later blocks.\<close>

definition separated :: "comparator \<Rightarrow> (slice \<Rightarrow> bool) \<Rightarrow> slice list \<Rightarrow> entries list \<Rightarrow> bool" where
  "separated C valid ks ess \<longleftrightarrow> (\<forall>j < length ks. valid (ks ! j) \<and>
     (\<forall>x \<in> set (ess ! j). Compare C (fst x) (ks ! j) \<le> 0) \<and>
     (\<forall>i < length ess. j < i \<longrightarrow> (\<forall>x \<in> set (ess ! i). Compare C (ks ! j) (fst x) < 0)))"

definition filter_key :: "FilterPolicy \<Rightarrow> slice" where
  "filter_key P = chars ''filter.'' @ fp_Name P"

text \<open>A filter block that has every key of every block.\<close>

definition filter_complete :: "FilterPolicy \<Rightarrow> (entries \<times> slice) list \<Rightarrow> slice \<Rightarrow> bool" where
  "filter_complete P bs c \<longleftrightarrow> (\<forall>j < length bs. \<forall>x \<in> set (fst (bs ! j)).
     FilterBlock_KeyMayMatch (FilterBlockReader_new P c) (word_of_nat (block_off (map snd bs) j)) (fst x) = Some True)"

definition meta_stored :: "FilterPolicy option \<Rightarrow> (entries \<times> slice) list \<Rightarrow> u8 list \<Rightarrow> entries \<Rightarrow> bool" where
  "meta_stored policy bs bytes es \<longleftrightarrow> (case policy of None \<Rightarrow> es = []
     | Some P \<Rightarrow> \<exists>h c. es = [(filter_key P, handle_bytes h)] \<and> stored_at bytes h kNoCompression c \<and> filter_complete P bs c)"

definition table_file ::
  "comparator \<Rightarrow> (slice \<Rightarrow> bool) \<Rightarrow> FilterPolicy option \<Rightarrow> (entries \<times> slice) list \<Rightarrow> slice list \<Rightarrow> u8 list \<Rightarrow> bool" where
  "table_file C valid policy bs ks bytes \<longleftrightarrow> (\<exists>pre f mes mc ic.
     bytes = pre @ footer_bytes f \<and> length bytes < 2 ^ 63 \<and>
     sorted_entries C valid (concat (map fst bs)) \<and> (\<forall>(es, c) \<in> set bs. es \<noteq> [] \<and> block_of es c) \<and>
     length ks = length bs \<and> separated C valid ks (map fst bs) \<and>
     (\<exists>post. bytes = blocks_image (map snd bs) @ post) \<and> sorted_entries C valid (index_entries ks (map snd bs)) \<and>
     block_of (index_entries ks (map snd bs)) ic \<and> stored_at bytes (index_handle f) kNoCompression ic \<and>
     block_of mes mc \<and> stored_at bytes (metaindex_handle f) kNoCompression mc \<and> meta_stored policy bs bytes mes)"

lemma separatedD:
  "separated C valid ks ess \<Longrightarrow> j < length ks \<Longrightarrow> j < i \<Longrightarrow> i < length ess \<Longrightarrow> x \<in> set (ess ! i) \<Longrightarrow> Compare C (ks ! j) (fst x) < 0"
  "separated C valid ks ess \<Longrightarrow> j < length ks \<Longrightarrow> valid (ks ! j)"
  unfolding separated_def by blast+

section \<open>Options and bounds\<close>

text \<open>
  Options the builder runs with: separators are not longer than the keys they come from, and filters for up
  to \<open>N\<close> keys have at most \<open>B\<close> bytes.
\<close>

definition table_options_ok :: "Options \<Rightarrow> nat \<Rightarrow> nat \<Rightarrow> bool" where
  "table_options_ok options N B \<longleftrightarrow> 1 \<le> block_restart_interval options \<and>
     (o_compression options = kNoCompression \<or> o_compression options = kSnappyCompression) \<and>
     (\<forall>a b s. FindShortestSeparator (o_comparator options) a b = Some s \<longrightarrow> length s \<le> length a) \<and>
     (\<forall>a s. FindShortSuccessor (o_comparator options) a = Some s \<longrightarrow> length s \<le> length a) \<and>
     (\<forall>P. o_filter_policy options = Some P \<longrightarrow>
        (\<exists>small. filter_policy P small \<and> (\<forall>ks. length ks \<le> N \<longrightarrow> small ks)) \<and>
        (\<forall>ks. length ks \<le> N \<longrightarrow> length (CreateFilter P ks []) \<le> B))"

definition data_bound :: "entries \<Rightarrow> nat" where
  "data_bound es = sum_list (map (\<lambda>(k, v). length k + length v + 32) es)"

definition index_bound :: "entries \<Rightarrow> nat" where
  "index_bound es = sum_list (map (\<lambda>(k, v). length k + 39) es) + 13"

definition meta_bound :: "Options \<Rightarrow> nat \<Rightarrow> entries \<Rightarrow> nat" where
  "meta_bound options B es = (case o_filter_policy options of None \<Rightarrow> 13
     | Some P \<Rightarrow> (data_bound es div 2048 + 2) * (B + 4) + length (fp_Name P) + 100)"

definition table_bound :: "Options \<Rightarrow> nat \<Rightarrow> entries \<Rightarrow> nat" where
  "table_bound options B es = data_bound es + meta_bound options B es + index_bound es + 48"

section \<open>Blocks and images\<close>

lemma blocks_image_simps [simp]:
  "blocks_image [] = []" "blocks_image (c # cs) = block_image kNoCompression c @ blocks_image cs"
  "blocks_image (cs @ ds) = blocks_image cs @ blocks_image ds"
  by (simp_all add: blocks_image_def)

lemma block_off_snoc: "j \<le> length cs \<Longrightarrow> block_off (cs @ ds) j = block_off cs j"
  by (simp add: block_off_def)

lemma block_off_all: "block_off cs (length cs) = length (blocks_image cs)"
  by (simp add: block_off_def)

lemma block_off_le: "block_off cs j \<le> length (blocks_image cs)"
  unfolding block_off_def by (metis append_take_drop_id blocks_image_simps(3) le_add1 length_append)

lemma block_off_mono: "i \<le> j \<Longrightarrow> block_off cs i \<le> block_off cs j"
  using block_off_le [of "take j cs" i] by (simp add: block_off_def min_absorb1)

lemma block_handle_snoc: "j < length cs \<Longrightarrow> block_handle (cs @ ds) j = block_handle cs j"
  by (simp add: block_handle_def block_off_snoc nth_append)

lemma block_stored:
  assumes "j < length cs" "length (blocks_image cs) < 2 ^ 63"
  shows "stored_at (blocks_image cs @ rest) (block_handle cs j) kNoCompression (cs ! j)"
proof -
  have split: "blocks_image cs = blocks_image (take j cs) @ block_image kNoCompression (cs ! j) @ blocks_image (drop (Suc j) cs)"
    using id_take_nth_drop [OF assms(1)] by (metis blocks_image_simps(2,3))
  then have "length (blocks_image (take j cs)) < 2 ^ 63" "length (cs ! j) < 2 ^ 63" using assms(2) by simp_all
  then show ?thesis
    unfolding stored_at_def block_handle_def
    by (intro exI [of _ "blocks_image (take j cs)"] exI [of _ "blocks_image (drop (Suc j) cs) @ rest"])
      (simp add: split block_off_def unat_of_nat_64)
qed

lemma data_bound_simps [simp]:
  "data_bound [] = 0" "data_bound (x # es) = length (fst x) + length (snd x) + 32 + data_bound es"
  "data_bound (es @ fs) = data_bound es + data_bound fs"
  by (simp_all add: data_bound_def case_prod_beta)

lemma block_bound_data: "es \<noteq> [] \<Longrightarrow> block_bound es + 5 \<le> data_bound es"
proof -
  have "sum_list (map (\<lambda>(k, v). length k + length v + 19) es) + 13 * length es = data_bound es"
    by (induction es) auto
  moreover assume "es \<noteq> []"
  then have "13 \<le> 13 * length es" by (cases es) simp_all
  ultimately show ?thesis by (simp add: block_bound_def)
qed

lemma builds_block:
  assumes "builds b xs rs" "block_bound (map snd xs) < 2 ^ 32"
  shows "block_of (map snd xs) (block_bytes xs rs)" "length (block_bytes xs rs) \<le> block_bound (map snd xs)"
proof -
  show "block_of (map snd xs) (block_bytes xs rs)" using builds_layout [OF assms] by (auto simp: block_of_def)
  have "length rs \<le> length xs + 1" using assms(1) by (simp add: builds_def)
  then show "length (block_bytes xs rs) \<le> block_bound (map snd xs)"
    using entries_bytes_bound [of xs] by (simp add: block_bytes_def length_restart_bytes)
qed

lemma Reset_builds: "1 \<le> block_restart_interval (b_options b) \<Longrightarrow> builds (BlockBuilder_Reset b) [] [0]"
  by (simp add: BlockBuilder_Reset_def builds_def shares_def restarts_ok_def)

section \<open>The state of a builder\<close>

definition filter_blocks :: "(entries \<times> slice) list \<Rightarrow> entries \<Rightarrow> (u64 \<times> slice list) list" where
  "filter_blocks bs cur =
     map (\<lambda>j. (word_of_nat (block_off (map snd bs) j), map fst (fst (bs ! j)))) [0..<length bs] @
     [(word_of_nat (length (blocks_image (map snd bs))), map fst cur)]"

lemma filter_blocks_snoc:
  "filter_blocks (bs @ [(cur, c)]) [] = filter_blocks bs cur @ [(word_of_nat (length (blocks_image (map snd bs @ [c]))), [])]"
  by (simp add: filter_blocks_def nth_append block_off_snoc block_off_all [of "map snd bs", simplified])

locale table_build = device: writable_file F good contents flushed + comparator_laws "o_comparator options" valid
  for F :: "'f writable_ops" and good and contents and flushed and options :: Options and valid +
  fixes N B :: nat
  assumes options_ok: "table_options_ok options N B"
begin

abbreviation C :: comparator where "C \<equiv> o_comparator options"

definition filter_state :: "(entries \<times> slice) list \<Rightarrow> entries \<Rightarrow> FilterBlockBuilder option \<Rightarrow> bool" where
  "filter_state bs cur b \<longleftrightarrow> (case o_filter_policy options of None \<Rightarrow> b = None
     | Some P \<Rightarrow> \<exists>fb G pend. b = Some fb \<and> filter_inv P (filter_blocks bs cur) fb G pend \<and>
         length G = unat (word_of_nat (length (blocks_image (map snd bs))) div kFilterBase))"

definition tb_inv :: "(entries \<times> slice) list \<Rightarrow> entries \<Rightarrow> slice list \<Rightarrow> 'f TableBuilder \<Rightarrow> bool" where
  "tb_inv bs cur ks r \<longleftrightarrow>
     tb_options r = options \<and> tb_status r = status_OK \<and> \<not> tb_closed r \<and> good (tb_file r) \<and>
     contents (tb_file r) = blocks_image (map snd bs) \<and> tb_offset r = word_of_nat (length (blocks_image (map snd bs))) \<and>
     (\<forall>(es, c) \<in> set bs. es \<noteq> [] \<and> block_of es c \<and> length c + 5 \<le> data_bound es) \<and>
     b_options (tb_data_block r) = options \<and> (\<exists>xs rs. builds (tb_data_block r) xs rs \<and> map snd xs = cur) \<and>
     b_options (tb_index_block r) = options\<lparr>block_restart_interval := 1\<rparr> \<and>
     (\<exists>xs rs. builds (tb_index_block r) xs rs \<and> map snd xs = index_entries ks (map snd bs)) \<and>
     (if tb_pending_index_entry r
      then length bs = Suc (length ks) \<and> cur = [] \<and> tb_pending_handle r = block_handle (map snd bs) (length ks)
      else length bs = length ks) \<and>
     sorted_entries C valid (concat (map fst bs) @ cur) \<and> separated C valid ks (map fst bs @ [cur]) \<and>
     (\<forall>j < length ks. length (ks ! j) \<le> length (fst (last (fst (bs ! j))))) \<and>
     tb_num_entries r = int (length (concat (map fst bs) @ cur)) \<and> filter_state bs cur (tb_filter_block r)"

text \<open>Between the calls.\<close>

definition stable :: "entries \<Rightarrow> 'f TableBuilder \<Rightarrow> bool" where
  "stable es r \<longleftrightarrow> (\<exists>bs cur ks. tb_inv bs cur ks r \<and> es = concat (map fst bs) @ cur \<and>
     (es \<noteq> [] \<longrightarrow> tb_last_key r = fst (last es)) \<and> (\<not> tb_pending_index_entry r \<longrightarrow> cur = [] \<longrightarrow> bs = []))"

definition failed :: "'f TableBuilder \<Rightarrow> bool" where
  "failed r \<longleftrightarrow> \<not> status_ok (tb_status r) \<and> \<not> tb_closed r"

lemma interval: "1 \<le> block_restart_interval options"
  using options_ok by (simp add: table_options_ok_def)

lemma compressed: "\<exists>out. compress (o_compression options) raw out0 = (raw, kNoCompression, out)"
  using options_ok by (auto simp: table_options_ok_def compress_def Snappy_Compress_def Let_def)

lemma short_keys:
  "FindShortestSeparator C a b = Some s \<Longrightarrow> length s \<le> length a"
  "FindShortSuccessor C a = Some s \<Longrightarrow> length s \<le> length a"
  using options_ok unfolding table_options_ok_def by blast+

lemma policy:
  assumes "o_filter_policy options = Some P"
  shows "\<exists>small. filter_policy P small \<and> (\<forall>ks. length ks \<le> N \<longrightarrow> small ks)"
  using options_ok assms unfolding table_options_ok_def by blast

section \<open>Writing blocks\<close>

lemma append_file:
  assumes "good (tb_file r)"
  shows "\<exists>s f. tb_append F data r = Some (r\<lparr>tb_status := s, tb_file := f\<rparr>) \<and> good f \<and>
    (status_ok s \<longrightarrow> contents f = contents (tb_file r) @ data)"
  using device.append_returns [OF assms, of data] device.append_ok [OF assms, of data] by (fastforce simp: tb_append_def)

lemma crc_trailer: "crc32c_Extend (crc32c_Value c) [type] = crc32c_Value (c @ [type])"
  by (simp add: Extend_Value)

lemma raw_block:
  assumes "good (tb_file r)"
  shows "\<exists>s f off. WriteRawBlock F c type r = Some (\<lparr>bh_offset = tb_offset r, bh_size = word_of_nat (length c)\<rparr>,
      r\<lparr>tb_status := s, tb_file := f, tb_offset := off\<rparr>) \<and> good f \<and>
    (if status_ok s then contents f = contents (tb_file r) @ block_image type c \<and> off = tb_offset r + word_of_nat (length c + 5)
     else off = tb_offset r)"
proof -
  obtain s1 f1 where a1: "tb_append F c r = Some (r\<lparr>tb_status := s1, tb_file := f1\<rparr>)" "good f1"
    "status_ok s1 \<longrightarrow> contents f1 = contents (tb_file r) @ c" using append_file [OF assms] by blast
  let ?r1 = "r\<lparr>tb_status := s1, tb_file := f1\<rparr>" and ?t = "type # EncodeFixed32 (Mask (crc32c_Value (c @ [type])))"
  obtain s2 f2 where a2: "tb_append F ?t ?r1 = Some (?r1\<lparr>tb_status := s2, tb_file := f2\<rparr>)" "good f2"
    "status_ok s2 \<longrightarrow> contents f2 = contents f1 @ ?t" using append_file [of ?r1 ?t] a1(2) by auto
  show ?thesis
  proof (cases "status_ok s1 \<and> status_ok s2")
    case True
    then have "WriteRawBlock F c type r = Some (\<lparr>bh_offset = tb_offset r, bh_size = word_of_nat (length c)\<rparr>,
      r\<lparr>tb_status := s2, tb_file := f2, tb_offset := tb_offset r + word_of_nat (length c + 5)\<rparr>)"
      using a1(1) a2(1) by (simp add: WriteRawBlock_def Let_def crc_trailer kBlockTrailerSize_def)
    then show ?thesis using True a1(3) a2(2,3) by (fastforce simp: block_image_def)
  next
    case False
    show ?thesis
    proof (cases "status_ok s1")
      case True
      then have "WriteRawBlock F c type r = Some (\<lparr>bh_offset = tb_offset r, bh_size = word_of_nat (length c)\<rparr>,
        r\<lparr>tb_status := s2, tb_file := f2, tb_offset := tb_offset r\<rparr>)"
        using a1(1) a2(1) False by (simp add: WriteRawBlock_def Let_def crc_trailer)
      then show ?thesis using True False a2(2) by fastforce
    next
      case no: False
      then have "WriteRawBlock F c type r = Some (\<lparr>bh_offset = tb_offset r, bh_size = word_of_nat (length c)\<rparr>,
        r\<lparr>tb_status := s1, tb_file := f1, tb_offset := tb_offset r\<rparr>)"
        using a1(1) by (simp add: WriteRawBlock_def Let_def)
      then show ?thesis using no a1(2) by fastforce
    qed
  qed
qed

lemma write_block:
  assumes "good (tb_file r)" "status_ok (tb_status r)" "tb_options r = options" "builds b xs rs"
  shows "\<exists>s f off. WriteBlock F b r = Some (\<lparr>bh_offset = tb_offset r, bh_size = word_of_nat (length (block_bytes xs rs))\<rparr>,
      BlockBuilder_Reset b, r\<lparr>tb_status := s, tb_file := f, tb_offset := off, tb_compressed_output := []\<rparr>) \<and> good f \<and>
    (if status_ok s then contents f = contents (tb_file r) @ block_image kNoCompression (block_bytes xs rs) \<and>
       off = tb_offset r + word_of_nat (length (block_bytes xs rs) + 5)
     else off = tb_offset r)"
proof -
  let ?c = "block_bytes xs rs"
  have fin: "fst (BlockBuilder_Finish b) = ?c" "BlockBuilder_Reset (snd (BlockBuilder_Finish b)) = BlockBuilder_Reset b"
    using Finish_bytes [OF assms(4)] by (simp_all add: BlockBuilder_Finish_def BlockBuilder_Reset_def Let_def)
  obtain out where out: "compress (o_compression options) ?c (tb_compressed_output r) = (?c, kNoCompression, out)"
    using compressed by blast
  let ?r = "r\<lparr>tb_compressed_output := out\<rparr>"
  obtain s f off where w: "WriteRawBlock F ?c kNoCompression ?r =
      Some (\<lparr>bh_offset = tb_offset r, bh_size = word_of_nat (length ?c)\<rparr>, ?r\<lparr>tb_status := s, tb_file := f, tb_offset := off\<rparr>)"
    "good f"
    "if status_ok s then contents f = contents (tb_file r) @ block_image kNoCompression ?c \<and> off = tb_offset r + word_of_nat (length ?c + 5)
     else off = tb_offset r"
    using raw_block [of ?r ?c kNoCompression] assms(1) by auto
  have "WriteBlock F b r = Some (\<lparr>bh_offset = tb_offset r, bh_size = word_of_nat (length ?c)\<rparr>, BlockBuilder_Reset b,
      r\<lparr>tb_status := s, tb_file := f, tb_offset := off, tb_compressed_output := []\<rparr>)"
    using assms(2,3) fin out w(1)
    by (cases "BlockBuilder_Finish b") (simp add: WriteBlock_def TableBuilder_ok_def)
  then show ?thesis using w(2,3) by blast
qed

section \<open>Flushing a data block\<close>

lemma small_offset: "n < 2 ^ 63 \<Longrightarrow> unat (word_of_nat n :: u64) = n"
  by (simp add: unat_of_nat_64)

lemma small_not_max:
  assumes "n < 2 ^ 63"
  shows "(word_of_nat n :: u64) \<noteq> NOT 0"
proof
  assume "(word_of_nat n :: u64) = NOT 0"
  then have "unat (word_of_nat n :: u64) = unat (NOT 0 :: u64)" by simp
  then have "n = unat (NOT 0 :: u64)" by (simp only: small_offset [OF assms])
  with assms show False by (simp add: unsigned_minus_1_eq_mask mask_eq_exp_minus_1)
qed

lemma image_bound:
  "\<forall>(es, c) \<in> set bs. length c + 5 \<le> data_bound es \<Longrightarrow>
   length (blocks_image (map snd bs)) \<le> data_bound (concat (map fst bs))"
  by (induction bs) auto

lemma filter_offsets_sorted:
  assumes "length (blocks_image (map snd bs)) < 2 ^ 63" "x \<in> set (filter_blocks bs cur)"
  shows "fst x \<le> word_of_nat (length (blocks_image (map snd bs)))"
proof -
  obtain n where n: "fst x = word_of_nat n" "n \<le> length (blocks_image (map snd bs))"
    using assms(2) block_off_le by (fastforce simp: filter_blocks_def)
  then show ?thesis using assms(1) small_offset [of n] small_offset [of "length (blocks_image (map snd bs))"]
    by (simp add: word_le_nat_alt)
qed

lemma key_count_blocks:
  "key_count (filter_blocks bs cur) = length (concat (map fst bs) @ cur)"
proof -
  have "sum_list (map (\<lambda>j. length (fst (bs ! j))) [0..<length bs]) = sum_list (map (\<lambda>b. length (fst b)) bs)"
    by (simp add: sum_list_sum_nth interv_sum_list_conv_sum_set_nat)
  then show ?thesis by (simp add: key_count_def filter_blocks_def comp_def length_concat)
qed

lemma start_filter:
  assumes state: "filter_state bs cur b" and size: "length (concat (map fst bs) @ cur) \<le> N"
    and off: "length (blocks_image (map snd bs)) \<le> off" "off < 2 ^ 63"
  shows "\<exists>b'. (case b of None \<Rightarrow> Some None | Some fb \<Rightarrow> map_option Some (StartBlock (word_of_nat off) fb)) = Some b' \<and>
    (off = length (blocks_image (map snd bs @ [c])) \<longrightarrow> filter_state (bs @ [(cur, c)]) [] b')"
proof (cases "o_filter_policy options")
  case None
  then show ?thesis using state by (simp add: filter_state_def)
next
  case (Some P)
  then obtain fb G pend where fb: "b = Some fb" "filter_inv P (filter_blocks bs cur) fb G pend"
    using state by (auto simp: filter_state_def)
  obtain small where small: "filter_policy P small" "\<forall>ks. length ks \<le> N \<longrightarrow> small ks"
    using policy [OF Some] by blast
  have le: "fst x \<le> word_of_nat off" if "x \<in> set (filter_blocks bs cur)" for x
  proof -
    have "fst x \<le> word_of_nat (length (blocks_image (map snd bs)))"
      by (rule filter_offsets_sorted [OF _ that]) (use off in linarith)
    also have "\<dots> \<le> word_of_nat off" using off by (simp add: word_le_nat_alt small_offset)
    finally show ?thesis .
  qed
  have small': "length ks \<le> key_count (filter_blocks bs cur) \<Longrightarrow> small ks" for ks
    using small(2) size by (simp add: key_count_blocks)
  obtain fb' G' pend' where fb': "add_block fb (word_of_nat off, []) = Some fb'"
    "filter_inv P (filter_blocks bs cur @ [(word_of_nat off, [])]) fb' G' pend'" "length G' = unat (word_of_nat off div kFilterBase)"
    using filter_policy.add_block_inv [OF small(1) fb(2) small' le] by blast
  have "StartBlock (word_of_nat off) fb = Some fb'" using fb'(1) by (simp add: option.map_id)
  moreover have "filter_state (bs @ [(cur, c)]) [] (Some fb')" if "off = length (blocks_image (map snd bs @ [c]))"
    using fb'(2,3) that Some unfolding filter_state_def filter_blocks_snoc by auto
  ultimately show ?thesis using fb(1) by simp
qed

lemma entry_of_bound: "es \<noteq> [] \<Longrightarrow> data_bound es < M \<Longrightarrow> block_bound es < M \<and> block_bound es + 5 \<le> data_bound es"
  using block_bound_data [of es] by linarith

lemma separated_snoc:
  assumes "length ks \<le> length ess"
  shows "separated C valid ks (ess @ [l]) \<longleftrightarrow>
    separated C valid ks ess \<and> (\<forall>k \<in> set ks. \<forall>x \<in> set l. Compare C k (fst x) < 0)"
proof -
  have "(\<forall>i < length (ess @ [l]). j < i \<longrightarrow> (\<forall>x \<in> set ((ess @ [l]) ! i). Compare C (ks ! j) (fst x) < 0)) \<longleftrightarrow>
      (\<forall>i < length ess. j < i \<longrightarrow> (\<forall>x \<in> set (ess ! i). Compare C (ks ! j) (fst x) < 0)) \<and>
      (\<forall>x \<in> set l. Compare C (ks ! j) (fst x) < 0)" if "j < length ks" for j
    using that assms unfolding length_append_singleton All_less_Suc by (auto simp: nth_append)
  moreover have "(ess @ [l]) ! j = ess ! j" if "j < length ks" for j using that assms by (simp add: nth_append)
  ultimately show ?thesis unfolding separated_def all_set_conv_all_nth by (simp cong: conj_cong) blast
qed

lemma flush_block:
  assumes inv: "tb_inv bs cur ks r" and cur: "cur \<noteq> []"
    and size: "data_bound (concat (map fst bs) @ cur) < 2 ^ 32" "length (concat (map fst bs) @ cur) \<le> N"
  shows "\<exists>r'. TableBuilder_Flush F r = Some r' \<and> tb_last_key r' = tb_last_key r \<and>
    (failed r' \<or> (\<exists>c. tb_inv (bs @ [(cur, c)]) [] ks r' \<and> tb_pending_index_entry r'))"
proof -
  obtain xs rs where xs: "builds (tb_data_block r) xs rs" "map snd xs = cur" using inv by (auto simp: tb_inv_def)
  let ?c = "block_bytes xs rs" and ?img = "blocks_image (map snd bs)"
  have st: "tb_options r = options" "status_ok (tb_status r)" "\<not> tb_closed r" "good (tb_file r)"
    "contents (tb_file r) = ?img" "tb_offset r = word_of_nat (length ?img)" "\<not> tb_pending_index_entry r"
    "b_options (tb_data_block r) = options" "filter_state bs cur (tb_filter_block r)"
    "\<forall>(es, c) \<in> set bs. es \<noteq> [] \<and> block_of es c \<and> length c + 5 \<le> data_bound es" "length bs = length ks"
    using inv cur by (auto simp: tb_inv_def split: if_splits)
  have img: "length ?img \<le> data_bound (concat (map fst bs))" by (rule image_bound) (use st(10) in auto)
  have bound: "block_bound cur < 2 ^ 32" "block_bound cur + 5 \<le> data_bound cur"
    using entry_of_bound [OF cur, of "2 ^ 32"] size(1) by simp_all
  have c: "block_of cur ?c" "length ?c \<le> block_bound cur" using builds_block [OF xs(1)] xs(2) bound by simp_all
  have off: "length (blocks_image (map snd bs @ [?c])) = length ?img + length ?c + 5" by simp
  then have off_small: "length (blocks_image (map snd bs @ [?c])) < 2 ^ 63" using img bound c(2) size(1) by simp
  have handle: "\<lparr>bh_offset = tb_offset r, bh_size = word_of_nat (length ?c)\<rparr> = block_handle (map snd bs @ [?c]) (length ks)"
    using st(6,11) by (simp add: block_handle_def block_off_def nth_append)
  obtain s f off where w: "WriteBlock F (tb_data_block r) r = Some (block_handle (map snd bs @ [?c]) (length ks),
      BlockBuilder_Reset (tb_data_block r), r\<lparr>tb_status := s, tb_file := f, tb_offset := off, tb_compressed_output := []\<rparr>)"
    "good f" "if status_ok s then contents f = ?img @ block_image kNoCompression ?c \<and>
       off = word_of_nat (length (blocks_image (map snd bs @ [?c]))) else off = word_of_nat (length ?img)"
    using write_block [OF st(4,2,1) xs(1)] handle st(5,6) by (auto simp: add.commute add.left_commute)
  let ?r = "r\<lparr>tb_status := s, tb_file := f, tb_offset := off, tb_compressed_output := [],
      tb_pending_handle := block_handle (map snd bs @ [?c]) (length ks), tb_data_block := BlockBuilder_Reset (tb_data_block r)\<rparr>"
  have empty: "\<not> BlockBuilder_empty (tb_data_block r)"
    using xs cur by (auto simp: BlockBuilder_empty_def builds_def entries_bytes_Nil)
  have filt: "(case b of None \<Rightarrow> Some q | Some fb \<Rightarrow> map_option (\<lambda>b. q\<lparr>tb_filter_block := Some b\<rparr>) (g fb)) =
      map_option (\<lambda>b. q\<lparr>tb_filter_block := b\<rparr>) (case b of None \<Rightarrow> Some None | Some fb \<Rightarrow> map_option Some (g fb))"
    if "b = tb_filter_block q" for b g and q :: "'f TableBuilder"
  proof (cases b)
    case None
    with that have "q\<lparr>tb_filter_block := None\<rparr> = q" by (cases q) simp
    with None show ?thesis by simp
  next
    case (Some fb)
    show ?thesis unfolding Some by (simp add: option.map_comp comp_def)
  qed
  have flush: "TableBuilder_Flush F r = (case (if status_ok s
        then map_option (\<lambda>(status, file). ?r\<lparr>tb_pending_index_entry := True, tb_status := status, tb_file := file\<rparr>) (Flush F f)
        else Some ?r) of None \<Rightarrow> None
      | Some r \<Rightarrow> map_option (\<lambda>b. r\<lparr>tb_filter_block := b\<rparr>)
          (case tb_filter_block r of None \<Rightarrow> Some None | Some fb \<Rightarrow> map_option Some (StartBlock (tb_offset r) fb)))"
    using st empty w(1) by (simp add: TableBuilder_Flush_def TableBuilder_ok_def filt split: option.split)
  show ?thesis
  proof (cases "status_ok s")
    case False
    obtain b' where "(case tb_filter_block r of None \<Rightarrow> Some None
        | Some fb \<Rightarrow> map_option Some (StartBlock (word_of_nat (length ?img)) fb)) = Some b'"
      using start_filter [OF st(9) size(2), of "length ?img"] off_small by auto
    then have "TableBuilder_Flush F r = Some (?r\<lparr>tb_filter_block := b'\<rparr>)"
      using False w(3) flush by (cases "tb_filter_block r") auto
    then show ?thesis using False st(3) by (simp add: failed_def)
  next
    case True
    obtain s2 f2 where f2: "Flush F f = Some (s2, f2)" "good f2" "status_ok s2 \<longrightarrow> contents f2 = contents f"
      using device.flush_returns [OF w(2)] device.flush_ok [OF w(2)] by blast
    let ?off = "length (blocks_image (map snd bs @ [?c]))"
    obtain b' where b': "(case tb_filter_block r of None \<Rightarrow> Some None
        | Some fb \<Rightarrow> map_option Some (StartBlock (word_of_nat ?off) fb)) = Some b'"
      "filter_state (bs @ [(cur, ?c)]) [] b'"
      using start_filter [OF st(9) size(2), of ?off ?c] off off_small by auto
    let ?r' = "?r\<lparr>tb_pending_index_entry := True, tb_status := s2, tb_file := f2, tb_filter_block := b'\<rparr>"
    have flushed: "TableBuilder_Flush F r = Some ?r'"
      using True w(3) flush f2(1) b'(1) by (cases "tb_filter_block r") auto
    show ?thesis
    proof (cases "status_ok s2")
      case no: False
      then show ?thesis using flushed st(3) by (simp add: failed_def)
    next
      case ok: True
      have reset: "builds (BlockBuilder_Reset (tb_data_block r)) [] [0]" "b_options (BlockBuilder_Reset (tb_data_block r)) = options"
        using Reset_builds interval st(8) by (simp_all add: BlockBuilder_Reset_def)
      have ies: "index_entries ks (map snd bs @ [?c]) = index_entries ks (map snd bs)"
        using st(11) by (simp add: index_entries_def block_handle_snoc)
      have "tb_inv (bs @ [(cur, ?c)]) [] ks ?r'"
        using inv True ok w f2 b'(2) reset c bound ies cur st(11) separated_snoc [of ks "map fst bs @ [cur]"]
        unfolding tb_inv_def by (auto simp: status_ok_def status_OK_def nth_append)
      then show ?thesis using flushed by auto
    qed
  qed
qed

section \<open>Adding an entry\<close>

lemma handle_small:
  assumes "length (blocks_image cs) < 2 ^ 63" "j < length cs"
  shows "handle_ok (block_handle cs j)"
proof -
  have "blocks_image cs = blocks_image (take j cs) @ block_image kNoCompression (cs ! j) @ blocks_image (drop (Suc j) cs)"
    using id_take_nth_drop [OF assms(2)] by (metis blocks_image_simps(2,3))
  then have "length (cs ! j) \<le> length (blocks_image cs)" by simp
  then have "length (cs ! j) < 2 ^ 63" "block_off cs j < 2 ^ 63" using assms block_off_le [of cs j] by auto
  then show ?thesis by (simp only: handle_ok_def block_handle_def BlockHandle.select_convs small_not_max not_False_eq_True simp_thms)
qed

lemma index_entries_snoc:
  "length ks < length cs \<Longrightarrow> index_entries (ks @ [s]) cs = index_entries ks cs @ [(s, handle_bytes (block_handle cs (length ks)))]"
  by (simp add: index_entries_def nth_append)

lemma index_entry:
  assumes inv: "tb_inv bs [] ks r" and pending: "tb_pending_index_entry r"
    and size: "data_bound (concat (map fst bs)) < 2 ^ 32"
    and s: "valid s" "length s \<le> length (fst (last (fst (last bs))))" "\<forall>x \<in> set (fst (last bs)). Compare C (fst x) s \<le> 0"
  shows "\<exists>b. add_index_entry s r = Some (r\<lparr>tb_last_key := s, tb_index_block := b, tb_pending_index_entry := False\<rparr>) \<and>
    tb_inv bs [] (ks @ [s]) (r\<lparr>tb_last_key := s, tb_index_block := b, tb_pending_index_entry := False\<rparr>)"
proof -
  let ?cs = "map snd bs" and ?n = "length ks"
  have len: "length bs = Suc ?n" "tb_pending_handle r = block_handle ?cs ?n" "\<not> tb_closed r"
    and sep: "separated C valid ks (map fst bs @ [[]])" and opts: "b_options (tb_index_block r) = options\<lparr>block_restart_interval := 1\<rparr>"
    and blocks: "\<forall>(es, c) \<in> set bs. es \<noteq> [] \<and> block_of es c \<and> length c + 5 \<le> data_bound es"
    and sorted: "sorted_entries C valid (concat (map fst bs))"
    using inv pending by (auto simp: tb_inv_def)
  have "\<forall>(es, c) \<in> set bs. length c + 5 \<le> data_bound es" using blocks by auto
  from image_bound [OF this] have img: "length (blocks_image ?cs) < 2 ^ 63" using size by simp
  have last: "last bs = bs ! ?n" using len(1) by (metis diff_Suc_1 last_conv_nth length_0_conv nat.distinct(1))
  have nonempty: "fst (bs ! ?n) \<noteq> []" using blocks [rule_format, OF nth_mem [of ?n bs]] len(1) by (simp add: case_prod_beta)
  obtain xs rs where xs: "builds (tb_index_block r) xs rs" "map snd xs = index_entries ks ?cs" using inv by (auto simp: tb_inv_def)
  have xs_len: "length xs = ?n" using arg_cong [OF xs(2), of length] by (simp add: index_entries_def)
  have greater: "0 < Compare C s (entry_key xs (length xs - 1))" if "xs \<noteq> []"
  proof -
    have n: "?n - 1 < ?n" using that xs_len by (cases "?n") auto
    have "snd (xs ! (?n - 1)) = index_entries ks ?cs ! (?n - 1)" using n xs_len by (simp flip: xs(2))
    then have key: "entry_key xs (length xs - 1) = ks ! (?n - 1)" using n xs_len by (simp add: index_entries_def)
    obtain x where x: "x \<in> set (fst (bs ! ?n))" using nonempty by (cases "fst (bs ! ?n)") auto
    have "Compare C (ks ! (?n - 1)) (fst x) < 0" "valid (ks ! (?n - 1))"
      using separatedD [OF sep, of "?n - 1"] n x len(1) by (simp_all add: nth_append)
    moreover have "valid (fst x)" using sorted x len(1) by (auto simp: sorted_entries_def)
    ultimately have "Compare C (ks ! (?n - 1)) s < 0" using compare_less_trans2 [of "ks ! (?n - 1)" "fst x" s] s(1,3) x last by simp
    then show ?thesis using key compare_sign s(1) \<open>valid (ks ! (?n - 1))\<close> by simp
  qed
  obtain b sh rs' where b: "BlockBuilder_Add (tb_index_block r) s (handle_bytes (block_handle ?cs ?n)) = Some b"
    "b_options b = b_options (tb_index_block r)" "builds b (xs @ [(sh, s, handle_bytes (block_handle ?cs ?n))]) rs'"
    using Add_builds [OF xs(1), of s "handle_bytes (block_handle ?cs ?n)"] greater opts by auto
  have "handle_ok (block_handle ?cs ?n)" using handle_small [OF img, of ?n] len(1) by simp
  then have add: "add_index_entry s r = Some (r\<lparr>tb_last_key := s, tb_index_block := b, tb_pending_index_entry := False\<rparr>)"
    using b(1) len(2) by (simp add: add_index_entry_def handle_encode)
  have ies: "index_entries (ks @ [s]) ?cs = index_entries ks ?cs @ [(s, handle_bytes (block_handle ?cs ?n))]"
    using index_entries_snoc len(1) by simp
  have sep': "separated C valid (ks @ [s]) (map fst bs @ [[]])"
    using sep s(1,3) len(1) last by (auto simp: separated_def nth_append less_Suc_eq simp del: not_less_eq)
  have short: "\<forall>j < Suc ?n. length ((ks @ [s]) ! j) \<le> length (fst (last (fst (bs ! j))))"
    using inv s(2) last by (auto simp: tb_inv_def nth_append less_Suc_eq)
  have built: "\<exists>xs rs. builds b xs rs \<and> map snd xs = index_entries (ks @ [s]) ?cs"
    using b(3) xs(2) ies by (intro exI [of _ "xs @ [(sh, s, handle_bytes (block_handle ?cs ?n))]"] exI [of _ rs']) simp
  have "tb_inv bs [] (ks @ [s]) (r\<lparr>tb_last_key := s, tb_index_block := b, tb_pending_index_entry := False\<rparr>)"
    using inv b(2) len sep' short built unfolding tb_inv_def by simp
  then show ?thesis using add by blast
qed

lemma add_key_filter:
  assumes "filter_state bs cur b"
  shows "filter_state bs (cur @ [(key, val)]) (map_option (AddKey key) b)"
proof (cases "o_filter_policy options")
  case None
  then show ?thesis using assms by (simp add: filter_state_def)
next
  case (Some P)
  let ?off = "word_of_nat (length (blocks_image (map snd bs))) :: u64"
  obtain fb G pend where fb: "b = Some fb" "filter_inv P (filter_blocks bs cur) fb G pend" "length G = unat (?off div kFilterBase)"
    using assms Some by (auto simp: filter_state_def)
  let ?ds = "map (\<lambda>j. (word_of_nat (block_off (map snd bs) j), map fst (fst (bs ! j)))) [0..<length bs] :: (u64 \<times> slice list) list"
  have blocks: "filter_blocks bs cur = ?ds @ [(?off, map fst cur)]" "filter_blocks bs (cur @ [(key, val)]) = ?ds @ [(?off, map fst cur @ [key])]"
    by (simp_all add: filter_blocks_def)
  have "filter_inv P (filter_blocks bs (cur @ [(key, val)])) (AddKey key fb) G (pend @ [key])"
    using fb(2,3) AddKey_built [of P fb G pend key] unfolding blocks filter_inv_def covered_def
    by (fastforce simp: key_count_def Let_def)
  then show ?thesis using fb Some by (auto simp: filter_state_def)
qed

lemma data_entry:
  assumes inv: "tb_inv bs cur ks r" and ready: "\<not> tb_pending_index_entry r"
    and sorted: "sorted_entries C valid (concat (map fst bs) @ cur @ [(key, val)])" and later: "\<forall>k \<in> set ks. Compare C k key < 0"
  shows "\<exists>b. BlockBuilder_Add (tb_data_block r) key val = Some b \<and>
    tb_inv bs (cur @ [(key, val)]) ks (r\<lparr>tb_filter_block := map_option (AddKey key) (tb_filter_block r), tb_last_key := key,
      tb_num_entries := tb_num_entries r + 1, tb_data_block := b\<rparr>)"
proof -
  obtain xs rs where xs: "builds (tb_data_block r) xs rs" "map snd xs = cur" and opts: "b_options (tb_data_block r) = options"
    using inv by (auto simp: tb_inv_def)
  have "0 < Compare C key (entry_key xs (length xs - 1))" if "xs \<noteq> []"
  proof -
    have "snd (xs ! (length xs - 1)) \<in> set cur" using that xs(2) by (metis diff_less length_greater_0_conv less_numeral_extra(1) list.set_map imageI nth_mem)
    then have "Compare C (entry_key xs (length xs - 1)) key < 0" "valid (entry_key xs (length xs - 1))" "valid key"
      using sorted by (auto simp: sorted_entries_def sorted_wrt_append)
    then show ?thesis using compare_sign by simp
  qed
  then obtain b sh rs' where b: "BlockBuilder_Add (tb_data_block r) key val = Some b" "b_options b = options"
    "builds b (xs @ [(sh, key, val)]) rs'"
    using Add_builds [OF xs(1), of key val] opts by auto
  have built: "\<exists>xs rs. builds b xs rs \<and> map snd xs = cur @ [(key, val)]"
    using b(3) xs(2) by (intro exI [of _ "xs @ [(sh, key, val)]"] exI [of _ rs']) simp
  have len: "length bs = length ks" using inv ready by (simp add: tb_inv_def)
  have "separated C valid ks (map fst bs @ [cur])" using inv by (simp add: tb_inv_def)
  then have "separated C valid ks (map fst bs @ [cur @ [(key, val)]])"
    using later len by (auto simp: separated_snoc)
  then show ?thesis
    using inv ready b built sorted add_key_filter [of bs cur "tb_filter_block r" key val] unfolding tb_inv_def by auto
qed

lemma sorted_last_less:
  assumes "sorted_entries C valid (es @ [(key, val)])" "es \<noteq> []"
  shows "Compare C (fst (last es)) key < 0" "valid (fst (last es))" "valid key"
    and "\<And>x. x \<in> set es \<Longrightarrow> Compare C (fst x) (fst (last es)) \<le> 0"
proof -
  show "Compare C (fst (last es)) key < 0" "valid (fst (last es))" "valid key"
    using assms by (auto simp: sorted_entries_def sorted_wrt_append)
  fix x
  assume x: "x \<in> set es"
  obtain ys y where es: "es = ys @ [y]" using assms(2) by (cases es rule: rev_cases) auto
  then show "Compare C (fst x) (fst (last es)) \<le> 0"
    using assms(1) x compare_refl by (auto simp: sorted_entries_def sorted_wrt_append less_imp_le)
qed

lemma keys_before_last:
  assumes inv: "tb_inv bs cur ks r" and es: "concat (map fst bs) @ cur \<noteq> []"
    and more: "tb_pending_index_entry r \<or> cur \<noteq> []" and k: "k \<in> set ks"
  shows "Compare C k (fst (last (concat (map fst bs) @ cur))) < 0" "valid k"
proof -
  obtain j where j: "j < length ks" "k = ks ! j" using k by (metis in_set_conv_nth)
  have sep: "separated C valid ks (map fst bs @ [cur])" and len: "length ks \<le> length bs"
    and blocks: "\<forall>(es, c) \<in> set bs. es \<noteq> []" using inv by (auto simp: tb_inv_def split: if_splits)
  show "valid k" using sep j by (simp add: separated_def)
  have later: "Compare C k (fst x) < 0" if "i < length (map fst bs @ [cur])" "j < i" "x \<in> set ((map fst bs @ [cur]) ! i)" for i x
    using sep j that unfolding separated_def by blast
  show "Compare C k (fst (last (concat (map fst bs) @ cur))) < 0"
  proof (cases "cur = []")
    case False
    then show ?thesis using later [of "length bs" "last cur"] j(1) len by (simp add: nth_append)
  next
    case True
    then have n: "length bs = Suc (length ks)" using inv more by (simp add: tb_inv_def)
    let ?l = "fst (bs ! length ks)"
    have "?l \<noteq> []" using blocks [rule_format, OF nth_mem [of "length ks" bs]] n by (simp add: case_prod_beta)
    moreover have "concat (map fst bs) = concat (map fst (take (length ks) bs)) @ ?l"
    proof -
      have "bs = take (length ks) bs @ [bs ! length ks]" using n by (simp flip: take_Suc_conv_app_nth)
      then have "concat (map fst bs) = concat (map fst (take (length ks) bs @ [bs ! length ks]))" by simp
      then show ?thesis by simp
    qed
    ultimately show ?thesis using later [of "length ks" "last ?l"] j(1) n True by (simp add: nth_append)
  qed
qed

lemma add_entry:
  assumes st: "stable es r" and sorted: "sorted_entries C valid (es @ [(key, val)])"
    and size: "data_bound (es @ [(key, val)]) < 2 ^ 32" "length (es @ [(key, val)]) \<le> N"
  shows "\<exists>r'. TableBuilder_Add F key val r = Some r' \<and> (failed r' \<or> stable (es @ [(key, val)]) r')"
proof -
  obtain bs cur ks where inv: "tb_inv bs cur ks r" and es: "es = concat (map fst bs) @ cur"
    and last: "es \<noteq> [] \<longrightarrow> tb_last_key r = fst (last es)" and new: "\<not> tb_pending_index_entry r \<longrightarrow> cur = [] \<longrightarrow> bs = []"
    using st unfolding stable_def by blast
  have running: "\<not> tb_closed r" "TableBuilder_ok r" "tb_options r = options" "tb_num_entries r = int (length es)"
    using inv es by (auto simp: tb_inv_def TableBuilder_ok_def status_ok_def status_OK_def)
  have order: "\<not> (tb_num_entries r > 0 \<and> \<not> Compare C key (tb_last_key r) > 0)"
  proof (cases "es = []")
    case False
    then show ?thesis
      using sorted_last_less [OF sorted False] last compare_sign [of "fst (last es)" key] by simp
  qed (use running in simp)
  obtain r1 ks1 where r1: "(if tb_pending_index_entry r then
       if \<not> BlockBuilder_empty (tb_data_block r) then None
       else do {
         last_key \<leftarrow> FindShortestSeparator C (tb_last_key r) key;
         add_index_entry last_key r
       }
     else Some r) = Some r1" "tb_inv bs cur ks1 r1" "\<not> tb_pending_index_entry r1" "\<forall>k \<in> set ks1. Compare C k key < 0"
  proof (cases "tb_pending_index_entry r")
    case False
    have "Compare C k key < 0" if "k \<in> set ks" for k
    proof -
      have "ks \<noteq> []" using that by auto
      then have ne: "cur \<noteq> []" using new False inv by (auto simp: tb_inv_def)
      then have "es \<noteq> []" using es by simp
      then show ?thesis
        using keys_before_last [OF inv _ _ that] sorted_last_less [OF sorted] ne es compare_less_trans2 [of k "fst (last es)" key]
        by simp
    qed
    then show ?thesis using that [of r ks] False inv by simp
  next
    case True
    have bs: "cur = []" "bs \<noteq> []" using inv True by (auto simp: tb_inv_def)
    have "\<forall>b \<in> set bs. fst b \<noteq> []" using inv by (auto simp: tb_inv_def)
    then have ne: "es \<noteq> []" "fst (last bs) \<noteq> []" using bs es last_in_set [OF bs(2)] by (cases bs; auto)+
    have last_eq: "last es = last (fst (last bs))"
      using bs ne(2) es by (cases bs rule: rev_cases) auto
    note less = sorted_last_less [OF sorted ne(1)]
    obtain s where s: "FindShortestSeparator C (fst (last es)) key = Some s" "valid s" "Compare C (fst (last es)) s \<le> 0" "Compare C s key < 0"
      using separator [OF less(2,3,1)] by blast
    have small: "data_bound (concat (map fst bs)) < 2 ^ 32" using size(1) es bs(1) by simp
    have "length s \<le> length (fst (last (fst (last bs))))" using short_keys(1) [OF s(1)] last_eq by simp
    moreover have "\<forall>x \<in> set (fst (last bs)). Compare C (fst x) s \<le> 0"
    proof
      fix x
      assume x: "x \<in> set (fst (last bs))"
      then have "x \<in> set es" using es bs by (cases bs rule: rev_cases) auto
      moreover from this have "valid (fst x)" using sorted by (auto simp: sorted_entries_def)
      ultimately show "Compare C (fst x) s \<le> 0" using compare_trans [OF _ less(2) s(2)] less(4) s(3) by blast
    qed
    ultimately obtain b where b: "add_index_entry s r = Some (r\<lparr>tb_last_key := s, tb_index_block := b, tb_pending_index_entry := False\<rparr>)"
      "tb_inv bs [] (ks @ [s]) (r\<lparr>tb_last_key := s, tb_index_block := b, tb_pending_index_entry := False\<rparr>)"
      using index_entry [OF _ True small s(2)] inv bs(1) by blast
    have empty: "BlockBuilder_empty (tb_data_block r)"
    proof -
      obtain xs rs where "builds (tb_data_block r) xs rs" "map snd xs = []" using inv bs(1) by (auto simp: tb_inv_def)
      then show ?thesis by (simp add: BlockBuilder_empty_def builds_def entries_bytes_Nil)
    qed
    have "Compare C k key < 0" if k: "k \<in> set (ks @ [s])" for k
    proof (cases "k = s")
      case False
      then have "k \<in> set ks" using k by simp
      then have "Compare C k (fst (last es)) < 0" "valid k" using keys_before_last [OF inv] es ne(1) True by simp_all
      then show ?thesis using compare_less_trans2 [OF _ less(2,3)] less(1) by simp
    qed (use s(4) in simp)
    then show ?thesis using that [OF _ b(2) [folded bs(1)]] b(1) empty True s(1) last ne(1) by simp
  qed
  have sorted': "sorted_entries C valid (concat (map fst bs) @ cur @ [(key, val)])" using sorted es by simp
  obtain b where b: "BlockBuilder_Add (tb_data_block r1) key val = Some b"
    "tb_inv bs (cur @ [(key, val)]) ks1 (r1\<lparr>tb_filter_block := map_option (AddKey key) (tb_filter_block r1), tb_last_key := key,
      tb_num_entries := tb_num_entries r1 + 1, tb_data_block := b\<rparr>)"
    using data_entry [OF r1(2,3) sorted' r1(4)] by blast
  let ?r2 = "r1\<lparr>tb_filter_block := map_option (AddKey key) (tb_filter_block r1), tb_last_key := key,
      tb_num_entries := tb_num_entries r1 + 1, tb_data_block := b\<rparr>"
  have opt1: "tb_options r1 = options" using r1(2) by (simp add: tb_inv_def)
  have add: "TableBuilder_Add F key val r =
      (if BlockBuilder_CurrentSizeEstimate b \<ge> block_size options then TableBuilder_Flush F ?r2 else Some ?r2)"
  proof -
    have no: "\<not> \<not> TableBuilder_ok r" using running(2) by simp
    show ?thesis
      unfolding TableBuilder_Add_def running(3) if_not_P [OF running(1)] if_not_P [OF no] if_not_P [OF order] r1(1)
      by (simp add: b(1) opt1 Let_def)
  qed
  show ?thesis
  proof (cases "BlockBuilder_CurrentSizeEstimate b \<ge> block_size options")
    case False
    have "stable (es @ [(key, val)]) ?r2" unfolding stable_def using b(2) es by (intro exI [of _ bs] exI [of _ "cur @ [(key, val)]"] exI [of _ ks1]) simp
    then show ?thesis using add False by simp
  next
    case True
    obtain r' where r': "TableBuilder_Flush F ?r2 = Some r'" "tb_last_key r' = key"
      "failed r' \<or> (\<exists>c. tb_inv (bs @ [(cur @ [(key, val)], c)]) [] ks1 r' \<and> tb_pending_index_entry r')"
      using flush_block [OF b(2)] size es by auto
    have "stable (es @ [(key, val)]) r'" if "tb_inv (bs @ [(cur @ [(key, val)], c)]) [] ks1 r'" "tb_pending_index_entry r'" for c
      unfolding stable_def using that r'(2) es
      by (intro exI [of _ "bs @ [(cur @ [(key, val)], c)]"] exI [of _ "[]"] exI [of _ ks1]) simp
    then show ?thesis using add True r' by auto
  qed
qed

end

end
