(* ===== verification/LDB_Table_Write.thy ===== *)
theory LDB_Table_Write
  imports LDB_TableBuilder_Props
begin

text \<open>
  LevelDB: a table builder that is given sorted entries and finished leaves a file in the table format.
\<close>

section \<open>From the constructor through the entries\<close>

text \<open>The client: \<open>BuildTable\<close> of \<open>db/builder.cc\<close> passes the entries of an iterator like this.\<close>

fun add_table_entries :: "'f writable_ops \<Rightarrow> entries \<Rightarrow> 'f TableBuilder \<Rightarrow> 'f TableBuilder option" where
  "add_table_entries F [] r = Some r"
| "add_table_entries F ((k, v) # es) r = do { r \<leftarrow> TableBuilder_Add F k v r; add_table_entries F es r }"

definition build_table :: "'f writable_ops \<Rightarrow> Options \<Rightarrow> 'f \<Rightarrow> entries \<Rightarrow> (Status \<times> 'f TableBuilder) option" where
  "build_table F options f es = do {
     r \<leftarrow> TableBuilder_new options f;
     r \<leftarrow> add_table_entries F es r;
     TableBuilder_Finish F r
   }"

context table_build
begin

lemma new_stable:
  assumes "good f" "contents f = []"
  shows "\<exists>r. TableBuilder_new options f = Some r \<and> stable [] r"
proof -
  obtain b where b: "BlockBuilder_new options = Some b" "b_options b = options" "builds b [] [0]"
    using BlockBuilder_new_builds [OF interval] by blast
  have idx: "builds (b\<lparr>b_options := options\<lparr>block_restart_interval := 1\<rparr>\<rparr>) [] [0]"
    using b(3) by (simp add: builds_def)
  obtain fb where fb: "(case o_filter_policy options of None \<Rightarrow> Some None
       | Some policy \<Rightarrow> map_option Some (StartBlock 0 (FilterBlockBuilder_new policy))) = Some fb" "filter_state [] [] fb"
  proof (cases "o_filter_policy options")
    case None
    then show ?thesis using that [of None] by (simp add: filter_state_def)
  next
    case (Some P)
    obtain small where small: "filter_policy P small" "\<forall>ks. length ks \<le> N \<longrightarrow> small ks" using policy [OF Some] by blast
    have "filter_inv P [] (FilterBlockBuilder_new P) [] []"
      by (simp add: filter_inv_def filter_built_def FilterBlockBuilder_new_def covered_def filter_offsets_def)
    then obtain fb G pend where fb: "add_block (FilterBlockBuilder_new P) (0, []) = Some fb"
      "filter_inv P ([] @ [(0, [])]) fb G pend" "length G = unat ((0 :: u64) div kFilterBase)"
      using filter_policy.add_block_inv [OF small(1), of "[]" "FilterBlockBuilder_new P" "[]" "[]" 0 "[]"] small(2)
      by (auto simp: key_count_def)
    have "filter_state [] [] (Some fb)" using fb(2,3) Some by (auto simp: filter_state_def filter_blocks_def)
    then show ?thesis using that [of "Some fb"] fb(1) Some by (simp add: option.map_id)
  qed
  let ?r = "\<lparr>tb_options = options, tb_index_block_options = options\<lparr>block_restart_interval := 1\<rparr>, tb_file = f, tb_offset = 0,
       tb_status = status_OK, tb_data_block = b, tb_index_block = b\<lparr>b_options := options\<lparr>block_restart_interval := 1\<rparr>\<rparr>,
       tb_last_key = [], tb_num_entries = 0, tb_closed = False, tb_filter_block = fb, tb_pending_index_entry = False,
       tb_pending_handle = BlockHandle_new, tb_compressed_output = []\<rparr>"
  have "tb_inv [] [] [] ?r"
    using assms b(2,3) idx fb(2)
    by (auto simp: tb_inv_def index_entries_def sorted_entries_def separated_def)
  then have "stable [] ?r" unfolding stable_def by (intro exI [of _ "[]"]) simp
  moreover have "TableBuilder_new options f = Some ?r" using b(1) fb(1) by (simp add: TableBuilder_new_def Let_def)
  ultimately show ?thesis by blast
qed

lemma failed_add: "failed r \<Longrightarrow> TableBuilder_Add F k v r = Some r"
  by (simp add: failed_def TableBuilder_Add_def TableBuilder_ok_def)

lemma failed_entries: "failed r \<Longrightarrow> add_table_entries F es r = Some r"
  by (induction es) (auto simp: failed_add)

lemma sorted_entries_append: "sorted_entries C valid (es @ fs) \<Longrightarrow> sorted_entries C valid es"
  by (simp add: sorted_entries_def sorted_wrt_append)

lemma add_entries_stable:
  assumes "stable es r" "sorted_entries C valid (es @ fs)" "data_bound (es @ fs) < 2 ^ 32" "length (es @ fs) \<le> N"
  shows "\<exists>r'. add_table_entries F fs r = Some r' \<and> (failed r' \<or> stable (es @ fs) r')"
  using assms
proof (induction fs arbitrary: es r)
  case (Cons e fs)
  obtain k v where e: "e = (k, v)" by (cases e)
  have "sorted_entries C valid (es @ [(k, v)])" using sorted_entries_append [of "es @ [(k, v)]" fs] Cons.prems(2) e by simp
  then obtain r1 where r1: "TableBuilder_Add F k v r = Some r1" "failed r1 \<or> stable (es @ [(k, v)]) r1"
    using add_entry [OF Cons.prems(1), of k v] Cons.prems(3,4) e by auto
  from r1(2) show ?case
  proof
    assume "failed r1"
    then show ?thesis using r1(1) e failed_entries by auto
  next
    assume "stable (es @ [(k, v)]) r1"
    from Cons.IH [OF this] Cons.prems(2-4) e r1(1) show ?thesis by auto
  qed
qed simp

section \<open>Finishing\<close>

lemma finish_flush:
  assumes st: "stable es r" and size: "data_bound es < 2 ^ 32" "length es \<le> N"
  shows "\<exists>r'. TableBuilder_Flush F r = Some r' \<and> (failed r' \<or> (\<exists>bs ks. tb_inv bs [] ks r' \<and> es = concat (map fst bs) \<and>
    (es \<noteq> [] \<longrightarrow> tb_last_key r' = fst (last es)) \<and> (tb_pending_index_entry r' \<or> bs = [])))"
proof -
  obtain bs cur ks where inv: "tb_inv bs cur ks r" and es: "es = concat (map fst bs) @ cur"
    and last: "es \<noteq> [] \<longrightarrow> tb_last_key r = fst (last es)" and new: "\<not> tb_pending_index_entry r \<longrightarrow> cur = [] \<longrightarrow> bs = []"
    using st unfolding stable_def by blast
  show ?thesis
  proof (cases "cur = []")
    case True
    obtain xs rs where "builds (tb_data_block r) xs rs" "map snd xs = []" using inv True by (auto simp: tb_inv_def)
    then have "BlockBuilder_empty (tb_data_block r)" by (simp add: BlockBuilder_empty_def builds_def entries_bytes_Nil)
    then have "TableBuilder_Flush F r = Some r" using inv by (simp add: TableBuilder_Flush_def tb_inv_def)
    then show ?thesis using inv es last new True by auto
  next
    case False
    obtain r' where r': "TableBuilder_Flush F r = Some r'" "tb_last_key r' = tb_last_key r"
      "failed r' \<or> (\<exists>c. tb_inv (bs @ [(cur, c)]) [] ks r' \<and> tb_pending_index_entry r')"
      using flush_block [OF inv False] size es by auto
    have "es = concat (map fst (bs @ [(cur, c)]))" for c :: slice using es by simp
    then show ?thesis using r' last by metis
  qed
qed

text \<open>What has been written: the file, the offset, no error.\<close>

definition written :: "u8 list \<Rightarrow> 'f TableBuilder \<Rightarrow> bool" where
  "written bytes r \<longleftrightarrow> good (tb_file r) \<and> contents (tb_file r) = bytes \<and> tb_offset r = word_of_nat (length bytes) \<and>
     TableBuilder_ok r \<and> tb_options r = options"

definition handle_of :: "u8 list \<Rightarrow> slice \<Rightarrow> BlockHandle" where
  "handle_of bytes c = \<lparr>bh_offset = word_of_nat (length bytes), bh_size = word_of_nat (length c)\<rparr>"

lemma raw_written:
  assumes "written bytes r"
  shows "\<exists>s f off. WriteRawBlock F c kNoCompression r = Some (handle_of bytes c, r\<lparr>tb_status := s, tb_file := f, tb_offset := off\<rparr>) \<and>
    good f \<and> (status_ok s \<longrightarrow> written (bytes @ block_image kNoCompression c) (r\<lparr>tb_status := s, tb_file := f, tb_offset := off\<rparr>))"
proof -
  have w: "good (tb_file r)" "contents (tb_file r) = bytes" "tb_offset r = word_of_nat (length bytes)" "tb_options r = options"
    using assms by (simp_all add: written_def)
  from raw_block [OF w(1), of c kNoCompression] show ?thesis
    using w by (auto simp: written_def handle_of_def TableBuilder_ok_def algebra_simps split: if_splits)
qed

lemma block_written:
  assumes "written bytes r" "builds b xs rs"
  shows "\<exists>s f off. WriteBlock F b r = Some (handle_of bytes (block_bytes xs rs), BlockBuilder_Reset b,
      r\<lparr>tb_status := s, tb_file := f, tb_offset := off, tb_compressed_output := []\<rparr>) \<and> good f \<and>
    (status_ok s \<longrightarrow> written (bytes @ block_image kNoCompression (block_bytes xs rs))
      (r\<lparr>tb_status := s, tb_file := f, tb_offset := off, tb_compressed_output := []\<rparr>))"
proof -
  have w: "good (tb_file r)" "contents (tb_file r) = bytes" "tb_offset r = word_of_nat (length bytes)" "tb_options r = options"
    "status_ok (tb_status r)"
    using assms by (simp_all add: written_def TableBuilder_ok_def)
  from write_block [OF w(1,5,4) assms(2)] show ?thesis
    using w by (auto simp: written_def handle_of_def TableBuilder_ok_def algebra_simps split: if_splits)
qed

lemma handle_of_ok: "length bytes < 2 ^ 63 \<Longrightarrow> length c < 2 ^ 63 \<Longrightarrow> handle_ok (handle_of bytes c)"
  by (simp only: handle_ok_def handle_of_def BlockHandle.select_convs small_not_max not_False_eq_True simp_thms)

lemma stored_written:
  assumes "length (bytes @ block_image kNoCompression c) < 2 ^ 63"
  shows "stored_at (bytes @ block_image kNoCompression c @ rest) (handle_of bytes c) kNoCompression c"
  unfolding stored_at_def handle_of_def using assms
  by (intro exI [of _ bytes] exI [of _ rest]) (simp add: unat_of_nat_64)

section \<open>The filter block\<close>

lemma length_filters: "\<forall>g \<in> set G. length (one_filter P g) \<le> b \<Longrightarrow> length (filters P G) \<le> length G * b"
  by (induction G) auto

lemma filter_written:
  assumes state: "filter_state bs [] b" and fb: "b = Some fb" "o_filter_policy options = Some P"
    and size: "data_bound (concat (map fst bs)) < 2 ^ 32" "length (concat (map fst bs)) \<le> N"
      "\<forall>(es, c) \<in> set bs. length c + 5 \<le> data_bound es"
    and total: "(data_bound (concat (map fst bs)) div 2048 + 2) * (B + 4) + 5 < 2 ^ 32"
  shows "filter_complete P bs (fst (FilterBlock_Finish fb))"
    and "length (fst (FilterBlock_Finish fb)) \<le> (data_bound (concat (map fst bs)) div 2048 + 2) * (B + 4) + 5"
proof -
  let ?img = "blocks_image (map snd bs)"
  obtain G pend where inv: "filter_inv P (filter_blocks bs []) fb G pend" "length G = unat (word_of_nat (length ?img) div kFilterBase)"
    using state fb by (auto simp: filter_state_def)
  obtain small where small: "filter_policy P small" "\<forall>ks. length ks \<le> N \<longrightarrow> small ks" using policy [OF fb(2)] by blast
  have small': "length ks \<le> key_count (filter_blocks bs []) \<Longrightarrow> small ks" for ks
    using small(2) size(2) key_count_blocks [of bs "[]"] by simp
  let ?H = "all_groups G pend"
  have fin: "fst (FilterBlock_Finish fb) = filter_contents P ?H"
    by (rule filter_inv_finish(1) [OF small(1) inv(1)]) (rule small')
  have found: "FilterBlock_KeyMayMatch (FilterBlockReader_new P (filter_contents P ?H)) off key = Some True"
    if "length (filter_contents P ?H) < 2 ^ 32" "(off, keys) \<in> set (filter_blocks bs [])" "key \<in> set keys" for off keys key
    by (rule filter_inv_finish(2) [OF small(1) inv(1) _ that]) (rule small')
  have img: "length ?img \<le> data_bound (concat (map fst bs))" by (rule image_bound [OF size(3)])
  have G: "length ?H \<le> data_bound (concat (map fst bs)) div 2048 + 1"
  proof -
    have "unat (word_of_nat (length ?img) div kFilterBase) = length ?img div 2048"
      using img size(1) by (simp add: unat_div kFilterBase_def kFilterBaseLg_def unat_of_nat_64)
    then have "length G \<le> data_bound (concat (map fst bs)) div 2048" using inv(2) img by (simp add: div_le_mono)
    then show ?thesis by (simp add: all_groups_def)
  qed
  have "length g \<le> N" if "g \<in> set ?H" for g
  proof -
    have "length g \<le> key_count (filter_blocks bs [])" using that inv(1) by (auto simp: filter_inv_def all_groups_def split: if_splits)
    then show ?thesis using size(2) key_count_blocks [of bs "[]"] by simp
  qed
  then have "\<forall>g \<in> set ?H. length (one_filter P g) \<le> B"
    using options_ok fb(2) by (auto simp: table_options_ok_def one_filter_def)
  then have "length (filters P ?H) \<le> length ?H * B" by (rule length_filters)
  then have "length (filter_contents P ?H) \<le> length ?H * (B + 4) + 5" by (simp add: filter_contents_def algebra_simps)
  also have "\<dots> \<le> (data_bound (concat (map fst bs)) div 2048 + 1) * (B + 4) + 5" using G by (intro add_mono mult_le_mono1) simp_all
  finally have len: "length (filter_contents P ?H) \<le> (data_bound (concat (map fst bs)) div 2048 + 1) * (B + 4) + 5" .
  then show "length (fst (FilterBlock_Finish fb)) \<le> (data_bound (concat (map fst bs)) div 2048 + 2) * (B + 4) + 5"
    unfolding fin by (simp add: algebra_simps)
  have small32: "length (filter_contents P ?H) < 2 ^ 32" using len total by (simp add: algebra_simps)
  show "filter_complete P bs (fst (FilterBlock_Finish fb))"
    unfolding filter_complete_def fin
  proof (intro allI impI ballI)
    fix j x
    assume j: "j < length bs" "x \<in> set (fst (bs ! j))"
    have "(word_of_nat (block_off (map snd bs) j), map fst (fst (bs ! j))) \<in> set (filter_blocks bs [])"
      using j(1) by (auto simp: filter_blocks_def)
    then show "FilterBlock_KeyMayMatch (FilterBlockReader_new P (filter_contents P ?H)) (word_of_nat (block_off (map snd bs) j)) (fst x) = Some True"
      using found [OF small32] j(2) by auto
  qed
qed

section \<open>The metaindex block\<close>

definition meta_entries :: "BlockHandle \<Rightarrow> entries" where
  "meta_entries h = (case o_filter_policy options of None \<Rightarrow> [] | Some P \<Rightarrow> [(filter_key P, handle_bytes h)])"

lemma meta_written:
  assumes w: "written bytes r" and fb: "tb_filter_block r = None \<longleftrightarrow> o_filter_policy options = None"
    and h: "o_filter_policy options \<noteq> None \<Longrightarrow> handle_ok h" and size: "block_bound (meta_entries h) < 2 ^ 32"
  shows "\<exists>mc s f off. write_metaindex_block F h r = Some (handle_of bytes mc,
      r\<lparr>tb_status := s, tb_file := f, tb_offset := off, tb_compressed_output := []\<rparr>) \<and> good f \<and>
    block_of (meta_entries h) mc \<and> length mc \<le> block_bound (meta_entries h) \<and>
    (status_ok s \<longrightarrow> written (bytes @ block_image kNoCompression mc)
      (r\<lparr>tb_status := s, tb_file := f, tb_offset := off, tb_compressed_output := []\<rparr>))"
proof -
  have ok: "TableBuilder_ok r" "tb_options r = options" using w by (simp_all add: written_def)
  obtain b where b: "BlockBuilder_new options = Some b" "b_options b = options" "builds b [] [0]"
    using BlockBuilder_new_builds [OF interval] by blast
  obtain b' xs rs where b': "(case (tb_filter_block r, o_filter_policy options) of (None, _) \<Rightarrow> Some b
      | (Some _, None) \<Rightarrow> None
      | (Some _, Some policy) \<Rightarrow> do {
          handle_encoding \<leftarrow> BlockHandle_EncodeTo [] h;
          BlockBuilder_Add b (chars ''filter.'' @ fp_Name policy) handle_encoding
        }) = Some b'" "builds b' xs rs" "map snd xs = meta_entries h"
  proof (cases "o_filter_policy options")
    case None
    then show ?thesis using that b(3) fb by (simp add: meta_entries_def)
  next
    case (Some P)
    obtain c where c: "tb_filter_block r = Some c" using fb Some by auto
    obtain b1 sh rs where b1: "BlockBuilder_Add b (filter_key P) (handle_bytes h) = Some b1" "builds b1 ([] @ [(sh, filter_key P, handle_bytes h)]) rs"
      using Add_builds [OF b(3), of "filter_key P" "handle_bytes h"] by auto
    have enc: "BlockHandle_EncodeTo [] h = Some (handle_bytes h)" using handle_encode [of h "[]"] h Some by simp
    show ?thesis
      by (rule that [of b1 "[(sh, filter_key P, handle_bytes h)]" rs])
        (use b1 c Some enc in \<open>simp_all add: meta_entries_def filter_key_def\<close>)
  qed
  have block: "block_of (meta_entries h) (block_bytes xs rs)" "length (block_bytes xs rs) \<le> block_bound (meta_entries h)"
    using builds_block [OF b'(2)] size b'(3) by simp_all
  obtain s f off where wr: "WriteBlock F b' r = Some (handle_of bytes (block_bytes xs rs), BlockBuilder_Reset b',
      r\<lparr>tb_status := s, tb_file := f, tb_offset := off, tb_compressed_output := []\<rparr>)" "good f"
    "status_ok s \<longrightarrow> written (bytes @ block_image kNoCompression (block_bytes xs rs))
      (r\<lparr>tb_status := s, tb_file := f, tb_offset := off, tb_compressed_output := []\<rparr>)"
    using block_written [OF w b'(2)] by blast
  have "write_metaindex_block F h r = Some (handle_of bytes (block_bytes xs rs),
      r\<lparr>tb_status := s, tb_file := f, tb_offset := off, tb_compressed_output := []\<rparr>)"
    using ok b(1) wr(1) b'(1) unfolding write_metaindex_block_def by simp
  then show ?thesis using wr(2,3) block by blast
qed

section \<open>The index block\<close>

lemma index_sorted:
  assumes sep: "separated C valid ks (map fst bs)" and len: "length ks = length bs"
    and blocks: "\<forall>b \<in> set bs. fst b \<noteq> []" and sorted: "sorted_entries C valid (concat (map fst bs))"
  shows "sorted_entries C valid (index_entries ks cs)"
proof -
  have "Compare C (ks ! i) (ks ! j) < 0" if "i < j" "j < length ks" for i j
  proof -
    have "fst (bs ! j) \<noteq> []" using blocks that len by simp
    then obtain x where x: "x \<in> set (fst (bs ! j))" by (cases "fst (bs ! j)") auto
    have "Compare C (ks ! i) (fst x) < 0" using separatedD(1) [OF sep, of i j x] that x len by simp
    moreover have "Compare C (fst x) (ks ! j) \<le> 0" using sep that x len by (simp add: separated_def)
    moreover have "bs ! j \<in> set bs" using that len by simp
    then have "valid (fst x)" using sorted x by (auto simp: sorted_entries_def)
    ultimately show ?thesis using compare_less_trans2 [of "ks ! i" "fst x" "ks ! j"] separatedD(2) [OF sep] that by simp
  qed
  then show ?thesis
    using separatedD(2) [OF sep] by (auto simp: sorted_entries_def index_entries_def sorted_wrt_iff_nth_less)
qed

lemma index_bound_ks:
  assumes "length ks = length bs" "\<forall>j < length ks. length (ks ! j) \<le> length (fst (last (fst (bs ! j))))" "\<forall>b \<in> set bs. fst b \<noteq> []"
  shows "block_bound (index_entries ks cs) + 5 \<le> index_bound (concat (map fst bs))"
proof -
  have keys: "length (ks ! j) + 39 \<le> sum_list (map (\<lambda>(k, v). length k + 39) (fst (bs ! j)))" if "j < length bs" for j
  proof -
    have "fst (bs ! j) \<noteq> []" using assms(3) that by simp
    then obtain ys y where y: "fst (bs ! j) = ys @ [y]" by (cases "fst (bs ! j)" rule: rev_cases) auto
    moreover have "length (ks ! j) \<le> length (fst (last (fst (bs ! j))))" using assms(1,2) that by simp
    ultimately show ?thesis by (simp add: case_prod_beta trans_le_add2)
  qed
  have "sum_list (map (\<lambda>j. length (ks ! j) + 39) [0..<length bs]) \<le>
      sum_list (map (\<lambda>j. sum_list (map (\<lambda>(k, v). length k + 39) (fst (bs ! j)))) [0..<length bs])"
    using keys by (intro sum_list_mono) simp
  moreover have "map (\<lambda>j. sum_list (map (\<lambda>(k, v). length k + 39) (fst (bs ! j)))) [0..<length bs] =
      map (\<lambda>b. sum_list (map (\<lambda>(k, v). length k + 39) (fst b))) bs"
    by (rule nth_equalityI) simp_all
  moreover have "sum_list (map (\<lambda>b. sum_list (map (\<lambda>(k, v). length k + 39) (fst b))) bs) =
      sum_list (map (\<lambda>(k, v). length k + 39) (concat (map fst bs)))"
    by (induction bs) simp_all
  moreover have "sum_list (map (\<lambda>(k, v). length k + length v + 19) (index_entries ks cs)) \<le>
      sum_list (map (\<lambda>j. length (ks ! j) + 39) [0..<length bs])"
    unfolding index_entries_def assms(1) map_map comp_def prod.case
    by (rule sum_list_mono) (use length_handle_bytes in \<open>simp add: algebra_simps\<close>)
  ultimately show ?thesis by (simp add: block_bound_def index_bound_def)
qed

lemma add_index_same:
  assumes "add_index_entry s r0 = Some (r0\<lparr>tb_last_key := s, tb_index_block := b, tb_pending_index_entry := False\<rparr>)"
    and "tb_index_block r = tb_index_block r0" "tb_pending_handle r = tb_pending_handle r0"
  shows "add_index_entry s r = Some (r\<lparr>tb_last_key := s, tb_index_block := b, tb_pending_index_entry := False\<rparr>)"
proof -
  obtain e b' where e: "BlockHandle_EncodeTo [] (tb_pending_handle r0) = Some e" "BlockBuilder_Add (tb_index_block r0) s e = Some b'"
    using assms(1) by (auto simp: add_index_entry_def Option.bind_eq_Some_conv)
  then have "r0\<lparr>tb_last_key := s, tb_index_block := b', tb_pending_index_entry := False\<rparr> =
      r0\<lparr>tb_last_key := s, tb_index_block := b, tb_pending_index_entry := False\<rparr>" using assms(1) by (simp add: add_index_entry_def)
  from arg_cong [OF this, of tb_index_block] have "b' = b" by simp
  then show ?thesis using e assms(2,3) by (simp add: add_index_entry_def)
qed

lemma index_written:
  assumes inv: "tb_inv bs [] ks r0" and es: "es = concat (map fst bs)" "es \<noteq> [] \<longrightarrow> tb_last_key r0 = fst (last es)"
    and pending: "tb_pending_index_entry r0 \<or> bs = []"
    and same: "tb_index_block r = tb_index_block r0" "tb_pending_handle r = tb_pending_handle r0" "tb_last_key r = tb_last_key r0"
      "tb_pending_index_entry r = tb_pending_index_entry r0"
    and w: "written bytes r" and size: "data_bound es < 2 ^ 32" "index_bound es < 2 ^ 32"
  shows "\<exists>ks' ic r'. write_index_block F r = Some (handle_of bytes ic, r') \<and> length ks' = length bs \<and>
    separated C valid ks' (map fst bs) \<and> sorted_entries C valid (index_entries ks' (map snd bs)) \<and>
    block_of (index_entries ks' (map snd bs)) ic \<and> length ic + 5 \<le> index_bound es \<and> good (tb_file r') \<and>
    (TableBuilder_ok r' \<longrightarrow> written (bytes @ block_image kNoCompression ic) r')"
proof -
  have ok: "TableBuilder_ok r" "tb_options r = options" using w by (simp_all add: written_def)
  have blocks: "\<forall>b \<in> set bs. fst b \<noteq> []" and sorted: "sorted_entries C valid (concat (map fst bs))"
    using inv by (auto simp: tb_inv_def)
  obtain ks' r1 where r1: "(if tb_pending_index_entry r then do {
       last_key \<leftarrow> FindShortSuccessor C (tb_last_key r);
       add_index_entry last_key r
     } else Some r) = Some r1" "length ks' = length bs" "separated C valid ks' (map fst bs)"
    "\<exists>xs rs. builds (tb_index_block r1) xs rs \<and> map snd xs = index_entries ks' (map snd bs)" "written bytes r1"
    "\<forall>j < length ks'. length (ks' ! j) \<le> length (fst (last (fst (bs ! j))))"
  proof (cases "tb_pending_index_entry r0")
    case False
    then have "bs = []" "ks = []" using pending inv by (auto simp: tb_inv_def)
    moreover from this have "separated C valid ks (map fst bs)" by (simp add: separated_def)
    ultimately show ?thesis using that [of r ks] False inv same w by (simp add: tb_inv_def)
  next
    case True
    then have bs: "bs \<noteq> []" using inv by (auto simp: tb_inv_def)
    have ne: "fst (last bs) \<noteq> []" using blocks bs by simp
    then have es_ne: "es \<noteq> []" and last_eq: "last es = last (fst (last bs))"
      using es(1) bs by (cases bs rule: rev_cases; auto)+
    have last_valid: "valid (fst (last es))" using sorted last_in_set [OF es_ne] es(1) by (simp add: sorted_entries_def del: set_concat)
    obtain s where s: "FindShortSuccessor C (fst (last es)) = Some s" "valid s" "Compare C (fst (last es)) s \<le> 0"
      using successor [OF last_valid] by blast
    have le: "\<forall>x \<in> set (fst (last bs)). Compare C (fst x) s \<le> 0"
    proof
      fix x
      assume x: "x \<in> set (fst (last bs))"
      then have xe: "x \<in> set es" using es bs by (cases bs rule: rev_cases) auto
      obtain ys y where ys: "es = ys @ [y]" using es_ne by (cases es rule: rev_cases) auto
      have "Compare C (fst x) (fst (last es)) \<le> 0"
        using sorted xe compare_refl unfolding es(1) [symmetric] ys by (auto simp: sorted_entries_def sorted_wrt_append less_imp_le)
      moreover have "valid (fst x)" using sorted xe es(1) by (auto simp: sorted_entries_def)
      ultimately show "Compare C (fst x) s \<le> 0" using compare_trans [OF _ last_valid s(2)] s(3) by blast
    qed
    obtain b where b: "add_index_entry s r0 = Some (r0\<lparr>tb_last_key := s, tb_index_block := b, tb_pending_index_entry := False\<rparr>)"
      "tb_inv bs [] (ks @ [s]) (r0\<lparr>tb_last_key := s, tb_index_block := b, tb_pending_index_entry := False\<rparr>)"
      using index_entry [OF inv True _ s(2) _ le] size(1) es(1) short_keys(2) [OF s(1)] last_eq by auto
    let ?r1 = "r\<lparr>tb_last_key := s, tb_index_block := b, tb_pending_index_entry := False\<rparr>"
    have add: "add_index_entry s r = Some ?r1" by (rule add_index_same [OF b(1) same(1,2)])
    have sep: "separated C valid (ks @ [s]) (map fst bs @ [[]])" and lks: "length (ks @ [s]) = length bs"
      and short: "\<forall>j < length (ks @ [s]). length ((ks @ [s]) ! j) \<le> length (fst (last (fst (bs ! j))))"
      and built: "\<exists>xs rs. builds b xs rs \<and> map snd xs = index_entries (ks @ [s]) (map snd bs)"
      using b(2) inv True unfolding tb_inv_def by auto
    have "separated C valid (ks @ [s]) (map fst bs)" using sep lks separated_snoc [of "ks @ [s]" "map fst bs" "[]"] by simp
    moreover have "written bytes ?r1" using w by (simp add: written_def TableBuilder_ok_def)
    moreover have "tb_index_block ?r1 = b" by simp
    moreover have "(if tb_pending_index_entry r then do {
         last_key \<leftarrow> FindShortSuccessor C (tb_last_key r);
         add_index_entry last_key r
       } else Some r) = Some ?r1" using True same(3,4) es(2) es_ne s(1) add by simp
    ultimately show ?thesis using that [of ?r1 "ks @ [s]"] lks short built by metis
  qed
  obtain xs rs where xs: "builds (tb_index_block r1) xs rs" "map snd xs = index_entries ks' (map snd bs)" using r1(4) by blast
  have bound: "block_bound (map snd xs) + 5 \<le> index_bound es"
    unfolding xs(2) es(1) by (rule index_bound_ks [OF r1(2) r1(6) blocks])
  then have block: "block_of (index_entries ks' (map snd bs)) (block_bytes xs rs)" "length (block_bytes xs rs) + 5 \<le> index_bound es"
    using builds_block [OF xs(1)] size(2) xs(2) by simp_all
  obtain s f off where wr: "WriteBlock F (tb_index_block r1) r1 = Some (handle_of bytes (block_bytes xs rs), BlockBuilder_Reset (tb_index_block r1),
      r1\<lparr>tb_status := s, tb_file := f, tb_offset := off, tb_compressed_output := []\<rparr>)" "good f"
    "status_ok s \<longrightarrow> written (bytes @ block_image kNoCompression (block_bytes xs rs))
      (r1\<lparr>tb_status := s, tb_file := f, tb_offset := off, tb_compressed_output := []\<rparr>)"
    using block_written [OF r1(5) xs(1)] by blast
  let ?r' = "r1\<lparr>tb_status := s, tb_file := f, tb_offset := off, tb_compressed_output := [],
      tb_index_block := BlockBuilder_Reset (tb_index_block r1)\<rparr>"
  have no: "\<not> \<not> TableBuilder_ok r" using ok by simp
  have "write_index_block F r = Some (handle_of bytes (block_bytes xs rs), ?r')"
    unfolding write_index_block_def if_not_P [OF no] ok(2) r1(1) by (simp add: wr(1))
  moreover have "TableBuilder_ok ?r' \<longrightarrow> written (bytes @ block_image kNoCompression (block_bytes xs rs)) ?r'"
    using wr(3) by (simp add: written_def TableBuilder_ok_def)
  ultimately show ?thesis
    using r1(2,3) block wr(2) index_sorted [OF r1(3,2) blocks sorted, of "map snd bs"]
    by (intro exI [of _ ks'] exI [of _ "block_bytes xs rs"] exI [of _ ?r']) simp
qed

section \<open>The whole file\<close>

lemma skip_blocks:
  assumes "\<not> TableBuilder_ok r"
  shows "write_metaindex_block F h r = Some (BlockHandle_new, r)" "write_index_block F r = Some (BlockHandle_new, r)"
    "write_footer F hm hi r = Some r"
  using assms by (simp_all add: write_metaindex_block_def write_index_block_def write_footer_def)

lemma footer_written:
  assumes "written bytes r" "handle_ok hm" "handle_ok hi"
  shows "\<exists>r'. write_footer F hm hi r = Some r' \<and> (TableBuilder_ok r' \<longrightarrow>
    contents (tb_file r') = bytes @ footer_bytes \<lparr>metaindex_handle = hm, index_handle = hi\<rparr>) \<and> good (tb_file r')"
proof -
  let ?f = "footer_bytes \<lparr>metaindex_handle = hm, index_handle = hi\<rparr>"
  obtain s f where a: "tb_append F ?f r = Some (r\<lparr>tb_status := s, tb_file := f\<rparr>)" "good f"
    "status_ok s \<longrightarrow> contents f = contents (tb_file r) @ ?f"
    using append_file [of r ?f] assms(1) unfolding written_def by blast
  have "TableBuilder_ok r" using assms(1) by (simp add: written_def)
  then show ?thesis
    using a footer_encode [of "\<lparr>metaindex_handle = hm, index_handle = hi\<rparr>"] assms
    by (simp add: write_footer_def TableBuilder_ok_def written_def)
qed

text \<open>The three blocks of the frame and the footer, behind the data and the filter.\<close>

lemma frame_written:
  assumes inv: "tb_inv bs [] ks r0" and es: "es = concat (map fst bs)" "es \<noteq> [] \<longrightarrow> tb_last_key r0 = fst (last es)"
    and pending: "tb_pending_index_entry r0 \<or> bs = []"
    and same: "tb_index_block r = tb_index_block r0" "tb_pending_handle r = tb_pending_handle r0" "tb_last_key r = tb_last_key r0"
      "tb_pending_index_entry r = tb_pending_index_entry r0"
    and fb: "tb_filter_block r = None \<longleftrightarrow> o_filter_policy options = None"
    and h: "o_filter_policy options \<noteq> None \<Longrightarrow> handle_ok h"
    and w: "written bytes r" and img: "blocks_image (map snd bs) @ fpart = bytes"
    and size: "data_bound es < 2 ^ 32" "index_bound es < 2 ^ 32" "block_bound (meta_entries h) < 2 ^ 32" "length bytes < 2 ^ 62"
    and stored: "\<And>rest. meta_stored (o_filter_policy options) bs (bytes @ rest) (meta_entries h)"
  shows "\<exists>hm r1 hi r2 r3. write_metaindex_block F h r = Some (hm, r1) \<and> write_index_block F r1 = Some (hi, r2) \<and>
    write_footer F hm hi r2 = Some r3 \<and> (TableBuilder_ok r3 \<longrightarrow> good (tb_file r3) \<and>
      (\<exists>ks'. table_file C valid (o_filter_policy options) bs ks' (contents (tb_file r3))))"
proof -
  obtain mc s f off where m: "write_metaindex_block F h r = Some (handle_of bytes mc,
      r\<lparr>tb_status := s, tb_file := f, tb_offset := off, tb_compressed_output := []\<rparr>)"
    "block_of (meta_entries h) mc" "length mc \<le> block_bound (meta_entries h)"
    "status_ok s \<longrightarrow> written (bytes @ block_image kNoCompression mc)
      (r\<lparr>tb_status := s, tb_file := f, tb_offset := off, tb_compressed_output := []\<rparr>)"
    using meta_written [OF w fb h size(3)] by blast
  let ?r1 = "r\<lparr>tb_status := s, tb_file := f, tb_offset := off, tb_compressed_output := []\<rparr>"
  let ?b1 = "bytes @ block_image kNoCompression mc"
  show ?thesis
  proof (cases "status_ok s")
    case False
    then have "\<not> TableBuilder_ok ?r1" by (simp add: TableBuilder_ok_def)
    then show ?thesis using m(1) skip_blocks by metis
  next
    case True
    then have w1: "written ?b1 ?r1" using m(4) by simp
    obtain ks' ic r2 where i: "write_index_block F ?r1 = Some (handle_of ?b1 ic, r2)" "length ks' = length bs"
      "separated C valid ks' (map fst bs)" "sorted_entries C valid (index_entries ks' (map snd bs))"
      "block_of (index_entries ks' (map snd bs)) ic" "length ic + 5 \<le> index_bound es"
      "TableBuilder_ok r2 \<longrightarrow> written (?b1 @ block_image kNoCompression ic) r2"
      using index_written [OF inv es pending, of ?r1 ?b1] same w1 size(1,2) by auto
    let ?b2 = "?b1 @ block_image kNoCompression ic"
    show ?thesis
    proof (cases "TableBuilder_ok r2")
      case False
      then show ?thesis using m(1) i(1) skip_blocks by metis
    next
      case ok2: True
      have len: "length ?b1 < 2 ^ 63" "length ?b2 < 2 ^ 63" "length mc < 2 ^ 63" "length ic < 2 ^ 63" "length bytes < 2 ^ 63"
        "length ?b2 + 48 < 2 ^ 63"
        using m(3) i(6) size by simp_all
      let ?hm = "handle_of bytes mc" and ?hi = "handle_of ?b1 ic"
      obtain r3 where r3: "write_footer F ?hm ?hi r2 = Some r3" "good (tb_file r3)"
        "TableBuilder_ok r3 \<longrightarrow> contents (tb_file r3) = ?b2 @ footer_bytes \<lparr>metaindex_handle = ?hm, index_handle = ?hi\<rparr>"
        using footer_written [of ?b2 r2 ?hm ?hi] i(7) ok2 handle_of_ok len by blast
      let ?foot = "\<lparr>metaindex_handle = ?hm, index_handle = ?hi\<rparr>"
      have blocks: "\<forall>(es, c) \<in> set bs. es \<noteq> [] \<and> block_of es c" using inv by (auto simp: tb_inv_def)
      have data: "\<exists>post. ?b2 @ footer_bytes ?foot = blocks_image (map snd bs) @ post"
        by (intro exI [of _ "fpart @ block_image kNoCompression mc @ block_image kNoCompression ic @ footer_bytes ?foot"]) (simp flip: img)
      have sorted: "sorted_entries C valid (concat (map fst bs))" using inv by (simp add: tb_inv_def)
      have meta: "stored_at (?b2 @ footer_bytes ?foot) ?hm kNoCompression mc"
        using stored_written [of bytes mc "block_image kNoCompression ic @ footer_bytes ?foot"] len(1) by simp
      have index: "stored_at (?b2 @ footer_bytes ?foot) ?hi kNoCompression ic"
        using stored_written [of ?b1 ic "footer_bytes ?foot"] len(2) by simp
      have "table_file C valid (o_filter_policy options) bs ks' (?b2 @ footer_bytes ?foot)"
        unfolding table_file_def
        using sorted blocks i(2-5) m(2) meta index len(6) data
          stored [of "block_image kNoCompression mc @ block_image kNoCompression ic @ footer_bytes ?foot"]
        by (intro exI [of _ ?b2] exI [of _ ?foot] exI [of _ "meta_entries h"] exI [of _ mc] exI [of _ ic]) simp
      then show ?thesis using m(1) i(1) r3 by auto
    qed
  qed
qed

lemma meta_entries_bound:
  "block_bound (meta_entries h) \<le> (case o_filter_policy options of None \<Rightarrow> 8 | Some P \<Rightarrow> length (fp_Name P) + 60)"
  using length_handle_bytes [of h]
  by (cases "o_filter_policy options") (simp_all add: meta_entries_def block_bound_def filter_key_def chars_def)

lemma finish_blocks:
  assumes inv: "tb_inv bs [] ks r" and es: "es = concat (map fst bs)" "es \<noteq> [] \<longrightarrow> tb_last_key r = fst (last es)"
    and pending: "tb_pending_index_entry r \<or> bs = []"
    and size: "table_bound options B es < 2 ^ 32" "length es \<le> N"
  shows "\<exists>h r1 hm r2 hi r3 r4. write_filter_block F (r\<lparr>tb_closed := True\<rparr>) = Some (h, r1) \<and>
    write_metaindex_block F h r1 = Some (hm, r2) \<and> write_index_block F r2 = Some (hi, r3) \<and>
    write_footer F hm hi r3 = Some r4 \<and> (TableBuilder_ok r4 \<longrightarrow> good (tb_file r4) \<and>
      (\<exists>ks'. table_file C valid (o_filter_policy options) bs ks' (contents (tb_file r4))))"
proof -
  let ?img = "blocks_image (map snd bs)" and ?r = "r\<lparr>tb_closed := True\<rparr>"
  have state: "filter_state bs [] (tb_filter_block r)" and blocks: "\<forall>(es, c) \<in> set bs. length c + 5 \<le> data_bound es"
    using inv by (auto simp: tb_inv_def)
  have w: "written ?img ?r" using inv by (simp add: tb_inv_def written_def TableBuilder_ok_def status_ok_def status_OK_def)
  have bounds: "data_bound es < 2 ^ 32" "index_bound es < 2 ^ 32" "meta_bound options B es < 2 ^ 32"
    using size(1) by (simp_all add: table_bound_def)
  have img: "length ?img < 2 ^ 32" using image_bound [OF blocks] bounds(1) es(1) by simp
  have meta_small: "block_bound (meta_entries h) < 2 ^ 32" for h
    using meta_entries_bound [of h] bounds(3) by (auto simp: meta_bound_def split: option.splits)
  show ?thesis
  proof (cases "o_filter_policy options")
    case None
    then have fb: "tb_filter_block ?r = None" using state by (simp add: filter_state_def)
    then have "write_filter_block F ?r = Some (BlockHandle_new, ?r)" by (simp add: write_filter_block_def)
    moreover have "\<exists>hm r1 hi r2 r3. write_metaindex_block F BlockHandle_new ?r = Some (hm, r1) \<and> write_index_block F r1 = Some (hi, r2) \<and>
      write_footer F hm hi r2 = Some r3 \<and> (TableBuilder_ok r3 \<longrightarrow> good (tb_file r3) \<and>
        (\<exists>ks'. table_file C valid (o_filter_policy options) bs ks' (contents (tb_file r3))))"
      by (rule frame_written [OF inv es pending _ _ _ _ _ _ w, where fpart = "[]"])
        (use None fb img bounds meta_small in \<open>simp_all add: meta_stored_def meta_entries_def\<close>)
    ultimately show ?thesis by blast
  next
    case (Some P)
    then obtain fb where fb: "tb_filter_block r = Some fb" using state by (auto simp: filter_state_def)
    obtain c fb' where fin: "FilterBlock_Finish fb = (c, fb')" by (cases "FilterBlock_Finish fb")
    have mb: "(data_bound es div 2048 + 2) * (B + 4) + length (fp_Name P) + 100 < 2 ^ 32"
      using bounds(3) Some by (simp add: meta_bound_def)
    have filter: "filter_complete P bs c" "length c \<le> (data_bound es div 2048 + 2) * (B + 4) + 5"
      using filter_written [OF state fb Some] bounds(1) size(2) blocks es(1) mb fin by simp_all
    have w': "written ?img (?r\<lparr>tb_filter_block := Some fb'\<rparr>)" using w by (simp add: written_def TableBuilder_ok_def)
    let ?r' = "?r\<lparr>tb_filter_block := Some fb'\<rparr>" and ?bytes = "?img @ block_image kNoCompression c"
    obtain s f off where raw: "WriteRawBlock F c kNoCompression ?r' = Some (handle_of ?img c, ?r'\<lparr>tb_status := s, tb_file := f, tb_offset := off\<rparr>)"
      "status_ok s \<longrightarrow> written ?bytes (?r'\<lparr>tb_status := s, tb_file := f, tb_offset := off\<rparr>)"
      using raw_written [OF w', of c] by blast
    let ?r1 = "?r'\<lparr>tb_status := s, tb_file := f, tb_offset := off\<rparr>"
    have ok: "TableBuilder_ok ?r" using w by (simp add: written_def)
    have wf: "write_filter_block F ?r = Some (handle_of ?img c, ?r1)"
      using fb fin ok raw(1) by (simp add: write_filter_block_def)
    show ?thesis
    proof (cases "status_ok s")
      case False
      then have "\<not> TableBuilder_ok ?r1" by (simp add: TableBuilder_ok_def)
      then show ?thesis using wf skip_blocks by metis
    next
      case True
      have c: "length c < 2 ^ 32" using filter(2) mb by simp
      have len: "length ?bytes < 2 ^ 62" using img c by simp
      have "meta_stored (Some P) bs (?bytes @ rest) (meta_entries (handle_of ?img c))" for rest
        using stored_written [of ?img c rest] len filter(1) Some
        by (auto simp: meta_stored_def meta_entries_def intro!: exI [of _ "handle_of ?img c"] exI [of _ c])
      then have "\<exists>hm r2 hi r3 r4. write_metaindex_block F (handle_of ?img c) ?r1 = Some (hm, r2) \<and> write_index_block F r2 = Some (hi, r3) \<and>
        write_footer F hm hi r3 = Some r4 \<and> (TableBuilder_ok r4 \<longrightarrow> good (tb_file r4) \<and>
          (\<exists>ks'. table_file C valid (o_filter_policy options) bs ks' (contents (tb_file r4))))"
        by (intro frame_written [OF inv es pending, where fpart = "block_image kNoCompression c" and bytes = ?bytes])
          (use Some True raw(2) len bounds meta_small handle_of_ok [of ?img c] img c in simp_all)
      then show ?thesis using wf by blast
    qed
  qed
qed

lemma finish_table:
  assumes st: "stable es r \<or> failed r" and size: "table_bound options B es < 2 ^ 32" "length es \<le> N"
  shows "\<exists>s r'. TableBuilder_Finish F r = Some (s, r') \<and> (status_ok s \<longrightarrow> good (tb_file r') \<and>
    (\<exists>bs ks. es = concat (map fst bs) \<and> table_file C valid (o_filter_policy options) bs ks (contents (tb_file r'))))"
proof -
  obtain r1 where r1: "TableBuilder_Flush F r = Some r1" "failed r1 \<or> (\<exists>bs ks. tb_inv bs [] ks r1 \<and> es = concat (map fst bs) \<and>
    (es \<noteq> [] \<longrightarrow> tb_last_key r1 = fst (last es)) \<and> (tb_pending_index_entry r1 \<or> bs = []))"
  proof -
    have "data_bound es < 2 ^ 32" using size(1) by (simp add: table_bound_def)
    moreover have "TableBuilder_Flush F r = Some r" if "failed r" using that by (simp add: failed_def TableBuilder_Flush_def TableBuilder_ok_def)
    ultimately show ?thesis using st finish_flush [of es r] size(2) that by blast
  qed
  from r1(2) show ?thesis
  proof
    assume f: "failed r1"
    let ?r = "r1\<lparr>tb_closed := True\<rparr>"
    have no: "\<not> TableBuilder_ok ?r" "\<not> tb_closed r1" using f by (simp_all add: failed_def TableBuilder_ok_def)
    then have "write_filter_block F ?r = Some (BlockHandle_new, ?r)" by (simp add: write_filter_block_def split: option.split)
    then have "TableBuilder_Finish F r = Some (tb_status ?r, ?r)"
      using r1(1) no skip_blocks [OF no(1)] by (simp add: TableBuilder_Finish_def Let_def)
    then show ?thesis using no(1) by (simp add: TableBuilder_ok_def)
  next
    assume "\<exists>bs ks. tb_inv bs [] ks r1 \<and> es = concat (map fst bs) \<and>
      (es \<noteq> [] \<longrightarrow> tb_last_key r1 = fst (last es)) \<and> (tb_pending_index_entry r1 \<or> bs = [])"
    then obtain bs ks where inv: "tb_inv bs [] ks r1" and es: "es = concat (map fst bs)" "es \<noteq> [] \<longrightarrow> tb_last_key r1 = fst (last es)"
      and pending: "tb_pending_index_entry r1 \<or> bs = []" by blast
    obtain h q1 hm q2 hi q3 q4 where q: "write_filter_block F (r1\<lparr>tb_closed := True\<rparr>) = Some (h, q1)"
      "write_metaindex_block F h q1 = Some (hm, q2)" "write_index_block F q2 = Some (hi, q3)" "write_footer F hm hi q3 = Some q4"
      "TableBuilder_ok q4 \<longrightarrow> good (tb_file q4) \<and> (\<exists>ks'. table_file C valid (o_filter_policy options) bs ks' (contents (tb_file q4)))"
      using finish_blocks [OF inv es pending size] by blast
    have "\<not> tb_closed r1" using inv by (simp add: tb_inv_def)
    then have "TableBuilder_Finish F r = Some (tb_status q4, q4)"
      using r1(1) q(1-4) by (simp add: TableBuilder_Finish_def Let_def)
    then show ?thesis using q(5) es(1) by (auto simp: TableBuilder_ok_def)
  qed
qed

lemma build_table:
  assumes "good f" "contents f = []" "sorted_entries C valid es" "table_bound options B es < 2 ^ 32" "length es \<le> N"
  shows "\<exists>s r'. LDB_Table_Write.build_table F options f es = Some (s, r') \<and> (status_ok s \<longrightarrow> good (tb_file r') \<and>
    (\<exists>bs ks. es = concat (map fst bs) \<and> table_file C valid (o_filter_policy options) bs ks (contents (tb_file r'))))"
proof -
  obtain r0 where r0: "TableBuilder_new options f = Some r0" "stable [] r0" using new_stable [OF assms(1,2)] by blast
  have "data_bound es < 2 ^ 32" using assms(4) by (simp add: table_bound_def)
  then obtain r1 where r1: "add_table_entries F es r0 = Some r1" "failed r1 \<or> stable es r1"
    using add_entries_stable [OF r0(2), of es] assms(3,5) by auto
  then show ?thesis using finish_table [of es r1] assms(4,5) r0(1) by (auto simp: build_table_def)
qed

end

section \<open>Devices that do not fail\<close>

context reliable_file
begin

definition live :: "'a TableBuilder \<Rightarrow> bool" where
  "live r \<longleftrightarrow> good (tb_file r) \<and> TableBuilder_ok r"

lemma live_update [simp]:
  "live (r\<lparr>tb_offset := a\<rparr>) = live r" "live (r\<lparr>tb_compressed_output := b\<rparr>) = live r" "live (r\<lparr>tb_pending_handle := c\<rparr>) = live r"
  "live (r\<lparr>tb_data_block := d\<rparr>) = live r" "live (r\<lparr>tb_filter_block := e\<rparr>) = live r" "live (r\<lparr>tb_last_key := g\<rparr>) = live r"
  "live (r\<lparr>tb_index_block := h\<rparr>) = live r" "live (r\<lparr>tb_pending_index_entry := i\<rparr>) = live r" "live (r\<lparr>tb_num_entries := j\<rparr>) = live r"
  "live (r\<lparr>tb_closed := k\<rparr>) = live r"
  by (simp_all add: live_def TableBuilder_ok_def)

lemma live_ok: "live r \<Longrightarrow> status_ok (tb_status r)" "live r \<Longrightarrow> TableBuilder_ok r"
  by (simp_all add: live_def TableBuilder_ok_def)

lemma live_append:
  assumes "live r" "tb_append F d r = Some r'"
  shows "live r'"
proof -
  obtain s f where f: "Append F (tb_file r) d = Some (s, f)" "good f" using append_returns assms(1) unfolding live_def by blast
  then have "status_ok s" using append_reliable assms(1) unfolding live_def by blast
  then show ?thesis using f assms(2) by (auto simp: tb_append_def live_def TableBuilder_ok_def)
qed

lemma live_raw:
  assumes "live r" "WriteRawBlock F c type r = Some (h, r')"
  shows "live r'"
proof -
  obtain r1 where r1: "tb_append F c r = Some r1" "live r1"
    using assms(2) live_append [OF assms(1)] unfolding WriteRawBlock_def Let_def Option.bind_eq_Some_conv by blast
  let ?t = "type # EncodeFixed32 (Mask (crc32c_Extend (crc32c_Value c) [type]))"
  obtain r2 where r2: "tb_append F ?t r1 = Some r2" "live r2"
    using assms(2) r1(1) live_ok(1) [OF r1(2)] live_append [OF r1(2)]
    unfolding WriteRawBlock_def Let_def by (cases "tb_append F ?t r1") simp_all
  show ?thesis
    using assms(2) r1 r2 live_ok(1) [OF r1(2)] live_ok(1) [OF r2(2)] unfolding WriteRawBlock_def Let_def by auto
qed

lemma live_block:
  assumes "live r" "WriteBlock F b r = Some (h, b', r')"
  shows "live r'"
proof -
  obtain raw b1 where b1: "BlockBuilder_Finish b = (raw, b1)" by fastforce
  obtain c type z where c: "compress (o_compression (tb_options r)) raw (tb_compressed_output r) = (c, type, z)"
    by (cases "compress (o_compression (tb_options r)) raw (tb_compressed_output r)") auto
  have eq: "(do { (handle, r) \<leftarrow> WriteRawBlock F c type (r\<lparr>tb_compressed_output := z\<rparr>);
      Some (handle, BlockBuilder_Reset b1, r\<lparr>tb_compressed_output := []\<rparr>) }) = Some (h, b', r')"
    using assms(2) live_ok(2) [OF assms(1)] b1 c by (simp add: WriteBlock_def)
  then obtain r1 where "WriteRawBlock F c type (r\<lparr>tb_compressed_output := z\<rparr>) = Some (h, r1)" "r' = r1\<lparr>tb_compressed_output := []\<rparr>"
    by (auto simp: Option.bind_eq_Some_conv)
  then show ?thesis using live_raw [of "r\<lparr>tb_compressed_output := z\<rparr>"] assms(1) by simp
qed

lemma live_flush:
  assumes "live r" "TableBuilder_Flush F r = Some r'"
  shows "live r'"
proof (cases "BlockBuilder_empty (tb_data_block r)")
  case True
  then show ?thesis using assms live_ok(2) by (simp add: TableBuilder_Flush_def split: if_splits)
next
  case False
  have c: "\<not> tb_closed r" "\<not> tb_pending_index_entry r" using assms False live_ok(2) by (auto simp: TableBuilder_Flush_def split: if_splits)
  obtain h b r1 where w: "WriteBlock F (tb_data_block r) r = Some (h, b, r1)"
    using assms False live_ok(2) [OF assms(1)] c by (cases "WriteBlock F (tb_data_block r) r") (auto simp: TableBuilder_Flush_def)
  let ?r1 = "r1\<lparr>tb_pending_handle := h, tb_data_block := b\<rparr>"
  have l1: "live r1" by (rule live_block [OF assms(1) w])
  obtain s f where f: "Flush F (tb_file r1) = Some (s, f)" "good f" using flush_returns l1 unfolding live_def by blast
  then have s: "status_ok s" using flush_reliable l1 unfolding live_def by blast
  have "TableBuilder_ok ?r1" using l1 live_ok(2) [of ?r1] by simp
  then have "\<exists>fb. r' = ?r1\<lparr>tb_pending_index_entry := True, tb_status := s, tb_file := f, tb_filter_block := fb\<rparr> \<or>
      r' = ?r1\<lparr>tb_pending_index_entry := True, tb_status := s, tb_file := f\<rparr>"
    using assms(2) False c w f(1) live_ok(2) [OF assms(1)] by (auto simp: TableBuilder_Flush_def Let_def split: option.splits)
  then show ?thesis using f(2) s by (auto simp: live_def TableBuilder_ok_def)
qed

lemma live_entry: "live r \<Longrightarrow> add_index_entry k r = Some r' \<Longrightarrow> live r'"
  by (auto simp: add_index_entry_def Option.bind_eq_Some_conv)

lemma live_add:
  assumes "live r" "TableBuilder_Add F k v r = Some r'"
  shows "live r'"
proof -
  let ?pre = "if tb_pending_index_entry r then
       if \<not> BlockBuilder_empty (tb_data_block r) then None
       else do {
         last_key \<leftarrow> FindShortestSeparator (o_comparator (tb_options r)) (tb_last_key r) k;
         add_index_entry last_key r
       }
     else Some r"
  obtain r1 where r1: "?pre = Some r1"
    using assms live_ok(2) [OF assms(1)] by (cases ?pre) (simp_all add: TableBuilder_Add_def split del: if_split split: if_splits)
  have l1: "live r1" using r1 assms(1) by (auto simp: Option.bind_eq_Some_conv intro: live_entry split: if_splits)
  let ?r2 = "r1\<lparr>tb_filter_block := map_option (AddKey k) (tb_filter_block r1), tb_last_key := k, tb_num_entries := tb_num_entries r1 + 1\<rparr>"
  show ?thesis
    using assms(2) live_ok(2) [OF assms(1)] l1 r1 unfolding TableBuilder_Add_def
    by (auto simp: Option.bind_eq_Some_conv Let_def split: if_splits intro: live_flush [rotated] live_entry)
qed

lemma live_entries: "live r \<Longrightarrow> add_table_entries F es r = Some r' \<Longrightarrow> live r'"
proof (induction es arbitrary: r)
  case (Cons e es)
  then obtain r1 where "TableBuilder_Add F (fst e) (snd e) r = Some r1" "add_table_entries F es r1 = Some r'"
    by (cases e) (auto simp: Option.bind_eq_Some_conv)
  then show ?case using Cons.IH live_add [OF Cons.prems(1)] by blast
qed simp

lemma live_frame:
  "live r \<Longrightarrow> write_filter_block F r = Some (h, r') \<Longrightarrow> live r'"
  "live r \<Longrightarrow> write_metaindex_block F m r = Some (h, r') \<Longrightarrow> live r'"
  "live r \<Longrightarrow> write_index_block F r = Some (h, r') \<Longrightarrow> live r'"
  "live r \<Longrightarrow> write_footer F m i r = Some r' \<Longrightarrow> live r'"
proof -
  assume l: "live r"
  note ok = live_ok(2) [OF l]
  show "live r'" if "write_filter_block F r = Some (h, r')"
  proof (cases "tb_filter_block r")
    case (Some b)
    obtain c b' where b: "FilterBlock_Finish b = (c, b')" by fastforce
    show ?thesis using that Some b ok live_raw [of "r\<lparr>tb_filter_block := Some b'\<rparr>"] l by (simp add: write_filter_block_def)
  qed (use that l in \<open>simp add: write_filter_block_def\<close>)
  show "live r'" if "write_metaindex_block F m r = Some (h, r')"
    using that ok live_block [OF l] by (auto simp: write_metaindex_block_def Option.bind_eq_Some_conv)
  show "live r'" if wi: "write_index_block F r = Some (h, r')"
  proof -
    obtain r1 b q where r1: "live r1" "WriteBlock F (tb_index_block r1) r1 = Some (h, b, q)" "live q \<longrightarrow> live r'"
    proof (cases "tb_pending_index_entry r")
      case True
      then obtain k r1 where r1: "add_index_entry k r = Some r1"
        "(do { (handle, b, q) \<leftarrow> WriteBlock F (tb_index_block r1) r1; Some (handle, q\<lparr>tb_index_block := b\<rparr>) }) = Some (h, r')"
        using wi ok by (auto simp: write_index_block_def Option.bind_eq_Some_conv)
      then show ?thesis using that [OF live_entry [OF l r1(1)]] by (auto simp: Option.bind_eq_Some_conv)
    next
      case False
      then show ?thesis using wi ok that [OF l] by (auto simp: write_index_block_def Option.bind_eq_Some_conv)
    qed
    then show ?thesis using live_block [OF r1(1,2)] by simp
  qed
  show "live r'" if "write_footer F m i r = Some r'"
    using that ok l by (auto simp: write_footer_def Option.bind_eq_Some_conv Let_def split: if_splits dest: live_append)
qed

lemma build_live:
  assumes "good f" "build_table F options f es = Some (s, r)"
  shows "status_ok s"
proof -
  obtain r0 r1 r2 h r3 hm r4 hi r5 where r: "TableBuilder_new options f = Some r0" "add_table_entries F es r0 = Some r1"
    "TableBuilder_Flush F r1 = Some r2" "write_filter_block F (r2\<lparr>tb_closed := True\<rparr>) = Some (h, r3)"
    "write_metaindex_block F h r3 = Some (hm, r4)" "write_index_block F r4 = Some (hi, r5)"
    "write_footer F hm hi r5 = Some r" "s = tb_status r"
    using assms(2) by (auto simp: build_table_def TableBuilder_Finish_def Option.bind_eq_Some_conv Let_def split: if_splits)
  have "live r0" using r(1) assms(1) by (auto simp: TableBuilder_new_def Option.bind_eq_Some_conv Let_def live_def TableBuilder_ok_def status_ok_def status_OK_def)
  then have "live r1" using live_entries r(2) by blast
  then have "live r2" using live_flush r(3) by blast
  then have "live (r2\<lparr>tb_closed := True\<rparr>)" by simp
  then have "live r3" using live_frame(1) r(4) by blast
  then have "live r4" using live_frame(2) r(5) by blast
  then have "live r5" using live_frame(3) r(6) by blast
  then have "live r" using live_frame(4) r(7) by blast
  then show ?thesis using r(8) live_ok(1) by simp
qed

end

end
