(* ===== verification/LDB_TwoLevel_Props.thy ===== *)
theory LDB_TwoLevel_Props
  imports LDB_TwoLevel
begin

text \<open>
  LevelDB: the two-level iterator over an index that separates its blocks is a cursor in the concatenation of
  the blocks, empty blocks included.
\<close>

locale two_level = index: iterator iops irep "Compare C" valid + data: iterator dops drep "Compare C" valid +
  comparator_order C valid
  for iops :: "'i iter_ops" and irep :: "entries \<Rightarrow> nat \<Rightarrow> 'i \<Rightarrow> bool"
    and dops :: "'d iter_ops" and drep :: "entries \<Rightarrow> nat \<Rightarrow> 'd \<Rightarrow> bool" and C and valid
begin

text \<open>The blocks behind an index: \<open>blk\<close> gives the entries of a block by its handle.\<close>

definition flat :: "(slice \<Rightarrow> entries) \<Rightarrow> entries \<Rightarrow> entries" where
  "flat blk ies = concat (map (\<lambda>e. blk (snd e)) ies)"

definition off :: "(slice \<Rightarrow> entries) \<Rightarrow> entries \<Rightarrow> nat \<Rightarrow> nat" where
  "off blk ies j = length (flat blk (take j ies))"

text \<open>The block function makes the iterators, and the keys of the index separate the blocks.\<close>

definition indexed :: "'d block_function \<Rightarrow> ReadOptions \<Rightarrow> (slice \<Rightarrow> entries) \<Rightarrow> entries \<Rightarrow> bool" where
  "indexed bf opts blk ies \<longleftrightarrow>
     (\<forall>e \<in> set ies. \<exists>d n. bf opts (snd e) = Some (Some d) \<and> drep (blk (snd e)) n d) \<and>
     (\<forall>e \<in> set ies. valid (fst e) \<and> (\<forall>x \<in> set (blk (snd e)). valid (fst x) \<and> Compare C (fst x) (fst e) \<le> 0)) \<and>
     sorted_wrt (\<lambda>e e'. \<forall>x \<in> set (blk (snd e')). Compare C (fst e) (fst x) < 0) ies"

definition data_ok :: "(slice \<Rightarrow> entries) \<Rightarrow> ('i, 'd) TwoLevelIterator \<Rightarrow> bool" where
  "data_ok blk t \<longleftrightarrow> (case w_iter (tl_data_iter t) of None \<Rightarrow> \<not> w_valid (tl_data_iter t)
     | Some _ \<Rightarrow> \<exists>m. wrapper_rep dops drep (blk (tl_data_block_handle t)) m (tl_data_iter t))"

definition base :: "ReadOptions \<Rightarrow> entries \<Rightarrow> nat \<Rightarrow> ('i, 'd) TwoLevelIterator \<Rightarrow> bool" where
  "base opts ies p t \<longleftrightarrow> wrapper_rep iops irep ies p (tl_index_iter t) \<and> tl_options t = opts \<and> tl_status t = status_OK"

text \<open>Between the movements: the index is at \<open>p\<close>, and the current block at \<open>m\<close>.\<close>

definition mid :: "ReadOptions \<Rightarrow> (slice \<Rightarrow> entries) \<Rightarrow> entries \<Rightarrow> nat \<Rightarrow> nat \<Rightarrow> ('i, 'd) TwoLevelIterator \<Rightarrow> bool" where
  "mid opts blk ies p m t \<longleftrightarrow> base opts ies p t \<and>
     (if p < length ies
      then wrapper_rep dops drep (blk (snd (ies ! p))) m (tl_data_iter t) \<and> tl_data_block_handle t = snd (ies ! p)
      else m = 0 \<and> w_iter (tl_data_iter t) = None \<and> \<not> w_valid (tl_data_iter t))"

definition two_rep ::
  "'d block_function \<Rightarrow> ReadOptions \<Rightarrow> entries \<Rightarrow> nat \<Rightarrow> ('i, 'd) TwoLevelIterator \<Rightarrow> bool" where
  "two_rep bf opts es n t \<longleftrightarrow> (\<exists>blk ies p. indexed bf opts blk ies \<and> es = flat blk ies \<and> base opts ies p t \<and>
     (if n < length es
      then p < length ies \<and> (\<exists>m. mid opts blk ies p m t \<and> m < length (blk (snd (ies ! p))) \<and> n = off blk ies p + m)
      else n = length es \<and> w_iter (tl_data_iter t) = None \<and> \<not> w_valid (tl_data_iter t)))"

lemma flat_simps [simp]: "flat blk [] = []" "flat blk (e # ies) = blk (snd e) @ flat blk ies"
  "flat blk (xs @ ys) = flat blk xs @ flat blk ys"
  by (simp_all add: flat_def)

lemma off_0 [simp]: "off blk ies 0 = 0"
  by (simp add: off_def)

lemma off_Suc: "p < length ies \<Longrightarrow> off blk ies (Suc p) = off blk ies p + length (blk (snd (ies ! p)))"
  by (simp add: off_def take_Suc_conv_app_nth)

lemma off_all: "off blk ies (length ies) = length (flat blk ies)"
  by (simp add: off_def)

lemma flat_split: "p < length ies \<Longrightarrow> flat blk ies = flat blk (take p ies) @ blk (snd (ies ! p)) @ flat blk (drop (Suc p) ies)"
  by (metis flat_simps(2,3) id_take_nth_drop)

lemma off_bound:
  assumes "p < length ies" "m \<le> length (blk (snd (ies ! p)))"
  shows "off blk ies p + m \<le> length (flat blk ies)"
    and "m < length (blk (snd (ies ! p))) \<Longrightarrow> off blk ies p + m < length (flat blk ies)"
    and "m < length (blk (snd (ies ! p))) \<Longrightarrow> flat blk ies ! (off blk ies p + m) = blk (snd (ies ! p)) ! m"
  using assms flat_split [OF assms(1), of blk] by (simp_all add: off_def nth_append)

lemma indexed_block:
  assumes "indexed bf opts blk ies" "p < length ies"
  shows "\<exists>d n. bf opts (snd (ies ! p)) = Some (Some d) \<and> drep (blk (snd (ies ! p))) n d"
  using assms nth_mem [OF assms(2)] by (auto simp: indexed_def)

text \<open>The iterator of the block of the index's position.\<close>

lemma set_data:
  assumes "data_ok blk t" "tl_status t = status_OK"
  shows "SetDataIterator dops None t = Some (t\<lparr>tl_data_iter := (tl_data_iter t)\<lparr>w_iter := None, w_valid := False\<rparr>\<rparr>)"
    and "drep l n d \<Longrightarrow> \<exists>w. SetDataIterator dops (Some d) (t\<lparr>tl_data_block_handle := h\<rparr>) =
      Some (t\<lparr>tl_data_block_handle := h, tl_data_iter := w\<rparr>) \<and> wrapper_rep dops drep l n w"
proof -
  have saved: "(case wrapper_status dops (tl_data_iter t) of None \<Rightarrow> t' | Some s \<Rightarrow> SaveError s t') = t'" for t'
  proof (cases "w_iter (tl_data_iter t)")
    case (Some d)
    then obtain m where "wrapper_rep dops drep (blk (tl_data_block_handle t)) m (tl_data_iter t)"
      using assms(1) by (auto simp: data_ok_def)
    then have "status_ok (iter_status dops d)" using Some data.rep_status by (auto simp: wrapper_rep_def)
    then show ?thesis using Some by (simp add: wrapper_status_def SaveError_def)
  qed (simp add: wrapper_status_def)
  show "SetDataIterator dops None t = Some (t\<lparr>tl_data_iter := (tl_data_iter t)\<lparr>w_iter := None, w_valid := False\<rparr>\<rparr>)"
    using saved [of t] by (simp add: SetDataIterator_def wrapper_Set_def Let_def)
  assume "drep l n d"
  then obtain w where "wrapper_Update dops d (tl_data_iter t) = Some w" "wrapper_rep dops drep l n w"
    using data.wrapper_Update_rep by blast
  then show "\<exists>w. SetDataIterator dops (Some d) (t\<lparr>tl_data_block_handle := h\<rparr>) =
      Some (t\<lparr>tl_data_block_handle := h, tl_data_iter := w\<rparr>) \<and> wrapper_rep dops drep l n w"
    using saved [of "t\<lparr>tl_data_block_handle := h\<rparr>"] by (auto simp: SetDataIterator_def wrapper_Set_def Let_def)
qed

lemma init_block:
  assumes ix: "indexed bf opts blk ies" and t: "base opts ies p t" "data_ok blk t"
  shows "\<exists>t' m. InitDataBlock iops dops bf t = Some t' \<and> mid opts blk ies p m t'"
proof (cases "p < length ies")
  case False
  then have "\<not> w_valid (tl_index_iter t)"
    using t(1) iterator.rep_Valid [OF index.wrapper_iterator] by (fastforce simp: base_def wrapper_ops_def)
  then show ?thesis using False t set_data(1) [OF t(2)] by (auto simp: InitDataBlock_def mid_def base_def)
next
  case True
  let ?h = "snd (ies ! p)"
  have w: "wrapper_rep iops irep ies p (tl_index_iter t)" "tl_status t = status_OK" using t(1) by (simp_all add: base_def)
  have valid: "w_valid (tl_index_iter t)" "wrapper_value iops (tl_index_iter t) = Some ?h"
    using iterator.rep_Valid [OF index.wrapper_iterator w(1)] iterator.rep_value [OF index.wrapper_iterator w(1) True] True
    by (simp_all add: wrapper_ops_def)
  show ?thesis
  proof (cases "\<not> Option.is_none (w_iter (tl_data_iter t)) \<and> slice_compare ?h (tl_data_block_handle t) = 0")
    case same: True
    then obtain m where "wrapper_rep dops drep (blk ?h) m (tl_data_iter t)"
      using t(2) by (auto simp: data_ok_def split: option.splits)
    then show ?thesis using same valid True t(1) by (auto simp: InitDataBlock_def mid_def)
  next
    case new: False
    obtain d n where d: "bf opts ?h = Some (Some d)" "drep (blk ?h) n d" using indexed_block [OF ix True] by blast
    from set_data(2) [OF t(2) w(2) d(2), of ?h] obtain w where
      "SetDataIterator dops (Some d) (t\<lparr>tl_data_block_handle := ?h\<rparr>) = Some (t\<lparr>tl_data_block_handle := ?h, tl_data_iter := w\<rparr>)"
      "wrapper_rep dops drep (blk ?h) n w" by blast
    moreover have "tl_options t = opts" using t(1) by (simp add: base_def)
    ultimately show ?thesis using new valid True t(1) d(1) by (auto simp: InitDataBlock_def mid_def base_def)
  qed
qed

lemma mid_data_ok: "mid opts blk ies p m t \<Longrightarrow> data_ok blk t"
  by (auto simp: mid_def data_ok_def wrapper_rep_def split: if_splits)

lemma data_ok_index [simp]: "data_ok blk (t\<lparr>tl_index_iter := w\<rparr>) = data_ok blk t"
  by (simp add: data_ok_def split: option.split)

lemma move_index_mid:
  assumes "base opts ies p t" "data_ok blk t"
    and "\<And>w. wrapper_rep iops irep ies p w \<Longrightarrow> \<exists>w'. move w = Some w' \<and> wrapper_rep iops irep ies q w'"
  shows "\<exists>t'. move_index move t = Some t' \<and> base opts ies q t' \<and> data_ok blk t'"
proof -
  have "wrapper_rep iops irep ies p (tl_index_iter t)" using assms(1) by (simp add: base_def)
  then obtain w' where "move (tl_index_iter t) = Some w'" "wrapper_rep iops irep ies q w'" using assms(3) by blast
  then show ?thesis using assms(1,2) by (simp add: move_index_def base_def)
qed

lemma move_data_mid:
  assumes "mid opts blk ies p m t"
    and "\<And>w. p < length ies \<Longrightarrow> wrapper_rep dops drep (blk (snd (ies ! p))) m w \<Longrightarrow>
      \<exists>w'. move w = Some w' \<and> wrapper_rep dops drep (blk (snd (ies ! p))) k w'"
  shows "\<exists>t'. move_data move t = Some t' \<and> mid opts blk ies p (if p < length ies then k else 0) t'"
proof (cases "p < length ies")
  case True
  then have w: "wrapper_rep dops drep (blk (snd (ies ! p))) m (tl_data_iter t)" using assms(1) by (simp add: mid_def)
  then obtain w' where "move (tl_data_iter t) = Some w'" "wrapper_rep dops drep (blk (snd (ies ! p))) k w'"
    using assms(2) True by blast
  moreover have "\<not> Option.is_none (w_iter (tl_data_iter t))" using w by (auto simp: wrapper_rep_def)
  ultimately show ?thesis using assms(1) True by (auto simp: move_data_def mid_def base_def)
qed (use assms(1) in \<open>auto simp: mid_def move_data_def\<close>)

lemma data_valid:
  assumes "mid opts blk ies p m t"
  shows "Option.is_none (w_iter (tl_data_iter t)) \<or> \<not> w_valid (tl_data_iter t) \<longleftrightarrow>
    \<not> (p < length ies \<and> m < length (blk (snd (ies ! p))))"
    and "p < length ies \<Longrightarrow> m \<le> length (blk (snd (ies ! p)))"
proof -
  have w: "(w_valid w \<longleftrightarrow> k < length l) \<and> k \<le> length l \<and> \<not> Option.is_none (w_iter w)" if "wrapper_rep dops drep l k w" for l k w
    using iterator.rep_Valid [OF data.wrapper_iterator that] iterator.rep_bound [OF data.wrapper_iterator that] that
    by (auto simp: wrapper_ops_def wrapper_rep_def)
  show "Option.is_none (w_iter (tl_data_iter t)) \<or> \<not> w_valid (tl_data_iter t) \<longleftrightarrow>
      \<not> (p < length ies \<and> m < length (blk (snd (ies ! p))))"
    "p < length ies \<Longrightarrow> m \<le> length (blk (snd (ies ! p)))"
    using assms w by (auto simp: mid_def split: if_splits)
qed

lemma index_valid: "base opts ies p t \<Longrightarrow> w_valid (tl_index_iter t) \<longleftrightarrow> p < length ies"
  "base opts ies p t \<Longrightarrow> p \<le> length ies"
  using iterator.rep_Valid [OF index.wrapper_iterator] iterator.rep_bound [OF index.wrapper_iterator]
  by (fastforce simp: base_def wrapper_ops_def)+

lemma mid_base: "mid opts blk ies p m t \<Longrightarrow> base opts ies p t"
  by (simp add: mid_def)

lemma two_repI:
  assumes "indexed bf opts blk ies" "mid opts blk ies p m t" "p < length ies" "m < length (blk (snd (ies ! p)))"
  shows "two_rep bf opts (flat blk ies) (off blk ies p + m) t"
  using assms mid_base [OF assms(2)] off_bound [OF assms(3), of m blk] unfolding two_rep_def by auto

lemma two_rep_end:
  assumes "indexed bf opts blk ies" "base opts ies p t"
    and "w_iter (tl_data_iter t) = None" "\<not> w_valid (tl_data_iter t)"
  shows "two_rep bf opts (flat blk ies) (length (flat blk ies)) t"
  using assms unfolding two_rep_def by auto

lemma at_block_end:
  assumes ix: "indexed bf opts blk ies" and t: "mid opts blk ies p m t" "p = length ies"
  shows "\<exists>t'. SetDataIterator dops None t = Some t' \<and> two_rep bf opts (flat blk ies) (length (flat blk ies)) t'"
proof -
  let ?t = "t\<lparr>tl_data_iter := (tl_data_iter t)\<lparr>w_iter := None, w_valid := False\<rparr>\<rparr>"
  have "tl_status t = status_OK" using mid_base [OF t(1)] by (simp add: base_def)
  then have "SetDataIterator dops None t = Some ?t" by (rule set_data(1) [OF mid_data_ok [OF t(1)]])
  moreover have "base opts ies p ?t" using mid_base [OF t(1)] by (simp add: base_def)
  ultimately show ?thesis using two_rep_end [OF ix, of p ?t] by simp
qed

lemma skip_forward:
  assumes ix: "indexed bf opts blk ies" and t: "mid opts blk ies p m t"
  shows "\<exists>t'. SkipEmptyDataBlocksForward iops dops bf t = Some t' \<and> two_rep bf opts (flat blk ies) (off blk ies p + m) t'"
  unfolding SkipEmptyDataBlocksForward_def using t
proof (induction "length ies - p" arbitrary: p m t rule: less_induct)
  case less
  note t = less.prems
  note p = index_valid [OF mid_base [OF t]]
  show ?case
  proof (cases "p < length ies")
    case False
    then have pl: "p = length ies" "m = 0" using p(2) t by (simp_all add: mid_def)
    obtain t' where t': "SetDataIterator dops None t = Some t'" "two_rep bf opts (flat blk ies) (length (flat blk ies)) t'"
      using at_block_end [OF ix t pl(1)] by blast
    have "skip_forward_step iops dops bf t = Some (Inl t')"
      using data_valid(1) [OF t] pl(1) p(1) t'(1) by (simp add: skip_forward_step_def)
    then show ?thesis using t'(2) pl by (simp add: c_loop_unfold off_all)
  next
    case True
    show ?thesis
    proof (cases "m < length (blk (snd (ies ! p)))")
      case inside: True
      then have "skip_forward_step iops dops bf t = Some (Inl t)"
        using data_valid(1) [OF t] True by (auto simp: skip_forward_step_def)
      then show ?thesis using two_repI [OF ix t True inside] by (simp add: c_loop_unfold)
    next
      case False
      then have m: "m = length (blk (snd (ies ! p)))" using data_valid(2) [OF t True] by simp
      obtain t1 where t1: "move_index (Next (wrapper_ops iops)) t = Some t1" "base opts ies (p + 1) t1" "data_ok blk t1"
        using move_index_mid [OF mid_base [OF t] mid_data_ok [OF t], of "Next (wrapper_ops iops)" "p + 1"]
          iterator.rep_next [OF index.wrapper_iterator _ True] by blast
      obtain t2 k where t2: "InitDataBlock iops dops bf t1 = Some t2" "mid opts blk ies (p + 1) k t2"
        using init_block [OF ix t1(2,3)] by blast
      obtain t3 where t3: "move_data (SeekToFirst (wrapper_ops dops)) t2 = Some t3" "mid opts blk ies (p + 1) 0 t3"
        using move_data_mid [OF t2(2), of "SeekToFirst (wrapper_ops dops)" 0] iterator.rep_first [OF data.wrapper_iterator] by auto
      have "skip_forward_step iops dops bf t = Some (Inr t3)"
        using data_valid(1) [OF t] False p(1) True t1(1) t2(1) t3(1) by (simp add: skip_forward_step_def)
      moreover have "length ies - (p + 1) < length ies - p" using True by simp
      moreover have "off blk ies (p + 1) + 0 = off blk ies p + m" using off_Suc [OF True] m by simp
      ultimately show ?thesis using less.hyps [OF _ t3(2)] by (simp add: c_loop_unfold)
    qed
  qed
qed

lemma skip_backward:
  assumes ix: "indexed bf opts blk ies" and t: "mid opts blk ies p m t"
  shows "\<exists>t'. SkipEmptyDataBlocksBackward iops dops bf t = Some t' \<and>
    two_rep bf opts (flat blk ies)
      (if p < length ies \<and> m < length (blk (snd (ies ! p))) then off blk ies p + m
       else if p = length ies \<or> off blk ies p = 0 then length (flat blk ies) else off blk ies p - 1) t'"
  unfolding SkipEmptyDataBlocksBackward_def using t
proof (induction "if p = length ies then 0 else Suc p" arbitrary: p m t rule: less_induct)
  case less
  note t = less.prems
  note p = index_valid [OF mid_base [OF t]]
  show ?case
  proof (cases "p < length ies")
    case False
    then have pl: "p = length ies" using p(2) by simp
    obtain t' where t': "SetDataIterator dops None t = Some t'" "two_rep bf opts (flat blk ies) (length (flat blk ies)) t'"
      using at_block_end [OF ix t pl] by blast
    have "skip_backward_step iops dops bf t = Some (Inl t')"
      using data_valid(1) [OF t] pl p(1) t'(1) by (simp add: skip_backward_step_def)
    then show ?thesis using t'(2) pl by (simp add: c_loop_unfold)
  next
    case True
    show ?thesis
    proof (cases "m < length (blk (snd (ies ! p)))")
      case inside: True
      then have "skip_backward_step iops dops bf t = Some (Inl t)"
        using data_valid(1) [OF t] True by (auto simp: skip_backward_step_def)
      then show ?thesis using two_repI [OF ix t True inside] True inside by (simp add: c_loop_unfold)
    next
      case False
      let ?q = "if p = 0 then length ies else p - 1"
      obtain t1 where t1: "move_index (Prev (wrapper_ops iops)) t = Some t1" "base opts ies ?q t1" "data_ok blk t1"
        using move_index_mid [OF mid_base [OF t] mid_data_ok [OF t], of "Prev (wrapper_ops iops)" ?q]
          iterator.rep_prev [OF index.wrapper_iterator _ True] by blast
      obtain t2 k where t2: "InitDataBlock iops dops bf t1 = Some t2" "mid opts blk ies ?q k t2"
        using init_block [OF ix t1(2,3)] by blast
      let ?m = "if ?q < length ies then length (blk (snd (ies ! ?q))) - 1 else 0"
      obtain t3 where t3: "move_data (SeekToLast (wrapper_ops dops)) t2 = Some t3" "mid opts blk ies ?q ?m t3"
        using move_data_mid [OF t2(2), of "SeekToLast (wrapper_ops dops)" "length (blk (snd (ies ! ?q))) - 1"]
          iterator.rep_last [OF data.wrapper_iterator] by auto
      have step: "skip_backward_step iops dops bf t = Some (Inr t3)"
        using data_valid(1) [OF t] False p(1) True t1(1) t2(1) t3(1) by (simp add: skip_backward_step_def)
      have "(if ?q = length ies then 0 else Suc ?q) < (if p = length ies then 0 else Suc p)" using True by auto
      note ih = less.hyps [OF this t3(2)]
      have "(if ?q < length ies \<and> ?m < length (blk (snd (ies ! ?q))) then off blk ies ?q + ?m
          else if ?q = length ies \<or> off blk ies ?q = 0 then length (flat blk ies) else off blk ies ?q - 1) =
        (if off blk ies p = 0 then length (flat blk ies) else off blk ies p - 1)"
      proof (cases "p = 0")
        case pos: False
        then have "off blk ies p = off blk ies (p - 1) + length (blk (snd (ies ! (p - 1))))"
          using off_Suc [of "p - 1" ies blk] True by simp
        moreover have "0 < k \<Longrightarrow> k - Suc 0 < k" for k :: nat by simp
        ultimately show ?thesis using pos True by (cases "blk (snd (ies ! (p - 1))) = []") auto
      qed simp
      with ih show ?thesis using step False True by (simp add: c_loop_unfold)
    qed
  qed
qed

text \<open>A movement of both iterators, then the skipping.\<close>

lemma index_then_data:
  assumes ix: "indexed bf opts blk ies" and t: "base opts ies p t" "data_ok blk t"
    and move: "\<And>w. wrapper_rep iops irep ies p w \<Longrightarrow> \<exists>w'. move w = Some w' \<and> wrapper_rep iops irep ies q w'"
    and move': "\<And>w m. q < length ies \<Longrightarrow> wrapper_rep dops drep (blk (snd (ies ! q))) m w \<Longrightarrow>
      \<exists>w'. move' w = Some w' \<and> wrapper_rep dops drep (blk (snd (ies ! q))) k w'"
  shows "\<exists>t1 t2 t3. move_index move t = Some t1 \<and> InitDataBlock iops dops bf t1 = Some t2 \<and> move_data move' t2 = Some t3 \<and>
    mid opts blk ies q (if q < length ies then k else 0) t3"
proof -
  obtain t1 where t1: "move_index move t = Some t1" "base opts ies q t1" "data_ok blk t1"
    using move_index_mid [OF t, of move q] move by blast
  obtain t2 m where t2: "InitDataBlock iops dops bf t1 = Some t2" "mid opts blk ies q m t2"
    using init_block [OF ix t1(2,3)] by blast
  obtain t3 where "move_data move' t2 = Some t3" "mid opts blk ies q (if q < length ies then k else 0) t3"
    using move_data_mid [OF t2(2), of move' k] move' by blast
  then show ?thesis using t1(1) t2(1) by blast
qed

lemma two_repE:
  assumes "two_rep bf opts es n t"
  obtains blk ies p where "indexed bf opts blk ies" "es = flat blk ies" "base opts ies p t" "data_ok blk t"
proof -
  obtain blk ies p where r: "indexed bf opts blk ies" "es = flat blk ies" "base opts ies p t"
    "if n < length es
      then p < length ies \<and> (\<exists>m. mid opts blk ies p m t \<and> m < length (blk (snd (ies ! p))) \<and> n = off blk ies p + m)
      else n = length es \<and> w_iter (tl_data_iter t) = None \<and> \<not> w_valid (tl_data_iter t)"
    using assms unfolding two_rep_def by blast
  then have "data_ok blk t" using mid_data_ok by (auto simp: data_ok_def split: if_splits)
  then show thesis using that r by blast
qed

lemma two_repE_inside:
  assumes "two_rep bf opts es n t" "n < length es"
  obtains blk ies p m where "indexed bf opts blk ies" "es = flat blk ies" "p < length ies" "mid opts blk ies p m t"
    "m < length (blk (snd (ies ! p)))" "n = off blk ies p + m"
  using assms unfolding two_rep_def by auto

text \<open>The position of \<open>Seek\<close> in the concatenation.\<close>

lemma takeWhile_concat:
  assumes "\<And>x. x \<in> set a \<Longrightarrow> P x" "\<And>x. x \<in> set d \<Longrightarrow> \<not> P x"
  shows "length (takeWhile P (a @ b @ d)) = length a + length (takeWhile P b)"
proof -
  have "takeWhile P d = []" using assms(2) by (cases d) simp_all
  then have "takeWhile P (b @ d) = takeWhile P b" by (induction b) simp_all
  then show ?thesis using assms(1) by (simp add: takeWhile_append2)
qed

lemma seek_flat:
  assumes ix: "indexed bf opts blk ies" and target: "valid target"
  defines "j \<equiv> seek_index (Compare C) ies target"
  shows "seek_index (Compare C) (flat blk ies) target =
    off blk ies j + (if j < length ies then seek_index (Compare C) (blk (snd (ies ! j))) target else 0)"
proof -
  let ?P = "\<lambda>e. Compare C (fst e) target < 0"
  have v: "valid (fst e)" "\<And>x. x \<in> set (blk (snd e)) \<Longrightarrow> valid (fst x) \<and> Compare C (fst x) (fst e) \<le> 0" if "e \<in> set ies" for e
    using ix that by (auto simp: indexed_def)
  have j: "j \<le> length ies" "take j ies = takeWhile ?P ies"
    by (simp_all add: j_def seek_index_def length_takeWhile_le takeWhile_eq_take [symmetric])
  have front: "?P x" if x: "x \<in> set (flat blk (take j ies))" for x
  proof -
    obtain e where e: "e \<in> set (takeWhile ?P ies)" "x \<in> set (blk (snd e))" using x j(2) by (auto simp: flat_def)
    then have "e \<in> set ies" "?P e" by (auto dest: set_takeWhileD)
    then show ?thesis using compare_less_trans [OF _ _ target, of "fst x" "fst e"] v e(2) by blast
  qed
  show ?thesis
  proof (cases "j < length ies")
    case True
    have notP: "\<not> ?P (ies ! j)" using True nth_length_takeWhile [of ?P ies] by (simp add: j_def seek_index_def)
    have behind: "\<not> ?P x" if x: "x \<in> set (flat blk (drop (Suc j) ies))" for x
    proof
      assume less: "?P x"
      obtain e where e: "e \<in> set (drop (Suc j) ies)" "x \<in> set (blk (snd e))" using x by (auto simp: flat_def)
      have "sorted_wrt (\<lambda>e e'. \<forall>x \<in> set (blk (snd e')). Compare C (fst e) (fst x) < 0) (take j ies @ ies ! j # drop (Suc j) ies)"
        using ix id_take_nth_drop [OF True] by (simp add: indexed_def)
      then have c: "Compare C (fst (ies ! j)) (fst x) < 0" using e by (simp add: sorted_wrt_append)
      have "e \<in> set ies" using e(1) by (rule in_set_dropD)
      then have "valid (fst (ies ! j))" "valid (fst x)" using v e(2) nth_mem [OF True] by blast+
      then show False
        using compare_less_trans2 [OF _ _ target c] less notP by simp
    qed
    have "seek_index (Compare C) (flat blk ies) target =
        length (takeWhile ?P (flat blk (take j ies) @ blk (snd (ies ! j)) @ flat blk (drop (Suc j) ies)))"
      using flat_split [OF True, of blk] by (simp add: seek_index_def)
    then show ?thesis
      using takeWhile_concat [of "flat blk (take j ies)" ?P, OF front behind] True by (simp add: off_def seek_index_def)
  next
    case False
    then have "take j ies = ies" using j(1) by simp
    then have "takeWhile ?P (flat blk ies) = flat blk ies" using front by (auto intro: takeWhile_eq_all_conv [THEN iffD2])
    then have "seek_index (Compare C) (flat blk ies) target = length (flat blk ies)" by (simp only: seek_index_def)
    then show ?thesis using False j(1) by (simp add: off_all)
  qed
qed

lemma two_level_iterator: "iterator (two_level_ops iops dops bf) (two_rep bf opts) (Compare C) valid"
proof
  fix es n t
  assume rep: "two_rep bf opts es n t"
  obtain blk ies p where ix: "indexed bf opts blk ies" and es: "es = flat blk ies" and t: "base opts ies p t" "data_ok blk t"
    by (rule two_repE [OF rep])
  show "n \<le> length es" using rep unfolding two_rep_def by (auto split: if_splits)
  show "Valid (two_level_ops iops dops bf) t \<longleftrightarrow> n < length es"
  proof (cases "n < length es")
    case True
    obtain blk' ies' p' m where "p' < length ies'" "mid opts blk' ies' p' m t" "m < length (blk' (snd (ies' ! p')))"
      by (rule two_repE_inside [OF rep True])
    then show ?thesis using data_valid(1) [of opts blk' ies' p' m t] True by (simp add: two_level_ops_def TwoLevel_Valid_def)
  next
    case False
    then have "\<not> w_valid (tl_data_iter t)" using rep unfolding two_rep_def by auto
    then show ?thesis using False by (simp add: two_level_ops_def TwoLevel_Valid_def)
  qed
  show "status_ok (iter_status (two_level_ops iops dops bf) t)"
  proof -
    have "status_ok (iter_status (wrapper_ops iops) (tl_index_iter t))"
      using t(1) iterator.rep_status [OF index.wrapper_iterator] by (auto simp: base_def)
    moreover have "status_ok s" if "wrapper_status dops (tl_data_iter t) = Some s" for s
      using t(2) that data.rep_status by (auto simp: data_ok_def wrapper_status_def wrapper_rep_def)
    moreover have "status_ok (tl_status t)" using t(1) by (simp add: base_def)
    ultimately show ?thesis
      by (auto simp: two_level_ops_def TwoLevel_iter_status_def Let_def split: option.splits)
  qed
  show "\<exists>t'. SeekToFirst (two_level_ops iops dops bf) t = Some t' \<and> two_rep bf opts es 0 t'"
  proof -
    obtain t1 t2 t3 where m: "move_index (SeekToFirst (wrapper_ops iops)) t = Some t1" "InitDataBlock iops dops bf t1 = Some t2"
      "move_data (SeekToFirst (wrapper_ops dops)) t2 = Some t3" "mid opts blk ies 0 (if 0 < length ies then 0 else 0) t3"
      using index_then_data [OF ix t, of "SeekToFirst (wrapper_ops iops)" 0 "SeekToFirst (wrapper_ops dops)" 0]
        iterator.rep_first [OF index.wrapper_iterator] iterator.rep_first [OF data.wrapper_iterator] by blast
    obtain t' where "SkipEmptyDataBlocksForward iops dops bf t3 = Some t'" "two_rep bf opts (flat blk ies) (off blk ies 0 + 0) t'"
      using skip_forward [OF ix, of 0 0 t3] m(4) by auto
    then show ?thesis using m(1-3) es by (simp add: two_level_ops_def TwoLevel_SeekToFirst_def)
  qed
  show "\<exists>t'. SeekToLast (two_level_ops iops dops bf) t = Some t' \<and> two_rep bf opts es (length es - 1) t'"
  proof -
    let ?q = "length ies - 1" let ?k = "length (blk (snd (ies ! ?q))) - 1"
    obtain t1 t2 t3 where m: "move_index (SeekToLast (wrapper_ops iops)) t = Some t1" "InitDataBlock iops dops bf t1 = Some t2"
      "move_data (SeekToLast (wrapper_ops dops)) t2 = Some t3" "mid opts blk ies ?q (if ?q < length ies then ?k else 0) t3"
      using index_then_data [OF ix t, of "SeekToLast (wrapper_ops iops)" "?q" "SeekToLast (wrapper_ops dops)" "?k"]
        iterator.rep_last [OF index.wrapper_iterator] iterator.rep_last [OF data.wrapper_iterator] by blast
    have "(if ?q < length ies \<and> (if ?q < length ies then ?k else 0) < length (blk (snd (ies ! ?q)))
        then off blk ies ?q + (if ?q < length ies then ?k else 0)
        else if ?q = length ies \<or> off blk ies ?q = 0 then length (flat blk ies) else off blk ies ?q - 1) = length (flat blk ies) - 1"
    proof (cases ies rule: rev_cases)
      case (snoc ys y)
      moreover have "0 < k \<Longrightarrow> k - Suc 0 < k" for k :: nat by simp
      ultimately show ?thesis by (cases "length (blk (snd y))") (auto simp: off_def)
    qed simp
    then show ?thesis
      using skip_backward [OF ix m(4)] m(1-3) es by (simp add: two_level_ops_def TwoLevel_SeekToLast_def)
  qed
  show "\<exists>t'. Seek (two_level_ops iops dops bf) target t = Some t' \<and> two_rep bf opts es (seek_index (Compare C) es target) t'"
    if target: "valid target" for target
  proof -
    let ?q = "seek_index (Compare C) ies target"
    obtain t1 t2 t3 where m: "move_index (Seek (wrapper_ops iops) target) t = Some t1" "InitDataBlock iops dops bf t1 = Some t2"
      "move_data (Seek (wrapper_ops dops) target) t2 = Some t3"
      "mid opts blk ies ?q (if ?q < length ies then seek_index (Compare C) (blk (snd (ies ! ?q))) target else 0) t3"
      using index_then_data [OF ix t, of "Seek (wrapper_ops iops) target" "?q" "Seek (wrapper_ops dops) target"
          "seek_index (Compare C) (blk (snd (ies ! ?q))) target"]
        iterator.rep_seek [OF index.wrapper_iterator _ target] iterator.rep_seek [OF data.wrapper_iterator _ target] by blast
    then show ?thesis
      using skip_forward [OF ix m(4)] es seek_flat [OF ix target] by (simp add: two_level_ops_def TwoLevel_Seek_def)
  qed
  assume n: "n < length es"
  obtain blk ies p m where ix: "indexed bf opts blk ies" and es: "es = flat blk ies" and p: "p < length ies"
    and t: "mid opts blk ies p m t" and m: "m < length (blk (snd (ies ! p)))" and n_eq: "n = off blk ies p + m"
    by (rule two_repE_inside [OF rep n])
  have w: "wrapper_rep dops drep (blk (snd (ies ! p))) m (tl_data_iter t)" using t p by (simp add: mid_def)
  have valid: "w_valid (tl_data_iter t)" using data_valid(1) [OF t] p m by simp
  have entry: "blk (snd (ies ! p)) ! m = es ! n" using off_bound(3) [of p ies m blk] p m es n_eq by simp
  show "iter_key (two_level_ops iops dops bf) t = Some (fst (es ! n))"
    using iterator.rep_key [OF data.wrapper_iterator w m] valid entry
    by (simp add: two_level_ops_def TwoLevel_key_def TwoLevel_Valid_def wrapper_ops_def)
  show "iter_value (two_level_ops iops dops bf) t = Some (snd (es ! n))"
    using iterator.rep_value [OF data.wrapper_iterator w m] valid entry
    by (simp add: two_level_ops_def TwoLevel_value_def TwoLevel_Valid_def wrapper_ops_def)
  have moved: "mid opts blk ies p k (t\<lparr>tl_data_iter := w'\<rparr>)" if "wrapper_rep dops drep (blk (snd (ies ! p))) k w'" for k w'
    using t p that by (simp add: mid_def base_def)
  show "\<exists>t'. Next (two_level_ops iops dops bf) t = Some t' \<and> two_rep bf opts es (n + 1) t'"
  proof -
    obtain w' where w': "Next (wrapper_ops dops) (tl_data_iter t) = Some w'" "wrapper_rep dops drep (blk (snd (ies ! p))) (m + 1) w'"
      using iterator.rep_next [OF data.wrapper_iterator w m] by blast
    then show ?thesis
      using skip_forward [OF ix moved [OF w'(2)]] valid es n_eq
      by (simp add: two_level_ops_def TwoLevel_Next_def TwoLevel_Valid_def add.assoc)
  qed
  show "\<exists>t'. Prev (two_level_ops iops dops bf) t = Some t' \<and> two_rep bf opts es (if n = 0 then length es else n - 1) t'"
  proof -
    let ?k = "if m = 0 then length (blk (snd (ies ! p))) else m - 1"
    obtain w' where w': "Prev (wrapper_ops dops) (tl_data_iter t) = Some w'" "wrapper_rep dops drep (blk (snd (ies ! p))) ?k w'"
      using iterator.rep_prev [OF data.wrapper_iterator w m] by blast
    have "(if p < length ies \<and> ?k < length (blk (snd (ies ! p))) then off blk ies p + ?k
        else if p = length ies \<or> off blk ies p = 0 then length (flat blk ies) else off blk ies p - 1) =
      (if n = 0 then length es else n - 1)"
      using p m n_eq es by auto
    with skip_backward [OF ix moved [OF w'(2)]] w'(1) valid show ?thesis
      by (simp add: two_level_ops_def TwoLevel_Prev_def TwoLevel_Valid_def es)
  qed
qed

lemma two_level_new:
  assumes "indexed bf opts blk ies" "irep ies p i"
  shows "\<exists>t. NewTwoLevelIterator iops i opts = Some t \<and> two_rep bf opts (flat blk ies) (length (flat blk ies)) t"
proof -
  obtain w where "IteratorWrapper_new iops i = Some w" "wrapper_rep iops irep ies p w"
    using index.wrapper_Update_rep [OF assms(2)] by (auto simp: IteratorWrapper_new_def wrapper_Set_def)
  then show ?thesis using two_rep_end [OF assms(1)] by (auto simp: NewTwoLevelIterator_def base_def)
qed

end

end
