(* ===== verification/LDB_Table_Read.thy ===== *)
theory LDB_Table_Read
  imports LDB_Table LDB_Table_Write LDB_TwoLevel_Props
begin

text \<open>
  LevelDB: opening a file in the table format and reading it: the iterator of a table is a cursor in the
  entries, and a lookup finds every stored key, through the filter.
\<close>

section \<open>Iterators of two classes\<close>

lemma either_iterator:
  assumes A: "iterator A repA cmp valid" and B: "iterator B repB cmp valid"
  shows "iterator (either_ops A B) (\<lambda>es n. case_sum (repA es n) (repB es n)) cmp valid"
proof -
  note laws = iterator.rep_bound iterator.rep_Valid iterator.rep_key iterator.rep_value iterator.rep_status
  note moves = iterator.rep_first iterator.rep_last iterator.rep_next iterator.rep_prev
  show ?thesis
  proof
    fix es n and i :: "'a + 'b"
    assume rep: "case_sum (repA es n) (repB es n) i"
    show "n \<le> length es" "Valid (either_ops A B) i = (n < length es)" "status_ok (iter_status (either_ops A B) i)"
      using rep laws [OF A] laws [OF B] by (cases i; fastforce simp: either_ops_def)+
    show "\<exists>i'. SeekToFirst (either_ops A B) i = Some i' \<and> case_sum (repA es 0) (repB es 0) i'"
      using rep moves(1) [OF A] moves(1) [OF B] by (cases i; fastforce simp: either_ops_def)
    show "\<exists>i'. SeekToLast (either_ops A B) i = Some i' \<and> case_sum (repA es (length es - 1)) (repB es (length es - 1)) i'"
      using rep moves(2) [OF A] moves(2) [OF B] by (cases i; fastforce simp: either_ops_def)
    show "\<exists>i'. Seek (either_ops A B) target i = Some i' \<and>
        case_sum (repA es (seek_index cmp es target)) (repB es (seek_index cmp es target)) i'" if "valid target" for target
      using rep iterator.rep_seek [OF A _ that] iterator.rep_seek [OF B _ that] by (cases i; fastforce simp: either_ops_def)
    assume n: "n < length es"
    show "iter_key (either_ops A B) i = Some (fst (es ! n))" "iter_value (either_ops A B) i = Some (snd (es ! n))"
      using rep n laws [OF A] laws [OF B] by (cases i; fastforce simp: either_ops_def)+
    show "\<exists>i'. Next (either_ops A B) i = Some i' \<and> case_sum (repA es (n + 1)) (repB es (n + 1)) i'"
      using rep n moves(3) [OF A] moves(3) [OF B] by (cases i; fastforce simp: either_ops_def)
    show "\<exists>i'. Prev (either_ops A B) i = Some i' \<and>
        case_sum (repA es (if n = 0 then length es else n - 1)) (repB es (if n = 0 then length es else n - 1)) i'"
      using rep n moves(4) [OF A] moves(4) [OF B] by (cases i; fastforce simp: either_ops_def)
  qed
qed

text \<open>The iterators a block gives.\<close>

definition table_iter_rep :: "comparator \<Rightarrow> (slice \<Rightarrow> bool) \<Rightarrow> entries \<Rightarrow> nat \<Rightarrow> table_iter \<Rightarrow> bool" where
  "table_iter_rep C valid = (\<lambda>es n. case_sum (\<lambda>i. es = [] \<and> n = 0 \<and> i = NewEmptyIterator) (block_rep C valid es n))"

text \<open>A table object for a file in the table format.\<close>

definition table_ok :: "(entries \<times> slice) list \<Rightarrow> slice list \<Rightarrow> RandomAccessFile \<Rightarrow> Options \<Rightarrow> Table \<Rightarrow> bool" where
  "table_ok bs ks R options t \<longleftrightarrow> t_options t = options \<and> t_file t = R \<and>
     (\<exists>ic. block_of (index_entries ks (map snd bs)) ic \<and> Block_new ic = Some (t_index_block t)) \<and>
     (case t_filter t of None \<Rightarrow> True | Some rd \<Rightarrow> \<exists>P c. rd = FilterBlockReader_new P c \<and> filter_complete P bs c)"

text \<open>The entries of the block a handle names.\<close>

definition block_entries :: "(entries \<times> slice) list \<Rightarrow> slice \<Rightarrow> entries" where
  "block_entries bs h = the (map_of (zip (map (\<lambda>j. handle_bytes (block_handle (map snd bs) j)) [0..<length bs]) (map fst bs)) h)"

sublocale comparator_laws \<subseteq> table: two_level block_or_empty "table_iter_rep C valid" block_or_empty "table_iter_rep C valid" C valid
proof (intro two_level.intro)
  show "iterator block_or_empty (table_iter_rep C valid) (Compare C) valid"
    unfolding block_or_empty_def table_iter_rep_def by (rule either_iterator [OF empty_iter.iterator_axioms block_iterator])
  then show "iterator block_or_empty (table_iter_rep C valid) (Compare C) valid" .
  show "comparator_order C valid" by (rule comparator_order_axioms)
qed

section \<open>Blocks of a table\<close>

context comparator_laws
begin

lemma table_two_level: "two_level block_or_empty (table_iter_rep C valid) block_or_empty (table_iter_rep C valid) C valid"
  by (rule table.two_level_axioms)

lemma block_opens:
  assumes "block_of es c" "sorted_entries C valid es"
  shows "\<exists>bl it. Block_new c = Some bl \<and> Block_NewIterator bl C = Some it \<and> table_iter_rep C valid es (length es) it"
proof -
  obtain xs rs where c: "layout xs rs" "map snd xs = es" "c = block_bytes xs rs" using assms(1) by (auto simp: block_of_def)
  obtain it where it: "open_block (block_bytes xs rs) C = Some (Inr it)" "block_rep C valid (map snd xs) (length xs) it"
    using open_rep [OF c(1)] assms(2) c(2) by auto
  have "length xs = length es" using c(2) by auto
  then show ?thesis using it c by (auto simp: open_block_def table_iter_rep_def split: option.splits)
qed

lemma sorted_block:
  assumes "sorted_entries C valid (concat (map fst bs))" "j < length bs"
  shows "sorted_entries C valid (fst (bs ! j))"
proof -
  have "concat (map fst bs) = concat (map fst (take j bs)) @ fst (bs ! j) @ concat (map fst (drop (Suc j) bs))"
    using arg_cong [OF id_take_nth_drop [OF assms(2)], of "\<lambda>x. concat (map fst x)"] by simp
  then show ?thesis using assms(1) by (simp add: sorted_entries_def sorted_wrt_append)
qed

lemma read_meta:
  assumes R: "random_access_file R bytes" "length bytes < 2 ^ 63" and t: "t_file t = R" "t_filter t = None"
    and mes: "block_of mes mc" "stored_at bytes (metaindex_handle footer) kNoCompression mc"
      "meta_stored (o_filter_policy (t_options t)) bs bytes mes"
  shows "\<exists>d fl. ReadMeta footer t = Some (t\<lparr>t_filter_data := d, t_filter := fl\<rparr>) \<and>
    (case o_filter_policy (t_options t) of None \<Rightarrow> fl = None
     | Some P \<Rightarrow> \<exists>c. fl = Some (FilterBlockReader_new P c) \<and> filter_complete P bs c)"
proof (cases "o_filter_policy (t_options t)")
  case None
  then have "ReadMeta footer t = Some (t\<lparr>t_filter_data := t_filter_data t, t_filter := None\<rparr>)"
    using t(2) by (simp add: ReadMeta_def)
  then show ?thesis using None by (intro exI [of _ "t_filter_data t"] exI [of _ None]) simp
next
  case (Some P)
  obtain h c where h: "mes = [(filter_key P, handle_bytes h)]" "stored_at bytes h kNoCompression c" "filter_complete P bs c"
    using mes(3) Some by (auto simp: meta_stored_def)
  obtain own where own: "ReadBlock R (meta_read_options (t_options t)) (metaindex_handle footer) =
      Some (status_OK, \<lparr>bc_data = mc, cachable = own, heap_allocated = own\<rparr>)"
    using random_access_file.read_block [OF R(1) mes(2) R(2)] by blast
  obtain own' where own': "ReadBlock R (meta_read_options (t_options t)) h =
      Some (status_OK, \<lparr>bc_data = c, cachable = own', heap_allocated = own'\<rparr>)"
    using random_access_file.read_block [OF R(1) h(2) R(2)] by blast
  have "sorted_entries BytewiseComparator (\<lambda>_. True) mes" using h(1) by (simp add: sorted_entries_def)
  then obtain bl it where it: "Block_new mc = Some bl" "Block_NewIterator bl BytewiseComparator = Some it"
    "table_iter_rep BytewiseComparator (\<lambda>_. True) mes 1 it"
    using bytewise.block_opens [OF mes(1)] h(1) by auto
  note rep = bytewise.table.index.iterator_axioms
  have "seek_index (Compare BytewiseComparator) mes (filter_key P) = 0" using h(1) by (simp add: seek_index_def bytewise.compare_refl)
  then obtain it' where it': "Seek block_or_empty (filter_key P) it = Some it'" "table_iter_rep BytewiseComparator (\<lambda>_. True) mes 0 it'"
    using iterator.rep_seek [OF rep it(3), of "filter_key P"] by auto
  have at: "Valid block_or_empty it'" "iter_key block_or_empty it' = Some (filter_key P)" "iter_value block_or_empty it' = Some (handle_bytes h)"
    using iterator.observe [OF rep it'(2)] h(1) by simp_all
  have key: "chars ''filter.'' @ fp_Name P = filter_key P" by (simp add: filter_key_def)
  have "ReadMeta footer t = ReadFilter (handle_bytes h) P t"
    using Some own it it' at key t(1) by (simp add: ReadMeta_def)
  then show ?thesis using Some own' t(1) h(3)
    by (intro exI [of _ "if own' then Some c else t_filter_data t"] exI [of _ "Some (FilterBlockReader_new P c)"])
      (auto simp: ReadFilter_def Let_def)
qed

lemma open_table:
  assumes R: "random_access_file R bytes" and table: "table_file C valid (o_filter_policy options) bs ks bytes"
  shows "\<exists>t. Table_Open options R (word_of_nat (length bytes)) new_id = Some (status_OK, Some t) \<and> table_ok bs ks R options t \<and>
    t_cache_id t = new_id \<and> (case o_filter_policy options of None \<Rightarrow> t_filter t = None | Some P \<Rightarrow> t_filter t \<noteq> None)"
proof -
  obtain pre f mes mc ic where b: "bytes = pre @ footer_bytes f" "length bytes < 2 ^ 63"
    and idx: "block_of (index_entries ks (map snd bs)) ic" "stored_at bytes (index_handle f) kNoCompression ic"
      "sorted_entries C valid (index_entries ks (map snd bs))"
    and meta: "block_of mes mc" "stored_at bytes (metaindex_handle f) kNoCompression mc"
      "meta_stored (o_filter_policy options) bs bytes mes"
    using table unfolding table_file_def by blast
  let ?size = "word_of_nat (length bytes) :: u64" and ?k = "word_of_nat kEncodedLength :: u64"
  have len: "length bytes = length pre + 48" using b(1) by simp
  have "unat ?size = length bytes" by (rule unat_of_nat_64) (use b(2) in simp)
  then have u: "unat ?size = length pre + 48" "unat ?k = 48"
    using len by (simp_all add: kEncodedLength_def kMaxEncodedLength_def)
  have long: "\<not> ?size < ?k" using u by (simp add: word_less_nat_alt)
  have off: "unat (?size - ?k) = length pre" using u by (simp add: unat_sub word_le_nat_alt)
  obtain own where read: "raf_Read R (?size - ?k) ?k = Some (status_OK, footer_bytes f, own)"
    using random_access_file.read_within [OF R, of "?size - ?k" ?k] b len off u(2) by auto
  obtain own' where own': "ReadBlock R (meta_read_options options) (index_handle f) =
      Some (status_OK, \<lparr>bc_data = ic, cachable = own', heap_allocated = own'\<rparr>)"
    using random_access_file.read_block [OF R idx(2) b(2)] by blast
  obtain bl where bl: "Block_new ic = Some bl" using block_opens [OF idx(1,3)] by blast
  let ?t = "\<lparr>t_options = options, t_file = R, t_cache_id = new_id, t_filter = None, t_filter_data = None,
      t_metaindex_handle = metaindex_handle f, t_index_block = bl\<rparr>"
  obtain d fl where rm: "ReadMeta f ?t = Some (?t\<lparr>t_filter_data := d, t_filter := fl\<rparr>)"
    "case o_filter_policy options of None \<Rightarrow> fl = None
     | Some P \<Rightarrow> \<exists>c. fl = Some (FilterBlockReader_new P c) \<and> filter_complete P bs c"
    using read_meta [OF R b(2), of ?t mes mc f bs] meta by auto
  have dec: "Footer_DecodeFrom (footer_bytes f) f0 = Some (status_OK, f, [])" for f0
    using footer_decode [of f "[]" f0] by simp
  have "Table_Open options R ?size new_id = Some (status_OK, Some (?t\<lparr>t_filter_data := d, t_filter := fl\<rparr>))"
    unfolding Table_Open_def if_not_P [OF long] by (simp add: read dec own' bl rm(1))
  moreover have "table_ok bs ks R options (?t\<lparr>t_filter_data := d, t_filter := fl\<rparr>)"
    unfolding table_ok_def using rm(2) idx(1) bl by (auto split: option.splits)
  ultimately show ?thesis using rm(2) by (auto split: option.splits)
qed

lemma reads_block:
  assumes R: "random_access_file R bytes" and table: "table_file C valid policy bs ks bytes" and t: "t_file t = R" "o_comparator (t_options t) = C"
    and j: "j < length bs"
  shows "\<exists>it. BlockReader t opts (handle_bytes (block_handle (map snd bs) j)) None c = Some (it, c) \<and>
    table_iter_rep C valid (fst (bs ! j)) (length (fst (bs ! j))) it"
proof -
  obtain post where post: "bytes = blocks_image (map snd bs) @ post" "length bytes < 2 ^ 63"
    using table unfolding table_file_def by blast
  have blocks: "\<forall>(es, c) \<in> set bs. es \<noteq> [] \<and> block_of es c" and sorted: "sorted_entries C valid (concat (map fst bs))"
    using table unfolding table_file_def by blast+
  have "stored_at bytes (block_handle (map snd bs) j) kNoCompression (snd (bs ! j))"
    using block_stored [of j "map snd bs" post] post j by simp
  then obtain own where own: "ReadBlock R opts (block_handle (map snd bs) j) =
      Some (status_OK, \<lparr>bc_data = snd (bs ! j), cachable = own, heap_allocated = own\<rparr>)"
    using random_access_file.read_block [OF R _ post(2)] by blast
  have "block_of (fst (bs ! j)) (snd (bs ! j))" using blocks [rule_format, OF nth_mem [OF j]] by (simp add: case_prod_beta)
  then obtain bl it where it: "Block_new (snd (bs ! j)) = Some bl" "Block_NewIterator bl C = Some it"
    "table_iter_rep C valid (fst (bs ! j)) (length (fst (bs ! j))) it"
    using block_opens sorted_block [OF sorted j] by blast
  show ?thesis
    unfolding BlockReader_def handle_decode' prod.case fetch_block_def t
    using own it by simp
qed

section \<open>The iterator of a table\<close>

lemma handles_distinct:
  assumes "length (blocks_image cs) < 2 ^ 63"
  shows "distinct (map (\<lambda>j. handle_bytes (block_handle cs j)) [0..<length cs])"
proof -
  have "block_off cs i < block_off cs j" if "i < j" "j < length cs" for i j
  proof -
    have "block_off cs (Suc i) = block_off cs i + length (cs ! i) + 5"
      using that by (simp add: block_off_def take_Suc_conv_app_nth)
    then show ?thesis using block_off_mono [of "Suc i" j cs] that by simp
  qed
  moreover have "unat (word_of_nat (block_off cs j) :: u64) = block_off cs j" for j
    using block_off_le [of cs j] assms by (simp add: unat_of_nat_64)
  ultimately have off: "bh_offset (block_handle cs i) \<noteq> bh_offset (block_handle cs j)" if "i < j" "j < length cs" for i j
    unfolding block_handle_def BlockHandle.select_convs using that by (metis less_irrefl)
  have inj: "h = h'" if "handle_bytes h = handle_bytes h'" for h h'
    using arg_cong [OF that, of "\<lambda>b. BlockHandle_DecodeFrom b BlockHandle_new"] by simp
  have ne: "handle_bytes (block_handle cs i) \<noteq> handle_bytes (block_handle cs j)" if "i < j" "j < length cs" for i j
    using off [OF that] inj [of "block_handle cs i" "block_handle cs j"] by auto
  show ?thesis
    unfolding distinct_conv_nth
  proof (intro allI impI)
    fix i j
    assume "i < length (map (\<lambda>j. handle_bytes (block_handle cs j)) [0..<length cs])"
      "j < length (map (\<lambda>j. handle_bytes (block_handle cs j)) [0..<length cs])" "i \<noteq> j"
    then show "map (\<lambda>j. handle_bytes (block_handle cs j)) [0..<length cs] ! i \<noteq> map (\<lambda>j. handle_bytes (block_handle cs j)) [0..<length cs] ! j"
      using ne [of i j] ne [of j i] by (cases "i < j") auto
  qed
qed

lemma block_entries:
  assumes "length (blocks_image (map snd bs)) < 2 ^ 63" "j < length bs"
  shows "block_entries bs (handle_bytes (block_handle (map snd bs) j)) = fst (bs ! j)"
proof -
  let ?hs = "map (\<lambda>j. handle_bytes (block_handle (map snd bs) j)) [0..<length bs]"
  have "distinct ?hs" using handles_distinct [OF assms(1)] by simp
  then have "map_of (zip ?hs (map fst bs)) (?hs ! j) = Some (map fst bs ! j)" by (intro map_of_zip_nth) (use assms(2) in simp_all)
  then show ?thesis using assms(2) by (simp add: block_entries_def)
qed

lemma table_indexed:
  assumes R: "random_access_file R bytes" and table: "table_file C valid policy bs ks bytes" and t: "t_file t = R" "o_comparator (t_options t) = C"
  shows "table.indexed (table_block_function t) opts (block_entries bs) (index_entries ks (map snd bs))"
    and "table.flat (block_entries bs) (index_entries ks (map snd bs)) = concat (map fst bs)"
proof -
  obtain post where post: "bytes = blocks_image (map snd bs) @ post" "length bytes < 2 ^ 63"
    and sorted: "sorted_entries C valid (concat (map fst bs))" and len: "length ks = length bs" and sep: "separated C valid ks (map fst bs)"
    using table unfolding table_file_def by blast
  let ?ies = "index_entries ks (map snd bs)"
  have img: "length (blocks_image (map snd bs)) < 2 ^ 63" using post by simp
  have ies: "length ?ies = length bs" "\<And>j. j < length bs \<Longrightarrow> ?ies ! j = (ks ! j, handle_bytes (block_handle (map snd bs) j))"
    using len by (simp_all add: index_entries_def)
  note blk = block_entries [OF img]
  show "table.flat (block_entries bs) ?ies = concat (map fst bs)"
  proof -
    have "map (\<lambda>e. block_entries bs (snd e)) ?ies = map fst bs"
      by (rule nth_equalityI) (simp_all add: ies blk)
    then show ?thesis by (simp add: table.flat_def)
  qed
  have valid: "valid (fst x)" if "j < length bs" "x \<in> set (fst (bs ! j))" for j x
    using sorted that by (force simp: sorted_entries_def)
  show "table.indexed (table_block_function t) opts (block_entries bs) ?ies"
    unfolding table.indexed_def
  proof (intro conjI)
    show "\<forall>e \<in> set ?ies. \<exists>d n. table_block_function t opts (snd e) = Some (Some d) \<and> table_iter_rep C valid (block_entries bs (snd e)) n d"
    proof
      fix e
      assume "e \<in> set ?ies"
      then obtain j where j: "j < length bs" "e = ?ies ! j" by (metis in_set_conv_nth ies(1))
      then show "\<exists>d n. table_block_function t opts (snd e) = Some (Some d) \<and> table_iter_rep C valid (block_entries bs (snd e)) n d"
        using reads_block [OF R table t j(1), of opts "()"] by (auto simp: ies blk table_block_function_def)
    qed
    show "\<forall>e \<in> set ?ies. valid (fst e) \<and> (\<forall>x \<in> set (block_entries bs (snd e)). valid (fst x) \<and> Compare C (fst x) (fst e) \<le> 0)"
    proof
      fix e
      assume "e \<in> set ?ies"
      then obtain j where j: "j < length bs" "e = ?ies ! j" by (metis in_set_conv_nth ies(1))
      then show "valid (fst e) \<and> (\<forall>x \<in> set (block_entries bs (snd e)). valid (fst x) \<and> Compare C (fst x) (fst e) \<le> 0)"
        using sep len valid [OF j(1)] by (simp add: ies blk separated_def)
    qed
    show "sorted_wrt (\<lambda>e e'. \<forall>x \<in> set (block_entries bs (snd e')). Compare C (fst e) (fst x) < 0) ?ies"
      using sep len by (simp add: sorted_wrt_iff_nth_less ies blk separated_def)
  qed
qed

lemma table_iterator:
  assumes R: "random_access_file R bytes" and table: "table_file C valid policy bs ks bytes" and ok: "table_ok bs ks R options t"
    and C: "o_comparator options = C"
  shows "\<exists>it. Table_NewIterator t opts = Some it \<and>
    table.two_rep (table_block_function t) opts (concat (map fst bs)) (length (concat (map fst bs))) it"
proof -
  have t: "t_file t = R" "o_comparator (t_options t) = C" using ok C by (simp_all add: table_ok_def)
  obtain ic where ic: "block_of (index_entries ks (map snd bs)) ic" "Block_new ic = Some (t_index_block t)"
    using ok by (auto simp: table_ok_def)
  have "sorted_entries C valid (index_entries ks (map snd bs))" using table by (auto simp: table_file_def)
  from block_opens [OF ic(1) this] obtain i where i: "Block_NewIterator (t_index_block t) C = Some i"
    "table_iter_rep C valid (index_entries ks (map snd bs)) (length (index_entries ks (map snd bs))) i"
    using ic(2) by auto
  show ?thesis
    using table.two_level_new [OF table_indexed(1) [OF R table t, of opts] i(2)]
    unfolding table_indexed(2) [OF R table t] Table_NewIterator_def by (simp add: t i(1))
qed

section \<open>Looking up a key\<close>

lemma stored_entry:
  assumes "sorted_entries C valid es" "(k, v) \<in> set es"
  shows "seek_index (Compare C) es k < length es" "es ! seek_index (Compare C) es k = (k, v)"
proof -
  obtain n where n: "n < length es" "es ! n = (k, v)" using assms(2) by (metis in_set_conv_nth)
  have v: "valid k" using assms by (auto simp: sorted_entries_def)
  have "seek_index (Compare C) es k = n"
    using n assms(1) compare_refl [OF v] sorted_wrt_nth_less [of _ es _ n]
    by (intro seek_index_eq) (fastforce simp: sorted_entries_def)+
  then show "seek_index (Compare C) es k < length es" "es ! seek_index (Compare C) es k = (k, v)" using n by simp_all
qed

lemma entry_block: "x \<in> set (concat (map fst bs)) \<Longrightarrow> \<exists>j < length bs. x \<in> set (fst (bs ! j))"
  by (fastforce simp: in_set_conv_nth [of _ bs])

text \<open>The index leads to the block of a stored key.\<close>

lemma index_leads:
  assumes table: "table_file C valid policy bs ks bytes" and j: "j < length bs" and x: "(k, v) \<in> set (fst (bs ! j))"
  shows "seek_index (Compare C) (index_entries ks (map snd bs)) k = j"
proof -
  have len: "length ks = length bs" and sep: "separated C valid ks (map fst bs)" and sorted: "sorted_entries C valid (concat (map fst bs))"
    using table unfolding table_file_def by blast+
  have k: "valid k" using sorted x j by (force simp: sorted_entries_def)
  have before: "Compare C (ks ! m) k < 0" if "m < j" for m
    using separatedD(1) [OF sep, of m j "(k, v)"] that j x len by simp
  have "Compare C k (ks ! j) \<le> 0" "valid (ks ! j)" using sep x j len by (force simp: separated_def)+
  then have "0 \<le> Compare C (ks ! j) k" using compare_le_sign k by simp
  then show ?thesis using before j len by (intro seek_index_eq) (simp_all add: index_entries_def)
qed

text \<open>The filter is asked about the block that the index gives.\<close>

lemma filter_answers:
  assumes ok: "table_ok bs ks R options t" and table: "table_file C valid policy bs ks bytes" and j: "j < length bs"
  shows "\<exists>b. (case t_filter t of
        Some reader \<Rightarrow> if status_ok status_OK then FilterBlock_KeyMayMatch reader (bh_offset (block_handle (map snd bs) j)) k else Some True
      | None \<Rightarrow> Some True) = Some b \<and> ((k, v) \<in> set (fst (bs ! j)) \<longrightarrow> b)"
proof (cases "t_filter t")
  case (Some rd)
  then obtain P c where c: "rd = FilterBlockReader_new P c" "filter_complete P bs c" using ok by (auto simp: table_ok_def)
  have may: "FilterBlock_KeyMayMatch rd (bh_offset (block_handle (map snd bs) j)) (fst x) = Some True" if "x \<in> set (fst (bs ! j))" for x
    using c j that by (simp add: filter_complete_def block_handle_def)
  have "\<forall>(es, c) \<in> set bs. es \<noteq> []" using table by (auto simp: table_file_def)
  then have "fst (bs ! j) \<noteq> []" using nth_mem [OF j] by auto
  then obtain x where x: "x \<in> set (fst (bs ! j))" by (cases "fst (bs ! j)") auto
  from may [OF x] have "\<not> 64 \<le> fr_base_lg rd" by (auto simp: FilterBlock_KeyMayMatch_def)
  then have "FilterBlock_KeyMayMatch rd off k \<noteq> None" for off by (simp add: FilterBlock_KeyMayMatch_def Let_def del: not_None_eq)
  then obtain b where "FilterBlock_KeyMayMatch rd (bh_offset (block_handle (map snd bs) j)) k = Some b" by fast
  then show ?thesis using Some may [of "(k, v)"] by auto
qed auto

lemma internal_get:
  assumes R: "random_access_file R bytes" and table: "table_file C valid policy bs ks bytes" and ok: "table_ok bs ks R options t"
    and C: "o_comparator options = C" and k: "valid k"
  defines "es \<equiv> concat (map fst bs)"
  defines "n \<equiv> seek_index (Compare C) es k"
  shows "\<exists>arg'. InternalGet t opts k h None arg c = Some (status_OK, arg', c) \<and> ((k, v) \<in> set es \<longrightarrow> arg' = h arg k v) \<and>
    (arg' = arg \<or> n < length es \<and> arg' = h arg (fst (es ! n)) (snd (es ! n)))"
proof -
  let ?ies = "index_entries ks (map snd bs)"
  let ?j = "seek_index (Compare C) ?ies k"
  have t: "t_file t = R" "o_comparator (t_options t) = C" using ok C by (simp_all add: table_ok_def)
  have len: "length ?ies = length bs" "length ks = length bs" and sorted: "sorted_entries C valid es"
    using table by (auto simp: table_file_def index_entries_def es_def)
  obtain post where img: "bytes = blocks_image (map snd bs) @ post" "length bytes < 2 ^ 63" using table by (auto simp: table_file_def)
  obtain ic where ic: "block_of ?ies ic" "Block_new ic = Some (t_index_block t)" using ok by (auto simp: table_ok_def)
  have "sorted_entries C valid ?ies" using table by (auto simp: table_file_def)
  from block_opens [OF ic(1) this] obtain i0 where i0: "Block_NewIterator (t_index_block t) C = Some i0"
    "table_iter_rep C valid ?ies (length ?ies) i0" using ic(2) by auto
  note rep = table.index.iterator_axioms
  obtain i where i: "Seek block_or_empty k i0 = Some i" "table_iter_rep C valid ?ies ?j i" using iterator.rep_seek [OF rep i0(2) k] by blast
  have v: "Valid block_or_empty i \<longleftrightarrow> ?j < length bs" "iter_status block_or_empty i = status_OK"
    using iterator.observe(1,4) [OF rep i(2)] len(1) by simp_all
  have inside: "?j < length bs" if st: "(k, v) \<in> set es"
  proof -
    obtain j where "j < length bs" "(k, v) \<in> set (fst (bs ! j))" using entry_block [of "(k, v)" bs] st unfolding es_def by blast
    then show ?thesis using index_leads [OF table, of j k v] by simp
  qed
  show ?thesis
  proof (cases "?j < length bs")
    case False
    then have "InternalGet t opts k h None arg c = Some (status_OK, arg, c)"
      using i0(1) i(1) v t(2) by (simp add: InternalGet_def Let_def)
    then show ?thesis using inside False by blast
  next
    case True
    let ?blk = "fst (bs ! ?j)"
    let ?m = "seek_index (Compare C) ?blk k"
    have val: "iter_value block_or_empty i = Some (handle_bytes (block_handle (map snd bs) ?j))"
      using iterator.rep_value [OF rep i(2)] True len by (simp add: index_entries_def)
    obtain b where b: "(case t_filter t of
        Some reader \<Rightarrow> if status_ok status_OK then FilterBlock_KeyMayMatch reader (bh_offset (block_handle (map snd bs) ?j)) k else Some True
      | None \<Rightarrow> Some True) = Some b" "(k, v) \<in> set ?blk \<longrightarrow> b" using filter_answers [OF ok table True] by blast
    have here: "(k, v) \<in> set ?blk" if st: "(k, v) \<in> set es"
    proof -
      obtain j where "j < length bs" "(k, v) \<in> set (fst (bs ! j))" using entry_block [of "(k, v)" bs] st unfolding es_def by blast
      then show ?thesis using index_leads [OF table, of j k v] by simp
    qed
    show ?thesis
    proof (cases b)
      case False
      then have "InternalGet t opts k h None arg c = Some (status_OK, arg, c)"
        using i0(1) i(1) v t(2) True val b(1) by (simp add: InternalGet_def Let_def)
      then show ?thesis using False b(2) here by blast
    next
      case yes: True
      obtain d0 where d0: "BlockReader t opts (handle_bytes (block_handle (map snd bs) ?j)) None c = Some (d0, c)"
        "table_iter_rep C valid ?blk (length ?blk) d0" using reads_block [OF R table t True, of opts c] by metis
      obtain d where d: "Seek block_or_empty k d0 = Some d" "table_iter_rep C valid ?blk ?m d" using iterator.rep_seek [OF rep d0(2) k] by blast
      note obs = iterator.observe [OF rep d(2)]
      have flat: "n = table.off (block_entries bs) ?ies ?j + ?m"
        "?m < length ?blk \<Longrightarrow> n < length es \<and> es ! n = ?blk ! ?m"
      proof -
        have img63: "length (blocks_image (map snd bs)) < 2 ^ 63" using img by simp
        have blk: "block_entries bs (snd (?ies ! ?j)) = ?blk" using block_entries [OF img63 True] True len by (simp add: index_entries_def)
        show n: "n = table.off (block_entries bs) ?ies ?j + ?m"
          using table.seek_flat [OF table_indexed(1) [OF R table t, of opts] k] True blk len
          by (simp add: n_def es_def table_indexed(2) [OF R table t])
        assume "?m < length ?blk"
        then show "n < length es \<and> es ! n = ?blk ! ?m"
          using table.off_bound(2,3) [of ?j ?ies ?m "block_entries bs"] True blk len n
          by (simp add: es_def table_indexed(2) [OF R table t])
      qed
      show ?thesis
      proof (cases "?m < length ?blk")
        case False
        then have "InternalGet t opts k h None arg c = Some (status_OK, arg, c)"
          using i0(1) i(1) v t(2) True val b(1) yes d0(1) d(1) obs(1,4) by (simp add: InternalGet_def Let_def)
        then show ?thesis using False here stored_entry(1) [OF sorted_block [OF _ True]] sorted by (auto simp: es_def)
      next
        case m: True
        then have "InternalGet t opts k h None arg c = Some (status_OK, h arg (fst (?blk ! ?m)) (snd (?blk ! ?m)), c)"
          using i0(1) i(1) v t(2) True val b(1) yes d0(1) d(1) obs by (simp add: InternalGet_def Let_def)
        then show ?thesis using flat(2) [OF m] stored_entry(2) [OF sorted, of k v, folded n_def] by auto
      qed
    qed
  qed
qed

end

end
