(* ===== verification/LDB_Table_Props.thy ===== *)
theory LDB_Table_Props
  imports LDB_Table_Read
begin

text \<open>
  LevelDB: what a table promises, from the builder through the file to the reader.
\<close>

section \<open>Tables with Bloom filters on a POSIX file\<close>

lemma bytewise_separator_length: "bytewise_separator a b = Some s \<Longrightarrow> length s \<le> length a"
  by (auto simp: bytewise_separator_def Let_def split: if_splits)

lemma bytewise_successor_length: "length (bytewise_successor a) \<le> length a"
  by (induction a) simp_all

lemma bloom_length:
  assumes "bloom_small n keys"
  shows "length (CreateFilter (NewBloomFilterPolicy n) keys []) \<le> length keys * n + 9"
proof -
  have "length (CreateFilter (NewBloomFilterPolicy n) keys []) = unat (bloom_bytes (BloomFilterPolicy_new n) keys) + 1"
    using fold_add_key_kept by (simp add: NewBloomFilterPolicy_def bloom_create_eq)
  moreover have "bits_per_key (BloomFilterPolicy_new n) = word_of_nat n" by (simp add: BloomFilterPolicy_new_def Let_def)
  ultimately show ?thesis using bloom_bytes_size(3) [OF assms, of "BloomFilterPolicy_new n"] by simp
qed

text \<open>The default options with the Bloom filter of \<open>n\<close> bits per key.\<close>

definition bloom_options :: "nat \<Rightarrow> Options" where
  "bloom_options n = Options_new\<lparr>o_filter_policy := Some (NewBloomFilterPolicy n)\<rparr>"

interpretation bloom_table: table_build "posix_writable disk_posix" file_good "file_contents d_written" buffer_empty
  "bloom_options 10" "\<lambda>_. True" 1000000 10000009
proof (intro table_build.intro table_build_axioms.intro)
  show "writable_file (posix_writable disk_posix) file_good (file_contents d_written) buffer_empty"
    by (rule dk.writable)
  show "comparator_laws (o_comparator (bloom_options 10)) (\<lambda>_. True)"
    using bytewise.comparator_laws_axioms by (simp add: bloom_options_def Options_new_def)
  have small: "bloom_small 10 keys" if "length keys \<le> 1000000" for keys using that by (simp add: bloom_small_def)
  have "length (CreateFilter (NewBloomFilterPolicy 10) keys []) \<le> 10000009" if "length keys \<le> 1000000" for keys
    using bloom_length [OF small [OF that]] that by simp
  then show "table_options_ok (bloom_options 10) 1000000 10000009"
    using bloom.filter_policy_axioms [of 10] small bytewise_separator_length bytewise_successor_length
    unfolding table_options_ok_def by (fastforce simp: bloom_options_def Options_new_def BytewiseComparator_def)
qed

text \<open>A small table.\<close>

definition small_entries :: entries where
  "small_entries = [([1], [7]), ([1, 2], []), ([3], [8, 9])]"

lemma small_table:
  "file_good (PosixWritableFile_new [] 3 empty_disk)" "file_contents d_written (PosixWritableFile_new [] 3 empty_disk) = []"
  "sorted_entries (o_comparator (bloom_options 10)) (\<lambda>_. True) small_entries"
  "table_bound (bloom_options 10) 10000009 small_entries < 2 ^ 32" "length small_entries \<le> 1000000"
  by (simp_all add: small_entries_def PosixWritableFile_new_def file_contents_def empty_disk_def file_good_def sorted_entries_def
      bloom_options_def Options_new_def BytewiseComparator_def table_bound_def data_bound_def index_bound_def meta_bound_def
      NewBloomFilterPolicy_def chars_def)

lemma small_table_written:
  "\<exists>r. build_table (posix_writable disk_posix) (bloom_options 10) (PosixWritableFile_new [] 3 empty_disk) small_entries = Some (status_OK, r)"
proof -
  obtain s r where r: "build_table (posix_writable disk_posix) (bloom_options 10) (PosixWritableFile_new [] 3 empty_disk) small_entries = Some (s, r)"
    using bloom_table.build_table [OF small_table] by blast
  then have "status_ok s" using reliable_file.build_live [OF dk.reliable small_table(1)] by blast
  then show ?thesis using r by (simp add: status_ok_def status_OK_def)
qed

section \<open>Properties\<close>

text \<open>
  C2: A table file holds what was put into it.  Entries in ascending order go through the builder, with its
  data blocks, filter block, metaindex, index and footer, into a writable file: no assertion fails, and on a
  device whose writes do not fail the status is OK.  Whenever the status is OK, the file opens through
  every random access file on its bytes, and the two-level iterator of the table behaves as a cursor in the
  list of the entries under every sequence of calls.  Blocks are read from the file, without a block cache.
\<close>

theorem table_refines_cursor:
  assumes "table_build F good contents flushed options valid N B" "good f" "contents f = []"
    and "sorted_entries (o_comparator options) valid es" "table_bound options B es < 2 ^ 32" "length es \<le> N"
    and "cursor_run (Compare (o_comparator options)) es calls (length es) = Some m" "\<And>t. CallSeek t \<in> set calls \<Longrightarrow> valid t"
  shows "\<exists>s r. build_table F options f es = Some (s, r) \<and> (reliable_file F good contents flushed \<longrightarrow> status_ok s) \<and>
    (status_ok s \<longrightarrow> (\<forall>R. random_access_file R (contents (tb_file r)) \<longrightarrow>
      (\<exists>t it j. Table_Open options R (word_of_nat (length (contents (tb_file r)))) new_id = Some (status_OK, Some t) \<and>
        Table_NewIterator t read_options = Some it \<and> iter_run (table_iter_ops t) calls it = Some j \<and>
        (Valid (table_iter_ops t) j \<longleftrightarrow> m < length es) \<and> iter_status (table_iter_ops t) j = status_OK \<and>
        (m < length es \<longrightarrow> iter_key (table_iter_ops t) j = Some (fst (es ! m)) \<and>
          iter_value (table_iter_ops t) j = Some (snd (es ! m))))))"
proof -
  let ?C = "o_comparator options"
  have laws: "comparator_laws ?C valid" using assms(1) by (simp add: table_build_def)
  obtain s r where b: "build_table F options f es = Some (s, r)" "status_ok s \<longrightarrow> good (tb_file r) \<and> (\<exists>bs ks. es = concat (map fst bs) \<and>
      table_file ?C valid (o_filter_policy options) bs ks (contents (tb_file r)))"
    using table_build.build_table [OF assms(1-6)] by (elim exE conjE) (rule that)
  have live: "status_ok s" if "reliable_file F good contents flushed" by (rule reliable_file.build_live [OF that assms(2) b(1)])
  have "\<exists>t it j. Table_Open options R (word_of_nat (length (contents (tb_file r)))) new_id = Some (status_OK, Some t) \<and>
        Table_NewIterator t read_options = Some it \<and> iter_run (table_iter_ops t) calls it = Some j \<and>
        (Valid (table_iter_ops t) j \<longleftrightarrow> m < length es) \<and> iter_status (table_iter_ops t) j = status_OK \<and>
        (m < length es \<longrightarrow> iter_key (table_iter_ops t) j = Some (fst (es ! m)) \<and>
          iter_value (table_iter_ops t) j = Some (snd (es ! m)))"
    if ok: "status_ok s" and R: "random_access_file R (contents (tb_file r))" for R
  proof -
    obtain bs ks where es: "es = concat (map fst bs)"
      and table: "table_file ?C valid (o_filter_policy options) bs ks (contents (tb_file r))" using b(2) ok by blast
    obtain t where t: "Table_Open options R (word_of_nat (length (contents (tb_file r)))) new_id = Some (status_OK, Some t)"
      "table_ok bs ks R options t" using comparator_laws.open_table [OF laws R table, of new_id] by (elim exE conjE) (rule that)
    let ?rep = "two_level.two_rep block_or_empty (table_iter_rep ?C valid) block_or_empty (table_iter_rep ?C valid) ?C valid
      (table_block_function t) read_options"
    obtain it where it: "Table_NewIterator t read_options = Some it" "?rep es (length es) it"
      using comparator_laws.table_iterator [OF laws R table t(2) refl, of read_options, folded es]
      by (elim exE conjE) (rule that)
    have iter: "iterator (table_iter_ops t) ?rep (Compare ?C) valid"
      unfolding table_iter_ops_def by (rule two_level.two_level_iterator [OF comparator_laws.table_two_level [OF laws]])
    obtain j where j: "iter_run (table_iter_ops t) calls it = Some j" "?rep es m j"
      using iterator.run_refines [OF iter it(2) assms(7,8)] by blast
    show ?thesis using t(1) it(1) j(1) iterator.observe [OF iter j(2)] by auto
  qed
  then show ?thesis using b(1) live by blast
qed

lemma table_refines_cursor_witness:
  "\<exists>r t it j. build_table (posix_writable disk_posix) (bloom_options 10) (PosixWritableFile_new [] 3 empty_disk) small_entries = Some (status_OK, r) \<and>
    Table_Open (bloom_options 10) (mmap_random_access disk_posix \<lparr>mmap_base = file_contents d_written (tb_file r), mm_filename = []\<rparr>)
      (word_of_nat (length (file_contents d_written (tb_file r)))) 5 = Some (status_OK, Some t) \<and>
    Table_NewIterator t ReadOptions_new = Some it \<and> iter_run (table_iter_ops t) [CallSeek [2], CallPrev] it = Some j \<and>
    iter_key (table_iter_ops t) j = Some [1, 2]"
proof -
  have run: "cursor_run (Compare (o_comparator (bloom_options 10))) small_entries [CallSeek [2], CallPrev] (length small_entries) = Some 1"
    by (simp add: bloom_options_def Options_new_def BytewiseComparator_def seek_index_def small_entries_def)
  obtain s r where r: "build_table (posix_writable disk_posix) (bloom_options 10) (PosixWritableFile_new [] 3 empty_disk) small_entries = Some (s, r)"
    "status_ok s" "\<forall>R. random_access_file R (file_contents d_written (tb_file r)) \<longrightarrow>
      (\<exists>t it j. Table_Open (bloom_options 10) R (word_of_nat (length (file_contents d_written (tb_file r)))) 5 = Some (status_OK, Some t) \<and>
        Table_NewIterator t ReadOptions_new = Some it \<and> iter_run (table_iter_ops t) [CallSeek [2], CallPrev] it = Some j \<and>
        iter_key (table_iter_ops t) j = Some [1, 2])"
    using table_refines_cursor [OF bloom_table.table_build_axioms small_table run, of 5 ReadOptions_new] dk.reliable
    by (fastforce simp: small_entries_def)
  have "s = status_OK" using r(2) by (simp add: status_ok_def status_OK_def)
  then show ?thesis using r(1) r(3) [rule_format, OF mmap_file.random_access_file_axioms [of disk_posix]] by blast
qed

text \<open>
  C7: A lookup in a table finds every key that was put into it: \<open>InternalGet\<close> calls the handler with the key
  and its value, through the index, the filter, which never hides a stored key, and the block.  For every
  other key it calls the handler at most once, with the first entry at or after the key, or not at all; the
  status is OK.  Blocks are read from the file, without a block cache.
\<close>

theorem table_get_finds:
  assumes "table_build F good contents flushed options valid N B" "good f" "contents f = []"
    and "sorted_entries (o_comparator options) valid es" "table_bound options B es < 2 ^ 32" "length es \<le> N"
    and "build_table F options f es = Some (s, r)" "status_ok s" "random_access_file R (contents (tb_file r))" "valid k"
  shows "\<exists>t arg'. Table_Open options R (word_of_nat (length (contents (tb_file r)))) new_id = Some (status_OK, Some t) \<and>
    InternalGet t read_options k h None arg c = Some (status_OK, arg', c) \<and> ((k, v) \<in> set es \<longrightarrow> arg' = h arg k v) \<and>
    (arg' = arg \<or> (\<exists>n < length es. n = seek_index (Compare (o_comparator options)) es k \<and>
      arg' = h arg (fst (es ! n)) (snd (es ! n))))"
proof -
  let ?C = "o_comparator options"
  have laws: "comparator_laws ?C valid" using assms(1) by (simp add: table_build_def)
  obtain bs ks where es: "es = concat (map fst bs)"
    and table: "table_file ?C valid (o_filter_policy options) bs ks (contents (tb_file r))"
    using table_build.build_table [OF assms(1-6)] assms(7,8) by auto
  obtain t where t: "Table_Open options R (word_of_nat (length (contents (tb_file r)))) new_id = Some (status_OK, Some t)"
    "table_ok bs ks R options t" using comparator_laws.open_table [OF laws assms(9) table, of new_id] by (elim exE conjE) (rule that)
  show ?thesis
    using comparator_laws.internal_get [OF laws assms(9) table t(2) refl assms(10), of read_options h arg c v, folded es] t(1)
    by auto
qed

lemma table_get_finds_witness:
  "\<exists>r t. build_table (posix_writable disk_posix) (bloom_options 10) (PosixWritableFile_new [] 3 empty_disk) small_entries = Some (status_OK, r) \<and>
    Table_Open (bloom_options 10) (mmap_random_access disk_posix \<lparr>mmap_base = file_contents d_written (tb_file r), mm_filename = []\<rparr>)
      (word_of_nat (length (file_contents d_written (tb_file r)))) 5 = Some (status_OK, Some t) \<and>
    InternalGet t ReadOptions_new [3] (\<lambda>found key val. found @ [(key, val)]) None [] () = Some (status_OK, [([3], [8, 9])], ())"
proof -
  obtain r where r: "build_table (posix_writable disk_posix) (bloom_options 10) (PosixWritableFile_new [] 3 empty_disk) small_entries = Some (status_OK, r)"
    using small_table_written by blast
  have stored: "([3], [8, 9]) \<in> set small_entries" by (simp add: small_entries_def)
  show ?thesis
    using table_get_finds [OF bloom_table.table_build_axioms small_table r status_ok_simps(1)
        mmap_file.random_access_file_axioms [of disk_posix _ "[]"] TrueI, where k = "[3]" and new_id = 5 and
        read_options = ReadOptions_new and h = "\<lambda>found key val. found @ [(key, val)]" and arg = "[]" and c = "()" and v = "[8, 9]"]
      r stored by auto
qed

end
