(* ===== verification/LDB_Filename.thy ===== *)
theory LDB_Filename
  imports LDB_Key_Props "HOL-Library.Monad_Syntax"
begin

text \<open>
  LevelDB: the names of the files of a database, \<open>db/filename.h\<close> and \<open>db/filename.cc\<close>, and writing a small file
  through an environment, \<open>util/env.cc\<close>.  A failing assertion has no result.
\<close>

section \<open>Names\<close>

datatype FileType = kLogFile | kDBLockFile | kTableFile | kDescriptorFile | kCurrentFile | kTempFile | kInfoLogFile

text \<open>The conversion \<open>%06llu\<close>.\<close>

definition six_digits :: "u64 \<Rightarrow> u8 list" where
  "six_digits number = (let ds = chars (decimal (unat number)) in replicate (6 - length ds) 48 @ ds)"

definition MakeFileName :: "u8 list \<Rightarrow> u64 \<Rightarrow> string \<Rightarrow> u8 list" where
  "MakeFileName dbname number suffix = dbname @ chars ''/'' @ six_digits number @ chars ''.'' @ chars suffix"

definition LogFileName :: "u8 list \<Rightarrow> u64 \<Rightarrow> u8 list option" where
  "LogFileName dbname number = (if \<not> number > 0 then None else Some (MakeFileName dbname number ''log''))"

definition TableFileName :: "u8 list \<Rightarrow> u64 \<Rightarrow> u8 list option" where
  "TableFileName dbname number = (if \<not> number > 0 then None else Some (MakeFileName dbname number ''ldb''))"

definition SSTTableFileName :: "u8 list \<Rightarrow> u64 \<Rightarrow> u8 list option" where
  "SSTTableFileName dbname number = (if \<not> number > 0 then None else Some (MakeFileName dbname number ''sst''))"

definition DescriptorFileName :: "u8 list \<Rightarrow> u64 \<Rightarrow> u8 list option" where
  "DescriptorFileName dbname number =
     (if \<not> number > 0 then None else Some (dbname @ chars ''/MANIFEST-'' @ six_digits number))"

definition CurrentFileName :: "u8 list \<Rightarrow> u8 list" where "CurrentFileName dbname = dbname @ chars ''/CURRENT''"
definition LockFileName :: "u8 list \<Rightarrow> u8 list" where "LockFileName dbname = dbname @ chars ''/LOCK''"

definition TempFileName :: "u8 list \<Rightarrow> u64 \<Rightarrow> u8 list option" where
  "TempFileName dbname number = (if \<not> number > 0 then None else Some (MakeFileName dbname number ''dbtmp''))"

definition InfoLogFileName :: "u8 list \<Rightarrow> u8 list" where "InfoLogFileName dbname = dbname @ chars ''/LOG''"
definition OldInfoLogFileName :: "u8 list \<Rightarrow> u8 list" where "OldInfoLogFileName dbname = dbname @ chars ''/LOG.old''"

text \<open>The number and the type; both are assigned only when the result is true.\<close>

definition ParseFileName :: "u8 list \<Rightarrow> (u64 \<times> FileType) option" where
  "ParseFileName filename =
     (let rest = filename in
      if slice_eq rest (chars ''CURRENT'') then Some (0, kCurrentFile)
      else if slice_eq rest (chars ''LOCK'') then Some (0, kDBLockFile)
      else if slice_eq rest (chars ''LOG'') \<or> slice_eq rest (chars ''LOG.old'') then Some (0, kInfoLogFile)
      else if starts_with rest (chars ''MANIFEST-'') then
        let rest = remove_prefix rest (length (chars ''MANIFEST-'')) in
        (case ConsumeDecimalNumber rest of
           (True, Some num, rest) \<Rightarrow> if rest \<noteq> [] then None else Some (num, kDescriptorFile)
         | _ \<Rightarrow> None)
      else
        (case ConsumeDecimalNumber rest of
           (True, Some num, suffix) \<Rightarrow>
             if slice_eq suffix (chars ''.log'') then Some (num, kLogFile)
             else if slice_eq suffix (chars ''.sst'') \<or> slice_eq suffix (chars ''.ldb'') then Some (num, kTableFile)
             else if slice_eq suffix (chars ''.dbtmp'') then Some (num, kTempFile)
             else None
         | _ \<Rightarrow> None))"

section \<open>Small files\<close>

text \<open>
  What the code uses of an environment and of its files: \<open>'e\<close> is the state behind the environment, \<open>'f\<close> a
  writable file and \<open>'q\<close> a sequential one.  Deleting a file object closes it.
\<close>

record ('e, 'f, 'q) Env =
  NewWritableFile :: "slice \<Rightarrow> 'e \<Rightarrow> Status \<times> 'f \<times> 'e"
  NewSequentialFile :: "slice \<Rightarrow> 'e \<Rightarrow> Status \<times> 'q \<times> 'e"
  file_Append :: "slice \<Rightarrow> 'f \<Rightarrow> 'e \<Rightarrow> Status \<times> 'f \<times> 'e"
  file_Sync :: "'f \<Rightarrow> 'e \<Rightarrow> Status \<times> 'f \<times> 'e"
  file_Close :: "'f \<Rightarrow> 'e \<Rightarrow> Status \<times> 'f \<times> 'e"
  file_delete :: "'f \<Rightarrow> 'e \<Rightarrow> 'e"
  file_Read :: "nat \<Rightarrow> 'q \<Rightarrow> 'e \<Rightarrow> Status \<times> slice \<times> 'q \<times> 'e"
  sequential_delete :: "'q \<Rightarrow> 'e \<Rightarrow> 'e"
  RenameFile :: "slice \<Rightarrow> slice \<Rightarrow> 'e \<Rightarrow> Status \<times> 'e"
  DeleteFile :: "slice \<Rightarrow> 'e \<Rightarrow> Status \<times> 'e"

definition DoWriteStringToFile :: "('e, 'f, 'q) Env \<Rightarrow> slice \<Rightarrow> slice \<Rightarrow> bool \<Rightarrow> 'e \<Rightarrow> Status \<times> 'e" where
  "DoWriteStringToFile E data fname should_sync e =
     (let (s, f, e) = NewWritableFile E fname e in
      if \<not> status_ok s then (s, e)
      else
        let (s, f, e) = file_Append E data f e;
            (s, f, e) = (if status_ok s \<and> should_sync then file_Sync E f e else (s, f, e));
            (s, f, e) = (if status_ok s then file_Close E f e else (s, f, e));
            e = file_delete E f e
        in if \<not> status_ok s then (s, snd (DeleteFile E fname e)) else (s, e))"

definition WriteStringToFile :: "('e, 'f, 'q) Env \<Rightarrow> slice \<Rightarrow> slice \<Rightarrow> 'e \<Rightarrow> Status \<times> 'e" where
  "WriteStringToFile E data fname e = DoWriteStringToFile E data fname False e"

definition WriteStringToFileSync :: "('e, 'f, 'q) Env \<Rightarrow> slice \<Rightarrow> slice \<Rightarrow> 'e \<Rightarrow> Status \<times> 'e" where
  "WriteStringToFileSync E data fname e = DoWriteStringToFile E data fname True e"

definition read_file_step ::
  "('e, 'f, 'q) Env \<Rightarrow> slice \<times> 'q \<times> 'e \<Rightarrow> ((Status \<times> slice \<times> 'q \<times> 'e) + (slice \<times> 'q \<times> 'e)) option" where
  "read_file_step E = (\<lambda>(data, q, e).
     let (s, fragment, q, e) = file_Read E 8192 q e in
     if \<not> status_ok s then Some (Inl (s, data, q, e))
     else if fragment = [] then Some (Inl (s, data @ fragment, q, e))
     else Some (Inr (data @ fragment, q, e)))"

definition ReadFileToString :: "('e, 'f, 'q) Env \<Rightarrow> slice \<Rightarrow> 'e \<Rightarrow> (Status \<times> slice \<times> 'e) option" where
  "ReadFileToString E fname e =
     (let (s, q, e) = NewSequentialFile E fname e in
      if \<not> status_ok s then Some (s, [], e)
      else map_option (\<lambda>(s, data, q, e). (s, data, sequential_delete E q e)) (c_loop (read_file_step E) ([], q, e)))"

definition SetCurrentFile :: "('e, 'f, 'q) Env \<Rightarrow> u8 list \<Rightarrow> u64 \<Rightarrow> 'e \<Rightarrow> (Status \<times> 'e) option" where
  "SetCurrentFile E dbname descriptor_number e = do {
     manifest \<leftarrow> DescriptorFileName dbname descriptor_number;
     if \<not> starts_with manifest (dbname @ chars ''/'') then None
     else do {
       let contents = remove_prefix manifest (length dbname + 1);
       tmp \<leftarrow> TempFileName dbname descriptor_number;
       let (s, e) = WriteStringToFileSync E (contents @ [10]) tmp e;
       let (s, e) = (if status_ok s then RenameFile E tmp (CurrentFileName dbname) e else (s, e));
       Some (if \<not> status_ok s then (s, snd (DeleteFile E tmp e)) else (s, e))
     }
   }"

section \<open>Names are read back\<close>

lemma digits_value_zeros: "digits_value 0 (replicate k 48 @ ds) = digits_value 0 ds"
  by (induction k) simp_all

lemma ConsumeDecimalNumber_six [simp]:
  assumes "rest = [] \<or> \<not> is_digit (hd rest)"
  shows "ConsumeDecimalNumber (six_digits n @ rest) = (True, Some n, rest)"
proof -
  let ?d = "chars (decimal (unat n))"
  let ?z = "replicate (6 - length ?d) 48 @ ?d"
  have "\<forall>c \<in> set ?z. is_digit c" using decimal_digits [of "unat n"] by (auto simp: is_digit_def)
  then have tw: "takeWhile is_digit (?z @ rest) = ?z"
    using assms by (cases rest) (auto simp: takeWhile_append takeWhile_tail simp del: append_assoc)
  have "unat n < 2 ^ 64" by (rule unat_u64_less)
  then show ?thesis
    using decimal_digits [of "unat n"] decimal_not_Nil [of "unat n"]
    unfolding ConsumeDecimalNumber_eq six_digits_def Let_def tw by (simp add: digits_value_zeros)
qed

lemma six_digits_head: "six_digits n \<noteq> [] \<and> is_digit (hd (six_digits n))"
proof -
  have "set (six_digits n) \<subseteq> {c. is_digit c}" using decimal_digits [of "unat n"] by (auto simp: six_digits_def Let_def is_digit_def)
  moreover have "six_digits n \<noteq> []" using decimal_not_Nil [of "unat n"] by (simp add: six_digits_def Let_def)
  ultimately show ?thesis using hd_in_set by blast
qed

text \<open>The fixed names and the prefix of the descriptors do not start with a digit.\<close>

lemma parse_number:
  assumes "suffix = [] \<or> \<not> is_digit (hd suffix)"
  shows "ParseFileName (six_digits n @ suffix) =
    (if suffix = chars ''.log'' then Some (n, kLogFile)
     else if suffix = chars ''.sst'' \<or> suffix = chars ''.ldb'' then Some (n, kTableFile)
     else if suffix = chars ''.dbtmp'' then Some (n, kTempFile) else None)"
proof -
  obtain c cs where c: "six_digits n = c # cs" "is_digit c" using six_digits_head [of n] by (cases "six_digits n") auto
  then have other: "six_digits n @ suffix \<noteq> chars ''CURRENT''" "six_digits n @ suffix \<noteq> chars ''LOCK''"
    "six_digits n @ suffix \<noteq> chars ''LOG''" "six_digits n @ suffix \<noteq> chars ''LOG.old''"
    "\<not> starts_with (six_digits n @ suffix) (chars ''MANIFEST-'')"
    by (auto simp: chars_def is_digit_def starts_with_iff)
  show ?thesis
    unfolding ParseFileName_def Let_def using other ConsumeDecimalNumber_six [OF assms, of n] by simp
qed

lemma parse_descriptor: "ParseFileName (chars ''MANIFEST-'' @ six_digits n) = Some (n, kDescriptorFile)"
proof -
  let ?f = "chars ''MANIFEST-'' @ six_digits n"
  have other: "?f \<noteq> chars ''CURRENT''" "?f \<noteq> chars ''LOCK''" "?f \<noteq> chars ''LOG''" "?f \<noteq> chars ''LOG.old''"
    by (auto simp: chars_def)
  have "starts_with ?f (chars ''MANIFEST-'')" by (auto simp: starts_with_iff)
  moreover have "remove_prefix ?f (length (chars ''MANIFEST-'')) = six_digits n @ []" by (simp add: remove_prefix_def)
  ultimately show ?thesis
    unfolding ParseFileName_def Let_def using other ConsumeDecimalNumber_six [of "[]" n] by (simp del: append_Nil2)
qed

section \<open>Properties\<close>

text \<open>
  C39: The names of a database's files tell what the files are: every name that the functions make for a
  number above 0 is the directory, a slash and a base name, and the parser gives back the number and the type
  for the base name, for all numbers of 64 bits; the names without a number likewise.
\<close>

theorem filename_roundtrip:
  assumes "0 < n"
  shows "(\<exists>b. LogFileName d n = Some (d @ chars ''/'' @ b) \<and> ParseFileName b = Some (n, kLogFile)) \<and>
    (\<exists>b. TableFileName d n = Some (d @ chars ''/'' @ b) \<and> ParseFileName b = Some (n, kTableFile)) \<and>
    (\<exists>b. SSTTableFileName d n = Some (d @ chars ''/'' @ b) \<and> ParseFileName b = Some (n, kTableFile)) \<and>
    (\<exists>b. DescriptorFileName d n = Some (d @ chars ''/'' @ b) \<and> ParseFileName b = Some (n, kDescriptorFile)) \<and>
    (\<exists>b. TempFileName d n = Some (d @ chars ''/'' @ b) \<and> ParseFileName b = Some (n, kTempFile)) \<and>
    (\<exists>b. CurrentFileName d = d @ chars ''/'' @ b \<and> ParseFileName b = Some (0, kCurrentFile)) \<and>
    (\<exists>b. LockFileName d = d @ chars ''/'' @ b \<and> ParseFileName b = Some (0, kDBLockFile)) \<and>
    (\<exists>b. InfoLogFileName d = d @ chars ''/'' @ b \<and> ParseFileName b = Some (0, kInfoLogFile)) \<and>
    (\<exists>b. OldInfoLogFileName d = d @ chars ''/'' @ b \<and> ParseFileName b = Some (0, kInfoLogFile))"
proof -
  have num: "ParseFileName (six_digits n @ chars ''.'' @ chars s) =
      (if s = ''log'' then Some (n, kLogFile) else if s = ''sst'' \<or> s = ''ldb'' then Some (n, kTableFile)
       else if s = ''dbtmp'' then Some (n, kTempFile) else None)" if "s \<in> {''log'', ''sst'', ''ldb'', ''dbtmp''}" for s
    using that parse_number [of "chars ''.'' @ chars s" n] by (auto simp: chars_def is_digit_def)
  have names: "chars ''/CURRENT'' = chars ''/'' @ chars ''CURRENT''" "chars ''/LOCK'' = chars ''/'' @ chars ''LOCK''"
    "chars ''/LOG'' = chars ''/'' @ chars ''LOG''" "chars ''/LOG.old'' = chars ''/'' @ chars ''LOG.old''"
    "chars ''/MANIFEST-'' = chars ''/'' @ chars ''MANIFEST-''"
    by (simp_all add: chars_def)
  have fixed: "ParseFileName (chars ''CURRENT'') = Some (0, kCurrentFile)" "ParseFileName (chars ''LOCK'') = Some (0, kDBLockFile)"
    "ParseFileName (chars ''LOG'') = Some (0, kInfoLogFile)" "ParseFileName (chars ''LOG.old'') = Some (0, kInfoLogFile)"
    by (simp_all add: ParseFileName_def chars_def)
  show ?thesis
    unfolding LogFileName_def TableFileName_def SSTTableFileName_def TempFileName_def DescriptorFileName_def MakeFileName_def
      CurrentFileName_def LockFileName_def InfoLogFileName_def OldInfoLogFileName_def names
    using assms num [of "''log''"] num [of "''ldb''"] num [of "''sst''"] num [of "''dbtmp''"] parse_descriptor [of n] fixed
    by simp
qed

lemma filename_roundtrip_witness:
  "\<exists>b. LogFileName (chars ''db'') 7 = Some (chars ''db'' @ chars ''/'' @ b) \<and> ParseFileName b = Some (7, kLogFile)"
  using filename_roundtrip [of 7 "chars ''db''"] by simp

end
