(* ===== verification/LDB_VersionEdit.thy ===== *)
theory LDB_VersionEdit
  imports LDB_Key_Props PB_Prelude "HOL-Library.Monad_Syntax"
begin

text \<open>
  LevelDB: the edits that turn one version of the set of files into the next, \<open>db/version_edit.h\<close> and
  \<open>db/version_edit.cc\<close>, with their encoding in the descriptor log.
\<close>

section \<open>Edits\<close>

record FileMetaData =
  f_refs :: int
  allowed_seeks :: int
  f_number :: u64
  f_file_size :: u64
  smallest :: "u8 list"
  largest :: "u8 list"

definition FileMetaData_new :: "u64 \<Rightarrow> FileMetaData" where
  "FileMetaData_new number =
     \<lparr>f_refs = 0, allowed_seeks = 2 ^ 30, f_number = number, f_file_size = 0, smallest = [], largest = []\<rparr>"

text \<open>The set of deleted files is kept in ascending order, as \<open>std::set\<close> passes it.\<close>

record VersionEdit =
  ve_comparator :: "u8 list"
  log_number :: u64
  prev_log_number :: u64
  next_file_number :: u64
  last_sequence :: SequenceNumber
  has_comparator :: bool
  has_log_number :: bool
  has_prev_log_number :: bool
  has_next_file_number :: bool
  has_last_sequence :: bool
  compact_pointers :: "(int \<times> u8 list) list"
  deleted_files :: "(int \<times> u64) list"
  new_files :: "(int \<times> FileMetaData) list"

text \<open>\<open>Clear\<close> leaves the compaction pointers alone.\<close>

definition VersionEdit_Clear :: "VersionEdit \<Rightarrow> VersionEdit" where
  "VersionEdit_Clear e = e\<lparr>ve_comparator := [], log_number := 0, prev_log_number := 0, last_sequence := 0,
     next_file_number := 0, has_comparator := False, has_log_number := False, has_prev_log_number := False,
     has_next_file_number := False, has_last_sequence := False, deleted_files := [], new_files := []\<rparr>"

definition VersionEdit_new :: VersionEdit where
  "VersionEdit_new = VersionEdit_Clear \<lparr>ve_comparator = [], log_number = 0, prev_log_number = 0, next_file_number = 0,
     last_sequence = 0, has_comparator = False, has_log_number = False, has_prev_log_number = False,
     has_next_file_number = False, has_last_sequence = False, compact_pointers = [], deleted_files = [], new_files = []\<rparr>"

definition SetComparatorName :: "slice \<Rightarrow> VersionEdit \<Rightarrow> VersionEdit" where
  "SetComparatorName name e = e\<lparr>has_comparator := True, ve_comparator := name\<rparr>"
definition SetLogNumber :: "u64 \<Rightarrow> VersionEdit \<Rightarrow> VersionEdit" where
  "SetLogNumber num e = e\<lparr>has_log_number := True, log_number := num\<rparr>"
definition SetPrevLogNumber :: "u64 \<Rightarrow> VersionEdit \<Rightarrow> VersionEdit" where
  "SetPrevLogNumber num e = e\<lparr>has_prev_log_number := True, prev_log_number := num\<rparr>"
definition SetNextFile :: "u64 \<Rightarrow> VersionEdit \<Rightarrow> VersionEdit" where
  "SetNextFile num e = e\<lparr>has_next_file_number := True, next_file_number := num\<rparr>"
definition SetLastSequence :: "SequenceNumber \<Rightarrow> VersionEdit \<Rightarrow> VersionEdit" where
  "SetLastSequence s e = e\<lparr>has_last_sequence := True, last_sequence := s\<rparr>"
definition SetCompactPointer :: "int \<Rightarrow> u8 list \<Rightarrow> VersionEdit \<Rightarrow> VersionEdit" where
  "SetCompactPointer level key e = e\<lparr>compact_pointers := compact_pointers e @ [(level, key)]\<rparr>"

definition AddFile :: "int \<Rightarrow> u64 \<Rightarrow> u64 \<Rightarrow> u8 list \<Rightarrow> u8 list \<Rightarrow> VersionEdit \<Rightarrow> VersionEdit" where
  "AddFile level fnum file_size small large e =
     (let f = (FileMetaData_new fnum)\<lparr>f_file_size := file_size, smallest := small, largest := large\<rparr>
      in e\<lparr>new_files := new_files e @ [(level, f)]\<rparr>)"

definition pair_less :: "int \<times> u64 \<Rightarrow> int \<times> u64 \<Rightarrow> bool" where
  "pair_less a b \<longleftrightarrow> fst a < fst b \<or> (fst a = fst b \<and> snd a < snd b)"

fun set_insert :: "int \<times> u64 \<Rightarrow> (int \<times> u64) list \<Rightarrow> (int \<times> u64) list" where
  "set_insert x [] = [x]"
| "set_insert x (y # ys) = (if pair_less x y then x # y # ys else if pair_less y x then y # set_insert x ys else y # ys)"

definition edit_DeleteFile :: "int \<Rightarrow> u64 \<Rightarrow> VersionEdit \<Rightarrow> VersionEdit" where
  "edit_DeleteFile level fnum e = e\<lparr>deleted_files := set_insert (level, fnum) (deleted_files e)\<rparr>"

section \<open>The encoding\<close>

definition kComparator :: u32 where "kComparator = 1"
definition kLogNumber :: u32 where "kLogNumber = 2"
definition kNextFileNumber :: u32 where "kNextFileNumber = 3"
definition kLastSequence :: u32 where "kLastSequence = 4"
definition kCompactPointer :: u32 where "kCompactPointer = 5"
definition kDeletedFile :: u32 where "kDeletedFile = 6"
definition kNewFile :: u32 where "kNewFile = 7"
definition kPrevLogNumber :: u32 where "kPrevLogNumber = 9"

fun put_compact_pointers :: "u8 list \<Rightarrow> (int \<times> u8 list) list \<Rightarrow> u8 list option" where
  "put_compact_pointers dst [] = Some dst"
| "put_compact_pointers dst ((level, key) # ps) = do {
     let dst = PutVarint32 dst kCompactPointer;
     let dst = PutVarint32 dst (word_of_int level);
     k \<leftarrow> InternalKey_Encode key;
     put_compact_pointers (PutLengthPrefixedSlice dst k) ps
   }"

fun put_deleted_files :: "u8 list \<Rightarrow> (int \<times> u64) list \<Rightarrow> u8 list" where
  "put_deleted_files dst [] = dst"
| "put_deleted_files dst ((level, num) # fs) =
     (let dst = PutVarint32 dst kDeletedFile;
          dst = PutVarint32 dst (word_of_int level);
          dst = PutVarint64 dst num
      in put_deleted_files dst fs)"

fun put_new_files :: "u8 list \<Rightarrow> (int \<times> FileMetaData) list \<Rightarrow> u8 list option" where
  "put_new_files dst [] = Some dst"
| "put_new_files dst ((level, f) # fs) = do {
     let dst = PutVarint32 dst kNewFile;
     let dst = PutVarint32 dst (word_of_int level);
     let dst = PutVarint64 dst (f_number f);
     let dst = PutVarint64 dst (f_file_size f);
     k \<leftarrow> InternalKey_Encode (smallest f);
     let dst = PutLengthPrefixedSlice dst k;
     k \<leftarrow> InternalKey_Encode (largest f);
     put_new_files (PutLengthPrefixedSlice dst k) fs
   }"

definition VersionEdit_EncodeTo :: "u8 list \<Rightarrow> VersionEdit \<Rightarrow> u8 list option" where
  "VersionEdit_EncodeTo dst e = do {
     let dst = (if has_comparator e then PutLengthPrefixedSlice (PutVarint32 dst kComparator) (ve_comparator e) else dst);
     let dst = (if has_log_number e then PutVarint64 (PutVarint32 dst kLogNumber) (log_number e) else dst);
     let dst = (if has_prev_log_number e then PutVarint64 (PutVarint32 dst kPrevLogNumber) (prev_log_number e) else dst);
     let dst = (if has_next_file_number e then PutVarint64 (PutVarint32 dst kNextFileNumber) (next_file_number e) else dst);
     let dst = (if has_last_sequence e then PutVarint64 (PutVarint32 dst kLastSequence) (last_sequence e) else dst);
     dst \<leftarrow> put_compact_pointers dst (compact_pointers e);
     let dst = put_deleted_files dst (deleted_files e);
     put_new_files dst (new_files e)
   }"

text \<open>The value, when it was there, and the input afterwards.\<close>

definition GetInternalKey :: "slice \<Rightarrow> u8 list option \<times> slice" where
  "GetInternalKey input = GetLengthPrefixedSlice input"

definition GetLevel :: "slice \<Rightarrow> int option \<times> slice" where
  "GetLevel input = (case GetVarint32 input of
       (Some v, input) \<Rightarrow> (if v < word_of_nat kNumLevels then Some (uint v) else None, input)
     | (None, input) \<Rightarrow> (None, input))"

text \<open>
  One turn of the loop: the edit and the input afterwards, and the message when there was an error.  The
  temporary variables are assigned before they are used in each turn.
\<close>

definition decode_tag :: "u32 \<Rightarrow> slice \<Rightarrow> VersionEdit \<Rightarrow> string option \<times> slice \<times> VersionEdit" where
  "decode_tag tag input e =
     (if tag = kComparator then
        (case GetLengthPrefixedSlice input of
           (Some str, input) \<Rightarrow> (None, input, e\<lparr>ve_comparator := str, has_comparator := True\<rparr>)
         | (None, input) \<Rightarrow> (Some ''comparator name'', input, e))
      else if tag = kLogNumber then
        (case GetVarint64 input of (Some n, input) \<Rightarrow> (None, input, e\<lparr>log_number := n, has_log_number := True\<rparr>)
         | (None, input) \<Rightarrow> (Some ''log number'', input, e))
      else if tag = kPrevLogNumber then
        (case GetVarint64 input of (Some n, input) \<Rightarrow> (None, input, e\<lparr>prev_log_number := n, has_prev_log_number := True\<rparr>)
         | (None, input) \<Rightarrow> (Some ''previous log number'', input, e))
      else if tag = kNextFileNumber then
        (case GetVarint64 input of (Some n, input) \<Rightarrow> (None, input, e\<lparr>next_file_number := n, has_next_file_number := True\<rparr>)
         | (None, input) \<Rightarrow> (Some ''next file number'', input, e))
      else if tag = kLastSequence then
        (case GetVarint64 input of (Some n, input) \<Rightarrow> (None, input, e\<lparr>last_sequence := n, has_last_sequence := True\<rparr>)
         | (None, input) \<Rightarrow> (Some ''last sequence number'', input, e))
      else if tag = kCompactPointer then
        (case GetLevel input of
           (Some level, input) \<Rightarrow>
             (case GetInternalKey input of
                (Some key, input) \<Rightarrow> (None, input, e\<lparr>compact_pointers := compact_pointers e @ [(level, key)]\<rparr>)
              | (None, input) \<Rightarrow> (Some ''compaction pointer'', input, e))
         | (None, input) \<Rightarrow> (Some ''compaction pointer'', input, e))
      else if tag = kDeletedFile then
        (case GetLevel input of
           (Some level, input) \<Rightarrow>
             (case GetVarint64 input of
                (Some num, input) \<Rightarrow> (None, input, e\<lparr>deleted_files := set_insert (level, num) (deleted_files e)\<rparr>)
              | (None, input) \<Rightarrow> (Some ''deleted file'', input, e))
         | (None, input) \<Rightarrow> (Some ''deleted file'', input, e))
      else if tag = kNewFile then
        (let bad = (\<lambda>input. (Some ''new-file entry'', input, e)) in
         case GetLevel input of
           (None, input) \<Rightarrow> bad input
         | (Some level, input) \<Rightarrow>
             (case GetVarint64 input of
                (None, input) \<Rightarrow> bad input
              | (Some num, input) \<Rightarrow>
                  (case GetVarint64 input of
                     (None, input) \<Rightarrow> bad input
                   | (Some sz, input) \<Rightarrow>
                       (case GetInternalKey input of
                          (None, input) \<Rightarrow> bad input
                        | (Some small, input) \<Rightarrow>
                            (case GetInternalKey input of
                               (None, input) \<Rightarrow> bad input
                             | (Some large, input) \<Rightarrow>
                                 (None, input, e\<lparr>new_files := new_files e @ [(level, (FileMetaData_new num)\<lparr>
                                    f_file_size := sz, smallest := small, largest := large\<rparr>)]\<rparr>))))))
      else (Some ''unknown tag'', input, e))"

definition decode_edit_step ::
  "slice \<times> VersionEdit \<Rightarrow> (string option \<times> slice \<times> VersionEdit + slice \<times> VersionEdit) option" where
  "decode_edit_step = (\<lambda>(input, e).
     case GetVarint32 input of
       (None, input) \<Rightarrow> Some (Inl (None, input, e))
     | (Some tag, input) \<Rightarrow>
         (case decode_tag tag input e of
            (None, input, e) \<Rightarrow> Some (Inr (input, e))
          | (Some msg, input, e) \<Rightarrow> Some (Inl (Some msg, input, e))))"

definition VersionEdit_DecodeFrom :: "slice \<Rightarrow> VersionEdit \<Rightarrow> (Status \<times> VersionEdit) option" where
  "VersionEdit_DecodeFrom src e =
     (let e = VersionEdit_Clear e in
      case c_loop decode_edit_step (src, e) of None \<Rightarrow> None
      | Some (msg, input, e) \<Rightarrow>
          let msg = (if msg = None \<and> input \<noteq> [] then Some ''invalid tag'' else msg) in
          Some (case msg of None \<Rightarrow> status_OK | Some m \<Rightarrow> Corruption (chars ''VersionEdit'') (chars m), e))"

text \<open>The text of an edit.\<close>

definition VersionEdit_DebugString :: "VersionEdit \<Rightarrow> u8 list" where
  "VersionEdit_DebugString e =
     (let nl = (\<lambda>s. 10 # chars s);
          number = (\<lambda>has title n. if has then nl title @ NumberToString n else [])
      in chars ''VersionEdit {'' @
         (if has_comparator e then nl ''  Comparator: '' @ ve_comparator e else []) @
         number (has_log_number e) ''  LogNumber: '' (log_number e) @
         number (has_prev_log_number e) ''  PrevLogNumber: '' (prev_log_number e) @
         number (has_next_file_number e) ''  NextFile: '' (next_file_number e) @
         number (has_last_sequence e) ''  LastSeq: '' (last_sequence e) @
         concat (map (\<lambda>(level, key). nl ''  CompactPointer: '' @ NumberToString (word_of_int level) @ chars '' '' @
           InternalKey_DebugString key) (compact_pointers e)) @
         concat (map (\<lambda>(level, n). nl ''  DeleteFile: '' @ NumberToString (word_of_int level) @ chars '' '' @
           NumberToString n) (deleted_files e)) @
         concat (map (\<lambda>(level, f). nl ''  AddFile: '' @ NumberToString (word_of_int level) @ chars '' '' @
           NumberToString (f_number f) @ chars '' '' @ NumberToString (f_file_size f) @ chars '' '' @
           InternalKey_DebugString (smallest f) @ chars '' .. '' @ InternalKey_DebugString (largest f)) (new_files e)) @
         [10] @ chars ''}'' @ [10])"

section \<open>Decoding ends\<close>

lemma GetLengthPrefixedSlice_shorter: "length (snd (GetLengthPrefixedSlice input)) \<le> length input"
proof -
  obtain v rest where v: "GetVarint32 input = (v, rest)" by fastforce
  have "length rest \<le> length input"
    using v GetVarint_suffix(1) [of input _ rest] by (cases v) (fastforce simp: GetVarint32_def split: option.splits)+
  then show ?thesis using v by (auto simp: GetLengthPrefixedSlice_def remove_prefix_def split: option.splits)
qed

lemma GetVarint_shorter: "length (snd (GetVarint32 input)) \<le> length input" "length (snd (GetVarint64 input)) \<le> length input"
proof -
  show "length (snd (GetVarint32 input)) \<le> length input"
    using GetVarint_suffix(1) [of input _ "snd (GetVarint32 input)"] by (fastforce simp: GetVarint32_def split: option.splits)
  show "length (snd (GetVarint64 input)) \<le> length input"
    using GetVarint_suffix(2) [of input _ "snd (GetVarint64 input)"] by (fastforce simp: GetVarint64_def split: option.splits)
qed

lemma GetLevel_shorter: "length (snd (GetLevel input)) \<le> length input"
  using GetVarint_shorter(1) [of input] by (auto simp: GetLevel_def split: prod.splits option.splits)

lemma case_shorter:
  assumes "length (snd p) \<le> n" "\<And>v i. length i \<le> n \<Longrightarrow> length (fst (snd (A v i))) \<le> n"
    and "\<And>i. length i \<le> n \<Longrightarrow> length (fst (snd (B i))) \<le> n"
  shows "length (fst (snd (case p of (Some v, i) \<Rightarrow> A v i | (None, i) \<Rightarrow> B i))) \<le> n"
  using assms by (cases p; cases "fst p") simp_all

lemma decode_tag_shorter: "length (fst (snd (decode_tag tag input e))) \<le> length input"
  unfolding decode_tag_def GetInternalKey_def Let_def
  by (simp only: if_split_asm split: if_split)
    (intro conjI impI case_shorter le_trans [OF GetLengthPrefixedSlice_shorter] le_trans [OF GetVarint_shorter(2)]
      le_trans [OF GetLevel_shorter]; simp)

lemma decode_edit_ends: "\<exists>r. c_loop decode_edit_step s = Some r \<and> True"
proof (rule c_loop_rule [where I = "\<lambda>_. True" and m = "\<lambda>s. length (fst s)"])
  fix s :: "slice \<times> VersionEdit"
  obtain input e where s: "s = (input, e)" by fastforce
  obtain t rest where t: "GetVarint32 input = (t, rest)" by fastforce
  show "\<exists>x. decode_edit_step s = Some x \<and> (case x of Inl r \<Rightarrow> True | Inr s' \<Rightarrow> True \<and> length (fst s') < length (fst s))"
  proof (cases t)
    case None
    then show ?thesis using s t by (simp add: decode_edit_step_def)
  next
    case (Some tag)
    obtain msg input' e' where d: "decode_tag tag rest e = (msg, input', e')" by (cases "decode_tag tag rest e") auto
    have "length rest < length input" using GetVarint_suffix(1) t Some by fastforce
    then show ?thesis using s t Some d decode_tag_shorter [of tag rest e] by (cases msg) (simp_all add: decode_edit_step_def)
  qed
qed simp

section \<open>Decoding what was encoded\<close>

definition level_ok :: "int \<Rightarrow> bool" where
  "level_ok level \<longleftrightarrow> 0 \<le> level \<and> level < int kNumLevels"

definition key_ok :: "u8 list \<Rightarrow> bool" where
  "key_ok key \<longleftrightarrow> key \<noteq> [] \<and> length key < 2 ^ 32"

text \<open>The edits that the setters make, with levels in range and keys that are not empty.\<close>

definition edit_ok :: "VersionEdit \<Rightarrow> bool" where
  "edit_ok e \<longleftrightarrow> (\<not> has_comparator e \<longrightarrow> ve_comparator e = []) \<and> length (ve_comparator e) < 2 ^ 32 \<and>
     (\<not> has_log_number e \<longrightarrow> log_number e = 0) \<and> (\<not> has_prev_log_number e \<longrightarrow> prev_log_number e = 0) \<and>
     (\<not> has_next_file_number e \<longrightarrow> next_file_number e = 0) \<and> (\<not> has_last_sequence e \<longrightarrow> last_sequence e = 0) \<and>
     (\<forall>(l, k) \<in> set (compact_pointers e). level_ok l \<and> key_ok k) \<and>
     sorted_wrt pair_less (deleted_files e) \<and> (\<forall>(l, n) \<in> set (deleted_files e). level_ok l) \<and>
     (\<forall>(l, f) \<in> set (new_files e). level_ok l \<and> key_ok (smallest f) \<and> key_ok (largest f) \<and> f_refs f = 0 \<and> allowed_seeks f = 2 ^ 30)"

definition decodes :: "u8 list \<Rightarrow> VersionEdit \<Rightarrow> VersionEdit \<Rightarrow> bool" where
  "decodes b e e' \<longleftrightarrow> (\<forall>rest. c_loop decode_edit_step (b @ rest, e) = c_loop decode_edit_step (rest, e'))"

lemma decodes_Nil: "decodes [] e e"
  by (simp add: decodes_def)

lemma decodes_append: "decodes a e e1 \<Longrightarrow> decodes b e1 e2 \<Longrightarrow> decodes (a @ b) e e2"
  by (simp add: decodes_def)

lemma decodes_item:
  assumes "\<And>rest. decode_tag tag (b @ rest) e = (None, rest, e')"
  shows "decodes (EncodeVarint32 tag @ b) e e'"
  unfolding decodes_def
proof
  fix rest
  have "decode_edit_step ((EncodeVarint32 tag @ b) @ rest, e) = Some (Inr (rest, e'))"
    using assms [of rest] by (simp add: decode_edit_step_def)
  then show "c_loop decode_edit_step ((EncodeVarint32 tag @ b) @ rest, e) = c_loop decode_edit_step (rest, e')"
    by (rule c_loop_unfold(2))
qed

lemmas tag_defs = kComparator_def kLogNumber_def kNextFileNumber_def kLastSequence_def kCompactPointer_def kDeletedFile_def
  kNewFile_def kPrevLogNumber_def

lemma GetLevel_bytes: "level_ok l \<Longrightarrow> GetLevel (EncodeVarint32 (word_of_int l) @ rest) = (Some l, rest)"
  by (auto simp: GetLevel_def level_ok_def kNumLevels_def word_less_def uint_word_of_int)

lemma decode_numbers:
  "decodes (EncodeVarint32 kLogNumber @ EncodeVarint64 n) e (e\<lparr>log_number := n, has_log_number := True\<rparr>)"
  "decodes (EncodeVarint32 kPrevLogNumber @ EncodeVarint64 n) e (e\<lparr>prev_log_number := n, has_prev_log_number := True\<rparr>)"
  "decodes (EncodeVarint32 kNextFileNumber @ EncodeVarint64 n) e (e\<lparr>next_file_number := n, has_next_file_number := True\<rparr>)"
  "decodes (EncodeVarint32 kLastSequence @ EncodeVarint64 n) e (e\<lparr>last_sequence := n, has_last_sequence := True\<rparr>)"
  by (rule decodes_item, simp add: decode_tag_def tag_defs)+

lemma decode_comparator:
  "length s < 2 ^ 32 \<Longrightarrow> decodes (EncodeVarint32 kComparator @ PutLengthPrefixedSlice [] s) e (e\<lparr>ve_comparator := s, has_comparator := True\<rparr>)"
  by (rule decodes_item, simp add: decode_tag_def tag_defs)

definition pointer_bytes :: "int \<times> u8 list \<Rightarrow> u8 list" where
  "pointer_bytes = (\<lambda>(l, k). EncodeVarint32 kCompactPointer @ EncodeVarint32 (word_of_int l) @ PutLengthPrefixedSlice [] k)"

definition deleted_bytes :: "int \<times> u64 \<Rightarrow> u8 list" where
  "deleted_bytes = (\<lambda>(l, n). EncodeVarint32 kDeletedFile @ EncodeVarint32 (word_of_int l) @ EncodeVarint64 n)"

definition file_bytes :: "int \<times> FileMetaData \<Rightarrow> u8 list" where
  "file_bytes = (\<lambda>(l, f). EncodeVarint32 kNewFile @ EncodeVarint32 (word_of_int l) @ EncodeVarint64 (f_number f) @
     EncodeVarint64 (f_file_size f) @ PutLengthPrefixedSlice [] (smallest f) @ PutLengthPrefixedSlice [] (largest f))"

lemma put_pointers:
  "\<forall>(l, k) \<in> set ps. key_ok k \<Longrightarrow> put_compact_pointers dst ps = Some (dst @ concat (map pointer_bytes ps))"
  by (induction dst ps rule: put_compact_pointers.induct)
    (auto simp: pointer_bytes_def key_ok_def InternalKey_Encode_def PutVarint32_def PutLengthPrefixedSlice_append [of "_ @ _"])

lemma put_deleted: "put_deleted_files dst fs = dst @ concat (map deleted_bytes fs)"
  by (induction dst fs rule: put_deleted_files.induct) (simp_all add: deleted_bytes_def PutVarint32_def PutVarint64_def Let_def)

lemma put_files:
  "\<forall>(l, f) \<in> set fs. key_ok (smallest f) \<and> key_ok (largest f) \<Longrightarrow> put_new_files dst fs = Some (dst @ concat (map file_bytes fs))"
  by (induction dst fs rule: put_new_files.induct)
    (auto simp: file_bytes_def key_ok_def InternalKey_Encode_def PutVarint32_def PutVarint64_def PutLengthPrefixedSlice_append [of "_ @ _"])

lemma decode_pointers:
  "\<forall>(l, k) \<in> set ps. level_ok l \<and> key_ok k \<Longrightarrow>
   decodes (concat (map pointer_bytes ps)) e (e\<lparr>compact_pointers := compact_pointers e @ ps\<rparr>)"
proof (induction ps arbitrary: e)
  case (Cons p ps)
  obtain l k where p: "p = (l, k)" "level_ok l" "key_ok k" using Cons.prems by (cases p) auto
  have "decodes (pointer_bytes p) e (e\<lparr>compact_pointers := compact_pointers e @ [p]\<rparr>)"
    unfolding p(1) pointer_bytes_def prod.case
    by (rule decodes_item) (use p(2,3) in \<open>simp add: decode_tag_def tag_defs GetInternalKey_def GetLevel_bytes key_ok_def\<close>)
  from decodes_append [OF this Cons.IH] Cons.prems show ?case by simp
qed (simp add: decodes_Nil)

lemma set_insert_last: "\<forall>y \<in> set ys. pair_less y x \<Longrightarrow> set_insert x ys = ys @ [x]"
  by (induction ys) (auto simp: pair_less_def)

lemma decode_deleted:
  "\<forall>(l, n) \<in> set fs. level_ok l \<Longrightarrow> sorted_wrt pair_less (deleted_files e @ fs) \<Longrightarrow>
   decodes (concat (map deleted_bytes fs)) e (e\<lparr>deleted_files := deleted_files e @ fs\<rparr>)"
proof (induction fs arbitrary: e)
  case (Cons p fs)
  obtain l n where p: "p = (l, n)" "level_ok l" using Cons.prems by (cases p) auto
  have ins: "set_insert (l, n) (deleted_files e) = deleted_files e @ [(l, n)]"
    using Cons.prems(2) p(1) by (intro set_insert_last) (simp add: sorted_wrt_append)
  have "decodes (deleted_bytes p) e (e\<lparr>deleted_files := deleted_files e @ [p]\<rparr>)"
    unfolding p(1) deleted_bytes_def prod.case
    by (rule decodes_item) (use p(2) ins in \<open>simp add: decode_tag_def tag_defs GetLevel_bytes\<close>)
  from decodes_append [OF this Cons.IH] Cons.prems show ?case by simp
qed (simp add: decodes_Nil)

lemma decode_files:
  "\<forall>(l, f) \<in> set fs. level_ok l \<and> key_ok (smallest f) \<and> key_ok (largest f) \<and> f_refs f = 0 \<and> allowed_seeks f = 2 ^ 30 \<Longrightarrow>
   decodes (concat (map file_bytes fs)) e (e\<lparr>new_files := new_files e @ fs\<rparr>)"
proof (induction fs arbitrary: e)
  case (Cons p fs)
  obtain l f where p: "p = (l, f)" "level_ok l" "key_ok (smallest f)" "key_ok (largest f)" "f_refs f = 0" "allowed_seeks f = 2 ^ 30"
    using Cons.prems by (cases p) auto
  have f: "f = (FileMetaData_new (f_number f))\<lparr>f_file_size := f_file_size f, smallest := smallest f, largest := largest f\<rparr>"
    using p(5,6) by (cases f) (simp add: FileMetaData_new_def)
  have "decodes (file_bytes p) e (e\<lparr>new_files := new_files e @ [p]\<rparr>)"
    unfolding p(1) file_bytes_def prod.case
    by (rule decodes_item) (use p(2-4) f in \<open>simp add: decode_tag_def tag_defs GetInternalKey_def GetLevel_bytes key_ok_def\<close>)
  from decodes_append [OF this Cons.IH] Cons.prems show ?case by simp
qed (simp add: decodes_Nil)

lemma encode_bytes:
  assumes "edit_ok e"
  shows "VersionEdit_EncodeTo [] e = Some (
    (if has_comparator e then EncodeVarint32 kComparator @ PutLengthPrefixedSlice [] (ve_comparator e) else []) @
    (if has_log_number e then EncodeVarint32 kLogNumber @ EncodeVarint64 (log_number e) else []) @
    (if has_prev_log_number e then EncodeVarint32 kPrevLogNumber @ EncodeVarint64 (prev_log_number e) else []) @
    (if has_next_file_number e then EncodeVarint32 kNextFileNumber @ EncodeVarint64 (next_file_number e) else []) @
    (if has_last_sequence e then EncodeVarint32 kLastSequence @ EncodeVarint64 (last_sequence e) else []) @
    concat (map pointer_bytes (compact_pointers e)) @ concat (map deleted_bytes (deleted_files e)) @
    concat (map file_bytes (new_files e)))"
proof -
  have "\<forall>(l, k) \<in> set (compact_pointers e). key_ok k" "\<forall>(l, f) \<in> set (new_files e). key_ok (smallest f) \<and> key_ok (largest f)"
    using assms by (auto simp: edit_ok_def)
  then show ?thesis
    by (simp add: VersionEdit_EncodeTo_def put_pointers put_deleted put_files PutVarint32_def PutVarint64_def
        PutLengthPrefixedSlice_append [of "EncodeVarint32 kComparator"])
qed

lemma decodes_encoded:
  assumes "edit_ok e" "VersionEdit_EncodeTo [] e = Some bytes"
  shows "decodes bytes VersionEdit_new e"
proof -
  note opt = decodes_append decode_numbers decode_comparator decodes_Nil
  define e1 where "e1 = VersionEdit_new\<lparr>ve_comparator := ve_comparator e, has_comparator := has_comparator e\<rparr>"
  define e2 where "e2 = e1\<lparr>log_number := log_number e, has_log_number := has_log_number e\<rparr>"
  define e3 where "e3 = e2\<lparr>prev_log_number := prev_log_number e, has_prev_log_number := has_prev_log_number e\<rparr>"
  define e4 where "e4 = e3\<lparr>next_file_number := next_file_number e, has_next_file_number := has_next_file_number e\<rparr>"
  define e5 where "e5 = e4\<lparr>last_sequence := last_sequence e, has_last_sequence := has_last_sequence e\<rparr>"
  note es = e1_def e2_def e3_def e4_def e5_def VersionEdit_new_def VersionEdit_Clear_def
  have off: "\<not> has_comparator e \<Longrightarrow> ve_comparator e = []" "\<not> has_log_number e \<Longrightarrow> log_number e = 0"
    "\<not> has_prev_log_number e \<Longrightarrow> prev_log_number e = 0" "\<not> has_next_file_number e \<Longrightarrow> next_file_number e = 0"
    "\<not> has_last_sequence e \<Longrightarrow> last_sequence e = 0" "length (ve_comparator e) < 2 ^ 32"
    using assms(1) by (auto simp: edit_ok_def)
  have d1: "decodes (if has_comparator e then EncodeVarint32 kComparator @ PutLengthPrefixedSlice [] (ve_comparator e) else []) VersionEdit_new e1"
    using off(1) decode_comparator [OF off(6), of VersionEdit_new] decodes_Nil [of VersionEdit_new] by (cases "has_comparator e") (simp_all add: es)
  have d2: "decodes (if has_log_number e then EncodeVarint32 kLogNumber @ EncodeVarint64 (log_number e) else []) e1 e2"
    using off(2) decode_numbers(1) [of "log_number e" e1] decodes_Nil [of e1] by (cases "has_log_number e") (simp_all add: es)
  have d3: "decodes (if has_prev_log_number e then EncodeVarint32 kPrevLogNumber @ EncodeVarint64 (prev_log_number e) else []) e2 e3"
    using off(3) decode_numbers(2) [of "prev_log_number e" e2] decodes_Nil [of e2] by (cases "has_prev_log_number e") (simp_all add: es)
  have d4: "decodes (if has_next_file_number e then EncodeVarint32 kNextFileNumber @ EncodeVarint64 (next_file_number e) else []) e3 e4"
    using off(4) decode_numbers(3) [of "next_file_number e" e3] decodes_Nil [of e3] by (cases "has_next_file_number e") (simp_all add: es)
  have d5: "decodes (if has_last_sequence e then EncodeVarint32 kLastSequence @ EncodeVarint64 (last_sequence e) else []) e4 e5"
    using off(5) decode_numbers(4) [of "last_sequence e" e4] decodes_Nil [of e4] by (cases "has_last_sequence e") (simp_all add: es)
  have d6: "decodes (concat (map pointer_bytes (compact_pointers e))) e5 (e5\<lparr>compact_pointers := compact_pointers e\<rparr>)"
    using decode_pointers [of "compact_pointers e" e5] assms(1) by (simp add: edit_ok_def es)
  have d7: "decodes (concat (map deleted_bytes (deleted_files e))) (e5\<lparr>compact_pointers := compact_pointers e\<rparr>)
      (e5\<lparr>compact_pointers := compact_pointers e, deleted_files := deleted_files e\<rparr>)"
    using decode_deleted [of "deleted_files e" "e5\<lparr>compact_pointers := compact_pointers e\<rparr>"] assms(1) by (simp add: edit_ok_def es)
  have d8: "decodes (concat (map file_bytes (new_files e))) (e5\<lparr>compact_pointers := compact_pointers e, deleted_files := deleted_files e\<rparr>) e"
    using decode_files [of "new_files e" "e5\<lparr>compact_pointers := compact_pointers e, deleted_files := deleted_files e\<rparr>"] assms(1)
    by (cases e) (simp add: edit_ok_def es)
  show ?thesis
    using assms(2) decodes_append [OF d1 decodes_append [OF d2 decodes_append [OF d3 decodes_append [OF d4 decodes_append [OF d5
          decodes_append [OF d6 decodes_append [OF d7 d8]]]]]]]
    by (simp add: encode_bytes [OF assms(1)])
qed

section \<open>Properties\<close>

text \<open>
  C40: A version edit survives the descriptor log: the encoding of an edit that the setters made, with levels in
  range and keys that are not empty, decodes without an error to the same edit, all optional fields, the
  compaction pointers, the deleted and the new files included.
\<close>

theorem version_edit_roundtrip:
  assumes "edit_ok e"
  shows "\<exists>bytes. VersionEdit_EncodeTo [] e = Some bytes \<and> VersionEdit_DecodeFrom bytes VersionEdit_new = Some (status_OK, e)"
proof -
  obtain bytes where b: "VersionEdit_EncodeTo [] e = Some bytes" using encode_bytes [OF assms] by blast
  have "decode_edit_step ([], e) = Some (Inl (None, [], e))"
    by (simp add: decode_edit_step_def GetVarint32_def GetVarint32Ptr_eq)
  then have "c_loop decode_edit_step ([], e) = Some (None, [], e)" by (rule c_loop_unfold(1))
  moreover have "c_loop decode_edit_step (bytes @ [], VersionEdit_new) = c_loop decode_edit_step ([], e)"
    using decodes_encoded [OF assms b] unfolding decodes_def by blast
  ultimately have "c_loop decode_edit_step (bytes, VersionEdit_new) = Some (None, [], e)" by simp
  moreover have "VersionEdit_Clear VersionEdit_new = VersionEdit_new" by (simp add: VersionEdit_new_def VersionEdit_Clear_def)
  ultimately show ?thesis using b by (simp add: VersionEdit_DecodeFrom_def)
qed

lemma version_edit_roundtrip_witness:
  "\<exists>bytes. VersionEdit_EncodeTo [] (AddFile 1 9 4096 [97, 1, 0, 0, 0, 0, 0, 0, 0] [98, 1, 0, 0, 0, 0, 0, 0, 0]
       (edit_DeleteFile 0 4 (edit_DeleteFile 0 7 (SetLogNumber 5 VersionEdit_new)))) = Some bytes \<and>
    VersionEdit_DecodeFrom bytes VersionEdit_new =
      Some (status_OK, AddFile 1 9 4096 [97, 1, 0, 0, 0, 0, 0, 0, 0] [98, 1, 0, 0, 0, 0, 0, 0, 0]
        (edit_DeleteFile 0 4 (edit_DeleteFile 0 7 (SetLogNumber 5 VersionEdit_new))))"
  by (rule version_edit_roundtrip)
    (simp add: edit_ok_def AddFile_def edit_DeleteFile_def SetLogNumber_def VersionEdit_new_def VersionEdit_Clear_def
      FileMetaData_new_def level_ok_def key_ok_def kNumLevels_def pair_less_def)

text \<open>
  Decoding returns on every input, with an OK status or a corruption; and since \<open>Clear\<close> does not clear them,
  the compaction pointers of an edit that is used again stay.
\<close>

lemma version_edit_decode_ends:
  "\<exists>s e'. VersionEdit_DecodeFrom src e = Some (s, e') \<and> (s = status_OK \<or> IsCorruption s)"
  using decode_edit_ends [of "(src, VersionEdit_Clear e)"]
  by (auto simp: VersionEdit_DecodeFrom_def Corruption_def IsCorruption_def split: option.split)

lemma decode_keeps_compact_pointers:
  "VersionEdit_DecodeFrom [] e = Some (status_OK, VersionEdit_Clear e) \<and> compact_pointers (VersionEdit_Clear e) = compact_pointers e"
proof -
  have "decode_edit_step ([], VersionEdit_Clear e) = Some (Inl (None, [], VersionEdit_Clear e))"
    by (simp add: decode_edit_step_def GetVarint32_def GetVarint32Ptr_eq)
  then show ?thesis by (simp add: VersionEdit_DecodeFrom_def c_loop_unfold(1)) (simp add: VersionEdit_Clear_def)
qed

end
