(* ===== verification/LDB_DbIter.thy ===== *)
theory LDB_DbIter
  imports LDB_Dbformat LDB_Iterator LDB_Skiplist "HOL-Library.Monad_Syntax"
begin

text \<open>
  LevelDB: the iterator of a database, \<open>db/db_iter.cc\<close>, over an iterator of internal keys.  The database gets
  samples of the keys that are read: its state and \<open>DBImpl::RecordReadSample\<close> are parameters.  The capacity of a string is
  not observable, so clearing one and swapping in an empty one are the same.
\<close>

datatype iter_direction = IterForward | IterReverse

record ('d, 'i) DBIter =
  di_db :: 'd
  di_user_comparator :: comparator
  di_iter :: 'i
  di_sequence :: SequenceNumber
  di_status :: Status
  saved_key :: "u8 list"
  saved_value :: "u8 list"
  di_direction :: iter_direction
  di_valid :: bool
  di_rnd :: u32
  bytes_until_read_sampling :: u64

definition RandomCompactionPeriod :: "u32 \<Rightarrow> u64 \<times> u32" where
  "RandomCompactionPeriod rnd =
     (let (n, rnd) = Random_Uniform rnd (word_of_nat (2 * kReadBytesPeriod)) in (ucast n, rnd))"

definition DBIter_new :: "'d \<Rightarrow> comparator \<Rightarrow> 'i \<Rightarrow> SequenceNumber \<Rightarrow> u32 \<Rightarrow> ('d, 'i) DBIter" where
  "DBIter_new db cmp it s seed =
     (let (period, rnd) = RandomCompactionPeriod (Random_new seed) in
      \<lparr>di_db = db, di_user_comparator = cmp, di_iter = it, di_sequence = s, di_status = status_OK, saved_key = [],
       saved_value = [], di_direction = IterForward, di_valid = False, di_rnd = rnd, bytes_until_read_sampling = period\<rparr>)"

definition DBIter_key :: "'i iter_ops \<Rightarrow> ('d, 'i) DBIter \<Rightarrow> slice option" where
  "DBIter_key iops d =
     (if \<not> di_valid d then None
      else if di_direction d = IterForward then map_option ExtractUserKey (iter_key iops (di_iter d)) else Some (saved_key d))"

definition DBIter_value :: "'i iter_ops \<Rightarrow> ('d, 'i) DBIter \<Rightarrow> slice option" where
  "DBIter_value iops d =
     (if \<not> di_valid d then None
      else if di_direction d = IterForward then iter_value iops (di_iter d) else Some (saved_value d))"

definition DBIter_status :: "'i iter_ops \<Rightarrow> ('d, 'i) DBIter \<Rightarrow> Status" where
  "DBIter_status iops d = (if status_ok (di_status d) then iter_status iops (di_iter d) else di_status d)"

text \<open>The loop that takes samples.\<close>

definition sample_step ::
  "(slice \<Rightarrow> 'd \<Rightarrow> 'd) \<Rightarrow> slice \<Rightarrow> u64 \<Rightarrow> ('d, 'i) DBIter \<Rightarrow> (('d, 'i) DBIter + ('d, 'i) DBIter) option" where
  "sample_step RecordReadSample k bytes_read d =
     (if bytes_until_read_sampling d < bytes_read then
        let (period, rnd) = RandomCompactionPeriod (di_rnd d) in
        Some (Inr (d\<lparr>bytes_until_read_sampling := bytes_until_read_sampling d + period, di_rnd := rnd,
          di_db := RecordReadSample k (di_db d)\<rparr>))
      else Some (Inl d))"

definition DBIter_ParseKey ::
  "'i iter_ops \<Rightarrow> (slice \<Rightarrow> 'd \<Rightarrow> 'd) \<Rightarrow> ('d, 'i) DBIter \<Rightarrow> (ParsedInternalKey option \<times> ('d, 'i) DBIter) option" where
  "DBIter_ParseKey iops sample d = do {
     k \<leftarrow> iter_key iops (di_iter d);
     v \<leftarrow> iter_value iops (di_iter d);
     let bytes_read = word_of_nat (length k) + word_of_nat (length v);
     d \<leftarrow> c_loop (sample_step sample k bytes_read) d;
     if \<not> bytes_until_read_sampling d \<ge> bytes_read then None
     else do {
       let d = d\<lparr>bytes_until_read_sampling := bytes_until_read_sampling d - bytes_read\<rparr>;
       case ParseInternalKey k of
         None \<Rightarrow> Some (None, d\<lparr>di_status := Corruption (chars ''corrupted internal key in DBIter'') []\<rparr>)
       | Some pk \<Rightarrow> Some (Some pk, d)
     }
   }"

text \<open>
  The body of the forward loop; the state has the local variable \<open>skipping\<close>.  All callers pass \<open>saved_key_\<close>
  for \<open>skip\<close>.
\<close>

definition find_next_step ::
  "'i iter_ops \<Rightarrow> (slice \<Rightarrow> 'd \<Rightarrow> 'd) \<Rightarrow> bool \<times> ('d, 'i) DBIter \<Rightarrow> (('d, 'i) DBIter + bool \<times> ('d, 'i) DBIter) option" where
  "find_next_step iops sample = (\<lambda>(skipping, d). do {
     (parsed, d) \<leftarrow> DBIter_ParseKey iops sample d;
     let advance = (\<lambda>(skipping, d). do {
           i \<leftarrow> Next iops (di_iter d);
           let d = d\<lparr>di_iter := i\<rparr>;
           Some (if Valid iops i then Inr (skipping, d) else Inl (d\<lparr>saved_key := [], di_valid := False\<rparr>))
         });
     case parsed of
       None \<Rightarrow> advance (skipping, d)
     | Some pk \<Rightarrow>
         if p_sequence pk \<le> di_sequence d then
           if p_type pk = kTypeDeletion then advance (True, d\<lparr>saved_key := p_user_key pk\<rparr>)
           else if p_type pk = kTypeValue then
             if skipping \<and> Compare (di_user_comparator d) (p_user_key pk) (saved_key d) \<le> 0 then advance (skipping, d)
             else Some (Inl (d\<lparr>di_valid := True, saved_key := []\<rparr>))
           else advance (skipping, d)
         else advance (skipping, d)
   })"

definition FindNextUserEntry ::
  "'i iter_ops \<Rightarrow> (slice \<Rightarrow> 'd \<Rightarrow> 'd) \<Rightarrow> bool \<Rightarrow> ('d, 'i) DBIter \<Rightarrow> ('d, 'i) DBIter option" where
  "FindNextUserEntry iops sample skipping d =
     (if \<not> Valid iops (di_iter d) then None
      else if \<not> di_direction d = IterForward then None
      else c_loop (find_next_step iops sample) (skipping, d))"

definition DBIter_Next :: "'i iter_ops \<Rightarrow> (slice \<Rightarrow> 'd \<Rightarrow> 'd) \<Rightarrow> ('d, 'i) DBIter \<Rightarrow> ('d, 'i) DBIter option" where
  "DBIter_Next iops sample d =
     (if \<not> di_valid d then None
      else if di_direction d = IterReverse then do {
        let d = d\<lparr>di_direction := IterForward\<rparr>;
        i \<leftarrow> (if \<not> Valid iops (di_iter d) then SeekToFirst iops (di_iter d) else Next iops (di_iter d));
        let d = d\<lparr>di_iter := i\<rparr>;
        if \<not> Valid iops i then Some (d\<lparr>di_valid := False, saved_key := []\<rparr>)
        else FindNextUserEntry iops sample True d
      }
      else do {
        k \<leftarrow> iter_key iops (di_iter d);
        FindNextUserEntry iops sample True (d\<lparr>saved_key := ExtractUserKey k\<rparr>)
      })"

text \<open>The backward loop; the state has the local variable \<open>value_type\<close>.\<close>

definition find_prev_step ::
  "'i iter_ops \<Rightarrow> (slice \<Rightarrow> 'd \<Rightarrow> 'd) \<Rightarrow> u8 \<times> ('d, 'i) DBIter \<Rightarrow> (u8 \<times> ('d, 'i) DBIter + u8 \<times> ('d, 'i) DBIter) option" where
  "find_prev_step iops sample = (\<lambda>(value_type, d). do {
     (parsed, d) \<leftarrow> DBIter_ParseKey iops sample d;
     let retreat = (\<lambda>(value_type, d). do {
           i \<leftarrow> Prev iops (di_iter d);
           let d = d\<lparr>di_iter := i\<rparr>;
           Some (if Valid iops i then Inr (value_type, d) else Inl (value_type, d))
         });
     case parsed of
       None \<Rightarrow> retreat (value_type, d)
     | Some pk \<Rightarrow>
         if p_sequence pk \<le> di_sequence d then
           if value_type \<noteq> kTypeDeletion \<and> Compare (di_user_comparator d) (p_user_key pk) (saved_key d) < 0 then
             Some (Inl (value_type, d))
           else if p_type pk = kTypeDeletion then retreat (p_type pk, d\<lparr>saved_key := [], saved_value := []\<rparr>)
           else do {
             raw_value \<leftarrow> iter_value iops (di_iter d);
             k \<leftarrow> iter_key iops (di_iter d);
             retreat (p_type pk, d\<lparr>saved_key := ExtractUserKey k, saved_value := raw_value\<rparr>)
           }
         else retreat (value_type, d)
   })"

definition FindPrevUserEntry ::
  "'i iter_ops \<Rightarrow> (slice \<Rightarrow> 'd \<Rightarrow> 'd) \<Rightarrow> ('d, 'i) DBIter \<Rightarrow> ('d, 'i) DBIter option" where
  "FindPrevUserEntry iops sample d =
     (if \<not> di_direction d = IterReverse then None
      else do {
        (value_type, d) \<leftarrow> (if Valid iops (di_iter d) then c_loop (find_prev_step iops sample) (kTypeDeletion, d)
                            else Some (kTypeDeletion, d));
        Some (if value_type = kTypeDeletion
              then d\<lparr>di_valid := False, saved_key := [], saved_value := [], di_direction := IterForward\<rparr>
              else d\<lparr>di_valid := True\<rparr>)
      })"

text \<open>The scan that leaves the entries of the current key when the iterator turns around.\<close>

definition turn_back_step :: "'i iter_ops \<Rightarrow> ('d, 'i) DBIter \<Rightarrow> (bool \<times> ('d, 'i) DBIter + ('d, 'i) DBIter) option" where
  "turn_back_step iops d = do {
     i \<leftarrow> Prev iops (di_iter d);
     let d = d\<lparr>di_iter := i\<rparr>;
     if \<not> Valid iops i then Some (Inl (False, d\<lparr>di_valid := False, saved_key := [], saved_value := []\<rparr>))
     else do {
       k \<leftarrow> iter_key iops i;
       if Compare (di_user_comparator d) (ExtractUserKey k) (saved_key d) < 0 then Some (Inl (True, d)) else Some (Inr d)
     }
   }"

definition DBIter_Prev :: "'i iter_ops \<Rightarrow> (slice \<Rightarrow> 'd \<Rightarrow> 'd) \<Rightarrow> ('d, 'i) DBIter \<Rightarrow> ('d, 'i) DBIter option" where
  "DBIter_Prev iops sample d =
     (if \<not> di_valid d then None
      else if di_direction d = IterForward then
        if \<not> Valid iops (di_iter d) then None
        else do {
          k \<leftarrow> iter_key iops (di_iter d);
          (found, d) \<leftarrow> c_loop (turn_back_step iops) (d\<lparr>saved_key := ExtractUserKey k\<rparr>);
          if found then FindPrevUserEntry iops sample (d\<lparr>di_direction := IterReverse\<rparr>) else Some d
        }
      else FindPrevUserEntry iops sample d)"

definition DBIter_Seek :: "'i iter_ops \<Rightarrow> (slice \<Rightarrow> 'd \<Rightarrow> 'd) \<Rightarrow> slice \<Rightarrow> ('d, 'i) DBIter \<Rightarrow> ('d, 'i) DBIter option" where
  "DBIter_Seek iops sample target d = do {
     let d = d\<lparr>di_direction := IterForward, saved_value := []\<rparr>;
     k \<leftarrow> AppendInternalKey [] \<lparr>p_user_key = target, p_sequence = di_sequence d, p_type = kValueTypeForSeek\<rparr>;
     i \<leftarrow> Seek iops k (di_iter d);
     let d = d\<lparr>saved_key := k, di_iter := i\<rparr>;
     if Valid iops i then FindNextUserEntry iops sample False d else Some (d\<lparr>di_valid := False\<rparr>)
   }"

definition DBIter_SeekToFirst :: "'i iter_ops \<Rightarrow> (slice \<Rightarrow> 'd \<Rightarrow> 'd) \<Rightarrow> ('d, 'i) DBIter \<Rightarrow> ('d, 'i) DBIter option" where
  "DBIter_SeekToFirst iops sample d = do {
     i \<leftarrow> SeekToFirst iops (di_iter d);
     let d = d\<lparr>di_direction := IterForward, saved_value := [], di_iter := i\<rparr>;
     if Valid iops i then FindNextUserEntry iops sample False d else Some (d\<lparr>di_valid := False\<rparr>)
   }"

definition DBIter_SeekToLast :: "'i iter_ops \<Rightarrow> (slice \<Rightarrow> 'd \<Rightarrow> 'd) \<Rightarrow> ('d, 'i) DBIter \<Rightarrow> ('d, 'i) DBIter option" where
  "DBIter_SeekToLast iops sample d = do {
     i \<leftarrow> SeekToLast iops (di_iter d);
     FindPrevUserEntry iops sample (d\<lparr>di_direction := IterReverse, saved_value := [], di_iter := i\<rparr>)
   }"

definition db_iter_ops :: "'i iter_ops \<Rightarrow> (slice \<Rightarrow> 'd \<Rightarrow> 'd) \<Rightarrow> ('d, 'i) DBIter iter_ops" where
  "db_iter_ops iops sample =
     \<lparr>Valid = di_valid, SeekToFirst = DBIter_SeekToFirst iops sample, SeekToLast = DBIter_SeekToLast iops sample,
      Seek = DBIter_Seek iops sample, Next = DBIter_Next iops sample, Prev = DBIter_Prev iops sample,
      iter_key = DBIter_key iops, iter_value = DBIter_value iops, iter_status = DBIter_status iops\<rparr>"

end
