(* ===== verification/LDB_DbIter_Props.thy ===== *)
theory LDB_DbIter_Props
  imports LDB_DbIter LDB_Skiplist_Props LDB_Memtable_Props
begin

text \<open>
  LevelDB: the iterator of a database is a cursor in what its snapshot shows of the entries of the internal
  iterator: of every user key the newest entry that is not too new, unless that is a deletion.
\<close>

section \<open>Sampling ends\<close>

definition seed_ok :: "u32 \<Rightarrow> bool" where
  "seed_ok rnd \<longleftrightarrow> 0 < unat rnd \<and> unat rnd < 2147483647"

lemma Random_new_ok: "seed_ok (Random_new seed)"
proof -
  have "seed AND 0x7fffffff = take_bit 31 seed" using take_bit_eq_mask [of 31 seed] by (simp add: mask_eq_exp_minus_1)
  then have "unat (seed AND 0x7fffffff) < 2 ^ 31" using take_bit_nat_less_exp [of 31 "unat seed"] by (simp add: unsigned_take_bit_eq)
  moreover have "unat (seed AND 0x7fffffff) \<noteq> 2147483647" if "seed AND 0x7fffffff \<noteq> random_M"
    using that unsigned_word_eqI [of "seed AND 0x7fffffff" random_M] by (auto simp: random_M_def)
  ultimately show ?thesis by (auto simp: seed_ok_def Random_new_def Let_def unat_gt_0)
qed

definition period :: "u32 \<Rightarrow> nat" where
  "period rnd = unat (Random_Next rnd) mod 2097152"

lemma RandomCompactionPeriod_eq:
  "RandomCompactionPeriod rnd = (word_of_nat (period rnd), Random_Next rnd)"
proof -
  have "unat (Random_Next rnd mod 2097152) = period rnd" by (simp add: unat_mod period_def)
  then have "ucast (Random_Next rnd mod 2097152) = (word_of_nat (period rnd) :: u64)" by (metis of_nat_unat)
  then show ?thesis by (simp add: RandomCompactionPeriod_def Random_Uniform_def kReadBytesPeriod_def Let_def)
qed

text \<open>A multiple of the length of the interval is not followed by another one.\<close>

lemma two_periods:
  assumes "seed_ok rnd" "period rnd = 0"
  shows "period (Random_Next rnd) \<noteq> 0"
proof
  assume "period (Random_Next rnd) = 0"
  let ?r = "unat (Random_Next rnd)" and ?M = "2147483647 :: nat"
  obtain k where k: "?r = 2097152 * k" using assms(2) by (auto simp: period_def)
  have r: "0 < ?r" "?r < ?M" using lehmer_step [of rnd] assms(1) by (simp_all add: seed_ok_def del: One_nat_def)
  have nx: "unat (Random_Next (Random_Next rnd)) = ?r * 16807 mod ?M" using lehmer_step [OF r] by simp
  obtain j where j: "?r * 16807 mod ?M = 2097152 * j"
    using \<open>period (Random_Next rnd) = 0\<close> nx by (auto simp: period_def)
  let ?q = "?r * 16807 div ?M"
  have eq: "2097152 * (k * 16807) = ?M * ?q + 2097152 * j" using k j mult_div_mod_eq [of ?M "?r * 16807"] by simp
  have "?q < 16807" using r(2) by (simp add: less_mult_imp_div_less)
  have "2097152 dvd ?M * ?q" using eq by (metis dvd_add_left_iff dvd_triv_left)
  moreover have "coprime (2097152 :: nat) ?M" by (simp add: coprime_iff_gcd_eq_1 gcd_non_0_nat)
  ultimately have "2097152 dvd ?q" using coprime_dvd_mult_right_iff by blast
  then have "?q = 0" using \<open>?q < 16807\<close> nat_dvd_not_less by fastforce
  then have "?r * 16807 < ?M" by (metis div_eq_0_iff zero_neq_numeral)
  then show False using k r(1) by simp
qed

definition sampled :: "('d, 'i) DBIter \<Rightarrow> ('d, 'i) DBIter \<Rightarrow> bool" where
  "sampled d d' \<longleftrightarrow> di_iter d' = di_iter d \<and> di_user_comparator d' = di_user_comparator d \<and>
     di_sequence d' = di_sequence d \<and> di_status d' = di_status d \<and> saved_key d' = saved_key d \<and>
     saved_value d' = saved_value d \<and> di_direction d' = di_direction d \<and> di_valid d' = di_valid d \<and> seed_ok (di_rnd d')"

lemma sampling_ends:
  assumes "seed_ok (di_rnd d)" and b: "unat bytes_read < 2 ^ 63"
  shows "\<exists>d'. c_loop (sample_step smp k bytes_read) d = Some d' \<and> sampled d d' \<and> bytes_read \<le> bytes_until_read_sampling d'"
proof (rule c_loop_rule [where I = "sampled d" and
      m = "\<lambda>d. 2 * (unat bytes_read - unat (bytes_until_read_sampling d)) + (if period (di_rnd d) = 0 then 1 else 0)"])
  fix e
  assume e: "sampled d e"
  let ?n = "bytes_until_read_sampling e" and ?p = "period (di_rnd e)"
  show "\<exists>x. sample_step smp k bytes_read e = Some x \<and> (case x of Inl d' \<Rightarrow> sampled d d' \<and> bytes_read \<le> bytes_until_read_sampling d'
      | Inr e' \<Rightarrow> sampled d e' \<and> 2 * (unat bytes_read - unat (bytes_until_read_sampling e')) +
          (if period (di_rnd e') = 0 then 1 else 0) < 2 * (unat bytes_read - unat ?n) + (if ?p = 0 then 1 else 0))"
  proof (cases "?n < bytes_read")
    case True
    have ok: "seed_ok (di_rnd e)" using e by (simp add: sampled_def)
    then have ok': "seed_ok (Random_Next (di_rnd e))" using lehmer_step [of "di_rnd e"] by (simp add: seed_ok_def del: One_nat_def)
    have lt: "unat ?n < unat bytes_read" using True by (simp add: word_less_nat_alt)
    have "?p < 2097152" by (simp add: period_def)
    then have sum: "unat (?n + word_of_nat ?p) = unat ?n + ?p" using lt b by (simp add: unat_word_ariths unat_of_nat)
    have "2 * (unat bytes_read - (unat ?n + ?p)) + (if period (Random_Next (di_rnd e)) = 0 then 1 else 0)
        < 2 * (unat bytes_read - unat ?n) + (if ?p = 0 then 1 else 0)"
      using two_periods [OF ok] lt by (cases "?p = 0") auto
    then show ?thesis
      using True e ok' sum by (simp add: sample_step_def RandomCompactionPeriod_eq sampled_def)
  next
    case False
    then show ?thesis using e by (simp add: sample_step_def)
  qed
qed (simp add: sampled_def assms)

lemma DBIter_ParseKey_eq:
  assumes "seed_ok (di_rnd d)" "iter_key iops (di_iter d) = Some k" "iter_value iops (di_iter d) = Some v"
    and "length k + length v < 2 ^ 63" "ParseInternalKey k = Some pk"
  shows "\<exists>d'. DBIter_ParseKey iops smp d = Some (Some pk, d') \<and> sampled d d'"
proof -
  have "unat (word_of_nat (length k) + word_of_nat (length v) :: u64) = length k + length v"
    using assms(4) by (simp add: unat_of_nat flip: of_nat_add)
  then obtain d' where d': "c_loop (sample_step smp k (word_of_nat (length k) + word_of_nat (length v))) d = Some d'" "sampled d d'"
    "word_of_nat (length k) + word_of_nat (length v) \<le> bytes_until_read_sampling d'"
    using sampling_ends [OF assms(1), of "word_of_nat (length k) + word_of_nat (length v)" smp k] assms(4) by auto
  let ?d = "d'\<lparr>bytes_until_read_sampling := bytes_until_read_sampling d' - (word_of_nat (length k) + word_of_nat (length v))\<rparr>"
  have "sampled d ?d" using d'(2) by (simp add: sampled_def)
  moreover have "DBIter_ParseKey iops smp d = Some (Some pk, ?d)"
    using assms d' by (simp add: DBIter_ParseKey_def Let_def)
  ultimately show ?thesis by blast
qed

section \<open>What a snapshot shows\<close>

definition parsed :: "entries \<Rightarrow> nat \<Rightarrow> ParsedInternalKey" where
  "parsed es i = the (ParseInternalKey (fst (es ! i)))"

abbreviation usr :: "entries \<Rightarrow> nat \<Rightarrow> slice" where
  "usr es i \<equiv> p_user_key (parsed es i)"

definition seen :: "SequenceNumber \<Rightarrow> entries \<Rightarrow> nat \<Rightarrow> bool" where
  "seen s es i \<longleftrightarrow> i < length es \<and> p_sequence (parsed es i) \<le> s"

definition shown :: "comparator \<Rightarrow> SequenceNumber \<Rightarrow> entries \<Rightarrow> nat \<Rightarrow> bool" where
  "shown C s es i \<longleftrightarrow> seen s es i \<and> p_type (parsed es i) = kTypeValue \<and>
     (\<forall>j < i. seen s es j \<longrightarrow> Compare C (usr es j) (usr es i) \<noteq> 0)"

definition shown_at :: "comparator \<Rightarrow> SequenceNumber \<Rightarrow> entries \<Rightarrow> nat list" where
  "shown_at C s es = filter (shown C s es) [0..<length es]"

definition db_view :: "comparator \<Rightarrow> SequenceNumber \<Rightarrow> entries \<Rightarrow> entries" where
  "db_view C s es = map (\<lambda>i. (usr es i, snd (es ! i))) (shown_at C s es)"

definition internal_entries :: "comparator \<Rightarrow> entries \<Rightarrow> bool" where
  "internal_entries C es \<longleftrightarrow> sorted_wrt (\<lambda>a b. internal_compare C (fst a) (fst b) < 0) es \<and>
     (\<forall>e \<in> set es. ParseInternalKey (fst e) \<noteq> None \<and> length (fst e) + length (snd e) < 2 ^ 63)"

lemma ParseInternalKey_parts:
  assumes "ParseInternalKey k = Some pk"
  shows "p_user_key pk = ExtractUserKey k" "8 \<le> length k" "k = ikey (p_user_key pk) (key_tag k)"
    "PackSequenceAndType (p_sequence pk) (p_type pk) = Some (key_tag k)" "p_type pk = kTypeDeletion \<or> p_type pk = kTypeValue"
proof -
  let ?num = "key_tag k"
  have pk: "8 \<le> length k" "pk = \<lparr>p_user_key = take (length k - 8) k, p_sequence = drop_bit 8 ?num, p_type = ucast (?num AND 0xff)\<rparr>"
    "(ucast (?num AND 0xff) :: u8) \<le> kTypeValue"
    using assms by (auto simp: ParseInternalKey_def Let_def split: if_splits)
  show u: "p_user_key pk = ExtractUserKey k" "8 \<le> length k" using pk by (simp_all add: ExtractUserKey_def)
  show "k = ikey (p_user_key pk) ?num" using ikey_split [OF pk(1)] u(1) by simp
  have "unat (drop_bit 8 ?num) \<le> 2 ^ 56 - 1" unfolding unat_drop_bit_eq using unat_u64_less [of ?num] by (simp add: drop_bit_eq_div)
  then have seq: "drop_bit 8 ?num \<le> kMaxSequenceNumber" by (simp add: kMaxSequenceNumber_def word_le_nat_alt)
  have "(0xff :: u64) = mask 8" by (simp add: mask_eq_exp_minus_1)
  then have lo: "?num AND 0xff = take_bit 8 ?num" by (simp only: take_bit_eq_mask)
  have "?num = push_bit 8 (drop_bit 8 ?num) OR ucast (ucast (take_bit 8 ?num) :: u8)"
    by (rule bit_word_eqI) (auto simp: bit_simps)
  then show "PackSequenceAndType (p_sequence pk) (p_type pk) = Some ?num"
    using pk seq lo by (simp add: PackSequenceAndType_Some)
  have "unat (p_type pk) \<le> 1" using pk(2,3) by (simp add: kTypeValue_def word_le_nat_alt)
  then have "unat (p_type pk) = 0 \<or> unat (p_type pk) = 1" by linarith
  then show "p_type pk = kTypeDeletion \<or> p_type pk = kTypeValue"
    by (auto simp: kTypeDeletion_def kTypeValue_def word_unat_eq_iff)
qed

lemma parsed_entry:
  assumes "internal_entries C es" "i < length es"
  shows "ParseInternalKey (fst (es ! i)) = Some (parsed es i)" "length (fst (es ! i)) + length (snd (es ! i)) < 2 ^ 63"
  using assms nth_mem [OF assms(2)] by (auto simp: internal_entries_def parsed_def)

lemma shown_seen: "shown C s es i \<Longrightarrow> seen s es i"
  by (simp add: shown_def)

lemma seen_less: "seen s es i \<Longrightarrow> i < length es"
  by (simp add: seen_def)

lemma shown_at_sorted: "sorted_wrt (<) (shown_at C s es)"
  by (simp add: shown_at_def sorted_wrt_filter)

lemma set_shown_at: "set (shown_at C s es) = {t. shown C s es t}"
  using seen_less shown_seen by (fastforce simp: shown_at_def)

lemma shown_at_nth: "n < length (shown_at C s es) \<Longrightarrow> shown C s es (shown_at C s es ! n)"
  using nth_mem [of n "shown_at C s es"] by (simp add: set_shown_at)

lemma set_drop_sorted:
  fixes xs :: "nat list"
  shows "sorted_wrt (<) xs \<Longrightarrow> n < length xs \<Longrightarrow> set (drop (n + 1) xs) = {t \<in> set xs. xs ! n < t}"
proof (induction xs arbitrary: n)
  case (Cons x xs)
  show ?case
  proof (cases n)
    case 0
    then show ?thesis using Cons.prems by auto
  next
    case (Suc m)
    have "x < xs ! m" using Cons.prems nth_mem [of m xs] Suc by simp
    moreover have "set (drop (m + 1) xs) = {t \<in> set xs. xs ! m < t}" using Cons.IH [of m] Cons.prems Suc by simp
    moreover have "{t \<in> set (x # xs). xs ! m < t} = {t \<in> set xs. xs ! m < t}"
    proof -
      have "\<not> xs ! m < x" using \<open>x < xs ! m\<close> by simp
      then show ?thesis by (simp add: set_eq_iff) blast
    qed
    ultimately show ?thesis by (simp only: Suc nth_Cons_Suc drop_Suc_Cons add_Suc)
  qed
qed simp

lemma set_take_sorted:
  fixes xs :: "nat list"
  shows "sorted_wrt (<) xs \<Longrightarrow> n < length xs \<Longrightarrow> set (take n xs) = {t \<in> set xs. t < xs ! n}"
proof (induction xs arbitrary: n)
  case (Cons x xs)
  show ?case
  proof (cases n)
    case 0
    then show ?thesis using Cons.prems by auto
  next
    case (Suc m)
    have "x < xs ! m" using Cons.prems nth_mem [of m xs] Suc by simp
    then show ?thesis using Cons.IH [of m] Cons.prems Suc by auto
  qed
qed simp

lemma set_drop_while: "sorted_wrt (\<lambda>a b. P b \<longrightarrow> P a) xs \<Longrightarrow> set (drop (length (takeWhile P xs)) xs) = {t \<in> set xs. \<not> P t}"
  by (induction xs) auto

context user_comparator
begin

lemma usr_le:
  assumes "internal_entries C es" "i \<le> j" "j < length es"
  shows "Compare C (usr es i) (usr es j) \<le> 0"
proof (cases "i = j")
  case True
  then show ?thesis using compare_refl by simp
next
  case False
  then have "internal_compare C (fst (es ! i)) (fst (es ! j)) < 0"
    using assms by (simp add: internal_entries_def sorted_wrt_iff_nth_less)
  then have "Compare C (ExtractUserKey (fst (es ! i))) (ExtractUserKey (fst (es ! j))) \<le> 0" by (auto simp: internal_less)
  then show ?thesis
    using ParseInternalKey_parts(1) [OF parsed_entry(1) [OF assms(1)], of i]
      ParseInternalKey_parts(1) [OF parsed_entry(1) [OF assms(1)], of j] assms(2,3) by simp
qed

lemma user_less_le: "Compare C a b < 0 \<Longrightarrow> Compare C b c \<le> 0 \<Longrightarrow> Compare C a c < 0"
  by (rule compare_less_trans2) simp_all

lemma user_le_less: "Compare C a b \<le> 0 \<Longrightarrow> Compare C b c < 0 \<Longrightarrow> Compare C a c < 0"
  by (rule compare_less_trans) simp_all

lemma user_not_less: "\<not> Compare C a b < 0 \<longleftrightarrow> Compare C b a \<le> 0"
  using user_sign [of a b] by linarith

lemma same_user: "Compare C a b = 0 \<longleftrightarrow> Compare C a b \<le> 0 \<and> Compare C b a \<le> 0"
  using user_sign [of a b] user_sign [of b a] by linarith

text \<open>A smaller user key stands before, and no shown entry has a seen entry of its user key before it.\<close>

lemma usr_less_index:
  assumes "internal_entries C es" "i < length es" "Compare C (usr es i) (usr es j) < 0"
  shows "i < j"
proof (rule ccontr)
  assume "\<not> i < j"
  then have "Compare C (usr es j) (usr es i) \<le> 0" using usr_le assms by simp
  then show False using assms(3) user_not_less by blast
qed

lemma shown_less:
  assumes "internal_entries C es" "shown C s es j" "seen s es i" "i < j"
  shows "Compare C (usr es i) (usr es j) < 0"
proof -
  have "Compare C (usr es i) (usr es j) \<le> 0" using usr_le assms shown_seen seen_less by (metis less_imp_le)
  moreover have "Compare C (usr es i) (usr es j) \<noteq> 0" using assms by (simp add: shown_def)
  ultimately show ?thesis by linarith
qed

end
section \<open>Moving forward\<close>

locale db_cursor = user_comparator C + inner: iterator iops irep "internal_compare C" ivalid
  for C :: comparator and iops :: "'i iter_ops" and irep :: "entries \<Rightarrow> nat \<Rightarrow> 'i \<Rightarrow> bool" and ivalid :: "slice \<Rightarrow> bool" +
  fixes uvalid :: "slice \<Rightarrow> bool"
  assumes seek_valid: "uvalid t \<Longrightarrow> ivalid (ikey t tag)"

text \<open>The turn to the next entry in the forward loop, and to the previous one in the backward loop.\<close>

abbreviation forward_turn :: "'i iter_ops \<Rightarrow> bool \<Rightarrow> ('d, 'i) DBIter \<Rightarrow> (('d, 'i) DBIter + bool \<times> ('d, 'i) DBIter) option" where
  "forward_turn iops skipping d \<equiv> (case Next iops (di_iter d) of None \<Rightarrow> None
     | Some i \<Rightarrow> Some (if Valid iops i then Inr (skipping, d\<lparr>di_iter := i\<rparr>)
         else Inl (d\<lparr>di_iter := i, saved_key := [], di_valid := False\<rparr>)))"

abbreviation backward_turn :: "'i iter_ops \<Rightarrow> u8 \<Rightarrow> ('d, 'i) DBIter \<Rightarrow> (u8 \<times> ('d, 'i) DBIter + u8 \<times> ('d, 'i) DBIter) option" where
  "backward_turn iops vt d \<equiv> (case Prev iops (di_iter d) of None \<Rightarrow> None
     | Some i \<Rightarrow> Some (if Valid iops i then Inr (vt, d\<lparr>di_iter := i\<rparr>) else Inl (vt, d\<lparr>di_iter := i\<rparr>)))"

context db_cursor
begin

definition db_state :: "SequenceNumber \<Rightarrow> entries \<Rightarrow> nat \<Rightarrow> ('d, 'i) DBIter \<Rightarrow> bool" where
  "db_state s es p d \<longleftrightarrow> irep es p (di_iter d) \<and> di_user_comparator d = C \<and> di_sequence d = s \<and>
     status_ok (di_status d) \<and> seed_ok (di_rnd d)"

lemma db_state_iter: "db_state s es p d \<Longrightarrow> irep es q i \<Longrightarrow> db_state s es q (d\<lparr>di_iter := i\<rparr>)"
  by (simp add: db_state_def)

lemma db_state_upd [simp]:
  "db_state s es p (d\<lparr>saved_key := k\<rparr>) = db_state s es p d" "db_state s es p (d\<lparr>saved_value := k\<rparr>) = db_state s es p d"
  "db_state s es p (d\<lparr>di_valid := b\<rparr>) = db_state s es p d" "db_state s es p (d\<lparr>di_direction := r\<rparr>) = db_state s es p d"
  by (simp_all add: db_state_def)

lemma db_ParseKey:
  assumes "internal_entries C es" "db_state s es p d" "p < length es"
  obtains d' where "DBIter_ParseKey iops smp d = Some (Some (parsed es p), d')" "sampled d d'" "db_state s es p d'"
proof -
  have rep: "irep es p (di_iter d)" and ok: "seed_ok (di_rnd d)" using assms(2) by (simp_all add: db_state_def)
  obtain d' where d': "DBIter_ParseKey iops smp d = Some (Some (parsed es p), d')" "sampled d d'"
    using DBIter_ParseKey_eq [OF ok inner.rep_key [OF rep assms(3)] inner.rep_value [OF rep assms(3)]
        parsed_entry(2) [OF assms(1,3)] parsed_entry(1) [OF assms(1,3)]] by blast
  moreover have "db_state s es p d'" using d'(2) assms(2) by (simp add: db_state_def sampled_def)
  ultimately show thesis by (rule that)
qed

text \<open>Where a forward loop ends: on the first entry of a set of shown ones, or nowhere.\<close>

definition next_result :: "SequenceNumber \<Rightarrow> entries \<Rightarrow> (nat \<Rightarrow> bool) \<Rightarrow> ('d, 'i) DBIter \<Rightarrow> bool" where
  "next_result s es N d \<longleftrightarrow> di_direction d = IterForward \<and> (\<exists>p. db_state s es p d \<and>
     (di_valid d \<and> N p \<and> (\<forall>t. N t \<longrightarrow> p \<le> t) \<or> \<not> di_valid d \<and> (\<forall>t. \<not> N t)))"

lemma find_next_step_eq:
  assumes "internal_entries C es" "db_state s es j d" "j < length es"
  obtains d' where "sampled d d'" "db_state s es j d'"
    "find_next_step iops smp (skipping, d) =
       (if seen s es j then
          if p_type (parsed es j) = kTypeDeletion then forward_turn iops True (d'\<lparr>saved_key := usr es j\<rparr>)
          else if skipping \<and> Compare C (usr es j) (saved_key d) \<le> 0 then forward_turn iops skipping d'
          else Some (Inl (d'\<lparr>di_valid := True, saved_key := []\<rparr>))
        else forward_turn iops skipping d')"
proof -
  obtain d' where d': "DBIter_ParseKey iops smp d = Some (Some (parsed es j), d')" "sampled d d'" "db_state s es j d'"
    using db_ParseKey [OF assms] .
  have ty: "p_type (parsed es j) = kTypeDeletion \<or> p_type (parsed es j) = kTypeValue"
    using ParseInternalKey_parts(5) [OF parsed_entry(1) [OF assms(1,3)]] .
  have ne: "kTypeDeletion \<noteq> kTypeValue" by (simp add: kTypeDeletion_def kTypeValue_def)
  have f: "di_sequence d' = s" "di_user_comparator d' = C" "saved_key d' = saved_key d"
    using d'(2,3) by (simp_all add: db_state_def sampled_def)
  show thesis
    by (rule that [OF d'(2,3)])
      (use d'(1) ty ne assms(3) in \<open>auto simp: find_next_step_def f seen_def Let_def split: option.split\<close>)
qed

text \<open>
  The forward loop finds the first shown entry, behind the user key to skip if there is one.  When it starts, the
  seen entries that are already passed hide nothing but what is skipped, and nothing seen is before the
  user key to skip.
\<close>

lemma forward_loop:
  assumes E: "internal_entries C es"
  shows "db_state s es j d \<Longrightarrow> j < length es \<Longrightarrow> di_direction d = IterForward \<Longrightarrow>
    (\<And>t w. j \<le> t \<Longrightarrow> w < j \<Longrightarrow> seen s es w \<Longrightarrow> seen s es t \<Longrightarrow> Compare C (usr es w) (usr es t) = 0 \<Longrightarrow>
      skipping \<and> Compare C (usr es t) (saved_key d) \<le> 0) \<Longrightarrow>
    (\<And>t. skipping \<Longrightarrow> j \<le> t \<Longrightarrow> seen s es t \<Longrightarrow> Compare C (saved_key d) (usr es t) \<le> 0) \<Longrightarrow>
    \<exists>d'. c_loop (find_next_step iops smp) (skipping, d) = Some d' \<and>
      next_result s es (\<lambda>t. j \<le> t \<and> shown C s es t \<and> (skipping \<longrightarrow> Compare C (saved_key d) (usr es t) < 0)) d'"
proof (induction "length es - j" arbitrary: j skipping d rule: less_induct)
  case less
  note st = less.prems(1) and j = less.prems(2) and P = less.prems(4) and Q = less.prems(5)
  let ?N = "\<lambda>t. j \<le> t \<and> shown C s es t \<and> (skipping \<longrightarrow> Compare C (saved_key d) (usr es t) < 0)"
  obtain e where e: "sampled d e" "db_state s es j e" and eq: "find_next_step iops smp (skipping, d) =
       (if seen s es j then
          if p_type (parsed es j) = kTypeDeletion then forward_turn iops True (e\<lparr>saved_key := usr es j\<rparr>)
          else if skipping \<and> Compare C (usr es j) (saved_key d) \<le> 0 then forward_turn iops skipping e
          else Some (Inl (e\<lparr>di_valid := True, saved_key := []\<rparr>))
        else forward_turn iops skipping e)"
    using find_next_step_eq [OF E st j] .
  have fe: "saved_key e = saved_key d" "di_direction e = IterForward" using e(1) less.prems(3) by (simp_all add: sampled_def)
  have goon: "\<exists>d'. c_loop (find_next_step iops smp) (skipping, d) = Some d' \<and> next_result s es ?N d'"
    if step: "find_next_step iops smp (skipping, d) = forward_turn iops sk f" and f: "db_state s es j f" "di_direction f = IterForward"
      and P': "\<And>t w. j + 1 \<le> t \<Longrightarrow> w < j + 1 \<Longrightarrow> seen s es w \<Longrightarrow> seen s es t \<Longrightarrow> Compare C (usr es w) (usr es t) = 0 \<Longrightarrow>
        sk \<and> Compare C (usr es t) (saved_key f) \<le> 0"
      and Q': "\<And>t. sk \<Longrightarrow> j + 1 \<le> t \<Longrightarrow> seen s es t \<Longrightarrow> Compare C (saved_key f) (usr es t) \<le> 0"
      and N: "\<And>t. ?N t \<longleftrightarrow> j + 1 \<le> t \<and> shown C s es t \<and> (sk \<longrightarrow> Compare C (saved_key f) (usr es t) < 0)" for sk f
  proof -
    have rep: "irep es j (di_iter f)" using f(1) by (simp add: db_state_def)
    obtain i where i: "Next iops (di_iter f) = Some i" "irep es (j + 1) i" using inner.rep_next [OF rep j] by blast
    have V: "Valid iops i \<longleftrightarrow> j + 1 < length es" using inner.rep_Valid [OF i(2)] .
    note st' = db_state_iter [OF f(1) i(2)]
    show ?thesis
    proof (cases "j + 1 < length es")
      case True
      have "\<exists>d'. c_loop (find_next_step iops smp) (sk, f\<lparr>di_iter := i\<rparr>) = Some d' \<and> next_result s es
          (\<lambda>t. j + 1 \<le> t \<and> shown C s es t \<and> (sk \<longrightarrow> Compare C (saved_key (f\<lparr>di_iter := i\<rparr>)) (usr es t) < 0)) d'"
        by (rule less.hyps [OF _ st' True]) (use j f(2) P' Q' in auto)
      then show ?thesis using step i(1) V True N by (simp add: c_loop_unfold)
    next
      case False
      then have "\<not> ?N t" for t using N [of t] seen_less [OF shown_seen, of C s es t] by auto
      then have "next_result s es ?N (f\<lparr>di_iter := i, saved_key := [], di_valid := False\<rparr>)"
        using st' f(2) by (auto simp: next_result_def)
      then show ?thesis using step i(1) V False by (auto simp: c_loop_unfold)
    qed
  qed
  have le: "Compare C (usr es j) (usr es t) \<le> 0" if "j \<le> t" "seen s es t" for t
    using usr_le [OF E that(1)] seen_less that(2) by blast
  show ?case
  proof (cases "seen s es j")
    case False
    show ?thesis
    proof (rule goon)
      show "find_next_step iops smp (skipping, d) = forward_turn iops skipping e" using eq False by simp
      fix t
      show "?N t \<longleftrightarrow> j + 1 \<le> t \<and> shown C s es t \<and> (skipping \<longrightarrow> Compare C (saved_key e) (usr es t) < 0)"
        using False fe shown_seen [of C s es t] by (cases "t = j") auto
    next
      fix t w
      assume "j + 1 \<le> t" "w < j + 1" "seen s es w" "seen s es t" "Compare C (usr es w) (usr es t) = 0"
      then show "skipping \<and> Compare C (usr es t) (saved_key e) \<le> 0"
        using P [of t w] fe False by (cases "w = j") auto
    qed (use e fe Q in auto)
  next
    case True
    have only: "j < t" if "shown C s es t" "j \<le> t" "p_type (parsed es j) = kTypeDeletion \<or> seen s es j \<and> \<not> shown C s es j" for t
      using that by (cases "t = j") (auto simp: shown_def kTypeDeletion_def kTypeValue_def)
    consider "p_type (parsed es j) = kTypeDeletion" | "p_type (parsed es j) \<noteq> kTypeDeletion" "skipping" "Compare C (usr es j) (saved_key d) \<le> 0"
      | "p_type (parsed es j) \<noteq> kTypeDeletion" "skipping \<longrightarrow> Compare C (saved_key d) (usr es j) < 0"
      using user_sign [of "saved_key d" "usr es j"] by linarith
    then show ?thesis
    proof cases
      case 1
      show ?thesis
      proof (rule goon)
        show "find_next_step iops smp (skipping, d) = forward_turn iops True (e\<lparr>saved_key := usr es j\<rparr>)" using eq True 1 by simp
        fix t
        have "Compare C (saved_key d) (usr es t) < 0" if "skipping" "Compare C (usr es j) (usr es t) < 0"
          using user_le_less [OF Q [OF that(1) _ True] that(2)] by simp
        then show "?N t \<longleftrightarrow> j + 1 \<le> t \<and> shown C s es t \<and> (True \<longrightarrow> Compare C (saved_key (e\<lparr>saved_key := usr es j\<rparr>)) (usr es t) < 0)"
          using only [of t] 1 shown_less [OF E _ True, of t] by auto
      next
        fix t w
        assume "j + 1 \<le> t" "w < j + 1" "seen s es w" "seen s es t" "Compare C (usr es w) (usr es t) = 0"
        moreover have "Compare C (usr es w) (usr es j) \<le> 0" using usr_le [OF E _ j] \<open>w < j + 1\<close> by simp
        ultimately show "True \<and> Compare C (usr es t) (saved_key (e\<lparr>saved_key := usr es j\<rparr>)) \<le> 0"
          using user_trans [of "usr es t" "usr es w" "usr es j"] same_user [of "usr es w" "usr es t"] by simp
      qed (use e fe le in auto)
    next
      case 2
      have notN: "\<not> ?N j" using 2 user_not_less by blast
      show ?thesis
      proof (rule goon)
        show "find_next_step iops smp (skipping, d) = forward_turn iops skipping e" using eq True 2 by simp
        fix t
        show "?N t \<longleftrightarrow> j + 1 \<le> t \<and> shown C s es t \<and> (skipping \<longrightarrow> Compare C (saved_key e) (usr es t) < 0)"
          using notN fe by (cases "t = j") auto
      next
        fix t w
        assume w: "j + 1 \<le> t" "w < j + 1" "seen s es w" "seen s es t" "Compare C (usr es w) (usr es t) = 0"
        show "skipping \<and> Compare C (usr es t) (saved_key e) \<le> 0"
        proof (cases "w = j")
          case True
          then have "Compare C (usr es t) (usr es j) \<le> 0" using w(5) same_user by blast
          then show ?thesis using 2 fe user_trans by simp
        next
          case False
          then show ?thesis using w P [of t w] fe by simp
        qed
      qed (use e fe Q in auto)
    next
      case 3
      have "Compare C (usr es w) (usr es j) \<noteq> 0" if "w < j" "seen s es w" for w
        using P [of j w] that True 3(2) user_sign [of "saved_key d" "usr es j"] by auto
      then have "shown C s es j"
        using True 3(1) ParseInternalKey_parts(5) [OF parsed_entry(1) [OF E j]] by (auto simp: shown_def)
      then have "next_result s es ?N (e\<lparr>di_valid := True, saved_key := []\<rparr>)"
        using 3(2) e(2) fe by (auto simp: next_result_def)
      moreover have "find_next_step iops smp (skipping, d) = Some (Inl (e\<lparr>di_valid := True, saved_key := []\<rparr>))"
        using eq True 3 user_not_less by auto
      ultimately show ?thesis by (auto simp: c_loop_unfold)
    qed
  qed
qed

section \<open>Moving backward\<close>

text \<open>The position lies in front of a user key: on an entry before it, with no seen entry before the key behind.\<close>

definition in_front :: "SequenceNumber \<Rightarrow> entries \<Rightarrow> nat \<Rightarrow> slice \<Rightarrow> bool" where
  "in_front s es p k \<longleftrightarrow> (p < length es \<longrightarrow> Compare C (usr es p) k < 0) \<and>
     (\<forall>t. seen s es t \<and> Compare C (usr es t) k < 0 \<longrightarrow> p < length es \<and> t \<le> p)"

definition prev_result :: "SequenceNumber \<Rightarrow> entries \<Rightarrow> (nat \<Rightarrow> bool) \<Rightarrow> u8 \<times> ('d, 'i) DBIter \<Rightarrow> bool" where
  "prev_result s es N r \<longleftrightarrow> di_direction (snd r) = IterReverse \<and> (\<exists>p. db_state s es p (snd r) \<and>
     (fst r = kTypeDeletion \<and> (\<forall>t. \<not> N t) \<or>
      fst r \<noteq> kTypeDeletion \<and> (\<exists>t. N t \<and> (\<forall>t'. N t' \<longrightarrow> t' \<le> t) \<and> saved_key (snd r) = usr es t \<and>
        saved_value (snd r) = snd (es ! t) \<and> in_front s es p (usr es t))))"

text \<open>The value that is kept while the loop looks for older or deleted entries, with the entries from \<open>q\<close> on passed.\<close>

definition candidate :: "SequenceNumber \<Rightarrow> entries \<Rightarrow> nat \<Rightarrow> u8 \<Rightarrow> ('d, 'i) DBIter \<Rightarrow> nat option \<Rightarrow> bool" where
  "candidate s es q vt d c \<longleftrightarrow> vt = kTypeDeletion \<and> c = None \<or>
     vt = kTypeValue \<and> (\<exists>k. c = Some k \<and> q \<le> k \<and> seen s es k \<and> p_type (parsed es k) = kTypeValue \<and> saved_key d = usr es k \<and>
       saved_value d = snd (es ! k) \<and> (\<forall>w. q \<le> w \<and> w < k \<longrightarrow> \<not> seen s es w))"

lemma find_prev_step_eq:
  assumes "internal_entries C es" "db_state s es p d" "p < length es"
  obtains d' where "sampled d d'" "db_state s es p d'"
    "find_prev_step iops smp (vt, d) =
       (if seen s es p then
          if vt \<noteq> kTypeDeletion \<and> Compare C (usr es p) (saved_key d) < 0 then Some (Inl (vt, d'))
          else if p_type (parsed es p) = kTypeDeletion then backward_turn iops kTypeDeletion (d'\<lparr>saved_key := [], saved_value := []\<rparr>)
          else backward_turn iops kTypeValue (d'\<lparr>saved_key := usr es p, saved_value := snd (es ! p)\<rparr>)
        else backward_turn iops vt d')"
proof -
  obtain d' where d': "DBIter_ParseKey iops smp d = Some (Some (parsed es p), d')" "sampled d d'" "db_state s es p d'"
    using db_ParseKey [OF assms] .
  have rep: "irep es p (di_iter d')" using d'(3) by (simp add: db_state_def)
  note pk = ParseInternalKey_parts(1,5) [OF parsed_entry(1) [OF assms(1,3)]]
  have f: "di_sequence d' = s" "di_user_comparator d' = C" "saved_key d' = saved_key d"
    using d'(2,3) by (simp_all add: db_state_def sampled_def)
  note kv = inner.rep_key [OF rep assms(3)] inner.rep_value [OF rep assms(3)]
  show thesis
    by (rule that [OF d'(2,3)])
      (use d'(1) pk assms(3) kv in \<open>auto simp: find_prev_step_def f seen_def Let_def split: option.split\<close>)
qed

lemma backward_stop:
  assumes E: "internal_entries C es" and st: "db_state s es (length es) d" "di_direction d = IterReverse" and c: "candidate s es 0 vt d c"
  shows "prev_result s es (\<lambda>t. shown C s es t \<and> c = Some t) (vt, d)"
proof (cases "vt = kTypeDeletion")
  case True
  then have "c = None" using c by (auto simp: candidate_def kTypeDeletion_def kTypeValue_def)
  then show ?thesis using True st by (auto simp: prev_result_def)
next
  case False
  then obtain k where k: "c = Some k" "seen s es k" "p_type (parsed es k) = kTypeValue" "saved_key d = usr es k"
    "saved_value d = snd (es ! k)" "\<forall>w < k. \<not> seen s es w"
    using c by (auto simp: candidate_def)
  then have "shown C s es k" by (auto simp: shown_def)
  moreover have "in_front s es (length es) (usr es k)"
    using usr_less_index [OF E seen_less] k(6) by (auto simp: in_front_def)
  ultimately show ?thesis using False st k by (auto simp: prev_result_def)
qed

lemma backward_loop:
  assumes E: "internal_entries C es"
  shows "db_state s es p d \<Longrightarrow> p < length es \<Longrightarrow> di_direction d = IterReverse \<Longrightarrow> candidate s es (p + 1) vt d c \<Longrightarrow>
    \<exists>r. c_loop (find_prev_step iops smp) (vt, d) = Some r \<and> prev_result s es (\<lambda>t. shown C s es t \<and> (t \<le> p \<or> c = Some t)) r"
proof (induction p arbitrary: vt d c rule: less_induct)
  case (less p)
  note st = less.prems(1) and p = less.prems(2) and c = less.prems(4)
  let ?N = "\<lambda>t. shown C s es t \<and> (t \<le> p \<or> c = Some t)"
  obtain e where e: "sampled d e" "db_state s es p e" and eq: "find_prev_step iops smp (vt, d) =
       (if seen s es p then
          if vt \<noteq> kTypeDeletion \<and> Compare C (usr es p) (saved_key d) < 0 then Some (Inl (vt, e))
          else if p_type (parsed es p) = kTypeDeletion then backward_turn iops kTypeDeletion (e\<lparr>saved_key := [], saved_value := []\<rparr>)
          else backward_turn iops kTypeValue (e\<lparr>saved_key := usr es p, saved_value := snd (es ! p)\<rparr>)
        else backward_turn iops vt e)"
    using find_prev_step_eq [OF E st p] .
  have fe: "saved_key e = saved_key d" "saved_value e = saved_value d" "di_direction e = IterReverse"
    using e(1) less.prems(3) by (simp_all add: sampled_def)
  have goon: "\<exists>r. c_loop (find_prev_step iops smp) (vt, d) = Some r \<and> prev_result s es ?N r"
    if step: "find_prev_step iops smp (vt, d) = backward_turn iops vt' f" and f: "db_state s es p f" "di_direction f = IterReverse"
      and c': "candidate s es p vt' f c'" and N: "\<And>t. ?N t \<longleftrightarrow> shown C s es t \<and> (t < p \<or> c' = Some t)" for vt' f c'
  proof -
    have rep: "irep es p (di_iter f)" using f(1) by (simp add: db_state_def)
    obtain i where i: "Prev iops (di_iter f) = Some i" "irep es (if p = 0 then length es else p - 1) i"
      using inner.rep_prev [OF rep p] by blast
    have V: "Valid iops i \<longleftrightarrow> p \<noteq> 0" using inner.rep_Valid [OF i(2)] p by auto
    note st' = db_state_iter [OF f(1) i(2)]
    have c'': "candidate s es q vt' (f\<lparr>di_iter := i\<rparr>) c'" if "q = p" for q using c' that by (simp add: candidate_def)
    show ?thesis
    proof (cases "p = 0")
      case True
      then have "prev_result s es (\<lambda>t. shown C s es t \<and> c' = Some t) (vt', f\<lparr>di_iter := i\<rparr>)"
        using backward_stop [OF E _ _ c''] st' f(2) by simp
      then show ?thesis using step i(1) V True N by (auto simp: c_loop_unfold)
    next
      case False
      have "\<exists>r. c_loop (find_prev_step iops smp) (vt', f\<lparr>di_iter := i\<rparr>) = Some r \<and>
          prev_result s es (\<lambda>t. shown C s es t \<and> (t \<le> p - 1 \<or> c' = Some t)) r"
        by (rule less.IH) (use False p st' f(2) c'' in auto)
      moreover have "t \<le> p - 1 \<longleftrightarrow> t < p" for t using False by linarith
      ultimately show ?thesis using step i(1) V False N by (simp add: c_loop_unfold)
    qed
  qed
  show ?case
  proof (cases "seen s es p")
    case False
    have "candidate s es p vt e c" using c fe False by (auto simp: candidate_def) (metis Suc_le_eq le_neq_implies_less)+
    moreover have "?N t \<longleftrightarrow> shown C s es t \<and> (t < p \<or> c = Some t)" for t
      using False shown_seen [of C s es t] by (cases "t = p") auto
    ultimately show ?thesis using eq False e(2) fe(3) by (intro goon) simp_all
  next
    case True
    show ?thesis
    proof (cases "vt \<noteq> kTypeDeletion \<and> Compare C (usr es p) (saved_key d) < 0")
      case brk: True
      then obtain k where k: "c = Some k" "p + 1 \<le> k" "seen s es k" "p_type (parsed es k) = kTypeValue" "saved_key d = usr es k"
        "saved_value d = snd (es ! k)" "\<And>w. p + 1 \<le> w \<Longrightarrow> w < k \<Longrightarrow> \<not> seen s es w"
        using c by (auto simp: candidate_def)
      have before: "w \<le> p" if "w < k" "seen s es w" for w using k(7) [of w] that by linarith
      have "Compare C (usr es w) (usr es k) \<noteq> 0" if "w < k" "seen s es w" for w
        using user_le_less [OF usr_le [OF E before [OF that] p]] brk k(5) by fastforce
      then have sh: "shown C s es k" using k by (auto simp: shown_def)
      have "in_front s es p (usr es k)"
        using brk k(5) p before usr_less_index [OF E seen_less] by (auto simp: in_front_def)
      then have "prev_result s es ?N (vt, e)"
        unfolding prev_result_def
        by (intro conjI exI [of _ p] disjI2 exI [of _ k]) (use sh k brk e(2) fe in auto)
      then show ?thesis using eq True brk by (auto simp: c_loop_unfold)
    next
      case noc: False
      have gone: "\<not> shown C s es k" if "c = Some k" for k
      proof -
        have k: "p < k" "seen s es k" "saved_key d = usr es k" "vt = kTypeValue" using c that by (auto simp: candidate_def)
        then have "\<not> Compare C (usr es p) (usr es k) < 0" using noc by (auto simp: kTypeValue_def kTypeDeletion_def)
        then show ?thesis using shown_less [OF E _ True k(1)] by blast
      qed
      show ?thesis
      proof (cases "p_type (parsed es p) = kTypeDeletion")
        case del: True
        have "\<not> shown C s es p" using del by (simp add: shown_def kTypeDeletion_def kTypeValue_def)
        then have "?N t \<longleftrightarrow> shown C s es t \<and> (t < p \<or> None = Some t)" for t using gone by (cases "t = p") auto
        then show ?thesis
          using eq True noc del e(2) fe(3)
          by (intro goon [of kTypeDeletion "e\<lparr>saved_key := [], saved_value := []\<rparr>" None]) (simp_all add: candidate_def)
      next
        case val: False
        then have "p_type (parsed es p) = kTypeValue" using ParseInternalKey_parts(5) [OF parsed_entry(1) [OF E p]] by blast
        moreover have "?N t \<longleftrightarrow> shown C s es t \<and> (t < p \<or> Some p = Some t)" for t using gone by (cases "t = p") auto
        ultimately show ?thesis
          using eq True noc val e(2) fe(3)
          by (intro goon [of kTypeValue "e\<lparr>saved_key := usr es p, saved_value := snd (es ! p)\<rparr>" "Some p"]) (simp_all add: candidate_def, auto)
      qed
    qed
  qed
qed

section \<open>The iterator is a cursor\<close>

definition db_rep :: "SequenceNumber \<Rightarrow> entries \<Rightarrow> nat \<Rightarrow> ('d, 'i) DBIter \<Rightarrow> bool" where
  "db_rep s es n d \<longleftrightarrow> n \<le> length (shown_at C s es) \<and> (\<exists>p. db_state s es p d \<and> di_valid d = (n < length (shown_at C s es)) \<and>
     (n < length (shown_at C s es) \<longrightarrow>
        (if di_direction d = IterForward then p = shown_at C s es ! n
         else saved_key d = usr es (shown_at C s es ! n) \<and> saved_value d = snd (es ! (shown_at C s es ! n)) \<and>
           in_front s es p (usr es (shown_at C s es ! n)))))"

lemma next_result_rep:
  assumes r: "next_result s es N d" and N: "\<And>t. N t \<longleftrightarrow> t \<in> set (drop n (shown_at C s es))" and n: "n \<le> length (shown_at C s es)"
  shows "db_rep s es n d"
proof -
  let ?S = "shown_at C s es"
  obtain p where p: "db_state s es p d" "di_valid d \<and> N p \<and> (\<forall>t. N t \<longrightarrow> p \<le> t) \<or> \<not> di_valid d \<and> (\<forall>t. \<not> N t)"
    and dir: "di_direction d = IterForward" using r by (auto simp: next_result_def)
  show ?thesis
  proof (cases "n < length ?S")
    case True
    then have first: "?S ! n \<in> set (drop n ?S)" by (metis Cons_nth_drop_Suc list.set_intros(1))
    then have v: "di_valid d" "N p" "p \<le> ?S ! n" using p(2) N by blast+
    have "sorted_wrt (<) (drop n ?S)" using shown_at_sorted [of C s es] by (metis append_take_drop_id sorted_wrt_append)
    moreover have "drop n ?S = ?S ! n # drop (n + 1) ?S" using True by (simp add: Cons_nth_drop_Suc)
    ultimately have "\<forall>t \<in> set (drop n ?S). ?S ! n \<le> t" by auto
    then have "p = ?S ! n" using v N by (meson antisym)
    then show ?thesis using True p(1) v(1) dir by (auto simp: db_rep_def)
  next
    case False
    then have "\<not> di_valid d" using p(2) N by auto
    then show ?thesis using False n p(1) by (auto simp: db_rep_def)
  qed
qed

lemma FindPrev_rep:
  assumes E: "internal_entries C es" and st: "db_state s es p d" "di_direction d = IterReverse" and n: "n \<le> length (shown_at C s es)"
    and N: "\<And>t. p < length es \<and> shown C s es t \<and> t \<le> p \<longleftrightarrow> t \<in> set (take n (shown_at C s es))"
  shows "\<exists>d'. FindPrevUserEntry iops smp d = Some d' \<and> db_rep s es (if n = 0 then length (shown_at C s es) else n - 1) d'"
proof -
  let ?S = "shown_at C s es"
  have rep: "irep es p (di_iter d)" using st(1) by (simp add: db_state_def)
  have "\<exists>r. (if Valid iops (di_iter d) then c_loop (find_prev_step iops smp) (kTypeDeletion, d) else Some (kTypeDeletion, d)) = Some r \<and>
      prev_result s es (\<lambda>t. t \<in> set (take n ?S)) r"
  proof (cases "p < length es")
    case True
    have "candidate s es (p + 1) kTypeDeletion d None" by (simp add: candidate_def)
    from backward_loop [OF E st(1) True st(2) this] show ?thesis
      using inner.rep_Valid [OF rep] True N by simp
  next
    case False
    then have "prev_result s es (\<lambda>t. t \<in> set (take n ?S)) (kTypeDeletion, d)" using N st by (auto simp: prev_result_def)
    then show ?thesis using inner.rep_Valid [OF rep] False by simp
  qed
  then obtain vt d' where r: "(if Valid iops (di_iter d) then c_loop (find_prev_step iops smp) (kTypeDeletion, d) else Some (kTypeDeletion, d)) =
      Some (vt, d')" "prev_result s es (\<lambda>t. t \<in> set (take n ?S)) (vt, d')" by auto
  obtain q where q: "db_state s es q d'" "di_direction d' = IterReverse"
    "vt = kTypeDeletion \<and> take n ?S = [] \<or> vt \<noteq> kTypeDeletion \<and> (\<exists>t. t \<in> set (take n ?S) \<and> (\<forall>t' \<in> set (take n ?S). t' \<le> t) \<and>
      saved_key d' = usr es t \<and> saved_value d' = snd (es ! t) \<and> in_front s es q (usr es t))"
    using r(2) by (auto simp: prev_result_def)
  show ?thesis
  proof (cases "take n ?S = []")
    case True
    then have "vt = kTypeDeletion" "n = 0 \<or> ?S = []" using q(3) by auto
    then show ?thesis using r(1) st(2) q n by (auto simp: FindPrevUserEntry_def db_rep_def)
  next
    case False
    then obtain t where t: "vt \<noteq> kTypeDeletion" "t \<in> set (take n ?S)" "\<forall>t' \<in> set (take n ?S). t' \<le> t"
      "saved_key d' = usr es t" "saved_value d' = snd (es ! t)" "in_front s es q (usr es t)" using q(3) by auto
    have n0: "n \<noteq> 0" "n - 1 < length ?S" using False n by auto
    obtain k where k: "k < n" "t = ?S ! k" using t(2) by (auto simp: in_set_conv_nth)
    have "?S ! (n - 1) \<in> set (take n ?S)" using n0 by (auto simp: in_set_conv_nth intro!: exI [of _ "n - 1"])
    then have "?S ! (n - 1) \<le> t" using t(3) by blast
    moreover have "?S ! k < ?S ! (n - 1)" if "k < n - 1"
      using sorted_wrt_nth_less [OF shown_at_sorted that] n0 by simp
    ultimately have "k = n - 1" using k by (metis Suc_diff_1 leD less_Suc_eq neq0_conv n0(1))
    then have "t = ?S ! (n - 1)" using k by simp
    then show ?thesis using r(1) st(2) q t n0 n by (auto simp: FindPrevUserEntry_def db_rep_def)
  qed
qed

lemma user_of_entry:
  assumes "internal_entries C es" "p < length es"
  shows "ExtractUserKey (fst (es ! p)) = usr es p"
  using ParseInternalKey_parts(1) [OF parsed_entry(1) [OF assms]] by simp

lemma shown_after:
  assumes E: "internal_entries C es" and n: "n < length (shown_at C s es)" and j: "j \<le> shown_at C s es ! n"
  shows "j \<le> t \<and> shown C s es t \<and> (True \<longrightarrow> Compare C (usr es (shown_at C s es ! n)) (usr es t) < 0) \<longleftrightarrow>
    t \<in> set (drop (n + 1) (shown_at C s es))"
proof -
  note sh = shown_at_nth [OF n]
  have "Compare C (usr es (shown_at C s es ! n)) (usr es t) < 0 \<longleftrightarrow> shown_at C s es ! n < t" if "shown C s es t"
    using usr_less_index [OF E seen_less [OF shown_seen [OF sh]], of t] shown_less [OF E that shown_seen [OF sh]] by blast
  then have "shown C s es t \<and> Compare C (usr es (shown_at C s es ! n)) (usr es t) < 0 \<longleftrightarrow> t \<in> set (drop (n + 1) (shown_at C s es))"
    unfolding set_drop_sorted [OF shown_at_sorted n] set_shown_at by blast
  moreover have "j \<le> t" if "t \<in> set (drop (n + 1) (shown_at C s es))"
    using that j unfolding set_drop_sorted [OF shown_at_sorted n] by simp
  ultimately show ?thesis by blast
qed

lemma shown_before:
  assumes E: "internal_entries C es" and n: "n < length (shown_at C s es)" and f: "in_front s es p (usr es (shown_at C s es ! n))"
  shows "p < length es \<and> shown C s es t \<and> t \<le> p \<longleftrightarrow> t \<in> set (take n (shown_at C s es))"
proof -
  note sh = shown_at_nth [OF n]
  have "p < shown_at C s es ! n" if "p < length es" using usr_less_index [OF E that] f that by (simp add: in_front_def)
  moreover have "p < length es \<and> t \<le> p" if "shown C s es t" "t < shown_at C s es ! n"
    using f shown_less [OF E sh shown_seen [OF that(1)] that(2)] shown_seen [OF that(1)] by (simp add: in_front_def)
  ultimately show ?thesis by (auto simp: set_take_sorted [OF shown_at_sorted n] set_shown_at)
qed

lemma db_first:
  assumes E: "internal_entries C es" and st: "db_state s es p d"
  shows "\<exists>d'. DBIter_SeekToFirst iops smp d = Some d' \<and> db_rep s es 0 d'"
proof -
  have rep: "irep es p (di_iter d)" using st by (simp add: db_state_def)
  obtain i where i: "SeekToFirst iops (di_iter d) = Some i" "irep es 0 i" using inner.rep_first [OF rep] by blast
  note V = inner.rep_Valid [OF i(2)]
  let ?d = "d\<lparr>di_direction := IterForward, saved_value := [], di_iter := i\<rparr>"
  have st': "db_state s es 0 ?d" using st i(2) by (simp add: db_state_def)
  show ?thesis
  proof (cases "es = []")
    case True
    then have "db_rep s es 0 (?d\<lparr>di_valid := False\<rparr>)" using st' by (auto simp: db_rep_def shown_at_def)
    then show ?thesis using i V True by (simp add: DBIter_SeekToFirst_def)
  next
    case False
    obtain d' where d': "c_loop (find_next_step iops smp) (False, ?d) = Some d'"
      "next_result s es (\<lambda>t. 0 \<le> t \<and> shown C s es t \<and> (False \<longrightarrow> Compare C (saved_key ?d) (usr es t) < 0)) d'"
      using forward_loop [OF E st', of False smp] False by auto
    have "db_rep s es 0 d'" by (rule next_result_rep [OF d'(2)]) (simp_all add: set_shown_at)
    then show ?thesis using i V False d'(1) by (simp add: DBIter_SeekToFirst_def FindNextUserEntry_def)
  qed
qed

lemma db_last:
  assumes E: "internal_entries C es" and st: "db_state s es p d"
  shows "\<exists>d'. DBIter_SeekToLast iops smp d = Some d' \<and> db_rep s es (length (shown_at C s es) - 1) d'"
proof -
  have rep: "irep es p (di_iter d)" using st by (simp add: db_state_def)
  obtain i where i: "SeekToLast iops (di_iter d) = Some i" "irep es (length es - 1) i" using inner.rep_last [OF rep] by blast
  let ?d = "d\<lparr>di_direction := IterReverse, saved_value := [], di_iter := i\<rparr>"
  have st': "db_state s es (length es - 1) ?d" using st i(2) by (simp add: db_state_def)
  have "\<exists>d'. FindPrevUserEntry iops smp ?d = Some d' \<and>
      db_rep s es (if length (shown_at C s es) = 0 then length (shown_at C s es) else length (shown_at C s es) - 1) d'"
  proof (rule FindPrev_rep [OF E st'])
    fix t
    show "length es - 1 < length es \<and> shown C s es t \<and> t \<le> length es - 1 \<longleftrightarrow> t \<in> set (take (length (shown_at C s es)) (shown_at C s es))"
      using seen_less [OF shown_seen, of C s es t] by (auto simp: set_shown_at)
  qed simp_all
  then show ?thesis using i(1) by (auto simp: DBIter_SeekToLast_def split: if_splits)
qed

lemma db_next:
  assumes E: "internal_entries C es" and rep: "db_rep s es n d" and n: "n < length (shown_at C s es)"
  shows "\<exists>d'. DBIter_Next iops smp d = Some d' \<and> db_rep s es (n + 1) d'"
proof -
  let ?m = "shown_at C s es ! n"
  note sh = shown_at_nth [OF n] shown_seen [OF shown_at_nth [OF n]]
  have m: "?m < length es" using seen_less [OF sh(2)] .
  obtain p where st: "db_state s es p d" and v: "di_valid d" and fwd: "di_direction d = IterForward \<Longrightarrow> p = ?m"
    and rv: "di_direction d = IterReverse \<Longrightarrow> saved_key d = usr es ?m \<and> in_front s es p (usr es ?m)"
    using rep n by (auto simp: db_rep_def split: if_splits)
  have irep: "irep es p (di_iter d)" using st by (simp add: db_state_def)
  have go: "\<exists>d'. FindNextUserEntry iops smp True e = Some d' \<and> db_rep s es (n + 1) d'"
    if e: "db_state s es j e" "di_direction e = IterForward" "saved_key e = usr es ?m" and j: "j \<le> ?m"
      and P: "\<And>w. w < j \<Longrightarrow> Compare C (usr es w) (usr es ?m) \<le> 0"
      and Q: "\<And>t. j \<le> t \<Longrightarrow> seen s es t \<Longrightarrow> Compare C (usr es ?m) (usr es t) \<le> 0" for j e
  proof -
    have jl: "j < length es" using j m by simp
    have r: "irep es j (di_iter e)" using e(1) by (simp add: db_state_def)
    have "\<exists>d'. c_loop (find_next_step iops smp) (True, e) = Some d' \<and>
        next_result s es (\<lambda>t. j \<le> t \<and> shown C s es t \<and> (True \<longrightarrow> Compare C (saved_key e) (usr es t) < 0)) d'"
    proof (rule forward_loop [OF E e(1) jl e(2)])
      fix t w
      assume "w < j" "Compare C (usr es w) (usr es t) = 0"
      then show "True \<and> Compare C (usr es t) (saved_key e) \<le> 0"
        using user_trans [of "usr es t" "usr es w" "usr es ?m"] same_user [of "usr es w" "usr es t"] P e(3) by simp
    qed (use Q e(3) in simp)
    then obtain d' where d': "c_loop (find_next_step iops smp) (True, e) = Some d'"
      "next_result s es (\<lambda>t. j \<le> t \<and> shown C s es t \<and> (True \<longrightarrow> Compare C (saved_key e) (usr es t) < 0)) d'" by blast
    have "db_rep s es (n + 1) d'"
      by (rule next_result_rep [OF d'(2)]) (use shown_after [OF E n j] n e(3) in simp_all)
    then show ?thesis using d'(1) e(2) inner.rep_Valid [OF r] jl by (simp add: FindNextUserEntry_def)
  qed
  show ?thesis
  proof (cases "di_direction d")
    case IterForward
    have "\<exists>d'. FindNextUserEntry iops smp True (d\<lparr>saved_key := usr es ?m\<rparr>) = Some d' \<and> db_rep s es (n + 1) d'"
      by (rule go [of ?m]) (use st fwd IterForward usr_le [OF E] m seen_less in auto)
    moreover have "iter_key iops (di_iter d) = Some (fst (es ! ?m))" using inner.rep_key [OF irep] fwd IterForward m by simp
    ultimately show ?thesis using v IterForward by (simp add: DBIter_Next_def user_of_entry [OF E m])
  next
    case IterReverse
    note b = rv [OF IterReverse]
    let ?j = "if p < length es then p + 1 else 0"
    have p: "p < ?m" if "p < length es" using usr_less_index [OF E that] b that by (simp add: in_front_def)
    obtain i where i: "(if \<not> Valid iops (di_iter d) then SeekToFirst iops (di_iter d) else Next iops (di_iter d)) = Some i" "irep es ?j i"
      using inner.rep_Valid [OF irep] inner.rep_first [OF irep] inner.rep_next [OF irep] by (cases "p < length es") auto
    have jm: "?j \<le> ?m" using p by auto
    have V: "Valid iops i" using inner.rep_Valid [OF i(2)] jm m by simp
    have "\<exists>d'. FindNextUserEntry iops smp True (d\<lparr>di_direction := IterForward, di_iter := i\<rparr>) = Some d' \<and> db_rep s es (n + 1) d'"
    proof (rule go [of ?j])
      show "db_state s es ?j (d\<lparr>di_direction := IterForward, di_iter := i\<rparr>)" using st i(2) by (simp add: db_state_def)
      show "Compare C (usr es w) (usr es ?m) \<le> 0" if "w < ?j" for w
        using usr_le [OF E _ m, of w] that p by (auto split: if_splits)
      show "Compare C (usr es ?m) (usr es t) \<le> 0" if "?j \<le> t" "seen s es t" for t
        using b that user_not_less [of "usr es t" "usr es ?m"] by (auto simp: in_front_def split: if_splits)
    qed (use b jm in auto)
    then show ?thesis using v IterReverse i(1) V by (cases "Valid iops (di_iter d)") (simp_all add: DBIter_Next_def Let_def)
  qed
qed

lemma turn_back:
  assumes E: "internal_entries C es"
  shows "db_state s es p d \<Longrightarrow> p < length es \<Longrightarrow> saved_key d = k \<Longrightarrow>
    \<exists>b d' q. c_loop (turn_back_step iops) d = Some (b, d') \<and> db_state s es q d' \<and> saved_key d' = (if b then k else []) \<and>
      di_direction d' = di_direction d \<and> (di_valid d' \<longrightarrow> b) \<and>
      (if b then q < p \<and> Compare C (usr es q) k < 0 \<and> (\<forall>t. q < t \<and> t < p \<longrightarrow> \<not> Compare C (usr es t) k < 0)
       else \<forall>t < p. \<not> Compare C (usr es t) k < 0)"
proof (induction p arbitrary: d)
  case (0 d)
  have rep: "irep es 0 (di_iter d)" using 0(1) by (simp add: db_state_def)
  obtain i where i: "Prev iops (di_iter d) = Some i" "irep es (length es) i" using inner.rep_prev [OF rep 0(2)] by auto
  let ?d = "d\<lparr>di_iter := i, di_valid := False, saved_key := [], saved_value := []\<rparr>"
  have "turn_back_step iops d = Some (Inl (False, ?d))" using i inner.rep_Valid [OF i(2)] by (simp add: turn_back_step_def)
  moreover have "db_state s es (length es) ?d" using 0(1) i(2) by (simp add: db_state_def)
  ultimately show ?case by (intro exI [of _ False] exI [of _ ?d] exI [of _ "length es"]) (simp add: c_loop_unfold)
next
  case (Suc p d)
  have p: "p < length es" using Suc.prems(2) by simp
  have rep: "irep es (Suc p) (di_iter d)" using Suc.prems(1) by (simp add: db_state_def)
  obtain i where i: "Prev iops (di_iter d) = Some i" "irep es p i" using inner.rep_prev [OF rep Suc.prems(2)] by auto
  have V: "Valid iops i" using inner.rep_Valid [OF i(2)] p by simp
  have st: "db_state s es p (d\<lparr>di_iter := i\<rparr>)" using Suc.prems(1) i(2) by (simp add: db_state_def)
  have C: "di_user_comparator d = C" using Suc.prems(1) by (simp add: db_state_def)
  have key: "iter_key iops i = Some (fst (es ! p))" using inner.rep_key [OF i(2) p] .
  show ?case
  proof (cases "Compare C (usr es p) k < 0")
    case True
    then have "turn_back_step iops d = Some (Inl (True, d\<lparr>di_iter := i\<rparr>))"
      using i(1) V key C Suc.prems(3) by (simp add: turn_back_step_def user_of_entry [OF E p])
    then show ?thesis using st True Suc.prems(3) by (intro exI [of _ True] exI [of _ "d\<lparr>di_iter := i\<rparr>"] exI [of _ p]) (auto simp: c_loop_unfold)
  next
    case False
    then have step: "turn_back_step iops d = Some (Inr (d\<lparr>di_iter := i\<rparr>))"
      using i(1) V key C Suc.prems(3) by (simp add: turn_back_step_def user_of_entry [OF E p])
    obtain b d' q where r: "c_loop (turn_back_step iops) (d\<lparr>di_iter := i\<rparr>) = Some (b, d')" "db_state s es q d'"
      "saved_key d' = (if b then k else [])" "di_direction d' = di_direction d" "di_valid d' \<longrightarrow> b"
      "if b then q < p \<and> Compare C (usr es q) k < 0 \<and> (\<forall>t. q < t \<and> t < p \<longrightarrow> \<not> Compare C (usr es t) k < 0)
       else \<forall>t < p. \<not> Compare C (usr es t) k < 0"
      using Suc.IH [OF st p] Suc.prems(3) by (simp split del: if_split) blast
    have "if b then q < Suc p \<and> Compare C (usr es q) k < 0 \<and> (\<forall>t. q < t \<and> t < Suc p \<longrightarrow> \<not> Compare C (usr es t) k < 0)
       else \<forall>t < Suc p. \<not> Compare C (usr es t) k < 0"
      using r(6) False by (auto simp: less_Suc_eq split: if_splits)
    then show ?thesis using r step by (intro exI [of _ b] exI [of _ d'] exI [of _ q]) (simp add: c_loop_unfold)
  qed
qed

lemma db_prev:
  assumes E: "internal_entries C es" and rep: "db_rep s es n d" and n: "n < length (shown_at C s es)"
  shows "\<exists>d'. DBIter_Prev iops smp d = Some d' \<and> db_rep s es (if n = 0 then length (shown_at C s es) else n - 1) d'"
proof -
  let ?m = "shown_at C s es ! n"
  note sh = shown_at_nth [OF n] shown_seen [OF shown_at_nth [OF n]]
  have m: "?m < length es" using seen_less [OF sh(2)] .
  obtain p where st: "db_state s es p d" and v: "di_valid d" and fwd: "di_direction d = IterForward \<Longrightarrow> p = ?m"
    and rv: "di_direction d = IterReverse \<Longrightarrow> in_front s es p (usr es ?m)"
    using rep n by (auto simp: db_rep_def split: if_splits)
  show ?thesis
  proof (cases "di_direction d")
    case IterReverse
    have "\<exists>d'. FindPrevUserEntry iops smp d = Some d' \<and> db_rep s es (if n = 0 then length (shown_at C s es) else n - 1) d'"
      by (rule FindPrev_rep [OF E st IterReverse]) (use n shown_before [OF E n rv [OF IterReverse]] in simp_all)
    then show ?thesis using v IterReverse by (simp add: DBIter_Prev_def)
  next
    case IterForward
    have at_m: "db_state s es ?m d" using st fwd [OF IterForward] by simp
    then have irep: "irep es ?m (di_iter d)" by (simp add: db_state_def)
    let ?d = "d\<lparr>saved_key := usr es ?m\<rparr>"
    obtain b d' q where r: "c_loop (turn_back_step iops) ?d = Some (b, d')" "db_state s es q d'"
      "saved_key d' = (if b then usr es ?m else [])" "di_direction d' = IterForward" "di_valid d' \<longrightarrow> b"
      "if b then q < ?m \<and> Compare C (usr es q) (usr es ?m) < 0 \<and> (\<forall>t. q < t \<and> t < ?m \<longrightarrow> \<not> Compare C (usr es t) (usr es ?m) < 0)
       else \<forall>t < ?m. \<not> Compare C (usr es t) (usr es ?m) < 0"
      using turn_back [OF E, of s ?m ?d "usr es ?m"] at_m m IterForward by (simp split del: if_split) blast
    have eq: "DBIter_Prev iops smp d = (if b then FindPrevUserEntry iops smp (d'\<lparr>di_direction := IterReverse\<rparr>) else Some d')"
      using v IterForward r(1) inner.rep_Valid [OF irep] inner.rep_key [OF irep] m
      by (simp add: DBIter_Prev_def user_of_entry [OF E m])
    show ?thesis
    proof (cases b)
      case True
      have "in_front s es q (usr es ?m)"
        using r(6) True m usr_less_index [OF E seen_less] by (fastforce simp: in_front_def not_less [symmetric])
      then have "\<exists>d''. FindPrevUserEntry iops smp (d'\<lparr>di_direction := IterReverse\<rparr>) = Some d'' \<and>
          db_rep s es (if n = 0 then length (shown_at C s es) else n - 1) d''"
        by (intro FindPrev_rep [OF E]) (use r(2) n shown_before [OF E n] in simp_all)
      then show ?thesis using eq True by simp
    next
      case False
      have "n = 0"
      proof (rule ccontr)
        assume "n \<noteq> 0"
        then have lt: "shown_at C s es ! 0 < ?m" using sorted_wrt_nth_less [OF shown_at_sorted, of 0 n] n by simp
        show False
          using r(6) False lt shown_less [OF E sh(1) shown_seen [OF shown_at_nth [OF le_less_trans [OF le0 n]]] lt] by simp
      qed
      then have "db_rep s es (length (shown_at C s es)) d'" using r False by (auto simp: db_rep_def)
      then show ?thesis using eq False \<open>n = 0\<close> by simp
    qed
  qed
qed

lemma seen_target:
  assumes E: "internal_entries C es" and t: "PackSequenceAndType s kValueTypeForSeek = Some tag" and i: "seen s es i"
  shows "internal_compare C (fst (es ! i)) (ikey target tag) < 0 \<longleftrightarrow> Compare C (usr es i) target < 0"
proof -
  note pk = ParseInternalKey_parts(4) [OF parsed_entry(1) [OF E seen_less [OF i]]]
  have "\<not> tag < key_tag (fst (es ! i))" using lookup_tag [OF t pk] i by (auto simp: seen_def dest: leD)
  then show ?thesis by (simp add: internal_less user_of_entry [OF E seen_less [OF i]])
qed

lemma db_seek:
  assumes E: "internal_entries C es" and st: "db_state s es p d" and s: "s \<le> kMaxSequenceNumber" and u: "uvalid target"
  shows "\<exists>d'. DBIter_Seek iops smp target d = Some d' \<and> db_rep s es (seek_index (Compare C) (db_view C s es) target) d'"
proof -
  let ?S = "shown_at C s es"
  have rep: "irep es p (di_iter d)" "di_sequence d = s" using st by (simp_all add: db_state_def)
  obtain tag where t: "PackSequenceAndType s kValueTypeForSeek = Some tag"
    using PackSequenceAndType_ok s by (auto simp: kValueTypeForSeek_def)
  have k: "AppendInternalKey [] \<lparr>p_user_key = target, p_sequence = s, p_type = kValueTypeForSeek\<rparr> = Some (ikey target tag)"
    using t by (simp add: AppendInternalKey_Some)
  let ?before = "\<lambda>e. internal_compare C (fst e) (ikey target tag) < 0"
  define j where "j = seek_index (internal_compare C) es (ikey target tag)"
  have jl: "j \<le> length es" by (simp add: j_def seek_index_def length_takeWhile_le)
  have low: "?before (es ! w)" if "w < j" for w
    using nth_mem [of w "takeWhile ?before es"] that by (auto simp: j_def seek_index_def takeWhile_nth dest: set_takeWhileD)
  have high: "\<not> ?before (es ! w)" if w: "j \<le> w" "w < length es" for w
  proof
    assume b: "?before (es ! w)"
    have "\<not> ?before (es ! j)" using nth_length_takeWhile [of ?before es] w by (simp add: j_def seek_index_def)
    moreover have "j \<noteq> w \<Longrightarrow> internal_compare C (fst (es ! j)) (fst (es ! w)) < 0"
      using E w by (simp add: internal_entries_def sorted_wrt_iff_nth_less)
    moreover have "internal_compare C (fst (es ! j)) (fst (es ! j)) \<le> 0" using compare_refl by (simp add: internal_le)
    ultimately have "internal_compare C (ikey target tag) (fst (es ! w)) \<le> 0"
      using internal_trans [of "ikey target tag" "fst (es ! j)" "fst (es ! w)"]
        internal_greater [of "ikey target tag" "fst (es ! j)"] by (cases "j = w") auto
    then show False using b internal_greater [of "ikey target tag" "fst (es ! w)"] by simp
  qed
  have less: "Compare C (usr es i) target < 0 \<longleftrightarrow> i < j" if "seen s es i" for i
    using seen_target [OF E t that, of target] low [of i] high [of i] seen_less [OF that] by (meson not_le)
  obtain i where i: "Seek iops (ikey target tag) (di_iter d) = Some i" "irep es j i"
    using inner.rep_seek [OF rep(1) seek_valid [OF u]] by (auto simp: j_def)
  note V = inner.rep_Valid [OF i(2)]
  let ?d = "d\<lparr>di_direction := IterForward, saved_value := [], saved_key := ikey target tag, di_iter := i\<rparr>"
  have st': "db_state s es j ?d" using st i(2) by (simp add: db_state_def)
  define n where "n = seek_index (Compare C) (db_view C s es) target"
  have n: "n = length (takeWhile (\<lambda>i. i < j) ?S)"
  proof -
    have "takeWhile (\<lambda>i. Compare C (usr es i) target < 0) ?S = takeWhile (\<lambda>i. i < j) ?S"
      by (rule takeWhile_cong) (use less in \<open>auto simp: set_shown_at dest: shown_seen\<close>)
    then show ?thesis by (simp add: n_def seek_index_def db_view_def takeWhile_map o_def)
  qed
  have after: "t \<in> set (drop n ?S) \<longleftrightarrow> j \<le> t \<and> shown C s es t" for t
  proof -
    have "sorted_wrt (\<lambda>a b. b < j \<longrightarrow> a < j) ?S" using shown_at_sorted [of C s es] by (rule sorted_wrt_mono_rel [rotated]) simp
    then have "set (drop n ?S) = {t \<in> set ?S. \<not> t < j}" unfolding n by (rule set_drop_while)
    then show ?thesis unfolding set_shown_at by (simp only: mem_Collect_eq not_less) blast
  qed
  have "\<exists>d'. (if Valid iops i then FindNextUserEntry iops smp False ?d else Some (?d\<lparr>di_valid := False\<rparr>)) = Some d' \<and> db_rep s es n d'"
  proof (cases "j < length es")
    case True
    have "\<exists>d'. c_loop (find_next_step iops smp) (False, ?d) = Some d' \<and>
        next_result s es (\<lambda>t. j \<le> t \<and> shown C s es t \<and> (False \<longrightarrow> Compare C (saved_key ?d) (usr es t) < 0)) d'"
    proof (rule forward_loop [OF E st' True])
      fix t w
      assume "j \<le> t" "w < j" "seen s es w" "seen s es t" "Compare C (usr es w) (usr es t) = 0"
      then show "False \<and> Compare C (usr es t) (saved_key ?d) \<le> 0"
        using less [of w] less [of t] same_user user_le_less [of "usr es t" "usr es w" target] by auto
    qed simp_all
    then obtain d' where d': "c_loop (find_next_step iops smp) (False, ?d) = Some d'"
      "next_result s es (\<lambda>t. j \<le> t \<and> shown C s es t \<and> (False \<longrightarrow> Compare C (saved_key ?d) (usr es t) < 0)) d'" by blast
    have "n \<le> length ?S" unfolding n by (rule length_takeWhile_le)
    then have "db_rep s es n d'" by (intro next_result_rep [OF d'(2)]) (simp_all only: after simp_thms)
    then show ?thesis using V True d'(1) by (simp add: FindNextUserEntry_def)
  next
    case False
    have "t \<notin> set (drop n ?S)" for t
    proof
      assume "t \<in> set (drop n ?S)"
      then have jt: "j \<le> t" and sh: "shown C s es t" using after by blast+
      show False using jt False seen_less [OF shown_seen [OF sh]] by linarith
    qed
    then have "drop n ?S = []" by (metis all_not_in_conv set_empty)
    moreover have "n \<le> length ?S" unfolding n by (rule length_takeWhile_le)
    ultimately have "n = length ?S" by simp
    then have "db_rep s es n (?d\<lparr>di_valid := False\<rparr>)" using st' by (auto simp: db_rep_def)
    then show ?thesis using V False by simp
  qed
  then show ?thesis using i(1) k rep(2) by (simp add: DBIter_Seek_def Let_def n_def)
qed

lemma db_view_nth: "n < length (shown_at C s es) \<Longrightarrow> db_view C s es ! n = (usr es (shown_at C s es ! n), snd (es ! (shown_at C s es ! n)))"
  by (simp add: db_view_def)

lemma length_db_view [simp]: "length (db_view C s es) = length (shown_at C s es)"
  by (simp add: db_view_def)

lemma db_observe:
  assumes E: "internal_entries C es" and rep: "db_rep s es n d" and n: "n < length (shown_at C s es)"
  shows "DBIter_key iops d = Some (fst (db_view C s es ! n))" "DBIter_value iops d = Some (snd (db_view C s es ! n))"
proof -
  let ?m = "shown_at C s es ! n"
  have m: "?m < length es" using seen_less [OF shown_seen [OF shown_at_nth [OF n]]] .
  obtain p where p: "irep es p (di_iter d)" "di_valid d" "if di_direction d = IterForward then p = ?m
      else saved_key d = usr es ?m \<and> saved_value d = snd (es ! ?m) \<and> in_front s es p (usr es ?m)"
    using rep n by (auto simp: db_rep_def db_state_def)
  then show "DBIter_key iops d = Some (fst (db_view C s es ! n))" "DBIter_value iops d = Some (snd (db_view C s es ! n))"
    using inner.rep_key [OF p(1)] inner.rep_value [OF p(1)] m
    by (auto simp: DBIter_key_def DBIter_value_def db_view_nth [OF n] user_of_entry [OF E m] split: if_splits)
qed

definition db_iter_rep :: "entries \<Rightarrow> nat \<Rightarrow> ('d, 'i) DBIter \<Rightarrow> bool" where
  "db_iter_rep vs n d \<longleftrightarrow> (\<exists>es s. internal_entries C es \<and> s \<le> kMaxSequenceNumber \<and> vs = db_view C s es \<and> db_rep s es n d)"

lemma db_iter_repI: "internal_entries C es \<Longrightarrow> s \<le> kMaxSequenceNumber \<Longrightarrow> db_rep s es n d \<Longrightarrow> db_iter_rep (db_view C s es) n d"
  unfolding db_iter_rep_def by blast

lemma db_iterator: "iterator (db_iter_ops iops smp) db_iter_rep (Compare C) uvalid"
proof (unfold_locales, goal_cases)
  case (1 vs n d)
  then show ?case by (auto simp: db_iter_rep_def db_rep_def)
next
  case (2 vs n d)
  then show ?case by (auto simp: db_iter_rep_def db_rep_def db_iter_ops_def)
next
  case (3 vs n d)
  then show ?case using db_observe(1) by (fastforce simp: db_iter_rep_def db_iter_ops_def)
next
  case (4 vs n d)
  then show ?case using db_observe(2) by (fastforce simp: db_iter_rep_def db_iter_ops_def)
next
  case (5 vs n d)
  then show ?case using inner.rep_status by (auto simp: db_iter_rep_def db_rep_def db_state_def db_iter_ops_def DBIter_status_def)
next
  case (6 vs n d)
  then obtain es s p where r: "internal_entries C es" "s \<le> kMaxSequenceNumber" "vs = db_view C s es" "db_state s es p d"
    unfolding db_iter_rep_def db_rep_def by blast
  show ?case using db_first [OF r(1,4), of smp] r(1-3) unfolding db_iter_rep_def db_iter_ops_def by auto
next
  case (7 vs n d)
  then obtain es s p where r: "internal_entries C es" "s \<le> kMaxSequenceNumber" "vs = db_view C s es" "db_state s es p d"
    unfolding db_iter_rep_def db_rep_def by blast
  show ?case using db_last [OF r(1,4), of smp] r(1-3) unfolding db_iter_rep_def db_iter_ops_def by auto
next
  case (8 vs n d target)
  then obtain es s p where r: "internal_entries C es" "s \<le> kMaxSequenceNumber" "vs = db_view C s es" "db_state s es p d"
    unfolding db_iter_rep_def db_rep_def by blast
  show ?case using db_seek [OF r(1,4,2) 8(2), of smp] r(1-3) unfolding db_iter_rep_def db_iter_ops_def by auto
next
  case (9 vs n d)
  then obtain es s where r: "internal_entries C es" "s \<le> kMaxSequenceNumber" "vs = db_view C s es" "db_rep s es n d"
    unfolding db_iter_rep_def by blast
  show ?case using db_next [OF r(1,4), of smp] 9(2) r(1-3) unfolding db_iter_rep_def db_iter_ops_def by auto
next
  case (10 vs n d)
  then obtain es s where r: "internal_entries C es" "s \<le> kMaxSequenceNumber" "vs = db_view C s es" "db_rep s es n d"
    unfolding db_iter_rep_def by blast
  obtain d' where "DBIter_Prev iops smp d = Some d'" "db_rep s es (if n = 0 then length vs else n - 1) d'"
    using db_prev [OF r(1,4), of smp] 10(2) unfolding r(3) length_db_view by blast
  moreover have "db_iter_rep vs (if n = 0 then length vs else n - 1) d'" unfolding r(3)
    by (rule db_iter_repI [OF r(1,2)]) (use calculation(2) in \<open>unfold r(3)\<close>)
  ultimately show ?case unfolding db_iter_ops_def by simp
qed

lemma db_iter_new:
  assumes "internal_entries C es" "s \<le> kMaxSequenceNumber" "irep es p i"
  shows "db_iter_rep (db_view C s es) (length (db_view C s es)) (DBIter_new db C i s seed)"
proof -
  have "seed_ok (Random_Next (Random_new seed))"
    using lehmer_step [of "Random_new seed"] Random_new_ok [of seed] by (simp add: seed_ok_def del: One_nat_def)
  then have "db_state s es p (DBIter_new db C i s seed) \<and> \<not> di_valid (DBIter_new db C i s seed)"
    using assms(3) by (simp add: db_state_def DBIter_new_def RandomCompactionPeriod_eq status_ok_def status_OK_def)
  then have "db_rep s es (length (shown_at C s es)) (DBIter_new db C i s seed)" unfolding db_rep_def by blast
  then show ?thesis using assms(1,2) unfolding db_iter_rep_def by auto
qed

end

text \<open>The iterator of a memtable may be the internal iterator.\<close>

context user_comparator
begin

lemma mem_db_cursor: "db_cursor C (MemTableIterator C) mem_iter_rep (\<lambda>k. 8 \<le> length k \<and> length k < 2 ^ 32) (\<lambda>k. length k + 8 < 2 ^ 32)"
  by unfold_locales simp

end

sublocale user_comparator \<subseteq> mem_db: db_cursor C "MemTableIterator C" mem_iter_rep "\<lambda>k. 8 \<le> length k \<and> length k < 2 ^ 32"
    "\<lambda>k. length k + 8 < 2 ^ 32"
  by (rule mem_db_cursor)

sublocale user_comparator \<subseteq> mem_db_iter: iterator "db_iter_ops (MemTableIterator C) smp" mem_db.db_iter_rep "Compare C"
    "\<lambda>k. length k + 8 < 2 ^ 32"
  by (rule mem_db.db_iterator)

section \<open>What a snapshot shows of a memtable\<close>

context user_comparator
begin

lemma view_sorted:
  assumes "internal_entries C es"
  shows "sorted_wrt (\<lambda>a b. Compare C a b < 0) (map fst (db_view C s es))"
proof -
  have "sorted_wrt (\<lambda>i j. Compare C (usr es i) (usr es j) < 0) (shown_at C s es)"
    using shown_at_sorted [of C s es]
    by (rule sorted_wrt_mono_rel [rotated]) (use shown_less [OF assms] shown_seen in \<open>simp add: set_shown_at\<close>)
  then show ?thesis by (simp add: db_view_def sorted_wrt_map)
qed

lemma parse_write:
  assumes "fst w \<le> kMaxSequenceNumber"
  shows "ParseInternalKey (fst (write_entry w)) = Some \<lparr>p_user_key = op_key (snd w), p_sequence = fst w, p_type = op_type (snd w)\<rparr>"
  using Parse_ikey [of "\<lparr>p_user_key = op_key (snd w), p_sequence = fst w, p_type = op_type (snd w)\<rparr>" "write_tag w"]
    write_tag_pack [OF assms] by (simp add: write_entry_def)

lemma mem_internal_entries:
  assumes "mem_rep m es" "set es = write_entry ` set ws" "history_ok ws"
  shows "internal_entries C es"
proof -
  have "ParseInternalKey (fst e) \<noteq> None \<and> length (fst e) + length (snd e) < 2 ^ 63" if e: "e \<in> set es" for e
  proof -
    obtain w where w: "w \<in> set ws" "e = write_entry w" using assms(2) e by auto
    have bound: "fst w \<le> kMaxSequenceNumber" using assms(3) w(1) by (auto simp: history_ok_def)
    have "ParseInternalKey (fst e) \<noteq> None" unfolding w(2) parse_write [OF bound] by simp
    moreover have "length (fst e) < 2 ^ 32" "length (snd e) < 2 ^ 32" using assms(1) e by (simp_all add: mem_rep_def entry_ok_def)
    then have "length (fst e) + length (snd e) < 2 ^ 63" by simp
    ultimately show ?thesis by blast
  qed
  then show ?thesis using mem_rep_sorted [OF assms(1)] by (simp add: internal_entries_def)
qed

lemma view_of_history:
  assumes rep: "mem_rep m es" "set es = write_entry ` set ws" and ws: "history_ok ws"
  shows "(k, v) \<in> set (db_view C s es) \<longleftrightarrow> (\<exists>q. newest C ws k s = Some (q, OpPut k v))"
proof -
  note E = mem_internal_entries [OF rep ws]
  have parsed: "parsed es i = \<lparr>p_user_key = op_key (snd w), p_sequence = fst w, p_type = op_type (snd w)\<rparr>"
    if "w \<in> set ws" "es ! i = write_entry w" for i w
    using parse_write [of w] ws that by (auto simp: parsed_def history_ok_def)
  have at: "\<exists>w \<in> set ws. es ! i = write_entry w" if "i < length es" for i using nth_mem [OF that] rep(2) by auto
  have later: "fst w' < fst w" if w: "w \<in> set ws" "w' \<in> set ws" "es ! i = write_entry w" "es ! j = write_entry w'"
    "Compare C (op_key (snd w)) (op_key (snd w')) = 0" "i < j" "j < length es" for i j w w'
  proof -
    have "internal_compare C (fst (es ! i)) (fst (es ! j)) < 0"
      using E w(6,7) by (simp add: internal_entries_def sorted_wrt_iff_nth_less)
    then have "write_tag w' < write_tag w" using w(3-5) by (simp add: internal_less write_entry_def)
    moreover have "fst w \<le> kMaxSequenceNumber" "fst w' \<le> kMaxSequenceNumber" using ws w(1,2) by (auto simp: history_ok_def)
    ultimately have "\<not> fst w < fst w'" using write_tag_less [of w w'] by fastforce
    moreover have "w \<noteq> w'" using \<open>write_tag w' < write_tag w\<close> by auto
    then have "fst w \<noteq> fst w'" using same_sequence [OF ws w(1,2)] by blast
    ultimately show ?thesis by simp
  qed
  show ?thesis
  proof
    assume "(k, v) \<in> set (db_view C s es)"
    then obtain i where i: "shown C s es i" "k = usr es i" "v = snd (es ! i)" by (auto simp: db_view_def set_shown_at)
    obtain w where w: "w \<in> set ws" "es ! i = write_entry w" using at seen_less [OF shown_seen [OF i(1)]] by blast
    have put: "snd w = OpPut k v" "fst w \<le> s"
      using i w(2) parsed [OF w] by (cases "snd w"; simp add: shown_def seen_def write_entry_def kTypeValue_def kTypeDeletion_def)+
    have "newest C ws k s \<noteq> None"
    proof
      assume "newest C ws k s = None"
      from newest_None [OF this w(1)] show False using put compare_refl by simp
    qed
    then obtain w' where w': "newest C ws k s = Some w'" by (metis not_None_eq)
    note n = newest_Some [OF ws w']
    have "w' = w"
    proof (rule ccontr)
      assume ne: "w' \<noteq> w"
      have le: "fst w \<le> fst w'" using n(4) [OF w(1)] put compare_refl by simp
      have same: "Compare C (op_key (snd w)) (op_key (snd w')) = 0" using n(2) put(1) user_zero by simp
      obtain j where j: "j < length es" "es ! j = write_entry w'" using n(1) rep(2) by (metis imageI in_set_conv_nth)
      have "i \<noteq> j"
        using w j parsed [OF w] parsed [OF n(1) j(2)] le same_sequence [OF ws w(1) n(1)] ne by auto
      moreover have "\<not> i < j" using later [OF w(1) n(1) w(2) j(2) same _ j(1)] le by fastforce
      ultimately have "j < i" by simp
      moreover have "seen s es j" using n(3) j(1) parsed [OF n(1) j(2)] by (simp add: seen_def)
      ultimately have "Compare C (usr es j) (usr es i) \<noteq> 0" using i(1) unfolding shown_def by blast
      then show False using i(2) n(2) parsed [OF n(1) j(2)] by simp
    qed
    then show "\<exists>q. newest C ws k s = Some (q, OpPut k v)" using w' put(1) by (metis prod.collapse)
  next
    assume "\<exists>q. newest C ws k s = Some (q, OpPut k v)"
    then obtain q where w': "newest C ws k s = Some (q, OpPut k v)" by blast
    note n = newest_Some [OF ws w']
    obtain i where i: "i < length es" "es ! i = write_entry (q, OpPut k v)" using n(1) rep(2) by (metis imageI in_set_conv_nth)
    note p = parsed [OF n(1) i(2)]
    have "Compare C (usr es j) (usr es i) \<noteq> 0" if j: "j < i" "seen s es j" for j
    proof
      assume z: "Compare C (usr es j) (usr es i) = 0"
      obtain w where w: "w \<in> set ws" "es ! j = write_entry w" using at seen_less [OF j(2)] by blast
      have "fst w \<le> q" using n(4) [OF w(1)] z j(2) parsed [OF w] p by (simp add: seen_def)
      moreover have "q < fst w" using later [OF w(1) n(1) w(2) i(2) _ j(1) i(1)] z parsed [OF w] p by simp
      ultimately show False by simp
    qed
    then have "shown C s es i" using i(1) n(3) p by (simp add: shown_def seen_def)
    then show "(k, v) \<in> set (db_view C s es)"
      using i(2) p by (auto simp: db_view_def set_shown_at write_entry_def intro!: image_eqI [of _ _ i])
  qed
qed

end

section \<open>Properties\<close>

text \<open>
  C3: The iterator of the database over a memtable shows a snapshot: after any history of writes, and for any
  snapshot and seed of the sampling, every sequence of calls, changes of direction included, leaves it where the same
  calls leave a position in a list that is sorted by user key and holds exactly the keys whose newest
  write up to the snapshot is a put, with the value of that write; whatever the database does with the samples.
\<close>

theorem db_iterator_shows_snapshot:
  assumes "user_comparator C" "history_ok ws" "s \<le> kMaxSequenceNumber"
    and "\<And>t. CallSeek t \<in> set calls \<Longrightarrow> length t + 8 < 2 ^ 32"
  shows "\<exists>m vs. mem_adds ws (MemTable_new C) = Some m \<and>
    sorted_wrt (\<lambda>a b. Compare C (fst a) (fst b) < 0) vs \<and>
    (\<forall>k v. (k, v) \<in> set vs \<longleftrightarrow> (\<exists>q. newest C ws k s = Some (q, OpPut k v))) \<and>
    (\<forall>n. cursor_run (Compare C) vs calls (length vs) = Some n \<longrightarrow>
      (\<exists>d. iter_run (db_iter_ops (MemTableIterator C) sample) calls (DBIter_new db C (MemTable_NewIterator m) s seed) = Some d \<and>
        DBIter_status (MemTableIterator C) d = status_OK \<and> di_valid d = (n < length vs) \<and>
        (n < length vs \<longrightarrow> DBIter_key (MemTableIterator C) d = Some (fst (vs ! n)) \<and>
          DBIter_value (MemTableIterator C) d = Some (snd (vs ! n)))))"
proof -
  note C = assms(1)
  obtain m es where m: "mem_adds ws (MemTable_new C) = Some m" "user_comparator.mem_rep C m es" "set es = write_entry ` set ws"
    using user_comparator.mem_adds_rep [OF C user_comparator.mem_new_rep [OF C], of "[]" ws] assms(2) by auto
  let ?vs = "db_view C s es" and ?ops = "db_iter_ops (MemTableIterator C) sample" and ?rep = "user_comparator.mem_iter_rep C"
  note E = user_comparator.mem_internal_entries [OF C m(2,3) assms(2)]
  note cur = user_comparator.mem_db_cursor [OF C]
  note it = db_cursor.db_iterator [OF cur, of sample]
  have new: "db_cursor.db_iter_rep C ?rep ?vs (length ?vs) (DBIter_new db C (MemTable_NewIterator m) s seed)"
    by (rule db_cursor.db_iter_new [OF cur E assms(3) user_comparator.mem_iter_new [OF C m(2)]])
  have run: "\<exists>d. iter_run ?ops calls (DBIter_new db C (MemTable_NewIterator m) s seed) = Some d \<and>
      DBIter_status (MemTableIterator C) d = status_OK \<and> di_valid d = (n < length ?vs) \<and>
      (n < length ?vs \<longrightarrow> DBIter_key (MemTableIterator C) d = Some (fst (?vs ! n)) \<and>
        DBIter_value (MemTableIterator C) d = Some (snd (?vs ! n)))"
    if n: "cursor_run (Compare C) ?vs calls (length ?vs) = Some n" for n
  proof -
    obtain d where d: "iter_run ?ops calls (DBIter_new db C (MemTable_NewIterator m) s seed) = Some d"
      "db_cursor.db_iter_rep C ?rep ?vs n d"
      using iterator.run_refines [OF it new n assms(4)] by blast
    show ?thesis
      using d(1) iterator.rep_Valid [OF it d(2)] iterator.rep_key [OF it d(2)] iterator.rep_value [OF it d(2)]
        iterator.observe(4) [OF it d(2)] by (simp add: db_iter_ops_def)
  qed
  have "sorted_wrt (\<lambda>a b. Compare C (fst a) (fst b) < 0) ?vs"
    using user_comparator.view_sorted [OF C E, of s] by (simp add: sorted_wrt_map)
  then show ?thesis using m(1) run user_comparator.view_of_history [OF C m(2,3) assms(2)] by blast
qed

lemma db_iterator_shows_snapshot_witness:
  "\<exists>m (vs :: entries). mem_adds [(1, OpPut [7] [1]), (2, OpPut [8] [2]), (4, OpDelete [7])] (MemTable_new BytewiseComparator) = Some m \<and>
     ([7], [1]) \<in> set vs \<and> ([8], [2]) \<in> set vs \<and>
     (\<exists>d. iter_run (db_iter_ops (MemTableIterator BytewiseComparator) (\<lambda>_ n. n + 1)) [CallSeek [7]]
        (DBIter_new (0 :: nat) BytewiseComparator (MemTable_NewIterator m) 3 301) = Some d \<and>
        DBIter_status (MemTableIterator BytewiseComparator) d = status_OK)"
proof -
  let ?ws = "[(1, OpPut [7] [1]), (2, OpPut [8] [2]), (4, OpDelete [7])]"
  have ok: "history_ok ?ws" by (simp add: history_ok_def op_ok_def kMaxSequenceNumber_def)
  have new: "newest BytewiseComparator ?ws [7] 3 = Some (1, OpPut [7] [1])" "newest BytewiseComparator ?ws [8] 3 = Some (2, OpPut [8] [2])"
    by (simp_all add: newest_def BytewiseComparator_def slice_compare_def)
  obtain m vs where m: "mem_adds ?ws (MemTable_new BytewiseComparator) = Some m"
    "\<forall>k v. (k, v) \<in> set vs \<longleftrightarrow> (\<exists>q. newest BytewiseComparator ?ws k 3 = Some (q, OpPut k v))"
    "\<forall>n. cursor_run (Compare BytewiseComparator) vs [CallSeek [7]] (length vs) = Some n \<longrightarrow>
      (\<exists>d. iter_run (db_iter_ops (MemTableIterator BytewiseComparator) (\<lambda>_ n. n + 1)) [CallSeek [7]]
          (DBIter_new (0 :: nat) BytewiseComparator (MemTable_NewIterator m) 3 301) = Some d \<and>
        DBIter_status (MemTableIterator BytewiseComparator) d = status_OK \<and> di_valid d = (n < length vs) \<and>
        (n < length vs \<longrightarrow> DBIter_key (MemTableIterator BytewiseComparator) d = Some (fst (vs ! n)) \<and>
          DBIter_value (MemTableIterator BytewiseComparator) d = Some (snd (vs ! n))))"
    using db_iterator_shows_snapshot [OF bytewise.user_comparator_axioms ok, of 3 "[CallSeek [7]]" "\<lambda>_ n. n + 1" "0 :: nat" 301]
    by (auto simp: kMaxSequenceNumber_def simp del: mem_adds.simps)
  have "cursor_run (Compare BytewiseComparator) vs [CallSeek [7]] (length vs) = Some (seek_index (Compare BytewiseComparator) vs [7])" by simp
  with m(3) show ?thesis using m(1,2) new by blast
qed

end
