(* ===== verification/Spec2Isabelle.thy ===== *)
theory Spec2Isabelle
  imports PB_Encode_Props PB_Codec_Props PB_Safe_Props CCT_Proto FirebaseCore_Proto FBase64 LDB_Log_Props LDB_Block_Props LDB_Filter_Props LDB_WriteBatch_Props LDB_Arena LDB_Merger_Props LDB_Table_Props LDB_Filename LDB_VersionEdit LDB_DbIter_Props
begin

text \<open>
  The C and C++ code that the iOS application in this repository links in: nanopb (the protocol buffer
  runtime of the Firebase pods) with the descriptors generated for it, the base64 functions of the
  web socket library, and LevelDB, the key-value store under the cache of the Realtime Database.  Paths below are relative to \<open>src/iOS App/Pods\<close>.

  \<^bold>\<open>Foundations.\<close>  \<open>PB_Prelude\<close> has the machine integers, the shape of a C function's result (\<open>cres\<close>: no
  result is undefined behaviour or a run that does not end; false or true with an out value otherwise),
  the loop combinator \<open>c_loop\<close> with its rule for total correctness, and little-endian bytes.  \<open>PB_Memory\<close> is
  the memory: a partial map from addresses to bytes, the blocks of \<open>realloc\<close>, the stack of locals whose
  address is taken.  An access to an unmapped byte has no result, so a theorem that gives a result is a
  theorem of memory safety.

  \<^bold>\<open>nanopb\<close> (\<open>nanopb/pb.h\<close>, \<open>pb_common.c\<close>, \<open>pb_decode.c\<close>, \<open>pb_encode.c\<close>).
  \<open>PB_Types\<close>: field descriptors, the macros that make them, the layout of C structures.  \<open>PB_Iter\<close>: the
  field iterator, refined to positions in the descriptor array (\<open>iter_at\<close>, \<open>iter_find_at\<close>).  \<open>PB_Istream\<close> and
  \<open>PB_Ostream\<close>: streams, varints, tags, skipping, substreams.  \<open>PB_Defaults\<close>, \<open>PB_Decode\<close>, \<open>PB_Message\<close>: default
  values, release, field decoders, allocation, extensions, the message loop.  \<open>PB_Encode\<close>: the encoder.
  \<open>CCT_Proto\<close> and \<open>FirebaseCore_Proto\<close>: the generated structures and descriptors
  (\<open>cct.nanopb.[ch]\<close>, \<open>firebasecore.nanopb.[ch]\<close>).
  The functions that call each other in a cycle take the operations on nested messages as a parameter;
  \<open>pb_decode_noinit\<close>, \<open>pb_encode\<close> and the default and release functions tie the knot with a bound on the nesting
  depth.  A descriptor is a finite tree, so a bound larger than its depth is always enough; a message
  type that contains itself has no descriptor in the model.

  \<^bold>\<open>Interfaces.\<close>  \<open>byte_source\<close> and \<open>limited_source\<close> (\<open>PB_Source\<close>) are what the decoders need of an input stream;
  \<open>byte_sink\<close> (\<open>PB_Sink\<close>) is what the encoder needs of an output stream.  They are interpreted on buffer streams
  and on the sizing stream.  Lemmas about streams are proved in the locales: varints and tags
  (\<open>PB_Varint\<close>), skipping and substreams (\<open>PB_Skip\<close>), the safety of decoding (\<open>PB_Safe\<close>).

  \<^bold>\<open>Results.\<close>  \<open>PB_Wire\<close> gives the wire format as a function of the memory and shows that \<open>pb_encode\<close> implements
  it; \<open>PB_Encode_Props\<close> draws the consequences for buffers and sizes.  \<open>PB_Codec_Props\<close> has the round trips of
  the scalar encodings and what skipping and substreams consume.  \<open>PB_Frame\<close> says when a descriptor has static
  fields that lie in the structure (\<open>static_msg\<close>), and \<open>PB_Safe\<close>, \<open>PB_Safe_Props\<close> show that decoding such a
  message, from any bytes, returns and stays in the structure.  \<open>FBase64\<close> models \<open>fbase64.c\<close>: the encoder
  refines the format, the decoder inverts it, and it stays in its buffers on any string.

  \<^bold>\<open>LevelDB\<close> (\<open>leveldb-library\<close>).  Written from the bottom up; a failing assertion, a read outside of a buffer and
  an undefined operation have no result (\<open>None\<close>), so that a theorem that gives a result excludes them, with these
  exceptions: \<open>DecodeFixed32\<close>, \<open>DecodeFixed64\<close> and \<open>ExtractUserKey\<close> have an unspecified value on arguments that are too
  short (so a theorem that gives the value excludes these, but one that only gives a result does not); \<open>remove_prefix\<close>
  and \<open>make_status\<close> leave out the assertions on their arguments; \<open>bloom_CreateFilter\<close> sets bits by list updates, which
  ignore positions outside, and takes the number of keys without the cast to \<open>int\<close>; the counter \<open>found\<close> of
  \<open>batch_Iterate\<close> is a natural number.  \<open>AllocateAligned\<close> has the alignment 8 of the 64-bit targets, and the block cache of \<open>fetch_block\<close> is
  a parameter; the properties of whole tables are about tables without one.
  \<open>LDB_Slice\<close>: slices as byte lists, status values (\<open>slice.h\<close>, \<open>status.cc\<close>).  \<open>LDB_Coding\<close>: fixed and variable
  integers (\<open>util/coding.cc\<close>).  \<open>LDB_Crc32c\<close>: the table-driven checksum (\<open>util/crc32c.cc\<close>), shown in
  \<open>LDB_Crc_Spec\<close> and \<open>LDB_Crc_Props\<close> to be the polynomial remainder and to detect bursts.  \<open>LDB_Env\<close>, \<open>LDB_Files\<close>:
  the POSIX files (\<open>util/env_posix.cc\<close>) over a record of system calls, a parameter, with a contract as a
  locale.  \<open>LDB_Log\<close> with \<open>LDB_Log_Write\<close>, \<open>LDB_Log_Read\<close>, \<open>LDB_Log_Props\<close>: the record log (\<open>db/log_writer.cc\<close>,
  \<open>db/log_reader.cc\<close>).  \<open>LDB_Comparator\<close>: the comparator interface (\<open>util/comparator.cc\<close>).  \<open>LDB_Dbformat\<close> and
  \<open>LDB_Key_Props\<close>: internal keys, lookup keys, numbers (\<open>db/dbformat.cc\<close>, \<open>util/logging.cc\<close>).  \<open>LDB_Options\<close>:
  options and the filter policy interface.  \<open>LDB_Iterator\<close>: the iterator interface (\<open>iterator.h\<close>,
  \<open>table/iterator.cc\<close>, \<open>iterator_wrapper.h\<close>).  \<open>LDB_Block\<close>, \<open>LDB_Block_Layout\<close>, \<open>LDB_Block_Props\<close>: blocks
  (\<open>table/block_builder.cc\<close>, \<open>table/block.cc\<close>).  \<open>LDB_Filter\<close>, \<open>LDB_Filter_Props\<close>: the hash function, Bloom filters,
  filter blocks (\<open>util/hash.cc\<close>, \<open>util/bloom.cc\<close>, \<open>table/filter_block.cc\<close>).  \<open>LDB_Arena\<close>: \<open>util/arena.cc\<close>.
  \<open>LDB_Skiplist\<close>, \<open>LDB_Skiplist_Props\<close>: \<open>util/random.h\<close> and \<open>db/skiplist.h\<close>, nodes as numbers in an explicit
  store, since insertion updates the links of shared nodes.  \<open>LDB_Memtable\<close>, \<open>LDB_Memtable_Props\<close>: \<open>db/memtable.cc\<close>.
  \<open>LDB_WriteBatch\<close>, \<open>LDB_WriteBatch_Props\<close>: \<open>db/write_batch.cc\<close>, and the way from a batch through the memtable to a
  lookup.  \<open>LDB_Merger\<close>, \<open>LDB_Merger_Props\<close>: the merging iterator (\<open>table/merger.cc\<close>).
  \<open>LDB_Format\<close>, \<open>LDB_Format_Props\<close>: random access files, block handles, the footer, reading a block
  (\<open>table/format.cc\<close>).  \<open>LDB_TwoLevel\<close>, \<open>LDB_TwoLevel_Props\<close>: the two-level iterator (\<open>table/two_level_iterator.cc\<close>), a
  cursor in the concatenation of the blocks an index separates.  \<open>LDB_TableBuilder\<close>: the builder of tables
  (\<open>table/table_builder.cc\<close>); \<open>LDB_TableBuilder_Props\<close> states the table format as a predicate on the bytes of a file
  (\<open>table_file\<close>) and the invariant of the builder (\<open>tb_inv\<close>), and \<open>LDB_Table_Write\<close> takes it through \<open>Finish\<close>.  \<open>LDB_Table\<close>,
  \<open>LDB_Table_Read\<close>: the reader (\<open>table/table.cc\<close>) on a file in that format; \<open>LDB_Table_Props\<close> puts both together.
  \<open>LDB_Filename\<close>: the names of files and small files (\<open>db/filename.cc\<close>, \<open>util/env.cc\<close>); \<open>LDB_VersionEdit\<close>: the records of the
  descriptor log (\<open>db/version_edit.cc\<close>); \<open>LDB_DbIter\<close>, \<open>LDB_DbIter_Props\<close>: the iterator of the database
  (\<open>db/db_iter.cc\<close>), a cursor in what a snapshot shows of the entries of any internal iterator.

  \<^bold>\<open>Interfaces of LevelDB.\<close>  \<open>comparator_order\<close>, \<open>comparator_laws\<close> and \<open>user_comparator\<close> (a total preorder, with separators) are kept by the
  byte-wise comparator, and \<open>InternalKeyComparator\<close> keeps the first whenever the comparator of user keys keeps
  the second (a sublocale).  \<open>iterator\<close> says that an iterator is a cursor in a sorted list of
  entries; blocks, the memtable, the empty iterator and the caching wrapper keep it, and what clients do
  with an iterator (scans, any sequence of calls) is proved in the locale once.  \<open>filter_policy\<close> is the promise
  that a filter never denies a key it was made of; Bloom filters keep it.  \<open>key_order\<close> is what the skip list needs
  of its comparison, kept by the comparison of memtable entries.  \<open>random_access_file\<close> is what the table reader
  needs of a file, kept by memory-mapped files and by files that are read with \<open>pread\<close>; \<open>two_level\<close> combines two
  iterator contracts with an order, and every comparator gives one for the blocks of a table; \<open>table_build\<close> is
  a device, a comparator and options that fit together, kept by POSIX files with the default options and Bloom
  filters.  \<open>db_cursor\<close> is a comparator with an iterator of internal keys, kept by the memtable.  In \<open>LDB_Files\<close>,
  \<open>writable_file\<close> is the contract of \<open>env.h\<close>, \<open>buffered_file\<close> adds that the few bytes of a block's trailer always fit
  into a flushed file, and \<open>reliable_file\<close> that nothing fails; \<open>sequential_file\<close> lets every read fail and \<open>readable_file\<close> none.
  POSIX files keep the first two and \<open>sequential_file\<close> over every \<open>fallible_kernel\<close>, where any system call may fail,
  \<open>readable_file\<close> over a \<open>posix_kernel\<close>, where reads are at most interrupted, and \<open>reliable_file\<close> over a \<open>reliable_kernel\<close>.
  The round trip of the log is about a \<open>posix_kernel\<close>; \<open>AddRecord\<close> is specified on any \<open>writable_file\<close>, where the status of
  the append that fills a trailer is ignored by the code, and the reader terminates on any \<open>sequential_file\<close>.

  \<^bold>\<open>Modelling decisions.\<close>  Integers have the widths of the 64-bit iOS targets with \<open>PB_FIELD_32BIT\<close>,
  \<open>PB_NO_PACKED_STRUCTS\<close> and \<open>PB_ENABLE_MALLOC\<close>, as the pods are configured.  The bytes of a stream buffer are
  separate from the memory of the message.  Stream callbacks, field callbacks and extension handlers are
  functions of the user and parameters of the model.  \<open>realloc\<close> chooses its addresses freely
  (\<open>answers\<close>); counters of a loop that cannot exceed a machine integer are natural numbers.

  \<^bold>\<open>Not modelled.\<close>  The Swift application, the Python scripts, the Objective-C libraries (their Apple frameworks
  are not in the repository) and project files.  Code compiled only in other configurations:
  \<open>pb_encode_negative_varint\<close> and the packed-structure macros.  Of LevelDB: the database itself, its versions, compactions, recovery, repair, the C binding and everything that is threads, locks and the
  file system beyond reading and writing an open file.
\<close>

end
